(* ===== verification/Prelude.thy ===== *)
theory Prelude
  imports Main "HOL-Library.Word" "HOL-Library.Monad_Syntax"
begin

text \<open>
  Shared vocabulary of the development: machine-integer type names, the
  memory image of packed little-endian structs, checked assertions in the option
  monad, and the generic list and option lemmas the component theories use.

  The modelled build is the little-endian one (\<open>-DBADVPN_LITTLE_ENDIAN\<close> in
  \<open>tun2socks.mk\<close>): a \<open>uint16_t\<close> field of a packed struct occupies two bytes, the low
  one first.
\<close>

unbundle bit_operations_syntax

type_synonym byte = "8 word"
type_synonym u16 = "16 word"
type_synonym u32 = "32 word"

text \<open>
  \<open>ASSERT(e)\<close> of \<open>misc/debug.h\<close>: \<open>None\<close> is a failed assertion (or an access the
  C code may not make); the theorems show that reachable states never produce it.
\<close>

definition assert_that :: "bool \<Rightarrow> unit option" where
  "assert_that b = (if b then Some () else None)"

lemma assert_that_simps [simp]:
  "assert_that True = Some ()" "assert_that False = None"
  "(assert_that b = Some u) = b" "(assert_that b = None) = (\<not> b)"
  by (simp_all add: assert_that_def)

lemma assert_bind_eq_Some [simp]:
  "(assert_that b \<bind> f = Some x) = (b \<and> f () = Some x)"
  by (cases b) simp_all

lemma assert_bind_True [simp]: "b \<Longrightarrow> assert_that b \<bind> f = f ()"
  by simp

lemmas bind_Some = Option.bind_eq_Some_conv

section \<open>Bytes and words\<close>

definition mk16 :: "byte \<Rightarrow> byte \<Rightarrow> u16" where
  "mk16 b0 b1 = ucast b0 OR push_bit 8 (ucast b1)"

definition lo16 :: "u16 \<Rightarrow> byte" where
  "lo16 x = ucast x"

definition hi16 :: "u16 \<Rightarrow> byte" where
  "hi16 x = ucast (drop_bit 8 x)"

definition bytes16 :: "u16 \<Rightarrow> byte list" where
  "bytes16 x = [lo16 x, hi16 x]"

definition mk32 :: "byte \<Rightarrow> byte \<Rightarrow> byte \<Rightarrow> byte \<Rightarrow> u32" where
  "mk32 b0 b1 b2 b3 = ucast b0 OR push_bit 8 (ucast b1) OR push_bit 16 (ucast b2)
     OR push_bit 24 (ucast b3)"

definition bytes32 :: "u32 \<Rightarrow> byte list" where
  "bytes32 x = [ucast x, ucast (drop_bit 8 x), ucast (drop_bit 16 x), ucast (drop_bit 24 x)]"

lemma lo16_mk16 [simp]: "lo16 (mk16 a b) = a"
  by (rule bit_word_eqI) (simp add: lo16_def mk16_def bit_simps)

lemma hi16_mk16 [simp]: "hi16 (mk16 a b) = b"
  by (rule bit_word_eqI) (auto simp add: hi16_def mk16_def bit_simps dest: bit_imp_le_length)

lemma mk16_lo_hi [simp]: "mk16 (lo16 x) (hi16 x) = x"
  by (rule bit_word_eqI) (auto simp add: hi16_def lo16_def mk16_def bit_simps)

lemma length_bytes16 [simp]: "length (bytes16 x) = 2"
  by (simp add: bytes16_def)

lemma length_bytes32 [simp]: "length (bytes32 x) = 4"
  by (simp add: bytes32_def)

lemma bytes32_mk32 [simp]: "bytes32 (mk32 a b c d) = [a, b, c, d]"
  unfolding bytes32_def mk32_def
  by (simp, intro conjI; rule bit_word_eqI)
     (auto simp add: bit_simps dest: bit_imp_le_length)

lemma mk32_sel [simp]:
  "ucast (mk32 a b c d) = a" "ucast (drop_bit 8 (mk32 a b c d)) = b"
  "ucast (drop_bit 16 (mk32 a b c d)) = c" "ucast (drop_bit 24 (mk32 a b c d)) = d"
  using bytes32_mk32 [of a b c d] unfolding bytes32_def by simp_all

lemma mk32_parts [simp]:
  "mk32 (ucast x) (ucast (drop_bit 8 x)) (ucast (drop_bit 16 x)) (ucast (drop_bit 24 x)) = x"
  unfolding mk32_def
proof (rule bit_word_eqI)
  fix n assume "n < LENGTH(32)"
  then show "bit (ucast (ucast x :: byte) OR push_bit 8 (ucast (ucast (drop_bit 8 x) :: byte)) OR
      push_bit 16 (ucast (ucast (drop_bit 16 x) :: byte)) OR
      push_bit 24 (ucast (ucast (drop_bit 24 x) :: byte)) :: u32) n = bit x n"
    by (cases "n < 8"; cases "n < 16"; cases "n < 24") (auto simp add: bit_simps)
qed

lemma mk16_eq_iff: "mk16 a b = mk16 c d \<longleftrightarrow> a = c \<and> b = d"
  by (metis lo16_mk16 hi16_mk16)

lemma unat_eq_iff: "unat a = unat b \<longleftrightarrow> a = b"
  by (simp add: word_unat_eq_iff)

lemma unat_byte_less: "unat b < 256" for b :: byte
  using unsigned_less [of b] by simp

lemma unat_u16_less: "unat x < 65536" for x :: u16
  using unsigned_less [of x] by simp

section \<open>Lists viewed as memory\<close>

text \<open>\<open>memcpy(buf + pos, src, len)\<close> into a buffer, and the pointer range \<open>buf + pos, len\<close>.\<close>

definition write_at :: "'a list \<Rightarrow> nat \<Rightarrow> 'a list \<Rightarrow> 'a list" where
  "write_at buf pos src = take pos buf @ src @ drop (pos + length src) buf"

definition seg :: "'a list \<Rightarrow> nat \<Rightarrow> nat \<Rightarrow> 'a list" where
  "seg buf pos n = take n (drop pos buf)"

lemma length_seg [simp]: "length (seg buf pos n) = min n (length buf - pos)"
  by (simp add: seg_def min.commute)

lemma length_write_at [simp]:
  "pos + length src \<le> length buf \<Longrightarrow> length (write_at buf pos src) = length buf"
  by (simp add: write_at_def)

lemma seg_write_at_same:
  "pos + length src \<le> length buf \<Longrightarrow> seg (write_at buf pos src) pos (length src) = src"
  by (simp add: seg_def write_at_def)

lemma seg_write_at_before:
  "p + n \<le> pos \<Longrightarrow> pos \<le> length buf \<Longrightarrow> seg (write_at buf pos src) p n = seg buf p n"
  by (simp add: seg_def write_at_def min_absorb1 flip: take_drop)
     (simp add: drop_take min_def)

lemma seg_write_at_after:
  assumes "pos + length src \<le> p" "pos + length src \<le> length buf"
  shows "seg (write_at buf pos src) p n = seg buf p n"
proof -
  have "drop p (write_at buf pos src) = drop p buf"
    using assms by (simp add: write_at_def)
  then show ?thesis by (simp add: seg_def)
qed

lemma seg_append_seg:
  "seg buf p m @ seg buf (p + m) n = seg buf p (m + n)"
  by (simp add: seg_def take_add add.commute)

lemma seg_all [simp]: "seg xs 0 (length xs) = xs"
  by (simp add: seg_def)

lemma seg_0 [simp]: "seg xs p 0 = []"
  by (simp add: seg_def)

end
