(* ===== verification/NetProto.thy ===== *)
theory NetProto
  imports Prelude
begin

text \<open>
  The packet headers and checksums tun2socks parses and builds itself, outside lwIP:
  \<open>misc/byteorder.h\<close>, \<open>misc/read_write_int.h\<close>, \<open>misc/ipv4_proto.h\<close>, \<open>misc/ipv6_proto.h\<close>,
  \<open>misc/udp_proto.h\<close>. Structs are records whose multi-byte fields hold the host value of the
  raw memory (so a field in network order is read with \<open>ntoh16\<close>, as in the code); a pointer
  with a length is the list of the bytes it covers.
\<close>

section \<open>Byte order\<close>

definition badvpn_reverse16 :: "u16 \<Rightarrow> u16" where
  "badvpn_reverse16 x = mk16 (hi16 x) (lo16 x)"

definition hton16 :: "u16 \<Rightarrow> u16" where "hton16 x = badvpn_reverse16 x"
definition ntoh16 :: "u16 \<Rightarrow> u16" where "ntoh16 x = hton16 x"
definition htol16 :: "u16 \<Rightarrow> u16" where "htol16 x = x"
definition ltoh16 :: "u16 \<Rightarrow> u16" where "ltoh16 x = htol16 x"

definition badvpn_reverse32 :: "u32 \<Rightarrow> u32" where
  "badvpn_reverse32 x = mk32 (ucast (drop_bit 24 x)) (ucast (drop_bit 16 x))
     (ucast (drop_bit 8 x)) (ucast x)"

definition hton32 :: "u32 \<Rightarrow> u32" where "hton32 x = badvpn_reverse32 x"
definition ntoh32 :: "u32 \<Rightarrow> u32" where "ntoh32 x = hton32 x"

definition badvpn_read_be16 :: "byte \<Rightarrow> byte \<Rightarrow> u16" where
  "badvpn_read_be16 p0 p1 = push_bit 8 (ucast p0) OR ucast p1"

lemma ntoh16_hton16 [simp]: "ntoh16 (hton16 x) = x" "hton16 (ntoh16 x) = x"
  by (simp_all add: ntoh16_def hton16_def badvpn_reverse16_def)

lemma hton16_inject [simp]: "hton16 x = hton16 y \<longleftrightarrow> x = y"
  by (metis ntoh16_hton16(1))

lemma ltoh16_htol16 [simp]: "ltoh16 (htol16 x) = x"
  by (simp add: ltoh16_def htol16_def)

lemma read_be16_mk16: "badvpn_read_be16 a b = mk16 b a"
  by (simp add: badvpn_read_be16_def mk16_def or.commute)

lemma bytes16_hton16: "bytes16 (hton16 x) = [hi16 x, lo16 x]"
  by (simp add: bytes16_def hton16_def badvpn_reverse16_def)

lemma ntoh16_mk16: "ntoh16 (mk16 a b) = mk16 b a"
  by (simp add: ntoh16_def hton16_def badvpn_reverse16_def)

lemma unat_mk16: "unat (mk16 a b) = unat a + 256 * unat b"
proof -
  have disj: "ucast a AND push_bit 8 (ucast b) = (0 :: u16)"
    by (rule bit_word_eqI) (auto simp add: bit_simps dest: bit_imp_le_length)
  have "mk16 a b = ucast a + push_bit 8 (ucast b)"
    unfolding mk16_def using disj by (simp add: disjunctive_add_eq_or)
  also have "\<dots> = of_nat (unat a + 256 * unat b)"
    by (simp add: push_bit_eq_mult mult.commute)
  finally have *: "mk16 a b = of_nat (unat a + 256 * unat b)" .
  have "unat a < 256" "unat b < 256"
    using unsigned_less [of a] unsigned_less [of b] by simp_all
  then have "unat a + 256 * unat b < 2 ^ LENGTH(16)"
    by simp
  then show ?thesis
    unfolding * by (simp only: unat_of_nat mod_less)
qed

section \<open>The Internet checksum\<close>

text \<open>The summing loops (\<open>for i < len / 2: t += badvpn_read_be16(p + 2 * i)\<close>), in 32-bit arithmetic.\<close>

fun sum_be16 :: "u32 \<Rightarrow> byte list \<Rightarrow> u32" where
  "sum_be16 t (p0 # p1 # ps) = sum_be16 (t + ucast (badvpn_read_be16 p0 p1)) ps"
| "sum_be16 t _ = t"

definition udp_checksum_summer :: "byte list \<Rightarrow> u32" where
  "udp_checksum_summer data = sum_be16 0 data"

text \<open>The loop \<open>while (t >> 16) t = (t & 0xFFFF) + (t >> 16)\<close>.\<close>

lemma fold_carry_hi: "unat (drop_bit 16 t) = unat t div 65536" for t :: u32
proof -
  have "unat t < 4294967296"
    using unsigned_less [of t] by simp
  then show ?thesis
    by (simp add: drop_bit_eq_div unat_div)
qed

lemma fold_carry_decreases:
  fixes t :: u32
  assumes "drop_bit 16 t \<noteq> 0"
  shows "unat ((t AND 0xFFFF) + drop_bit 16 t) < unat t"
    and "unat ((t AND 0xFFFF) + drop_bit 16 t) = unat t mod 65536 + unat t div 65536"
proof -
  have lo: "unat (t AND 0xFFFF) = unat t mod 65536"
  proof -
    have "t AND 0xFFFF = take_bit 16 t"
      by (simp add: take_bit_eq_mask mask_numeral)
    then show ?thesis by (simp add: take_bit_eq_mod unat_mod_distrib)
  qed
  note hi = fold_carry_hi [of t]
  have bnd: "unat t < 4294967296"
    using unsigned_less [of t] by simp
  have "unat t mod 65536 + unat t div 65536 < 4294967296"
    using bnd by (auto intro: le_less_trans [OF add_mono [of _ 65535 _ 65536]])
  then show eq: "unat ((t AND 0xFFFF) + drop_bit 16 t) = unat t mod 65536 + unat t div 65536"
    by (simp add: unat_word_ariths lo hi)
  have "unat t div 65536 \<noteq> 0"
    using assms hi by (metis unsigned_eq_0_iff)
  moreover have "unat t = 65536 * (unat t div 65536) + unat t mod 65536"
    by simp
  ultimately show "unat ((t AND 0xFFFF) + drop_bit 16 t) < unat t"
    unfolding eq by linarith
qed

function fold_carry :: "u32 \<Rightarrow> u32" where
  "fold_carry t = (if drop_bit 16 t \<noteq> 0 then fold_carry ((t AND 0xFFFF) + drop_bit 16 t) else t)"
  by pat_completeness auto
termination
  by (relation "measure unat") (auto intro: fold_carry_decreases)

declare fold_carry.simps [simp del]

text \<open>
  The loop computes the one's-complement sum: the value in \<open>1..65535\<close> congruent to \<open>t\<close>
  modulo 65535, and 0 only for 0.
\<close>

lemma fold_carry_eq:
  "unat (fold_carry t) = (if t = 0 then 0 else (unat t - 1) mod 65535 + 1)"
proof (induction t rule: fold_carry.induct)
  case (1 t)
  show ?case
  proof (cases "drop_bit 16 t = 0")
    case True
    have "unat t div 65536 = 0"
      using True fold_carry_hi [of t] by simp
    then have lt: "unat t < 65536"
      by (simp add: div_eq_0_iff)
    have "fold_carry t = t"
      using True by (subst fold_carry.simps) simp
    moreover have "t \<noteq> 0 \<Longrightarrow> 0 < unat t"
      by (simp add: unat_gt_0)
    ultimately show ?thesis
      using lt by auto
  next
    case False
    let ?t = "(t AND 0xFFFF) + drop_bit 16 t"
    define q r where "q = unat t div 65536" and "r = unat t mod 65536"
    have t: "unat t = q * 65536 + r" "unat ?t = r + q"
      using fold_carry_decreases(2) [OF False] by (simp_all add: q_def r_def)
    have q: "0 < q"
      using False fold_carry_hi [of t] by (metis q_def unsigned_eq_0_iff neq0_conv)
    have nz: "t \<noteq> 0" "?t \<noteq> 0"
      using t q by (auto simp: unsigned_eq_0_iff)
    have "unat t - 1 = (q + r - 1) + q * 65535"
      using t q by simp
    then have "(unat t - 1) mod 65535 = (r + q - 1) mod 65535"
      by (simp add: add.commute)
    moreover have "fold_carry t = fold_carry ?t"
      using False by (subst fold_carry.simps) simp
    ultimately show ?thesis
      using "1.IH" [OF False] nz t(2) by simp
  qed
qed

lemma fold_carry_less: "unat (fold_carry t) < 65536"
  by (simp add: fold_carry_eq)

text \<open>The sum the loops compute, over the natural numbers.\<close>

fun words_sum :: "byte list \<Rightarrow> nat" where
  "words_sum (p0 # p1 # ps) = 256 * unat p0 + unat p1 + words_sum ps"
| "words_sum _ = 0"

lemma unat_read_be16: "unat (badvpn_read_be16 a b) = 256 * unat a + unat b"
  by (simp add: read_be16_mk16 unat_mk16)

lemma words_sum_le: "words_sum ps \<le> 65535 * (length ps div 2)"
proof (induction ps rule: words_sum.induct)
  case (1 a b ps)
  have "unat a < 256" "unat b < 256"
    using unsigned_less [of a] unsigned_less [of b] by simp_all
  with 1 show ?case by simp
qed simp_all

lemma unat_ucast_read_be16:
  "unat (ucast (badvpn_read_be16 a b) :: u32) = 256 * unat a + unat b"
proof -
  have "unat (ucast (badvpn_read_be16 a b) :: u32) = unat (badvpn_read_be16 a b)"
    by (simp add: unsigned_ucast_eq take_bit_nat_eq_self
        less_trans [OF unsigned_less])
  then show ?thesis by (simp add: unat_read_be16)
qed

lemma unat_sum_be16:
  "unat t + words_sum ps < 4294967296 \<Longrightarrow> unat (sum_be16 t ps) = unat t + words_sum ps"
proof (induction t ps rule: sum_be16.induct)
  case (1 t a b ps)
  have "unat (t + ucast (badvpn_read_be16 a b)) = unat t + (256 * unat a + unat b)"
    using "1.prems" by (simp add: unat_word_ariths unat_ucast_read_be16)
  with 1 show ?case by simp
qed simp_all

lemma sum_be16_shift: "sum_be16 (s + t) ps = s + sum_be16 t ps"
  by (induction t ps rule: sum_be16.induct) (simp_all add: add.assoc)

lemma sum_be16_add: "t + sum_be16 0 ps = sum_be16 t ps"
  using sum_be16_shift [of t 0 ps] by simp

lemma words_sum_append: "even (length xs) \<Longrightarrow> words_sum (xs @ ys) = words_sum xs + words_sum ys"
  by (induction xs rule: words_sum.induct) auto

section \<open>IPv4\<close>

record ipv4_header =
  ip4_version4_ihl4 :: byte
  ip4_ds :: byte
  ip4_total_length :: u16
  ip4_identification :: u16
  ip4_flags3_fragmentoffset13 :: u16
  ip4_ttl :: byte
  ip4_protocol :: byte
  ip4_checksum :: u16
  ip4_source_address :: u32
  ip4_destination_address :: u32

text \<open>\<open>memcpy(&header, data, sizeof(header))\<close> and the header's memory image.\<close>

definition ipv4_header_of :: "byte list \<Rightarrow> ipv4_header" where
  "ipv4_header_of d = \<lparr> ip4_version4_ihl4 = d ! 0, ip4_ds = d ! 1,
     ip4_total_length = mk16 (d ! 2) (d ! 3),
     ip4_identification = mk16 (d ! 4) (d ! 5),
     ip4_flags3_fragmentoffset13 = mk16 (d ! 6) (d ! 7),
     ip4_ttl = d ! 8, ip4_protocol = d ! 9, ip4_checksum = mk16 (d ! 10) (d ! 11),
     ip4_source_address = mk32 (d ! 12) (d ! 13) (d ! 14) (d ! 15),
     ip4_destination_address = mk32 (d ! 16) (d ! 17) (d ! 18) (d ! 19) \<rparr>"

definition ipv4_header_bytes :: "ipv4_header \<Rightarrow> byte list" where
  "ipv4_header_bytes h = [ip4_version4_ihl4 h, ip4_ds h] @ bytes16 (ip4_total_length h)
     @ bytes16 (ip4_identification h) @ bytes16 (ip4_flags3_fragmentoffset13 h)
     @ [ip4_ttl h, ip4_protocol h] @ bytes16 (ip4_checksum h)
     @ bytes32 (ip4_source_address h) @ bytes32 (ip4_destination_address h)"

definition IPV4_GET_VERSION :: "ipv4_header \<Rightarrow> byte" where
  "IPV4_GET_VERSION h = drop_bit 4 (ip4_version4_ihl4 h AND 0xF0)"

definition IPV4_GET_IHL :: "ipv4_header \<Rightarrow> byte" where
  "IPV4_GET_IHL h = ip4_version4_ihl4 h AND 0x0F"

definition IPV4_MAKE_VERSION_IHL :: "nat \<Rightarrow> byte" where
  "IPV4_MAKE_VERSION_IHL sz = of_nat (sz div 4 + 64)"

definition ipv4_checksum :: "ipv4_header \<Rightarrow> byte list \<Rightarrow> u16" where
  "ipv4_checksum header extra =
     (let t = sum_be16 0 (ipv4_header_bytes header);
          t = sum_be16 t extra
      in hton16 (ucast (NOT (fold_carry t))))"

text \<open>\<open>None\<close> is the return value 0; \<open>Some\<close> holds the header and the payload range.\<close>

definition ipv4_check :: "byte list \<Rightarrow> (ipv4_header \<times> byte list) option" where
  "ipv4_check data =
    (let data_len = length data in
     if data_len < 20 then None
     else let h = ipv4_header_of data in
     if IPV4_GET_VERSION h \<noteq> 4 then None
     else let header_len = unat (IPV4_GET_IHL h) * 4 in
     if header_len < 20 then None
     else if header_len > data_len then None
     else let total_length = unat (ntoh16 (ip4_total_length h)) in
     if total_length < header_len then None
     else if total_length > data_len then None
     else let checksum_in_packet = ip4_checksum h;
              checksum_computed =
                ipv4_checksum (h\<lparr>ip4_checksum := hton16 0\<rparr>) (seg data 20 (header_len - 20)) in
     if checksum_in_packet \<noteq> checksum_computed then None
     else Some (h, seg data header_len (total_length - header_len)))"

section \<open>IPv6\<close>

record ipv6_header =
  ip6_version4_tc4 :: byte
  ip6_tc4_fl4 :: byte
  ip6_fl :: u16
  ip6_payload_length :: u16
  ip6_next_header :: byte
  ip6_hop_limit :: byte
  ip6_source_address :: "byte list"
  ip6_destination_address :: "byte list"

definition ipv6_header_of :: "byte list \<Rightarrow> ipv6_header" where
  "ipv6_header_of d = \<lparr> ip6_version4_tc4 = d ! 0, ip6_tc4_fl4 = d ! 1,
     ip6_fl = mk16 (d ! 2) (d ! 3), ip6_payload_length = mk16 (d ! 4) (d ! 5),
     ip6_next_header = d ! 6, ip6_hop_limit = d ! 7,
     ip6_source_address = seg d 8 16, ip6_destination_address = seg d 24 16 \<rparr>"

definition ipv6_header_bytes :: "ipv6_header \<Rightarrow> byte list" where
  "ipv6_header_bytes h = [ip6_version4_tc4 h, ip6_tc4_fl4 h] @ bytes16 (ip6_fl h)
     @ bytes16 (ip6_payload_length h) @ [ip6_next_header h, ip6_hop_limit h]
     @ ip6_source_address h @ ip6_destination_address h"

definition ipv6_check :: "byte list \<Rightarrow> (ipv6_header \<times> byte list) option" where
  "ipv6_check data =
    (let data_len = length data in
     if data_len < 40 then None
     else let h = ipv6_header_of data in
     if drop_bit 4 (ip6_version4_tc4 h) \<noteq> 6 then None
     else let payload_length = unat (ntoh16 (ip6_payload_length h)) in
     if payload_length > data_len - 40 then None
     else Some (h, seg data 40 payload_length))"

section \<open>UDP\<close>

record udp_header =
  udp_source_port :: u16
  udp_dest_port :: u16
  udp_length :: u16
  udp_checksum_field :: u16

definition udp_header_of :: "byte list \<Rightarrow> udp_header" where
  "udp_header_of d = \<lparr> udp_source_port = mk16 (d ! 0) (d ! 1),
     udp_dest_port = mk16 (d ! 2) (d ! 3), udp_length = mk16 (d ! 4) (d ! 5),
     udp_checksum_field = mk16 (d ! 6) (d ! 7) \<rparr>"

definition udp_header_bytes :: "udp_header \<Rightarrow> byte list" where
  "udp_header_bytes h = bytes16 (udp_source_port h) @ bytes16 (udp_dest_port h)
     @ bytes16 (udp_length h) @ bytes16 (udp_checksum_field h)"

definition udp_check :: "byte list \<Rightarrow> (udp_header \<times> byte list) option" where
  "udp_check data =
    (if length data < 8 then None
     else let h = udp_header_of data; data = drop 8 data; data_len = length data;
              udp_len = unat (ntoh16 (udp_length h)) in
     if udp_len < 8 then None
     else if udp_len > 8 + data_len then None
     else Some (h, take (udp_len - 8) data))"

text \<open>
  The payload part of both checksums: an odd last byte is summed as the high byte of a
  16-bit word. \<open>payload_len\<close> is a \<open>uint16_t\<close> parameter.
\<close>

definition udp_payload_sum :: "byte list \<Rightarrow> u16 \<Rightarrow> u32" where
  "udp_payload_sum payload payload_len =
     (let n = unat payload_len in
      if n mod 2 = 0 then udp_checksum_summer (take n payload)
      else udp_checksum_summer (take (n - 1) payload)
           + udp_checksum_summer (bytes16 (hton16 (push_bit 8 (ucast (payload ! (n - 1)))))))"

text \<open>The end of both functions: \<open>t\<close> stays a \<open>uint32_t\<close> through \<open>t = ~t; if (t == 0) t = UINT16_MAX;\<close>.\<close>

definition udp_checksum_finish :: "u32 \<Rightarrow> u16" where
  "udp_checksum_finish t =
     (let t = NOT (fold_carry t); t = (if t = 0 then 0xFFFF else t) in hton16 (ucast t))"

definition udp_checksum :: "udp_header \<Rightarrow> byte list \<Rightarrow> u16 \<Rightarrow> u32 \<Rightarrow> u32 \<Rightarrow> u16" where
  "udp_checksum header payload payload_len source_addr dest_addr =
     (let t = udp_checksum_summer (bytes32 source_addr);
          t = t + udp_checksum_summer (bytes32 dest_addr);
          t = t + udp_checksum_summer (bytes16 (hton16 17));
          t = t + udp_checksum_summer (bytes16 (hton16 (8 + payload_len)));
          t = t + udp_checksum_summer (udp_header_bytes header);
          t = t + udp_payload_sum payload payload_len
      in udp_checksum_finish t)"

definition udp_ip6_checksum ::
  "udp_header \<Rightarrow> byte list \<Rightarrow> u16 \<Rightarrow> byte list \<Rightarrow> byte list \<Rightarrow> u16" where
  "udp_ip6_checksum header payload payload_len source_addr dest_addr =
     (let t = udp_checksum_summer (take 16 source_addr);
          t = t + udp_checksum_summer (take 16 dest_addr);
          t = t + udp_checksum_summer (bytes32 (hton32 (8 + ucast payload_len)));
          t = t + udp_checksum_summer (bytes32 (hton32 17));
          t = t + udp_checksum_summer (udp_header_bytes header);
          t = t + udp_payload_sum payload payload_len
      in udp_checksum_finish t)"

section \<open>Memory images round-trip\<close>

lemma ipv4_header_of_bytes [simp]: "ipv4_header_of (ipv4_header_bytes h @ rest) = h"
  by (simp add: ipv4_header_of_def ipv4_header_bytes_def bytes16_def bytes32_def)

lemma length_ipv4_header_bytes [simp]: "length (ipv4_header_bytes h) = 20"
  by (simp add: ipv4_header_bytes_def)

lemma udp_header_of_bytes [simp]: "udp_header_of (udp_header_bytes h @ rest) = h"
  by (simp add: udp_header_of_def udp_header_bytes_def bytes16_def)

lemma length_udp_header_bytes [simp]: "length (udp_header_bytes h) = 8"
  by (simp add: udp_header_bytes_def)

lemma ipv6_header_of_bytes [simp]:
  assumes "length (ip6_source_address h) = 16" "length (ip6_destination_address h) = 16"
  shows "ipv6_header_of (ipv6_header_bytes h @ rest) = h"
  using assms by (simp add: ipv6_header_of_def ipv6_header_bytes_def bytes16_def seg_def)

lemma length_ipv6_header_bytes [simp]:
  "length (ip6_source_address h) = 16 \<Longrightarrow> length (ip6_destination_address h) = 16 \<Longrightarrow>
   length (ipv6_header_bytes h) = 40"
  by (simp add: ipv6_header_bytes_def)

section \<open>The checksum verifies\<close>

lemma ucast_not_u16: "(ucast (NOT t) :: u16) = NOT (ucast t)" for t :: u32
  by (rule bit_word_eqI) (simp add: bit_simps)

lemma unat_not_u16: "unat (NOT x) = 65535 - unat x" for x :: u16
proof -
  have "NOT x = - 1 - x"
    by (simp add: not_eq_complement)
  moreover have "unat (- 1 - x) = unat (- 1 :: u16) - unat x"
    by (rule unat_sub) simp
  moreover have "unat (- 1 :: u16) = 65535"
    by (simp add: unsigned_minus_1_eq_mask mask_eq_exp_minus_1)
  ultimately show ?thesis by simp
qed

lemma unat_ucast_u16: "unat t < 65536 \<Longrightarrow> unat (ucast t :: u16) = unat t" for t :: u32
  by (simp add: unsigned_ucast_eq take_bit_nat_eq_self)

lemma words_sum_bytes16_hton16: "words_sum (bytes16 (hton16 x)) = unat x"
proof -
  have "words_sum (bytes16 (hton16 x)) = unat (mk16 (lo16 x) (hi16 x))"
    by (simp add: bytes16_hton16 unat_mk16 del: mk16_lo_hi)
  then show ?thesis by simp
qed

text \<open>The complement of the folded sum completes the sum to a multiple of 65535.\<close>

lemma complement_completes:
  "(unat t + unat (NOT (ucast (fold_carry t)) :: u16)) mod 65535 = 0"
proof (cases "t = 0")
  case True
  then show ?thesis
    by (simp add: unat_not_u16 unat_ucast_u16 fold_carry_eq)
next
  case False
  then obtain n where n: "unat t = Suc n"
    by (metis not0_implies_Suc unsigned_eq_0_iff)
  have f: "unat (fold_carry t) = n mod 65535 + 1"
    using False n by (simp add: fold_carry_eq)
  define q r where "q = n div 65535" and "r = n mod 65535"
  have r: "r < 65535" "n = 65535 * q + r"
    by (simp_all add: q_def r_def)
  have "unat (NOT (ucast (fold_carry t)) :: u16) = 65534 - r"
    using f fold_carry_less [of t] by (simp add: unat_not_u16 unat_ucast_u16 r_def)
  then have "unat t + unat (NOT (ucast (fold_carry t)) :: u16) = 65535 * (q + 1)"
    using n r by simp
  then show ?thesis by simp
qed

definition ipv4_header_zero_sum :: "ipv4_header \<Rightarrow> nat" where
  "ipv4_header_zero_sum h = words_sum (ipv4_header_bytes (h\<lparr>ip4_checksum := 0\<rparr>))"

lemma words_sum_ipv4_header:
  "words_sum (ipv4_header_bytes (h\<lparr>ip4_checksum := hton16 c\<rparr>))
     = ipv4_header_zero_sum h + unat c"
proof -
  have "words_sum (bytes16 (hton16 c)) = unat c"
    by (rule words_sum_bytes16_hton16)
  then show ?thesis
    by (simp add: ipv4_header_zero_sum_def ipv4_header_bytes_def bytes16_def bytes32_def lo16_def
        hi16_def)
qed

lemma hton16_0 [simp]: "hton16 0 = 0"
  by (simp add: hton16_def badvpn_reverse16_def mk16_def hi16_def lo16_def)

lemma ipv4_checksum_eq:
  assumes "length extra \<le> 65536"
  shows "\<exists>t. ipv4_checksum (h\<lparr>ip4_checksum := 0\<rparr>) extra = hton16 (NOT (ucast (fold_carry t)))
    \<and> unat t = ipv4_header_zero_sum h + words_sum extra"
proof -
  let ?hb = "ipv4_header_bytes (h\<lparr>ip4_checksum := 0\<rparr>)"
  have l: "words_sum ?hb \<le> 655350"
    using words_sum_le [of ?hb] by simp
  have "words_sum extra \<le> 65535 * (length extra div 2)"
    by (rule words_sum_le)
  also have "\<dots> \<le> 65535 * 32768"
    using assms by (intro mult_le_mono) auto
  finally have e: "words_sum extra \<le> 2147450880"
    by simp
  have 1: "unat (sum_be16 0 ?hb) = words_sum ?hb"
    using l by (subst unat_sum_be16) auto
  then have "unat (sum_be16 (sum_be16 0 ?hb) extra) = words_sum ?hb + words_sum extra"
    using l e by (subst unat_sum_be16) auto
  then show ?thesis
    by (auto simp: ipv4_checksum_def Let_def ucast_not_u16 ipv4_header_zero_sum_def)
qed

text \<open>
  A header that carries the computed checksum sums, options included, to a multiple of
  65535: the condition RFC 791 has the receiver test.
\<close>

lemma ipv4_checksum_completes:
  assumes "length extra \<le> 65536"
  shows "(words_sum (ipv4_header_bytes
            (h\<lparr>ip4_checksum := ipv4_checksum (h\<lparr>ip4_checksum := 0\<rparr>) extra\<rparr>))
          + words_sum extra) mod 65535 = 0"
proof -
  obtain t where t: "ipv4_checksum (h\<lparr>ip4_checksum := 0\<rparr>) extra
        = hton16 (NOT (ucast (fold_carry t)))"
    and ut: "unat t = ipv4_header_zero_sum h + words_sum extra"
    using ipv4_checksum_eq [OF assms] by blast
  show ?thesis
    using complement_completes [of t] unfolding t words_sum_ipv4_header ut
    by (simp add: ac_simps)
qed

section \<open>The UDP checksum\<close>

lemma udp_checksum_finish_eq: "udp_checksum_finish t = hton16 (NOT (ucast (fold_carry t)))"
proof -
  have "NOT (fold_carry t) \<noteq> 0"
  proof
    assume "NOT (fold_carry t) = 0"
    then have "fold_carry t = - 1"
      by (metis bit.double_compl bit.compl_zero)
    then have "unat (fold_carry t) = 4294967295"
      by (simp add: unsigned_minus_1_eq_mask mask_eq_exp_minus_1)
    then show False
      using fold_carry_less [of t] by simp
  qed
  then show ?thesis
    by (simp add: udp_checksum_finish_def Let_def ucast_not_u16)
qed

lemma hton16_eq_0 [simp]: "hton16 x = 0 \<longleftrightarrow> x = 0"
  by (metis hton16_0 hton16_inject)

lemma udp_checksum_finish_eq_0:
  "udp_checksum_finish t = 0 \<longleftrightarrow> t \<noteq> 0 \<and> unat t mod 65535 = 0"
proof -
  have "udp_checksum_finish t = 0 \<longleftrightarrow> unat (NOT (ucast (fold_carry t)) :: u16) = 0"
    by (simp add: udp_checksum_finish_eq unsigned_eq_0_iff)
  also have "\<dots> \<longleftrightarrow> unat (fold_carry t) = 65535"
    using fold_carry_less [of t] by (simp add: unat_not_u16 unat_ucast_u16) arith
  also have "\<dots> \<longleftrightarrow> t \<noteq> 0 \<and> unat t mod 65535 = 0"
  proof (cases "t = 0")
    case False
    then obtain n where n: "unat t = Suc n"
      by (metis not0_implies_Suc unsigned_eq_0_iff)
    then have "unat (fold_carry t) = n mod 65535 + 1"
      using False by (simp add: fold_carry_eq)
    moreover have "n mod 65535 = 65534 \<longleftrightarrow> Suc n mod 65535 = 0"
      by (simp add: mod_Suc)
    ultimately show ?thesis
      using False n by simp
  qed (simp add: fold_carry_eq)
  finally show ?thesis .
qed

text \<open>The bytes both sums range over, an odd payload padded with a zero byte.\<close>

definition pad_even :: "byte list \<Rightarrow> byte list" where
  "pad_even ps = (if even (length ps) then ps else ps @ [0])"

lemma even_pad_even [simp]: "even (length (pad_even ps))"
  by (simp add: pad_even_def)

lemma length_pad_even: "length (pad_even ps) \<le> length ps + 1"
  by (simp add: pad_even_def)

lemma sum_be16_append:
  "even (length xs) \<Longrightarrow> sum_be16 t (xs @ ys) = sum_be16 t xs + sum_be16 0 ys"
  by (induction t xs rule: sum_be16.induct) (auto simp: sum_be16_add)

lemma lo_hi_push_bit [simp]:
  "hi16 (push_bit 8 (ucast b)) = b" "lo16 (push_bit 8 (ucast b)) = 0"
  by (rule bit_word_eqI; auto simp: hi16_def lo16_def bit_simps dest: bit_imp_le_length)+

lemma odd_snoc:
  assumes "odd (length xs)"
  shows "xs = take (length xs - 1) xs @ [xs ! (length xs - 1)]"
  using assms by (metis One_nat_def Suc_diff_1 lessI odd_pos take_Suc_conv_app_nth take_all_iff
      order_refl)

lemma udp_payload_sum_eq:
  assumes "unat n = length ps"
  shows "udp_payload_sum ps n = sum_be16 0 (pad_even ps)"
proof (cases "even (length ps)")
  case True
  then show ?thesis
    using assms by (simp add: udp_payload_sum_def udp_checksum_summer_def pad_even_def Let_def
        even_iff_mod_2_eq_zero)
next
  case False
  let ?xs = "take (length ps - 1) ps" and ?b = "ps ! (length ps - 1)"
  have "pad_even ps = ?xs @ [?b, 0]"
    using False odd_snoc [OF False] unfolding pad_even_def
    by (metis (no_types) append_Cons append_Nil append_assoc)
  moreover have "even (length ?xs)"
    using False by simp
  ultimately show ?thesis
    using assms False
    by (simp add: udp_payload_sum_def udp_checksum_summer_def Let_def sum_be16_append
        bytes16_hton16 odd_iff_mod_2_eq_one)
qed

text \<open>The pseudo header, the header and the padded payload, as RFC 768 lists them.\<close>

definition udp4_summed :: "udp_header \<Rightarrow> byte list \<Rightarrow> u32 \<Rightarrow> u32 \<Rightarrow> byte list" where
  "udp4_summed h payload src dst = bytes32 src @ bytes32 dst @ bytes16 (hton16 17)
     @ bytes16 (hton16 (of_nat (8 + length payload))) @ udp_header_bytes h @ pad_even payload"

definition udp6_summed :: "udp_header \<Rightarrow> byte list \<Rightarrow> byte list \<Rightarrow> byte list \<Rightarrow> byte list" where
  "udp6_summed h payload src dst = src @ dst @ bytes32 (hton32 (of_nat (8 + length payload)))
     @ bytes32 (hton32 17) @ udp_header_bytes h @ pad_even payload"

lemma ucast_eq_of_nat_unat: "ucast w = of_nat (unat w)"
  by transfer simp

lemma unat_of_nat_u16: "n < 65536 \<Longrightarrow> unat (of_nat n :: u16) = n"
  by (simp add: unat_of_nat)

lemma udp_checksum_eq:
  assumes "length payload < 65536"
  shows "udp_checksum h payload (of_nat (length payload)) src dst
    = udp_checksum_finish (sum_be16 0 (udp4_summed h payload src dst))"
  using assms
  by (simp add: udp_checksum_def udp4_summed_def Let_def udp_checksum_summer_def sum_be16_append
      udp_payload_sum_eq unat_of_nat_u16 add.assoc)

lemma udp_ip6_checksum_eq:
  assumes "length payload < 65536" "length src = 16" "length dst = 16"
  shows "udp_ip6_checksum h payload (of_nat (length payload)) src dst
    = udp_checksum_finish (sum_be16 0 (udp6_summed h payload src dst))"
proof -
  have "(ucast (of_nat (length payload) :: u16) :: u32) = of_nat (length payload)"
    unfolding ucast_eq_of_nat_unat using assms(1) by (simp only: unat_of_nat_u16)
  then show ?thesis
    using assms
    by (simp add: udp_ip6_checksum_def udp6_summed_def Let_def udp_checksum_summer_def
        sum_be16_append udp_payload_sum_eq unat_of_nat_u16 add.assoc)
qed

lemma words_sum_udp_header:
  "words_sum (udp_header_bytes (h\<lparr>udp_checksum_field := hton16 c\<rparr>))
     = words_sum (udp_header_bytes (h\<lparr>udp_checksum_field := 0\<rparr>)) + unat c"
proof -
  have "words_sum (bytes16 (hton16 c)) = unat c"
    by (rule words_sum_bytes16_hton16)
  then show ?thesis
    by (simp add: udp_header_bytes_def bytes16_def lo16_def hi16_def)
qed

text \<open>\<open>udp_checksum_finish\<close> completes whatever was summed to a multiple of 65535.\<close>

lemma udp_checksum_finish_completes:
  assumes "words_sum xs < 4294967296"
  shows "\<exists>c. udp_checksum_finish (sum_be16 0 xs) = hton16 c \<and> (words_sum xs + unat c) mod 65535 = 0"
proof -
  have "unat (sum_be16 0 xs) = words_sum xs"
    using assms by (subst unat_sum_be16) auto
  then show ?thesis
    using complement_completes [of "sum_be16 0 xs"] by (auto simp: udp_checksum_finish_eq)
qed

lemma words_sum_bounded:
  assumes "length xs \<le> 65700"
  shows "words_sum xs < 4294967296"
proof -
  have "words_sum xs \<le> 65535 * (length xs div 2)"
    by (rule words_sum_le)
  also have "\<dots> \<le> 65535 * 32850"
    using assms by (intro mult_le_mono) auto
  finally show ?thesis by simp
qed

lemma words_sum_udp4:
  "words_sum (udp4_summed (h\<lparr>udp_checksum_field := hton16 c\<rparr>) payload src dst)
     = words_sum (udp4_summed (h\<lparr>udp_checksum_field := 0\<rparr>) payload src dst) + unat c"
  by (simp only: udp4_summed_def words_sum_append words_sum_udp_header length_bytes32
      length_bytes16 length_udp_header_bytes even_numeral add.assoc add.left_commute)

lemma words_sum_udp6:
  assumes "length src = 16" "length dst = 16"
  shows "words_sum (udp6_summed (h\<lparr>udp_checksum_field := hton16 c\<rparr>) payload src dst)
     = words_sum (udp6_summed (h\<lparr>udp_checksum_field := 0\<rparr>) payload src dst) + unat c"
  by (simp only: udp6_summed_def words_sum_append words_sum_udp_header length_bytes32
      length_bytes16 length_udp_header_bytes even_numeral add.assoc add.left_commute assms)

lemma length_udp4_summed: "length (udp4_summed h payload src dst) \<le> length payload + 21"
  using length_pad_even [of payload] by (simp add: udp4_summed_def)

lemma length_udp6_summed:
  "length src = 16 \<Longrightarrow> length dst = 16 \<Longrightarrow>
   length (udp6_summed h payload src dst) \<le> length payload + 49"
  using length_pad_even [of payload] by (simp add: udp6_summed_def)

lemma udp_checksum_completes:
  assumes "length payload < 65536"
  shows "words_sum (udp4_summed (h\<lparr>udp_checksum_field :=
        udp_checksum (h\<lparr>udp_checksum_field := 0\<rparr>) payload (of_nat (length payload)) src dst\<rparr>)
      payload src dst) mod 65535 = 0"
proof -
  let ?xs = "udp4_summed (h\<lparr>udp_checksum_field := 0\<rparr>) payload src dst"
  have "words_sum ?xs < 4294967296"
    using assms length_udp4_summed [of _ payload src dst]
    by (intro words_sum_bounded) (rule order_trans, assumption, simp)
  then obtain c where c: "udp_checksum_finish (sum_be16 0 ?xs) = hton16 c"
      "(words_sum ?xs + unat c) mod 65535 = 0"
    by (elim udp_checksum_finish_completes [THEN exE] conjE)
  have "words_sum (udp4_summed (h\<lparr>udp_checksum_field := hton16 c\<rparr>) payload src dst)
      = words_sum ?xs + unat c"
    by (rule words_sum_udp4)
  with c show ?thesis
    unfolding udp_checksum_eq [OF assms] c(1) by (simp only:)
qed

lemma udp_ip6_checksum_completes:
  assumes "length payload < 65536" "length src = 16" "length dst = 16"
  shows "words_sum (udp6_summed (h\<lparr>udp_checksum_field :=
        udp_ip6_checksum (h\<lparr>udp_checksum_field := 0\<rparr>) payload (of_nat (length payload)) src dst\<rparr>)
      payload src dst) mod 65535 = 0"
proof -
  let ?xs = "udp6_summed (h\<lparr>udp_checksum_field := 0\<rparr>) payload src dst"
  have "words_sum ?xs < 4294967296"
    using assms(1) length_udp6_summed [OF assms(2,3), of _ payload]
    by (intro words_sum_bounded) (rule order_trans, assumption, simp)
  then obtain c where c: "udp_checksum_finish (sum_be16 0 ?xs) = hton16 c"
      "(words_sum ?xs + unat c) mod 65535 = 0"
    by (elim udp_checksum_finish_completes [THEN exE] conjE)
  have "words_sum (udp6_summed (h\<lparr>udp_checksum_field := hton16 c\<rparr>) payload src dst)
      = words_sum ?xs + unat c"
    using assms(2,3) by (rule words_sum_udp6)
  with c show ?thesis
    unfolding udp_ip6_checksum_eq [OF assms] c(1) by (simp only:)
qed

end
