(* ===== verification/BAddr.thy ===== *)
theory BAddr
  imports NetProto "HOL-Library.List_Lexorder" "HOL-Library.Product_Lexorder"
begin

text \<open>
  Socket addresses (\<open>system/BAddr.h\<close>): the type tag with its union as a datatype, and the
  comparison the connection trees are ordered by. \<open>BAddr_CompareOrder\<close> is shown to
  be the order of a key, which makes \<open>BAddr\<close> an instance of \<open>linorder\<close>: the trees of
  \<open>BAVL\<close> need exactly that of their comparator.
\<close>

text \<open>IP and port are in network byte order, as in the struct.\<close>

datatype baddr = BADDR_NONE | BADDR_IPV4 u32 u16 | BADDR_IPV6 "byte list" u16

fun baddr_type :: "baddr \<Rightarrow> int" where
  "baddr_type BADDR_NONE = 0"
| "baddr_type (BADDR_IPV4 _ _) = 1"
| "baddr_type (BADDR_IPV6 _ _) = 2"

definition is_ip_baddr :: "baddr \<Rightarrow> bool" where
  "is_ip_baddr a = (baddr_type a = 1 \<or> baddr_type a = 2)"

fun BAddr_GetPort :: "baddr \<Rightarrow> u16 option" where
  "BAddr_GetPort BADDR_NONE = None"
| "BAddr_GetPort (BADDR_IPV4 _ port) = Some port"
| "BAddr_GetPort (BADDR_IPV6 _ port) = Some port"

fun BAddr_SetPort :: "u16 \<Rightarrow> baddr \<Rightarrow> baddr option" where
  "BAddr_SetPort p BADDR_NONE = None"
| "BAddr_SetPort p (BADDR_IPV4 ip _) = Some (BADDR_IPV4 ip p)"
| "BAddr_SetPort p (BADDR_IPV6 ip _) = Some (BADDR_IPV6 ip p)"

text \<open>\<open>B_COMPARE\<close> of \<open>misc/compare.h\<close>, and the sign of \<open>memcmp\<close>.\<close>

definition B_COMPARE :: "nat \<Rightarrow> nat \<Rightarrow> int" where
  "B_COMPARE a b = (if a > b then 1 else 0) - (if a < b then 1 else 0)"

fun memcmp_sign :: "byte list \<Rightarrow> byte list \<Rightarrow> int" where
  "memcmp_sign [] [] = 0"
| "memcmp_sign [] (_ # _) = - 1"
| "memcmp_sign (_ # _) [] = 1"
| "memcmp_sign (x # xs) (y # ys) =
     (if unat x < unat y then - 1 else if unat y < unat x then 1 else memcmp_sign xs ys)"

fun BAddr_CompareOrder :: "baddr \<Rightarrow> baddr \<Rightarrow> int" where
  "BAddr_CompareOrder BADDR_NONE BADDR_NONE = 0"
| "BAddr_CompareOrder (BADDR_IPV4 ip1 port1) (BADDR_IPV4 ip2 port2) =
     (let cmp = B_COMPARE (unat (ntoh32 ip1)) (unat (ntoh32 ip2)) in
      if cmp \<noteq> 0 then cmp else B_COMPARE (unat (ntoh16 port1)) (unat (ntoh16 port2)))"
| "BAddr_CompareOrder (BADDR_IPV6 ip1 port1) (BADDR_IPV6 ip2 port2) =
     (let cmp = memcmp_sign ip1 ip2 in
      if cmp \<noteq> 0 then cmp else B_COMPARE (unat (ntoh16 port1)) (unat (ntoh16 port2)))"
| "BAddr_CompareOrder a b = B_COMPARE (nat (baddr_type a)) (nat (baddr_type b))"

fun BAddr_Compare :: "baddr \<Rightarrow> baddr \<Rightarrow> bool" where
  "BAddr_Compare (BADDR_IPV4 ip1 port1) (BADDR_IPV4 ip2 port2) = (ip1 = ip2 \<and> port1 = port2)"
| "BAddr_Compare (BADDR_IPV6 ip1 port1) (BADDR_IPV6 ip2 port2) = (ip1 = ip2 \<and> port1 = port2)"
| "BAddr_Compare _ _ = False"

text \<open>The key the comparison sorts by: type, address, port.\<close>

fun baddr_key :: "baddr \<Rightarrow> nat \<times> nat list \<times> nat" where
  "baddr_key BADDR_NONE = (0, [], 0)"
| "baddr_key (BADDR_IPV4 ip port) = (1, [unat (ntoh32 ip)], unat (ntoh16 port))"
| "baddr_key (BADDR_IPV6 ip port) = (2, map unat ip, unat (ntoh16 port))"

lemma ntoh32_involution: "ntoh32 (ntoh32 x) = x"
  by (simp add: ntoh32_def hton32_def badvpn_reverse32_def)

lemma ntoh32_inject [simp]: "ntoh32 x = ntoh32 y \<longleftrightarrow> x = y"
  by (metis ntoh32_involution)

lemma ntoh16_inject [simp]: "ntoh16 x = ntoh16 y \<longleftrightarrow> x = y"
  by (metis ntoh16_hton16(2))

lemma map_unat_eq_iff: "map unat xs = map unat ys \<longleftrightarrow> xs = ys"
  by (rule inj_map_eq_map) (rule inj_unsigned)

lemma inj_baddr_key: "baddr_key a = baddr_key b \<longleftrightarrow> a = b"
  by (cases a; cases b) (auto simp: map_unat_eq_iff unat_eq_iff)

instantiation baddr :: linorder
begin

definition less_eq_baddr :: "baddr \<Rightarrow> baddr \<Rightarrow> bool" where
  "less_eq_baddr a b = (baddr_key a \<le> baddr_key b)"

definition less_baddr :: "baddr \<Rightarrow> baddr \<Rightarrow> bool" where
  "less_baddr a b = (baddr_key a < baddr_key b)"

instance
proof
  fix a b :: baddr
  show "a \<le> b \<Longrightarrow> b \<le> a \<Longrightarrow> a = b"
    using inj_baddr_key by (simp add: less_eq_baddr_def)
qed (auto simp: less_eq_baddr_def less_baddr_def)

end

lemma memcmp_sign_eq:
  "memcmp_sign xs ys = (if map unat xs < map unat ys then - 1 else if xs = ys then 0 else 1)"
proof (induction xs ys rule: memcmp_sign.induct)
  case (4 x xs y ys)
  then show ?case
    by (auto simp: unat_eq_iff)
qed auto

text \<open>The comparator is the three-way comparison of the instance's order.\<close>

lemma BAddr_CompareOrder_eq:
  "BAddr_CompareOrder a b = (if a < b then - 1 else if a = b then 0 else 1)"
proof (cases a)
  case BADDR_NONE
  then show ?thesis
    by (cases b) (auto simp: B_COMPARE_def less_baddr_def)
next
  case (BADDR_IPV4 ip port)
  then show ?thesis
    by (cases b) (auto simp: B_COMPARE_def less_baddr_def Let_def unat_eq_iff)
next
  case (BADDR_IPV6 ip port)
  then show ?thesis
    by (cases b) (auto simp: B_COMPARE_def less_baddr_def Let_def memcmp_sign_eq map_unat_eq_iff unat_eq_iff)
qed

lemma BAddr_CompareOrder_eq_0 [simp]: "BAddr_CompareOrder a b = 0 \<longleftrightarrow> a = b"
  by (auto simp: BAddr_CompareOrder_eq)

lemma BAddr_Compare_eq: "is_ip_baddr a \<Longrightarrow> BAddr_Compare a b \<longleftrightarrow> a = b"
  by (cases a; cases b) (auto simp: is_ip_baddr_def)

end
