(* ===== verification/TunUdp.thy ===== *)
theory TunUdp
  imports BAddr
begin

text \<open>
  The UDP path of \<open>tun2socks/tun2socks.c\<close>, outside lwIP: packets read from the TUN device
  are parsed by \<open>process_device_udp_packet\<close> (UDP goes to the UDP relay, echo requests are
  answered on the spot), datagrams from the relay are packed into IP packets by
  \<open>udp_send_packet_to_device\<close>. The calls a handler makes on other components are
  the values of \<open>tun_act\<close>, in call order. The Android build is the one modelled.
\<close>

datatype udp_mode_t = UdpModeNone | UdpModeUdpgw | UdpModeSocks

text \<open>The globals the functions read: \<open>device\<close>, \<open>udp_mode\<close>, \<open>udp_mtu\<close>, \<open>options\<close>.\<close>

record tun_cfg =
  cfg_udp_mode :: udp_mode_t
  cfg_device_mtu :: int
  cfg_udp_mtu :: int
  cfg_netif_ip6addr :: bool
  cfg_dnsgw :: bool

datatype tun_act =
    BTap_Send "byte list"
  | SocksUdpGwClient_SubmitPacket baddr baddr bool "byte list"
  | SocksUdpClient_SubmitPacket baddr baddr "byte list"
  | Lwip_input "byte list"

section \<open>The UDP payload bound\<close>

text \<open>The computation of \<open>udp_mtu\<close> in \<open>main\<close>.\<close>

definition compute_udp_mtu :: "int \<Rightarrow> bool \<Rightarrow> int" where
  "compute_udp_mtu device_mtu ip6 =
     (let udp_mtu = device_mtu - (20 + 8);
          udp_mtu = (if ip6
            then let udp_ip6_mtu = device_mtu - (40 + 8)
                 in if udp_mtu < udp_ip6_mtu then udp_ip6_mtu else udp_mtu
            else udp_mtu)
      in if udp_mtu < 0 then 0 else udp_mtu)"

section \<open>Packets from the device\<close>

text \<open>The DNS header test: bit 7 of byte 2 is \<open>qr\<close>, the low half of byte 3 is \<open>rcode\<close>.\<close>

definition dns_query_header :: "byte list \<Rightarrow> bool" where
  "dns_query_header d \<longleftrightarrow> drop_bit 7 (d ! 2) = 0 \<and> d ! 3 AND 0x0F = 0
     \<and> mk16 (d ! 6) (d ! 7) = 0 \<and> mk16 (d ! 8) (d ! 9) = 0"

definition is_dns_packet :: "tun_cfg \<Rightarrow> udp_header \<Rightarrow> byte list \<Rightarrow> bool" where
  "is_dns_packet cfg h data \<longleftrightarrow>
     (if cfg_dnsgw cfg \<and> udp_dest_port h = hton16 53
      then if length data < 12 then False else dns_query_header data
      else False)"

text \<open>The in-place reply to an ICMPv4 and an ICMPv6 echo request.\<close>

definition ping_reply :: "byte list \<Rightarrow> byte list" where
  "ping_reply data =
     (let ip_source = seg data 12 4;
          data = write_at data 12 (seg data 16 4);
          data = write_at data 16 ip_source;
          data = data[20 := 0];
          data = data[22 := data ! 22 + 8]
      in if data ! 22 < 8 then data[23 := data ! 23 + 1] else data)"

definition ping6_reply :: "byte list \<Rightarrow> byte list" where
  "ping6_reply data =
     (let ip_source = seg data 8 16;
          data = write_at data 8 (seg data 24 16);
          data = write_at data 24 ip_source;
          data = data[40 := 129];
          data = data[42 := data ! 42 - 1]
      in if data ! 42 = 255 then data[43 := data ! 43 - 1] else data)"

text \<open>
  The end of the function: the payload bound and the submission. The result is the return
  value (1 when the packet was consumed) with the calls made.
\<close>

definition submit_udp ::
  "tun_cfg \<Rightarrow> baddr \<Rightarrow> baddr \<Rightarrow> bool \<Rightarrow> byte list \<Rightarrow> bool \<times> tun_act list" where
  "submit_udp cfg local_addr remote_addr is_dns data =
     (if int (length data) > cfg_udp_mtu cfg then (False, [])
      else (True,
        case cfg_udp_mode cfg of
          UdpModeUdpgw \<Rightarrow> [SocksUdpGwClient_SubmitPacket local_addr remote_addr is_dns data]
        | UdpModeSocks \<Rightarrow> [SocksUdpClient_SubmitPacket local_addr remote_addr data]
        | UdpModeNone \<Rightarrow> []))"

definition process_ipv4_udp :: "tun_cfg \<Rightarrow> byte list \<Rightarrow> bool \<times> tun_act list" where
  "process_ipv4_udp cfg data =
     (case ipv4_check data of
        None \<Rightarrow> (False, [])
      | Some (ih, data) \<Rightarrow>
         (case udp_check data of
            None \<Rightarrow> (False, [])
          | Some (uh, data) \<Rightarrow>
             (let checksum_in_packet = udp_checksum_field uh;
                  uh = uh\<lparr>udp_checksum_field := 0\<rparr>;
                  checksum_computed = udp_checksum uh data (of_nat (length data))
                    (ip4_source_address ih) (ip4_destination_address ih)
              in if checksum_in_packet \<noteq> checksum_computed then (False, [])
                 else submit_udp cfg (BADDR_IPV4 (ip4_source_address ih) (udp_source_port uh))
                        (BADDR_IPV4 (ip4_destination_address ih) (udp_dest_port uh))
                        (is_dns_packet cfg uh data) data)))"

definition process_ipv6_udp :: "tun_cfg \<Rightarrow> byte list \<Rightarrow> bool \<times> tun_act list" where
  "process_ipv6_udp cfg data =
     (case ipv6_check data of
        None \<Rightarrow> (False, [])
      | Some (ih, data) \<Rightarrow>
         (case udp_check data of
            None \<Rightarrow> (False, [])
          | Some (uh, data) \<Rightarrow>
             (let checksum_in_packet = udp_checksum_field uh;
                  uh = uh\<lparr>udp_checksum_field := 0\<rparr>;
                  checksum_computed = udp_ip6_checksum uh data (of_nat (length data))
                    (ip6_source_address ih) (ip6_destination_address ih)
              in if checksum_in_packet \<noteq> checksum_computed then (False, [])
                 else submit_udp cfg (BADDR_IPV6 (ip6_source_address ih) (udp_source_port uh))
                        (BADDR_IPV6 (ip6_destination_address ih) (udp_dest_port uh))
                        False data)))"

definition process_device_udp_packet :: "tun_cfg \<Rightarrow> byte list \<Rightarrow> bool \<times> tun_act list" where
  "process_device_udp_packet cfg data =
    (if cfg_udp_mode cfg = UdpModeNone then (False, [])
     else let data_len = length data;
              ip_version = (if data_len > 0 then drop_bit 4 (data ! 0) else 0)
     in if ip_version = 4 then
          (if data_len < 20 then (False, [])
           else if data ! 9 = 17 then process_ipv4_udp cfg data
           else if data ! 9 = 1 then
             (True, if data ! 0 = 69 \<and> data_len \<ge> 28 \<and> data ! 20 = 8 \<and> data ! 21 = 0
                    then [BTap_Send (ping_reply data)] else [])
           else (False, []))
        else if ip_version = 6 then
          (if \<not> cfg_netif_ip6addr cfg then (False, [])
           else if data_len < 40 then (False, [])
           else if data ! 6 = 17 then process_ipv6_udp cfg data
           else if data ! 6 = 58 then
             (True, if data_len \<ge> 48 \<and> data ! 40 = 128 \<and> data ! 41 = 0
                    then [BTap_Send (ping6_reply data)] else [])
           else (False, []))
        else (False, []))"

text \<open>
  \<open>device_read_handler_send\<close>: a packet the UDP path does not consume goes to lwIP, unless
  it is too large or no pbuf is available (\<open>pbuf_ok\<close>, the outcome of \<open>pbuf_alloc\<close>).
\<close>

definition device_read_handler_send :: "tun_cfg \<Rightarrow> bool \<Rightarrow> byte list \<Rightarrow> tun_act list" where
  "device_read_handler_send cfg pbuf_ok data =
     (case process_device_udp_packet cfg data of
        (True, acts) \<Rightarrow> acts
      | (False, acts) \<Rightarrow> acts @
          (if length data > 65535 then []
           else if \<not> pbuf_ok then []
           else [Lwip_input data]))"

section \<open>Packets to the device\<close>

text \<open>
  \<open>udp_send_packet_to_device\<close>; \<open>None\<close> is a failed assertion on the address types. The
  packet is assembled in \<open>device_write_buf\<close>; the bytes given to \<open>BTap_Send\<close> are its first
  \<open>packet_length\<close>.
\<close>

definition build_udp4 :: "u32 \<Rightarrow> u16 \<Rightarrow> u32 \<Rightarrow> u16 \<Rightarrow> byte list \<Rightarrow> byte list" where
  "build_udp4 src_ip src_port dst_ip dst_port data =
     (let data_len = length data;
          iph = \<lparr> ip4_version4_ihl4 = IPV4_MAKE_VERSION_IHL 20, ip4_ds = 0,
                  ip4_total_length = hton16 (of_nat (20 + 8 + data_len)),
                  ip4_identification = hton16 0, ip4_flags3_fragmentoffset13 = hton16 0,
                  ip4_ttl = 64, ip4_protocol = 17, ip4_checksum = hton16 0,
                  ip4_source_address = src_ip, ip4_destination_address = dst_ip \<rparr>;
          iph = iph\<lparr>ip4_checksum := ipv4_checksum iph []\<rparr>;
          udph = \<lparr> udp_source_port = src_port, udp_dest_port = dst_port,
                   udp_length = hton16 (of_nat (8 + data_len)), udp_checksum_field = hton16 0 \<rparr>;
          udph = udph\<lparr>udp_checksum_field :=
                   udp_checksum udph data (of_nat data_len) src_ip dst_ip\<rparr>
      in ipv4_header_bytes iph @ udp_header_bytes udph @ data)"

definition build_udp6 :: "byte list \<Rightarrow> u16 \<Rightarrow> byte list \<Rightarrow> u16 \<Rightarrow> byte list \<Rightarrow> byte list" where
  "build_udp6 src_ip src_port dst_ip dst_port data =
     (let data_len = length data;
          iph = \<lparr> ip6_version4_tc4 = 96, ip6_tc4_fl4 = 0, ip6_fl = hton16 0,
                  ip6_payload_length = hton16 (of_nat (8 + data_len)),
                  ip6_next_header = 17, ip6_hop_limit = 64,
                  ip6_source_address = take 16 src_ip,
                  ip6_destination_address = take 16 dst_ip \<rparr>;
          udph = \<lparr> udp_source_port = src_port, udp_dest_port = dst_port,
                   udp_length = hton16 (of_nat (8 + data_len)), udp_checksum_field = hton16 0 \<rparr>;
          udph = udph\<lparr>udp_checksum_field := udp_ip6_checksum udph data (of_nat data_len)
                   (ip6_source_address iph) (ip6_destination_address iph)\<rparr>
      in ipv6_header_bytes iph @ udp_header_bytes udph @ data)"

definition udp_send_packet_to_device ::
  "tun_cfg \<Rightarrow> baddr \<Rightarrow> baddr \<Rightarrow> byte list \<Rightarrow> tun_act list option" where
  "udp_send_packet_to_device cfg local_addr remote_addr data = do {
     assert_that (cfg_udp_mode cfg \<noteq> UdpModeNone);
     assert_that (is_ip_baddr local_addr);
     assert_that (baddr_type local_addr = baddr_type remote_addr);
     (case (local_addr, remote_addr) of
        (BADDR_IPV4 lip lport, BADDR_IPV4 rip rport) \<Rightarrow>
          if int (length data) > 65535 - (20 + 8)
             \<or> int (length data) > cfg_device_mtu cfg - (20 + 8) then Some []
          else Some [BTap_Send (build_udp4 rip rport lip lport data)]
      | (BADDR_IPV6 lip lport, BADDR_IPV6 rip rport) \<Rightarrow>
          if \<not> cfg_netif_ip6addr cfg then Some []
          else if int (length data) > 65535 - 8
             \<or> int (length data) > cfg_device_mtu cfg - (40 + 8) then Some []
          else Some [BTap_Send (build_udp6 rip rport lip lport data)]
      | _ \<Rightarrow> None)
   }"

section \<open>Packets from lwIP\<close>

text \<open>
  \<open>common_netif_output\<close> on a pbuf chain (its payloads in order): one chunk goes out
  directly, several are gathered in \<open>device_write_buf\<close>; nothing is sent when the packet does
  not fit the MTU or the program is quitting.
\<close>

fun gather_chunks :: "int \<Rightarrow> byte list \<Rightarrow> byte list list \<Rightarrow> byte list option" where
  "gather_chunks mtu buf [] = Some buf"
| "gather_chunks mtu buf (p # ps) =
     (if int (length p) > mtu - int (length buf) then None else gather_chunks mtu (buf @ p) ps)"

definition common_netif_output :: "bool \<Rightarrow> int \<Rightarrow> byte list list \<Rightarrow> tun_act list" where
  "common_netif_output quitting mtu chunks =
     (if quitting then []
      else case chunks of
        [p] \<Rightarrow> if int (length p) > mtu then [] else [BTap_Send p]
      | _ \<Rightarrow> (case gather_chunks mtu [] chunks of None \<Rightarrow> [] | Some buf \<Rightarrow> [BTap_Send buf]))"

datatype netif_input_result = Ip_input | Ip6_input | Pbuf_free

definition netif_input_func :: "tun_cfg \<Rightarrow> byte list \<Rightarrow> netif_input_result" where
  "netif_input_func cfg payload =
     (let ip_version = (if length payload > 0 then drop_bit 4 (payload ! 0) else 0)
      in if ip_version = 4 then Ip_input
         else if ip_version = 6 \<and> cfg_netif_ip6addr cfg then Ip6_input
         else Pbuf_free)"

end
