(* ===== verification/TunUdpProps.thy ===== *)
theory TunUdpProps
  imports TunUdp
begin

text \<open>
  The correctness of the UDP path: packets built for the device parse back to what was
  sent, a packet the parser forwards carries a valid checksum and the addresses and payload
  found at the protocol's offsets, and echo replies have a valid checksum exactly when the
  byte-wise checksum update of the code did not lose a carry.
\<close>

section \<open>Building and parsing are inverse\<close>

lemma IPV4_MAKE_VERSION_IHL_20 [simp]: "IPV4_MAKE_VERSION_IHL 20 = 69"
  by (simp add: IPV4_MAKE_VERSION_IHL_def)

lemma unat_ntoh16_hton16_of_nat: "n < 65536 \<Longrightarrow> unat (ntoh16 (hton16 (of_nat n))) = n"
  by (simp only: ntoh16_hton16 unat_of_nat_u16)

lemma seg_append_left: "length xs = p \<Longrightarrow> seg (xs @ ys) p n = take n ys"
  by (simp add: seg_def)

lemma ipv4_check_build:
  assumes "IPV4_GET_VERSION h = 4" "IPV4_GET_IHL h = 5"
    and "ip4_total_length h = hton16 (of_nat (20 + length payload))"
    and "20 + length payload < 65536"
    and "ip4_checksum h = ipv4_checksum (h\<lparr>ip4_checksum := 0\<rparr>) []"
  shows "ipv4_check (ipv4_header_bytes h @ payload) = Some (h, payload)"
proof -
  have "unat (ntoh16 (ip4_total_length h)) = 20 + length payload"
    unfolding assms(3) by (rule unat_ntoh16_hton16_of_nat) (rule assms(4))
  then show ?thesis
    using assms(1,2,5) by (simp add: ipv4_check_def Let_def seg_append_left)
qed

lemma udp_check_build:
  assumes "udp_length h = hton16 (of_nat (8 + length payload))" "8 + length payload < 65536"
  shows "udp_check (udp_header_bytes h @ payload) = Some (h, payload)"
proof -
  have "unat (ntoh16 (udp_length h)) = 8 + length payload"
    unfolding assms(1) by (rule unat_ntoh16_hton16_of_nat) (rule assms(2))
  then show ?thesis
    by (simp add: udp_check_def Let_def)
qed

lemma ipv6_check_build:
  assumes "length (ip6_source_address h) = 16" "length (ip6_destination_address h) = 16"
    and "drop_bit 4 (ip6_version4_tc4 h) = 6"
    and "ip6_payload_length h = hton16 (of_nat (length payload))"
    and "length payload < 65536"
  shows "ipv6_check (ipv6_header_bytes h @ payload) = Some (h, payload)"
proof -
  have "unat (ntoh16 (ip6_payload_length h)) = length payload"
    unfolding assms(4) by (rule unat_ntoh16_hton16_of_nat) (rule assms(5))
  then show ?thesis
    using assms(1-3) by (simp add: ipv6_check_def Let_def seg_append_left)
qed

lemma is_dns_packet_iff:
  "is_dns_packet cfg h data \<longleftrightarrow> cfg_dnsgw cfg \<and> udp_dest_port h = hton16 53
     \<and> 12 \<le> length data \<and> dns_query_header data"
  by (auto simp: is_dns_packet_def)

lemma udp_header_of_take: "8 \<le> n \<Longrightarrow> udp_header_of (take n xs) = udp_header_of xs"
  by (simp add: udp_header_of_def)

lemma process_ipv4_udp_build:
  assumes "length data \<le> 65507"
  shows "process_ipv4_udp cfg (build_udp4 sip sport dip dport data)
    = submit_udp cfg (BADDR_IPV4 sip sport) (BADDR_IPV4 dip dport)
        (cfg_dnsgw cfg \<and> dport = hton16 53 \<and> 12 \<le> length data \<and> dns_query_header data) data"
proof -
  define uh where "uh = \<lparr> udp_source_port = sport, udp_dest_port = dport,
      udp_length = hton16 (of_nat (8 + length data)), udp_checksum_field = 0 \<rparr>"
  define uc where "uc = udp_checksum uh data (of_nat (length data)) sip dip"
  define ih where "ih = \<lparr> ip4_version4_ihl4 = 69, ip4_ds = 0,
      ip4_total_length = hton16 (of_nat (20 + 8 + length data)),
      ip4_identification = hton16 0, ip4_flags3_fragmentoffset13 = hton16 0,
      ip4_ttl = 64, ip4_protocol = 17, ip4_checksum = 0,
      ip4_source_address = sip, ip4_destination_address = dip \<rparr>"
  let ?ih = "ih\<lparr>ip4_checksum := ipv4_checksum ih []\<rparr>"
  let ?uh = "uh\<lparr>udp_checksum_field := uc\<rparr>"
  let ?pl = "udp_header_bytes ?uh @ data"
  have pkt: "build_udp4 sip sport dip dport data = ipv4_header_bytes ?ih @ ?pl"
    by (simp add: build_udp4_def Let_def uh_def uc_def ih_def)
  have "ih\<lparr>ip4_checksum := 0\<rparr> = ih" "uh\<lparr>udp_checksum_field := 0\<rparr> = uh"
    by (simp_all add: ih_def uh_def)
  moreover have "length ?pl = 8 + length data"
    by simp
  ultimately have 4: "ipv4_check (ipv4_header_bytes ?ih @ ?pl) = Some (?ih, ?pl)"
    using assms
    by (intro ipv4_check_build)
       (simp_all add: ih_def IPV4_GET_VERSION_def IPV4_GET_IHL_def add.assoc)
  have u: "udp_check ?pl = Some (?uh, data)"
    using assms by (intro udp_check_build) (simp_all add: uh_def)
  have c: "?uh\<lparr>udp_checksum_field := 0\<rparr> = uh"
    by (simp add: uh_def)
  show ?thesis
    unfolding pkt process_ipv4_udp_def 4 option.case prod.case u c Let_def
    by (simp add: uc_def [symmetric] ih_def is_dns_packet_iff) (simp add: uh_def)
qed

lemma process_ipv6_udp_build:
  assumes "length data \<le> 65527" "length sip = 16" "length dip = 16"
  shows "process_ipv6_udp cfg (build_udp6 sip sport dip dport data)
    = submit_udp cfg (BADDR_IPV6 sip sport) (BADDR_IPV6 dip dport) False data"
proof -
  define uh where "uh = \<lparr> udp_source_port = sport, udp_dest_port = dport,
      udp_length = hton16 (of_nat (8 + length data)), udp_checksum_field = 0 \<rparr>"
  define uc where "uc = udp_ip6_checksum uh data (of_nat (length data)) sip dip"
  define ih where "ih = \<lparr> ip6_version4_tc4 = 96, ip6_tc4_fl4 = 0, ip6_fl = hton16 0,
      ip6_payload_length = hton16 (of_nat (8 + length data)), ip6_next_header = 17,
      ip6_hop_limit = 64, ip6_source_address = sip, ip6_destination_address = dip \<rparr>"
  let ?uh = "uh\<lparr>udp_checksum_field := uc\<rparr>"
  let ?pl = "udp_header_bytes ?uh @ data"
  have pkt: "build_udp6 sip sport dip dport data = ipv6_header_bytes ih @ ?pl"
    using assms(2,3) by (simp add: build_udp6_def Let_def uh_def uc_def ih_def)
  have 6: "ipv6_check (ipv6_header_bytes ih @ ?pl) = Some (ih, ?pl)"
    using assms by (intro ipv6_check_build) (simp_all add: ih_def)
  have u: "udp_check ?pl = Some (?uh, data)"
    using assms by (intro udp_check_build) (simp_all add: uh_def)
  have c: "?uh\<lparr>udp_checksum_field := 0\<rparr> = uh"
    by (simp add: uh_def)
  show ?thesis
    unfolding pkt process_ipv6_udp_def 6 option.case prod.case u c Let_def
    by (simp add: ih_def) (simp add: uc_def [symmetric], simp add: uh_def)
qed

lemma compute_udp_mtu_eq: "compute_udp_mtu mtu ip6 = max 0 (mtu - 28)"
  by (simp add: compute_udp_mtu_def Let_def)

lemma build_udp4_bytes:
  "length (build_udp4 sip sport dip dport data) = 28 + length data"
  "build_udp4 sip sport dip dport data ! 0 = 69"
  "build_udp4 sip sport dip dport data ! 9 = 17"
  by (simp_all add: build_udp4_def Let_def)
     (simp_all add: ipv4_header_bytes_def bytes16_def)

lemma build_udp6_bytes:
  assumes "length sip = 16" "length dip = 16"
  shows "length (build_udp6 sip sport dip dport data) = 48 + length data"
    and "build_udp6 sip sport dip dport data ! 0 = 96"
    and "build_udp6 sip sport dip dport data ! 6 = 17"
  using assms by (simp_all add: build_udp6_def Let_def)
     (simp_all add: ipv6_header_bytes_def bytes16_def)

text \<open>The call a consumed datagram results in, per mode.\<close>

definition relay_call :: "tun_cfg \<Rightarrow> baddr \<Rightarrow> baddr \<Rightarrow> bool \<Rightarrow> byte list \<Rightarrow> tun_act" where
  "relay_call cfg local_addr remote_addr is_dns data =
     (if cfg_udp_mode cfg = UdpModeUdpgw
      then SocksUdpGwClient_SubmitPacket local_addr remote_addr is_dns data
      else SocksUdpClient_SubmitPacket local_addr remote_addr data)"

lemma submit_udp_relay_call:
  "int (length data) \<le> cfg_udp_mtu cfg \<Longrightarrow> cfg_udp_mode cfg \<noteq> UdpModeNone \<Longrightarrow>
   submit_udp cfg l r d data = (True, [relay_call cfg l r d data])"
  by (cases "cfg_udp_mode cfg") (auto simp: submit_udp_def relay_call_def)

lemma udp4_packet_roundtrip_parts:
  assumes "udp_send_packet_to_device cfg (BADDR_IPV4 lip lport) (BADDR_IPV4 rip rport) data
      = Some [BTap_Send pkt]"
    and "cfg_udp_mtu cfg = compute_udp_mtu (cfg_device_mtu cfg) (cfg_netif_ip6addr cfg)"
  shows "process_device_udp_packet cfg pkt = (True, [relay_call cfg
      (BADDR_IPV4 rip rport) (BADDR_IPV4 lip lport)
      (cfg_dnsgw cfg \<and> lport = hton16 53 \<and> 12 \<le> length data \<and> dns_query_header data) data])"
    and "int (length pkt) \<le> cfg_device_mtu cfg"
proof -
  have mode: "cfg_udp_mode cfg \<noteq> UdpModeNone" and len: "length data \<le> 65507"
    and mtu: "int (length data) \<le> cfg_device_mtu cfg - 28"
    and pkt: "pkt = build_udp4 rip rport lip lport data"
    using assms(1) by (auto simp: udp_send_packet_to_device_def split: if_splits)
  have "int (length data) \<le> cfg_udp_mtu cfg"
    using mtu assms(2) by (simp add: compute_udp_mtu_eq)
  then show "process_device_udp_packet cfg pkt = (True, [relay_call cfg
      (BADDR_IPV4 rip rport) (BADDR_IPV4 lip lport)
      (cfg_dnsgw cfg \<and> lport = hton16 53 \<and> 12 \<le> length data \<and> dns_query_header data) data])"
    using mode unfolding pkt process_device_udp_packet_def
    by (simp add: build_udp4_bytes Let_def process_ipv4_udp_build [OF len] submit_udp_relay_call)
  show "int (length pkt) \<le> cfg_device_mtu cfg"
    using mtu by (simp add: pkt build_udp4_bytes)
qed

text \<open>
  C1. A datagram the relay delivers to an IPv4 host is packed so that the parser, given the
  resulting IP packet, accepts it (header length, total length, both checksums) and extracts
  the remote address as source, the local address as destination and the same payload.
\<close>

theorem udp4_packet_roundtrip:
  assumes "udp_send_packet_to_device cfg (BADDR_IPV4 lip lport) (BADDR_IPV4 rip rport) data
      = Some [BTap_Send pkt]"
    and "cfg_udp_mtu cfg = compute_udp_mtu (cfg_device_mtu cfg) (cfg_netif_ip6addr cfg)"
  shows "process_device_udp_packet cfg pkt = (True, [relay_call cfg
      (BADDR_IPV4 rip rport) (BADDR_IPV4 lip lport)
      (cfg_dnsgw cfg \<and> lport = hton16 53 \<and> 12 \<le> length data \<and> dns_query_header data) data])
    \<and> int (length pkt) \<le> cfg_device_mtu cfg"
  using udp4_packet_roundtrip_parts [OF assms] by simp

lemma udp6_packet_roundtrip_parts:
  assumes "udp_send_packet_to_device cfg (BADDR_IPV6 lip lport) (BADDR_IPV6 rip rport) data
      = Some [BTap_Send pkt]"
    and "cfg_udp_mtu cfg = compute_udp_mtu (cfg_device_mtu cfg) (cfg_netif_ip6addr cfg)"
    and "length lip = 16" "length rip = 16"
  shows "process_device_udp_packet cfg pkt = (True, [relay_call cfg
      (BADDR_IPV6 rip rport) (BADDR_IPV6 lip lport) False data])"
    and "int (length pkt) \<le> cfg_device_mtu cfg"
proof -
  have mode: "cfg_udp_mode cfg \<noteq> UdpModeNone" and ip6: "cfg_netif_ip6addr cfg"
    and len: "length data \<le> 65527" and mtu: "int (length data) \<le> cfg_device_mtu cfg - 48"
    and pkt: "pkt = build_udp6 rip rport lip lport data"
    using assms(1) by (auto simp: udp_send_packet_to_device_def split: if_splits)
  have "int (length data) \<le> cfg_udp_mtu cfg"
    using mtu assms(2) by (simp add: compute_udp_mtu_eq)
  then show "process_device_udp_packet cfg pkt = (True, [relay_call cfg
      (BADDR_IPV6 rip rport) (BADDR_IPV6 lip lport) False data])"
    using mode ip6 assms(3,4) unfolding pkt process_device_udp_packet_def
    by (simp add: build_udp6_bytes Let_def process_ipv6_udp_build [OF len] submit_udp_relay_call)
  show "int (length pkt) \<le> cfg_device_mtu cfg"
    using mtu assms(3,4) by (simp add: pkt build_udp6_bytes)
qed

text \<open>The same for IPv6 addresses.\<close>

lemma udp6_packet_roundtrip:
  assumes "udp_send_packet_to_device cfg (BADDR_IPV6 lip lport) (BADDR_IPV6 rip rport) data
      = Some [BTap_Send pkt]"
    and "cfg_udp_mtu cfg = compute_udp_mtu (cfg_device_mtu cfg) (cfg_netif_ip6addr cfg)"
    and "length lip = 16" "length rip = 16"
  shows "process_device_udp_packet cfg pkt = (True, [relay_call cfg
      (BADDR_IPV6 rip rport) (BADDR_IPV6 lip lport) False data])
    \<and> int (length pkt) \<le> cfg_device_mtu cfg"
  using udp6_packet_roundtrip_parts [OF assms] by simp

definition example_cfg :: tun_cfg where
  "example_cfg = \<lparr> cfg_udp_mode = UdpModeUdpgw, cfg_device_mtu = 1500,
     cfg_udp_mtu = 1472, cfg_netif_ip6addr = True, cfg_dnsgw = True \<rparr>"

theorem udp4_packet_roundtrip_witness:
  "process_device_udp_packet example_cfg (build_udp4 7 8 5 6 [1, 2, 3])
     = (True, [relay_call example_cfg (BADDR_IPV4 7 8) (BADDR_IPV4 5 6) False [1, 2, 3]])"
proof -
  have "udp_send_packet_to_device example_cfg (BADDR_IPV4 5 6) (BADDR_IPV4 7 8) [1, 2, 3]
      = Some [BTap_Send (build_udp4 7 8 5 6 [1, 2, 3])]"
    by (simp add: udp_send_packet_to_device_def example_cfg_def is_ip_baddr_def)
  from udp4_packet_roundtrip [OF this] show ?thesis
    by (simp add: example_cfg_def compute_udp_mtu_def)
qed

section \<open>What the parser accepts\<close>

lemma ipv4_check_SomeD:
  assumes "ipv4_check data = Some (h, payload)"
  defines "hl \<equiv> 4 * unat (IPV4_GET_IHL h)" and "tlen \<equiv> unat (ntoh16 (ip4_total_length h))"
  shows "h = ipv4_header_of data" "20 \<le> hl" "hl \<le> tlen" "tlen \<le> length data"
    "payload = seg data hl (tlen - hl)"
    "(words_sum (ipv4_header_bytes h) + words_sum (seg data 20 (hl - 20))) mod 65535 = 0"
proof -
  have ck: "ip4_checksum h = ipv4_checksum (h\<lparr>ip4_checksum := 0\<rparr>) (seg data 20 (hl - 20))"
    and h: "h = ipv4_header_of data" "20 \<le> hl" "hl \<le> tlen" "tlen \<le> length data"
      "payload = seg data hl (tlen - hl)"
    using assms by (auto simp: ipv4_check_def Let_def mult.commute split: if_splits)
  show "h = ipv4_header_of data" "20 \<le> hl" "hl \<le> tlen" "tlen \<le> length data"
    "payload = seg data hl (tlen - hl)"
    by (fact h)+
  have "tlen < 65536"
    by (simp add: tlen_def unat_u16_less)
  then have "length (seg data 20 (hl - 20)) \<le> 65536"
    using h(3) by simp
  from ipv4_checksum_completes [OF this, of h]
  show "(words_sum (ipv4_header_bytes h) + words_sum (seg data 20 (hl - 20))) mod 65535 = 0"
    by (simp add: ck [symmetric])
qed

lemma udp_check_SomeD:
  assumes "udp_check data = Some (h, payload)"
  defines "ul \<equiv> unat (ntoh16 (udp_length h))"
  shows "h = udp_header_of data" "8 \<le> ul" "ul \<le> length data" "payload = seg data 8 (ul - 8)"
    "length payload < 65536"
proof -
  show "h = udp_header_of data" "8 \<le> ul" "ul \<le> length data"
    and p: "payload = seg data 8 (ul - 8)"
    using assms by (auto simp: udp_check_def Let_def seg_def split: if_splits)
  have "ul < 65536"
    unfolding ul_def by (rule unat_u16_less)
  then show "length payload < 65536"
    by (simp add: p)
qed

lemma udp_checksum_verified:
  assumes "udp_checksum_field u = udp_checksum (u\<lparr>udp_checksum_field := 0\<rparr>) d (of_nat (length d)) s t"
    and "length d < 65536"
  shows "words_sum (udp4_summed u d s t) mod 65535 = 0"
proof -
  have "u\<lparr>udp_checksum_field := udp_checksum (u\<lparr>udp_checksum_field := 0\<rparr>) d (of_nat (length d)) s t\<rparr> = u"
    using assms(1) by simp
  with udp_checksum_completes [OF assms(2), of u s t] show ?thesis
    by (simp only:)
qed

lemma process_ipv4_udp_TrueE:
  assumes "process_ipv4_udp cfg data = (True, acts)" "cfg_udp_mode cfg \<noteq> UdpModeNone"
  obtains h pl u d where "ipv4_check data = Some (h, pl)" "udp_check pl = Some (u, d)"
    and "udp_checksum_field u = udp_checksum (u\<lparr>udp_checksum_field := 0\<rparr>) d
        (of_nat (length d)) (ip4_source_address h) (ip4_destination_address h)"
    and "int (length d) \<le> cfg_udp_mtu cfg"
    and "acts = [relay_call cfg (BADDR_IPV4 (ip4_source_address h) (udp_source_port u))
        (BADDR_IPV4 (ip4_destination_address h) (udp_dest_port u)) (is_dns_packet cfg u d) d]"
proof -
  obtain h pl u d where *: "ipv4_check data = Some (h, pl)" "udp_check pl = Some (u, d)"
    "udp_checksum_field u = udp_checksum (u\<lparr>udp_checksum_field := 0\<rparr>) d
        (of_nat (length d)) (ip4_source_address h) (ip4_destination_address h)"
    and sub: "submit_udp cfg (BADDR_IPV4 (ip4_source_address h) (udp_source_port u))
        (BADDR_IPV4 (ip4_destination_address h) (udp_dest_port u))
        (is_dns_packet cfg (u\<lparr>udp_checksum_field := 0\<rparr>) d) d = (True, acts)"
    using assms(1) by (auto simp: process_ipv4_udp_def Let_def split: option.splits if_splits)
  have len: "int (length d) \<le> cfg_udp_mtu cfg"
    using sub by (auto simp: submit_udp_def split: if_splits)
  show ?thesis
    using sub by (intro that [OF * len]) (simp add: submit_udp_relay_call [OF len assms(2)]
        is_dns_packet_iff)
qed

text \<open>
  C2. A UDP packet over IPv4 that is consumed was well formed: its header and total length fit the
  packet, the IP header sum (options included) and the UDP sum over the pseudo header,
  header and payload are multiples of 65535 as the RFCs require, the payload is the range
  the UDP length field names and fits \<open>udp_mtu\<close>, and exactly one call hands it to the relay with
  the addresses and ports of the packet.
\<close>

theorem process_ipv4_udp_accepts:
  assumes "process_ipv4_udp cfg data = (True, acts)" "cfg_udp_mode cfg \<noteq> UdpModeNone"
  defines "ih \<equiv> ipv4_header_of data"
  defines "hl \<equiv> 4 * unat (IPV4_GET_IHL ih)" and "tlen \<equiv> unat (ntoh16 (ip4_total_length ih))"
  defines "uh \<equiv> udp_header_of (drop hl data)"
  defines "ul \<equiv> unat (ntoh16 (udp_length uh))"
  defines "payload \<equiv> seg data (hl + 8) (ul - 8)"
  shows "20 \<le> hl \<and> hl + ul \<le> tlen \<and> tlen \<le> length data
    \<and> (words_sum (ipv4_header_bytes ih) + words_sum (seg data 20 (hl - 20))) mod 65535 = 0
    \<and> words_sum (udp4_summed uh payload (ip4_source_address ih) (ip4_destination_address ih))
       mod 65535 = 0
    \<and> int (length payload) \<le> cfg_udp_mtu cfg
    \<and> acts = [relay_call cfg (BADDR_IPV4 (ip4_source_address ih) (udp_source_port uh))
       (BADDR_IPV4 (ip4_destination_address ih) (udp_dest_port uh))
       (is_dns_packet cfg uh payload) payload]"
proof -
  obtain h pl u d where *: "ipv4_check data = Some (h, pl)" "udp_check pl = Some (u, d)"
    "udp_checksum_field u = udp_checksum (u\<lparr>udp_checksum_field := 0\<rparr>) d
        (of_nat (length d)) (ip4_source_address h) (ip4_destination_address h)"
    "int (length d) \<le> cfg_udp_mtu cfg"
    "acts = [relay_call cfg (BADDR_IPV4 (ip4_source_address h) (udp_source_port u))
        (BADDR_IPV4 (ip4_destination_address h) (udp_dest_port u)) (is_dns_packet cfg u d) d]"
    using assms(1,2) by (rule process_ipv4_udp_TrueE)
  note ip4 = ipv4_check_SomeD [OF *(1)] and udp8 = udp_check_SomeD [OF *(2)]
  have h: "h = ih" and pl: "pl = seg data hl (tlen - hl)"
    using ip4 by (simp_all add: ih_def hl_def tlen_def)
  have ul: "8 \<le> unat (ntoh16 (udp_length u))" "unat (ntoh16 (udp_length u)) \<le> tlen - hl"
    using udp8(2,3) pl by simp_all
  then have u: "u = uh"
    using udp8(1) by (simp add: uh_def pl seg_def udp_header_of_take)
  have d: "d = payload"
    using udp8(4) ul u by (simp add: payload_def ul_def pl seg_def drop_take min_def add.commute)
  have "words_sum (udp4_summed u d (ip4_source_address h) (ip4_destination_address h))
       mod 65535 = 0"
    using *(3) udp8(5) by (rule udp_checksum_verified)
  then show ?thesis
    using ip4(2-4,6) ul *(4,5) by (simp add: h u d hl_def tlen_def ul_def)
qed

theorem process_ipv4_udp_accepts_witness:
  "words_sum (udp4_summed (udp_header_of (drop 20 (build_udp4 7 8 5 6 [1, 2, 3])))
      [1, 2, 3] 7 5) mod 65535 = 0"
proof -
  let ?pkt = "build_udp4 7 8 5 6 [1, 2, 3]"
  have acc: "process_ipv4_udp example_cfg ?pkt = (True, [relay_call example_cfg
      (BADDR_IPV4 7 8) (BADDR_IPV4 5 6) False [1, 2, 3]])"
    by (subst process_ipv4_udp_build) (simp_all add: submit_udp_def relay_call_def example_cfg_def)
  have mode: "cfg_udp_mode example_cfg \<noteq> UdpModeNone"
    by (simp add: example_cfg_def)
  have ih: "unat (IPV4_GET_IHL (ipv4_header_of ?pkt)) = 5"
    "ip4_source_address (ipv4_header_of ?pkt) = 7" "ip4_destination_address (ipv4_header_of ?pkt) = 5"
    by (simp_all add: build_udp4_def Let_def IPV4_GET_IHL_def)
  have pl: "seg ?pkt 28 (unat (ntoh16 (udp_length (udp_header_of (drop 20 ?pkt)))) - 8) = [1, 2, 3]"
    by (simp add: build_udp4_def Let_def seg_def)
  show ?thesis
    using process_ipv4_udp_accepts [OF acc mode] by (simp add: ih pl)
qed

section \<open>Checksums of all ones\<close>

lemma unat_sum_udp4:
  assumes "length payload < 65536"
  shows "unat (sum_be16 0 (udp4_summed h payload src dst)) = words_sum (udp4_summed h payload src dst)"
proof -
  have "words_sum (udp4_summed h payload src dst) < 4294967296"
    using assms length_udp4_summed [of h payload src dst]
    by (intro words_sum_bounded) (rule order_trans, assumption, simp)
  then show ?thesis
    by (subst unat_sum_be16) simp_all
qed

lemma words_sum_udp4_pos: "0 < words_sum (udp4_summed h payload src dst)"
proof -
  have "words_sum (bytes16 (hton16 17)) = 17"
    by (simp add: words_sum_bytes16_hton16)
  then show ?thesis
    by (simp add: udp4_summed_def words_sum_append)
qed

lemma udp_checksum_finish_eq_ones: "udp_checksum_finish t = 0xFFFF \<longleftrightarrow> t = 0"
proof -
  have "hton16 0xFFFF = 0xFFFF"
    by code_simp
  then have "udp_checksum_finish t = 0xFFFF \<longleftrightarrow> NOT (ucast (fold_carry t)) = (0xFFFF :: u16)"
    by (metis hton16_inject udp_checksum_finish_eq)
  also have "\<dots> \<longleftrightarrow> unat (fold_carry t) = 0"
    using fold_carry_less [of t]
    by (simp add: unat_not_u16 unat_ucast_u16 flip: unat_eq_iff) arith
  also have "\<dots> \<longleftrightarrow> t = 0"
    by (simp add: fold_carry_eq)
  finally show ?thesis .
qed

text \<open>
  The substitution \<open>if (t == 0) t = UINT16_MAX\<close> in \<open>udp_checksum\<close> never takes
  effect, because \<open>t\<close> is a 32-bit value whose high half \<open>~t\<close> sets: the function returns 0
  exactly when the sum is a multiple of 65535, and never returns the all-ones value RFC 768
  prescribes in that case.
\<close>

lemma udp_checksum_zero_not_replaced:
  assumes "length payload < 65536"
  shows "udp_checksum h payload (of_nat (length payload)) src dst \<noteq> 0xFFFF
    \<and> (udp_checksum h payload (of_nat (length payload)) src dst = 0
        \<longleftrightarrow> words_sum (udp4_summed h payload src dst) mod 65535 = 0)"
proof -
  have u: "unat (sum_be16 0 (udp4_summed h payload src dst)) = words_sum (udp4_summed h payload src dst)"
    using assms by (rule unat_sum_udp4)
  then have "sum_be16 0 (udp4_summed h payload src dst) \<noteq> 0"
    using words_sum_udp4_pos [of h payload src dst] by (auto simp flip: unsigned_eq_0_iff)
  then show ?thesis
    by (simp add: udp_checksum_eq [OF assms] udp_checksum_finish_eq_ones udp_checksum_finish_eq_0 u)
qed

text \<open>
  Consequently a datagram whose sender followed RFC 768 and transmitted a computed zero as
  all ones is not consumed by the UDP path.
\<close>

lemma udp_all_ones_rejected:
  assumes "udp_checksum_field (udp_header_of (drop (4 * unat (IPV4_GET_IHL (ipv4_header_of data))) data))
      = 0xFFFF"
    and "cfg_udp_mode cfg \<noteq> UdpModeNone"
  shows "\<not> fst (process_ipv4_udp cfg data)"
proof
  assume "fst (process_ipv4_udp cfg data)"
  then obtain acts where acc: "process_ipv4_udp cfg data = (True, acts)"
    by (cases "process_ipv4_udp cfg data") simp
  then obtain h pl u d where *: "ipv4_check data = Some (h, pl)" "udp_check pl = Some (u, d)"
    "udp_checksum_field u = udp_checksum (u\<lparr>udp_checksum_field := 0\<rparr>) d
        (of_nat (length d)) (ip4_source_address h) (ip4_destination_address h)"
    using assms(2) by (rule process_ipv4_udp_TrueE)
  have "8 \<le> length pl"
    using udp_check_SomeD(2,3) [OF *(2)] by simp
  then have "u = udp_header_of (drop (4 * unat (IPV4_GET_IHL h)) data)"
    using udp_check_SomeD(1) [OF *(2)] ipv4_check_SomeD(5) [OF *(1)]
    by (simp add: seg_def udp_header_of_take)
  then have "udp_checksum_field u = 0xFFFF"
    using assms(1) ipv4_check_SomeD(1) [OF *(1)] by simp
  then show False
    using *(3) udp_checksum_zero_not_replaced
      [OF udp_check_SomeD(5) [OF *(2)]] by metis
qed

text \<open>An otherwise valid datagram whose sum is a multiple of 65535, sent with all ones.\<close>

definition all_ones_packet :: "byte list" where
  "all_ones_packet = take 26 (build_udp4 0 0 (mk32 0 0 0xFF 0xDE) 0 []) @ [0xFF, 0xFF]"

lemma all_ones_packet_eq:
  "\<exists>h. IPV4_GET_IHL h = 5 \<and> ip4_source_address h = 0 \<and>
     ip4_destination_address h = mk32 0 0 0xFF 0xDE \<and>
     all_ones_packet = ipv4_header_bytes h
       @ udp_header_bytes \<lparr>udp_source_port = 0, udp_dest_port = 0, udp_length = hton16 8,
           udp_checksum_field = 0xFFFF\<rparr>"
  unfolding all_ones_packet_def build_udp4_def Let_def
  by (rule exI, intro conjI)
     (auto simp: IPV4_GET_IHL_def udp_header_bytes_def bytes16_def lo16_def hi16_def)

section \<open>Echo replies\<close>

lemma split_list_at:
  "p \<le> length xs \<Longrightarrow> \<exists>ys zs. xs = ys @ zs \<and> length ys = p"
  by (metis append_take_drop_id length_take min.absorb2)

lemma ping_shape:
  assumes "28 \<le> length data"
  obtains pre src dst t c k1 k2 rest where
    "data = pre @ src @ dst @ t # c # k1 # k2 # rest"
    "length pre = 12" "length src = 4" "length dst = 4"
proof -
  obtain pre r1 where 1: "data = pre @ r1" "length pre = 12"
    using split_list_at [of 12 data] assms by auto
  then obtain src r2 where 2: "r1 = src @ r2" "length src = 4"
    using split_list_at [of 4 r1] assms by auto
  with 1 obtain dst r3 where 3: "r2 = dst @ r3" "length dst = 4"
    using split_list_at [of 4 r2] assms by auto
  have "4 \<le> length r3"
    using assms 1 2 3 by simp
  then obtain t c k1 k2 rest where "r3 = t # c # k1 # k2 # rest"
    by (auto simp: numeral_eq_Suc Suc_le_length_iff)
  with 1 2 3 show ?thesis
    using that by simp
qed

lemma ping_reply_shape:
  assumes "length pre = 12" "length src = 4" "length dst = 4"
  shows "ping_reply (pre @ src @ dst @ t # c # k1 # k2 # rest)
    = pre @ dst @ src @ 0 # c # (k1 + 8) # (if k1 + 8 < 8 then k2 + 1 else k2) # rest"
  using assms
  by (simp add: ping_reply_def Let_def seg_def write_at_def nth_append list_update_append)

lemma pad_even_Cons2 [simp]: "pad_even (a # b # xs) = a # b # pad_even xs"
  by (simp add: pad_even_def)

lemma byte_carry_arith:
  fixes a b c n :: nat
  assumes "a < 256" "b < 256" "(2048 + c + (256 * a + b) + n) mod 65535 = 0"
  defines "new \<equiv> c + (256 * ((a + 8) mod 256) + (if (a + 8) mod 256 < 8 then (b + 1) mod 256 else b)) + n"
  shows "new mod 65535 = 0 \<longleftrightarrow> \<not> (248 \<le> a \<and> b = 255)"
proof -
  let ?old = "2048 + c + (256 * a + b) + n"
  consider "a < 248" | "248 \<le> a" "b < 255" | "248 \<le> a" "b = 255"
    using assms(2) by linarith
  then show ?thesis
  proof cases
    case 1
    then have "new = ?old"
      by (simp add: new_def)
    with 1 assms(3) show ?thesis by simp
  next
    case 2
    then obtain d where d: "a = 248 + d" "d < 8"
      using assms(1) le_Suc_ex [of 248 a] by auto
    then have "?old = new + 65535"
      using 2 by (simp add: new_def)
    then have "new mod 65535 = 0"
      using assms(3) by (metis mod_add_self2)
    with 2 show ?thesis by simp
  next
    case 3
    then obtain d where d: "a = 248 + d" "d < 8"
      using assms(1) le_Suc_ex [of 248 a] by auto
    then have "?old = (new + 256) + 65535"
      using 3 by (simp add: new_def)
    then have "(new + 256) mod 65535 = 0"
      using assms(3) by (metis mod_add_self2)
    moreover have "(new + 256) mod 65535 = (new mod 65535 + 256) mod 65535"
      by (rule mod_add_left_eq [symmetric])
    ultimately have "new mod 65535 \<noteq> 0"
      by (intro notI) simp
    with 3 show ?thesis by simp
  qed
qed

lemma ping_reply_correct_parts:
  assumes "28 \<le> length data" "data ! 20 = 8"
    and "words_sum (pad_even (drop 20 data)) mod 65535 = 0"
  shows "seg (ping_reply data) 12 4 = seg data 16 4"
    "seg (ping_reply data) 16 4 = seg data 12 4"
    "ping_reply data ! 20 = 0"
    "take 12 (ping_reply data) = take 12 data" "drop 24 (ping_reply data) = drop 24 data"
    "words_sum (take 20 (ping_reply data)) = words_sum (take 20 data)"
    "words_sum (pad_even (drop 20 (ping_reply data))) mod 65535 = 0
       \<longleftrightarrow> \<not> (248 \<le> unat (data ! 22) \<and> data ! 23 = 255)"
proof -
  obtain pre src dst t c k1 k2 rest where d: "data = pre @ src @ dst @ t # c # k1 # k2 # rest"
    "length pre = 12" "length src = 4" "length dst = 4"
    using ping_shape [OF assms(1)] .
  then have t: "t = 8"
    using assms(2) by (simp add: nth_append)
  define k2' where "k2' = (if k1 + 8 < 8 then k2 + 1 else k2)"
  have r: "ping_reply data = pre @ dst @ src @ 0 # c # (k1 + 8) # k2' # rest"
    unfolding d(1) k2'_def by (rule ping_reply_shape) (use d in simp_all)
  show "seg (ping_reply data) 12 4 = seg data 16 4"
    "seg (ping_reply data) 16 4 = seg data 12 4" "ping_reply data ! 20 = 0"
    "take 12 (ping_reply data) = take 12 data" "drop 24 (ping_reply data) = drop 24 data"
    unfolding r unfolding d(1) using d(2-4) by (simp_all add: seg_def nth_append)
  show "words_sum (take 20 (ping_reply data)) = words_sum (take 20 data)"
    unfolding r unfolding d(1) using d(2-4) by (simp add: words_sum_append)
  have k: "unat k2' = (if (unat k1 + 8) mod 256 < 8 then (unat k2 + 1) mod 256 else unat k2)"
    by (simp add: k2'_def word_less_nat_alt unat_word_ariths)
  have old: "(2048 + unat c + (256 * unat k1 + unat k2) + words_sum (pad_even rest)) mod 65535 = 0"
    using assms(3) d(2-4) by (simp add: d(1) t add.assoc)
  have "words_sum (pad_even (drop 20 (ping_reply data)))
      = unat c + (256 * ((unat k1 + 8) mod 256) + unat k2') + words_sum (pad_even rest)"
    using d(2-4) by (simp add: r unat_word_ariths)
  moreover have "data ! 22 = k1" "data ! 23 = k2"
    using d by (simp_all add: nth_append)
  ultimately show "words_sum (pad_even (drop 20 (ping_reply data))) mod 65535 = 0
       \<longleftrightarrow> \<not> (248 \<le> unat (data ! 22) \<and> data ! 23 = 255)"
    using byte_carry_arith [OF unat_byte_less unat_byte_less old]
    by (simp add: k word_unat_eq_iff)
qed

text \<open>
  C3. The reply to an echo request (IPv4, no options): source and destination are
  exchanged, the type becomes 0, everything else but the checksum is unchanged, the IP header
  sum is preserved, and the ICMP sum of the reply verifies exactly when the byte-wise
  update \<open>data[22] += 8; if (data[22] < 8) data[23] += 1\<close> had no second carry to propagate.
  (For a request checksum \<open>0xF8FF\<close>, \<open>0xF9FF\<close>, \<dots>, \<open>0xFFFF\<close> the reply is wrong.)
\<close>

theorem ping_reply_correct:
  assumes "28 \<le> length data" "data ! 20 = 8"
    and "words_sum (pad_even (drop 20 data)) mod 65535 = 0"
  shows "seg (ping_reply data) 12 4 = seg data 16 4
    \<and> seg (ping_reply data) 16 4 = seg data 12 4
    \<and> ping_reply data ! 20 = 0
    \<and> take 12 (ping_reply data) = take 12 data
    \<and> drop 24 (ping_reply data) = drop 24 data
    \<and> words_sum (take 20 (ping_reply data)) = words_sum (take 20 data)
    \<and> (words_sum (pad_even (drop 20 (ping_reply data))) mod 65535 = 0
       \<longleftrightarrow> \<not> (248 \<le> unat (data ! 22) \<and> data ! 23 = 255))"
  by (intro conjI ping_reply_correct_parts [OF assms])

lemma ping6_reply_shape:
  assumes "length pre = 8" "length src = 16" "length dst = 16"
  shows "ping6_reply (pre @ src @ dst @ t # c # k1 # k2 # rest)
    = pre @ dst @ src @ 129 # c # (k1 - 1) # (if k1 - 1 = 255 then k2 - 1 else k2) # rest"
  using assms
  by (simp add: ping6_reply_def Let_def seg_def write_at_def nth_append list_update_append)

lemma ping6_shape:
  assumes "48 \<le> length data"
  obtains pre src dst t c k1 k2 rest where
    "data = pre @ src @ dst @ t # c # k1 # k2 # rest"
    "length pre = 8" "length src = 16" "length dst = 16"
proof -
  obtain pre r1 where 1: "data = pre @ r1" "length pre = 8"
    using split_list_at [of 8 data] assms by auto
  then obtain src r2 where 2: "r1 = src @ r2" "length src = 16"
    using split_list_at [of 16 r1] assms by auto
  with 1 obtain dst r3 where 3: "r2 = dst @ r3" "length dst = 16"
    using split_list_at [of 16 r2] assms by auto
  have "4 \<le> length r3"
    using assms 1 2 3 by simp
  then obtain t c k1 k2 rest where "r3 = t # c # k1 # k2 # rest"
    by (auto simp: numeral_eq_Suc Suc_le_length_iff)
  with 1 2 3 show ?thesis
    using that by simp
qed

lemma unat_byte_minus_1: "unat (x - 1) = (unat x + 255) mod 256" for x :: byte
proof -
  have "(255 :: byte) = - 1"
    by simp
  then have "x - 1 = x + 255"
    by (metis add_uminus_conv_diff)
  then show ?thesis
    by (simp only: unat_word_ariths) simp
qed

lemma byte_borrow_arith:
  fixes a b c n :: nat
  assumes "a < 256" "b < 256"
  defines "old \<equiv> 128 * 256 + c + (256 * a + b) + n"
  defines "new \<equiv> 129 * 256 + c + (256 * ((a + 255) mod 256)
      + (if (a + 255) mod 256 = 255 then (b + 255) mod 256 else b)) + n"
  shows "new mod 65535 = old mod 65535 \<longleftrightarrow> \<not> (a = 0 \<and> b = 0)"
proof -
  consider "0 < a" | "a = 0" "0 < b" | "a = 0" "b = 0"
    by linarith
  then show ?thesis
  proof cases
    case 1
    then obtain d where "a = Suc d"
      by (cases a) auto
    then have "new = old"
      using assms(1) by (simp add: new_def old_def)
    with 1 show ?thesis by simp
  next
    case 2
    then obtain d where "b = Suc d"
      by (cases b) auto
    then have "new = old + 65535"
      using 2 assms(2) by (simp add: new_def old_def)
    with 2 show ?thesis by simp
  next
    case 3
    then have "new = (old + 256) + 65535"
      by (simp add: new_def old_def)
    then have "new mod 65535 = (old + 256) mod 65535"
      by (simp only: mod_add_self2)
    moreover have "(old + 256) mod 65535 \<noteq> old mod 65535"
    proof
      assume "(old + 256) mod 65535 = old mod 65535"
      then have "65535 dvd old + 256 - old"
        by (metis mod_eq_dvd_iff_nat le_add1)
      then show False by simp
    qed
    ultimately show ?thesis
      using 3 by simp
  qed
qed

lemma ping6_reply_correct_parts:
  assumes "48 \<le> length data" "data ! 40 = 128"
  shows "seg (ping6_reply data) 8 16 = seg data 24 16"
    "seg (ping6_reply data) 24 16 = seg data 8 16"
    "ping6_reply data ! 40 = 129"
    "take 8 (ping6_reply data) = take 8 data" "drop 44 (ping6_reply data) = drop 44 data"
    "words_sum (pad_even (drop 40 (ping6_reply data))) mod 65535
         = words_sum (pad_even (drop 40 data)) mod 65535
       \<longleftrightarrow> \<not> (data ! 42 = 0 \<and> data ! 43 = 0)"
proof -
  obtain pre src dst t c k1 k2 rest where d: "data = pre @ src @ dst @ t # c # k1 # k2 # rest"
    "length pre = 8" "length src = 16" "length dst = 16"
    using ping6_shape [OF assms(1)] .
  then have t: "t = 128"
    using assms(2) by (simp add: nth_append)
  define k2' where "k2' = (if k1 - 1 = 255 then k2 - 1 else k2)"
  have r: "ping6_reply data = pre @ dst @ src @ 129 # c # (k1 - 1) # k2' # rest"
    unfolding d(1) k2'_def by (rule ping6_reply_shape) (use d in simp_all)
  show "seg (ping6_reply data) 8 16 = seg data 24 16"
    "seg (ping6_reply data) 24 16 = seg data 8 16" "ping6_reply data ! 40 = 129"
    "take 8 (ping6_reply data) = take 8 data" "drop 44 (ping6_reply data) = drop 44 data"
    unfolding r unfolding d(1) using d(2-4) by (simp_all add: seg_def nth_append)
  note m = unat_byte_minus_1
  have k: "unat k2' = (if (unat k1 + 255) mod 256 = 255 then (unat k2 + 255) mod 256 else unat k2)"
    by (simp add: k2'_def m word_unat_eq_iff)
  have "words_sum (pad_even (drop 40 (ping6_reply data)))
      = 129 * 256 + unat c + (256 * ((unat k1 + 255) mod 256) + unat k2') + words_sum (pad_even rest)"
    "words_sum (pad_even (drop 40 data))
      = 128 * 256 + unat c + (256 * unat k1 + unat k2) + words_sum (pad_even rest)"
    using d(2-4) by (simp_all add: r m) (simp add: d(1) t)
  moreover have "data ! 42 = k1" "data ! 43 = k2"
    using d by (simp_all add: nth_append)
  ultimately show "words_sum (pad_even (drop 40 (ping6_reply data))) mod 65535
         = words_sum (pad_even (drop 40 data)) mod 65535
       \<longleftrightarrow> \<not> (data ! 42 = 0 \<and> data ! 43 = 0)"
    using byte_borrow_arith [OF unat_byte_less unat_byte_less]
    by (simp add: k word_unat_eq_iff)
qed

text \<open>
  The reply to an ICMPv6 echo request: the addresses are exchanged (which leaves the
  pseudo-header sum alone), the type becomes 129, and the message sum is preserved exactly
  when the request's checksum field was not zero.
\<close>

lemma ping6_reply_correct:
  assumes "48 \<le> length data" "data ! 40 = 128"
  shows "seg (ping6_reply data) 8 16 = seg data 24 16
    \<and> seg (ping6_reply data) 24 16 = seg data 8 16
    \<and> ping6_reply data ! 40 = 129
    \<and> take 8 (ping6_reply data) = take 8 data
    \<and> drop 44 (ping6_reply data) = drop 44 data
    \<and> (words_sum (pad_even (drop 40 (ping6_reply data))) mod 65535
         = words_sum (pad_even (drop 40 data)) mod 65535
       \<longleftrightarrow> \<not> (data ! 42 = 0 \<and> data ! 43 = 0))"
  by (intro conjI ping6_reply_correct_parts [OF assms])

text \<open>Two valid echo requests: one answered correctly, one with a wrong reply checksum.\<close>

definition ping_ok :: "byte list" where
  "ping_ok = replicate 20 69 @ [8, 0, 0xF7, 0xFF, 0, 0, 0, 0]"

definition ping_bad :: "byte list" where
  "ping_bad = replicate 20 69 @ [8, 0, 0xF8, 0xFF, 0xFE, 0xFF, 0, 0]"

theorem ping_reply_correct_witness:
  "words_sum (pad_even (drop 20 (ping_reply ping_ok))) mod 65535 = 0
   \<and> words_sum (pad_even (drop 20 ping_bad)) mod 65535 = 0
   \<and> words_sum (pad_even (drop 20 (ping_reply ping_bad))) mod 65535 \<noteq> 0"
proof -
  have ok: "28 \<le> length ping_ok" "ping_ok ! 20 = 8"
      "words_sum (pad_even (drop 20 ping_ok)) mod 65535 = 0" "\<not> 248 \<le> unat (ping_ok ! 22)"
    and bad: "28 \<le> length ping_bad" "ping_bad ! 20 = 8"
      "words_sum (pad_even (drop 20 ping_bad)) mod 65535 = 0"
      "248 \<le> unat (ping_bad ! 22)" "ping_bad ! 23 = 255"
    by (simp_all add: ping_ok_def ping_bad_def nth_append pad_even_def)
  show ?thesis
    using ping_reply_correct [OF ok(1-3)] ping_reply_correct [OF bad(1-3)] ok(4) bad(3-5)
    by simp
qed

end
