(* ===== verification/BPending.thy ===== *)
theory BPending
  imports Prelude
begin

text \<open>
  \<open>base/BPending.c\<close>: the job queue of the event loop. A group is a linked list of
  pending jobs, newest first; the reactor pops and runs the head until the list is empty, so
  jobs run in LIFO order. Job objects are named by values of an arbitrary type \<open>'j\<close>; each
  carries its handler, the mark of its list node and the \<open>pending\<close> flag of the debug build.
  \<open>None\<close> is a failed assertion.
\<close>

record 'h BSmallPending =
  handler :: 'h
  node_removed :: bool
  pending :: bool

record ('j, 'h) BPendingGroup =
  jobs :: "'j list"
  pending_ctr :: nat
  smalls :: "'j \<Rightarrow> 'h BSmallPending option"

definition BPendingGroup_Init :: "('j, 'h) BPendingGroup" where
  "BPendingGroup_Init = \<lparr> jobs = [], pending_ctr = 0, smalls = Map.empty \<rparr>"

definition BPendingGroup_Free :: "('j, 'h) BPendingGroup \<Rightarrow> unit option" where
  "BPendingGroup_Free g = do { assert_that (pending_ctr g = 0); assert_that (jobs g = []) }"

definition BPendingGroup_HasJobs :: "('j, 'h) BPendingGroup \<Rightarrow> bool" where
  "BPendingGroup_HasJobs g \<longleftrightarrow> jobs g \<noteq> []"

definition BPendingGroup_PeekJob :: "('j, 'h) BPendingGroup \<Rightarrow> 'j option" where
  "BPendingGroup_PeekJob g = (case jobs g of [] \<Rightarrow> None | p # _ \<Rightarrow> Some p)"

text \<open>The group after removing the head, with the job to run and its handler.\<close>

definition BPendingGroup_ExecuteJob ::
  "('j, 'h) BPendingGroup \<Rightarrow> ('j \<times> 'h \<times> ('j, 'h) BPendingGroup) option" where
  "BPendingGroup_ExecuteJob g = do {
     assert_that (jobs g \<noteq> []);
     let p = hd (jobs g);
     o' \<leftarrow> smalls g p;
     assert_that (\<not> node_removed o');
     assert_that (pending o');
     Some (p, handler o', g\<lparr>jobs := drop 1 (jobs g),
       smalls := (smalls g)(p \<mapsto> o'\<lparr>node_removed := True, pending := False\<rparr>)\<rparr>)
   }"

definition BSmallPending_Init ::
  "'j \<Rightarrow> 'h \<Rightarrow> ('j, 'h) BPendingGroup \<Rightarrow> ('j, 'h) BPendingGroup" where
  "BSmallPending_Init j h g = g\<lparr>pending_ctr := pending_ctr g + 1,
     smalls := (smalls g)(j \<mapsto> \<lparr> handler = h, node_removed = True, pending = False \<rparr>)\<rparr>"

text \<open>\<open>BPending__List_Remove\<close> on a node of the list.\<close>

definition list_remove :: "'j \<Rightarrow> 'j list \<Rightarrow> 'j list option" where
  "list_remove j js = (if j \<in> set js then Some (remove1 j js) else None)"

definition BSmallPending_Free :: "'j \<Rightarrow> ('j, 'h) BPendingGroup \<Rightarrow> ('j, 'h) BPendingGroup option" where
  "BSmallPending_Free j g = do {
     o' \<leftarrow> smalls g j;
     assert_that (pending_ctr g > 0);
     assert_that (pending o' = (\<not> node_removed o'));
     js \<leftarrow> (if \<not> node_removed o' then list_remove j (jobs g) else Some (jobs g));
     Some (g\<lparr>jobs := js, pending_ctr := pending_ctr g - 1, smalls := (smalls g)(j := None)\<rparr>)
   }"

definition BSmallPending_SetHandler ::
  "'j \<Rightarrow> 'h \<Rightarrow> ('j, 'h) BPendingGroup \<Rightarrow> ('j, 'h) BPendingGroup option" where
  "BSmallPending_SetHandler j h g = do {
     o' \<leftarrow> smalls g j;
     Some (g\<lparr>smalls := (smalls g)(j \<mapsto> o'\<lparr>handler := h\<rparr>)\<rparr>)
   }"

definition BSmallPending_Set :: "'j \<Rightarrow> ('j, 'h) BPendingGroup \<Rightarrow> ('j, 'h) BPendingGroup option" where
  "BSmallPending_Set j g = do {
     o' \<leftarrow> smalls g j;
     assert_that (pending o' = (\<not> node_removed o'));
     js \<leftarrow> (if \<not> node_removed o' then list_remove j (jobs g) else Some (jobs g));
     Some (g\<lparr>jobs := j # js,
             smalls := (smalls g)(j \<mapsto> o'\<lparr>node_removed := False, pending := True\<rparr>)\<rparr>)
   }"

definition BSmallPending_Unset :: "'j \<Rightarrow> ('j, 'h) BPendingGroup \<Rightarrow> ('j, 'h) BPendingGroup option" where
  "BSmallPending_Unset j g = do {
     o' \<leftarrow> smalls g j;
     assert_that (pending o' = (\<not> node_removed o'));
     (if \<not> node_removed o' then do {
        js \<leftarrow> list_remove j (jobs g);
        Some (g\<lparr>jobs := js,
                smalls := (smalls g)(j \<mapsto> o'\<lparr>node_removed := True, pending := False\<rparr>)\<rparr>)
      } else Some g)
   }"

definition BSmallPending_IsSet :: "'j \<Rightarrow> ('j, 'h) BPendingGroup \<Rightarrow> bool option" where
  "BSmallPending_IsSet j g = do {
     o' \<leftarrow> smalls g j;
     assert_that (pending o' = (\<not> node_removed o'));
     Some (\<not> node_removed o')
   }"

section \<open>Well-formed groups\<close>

definition group_wf :: "('j, 'h) BPendingGroup \<Rightarrow> bool" where
  "group_wf g \<longleftrightarrow> distinct (jobs g) \<and> set (jobs g) \<subseteq> dom (smalls g)
     \<and> finite (dom (smalls g)) \<and> pending_ctr g = card (dom (smalls g))
     \<and> (\<forall>j o'. smalls g j = Some o' \<longrightarrow>
          pending o' = (j \<in> set (jobs g)) \<and> node_removed o' = (j \<notin> set (jobs g)))"

lemma group_wfI:
  assumes "distinct (jobs g)" "set (jobs g) \<subseteq> dom (smalls g)" "finite (dom (smalls g))"
    "pending_ctr g = card (dom (smalls g))"
    "\<And>j o'. smalls g j = Some o' \<Longrightarrow>
       pending o' = (j \<in> set (jobs g)) \<and> node_removed o' = (j \<notin> set (jobs g))"
  shows "group_wf g"
  using assms unfolding group_wf_def by blast

lemma group_wfD:
  assumes "group_wf g"
  shows "distinct (jobs g)" "set (jobs g) \<subseteq> dom (smalls g)" "finite (dom (smalls g))"
    "pending_ctr g = card (dom (smalls g))"
    "smalls g j = Some o' \<Longrightarrow> pending o' = (j \<in> set (jobs g))"
    "smalls g j = Some o' \<Longrightarrow> node_removed o' = (j \<notin> set (jobs g))"
  using assms unfolding group_wf_def by blast+

lemma wf_Init: "group_wf BPendingGroup_Init"
  by (rule group_wfI) (simp_all add: BPendingGroup_Init_def)

lemma wf_small_Init:
  assumes "group_wf g" "smalls g j = None"
  shows "group_wf (BSmallPending_Init j h g)"
proof (rule group_wfI)
  note wf = group_wfD [OF assms(1)]
  show "distinct (jobs (BSmallPending_Init j h g))"
    "set (jobs (BSmallPending_Init j h g)) \<subseteq> dom (smalls (BSmallPending_Init j h g))"
    "finite (dom (smalls (BSmallPending_Init j h g)))"
    using wf by (auto simp: BSmallPending_Init_def)
  show "pending_ctr (BSmallPending_Init j h g) = card (dom (smalls (BSmallPending_Init j h g)))"
    using wf(3,4) assms(2) by (simp add: BSmallPending_Init_def domIff)
  show "pending o' = (i \<in> set (jobs (BSmallPending_Init j h g)))
      \<and> node_removed o' = (i \<notin> set (jobs (BSmallPending_Init j h g)))"
    if "smalls (BSmallPending_Init j h g) i = Some o'" for i o'
    using that wf(2) wf(5,6) [of i o'] assms(2)
    by (auto simp: BSmallPending_Init_def split: if_splits)
qed

text \<open>Each operation on a well-formed group succeeds, with its effect on the job list.\<close>

lemma Set_wf:
  assumes "group_wf g" "smalls g j = Some o'"
  shows "\<exists>g'. BSmallPending_Set j g = Some g' \<and> group_wf g' \<and> dom (smalls g') = dom (smalls g)
     \<and> jobs g' = j # remove1 j (jobs g)
     \<and> map_option handler \<circ> smalls g' = map_option handler \<circ> smalls g"
proof -
  note wf = group_wfD [OF assms(1)]
  let ?g = "g\<lparr>jobs := j # remove1 j (jobs g),
             smalls := (smalls g)(j \<mapsto> o'\<lparr>node_removed := False, pending := True\<rparr>)\<rparr>"
  have "BSmallPending_Set j g = Some ?g"
    using assms(2) wf(5,6) [OF assms(2)]
    by (simp add: BSmallPending_Set_def list_remove_def remove1_idem)
  moreover have "group_wf ?g"
    by (rule group_wfI) (use wf assms(2) in \<open>auto simp: insert_absorb domIff split: if_splits\<close>)
  ultimately show ?thesis
    using assms(2) by (auto simp: fun_eq_iff)
qed

lemma Unset_wf:
  assumes "group_wf g" "smalls g j = Some o'"
  shows "\<exists>g'. BSmallPending_Unset j g = Some g' \<and> group_wf g' \<and> dom (smalls g') = dom (smalls g)
     \<and> jobs g' = remove1 j (jobs g)
     \<and> map_option handler \<circ> smalls g' = map_option handler \<circ> smalls g"
proof (cases "j \<in> set (jobs g)")
  case False
  then show ?thesis
    using assms group_wfD(5,6) [OF assms] by (simp add: BSmallPending_Unset_def remove1_idem)
next
  case True
  note wf = group_wfD [OF assms(1)]
  let ?g = "g\<lparr>jobs := remove1 j (jobs g),
             smalls := (smalls g)(j \<mapsto> o'\<lparr>node_removed := True, pending := False\<rparr>)\<rparr>"
  have "BSmallPending_Unset j g = Some ?g"
    using True assms(2) wf(5,6) [OF assms(2)] by (simp add: BSmallPending_Unset_def list_remove_def)
  moreover have "group_wf ?g"
    by (rule group_wfI) (use wf assms(2) in \<open>auto simp: insert_absorb domIff split: if_splits\<close>)
  ultimately show ?thesis
    using assms(2) by (auto simp: fun_eq_iff)
qed

lemma Free_wf:
  assumes "group_wf g" "smalls g j = Some o'"
  shows "\<exists>g'. BSmallPending_Free j g = Some g' \<and> group_wf g'
     \<and> smalls g' = (smalls g)(j := None) \<and> jobs g' = remove1 j (jobs g)"
proof -
  note wf = group_wfD [OF assms(1)]
  let ?g = "g\<lparr>jobs := remove1 j (jobs g), pending_ctr := pending_ctr g - 1,
             smalls := (smalls g)(j := None)\<rparr>"
  have "0 < pending_ctr g"
    using wf(3,4) assms(2) by (auto simp: card_gt_0_iff)
  then have "BSmallPending_Free j g = Some ?g"
    using assms(2) wf(5,6) [OF assms(2)]
    by (simp add: BSmallPending_Free_def list_remove_def remove1_idem)
  moreover have "group_wf ?g"
    by (rule group_wfI) (use wf assms(2) in \<open>auto simp: domIff split: if_splits\<close>)
  ultimately show ?thesis by simp
qed

lemma Execute_wf:
  assumes "group_wf g" "jobs g = j # js"
  shows "\<exists>o' g'. smalls g j = Some o' \<and> BPendingGroup_ExecuteJob g = Some (j, handler o', g')
     \<and> group_wf g' \<and> jobs g' = js \<and> dom (smalls g') = dom (smalls g)
     \<and> map_option handler \<circ> smalls g' = map_option handler \<circ> smalls g"
proof -
  note wf = group_wfD [OF assms(1)]
  obtain o' where o': "smalls g j = Some o'"
    using wf(2) assms(2) by auto
  let ?g = "g\<lparr>jobs := js, smalls := (smalls g)(j \<mapsto> o'\<lparr>node_removed := True, pending := False\<rparr>)\<rparr>"
  have "BPendingGroup_ExecuteJob g = Some (j, handler o', ?g)"
    using o' wf(5,6) [OF o'] assms(2) by (simp add: BPendingGroup_ExecuteJob_def)
  moreover have "group_wf ?g"
    by (rule group_wfI) (use wf o' assms(2) in \<open>auto simp: insert_absorb domIff split: if_splits\<close>)
  ultimately show ?thesis
    using o' by (auto simp: fun_eq_iff)
qed

section \<open>The job queue as an interface\<close>

text \<open>
  What the users of a job group rely on: a job may be set and unset at any time, and the
  reactor pops the newest. \<open>pops\<close> runs the queue for a number of steps.
\<close>

fun pops :: "('g \<Rightarrow> ('j \<times> 'g) option) \<Rightarrow> nat \<Rightarrow> 'g \<Rightarrow> ('j list \<times> 'g) option" where
  "pops pop 0 g = Some ([], g)"
| "pops pop (Suc n) g = do { (j, g) \<leftarrow> pop g; (js, g) \<leftarrow> pops pop n g; Some (j # js, g) }"

text \<open>Setting the jobs of a list, one after the other.\<close>

fun sets :: "('j \<Rightarrow> 'g \<Rightarrow> 'g option) \<Rightarrow> 'j list \<Rightarrow> 'g \<Rightarrow> 'g option" where
  "sets set_job [] g = Some g"
| "sets set_job (j # js) g = do { g \<leftarrow> set_job j g; sets set_job js g }"

lemma sets_append: "sets f (is @ js) g = do { g \<leftarrow> sets f is g; sets f js g }"
  by (induction "is" arbitrary: g) (auto split: Option.bind_splits)

lemma remdups_snoc: "remdups (xs @ [x]) = filter (\<lambda>y. y \<noteq> x) (remdups xs) @ [x]"
  by (induction xs) auto

lemma distinct_remove1_filter: "distinct xs \<Longrightarrow> remove1 x xs = filter (\<lambda>y. y \<noteq> x) xs"
  by (induction xs) (auto intro!: filter_True [symmetric])

locale job_queue =
  fixes set_job unset_job :: "'j \<Rightarrow> 'g \<Rightarrow> 'g option"
    and pop :: "'g \<Rightarrow> ('j \<times> 'g) option"
    and pend :: "'g \<Rightarrow> 'j list" and objs :: "'g \<Rightarrow> 'j set" and inv :: "'g \<Rightarrow> bool"
  assumes set_ok: "inv g \<Longrightarrow> j \<in> objs g \<Longrightarrow>
      \<exists>g'. set_job j g = Some g' \<and> inv g' \<and> objs g' = objs g \<and> pend g' = j # remove1 j (pend g)"
    and unset_ok: "inv g \<Longrightarrow> j \<in> objs g \<Longrightarrow>
      \<exists>g'. unset_job j g = Some g' \<and> inv g' \<and> objs g' = objs g \<and> pend g' = remove1 j (pend g)"
    and pop_ok: "inv g \<Longrightarrow> pend g = j # js \<Longrightarrow>
      \<exists>g'. pop g = Some (j, g') \<and> inv g' \<and> objs g' = objs g \<and> pend g' = js"
    and pend_distinct: "inv g \<Longrightarrow> distinct (pend g)"
    and pend_objs: "inv g \<Longrightarrow> set (pend g) \<subseteq> objs g"
begin

lemma set_mem:
  assumes "inv g" "j \<in> objs g"
  shows "\<exists>g'. set_job j g = Some g' \<and> inv g' \<and> objs g' = objs g
     \<and> set (pend g') = insert j (set (pend g))"
  using set_ok [OF assms] pend_distinct [OF assms(1)] by auto

lemma unset_mem:
  assumes "inv g" "j \<in> objs g"
  shows "\<exists>g'. unset_job j g = Some g' \<and> inv g' \<and> objs g' = objs g
     \<and> set (pend g') = set (pend g) - {j}"
  using unset_ok [OF assms] pend_distinct [OF assms(1)] by auto

lemma pop_mem:
  assumes "inv g" "pend g = j # js"
  shows "\<exists>g'. pop g = Some (j, g') \<and> inv g' \<and> objs g' = objs g
     \<and> set (pend g') = set (pend g) - {j}"
  using pop_ok [OF assms] pend_distinct [OF assms(1)] assms(2) by auto

lemma set_then_pop:
  assumes "inv g" "j \<in> objs g"
  shows "\<exists>g' g''. set_job j g = Some g' \<and> pop g' = Some (j, g'') \<and> inv g''
     \<and> pend g'' = remove1 j (pend g)"
  using set_ok [OF assms] pop_ok by blast

lemma pops_all:
  assumes "inv g"
  shows "\<exists>g'. pops pop (length (pend g)) g = Some (pend g, g') \<and> inv g' \<and> pend g' = []"
  using assms
proof (induction "pend g" arbitrary: g)
  case Nil
  then show ?case by simp
next
  case (Cons j js)
  obtain g1 where g1: "pop g = Some (j, g1)" "inv g1" "pend g1 = js"
    using pop_ok [OF Cons.prems] Cons.hyps(2) [symmetric] by auto
  with Cons.hyps(1) [of g1] obtain g2 where
    "pops pop (length js) g1 = Some (js, g2)" "inv g2" "pend g2 = []"
    by auto
  then show ?case
    using g1(1) by (simp flip: Cons.hyps(2))
qed

lemma sets_all:
  assumes "inv g" "set js \<subseteq> objs g"
  shows "\<exists>g'. sets set_job js g = Some g' \<and> inv g' \<and> objs g' = objs g
     \<and> pend g' = rev (remdups js) @ filter (\<lambda>j. j \<notin> set js) (pend g)"
  using assms(2)
proof (induction js rule: rev_induct)
  case Nil
  then show ?case using assms(1) by simp
next
  case (snoc j js)
  then obtain g1 where g1: "sets set_job js g = Some g1" "inv g1" "objs g1 = objs g"
    "pend g1 = rev (remdups js) @ filter (\<lambda>j. j \<notin> set js) (pend g)" by auto
  moreover obtain g2 where g2: "set_job j g1 = Some g2" "inv g2" "objs g2 = objs g"
    "pend g2 = j # remove1 j (pend g1)" using set_ok [OF g1(2), of j] snoc.prems g1(3) by auto
  moreover have "remove1 j (pend g1) = filter (\<lambda>i. i \<noteq> j) (pend g1)"
    by (rule distinct_remove1_filter [OF pend_distinct [OF g1(2)]])
  ultimately show ?case by (auto simp: sets_append remdups_snoc rev_filter intro: filter_cong)
qed

end

definition pop_job :: "('j, 'h) BPendingGroup \<Rightarrow> ('j \<times> ('j, 'h) BPendingGroup) option" where
  "pop_job g = do { (j, h, g') \<leftarrow> BPendingGroup_ExecuteJob g; Some (j, g') }"

interpretation jq: job_queue BSmallPending_Set BSmallPending_Unset pop_job jobs
  "\<lambda>g. dom (smalls g)" group_wf
proof unfold_locales
  fix g :: "('j, 'h) BPendingGroup" and j js
  assume wf: "group_wf g"
  show "distinct (jobs g)" "set (jobs g) \<subseteq> dom (smalls g)"
    using group_wfD [OF wf] by blast+
  show "\<exists>g'. pop_job g = Some (j, g') \<and> group_wf g' \<and> dom (smalls g') = dom (smalls g)
      \<and> jobs g' = js" if "jobs g = j # js"
    using Execute_wf [OF wf that] by (auto simp: pop_job_def)
next
  fix g :: "('j, 'h) BPendingGroup" and j
  assume wf: "group_wf g" and "j \<in> dom (smalls g)"
  then obtain o' where "smalls g j = Some o'" by auto
  with Set_wf [OF wf this] Unset_wf [OF wf this]
  show "\<exists>g'. BSmallPending_Set j g = Some g' \<and> group_wf g' \<and> dom (smalls g') = dom (smalls g)
      \<and> jobs g' = j # remove1 j (jobs g)"
    "\<exists>g'. BSmallPending_Unset j g = Some g' \<and> group_wf g' \<and> dom (smalls g') = dom (smalls g)
      \<and> jobs g' = remove1 j (jobs g)"
    by auto
qed

section \<open>Reachable groups\<close>

datatype ('j, 'h) bp_op =
    BP_Init 'j 'h | BP_Free 'j | BP_SetHandler 'j 'h | BP_Set 'j | BP_Unset 'j | BP_Execute

text \<open>The calls a program makes, and the documented condition under which it may make each.\<close>

fun bp_allowed :: "('j, 'h) bp_op \<Rightarrow> ('j, 'h) BPendingGroup \<Rightarrow> bool" where
  "bp_allowed (BP_Init j h) g = (smalls g j = None)"
| "bp_allowed (BP_Free j) g = (smalls g j \<noteq> None)"
| "bp_allowed (BP_SetHandler j h) g = (smalls g j \<noteq> None)"
| "bp_allowed (BP_Set j) g = (smalls g j \<noteq> None)"
| "bp_allowed (BP_Unset j) g = (smalls g j \<noteq> None)"
| "bp_allowed BP_Execute g = BPendingGroup_HasJobs g"

fun bp_apply :: "('j, 'h) bp_op \<Rightarrow> ('j, 'h) BPendingGroup \<Rightarrow> ('j, 'h) BPendingGroup option" where
  "bp_apply (BP_Init j h) g = Some (BSmallPending_Init j h g)"
| "bp_apply (BP_Free j) g = BSmallPending_Free j g"
| "bp_apply (BP_SetHandler j h) g = BSmallPending_SetHandler j h g"
| "bp_apply (BP_Set j) g = BSmallPending_Set j g"
| "bp_apply (BP_Unset j) g = BSmallPending_Unset j g"
| "bp_apply BP_Execute g = map_option snd (pop_job g)"

inductive bp_reachable :: "('j, 'h) BPendingGroup option \<Rightarrow> bool" where
  init: "bp_reachable (Some BPendingGroup_Init)"
| step: "bp_reachable (Some g) \<Longrightarrow> bp_allowed op g \<Longrightarrow> bp_reachable (bp_apply op g)"

lemma bp_apply_wf:
  assumes wf: "group_wf g" and "bp_allowed op g"
  shows "\<exists>g'. bp_apply op g = Some g' \<and> group_wf g'"
proof (cases op)
  case (BP_Init j h)
  then show ?thesis using assms wf_small_Init by fastforce
next
  case (BP_Free j)
  then show ?thesis using assms Free_wf by fastforce
next
  case (BP_SetHandler j h)
  then obtain o' where o': "smalls g j = Some o'" using assms(2) by auto
  have "group_wf (g\<lparr>smalls := (smalls g)(j \<mapsto> o'\<lparr>handler := h\<rparr>)\<rparr>)"
    by (rule group_wfI)
       (use group_wfD [OF wf] o' in \<open>auto simp: insert_absorb domIff split: if_splits\<close>)
  then show ?thesis using BP_SetHandler o' by (simp add: BSmallPending_SetHandler_def)
next
  case (BP_Set j)
  then show ?thesis using assms Set_wf by fastforce
next
  case (BP_Unset j)
  then show ?thesis using assms Unset_wf by fastforce
next
  case BP_Execute
  then obtain j js where "jobs g = j # js"
    using assms(2) by (cases "jobs g") (auto simp: BPendingGroup_HasJobs_def)
  then show ?thesis using jq.pop_ok [OF wf] BP_Execute by auto
qed

lemma bp_reachable_wf: "bp_reachable r \<Longrightarrow> \<exists>g. r = Some g \<and> group_wf g"
  by (induction rule: bp_reachable.induct) (auto simp: wf_Init dest: bp_apply_wf)

text \<open>
  C4. Whatever jobs a program creates, frees, sets, unsets and runs through the documented calls,
  no assertion of \<open>BPending.c\<close> fails; the pending list has no duplicates, its members are
  exactly the jobs marked pending, and the counter of live jobs is right.
\<close>

theorem BPending_no_assertion_fails:
  assumes "bp_reachable r"
  shows "\<exists>g. r = Some g \<and> distinct (jobs g) \<and> pending_ctr g = card (dom (smalls g))
     \<and> {j. \<exists>o'. smalls g j = Some o' \<and> pending o'} = set (jobs g)"
proof -
  obtain g where g: "r = Some g" "group_wf g"
    using bp_reachable_wf [OF assms] by blast
  have "\<exists>o'. smalls g j = Some o' \<and> pending o'" if "j \<in> set (jobs g)" for j
    using that group_wfD(2,5) [OF g(2)] by blast
  then show ?thesis
    using g group_wfD [OF g(2)] by blast
qed

theorem BPending_no_assertion_fails_witness:
  "\<exists>g. bp_apply (BP_Set True) (BSmallPending_Init True () BPendingGroup_Init) = Some g
     \<and> {j. \<exists>o'. smalls g j = Some o' \<and> pending o'} = set (jobs g)"
proof -
  have "bp_reachable (bp_apply (BP_Set True) (BSmallPending_Init True () BPendingGroup_Init))"
    by (rule bp_reachable.step [OF bp_reachable.step [OF bp_reachable.init,
          of "BP_Init True ()", simplified]])
       (simp_all add: BPendingGroup_Init_def BSmallPending_Init_def)
  from BPending_no_assertion_fails [OF this] show ?thesis by blast
qed

text \<open>
  C5. Jobs run in the reverse of the order in which they were last set. Setting the jobs of any list \<open>js\<close>
  in a reachable group, whether they are pending or not and also several times, succeeds; running jobs until
  none is left then runs each job of \<open>js\<close> once, the one set last first, then those that were pending
  before, in the order they had, and leaves nothing pending.
\<close>

theorem BPending_runs_lifo:
  assumes "bp_reachable (Some g)" "set js \<subseteq> dom (smalls g)"
  shows "\<exists>g1 g2. sets BSmallPending_Set js g = Some g1
     \<and> pops pop_job (length (jobs g1)) g1 = Some (rev (remdups js) @ filter (\<lambda>j. j \<notin> set js) (jobs g), g2)
     \<and> \<not> BPendingGroup_HasJobs g2"
proof -
  obtain g1 where "sets BSmallPending_Set js g = Some g1" "group_wf g1"
    "jobs g1 = rev (remdups js) @ filter (\<lambda>j. j \<notin> set js) (jobs g)"
    using jq.sets_all [OF _ assms(2)] bp_reachable_wf [OF assms(1)] by blast
  then show ?thesis using jq.pops_all [of g1] by (fastforce simp: BPendingGroup_HasJobs_def)
qed

definition example_group :: "(int, unit) BPendingGroup" where
  "example_group = \<lparr> jobs = [2, 1], pending_ctr = 2,
     smalls = [1 \<mapsto> \<lparr> handler = (), node_removed = False, pending = True \<rparr>,
               2 \<mapsto> \<lparr> handler = (), node_removed = False, pending = True \<rparr>] \<rparr>"

lemma example_group_reachable: "bp_reachable (Some example_group)"
proof -
  let ?g2 = "BSmallPending_Init 2 () (BSmallPending_Init 1 () BPendingGroup_Init)
    :: (int, unit) BPendingGroup"
  have "bp_reachable (Some (BSmallPending_Init 1 () BPendingGroup_Init
      :: (int, unit) BPendingGroup))"
    using bp_reachable.step [OF bp_reachable.init, of "BP_Init 1 ()"]
    by (simp add: BPendingGroup_Init_def)
  from bp_reachable.step [OF this, of "BP_Init 2 ()"] have 2: "bp_reachable (Some ?g2)"
    by (simp add: BPendingGroup_Init_def BSmallPending_Init_def)
  let ?o = "\<lparr> handler = (), node_removed = False, pending = True \<rparr>"
  let ?g3 = "?g2\<lparr>jobs := [1], smalls := (smalls ?g2)(1 \<mapsto> ?o)\<rparr>"
  from bp_reachable.step [OF 2, of "BP_Set 1"] have 3: "bp_reachable (Some ?g3)"
    by (simp add: BPendingGroup_Init_def BSmallPending_Init_def BSmallPending_Set_def)
  from bp_reachable.step [OF 3, of "BP_Set 2"]
  have "bp_reachable (Some (?g3\<lparr>jobs := [2, 1], smalls := (smalls ?g3)(2 \<mapsto> ?o)\<rparr>))"
    by (simp add: BPendingGroup_Init_def BSmallPending_Init_def BSmallPending_Set_def)
  moreover have "?g3\<lparr>jobs := [2, 1], smalls := (smalls ?g3)(2 \<mapsto> ?o)\<rparr> = example_group"
    by (auto simp: example_group_def BPendingGroup_Init_def BSmallPending_Init_def fun_eq_iff)
  ultimately show ?thesis by simp
qed

theorem BPending_runs_lifo_witness:
  "\<exists>g1 g2. sets BSmallPending_Set [1, 2, 1] example_group = Some g1
     \<and> pops pop_job (length (jobs g1)) g1 = Some ([1, 2], g2) \<and> \<not> BPendingGroup_HasJobs g2"
  using BPending_runs_lifo [OF example_group_reachable, of "[1, 2, 1]"]
  by (simp add: example_group_def)

end
