(* ===== verification/FlowInterfaces.thy ===== *)
theory FlowInterfaces
  imports BPending
begin

text \<open>
  The flow interfaces of \<open>flow/\<close>: \<open>PacketPassInterface\<close>, \<open>PacketRecvInterface\<close>,
  \<open>StreamPassInterface\<close> and \<open>StreamRecvInterface\<close>. An interface joins a user and a
  provider; every call across it is deferred through a job of the group, so neither side is
  ever called back from inside its own call. A pointer is an option of an arbitrary type
  \<open>'d\<close> (\<open>None\<close> is \<open>NULL\<close>); the result \<open>None\<close> of a function is a failed assertion.
\<close>

datatype if_state = STATE_NONE | STATE_OPERATION_PENDING | STATE_BUSY | STATE_DONE_PENDING

text \<open>What the execution of a job of the group calls.\<close>

datatype 'd if_call =
    Handler_operation "'d option" int | Handler_requestcancel | Handler_done int | Foreign_job

section \<open>PacketPassInterface\<close>

record ('j, 'd) PPI =
  ppi_mtu :: int
  ppi_has_cancel :: bool
  ppi_has_user :: bool
  ppi_job_operation :: 'j
  ppi_operation_data :: "'d option"
  ppi_operation_len :: int
  ppi_job_requestcancel :: 'j
  ppi_job_done :: 'j
  ppi_state :: if_state
  ppi_cancel_requested :: bool

type_synonym ('j, 'd, 'h) ppi_sys = "('j, 'd) PPI \<times> ('j, 'h) BPendingGroup"

definition PacketPassInterface_Init ::
  "int \<Rightarrow> 'j \<Rightarrow> 'j \<Rightarrow> 'j \<Rightarrow> 'h \<Rightarrow> 'h \<Rightarrow> 'h \<Rightarrow> ('j, 'h) BPendingGroup \<Rightarrow> ('j, 'd, 'h) ppi_sys option" where
  "PacketPassInterface_Init mtu jo jr jd ho hr hdn g = do {
     assert_that (mtu \<ge> 0);
     let g = BSmallPending_Init jo ho g;
     let g = BSmallPending_Init jr hr g;
     let g = BSmallPending_Init jd hdn g;
     Some (\<lparr> ppi_mtu = mtu, ppi_has_cancel = False, ppi_has_user = False,
             ppi_job_operation = jo, ppi_operation_data = None, ppi_operation_len = 0,
             ppi_job_requestcancel = jr, ppi_job_done = jd,
             ppi_state = STATE_NONE, ppi_cancel_requested = False \<rparr>, g)
   }"

definition PacketPassInterface_Free :: "('j, 'd, 'h) ppi_sys \<Rightarrow> ('j, 'h) BPendingGroup option" where
  "PacketPassInterface_Free = (\<lambda>(i, g). do {
     g \<leftarrow> BSmallPending_Free (ppi_job_done i) g;
     g \<leftarrow> BSmallPending_Free (ppi_job_requestcancel i) g;
     BSmallPending_Free (ppi_job_operation i) g
   })"

definition PacketPassInterface_EnableCancel :: "('j, 'd) PPI \<Rightarrow> ('j, 'd) PPI option" where
  "PacketPassInterface_EnableCancel i = do {
     assert_that (\<not> ppi_has_cancel i);
     assert_that (\<not> ppi_has_user i);
     Some (i\<lparr>ppi_has_cancel := True\<rparr>)
   }"

definition PacketPassInterface_Done :: "('j, 'd, 'h) ppi_sys \<Rightarrow> ('j, 'd, 'h) ppi_sys option" where
  "PacketPassInterface_Done = (\<lambda>(i, g). do {
     assert_that (ppi_state i = STATE_BUSY);
     g \<leftarrow> BSmallPending_Unset (ppi_job_requestcancel i) g;
     g \<leftarrow> BSmallPending_Set (ppi_job_done i) g;
     Some (i\<lparr>ppi_state := STATE_DONE_PENDING\<rparr>, g)
   })"

definition PacketPassInterface_Sender_Init :: "('j, 'd) PPI \<Rightarrow> ('j, 'd) PPI option" where
  "PacketPassInterface_Sender_Init i = do {
     assert_that (\<not> ppi_has_user i);
     Some (i\<lparr>ppi_has_user := True\<rparr>)
   }"

definition PacketPassInterface_Sender_Send ::
  "'d option \<Rightarrow> int \<Rightarrow> ('j, 'd, 'h) ppi_sys \<Rightarrow> ('j, 'd, 'h) ppi_sys option" where
  "PacketPassInterface_Sender_Send data data_len = (\<lambda>(i, g). do {
     assert_that (data_len \<ge> 0);
     assert_that (data_len \<le> ppi_mtu i);
     assert_that (\<not> data_len > 0 \<or> data \<noteq> None);
     assert_that (ppi_state i = STATE_NONE);
     assert_that (ppi_has_user i);
     g \<leftarrow> BSmallPending_Set (ppi_job_operation i) g;
     Some (i\<lparr>ppi_operation_data := data, ppi_operation_len := data_len,
             ppi_state := STATE_OPERATION_PENDING, ppi_cancel_requested := False\<rparr>, g)
   })"

definition PacketPassInterface_Sender_RequestCancel ::
  "('j, 'd, 'h) ppi_sys \<Rightarrow> ('j, 'd, 'h) ppi_sys option" where
  "PacketPassInterface_Sender_RequestCancel = (\<lambda>(i, g). do {
     assert_that (ppi_state i \<in> {STATE_OPERATION_PENDING, STATE_BUSY, STATE_DONE_PENDING});
     assert_that (ppi_has_cancel i);
     (if ppi_cancel_requested i then Some (i, g)
      else let i = i\<lparr>ppi_cancel_requested := True\<rparr> in
        if ppi_state i = STATE_OPERATION_PENDING then do {
          g \<leftarrow> BSmallPending_Unset (ppi_job_operation i) g;
          g \<leftarrow> BSmallPending_Set (ppi_job_done i) g;
          Some (i\<lparr>ppi_state := STATE_DONE_PENDING\<rparr>, g)
        } else if ppi_state i = STATE_BUSY then do {
          g \<leftarrow> BSmallPending_Set (ppi_job_requestcancel i) g;
          Some (i, g)
        } else Some (i, g))
   })"

definition PPI_job_operation :: "('j, 'd) PPI \<Rightarrow> (('j, 'd) PPI \<times> 'd if_call) option" where
  "PPI_job_operation i = do {
     assert_that (ppi_state i = STATE_OPERATION_PENDING);
     Some (i\<lparr>ppi_state := STATE_BUSY\<rparr>,
           Handler_operation (ppi_operation_data i) (ppi_operation_len i))
   }"

definition PPI_job_requestcancel :: "('j, 'd) PPI \<Rightarrow> (('j, 'd) PPI \<times> 'd if_call) option" where
  "PPI_job_requestcancel i = do {
     assert_that (ppi_state i = STATE_BUSY);
     assert_that (ppi_cancel_requested i);
     assert_that (ppi_has_cancel i);
     Some (i, Handler_requestcancel)
   }"

definition PPI_job_done :: "('j, 'd) PPI \<Rightarrow> (('j, 'd) PPI \<times> 'd if_call) option" where
  "PPI_job_done i = do {
     assert_that (ppi_state i = STATE_DONE_PENDING);
     Some (i\<lparr>ppi_state := STATE_NONE\<rparr>, Handler_done 0)
   }"

text \<open>The reactor runs the next job of the group; a job of another object leaves \<open>i\<close> alone.\<close>

definition PPI_execute :: "('j, 'd, 'h) ppi_sys \<Rightarrow> (('j, 'd, 'h) ppi_sys \<times> 'd if_call) option" where
  "PPI_execute = (\<lambda>(i, g). do {
     (j, g) \<leftarrow> pop_job g;
     (i, c) \<leftarrow> (if j = ppi_job_operation i then PPI_job_operation i
                else if j = ppi_job_requestcancel i then PPI_job_requestcancel i
                else if j = ppi_job_done i then PPI_job_done i
                else Some (i, Foreign_job));
     Some ((i, g), c)
   })"

section \<open>The stream interfaces\<close>

text \<open>
  \<open>StreamPassInterface\<close> and \<open>StreamRecvInterface\<close> are the same code under two names
  (as a comment in the headers says); the operations of the second are those of the first.
\<close>

record ('j, 'd) SPI =
  spi_has_user :: bool
  spi_job_operation :: 'j
  spi_operation_data :: "'d option"
  spi_operation_len :: int
  spi_job_done :: 'j
  spi_done_len :: int
  spi_state :: if_state

type_synonym ('j, 'd, 'h) spi_sys = "('j, 'd) SPI \<times> ('j, 'h) BPendingGroup"

definition StreamPassInterface_Init ::
  "'j \<Rightarrow> 'j \<Rightarrow> 'h \<Rightarrow> 'h \<Rightarrow> ('j, 'h) BPendingGroup \<Rightarrow> ('j, 'd, 'h) spi_sys" where
  "StreamPassInterface_Init jo jd ho hdn g =
     (\<lparr> spi_has_user = False, spi_job_operation = jo, spi_operation_data = None,
        spi_operation_len = 0, spi_job_done = jd, spi_done_len = 0, spi_state = STATE_NONE \<rparr>,
      BSmallPending_Init jd hdn (BSmallPending_Init jo ho g))"

definition StreamPassInterface_Free :: "('j, 'd, 'h) spi_sys \<Rightarrow> ('j, 'h) BPendingGroup option" where
  "StreamPassInterface_Free = (\<lambda>(i, g). do {
     g \<leftarrow> BSmallPending_Free (spi_job_done i) g;
     BSmallPending_Free (spi_job_operation i) g
   })"

definition StreamPassInterface_Done ::
  "int \<Rightarrow> ('j, 'd, 'h) spi_sys \<Rightarrow> ('j, 'd, 'h) spi_sys option" where
  "StreamPassInterface_Done data_len = (\<lambda>(i, g). do {
     assert_that (spi_state i = STATE_BUSY);
     assert_that (data_len > 0);
     assert_that (data_len \<le> spi_operation_len i);
     g \<leftarrow> BSmallPending_Set (spi_job_done i) g;
     Some (i\<lparr>spi_done_len := data_len, spi_state := STATE_DONE_PENDING\<rparr>, g)
   })"

definition StreamPassInterface_Sender_Init :: "('j, 'd) SPI \<Rightarrow> ('j, 'd) SPI option" where
  "StreamPassInterface_Sender_Init i = do {
     assert_that (\<not> spi_has_user i);
     Some (i\<lparr>spi_has_user := True\<rparr>)
   }"

definition StreamPassInterface_Sender_Send ::
  "'d option \<Rightarrow> int \<Rightarrow> ('j, 'd, 'h) spi_sys \<Rightarrow> ('j, 'd, 'h) spi_sys option" where
  "StreamPassInterface_Sender_Send data data_len = (\<lambda>(i, g). do {
     assert_that (data_len > 0);
     assert_that (data \<noteq> None);
     assert_that (spi_state i = STATE_NONE);
     assert_that (spi_has_user i);
     g \<leftarrow> BSmallPending_Set (spi_job_operation i) g;
     Some (i\<lparr>spi_operation_data := data, spi_operation_len := data_len,
             spi_state := STATE_OPERATION_PENDING\<rparr>, g)
   })"

definition SPI_job_operation :: "('j, 'd) SPI \<Rightarrow> (('j, 'd) SPI \<times> 'd if_call) option" where
  "SPI_job_operation i = do {
     assert_that (spi_state i = STATE_OPERATION_PENDING);
     Some (i\<lparr>spi_state := STATE_BUSY\<rparr>,
           Handler_operation (spi_operation_data i) (spi_operation_len i))
   }"

definition SPI_job_done :: "('j, 'd) SPI \<Rightarrow> (('j, 'd) SPI \<times> 'd if_call) option" where
  "SPI_job_done i = do {
     assert_that (spi_state i = STATE_DONE_PENDING);
     Some (i\<lparr>spi_state := STATE_NONE\<rparr>, Handler_done (spi_done_len i))
   }"

definition SPI_execute :: "('j, 'd, 'h) spi_sys \<Rightarrow> (('j, 'd, 'h) spi_sys \<times> 'd if_call) option" where
  "SPI_execute = (\<lambda>(i, g). do {
     (j, g) \<leftarrow> pop_job g;
     (i, c) \<leftarrow> (if j = spi_job_operation i then SPI_job_operation i
                else if j = spi_job_done i then SPI_job_done i
                else Some (i, Foreign_job));
     Some ((i, g), c)
   })"

definition StreamRecvInterface_Init ::
  "'j \<Rightarrow> 'j \<Rightarrow> 'h \<Rightarrow> 'h \<Rightarrow> ('j, 'h) BPendingGroup \<Rightarrow> ('j, 'd, 'h) spi_sys" where
  "StreamRecvInterface_Init = StreamPassInterface_Init"

definition StreamRecvInterface_Free :: "('j, 'd, 'h) spi_sys \<Rightarrow> ('j, 'h) BPendingGroup option" where
  "StreamRecvInterface_Free = StreamPassInterface_Free"

definition StreamRecvInterface_Done ::
  "int \<Rightarrow> ('j, 'd, 'h) spi_sys \<Rightarrow> ('j, 'd, 'h) spi_sys option" where
  "StreamRecvInterface_Done = StreamPassInterface_Done"

definition StreamRecvInterface_Receiver_Init :: "('j, 'd) SPI \<Rightarrow> ('j, 'd) SPI option" where
  "StreamRecvInterface_Receiver_Init = StreamPassInterface_Sender_Init"

definition StreamRecvInterface_Receiver_Recv ::
  "'d option \<Rightarrow> int \<Rightarrow> ('j, 'd, 'h) spi_sys \<Rightarrow> ('j, 'd, 'h) spi_sys option" where
  "StreamRecvInterface_Receiver_Recv = StreamPassInterface_Sender_Send"

definition SRI_job_operation :: "('j, 'd) SPI \<Rightarrow> (('j, 'd) SPI \<times> 'd if_call) option" where
  "SRI_job_operation = SPI_job_operation"

definition SRI_job_done :: "('j, 'd) SPI \<Rightarrow> (('j, 'd) SPI \<times> 'd if_call) option" where
  "SRI_job_done = SPI_job_done"

section \<open>PacketRecvInterface\<close>

text \<open>The receive handler gets no length: its buffer has room for \<open>mtu\<close> bytes, recorded here.\<close>

record ('j, 'd) PRI =
  pri_mtu :: int
  pri_has_user :: bool
  pri_job_operation :: 'j
  pri_operation_data :: "'d option"
  pri_job_done :: 'j
  pri_done_len :: int
  pri_state :: if_state

type_synonym ('j, 'd, 'h) pri_sys = "('j, 'd) PRI \<times> ('j, 'h) BPendingGroup"

definition PacketRecvInterface_Init ::
  "int \<Rightarrow> 'j \<Rightarrow> 'j \<Rightarrow> 'h \<Rightarrow> 'h \<Rightarrow> ('j, 'h) BPendingGroup \<Rightarrow> ('j, 'd, 'h) pri_sys option" where
  "PacketRecvInterface_Init mtu jo jd ho hdn g = do {
     assert_that (mtu \<ge> 0);
     Some (\<lparr> pri_mtu = mtu, pri_has_user = False, pri_job_operation = jo,
             pri_operation_data = None, pri_job_done = jd, pri_done_len = 0,
             pri_state = STATE_NONE \<rparr>,
           BSmallPending_Init jd hdn (BSmallPending_Init jo ho g))
   }"

definition PacketRecvInterface_Free :: "('j, 'd, 'h) pri_sys \<Rightarrow> ('j, 'h) BPendingGroup option" where
  "PacketRecvInterface_Free = (\<lambda>(i, g). do {
     g \<leftarrow> BSmallPending_Free (pri_job_done i) g;
     BSmallPending_Free (pri_job_operation i) g
   })"

definition PacketRecvInterface_Done ::
  "int \<Rightarrow> ('j, 'd, 'h) pri_sys \<Rightarrow> ('j, 'd, 'h) pri_sys option" where
  "PacketRecvInterface_Done data_len = (\<lambda>(i, g). do {
     assert_that (data_len \<ge> 0);
     assert_that (data_len \<le> pri_mtu i);
     assert_that (pri_state i = STATE_BUSY);
     g \<leftarrow> BSmallPending_Set (pri_job_done i) g;
     Some (i\<lparr>pri_done_len := data_len, pri_state := STATE_DONE_PENDING\<rparr>, g)
   })"

definition PacketRecvInterface_Receiver_Init :: "('j, 'd) PRI \<Rightarrow> ('j, 'd) PRI option" where
  "PacketRecvInterface_Receiver_Init i = do {
     assert_that (\<not> pri_has_user i);
     Some (i\<lparr>pri_has_user := True\<rparr>)
   }"

definition PacketRecvInterface_Receiver_Recv ::
  "'d option \<Rightarrow> ('j, 'd, 'h) pri_sys \<Rightarrow> ('j, 'd, 'h) pri_sys option" where
  "PacketRecvInterface_Receiver_Recv data = (\<lambda>(i, g). do {
     assert_that (\<not> pri_mtu i > 0 \<or> data \<noteq> None);
     assert_that (pri_state i = STATE_NONE);
     assert_that (pri_has_user i);
     g \<leftarrow> BSmallPending_Set (pri_job_operation i) g;
     Some (i\<lparr>pri_operation_data := data, pri_state := STATE_OPERATION_PENDING\<rparr>, g)
   })"

definition PRI_job_operation :: "('j, 'd) PRI \<Rightarrow> (('j, 'd) PRI \<times> 'd if_call) option" where
  "PRI_job_operation i = do {
     assert_that (pri_state i = STATE_OPERATION_PENDING);
     Some (i\<lparr>pri_state := STATE_BUSY\<rparr>, Handler_operation (pri_operation_data i) (pri_mtu i))
   }"

definition PRI_job_done :: "('j, 'd) PRI \<Rightarrow> (('j, 'd) PRI \<times> 'd if_call) option" where
  "PRI_job_done i = do {
     assert_that (pri_state i = STATE_DONE_PENDING);
     Some (i\<lparr>pri_state := STATE_NONE\<rparr>, Handler_done (pri_done_len i))
   }"

end
