(* ===== verification/FlowProps.thy ===== *)
theory FlowProps
  imports FlowInterfaces
begin

text \<open>
  Properties of the flow interfaces: with a user and a provider that follow the documented
  protocol, and any other objects sharing the job group, no assertion fails; packets reach
  the provider in the order they were sent, and every send is answered by exactly one done.
\<close>

section \<open>PacketPassInterface with its environment\<close>

datatype ('j, 'd) ppi_event =
    Ev_Send "'d option" int | Ev_RequestCancel | Ev_Done | Ev_Execute
  | Ev_OtherSet 'j | Ev_OtherUnset 'j

definition ppi_jobs :: "('j, 'd) PPI \<Rightarrow> 'j set" where
  "ppi_jobs i = {ppi_job_operation i, ppi_job_requestcancel i, ppi_job_done i}"

text \<open>When the user, the provider, the reactor and other objects may act.\<close>

fun ppi_allowed :: "('j, 'd) ppi_event \<Rightarrow> ('j, 'd, 'h) ppi_sys \<Rightarrow> bool" where
  "ppi_allowed (Ev_Send data n) (i, g) =
     (ppi_state i = STATE_NONE \<and> 0 \<le> n \<and> n \<le> ppi_mtu i \<and> (n > 0 \<longrightarrow> data \<noteq> None))"
| "ppi_allowed Ev_RequestCancel (i, g) = (ppi_state i \<noteq> STATE_NONE \<and> ppi_has_cancel i)"
| "ppi_allowed Ev_Done (i, g) = (ppi_state i = STATE_BUSY)"
| "ppi_allowed Ev_Execute (i, g) = BPendingGroup_HasJobs g"
| "ppi_allowed (Ev_OtherSet j) (i, g) = (j \<notin> ppi_jobs i \<and> smalls g j \<noteq> None)"
| "ppi_allowed (Ev_OtherUnset j) (i, g) = (j \<notin> ppi_jobs i \<and> smalls g j \<noteq> None)"

fun ppi_apply ::
  "('j, 'd) ppi_event \<Rightarrow> ('j, 'd, 'h) ppi_sys \<Rightarrow> (('j, 'd, 'h) ppi_sys \<times> 'd if_call) option" where
  "ppi_apply (Ev_Send data n) s = map_option (\<lambda>s. (s, Foreign_job)) (PacketPassInterface_Sender_Send data n s)"
| "ppi_apply Ev_RequestCancel s = map_option (\<lambda>s. (s, Foreign_job)) (PacketPassInterface_Sender_RequestCancel s)"
| "ppi_apply Ev_Done s = map_option (\<lambda>s. (s, Foreign_job)) (PacketPassInterface_Done s)"
| "ppi_apply Ev_Execute s = PPI_execute s"
| "ppi_apply (Ev_OtherSet j) (i, g) = map_option (\<lambda>g. ((i, g), Foreign_job)) (BSmallPending_Set j g)"
| "ppi_apply (Ev_OtherUnset j) (i, g) = map_option (\<lambda>g. ((i, g), Foreign_job)) (BSmallPending_Unset j g)"

definition ppi_inv :: "('j, 'd, 'h) ppi_sys \<Rightarrow> bool" where
  "ppi_inv = (\<lambda>(i, g). group_wf g \<and> ppi_jobs i \<subseteq> dom (smalls g)
     \<and> distinct [ppi_job_operation i, ppi_job_requestcancel i, ppi_job_done i]
     \<and> ppi_has_user i
     \<and> (ppi_job_operation i \<in> set (jobs g) \<longleftrightarrow> ppi_state i = STATE_OPERATION_PENDING)
     \<and> (ppi_job_done i \<in> set (jobs g) \<longleftrightarrow> ppi_state i = STATE_DONE_PENDING)
     \<and> (ppi_job_requestcancel i \<in> set (jobs g) \<longrightarrow>
          ppi_state i = STATE_BUSY \<and> ppi_cancel_requested i \<and> ppi_has_cancel i))"

text \<open>The effect of an event on the interface alone.\<close>

lemma ppi_send:
  assumes "ppi_inv (i, g)" "ppi_allowed (Ev_Send data n) (i, g)"
  shows "\<exists>g'. PacketPassInterface_Sender_Send data n (i, g)
     = Some (i\<lparr>ppi_operation_data := data, ppi_operation_len := n,
         ppi_state := STATE_OPERATION_PENDING, ppi_cancel_requested := False\<rparr>, g')
     \<and> ppi_inv (i\<lparr>ppi_operation_data := data, ppi_operation_len := n,
         ppi_state := STATE_OPERATION_PENDING, ppi_cancel_requested := False\<rparr>, g')"
proof -
  have "group_wf g" "ppi_job_operation i \<in> dom (smalls g)"
    using assms(1) by (auto simp: ppi_inv_def ppi_jobs_def)
  from jq.set_mem [OF this] obtain g' where g': "BSmallPending_Set (ppi_job_operation i) g = Some g'"
    "group_wf g'" "dom (smalls g') = dom (smalls g)"
    "set (jobs g') = insert (ppi_job_operation i) (set (jobs g))"
    by blast
  then show ?thesis
    using assms by (auto simp: PacketPassInterface_Sender_Send_def ppi_inv_def ppi_jobs_def)
qed

lemma ppi_cancel:
  assumes "ppi_inv (i, g)" "ppi_allowed Ev_RequestCancel (i, g)"
  shows "\<exists>i' g'. PacketPassInterface_Sender_RequestCancel (i, g) = Some (i', g')
     \<and> ppi_inv (i', g') \<and> ppi_cancel_requested i' \<and> (i' = i
       \<or> i' = i\<lparr>ppi_cancel_requested := True\<rparr> \<and> ppi_state i \<noteq> STATE_OPERATION_PENDING
       \<or> i' = i\<lparr>ppi_cancel_requested := True, ppi_state := STATE_DONE_PENDING\<rparr>
         \<and> ppi_state i = STATE_OPERATION_PENDING)"
proof -
  note defs = PacketPassInterface_Sender_RequestCancel_def ppi_inv_def ppi_jobs_def
  have wf: "group_wf g" "ppi_job_operation i \<in> dom (smalls g)"
    "ppi_job_done i \<in> dom (smalls g)" "ppi_job_requestcancel i \<in> dom (smalls g)"
    using assms(1) by (auto simp: ppi_inv_def ppi_jobs_def)
  show ?thesis
  proof (cases "ppi_cancel_requested i")
    case True
    then show ?thesis using assms by (cases "ppi_state i") (auto simp: defs)
  next
    case False
    show ?thesis
    proof (cases "ppi_state i")
      case STATE_OPERATION_PENDING
      from jq.unset_mem [OF wf(1,2)] obtain g1 where g1:
        "BSmallPending_Unset (ppi_job_operation i) g = Some g1" "group_wf g1"
        "dom (smalls g1) = dom (smalls g)" "set (jobs g1) = set (jobs g) - {ppi_job_operation i}"
        by blast
      with jq.set_mem [OF g1(2), of "ppi_job_done i"] wf(3) obtain g2 where g2:
        "BSmallPending_Set (ppi_job_done i) g1 = Some g2" "group_wf g2"
        "dom (smalls g2) = dom (smalls g)" "set (jobs g2) = insert (ppi_job_done i) (set (jobs g1))"
        by auto
      show ?thesis
        using False STATE_OPERATION_PENDING assms g1 g2 by (simp add: defs)
    next
      case STATE_BUSY
      from jq.set_mem [OF wf(1,4)] obtain g1 where
        "BSmallPending_Set (ppi_job_requestcancel i) g = Some g1" "group_wf g1"
        "dom (smalls g1) = dom (smalls g)"
        "set (jobs g1) = insert (ppi_job_requestcancel i) (set (jobs g))"
        by blast
      then show ?thesis
        using False STATE_BUSY assms by (auto simp: defs)
    qed (use False assms in \<open>auto simp: defs\<close>)
  qed
qed

lemma ppi_done:
  assumes "ppi_inv (i, g)" "ppi_allowed Ev_Done (i, g)"
  shows "\<exists>g'. PacketPassInterface_Done (i, g) = Some (i\<lparr>ppi_state := STATE_DONE_PENDING\<rparr>, g')
     \<and> ppi_inv (i\<lparr>ppi_state := STATE_DONE_PENDING\<rparr>, g')"
proof -
  have wf: "group_wf g" "ppi_job_requestcancel i \<in> dom (smalls g)" "ppi_job_done i \<in> dom (smalls g)"
    using assms(1) by (auto simp: ppi_inv_def ppi_jobs_def)
  from jq.unset_mem [OF wf(1,2)] obtain g1 where g1:
    "BSmallPending_Unset (ppi_job_requestcancel i) g = Some g1" "group_wf g1"
    "dom (smalls g1) = dom (smalls g)" "set (jobs g1) = set (jobs g) - {ppi_job_requestcancel i}"
    by blast
  with jq.set_mem [OF g1(2), of "ppi_job_done i"] wf(3) obtain g2 where
    "BSmallPending_Set (ppi_job_done i) g1 = Some g2" "group_wf g2"
    "dom (smalls g2) = dom (smalls g)" "set (jobs g2) = insert (ppi_job_done i) (set (jobs g1))"
    by auto
  then show ?thesis
    using assms g1 by (auto simp: PacketPassInterface_Done_def ppi_inv_def ppi_jobs_def)
qed

text \<open>Executing a job makes the call its state calls for.\<close>

definition ppi_exec_effect :: "('j, 'd) PPI \<Rightarrow> ('j, 'd) PPI \<Rightarrow> 'd if_call \<Rightarrow> bool" where
  "ppi_exec_effect i i' c \<longleftrightarrow>
     c = Foreign_job \<and> i' = i
   \<or> c = Handler_requestcancel \<and> i' = i \<and> ppi_state i = STATE_BUSY
   \<or> c = Handler_operation (ppi_operation_data i) (ppi_operation_len i)
       \<and> ppi_state i = STATE_OPERATION_PENDING \<and> i' = i\<lparr>ppi_state := STATE_BUSY\<rparr>
   \<or> c = Handler_done 0 \<and> ppi_state i = STATE_DONE_PENDING \<and> i' = i\<lparr>ppi_state := STATE_NONE\<rparr>"

lemma ppi_execute:
  assumes "ppi_inv (i, g)" "BPendingGroup_HasJobs g"
  shows "\<exists>i' g' c. PPI_execute (i, g) = Some ((i', g'), c) \<and> ppi_inv (i', g')
     \<and> ppi_exec_effect i i' c"
proof -
  obtain j js where js: "jobs g = j # js"
    using assms(2) by (cases "jobs g") (auto simp: BPendingGroup_HasJobs_def)
  have "group_wf g" using assms(1) by (simp add: ppi_inv_def)
  from jq.pop_mem [OF this js] obtain g' where g': "pop_job g = Some (j, g')" "group_wf g'"
    "dom (smalls g') = dom (smalls g)" "set (jobs g') = set (jobs g) - {j}"
    by blast
  have j: "j \<in> set (jobs g)" using js by simp
  note defs = PPI_execute_def ppi_exec_effect_def ppi_inv_def ppi_jobs_def
  consider "j = ppi_job_operation i" | "j = ppi_job_requestcancel i" | "j = ppi_job_done i"
    | "j \<notin> ppi_jobs i" by (auto simp: ppi_jobs_def)
  then show ?thesis
  proof cases
    case 1
    then show ?thesis using assms(1) g' j by (auto simp: defs PPI_job_operation_def)
  next
    case 2
    then show ?thesis using assms(1) g' j by (auto simp: defs PPI_job_requestcancel_def)
  next
    case 3
    then show ?thesis using assms(1) g' j by (auto simp: defs PPI_job_done_def)
  next
    case 4
    then show ?thesis using assms(1) g' by (simp add: defs) blast
  qed
qed

text \<open>A provider creates the interface, enables cancellation if it can, and a user attaches.\<close>

definition ppi_start ::
  "int \<Rightarrow> 'j \<Rightarrow> 'j \<Rightarrow> 'j \<Rightarrow> 'h \<Rightarrow> bool \<Rightarrow> ('j, 'h) BPendingGroup \<Rightarrow> ('j, 'd, 'h) ppi_sys option" where
  "ppi_start mtu jo jr jd h cancel g = do {
     (i, g) \<leftarrow> PacketPassInterface_Init mtu jo jr jd h h h g;
     i \<leftarrow> (if cancel then PacketPassInterface_EnableCancel i else Some i);
     i \<leftarrow> PacketPassInterface_Sender_Init i;
     Some (i, g)
   }"

text \<open>
  Runs, with the packets sent so far and the calls made so far; \<open>None\<close> once an assertion has
  failed.
\<close>

inductive ppi_run :: "('j, 'd, 'h) ppi_sys option \<Rightarrow> ('d option \<times> int) list \<Rightarrow> 'd if_call list \<Rightarrow> bool" where
  start: "group_wf g \<Longrightarrow> mtu \<ge> 0 \<Longrightarrow> distinct [jo, jr, jd] \<Longrightarrow>
     smalls g jo = None \<Longrightarrow> smalls g jr = None \<Longrightarrow> smalls g jd = None \<Longrightarrow>
     ppi_run (ppi_start mtu jo jr jd h cancel g) [] []"
| send: "ppi_run (Some s) ps cs \<Longrightarrow> ppi_allowed (Ev_Send d n) s \<Longrightarrow>
     ppi_run (map_option fst (ppi_apply (Ev_Send d n) s)) (ps @ [(d, n)]) cs"
| other: "ppi_run (Some s) ps cs \<Longrightarrow> ppi_allowed e s \<Longrightarrow> (\<And>d n. e \<noteq> Ev_Send d n) \<Longrightarrow>
     ppi_run (map_option fst (ppi_apply e s)) ps
       (cs @ (case ppi_apply e s of None \<Rightarrow> [] | Some (_, c) \<Rightarrow> [c]))"

fun operations :: "'d if_call list \<Rightarrow> ('d option \<times> int) list" where
  "operations [] = []"
| "operations (Handler_operation d n # cs) = (d, n) # operations cs"
| "operations (_ # cs) = operations cs"

fun dones :: "'d if_call list \<Rightarrow> nat" where
  "dones [] = 0"
| "dones (Handler_done _ # cs) = Suc (dones cs)"
| "dones (_ # cs) = dones cs"

lemma operations_append [simp]: "operations (a @ b) = operations a @ operations b"
  by (induction a rule: operations.induct) simp_all

lemma dones_append [simp]: "dones (a @ b) = dones a + dones b"
  by (induction a rule: dones.induct) simp_all

definition ppi_count_inv ::
  "('j, 'd, 'h) ppi_sys \<Rightarrow> ('d option \<times> int) list \<Rightarrow> 'd if_call list \<Rightarrow> bool" where
  "ppi_count_inv = (\<lambda>(i, g) ps cs. ppi_inv (i, g)
     \<and> (\<not> ppi_has_cancel i \<longrightarrow> ps = operations cs @
          (if ppi_state i = STATE_OPERATION_PENDING
           then [(ppi_operation_data i, ppi_operation_len i)] else []))
     \<and> length ps = dones cs + (if ppi_state i = STATE_NONE then 0 else 1))"

lemma ppi_start_inv:
  assumes "group_wf g" "mtu \<ge> 0" "distinct [jo, jr, jd]"
    "smalls g jo = None" "smalls g jr = None" "smalls g jd = None"
  shows "\<exists>i g'. (ppi_start mtu jo jr jd h cancel g) = Some (i, g')
     \<and> ppi_count_inv (i, g') [] []"
proof -
  let ?g1 = "BSmallPending_Init jo h g"
  let ?g2 = "BSmallPending_Init jr h ?g1"
  let ?g3 = "BSmallPending_Init jd h ?g2"
  have sm: "smalls (BSmallPending_Init j h g) = (smalls g)(j \<mapsto> \<lparr> handler = h, node_removed = True, pending = False \<rparr>)"
    "jobs (BSmallPending_Init j h g) = jobs g" for j :: 'a and h :: 'b and g
    by (simp_all add: BSmallPending_Init_def)
  have "group_wf ?g1" by (rule wf_small_Init) (use assms in simp_all)
  then have "group_wf ?g2" by (rule wf_small_Init) (use assms in \<open>auto simp: sm\<close>)
  then have "group_wf ?g3" by (rule wf_small_Init) (use assms in \<open>auto simp: sm\<close>)
  moreover have "jo \<notin> set (jobs ?g3)" "jr \<notin> set (jobs ?g3)" "jd \<notin> set (jobs ?g3)"
    using assms group_wfD(2) [OF assms(1)] by (auto simp: sm)
  ultimately show ?thesis
    using assms by (auto simp: ppi_start_def PacketPassInterface_Init_def PacketPassInterface_EnableCancel_def
        PacketPassInterface_Sender_Init_def ppi_count_inv_def ppi_inv_def ppi_jobs_def sm)
qed

lemma ppi_other_inv:
  assumes inv: "ppi_count_inv (i, g) ps cs" and al: "ppi_allowed e (i, g)"
    and ns: "\<And>d n. e \<noteq> Ev_Send d n"
  shows "\<exists>s' c. ppi_apply e (i, g) = Some (s', c) \<and> ppi_count_inv s' ps (cs @ [c])"
proof -
  have pinv: "ppi_inv (i, g)" using inv by (simp add: ppi_count_inv_def)
  show ?thesis
  proof (cases e)
    case (Ev_Send d n)
    then show ?thesis using ns by simp
  next
    case Ev_RequestCancel
    from ppi_cancel [OF pinv] al [unfolded this] Ev_RequestCancel inv show ?thesis
      by (fastforce simp: ppi_count_inv_def)
  next
    case Ev_Done
    from ppi_done [OF pinv] al [unfolded this] Ev_Done inv show ?thesis
      by (fastforce simp: ppi_count_inv_def)
  next
    case Ev_Execute
    from ppi_execute [OF pinv] al [unfolded this] obtain i' g' c where
      "PPI_execute (i, g) = Some ((i', g'), c)" "ppi_inv (i', g')" "ppi_exec_effect i i' c"
      by auto
    then show ?thesis
      using inv Ev_Execute by (auto simp: ppi_count_inv_def ppi_exec_effect_def)
  next
    case (Ev_OtherSet j)
    have "group_wf g" "j \<in> dom (smalls g)" "j \<notin> ppi_jobs i"
      using pinv al Ev_OtherSet by (auto simp: ppi_inv_def)
    with jq.set_mem [OF this(1,2)] inv Ev_OtherSet show ?thesis
      by (fastforce simp: ppi_count_inv_def ppi_inv_def ppi_jobs_def)
  next
    case (Ev_OtherUnset j)
    have "group_wf g" "j \<in> dom (smalls g)" "j \<notin> ppi_jobs i"
      using pinv al Ev_OtherUnset by (auto simp: ppi_inv_def)
    with jq.unset_mem [OF this(1,2)] inv Ev_OtherUnset show ?thesis
      by (fastforce simp: ppi_count_inv_def ppi_inv_def ppi_jobs_def)
  qed
qed

lemma ppi_run_inv: "ppi_run r ps cs \<Longrightarrow> \<exists>s. r = Some s \<and> ppi_count_inv s ps cs"
proof (induction rule: ppi_run.induct)
  case (start g mtu jo jr jd h cancel)
  from ppi_start_inv [OF this, of h cancel] show ?case by blast
next
  case (send s ps cs d n)
  obtain i g where s: "s = (i, g)" by (cases s)
  have inv: "ppi_count_inv (i, g) ps cs" using send.IH s by simp
  then have pinv: "ppi_inv (i, g)" by (simp add: ppi_count_inv_def)
  from ppi_send [OF pinv send.hyps(2) [unfolded s]] obtain g' where g':
    "PacketPassInterface_Sender_Send d n (i, g) = Some (i\<lparr>ppi_operation_data := d,
       ppi_operation_len := n, ppi_state := STATE_OPERATION_PENDING, ppi_cancel_requested := False\<rparr>, g')"
    "ppi_inv (i\<lparr>ppi_operation_data := d, ppi_operation_len := n,
       ppi_state := STATE_OPERATION_PENDING, ppi_cancel_requested := False\<rparr>, g')"
    by blast
  moreover have "ppi_state i = STATE_NONE" using send.hyps(2) s by simp
  ultimately show ?case
    using inv by (simp add: s ppi_count_inv_def)
next
  case (other s ps cs e)
  obtain i g where s: "s = (i, g)" by (cases s)
  from ppi_other_inv [of i g ps cs e] other show ?case by (fastforce simp: s)
qed

text \<open>
  In every run of a packet-passing interface, with a user that sends only when idle and
  within the MTU, a provider that reports completion only when busy, cancellation at any time, and
  other jobs set, unset and run in the same group at will: no assertion fails, every send but a pending
  one has been answered by exactly one done, and without cancellation the provider has been given
  exactly the packets sent, in order, except one whose job has not run yet.
\<close>

lemma PacketPassInterface_run:
  assumes "ppi_run r ps cs"
  shows "\<exists>i g. r = Some (i, g)
     \<and> length ps = dones cs + (if ppi_state i = STATE_NONE then 0 else 1)
     \<and> (ppi_has_cancel i \<or> ps = operations cs @ (if ppi_state i = STATE_OPERATION_PENDING
          then [(ppi_operation_data i, ppi_operation_len i)] else []))"
  using ppi_run_inv [OF assms] by (auto simp: ppi_count_inv_def)

section \<open>The stream interfaces\<close>

definition spi_inv :: "('j, 'd, 'h) spi_sys \<Rightarrow> bool" where
  "spi_inv = (\<lambda>(i, g). group_wf g
     \<and> spi_job_operation i \<in> dom (smalls g) \<and> spi_job_done i \<in> dom (smalls g)
     \<and> spi_job_operation i \<noteq> spi_job_done i \<and> spi_has_user i
     \<and> (spi_job_operation i \<in> set (jobs g) \<longleftrightarrow> spi_state i = STATE_OPERATION_PENDING)
     \<and> (spi_job_done i \<in> set (jobs g) \<longleftrightarrow> spi_state i = STATE_DONE_PENDING)
     \<and> (spi_state i \<noteq> STATE_NONE \<longrightarrow> 0 < spi_operation_len i)
     \<and> (spi_state i = STATE_DONE_PENDING \<longrightarrow>
          0 < spi_done_len i \<and> spi_done_len i \<le> spi_operation_len i))"

lemma spi_send:
  assumes "spi_inv (i, g)" "spi_state i = STATE_NONE" "0 < n" "data \<noteq> None"
  shows "\<exists>s'. StreamPassInterface_Sender_Send data n (i, g) = Some s' \<and> spi_inv s'
     \<and> spi_operation_len (fst s') = n \<and> spi_state (fst s') = STATE_OPERATION_PENDING"
proof -
  have "group_wf g" "spi_job_operation i \<in> dom (smalls g)"
    using assms(1) by (auto simp: spi_inv_def)
  from jq.set_mem [OF this] obtain g' where "BSmallPending_Set (spi_job_operation i) g = Some g'"
    "group_wf g'" "dom (smalls g') = dom (smalls g)"
    "set (jobs g') = insert (spi_job_operation i) (set (jobs g))"
    by blast
  then show ?thesis
    using assms by (auto simp: StreamPassInterface_Sender_Send_def spi_inv_def)
qed

lemma spi_done:
  assumes "spi_inv (i, g)" "spi_state i = STATE_BUSY" "0 < n" "n \<le> spi_operation_len i"
  shows "\<exists>s'. StreamPassInterface_Done n (i, g) = Some s' \<and> spi_inv s'
     \<and> spi_done_len (fst s') = n \<and> spi_state (fst s') = STATE_DONE_PENDING"
proof -
  have "group_wf g" "spi_job_done i \<in> dom (smalls g)"
    using assms(1) by (auto simp: spi_inv_def)
  from jq.set_mem [OF this] obtain g' where "BSmallPending_Set (spi_job_done i) g = Some g'"
    "group_wf g'" "dom (smalls g') = dom (smalls g)"
    "set (jobs g') = insert (spi_job_done i) (set (jobs g))"
    by blast
  then show ?thesis
    using assms by (auto simp: StreamPassInterface_Done_def spi_inv_def)
qed

lemma spi_execute:
  assumes "spi_inv (i, g)" "BPendingGroup_HasJobs g"
  shows "\<exists>s' c. SPI_execute (i, g) = Some (s', c) \<and> spi_inv s'
     \<and> (\<forall>n. c = Handler_done n \<longrightarrow> 0 < n \<and> n \<le> spi_operation_len i)"
proof -
  obtain j js where js: "jobs g = j # js"
    using assms(2) by (cases "jobs g") (auto simp: BPendingGroup_HasJobs_def)
  have "group_wf g" using assms(1) by (simp add: spi_inv_def)
  from jq.pop_mem [OF this js] obtain g' where g': "pop_job g = Some (j, g')" "group_wf g'"
    "dom (smalls g') = dom (smalls g)" "set (jobs g') = set (jobs g) - {j}"
    by blast
  have j: "j \<in> set (jobs g)" using js by simp
  note defs = SPI_execute_def spi_inv_def SPI_job_operation_def SPI_job_done_def
  consider "j = spi_job_operation i" | "j = spi_job_done i"
    | "j \<noteq> spi_job_operation i" "j \<noteq> spi_job_done i" by blast
  then show ?thesis
    by cases (use assms(1) g' j in \<open>auto simp: defs\<close>)
qed

end
