(* ===== verification/ChunkBuffer2.thy ===== *)
theory ChunkBuffer2
  imports Prelude
begin

text \<open>
  \<open>structure/ChunkBuffer2.h\<close>, a circular buffer of packets. The memory is an array of 4-byte
  blocks; a packet is a header block holding its length (an \<open>int\<close>, low byte first) followed by
  its bytes in whole blocks, and never straddles the end: \<open>wrap\<close> marks where the first run of
  packets ends. Fields that are never negative are natural numbers; the two \<open>avail\<close> fields,
  which use \<open>-1\<close> for ``nothing'', are integers. A pointer into the array is a byte offset.
\<close>

record ChunkBuffer2 =
  cb_buffer :: "byte list"
  cb_size :: nat
  cb_wrap :: nat
  cb_start :: nat
  cb_used :: nat
  cb_mtu :: nat
  cb_input_dest :: "nat option"
  cb_input_avail :: int
  cb_output_dest :: "nat option"
  cb_output_avail :: int

definition INT_MAX :: int where "INT_MAX = 2147483647"

definition bdivide_up :: "nat \<Rightarrow> nat \<Rightarrow> nat" where
  "bdivide_up a b = (let r = a mod b in if r > 0 then a div b + 1 else a div b)"

text \<open>The \<open>len\<close> field of the block at index \<open>i\<close>.\<close>

definition block_len :: "byte list \<Rightarrow> nat \<Rightarrow> int" where
  "block_len b i = sint (mk32 (b ! (4 * i)) (b ! (4 * i + 1)) (b ! (4 * i + 2)) (b ! (4 * i + 3)))"

definition set_block_len :: "byte list \<Rightarrow> nat \<Rightarrow> nat \<Rightarrow> byte list" where
  "set_block_len b i len = write_at b (4 * i) (bytes32 (of_nat len))"

definition ChunkBuffer2_end :: "ChunkBuffer2 \<Rightarrow> nat" where
  "ChunkBuffer2_end buf =
     (if cb_used buf \<ge> cb_wrap buf - cb_start buf
      then cb_used buf - (cb_wrap buf - cb_start buf)
      else cb_start buf + cb_used buf)"

definition ChunkBuffer2_assert_buffer :: "ChunkBuffer2 \<Rightarrow> bool" where
  "ChunkBuffer2_assert_buffer buf \<longleftrightarrow> cb_size buf > 0 \<and> cb_wrap buf > 0 \<and> cb_wrap buf \<le> cb_size buf
     \<and> cb_start buf < cb_wrap buf \<and> cb_used buf \<le> cb_wrap buf
     \<and> (cb_wrap buf = cb_size buf \<or> cb_used buf \<ge> cb_wrap buf - cb_start buf)"

definition input_free :: "ChunkBuffer2 \<Rightarrow> int" where
  "input_free buf = (if cb_used buf \<ge> cb_wrap buf - cb_start buf
     then int (cb_start buf) - int (ChunkBuffer2_end buf)
     else int (cb_size buf) - int (ChunkBuffer2_end buf))"

text \<open>The assertions on the input and the output fields, each a comparison with the value it must have.\<close>

definition ChunkBuffer2_assert_input :: "ChunkBuffer2 \<Rightarrow> bool" where
  "ChunkBuffer2_assert_input buf \<longleftrightarrow>
     (if int (cb_size buf) - int (ChunkBuffer2_end buf) - 1 < int (cb_mtu buf)
      then cb_input_dest buf = None \<and> cb_input_avail buf = -1
      else if input_free buf > 0
      then cb_input_dest buf = Some (4 * (ChunkBuffer2_end buf + 1))
         \<and> cb_input_avail buf = (input_free buf - 1) * 4
      else cb_input_dest buf = None \<and> cb_input_avail buf = -1)"

definition ChunkBuffer2_assert_output :: "ChunkBuffer2 \<Rightarrow> bool" where
  "ChunkBuffer2_assert_output buf \<longleftrightarrow>
     (if cb_used buf > 0
      then let datalen = block_len (cb_buffer buf) (cb_start buf);
               blocklen = bdivide_up (nat datalen) 4
           in datalen \<ge> 0 \<and> int blocklen \<le> int (cb_used buf) - 1
            \<and> int blocklen \<le> int (cb_wrap buf) - int (cb_start buf) - 1
            \<and> cb_output_dest buf = Some (4 * (cb_start buf + 1)) \<and> cb_output_avail buf = datalen
      else cb_output_dest buf = None \<and> cb_output_avail buf = -1)"

definition ChunkBuffer2_assert_io :: "ChunkBuffer2 \<Rightarrow> bool" where
  "ChunkBuffer2_assert_io buf \<longleftrightarrow> ChunkBuffer2_assert_input buf \<and> ChunkBuffer2_assert_output buf"

definition ChunkBuffer2_update_input :: "ChunkBuffer2 \<Rightarrow> ChunkBuffer2" where
  "ChunkBuffer2_update_input buf =
     (let en = ChunkBuffer2_end buf in
      if int (cb_size buf) - int en - 1 < int (cb_mtu buf)
      then buf\<lparr>cb_input_dest := None, cb_input_avail := -1\<rparr>
      else let free = (if cb_used buf \<ge> cb_wrap buf - cb_start buf
                       then int (cb_start buf) - int en else int (cb_size buf) - int en)
           in if free > 0
              then buf\<lparr>cb_input_dest := Some (4 * (en + 1)), cb_input_avail := (free - 1) * 4\<rparr>
              else buf\<lparr>cb_input_dest := None, cb_input_avail := -1\<rparr>)"

definition ChunkBuffer2_update_output :: "ChunkBuffer2 \<Rightarrow> ChunkBuffer2 option" where
  "ChunkBuffer2_update_output buf =
     (if cb_used buf > 0 then do {
        let datalen = block_len (cb_buffer buf) (cb_start buf);
        assert_that (datalen \<ge> 0);
        let blocklen = bdivide_up (nat datalen) 4;
        assert_that (int blocklen \<le> int (cb_used buf) - 1);
        assert_that (int blocklen \<le> int (cb_wrap buf) - int (cb_start buf) - 1);
        Some (buf\<lparr>cb_output_dest := Some (4 * (cb_start buf + 1)), cb_output_avail := datalen\<rparr>)
      } else Some (buf\<lparr>cb_output_dest := None, cb_output_avail := -1\<rparr>))"

definition ChunkBuffer2_calc_blocks :: "int \<Rightarrow> int \<Rightarrow> int" where
  "ChunkBuffer2_calc_blocks chunk_len num =
     (let chunk_data_blocks = int (bdivide_up (nat chunk_len) 4) in
      if chunk_data_blocks > INT_MAX - 1 then -1
      else let chunk_blocks = 1 + chunk_data_blocks in
      if num > INT_MAX - 1 then -1
      else let num_chunks = num + 1 in
      if chunk_blocks > INT_MAX div num_chunks then -1
      else chunk_blocks * num_chunks)"

definition ChunkBuffer2_Init :: "byte list \<Rightarrow> nat \<Rightarrow> nat \<Rightarrow> ChunkBuffer2 option" where
  "ChunkBuffer2_Init buffer blocks mtu = do {
     assert_that (blocks > 0);
     let buf = \<lparr> cb_buffer = buffer, cb_size = blocks, cb_wrap = blocks, cb_start = 0, cb_used = 0,
                 cb_mtu = bdivide_up mtu 4, cb_input_dest = None, cb_input_avail = -1,
                 cb_output_dest = None, cb_output_avail = -1 \<rparr>;
     assert_that (ChunkBuffer2_assert_buffer buf);
     buf \<leftarrow> ChunkBuffer2_update_output (ChunkBuffer2_update_input buf);
     assert_that (ChunkBuffer2_assert_io buf);
     Some buf
   }"

definition ChunkBuffer2_SubmitPacket :: "nat \<Rightarrow> ChunkBuffer2 \<Rightarrow> ChunkBuffer2 option" where
  "ChunkBuffer2_SubmitPacket len buf = do {
     assert_that (cb_input_dest buf \<noteq> None);
     assert_that (int len \<le> cb_input_avail buf);
     assert_that (ChunkBuffer2_assert_buffer buf);
     assert_that (ChunkBuffer2_assert_io buf);
     let en = ChunkBuffer2_end buf;
     let blocklen = bdivide_up len 4;
     assert_that (int blocklen \<le> int (cb_size buf) - int en - 1);
     assert_that (cb_used buf < cb_wrap buf - cb_start buf
        \<or> int blocklen \<le> int (cb_start buf) - int en - 1);
     let buf = buf\<lparr>cb_buffer := set_block_len (cb_buffer buf) en len,
                   cb_used := cb_used buf + (1 + blocklen)\<rparr>;
     let buf = (if cb_used buf \<le> cb_wrap buf - cb_start buf
                   \<and> int (cb_mtu buf) > int (cb_size buf) - int (en + 1 + blocklen) - 1
                then buf\<lparr>cb_wrap := en + 1 + blocklen\<rparr> else buf);
     assert_that (ChunkBuffer2_assert_buffer buf);
     let buf = ChunkBuffer2_update_input buf;
     buf \<leftarrow> (if cb_used buf = 1 + blocklen then ChunkBuffer2_update_output buf else Some buf);
     assert_that (ChunkBuffer2_assert_io buf);
     Some buf
   }"

definition ChunkBuffer2_ConsumePacket :: "ChunkBuffer2 \<Rightarrow> ChunkBuffer2 option" where
  "ChunkBuffer2_ConsumePacket buf = do {
     assert_that (cb_output_dest buf \<noteq> None);
     assert_that (ChunkBuffer2_assert_buffer buf);
     assert_that (ChunkBuffer2_assert_io buf);
     assert_that (1 \<le> cb_wrap buf - cb_start buf);
     assert_that (1 \<le> cb_used buf);
     let blocklen = bdivide_up (nat (block_len (cb_buffer buf) (cb_start buf))) 4;
     assert_that (blocklen \<le> cb_wrap buf - cb_start buf - 1);
     assert_that (blocklen \<le> cb_used buf - 1);
     let data_wrapped = (cb_used buf \<ge> cb_wrap buf - cb_start buf);
     let buf = buf\<lparr>cb_start := cb_start buf + (1 + blocklen), cb_used := cb_used buf - (1 + blocklen)\<rparr>;
     let buf = (if cb_start buf = cb_wrap buf
                then buf\<lparr>cb_start := 0, cb_wrap := cb_size buf\<rparr> else buf);
     assert_that (ChunkBuffer2_assert_buffer buf);
     let buf = (if data_wrapped then ChunkBuffer2_update_input buf else buf);
     buf \<leftarrow> ChunkBuffer2_update_output buf;
     assert_that (ChunkBuffer2_assert_io buf);
     Some buf
   }"

end
