(* ===== verification/ChunkBufferFifo.thy ===== *)
theory ChunkBufferFifo
  imports ChunkBuffer2
begin

text \<open>
  The packet buffer as a queue: the packets stored in the memory of a \<open>ChunkBuffer2\<close>, the
  invariant that keeps every assertion of the code true, and the effect of the operations on
  the list of stored packets.
\<close>

section \<open>Blocks\<close>

lemma bdivide_up_le: "bdivide_up a 4 \<le> n \<longleftrightarrow> a \<le> 4 * n"
  unfolding bdivide_up_def Let_def by presburger

lemma bdivide_up_ge: "a \<le> 4 * bdivide_up a 4"
  using bdivide_up_le [of a "bdivide_up a 4"] by simp

lemma bdivide_up_mono: "a \<le> b \<Longrightarrow> bdivide_up a 4 \<le> bdivide_up b 4"
  using bdivide_up_ge [of b] by (simp add: bdivide_up_le)

lemma sint_of_nat_u32: "n < 2147483648 \<Longrightarrow> sint (of_nat n :: u32) = int n"
  by (simp add: signed_of_nat signed_take_bit_int_eq_self)

lemma nth_write_at_before: "i < pos \<Longrightarrow> pos \<le> length b \<Longrightarrow> write_at b pos src ! i = b ! i"
  by (simp add: write_at_def nth_append)

lemma nth_write_at_after:
  "pos + length src \<le> i \<Longrightarrow> i < length b \<Longrightarrow> write_at b pos src ! i = b ! i"
  by (auto simp: write_at_def nth_append)

lemma nth_write_at_in:
  "i < length src \<Longrightarrow> pos \<le> length b \<Longrightarrow> write_at b pos src ! (pos + i) = src ! i"
  by (simp add: write_at_def nth_append)

lemma block_len_set:
  assumes "len < 2147483648" "4 * i + 4 \<le> length b"
  shows "block_len (set_block_len b i len) i = int len"
proof -
  have w: "set_block_len b i len ! (4 * i + k) = bytes32 (of_nat len) ! k" if "k < 4" for k
    unfolding set_block_len_def using assms(2) that by (intro nth_write_at_in) simp_all
  show ?thesis
    unfolding block_len_def using w [of 0] w [of 1] w [of 2] w [of 3] sint_of_nat_u32 [OF assms(1)]
    by (simp add: bytes32_def)
qed

section \<open>Stored packets\<close>

text \<open>
  \<open>stored lim b pos ps e\<close>: the packets \<open>ps\<close> lie one after the other in the blocks from \<open>pos\<close>
  up to \<open>e\<close>, no header above block \<open>lim\<close>.
\<close>

fun stored :: "nat \<Rightarrow> byte list \<Rightarrow> nat \<Rightarrow> byte list list \<Rightarrow> nat \<Rightarrow> bool" where
  "stored lim b pos [] e \<longleftrightarrow> pos = e"
| "stored lim b pos (p # ps) e \<longleftrightarrow> pos \<le> lim \<and> block_len b pos = int (length p)
     \<and> seg b (4 * pos + 4) (length p) = p \<and> stored lim b (pos + 1 + bdivide_up (length p) 4) ps e"

lemma stored_le: "stored lim b pos ps e \<Longrightarrow> pos \<le> e"
  by (induction ps arbitrary: pos) fastforce+

lemma stored_append:
  "stored lim b pos (ps @ qs) e \<longleftrightarrow> (\<exists>m. stored lim b pos ps m \<and> stored lim b m qs e)"
  by (induction ps arbitrary: pos) auto

definition agree :: "byte list \<Rightarrow> byte list \<Rightarrow> nat \<Rightarrow> nat \<Rightarrow> bool" where
  "agree b b' lo hi \<longleftrightarrow> length b = length b' \<and> (\<forall>i. lo \<le> i \<longrightarrow> i < hi \<longrightarrow> b' ! i = b ! i)"

lemma seg_agree:
  assumes "agree b b' lo hi" "lo \<le> p" "p + n \<le> hi"
  shows "seg b' p n = seg b p n"
  using assms by (intro nth_equalityI) (auto simp: agree_def seg_def)

lemma stored_agree:
  "stored lim b pos ps e \<Longrightarrow> agree b b' (4 * pos) (4 * e) \<Longrightarrow> stored lim b' pos ps e"
proof (induction ps arbitrary: pos)
  case (Cons p ps)
  let ?q = "pos + 1 + bdivide_up (length p) 4"
  have q: "?q \<le> e" using Cons.prems(1) stored_le by fastforce
  have len: "4 * pos + 4 + length p \<le> 4 * e"
    using q bdivide_up_ge [of "length p"] by linarith
  have "block_len b' pos = block_len b pos"
    using Cons.prems(2) len by (simp add: block_len_def agree_def)
  moreover have "seg b' (4 * pos + 4) (length p) = seg b (4 * pos + 4) (length p)"
    by (rule seg_agree [OF Cons.prems(2)]) (use len in simp_all)
  moreover have "agree b b' (4 * ?q) (4 * e)"
    using Cons.prems(2) by (auto simp: agree_def)
  ultimately show ?case using Cons.IH [of ?q] Cons.prems(1) by simp
qed simp

lemma stored_blocks:
  assumes "stored lim b pos ps e" "\<forall>p \<in> set ps. bdivide_up (length p) 4 \<le> m"
  shows "e \<le> pos + length ps * (1 + m)"
  using assms
proof (induction ps arbitrary: pos)
  case (Cons p ps)
  have "e \<le> (pos + 1 + bdivide_up (length p) 4) + length ps * (1 + m)"
    by (rule Cons.IH) (use Cons.prems in simp_all)
  then show ?case using Cons.prems(2) by simp
qed simp

section \<open>The invariant\<close>

definition cb_lim :: "ChunkBuffer2 \<Rightarrow> nat" where
  "cb_lim buf = cb_size buf - 1 - cb_mtu buf"

definition cb_shape :: "ChunkBuffer2 \<Rightarrow> bool" where
  "cb_shape buf \<longleftrightarrow> ChunkBuffer2_assert_buffer buf \<and> cb_mtu buf + 1 \<le> cb_size buf
     \<and> length (cb_buffer buf) = 4 * cb_size buf \<and> 4 * int (cb_size buf) \<le> INT_MAX"

text \<open>The packets when the used blocks do not reach \<open>wrap\<close>, and when they do.\<close>

definition cb_plain :: "ChunkBuffer2 \<Rightarrow> byte list list \<Rightarrow> bool" where
  "cb_plain buf ps \<longleftrightarrow> cb_start buf + cb_used buf < cb_wrap buf \<and> cb_wrap buf = cb_size buf
     \<and> cb_start buf + cb_used buf \<le> cb_lim buf
     \<and> stored (cb_lim buf) (cb_buffer buf) (cb_start buf) ps (cb_start buf + cb_used buf)"

definition cb_wrapped :: "ChunkBuffer2 \<Rightarrow> byte list list \<Rightarrow> bool" where
  "cb_wrapped buf ps \<longleftrightarrow> cb_wrap buf \<le> cb_start buf + cb_used buf
     \<and> cb_start buf + cb_used buf - cb_wrap buf \<le> cb_start buf
     \<and> cb_size buf \<le> cb_wrap buf + cb_mtu buf
     \<and> (\<exists>ps1 ps2. ps = ps1 @ ps2
          \<and> stored (cb_lim buf) (cb_buffer buf) (cb_start buf) ps1 (cb_wrap buf)
          \<and> stored (cb_lim buf) (cb_buffer buf) 0 ps2 (cb_start buf + cb_used buf - cb_wrap buf))"

definition cb_inv :: "ChunkBuffer2 \<Rightarrow> byte list list \<Rightarrow> bool" where
  "cb_inv buf ps \<longleftrightarrow> cb_shape buf \<and> (cb_plain buf ps \<or> cb_wrapped buf ps)
     \<and> ChunkBuffer2_assert_input buf \<and> ChunkBuffer2_assert_output buf"

lemma end_plain: "cb_start buf + cb_used buf < cb_wrap buf \<Longrightarrow>
    ChunkBuffer2_end buf = cb_start buf + cb_used buf"
  unfolding ChunkBuffer2_end_def by (rule if_not_P) linarith

lemma end_wrapped: "cb_wrap buf \<le> cb_start buf + cb_used buf \<Longrightarrow> cb_start buf < cb_wrap buf \<Longrightarrow>
    ChunkBuffer2_end buf = cb_start buf + cb_used buf - cb_wrap buf"
  by (auto simp: ChunkBuffer2_end_def)

text \<open>The first packet, and the output fields.\<close>

lemma cb_first:
  assumes "cb_shape buf" "cb_plain buf ps \<or> cb_wrapped buf ps"
  shows "cb_used buf = 0 \<longleftrightarrow> ps = []"
    and "ps = p # qs \<Longrightarrow> block_len (cb_buffer buf) (cb_start buf) = int (length p)
       \<and> seg (cb_buffer buf) (4 * cb_start buf + 4) (length p) = p
       \<and> cb_start buf + 1 + bdivide_up (length p) 4 \<le> cb_wrap buf
       \<and> 1 + bdivide_up (length p) 4 \<le> cb_used buf"
proof -
  have sw: "cb_start buf < cb_wrap buf"
    using assms(1) by (simp add: cb_shape_def ChunkBuffer2_assert_buffer_def)
  have *: "(cb_used buf = 0 \<longleftrightarrow> ps = []) \<and> (\<forall>p qs. ps = p # qs \<longrightarrow>
       block_len (cb_buffer buf) (cb_start buf) = int (length p)
       \<and> seg (cb_buffer buf) (4 * cb_start buf + 4) (length p) = p
       \<and> cb_start buf + 1 + bdivide_up (length p) 4 \<le> cb_wrap buf
       \<and> 1 + bdivide_up (length p) 4 \<le> cb_used buf)"
    using assms(2)
  proof
    assume "cb_plain buf ps"
    then show ?thesis
      by (cases ps) (auto simp: cb_plain_def dest!: stored_le)
  next
    assume "cb_wrapped buf ps"
    then obtain ps1 ps2 where s: "ps = ps1 @ ps2"
      "stored (cb_lim buf) (cb_buffer buf) (cb_start buf) ps1 (cb_wrap buf)"
      "cb_wrap buf \<le> cb_start buf + cb_used buf"
      by (auto simp: cb_wrapped_def)
    with sw obtain q qs where "ps1 = q # qs" by (cases ps1) auto
    with s sw show ?thesis by (auto dest!: stored_le)
  qed
  then show "cb_used buf = 0 \<longleftrightarrow> ps = []"
    "ps = p # qs \<Longrightarrow> block_len (cb_buffer buf) (cb_start buf) = int (length p)
       \<and> seg (cb_buffer buf) (4 * cb_start buf + 4) (length p) = p
       \<and> cb_start buf + 1 + bdivide_up (length p) 4 \<le> cb_wrap buf
       \<and> 1 + bdivide_up (length p) 4 \<le> cb_used buf"
    by blast+
qed

section \<open>The derived fields\<close>

lemma update_input_sel [simp]:
  "cb_buffer (ChunkBuffer2_update_input buf) = cb_buffer buf"
  "cb_size (ChunkBuffer2_update_input buf) = cb_size buf"
  "cb_wrap (ChunkBuffer2_update_input buf) = cb_wrap buf"
  "cb_start (ChunkBuffer2_update_input buf) = cb_start buf"
  "cb_used (ChunkBuffer2_update_input buf) = cb_used buf"
  "cb_mtu (ChunkBuffer2_update_input buf) = cb_mtu buf"
  "cb_output_dest (ChunkBuffer2_update_input buf) = cb_output_dest buf"
  "cb_output_avail (ChunkBuffer2_update_input buf) = cb_output_avail buf"
  by (simp_all add: ChunkBuffer2_update_input_def Let_def)

lemma end_cong:
  "cb_used buf' = cb_used buf \<Longrightarrow> cb_wrap buf' = cb_wrap buf \<Longrightarrow> cb_start buf' = cb_start buf \<Longrightarrow>
   ChunkBuffer2_end buf' = ChunkBuffer2_end buf"
  by (simp add: ChunkBuffer2_end_def)

lemma assert_update_input: "ChunkBuffer2_assert_input (ChunkBuffer2_update_input buf)"
proof -
  have "ChunkBuffer2_end (ChunkBuffer2_update_input buf) = ChunkBuffer2_end buf"
    by (rule end_cong) simp_all
  then show ?thesis
    by (simp add: ChunkBuffer2_assert_input_def input_free_def)
       (simp add: ChunkBuffer2_update_input_def Let_def)
qed

text \<open>The predicates on the contents read only the memory fields.\<close>

definition same_memory :: "ChunkBuffer2 \<Rightarrow> ChunkBuffer2 \<Rightarrow> bool" where
  "same_memory a b \<longleftrightarrow> cb_buffer a = cb_buffer b \<and> cb_size a = cb_size b \<and> cb_wrap a = cb_wrap b
     \<and> cb_start a = cb_start b \<and> cb_used a = cb_used b \<and> cb_mtu a = cb_mtu b"

lemma same_memory_cong:
  assumes "same_memory a b"
  shows "cb_shape a = cb_shape b" "cb_plain a ps = cb_plain b ps" "cb_wrapped a ps = cb_wrapped b ps"
    "ChunkBuffer2_assert_buffer a = ChunkBuffer2_assert_buffer b"
  using assms by (simp_all add: same_memory_def cb_shape_def cb_plain_def cb_wrapped_def
      ChunkBuffer2_assert_buffer_def cb_lim_def)

lemma same_memory_trans: "same_memory a b \<Longrightarrow> same_memory b c \<Longrightarrow> same_memory a c"
  unfolding same_memory_def by (elim conjE, intro conjI) (erule trans, assumption)+

definition output_fields :: "ChunkBuffer2 \<Rightarrow> byte list list \<Rightarrow> nat option \<times> int" where
  "output_fields buf ps = (case ps of [] \<Rightarrow> (None, -1)
     | p # _ \<Rightarrow> (Some (4 * (cb_start buf + 1)), int (length p)))"

lemma assert_output_iff:
  assumes "cb_shape buf" "cb_plain buf ps \<or> cb_wrapped buf ps"
  shows "ChunkBuffer2_assert_output buf \<longleftrightarrow>
     (cb_output_dest buf, cb_output_avail buf) = output_fields buf ps"
proof (cases ps)
  case Nil
  then show ?thesis
    using cb_first(1) [OF assms] by (simp add: ChunkBuffer2_assert_output_def output_fields_def)
next
  case (Cons p qs)
  with cb_first [OF assms] show ?thesis
    by (auto simp: ChunkBuffer2_assert_output_def output_fields_def)
qed

lemma update_output_ok:
  assumes "cb_shape buf" "cb_plain buf ps \<or> cb_wrapped buf ps"
  shows "ChunkBuffer2_update_output buf = Some (buf\<lparr>cb_output_dest := fst (output_fields buf ps),
      cb_output_avail := snd (output_fields buf ps)\<rparr>)"
proof (cases ps)
  case Nil
  then show ?thesis
    using cb_first(1) [OF assms] by (simp add: ChunkBuffer2_update_output_def output_fields_def)
next
  case (Cons p qs)
  with cb_first [OF assms] have "0 < cb_used buf"
    "block_len (cb_buffer buf) (cb_start buf) = int (length p)"
    "int (bdivide_up (length p) 4) \<le> int (cb_used buf) - 1"
    "int (bdivide_up (length p) 4) \<le> int (cb_wrap buf) - int (cb_start buf) - 1"
    by auto
  then show ?thesis
    by (simp add: ChunkBuffer2_update_output_def output_fields_def Cons)
qed

text \<open>Recomputing the output (and, where needed, the input) fields restores the invariant.\<close>

lemma finish_output:
  assumes "cb_shape buf" "cb_plain buf ps \<or> cb_wrapped buf ps" "ChunkBuffer2_assert_input buf"
  shows "\<exists>buf'. ChunkBuffer2_update_output buf = Some buf' \<and> cb_inv buf' ps \<and> same_memory buf' buf
     \<and> ChunkBuffer2_assert_io buf'"
proof -
  let ?b = "buf\<lparr>cb_output_dest := fst (output_fields buf ps),
      cb_output_avail := snd (output_fields buf ps)\<rparr>"
  have same: "same_memory ?b buf" by (simp add: same_memory_def)
  note c = same_memory_cong [OF this]
  have "ChunkBuffer2_end ?b = ChunkBuffer2_end buf" by (rule end_cong) simp_all
  then have "ChunkBuffer2_assert_input ?b"
    using assms(3) by (simp add: ChunkBuffer2_assert_input_def input_free_def)
  moreover have sh: "cb_shape ?b" "cb_plain ?b ps \<or> cb_wrapped ?b ps"
    using assms(1,2) c by blast+
  moreover have "output_fields ?b ps = output_fields buf ps"
    by (cases ps) (simp_all add: output_fields_def)
  then have "ChunkBuffer2_assert_output ?b"
    using assert_output_iff [OF sh] by simp
  ultimately have "cb_inv ?b ps" "ChunkBuffer2_assert_io ?b"
    by (simp_all add: cb_inv_def ChunkBuffer2_assert_io_def)
  then show ?thesis
    using update_output_ok [OF assms(1,2)] same by blast
qed

section \<open>Submitting and consuming\<close>

text \<open>The provider of the input writes the packet at \<open>input_dest\<close>.\<close>

definition cb_write_input :: "byte list \<Rightarrow> ChunkBuffer2 \<Rightarrow> ChunkBuffer2" where
  "cb_write_input p buf = (case cb_input_dest buf of None \<Rightarrow> buf
     | Some d \<Rightarrow> buf\<lparr>cb_buffer := write_at (cb_buffer buf) d p\<rparr>)"

lemma put_packet:
  assumes "4 * en + 4 + length p \<le> length b" "length p < 2147483648"
  defines "b' \<equiv> set_block_len (write_at b (4 * (en + 1)) p) en (length p)"
  shows "length b' = length b" "block_len b' en = int (length p)" "seg b' (4 * en + 4) (length p) = p"
    "agree b b' 0 (4 * en)" "lo \<ge> 4 * en + 4 + length p \<Longrightarrow> hi \<le> length b \<Longrightarrow> agree b b' lo hi"
proof -
  let ?b1 = "write_at b (4 * (en + 1)) p"
  have l1: "length ?b1 = length b" using assms(1) by simp
  then show l2: "length b' = length b"
    using assms(1) by (simp add: b'_def set_block_len_def)
  show "block_len b' en = int (length p)"
    unfolding b'_def by (rule block_len_set) (use assms l1 in simp_all)
  have "seg b' (4 * en + 4) (length p) = seg ?b1 (4 * en + 4) (length p)"
    unfolding b'_def set_block_len_def by (rule seg_write_at_after) (use assms l1 in simp_all)
  also have "\<dots> = p"
    using assms(1) seg_write_at_same [of "4 * (en + 1)" p b] by (simp add: add.commute)
  finally show "seg b' (4 * en + 4) (length p) = p" .
  show "agree b b' 0 (4 * en)"
    using assms(1) l1 l2 by (auto simp: agree_def b'_def set_block_len_def nth_write_at_before)
  show "agree b b' lo hi" if "lo \<ge> 4 * en + 4 + length p" "hi \<le> length b"
    using assms(1) l1 l2 that by (auto simp: agree_def b'_def set_block_len_def nth_write_at_after)
qed

lemma submit_plain:
  assumes sh: "cb_shape buf" and pl: "cb_plain buf ps" and ai: "ChunkBuffer2_assert_input buf"
    and avail: "cb_input_dest buf \<noteq> None" "int (length p) \<le> cb_input_avail buf"
  defines "en \<equiv> cb_start buf + cb_used buf" and "bl \<equiv> bdivide_up (length p) 4"
  defines "m \<equiv> buf\<lparr>cb_buffer := set_block_len (cb_buffer (cb_write_input p buf)) en (length p),
                    cb_used := cb_used buf + (1 + bl)\<rparr>"
  shows "en + 1 + bl \<le> cb_size buf"
    and "int (cb_mtu buf) > int (cb_size buf) - int (en + 1 + bl) - 1 \<Longrightarrow>
       cb_shape (m\<lparr>cb_wrap := en + 1 + bl\<rparr>) \<and> cb_wrapped (m\<lparr>cb_wrap := en + 1 + bl\<rparr>) (ps @ [p])"
    and "\<not> int (cb_mtu buf) > int (cb_size buf) - int (en + 1 + bl) - 1 \<Longrightarrow>
       cb_shape m \<and> cb_plain m (ps @ [p])"
proof -
  have u: "en < cb_wrap buf" "cb_wrap buf = cb_size buf" "en \<le> cb_lim buf"
    and st: "stored (cb_lim buf) (cb_buffer buf) (cb_start buf) ps en"
    using pl by (auto simp: cb_plain_def en_def)
  have ee: "ChunkBuffer2_end buf = en" "input_free buf = int (cb_size buf) - int en"
    using u end_plain [of buf] by (simp_all add: en_def input_free_def)
  have dest: "cb_input_dest buf = Some (4 * (en + 1))"
    and len: "int (length p) \<le> (int (cb_size buf) - int en - 1) * 4"
    using ai avail unfolding ChunkBuffer2_assert_input_def ee by (auto split: if_splits)
  then have "int (4 * en + 4 + length p) \<le> int (4 * cb_size buf)" by simp
  then have fit: "4 * en + 4 + length p \<le> 4 * cb_size buf" by (simp only: of_nat_le_iff)
  then have "length p \<le> 4 * (cb_size buf - en - 1)" by linarith
  then show bl: "en + 1 + bl \<le> cb_size buf"
    using bdivide_up_le [of "length p" "cb_size buf - en - 1"] u(1,2) by (simp add: bl_def)
  have lb: "length (cb_buffer buf) = 4 * cb_size buf" and small: "length p < 2147483648"
    using sh fit by (auto simp: cb_shape_def INT_MAX_def)
  let ?b' = "set_block_len (write_at (cb_buffer buf) (4 * (en + 1)) p) en (length p)"
  have m: "cb_buffer m = ?b'" by (simp add: m_def cb_write_input_def dest)
  note put = put_packet [OF fit [folded lb] small]
  have ag: "agree (cb_buffer buf) ?b' (4 * cb_start buf) (4 * en)"
    using put(4) by (auto simp: agree_def)
  have "stored (cb_lim buf) ?b' (cb_start buf) (ps @ [p]) (en + 1 + bl)"
    using stored_agree [OF st ag] put(2,3) u(3) by (auto simp: stored_append bl_def)
  note st' = this [folded m]
  have sh': "0 < cb_size buf" "cb_mtu buf + 1 \<le> cb_size buf" "4 * int (cb_size buf) \<le> INT_MAX"
    "cb_start buf < cb_wrap buf"
    using sh by (auto simp: cb_shape_def ChunkBuffer2_assert_buffer_def)
  have lm: "length (cb_buffer m) = 4 * cb_size buf"
    using put(1) lb by (simp only: m)
  have sel: "cb_size m = cb_size buf" "cb_start m = cb_start buf" "cb_used m = cb_used buf + (1 + bl)"
    "cb_wrap m = cb_wrap buf" "cb_mtu m = cb_mtu buf"
    by (simp_all add: m_def)
  show "cb_shape (m\<lparr>cb_wrap := en + 1 + bl\<rparr>) \<and> cb_wrapped (m\<lparr>cb_wrap := en + 1 + bl\<rparr>) (ps @ [p])"
    if "int (cb_mtu buf) > int (cb_size buf) - int (en + 1 + bl) - 1"
  proof -
    have "cb_wrapped (m\<lparr>cb_wrap := en + 1 + bl\<rparr>) (ps @ [p])"
      unfolding cb_wrapped_def
      using st' that u bl by (simp add: sel cb_lim_def en_def) (metis append_Nil2 stored.simps(1))
    then show ?thesis
      using sh' bl u lm by (auto simp: cb_shape_def ChunkBuffer2_assert_buffer_def sel en_def)
  qed
  show "cb_shape m \<and> cb_plain m (ps @ [p])"
    if "\<not> int (cb_mtu buf) > int (cb_size buf) - int (en + 1 + bl) - 1"
  proof -
    have "en + 1 + bl \<le> cb_lim buf" "en + 1 + bl < cb_size buf"
      using that bl sh' by (auto simp: cb_lim_def)
    then show ?thesis
      using st' sh' u lm by (auto simp: cb_shape_def ChunkBuffer2_assert_buffer_def cb_plain_def
          cb_lim_def sel en_def add.assoc)
  qed
qed

lemma submit_wrapped:
  assumes sh: "cb_shape buf" and wr: "cb_wrapped buf ps" and ai: "ChunkBuffer2_assert_input buf"
    and avail: "cb_input_dest buf \<noteq> None" "int (length p) \<le> cb_input_avail buf"
  defines "en \<equiv> cb_start buf + cb_used buf - cb_wrap buf" and "bl \<equiv> bdivide_up (length p) 4"
  defines "m \<equiv> buf\<lparr>cb_buffer := set_block_len (cb_buffer (cb_write_input p buf)) en (length p),
                    cb_used := cb_used buf + (1 + bl)\<rparr>"
  shows "en + 1 + bl \<le> cb_start buf" "\<not> cb_used m \<le> cb_wrap buf - cb_start buf"
    and "cb_shape m \<and> cb_wrapped m (ps @ [p])"
proof -
  have sh': "0 < cb_size buf" "cb_mtu buf + 1 \<le> cb_size buf" "4 * int (cb_size buf) \<le> INT_MAX"
    "cb_start buf < cb_wrap buf" "cb_wrap buf \<le> cb_size buf"
    "length (cb_buffer buf) = 4 * cb_size buf"
    using sh by (auto simp: cb_shape_def ChunkBuffer2_assert_buffer_def)
  have u: "cb_wrap buf \<le> cb_start buf + cb_used buf" "en \<le> cb_start buf"
      "cb_size buf \<le> cb_wrap buf + cb_mtu buf"
    using wr by (auto simp: cb_wrapped_def en_def)
  obtain ps1 ps2 where ps: "ps = ps1 @ ps2"
    "stored (cb_lim buf) (cb_buffer buf) (cb_start buf) ps1 (cb_wrap buf)"
    "stored (cb_lim buf) (cb_buffer buf) 0 ps2 en"
    using wr by (auto simp: cb_wrapped_def en_def)
  have lim: "cb_start buf \<le> cb_lim buf"
    using ps(2) sh'(4) by (cases ps1) auto
  have "cb_wrap buf - cb_start buf \<le> cb_used buf" using u(1) by linarith
  then have ee: "ChunkBuffer2_end buf = en" "input_free buf = int (cb_start buf) - int en"
    using end_wrapped [OF u(1) sh'(4)] by (simp_all add: en_def input_free_def)
  have dest: "cb_input_dest buf = Some (4 * (en + 1))"
    and len: "int (length p) \<le> (int (cb_start buf) - int en - 1) * 4"
    using ai avail unfolding ChunkBuffer2_assert_input_def ee by (auto split: if_splits)
  then have "int (4 * en + 4 + length p) \<le> int (4 * cb_start buf)" by simp
  then have fit: "4 * en + 4 + length p \<le> 4 * cb_start buf" by (simp only: of_nat_le_iff)
  then have "length p \<le> 4 * (cb_start buf - en - 1)" "en < cb_start buf" by linarith+
  then show bl: "en + 1 + bl \<le> cb_start buf"
    using bdivide_up_le [of "length p" "cb_start buf - en - 1"] by (simp add: bl_def)
  have fit': "4 * en + 4 + length p \<le> length (cb_buffer buf)" and small: "length p < 2147483648"
    using sh' fit by (auto simp: INT_MAX_def)
  show nw: "\<not> cb_used m \<le> cb_wrap buf - cb_start buf"
    using u by (simp add: m_def)
  let ?b' = "set_block_len (write_at (cb_buffer buf) (4 * (en + 1)) p) en (length p)"
  have m: "cb_buffer m = ?b'" by (simp add: m_def cb_write_input_def dest)
  note put = put_packet [OF fit' small]
  have "agree (cb_buffer buf) ?b' (4 * cb_start buf) (4 * cb_wrap buf)"
    by (rule put(5)) (use fit sh' in simp_all)
  note s1 = stored_agree [OF ps(2) this]
  have "stored (cb_lim buf) ?b' 0 (ps2 @ [p]) (en + 1 + bl)"
    using stored_agree [OF ps(3), of ?b'] put(2,3,4) u(2) lim by (auto simp: stored_append bl_def)
  note s2 = this [folded m]
  have "length (cb_buffer m) = 4 * cb_size buf"
    using put(1) sh'(6) by (simp only: m)
  moreover have "cb_lim m = cb_lim buf" "cb_wrap m = cb_wrap buf" "cb_start m = cb_start buf"
    "cb_used m = cb_used buf + (1 + bl)" "cb_size m = cb_size buf" "cb_mtu m = cb_mtu buf"
    by (simp_all add: m_def cb_lim_def)
  moreover have "cb_start buf + (cb_used buf + (1 + bl)) - cb_wrap buf = en + 1 + bl"
    using u by (simp add: en_def)
  moreover have "cb_used buf + (1 + bl) \<le> cb_wrap buf"
    using bl u sh' by (simp add: en_def)
  moreover have "ps @ [p] = ps1 @ (ps2 @ [p])" using ps by simp
  ultimately show "cb_shape m \<and> cb_wrapped m (ps @ [p])"
    unfolding cb_shape_def cb_wrapped_def ChunkBuffer2_assert_buffer_def
    using s1 [folded m] s2 sh' u bl by auto
qed

lemma write_input_sel [simp]:
  "cb_size (cb_write_input p buf) = cb_size buf" "cb_wrap (cb_write_input p buf) = cb_wrap buf"
  "cb_start (cb_write_input p buf) = cb_start buf" "cb_used (cb_write_input p buf) = cb_used buf"
  "cb_mtu (cb_write_input p buf) = cb_mtu buf"
  "cb_input_dest (cb_write_input p buf) = cb_input_dest buf"
  "cb_input_avail (cb_write_input p buf) = cb_input_avail buf"
  "cb_output_dest (cb_write_input p buf) = cb_output_dest buf"
  "cb_output_avail (cb_write_input p buf) = cb_output_avail buf"
  "(cb_write_input p buf)\<lparr>cb_buffer := x, cb_used := y\<rparr> = buf\<lparr>cb_buffer := x, cb_used := y\<rparr>"
  by (simp_all add: cb_write_input_def split: option.splits)

lemma write_input_end [simp]: "ChunkBuffer2_end (cb_write_input p buf) = ChunkBuffer2_end buf"
  by (rule end_cong) simp_all

text \<open>Writing into the input region leaves the stored packets alone.\<close>

lemma write_input_inv:
  assumes inv: "cb_inv buf ps" and avail: "cb_input_dest buf \<noteq> None" "int (length p) \<le> cb_input_avail buf"
  shows "cb_inv (cb_write_input p buf) ps"
proof -
  note sh = inv [unfolded cb_inv_def, THEN conjunct1]
  have sh': "cb_start buf < cb_wrap buf" "cb_wrap buf \<le> cb_size buf"
    "length (cb_buffer buf) = 4 * cb_size buf"
    using sh by (auto simp: cb_shape_def ChunkBuffer2_assert_buffer_def)
  have ai: "ChunkBuffer2_assert_input buf" and ao: "ChunkBuffer2_assert_output buf"
    using inv by (auto simp: cb_inv_def)
  let ?en = "ChunkBuffer2_end buf" and ?w = "cb_write_input p buf"
  have dest: "cb_input_dest buf = Some (4 * (?en + 1))"
    and len: "int (length p) \<le> (input_free buf - 1) * 4"
    using ai avail unfolding ChunkBuffer2_assert_input_def by (auto split: if_splits)
  have le: "int ?en + input_free buf \<le> int (cb_size buf)"
    using sh' by (simp add: input_free_def)
  have fit: "4 * ?en + 4 + length p \<le> 4 * cb_size buf"
  proof -
    have "int (4 * ?en + 4 + length p) \<le> int (4 * cb_size buf)" using len le by simp
    then show ?thesis by (simp only: of_nat_le_iff)
  qed
  have w: "cb_buffer ?w = write_at (cb_buffer buf) (4 * ?en + 4) p"
    by (simp add: cb_write_input_def dest add.commute)
  have sel: "cb_size ?w = cb_size buf" "cb_start ?w = cb_start buf" "cb_used ?w = cb_used buf"
    "cb_wrap ?w = cb_wrap buf" "cb_mtu ?w = cb_mtu buf" "cb_lim ?w = cb_lim buf"
    "length (cb_buffer ?w) = 4 * cb_size buf"
    using fit sh' by (simp_all add: cb_write_input_def dest cb_lim_def)
  have ag: "agree (cb_buffer buf) (cb_buffer ?w) lo (4 * ?en)" for lo
    using fit sh' unfolding w by (auto simp: agree_def nth_write_at_before)
  have contents: "cb_plain ?w ps \<or> cb_wrapped ?w ps"
  proof (cases "cb_plain buf ps")
    case True
    then have en: "?en = cb_start buf + cb_used buf"
      by (intro end_plain) (simp add: cb_plain_def)
    have "stored (cb_lim buf) (cb_buffer ?w) (cb_start buf) ps (cb_start buf + cb_used buf)"
      by (rule stored_agree [OF _ ag [unfolded en]]) (use True in \<open>simp add: cb_plain_def\<close>)
    with True have "cb_plain ?w ps" by (simp add: cb_plain_def sel)
    then show ?thesis ..
  next
    case False
    then have wr: "cb_wrapped buf ps" using inv by (simp add: cb_inv_def)
    then have en: "?en = cb_start buf + cb_used buf - cb_wrap buf"
      and c: "cb_wrap buf - cb_start buf \<le> cb_used buf"
      using end_wrapped [of buf] sh' by (auto simp: cb_wrapped_def)
    have "int (4 * ?en + 4 + length p) \<le> int (4 * cb_start buf)"
      using len c by (simp add: input_free_def)
    then have "4 * ?en + 4 + length p \<le> 4 * cb_start buf" by (simp only: of_nat_le_iff)
    then have "agree (cb_buffer buf) (cb_buffer ?w) (4 * cb_start buf) (4 * cb_wrap buf)"
      using sh' unfolding w by (auto simp: agree_def nth_write_at_after)
    with wr ag [of 0] show ?thesis
      unfolding cb_wrapped_def sel en by (metis stored_agree mult_0_right)
  qed
  have shw: "cb_shape ?w"
    using sh sel by (simp add: cb_shape_def ChunkBuffer2_assert_buffer_def)
  have "input_free ?w = input_free buf" by (simp add: input_free_def)
  then have "ChunkBuffer2_assert_input ?w"
    using ai by (simp only: ChunkBuffer2_assert_input_def write_input_sel write_input_end)
  moreover have "(cb_output_dest ?w, cb_output_avail ?w) = output_fields ?w ps"
    using ao inv by (subst (asm) assert_output_iff [of buf ps])
      (auto simp: cb_inv_def output_fields_def sel, auto simp: cb_write_input_def dest split: list.splits)
  then have "ChunkBuffer2_assert_output ?w"
    using assert_output_iff [OF shw contents] by blast
  ultimately show ?thesis
    using shw contents by (simp add: cb_inv_def)
qed

text \<open>The state of \<open>SubmitPacket\<close> after the header is written and \<open>wrap\<close> updated.\<close>

definition submitted :: "nat \<Rightarrow> ChunkBuffer2 \<Rightarrow> ChunkBuffer2" where
  "submitted len buf =
     (let en = ChunkBuffer2_end buf; bl = bdivide_up len 4;
          m = buf\<lparr>cb_buffer := set_block_len (cb_buffer buf) en len, cb_used := cb_used buf + (1 + bl)\<rparr>
      in if cb_used m \<le> cb_wrap m - cb_start m
            \<and> int (cb_mtu m) > int (cb_size m) - int (en + 1 + bl) - 1
         then m\<lparr>cb_wrap := en + 1 + bl\<rparr> else m)"

lemma submitted_ok:
  assumes inv: "cb_inv buf ps" and avail: "cb_input_dest buf \<noteq> None" "int (length p) \<le> cb_input_avail buf"
  defines "w \<equiv> cb_write_input p buf" and "en \<equiv> ChunkBuffer2_end buf" and "bl \<equiv> bdivide_up (length p) 4"
  shows "cb_shape (submitted (length p) w)"
    "cb_plain (submitted (length p) w) (ps @ [p]) \<or> cb_wrapped (submitted (length p) w) (ps @ [p])"
    "int bl \<le> int (cb_size buf) - int en - 1"
    "cb_used buf < cb_wrap buf - cb_start buf \<or> int bl \<le> int (cb_start buf) - int en - 1"
proof -
  let ?m = "buf\<lparr>cb_buffer := set_block_len (cb_buffer (cb_write_input p buf)) en (length p),
                    cb_used := cb_used buf + (1 + bl)\<rparr>"
  let ?S = "submitted (length p) w"
  have s: "?S = (if cb_used ?m \<le> cb_wrap buf - cb_start buf
       \<and> int (cb_mtu buf) > int (cb_size buf) - int (en + 1 + bl) - 1
       then ?m\<lparr>cb_wrap := en + 1 + bl\<rparr> else ?m)"
    by (simp add: submitted_def Let_def w_def en_def bl_def)
  have sh: "cb_shape buf" and ai: "ChunkBuffer2_assert_input buf"
    using inv by (auto simp: cb_inv_def)
  have sw: "cb_start buf < cb_wrap buf" "cb_wrap buf \<le> cb_size buf"
    using sh by (auto simp: cb_shape_def ChunkBuffer2_assert_buffer_def)
  have "cb_shape ?S \<and> (cb_plain ?S (ps @ [p]) \<or> cb_wrapped ?S (ps @ [p]))
     \<and> int bl \<le> int (cb_size buf) - int en - 1
     \<and> (cb_used buf < cb_wrap buf - cb_start buf \<or> int bl \<le> int (cb_start buf) - int en - 1)"
  proof (cases "cb_plain buf ps")
    case True
    then have en: "en = cb_start buf + cb_used buf" and u: "cb_start buf + cb_used buf < cb_wrap buf"
        "cb_wrap buf = cb_size buf"
      by (auto simp: en_def end_plain cb_plain_def)
    note sp = submit_plain [OF sh True ai avail, folded en bl_def]
    have "cb_used ?m \<le> cb_wrap buf - cb_start buf"
      using sp(1) u en by simp
    with sp s u show ?thesis by simp
  next
    case False
    then have wr: "cb_wrapped buf ps" using inv by (simp add: cb_inv_def)
    then have en: "en = cb_start buf + cb_used buf - cb_wrap buf"
      using end_wrapped [of buf] sw by (auto simp: cb_wrapped_def en_def)
    note sp = submit_wrapped [OF sh wr ai avail, folded en bl_def]
    with s sw show ?thesis by simp
  qed
  then show "cb_shape ?S" "cb_plain ?S (ps @ [p]) \<or> cb_wrapped ?S (ps @ [p])"
    "int bl \<le> int (cb_size buf) - int en - 1"
    "cb_used buf < cb_wrap buf - cb_start buf \<or> int bl \<le> int (cb_start buf) - int en - 1"
    by blast+
qed

lemma submitted_sel:
  "cb_start (submitted n buf) = cb_start buf" "cb_used (submitted n buf) = cb_used buf + (1 + bdivide_up n 4)"
  "cb_mtu (submitted n buf) = cb_mtu buf" "cb_size (submitted n buf) = cb_size buf"
  "cb_output_dest (submitted n buf) = cb_output_dest buf"
  "cb_output_avail (submitted n buf) = cb_output_avail buf"
  by (simp_all add: submitted_def Let_def)

lemma Submit_inv:
  assumes inv: "cb_inv buf ps" and avail: "cb_input_dest buf \<noteq> None" "int (length p) \<le> cb_input_avail buf"
  shows "\<exists>buf'. ChunkBuffer2_SubmitPacket (length p) (cb_write_input p buf) = Some buf'
     \<and> cb_inv buf' (ps @ [p]) \<and> cb_mtu buf' = cb_mtu buf \<and> cb_size buf' = cb_size buf"
proof -
  let ?w = "cb_write_input p buf" and ?bl = "bdivide_up (length p) 4"
  let ?S = "submitted (length p) ?w"
  let ?U = "ChunkBuffer2_update_input ?S"
  note sub = submitted_ok [OF inv avail]
  have winv: "cb_inv ?w ps" by (rule write_input_inv [OF inv avail])
  have same: "same_memory ?U ?S" by (simp add: same_memory_def)
  note c = same_memory_cong [OF this]
  have U: "cb_shape ?U" "cb_plain ?U (ps @ [p]) \<or> cb_wrapped ?U (ps @ [p])" "ChunkBuffer2_assert_input ?U"
    using sub(1,2) c assert_update_input by blast+
  have start: "ChunkBuffer2_SubmitPacket (length p) ?w = do {
      buf \<leftarrow> (if cb_used ?U = 1 + ?bl then ChunkBuffer2_update_output ?U else Some ?U);
      assert_that (ChunkBuffer2_assert_io buf); Some buf }"
    using avail winv sub(3,4) sub(1) unfolding ChunkBuffer2_SubmitPacket_def Let_def
    by (simp add: cb_inv_def ChunkBuffer2_assert_io_def cb_shape_def
        submitted_def Let_def cong: if_cong)
  show ?thesis
  proof (cases "cb_used ?U = 1 + ?bl")
    case True
    from finish_output [OF U] obtain b where "ChunkBuffer2_update_output ?U = Some b"
      "cb_inv b (ps @ [p])" "same_memory b ?U" "ChunkBuffer2_assert_io b" by blast
    then show ?thesis
      using True start by (auto simp: same_memory_def submitted_sel)
  next
    case False
    then have "ps \<noteq> []"
      using cb_first(1) [of buf ps] inv by (auto simp: cb_inv_def submitted_sel)
    then have "output_fields ?U (ps @ [p]) = output_fields ?w ps"
      by (cases ps) (simp_all add: output_fields_def submitted_sel)
    moreover have "(cb_output_dest ?w, cb_output_avail ?w) = output_fields ?w ps"
      using winv assert_output_iff [of ?w ps] by (simp only: cb_inv_def)
    ultimately have "ChunkBuffer2_assert_output ?U"
      using assert_output_iff [OF U(1,2)] by (simp add: submitted_sel)
    then show ?thesis
      using False start U by (auto simp: cb_inv_def ChunkBuffer2_assert_io_def submitted_sel)
  qed
qed

lemma Submit_output:
  assumes "cb_inv buf ps" "ChunkBuffer2_SubmitPacket n (cb_write_input p buf) = Some buf'" "ps \<noteq> []"
  shows "cb_output_dest buf' = cb_output_dest buf \<and> cb_output_avail buf' = cb_output_avail buf"
proof -
  have "cb_used buf \<noteq> 0"
    using cb_first(1) [of buf ps] assms(1,3) by (auto simp: cb_inv_def)
  then show ?thesis
    using assms(2) unfolding ChunkBuffer2_SubmitPacket_def
    by (auto simp: bind_Some Let_def split: if_splits)
qed

text \<open>Dropping the first packet.\<close>

lemma assert_input_moved:
  assumes "ChunkBuffer2_assert_input buf" "cb_start buf + cb_used buf < cb_wrap buf"
    "cb_start buf' + cb_used buf' = cb_start buf + cb_used buf" "cb_wrap buf' = cb_wrap buf"
    "cb_size buf' = cb_size buf" "cb_mtu buf' = cb_mtu buf"
    "cb_input_dest buf' = cb_input_dest buf" "cb_input_avail buf' = cb_input_avail buf"
  shows "ChunkBuffer2_assert_input buf'"
proof -
  have "ChunkBuffer2_end buf' = ChunkBuffer2_end buf"
    using assms end_plain [of buf] end_plain [of buf'] by simp
  moreover have "\<not> cb_wrap buf - cb_start buf \<le> cb_used buf" "\<not> cb_wrap buf' - cb_start buf' \<le> cb_used buf'"
    using assms(2-4) by linarith+
  ultimately show ?thesis
    using assms by (simp add: ChunkBuffer2_assert_input_def input_free_def)
qed

definition consumed :: "ChunkBuffer2 \<Rightarrow> nat \<Rightarrow> ChunkBuffer2" where
  "consumed buf bl =
     (let m = buf\<lparr>cb_start := cb_start buf + (1 + bl), cb_used := cb_used buf - (1 + bl)\<rparr>
      in if cb_start m = cb_wrap m then m\<lparr>cb_start := 0, cb_wrap := cb_size m\<rparr> else m)"

lemma consumed_ok:
  assumes inv: "cb_inv buf (p # ps)"
  defines "S \<equiv> consumed buf (bdivide_up (length p) 4)"
  shows "cb_shape S \<and> (cb_plain S ps \<or> cb_wrapped S ps)"
    and "\<not> cb_wrap buf - cb_start buf \<le> cb_used buf \<Longrightarrow> ChunkBuffer2_assert_input S"
proof -
  let ?bl = "bdivide_up (length p) 4"
  have sh: "cb_shape buf" and ai: "ChunkBuffer2_assert_input buf" and pw: "cb_plain buf (p # ps) \<or> cb_wrapped buf (p # ps)"
    using inv by (auto simp: cb_inv_def)
  have sh': "cb_start buf < cb_wrap buf" "cb_wrap buf \<le> cb_size buf" "cb_used buf \<le> cb_wrap buf"
    "length (cb_buffer buf) = 4 * cb_size buf" "cb_mtu buf + 1 \<le> cb_size buf"
    "4 * int (cb_size buf) \<le> INT_MAX" "0 < cb_size buf"
    using sh by (auto simp: cb_shape_def ChunkBuffer2_assert_buffer_def)
  note first = cb_first(2) [OF sh pw refl]
  have "cb_shape S \<and> (cb_plain S ps \<or> cb_wrapped S ps)
    \<and> (\<not> cb_wrap buf - cb_start buf \<le> cb_used buf \<longrightarrow> ChunkBuffer2_assert_input S)"
  proof (cases "cb_plain buf (p # ps)")
    case True
    then have u: "cb_start buf + cb_used buf < cb_wrap buf" "cb_wrap buf = cb_size buf"
      by (auto simp: cb_plain_def)
    then have S: "S = buf\<lparr>cb_start := cb_start buf + (1 + ?bl), cb_used := cb_used buf - (1 + ?bl)\<rparr>"
      using first by (auto simp: S_def consumed_def Let_def)
    have "cb_plain S ps"
      using True first by (auto simp: S cb_plain_def cb_lim_def)
    moreover have "ChunkBuffer2_assert_input S"
      by (rule assert_input_moved [OF ai u(1)]) (use first in \<open>simp_all add: S\<close>)
    ultimately show ?thesis
      using u sh' first by (auto simp: S cb_shape_def ChunkBuffer2_assert_buffer_def)
  next
    case False
    then obtain ps1 ps2 where w: "p # ps = ps1 @ ps2"
      "stored (cb_lim buf) (cb_buffer buf) (cb_start buf) ps1 (cb_wrap buf)"
      "stored (cb_lim buf) (cb_buffer buf) 0 ps2 (cb_start buf + cb_used buf - cb_wrap buf)"
      "cb_wrap buf \<le> cb_start buf + cb_used buf" "cb_size buf \<le> cb_wrap buf + cb_mtu buf"
      "cb_start buf + cb_used buf - cb_wrap buf \<le> cb_start buf"
      using pw by (auto simp: cb_wrapped_def)
    then obtain qs where ps1: "ps1 = p # qs" "ps = qs @ ps2"
      using sh'(1) by (cases ps1) auto
    have lim: "cb_start buf \<le> cb_lim buf" using w(2) ps1 by simp
    have st: "stored (cb_lim buf) (cb_buffer buf) (cb_start buf + (1 + ?bl)) qs (cb_wrap buf)"
      using w(2) ps1 by simp
    have notc: "cb_wrap buf - cb_start buf \<le> cb_used buf" using w(4) by linarith
    show ?thesis
    proof (cases "cb_start buf + (1 + ?bl) = cb_wrap buf")
      case wrap: True
      then have S: "S = buf\<lparr>cb_start := 0, cb_used := cb_used buf - (1 + ?bl), cb_wrap := cb_size buf\<rparr>"
        by (simp add: S_def consumed_def Let_def)
      have "qs = []" using st wrap by (cases qs) (auto dest!: stored_le)
      moreover have "cb_used buf - (1 + ?bl) = cb_start buf + cb_used buf - cb_wrap buf"
        using wrap by linarith
      moreover have "cb_lim buf < cb_size buf" using sh' by (simp add: cb_lim_def)
      ultimately have "cb_plain S ps"
        using w lim ps1 by (simp add: S cb_plain_def cb_lim_def)
      then show ?thesis
        using notc sh' by (auto simp: S cb_shape_def ChunkBuffer2_assert_buffer_def)
    next
      case False
      then have S: "S = buf\<lparr>cb_start := cb_start buf + (1 + ?bl), cb_used := cb_used buf - (1 + ?bl)\<rparr>"
        by (simp add: S_def consumed_def Let_def)
      have eq: "cb_start buf + (1 + ?bl) + (cb_used buf - (1 + ?bl)) = cb_start buf + cb_used buf"
        using first by linarith
      have "cb_wrapped S ps"
        unfolding cb_wrapped_def using w st ps1 eq by (auto simp: S cb_lim_def)
      moreover have "cb_start buf + (1 + ?bl) < cb_wrap buf"
        using first False by linarith
      ultimately show ?thesis
        using notc sh' w(4) first by (auto simp: S cb_shape_def ChunkBuffer2_assert_buffer_def)
    qed
  qed
  then show "cb_shape S \<and> (cb_plain S ps \<or> cb_wrapped S ps)"
    "\<not> cb_wrap buf - cb_start buf \<le> cb_used buf \<Longrightarrow> ChunkBuffer2_assert_input S" by blast+
qed

lemma Consume_inv:
  assumes inv: "cb_inv buf (p # ps)"
  shows "\<exists>buf'. ChunkBuffer2_ConsumePacket buf = Some buf' \<and> cb_inv buf' ps
     \<and> cb_mtu buf' = cb_mtu buf \<and> cb_size buf' = cb_size buf
     \<and> same_memory buf' (consumed buf (bdivide_up (length p) 4))"
proof -
  let ?bl = "bdivide_up (length p) 4"
  let ?S = "consumed buf ?bl"
  let ?U = "if cb_used buf \<ge> cb_wrap buf - cb_start buf then ChunkBuffer2_update_input ?S else ?S"
  have sh: "cb_shape buf" and pw: "cb_plain buf (p # ps) \<or> cb_wrapped buf (p # ps)"
    using inv by (auto simp: cb_inv_def)
  note first = cb_first(2) [OF sh pw refl] and con = consumed_ok [OF inv]
  have same: "same_memory ?U ?S" by (simp add: same_memory_def)
  note c = same_memory_cong [OF this]
  have U: "cb_shape ?U" "cb_plain ?U ps \<or> cb_wrapped ?U ps" using con(1) c by blast+
  have "ChunkBuffer2_assert_input ?U" using con(2) assert_update_input by simp
  from finish_output [OF U this] obtain b where b: "ChunkBuffer2_update_output ?U = Some b"
    "cb_inv b ps" "same_memory b ?U" "ChunkBuffer2_assert_io b" by blast
  have od: "cb_output_dest buf \<noteq> None"
    using assert_output_iff [OF sh pw] inv by (auto simp: cb_inv_def output_fields_def)
  have "ChunkBuffer2_assert_buffer ?S" using con(1) by (simp add: cb_shape_def)
  moreover have "1 \<le> cb_wrap buf - cb_start buf" "1 \<le> cb_used buf"
    "?bl \<le> cb_wrap buf - cb_start buf - 1" "?bl \<le> cb_used buf - 1"
    using first by linarith+
  ultimately have "ChunkBuffer2_ConsumePacket buf = do {
      buf \<leftarrow> ChunkBuffer2_update_output ?U; assert_that (ChunkBuffer2_assert_io buf); Some buf }"
    using od inv first sh unfolding ChunkBuffer2_ConsumePacket_def Let_def
    by (simp add: cb_inv_def ChunkBuffer2_assert_io_def cb_shape_def consumed_def Let_def cong: if_cong)
  then have res: "ChunkBuffer2_ConsumePacket buf = Some b" using b(1,4) by simp
  have mem: "same_memory b ?S" by (rule same_memory_trans [OF b(3) same])
  moreover have "cb_mtu ?S = cb_mtu buf" "cb_size ?S = cb_size buf"
    by (simp_all add: consumed_def Let_def)
  ultimately have "cb_mtu b = cb_mtu buf" "cb_size b = cb_size buf"
    unfolding same_memory_def by (metis)+
  then show ?thesis using res b(2) mem by blast
qed

text \<open>Consuming never takes space away from the input.\<close>

lemma Consume_input:
  assumes inv: "cb_inv buf (p # ps)" and c: "ChunkBuffer2_ConsumePacket buf = Some buf'"
    and inv': "cb_inv buf' ps" and d: "cb_input_dest buf \<noteq> None"
  shows "cb_input_dest buf' = cb_input_dest buf \<and> cb_input_avail buf \<le> cb_input_avail buf'"
proof -
  let ?S = "consumed buf (bdivide_up (length p) 4)"
  have sh: "cb_shape buf" "cb_plain buf (p # ps) \<or> cb_wrapped buf (p # ps)"
    using inv by (auto simp: cb_inv_def)
  note first = cb_first(2) [OF sh refl]
  have sw: "cb_start buf < cb_wrap buf" "cb_wrap buf \<le> cb_size buf" "cb_used buf \<le> cb_wrap buf"
    using sh(1) by (auto simp: cb_shape_def ChunkBuffer2_assert_buffer_def)
  have mem: "cb_start buf' = cb_start ?S" "cb_used buf' = cb_used ?S" "cb_wrap buf' = cb_wrap ?S"
    "cb_size buf' = cb_size buf" "cb_mtu buf' = cb_mtu buf"
    using c Consume_inv [OF inv] by (simp_all add: same_memory_def)
  have "ChunkBuffer2_end ?S = ChunkBuffer2_end buf \<and> input_free buf \<le> input_free ?S"
  proof (cases "cb_start buf + (1 + bdivide_up (length p) 4) = cb_wrap buf")
    case True
    moreover have "cb_wrap buf - cb_start buf \<le> cb_used buf" "cb_used buf - (cb_wrap buf - cb_start buf) < cb_size buf"
      using True first sw by linarith+
    ultimately show ?thesis
      using sw first by (auto simp: consumed_def Let_def ChunkBuffer2_end_def input_free_def)
  next
    case False
    then have "cb_wrap buf - (cb_start buf + (1 + bdivide_up (length p) 4))
        \<le> cb_used buf - (1 + bdivide_up (length p) 4) \<longleftrightarrow> cb_wrap buf - cb_start buf \<le> cb_used buf"
      using first by linarith
    with False first show ?thesis
      by (auto simp: consumed_def Let_def ChunkBuffer2_end_def input_free_def)
  qed
  moreover have e: "ChunkBuffer2_end buf' = ChunkBuffer2_end ?S" by (rule end_cong) (rule mem)+
  moreover have "input_free buf' = input_free ?S"
    unfolding input_free_def e mem by (simp add: consumed_def Let_def)
  ultimately have "ChunkBuffer2_end buf' = ChunkBuffer2_end buf" "input_free buf \<le> input_free buf'"
    by simp_all
  moreover have "ChunkBuffer2_assert_input buf" "ChunkBuffer2_assert_input buf'"
    using inv inv' by (simp_all add: cb_inv_def)
  ultimately show ?thesis
    using d mem by (auto simp: ChunkBuffer2_assert_input_def split: if_splits)
qed

section \<open>Initialisation and capacity\<close>

lemma Init_inv:
  assumes "length buffer = 4 * blocks" "4 * int blocks \<le> INT_MAX" "bdivide_up mtu 4 + 1 \<le> blocks"
  shows "\<exists>buf. ChunkBuffer2_Init buffer blocks mtu = Some buf \<and> cb_inv buf []
     \<and> cb_mtu buf = bdivide_up mtu 4 \<and> cb_size buf = blocks"
proof -
  let ?b = "\<lparr> cb_buffer = buffer, cb_size = blocks, cb_wrap = blocks, cb_start = 0, cb_used = 0,
     cb_mtu = bdivide_up mtu 4, cb_input_dest = None, cb_input_avail = -1,
     cb_output_dest = None, cb_output_avail = -1 \<rparr>"
  let ?U = "ChunkBuffer2_update_input ?b"
  have b: "cb_shape ?b" "cb_plain ?b []"
    using assms by (auto simp: cb_shape_def ChunkBuffer2_assert_buffer_def cb_plain_def cb_lim_def)
  have "same_memory ?U ?b" by (simp add: same_memory_def)
  note c = same_memory_cong [OF this]
  have "cb_shape ?U" "cb_plain ?U [] \<or> cb_wrapped ?U []" using b c by blast+
  from finish_output [OF this assert_update_input] obtain buf where
    buf: "ChunkBuffer2_update_output ?U = Some buf" "cb_inv buf []" "same_memory buf ?U"
    "ChunkBuffer2_assert_io buf" by blast
  then show ?thesis
    using b(1) assms(3) by (auto simp: ChunkBuffer2_Init_def Let_def cb_shape_def same_memory_def)
qed

text \<open>A packet of the MTU fits whenever the contents are plain, or fewer than \<open>n\<close> packets are stored.\<close>

lemma cb_room:
  assumes inv: "cb_inv buf ps" and mtu: "cb_mtu buf = bdivide_up mtu 4"
    and room: "cb_plain buf ps \<or> (cb_size buf = (1 + cb_mtu buf) * (n + 1) \<and> length ps < n
       \<and> (\<forall>p \<in> set ps. length p \<le> mtu))"
  shows "int mtu \<le> cb_input_avail buf"
proof -
  let ?m = "cb_mtu buf"
  have sh: "cb_start buf < cb_wrap buf" "cb_wrap buf \<le> cb_size buf" "?m + 1 \<le> cb_size buf"
    and ai: "ChunkBuffer2_assert_input buf"
    using inv by (auto simp: cb_inv_def cb_shape_def ChunkBuffer2_assert_buffer_def)
  have "int (ChunkBuffer2_end buf) \<le> int (cb_size buf) - 1 - int ?m \<and> int ?m + 1 \<le> input_free buf"
  proof (cases "cb_plain buf ps")
    case True
    then have "cb_start buf + cb_used buf < cb_wrap buf" "cb_wrap buf = cb_size buf"
      "cb_start buf + cb_used buf \<le> cb_lim buf" by (auto simp: cb_plain_def)
    moreover from this have "\<not> cb_wrap buf - cb_start buf \<le> cb_used buf" by linarith
    moreover from calculation have
      "int (cb_start buf) + int (cb_used buf) + 1 + int ?m \<le> int (cb_size buf)"
      using sh(3) by (simp add: cb_lim_def)
    ultimately show ?thesis
      using end_plain [of buf] by (simp add: input_free_def)
  next
    case False
    then have wr: "cb_wrapped buf ps" using inv by (simp add: cb_inv_def)
    let ?en = "cb_start buf + cb_used buf - cb_wrap buf"
    obtain ps1 ps2 where w: "ps = ps1 @ ps2"
      "stored (cb_lim buf) (cb_buffer buf) (cb_start buf) ps1 (cb_wrap buf)"
      "stored (cb_lim buf) (cb_buffer buf) 0 ps2 ?en"
      "cb_wrap buf \<le> cb_start buf + cb_used buf" "cb_size buf \<le> cb_wrap buf + ?m" "?en \<le> cb_start buf"
      using wr by (auto simp: cb_wrapped_def)
    have lim: "cb_start buf \<le> cb_lim buf" using w(2) sh(1) by (cases ps1) auto
    have en: "ChunkBuffer2_end buf = ?en" by (rule end_wrapped) (use w sh in simp_all)
    have n: "cb_size buf = (1 + ?m) * (n + 1)" "length ps < n" "\<forall>p \<in> set ps. bdivide_up (length p) 4 \<le> ?m"
      using room False by (auto simp: mtu bdivide_up_mono)
    have "cb_wrap buf \<le> cb_start buf + length ps1 * (1 + ?m)" "?en \<le> 0 + length ps2 * (1 + ?m)"
      by (rule stored_blocks [OF w(2)] stored_blocks [OF w(3)]; use n(3) w(1) in simp)+
    then have "cb_used buf \<le> length ps * (1 + ?m)"
      using w(1,4) by (simp add: add_mult_distrib)
    moreover have "length ps * (1 + ?m) \<le> (n - 1) * (1 + ?m)"
      by (rule mult_le_mono1) (use n(2) in simp)
    moreover have "(n - 1) * (1 + ?m) + 2 * (1 + ?m) = cb_size buf"
      unfolding n(1) add_mult_distrib [symmetric] using n(2) by simp
    ultimately have "cb_used buf + 2 * (1 + ?m) \<le> cb_wrap buf + ?m" using w(5) by linarith
    moreover have "cb_wrap buf - cb_start buf \<le> cb_used buf" using w(4) by linarith
    ultimately show ?thesis
      using lim sh w(4,6) by (simp add: en input_free_def cb_lim_def)
  qed
  then show ?thesis
    using ai mtu bdivide_up_ge [of mtu] by (auto simp: ChunkBuffer2_assert_input_def split: if_splits)
qed

lemma ChunkBuffer2_calc_blocks_eq:
  assumes "0 \<le> chunk_len" "chunk_len \<le> INT_MAX" "0 \<le> num" "num \<le> INT_MAX"
  shows "ChunkBuffer2_calc_blocks chunk_len num =
     (let blocks = (1 + int (bdivide_up (nat chunk_len) 4)) * (num + 1)
      in if blocks \<le> INT_MAX then blocks else -1)"
proof -
  let ?c = "int (bdivide_up (nat chunk_len) 4)"
  have c: "?c \<le> INT_MAX - 1"
    using assms(1,2) bdivide_up_le [of "nat chunk_len" "nat (INT_MAX - 1)"] by (simp add: INT_MAX_def)
  have le: "1 + ?c \<le> INT_MAX div (num + 1) \<longleftrightarrow> (1 + ?c) * (num + 1) \<le> INT_MAX"
  proof
    assume "1 + ?c \<le> INT_MAX div (num + 1)"
    then have "(1 + ?c) * (num + 1) \<le> INT_MAX div (num + 1) * (num + 1)"
      using assms(3) by (intro mult_right_mono) simp_all
    also have "\<dots> \<le> INT_MAX"
      using assms(3) div_mult_mod_eq [of INT_MAX "num + 1"] pos_mod_sign [of "num + 1" INT_MAX] by linarith
    finally show "(1 + ?c) * (num + 1) \<le> INT_MAX" .
  next
    assume "(1 + ?c) * (num + 1) \<le> INT_MAX"
    then have "(1 + ?c) * (num + 1) div (num + 1) \<le> INT_MAX div (num + 1)"
      using assms(3) by (intro zdiv_mono1) simp_all
    then show "1 + ?c \<le> INT_MAX div (num + 1)" using assms(3) by simp
  qed
  show ?thesis
  proof (cases "num = INT_MAX")
    case True
    have "INT_MAX < (1 + ?c) * (INT_MAX + 1)" by (simp add: INT_MAX_def)
    with True show ?thesis by (simp add: ChunkBuffer2_calc_blocks_def Let_def)
  next
    case False
    then show ?thesis
      using c le assms(4) by (auto simp: ChunkBuffer2_calc_blocks_def Let_def)
  qed
qed

text \<open>
  The number of blocks computed for a buffer of \<open>num\<close> packets of at most \<open>chunk_len\<close> bytes is
  exactly \<open>(1 + chunk_len / 4 rounded up) * (num + 1)\<close> when that product is an \<open>int\<close>, and the
  failure value \<open>-1\<close> otherwise; no intermediate value overflows.
\<close>

lemma ChunkBuffer2_calc_blocks_correct:
  assumes "0 \<le> chunk_len" "chunk_len \<le> INT_MAX" "0 \<le> num" "num \<le> INT_MAX"
  shows "ChunkBuffer2_calc_blocks chunk_len num =
     (let blocks = (1 + int (bdivide_up (nat chunk_len) 4)) * (num + 1)
      in if blocks \<le> INT_MAX then blocks else -1)"
  by (rule ChunkBuffer2_calc_blocks_eq [OF assms])

end
