(* ===== verification/PacketBuffer.thy ===== *)
theory PacketBuffer
  imports ChunkBufferFifo
begin

text \<open>
  \<open>flow/PacketBuffer.c\<close>, \<open>flow/SinglePacketBuffer.c\<close> and \<open>flow/BufferWriter.c\<close>: the buffers
  between a packet source and a packet sink. \<open>packet_queue\<close> is the interface of a bounded
  queue of packets; \<open>ChunkBuffer2\<close> provides it and the packet buffer is its client.
\<close>

section \<open>The queue interface\<close>

datatype queue_op = Put "byte list" | Get

text \<open>
  A run of operations: a packet is put when the space allows it, otherwise it is refused; a get on
  an empty queue does nothing. The result has the packets accepted and the packets taken out.
\<close>

fun queue_run ::
  "(byte list \<Rightarrow> 'q \<Rightarrow> 'q option) \<Rightarrow> ('q \<Rightarrow> 'q option) \<Rightarrow> ('q \<Rightarrow> int) \<Rightarrow> ('q \<Rightarrow> byte list option) \<Rightarrow>
   queue_op list \<Rightarrow> 'q \<Rightarrow> ('q \<times> byte list list \<times> byte list list) option" where
  "queue_run put get room front [] q = Some (q, [], [])"
| "queue_run put get room front (Put p # ops) q =
     (if int (length p) \<le> room q
      then do { q \<leftarrow> put p q; (q, ins, outs) \<leftarrow> queue_run put get room front ops q;
                Some (q, p # ins, outs) }
      else queue_run put get room front ops q)"
| "queue_run put get room front (Get # ops) q =
     (case front q of
        None \<Rightarrow> queue_run put get room front ops q
      | Some p \<Rightarrow> do { q \<leftarrow> get q; (q, ins, outs) \<leftarrow> queue_run put get room front ops q;
                      Some (q, ins, p # outs) })"

locale packet_queue =
  fixes put :: "byte list \<Rightarrow> 'q \<Rightarrow> 'q option" and get :: "'q \<Rightarrow> 'q option"
    and room :: "'q \<Rightarrow> int" and front :: "'q \<Rightarrow> byte list option"
    and inv :: "'q \<Rightarrow> byte list list \<Rightarrow> bool"
  assumes put_ok: "inv q ps \<Longrightarrow> int (length p) \<le> room q \<Longrightarrow> \<exists>q'. put p q = Some q' \<and> inv q' (ps @ [p])"
    and get_ok: "inv q (p # ps) \<Longrightarrow> \<exists>q'. get q = Some q' \<and> inv q' ps"
    and front_ok: "inv q ps \<Longrightarrow> front q = (case ps of [] \<Rightarrow> None | p # _ \<Rightarrow> Some p)"
begin

lemma run_fifo:
  "inv q ps \<Longrightarrow> \<exists>q' ins outs ps'. queue_run put get room front ops q = Some (q', ins, outs)
     \<and> inv q' ps' \<and> ps @ ins = outs @ ps'"
proof (induction ops arbitrary: q ps)
  case Nil
  then show ?case by auto
next
  case (Cons op ops)
  show ?case
  proof (cases op)
    case (Put p)
    show ?thesis
    proof (cases "int (length p) \<le> room q")
      case True
      with put_ok [OF Cons.prems] obtain q1 where "put p q = Some q1" "inv q1 (ps @ [p])" by blast
      with Cons.IH [OF this(2)] True Put show ?thesis by fastforce
    qed (use Cons.IH [OF Cons.prems] Put in simp)
  next
    case Get
    show ?thesis
    proof (cases ps)
      case Nil
      with Cons.IH [OF Cons.prems] front_ok [OF Cons.prems] Get show ?thesis by simp
    next
      case (Cons p qs)
      with get_ok [of q p qs] Cons.prems obtain q1 where "get q = Some q1" "inv q1 qs" by blast
      with Cons.IH [OF this(2)] front_ok [OF Cons.prems] Get Cons show ?thesis by fastforce
    qed
  qed
qed

end

definition cb_put :: "byte list \<Rightarrow> ChunkBuffer2 \<Rightarrow> ChunkBuffer2 option" where
  "cb_put p buf = ChunkBuffer2_SubmitPacket (length p) (cb_write_input p buf)"

definition cb_front :: "ChunkBuffer2 \<Rightarrow> byte list option" where
  "cb_front buf = (case cb_output_dest buf of None \<Rightarrow> None
     | Some d \<Rightarrow> Some (seg (cb_buffer buf) d (nat (cb_output_avail buf))))"

lemma room_dest: "cb_inv buf ps \<Longrightarrow> 0 \<le> cb_input_avail buf \<Longrightarrow> cb_input_dest buf \<noteq> None"
  by (auto simp: cb_inv_def ChunkBuffer2_assert_input_def split: if_splits)

lemma cb_inv_output:
  assumes "cb_inv buf ps"
  shows "(cb_output_dest buf, cb_output_avail buf) = output_fields buf ps"
proof -
  have *: "cb_shape buf" "cb_plain buf ps \<or> cb_wrapped buf ps" "ChunkBuffer2_assert_output buf"
    using assms by (auto simp: cb_inv_def)
  show ?thesis using assert_output_iff [OF *(1,2)] *(3) by blast
qed

lemma cb_inv_front: "cb_inv buf ps \<Longrightarrow> cb_front buf = (case ps of [] \<Rightarrow> None | p # _ \<Rightarrow> Some p)"
proof (cases ps)
  case Nil
  then show "cb_inv buf ps \<Longrightarrow> ?thesis"
    using cb_inv_output [of buf ps] by (simp add: cb_front_def output_fields_def)
next
  case (Cons p qs)
  assume inv: "cb_inv buf ps"
  then have "cb_shape buf" "cb_plain buf ps \<or> cb_wrapped buf ps" by (auto simp: cb_inv_def)
  from cb_first(2) [OF this Cons] cb_inv_output [OF inv] Cons show ?thesis
    by (simp add: cb_front_def output_fields_def add.commute)
qed

interpretation cbq: packet_queue cb_put ChunkBuffer2_ConsumePacket cb_input_avail cb_front cb_inv
proof unfold_locales
  fix q ps and p :: "byte list"
  assume inv: "cb_inv q ps" and room: "int (length p) \<le> cb_input_avail q"
  then have "cb_input_dest q \<noteq> None" using room_dest by fastforce
  from Submit_inv [OF inv this room]
  show "\<exists>q'. cb_put p q = Some q' \<and> cb_inv q' (ps @ [p])" by (auto simp: cb_put_def)
next
  fix q p and ps :: "byte list list"
  assume "cb_inv q (p # ps)"
  from Consume_inv [OF this] show "\<exists>q'. ChunkBuffer2_ConsumePacket q = Some q' \<and> cb_inv q' ps" by blast
next
  fix q ps
  assume "cb_inv q ps"
  then show "cb_front q = (case ps of [] \<Rightarrow> None | p # _ \<Rightarrow> Some p)" by (rule cb_inv_front)
qed

text \<open>
  C8. Whatever sequence of packets is put into a circular buffer (each no longer than the space
  it announces) and taken out, no assertion of \<open>ChunkBuffer2.h\<close> fails, and the packets come out
  unchanged and in the order they went in.
\<close>

theorem ChunkBuffer2_fifo:
  assumes "length memory = 4 * blocks" "4 * int blocks \<le> INT_MAX" "bdivide_up mtu 4 + 1 \<le> blocks"
  shows "\<exists>buf buf' ins outs rest. ChunkBuffer2_Init memory blocks mtu = Some buf
     \<and> queue_run cb_put ChunkBuffer2_ConsumePacket cb_input_avail cb_front ops buf = Some (buf', ins, outs)
     \<and> ins = outs @ rest \<and> cb_front buf' = (case rest of [] \<Rightarrow> None | p # _ \<Rightarrow> Some p)"
proof -
  obtain buf where buf: "ChunkBuffer2_Init memory blocks mtu = Some buf" "cb_inv buf []"
    using Init_inv [OF assms] by blast
  from cbq.run_fifo [OF buf(2), of ops] cbq.front_ok buf(1) show ?thesis by fastforce
qed

theorem ChunkBuffer2_fifo_witness:
  "\<exists>buf. ChunkBuffer2_Init (replicate 12 0) 3 4 = Some buf
     \<and> (\<exists>buf' ins outs rest. queue_run cb_put ChunkBuffer2_ConsumePacket cb_input_avail cb_front
          [Put [1, 2], Get, Put [3]] buf = Some (buf', ins, outs) \<and> ins = outs @ rest)"
proof -
  have "length (replicate 12 (0 :: byte)) = 4 * 3" "4 * int 3 \<le> INT_MAX" "bdivide_up 4 4 + 1 \<le> 3"
    by (simp_all add: INT_MAX_def bdivide_up_def)
  from ChunkBuffer2_fifo [OF this, of "[Put [1, 2], Get, Put [3]]"] show ?thesis by blast
qed

section \<open>PacketBuffer\<close>

record PacketBuffer =
  pb_input_mtu :: nat
  pb_buf :: ChunkBuffer2

datatype pb_act = PB_Receiver_Recv "nat option" | PB_Sender_Send "nat option" int

definition pb_input_handler_done :: "nat \<Rightarrow> PacketBuffer \<Rightarrow> (PacketBuffer \<times> pb_act list) option" where
  "pb_input_handler_done in_len buf = do {
     assert_that (in_len \<le> pb_input_mtu buf);
     let was_empty = (cb_output_avail (pb_buf buf) < 0);
     b \<leftarrow> ChunkBuffer2_SubmitPacket in_len (pb_buf buf);
     Some (buf\<lparr>pb_buf := b\<rparr>,
       (if cb_input_avail b \<ge> int (pb_input_mtu buf) then [PB_Receiver_Recv (cb_input_dest b)] else [])
       @ (if was_empty then [PB_Sender_Send (cb_output_dest b) (cb_output_avail b)] else []))
   }"

definition pb_output_handler_done :: "PacketBuffer \<Rightarrow> (PacketBuffer \<times> pb_act list) option" where
  "pb_output_handler_done buf = do {
     let was_full = (cb_input_avail (pb_buf buf) < int (pb_input_mtu buf));
     b \<leftarrow> ChunkBuffer2_ConsumePacket (pb_buf buf);
     Some (buf\<lparr>pb_buf := b\<rparr>,
       (if was_full \<and> cb_input_avail b \<ge> int (pb_input_mtu buf)
        then [PB_Receiver_Recv (cb_input_dest b)] else [])
       @ (if cb_output_avail b \<ge> 0 then [PB_Sender_Send (cb_output_dest b) (cb_output_avail b)] else []))
   }"

text \<open>\<open>malloc\<close> may fail (\<open>None\<close>); the inner option of the result is the return value of the function.\<close>

definition PacketBuffer_Init ::
  "nat \<Rightarrow> nat \<Rightarrow> nat \<Rightarrow> (nat \<Rightarrow> byte list option) \<Rightarrow> (PacketBuffer \<times> pb_act list) option option" where
  "PacketBuffer_Init input_mtu output_mtu num_packets malloc = do {
     assert_that (output_mtu \<ge> input_mtu);
     assert_that (num_packets > 0);
     let num_blocks = ChunkBuffer2_calc_blocks (int input_mtu) (int num_packets);
     (if num_blocks < 0 then Some None
      else case malloc (nat num_blocks * 4) of
          None \<Rightarrow> Some None
        | Some mem \<Rightarrow> do {
            b \<leftarrow> ChunkBuffer2_Init mem (nat num_blocks) input_mtu;
            Some (Some (\<lparr> pb_input_mtu = input_mtu, pb_buf = b \<rparr>,
                        [PB_Receiver_Recv (cb_input_dest b)]))
          })
   }"

section \<open>SinglePacketBuffer and BufferWriter\<close>

record SinglePacketBuffer = spb_buf :: "byte list"

datatype spb_act = SPB_Receiver_Recv | SPB_Sender_Send nat

definition SinglePacketBuffer_Init ::
  "nat \<Rightarrow> nat \<Rightarrow> (nat \<Rightarrow> byte list option) \<Rightarrow> (SinglePacketBuffer \<times> spb_act) option option" where
  "SinglePacketBuffer_Init input_mtu output_mtu malloc = do {
     assert_that (output_mtu \<ge> input_mtu);
     (case malloc input_mtu of
        None \<Rightarrow> Some None
      | Some mem \<Rightarrow> Some (Some (\<lparr> spb_buf = mem \<rparr>, SPB_Receiver_Recv)))
   }"

definition spb_input_handler_done :: "nat \<Rightarrow> SinglePacketBuffer \<Rightarrow> spb_act" where
  "spb_input_handler_done in_len _ = SPB_Sender_Send in_len"

definition spb_output_handler_done :: "SinglePacketBuffer \<Rightarrow> spb_act" where
  "spb_output_handler_done _ = SPB_Receiver_Recv"

text \<open>\<open>bw_out\<close> is the receiver's buffer; the \<open>d_\<close> fields are those of the debug build.\<close>

record BufferWriter =
  bw_out_have :: bool
  bw_out :: "byte list"
  bw_d_mtu :: nat
  bw_d_writing :: bool

definition BufferWriter_Init :: "nat \<Rightarrow> BufferWriter" where
  "BufferWriter_Init mtu = \<lparr> bw_out_have = False, bw_out = [], bw_d_mtu = mtu, bw_d_writing = False \<rparr>"

definition bw_output_handler_recv :: "byte list \<Rightarrow> BufferWriter \<Rightarrow> BufferWriter option" where
  "bw_output_handler_recv data o' = do {
     assert_that (\<not> bw_out_have o');
     Some (o'\<lparr>bw_out_have := True, bw_out := data\<rparr>)
   }"

definition BufferWriter_StartPacket :: "BufferWriter \<Rightarrow> (BufferWriter \<times> byte list option) option" where
  "BufferWriter_StartPacket o' = do {
     assert_that (\<not> bw_d_writing o');
     (if \<not> bw_out_have o' then Some (o', None)
      else Some (o'\<lparr>bw_d_writing := True\<rparr>, Some (bw_out o')))
   }"

definition BufferWriter_EndPacket :: "nat \<Rightarrow> BufferWriter \<Rightarrow> (BufferWriter \<times> nat) option" where
  "BufferWriter_EndPacket len o' = do {
     assert_that (len \<le> bw_d_mtu o');
     assert_that (bw_out_have o');
     assert_that (bw_d_writing o');
     Some (o'\<lparr>bw_out_have := False, bw_d_writing := False\<rparr>, len)
   }"

end
