(* ===== verification/PacketBufferProps.thy ===== *)
theory PacketBufferProps
  imports PacketBuffer
begin

text \<open>
  The packet buffer between its input and its output. The environment completes the receive or
  the send in progress, in any order; \<open>pbs_ins\<close> and \<open>pbs_outs\<close> are the packets the input has
  delivered and the output has taken, the latter read from the buffer memory when the output
  reports completion.
\<close>

record pb_sys =
  pbs_buf :: PacketBuffer
  pbs_recv :: "nat option option"
  pbs_send :: "(nat option \<times> int) option"
  pbs_ins :: "byte list list"
  pbs_outs :: "byte list list"

datatype pb_event = In_done "byte list" | Out_done

text \<open>The calls on the interfaces: a second receive or send while one is in progress is an error.\<close>

fun pb_do :: "pb_act list \<Rightarrow> pb_sys \<Rightarrow> pb_sys option" where
  "pb_do [] s = Some s"
| "pb_do (PB_Receiver_Recv d # acts) s = do {
     assert_that (pbs_recv s = None); assert_that (d \<noteq> None);
     pb_do acts (s\<lparr>pbs_recv := Some d\<rparr>) }"
| "pb_do (PB_Sender_Send d n # acts) s = do {
     assert_that (pbs_send s = None); assert_that (d \<noteq> None); assert_that (0 \<le> n);
     pb_do acts (s\<lparr>pbs_send := Some (d, n)\<rparr>) }"

fun pb_enabled :: "pb_event \<Rightarrow> pb_sys \<Rightarrow> bool" where
  "pb_enabled (In_done p) s \<longleftrightarrow> pbs_recv s \<noteq> None \<and> length p \<le> pb_input_mtu (pbs_buf s)"
| "pb_enabled Out_done s \<longleftrightarrow> pbs_send s \<noteq> None"

definition write_dest :: "nat option \<Rightarrow> byte list \<Rightarrow> ChunkBuffer2 \<Rightarrow> ChunkBuffer2" where
  "write_dest d p buf = (case d of None \<Rightarrow> buf | Some a \<Rightarrow> buf\<lparr>cb_buffer := write_at (cb_buffer buf) a p\<rparr>)"

definition read_send :: "nat option \<times> int \<Rightarrow> ChunkBuffer2 \<Rightarrow> byte list" where
  "read_send = (\<lambda>(d, n) buf. case d of None \<Rightarrow> [] | Some a \<Rightarrow> seg (cb_buffer buf) a (nat n))"

fun pb_step :: "pb_event \<Rightarrow> pb_sys \<Rightarrow> pb_sys option" where
  "pb_step (In_done p) s = do {
     d \<leftarrow> pbs_recv s;
     (b, acts) \<leftarrow> pb_input_handler_done (length p)
        ((pbs_buf s)\<lparr>pb_buf := write_dest d p (pb_buf (pbs_buf s))\<rparr>);
     pb_do acts (s\<lparr>pbs_buf := b, pbs_recv := None, pbs_ins := pbs_ins s @ [p]\<rparr>) }"
| "pb_step Out_done s = do {
     x \<leftarrow> pbs_send s;
     (b, acts) \<leftarrow> pb_output_handler_done (pbs_buf s);
     pb_do acts (s\<lparr>pbs_buf := b, pbs_send := None,
       pbs_outs := pbs_outs s @ [read_send x (pb_buf (pbs_buf s))]\<rparr>) }"

inductive pb_reachable :: "nat \<Rightarrow> nat \<Rightarrow> pb_sys option \<Rightarrow> bool" for mtu num where
  init: "PacketBuffer_Init mtu output_mtu num (\<lambda>n. Some mem) = Some (Some (b, acts)) \<Longrightarrow>
     length mem = nat (ChunkBuffer2_calc_blocks (int mtu) (int num) * 4) \<Longrightarrow>
     pb_reachable mtu num (pb_do acts \<lparr> pbs_buf = b, pbs_recv = None, pbs_send = None,
       pbs_ins = [], pbs_outs = [] \<rparr>)"
| step: "pb_reachable mtu num (Some s) \<Longrightarrow> pb_enabled e s \<Longrightarrow> pb_reachable mtu num (pb_step e s)"

definition pb_inv :: "nat \<Rightarrow> nat \<Rightarrow> pb_sys \<Rightarrow> bool" where
  "pb_inv mtu num s \<longleftrightarrow> (let buf = pb_buf (pbs_buf s) in \<exists>ps. cb_inv buf ps
     \<and> pb_input_mtu (pbs_buf s) = mtu \<and> cb_mtu buf = bdivide_up mtu 4
     \<and> cb_size buf = (1 + cb_mtu buf) * (num + 1)
     \<and> (\<forall>p \<in> set ps. length p \<le> mtu) \<and> pbs_ins s = pbs_outs s @ ps
     \<and> pbs_recv s = (if int mtu \<le> cb_input_avail buf then Some (cb_input_dest buf) else None)
     \<and> pbs_send s = (if ps = [] then None else Some (cb_output_dest buf, cb_output_avail buf)))"

lemma pb_invI:
  assumes "cb_inv (pb_buf (pbs_buf s)) ps" "pb_input_mtu (pbs_buf s) = mtu"
    "cb_mtu (pb_buf (pbs_buf s)) = bdivide_up mtu 4"
    "cb_size (pb_buf (pbs_buf s)) = (1 + bdivide_up mtu 4) * (num + 1)"
    "\<forall>p \<in> set ps. length p \<le> mtu" "pbs_ins s = pbs_outs s @ ps"
    "pbs_recv s = (if int mtu \<le> cb_input_avail (pb_buf (pbs_buf s))
       then Some (cb_input_dest (pb_buf (pbs_buf s))) else None)"
    "pbs_send s = (if ps = [] then None
       else Some (cb_output_dest (pb_buf (pbs_buf s)), cb_output_avail (pb_buf (pbs_buf s))))"
  shows "pb_inv mtu num s"
  unfolding pb_inv_def Let_def using assms by (intro exI [of _ ps]) simp

lemma pb_init_inv:
  assumes "PacketBuffer_Init mtu output_mtu num (\<lambda>n. Some mem) = Some (Some (b, acts))"
    and mem: "length mem = nat (ChunkBuffer2_calc_blocks (int mtu) (int num) * 4)"
    and bytes: "4 * (1 + int (bdivide_up mtu 4)) * (int num + 1) \<le> INT_MAX"
  shows "\<exists>s. pb_do acts \<lparr> pbs_buf = b, pbs_recv = None, pbs_send = None, pbs_ins = [], pbs_outs = [] \<rparr> = Some s
     \<and> pb_inv mtu num s"
proof -
  define n where "n = (1 + bdivide_up mtu 4) * (num + 1)"
  have small: "int mtu \<le> INT_MAX" "int num \<le> INT_MAX" "4 * int n \<le> INT_MAX"
  proof -
    show n: "4 * int n \<le> INT_MAX" using bytes by (simp add: n_def algebra_simps)
    have "num + 1 \<le> n" "1 + bdivide_up mtu 4 \<le> n" by (simp_all add: n_def)
    then show "int mtu \<le> INT_MAX" "int num \<le> INT_MAX"
      using n bdivide_up_ge [of mtu] by linarith+
  qed
  have calc: "ChunkBuffer2_calc_blocks (int mtu) (int num) = int n"
    using ChunkBuffer2_calc_blocks_eq [of "int mtu" "int num"] small by (simp add: Let_def n_def algebra_simps)
  have "length mem = 4 * n"
    using mem unfolding calc by (metis mult.commute nat_int of_nat_mult of_nat_numeral)
  then have "\<exists>buf. ChunkBuffer2_Init mem n mtu = Some buf \<and> cb_inv buf []
     \<and> cb_mtu buf = bdivide_up mtu 4 \<and> cb_size buf = n"
    by (rule Init_inv) (use small in \<open>simp_all add: n_def\<close>)
  then obtain buf where buf: "ChunkBuffer2_Init mem n mtu = Some buf" "cb_inv buf []"
    "cb_mtu buf = bdivide_up mtu 4" "cb_size buf = n" by blast
  have "num > 0" using assms(1) by (auto simp: PacketBuffer_Init_def bind_Some)
  then have room: "int mtu \<le> cb_input_avail buf"
    using cb_room [OF buf(2,3), of num] buf(3,4) by (simp add: n_def)
  then have dest: "cb_input_dest buf \<noteq> None" using room_dest [OF buf(2)] by simp
  have "b = \<lparr> pb_input_mtu = mtu, pb_buf = buf \<rparr>" "acts = [PB_Receiver_Recv (cb_input_dest buf)]"
    using assms(1) buf(1) calc by (auto simp: PacketBuffer_Init_def bind_Some Let_def split: if_splits)
  then show ?thesis
    using buf room dest by (auto simp: n_def intro!: pb_invI [of _ "[]"])
qed

lemma pb_step_inv:
  assumes inv: "pb_inv mtu num s" and en: "pb_enabled e s"
  shows "\<exists>s'. pb_step e s = Some s' \<and> pb_inv mtu num s'"
proof -
  let ?b = "pbs_buf s" and ?c = "pb_buf (pbs_buf s)"
  obtain ps where i: "cb_inv ?c ps" "pb_input_mtu ?b = mtu" "cb_mtu ?c = bdivide_up mtu 4"
    "cb_size ?c = (1 + bdivide_up mtu 4) * (num + 1)" "\<forall>p \<in> set ps. length p \<le> mtu" "pbs_ins s = pbs_outs s @ ps"
    "pbs_recv s = (if int mtu \<le> cb_input_avail ?c then Some (cb_input_dest ?c) else None)"
    "pbs_send s = (if ps = [] then None else Some (cb_output_dest ?c, cb_output_avail ?c))"
    using inv by (auto simp: pb_inv_def Let_def)
  have dest: "cb_input_dest b \<noteq> None" if "cb_inv b qs" "int mtu \<le> cb_input_avail b" for b qs
    using room_dest [OF that(1)] that(2) by simp
  show ?thesis
  proof (cases e)
    case (In_done p)
    then have p: "int mtu \<le> cb_input_avail ?c" "length p \<le> mtu"
      using en i(2,7) by (auto split: if_splits)
    have w: "write_dest (cb_input_dest ?c) p ?c = cb_write_input p ?c"
      by (simp add: write_dest_def cb_write_input_def)
    have "int (length p) \<le> cb_input_avail ?c" using p by simp
    from Submit_inv [OF i(1) dest [OF i(1) p(1)] this] obtain b where b:
      "ChunkBuffer2_SubmitPacket (length p) (cb_write_input p ?c) = Some b" "cb_inv b (ps @ [p])"
      "cb_mtu b = cb_mtu ?c" "cb_size b = cb_size ?c" by blast
    have empty: "cb_output_avail ?c < 0 \<longleftrightarrow> ps = []"
      using cb_inv_output [OF i(1)] by (auto simp: output_fields_def split: list.splits)
    have ne: "ps \<noteq> [] \<Longrightarrow> cb_output_dest b = cb_output_dest ?c \<and> cb_output_avail b = cb_output_avail ?c"
      using Submit_output [OF i(1) b(1)] by blast
    obtain d' where o': "cb_output_dest b = Some d'" "0 \<le> cb_output_avail b"
      using cb_inv_output [OF b(2)] by (cases ps) (auto simp: output_fields_def)
    show ?thesis
      using In_done p i b empty ne o' dest [OF b(2)]
      by (auto simp: pb_input_handler_done_def w intro!: pb_invI [of _ "ps @ [p]"])
  next
    case Out_done
    then have "ps \<noteq> []" using en i(8) by auto
    then obtain p qs where ps: "ps = p # qs" by (cases ps) auto
    from Consume_inv [OF i(1) [unfolded ps]] obtain b where b: "ChunkBuffer2_ConsumePacket ?c = Some b"
      "cb_inv b qs" "cb_mtu b = cb_mtu ?c" "cb_size b = cb_size ?c" by blast
    have keep: "cb_input_dest b = cb_input_dest ?c \<and> int mtu \<le> cb_input_avail b" if "int mtu \<le> cb_input_avail ?c"
      using Consume_input [OF i(1) [unfolded ps] b(1,2) dest [OF i(1) that]] that by simp
    have rd: "read_send (cb_output_dest ?c, cb_output_avail ?c) ?c = p"
      using cb_inv_front [OF i(1)] ps by (auto simp: read_send_def cb_front_def split: option.splits)
    have out: "0 \<le> cb_output_avail b \<longleftrightarrow> qs \<noteq> []" "qs \<noteq> [] \<Longrightarrow> cb_output_dest b \<noteq> None"
      using cb_inv_output [OF b(2)] by (auto simp: output_fields_def split: list.splits)
    show ?thesis
      using Out_done i b keep rd out dest [OF b(2)] ps
      by (auto simp: pb_output_handler_done_def Let_def intro!: pb_invI [of _ qs])
  qed
qed

lemma pb_reachable_inv:
  assumes "pb_reachable mtu num r" "4 * (1 + int (bdivide_up mtu 4)) * (int num + 1) \<le> INT_MAX"
  shows "\<exists>s. r = Some s \<and> pb_inv mtu num s"
  using assms(1)
proof (induction rule: pb_reachable.induct)
  case (init output_mtu mem b acts)
  then show ?case using pb_init_inv assms(2) by blast
next
  case (step s e)
  then show ?case using pb_step_inv by blast
qed

text \<open>
  C9. A packet buffer between any input and any output never fails an assertion (its own, those of
  the circular buffer, those of the two interfaces: no second receive or send while one is in
  progress), and the packets reach the output unchanged and in the order the input delivered them.
  The bound says that the size of the memory in bytes is an \<open>int\<close>.
\<close>

theorem PacketBuffer_fifo:
  assumes "pb_reachable mtu num r" "4 * (1 + int (bdivide_up mtu 4)) * (int num + 1) \<le> INT_MAX"
  shows "\<exists>s rest. r = Some s \<and> pbs_ins s = pbs_outs s @ rest \<and> (pbs_send s = None \<longleftrightarrow> rest = [])"
  using pb_reachable_inv [OF assms] by (auto simp: pb_inv_def Let_def)

text \<open>
  A packet buffer created for \<open>num\<close> packets really holds that many: as long as fewer than \<open>num\<close>
  packets are waiting, whatever their lengths and however the memory has wrapped, a receive is in
  progress; in particular an empty buffer never stops receiving.
\<close>

lemma PacketBuffer_capacity:
  assumes "pb_reachable mtu num (Some s)" "4 * (1 + int (bdivide_up mtu 4)) * (int num + 1) \<le> INT_MAX"
    and "length (pbs_ins s) - length (pbs_outs s) < num"
  shows "pbs_recv s \<noteq> None"
proof -
  obtain s' where "Some s = Some s'" "pb_inv mtu num s'"
    using pb_reachable_inv [OF assms(1,2)] by blast
  then obtain ps where i: "cb_inv (pb_buf (pbs_buf s)) ps" "cb_mtu (pb_buf (pbs_buf s)) = bdivide_up mtu 4"
    "cb_size (pb_buf (pbs_buf s)) = (1 + cb_mtu (pb_buf (pbs_buf s))) * (num + 1)"
    "\<forall>p \<in> set ps. length p \<le> mtu" "pbs_ins s = pbs_outs s @ ps"
    "pbs_recv s = (if int mtu \<le> cb_input_avail (pb_buf (pbs_buf s))
       then Some (cb_input_dest (pb_buf (pbs_buf s))) else None)"
    by (auto simp: pb_inv_def Let_def)
  have "int mtu \<le> cb_input_avail (pb_buf (pbs_buf s))"
    by (rule cb_room [OF i(1,2), of num]) (use i(3,4,5) assms(3) in simp)
  then show ?thesis using i(6) by simp
qed

text \<open>A buffer for two packets of up to four bytes, and a run of it.\<close>

lemma example_pb_init:
  "\<exists>s. pb_reachable 4 2 (Some s) \<and> pbs_recv s \<noteq> None \<and> pb_input_mtu (pbs_buf s) = 4
     \<and> pbs_ins s = [] \<and> pbs_outs s = []"
proof -
  have calc: "ChunkBuffer2_calc_blocks 4 2 = 6"
    by (simp add: ChunkBuffer2_calc_blocks_def Let_def INT_MAX_def bdivide_up_def)
  have bound: "4 * (1 + int (bdivide_up 4 4)) * (int 2 + 1) \<le> INT_MAX"
    by (simp add: INT_MAX_def bdivide_up_def)
  have bl: "bdivide_up 4 4 + 1 \<le> 6" "4 * int 6 \<le> INT_MAX" "length (replicate 24 (0 :: byte)) = 4 * 6"
    by (simp_all add: INT_MAX_def bdivide_up_def)
  from Init_inv [OF bl(3,2,1)] obtain buf where
    buf: "ChunkBuffer2_Init (replicate 24 0) 6 4 = Some buf" by blast
  let ?b = "\<lparr> pb_input_mtu = 4, pb_buf = buf \<rparr>"
  have i: "PacketBuffer_Init 4 4 2 (\<lambda>n. Some (replicate 24 0))
      = Some (Some (?b, [PB_Receiver_Recv (cb_input_dest buf)]))"
    using buf calc by (simp add: PacketBuffer_Init_def Let_def)
  have len: "length (replicate 24 (0 :: byte)) = nat (ChunkBuffer2_calc_blocks (int 4) (int 2) * 4)"
    using calc by simp
  let ?r = "pb_do [PB_Receiver_Recv (cb_input_dest buf)]
     \<lparr> pbs_buf = ?b, pbs_recv = None, pbs_send = None, pbs_ins = [], pbs_outs = [] \<rparr>"
  have r: "pb_reachable 4 2 ?r" by (rule pb_reachable.init [OF i len])
  from pb_reachable_inv [OF this bound] obtain s where "?r = Some s" by blast
  with r show ?thesis by (intro exI [of _ s]) (auto simp: bind_Some)
qed

theorem PacketBuffer_fifo_witness:
  "\<exists>s s' rest. pb_step (In_done [1, 2, 3]) s = Some s' \<and> pbs_ins s' = [[1, 2, 3]]
     \<and> pbs_ins s' = pbs_outs s' @ rest"
proof -
  obtain s where s: "pb_reachable 4 2 (Some s)" "pbs_recv s \<noteq> None" "pb_input_mtu (pbs_buf s) = 4"
    "pbs_ins s = []" using example_pb_init by blast
  have bound: "4 * (1 + int (bdivide_up 4 4)) * (int 2 + 1) \<le> INT_MAX"
    by (simp add: INT_MAX_def bdivide_up_def)
  have "pb_reachable 4 2 (pb_step (In_done [1, 2, 3]) s)"
    by (rule pb_reachable.step [OF s(1)]) (use s in simp)
  from PacketBuffer_fifo [OF this bound] obtain s' rest where
    s': "pb_step (In_done [1, 2, 3]) s = Some s'" "pbs_ins s' = pbs_outs s' @ rest" by blast
  have "pbs_ins s2 = pbs_ins s1" if "pb_do acts s1 = Some s2" for acts s1 s2
    using that by (induction acts s1 rule: pb_do.induct) (auto simp: bind_Some)
  then have "pbs_ins s' = [[1, 2, 3]]"
    using s'(1) s(4) by (fastforce simp: bind_Some)
  with s' show ?thesis by blast
qed

end
