(* ===== verification/FairQueue.thy ===== *)
theory FairQueue
  imports Prelude
begin

text \<open>
  \<open>flow/PacketPassFairQueue.c\<close>: several flows share one output; each flow has a 64-bit
  virtual time that grows by the bytes it sends (plus a weight per packet), and the queued flow
  with the least time is sent next. A flow is named by its address. The tree of queued flows is
  the list of its entries in tree order; since insertion searches by comparing, the model inserts
  before the first larger entry. Calls on the output, on the inputs of the flows and on the
  busy handler are the actions; \<open>None\<close> is a failed assertion.
\<close>

type_synonym u64 = "64 word"

definition FAIRQUEUE_MAX_TIME :: u64 where "FAIRQUEUE_MAX_TIME = - 1"

record fq_flow =
  fl_has_busy :: bool
  fl_time :: u64
  fl_is_queued :: bool
  fl_data :: "byte list"

record fair_queue =
  fq_use_cancel :: bool
  fq_packet_weight :: nat
  fq_output_mtu :: nat
  fq_sending_flow :: "nat option"
  fq_sending_len :: nat
  fq_previous_flow :: "nat option"
  fq_queued_tree :: "nat list"
  fq_flows_list :: "nat list"
  fq_flows :: "nat \<Rightarrow> fq_flow option"
  fq_freeing :: bool
  fq_schedule_job :: bool

datatype fq_act =
    FQ_Output_Send "byte list" | FQ_Output_RequestCancel | FQ_Input_Done nat | FQ_Handler_busy nat

definition fq_time :: "fair_queue \<Rightarrow> nat \<Rightarrow> u64" where
  "fq_time m f = (case fq_flows m f of None \<Rightarrow> 0 | Some x \<Rightarrow> fl_time x)"

definition fq_update :: "nat \<Rightarrow> (fq_flow \<Rightarrow> fq_flow) \<Rightarrow> fair_queue \<Rightarrow> fair_queue" where
  "fq_update f u m = m\<lparr>fq_flows := (fq_flows m)(f := map_option u (fq_flows m f))\<rparr>"

definition compare_flows :: "fair_queue \<Rightarrow> nat \<Rightarrow> nat \<Rightarrow> int" where
  "compare_flows m f1 f2 =
     (let cmp = (if fq_time m f1 > fq_time m f2 then 1 else 0) - (if fq_time m f1 < fq_time m f2 then 1 else 0 :: int)
      in if cmp \<noteq> 0 then cmp else (if f1 > f2 then 1 else 0) - (if f1 < f2 then 1 else 0))"

text \<open>\<open>Tree_Insert\<close> (which fails on an equal entry), \<open>Tree_GetFirst\<close> and \<open>Tree_Remove\<close>.\<close>

fun tree_insert :: "fair_queue \<Rightarrow> nat \<Rightarrow> nat list \<Rightarrow> nat list option" where
  "tree_insert m f [] = Some [f]"
| "tree_insert m f (x # xs) =
     (if compare_flows m f x = 0 then None
      else if compare_flows m f x < 0 then Some (f # x # xs)
      else map_option ((#) x) (tree_insert m f xs))"

definition tree_first :: "nat list \<Rightarrow> nat option" where
  "tree_first t = (case t of [] \<Rightarrow> None | f # _ \<Rightarrow> Some f)"

definition fq_is_queued :: "fair_queue \<Rightarrow> nat \<Rightarrow> bool" where
  "fq_is_queued m f = (case fq_flows m f of None \<Rightarrow> False | Some x \<Rightarrow> fl_is_queued x)"

definition fq_get_current_time :: "fair_queue \<Rightarrow> u64 option" where
  "fq_get_current_time m =
     (case fq_sending_flow m of
        Some f \<Rightarrow> Some (fq_time m f)
      | None \<Rightarrow> do {
          (time, have') \<leftarrow> (case tree_first (fq_queued_tree m) of
             None \<Rightarrow> Some (0, False)
           | Some f \<Rightarrow> do { assert_that (fq_is_queued m f); Some (fq_time m f, True) });
          let (time, have') = (case fq_previous_flow m of
             None \<Rightarrow> (time, have')
           | Some p \<Rightarrow> if \<not> have' \<or> fq_time m p < time then (fq_time m p, True) else (time, have'));
          Some (if have' then time else 0)
        })"

text \<open>The loop over the flows list.\<close>

fun subtract_times :: "u64 \<Rightarrow> nat \<Rightarrow> nat list \<Rightarrow> fair_queue \<Rightarrow> fair_queue option" where
  "subtract_times subtract flow [] m = Some m"
| "subtract_times subtract flow (someflow # fs) m =
     (if subtract > fq_time m someflow \<and> someflow \<noteq> flow
      then do { assert_that (\<not> fq_is_queued m someflow);
                subtract_times subtract flow fs (fq_update someflow (fl_time_update (\<lambda>_. 0)) m) }
      else subtract_times subtract flow fs (fq_update someflow (fl_time_update (\<lambda>t. t - subtract)) m))"

definition increment_sent_flow :: "nat \<Rightarrow> u64 \<Rightarrow> fair_queue \<Rightarrow> fair_queue option" where
  "increment_sent_flow flow amount m = do {
     assert_that (amount \<le> FAIRQUEUE_MAX_TIME);
     assert_that (\<not> fq_is_queued m flow);
     assert_that (fq_sending_flow m = None);
     m \<leftarrow> (if amount > FAIRQUEUE_MAX_TIME - fq_time m flow then do {
            subtract \<leftarrow> (case tree_first (fq_queued_tree m) of
                None \<Rightarrow> Some (fq_time m flow)
              | Some f \<Rightarrow> do { assert_that (fq_is_queued m f); Some (fq_time m f) });
            subtract_times subtract flow (fq_flows_list m) m
          } else Some m);
     Some (fq_update flow (fl_time_update (\<lambda>t. t + amount)) m)
   }"

definition fq_schedule :: "fair_queue \<Rightarrow> (fair_queue \<times> fq_act list) option" where
  "fq_schedule m = do {
     assert_that (fq_sending_flow m = None);
     assert_that (fq_previous_flow m = None);
     assert_that (\<not> fq_freeing m);
     qflow \<leftarrow> tree_first (fq_queued_tree m);
     assert_that (fq_is_queued m qflow);
     x \<leftarrow> fq_flows m qflow;
     let m = m\<lparr>fq_queued_tree := remove1 qflow (fq_queued_tree m)\<rparr>;
     let m = fq_update qflow (fl_is_queued_update (\<lambda>_. False)) m;
     Some (m\<lparr>fq_sending_flow := Some qflow, fq_sending_len := length (fl_data x)\<rparr>,
           [FQ_Output_Send (fl_data x)])
   }"

definition schedule_job_handler :: "fair_queue \<Rightarrow> (fair_queue \<times> fq_act list) option" where
  "schedule_job_handler m = do {
     assert_that (fq_sending_flow m = None);
     assert_that (\<not> fq_freeing m);
     let m = m\<lparr>fq_previous_flow := None\<rparr>;
     (if fq_queued_tree m \<noteq> [] then fq_schedule m else Some (m, []))
   }"

definition fq_input_handler_send ::
  "nat \<Rightarrow> byte list \<Rightarrow> fair_queue \<Rightarrow> (fair_queue \<times> fq_act list) option" where
  "fq_input_handler_send flow data m = do {
     assert_that (Some flow \<noteq> fq_sending_flow m);
     assert_that (\<not> fq_is_queued m flow);
     assert_that (\<not> fq_freeing m);
     m \<leftarrow> (if Some flow = fq_previous_flow m then Some (m\<lparr>fq_previous_flow := None\<rparr>)
          else do { now \<leftarrow> fq_get_current_time m;
                    Some (fq_update flow (fl_time_update (\<lambda>t. max t now)) m) });
     let m = fq_update flow (fl_data_update (\<lambda>_. data)) m;
     t \<leftarrow> tree_insert m flow (fq_queued_tree m);
     let m = fq_update flow (fl_is_queued_update (\<lambda>_. True)) (m\<lparr>fq_queued_tree := t\<rparr>);
     (if fq_sending_flow m = None \<and> \<not> fq_schedule_job m then fq_schedule m else Some (m, []))
   }"

definition fq_output_handler_done :: "fair_queue \<Rightarrow> (fair_queue \<times> fq_act list) option" where
  "fq_output_handler_done m = do {
     flow \<leftarrow> fq_sending_flow m;
     assert_that (fq_previous_flow m = None);
     assert_that (\<not> fq_schedule_job m);
     assert_that (\<not> fq_freeing m);
     assert_that (\<not> fq_is_queued m flow);
     let m = m\<lparr>fq_sending_flow := None\<rparr>;
     let m = m\<lparr>fq_previous_flow := Some flow\<rparr>;
     m \<leftarrow> increment_sent_flow flow (of_nat (fq_packet_weight m) + of_nat (fq_sending_len m)) m;
     let m = m\<lparr>fq_schedule_job := True\<rparr>;
     x \<leftarrow> fq_flows m flow;
     (if fl_has_busy x
      then Some (fq_update flow (fl_has_busy_update (\<lambda>_. False)) m, [FQ_Input_Done flow, FQ_Handler_busy flow])
      else Some (m, [FQ_Input_Done flow]))
   }"

text \<open>The inner option of the result is the return value; the MTU and the weight are \<open>int\<close>s.\<close>

definition PacketPassFairQueue_Init :: "nat \<Rightarrow> bool \<Rightarrow> bool \<Rightarrow> nat \<Rightarrow> fair_queue option option" where
  "PacketPassFairQueue_Init output_mtu output_has_cancel use_cancel packet_weight = do {
     assert_that (packet_weight > 0);
     assert_that (\<not> use_cancel \<or> output_has_cancel);
     (if \<not> (of_nat output_mtu \<le> FAIRQUEUE_MAX_TIME
             \<and> of_nat packet_weight \<le> FAIRQUEUE_MAX_TIME - of_nat output_mtu)
      then Some None
      else Some (Some \<lparr> fq_use_cancel = use_cancel, fq_packet_weight = packet_weight,
             fq_output_mtu = output_mtu, fq_sending_flow = None, fq_sending_len = 0,
             fq_previous_flow = None, fq_queued_tree = [], fq_flows_list = [],
             fq_flows = Map.empty, fq_freeing = False, fq_schedule_job = False \<rparr>))
   }"

definition PacketPassFairQueue_Free :: "fair_queue \<Rightarrow> unit option" where
  "PacketPassFairQueue_Free m = do {
     assert_that (fq_flows_list m = []);
     assert_that (fq_queued_tree m = []);
     assert_that (fq_previous_flow m = None);
     assert_that (fq_sending_flow m = None)
   }"

definition PacketPassFairQueue_PrepareFree :: "fair_queue \<Rightarrow> fair_queue" where
  "PacketPassFairQueue_PrepareFree m = m\<lparr>fq_freeing := True\<rparr>"

definition PacketPassFairQueueFlow_Init :: "nat \<Rightarrow> fair_queue \<Rightarrow> fair_queue option" where
  "PacketPassFairQueueFlow_Init flow m = do {
     assert_that (\<not> fq_freeing m);
     Some (m\<lparr>fq_flows := (fq_flows m)(flow \<mapsto> \<lparr> fl_has_busy = False, fl_time = 0,
               fl_is_queued = False, fl_data = [] \<rparr>),
             fq_flows_list := fq_flows_list m @ [flow]\<rparr>)
   }"

definition PacketPassFairQueueFlow_Free :: "nat \<Rightarrow> fair_queue \<Rightarrow> fair_queue option" where
  "PacketPassFairQueueFlow_Free flow m = do {
     assert_that (fq_freeing m \<or> Some flow \<noteq> fq_sending_flow m);
     let m = (if Some flow = fq_sending_flow m then m\<lparr>fq_sending_flow := None\<rparr> else m);
     let m = (if Some flow = fq_previous_flow m then m\<lparr>fq_previous_flow := None\<rparr> else m);
     t \<leftarrow> (if fq_is_queued m flow
          then if flow \<in> set (fq_queued_tree m) then Some (remove1 flow (fq_queued_tree m)) else None
          else Some (fq_queued_tree m));
     Some (m\<lparr>fq_queued_tree := t, fq_flows_list := remove1 flow (fq_flows_list m),
             fq_flows := (fq_flows m)(flow := None)\<rparr>)
   }"

definition PacketPassFairQueueFlow_IsBusy :: "nat \<Rightarrow> fair_queue \<Rightarrow> bool option" where
  "PacketPassFairQueueFlow_IsBusy flow m = do {
     assert_that (\<not> fq_freeing m);
     Some (Some flow = fq_sending_flow m)
   }"

definition PacketPassFairQueueFlow_RequestCancel :: "nat \<Rightarrow> fair_queue \<Rightarrow> fq_act list option" where
  "PacketPassFairQueueFlow_RequestCancel flow m = do {
     assert_that (Some flow = fq_sending_flow m);
     assert_that (fq_use_cancel m);
     assert_that (\<not> fq_freeing m);
     assert_that (\<not> fq_schedule_job m);
     Some [FQ_Output_RequestCancel]
   }"

definition PacketPassFairQueueFlow_SetBusyHandler :: "nat \<Rightarrow> bool \<Rightarrow> fair_queue \<Rightarrow> fair_queue option" where
  "PacketPassFairQueueFlow_SetBusyHandler flow handler m = do {
     assert_that (Some flow = fq_sending_flow m);
     assert_that (\<not> fq_freeing m);
     Some (fq_update flow (fl_has_busy_update (\<lambda>_. handler)) m)
   }"

end
