(* ===== verification/FairQueueProps.thy ===== *)
theory FairQueueProps
  imports FairQueue
begin

text \<open>
  The fair queue with its environment: flows come and go, their users send when idle, the output
  completes, the schedule job runs. The invariant keeps the tree sorted (also across the
  subtraction of times on overflow) and the flow being sent minimal.
\<close>

section \<open>The order of the flows\<close>

definition flow_less :: "fair_queue \<Rightarrow> nat \<Rightarrow> nat \<Rightarrow> bool" where
  "flow_less m a b \<longleftrightarrow> fq_time m a < fq_time m b \<or> fq_time m a = fq_time m b \<and> a < b"

lemma compare_flows_less: "compare_flows m a b < 0 \<longleftrightarrow> flow_less m a b"
  by (auto simp: compare_flows_def flow_less_def Let_def)

lemma compare_flows_eq: "compare_flows m a b = 0 \<longleftrightarrow> a = b"
  by (auto simp: compare_flows_def Let_def)

lemma flow_less_linear: "a = b \<or> flow_less m a b \<or> flow_less m b a"
  by (auto simp: flow_less_def)

lemma flow_less_trans: "flow_less m a b \<Longrightarrow> flow_less m b c \<Longrightarrow> flow_less m a c"
  by (auto simp: flow_less_def)

lemma flow_less_time: "flow_less m a b \<Longrightarrow> fq_time m a \<le> fq_time m b"
  by (auto simp: flow_less_def)

lemma tree_insert_sorted:
  assumes "sorted_wrt (flow_less m) t" "f \<notin> set t"
  shows "\<exists>t'. tree_insert m f t = Some t' \<and> set t' = insert f (set t) \<and> sorted_wrt (flow_less m) t'
     \<and> (distinct t \<longrightarrow> distinct t')"
  using assms
proof (induction t)
  case (Cons x xs)
  show ?case
  proof (cases "flow_less m f x")
    case True
    then have "\<forall>y \<in> set xs. flow_less m f y"
      using Cons.prems(1) flow_less_trans by fastforce
    with True Cons.prems show ?thesis
      by (auto simp: compare_flows_eq compare_flows_less)
  next
    case False
    then have "flow_less m x f" using Cons.prems(2) flow_less_linear by fastforce
    with False Cons show ?thesis by (auto simp: compare_flows_eq compare_flows_less)
  qed
qed simp

lemma sorted_wrt_times:
  assumes "sorted_wrt (flow_less m) t"
    and "\<And>a b. a \<in> set t \<Longrightarrow> b \<in> set t \<Longrightarrow> flow_less m a b \<Longrightarrow> flow_less m' a b"
  shows "sorted_wrt (flow_less m') t"
  using assms by (metis sorted_wrt_mono_rel)

section \<open>Field updates\<close>

lemma fq_update_sel [simp]:
  "fq_use_cancel (fq_update f u m) = fq_use_cancel m"
  "fq_packet_weight (fq_update f u m) = fq_packet_weight m"
  "fq_output_mtu (fq_update f u m) = fq_output_mtu m"
  "fq_sending_flow (fq_update f u m) = fq_sending_flow m"
  "fq_sending_len (fq_update f u m) = fq_sending_len m"
  "fq_previous_flow (fq_update f u m) = fq_previous_flow m"
  "fq_queued_tree (fq_update f u m) = fq_queued_tree m"
  "fq_flows_list (fq_update f u m) = fq_flows_list m"
  "fq_freeing (fq_update f u m) = fq_freeing m"
  "fq_schedule_job (fq_update f u m) = fq_schedule_job m"
  "fq_flows (fq_update f u m) g = (if g = f then map_option u (fq_flows m f) else fq_flows m g)"
  by (simp_all add: fq_update_def)

lemma dom_fq_update [simp]: "dom (fq_flows (fq_update f u m)) = dom (fq_flows m)"
  by (auto simp: dom_def)

lemma fq_time_update:
  "f \<in> dom (fq_flows m) \<Longrightarrow> fq_time (fq_update f (fl_time_update u) m) g = (if g = f then u (fq_time m f) else fq_time m g)"
  by (auto simp: fq_time_def)

lemma fq_time_other [simp]:
  "fq_time (fq_update f (fl_data_update d) m) = fq_time m"
  "fq_time (fq_update f (fl_is_queued_update q) m) = fq_time m"
  "fq_time (fq_update f (fl_has_busy_update b) m) = fq_time m"
  by (auto simp: fq_time_def fun_eq_iff split: option.splits)

lemma fq_is_queued_other [simp]:
  "fq_is_queued (fq_update f (fl_data_update d) m) = fq_is_queued m"
  "fq_is_queued (fq_update f (fl_time_update t) m) = fq_is_queued m"
  "fq_is_queued (fq_update f (fl_has_busy_update b) m) = fq_is_queued m"
  by (auto simp: fq_is_queued_def fun_eq_iff split: option.splits)

lemma fq_is_queued_update:
  "f \<in> dom (fq_flows m) \<Longrightarrow> fq_is_queued (fq_update f (fl_is_queued_update (\<lambda>_. b)) m) g
     = (if g = f then b else fq_is_queued m g)"
  by (auto simp: fq_is_queued_def)

text \<open>The predicates read only the flows of the record.\<close>

lemma fq_reads_flows:
  "fq_flows m' = fq_flows m \<Longrightarrow> fq_time m' = fq_time m"
  "fq_flows m' = fq_flows m \<Longrightarrow> fq_is_queued m' = fq_is_queued m"
  "fq_flows m' = fq_flows m \<Longrightarrow> flow_less m' = flow_less m"
  by (auto simp: fq_time_def fq_is_queued_def flow_less_def fun_eq_iff)

section \<open>The invariant\<close>

definition fq_data_of :: "fair_queue \<Rightarrow> nat \<Rightarrow> byte list" where
  "fq_data_of m f = (case fq_flows m f of None \<Rightarrow> [] | Some x \<Rightarrow> fl_data x)"

definition fq_struct :: "fair_queue \<Rightarrow> bool" where
  "fq_struct m \<longleftrightarrow> distinct (fq_flows_list m) \<and> set (fq_flows_list m) = dom (fq_flows m)
     \<and> distinct (fq_queued_tree m) \<and> set (fq_queued_tree m) = {f. fq_is_queued m f}
     \<and> (\<forall>f \<in> set (fq_queued_tree m). length (fq_data_of m f) \<le> fq_output_mtu m)
     \<and> fq_packet_weight m + fq_output_mtu m < 2 ^ 64"

definition fq_order :: "fair_queue \<Rightarrow> bool" where
  "fq_order m \<longleftrightarrow> sorted_wrt (flow_less m) (fq_queued_tree m)
     \<and> (\<forall>f. fq_sending_flow m = Some f \<longrightarrow> (\<forall>q \<in> set (fq_queued_tree m). fq_time m f \<le> fq_time m q))"

definition fq_phase :: "fair_queue \<Rightarrow> bool" where
  "fq_phase m \<longleftrightarrow>
     (\<forall>f. fq_sending_flow m = Some f \<longrightarrow> f \<in> dom (fq_flows m) \<and> \<not> fq_is_queued m f
        \<and> fq_previous_flow m = None \<and> \<not> fq_schedule_job m \<and> fq_sending_len m \<le> fq_output_mtu m)
     \<and> (\<forall>f. fq_previous_flow m = Some f \<longrightarrow> f \<in> dom (fq_flows m) \<and> \<not> fq_is_queued m f
        \<and> fq_sending_flow m = None \<and> fq_schedule_job m)"

definition fq_conserving :: "fair_queue \<Rightarrow> bool" where
  "fq_conserving m \<longleftrightarrow> (fq_queued_tree m \<noteq> [] \<longrightarrow> fq_sending_flow m \<noteq> None \<or> fq_schedule_job m)"

definition fq_inv :: "fair_queue \<Rightarrow> bool" where
  "fq_inv m \<longleftrightarrow> fq_struct m \<and> fq_order m \<and> fq_phase m \<and> fq_conserving m"

lemma is_queued_dom: "fq_is_queued m f \<Longrightarrow> f \<in> dom (fq_flows m)"
  by (auto simp: fq_is_queued_def split: option.splits)

lemma tree_first_least:
  assumes "fq_struct m" "fq_order m" "tree_first (fq_queued_tree m) = Some f"
  shows "f \<in> set (fq_queued_tree m)" "fq_is_queued m f" "f \<in> dom (fq_flows m)"
    "\<forall>q \<in> set (fq_queued_tree m). fq_time m f \<le> fq_time m q"
proof -
  obtain t where t: "fq_queued_tree m = f # t"
    using assms(3) by (auto simp: tree_first_def split: list.splits)
  then show f: "f \<in> set (fq_queued_tree m)" by simp
  then show q: "fq_is_queued m f" using assms(1) by (auto simp: fq_struct_def)
  then show "f \<in> dom (fq_flows m)" by (rule is_queued_dom)
  show "\<forall>q \<in> set (fq_queued_tree m). fq_time m f \<le> fq_time m q"
    using assms(2) flow_less_time by (auto simp: t fq_order_def)
qed

lemma current_time_ok:
  assumes "fq_struct m" "fq_order m"
  shows "\<exists>t. fq_get_current_time m = Some t \<and> (\<forall>f. fq_sending_flow m = Some f \<longrightarrow> t = fq_time m f)"
  using tree_first_least(2) [OF assms]
  by (cases "fq_sending_flow m"; cases "tree_first (fq_queued_tree m)"; cases "fq_previous_flow m")
     (auto simp: fq_get_current_time_def)

lemma schedule_ok:
  assumes s: "fq_struct m" and o': "fq_order m" and idle: "fq_sending_flow m = None" "fq_previous_flow m = None"
    and "\<not> fq_freeing m" "fq_queued_tree m \<noteq> []" "\<not> fq_schedule_job m"
  shows "\<exists>m' f. fq_schedule m = Some (m', [FQ_Output_Send (fq_data_of m f)]) \<and> fq_inv m'
     \<and> fq_sending_flow m' = Some f \<and> tree_first (fq_queued_tree m) = Some f
     \<and> set (fq_queued_tree m') = set (fq_queued_tree m) - {f}
     \<and> length (fq_data_of m f) \<le> fq_output_mtu m
     \<and> dom (fq_flows m') = dom (fq_flows m) \<and> fq_output_mtu m' = fq_output_mtu m
     \<and> fq_freeing m' = fq_freeing m \<and> fq_packet_weight m' = fq_packet_weight m"
proof -
  obtain f t where t: "fq_queued_tree m = f # t" using assms(6) by (cases "fq_queued_tree m") auto
  then have tf: "tree_first (fq_queued_tree m) = Some f" by (simp add: tree_first_def)
  note least = tree_first_least [OF s o' tf]
  then obtain x where x: "fq_flows m f = Some x" by auto
  let ?m = "(fq_update f (fl_is_queued_update (\<lambda>_. False)) (m\<lparr>fq_queued_tree := t\<rparr>))
     \<lparr>fq_sending_flow := Some f, fq_sending_len := length (fl_data x)\<rparr>"
  have d: "fl_data x = fq_data_of m f" by (simp add: fq_data_of_def x)
  have time: "fq_time ?m = fq_time m" "flow_less ?m = flow_less m"
    using fq_reads_flows [of ?m "fq_update f (fl_is_queued_update (\<lambda>_. False)) m"]
    by (auto simp: fq_update_def flow_less_def fun_eq_iff)
       (auto simp: fq_time_def split: option.splits if_splits)
  have queued: "fq_is_queued ?m g = (g \<noteq> f \<and> fq_is_queued m g)" for g
    using fq_reads_flows(2) [of ?m "fq_update f (fl_is_queued_update (\<lambda>_. False)) m"]
      fq_is_queued_update [of f m False g] least(3) by (auto simp: fq_update_def)
  have data: "fq_data_of ?m = fq_data_of m"
    by (auto simp: fq_data_of_def fun_eq_iff fq_update_def x split: option.splits)
  have len: "length (fl_data x) \<le> fq_output_mtu m" using s least(1) by (auto simp: fq_struct_def d)
  have "fq_schedule m = Some (?m, [FQ_Output_Send (fl_data x)])"
    using assms(3-6) least tf x by (simp add: fq_schedule_def Let_def t)
  moreover have "fq_inv ?m"
    unfolding fq_inv_def
  proof (intro conjI)
    show "fq_struct ?m" using s by (auto simp: fq_struct_def queued data t)
    show "fq_order ?m" using o' least(4) by (auto simp: fq_order_def time t)
    show "fq_phase ?m" using idle assms(7) x len by (auto simp: fq_phase_def queued)
    show "fq_conserving ?m" by (simp add: fq_conserving_def)
  qed
  moreover have "distinct (f # t)" using s by (simp add: fq_struct_def t)
  ultimately show ?thesis
    using tf len by (intro exI [of _ ?m] exI [of _ f]) (auto simp: d t)
qed

section \<open>Overflow of the virtual time\<close>

definition subtracted :: "u64 \<Rightarrow> nat \<Rightarrow> nat set \<Rightarrow> fair_queue \<Rightarrow> fair_queue" where
  "subtracted s flow fs m = m\<lparr>fq_flows := (\<lambda>g. if g \<in> fs
     then map_option (fl_time_update (\<lambda>t. if t < s \<and> g \<noteq> flow then 0 else t - s)) (fq_flows m g)
     else fq_flows m g)\<rparr>"

lemma fl_time_update_cong:
  "u (fl_time x) = v (fl_time x) \<Longrightarrow> fl_time_update u x = fl_time_update v x"
  by (cases x) simp

lemma subtract_times_ok:
  assumes "distinct fs" "\<forall>g \<in> set fs. g \<in> dom (fq_flows m)"
    and "\<forall>g \<in> set fs. g \<noteq> flow \<and> fq_time m g < s \<longrightarrow> \<not> fq_is_queued m g"
  shows "subtract_times s flow fs m = Some (subtracted s flow (set fs) m)"
  using assms
proof (induction fs arbitrary: m)
  case Nil
  then show ?case by (simp add: subtracted_def)
next
  case (Cons f fs)
  let ?u = "\<lambda>t. if t < s \<and> f \<noteq> flow then 0 else t - s"
  let ?m = "fq_update f (fl_time_update ?u) m"
  obtain x where x: "fq_flows m f = Some x" using Cons.prems(2) by auto
  have eq: "subtract_times s flow (f # fs) m = subtract_times s flow fs ?m"
  proof (cases "fq_time m f < s \<and> f \<noteq> flow")
    case True
    then have "fl_time_update (\<lambda>_. 0) x = fl_time_update ?u x"
      using x by (intro fl_time_update_cong) (simp add: fq_time_def)
    then have "fq_update f (fl_time_update (\<lambda>_. 0)) m = ?m"
      using x by (simp add: fq_update_def)
    with True Cons.prems(3) show ?thesis by simp
  next
    case False
    then have "f = flow \<or> \<not> fl_time x < s" using x by (auto simp: fq_time_def)
    then have "fl_time_update (\<lambda>t. t - s) x = fl_time_update ?u x"
      by (intro fl_time_update_cong) (rule if_not_P [symmetric], blast)
    then have u: "fq_update f (fl_time_update (\<lambda>t. t - s)) m = ?m"
      by (simp only: fq_update_def x option.map)
    have "subtract_times s flow (f # fs) m
        = subtract_times s flow fs (fq_update f (fl_time_update (\<lambda>t. t - s)) m)"
      unfolding subtract_times.simps by (rule if_not_P [OF False])
    then show ?thesis by (simp only: u)
  qed
  have f: "f \<notin> set fs" using Cons.prems(1) by simp
  have "subtract_times s flow fs ?m = Some (subtracted s flow (set fs) ?m)"
  proof (rule Cons.IH)
    show "distinct fs" using Cons.prems(1) by simp
    show "\<forall>g \<in> set fs. g \<in> dom (fq_flows ?m)"
      unfolding dom_fq_update using Cons.prems(2) by simp
    have "fq_time ?m g = fq_time m g" if "g \<in> set fs" for g
      using that f Cons.prems(2) fq_time_update [of f m ?u g] by auto
    then show "\<forall>g \<in> set fs. g \<noteq> flow \<and> fq_time ?m g < s \<longrightarrow> \<not> fq_is_queued ?m g"
      using Cons.prems(3) by simp
  qed
  moreover have "subtracted s flow (set fs) ?m = subtracted s flow (set (f # fs)) m"
    using f by (auto simp: subtracted_def fq_update_def fun_eq_iff)
  ultimately show ?case using eq by simp
qed

lemma subtracted_time:
  "g \<in> fs \<Longrightarrow> g \<in> dom (fq_flows m) \<Longrightarrow> fq_time (subtracted s flow fs m) g
     = (if fq_time m g < s \<and> g \<noteq> flow then 0 else fq_time m g - s)"
  by (auto simp: subtracted_def fq_time_def)

lemma subtracted_sel:
  "fq_is_queued (subtracted s flow fs m) = fq_is_queued m"
  "dom (fq_flows (subtracted s flow fs m)) = dom (fq_flows m)"
  "fq_data_of (subtracted s flow fs m) = fq_data_of m"
  by (auto simp: subtracted_def fq_is_queued_def fq_data_of_def fun_eq_iff dom_def split: option.splits if_splits)

lemma unat_diff_le: "s \<le> t \<Longrightarrow> unat (t - s) = unat t - unat s" for s t :: u64
  by (simp add: unat_sub)

lemma unat_u64_less: "unat t < 18446744073709551616" for t :: u64
  using unsigned_less [of t] by simp

lemma overflow_iff: "amount > FAIRQUEUE_MAX_TIME - t \<longleftrightarrow> 2 ^ 64 \<le> unat t + unat amount" for t amount :: u64
proof -
  have "unat (- 1 - t) = 2 ^ 64 - 1 - unat t"
    using unat_diff_le [of t "-1"]
    by (simp add: unsigned_minus_1_eq_mask mask_eq_exp_minus_1)
  then show ?thesis
    unfolding FAIRQUEUE_MAX_TIME_def word_less_nat_alt using unat_u64_less [of t] by simp linarith
qed

lemma wrapped_sum:
  fixes t a s :: u64
  assumes "2 ^ 64 \<le> unat t + unat a" "unat t \<le> unat s"
  shows "unat (t - s + a) = unat t + unat a - unat s"
proof -
  have "unat s < 2 ^ 64" "unat a < 2 ^ 64" using unsigned_less [of s] unsigned_less [of a] by simp_all
  then have b: "unat t + unat a - unat s < 2 ^ 64" "unat s \<le> unat t + unat a" using assms by linarith+
  have "t - s + a = of_nat (unat t + unat a - unat s)"
    using b(2) by (simp add: of_nat_diff)
  then show ?thesis using b(1) by (simp only: unat_of_nat) simp
qed

text \<open>The times after a packet of virtual length \<open>amount\<close>, as natural numbers.\<close>

lemma increment_ok:
  assumes st: "fq_struct m" and sorted: "sorted_wrt (flow_less m) (fq_queued_tree m)"
    and least: "\<forall>q \<in> set (fq_queued_tree m). fq_time m flow \<le> fq_time m q"
    and flow: "flow \<in> dom (fq_flows m)" "\<not> fq_is_queued m flow" "fq_sending_flow m = None"
  shows "\<exists>m' s. increment_sent_flow flow amount m = Some m'
     \<and> (unat (fq_time m flow) + unat amount < 2 ^ 64 \<longrightarrow> s = 0)
     \<and> s \<le> unat (fq_time m flow) + unat amount
     \<and> unat (fq_time m' flow) = unat (fq_time m flow) + unat amount - s
     \<and> (\<forall>q \<in> set (fq_queued_tree m). s \<le> unat (fq_time m q))
     \<and> (\<forall>g \<in> dom (fq_flows m). g \<noteq> flow \<longrightarrow> unat (fq_time m' g) = unat (fq_time m g) - s)
     \<and> (\<exists>F. m' = m\<lparr>fq_flows := F\<rparr>) \<and> dom (fq_flows m') = dom (fq_flows m)
     \<and> fq_is_queued m' = fq_is_queued m \<and> fq_data_of m' = fq_data_of m"
proof -
  let ?inc = "fl_time_update (\<lambda>t. t + amount)"
  have d: "fq_data_of (fq_update f (fl_time_update u) m) = fq_data_of m" for f u m
    by (auto simp: fq_data_of_def fun_eq_iff split: option.splits)
  have fx: "\<exists>F. fq_update flow ?inc (m\<lparr>fq_flows := G\<rparr>) = m\<lparr>fq_flows := F\<rparr>" for G
    by (simp add: fq_update_def, rule exI, rule refl)
  have mx: "amount \<le> FAIRQUEUE_MAX_TIME" by (simp add: FAIRQUEUE_MAX_TIME_def)
  show ?thesis
  proof (cases "2 ^ 64 \<le> unat (fq_time m flow) + unat amount")
    case False
    then have "increment_sent_flow flow amount m = Some (fq_update flow ?inc m)"
      using flow mx by (simp add: increment_sent_flow_def overflow_iff)
    moreover have "unat (fq_time m flow + amount) = unat (fq_time m flow) + unat amount"
      using False unat_add_lem [of "fq_time m flow" amount] by simp
    ultimately show ?thesis
      using flow fx [of "fq_flows m"] False
      by (intro exI [of _ "fq_update flow ?inc m"] exI [of _ 0]) (simp add: fq_time_update d)
  next
    case True
    define s where "s = (case tree_first (fq_queued_tree m) of None \<Rightarrow> fq_time m flow | Some f \<Rightarrow> fq_time m f)"
    have o': "fq_order (m\<lparr>fq_sending_flow := None\<rparr>)" "fq_struct (m\<lparr>fq_sending_flow := None\<rparr>)"
      using sorted st fq_reads_flows [of "m\<lparr>fq_sending_flow := None\<rparr>" m]
      by (simp_all add: fq_order_def fq_struct_def fq_data_of_def)
    have first: "fq_is_queued m f \<and> f \<in> set (fq_queued_tree m) \<and> (\<forall>q \<in> set (fq_queued_tree m). fq_time m f \<le> fq_time m q)"
      if "tree_first (fq_queued_tree m) = Some f" for f
      using tree_first_least [OF o'(2,1), of f] that fq_reads_flows [of "m\<lparr>fq_sending_flow := None\<rparr>" m]
      by simp
    have s_le: "\<forall>q \<in> set (fq_queued_tree m). s \<le> fq_time m q" and t_le: "fq_time m flow \<le> s"
      using first least by (auto simp: s_def tree_first_def split: list.splits option.splits)
    let ?m1 = "subtracted s flow (dom (fq_flows m)) m"
    have "subtract_times s flow (fq_flows_list m) m = Some ?m1"
      using st s_le subtract_times_ok [of "fq_flows_list m" m flow s] by (fastforce simp: fq_struct_def)
    then have inc: "increment_sent_flow flow amount m = Some (fq_update flow ?inc ?m1)"
      using True flow mx first by (auto simp: increment_sent_flow_def overflow_iff s_def split: option.splits)
    have dom1: "dom (fq_flows ?m1) = dom (fq_flows m)" by (rule subtracted_sel)
    have tf: "unat (fq_time (fq_update flow ?inc ?m1) flow) = unat (fq_time m flow) + unat amount - unat s"
      using flow(1) dom1 wrapped_sum [OF True] t_le
      by (simp add: fq_time_update subtracted_time word_le_nat_alt)
    have tg: "unat (fq_time (fq_update flow ?inc ?m1) g) = unat (fq_time m g) - unat s"
      if "g \<in> dom (fq_flows m)" "g \<noteq> flow" for g
      using flow(1) dom1 that unat_diff_le [of s "fq_time m g"]
      by (auto simp: fq_time_update subtracted_time word_less_nat_alt not_less word_le_nat_alt)
    have "unat s < 2 ^ 64" using unsigned_less [of s] by simp
    then have "unat s \<le> unat (fq_time m flow) + unat amount" using True by linarith
    then show ?thesis
      using inc tf tg s_le True dom1 fx
      by (intro exI [of _ "fq_update flow ?inc ?m1"] exI [of _ "unat s"])
         (simp add: subtracted_sel d word_le_nat_alt, simp add: subtracted_def)
  qed
qed

section \<open>The handlers keep the invariant\<close>

text \<open>What the surroundings of an operation may rely on besides the invariant.\<close>

definition fq_same :: "fair_queue \<Rightarrow> fair_queue \<Rightarrow> bool" where
  "fq_same m m' \<longleftrightarrow> dom (fq_flows m') = dom (fq_flows m) \<and> fq_output_mtu m' = fq_output_mtu m
     \<and> fq_freeing m' = fq_freeing m \<and> fq_packet_weight m' = fq_packet_weight m"

lemma fq_data_of_update [simp]:
  "fq_data_of (fq_update f (fl_time_update t) m) = fq_data_of m"
  "fq_data_of (fq_update f (fl_is_queued_update q) m) = fq_data_of m"
  "fq_data_of (fq_update f (fl_has_busy_update b) m) = fq_data_of m"
  by (auto simp: fq_data_of_def fun_eq_iff split: option.splits)

lemma fq_data_of_flows: "fq_flows m' = fq_flows m \<Longrightarrow> fq_data_of m' = fq_data_of m"
  by (simp add: fq_data_of_def fun_eq_iff)

lemma output_done_ok:
  assumes inv: "fq_inv m" and f: "fq_sending_flow m = Some f" and nf: "\<not> fq_freeing m"
  shows "\<exists>m' acts. fq_output_handler_done m = Some (m', acts) \<and> fq_inv m' \<and> fq_same m m'
     \<and> fq_sending_flow m' = None \<and> fq_schedule_job m' \<and> fq_queued_tree m' = fq_queued_tree m
     \<and> acts \<in> {[FQ_Input_Done f], [FQ_Input_Done f, FQ_Handler_busy f]}"
proof -
  let ?m1 = "m\<lparr>fq_sending_flow := None, fq_previous_flow := Some f\<rparr>"
  let ?a = "of_nat (fq_packet_weight m) + of_nat (fq_sending_len m) :: u64"
  note r = fq_reads_flows [of ?m1 m] and rd = fq_data_of_flows [of ?m1 m]
  have ph: "f \<in> dom (fq_flows m)" "\<not> fq_is_queued m f" "fq_previous_flow m = None" "\<not> fq_schedule_job m"
    using inv f by (auto simp: fq_inv_def fq_phase_def)
  have st: "fq_struct m" and o': "fq_order m" using inv by (auto simp: fq_inv_def)
  have "fq_struct ?m1" using st r rd by (simp add: fq_struct_def)
  moreover have "sorted_wrt (flow_less ?m1) (fq_queued_tree ?m1)" using o' r by (simp add: fq_order_def)
  moreover have "\<forall>q \<in> set (fq_queued_tree ?m1). fq_time ?m1 f \<le> fq_time ?m1 q"
    using o' f r by (simp add: fq_order_def)
  moreover have "f \<in> dom (fq_flows ?m1)" "\<not> fq_is_queued ?m1 f" "fq_sending_flow ?m1 = None"
    using ph r by simp_all
  ultimately obtain m2 s where m2: "increment_sent_flow f ?a ?m1 = Some m2"
    "\<forall>q \<in> set (fq_queued_tree ?m1). s \<le> unat (fq_time ?m1 q)"
    "\<forall>g \<in> dom (fq_flows ?m1). g \<noteq> f \<longrightarrow> unat (fq_time m2 g) = unat (fq_time ?m1 g) - s"
    "\<exists>F. m2 = ?m1\<lparr>fq_flows := F\<rparr>" "dom (fq_flows m2) = dom (fq_flows ?m1)"
    "fq_is_queued m2 = fq_is_queued ?m1" "fq_data_of m2 = fq_data_of ?m1"
    using increment_ok [of ?m1 f ?a] by blast
  obtain x where x: "fq_flows m2 f = Some x" using m2(5) ph(1) by auto
  define m3 where "m3 = (if fl_has_busy x then fq_update f (fl_has_busy_update (\<lambda>_. False)) (m2\<lparr>fq_schedule_job := True\<rparr>)
      else m2\<lparr>fq_schedule_job := True\<rparr>)"
  define acts where "acts = (if fl_has_busy x then [FQ_Input_Done f, FQ_Handler_busy f] else [FQ_Input_Done f])"
  have res: "fq_output_handler_done m = Some (m3, acts)"
    using f ph nf m2(1) x by (simp add: fq_output_handler_done_def Let_def m3_def acts_def)
  have sel: "fq_queued_tree m3 = fq_queued_tree m" "fq_flows_list m3 = fq_flows_list m"
    "fq_sending_flow m3 = None" "fq_previous_flow m3 = Some f" "fq_schedule_job m3"
    "fq_output_mtu m3 = fq_output_mtu m" "fq_packet_weight m3 = fq_packet_weight m"
    "fq_freeing m3 = fq_freeing m" "dom (fq_flows m3) = dom (fq_flows m)"
    using m2(4,5) by (auto simp: m3_def)
  have reads: "fq_time m3 = fq_time m2" "fq_is_queued m3 = fq_is_queued m" "fq_data_of m3 = fq_data_of m"
    using m2(6,7) r rd fq_reads_flows [of "m2\<lparr>fq_schedule_job := True\<rparr>" m2]
      fq_data_of_flows [of "m2\<lparr>fq_schedule_job := True\<rparr>" m2]
    by (simp_all add: m3_def)
  have q: "q \<in> dom (fq_flows m) \<and> q \<noteq> f" if "q \<in> set (fq_queued_tree m)" for q
    using that st ph(2) is_queued_dom by (auto simp: fq_struct_def)
  then have "flow_less m3 a b" if "a \<in> set (fq_queued_tree m)" "b \<in> set (fq_queued_tree m)" "flow_less m a b" for a b
    using that m2(2,3) r by (auto simp: flow_less_def reads word_less_nat_alt word_unat_eq_iff)
  then have "fq_order m3" using o' by (auto simp: fq_order_def sel intro: sorted_wrt_times)
  moreover have "fq_struct m3" using st by (simp add: fq_struct_def sel reads)
  moreover have "fq_phase m3" using ph by (simp add: fq_phase_def sel reads)
  moreover have "fq_conserving m3" by (simp add: fq_conserving_def sel)
  ultimately show ?thesis
    using res sel by (auto simp: fq_inv_def fq_same_def acts_def)
qed

lemma schedule_job_ok:
  assumes inv: "fq_inv m" and job: "fq_schedule_job m" and nf: "\<not> fq_freeing m"
  shows "\<exists>m' acts. schedule_job_handler (m\<lparr>fq_schedule_job := False\<rparr>) = Some (m', acts)
     \<and> fq_inv m' \<and> fq_same m m' \<and>
     (if fq_queued_tree m = [] then acts = [] \<and> fq_sending_flow m' = None \<and> fq_queued_tree m' = []
      else \<exists>f. acts = [FQ_Output_Send (fq_data_of m f)] \<and> fq_sending_flow m' = Some f
        \<and> tree_first (fq_queued_tree m) = Some f \<and> set (fq_queued_tree m') = set (fq_queued_tree m) - {f}
        \<and> length (fq_data_of m f) \<le> fq_output_mtu m)"
proof -
  let ?m = "m\<lparr>fq_schedule_job := False, fq_previous_flow := None\<rparr>"
  note r = fq_reads_flows [of ?m m] and rd = fq_data_of_flows [of ?m m]
  have idle: "fq_sending_flow m = None" using inv job by (auto simp: fq_inv_def fq_phase_def)
  have st: "fq_struct ?m" "fq_order ?m"
    using inv r rd idle by (simp_all add: fq_inv_def fq_struct_def fq_order_def)
  show ?thesis
  proof (cases "fq_queued_tree m = []")
    case True
    then have "fq_inv ?m"
      using st idle by (simp add: fq_inv_def fq_phase_def fq_conserving_def)
    then show ?thesis
      using True idle nf by (simp add: schedule_job_handler_def Let_def fq_same_def)
  next
    case False
    from schedule_ok [OF st] obtain m' f where "fq_schedule ?m = Some (m', [FQ_Output_Send (fq_data_of ?m f)])"
      "fq_inv m'" "fq_sending_flow m' = Some f" "tree_first (fq_queued_tree ?m) = Some f"
      "set (fq_queued_tree m') = set (fq_queued_tree ?m) - {f}"
      "length (fq_data_of ?m f) \<le> fq_output_mtu ?m"
      "dom (fq_flows m') = dom (fq_flows ?m)" "fq_output_mtu m' = fq_output_mtu ?m"
      "fq_freeing m' = fq_freeing ?m" "fq_packet_weight m' = fq_packet_weight ?m"
      using idle nf False by auto
    then show ?thesis
      using False idle nf rd by (simp add: schedule_job_handler_def Let_def fq_same_def)
  qed
qed

text \<open>The state of \<open>input_handler_send\<close> once the flow is queued.\<close>

lemma enqueue_ok:
  assumes inv: "fq_inv m" and f: "f \<in> dom (fq_flows m)" "\<not> fq_is_queued m f" "fq_sending_flow m \<noteq> Some f"
    and len: "length data \<le> fq_output_mtu m" and nf: "\<not> fq_freeing m"
  shows "\<exists>m1. fq_input_handler_send f data m
       = (if fq_sending_flow m1 = None \<and> \<not> fq_schedule_job m1 then fq_schedule m1 else Some (m1, []))
     \<and> fq_struct m1 \<and> fq_order m1 \<and> fq_phase m1 \<and> fq_same m m1
     \<and> set (fq_queued_tree m1) = insert f (set (fq_queued_tree m))
     \<and> fq_sending_flow m1 = fq_sending_flow m \<and> fq_schedule_job m1 = fq_schedule_job m
     \<and> (fq_sending_flow m = None \<and> \<not> fq_schedule_job m \<longrightarrow> fq_previous_flow m1 = None)"
proof -
  have st: "fq_struct m" and o': "fq_order m" and ph: "fq_phase m" using inv by (auto simp: fq_inv_def)
  obtain now where now: "fq_get_current_time m = Some now"
    "\<And>g. fq_sending_flow m = Some g \<Longrightarrow> now = fq_time m g"
    using current_time_ok [OF st o'] by blast
  let ?prev = "Some f = fq_previous_flow m"
  define ma where "ma = (if ?prev then m\<lparr>fq_previous_flow := None\<rparr>
     else fq_update f (fl_time_update (\<lambda>t. max t now)) m)"
  define mb where "mb = fq_update f (fl_data_update (\<lambda>_. data)) ma"
  have a: "fq_queued_tree mb = fq_queued_tree m" "fq_flows_list mb = fq_flows_list m"
    "fq_sending_flow mb = fq_sending_flow m" "fq_schedule_job mb = fq_schedule_job m"
    "fq_output_mtu mb = fq_output_mtu m" "fq_packet_weight mb = fq_packet_weight m"
    "fq_freeing mb = fq_freeing m" "dom (fq_flows mb) = dom (fq_flows m)"
    "fq_previous_flow mb = (if ?prev then None else fq_previous_flow m)"
    "fq_is_queued mb = fq_is_queued m" "fq_sending_len mb = fq_sending_len m"
    using fq_reads_flows(2) [of "m\<lparr>fq_previous_flow := None\<rparr>" m] by (auto simp: mb_def ma_def)
  have t: "fq_time mb g = fq_time m g" if "g \<noteq> f" for g
    using that f(1) fq_reads_flows(1) [of "m\<lparr>fq_previous_flow := None\<rparr>" m]
    by (simp add: mb_def ma_def fq_time_update)
  have tf: "fq_sending_flow m = Some g \<Longrightarrow> fq_time m g \<le> fq_time mb f" for g
  proof -
    assume g: "fq_sending_flow m = Some g"
    then have "\<not> ?prev" using ph by (auto simp: fq_phase_def)
    then show ?thesis using now(2) [OF g] f(1) by (simp add: mb_def ma_def fq_time_update)
  qed
  have data: "fq_data_of mb g = (if g = f then data else fq_data_of m g)" for g
  proof -
    have "fq_data_of ma = fq_data_of m" using fq_data_of_flows [of "m\<lparr>fq_previous_flow := None\<rparr>" m]
      by (simp add: ma_def)
    moreover have "f \<in> dom (fq_flows ma)" using f(1) by (simp add: ma_def)
    ultimately show ?thesis
      by (auto simp: mb_def fq_data_of_def fun_eq_iff split: option.splits)
  qed
  have notin: "f \<notin> set (fq_queued_tree m)" using st f(2) by (auto simp: fq_struct_def)
  have "sorted_wrt (flow_less mb) (fq_queued_tree m)"
  proof (rule sorted_wrt_times)
    show "sorted_wrt (flow_less m) (fq_queued_tree m)" using o' by (simp add: fq_order_def)
    fix a b assume "a \<in> set (fq_queued_tree m)" "b \<in> set (fq_queued_tree m)" "flow_less m a b"
    then show "flow_less mb a b" using notin t by (metis flow_less_def)
  qed
  from tree_insert_sorted [OF this notin] obtain t' where t': "tree_insert mb f (fq_queued_tree m) = Some t'"
    "set t' = insert f (set (fq_queued_tree m))" "sorted_wrt (flow_less mb) t'" "distinct t'"
    using st by (auto simp: fq_struct_def)
  define m1 where "m1 = fq_update f (fl_is_queued_update (\<lambda>_. True)) (mb\<lparr>fq_queued_tree := t'\<rparr>)"
  have q1: "fq_is_queued m1 g = (g = f \<or> fq_is_queued m g)" for g
    using fq_is_queued_update [of f "mb\<lparr>fq_queued_tree := t'\<rparr>" True g] f(1)
      fq_reads_flows(2) [of "mb\<lparr>fq_queued_tree := t'\<rparr>" mb] a by (auto simp: m1_def)
  have r1: "fq_time m1 = fq_time mb" "flow_less m1 = flow_less mb" "fq_data_of m1 = fq_data_of mb"
    using fq_reads_flows(1) [of "mb\<lparr>fq_queued_tree := t'\<rparr>" mb] fq_data_of_flows [of "mb\<lparr>fq_queued_tree := t'\<rparr>" mb]
    by (auto simp: m1_def flow_less_def fun_eq_iff)
  have res: "fq_input_handler_send f data m
       = (if fq_sending_flow m1 = None \<and> \<not> fq_schedule_job m1 then fq_schedule m1 else Some (m1, []))"
  proof -
    have s1: "(if Some f = fq_previous_flow m then Some (m\<lparr>fq_previous_flow := None\<rparr>)
          else do { now \<leftarrow> fq_get_current_time m;
                    Some (fq_update f (fl_time_update (\<lambda>t. max t now)) m) }) = Some ma"
      using now(1) by (simp add: ma_def)
    have s2: "tree_insert (fq_update f (fl_data_update (\<lambda>_. data)) ma) f (fq_queued_tree ma) = Some t'"
      using t'(1) a(1) by (simp add: mb_def)
    show ?thesis
      unfolding fq_input_handler_send_def s1
      using f nf s2 by (simp add: Let_def mb_def m1_def)
  qed
  have b: "fq_queued_tree m1 = t'" "fq_flows_list m1 = fq_flows_list m"
    "fq_sending_flow m1 = fq_sending_flow m" "fq_schedule_job m1 = fq_schedule_job m"
    "fq_output_mtu m1 = fq_output_mtu m" "fq_packet_weight m1 = fq_packet_weight m"
    "fq_freeing m1 = fq_freeing m" "dom (fq_flows m1) = dom (fq_flows m)"
    "fq_previous_flow m1 = (if ?prev then None else fq_previous_flow m)" "fq_sending_len m1 = fq_sending_len m"
    using a by (simp_all add: m1_def)
  have "fq_struct m1"
    using st t' len by (auto simp: fq_struct_def b q1 r1 data)
  moreover have "fq_order m1"
    unfolding fq_order_def b r1
  proof (intro conjI allI impI ballI)
    show "sorted_wrt (flow_less mb) t'" by (rule t')
    fix g q assume g: "fq_sending_flow m = Some g" and q: "q \<in> set t'"
    have "g \<noteq> f" using g f(3) by auto
    then show "fq_time mb g \<le> fq_time mb q"
      using q t' g tf [OF g] t notin o' by (cases "q = f") (auto simp: fq_order_def)
  qed
  moreover have "fq_phase m1"
    using ph f(3) by (auto simp: fq_phase_def b q1)
  moreover have "fq_sending_flow m = None \<and> \<not> fq_schedule_job m \<longrightarrow> fq_previous_flow m1 = None"
    using ph by (auto simp: fq_phase_def b)
  ultimately show ?thesis
    using res t'(2) b by (intro exI [of _ m1]) (simp add: fq_same_def)
qed

lemma send_ok:
  assumes inv: "fq_inv m" and f: "f \<in> dom (fq_flows m)" "\<not> fq_is_queued m f" "fq_sending_flow m \<noteq> Some f"
    and len: "length data \<le> fq_output_mtu m" and nf: "\<not> fq_freeing m"
  shows "\<exists>m' acts. fq_input_handler_send f data m = Some (m', acts) \<and> fq_inv m' \<and> fq_same m m'
     \<and> set (fq_queued_tree m') \<union> set_option (fq_sending_flow m')
       = insert f (set (fq_queued_tree m) \<union> set_option (fq_sending_flow m))
     \<and> (acts = [] \<and> fq_sending_flow m' = fq_sending_flow m
        \<or> fq_sending_flow m = None \<and> fq_sending_flow m' \<noteq> None
          \<and> (\<exists>d. acts = [FQ_Output_Send d] \<and> length d \<le> fq_output_mtu m))"
proof -
  from enqueue_ok [OF assms] obtain m1 where m1:
    "fq_input_handler_send f data m
       = (if fq_sending_flow m1 = None \<and> \<not> fq_schedule_job m1 then fq_schedule m1 else Some (m1, []))"
    "fq_struct m1" "fq_order m1" "fq_phase m1" "fq_same m m1"
    "set (fq_queued_tree m1) = insert f (set (fq_queued_tree m))"
    "fq_sending_flow m1 = fq_sending_flow m" "fq_schedule_job m1 = fq_schedule_job m"
    "fq_sending_flow m = None \<and> \<not> fq_schedule_job m \<longrightarrow> fq_previous_flow m1 = None"
    by blast
  show ?thesis
  proof (cases "fq_sending_flow m1 = None \<and> \<not> fq_schedule_job m1")
    case False
    then have "fq_inv m1" using m1 by (auto simp: fq_inv_def fq_conserving_def)
    then show ?thesis using False m1 by auto
  next
    case True
    then have "fq_previous_flow m1 = None" "\<not> fq_freeing m1" "fq_queued_tree m1 \<noteq> []"
      using m1 nf by (auto simp: fq_same_def)
    with schedule_ok [OF m1(2,3)] True obtain m' q where
      "fq_schedule m1 = Some (m', [FQ_Output_Send (fq_data_of m1 q)])" "fq_inv m'"
      "fq_sending_flow m' = Some q" "tree_first (fq_queued_tree m1) = Some q"
      "set (fq_queued_tree m') = set (fq_queued_tree m1) - {q}"
      "length (fq_data_of m1 q) \<le> fq_output_mtu m1" "fq_same m1 m'"
      by (auto simp: fq_same_def)
    moreover have "q \<in> set (fq_queued_tree m1)"
      using tree_first_least(1) [OF m1(2,3) calculation(4)] .
    ultimately show ?thesis
      using True m1 by (auto simp: fq_same_def)
  qed
qed

lemma flow_init_ok:
  assumes "fq_inv m" "f \<notin> dom (fq_flows m)" "\<not> fq_freeing m"
  shows "\<exists>m'. PacketPassFairQueueFlow_Init f m = Some m' \<and> fq_inv m'
     \<and> dom (fq_flows m') = insert f (dom (fq_flows m)) \<and> fq_queued_tree m' = fq_queued_tree m
     \<and> fq_sending_flow m' = fq_sending_flow m \<and> fq_output_mtu m' = fq_output_mtu m \<and> \<not> fq_freeing m'"
proof -
  let ?m = "m\<lparr>fq_flows := (fq_flows m)(f \<mapsto> \<lparr> fl_has_busy = False, fl_time = 0,
               fl_is_queued = False, fl_data = [] \<rparr>), fq_flows_list := fq_flows_list m @ [f]\<rparr>"
  have q: "fq_is_queued ?m = fq_is_queued m" and d: "fq_data_of ?m = fq_data_of m"
    and t: "fq_time ?m = fq_time m"
    using assms(2) by (auto simp: fq_is_queued_def fq_data_of_def fq_time_def fun_eq_iff split: option.splits)
  then have l: "flow_less ?m = flow_less m" by (auto simp: flow_less_def fun_eq_iff)
  have "fq_inv ?m"
    using assms unfolding fq_inv_def fq_struct_def fq_order_def fq_phase_def fq_conserving_def q d t l
    by auto
  then show ?thesis using assms by (simp add: PacketPassFairQueueFlow_Init_def)
qed

lemma flow_free_ok':
  assumes inv: "fq_struct m" "fq_order m" "fq_phase m" and f: "f \<in> dom (fq_flows m)" "fq_freeing m \<or> fq_sending_flow m \<noteq> Some f"
  shows "\<exists>m'. PacketPassFairQueueFlow_Free f m = Some m'
     \<and> fq_struct m' \<and> fq_order m' \<and> fq_phase m' \<and> (\<not> fq_freeing m \<and> fq_conserving m \<longrightarrow> fq_conserving m')
     \<and> dom (fq_flows m') = dom (fq_flows m) - {f} \<and> set (fq_queued_tree m') = set (fq_queued_tree m) - {f}
     \<and> fq_sending_flow m' = (if fq_sending_flow m = Some f then None else fq_sending_flow m)
     \<and> fq_output_mtu m' = fq_output_mtu m \<and> fq_freeing m' = fq_freeing m"
proof -
  let ?s = "if Some f = fq_sending_flow m then None else fq_sending_flow m"
  let ?p = "if Some f = fq_previous_flow m then None else fq_previous_flow m"
  define M where "M = m\<lparr>fq_sending_flow := ?s, fq_previous_flow := ?p, fq_queued_tree := remove1 f (fq_queued_tree m),
     fq_flows_list := remove1 f (fq_flows_list m), fq_flows := (fq_flows m)(f := None)\<rparr>"
  note st = inv(1)
  have q: "fq_is_queued M g = (g \<noteq> f \<and> fq_is_queued m g)"
    and d: "g \<noteq> f \<Longrightarrow> fq_data_of M g = fq_data_of m g"
    and t: "g \<noteq> f \<Longrightarrow> fq_time M g = fq_time m g" for g
    by (simp_all add: fq_is_queued_def fq_data_of_def fq_time_def M_def)
  have sel: "fq_sending_flow M = ?s" "fq_previous_flow M = ?p" "fq_queued_tree M = remove1 f (fq_queued_tree m)"
    "fq_flows_list M = remove1 f (fq_flows_list m)" "dom (fq_flows M) = dom (fq_flows m) - {f}"
    "fq_output_mtu M = fq_output_mtu m" "fq_packet_weight M = fq_packet_weight m"
    "fq_freeing M = fq_freeing m" "fq_schedule_job M = fq_schedule_job m" "fq_sending_len M = fq_sending_len m"
    by (auto simp: M_def)
  have tree: "remove1 f (fq_queued_tree m) = filter (\<lambda>g. g \<noteq> f) (fq_queued_tree m)"
    "set (remove1 f (fq_flows_list m)) = set (fq_flows_list m) - {f}"
    using st by (auto simp: fq_struct_def distinct_remove1_removeAll removeAll_filter_not_eq
        intro!: filter_cong)
  have red: "fq_is_queued (m\<lparr>fq_sending_flow := a\<rparr>) = fq_is_queued m"
    "fq_is_queued (m\<lparr>fq_sending_flow := a, fq_previous_flow := b\<rparr>) = fq_is_queued m"
    "fq_is_queued (m\<lparr>fq_previous_flow := b\<rparr>) = fq_is_queued m" for a b
    by (simp_all add: fq_is_queued_def fun_eq_iff)
  have res: "PacketPassFairQueueFlow_Free f m = Some M"
  proof (cases "fq_is_queued m f")
    case True
    then have "f \<in> set (fq_queued_tree m)" using st by (auto simp: fq_struct_def)
    with True f show ?thesis by (auto simp: PacketPassFairQueueFlow_Free_def Let_def red M_def)
  next
    case False
    then have "f \<notin> set (fq_queued_tree m)" using st by (auto simp: fq_struct_def)
    with False f show ?thesis
      by (auto simp: PacketPassFairQueueFlow_Free_def Let_def red remove1_idem M_def)
  qed
  have struct: "fq_struct M"
    using st q d by (auto simp: fq_struct_def tree sel)
  have srt: "sorted_wrt (flow_less M) (remove1 f (fq_queued_tree m))"
    unfolding tree(1)
  proof (rule sorted_wrt_times)
    show "sorted_wrt (flow_less m) (filter (\<lambda>g. g \<noteq> f) (fq_queued_tree m))"
      using inv by (simp add: fq_order_def sorted_wrt_filter)
  qed (use t in \<open>auto simp: flow_less_def\<close>)
  have order: "fq_order M"
    using inv srt t by (auto simp: fq_order_def tree sel split: if_splits)
  have phase: "fq_phase M"
    using inv by (auto simp: fq_phase_def q sel split: if_splits)
  have cons: "fq_conserving M" if "\<not> fq_freeing m" "fq_conserving m"
    using inv f(2) that by (auto simp: fq_conserving_def tree sel)
  show ?thesis
    using res struct order phase cons by (intro exI [of _ M]) (auto simp: tree sel)
qed

lemma flow_free_ok:
  assumes "fq_inv m" "f \<in> dom (fq_flows m)" "fq_freeing m \<or> fq_sending_flow m \<noteq> Some f"
  shows "\<exists>m'. PacketPassFairQueueFlow_Free f m = Some m'
     \<and> fq_struct m' \<and> fq_order m' \<and> fq_phase m' \<and> (\<not> fq_freeing m \<longrightarrow> fq_conserving m')
     \<and> dom (fq_flows m') = dom (fq_flows m) - {f} \<and> set (fq_queued_tree m') = set (fq_queued_tree m) - {f}
     \<and> fq_sending_flow m' = (if fq_sending_flow m = Some f then None else fq_sending_flow m)
     \<and> fq_output_mtu m' = fq_output_mtu m \<and> fq_freeing m' = fq_freeing m"
  using flow_free_ok' [of m f] assms by (fastforce simp: fq_inv_def)

section \<open>The queue in its environment\<close>

record fq_sys =
  fs_queue :: fair_queue
  fs_out_busy :: bool
  fs_in_busy :: "nat set"

datatype fq_event =
    FE_Flow_Init nat | FE_Flow_Free nat | FE_Send nat "byte list" | FE_Schedule
  | FE_Output_Done | FE_RequestCancel nat | FE_SetBusyHandler nat bool | FE_PrepareFree

text \<open>The calls of the queue, with the assertions of the interfaces it calls.\<close>

fun fq_do :: "fq_act list \<Rightarrow> fq_sys \<Rightarrow> fq_sys option" where
  "fq_do [] s = Some s"
| "fq_do (FQ_Output_Send d # as) s = do {
     assert_that (\<not> fs_out_busy s); assert_that (length d \<le> fq_output_mtu (fs_queue s));
     fq_do as (s\<lparr>fs_out_busy := True\<rparr>) }"
| "fq_do (FQ_Output_RequestCancel # as) s = do { assert_that (fs_out_busy s); fq_do as s }"
| "fq_do (FQ_Input_Done f # as) s = do {
     assert_that (f \<in> fs_in_busy s); fq_do as (s\<lparr>fs_in_busy := fs_in_busy s - {f}\<rparr>) }"
| "fq_do (FQ_Handler_busy f # as) s = fq_do as s"

fun fq_enabled :: "fq_event \<Rightarrow> fq_sys \<Rightarrow> bool" where
  "fq_enabled (FE_Flow_Init f) s \<longleftrightarrow> f \<notin> dom (fq_flows (fs_queue s)) \<and> \<not> fq_freeing (fs_queue s)"
| "fq_enabled (FE_Flow_Free f) s \<longleftrightarrow> f \<in> dom (fq_flows (fs_queue s))
     \<and> (fq_freeing (fs_queue s) \<or> fq_sending_flow (fs_queue s) \<noteq> Some f)"
| "fq_enabled (FE_Send f d) s \<longleftrightarrow> f \<in> dom (fq_flows (fs_queue s)) \<and> f \<notin> fs_in_busy s
     \<and> length d \<le> fq_output_mtu (fs_queue s) \<and> \<not> fq_freeing (fs_queue s)"
| "fq_enabled FE_Schedule s \<longleftrightarrow> fq_schedule_job (fs_queue s) \<and> \<not> fq_freeing (fs_queue s)"
| "fq_enabled FE_Output_Done s \<longleftrightarrow> fs_out_busy s \<and> \<not> fq_freeing (fs_queue s)"
| "fq_enabled (FE_RequestCancel f) s \<longleftrightarrow> fq_sending_flow (fs_queue s) = Some f
     \<and> fq_use_cancel (fs_queue s) \<and> \<not> fq_freeing (fs_queue s)"
| "fq_enabled (FE_SetBusyHandler f b) s \<longleftrightarrow> fq_sending_flow (fs_queue s) = Some f
     \<and> \<not> fq_freeing (fs_queue s)"
| "fq_enabled FE_PrepareFree s \<longleftrightarrow> True"

definition fq_with :: "fq_sys \<Rightarrow> (fair_queue \<times> fq_act list) option \<Rightarrow> fq_sys option" where
  "fq_with s r = do { (m, as) \<leftarrow> r; fq_do as (s\<lparr>fs_queue := m\<rparr>) }"

fun fq_step :: "fq_event \<Rightarrow> fq_sys \<Rightarrow> fq_sys option" where
  "fq_step (FE_Flow_Init f) s = fq_with s (map_option (\<lambda>m. (m, [])) (PacketPassFairQueueFlow_Init f (fs_queue s)))"
| "fq_step (FE_Flow_Free f) s = fq_with (s\<lparr>fs_in_busy := fs_in_busy s - {f}\<rparr>)
     (map_option (\<lambda>m. (m, [])) (PacketPassFairQueueFlow_Free f (fs_queue s)))"
| "fq_step (FE_Send f d) s = fq_with (s\<lparr>fs_in_busy := insert f (fs_in_busy s)\<rparr>)
     (fq_input_handler_send f d (fs_queue s))"
| "fq_step FE_Schedule s = fq_with s (schedule_job_handler ((fs_queue s)\<lparr>fq_schedule_job := False\<rparr>))"
| "fq_step FE_Output_Done s = fq_with (s\<lparr>fs_out_busy := False\<rparr>) (fq_output_handler_done (fs_queue s))"
| "fq_step (FE_RequestCancel f) s = fq_with s
     (map_option (\<lambda>as. (fs_queue s, as)) (PacketPassFairQueueFlow_RequestCancel f (fs_queue s)))"
| "fq_step (FE_SetBusyHandler f b) s = fq_with s
     (map_option (\<lambda>m. (m, [])) (PacketPassFairQueueFlow_SetBusyHandler f b (fs_queue s)))"
| "fq_step FE_PrepareFree s = Some (s\<lparr>fs_queue := PacketPassFairQueue_PrepareFree (fs_queue s)\<rparr>)"

text \<open>MTUs and weights are \<open>int\<close> values.\<close>

inductive fq_reachable :: "fq_sys option \<Rightarrow> bool" where
  init: "PacketPassFairQueue_Init mtu hc uc weight = Some (Some m) \<Longrightarrow> mtu < 2 ^ 31 \<Longrightarrow> weight < 2 ^ 31 \<Longrightarrow>
     fq_reachable (Some \<lparr> fs_queue = m, fs_out_busy = False, fs_in_busy = {} \<rparr>)"
| step: "fq_reachable (Some s) \<Longrightarrow> fq_enabled e s \<Longrightarrow> fq_reachable (fq_step e s)"

definition fs_inv :: "fq_sys \<Rightarrow> bool" where
  "fs_inv s \<longleftrightarrow> (let m = fs_queue s in fq_struct m \<and> fq_order m \<and> fq_phase m
     \<and> (\<not> fq_freeing m \<longrightarrow> fq_conserving m \<and> (fs_out_busy s \<longleftrightarrow> fq_sending_flow m \<noteq> None))
     \<and> fs_in_busy s = set (fq_queued_tree m) \<union> set_option (fq_sending_flow m))"

lemma fs_inv_fq: "fs_inv s \<Longrightarrow> \<not> fq_freeing (fs_queue s) \<Longrightarrow> fq_inv (fs_queue s)"
  by (simp add: fs_inv_def fq_inv_def Let_def)

lemma fs_invI:
  "fq_inv (fs_queue s) \<Longrightarrow> fs_out_busy s = (fq_sending_flow (fs_queue s) \<noteq> None) \<Longrightarrow>
   fs_in_busy s = set (fq_queued_tree (fs_queue s)) \<union> set_option (fq_sending_flow (fs_queue s)) \<Longrightarrow> fs_inv s"
  by (simp add: fs_inv_def fq_inv_def Let_def)

lemma fs_step_send:
  assumes inv: "fs_inv s" and en: "fq_enabled (FE_Send f d) s"
  shows "\<exists>s'. fq_step (FE_Send f d) s = Some s' \<and> fs_inv s'"
proof -
  have nf: "\<not> fq_freeing (fs_queue s)" and busy: "f \<notin> fs_in_busy s" using en by auto
  have f: "\<not> fq_is_queued (fs_queue s) f" "fq_sending_flow (fs_queue s) \<noteq> Some f"
    using inv busy by (auto simp: fs_inv_def Let_def fq_struct_def)
  have d: "f \<in> dom (fq_flows (fs_queue s))" "length d \<le> fq_output_mtu (fs_queue s)" using en by auto
  obtain m' acts where
    m': "fq_input_handler_send f d (fs_queue s) = Some (m', acts)" "fq_inv m'" "fq_same (fs_queue s) m'"
    "set (fq_queued_tree m') \<union> set_option (fq_sending_flow m')
       = insert f (set (fq_queued_tree (fs_queue s)) \<union> set_option (fq_sending_flow (fs_queue s)))"
    and acts: "acts = [] \<and> fq_sending_flow m' = fq_sending_flow (fs_queue s)
        \<or> fq_sending_flow (fs_queue s) = None \<and> fq_sending_flow m' \<noteq> None
          \<and> (\<exists>d. acts = [FQ_Output_Send d] \<and> length d \<le> fq_output_mtu (fs_queue s))"
    using send_ok [OF fs_inv_fq [OF inv nf] d(1) f d(2) nf] by blast
  have "fs_out_busy s \<longleftrightarrow> fq_sending_flow (fs_queue s) \<noteq> None"
    "fs_in_busy s = set (fq_queued_tree (fs_queue s)) \<union> set_option (fq_sending_flow (fs_queue s))"
    using inv nf by (auto simp: fs_inv_def Let_def)
  note io = this
  define s1 where "s1 = s\<lparr>fs_in_busy := insert f (fs_in_busy s), fs_queue := m'\<rparr>"
  have busy1: "fs_in_busy s1 = set (fq_queued_tree (fs_queue s1)) \<union> set_option (fq_sending_flow (fs_queue s1))"
    using m'(4) io(2) by (simp add: s1_def)
  have mtu: "fq_output_mtu m' = fq_output_mtu (fs_queue s)" using m'(3) by (simp add: fq_same_def)
  have run: "fq_step (FE_Send f d) s = fq_do acts s1" using m'(1) by (simp add: fq_with_def s1_def)
  from acts show ?thesis
  proof (elim disjE conjE exE)
    assume a: "acts = []" "fq_sending_flow m' = fq_sending_flow (fs_queue s)"
    have "fs_inv s1" by (rule fs_invI [OF _ _ busy1]) (use m'(2) io(1) a(2) in \<open>simp_all add: s1_def\<close>)
    then show ?thesis using run a(1) by simp
  next
    fix e
    assume a: "fq_sending_flow (fs_queue s) = None" "fq_sending_flow m' \<noteq> None"
      "acts = [FQ_Output_Send e]" "length e \<le> fq_output_mtu (fs_queue s)"
    have "fq_do acts s1 = Some (s1\<lparr>fs_out_busy := True\<rparr>)"
      using a io(1) mtu by (simp add: s1_def)
    moreover have "fs_inv (s1\<lparr>fs_out_busy := True\<rparr>)"
      by (rule fs_invI) (use m'(2) a(2) busy1 in \<open>simp_all add: s1_def\<close>)
    ultimately show ?thesis using run by simp
  qed
qed

lemma fs_step_schedule:
  assumes inv: "fs_inv s" and en: "fq_enabled FE_Schedule s"
  shows "\<exists>s'. fq_step FE_Schedule s = Some s' \<and> fs_inv s'"
proof -
  let ?m = "fs_queue s"
  have nf: "\<not> fq_freeing ?m" and job: "fq_schedule_job ?m" using en by auto
  note i = fs_inv_fq [OF inv nf]
  have idle: "fq_sending_flow ?m = None" using i job by (auto simp: fq_inv_def fq_phase_def)
  have io: "fs_out_busy s \<longleftrightarrow> fq_sending_flow ?m \<noteq> None"
    "fs_in_busy s = set (fq_queued_tree ?m) \<union> set_option (fq_sending_flow ?m)"
    using inv nf by (auto simp: fs_inv_def Let_def)
  show ?thesis
  proof (cases "fq_queued_tree ?m = []")
    case True
    with schedule_job_ok [OF i job nf] io idle show ?thesis
      by (auto simp: fq_with_def intro!: fs_invI)
  next
    case False
    with schedule_job_ok [OF i job nf] obtain m' f where m':
      "schedule_job_handler (?m\<lparr>fq_schedule_job := False\<rparr>) = Some (m', [FQ_Output_Send (fq_data_of ?m f)])"
      "fq_inv m'" "fq_same ?m m'" "fq_sending_flow m' = Some f" "tree_first (fq_queued_tree ?m) = Some f"
      "set (fq_queued_tree m') = set (fq_queued_tree ?m) - {f}" "length (fq_data_of ?m f) \<le> fq_output_mtu ?m"
      by auto
    moreover have "f \<in> set (fq_queued_tree ?m)"
      using i m'(5) tree_first_least(1) by (auto simp: fq_inv_def)
    ultimately show ?thesis
      using io idle by (auto simp: fq_with_def fq_same_def intro!: fs_invI)
  qed
qed

lemma fs_step_output_done:
  assumes inv: "fs_inv s" and en: "fq_enabled FE_Output_Done s"
  shows "\<exists>s'. fq_step FE_Output_Done s = Some s' \<and> fs_inv s'"
proof -
  let ?m = "fs_queue s"
  have nf: "\<not> fq_freeing ?m" using en by auto
  note i = fs_inv_fq [OF inv nf]
  have io: "fs_out_busy s \<longleftrightarrow> fq_sending_flow ?m \<noteq> None"
    "fs_in_busy s = set (fq_queued_tree ?m) \<union> set_option (fq_sending_flow ?m)"
    using inv nf by (auto simp: fs_inv_def Let_def)
  then obtain f where f: "fq_sending_flow ?m = Some f" using en by auto
  from output_done_ok [OF i f nf] obtain m' acts where m':
    "fq_output_handler_done ?m = Some (m', acts)" "fq_inv m'" "fq_sending_flow m' = None"
    "fq_queued_tree m' = fq_queued_tree ?m" "acts \<in> {[FQ_Input_Done f], [FQ_Input_Done f, FQ_Handler_busy f]}"
    by blast
  have "f \<notin> set (fq_queued_tree ?m)"
    using i f by (auto simp: fq_inv_def fq_phase_def fq_struct_def)
  with m' io f show ?thesis by (auto simp: fq_with_def intro!: fs_invI)
qed

lemma fs_step_inv:
  assumes inv: "fs_inv s" and en: "fq_enabled e s"
  shows "\<exists>s'. fq_step e s = Some s' \<and> fs_inv s'"
proof (cases e)
  case (FE_Flow_Init f)
  then have nf: "\<not> fq_freeing (fs_queue s)" "f \<notin> dom (fq_flows (fs_queue s))" using en by auto
  from flow_init_ok [OF fs_inv_fq [OF inv nf(1)] nf(2,1)] inv nf FE_Flow_Init show ?thesis
    by (auto simp: fq_with_def fs_inv_def Let_def fq_inv_def)
next
  case (FE_Flow_Free f)
  show ?thesis
  proof (cases "fq_freeing (fs_queue s)")
    case True
    then have "fq_inv (fs_queue s) \<or> fq_freeing (fs_queue s)" by simp
    have "fs_inv s" by (rule inv)
    then have "fq_struct (fs_queue s)" "fq_order (fs_queue s)" "fq_phase (fs_queue s)"
      by (auto simp: fs_inv_def Let_def)
    from flow_free_ok' [OF this, of f] en FE_Flow_Free inv True show ?thesis
      by (auto simp: fq_with_def fs_inv_def Let_def)
  next
    case False
    from flow_free_ok [OF fs_inv_fq [OF inv False], of f] en FE_Flow_Free inv False show ?thesis
      by (auto simp: fq_with_def fs_inv_def Let_def)
  qed
next
  case (FE_Send f d)
  then show ?thesis using fs_step_send inv en by simp
next
  case FE_Schedule
  then show ?thesis using fs_step_schedule inv en by simp
next
  case FE_Output_Done
  then show ?thesis using fs_step_output_done inv en by simp
next
  case (FE_RequestCancel f)
  then show ?thesis
    using inv en by (auto simp: fq_with_def fs_inv_def Let_def PacketPassFairQueueFlow_RequestCancel_def fq_phase_def)
next
  case (FE_SetBusyHandler f b)
  let ?m = "fq_update f (fl_has_busy_update (\<lambda>_. b)) (fs_queue s)"
  have l: "flow_less ?m = flow_less (fs_queue s)" by (auto simp: flow_less_def fun_eq_iff)
  have "fq_inv (fs_queue s)" using fs_inv_fq inv en FE_SetBusyHandler by simp
  then have "fq_inv ?m"
    by (simp add: fq_inv_def fq_struct_def fq_order_def fq_phase_def fq_conserving_def l)
  then show ?thesis
    using inv en FE_SetBusyHandler
    by (auto simp: fq_with_def fs_inv_def Let_def PacketPassFairQueueFlow_SetBusyHandler_def fq_inv_def)
next
  case FE_PrepareFree
  have r: "flow_less (m\<lparr>fq_freeing := True\<rparr>) = flow_less m" "fq_time (m\<lparr>fq_freeing := True\<rparr>) = fq_time m"
    "fq_is_queued (m\<lparr>fq_freeing := True\<rparr>) = fq_is_queued m" "fq_data_of (m\<lparr>fq_freeing := True\<rparr>) = fq_data_of m" for m
    by (rule fq_reads_flows fq_data_of_flows; simp)+
  then show ?thesis
    using inv FE_PrepareFree
    by (simp add: fs_inv_def Let_def PacketPassFairQueue_PrepareFree_def fq_struct_def fq_order_def fq_phase_def r)
qed

lemma fq_init_inv:
  assumes "PacketPassFairQueue_Init mtu hc uc weight = Some (Some m)" "mtu < 2 ^ 31" "weight < 2 ^ 31"
  shows "fs_inv \<lparr> fs_queue = m, fs_out_busy = False, fs_in_busy = {} \<rparr>"
  using assms by (auto simp: PacketPassFairQueue_Init_def fs_inv_def Let_def fq_struct_def fq_order_def
      fq_phase_def fq_conserving_def fq_is_queued_def split: if_splits)

lemma fq_reachable_inv: "fq_reachable r \<Longrightarrow> \<exists>s. r = Some s \<and> fs_inv s"
proof (induction rule: fq_reachable.induct)
  case (init mtu hc uc weight m)
  from fq_init_inv [OF this] show ?case by blast
next
  case (step s e)
  then show ?case using fs_step_inv by blast
qed

text \<open>
  C10. Flows may be created and freed, send whenever their input is idle, request cancellation, and
  the output may complete at any time: no assertion of the fair queue or of the interfaces it calls
  fails (in particular the output is never given a packet while it is busy), and the queue is work
  conserving: while a flow is queued, a packet is being sent or the schedule job is pending.
\<close>

theorem FairQueue_no_assertion_fails:
  assumes "fq_reachable r"
  shows "\<exists>s. r = Some s \<and> (fq_freeing (fs_queue s) \<or> fq_queued_tree (fs_queue s) = []
     \<or> fs_out_busy s \<or> fq_schedule_job (fs_queue s))"
  using fq_reachable_inv [OF assms] by (auto simp: fs_inv_def Let_def fq_conserving_def)

text \<open>
  C11. When the schedule job runs with flows queued, the packet passed to the output is that of a
  queued flow whose virtual time no other queued flow is below.
\<close>

theorem FairQueue_sends_least:
  assumes "fq_reachable (Some s)" "fq_enabled FE_Schedule s" "fq_queued_tree (fs_queue s) \<noteq> []"
  shows "\<exists>m' f. schedule_job_handler ((fs_queue s)\<lparr>fq_schedule_job := False\<rparr>)
       = Some (m', [FQ_Output_Send (fq_data_of (fs_queue s) f)])
     \<and> fq_sending_flow m' = Some f \<and> f \<in> set (fq_queued_tree (fs_queue s))
     \<and> (\<forall>g \<in> set (fq_queued_tree (fs_queue s)). fq_time (fs_queue s) f \<le> fq_time (fs_queue s) g)"
proof -
  have inv: "fs_inv s" using fq_reachable_inv [OF assms(1)] by simp
  have nf: "\<not> fq_freeing (fs_queue s)" and job: "fq_schedule_job (fs_queue s)" using assms(2) by auto
  note i = fs_inv_fq [OF inv nf]
  then have st: "fq_struct (fs_queue s)" "fq_order (fs_queue s)" by (auto simp: fq_inv_def)
  from schedule_job_ok [OF i job nf] assms(3) obtain m' f where
    "schedule_job_handler ((fs_queue s)\<lparr>fq_schedule_job := False\<rparr>)
       = Some (m', [FQ_Output_Send (fq_data_of (fs_queue s) f)])"
    "fq_sending_flow m' = Some f" "tree_first (fq_queued_tree (fs_queue s)) = Some f"
    by auto
  with tree_first_least(1,4) [OF st this(3)] show ?thesis by blast
qed

text \<open>
  The 64-bit virtual times never go wrong: after a packet of virtual length \<open>amount\<close>, for one
  common offset \<open>s\<close> (zero unless the sum overflows) the time of the sender is exactly
  \<open>time + amount - s\<close> and that of every other flow is \<open>time - s\<close>, cut off at zero only for flows
  that are not queued. So the distances between the times of the queued flows and the sender are
  those of unbounded arithmetic.
\<close>

lemma increment_sent_flow_exact:
  assumes "fq_struct m" "sorted_wrt (flow_less m) (fq_queued_tree m)"
    and "\<forall>q \<in> set (fq_queued_tree m). fq_time m flow \<le> fq_time m q"
    and "flow \<in> dom (fq_flows m)" "\<not> fq_is_queued m flow" "fq_sending_flow m = None"
  shows "\<exists>m' s. increment_sent_flow flow amount m = Some m'
     \<and> (unat (fq_time m flow) + unat amount < 2 ^ 64 \<longrightarrow> s = 0)
     \<and> s \<le> unat (fq_time m flow) + unat amount
     \<and> unat (fq_time m' flow) = unat (fq_time m flow) + unat amount - s
     \<and> (\<forall>q \<in> set (fq_queued_tree m). s \<le> unat (fq_time m q))
     \<and> (\<forall>g \<in> dom (fq_flows m). g \<noteq> flow \<longrightarrow> unat (fq_time m' g) = unat (fq_time m g) - s)"
proof -
  from increment_ok [OF assms, of amount] show ?thesis by blast
qed

section \<open>Examples\<close>

definition example_queue :: "(nat \<Rightarrow> fq_flow option) \<Rightarrow> nat list \<Rightarrow> nat list \<Rightarrow> nat option \<Rightarrow> nat option \<Rightarrow> bool \<Rightarrow> fair_queue" where
  "example_queue flows list tree sending previous job = \<lparr> fq_use_cancel = False, fq_packet_weight = 1,
     fq_output_mtu = 10, fq_sending_flow = sending, fq_sending_len = 0, fq_previous_flow = previous,
     fq_queued_tree = tree, fq_flows_list = list, fq_flows = flows, fq_freeing = False, fq_schedule_job = job \<rparr>"

definition example_flow :: "u64 \<Rightarrow> bool \<Rightarrow> fq_flow" where
  "example_flow t q = \<lparr> fl_has_busy = False, fl_time = t, fl_is_queued = q, fl_data = [] \<rparr>"

lemma fq_step_reachable:
  "fq_reachable (Some s) \<Longrightarrow> fq_enabled e s \<Longrightarrow> fq_step e s = Some s' \<Longrightarrow> fq_reachable (Some s')"
  using fq_reachable.step by metis

lemmas fq_defs = fq_with_def fq_input_handler_send_def fq_get_current_time_def fq_schedule_def
  fq_output_handler_done_def increment_sent_flow_def schedule_job_handler_def
  PacketPassFairQueueFlow_Init_def example_queue_def example_flow_def fq_update_def fq_time_def
  fq_is_queued_def tree_first_def Let_def

lemma minus_eleven: "(1 :: u64) \<le> - 11"
  by code_simp

definition idle_state :: "nat \<Rightarrow> fq_sys" where
  "idle_state k = \<lparr> fs_queue = example_queue [1 \<mapsto> example_flow (of_nat k) False] [1] [] None None False,
     fs_out_busy = False, fs_in_busy = {} \<rparr>"

fun fq_exec :: "fq_event list \<Rightarrow> fq_sys \<Rightarrow> fq_sys option" where
  "fq_exec [] s = Some s"
| "fq_exec (e # es) s = (if fq_enabled e s then do { s' \<leftarrow> fq_step e s; fq_exec es s' } else None)"

lemma fq_exec_append: "fq_exec (es @ fs) s = do { s' \<leftarrow> fq_exec es s; fq_exec fs s' }"
  by (induction es arbitrary: s) (auto split: Option.bind_splits)

lemma fq_exec_reachable: "fq_reachable (Some s) \<Longrightarrow> fq_exec es s = Some s' \<Longrightarrow> fq_reachable (Some s')"
proof (induction es arbitrary: s)
  case (Cons e es)
  then obtain s1 where "fq_enabled e s" "fq_step e s = Some s1" "fq_exec es s1 = Some s'"
    by (auto simp: bind_Some split: if_splits)
  then show ?case using Cons fq_step_reachable by blast
qed simp

lemma concat_replicate_Suc: "concat (replicate (Suc j) xs) = concat (replicate j xs) @ xs"
  by (induction j) simp_all

definition fresh_queue :: fq_sys where
  "fresh_queue = \<lparr> fs_queue = example_queue Map.empty [] [] None None False, fs_out_busy = False, fs_in_busy = {} \<rparr>"

lemma fresh_queue_init:
  "PacketPassFairQueue_Init 10 False False 1 = Some (Some (example_queue Map.empty [] [] None None False))"
  using minus_eleven by (simp add: PacketPassFairQueue_Init_def example_queue_def FAIRQUEUE_MAX_TIME_def)

lemma fresh_queue_reachable: "fq_reachable (Some fresh_queue)"
  using fq_reachable.init [OF fresh_queue_init] by (simp add: fresh_queue_def)

text \<open>Flow 1 sends a packet and the queue becomes idle again.\<close>

definition idle_round :: "fq_event list" where
  "idle_round = [FE_Send 1 [], FE_Output_Done, FE_Schedule]"

lemma idle_start: "fq_exec [FE_Flow_Init 1] fresh_queue = Some (idle_state 0)"
  by (simp add: fq_defs idle_state_def fresh_queue_def)

lemma idle_round_step:
  assumes "k < 2 ^ 32"
  shows "fq_exec idle_round (idle_state k) = Some (idle_state (Suc k))"
proof -
  let ?s = "\<lambda>q ob ib. \<lparr> fs_queue = q, fs_out_busy = ob, fs_in_busy = ib \<rparr>"
  let ?q = "\<lambda>k. example_queue [1 \<mapsto> example_flow (of_nat k) False] [1] []"
  have k: "\<not> FAIRQUEUE_MAX_TIME - word_of_nat k < (1 :: u64)"
    using assms overflow_iff [of "of_nat k" 1] by (simp add: unat_of_nat)
  have "fq_step (FE_Send 1 []) (idle_state k) = Some (?s (?q k (Some 1) None False) True {1})"
    by (simp add: fq_defs idle_state_def)
  moreover have "fq_step FE_Output_Done (?s (?q k (Some 1) None False) True {1})
      = Some (?s (?q (Suc k) None (Some 1) True) False {})"
    using k by (simp add: fq_defs FAIRQUEUE_MAX_TIME_def add.commute)
  moreover have "fq_step FE_Schedule (?s (?q (Suc k) None (Some 1) True) False {}) = Some (idle_state (Suc k))"
    by (simp add: fq_defs idle_state_def)
  ultimately show ?thesis
    by (simp add: idle_round_def) (simp add: idle_state_def example_queue_def)
qed

lemma idle_rounds: "k < 2 ^ 32 \<Longrightarrow> fq_exec (FE_Flow_Init 1 # concat (replicate k idle_round)) fresh_queue = Some (idle_state k)"
proof (induction k)
  case 0
  then show ?case using idle_start by simp
next
  case (Suc k)
  then show ?case
    using idle_round_step [of k] fq_exec_append [of "FE_Flow_Init 1 # concat (replicate k idle_round)" idle_round fresh_queue]
    by (simp add: concat_replicate_Suc del: replicate.simps fq_exec.simps)
qed

lemma idle_reachable: "k < 2 ^ 32 \<Longrightarrow> fq_reachable (Some (idle_state k))"
  using fq_exec_reachable [OF fresh_queue_reachable idle_rounds] .

lemma FairQueue_no_assertion_fails_witness:
  "\<exists>s. Some (idle_state 7) = Some s
     \<and> (fq_freeing (fs_queue s) \<or> fq_queued_tree (fs_queue s) = [] \<or> fs_out_busy s \<or> fq_schedule_job (fs_queue s))"
  by (rule FairQueue_no_assertion_fails) (rule idle_reachable, simp)

text \<open>Flow 1 has sent \<open>k\<close> empty packets alone; then flow 2 appears and sends, and flow 1 queues.\<close>

definition starve_state :: "nat \<Rightarrow> nat \<Rightarrow> fq_sys" where
  "starve_state k j = \<lparr> fs_queue = example_queue [1 \<mapsto> example_flow (of_nat k) True, 2 \<mapsto> example_flow (of_nat j) False]
       [1, 2] [1] (Some 2) None False, fs_out_busy = True, fs_in_busy = {1, 2} \<rparr>"

lemma starve_start:
  "fq_exec [FE_Flow_Init 2, FE_Send 2 [], FE_Send 1 []] (idle_state k) = Some (starve_state k 0)"
proof -
  let ?s = "\<lambda>q ob ib. \<lparr> fs_queue = q, fs_out_busy = ob, fs_in_busy = ib \<rparr>"
  let ?q = "example_queue [1 \<mapsto> example_flow (of_nat k) False, 2 \<mapsto> example_flow 0 False] [1, 2] []"
  have "fq_step (FE_Flow_Init 2) (idle_state k) = Some (?s (?q None None False) False {})"
    by (simp add: fq_defs idle_state_def)
  moreover have "fq_step (FE_Send 2 []) (?s (?q None None False) False {}) = Some (?s (?q (Some 2) None False) True {2})"
    by (simp add: fq_defs fun_upd_twist)
  moreover have "fq_step (FE_Send 1 []) (?s (?q (Some 2) None False) True {2}) = Some (starve_state k 0)"
    by (simp add: fq_defs starve_state_def fun_upd_twist)
  ultimately show ?thesis by simp (simp add: idle_state_def example_queue_def)
qed

lemma starve_reachable: "k < 2 ^ 32 \<Longrightarrow> fq_reachable (Some (starve_state k 0))"
  using fq_exec_reachable [OF idle_reachable starve_start] .

definition starve_round :: "fq_event list" where
  "starve_round = [FE_Output_Done, FE_Send 2 [], FE_Schedule]"

lemma starve_round_step:
  assumes "k < 2 ^ 32" "Suc j < k"
  shows "fq_exec starve_round (starve_state k j) = Some (starve_state k (Suc j))"
proof -
  let ?s = "\<lambda>q ob ib. \<lparr> fs_queue = q, fs_out_busy = ob, fs_in_busy = ib \<rparr>"
  let ?fl = "\<lambda>q. [1 \<mapsto> example_flow (of_nat k) True, 2 \<mapsto> example_flow (of_nat (Suc j)) q]"
  have lt: "(of_nat (Suc j) :: u64) < of_nat k" "\<not> (of_nat k :: u64) < of_nat (Suc j)"
    using assms by (simp_all add: word_less_nat_alt unat_of_nat del: of_nat_Suc)
  have mx: "\<not> FAIRQUEUE_MAX_TIME - word_of_nat j < (1 :: u64)"
    using assms overflow_iff [of "of_nat j" 1] by (simp add: unat_of_nat)
  have "fq_step FE_Output_Done (starve_state k j)
      = Some (?s (example_queue (?fl False) [1, 2] [1] None (Some 2) True) False {1})"
    using mx by (simp add: fq_defs starve_state_def FAIRQUEUE_MAX_TIME_def add.commute fun_upd_twist insert_Diff_if)
  moreover have "fq_step (FE_Send 2 []) (?s (example_queue (?fl False) [1, 2] [1] None (Some 2) True) False {1})
      = Some (?s (example_queue (?fl True) [1, 2] [2, 1] None None True) False {2, 1})"
    using lt by (simp add: fq_defs compare_flows_def fun_upd_twist)
  moreover have "fq_step FE_Schedule (?s (example_queue (?fl True) [1, 2] [2, 1] None None True) False {2, 1})
      = Some (starve_state k (Suc j))"
    by (simp add: fq_defs starve_state_def fun_upd_twist insert_commute)
  ultimately show ?thesis
    by (simp add: starve_round_def) (simp add: starve_state_def example_queue_def)
qed

lemma starve_rounds:
  "k < 2 ^ 32 \<Longrightarrow> j < k \<Longrightarrow> fq_exec (concat (replicate j starve_round)) (starve_state k 0) = Some (starve_state k j)"
proof (induction j)
  case (Suc j)
  then show ?case
    using starve_round_step [of k j] by (simp add: concat_replicate_Suc fq_exec_append del: replicate.simps)
qed simp

text \<open>
  C12. The queue is not fair across an idle moment: since \<open>get_current_time\<close> is zero when nothing is
  queued or sending, a flow that appears then starts from zero, while one that was there keeps its
  virtual time. For every \<open>k < 2^32\<close>: in a new queue flow 1 sends \<open>k\<close> packets, each sent before the
  next one comes, and nothing is queued or being sent any more; then flow 2 appears, and both flows send a
  packet of the same length as all the others. Flow 2 is served first, and for every \<open>j < k\<close> it can go on to send \<open>j\<close>
  further packets with flow 1 still waiting in the queue with its first one.
\<close>

theorem FairQueue_idle_flow_starved:
  assumes "k < 2 ^ 32"
  shows "\<exists>m s1 s2. PacketPassFairQueue_Init 10 False False 1 = Some (Some m)
     \<and> fq_exec (FE_Flow_Init 1 # concat (replicate k [FE_Send 1 [], FE_Output_Done, FE_Schedule]))
         \<lparr> fs_queue = m, fs_out_busy = False, fs_in_busy = {} \<rparr> = Some s1
     \<and> fq_queued_tree (fs_queue s1) = [] \<and> fq_sending_flow (fs_queue s1) = None
     \<and> fq_exec [FE_Flow_Init 2, FE_Send 2 [], FE_Send 1 []] s1 = Some s2
     \<and> (\<forall>j. j < k \<longrightarrow> (\<exists>s'. fq_exec (concat (replicate j [FE_Output_Done, FE_Send 2 [], FE_Schedule])) s2 = Some s'
          \<and> fq_sending_flow (fs_queue s') = Some 2 \<and> fq_queued_tree (fs_queue s') = [1]))"
proof -
  have "fq_sending_flow (fs_queue (starve_state k j)) = Some 2" "fq_queued_tree (fs_queue (starve_state k j)) = [1]" for j
    by (simp_all add: starve_state_def example_queue_def)
  moreover have "fq_queued_tree (fs_queue (idle_state k)) = []" "fq_sending_flow (fs_queue (idle_state k)) = None"
    by (simp_all add: idle_state_def example_queue_def)
  ultimately show ?thesis
    using fresh_queue_init idle_rounds [OF assms] starve_start starve_rounds [OF assms]
    unfolding starve_round_def idle_round_def fresh_queue_def by blast
qed

lemma FairQueue_idle_flow_starved_witness:
  "\<exists>m s1 s2. PacketPassFairQueue_Init 10 False False 1 = Some (Some m)
     \<and> fq_exec (FE_Flow_Init 1 # concat (replicate 1000 [FE_Send 1 [], FE_Output_Done, FE_Schedule]))
         \<lparr> fs_queue = m, fs_out_busy = False, fs_in_busy = {} \<rparr> = Some s1
     \<and> fq_queued_tree (fs_queue s1) = [] \<and> fq_sending_flow (fs_queue s1) = None
     \<and> fq_exec [FE_Flow_Init 2, FE_Send 2 [], FE_Send 1 []] s1 = Some s2
     \<and> (\<forall>j. j < 1000 \<longrightarrow> (\<exists>s'. fq_exec (concat (replicate j [FE_Output_Done, FE_Send 2 [], FE_Schedule])) s2 = Some s'
          \<and> fq_sending_flow (fs_queue s') = Some 2 \<and> fq_queued_tree (fs_queue s') = [1]))"
  by (rule FairQueue_idle_flow_starved) simp

lemma FairQueue_sends_least_witness:
  "\<exists>s m' f. fq_reachable (Some s) \<and> schedule_job_handler ((fs_queue s)\<lparr>fq_schedule_job := False\<rparr>)
       = Some (m', [FQ_Output_Send (fq_data_of (fs_queue s) f)])
     \<and> fq_sending_flow m' = Some f \<and> f \<in> set (fq_queued_tree (fs_queue s))"
proof -
  let ?fl = "[1 \<mapsto> example_flow 2 True, 2 \<mapsto> example_flow 1 False]"
  let ?s = "\<lparr> fs_queue = example_queue ?fl [1, 2] [1] None (Some 2) True, fs_out_busy = False, fs_in_busy = {1} \<rparr>"
  have "fq_reachable (Some ?s)"
    by (rule fq_step_reachable [OF starve_reachable [of 2], of FE_Output_Done])
      (simp_all add: fq_defs starve_state_def FAIRQUEUE_MAX_TIME_def fun_upd_twist insert_Diff_if)
  moreover from FairQueue_sends_least [OF this]
  have "\<exists>m' f. schedule_job_handler ((fs_queue ?s)\<lparr>fq_schedule_job := False\<rparr>)
       = Some (m', [FQ_Output_Send (fq_data_of (fs_queue ?s) f)])
     \<and> fq_sending_flow m' = Some f \<and> f \<in> set (fq_queued_tree (fs_queue ?s))"
    by (simp add: example_queue_def)
  ultimately show ?thesis by blast
qed

end
