(* ===== verification/TcpClient.thy ===== *)
theory TcpClient
  imports BAddr
begin

text \<open>
  The TCP clients of \<open>tun2socks/tun2socks.c\<close>: each connection accepted by lwIP is relayed to a
  connection of a SOCKS client. The model keeps the clients by their address (\<open>None\<close> is memory not
  allocated, so a use after free is \<open>None\<close>), the list and the counter of clients, and the stack
  variables the dead markers of \<open>misc/dead.h\<close> point to.

  The other side of every call is kept next to it: the pcbs the program may still use with the
  callbacks registered on them, the receive window and the bytes not yet acknowledged, and for every
  SOCKS client whether its two interfaces are busy. A call that the interface forbids (a call on
  a freed pcb, a second send while one is in progress, a free of a freed object) is \<open>None\<close>. The outcomes
  of the lwIP calls are the argument \<open>lw\<close>. What the event loop does in \<open>SYNC_COMMIT\<close> is the argument \<open>sync\<close>.
\<close>

datatype err_t = ERR_OK | ERR_MEM | ERR_ABRT | ERR_OTHER

text \<open>\<open>TCP_WND\<close> is \<open>4 * TCP_MSS\<close>, and the size of the buffer for data from the SOCKS server.\<close>

definition TCP_WND :: nat where "TCP_WND = 4 * 1460"
definition CLIENT_SOCKS_RECV_BUF_SIZE :: nat where "CLIENT_SOCKS_RECV_BUF_SIZE = 8192"

text \<open>A user name with a source address appended, as a pair.\<close>

datatype username = User string | User_at string baddr

record tcp_client =
  tc_aborted :: bool
  tc_dead_aborted :: "nat option"
  tc_local_addr :: baddr
  tc_remote_addr :: baddr
  tc_pcb :: nat
  tc_client_closed :: bool
  tc_buf :: "byte list"
  tc_socks_username :: "username option"
  tc_socks_up :: bool
  tc_socks_closed :: bool
  tc_recv_buf :: "byte list"
  tc_recv_buf_used :: int
  tc_recv_buf_sent :: int
  tc_recv_waiting :: bool
  tc_recv_tcp_pending :: int

text \<open>The other side: a pcb in use, and a SOCKS client with its pending send (a length) and receive.\<close>

record pcb_env =
  pe_arg :: nat
  pe_err :: bool
  pe_recv :: bool
  pe_sent :: bool
  pe_wnd :: nat
  pe_unacked :: nat

record socks_env =
  so_dest :: baddr
  so_up :: bool
  so_send :: "nat option"
  so_recv :: bool

record stream_log =
  lg_from_client :: "byte list"
  lg_to_socks :: "byte list"
  lg_from_socks :: "byte list"
  lg_to_client :: "byte list"

record tun_tcp =
  tt_clients :: "nat \<Rightarrow> tcp_client option"
  tt_tcp_clients :: "nat list"
  tt_num_clients :: int
  tt_frames :: "int list"
  tt_auth_username :: "nat option"
  tt_pcbs :: "nat \<Rightarrow> pcb_env option"
  tt_aborted_pcbs :: "nat set"
  tt_socks :: "nat \<Rightarrow> socks_env option"
  tt_log :: "nat \<Rightarrow> stream_log"

record lwip_results =
  lr_close_ok :: bool
  lr_sndbuf :: "nat \<Rightarrow> nat"
  lr_write :: "nat \<Rightarrow> err_t"
  lr_output :: err_t

record tun_options =
  op_username :: "string option"
  op_append_source_to_username :: bool

section \<open>Memory and the calls on the other side\<close>

definition client_mod :: "nat \<Rightarrow> (tcp_client \<Rightarrow> tcp_client) \<Rightarrow> tun_tcp \<Rightarrow> tun_tcp option" where
  "client_mod c f s = do { x \<leftarrow> tt_clients s c; Some (s\<lparr>tt_clients := (tt_clients s)(c \<mapsto> f x)\<rparr>) }"

definition pcb_mod :: "nat \<Rightarrow> (pcb_env \<Rightarrow> pcb_env) \<Rightarrow> tun_tcp \<Rightarrow> tun_tcp option" where
  "pcb_mod p f s = do { e \<leftarrow> tt_pcbs s p; Some (s\<lparr>tt_pcbs := (tt_pcbs s)(p \<mapsto> f e)\<rparr>) }"

definition socks_mod :: "nat \<Rightarrow> (socks_env \<Rightarrow> socks_env) \<Rightarrow> tun_tcp \<Rightarrow> tun_tcp option" where
  "socks_mod c f s = do { e \<leftarrow> tt_socks s c; Some (s\<lparr>tt_socks := (tt_socks s)(c \<mapsto> f e)\<rparr>) }"

definition log_mod :: "nat \<Rightarrow> (stream_log \<Rightarrow> stream_log) \<Rightarrow> tun_tcp \<Rightarrow> tun_tcp" where
  "log_mod c f s = s\<lparr>tt_log := (tt_log s)(c := f (tt_log s c))\<rparr>"

definition tcp_err :: "nat \<Rightarrow> bool \<Rightarrow> tun_tcp \<Rightarrow> tun_tcp option" where
  "tcp_err p b = pcb_mod p (pe_err_update (\<lambda>_. b))"

definition tcp_recv :: "nat \<Rightarrow> bool \<Rightarrow> tun_tcp \<Rightarrow> tun_tcp option" where
  "tcp_recv p b = pcb_mod p (pe_recv_update (\<lambda>_. b))"

definition tcp_sent :: "nat \<Rightarrow> bool \<Rightarrow> tun_tcp \<Rightarrow> tun_tcp option" where
  "tcp_sent p b = pcb_mod p (pe_sent_update (\<lambda>_. b))"

definition tcp_arg :: "nat \<Rightarrow> nat \<Rightarrow> tun_tcp \<Rightarrow> tun_tcp option" where
  "tcp_arg p c = pcb_mod p (pe_arg_update (\<lambda>_. c))"

definition tcp_recved :: "nat \<Rightarrow> nat \<Rightarrow> tun_tcp \<Rightarrow> tun_tcp option" where
  "tcp_recved p n = pcb_mod p (pe_wnd_update (\<lambda>w. w + n))"

text \<open>\<open>tcp_abort\<close> calls the error callback when there is one; here there must be none.\<close>

definition tcp_abort :: "nat \<Rightarrow> tun_tcp \<Rightarrow> tun_tcp option" where
  "tcp_abort p s = do { e \<leftarrow> tt_pcbs s p; assert_that (\<not> pe_err e);
     Some (s\<lparr>tt_pcbs := (tt_pcbs s)(p := None), tt_aborted_pcbs := insert p (tt_aborted_pcbs s)\<rparr>) }"

definition tcp_close :: "nat \<Rightarrow> bool \<Rightarrow> tun_tcp \<Rightarrow> tun_tcp option" where
  "tcp_close p ok s = do { e \<leftarrow> tt_pcbs s p;
     Some (if ok then s\<lparr>tt_pcbs := (tt_pcbs s)(p := None)\<rparr> else s) }"

definition tcp_write :: "nat \<Rightarrow> byte list \<Rightarrow> tun_tcp \<Rightarrow> tun_tcp option" where
  "tcp_write p data s = do { e \<leftarrow> tt_pcbs s p;
     s \<leftarrow> pcb_mod p (pe_unacked_update (\<lambda>n. n + length data)) s;
     Some (log_mod (pe_arg e) (lg_to_client_update (\<lambda>l. l @ data)) s) }"

definition BSocksClient_Free :: "nat \<Rightarrow> tun_tcp \<Rightarrow> tun_tcp option" where
  "BSocksClient_Free c s = do { e \<leftarrow> tt_socks s c; Some (s\<lparr>tt_socks := (tt_socks s)(c := None)\<rparr>) }"

definition socks_send :: "nat \<Rightarrow> nat \<Rightarrow> tun_tcp \<Rightarrow> tun_tcp option" where
  "socks_send c n s = do { e \<leftarrow> tt_socks s c; assert_that (so_up e \<and> so_send e = None \<and> n > 0);
     socks_mod c (so_send_update (\<lambda>_. Some n)) s }"

definition socks_recv :: "nat \<Rightarrow> tun_tcp \<Rightarrow> tun_tcp option" where
  "socks_recv c s = do { e \<leftarrow> tt_socks s c; assert_that (so_up e \<and> \<not> so_recv e);
     socks_mod c (so_recv_update (\<lambda>_. True)) s }"

section \<open>Dead markers\<close>

text \<open>
  A dead variable of a function is an element of \<open>tt_frames\<close>, named by its position; writing through
  a pointer to a function that has returned is \<open>None\<close>.
\<close>

definition DEAD_KILL_WITH :: "nat option \<Rightarrow> int \<Rightarrow> tun_tcp \<Rightarrow> tun_tcp option" where
  "DEAD_KILL_WITH ptr v s =
     (case ptr of None \<Rightarrow> Some s
      | Some k \<Rightarrow> do { assert_that (k < length (tt_frames s));
                       Some (s\<lparr>tt_frames := (tt_frames s)[k := v]\<rparr>) })"

definition DEAD_ENTER :: "nat \<Rightarrow> tun_tcp \<Rightarrow> (tun_tcp \<times> nat option) option" where
  "DEAD_ENTER c s = do {
     x \<leftarrow> tt_clients s c;
     s' \<leftarrow> client_mod c (tc_dead_aborted_update (\<lambda>_. Some (length (tt_frames s)))) s;
     Some (s'\<lparr>tt_frames := tt_frames s @ [0]\<rparr>, tc_dead_aborted x) }"

definition DEAD_LEAVE2 :: "nat \<Rightarrow> nat option \<Rightarrow> tun_tcp \<Rightarrow> (tun_tcp \<times> int) option" where
  "DEAD_LEAVE2 c prev s = do {
     assert_that (tt_frames s \<noteq> []);
     let dead = last (tt_frames s);
     s \<leftarrow> (if dead = 0 then client_mod c (tc_dead_aborted_update (\<lambda>_. prev)) s else Some s);
     s \<leftarrow> DEAD_KILL_WITH prev dead (s\<lparr>tt_frames := butlast (tt_frames s)\<rparr>);
     Some (s, dead) }"

text \<open>The end of every callback.\<close>

definition callback_leave :: "nat \<Rightarrow> nat option \<Rightarrow> tun_tcp \<Rightarrow> (tun_tcp \<times> err_t) option" where
  "callback_leave c prev s = do {
     (s, killed) \<leftarrow> DEAD_LEAVE2 c prev s;
     Some (s, if killed > 0 then ERR_ABRT else ERR_OK) }"

section \<open>Taking a client down\<close>

definition client_dealloc :: "nat \<Rightarrow> tun_tcp \<Rightarrow> tun_tcp option" where
  "client_dealloc c s = do {
     x \<leftarrow> tt_clients s c;
     assert_that (tc_client_closed x);
     assert_that (tc_socks_closed x);
     assert_that (tt_num_clients s > 0);
     let s = s\<lparr>tt_num_clients := tt_num_clients s - 1\<rparr>;
     assert_that (c \<in> set (tt_tcp_clients s));
     let s = s\<lparr>tt_tcp_clients := remove1 c (tt_tcp_clients s)\<rparr>;
     s \<leftarrow> (if \<not> tc_aborted x then DEAD_KILL_WITH (tc_dead_aborted x) (-1) s else Some s);
     Some (s\<lparr>tt_clients := (tt_clients s)(c := None)\<rparr>) }"

definition client_abort_pcb :: "nat \<Rightarrow> tun_tcp \<Rightarrow> tun_tcp option" where
  "client_abort_pcb c s = do {
     x \<leftarrow> tt_clients s c;
     assert_that (\<not> tc_aborted x);
     s \<leftarrow> tcp_abort (tc_pcb x) s;
     s \<leftarrow> client_mod c (tc_aborted_update (\<lambda>_. True)) s;
     DEAD_KILL_WITH (tc_dead_aborted x) 1 s }"

definition remove_callbacks :: "nat \<Rightarrow> tun_tcp \<Rightarrow> tun_tcp option" where
  "remove_callbacks p s = do { s \<leftarrow> tcp_err p False s; s \<leftarrow> tcp_recv p False s; tcp_sent p False s }"

text \<open>The number of sides still open decreases along the calls of the three functions below.\<close>

definition open_sides :: "nat \<Rightarrow> tun_tcp \<Rightarrow> nat" where
  "open_sides c s = (case tt_clients s c of None \<Rightarrow> 0
     | Some x \<Rightarrow> (if tc_client_closed x then 0 else 1) + (if tc_socks_closed x then 0 else 1))"

lemma pcb_calls_clients:
  "pcb_mod p f s = Some s' \<Longrightarrow> tt_clients s' = tt_clients s"
  "tcp_err p b s = Some s' \<Longrightarrow> tt_clients s' = tt_clients s"
  "tcp_recv p b s = Some s' \<Longrightarrow> tt_clients s' = tt_clients s"
  "tcp_sent p b s = Some s' \<Longrightarrow> tt_clients s' = tt_clients s"
  "tcp_abort p s = Some s' \<Longrightarrow> tt_clients s' = tt_clients s"
  "tcp_close p ok s = Some s' \<Longrightarrow> tt_clients s' = tt_clients s"
  "tcp_write p d s = Some s' \<Longrightarrow> tt_clients s' = tt_clients s"
  "remove_callbacks p s = Some s' \<Longrightarrow> tt_clients s' = tt_clients s"
  "BSocksClient_Free c s = Some s' \<Longrightarrow> tt_clients s' = tt_clients s"
  by (auto simp: pcb_mod_def tcp_err_def tcp_recv_def tcp_sent_def tcp_abort_def tcp_close_def
      tcp_write_def log_mod_def remove_callbacks_def BSocksClient_Free_def bind_Some split: if_splits)

lemma client_mod_clients:
  "client_mod c f s = Some s' \<longleftrightarrow> (\<exists>x. tt_clients s c = Some x \<and> s' = s\<lparr>tt_clients := (tt_clients s)(c \<mapsto> f x)\<rparr>)"
  by (auto simp: client_mod_def bind_Some)

lemma DEAD_KILL_WITH_clients: "DEAD_KILL_WITH ptr v s = Some s' \<Longrightarrow> tt_clients s' = tt_clients s"
  by (auto simp: DEAD_KILL_WITH_def split: option.splits)

lemma abort_pcb_open_sides: "client_abort_pcb c s = Some s' \<Longrightarrow> open_sides c s' = open_sides c s"
  by (auto simp: client_abort_pcb_def bind_Some client_mod_clients open_sides_def
      dest!: DEAD_KILL_WITH_clients pcb_calls_clients(5))

definition tcp_close_or_abort :: "lwip_results \<Rightarrow> nat \<Rightarrow> tun_tcp \<Rightarrow> tun_tcp option" where
  "tcp_close_or_abort lw c s = do {
     x \<leftarrow> tt_clients s c;
     s \<leftarrow> remove_callbacks (tc_pcb x) s;
     s \<leftarrow> tcp_close (tc_pcb x) (lr_close_ok lw) s;
     if lr_close_ok lw then Some s else client_abort_pcb c s }"

lemma close_or_abort_open_sides: "tcp_close_or_abort lw c s = Some s' \<Longrightarrow> open_sides c s' = open_sides c s"
  by (auto simp: tcp_close_or_abort_def bind_Some split: if_splits
      dest!: abort_pcb_open_sides pcb_calls_clients(6,8)) (simp_all add: open_sides_def)

function client_handle_freed_client :: "lwip_results \<Rightarrow> nat \<Rightarrow> tun_tcp \<Rightarrow> tun_tcp option"
  and client_free_client :: "lwip_results \<Rightarrow> nat \<Rightarrow> tun_tcp \<Rightarrow> tun_tcp option"
  and client_free_socks :: "lwip_results \<Rightarrow> nat \<Rightarrow> tun_tcp \<Rightarrow> tun_tcp option" where
  "client_handle_freed_client lw c s = do {
     x \<leftarrow> tt_clients s c;
     assert_that (\<not> tc_client_closed x);
     s' \<leftarrow> client_mod c (tc_client_closed_update (\<lambda>_. True)) s;
     if tc_buf x \<noteq> [] \<and> \<not> tc_socks_closed x then Some s'
     else if \<not> tc_socks_closed x then client_free_socks lw c s' else client_dealloc c s' }"
| "client_free_client lw c s = do {
     x \<leftarrow> tt_clients s c;
     assert_that (\<not> tc_client_closed x);
     s' \<leftarrow> tcp_close_or_abort lw c s;
     client_handle_freed_client lw c s' }"
| "client_free_socks lw c s = do {
     x \<leftarrow> tt_clients s c;
     assert_that (\<not> tc_socks_closed x);
     s1 \<leftarrow> (if tc_socks_up x \<and> \<not> tc_client_closed x then tcp_recv (tc_pcb x) False s else Some s);
     s2 \<leftarrow> BSocksClient_Free c s1;
     s3 \<leftarrow> client_mod c (tc_socks_closed_update (\<lambda>_. True)) s2;
     if tc_socks_up x \<and> (tc_recv_buf_used x \<ge> 0 \<or> tc_recv_tcp_pending x > 0) \<and> \<not> tc_client_closed x
     then Some s3
     else if \<not> tc_client_closed x then client_free_client lw c s3 else client_dealloc c s3 }"
  by pat_completeness auto

termination
  by (relation "measure (\<lambda>x. case x of Inl (lw, c, s) \<Rightarrow> 2 * open_sides c s
        | Inr (Inl (lw, c, s)) \<Rightarrow> 2 * open_sides c s + 1
        | Inr (Inr (lw, c, s)) \<Rightarrow> 2 * open_sides c s)")
     (auto simp: client_mod_clients open_sides_def dest!: close_or_abort_open_sides pcb_calls_clients(3,9)
        split: if_splits option.splits)

declare client_handle_freed_client.simps [simp del] client_free_client.simps [simp del]
  client_free_socks.simps [simp del]

definition client_abort_client :: "lwip_results \<Rightarrow> nat \<Rightarrow> tun_tcp \<Rightarrow> tun_tcp option" where
  "client_abort_client lw c s = do {
     x \<leftarrow> tt_clients s c;
     assert_that (\<not> tc_client_closed x);
     s \<leftarrow> remove_callbacks (tc_pcb x) s;
     s \<leftarrow> client_abort_pcb c s;
     client_handle_freed_client lw c s }"

definition client_murder :: "nat \<Rightarrow> tun_tcp \<Rightarrow> tun_tcp option" where
  "client_murder c s = do {
     x \<leftarrow> tt_clients s c;
     s \<leftarrow> (if \<not> tc_client_closed x then do {
            s \<leftarrow> remove_callbacks (tc_pcb x) s;
            s \<leftarrow> client_abort_pcb c s;
            client_mod c (tc_client_closed_update (\<lambda>_. True)) s
          } else Some s);
     s \<leftarrow> (if \<not> tc_socks_closed x then do {
            s \<leftarrow> BSocksClient_Free c s;
            client_mod c (tc_socks_closed_update (\<lambda>_. True)) s
          } else Some s);
     client_dealloc c s }"

section \<open>Relaying data\<close>

definition client_send_to_socks :: "nat \<Rightarrow> tun_tcp \<Rightarrow> tun_tcp option" where
  "client_send_to_socks c s = do {
     x \<leftarrow> tt_clients s c;
     assert_that (\<not> tc_socks_closed x \<and> tc_socks_up x \<and> tc_buf x \<noteq> []);
     socks_send c (length (tc_buf x)) s }"

definition client_socks_send_handler_done :: "lwip_results \<Rightarrow> nat \<Rightarrow> nat \<Rightarrow> tun_tcp \<Rightarrow> tun_tcp option" where
  "client_socks_send_handler_done lw c data_len s = do {
     x \<leftarrow> tt_clients s c;
     assert_that (\<not> tc_socks_closed x \<and> tc_socks_up x \<and> tc_buf x \<noteq> []);
     assert_that (data_len > 0 \<and> data_len \<le> length (tc_buf x));
     let rest = drop data_len (tc_buf x);
     s \<leftarrow> client_mod c (tc_buf_update (\<lambda>_. rest)) s;
     s \<leftarrow> (if \<not> tc_client_closed x then tcp_recved (tc_pcb x) data_len s else Some s);
     if rest \<noteq> [] then socks_send c (length rest) s
     else if tc_client_closed x then client_free_socks lw c s else Some s }"

definition client_socks_recv_initiate :: "nat \<Rightarrow> tun_tcp \<Rightarrow> tun_tcp option" where
  "client_socks_recv_initiate c s = do {
     x \<leftarrow> tt_clients s c;
     assert_that (\<not> tc_client_closed x \<and> \<not> tc_socks_closed x \<and> tc_socks_up x);
     assert_that (tc_recv_buf_used x = -1);
     socks_recv c s }"

text \<open>
  The loop of \<open>client_socks_recv_send_out\<close>, from its iteration \<open>i\<close>; the result is whether \<open>tcp_write\<close>
  failed with an error other than \<open>ERR_MEM\<close>.
\<close>

function write_loop :: "lwip_results \<Rightarrow> nat \<Rightarrow> nat \<Rightarrow> tun_tcp \<Rightarrow> (tun_tcp \<times> bool) option" where
  "write_loop lw i c s = do {
     x \<leftarrow> tt_clients s c;
     e \<leftarrow> tt_pcbs s (tc_pcb x);
     let to_write = min (tc_recv_buf_used x - tc_recv_buf_sent x) (int (lr_sndbuf lw i));
     assert_that (to_write \<ge> 0);
     if to_write = 0 then Some (s, False)
     else if lr_write lw i \<noteq> ERR_OK then Some (s, lr_write lw i \<noteq> ERR_MEM)
     else do {
       s' \<leftarrow> tcp_write (tc_pcb x) (seg (tc_recv_buf x) (nat (tc_recv_buf_sent x)) (nat to_write)) s;
       s'' \<leftarrow> client_mod c (tc_recv_buf_sent_update (\<lambda>n. n + to_write)
              \<circ> tc_recv_tcp_pending_update (\<lambda>n. n + to_write)) s';
       if tc_recv_buf_sent x + to_write < tc_recv_buf_used x then write_loop lw (Suc i) c s''
       else Some (s'', False)
     } }"
  by pat_completeness auto

termination
  by (relation "measure (\<lambda>(lw, i, c, s). case tt_clients s c of None \<Rightarrow> 0
        | Some x \<Rightarrow> nat (tc_recv_buf_used x - tc_recv_buf_sent x))")
     (auto simp: client_mod_clients dest!: pcb_calls_clients(7))

declare write_loop.simps [simp del]

text \<open>The result is the return value: \<open>-1\<close> when \<open>tcp_abort\<close> was called.\<close>

definition client_socks_recv_send_out :: "lwip_results \<Rightarrow> nat \<Rightarrow> tun_tcp \<Rightarrow> (tun_tcp \<times> int) option" where
  "client_socks_recv_send_out lw c s = do {
     x \<leftarrow> tt_clients s c;
     assert_that (\<not> tc_client_closed x \<and> tc_socks_up x \<and> tc_recv_buf_used x > 0);
     assert_that (tc_recv_buf_sent x < tc_recv_buf_used x \<and> \<not> tc_recv_waiting x);
     (s, failed) \<leftarrow> write_loop lw 0 c s;
     if failed then do { s \<leftarrow> client_abort_client lw c s; Some (s, -1) }
     else do {
       x \<leftarrow> tt_clients s c;
       e \<leftarrow> tt_pcbs s (tc_pcb x);
       if lr_output lw \<noteq> ERR_OK then do { s \<leftarrow> client_abort_client lw c s; Some (s, -1) }
       else if tc_recv_buf_sent x < tc_recv_buf_used x then
         if tc_recv_tcp_pending x = 0 then do { s \<leftarrow> client_abort_client lw c s; Some (s, -1) }
         else do { s \<leftarrow> client_mod c (tc_recv_waiting_update (\<lambda>_. True)) s; Some (s, 0) }
       else do { s \<leftarrow> client_mod c (tc_recv_buf_used_update (\<lambda>_. -1)) s; Some (s, 0) }
     } }"

definition client_socks_recv_handler_done :: "lwip_results \<Rightarrow> nat \<Rightarrow> nat \<Rightarrow> tun_tcp \<Rightarrow> tun_tcp option" where
  "client_socks_recv_handler_done lw c data_len s = do {
     assert_that (data_len > 0 \<and> data_len \<le> CLIENT_SOCKS_RECV_BUF_SIZE);
     x \<leftarrow> tt_clients s c;
     assert_that (\<not> tc_socks_closed x \<and> tc_socks_up x \<and> tc_recv_buf_used x = -1);
     if tc_client_closed x then Some s
     else do {
       s \<leftarrow> client_mod c (\<lambda>x. x\<lparr>tc_recv_buf_used := int data_len, tc_recv_buf_sent := 0,
                              tc_recv_waiting := False\<rparr>) s;
       (s, r) \<leftarrow> client_socks_recv_send_out lw c s;
       if r < 0 then Some s
       else do {
         x \<leftarrow> tt_clients s c;
         if tc_recv_buf_used x = -1 then client_socks_recv_initiate c s else Some s } } }"

datatype socks_client_event = BSOCKSCLIENT_EVENT_ERROR | BSOCKSCLIENT_EVENT_UP
  | BSOCKSCLIENT_EVENT_ERROR_CLOSED | BSOCKSCLIENT_EVENT_CONNECTED

fun client_socks_handler :: "lwip_results \<Rightarrow> nat \<Rightarrow> socks_client_event \<Rightarrow> tun_tcp \<Rightarrow> tun_tcp option" where
  "client_socks_handler lw c BSOCKSCLIENT_EVENT_ERROR s = do {
     x \<leftarrow> tt_clients s c; assert_that (\<not> tc_socks_closed x);
     client_free_socks lw c s }"
| "client_socks_handler lw c BSOCKSCLIENT_EVENT_UP s = do {
     x \<leftarrow> tt_clients s c; assert_that (\<not> tc_socks_closed x);
     assert_that (\<not> tc_socks_up x);
     s \<leftarrow> client_mod c (tc_recv_buf_used_update (\<lambda>_. -1) \<circ> tc_recv_tcp_pending_update (\<lambda>_. 0)) s;
     s \<leftarrow> (if \<not> tc_client_closed x then tcp_sent (tc_pcb x) True s else Some s);
     s \<leftarrow> client_mod c (tc_socks_up_update (\<lambda>_. True)) s;
     s \<leftarrow> (if tc_buf x \<noteq> [] then client_send_to_socks c s else Some s);
     if \<not> tc_client_closed x then client_socks_recv_initiate c s else Some s }"
| "client_socks_handler lw c BSOCKSCLIENT_EVENT_ERROR_CLOSED s = do {
     x \<leftarrow> tt_clients s c; assert_that (\<not> tc_socks_closed x);
     assert_that (tc_socks_up x);
     client_free_socks lw c s }"
| "client_socks_handler lw c BSOCKSCLIENT_EVENT_CONNECTED s = do {
     x \<leftarrow> tt_clients s c; assert_that (\<not> tc_socks_closed x);
     Some s }"

section \<open>The callbacks lwIP calls\<close>

definition client_err_func :: "lwip_results \<Rightarrow> nat \<Rightarrow> tun_tcp \<Rightarrow> tun_tcp option" where
  "client_err_func lw c s = do {
     x \<leftarrow> tt_clients s c;
     assert_that (\<not> tc_client_closed x);
     client_handle_freed_client lw c s }"

text \<open>\<open>None\<close> for the buffer chain stands for the null pointer: the client closed its side.\<close>

definition client_recv_func ::
  "lwip_results \<Rightarrow> (tun_tcp \<Rightarrow> tun_tcp option) \<Rightarrow> nat \<Rightarrow> byte list option \<Rightarrow> tun_tcp \<Rightarrow> (tun_tcp \<times> err_t) option" where
  "client_recv_func lw sync c p s = do {
     x \<leftarrow> tt_clients s c;
     assert_that (\<not> tc_client_closed x);
     (s, prev) \<leftarrow> DEAD_ENTER c s;
     (case p of
        None \<Rightarrow> do { s \<leftarrow> client_free_client lw c s; callback_leave c prev s }
      | Some data \<Rightarrow> do {
          assert_that (data \<noteq> []);
          if length data > TCP_WND - length (tc_buf x)
          then do { (s, killed) \<leftarrow> DEAD_LEAVE2 c prev s; Some (s, ERR_MEM) }
          else do {
            s \<leftarrow> client_mod c (tc_buf_update (\<lambda>b. b @ data)) s;
            s \<leftarrow> (if length (tc_buf x @ data) = length data \<and> tc_socks_up x then do {
                   assert_that (\<not> tc_socks_closed x);
                   s \<leftarrow> client_send_to_socks c s;
                   sync s
                 } else Some s);
            callback_leave c prev s } }) }"

definition client_sent_func ::
  "lwip_results \<Rightarrow> (tun_tcp \<Rightarrow> tun_tcp option) \<Rightarrow> nat \<Rightarrow> nat \<Rightarrow> tun_tcp \<Rightarrow> (tun_tcp \<times> err_t) option" where
  "client_sent_func lw sync c len s = do {
     x \<leftarrow> tt_clients s c;
     assert_that (\<not> tc_client_closed x \<and> tc_socks_up x \<and> len > 0 \<and> int len \<le> tc_recv_tcp_pending x);
     (s, prev) \<leftarrow> DEAD_ENTER c s;
     s \<leftarrow> client_mod c (tc_recv_tcp_pending_update (\<lambda>n. n - int len)) s;
     s \<leftarrow> (if tc_recv_buf_used x > 0 then do {
            assert_that (tc_recv_waiting x \<and> tc_recv_buf_sent x < tc_recv_buf_used x);
            s \<leftarrow> client_mod c (tc_recv_waiting_update (\<lambda>_. False)) s;
            (s, r) \<leftarrow> client_socks_recv_send_out lw c s;
            if r < 0 then Some s
            else do {
              x \<leftarrow> tt_clients s c;
              assert_that (tc_recv_tcp_pending x > 0);
              if tc_recv_buf_used x = -1 \<and> \<not> tc_socks_closed x
              then do { s \<leftarrow> client_socks_recv_initiate c s; sync s } else Some s }
          } else if tc_socks_closed x \<and> tc_recv_tcp_pending x - int len = 0
          then client_free_client lw c s else Some s);
     callback_leave c prev s }"

text \<open>
  The address of the new client is \<open>c\<close>, and its memory holds \<open>junk\<close> (\<open>None\<close>: \<open>malloc\<close> failed);
  \<open>concat_ok\<close> and \<open>init_ok\<close> are whether \<open>concat_strings\<close> and \<open>BSocksClient_Init\<close> succeed.
\<close>

definition listener_accept_func ::
  "tun_options \<Rightarrow> (tun_tcp \<Rightarrow> tun_tcp option) \<Rightarrow> nat \<Rightarrow> tcp_client option \<Rightarrow> bool \<Rightarrow> bool \<Rightarrow> baddr \<Rightarrow> baddr
     \<Rightarrow> nat \<Rightarrow> tun_tcp \<Rightarrow> (tun_tcp \<times> err_t) option" where
  "listener_accept_func opts sync c junk concat_ok init_ok laddr raddr newpcb s =
     (case junk of None \<Rightarrow> Some (s, ERR_MEM)
      | Some m \<Rightarrow>
        let add = (op_username opts \<noteq> None \<and> op_append_source_to_username opts) in
        if add \<and> \<not> concat_ok then Some (s, ERR_MEM)
        else do {
          let name = (if add then Some (User_at (the (op_username opts)) raddr) else None);
          let s = (if add then s\<lparr>tt_auth_username := Some c\<rparr> else s);
          if \<not> init_ok then Some (s, ERR_MEM)
          else do {
            let s = s\<lparr>tt_socks := (tt_socks s)(c \<mapsto> \<lparr> so_dest = laddr, so_up = False, so_send = None, so_recv = False \<rparr>)\<rparr>;
            let s = s\<lparr>tt_tcp_clients := tt_tcp_clients s @ [c]\<rparr>;
            assert_that (tt_num_clients s \<ge> 0);
            let s = s\<lparr>tt_num_clients := tt_num_clients s + 1\<rparr>;
            let x = m\<lparr>tc_local_addr := laddr, tc_remote_addr := raddr, tc_socks_username := name,
                      tc_aborted := False, tc_dead_aborted := None, tc_pcb := newpcb,
                      tc_client_closed := False, tc_buf := [], tc_socks_up := False, tc_socks_closed := False\<rparr>;
            let s = s\<lparr>tt_clients := (tt_clients s)(c \<mapsto> x)\<rparr>;
            s \<leftarrow> tcp_arg newpcb c s;
            s \<leftarrow> tcp_err newpcb True s;
            s \<leftarrow> tcp_recv newpcb True s;
            (s, prev) \<leftarrow> DEAD_ENTER c s;
            s \<leftarrow> sync s;
            callback_leave c prev s
          } })"

end
