(* ===== verification/TcpClientInv.thy ===== *)
theory TcpClientInv
  imports TcpClient
begin

text \<open>
  The invariant of the TCP clients and that taking a client down keeps it. A state is viewed as
  \<open>put s c p x pe so lg fr ab\<close>: the state \<open>s\<close> with what concerns the client at address \<open>c\<close>
  (its memory, pcb, SOCKS client and streams) replaced. On such states the calls compute by
  rewriting, and the invariant of the other clients is carried along as \<open>inv_except\<close>.
\<close>

section \<open>The invariant\<close>

fun tcp_side :: "nat \<Rightarrow> tcp_client \<Rightarrow> pcb_env option \<Rightarrow> bool" where
  "tcp_side c x None = tc_client_closed x"
| "tcp_side c x (Some e) = (\<not> tc_client_closed x \<and> pe_arg e = c \<and> pe_err e
     \<and> pe_recv e = (\<not> tc_socks_closed x) \<and> pe_sent e = tc_socks_up x
     \<and> (\<not> tc_socks_closed x \<longrightarrow> pe_wnd e + length (tc_buf x) = TCP_WND)
     \<and> int (pe_unacked e) = (if tc_socks_up x then tc_recv_tcp_pending x else 0))"

fun socks_side :: "tcp_client \<Rightarrow> socks_env option \<Rightarrow> bool" where
  "socks_side x None = tc_socks_closed x"
| "socks_side x (Some e) = (\<not> tc_socks_closed x \<and> so_dest e = tc_local_addr x \<and> so_up e = tc_socks_up x
     \<and> (if tc_socks_up x
        then (so_send e = None \<longrightarrow> tc_buf x = [])
          \<and> (\<forall>n. so_send e = Some n \<longrightarrow> 0 < n \<and> n \<le> length (tc_buf x))
          \<and> (so_recv e \<longrightarrow> tc_recv_buf_used x = -1)
          \<and> (\<not> tc_client_closed x \<longrightarrow> tc_recv_buf_used x = -1 \<longrightarrow> so_recv e)
        else so_send e = None \<and> \<not> so_recv e))"

lemma sides_closed:
  "tc_client_closed x \<Longrightarrow> tcp_side c x pe = (pe = None)"
  "\<not> tc_client_closed x \<Longrightarrow> tcp_side c x pe = (\<exists>e. pe = Some e \<and> tcp_side c x (Some e))"
  "tc_socks_closed x \<Longrightarrow> socks_side x so = (so = None)"
  "\<not> tc_socks_closed x \<Longrightarrow> socks_side x so = (\<exists>e. so = Some e \<and> socks_side x (Some e))"
  by (cases pe; simp; fail | cases so; simp; fail)+

definition recv_state_ok :: "tcp_client \<Rightarrow> bool" where
  "recv_state_ok x \<longleftrightarrow> tc_recv_tcp_pending x \<ge> 0 \<and> (tc_recv_buf_used x = -1 \<or>
     0 < tc_recv_buf_used x \<and> 0 \<le> tc_recv_buf_sent x \<and> tc_recv_buf_sent x < tc_recv_buf_used x
       \<and> tc_recv_waiting x \<and> tc_recv_tcp_pending x > 0 \<and> int (length (tc_recv_buf x)) = tc_recv_buf_used x)"

definition stream_ok :: "tcp_client \<Rightarrow> stream_log \<Rightarrow> bool" where
  "stream_ok x l \<longleftrightarrow> lg_to_socks l @ tc_buf x = lg_from_client l
     \<and> (if tc_socks_up x
        then if tc_client_closed x then \<exists>r. lg_to_client l @ r = lg_from_socks l
          else lg_to_client l @ (if tc_recv_buf_used x = -1 then []
                 else drop (nat (tc_recv_buf_sent x)) (tc_recv_buf x)) = lg_from_socks l
        else lg_to_socks l = [] \<and> lg_to_client l = [] \<and> lg_from_socks l = [])"

definition client_live :: "tcp_client \<Rightarrow> bool" where
  "client_live x \<longleftrightarrow> \<not> (tc_client_closed x \<and> tc_socks_closed x)
     \<and> length (tc_buf x) \<le> TCP_WND \<and> (tc_aborted x \<longrightarrow> tc_client_closed x)
     \<and> (tc_client_closed x \<longrightarrow> tc_buf x \<noteq> [])
     \<and> (tc_socks_up x \<and> \<not> tc_client_closed x \<longrightarrow> recv_state_ok x)
     \<and> (tc_socks_closed x \<longrightarrow> tc_socks_up x \<and> (tc_recv_buf_used x > 0 \<or> tc_recv_tcp_pending x > 0))"

definition client_ok :: "tun_tcp \<Rightarrow> nat \<Rightarrow> tcp_client \<Rightarrow> bool" where
  "client_ok s c x \<longleftrightarrow> tcp_side c x (tt_pcbs s (tc_pcb x)) \<and> socks_side x (tt_socks s c)
     \<and> stream_ok x (tt_log s c) \<and> client_live x \<and> (tc_aborted x \<longleftrightarrow> tc_pcb x \<in> tt_aborted_pcbs s)"

text \<open>\<open>own\<close> is the client and the pcb of the lwIP callback in progress.\<close>

definition self_dead :: "(nat \<times> nat) option \<Rightarrow> nat \<Rightarrow> tcp_client \<Rightarrow> int list \<Rightarrow> bool" where
  "self_dead own c x fr \<longleftrightarrow> (case own of
       Some (c0, p0) \<Rightarrow>
         if c0 = c then tc_pcb x = p0 \<and> fr = [if tc_aborted x then 1 else 0]
           \<and> (\<not> tc_aborted x \<longrightarrow> tc_dead_aborted x = Some 0)
         else tc_aborted x \<or> tc_dead_aborted x = None
     | None \<Rightarrow> tc_aborted x \<or> tc_dead_aborted x = None)"

definition frames_ok :: "(nat \<times> nat) option \<Rightarrow> tun_tcp \<Rightarrow> bool" where
  "frames_ok own s \<longleftrightarrow> (case own of None \<Rightarrow> tt_frames s = []
     | Some (c0, p0) \<Rightarrow> \<exists>d. tt_frames s = [d]
         \<and> (tt_clients s c0 = None \<longrightarrow> d \<noteq> 0 \<and> (d > 0 \<longleftrightarrow> p0 \<in> tt_aborted_pcbs s)))"

definition inv_except :: "(nat \<times> nat) option \<Rightarrow> nat set \<Rightarrow> nat set \<Rightarrow> tun_tcp \<Rightarrow> bool" where
  "inv_except own C P s \<longleftrightarrow>
     distinct (tt_tcp_clients s) \<and> set (tt_tcp_clients s) = dom (tt_clients s)
     \<and> tt_num_clients s = int (length (tt_tcp_clients s))
     \<and> (\<forall>c x. c \<notin> C \<longrightarrow> tt_clients s c = Some x \<longrightarrow>
          client_ok s c x \<and> self_dead own c x (tt_frames s) \<and> tc_pcb x \<notin> P)
     \<and> (\<forall>c c' x x'. c \<notin> C \<longrightarrow> c' \<notin> C \<longrightarrow> tt_clients s c = Some x \<longrightarrow> tt_clients s c' = Some x' \<longrightarrow>
          tc_pcb x = tc_pcb x' \<longrightarrow> c = c')
     \<and> (\<forall>p e. p \<notin> P \<longrightarrow> tt_pcbs s p = Some e \<longrightarrow> pe_arg e \<notin> C
          \<and> (\<exists>x. tt_clients s (pe_arg e) = Some x \<and> tc_pcb x = p \<and> \<not> tc_client_closed x))
     \<and> (\<forall>c. c \<notin> C \<longrightarrow> tt_clients s c = None \<longrightarrow> tt_socks s c = None)
     \<and> (\<forall>p. p \<notin> P \<longrightarrow> p \<in> tt_aborted_pcbs s \<longrightarrow> tt_pcbs s p = None)
     \<and> frames_ok own s
     \<and> (\<forall>c0 p0. own = Some (c0, p0) \<longrightarrow> (c0 \<notin> C \<longrightarrow> p0 \<notin> P)
          \<and> (\<forall>c x. c \<notin> C \<longrightarrow> c \<noteq> c0 \<longrightarrow> tt_clients s c = Some x \<longrightarrow> tc_pcb x \<noteq> p0))"

definition tt_inv :: "(nat \<times> nat) option \<Rightarrow> tun_tcp \<Rightarrow> bool" where
  "tt_inv own s \<longleftrightarrow> inv_except own {} {} s"

section \<open>States seen from one client\<close>

definition put :: "tun_tcp \<Rightarrow> nat \<Rightarrow> nat \<Rightarrow> tcp_client \<Rightarrow> pcb_env option \<Rightarrow> socks_env option \<Rightarrow> stream_log
    \<Rightarrow> int list \<Rightarrow> nat set \<Rightarrow> tun_tcp" where
  "put s c p x pe so lg fr ab = s\<lparr>tt_clients := (tt_clients s)(c \<mapsto> x), tt_pcbs := (tt_pcbs s)(p := pe),
     tt_socks := (tt_socks s)(c := so), tt_log := (tt_log s)(c := lg), tt_frames := fr, tt_aborted_pcbs := ab\<rparr>"

lemma put_self:
  "tt_clients s c = Some x \<Longrightarrow>
   put s c p x (tt_pcbs s p) (tt_socks s c) (tt_log s c) (tt_frames s) (tt_aborted_pcbs s) = s"
  by (cases s) (auto simp: put_def fun_upd_idem)

lemma put_sel [simp]:
  "tt_clients (put s c p x pe so lg fr ab) = (tt_clients s)(c \<mapsto> x)"
  "tt_pcbs (put s c p x pe so lg fr ab) = (tt_pcbs s)(p := pe)"
  "tt_socks (put s c p x pe so lg fr ab) = (tt_socks s)(c := so)"
  "tt_log (put s c p x pe so lg fr ab) = (tt_log s)(c := lg)"
  "tt_frames (put s c p x pe so lg fr ab) = fr"
  "tt_aborted_pcbs (put s c p x pe so lg fr ab) = ab"
  "tt_tcp_clients (put s c p x pe so lg fr ab) = tt_tcp_clients s"
  "tt_num_clients (put s c p x pe so lg fr ab) = tt_num_clients s"
  "tt_auth_username (put s c p x pe so lg fr ab) = tt_auth_username s"
  by (simp_all add: put_def)

lemma env_updates:
  "pe_wnd_update (\<lambda>w. w + n) e = e\<lparr>pe_wnd := pe_wnd e + n\<rparr>"
  "pe_unacked_update (\<lambda>w. w + n) e = e\<lparr>pe_unacked := pe_unacked e + n\<rparr>"
  "lg_to_client_update (\<lambda>l. l @ d) lg = lg\<lparr>lg_to_client := lg_to_client lg @ d\<rparr>"
  by (cases e; simp; fail | cases lg; simp; fail)+

lemma put_calls [simp]:
  "client_mod c f (put s c p x pe so lg fr ab) = Some (put s c p (f x) pe so lg fr ab)"
  "pcb_mod p g (put s c p x (Some e) so lg fr ab) = Some (put s c p x (Some (g e)) so lg fr ab)"
  "socks_mod c h (put s c p x pe (Some o') lg fr ab) = Some (put s c p x pe (Some (h o')) lg fr ab)"
  "log_mod c k (put s c p x pe so lg fr ab) = put s c p x pe so (k lg) fr ab"
  "tcp_err p b (put s c p x (Some e) so lg fr ab) = Some (put s c p x (Some (e\<lparr>pe_err := b\<rparr>)) so lg fr ab)"
  "tcp_recv p b (put s c p x (Some e) so lg fr ab) = Some (put s c p x (Some (e\<lparr>pe_recv := b\<rparr>)) so lg fr ab)"
  "tcp_sent p b (put s c p x (Some e) so lg fr ab) = Some (put s c p x (Some (e\<lparr>pe_sent := b\<rparr>)) so lg fr ab)"
  "tcp_arg p n (put s c p x (Some e) so lg fr ab) = Some (put s c p x (Some (e\<lparr>pe_arg := n\<rparr>)) so lg fr ab)"
  "tcp_recved p n (put s c p x (Some e) so lg fr ab)
     = Some (put s c p x (Some (e\<lparr>pe_wnd := pe_wnd e + n\<rparr>)) so lg fr ab)"
  "\<not> pe_err e \<Longrightarrow> tcp_abort p (put s c p x (Some e) so lg fr ab) = Some (put s c p x None so lg fr (insert p ab))"
  "tcp_close p ok (put s c p x (Some e) so lg fr ab)
     = Some (put s c p x (if ok then None else Some e) so lg fr ab)"
  "BSocksClient_Free c (put s c p x pe (Some o') lg fr ab) = Some (put s c p x pe None lg fr ab)"
  "so_up o' \<Longrightarrow> so_send o' = None \<Longrightarrow> n > 0 \<Longrightarrow> socks_send c n (put s c p x pe (Some o') lg fr ab)
     = Some (put s c p x pe (Some (o'\<lparr>so_send := Some n\<rparr>)) lg fr ab)"
  "so_up o' \<Longrightarrow> \<not> so_recv o' \<Longrightarrow> socks_recv c (put s c p x pe (Some o') lg fr ab)
     = Some (put s c p x pe (Some (o'\<lparr>so_recv := True\<rparr>)) lg fr ab)"
  "DEAD_KILL_WITH None v (put s c p x pe so lg fr ab) = Some (put s c p x pe so lg fr ab)"
  "j < length fr \<Longrightarrow> DEAD_KILL_WITH (Some j) v (put s c p x pe so lg fr ab)
     = Some (put s c p x pe so lg (fr[j := v]) ab)"
  "remove_callbacks p (put s c p x (Some e) so lg fr ab)
     = Some (put s c p x (Some (e\<lparr>pe_err := False, pe_recv := False, pe_sent := False\<rparr>)) so lg fr ab)"
  by (simp_all add: put_def client_mod_def pcb_mod_def socks_mod_def log_mod_def tcp_err_def tcp_recv_def
      tcp_sent_def tcp_arg_def tcp_recved_def tcp_abort_def tcp_close_def BSocksClient_Free_def socks_send_def
      socks_recv_def DEAD_KILL_WITH_def remove_callbacks_def env_updates)

lemma put_tcp_write [simp]:
  "pe_arg e = c \<Longrightarrow> tcp_write p d (put s c p x (Some e) so lg fr ab)
     = Some (put s c p x (Some (e\<lparr>pe_unacked := pe_unacked e + length d\<rparr>)) so
              (lg\<lparr>lg_to_client := lg_to_client lg @ d\<rparr>) fr ab)"
  by (simp add: put_def tcp_write_def pcb_mod_def log_mod_def env_updates)

text \<open>The invariant of everything but the client.\<close>

definition focus :: "(nat \<times> nat) option \<Rightarrow> tun_tcp \<Rightarrow> nat \<Rightarrow> nat \<Rightarrow> int list \<Rightarrow> nat set \<Rightarrow> bool" where
  "focus own s c p fr ab \<longleftrightarrow> inv_except own {c} {p} s \<and> c \<in> dom (tt_clients s)
     \<and> (\<forall>p'. p' \<noteq> p \<longrightarrow> (p' \<in> ab \<longleftrightarrow> p' \<in> tt_aborted_pcbs s))
     \<and> (fr = tt_frames s \<or> (\<exists>p0 d. own = Some (c, p0) \<and> fr = [d]))
     \<and> (\<forall>c0 p0. own = Some (c0, p0) \<longrightarrow> (c0 = c \<longleftrightarrow> p0 = p))"

lemma inv_exceptD:
  assumes "inv_except own C P s"
  shows "distinct (tt_tcp_clients s)" "set (tt_tcp_clients s) = dom (tt_clients s)"
    "tt_num_clients s = int (length (tt_tcp_clients s))"
    "c \<notin> C \<Longrightarrow> tt_clients s c = Some x \<Longrightarrow> client_ok s c x"
    "c \<notin> C \<Longrightarrow> tt_clients s c = Some x \<Longrightarrow> self_dead own c x (tt_frames s)"
    "c \<notin> C \<Longrightarrow> tt_clients s c = Some x \<Longrightarrow> tc_pcb x \<notin> P"
    "c \<notin> C \<Longrightarrow> c' \<notin> C \<Longrightarrow> tt_clients s c = Some x \<Longrightarrow> tt_clients s c' = Some x' \<Longrightarrow>
       tc_pcb x = tc_pcb x' \<Longrightarrow> c = c'"
    "p \<notin> P \<Longrightarrow> tt_pcbs s p = Some e \<Longrightarrow> pe_arg e \<notin> C
       \<and> (\<exists>x. tt_clients s (pe_arg e) = Some x \<and> tc_pcb x = p \<and> \<not> tc_client_closed x)"
    "c \<notin> C \<Longrightarrow> tt_clients s c = None \<Longrightarrow> tt_socks s c = None"
    "p \<notin> P \<Longrightarrow> p \<in> tt_aborted_pcbs s \<Longrightarrow> tt_pcbs s p = None"
    "frames_ok own s"
    "own = Some (c0, p0) \<Longrightarrow> c0 \<notin> C \<Longrightarrow> p0 \<notin> P"
    "own = Some (c0, p0) \<Longrightarrow> c \<notin> C \<Longrightarrow> c \<noteq> c0 \<Longrightarrow> tt_clients s c = Some x \<Longrightarrow> tc_pcb x \<noteq> p0"
  using assms unfolding inv_except_def by blast+

lemma inv_exceptI:
  assumes "distinct (tt_tcp_clients s)" "set (tt_tcp_clients s) = dom (tt_clients s)"
    "tt_num_clients s = int (length (tt_tcp_clients s))"
    "\<And>c x. c \<notin> C \<Longrightarrow> tt_clients s c = Some x \<Longrightarrow> client_ok s c x"
    "\<And>c x. c \<notin> C \<Longrightarrow> tt_clients s c = Some x \<Longrightarrow> self_dead own c x (tt_frames s)"
    "\<And>c x. c \<notin> C \<Longrightarrow> tt_clients s c = Some x \<Longrightarrow> tc_pcb x \<notin> P"
    "\<And>c c' x x'. c \<notin> C \<Longrightarrow> c' \<notin> C \<Longrightarrow> tt_clients s c = Some x \<Longrightarrow> tt_clients s c' = Some x' \<Longrightarrow>
       tc_pcb x = tc_pcb x' \<Longrightarrow> c = c'"
    "\<And>p e. p \<notin> P \<Longrightarrow> tt_pcbs s p = Some e \<Longrightarrow> pe_arg e \<notin> C
       \<and> (\<exists>x. tt_clients s (pe_arg e) = Some x \<and> tc_pcb x = p \<and> \<not> tc_client_closed x)"
    "\<And>c. c \<notin> C \<Longrightarrow> tt_clients s c = None \<Longrightarrow> tt_socks s c = None"
    "\<And>p. p \<notin> P \<Longrightarrow> p \<in> tt_aborted_pcbs s \<Longrightarrow> tt_pcbs s p = None"
    "frames_ok own s"
    "\<And>c0 p0. own = Some (c0, p0) \<Longrightarrow> c0 \<notin> C \<Longrightarrow> p0 \<notin> P"
    "\<And>c0 p0 c x. own = Some (c0, p0) \<Longrightarrow> c \<notin> C \<Longrightarrow> c \<noteq> c0 \<Longrightarrow> tt_clients s c = Some x \<Longrightarrow> tc_pcb x \<noteq> p0"
  shows "inv_except own C P s"
  unfolding inv_except_def by (intro conjI allI impI; (rule assms; assumption | rule conjunct1 [OF assms(8)]; assumption
      | rule conjunct2 [OF assms(8)]; assumption))

lemma self_dead_frames:
  "self_dead own c' y fr \<Longrightarrow> c' \<noteq> c \<Longrightarrow> fr' = fr \<or> (\<exists>p0 d. own = Some (c, p0) \<and> fr' = [d]) \<Longrightarrow> self_dead own c' y fr'"
  by (auto simp: self_dead_def split: option.splits prod.splits)

lemma frames_ok_put:
  assumes "frames_ok own s" "c \<in> dom (tt_clients s)"
    "\<forall>p'. p' \<noteq> p \<longrightarrow> (p' \<in> ab \<longleftrightarrow> p' \<in> tt_aborted_pcbs s)"
    "fr = tt_frames s \<or> (\<exists>p0 d. own = Some (c, p0) \<and> fr = [d])"
    "\<forall>c0 p0. own = Some (c0, p0) \<longrightarrow> (c0 = c \<longleftrightarrow> p0 = p)"
  shows "frames_ok own (put s c p x pe so lg fr ab)"
  using assms by (cases own) (auto simp: frames_ok_def)

lemma inv_except_put:
  assumes inv: "inv_except own {c} {p} s" and dom: "c \<in> dom (tt_clients s)"
    and ab: "\<forall>p'. p' \<noteq> p \<longrightarrow> (p' \<in> ab \<longleftrightarrow> p' \<in> tt_aborted_pcbs s)"
    and fr: "fr = tt_frames s \<or> (\<exists>p0 d. own = Some (c, p0) \<and> fr = [d])"
    and own: "\<forall>c0 p0. own = Some (c0, p0) \<longrightarrow> (c0 = c \<longleftrightarrow> p0 = p)"
  shows "inv_except own {c} {p} (put s c p x pe so lg fr ab)"
proof (rule inv_exceptI)
  note i = inv_exceptD [OF inv]
  show "distinct (tt_tcp_clients (put s c p x pe so lg fr ab))" using i(1) by simp
  show "set (tt_tcp_clients (put s c p x pe so lg fr ab)) = dom (tt_clients (put s c p x pe so lg fr ab))"
    using i(2) dom by auto
  show "tt_num_clients (put s c p x pe so lg fr ab) = int (length (tt_tcp_clients (put s c p x pe so lg fr ab)))"
    using i(3) by simp
  show "frames_ok own (put s c p x pe so lg fr ab)" by (rule frames_ok_put [OF i(11) dom ab fr own])
next
  note i = inv_exceptD [OF inv]
  fix c' y assume c': "c' \<notin> {c}" "tt_clients (put s c p x pe so lg fr ab) c' = Some y"
  then have y: "tt_clients s c' = Some y" by simp
  show "tc_pcb y \<notin> {p}" using i(6) c'(1) y by blast
  moreover show "client_ok (put s c p x pe so lg fr ab) c' y"
    using i(4) [OF c'(1) y] calculation c'(1) ab by (simp add: client_ok_def)
  show "self_dead own c' y (tt_frames (put s c p x pe so lg fr ab))"
    using self_dead_frames [OF i(5) [OF c'(1) y] _ fr] c'(1) by simp
next
  note i = inv_exceptD [OF inv]
  fix c1 c2 x1 x2
  assume "c1 \<notin> {c}" "c2 \<notin> {c}" "tc_pcb x1 = tc_pcb x2"
    "tt_clients (put s c p x pe so lg fr ab) c1 = Some x1" "tt_clients (put s c p x pe so lg fr ab) c2 = Some x2"
  then show "c1 = c2" using i(7) [of c1 c2 x1 x2] by simp
next
  note i = inv_exceptD [OF inv]
  fix p' e assume p': "p' \<notin> {p}" "tt_pcbs (put s c p x pe so lg fr ab) p' = Some e"
  then show "pe_arg e \<notin> {c} \<and> (\<exists>xa. tt_clients (put s c p x pe so lg fr ab) (pe_arg e) = Some xa
      \<and> tc_pcb xa = p' \<and> \<not> tc_client_closed xa)"
    using i(8) [of p' e] by simp
next
  note i = inv_exceptD [OF inv]
  fix c' assume "c' \<notin> {c}" "tt_clients (put s c p x pe so lg fr ab) c' = None"
  then show "tt_socks (put s c p x pe so lg fr ab) c' = None" using i(9) [of c'] by simp
next
  note i = inv_exceptD [OF inv]
  fix p' assume "p' \<notin> {p}" "p' \<in> tt_aborted_pcbs (put s c p x pe so lg fr ab)"
  then show "tt_pcbs (put s c p x pe so lg fr ab) p' = None" using i(10) [of p'] ab by simp
next
  fix c0 p0 assume "own = Some (c0, p0)" "c0 \<notin> {c}"
  then show "p0 \<notin> {p}" using own by simp
next
  note i = inv_exceptD [OF inv]
  fix c0 p0 c' y assume "own = Some (c0, p0)" "c' \<notin> {c}" "c' \<noteq> c0" "tt_clients (put s c p x pe so lg fr ab) c' = Some y"
  then show "tc_pcb y \<noteq> p0" using i(13) [of c0 p0 c' y] by simp
qed

lemma focus_abort: "focus own s c p fr ab \<Longrightarrow> focus own s c p fr (insert p ab)"
  by (auto simp: focus_def)

lemma focus_frame: "focus own s c p fr ab \<Longrightarrow> own = Some (c, p0) \<Longrightarrow> focus own s c p [d] ab"
  by (auto simp: focus_def)

lemma focusI:
  assumes inv: "tt_inv own s" and x: "tt_clients s c = Some x"
  shows "focus own s c (tc_pcb x) (tt_frames s) (tt_aborted_pcbs s)"
proof -
  note i = inv_exceptD [OF inv [unfolded tt_inv_def]]
  have "inv_except own {c} {tc_pcb x} s"
  proof (rule inv_exceptI)
    fix p e assume p: "p \<notin> {tc_pcb x}" "tt_pcbs s p = Some e"
    then have "\<exists>y. tt_clients s (pe_arg e) = Some y \<and> tc_pcb y = p \<and> \<not> tc_client_closed y" using i(8) by blast
    then show "pe_arg e \<notin> {c} \<and> (\<exists>y. tt_clients s (pe_arg e) = Some y \<and> tc_pcb y = p \<and> \<not> tc_client_closed y)"
      using x p(1) by auto
  next
    fix c' y assume "c' \<notin> {c}" "tt_clients s c' = Some y"
    then show "tc_pcb y \<notin> {tc_pcb x}" using i(7) x by blast
  next
    fix c0 p0 assume "own = Some (c0, p0)" "c0 \<notin> {c}"
    then show "p0 \<notin> {tc_pcb x}" using i(13) [of c0 p0 c x] x by auto
  next
    fix c1 c2 x1 x2 assume "tt_clients s c1 = Some x1" "tt_clients s c2 = Some x2" "tc_pcb x1 = tc_pcb x2"
    then show "c1 = c2" using i(7) by blast
  next
    fix c0 p0 c' y assume "own = Some (c0, p0)" "c' \<noteq> c0" "tt_clients s c' = Some y"
    then show "tc_pcb y \<noteq> p0" using i(13) by blast
  qed (use i(1-5,9-12) in \<open>blast+\<close>)
  moreover have "c0 = c \<longleftrightarrow> p0 = tc_pcb x" if "own = Some (c0, p0)" for c0 p0
    using i(5) [OF _ x] i(13) [OF that _ _ x] that by (auto simp: self_dead_def)
  ultimately show ?thesis using x by (auto simp: focus_def)
qed

lemma focusD:
  assumes inv: "tt_inv own s" and x: "tt_clients s c = Some x"
  shows "tcp_side c x (tt_pcbs s (tc_pcb x))" "socks_side x (tt_socks s c)" "stream_ok x (tt_log s c)"
    "client_live x" "tc_aborted x \<longleftrightarrow> tc_pcb x \<in> tt_aborted_pcbs s" "self_dead own c x (tt_frames s)"
  using inv_exceptD(4,5) [OF inv [unfolded tt_inv_def], of c x] x by (simp_all add: client_ok_def)

lemma unfocus:
  assumes foc: "focus own s c (tc_pcb x) fr ab"
    and ok: "tcp_side c x pe" "socks_side x so" "stream_ok x lg" "client_live x"
      "tc_aborted x \<longleftrightarrow> tc_pcb x \<in> ab" "self_dead own c x fr"
  shows "tt_inv own (put s c (tc_pcb x) x pe so lg fr ab)"
proof -
  let ?t = "put s c (tc_pcb x) x pe so lg fr ab"
  have e: "inv_except own {c} {tc_pcb x} ?t"
    using foc by (auto simp: focus_def intro!: inv_except_put)
  note i = inv_exceptD [OF e]
  have own: "c0 = c \<longleftrightarrow> p0 = tc_pcb x" if "own = Some (c0, p0)" for c0 p0
    using foc that by (auto simp: focus_def)
  have me: "client_ok ?t c x" "tt_clients ?t c = Some x" using ok by (simp_all add: client_ok_def)
  show ?thesis unfolding tt_inv_def
  proof (rule inv_exceptI)
    fix c' y assume "tt_clients ?t c' = Some y"
    then show "client_ok ?t c' y" "self_dead own c' y (tt_frames ?t)"
      using i(4) [of c' y] i(5) [of c' y] me ok(6) by (cases "c' = c"; simp)+
  next
    fix c1 c2 x1 x2 assume a: "tt_clients ?t c1 = Some x1" "tt_clients ?t c2 = Some x2" "tc_pcb x1 = tc_pcb x2"
    have ne: "tc_pcb y \<noteq> tc_pcb x" if "c' \<noteq> c" "tt_clients ?t c' = Some y" for c' y
      using i(6) [of c' y] that by blast
    have mine: "y = x" if "tt_clients ?t c = Some y" for y using that by simp
    show "c1 = c2"
    proof (cases "c1 = c \<or> c2 = c")
      case True
      then show ?thesis using ne [OF _ a(1)] ne [OF _ a(2)] mine a by metis
    next
      case False
      then show ?thesis using i(7) [OF _ _ a] by blast
    qed
  next
    fix p e assume p: "tt_pcbs ?t p = Some e"
    show "pe_arg e \<notin> {} \<and> (\<exists>y. tt_clients ?t (pe_arg e) = Some y \<and> tc_pcb y = p \<and> \<not> tc_client_closed y)"
    proof (cases "p = tc_pcb x")
      case True
      then show ?thesis using p ok(1) by auto
    next
      case False
      then show ?thesis using i(8) [of p e] p by auto
    qed
  next
    fix c' assume "tt_clients ?t c' = None"
    then show "tt_socks ?t c' = None" using i(9) [of c'] by (cases "c' = c") auto
  next
    fix p assume p: "p \<in> tt_aborted_pcbs ?t"
    have "tc_aborted x \<Longrightarrow> pe = None" using ok(1,4) by (cases pe) (auto simp: client_live_def)
    then show "tt_pcbs ?t p = None"
      using i(10) [of p] p ok(5) by (cases "p = tc_pcb x"; simp)
  next
    fix c0 p0 c' y assume "own = Some (c0, p0)" "c' \<noteq> c0" "tt_clients ?t c' = Some y"
    then show "tc_pcb y \<noteq> p0"
      using i(13) [of c0 p0 c' y] own [of c0 p0] by (cases "c' = c") auto
  qed (use i(1,2,3,11) in \<open>simp_all\<close>)
qed

end
