(* ===== verification/TcpClientTeardown.thy ===== *)
theory TcpClientTeardown
  imports TcpClientInv
begin

text \<open>
  Taking a client down (\<open>client_dealloc\<close>, \<open>client_handle_freed_client\<close>, \<open>client_free_client\<close>,
  \<open>client_abort_client\<close>, \<open>client_free_socks\<close>, \<open>client_murder\<close>): from any state in which the client
  is whole except for what the caller has just taken from it, no assertion fails, nothing freed
  is used, and the invariant holds afterwards.
\<close>

definition settled :: "(nat \<times> nat) option \<Rightarrow> nat \<Rightarrow> nat \<Rightarrow> stream_log \<Rightarrow> tun_tcp option \<Rightarrow> bool" where
  "settled own c p lg r \<longleftrightarrow> (\<exists>s'. r = Some s' \<and> tt_inv own s' \<and> tt_log s' c = lg)"

lemma settledI: "r = Some s' \<Longrightarrow> tt_inv own s' \<Longrightarrow> tt_log s' c = lg \<Longrightarrow> settled own c p lg r"
  by (simp add: settled_def)

lemma frames_cases:
  assumes "self_dead own c x fr"
  obtains (mine) p0 where "own = Some (c, p0)" "tc_pcb x = p0" "fr = [if tc_aborted x then 1 else 0]"
      "tc_aborted x \<or> tc_dead_aborted x = Some 0"
  | (other) "\<forall>p0. own \<noteq> Some (c, p0)" "tc_aborted x \<or> tc_dead_aborted x = None"
  using assms by (auto simp: self_dead_def split: option.splits prod.splits if_splits)

text \<open>The state after the client has been removed, with the frames \<open>fr\<close>.\<close>

lemma removed_inv:
  assumes foc: "focus own s c p fr0 ab"
    and fr: "fr = fr0 \<and> (\<forall>p0. own \<noteq> Some (c, p0)) \<or> (\<exists>d p0. own = Some (c, p0) \<and> fr = [d] \<and> d \<noteq> 0 \<and> (d > 0 \<longleftrightarrow> p \<in> ab))"
  shows "tt_inv own (s\<lparr>tt_clients := (tt_clients s)(c := None), tt_pcbs := (tt_pcbs s)(p := None),
     tt_socks := (tt_socks s)(c := None), tt_log := (tt_log s)(c := lg), tt_frames := fr,
     tt_aborted_pcbs := ab, tt_num_clients := tt_num_clients s - 1,
     tt_tcp_clients := remove1 c (tt_tcp_clients s)\<rparr>)" (is "tt_inv own ?t")
proof -
  have foc': "focus own s c p fr ab" using foc fr by (auto simp: focus_def)
  define x where "x = the (tt_clients s c)"
  have e: "inv_except own {c} {p} (put s c p x None None lg fr ab)"
    using foc' by (auto simp: focus_def intro!: inv_except_put)
  note i = inv_exceptD [OF e]
  have dom: "c \<in> dom (tt_clients s)" using foc by (simp add: focus_def)
  then have dom': "insert c (dom (tt_clients s)) = dom (tt_clients s)" by auto
  have own: "c0 = c \<longleftrightarrow> p0 = p" if "own = Some (c0, p0)" for c0 p0
    using foc that by (auto simp: focus_def)
  have cl: "c' \<noteq> c \<and> tt_clients s c' = Some y" if "tt_clients ?t c' = Some y" for c' y
    using that by (auto split: if_splits)
  have len: "length (remove1 c (tt_tcp_clients s)) = length (tt_tcp_clients s) - 1" "c \<in> set (tt_tcp_clients s)"
    using i(2) dom by (auto simp: length_remove1)
  show ?thesis unfolding tt_inv_def
  proof (rule inv_exceptI)
    show "distinct (tt_tcp_clients ?t)" using i(1) by simp
    show "set (tt_tcp_clients ?t) = dom (tt_clients ?t)" using i(1,2) dom' by auto
    show "tt_num_clients ?t = int (length (tt_tcp_clients ?t))"
      using i(3) len by (cases "tt_tcp_clients s") auto
    show "frames_ok own ?t" using i(11) fr own by (cases own) (auto simp: frames_ok_def)
  next
    fix c' y assume "tt_clients ?t c' = Some y"
    note y = cl [OF this]
    show "client_ok ?t c' y" "self_dead own c' y (tt_frames ?t)"
      using i(4,5) [of c' y] i(6) [of c' y] y by (simp_all add: client_ok_def)
  next
    fix c1 c2 x1 x2 assume "tt_clients ?t c1 = Some x1" "tt_clients ?t c2 = Some x2" "tc_pcb x1 = tc_pcb x2"
    then show "c1 = c2" using cl [of c1 x1] cl [of c2 x2] i(7) [of c1 c2 x1 x2] by fastforce
  next
    fix p' e assume p': "tt_pcbs ?t p' = Some e"
    then have ne: "p' \<noteq> p" by auto
    then have "pe_arg e \<noteq> c" "\<exists>y. tt_clients s (pe_arg e) = Some y \<and> tc_pcb y = p' \<and> \<not> tc_client_closed y"
      using i(8) [of p' e] p' by auto
    then show "pe_arg e \<notin> {} \<and> (\<exists>y. tt_clients ?t (pe_arg e) = Some y \<and> tc_pcb y = p' \<and> \<not> tc_client_closed y)"
      by simp
  next
    fix c' assume "tt_clients ?t c' = None"
    then show "tt_socks ?t c' = None" using i(9) [of c'] by (auto split: if_splits)
  next
    fix p' assume "p' \<in> tt_aborted_pcbs ?t"
    then show "tt_pcbs ?t p' = None" using i(10) [of p'] by auto
  next
    fix c0 p0 c' y assume a: "own = Some (c0, p0)" "c' \<noteq> c0" "tt_clients ?t c' = Some y"
    from cl [OF a(3)] show "tc_pcb y \<noteq> p0" using i(13) [of c0 p0 c' y] a(1,2) by simp
  qed simp_all
qed

lemma dealloc_ok:
  assumes foc: "focus own s c (tc_pcb x) fr ab" and closed: "tc_client_closed x" "tc_socks_closed x"
    and ab: "tc_aborted x \<longleftrightarrow> tc_pcb x \<in> ab" and dead: "self_dead own c x fr"
  shows "settled own c (tc_pcb x) lg (client_dealloc c (put s c (tc_pcb x) x None None lg fr ab))"
proof -
  let ?p = "tc_pcb x"
  have inv: "inv_except own {c} {?p} s" "c \<in> dom (tt_clients s)" using foc by (auto simp: focus_def)
  have c: "c \<in> set (tt_tcp_clients s)" using inv_exceptD(2) [OF inv(1)] inv(2) by simp
  have n: "tt_num_clients s > 0" using inv_exceptD(3) [OF inv(1)] c by (cases "tt_tcp_clients s") auto
  define fr' where "fr' = (if tc_aborted x then fr else case tc_dead_aborted x of None \<Rightarrow> fr | Some k \<Rightarrow> fr[k := -1])"
  let ?t = "s\<lparr>tt_clients := (tt_clients s)(c := None), tt_pcbs := (tt_pcbs s)(?p := None),
     tt_socks := (tt_socks s)(c := None), tt_log := (tt_log s)(c := lg), tt_frames := fr',
     tt_aborted_pcbs := ab, tt_num_clients := tt_num_clients s - 1,
     tt_tcp_clients := remove1 c (tt_tcp_clients s)\<rparr>"
  have "client_dealloc c (put s c ?p x None None lg fr ab) = Some ?t"
    using dead by (cases rule: frames_cases)
      (use closed c n in \<open>auto simp: client_dealloc_def put_def DEAD_KILL_WITH_def fr'_def Let_def\<close>)
  moreover have "tt_inv own ?t"
  proof (rule removed_inv [OF foc])
    show "fr' = fr \<and> (\<forall>p0. own \<noteq> Some (c, p0)) \<or> (\<exists>d p0. own = Some (c, p0) \<and> fr' = [d] \<and> d \<noteq> 0 \<and> (d > 0 \<longleftrightarrow> ?p \<in> ab))"
      using dead by (cases rule: frames_cases) (use ab in \<open>auto simp: fr'_def\<close>)
  qed
  ultimately show ?thesis by (simp add: settled_def)
qed

section \<open>The functions that take a client down\<close>

lemma self_dead_cong:
  "tc_pcb x = tc_pcb y \<Longrightarrow> tc_aborted x = tc_aborted y \<Longrightarrow> tc_dead_aborted x = tc_dead_aborted y \<Longrightarrow>
   self_dead own c x fr = self_dead own c y fr"
  unfolding self_dead_def by (simp only:)

lemma self_dead_upd [simp]:
  "self_dead own c (x\<lparr>tc_client_closed := b\<rparr>) fr = self_dead own c x fr"
  "self_dead own c (x\<lparr>tc_socks_closed := b\<rparr>) fr = self_dead own c x fr"
  "self_dead own c (x\<lparr>tc_buf := d\<rparr>) fr = self_dead own c x fr"
  by (rule self_dead_cong; simp)+

lemma stream_ok_close: "stream_ok x lg \<Longrightarrow> stream_ok (x\<lparr>tc_client_closed := True\<rparr>) lg"
  by (auto simp: stream_ok_def split: if_splits)

lemma socks_side_close: "socks_side x so \<Longrightarrow> socks_side (x\<lparr>tc_client_closed := True\<rparr>) so"
  by (cases so) (auto split: if_splits)

lemma handle_freed_ok:
  assumes foc: "focus own s c (tc_pcb x) fr ab" and op: "\<not> tc_client_closed x"
    and side: "socks_side x so" "stream_ok x lg" "length (tc_buf x) \<le> TCP_WND"
    and ab: "tc_aborted x \<longleftrightarrow> tc_pcb x \<in> ab" and dead: "self_dead own c x fr"
  shows "settled own c (tc_pcb x) lg (client_handle_freed_client lw c (put s c (tc_pcb x) x None so lg fr ab))"
proof -
  let ?x = "x\<lparr>tc_client_closed := True\<rparr>"
  note d = dealloc_ok [of own s c "x\<lparr>tc_client_closed := True, tc_socks_closed := True\<rparr>" fr ab lg, simplified]
  show ?thesis
  proof (cases "tc_socks_closed x")
    case True
    then have "so = None" using side(1) by (simp add: sides_closed)
    then show ?thesis
      using dealloc_ok [of own s c ?x fr ab lg] foc ab dead True op by (simp add: client_handle_freed_client.simps)
  next
    case False
    then obtain e where e: "so = Some e" using side(1) by (auto simp: sides_closed)
    show ?thesis
    proof (cases "tc_buf x = []")
      case True
      then show ?thesis
        using d foc ab dead False op e
        by (simp add: client_handle_freed_client.simps client_free_socks.simps)
    next
      case buf: False
      have "tt_inv own (put s c (tc_pcb ?x) ?x None so lg fr ab)"
        by (rule unfocus) (use foc ab dead buf False side stream_ok_close socks_side_close in
            \<open>simp_all add: client_live_def\<close>)
      then show ?thesis
        using buf False op by (simp add: client_handle_freed_client.simps settled_def)
    qed
  qed
qed

lemma abort_pcb_ok:
  assumes foc: "focus own s c (tc_pcb x) fr ab" and dead: "self_dead own c x fr"
    and x: "\<not> tc_aborted x" "\<not> pe_err e"
  obtains fr' where
    "client_abort_pcb c (put s c (tc_pcb x) x (Some e) so lg fr ab)
       = Some (put s c (tc_pcb x) (x\<lparr>tc_aborted := True\<rparr>) None so lg fr' (insert (tc_pcb x) ab))"
    "focus own s c (tc_pcb x) fr' (insert (tc_pcb x) ab)" "self_dead own c (x\<lparr>tc_aborted := True\<rparr>) fr'"
  using dead
proof (cases rule: frames_cases)
  case (mine p0)
  show ?thesis
  proof (rule that)
    show "client_abort_pcb c (put s c (tc_pcb x) x (Some e) so lg fr ab)
       = Some (put s c (tc_pcb x) (x\<lparr>tc_aborted := True\<rparr>) None so lg [1] (insert (tc_pcb x) ab))"
      using mine x by (simp add: client_abort_pcb_def)
    show "focus own s c (tc_pcb x) [1] (insert (tc_pcb x) ab)"
      using foc mine focus_abort focus_frame by blast
    show "self_dead own c (x\<lparr>tc_aborted := True\<rparr>) [1]" using mine by (simp add: self_dead_def)
  qed
next
  case other
  show ?thesis
  proof (rule that)
    show "client_abort_pcb c (put s c (tc_pcb x) x (Some e) so lg fr ab)
       = Some (put s c (tc_pcb x) (x\<lparr>tc_aborted := True\<rparr>) None so lg fr (insert (tc_pcb x) ab))"
      using other x by (simp add: client_abort_pcb_def)
    show "focus own s c (tc_pcb x) fr (insert (tc_pcb x) ab)" using foc focus_abort by blast
    show "self_dead own c (x\<lparr>tc_aborted := True\<rparr>) fr"
      using other by (auto simp: self_dead_def split: option.splits)
  qed
qed

lemma socks_stream_aborted [simp]:
  "socks_side (x\<lparr>tc_aborted := b\<rparr>) so = socks_side x so"
  "stream_ok (x\<lparr>tc_aborted := b\<rparr>) lg = stream_ok x lg"
  by (cases so; simp) (simp add: stream_ok_def)

lemma free_client_ok:
  assumes foc: "focus own s c (tc_pcb x) fr ab" and op: "\<not> tc_client_closed x" "\<not> tc_aborted x"
    and side: "socks_side x so" "stream_ok x lg" "length (tc_buf x) \<le> TCP_WND"
    and ab: "tc_pcb x \<notin> ab" and dead: "self_dead own c x fr"
  shows "settled own c (tc_pcb x) lg (client_free_client lw c (put s c (tc_pcb x) x (Some e) so lg fr ab))"
proof (cases "lr_close_ok lw")
  case True
  then show ?thesis
    using handle_freed_ok [OF foc op(1) side _ dead] op ab
    by (simp add: client_free_client.simps tcp_close_or_abort_def)
next
  case False
  let ?e = "e\<lparr>pe_err := False, pe_recv := False, pe_sent := False\<rparr>"
  obtain fr' where fr': "client_abort_pcb c (put s c (tc_pcb x) x (Some ?e) so lg fr ab)
       = Some (put s c (tc_pcb x) (x\<lparr>tc_aborted := True\<rparr>) None so lg fr' (insert (tc_pcb x) ab))"
    "focus own s c (tc_pcb x) fr' (insert (tc_pcb x) ab)" "self_dead own c (x\<lparr>tc_aborted := True\<rparr>) fr'"
    by (rule abort_pcb_ok [OF foc dead op(2), of ?e so lg]) simp
  then show ?thesis
    using handle_freed_ok [of own s c "x\<lparr>tc_aborted := True\<rparr>" fr' "insert (tc_pcb x) ab" so lg lw] op side False
    by (simp add: client_free_client.simps tcp_close_or_abort_def)
qed

lemma abort_client_ok:
  assumes foc: "focus own s c (tc_pcb x) fr ab" and op: "\<not> tc_client_closed x" "\<not> tc_aborted x"
    and side: "socks_side x so" "stream_ok x lg" "length (tc_buf x) \<le> TCP_WND"
    and dead: "self_dead own c x fr"
  shows "settled own c (tc_pcb x) lg (client_abort_client lw c (put s c (tc_pcb x) x (Some e) so lg fr ab))"
proof -
  let ?e = "e\<lparr>pe_err := False, pe_recv := False, pe_sent := False\<rparr>"
  obtain fr' where fr': "client_abort_pcb c (put s c (tc_pcb x) x (Some ?e) so lg fr ab)
       = Some (put s c (tc_pcb x) (x\<lparr>tc_aborted := True\<rparr>) None so lg fr' (insert (tc_pcb x) ab))"
    "focus own s c (tc_pcb x) fr' (insert (tc_pcb x) ab)" "self_dead own c (x\<lparr>tc_aborted := True\<rparr>) fr'"
    by (rule abort_pcb_ok [OF foc dead op(2), of ?e so lg]) simp
  then show ?thesis
    using handle_freed_ok [of own s c "x\<lparr>tc_aborted := True\<rparr>" fr' "insert (tc_pcb x) ab" so lg lw] op side
    by (simp add: client_abort_client_def)
qed

lemma free_socks_ok:
  assumes foc: "focus own s c (tc_pcb x) fr ab" and op: "\<not> tc_socks_closed x"
    and side: "tcp_side c x pe" "stream_ok x lg" "length (tc_buf x) \<le> TCP_WND"
      "tc_socks_up x \<and> \<not> tc_client_closed x \<longrightarrow> recv_state_ok x" "tc_aborted x \<longrightarrow> tc_client_closed x"
    and ab: "tc_aborted x \<longleftrightarrow> tc_pcb x \<in> ab" and dead: "self_dead own c x fr"
  shows "settled own c (tc_pcb x) lg (client_free_socks lw c (put s c (tc_pcb x) x pe (Some so) lg fr ab))"
proof (cases "tc_client_closed x")
  case True
  then have "pe = None" using side(1) by (simp add: sides_closed)
  then show ?thesis
    using dealloc_ok [of own s c "x\<lparr>tc_socks_closed := True\<rparr>" fr ab lg] foc op ab dead True
    by (simp add: client_free_socks.simps)
next
  case open': False
  let ?x = "x\<lparr>tc_socks_closed := True\<rparr>"
  obtain e where e: "pe = Some e" "pe_arg e = c" "pe_err e" "pe_sent e = tc_socks_up x"
    "int (pe_unacked e) = (if tc_socks_up x then tc_recv_tcp_pending x else 0)" "pe_recv e"
    using side(1) open' op by (cases pe) auto
  have st: "socks_side ?x None" "stream_ok ?x lg"
    using side(2) by (auto simp: stream_ok_def)
  show ?thesis
  proof (cases "tc_socks_up x \<and> (tc_recv_buf_used x \<ge> 0 \<or> tc_recv_tcp_pending x > 0)")
    case True
    have "tt_inv own (put s c (tc_pcb ?x) ?x (Some (e\<lparr>pe_recv := False\<rparr>)) None lg fr ab)"
      by (rule unfocus) (use foc ab dead True open' e side st in
          \<open>auto simp: client_live_def recv_state_ok_def\<close>)
    then show ?thesis using True op open' e by (simp add: client_free_socks.simps settled_def)
  next
    case False
    note f = free_client_ok [of own s c ?x fr ab None lg lw]
    show ?thesis
      using False op open' e side f foc ab dead st
      by (cases "tc_socks_up x") (auto simp: client_free_socks.simps)
  qed
qed

lemma murder_ok:
  assumes inv: "tt_inv own s" and x: "tt_clients s c = Some x"
  shows "settled own c (tc_pcb x) (tt_log s c) (client_murder c s)"
proof -
  let ?p = "tc_pcb x" and ?x = "x\<lparr>tc_client_closed := True, tc_socks_closed := True\<rparr>"
  note foc = focusI [OF inv x] and d = focusD [OF inv x] and self = put_self [OF x, of ?p]
  show ?thesis
  proof (cases "tc_client_closed x")
    case True
    then obtain e where e: "tt_pcbs s ?p = None" "tt_socks s c = Some e" "\<not> tc_socks_closed x"
      using d by (auto simp: sides_closed client_live_def)
    let ?x = "x\<lparr>tc_socks_closed := True\<rparr>"
    have "client_murder c (put s c ?p x None (Some e) (tt_log s c) (tt_frames s) (tt_aborted_pcbs s))
       = client_dealloc c (put s c ?p ?x None None (tt_log s c) (tt_frames s) (tt_aborted_pcbs s))"
      using True e(3) by (simp add: client_murder_def)
    then show ?thesis
      using dealloc_ok [of own s c ?x "tt_frames s" "tt_aborted_pcbs s"] foc d(5,6) self e True by simp
  next
    case False
    then obtain e where e: "tt_pcbs s ?p = Some e" "\<not> tc_aborted x"
      using d by (auto simp: sides_closed client_live_def)
    let ?e = "e\<lparr>pe_err := False, pe_recv := False, pe_sent := False\<rparr>"
    obtain fr' where fr': "client_abort_pcb c (put s c ?p x (Some ?e) (tt_socks s c) (tt_log s c) (tt_frames s) (tt_aborted_pcbs s))
       = Some (put s c ?p (x\<lparr>tc_aborted := True\<rparr>) None (tt_socks s c) (tt_log s c) fr' (insert ?p (tt_aborted_pcbs s)))"
      "focus own s c ?p fr' (insert ?p (tt_aborted_pcbs s))" "self_dead own c (x\<lparr>tc_aborted := True\<rparr>) fr'"
      by (rule abort_pcb_ok [OF foc d(6) e(2), of ?e "tt_socks s c" "tt_log s c"]) simp
    note d' = dealloc_ok [of own s c _ fr' "insert ?p (tt_aborted_pcbs s)" "tt_log s c"]
    show ?thesis
    proof (cases "tc_socks_closed x")
      case True
      then have "tt_socks s c = None" using d(2) by (simp add: sides_closed)
      then have "client_murder c (put s c ?p x (Some e) (tt_socks s c) (tt_log s c) (tt_frames s) (tt_aborted_pcbs s))
        = client_dealloc c (put s c ?p (x\<lparr>tc_aborted := True, tc_client_closed := True\<rparr>) None None
            (tt_log s c) fr' (insert ?p (tt_aborted_pcbs s)))"
        using False fr'(1) True by (simp add: client_murder_def)
      then show ?thesis
        using d' [of "x\<lparr>tc_aborted := True, tc_client_closed := True\<rparr>"] fr' self e True by simp
    next
      case sc: False
      then obtain o' where "tt_socks s c = Some o'" using d(2) by (auto simp: sides_closed)
      then have "client_murder c (put s c ?p x (Some e) (tt_socks s c) (tt_log s c) (tt_frames s) (tt_aborted_pcbs s))
        = client_dealloc c (put s c ?p (x\<lparr>tc_aborted := True, tc_client_closed := True, tc_socks_closed := True\<rparr>)
            None None (tt_log s c) fr' (insert ?p (tt_aborted_pcbs s)))"
        using False fr'(1) sc by (simp add: client_murder_def)
      then show ?thesis
        using d' [of "x\<lparr>tc_aborted := True, tc_client_closed := True, tc_socks_closed := True\<rparr>"] fr' self e by simp
    qed
  qed
qed

end
