(* ===== verification/TcpClientRelay.thy ===== *)
theory TcpClientRelay
  imports TcpClientTeardown
begin

text \<open>
  Relaying: the loop that passes data to \<open>tcp_write\<close>, and the handlers of the SOCKS client's events,
  each of which keeps the invariant.
\<close>

definition kept :: "(nat \<times> nat) option \<Rightarrow> tun_tcp option \<Rightarrow> bool" where
  "kept own r \<longleftrightarrow> (\<exists>s'. r = Some s' \<and> tt_inv own s')"

lemma kept_Some [simp]: "kept own (Some s) = tt_inv own s"
  by (simp add: kept_def)

lemma settled_kept: "settled own c p lg r \<Longrightarrow> kept own r"
  by (auto simp: settled_def kept_def)

section \<open>Writing to the client\<close>

definition wrote :: "nat \<Rightarrow> tcp_client \<Rightarrow> tcp_client" where
  "wrote k x = x\<lparr>tc_recv_buf_sent := tc_recv_buf_sent x + int k, tc_recv_tcp_pending := tc_recv_tcp_pending x + int k\<rparr>"

lemma wrote_simps [simp]:
  "tc_recv_buf_sent (wrote k x) = tc_recv_buf_sent x + int k"
  "tc_recv_tcp_pending (wrote k x) = tc_recv_tcp_pending x + int k"
  "tc_recv_buf_used (wrote k x) = tc_recv_buf_used x" "tc_recv_buf (wrote k x) = tc_recv_buf x"
  "tc_pcb (wrote k x) = tc_pcb x" "tc_client_closed (wrote k x) = tc_client_closed x"
  "tc_socks_closed (wrote k x) = tc_socks_closed x" "tc_socks_up (wrote k x) = tc_socks_up x"
  "tc_buf (wrote k x) = tc_buf x" "tc_aborted (wrote k x) = tc_aborted x"
  "tc_dead_aborted (wrote k x) = tc_dead_aborted x" "tc_recv_waiting (wrote k x) = tc_recv_waiting x"
  "tc_local_addr (wrote k x) = tc_local_addr x"
  "wrote j (wrote k x) = wrote (k + j) x"
  by (simp_all add: wrote_def algebra_simps)

lemma wrote_0 [simp]: "wrote 0 x = x"
  by (simp add: wrote_def)

lemma write_loop_ok:
  assumes "pe_arg e = c" "0 \<le> tc_recv_buf_sent x" "tc_recv_buf_sent x < tc_recv_buf_used x"
    "tc_recv_buf_used x = int (length (tc_recv_buf x))"
  shows "\<exists>k failed. write_loop lw i c (put s c (tc_pcb x) x (Some e) so lg fr ab)
      = Some (put s c (tc_pcb x) (wrote k x) (Some (e\<lparr>pe_unacked := pe_unacked e + k\<rparr>)) so
          (lg\<lparr>lg_to_client := lg_to_client lg @ take k (drop (nat (tc_recv_buf_sent x)) (tc_recv_buf x))\<rparr>) fr ab, failed)
    \<and> int k \<le> tc_recv_buf_used x - tc_recv_buf_sent x"
  using assms
proof (induction "nat (tc_recv_buf_used x - tc_recv_buf_sent x)" arbitrary: x e lg i rule: less_induct)
  case less
  let ?w = "min (tc_recv_buf_used x - tc_recv_buf_sent x) (int (lr_sndbuf lw i))"
  define n where "n = nat ?w"
  have n: "?w = int n" "int n \<le> tc_recv_buf_used x - tc_recv_buf_sent x" using less.prems by (auto simp: n_def)
  note unfold = write_loop.simps [of lw i c "put s c (tc_pcb x) x (Some e) so lg fr ab"]
  show ?case
  proof (cases "n = 0 \<or> lr_write lw i \<noteq> ERR_OK")
    case True
    have "write_loop lw i c (put s c (tc_pcb x) x (Some e) so lg fr ab)
       = Some (put s c (tc_pcb x) x (Some e) so lg fr ab, n \<noteq> 0 \<and> lr_write lw i \<noteq> ERR_MEM)"
      using True n(1) by (subst unfold) (auto simp: Let_def)
    moreover have "e\<lparr>pe_unacked := pe_unacked e + 0\<rparr> = e" "lg\<lparr>lg_to_client := lg_to_client lg @ []\<rparr> = lg" by simp_all
    ultimately show ?thesis
      using less.prems by (intro exI [of _ 0] exI conjI) auto
  next
    case False
    let ?x = "wrote n x" and ?e = "e\<lparr>pe_unacked := pe_unacked e + n\<rparr>"
      and ?lg = "\<lambda>n. lg\<lparr>lg_to_client := lg_to_client lg @ take n (drop (nat (tc_recv_buf_sent x)) (tc_recv_buf x))\<rparr>"
    have len: "length (take n (drop (nat (tc_recv_buf_sent x)) (tc_recv_buf x))) = n"
      using n(2) less.prems by auto
    have upd: "(tc_recv_buf_sent_update (\<lambda>m. m + int n) \<circ> tc_recv_tcp_pending_update (\<lambda>m. m + int n)) x = ?x"
      by (cases x) (simp add: wrote_def)
    have step: "write_loop lw i c (put s c (tc_pcb x) x (Some e) so lg fr ab) =
       (let s'' = put s c (tc_pcb x) ?x (Some ?e) so (?lg n) fr ab in
        if tc_recv_buf_sent x + int n < tc_recv_buf_used x then write_loop lw (Suc i) c s'' else Some (s'', False))"
      using False n(1) less.prems(1) len upd by (subst unfold) (simp add: seg_def Let_def)
    show ?thesis
    proof (cases "tc_recv_buf_sent x + int n < tc_recv_buf_used x")
      case True
      have "nat (tc_recv_buf_used ?x - tc_recv_buf_sent ?x) < nat (tc_recv_buf_used x - tc_recv_buf_sent x)"
        using False True less.prems by auto
      from less.hyps [OF this, where e = ?e and i = "Suc i" and lg = "?lg n"] True less.prems
      obtain k failed where k: "write_loop lw (Suc i) c (put s c (tc_pcb x) ?x (Some ?e) so (?lg n) fr ab)
         = Some (put s c (tc_pcb x) (wrote (n + k) x) (Some (e\<lparr>pe_unacked := pe_unacked e + n + k\<rparr>)) so
           ((?lg n)\<lparr>lg_to_client := lg_to_client (?lg n) @ take k (drop (nat (tc_recv_buf_sent x + int n)) (tc_recv_buf x))\<rparr>) fr ab, failed)"
        "int k \<le> tc_recv_buf_used x - (tc_recv_buf_sent x + int n)"
        by (auto simp: add.assoc)
      have "nat (tc_recv_buf_sent x + int n) = n + nat (tc_recv_buf_sent x)" using less.prems by simp
      then have "(?lg n)\<lparr>lg_to_client := lg_to_client (?lg n) @ take k (drop (nat (tc_recv_buf_sent x + int n)) (tc_recv_buf x))\<rparr>
          = ?lg (n + k)" by (simp add: take_add)
      then show ?thesis using step k True by (intro exI [of _ "n + k"] exI [of _ failed]) (simp add: add.assoc)
    next
      case end': False
      then show ?thesis using step n(2) by (intro exI [of _ n] exI [of _ False]) simp
    qed
  qed
qed

text \<open>The outcomes of \<open>client_socks_recv_send_out\<close>: aborted, waiting for room, or all queued.\<close>

lemma send_out_ok:
  assumes foc: "focus own s c (tc_pcb x) fr ab"
    and op: "\<not> tc_client_closed x" "\<not> tc_aborted x" "tc_socks_up x" "length (tc_buf x) \<le> TCP_WND"
    and buf: "0 \<le> tc_recv_buf_sent x" "tc_recv_buf_sent x < tc_recv_buf_used x" "\<not> tc_recv_waiting x"
      "tc_recv_buf_used x = int (length (tc_recv_buf x))" "tc_recv_tcp_pending x \<ge> 0"
    and side: "tcp_side c x (Some e)" "socks_side x so" "stream_ok x lg"
    and ab: "tc_pcb x \<notin> ab" and dead: "self_dead own c x fr"
  obtains (aborted) s' where
      "client_socks_recv_send_out lw c (put s c (tc_pcb x) x (Some e) so lg fr ab) = Some (s', -1)" "tt_inv own s'"
  | (waiting) y e' lg' where
      "client_socks_recv_send_out lw c (put s c (tc_pcb x) x (Some e) so lg fr ab)
         = Some (put s c (tc_pcb x) y (Some e') so lg' fr ab, 0)"
      "tt_inv own (put s c (tc_pcb x) y (Some e') so lg' fr ab)"
      "tc_recv_buf_used y > 0" "tc_recv_tcp_pending y > 0"
  | (queued) y e' lg' where
      "client_socks_recv_send_out lw c (put s c (tc_pcb x) x (Some e) so lg fr ab)
         = Some (put s c (tc_pcb x) y (Some e') so lg' fr ab, 0)"
      "y = (wrote (nat (tc_recv_buf_used x - tc_recv_buf_sent x)) x)\<lparr>tc_recv_buf_used := -1\<rparr>"
      "tcp_side c y (Some e')" "stream_ok y lg'"
proof -
  obtain k failed where w: "write_loop lw 0 c (put s c (tc_pcb x) x (Some e) so lg fr ab)
      = Some (put s c (tc_pcb x) (wrote k x) (Some (e\<lparr>pe_unacked := pe_unacked e + k\<rparr>)) so
          (lg\<lparr>lg_to_client := lg_to_client lg @ take k (drop (nat (tc_recv_buf_sent x)) (tc_recv_buf x))\<rparr>) fr ab, failed)"
    "int k \<le> tc_recv_buf_used x - tc_recv_buf_sent x"
    using write_loop_ok [of e c x lw 0 s so lg fr ab] side(1) buf by auto
  let ?x = "wrote k x" and ?e = "e\<lparr>pe_unacked := pe_unacked e + k\<rparr>"
    and ?lg = "lg\<lparr>lg_to_client := lg_to_client lg @ take k (drop (nat (tc_recv_buf_sent x)) (tc_recv_buf x))\<rparr>"
  have n: "nat (tc_recv_buf_sent x + int k) = k + nat (tc_recv_buf_sent x)" using buf(1) by simp
  have tk: "take k (drop (nat (tc_recv_buf_sent x)) (tc_recv_buf x)) @ drop (nat (tc_recv_buf_sent x + int k)) (tc_recv_buf x)
      = drop (nat (tc_recv_buf_sent x)) (tc_recv_buf x)"
    unfolding n by (metis append_take_drop_id drop_drop)
  have ne: "tc_recv_buf x \<noteq> []" using buf by auto
  have tcp: "tcp_side c ?x (Some ?e)" using side(1) op(3) by simp
  have socks: "socks_side ?x so" using side(2) buf(2) op(3) by (cases so) auto
  have stream: "stream_ok ?x ?lg"
    using side(3) op buf tk by (simp add: stream_ok_def)
  have dead': "self_dead own c ?x fr" using dead self_dead_cong [of x ?x] by simp
  note a = abort_client_ok [of own s c ?x fr ab so ?lg lw ?e, simplified, OF foc op(1,2) socks stream op(4) dead']
  show ?thesis
  proof (cases "failed \<or> lr_output lw \<noteq> ERR_OK \<or>
      (tc_recv_buf_sent ?x < tc_recv_buf_used ?x \<and> tc_recv_tcp_pending ?x = 0)")
    case True
    from a obtain s' where s': "client_abort_client lw c (put s c (tc_pcb x) ?x (Some ?e) so ?lg fr ab) = Some s'" "tt_inv own s'"
      by (auto simp: settled_def)
    then have "client_socks_recv_send_out lw c (put s c (tc_pcb x) x (Some e) so lg fr ab) = Some (s', -1)"
      using op buf w True by (auto simp: client_socks_recv_send_out_def)
    with s'(2) show ?thesis by (rule aborted [rotated])
  next
    case False
    show ?thesis
    proof (cases "tc_recv_buf_sent ?x < tc_recv_buf_used ?x")
      case True
      let ?y = "?x\<lparr>tc_recv_waiting := True\<rparr>"
      have run: "client_socks_recv_send_out lw c (put s c (tc_pcb x) x (Some e) so lg fr ab)
         = Some (put s c (tc_pcb x) ?y (Some ?e) so ?lg fr ab, 0)"
        using op buf w True False ne by (simp add: client_socks_recv_send_out_def)
      have i: "tt_inv own (put s c (tc_pcb ?y) ?y (Some ?e) so ?lg fr ab)"
      proof (rule unfocus)
        show "socks_side ?y so" using socks by (cases so) auto
        show "client_live ?y" using op True buf False by (auto simp: client_live_def recv_state_ok_def)
        show "self_dead own c ?y fr" using dead' self_dead_cong [of ?x ?y] by simp
        show "stream_ok ?y ?lg" using stream op by (auto simp: stream_ok_def split: if_splits)
      qed (use foc tcp ab op in simp_all)
      have i': "tt_inv own (put s c (tc_pcb x) ?y (Some ?e) so ?lg fr ab)" using i by simp
      show ?thesis by (rule waiting [OF run i']) (use buf False True in auto)
    next
      case done': False
      then have k: "k = nat (tc_recv_buf_used x - tc_recv_buf_sent x)" using w(2) by simp
      let ?y = "?x\<lparr>tc_recv_buf_used := -1\<rparr>"
      have all: "take k (drop (nat (tc_recv_buf_sent x)) (tc_recv_buf x)) = drop (nat (tc_recv_buf_sent x)) (tc_recv_buf x)"
        using k buf by simp
      have "client_socks_recv_send_out lw c (put s c (tc_pcb x) x (Some e) so lg fr ab)
         = Some (put s c (tc_pcb x) ?y (Some ?e) so ?lg fr ab, 0)"
        using op buf w done' False ne by (simp add: client_socks_recv_send_out_def)
      moreover have "tcp_side c ?y (Some ?e)" using tcp by simp
      moreover have "stream_ok ?y ?lg" using side(3) op buf by (simp add: stream_ok_def all)
      ultimately show ?thesis using queued k by blast
    qed
  qed
qed

section \<open>Events of the SOCKS client\<close>

lemma recv_initiate_ok:
  assumes "focus own s c (tc_pcb y) fr ab" "\<not> tc_client_closed y" "\<not> tc_socks_closed y" "tc_socks_up y"
    "\<not> tc_aborted y" "tc_recv_buf_used y = -1" "tc_recv_tcp_pending y \<ge> 0" "length (tc_buf y) \<le> TCP_WND"
    "tcp_side c y (Some e)" "so_dest o' = tc_local_addr y" "so_up o'" "\<not> so_recv o'"
    "so_send o' = None \<longrightarrow> tc_buf y = []" "\<forall>n. so_send o' = Some n \<longrightarrow> 0 < n \<and> n \<le> length (tc_buf y)"
    "stream_ok y lg" "tc_pcb y \<notin> ab" "self_dead own c y fr"
  shows "kept own (client_socks_recv_initiate c (put s c (tc_pcb y) y (Some e) (Some o') lg fr ab))"
proof -
  have "tt_inv own (put s c (tc_pcb y) y (Some e) (Some (o'\<lparr>so_recv := True\<rparr>)) lg fr ab)"
    by (rule unfocus) (use assms in \<open>auto simp: client_live_def recv_state_ok_def\<close>)
  then show ?thesis using assms by (simp add: client_socks_recv_initiate_def)
qed

lemma recv_handler_done_ok:
  assumes inv: "tt_inv own s" and x: "tt_clients s c = Some x" and o': "tt_socks s c = Some e0"
    and up: "so_up e0" "so_recv e0" and data: "data \<noteq> []" "length data \<le> CLIENT_SOCKS_RECV_BUF_SIZE"
  shows "kept own (client_socks_recv_handler_done lw c (length data)
     (put s c (tc_pcb x) (x\<lparr>tc_recv_buf := data\<rparr>) (tt_pcbs s (tc_pcb x)) (Some (e0\<lparr>so_recv := False\<rparr>))
       ((tt_log s c)\<lparr>lg_from_socks := lg_from_socks (tt_log s c) @ data\<rparr>) (tt_frames s) (tt_aborted_pcbs s)))"
    (is "kept own (?h (put s c ?p ?x ?pe (Some ?o) ?lg ?fr ?ab))")
proof -
  note foc = focusI [OF inv x] and d = focusD [OF inv x]
  have so: "\<not> tc_socks_closed x" "tc_socks_up x" "tc_recv_buf_used x = -1"
    using d(2) o' up by (simp_all split: if_splits)
  have dead: "self_dead own c y ?fr" if "tc_pcb y = ?p" "tc_aborted y = tc_aborted x" "tc_dead_aborted y = tc_dead_aborted x" for y
    using d(6) that self_dead_cong [of y x] by simp
  show ?thesis
  proof (cases "tc_client_closed x")
    case True
    obtain r where "lg_to_client (tt_log s c) @ r = lg_from_socks (tt_log s c)"
      using d(3) True so by (auto simp: stream_ok_def)
    then have stream: "stream_ok ?x ?lg"
      using d(3) True so by (auto simp: stream_ok_def intro!: exI [of _ "r @ data"])
    have "tt_inv own (put s c (tc_pcb ?x) ?x ?pe (Some ?o) ?lg ?fr ?ab)"
    proof (rule unfocus)
      show "self_dead own c ?x ?fr" by (rule dead) simp_all
      show "socks_side ?x (Some ?o)" using d(2) o' so True by auto
      show "tcp_side c ?x ?pe" using d(1) True by (simp add: sides_closed)
      show "client_live ?x" using d(4) True by (simp add: client_live_def)
    qed (use foc d(5) stream in simp_all)
    then show ?thesis
      using data so True by (simp add: client_socks_recv_handler_done_def Let_def Suc_le_eq)
  next
    case False
    let ?y = "x\<lparr>tc_recv_buf := data, tc_recv_buf_used := int (length data), tc_recv_buf_sent := 0, tc_recv_waiting := False\<rparr>"
    obtain e where e: "?pe = Some e" using d(1) False by (auto simp: sides_closed)
    have na: "\<not> tc_aborted x" using d(4) False by (simp add: client_live_def)
    have run: "?h (put s c ?p ?x ?pe (Some ?o) ?lg ?fr ?ab)
       = do { (s, r) \<leftarrow> client_socks_recv_send_out lw c (put s c ?p ?y ?pe (Some ?o) ?lg ?fr ?ab);
              if r < 0 then Some s
              else do { x \<leftarrow> tt_clients s c;
                        if tc_recv_buf_used x = -1 then client_socks_recv_initiate c s else Some s } }"
      using data so False by (simp add: client_socks_recv_handler_done_def Suc_le_eq)
    have y: "tcp_side c ?y (Some e)" "socks_side ?y (Some ?o)" "stream_ok ?y ?lg"
      using d(1-3) e o' False so data by (simp_all add: stream_ok_def)
    have pend: "tc_recv_tcp_pending x \<ge> 0" using d(4) so False by (simp add: client_live_def recv_state_ok_def)
    have pre: "focus own s c (tc_pcb ?y) ?fr ?ab" "self_dead own c ?y ?fr" "tc_pcb ?y \<notin> ?ab"
      "\<not> tc_client_closed ?y" "\<not> tc_aborted ?y" "tc_socks_up ?y" "length (tc_buf ?y) \<le> TCP_WND"
      "0 \<le> tc_recv_buf_sent ?y" "tc_recv_buf_sent ?y < tc_recv_buf_used ?y" "\<not> tc_recv_waiting ?y"
      "tc_recv_buf_used ?y = int (length (tc_recv_buf ?y))" "0 \<le> tc_recv_tcp_pending ?y"
      using foc dead [of ?y] d(4,5) na False so data pend by (simp_all add: client_live_def)
    show ?thesis
    proof (cases rule: send_out_ok [OF pre(1,4-12) y pre(3,2), where lw = lw, case_names aborted waiting queued])
      case (aborted s')
      then show ?thesis using run e by simp
    next
      case (waiting y e' lg')
      then show ?thesis using run e by simp
    next
      case (queued y e' lg')
      have "kept own (client_socks_recv_initiate c (put s c (tc_pcb y) y (Some e') (Some ?o) lg' ?fr ?ab))"
        by (rule recv_initiate_ok)
          (use foc d so o' queued dead [of y] False na up pend in \<open>auto simp: client_live_def\<close>)
      then show ?thesis using run e queued(1,2) by simp
    qed
  qed
qed

lemma send_handler_done_run:
  assumes inv: "tt_inv own s" and x: "tt_clients s c = Some x" and o': "tt_socks s c = Some e0"
    and up: "so_up e0" "so_send e0 = Some m" and n: "0 < n" "n \<le> m"
  shows "\<exists>s'. client_socks_send_handler_done lw c n
     (put s c (tc_pcb x) x (tt_pcbs s (tc_pcb x)) (Some (e0\<lparr>so_send := None\<rparr>))
       ((tt_log s c)\<lparr>lg_to_socks := lg_to_socks (tt_log s c) @ take n (tc_buf x)\<rparr>) (tt_frames s) (tt_aborted_pcbs s)) = Some s'
     \<and> tt_inv own s' \<and> (tt_clients s' c = None \<longrightarrow> lg_to_socks (tt_log s' c) = lg_from_client (tt_log s' c))"
    (is "\<exists>s'. ?h (put s c ?p x ?pe (Some ?o) ?lg ?fr ?ab) = Some s' \<and> _")
proof -
  note foc = focusI [OF inv x] and d = focusD [OF inv x]
  have so: "\<not> tc_socks_closed x" "tc_socks_up x" "n \<le> length (tc_buf x)" "tc_buf x \<noteq> []"
    using d(2) o' up n by (auto split: if_splits)
  let ?rest = "drop n (tc_buf x)"
  let ?x = "x\<lparr>tc_buf := ?rest\<rparr>"
  have stream: "stream_ok ?x ?lg" using d(3) so(2) by (auto simp: stream_ok_def split: if_splits)
  define pe where "pe = (if tc_client_closed x then ?pe else map_option (\<lambda>e. e\<lparr>pe_wnd := pe_wnd e + n\<rparr>) ?pe)"
  have tcp: "tcp_side c ?x pe" using d(1) so by (cases ?pe) (auto simp: pe_def)
  have recved: "(if \<not> tc_client_closed x then tcp_recved ?p n (put s c ?p ?x ?pe (Some ?o) ?lg ?fr ?ab)
        else Some (put s c ?p ?x ?pe (Some ?o) ?lg ?fr ?ab)) = Some (put s c ?p ?x pe (Some ?o) ?lg ?fr ?ab)"
    using d(1) by (cases ?pe) (auto simp: pe_def)
  have run: "?h (put s c ?p x ?pe (Some ?o) ?lg ?fr ?ab) =
     (if ?rest \<noteq> [] then socks_send c (length ?rest) (put s c ?p ?x pe (Some ?o) ?lg ?fr ?ab)
      else if tc_client_closed x then client_free_socks lw c (put s c ?p ?x pe (Some ?o) ?lg ?fr ?ab)
      else Some (put s c ?p ?x pe (Some ?o) ?lg ?fr ?ab))"
    using so n(1) recved by (simp add: client_socks_send_handler_done_def)
  have len: "length ?rest \<le> TCP_WND" using d(4) by (auto simp: client_live_def)
  show ?thesis
  proof (cases "?rest = []")
    case False
    let ?o' = "?o\<lparr>so_send := Some (length ?rest)\<rparr>"
    have "tt_inv own (put s c (tc_pcb ?x) ?x pe (Some ?o') ?lg ?fr ?ab)"
      by (rule unfocus) (use foc d tcp stream so o' False in \<open>auto simp: client_live_def recv_state_ok_def\<close>)
    then show ?thesis using False up run by simp
  next
    case True
    show ?thesis
    proof (cases "tc_client_closed x")
      case closed: True
      have "settled own c (tc_pcb ?x) ?lg (client_free_socks lw c (put s c (tc_pcb ?x) ?x pe (Some ?o) ?lg ?fr ?ab))"
        by (rule free_socks_ok) (use foc d tcp stream so closed len in auto)
      then show ?thesis using True closed run stream by (auto simp: settled_def stream_ok_def)
    next
      case open': False
      have "tt_inv own (put s c (tc_pcb ?x) ?x pe (Some ?o) ?lg ?fr ?ab)"
        by (rule unfocus) (use foc d tcp stream so o' True open' in \<open>auto simp: client_live_def recv_state_ok_def\<close>)
      then show ?thesis using True open' run by simp
    qed
  qed
qed

lemma send_handler_done_ok:
  assumes "tt_inv own s" "tt_clients s c = Some x" "tt_socks s c = Some e0" "so_up e0" "so_send e0 = Some m" "0 < n" "n \<le> m"
  shows "kept own (client_socks_send_handler_done lw c n
     (put s c (tc_pcb x) x (tt_pcbs s (tc_pcb x)) (Some (e0\<lparr>so_send := None\<rparr>))
       ((tt_log s c)\<lparr>lg_to_socks := lg_to_socks (tt_log s c) @ take n (tc_buf x)\<rparr>) (tt_frames s) (tt_aborted_pcbs s)))"
  using send_handler_done_run [OF assms, of lw] by (auto simp: kept_def)

lemma send_handler_done_delivers:
  assumes "tt_inv own s" "tt_clients s c = Some x" "tt_socks s c = Some e0" "so_up e0" "so_send e0 = Some m" "0 < n" "n \<le> m"
    and "client_socks_send_handler_done lw c n
     (put s c (tc_pcb x) x (tt_pcbs s (tc_pcb x)) (Some (e0\<lparr>so_send := None\<rparr>))
       ((tt_log s c)\<lparr>lg_to_socks := lg_to_socks (tt_log s c) @ take n (tc_buf x)\<rparr>) (tt_frames s) (tt_aborted_pcbs s)) = Some s'"
    and "tt_clients s' c = None"
  shows "lg_to_socks (tt_log s' c) = lg_from_client (tt_log s' c)"
  using send_handler_done_run [OF assms(1-7), of lw] assms(8,9) by auto

lemma socks_up_ok:
  assumes inv: "tt_inv own s" and x: "tt_clients s c = Some x" and o': "tt_socks s c = Some e0" and up: "\<not> so_up e0"
  shows "kept own (client_socks_handler lw c BSOCKSCLIENT_EVENT_UP
     (put s c (tc_pcb x) x (tt_pcbs s (tc_pcb x)) (Some (e0\<lparr>so_up := True\<rparr>)) (tt_log s c) (tt_frames s) (tt_aborted_pcbs s)))"
    (is "kept own (?h (put s c ?p x ?pe (Some ?o) ?lg ?fr ?ab))")
proof -
  note foc = focusI [OF inv x] and d = focusD [OF inv x]
  have so: "\<not> tc_socks_closed x" "\<not> tc_socks_up x" "so_send e0 = None" "\<not> so_recv e0" "so_dest e0 = tc_local_addr x"
    using d(2) o' up by auto
  let ?x = "x\<lparr>tc_recv_tcp_pending := 0, tc_recv_buf_used := -1, tc_socks_up := True\<rparr>"
  define pe where "pe = (if tc_client_closed x then ?pe else map_option (\<lambda>e. e\<lparr>pe_sent := True\<rparr>) ?pe)"
  define o1 where "o1 = (if tc_buf x \<noteq> [] then ?o\<lparr>so_send := Some (length (tc_buf x))\<rparr> else ?o)"
  have run: "?h (put s c ?p x ?pe (Some ?o) ?lg ?fr ?ab) =
     (if \<not> tc_client_closed x then client_socks_recv_initiate c (put s c ?p ?x pe (Some o1) ?lg ?fr ?ab)
      else Some (put s c ?p ?x pe (Some o1) ?lg ?fr ?ab))"
    using so d(1) by (cases ?pe) (auto simp: pe_def o1_def client_send_to_socks_def)
  have tcp: "tcp_side c ?x pe" using d(1) so by (cases ?pe) (auto simp: pe_def)
  have stream: "stream_ok ?x ?lg" using d(3) so by (auto simp: stream_ok_def)
  have dead: "self_dead own c ?x ?fr" using d(6) self_dead_cong [of ?x x] by simp
  show ?thesis
  proof (cases "tc_client_closed x")
    case True
    have "tt_inv own (put s c (tc_pcb ?x) ?x pe (Some o1) ?lg ?fr ?ab)"
      by (rule unfocus) (use foc d tcp stream so dead True in \<open>auto simp: client_live_def o1_def\<close>)
    then show ?thesis using run True by simp
  next
    case False
    then obtain e where e: "pe = Some e" using tcp by (auto simp: sides_closed)
    have "kept own (client_socks_recv_initiate c (put s c (tc_pcb ?x) ?x (Some e) (Some o1) ?lg ?fr ?ab))"
      by (rule recv_initiate_ok)
        (use foc d tcp stream so dead False e in \<open>auto simp: client_live_def o1_def\<close>)
    then show ?thesis using run False e by simp
  qed
qed

lemma socks_error_ok:
  assumes inv: "tt_inv own s" and x: "tt_clients s c = Some x" and o': "tt_socks s c = Some e0"
  shows "kept own (client_free_socks lw c s)"
proof -
  note foc = focusI [OF inv x] and d = focusD [OF inv x]
  have "settled own c (tc_pcb x) (tt_log s c) (client_free_socks lw c
      (put s c (tc_pcb x) x (tt_pcbs s (tc_pcb x)) (Some e0) (tt_log s c) (tt_frames s) (tt_aborted_pcbs s)))"
    by (rule free_socks_ok [OF foc _ d(1)]) (use d o' in \<open>auto simp: client_live_def\<close>)
  moreover have "put s c (tc_pcb x) x (tt_pcbs s (tc_pcb x)) (Some e0) (tt_log s c) (tt_frames s) (tt_aborted_pcbs s) = s"
    using put_self [OF x] o' by metis
  ultimately show ?thesis using settled_kept by simp
qed

end
