(* ===== verification/TcpClientCallbacks.thy ===== *)
theory TcpClientCallbacks
  imports TcpClientRelay
begin

text \<open>
  The callbacks lwIP calls keep the invariant and return \<open>ERR_ABRT\<close> exactly when the pcb was aborted,
  whatever the event loop does in \<open>SYNC_COMMIT\<close> as long as it keeps the invariant itself.
\<close>

definition sync_ok :: "(nat \<times> nat) option \<Rightarrow> (tun_tcp \<Rightarrow> tun_tcp option) \<Rightarrow> bool" where
  "sync_ok own sync \<longleftrightarrow> (\<forall>s. tt_inv own s \<longrightarrow> kept own (sync s))"

definition returned :: "nat \<Rightarrow> (tun_tcp \<times> err_t) option \<Rightarrow> bool" where
  "returned p r \<longleftrightarrow> (\<exists>s' e. r = Some (s', e) \<and> tt_inv None s' \<and> e \<in> {ERR_OK, ERR_ABRT}
     \<and> (e = ERR_ABRT \<longleftrightarrow> p \<in> tt_aborted_pcbs s'))"

section \<open>Entering and leaving\<close>

lemma waiting_flag [simp]:
  "tcp_side c (x\<lparr>tc_recv_waiting := b\<rparr>) pe = tcp_side c x pe"
  "socks_side (x\<lparr>tc_recv_waiting := b\<rparr>) so = socks_side x so"
  "stream_ok (x\<lparr>tc_recv_waiting := b\<rparr>) lg = stream_ok x lg"
  by (cases pe; simp; fail | cases so; simp; fail | simp add: stream_ok_def cong: if_cong; fail)+

lemma dead_marker [simp]:
  "tcp_side c (x\<lparr>tc_dead_aborted := q\<rparr>) pe = tcp_side c x pe"
  "socks_side (x\<lparr>tc_dead_aborted := q\<rparr>) so = socks_side x so"
  "stream_ok (x\<lparr>tc_dead_aborted := q\<rparr>) lg = stream_ok x lg"
  "client_live (x\<lparr>tc_dead_aborted := q\<rparr>) = client_live x"
  by (cases pe; simp; fail | cases so; simp; fail | simp add: stream_ok_def cong: if_cong; fail
    | simp add: client_live_def recv_state_ok_def; fail)+

lemma put_DEAD_ENTER [simp]:
  "DEAD_ENTER c (put s c p x pe so lg fr ab)
     = Some (put s c p (x\<lparr>tc_dead_aborted := Some (length fr)\<rparr>) pe so lg (fr @ [0]) ab, tc_dead_aborted x)"
  by (simp add: DEAD_ENTER_def client_mod_def put_def)

lemma put_set_frames [simp]:
  "(put s c p x pe so lg fr ab)\<lparr>tt_frames := f\<rparr> = put s c p x pe so lg f ab"
  by (simp add: put_def)

lemma put_frames: "put (s\<lparr>tt_frames := f\<rparr>) c p x pe so lg fr ab = put s c p x pe so lg fr ab"
  by (simp add: put_def)

lemma own_change:
  assumes inv: "inv_except own {c} {p} s" and own: "own = None \<or> own = Some (c, p)"
    and own': "own' = None \<and> fr = [] \<or> own' = Some (c, p) \<and> fr = [d]" and c: "c \<in> dom (tt_clients s)"
  shows "inv_except own' {c} {p} (s\<lparr>tt_frames := fr\<rparr>)"
proof -
  note i = inv_exceptD [OF inv]
  show ?thesis
  proof (rule inv_exceptI)
    fix c' y assume "c' \<notin> {c}" "tt_clients (s\<lparr>tt_frames := fr\<rparr>) c' = Some y"
    then have y: "c' \<notin> {c}" "tt_clients s c' = Some y" by simp_all
    show "client_ok (s\<lparr>tt_frames := fr\<rparr>) c' y" using i(4) [OF y] by (simp add: client_ok_def)
    show "self_dead own' c' y (tt_frames (s\<lparr>tt_frames := fr\<rparr>))"
      using i(5) [OF y] own own' y(1) by (auto simp: self_dead_def)
    show "tc_pcb y \<notin> {p}" by (rule i(6) [OF y])
  next
    show "frames_ok own' (s\<lparr>tt_frames := fr\<rparr>)" using own' c by (auto simp: frames_ok_def)
  next
    fix c0 p0 c' y assume "own' = Some (c0, p0)" "c' \<notin> {c}" "c' \<noteq> c0" "tt_clients (s\<lparr>tt_frames := fr\<rparr>) c' = Some y"
    then show "tc_pcb y \<noteq> p0" using i(6) [of c' y] own' by auto
  next
    fix c1 c2 x1 x2 assume "c1 \<notin> {c}" "c2 \<notin> {c}" "tt_clients (s\<lparr>tt_frames := fr\<rparr>) c1 = Some x1"
      "tt_clients (s\<lparr>tt_frames := fr\<rparr>) c2 = Some x2" "tc_pcb x1 = tc_pcb x2"
    then show "c1 = c2" using i(7) [of c1 c2 x1 x2] by simp
  next
    fix p' e assume "p' \<notin> {p}" "tt_pcbs (s\<lparr>tt_frames := fr\<rparr>) p' = Some e"
    then show "pe_arg e \<notin> {c} \<and> (\<exists>y. tt_clients (s\<lparr>tt_frames := fr\<rparr>) (pe_arg e) = Some y \<and> tc_pcb y = p' \<and> \<not> tc_client_closed y)"
      using i(8) [of p' e] by simp
  qed (use i(1-3,9,10) own' in auto)
qed

lemma focus_enter:
  assumes "focus None s c p [] ab"
  shows "focus (Some (c, p)) (s\<lparr>tt_frames := [0]\<rparr>) c p [0] ab"
  using assms own_change [of None c p s "Some (c, p)" "[0]"] by (auto simp: focus_def)

lemma focus_leave:
  assumes "focus (Some (c, p)) s c p fr ab"
  shows "focus None (s\<lparr>tt_frames := []\<rparr>) c p [] ab"
  using assms own_change [of "Some (c, p)" c p s None "[]"] by (auto simp: focus_def)

lemma leave_gone:
  assumes inv: "tt_inv (Some (c, p)) s" and c: "tt_clients s c = None"
  shows "tt_inv None (s\<lparr>tt_frames := []\<rparr>)"
proof -
  note i = inv_exceptD [OF inv [unfolded tt_inv_def]]
  show ?thesis unfolding tt_inv_def
  proof (rule inv_exceptI)
    fix c' y assume "tt_clients (s\<lparr>tt_frames := []\<rparr>) c' = Some y"
    then have y: "tt_clients s c' = Some y" "c' \<noteq> c" using c by auto
    show "client_ok (s\<lparr>tt_frames := []\<rparr>) c' y" using i(4) [OF _ y(1)] by (simp add: client_ok_def)
    show "self_dead None c' y (tt_frames (s\<lparr>tt_frames := []\<rparr>))"
      using i(5) [OF _ y(1)] y(2) by (simp add: self_dead_def)
  next
    fix c1 c2 x1 x2 assume "tt_clients (s\<lparr>tt_frames := []\<rparr>) c1 = Some x1"
      "tt_clients (s\<lparr>tt_frames := []\<rparr>) c2 = Some x2" "tc_pcb x1 = tc_pcb x2"
    then show "c1 = c2" using i(7) [of c1 c2 x1 x2] by simp
  next
    fix p' e assume "tt_pcbs (s\<lparr>tt_frames := []\<rparr>) p' = Some e"
    then show "pe_arg e \<notin> {} \<and> (\<exists>y. tt_clients (s\<lparr>tt_frames := []\<rparr>) (pe_arg e) = Some y \<and> tc_pcb y = p' \<and> \<not> tc_client_closed y)"
      using i(8) [of p' e] by simp
  qed (use i(1-3,9,10) in \<open>auto simp: frames_ok_def\<close>)
qed

lemma leave_ok:
  assumes inv: "tt_inv (Some (c, p)) s"
  shows "returned p (callback_leave c None s)"
proof -
  from inv obtain d where d: "tt_frames s = [d]" "tt_clients s c = None \<Longrightarrow> d \<noteq> 0 \<and> (d > 0 \<longleftrightarrow> p \<in> tt_aborted_pcbs s)"
    using inv_exceptD(11) [of "Some (c, p)" "{}" "{}" s] by (auto simp: tt_inv_def frames_ok_def)
  show ?thesis
  proof (cases "tt_clients s c")
    case None
    have "callback_leave c None s = Some (s\<lparr>tt_frames := []\<rparr>, if d > 0 then ERR_ABRT else ERR_OK)"
      using d None by (simp add: callback_leave_def DEAD_LEAVE2_def DEAD_KILL_WITH_def)
    then show ?thesis using leave_gone [OF inv None] d(2) [OF None] by (simp add: returned_def)
  next
    case (Some x)
    note foc = focusI [OF inv Some] and k = focusD [OF inv Some] and self = put_self [OF Some, of p]
    have p: "tc_pcb x = p" "d = (if tc_aborted x then 1 else 0)"
      using k(6) d(1) by (simp_all add: self_dead_def)
    let ?x = "if tc_aborted x then x else x\<lparr>tc_dead_aborted := None\<rparr>"
    let ?pe = "tt_pcbs s p" and ?so = "tt_socks s c" and ?lg = "tt_log s c" and ?ab = "tt_aborted_pcbs s"
    have run: "callback_leave c None s = Some (put s c p ?x ?pe ?so ?lg [] ?ab, if tc_aborted x then ERR_ABRT else ERR_OK)"
      using d(1) p by (subst (1) self [symmetric])
        (cases "tc_aborted x"; simp add: callback_leave_def DEAD_LEAVE2_def)
    have "tt_inv None (put (s\<lparr>tt_frames := []\<rparr>) c (tc_pcb ?x) ?x ?pe ?so ?lg [] ?ab)"
    proof (rule unfocus)
      show "focus None (s\<lparr>tt_frames := []\<rparr>) c (tc_pcb ?x) [] ?ab" using focus_leave foc p(1) by simp
      show "tcp_side c ?x ?pe" "socks_side ?x ?so" "stream_ok ?x ?lg" "client_live ?x"
        using k(1-4) p(1) by simp_all
    qed (use k(5) in \<open>simp_all add: self_dead_def\<close>)
    then have "tt_inv None (put s c p ?x ?pe ?so ?lg [] ?ab)"
      using p(1) by (cases "tc_aborted x") (simp_all add: put_frames)
    then show ?thesis using run k(5) p(1) by (simp add: returned_def)
  qed
qed

section \<open>The callbacks\<close>

lemma client_updates:
  "tc_buf_update (\<lambda>b. b @ d) x = x\<lparr>tc_buf := tc_buf x @ d\<rparr>"
  "tc_recv_tcp_pending_update (\<lambda>n. n - k) x = x\<lparr>tc_recv_tcp_pending := tc_recv_tcp_pending x - k\<rparr>"
  by (cases x; simp)+

lemma sync_step: "sync_ok own sync \<Longrightarrow> kept own r \<Longrightarrow> kept own (r \<bind> sync)"
  by (auto simp: sync_ok_def kept_def)

lemma leave_bind: "kept (Some (c, p)) r \<Longrightarrow> returned p (r \<bind> callback_leave c None)"
  using leave_ok by (auto simp: kept_def)

lemma err_func_ok:
  assumes inv: "tt_inv None s" and x: "tt_clients s c = Some x" and op: "\<not> tc_client_closed x"
  shows "kept None (client_err_func lw c (s\<lparr>tt_pcbs := (tt_pcbs s)(tc_pcb x := None)\<rparr>))"
proof -
  note foc = focusI [OF inv x] and k = focusD [OF inv x]
  have "s\<lparr>tt_pcbs := (tt_pcbs s)(tc_pcb x := None)\<rparr>
      = put s c (tc_pcb x) x None (tt_socks s c) (tt_log s c) (tt_frames s) (tt_aborted_pcbs s)"
    using x by (cases s) (auto simp: put_def fun_upd_idem)
  moreover have "settled None c (tc_pcb x) (tt_log s c) (client_handle_freed_client lw c
      (put s c (tc_pcb x) x None (tt_socks s c) (tt_log s c) (tt_frames s) (tt_aborted_pcbs s)))"
    by (rule handle_freed_ok [OF foc op k(2,3)]) (use k in \<open>simp_all add: client_live_def\<close>)
  ultimately show ?thesis using op by (simp add: client_err_func_def settled_kept)
qed

text \<open>Data: lwIP has taken \<open>d\<close> out of the window.\<close>

lemma recv_func_data_ok:
  assumes inv: "tt_inv None s" and x: "tt_clients s c = Some x" and e: "tt_pcbs s (tc_pcb x) = Some e"
    and op: "pe_recv e" "d \<noteq> []" "length d \<le> pe_wnd e" and sync: "sync_ok (Some (c, tc_pcb x)) sync"
  shows "returned (tc_pcb x) (client_recv_func lw sync c (Some d)
    (put s c (tc_pcb x) x (Some (e\<lparr>pe_wnd := pe_wnd e - length d\<rparr>)) (tt_socks s c)
      ((tt_log s c)\<lparr>lg_from_client := lg_from_client (tt_log s c) @ d\<rparr>) [] (tt_aborted_pcbs s)))"
    (is "returned ?p (?f (put s c ?p x (Some ?e) ?so ?lg [] ?ab))")
proof -
  note foc = focusI [OF inv x] and k = focusD [OF inv x]
  have fr: "tt_frames s = []" using inv_exceptD(11) [OF inv [unfolded tt_inv_def]] by (simp add: frames_ok_def)
  have cl: "\<not> tc_client_closed x" "\<not> tc_aborted x" "\<not> tc_socks_closed x" "pe_wnd e + length (tc_buf x) = TCP_WND"
    using k(1,4) e op by (auto simp: client_live_def)
  have na: "tc_dead_aborted x = None" using k(6) cl by (simp add: self_dead_def)
  obtain o' where o': "?so = Some o'" using k(2) cl by (auto simp: sides_closed)
  let ?y = "x\<lparr>tc_dead_aborted := Some 0, tc_buf := tc_buf x @ d\<rparr>" and ?t = "s\<lparr>tt_frames := [0]\<rparr>"
  have foc': "focus (Some (c, ?p)) ?t c (tc_pcb ?y) [0] ?ab" using focus_enter foc fr by simp
  define send where "send \<longleftrightarrow> tc_buf x = [] \<and> tc_socks_up x"
  define so' where "so' = (if send then Some (o'\<lparr>so_send := Some (length d)\<rparr>) else ?so)"
  have "tt_inv (Some (c, ?p)) (put ?t c (tc_pcb ?y) ?y (Some ?e) so' ?lg [0] ?ab)"
  proof (rule unfocus [OF foc'])
    show "tcp_side c ?y (Some ?e)" using k(1) e cl op by auto
    have "socks_side x (Some o')" "d \<noteq> []" using k(2) o' op by simp_all
    then show "socks_side ?y so'" using o' cl(1)
      by (cases "tc_socks_up x"; cases "so_send o'"; cases "tc_buf x = []") (simp_all add: so'_def send_def)
    show "stream_ok ?y ?lg" using k(3) cl by (auto simp: stream_ok_def split: if_splits)
    show "client_live ?y" using k(4) cl op by (auto simp: client_live_def recv_state_ok_def)
  qed (use k(5) cl in \<open>simp_all add: self_dead_def\<close>)
  then have inv': "tt_inv (Some (c, ?p)) (put s c ?p ?y (Some ?e) so' ?lg [0] ?ab)" by (simp add: put_frames)
  have sends: "client_send_to_socks c (put s c ?p ?y (Some ?e) ?so ?lg [0] ?ab) = Some (put s c ?p ?y (Some ?e) so' ?lg [0] ?ab)"
    if send
  proof -
    have up: "tc_socks_up x" "tc_buf x = []" "so_up o'" using that k(2) o' cl(3) by (simp_all add: send_def)
    then have "so_send o' = None" using k(2) o' cl(3) by (cases "so_send o'") auto
    then show ?thesis using that up o' op(2) cl(3) by (simp add: client_send_to_socks_def so'_def)
  qed
  have "?f (put s c ?p x (Some ?e) ?so ?lg [] ?ab) =
     (if send then client_send_to_socks c (put s c ?p ?y (Some ?e) ?so ?lg [0] ?ab) \<bind> sync
      else Some (put s c ?p ?y (Some ?e) ?so ?lg [0] ?ab)) \<bind> callback_leave c None"
    using cl op na by (auto simp: client_recv_func_def send_def client_updates)
  moreover have "kept (Some (c, ?p)) (if send then client_send_to_socks c (put s c ?p ?y (Some ?e) ?so ?lg [0] ?ab) \<bind> sync
      else Some (put s c ?p ?y (Some ?e) ?so ?lg [0] ?ab))"
    using inv' sends sync by (auto simp: so'_def sync_ok_def)
  ultimately show ?thesis using leave_bind by simp
qed

lemma recv_func_closed_ok:
  assumes inv: "tt_inv None s" and x: "tt_clients s c = Some x" and e: "tt_pcbs s (tc_pcb x) = Some e"
  shows "returned (tc_pcb x) (client_recv_func lw sync c None s)"
proof -
  let ?p = "tc_pcb x"
  note foc = focusI [OF inv x] and k = focusD [OF inv x] and self = put_self [OF x, of ?p]
  have fr: "tt_frames s = []" using inv_exceptD(11) [OF inv [unfolded tt_inv_def]] by (simp add: frames_ok_def)
  have cl: "\<not> tc_client_closed x" "\<not> tc_aborted x" using k(1,4) e by (auto simp: client_live_def)
  have na: "tc_dead_aborted x = None" using k(6) cl by (simp add: self_dead_def)
  let ?y = "x\<lparr>tc_dead_aborted := Some 0\<rparr>" and ?t = "s\<lparr>tt_frames := [0]\<rparr>"
  have foc': "focus (Some (c, ?p)) ?t c (tc_pcb ?y) [0] (tt_aborted_pcbs s)" using focus_enter foc fr by simp
  have "settled (Some (c, ?p)) c (tc_pcb ?y) (tt_log s c) (client_free_client lw c
     (put ?t c (tc_pcb ?y) ?y (Some e) (tt_socks s c) (tt_log s c) [0] (tt_aborted_pcbs s)))"
    by (rule free_client_ok [OF foc']) (use k cl in \<open>auto simp: self_dead_def client_live_def\<close>)
  then have "returned ?p (client_free_client lw c (put s c ?p ?y (Some e) (tt_socks s c) (tt_log s c) [0] (tt_aborted_pcbs s))
      \<bind> callback_leave c None)"
    by (intro leave_bind settled_kept) (simp add: put_frames)
  moreover have "client_recv_func lw sync c None s
     = client_free_client lw c (put s c ?p ?y (Some e) (tt_socks s c) (tt_log s c) [0] (tt_aborted_pcbs s)) \<bind> callback_leave c None"
    using cl na fr e by (subst (1) self [symmetric]) (simp add: client_recv_func_def)
  ultimately show ?thesis by simp
qed

lemma sent_func_ok:
  assumes inv: "tt_inv None s" and x: "tt_clients s c = Some x" and e: "tt_pcbs s (tc_pcb x) = Some e"
    and op: "pe_sent e" "0 < len" "len \<le> pe_unacked e" and sync: "sync_ok (Some (c, tc_pcb x)) sync"
  shows "returned (tc_pcb x) (client_sent_func lw sync c len
    (put s c (tc_pcb x) x (Some (e\<lparr>pe_unacked := pe_unacked e - len\<rparr>)) (tt_socks s c) (tt_log s c) [] (tt_aborted_pcbs s)))"
    (is "returned ?p (?f (put s c ?p x (Some ?e) ?so ?lg [] ?ab))")
proof -
  note foc = focusI [OF inv x] and k = focusD [OF inv x]
  have fr: "tt_frames s = []" using inv_exceptD(11) [OF inv [unfolded tt_inv_def]] by (simp add: frames_ok_def)
  have cl: "\<not> tc_client_closed x" "\<not> tc_aborted x" "tc_socks_up x" "int len \<le> tc_recv_tcp_pending x" "recv_state_ok x"
    "length (tc_buf x) \<le> TCP_WND"
    using k(1,4) e op by (auto simp: client_live_def)
  have na: "tc_dead_aborted x = None" using k(6) cl by (simp add: self_dead_def)
  let ?t = "s\<lparr>tt_frames := [0]\<rparr>"
  let ?y = "x\<lparr>tc_dead_aborted := Some 0, tc_recv_tcp_pending := tc_recv_tcp_pending x - int len\<rparr>"
  have foc': "focus (Some (c, ?p)) ?t c ?p [0] ?ab" using focus_enter foc fr by simp
  have tcp: "tcp_side c ?y (Some ?e)" using k(1) e cl op by (auto simp: of_nat_diff)
  have socks: "socks_side ?y ?so" using k(2) by (cases ?so) auto
  have stream: "stream_ok ?y ?lg" using k(3) by (simp add: stream_ok_def cong: if_cong)
  have dead: "self_dead (Some (c, ?p)) c y [0]" if "tc_pcb y = ?p" "\<not> tc_aborted y" "tc_dead_aborted y = Some 0" for y
    using that by (simp add: self_dead_def)
  have ab: "?p \<notin> ?ab" using k(5) cl by simp
  have live: "tc_socks_closed x \<longrightarrow> tc_recv_buf_used x > 0 \<or> tc_recv_tcp_pending x > 0" using k(4) by (simp add: client_live_def)
  show ?thesis
  proof (cases "tc_recv_buf_used x > 0")
    case True
    let ?z = "?y\<lparr>tc_recv_waiting := False\<rparr>"
    define rest where "rest = (\<lambda>(s, r :: int). if r < 0 then Some s else do {
              x \<leftarrow> tt_clients s c;
              assert_that (tc_recv_tcp_pending x > 0);
              if tc_recv_buf_used x = -1 \<and> \<not> tc_socks_closed x
              then do { s \<leftarrow> client_socks_recv_initiate c s; sync s } else Some s })"
    have run: "?f (put s c ?p x (Some ?e) ?so ?lg [] ?ab)
       = (client_socks_recv_send_out lw c (put s c ?p ?z (Some ?e) ?so ?lg [0] ?ab) \<bind> rest) \<bind> callback_leave c None"
      using cl True na op by (simp add: client_sent_func_def client_updates recv_state_ok_def rest_def)
    have z: "tcp_side c ?z (Some ?e)" "socks_side ?z ?so" "stream_ok ?z ?lg"
      using tcp socks stream by simp_all
    have pre: "focus (Some (c, ?p)) ?t c (tc_pcb ?z) [0] ?ab" "self_dead (Some (c, ?p)) c ?z [0]" "tc_pcb ?z \<notin> ?ab"
      "\<not> tc_client_closed ?z" "\<not> tc_aborted ?z" "tc_socks_up ?z" "length (tc_buf ?z) \<le> TCP_WND"
      "0 \<le> tc_recv_buf_sent ?z" "tc_recv_buf_sent ?z < tc_recv_buf_used ?z" "\<not> tc_recv_waiting ?z"
      "tc_recv_buf_used ?z = int (length (tc_recv_buf ?z))" "0 \<le> tc_recv_tcp_pending ?z"
      using foc' dead [of ?z] cl True ab by (simp_all add: recv_state_ok_def)
    have "kept (Some (c, ?p)) (client_socks_recv_send_out lw c (put s c ?p ?z (Some ?e) ?so ?lg [0] ?ab) \<bind> rest)"
    proof (cases rule: send_out_ok [OF pre(1,4-12) z pre(3,2), where lw = lw, case_names aborted waiting queued])
      case (aborted s')
      then show ?thesis by (simp add: put_frames rest_def)
    next
      case (waiting y e' lg')
      then show ?thesis by (simp add: put_frames rest_def)
    next
      case (queued y e' lg')
      have pos: "tc_recv_tcp_pending y > 0" using queued(2) pre(9,12) by simp
      have y: "tc_recv_buf_used y = -1" "tc_socks_closed y = tc_socks_closed x" "tc_pcb y = ?p" "tc_buf y = tc_buf x"
        "\<not> tc_client_closed y" "\<not> tc_aborted y" "tc_socks_up y" "tc_local_addr y = tc_local_addr x"
        using queued(2) cl by simp_all
      have dy: "self_dead (Some (c, ?p)) c y [0]" by (rule dead) (use queued(2) cl in simp_all)
      show ?thesis
      proof (cases "tc_socks_closed x")
        case closed: True
        have "tt_inv (Some (c, ?p)) (put ?t c (tc_pcb y) y (Some e') ?so lg' [0] ?ab)"
        proof (rule unfocus)
          show "socks_side y ?so" using k(2) closed y by (simp add: sides_closed)
        qed (use foc' queued(3,4) dy y cl ab pos in \<open>simp_all add: client_live_def recv_state_ok_def\<close>)
        then show ?thesis using queued(1) y pos closed by (simp add: put_frames rest_def)
      next
        case False
        then obtain o' where o': "?so = Some o'" using k(2) by (auto simp: sides_closed)
        have so: "so_dest o' = tc_local_addr y" "so_up o'" "\<not> so_recv o'" "so_send o' = None \<longrightarrow> tc_buf y = []"
          "\<forall>n. so_send o' = Some n \<longrightarrow> 0 < n \<and> n \<le> length (tc_buf y)"
          using k(2) o' y cl False True by auto
        have "kept (Some (c, ?p)) (client_socks_recv_initiate c (put ?t c (tc_pcb y) y (Some e') (Some o') lg' [0] ?ab))"
          by (rule recv_initiate_ok) (use foc' False y so queued(3,4) dy cl ab pos in auto)
        from sync_step [OF sync this] show ?thesis
          using queued(1) y pos False o' by (simp add: put_frames rest_def)
      qed
    qed
    from leave_bind [OF this] show ?thesis using run by simp
  next
    case False
    then have used: "tc_recv_buf_used x = -1" using cl(5) by (auto simp: recv_state_ok_def)
    show ?thesis
    proof (cases "tc_socks_closed x \<and> tc_recv_tcp_pending x = int len")
      case True
      have "settled (Some (c, ?p)) c (tc_pcb ?y) ?lg (client_free_client lw c (put ?t c (tc_pcb ?y) ?y (Some ?e) ?so ?lg [0] ?ab))"
        by (rule free_client_ok) (use foc' cl socks stream ab dead [of ?y] in simp_all)
      from leave_bind [OF settled_kept [OF this]] show ?thesis
        using True False cl op na used by (simp add: client_sent_func_def client_updates put_frames)
    next
      case no: False
      have "tt_inv (Some (c, ?p)) (put ?t c (tc_pcb ?y) ?y (Some ?e) ?so ?lg [0] ?ab)"
        by (rule unfocus) (use foc' cl tcp socks stream ab dead [of ?y] no used live k(4) in
            \<open>auto simp: client_live_def recv_state_ok_def\<close>)
      from leave_ok [OF this] show ?thesis
        using no False cl op na by (auto simp: client_sent_func_def client_updates put_frames)
    qed
  qed
qed

section \<open>Accepting\<close>

lemma inv_auth [simp]: "tt_inv own (s\<lparr>tt_auth_username := a\<rparr>) = tt_inv own s"
  by (cases own) (auto simp: tt_inv_def inv_except_def client_ok_def frames_ok_def)

lemma accepted_focus:
  assumes inv: "tt_inv None s" and c: "tt_clients s c = None"
    and p: "\<forall>c' y. tt_clients s c' = Some y \<longrightarrow> tc_pcb y \<noteq> p"
  shows "focus None (s\<lparr>tt_clients := (tt_clients s)(c \<mapsto> x), tt_tcp_clients := tt_tcp_clients s @ [c],
     tt_num_clients := tt_num_clients s + 1\<rparr>) c p [] (tt_aborted_pcbs s)" (is "focus None ?t c p [] _")
proof -
  note i = inv_exceptD [OF inv [unfolded tt_inv_def]]
  have "inv_except None {c} {p} ?t"
  proof (rule inv_exceptI)
    show "distinct (tt_tcp_clients ?t)" "set (tt_tcp_clients ?t) = dom (tt_clients ?t)" using i(1,2) c by auto
    show "tt_num_clients ?t = int (length (tt_tcp_clients ?t))" using i(3) by simp
    show "frames_ok None ?t" using i(11) by (simp add: frames_ok_def)
  next
    fix c' y assume "c' \<notin> {c}" "tt_clients ?t c' = Some y"
    then have y: "tt_clients s c' = Some y" by simp
    show "client_ok ?t c' y" using i(4) [OF _ y] by (simp add: client_ok_def)
    show "self_dead None c' y (tt_frames ?t)" using i(5) [OF _ y] by (simp add: self_dead_def)
    show "tc_pcb y \<notin> {p}" using p y by auto
  next
    fix c1 c2 x1 x2 assume "c1 \<notin> {c}" "c2 \<notin> {c}" "tt_clients ?t c1 = Some x1" "tt_clients ?t c2 = Some x2" "tc_pcb x1 = tc_pcb x2"
    then show "c1 = c2" using i(7) [of c1 c2 x1 x2] by simp
  next
    fix p' e assume "p' \<notin> {p}" "tt_pcbs ?t p' = Some e"
    then show "pe_arg e \<notin> {c} \<and> (\<exists>y. tt_clients ?t (pe_arg e) = Some y \<and> tc_pcb y = p' \<and> \<not> tc_client_closed y)"
      using i(8) [of p' e] c by auto
  qed (use i(9,10) in auto)
  then show ?thesis using i(11) by (simp add: focus_def frames_ok_def)
qed

definition fresh_pcb :: pcb_env where
  "fresh_pcb = \<lparr> pe_arg = 0, pe_err = False, pe_recv = False, pe_sent = False, pe_wnd = TCP_WND, pe_unacked = 0 \<rparr>"

definition fresh_log :: stream_log where
  "fresh_log = \<lparr> lg_from_client = [], lg_to_socks = [], lg_from_socks = [], lg_to_client = [] \<rparr>"

lemma accept_ok:
  assumes inv: "tt_inv None s" and c: "tt_clients s c = None"
    and p: "\<forall>c' y. tt_clients s c' = Some y \<longrightarrow> tc_pcb y \<noteq> p" "p \<notin> tt_aborted_pcbs s"
    and sync: "sync_ok (Some (c, p)) sync"
  defines "s0 \<equiv> s\<lparr>tt_pcbs := (tt_pcbs s)(p \<mapsto> fresh_pcb), tt_log := (tt_log s)(c := fresh_log)\<rparr>"
  shows "(\<exists>a. listener_accept_func opts sync c junk concat_ok init_ok laddr raddr p s0
        = Some (s0\<lparr>tt_auth_username := a\<rparr>, ERR_MEM))
     \<or> returned p (listener_accept_func opts sync c junk concat_ok init_ok laddr raddr p s0)"
proof (cases "junk = None \<or> (op_username opts \<noteq> None \<and> op_append_source_to_username opts \<and> \<not> concat_ok) \<or> \<not> init_ok")
  case True
  have "\<exists>a. s0 = s0\<lparr>tt_auth_username := a\<rparr>" by (rule exI [of _ "tt_auth_username s0"]) simp
  then show ?thesis
    using True unfolding listener_accept_func_def by (auto simp: Let_def split: option.splits)
next
  case False
  then obtain m where m: "junk = Some m" by auto
  define add where "add \<longleftrightarrow> op_username opts \<noteq> None \<and> op_append_source_to_username opts"
  define a where "a = (if add then Some c else tt_auth_username s)"
  define x where "x = m\<lparr>tc_local_addr := laddr, tc_remote_addr := raddr,
     tc_socks_username := (if add then Some (User_at (the (op_username opts)) raddr) else None),
     tc_aborted := False, tc_dead_aborted := None, tc_pcb := p,
     tc_client_closed := False, tc_buf := [], tc_socks_up := False, tc_socks_closed := False\<rparr>"
  define t where "t = s\<lparr>tt_auth_username := a, tt_clients := (tt_clients s)(c \<mapsto> x), tt_tcp_clients := tt_tcp_clients s @ [c],
     tt_num_clients := tt_num_clients s + 1\<rparr>"
  let ?so = "Some \<lparr> so_dest = laddr, so_up = False, so_send = None, so_recv = False \<rparr>"
  let ?e = "fresh_pcb\<lparr>pe_arg := c, pe_err := True, pe_recv := True\<rparr>"
  have i: "tt_num_clients s = int (length (tt_tcp_clients s))" "tt_frames s = []" "tt_pcbs s p = None"
  proof -
    note i = inv_exceptD [OF inv [unfolded tt_inv_def]]
    show "tt_num_clients s = int (length (tt_tcp_clients s))" "tt_frames s = []"
      using i(3,11) by (simp_all add: frames_ok_def)
    show "tt_pcbs s p = None"
    proof (rule ccontr)
      assume "tt_pcbs s p \<noteq> None"
      then obtain e where "tt_pcbs s p = Some e" by auto
      from i(8) [OF _ this] p(1) show False by auto
    qed
  qed
  have foc: "focus None t c p [] (tt_aborted_pcbs s)"
    using accepted_focus [of "s\<lparr>tt_auth_username := a\<rparr>" c p x] inv c p(1) by (simp add: t_def)
  have foc': "focus (Some (c, p)) (t\<lparr>tt_frames := [0]\<rparr>) c p [0] (tt_aborted_pcbs s)" using focus_enter foc by simp
  let ?y = "x\<lparr>tc_dead_aborted := Some 0\<rparr>"
  have "tt_inv (Some (c, p)) (put (t\<lparr>tt_frames := [0]\<rparr>) c (tc_pcb ?y) ?y (Some ?e) ?so fresh_log [0] (tt_aborted_pcbs s))"
    by (rule unfocus) (use foc' p(2) in \<open>simp_all add: x_def fresh_pcb_def fresh_log_def stream_ok_def client_live_def
        self_dead_def\<close>)
  then have inv': "tt_inv (Some (c, p)) (put t c p ?y (Some ?e) ?so fresh_log [0] (tt_aborted_pcbs s))"
    by (simp add: put_frames x_def)
  have st: "s0\<lparr>tt_auth_username := a, tt_socks := (tt_socks s)(c := ?so),
       tt_tcp_clients := tt_tcp_clients s @ [c], tt_num_clients := tt_num_clients s + 1,
       tt_clients := (tt_clients s)(c \<mapsto> x)\<rparr>
     = put t c p x (Some fresh_pcb) ?so fresh_log [] (tt_aborted_pcbs s)"
    using i(2) by (cases s) (simp add: put_def t_def s0_def)
  have "listener_accept_func opts sync c junk concat_ok init_ok laddr raddr p s0
      = do { s \<leftarrow> tcp_arg p c (put t c p x (Some fresh_pcb) ?so fresh_log [] (tt_aborted_pcbs s));
             s \<leftarrow> tcp_err p True s;
             s \<leftarrow> tcp_recv p True s;
             (s, prev) \<leftarrow> DEAD_ENTER c s;
             s \<leftarrow> sync s;
             callback_leave c prev s }"
    unfolding st [symmetric] using False m i(1)
    by (cases "op_username opts"; cases "op_append_source_to_username opts")
      (simp_all add: listener_accept_func_def Let_def add_def a_def s0_def x_def)
  also have "\<dots> = sync (put t c p ?y (Some ?e) ?so fresh_log [0] (tt_aborted_pcbs s)) \<bind> callback_leave c None"
    by (simp add: x_def)
  finally show ?thesis
    using leave_bind sync inv' by (simp add: sync_ok_def)
qed

end
