(* ===== verification/TcpClientSys.thy ===== *)
theory TcpClientSys
  imports TcpClientCallbacks
begin

text \<open>
  The whole of the TCP clients: every event lwIP and the SOCKS clients may deliver, in any order. A
  callback of lwIP comes with the events of SOCKS clients that are delivered within its \<open>SYNC_COMMIT\<close>.
\<close>

section \<open>Events\<close>

text \<open>
  \<open>SE_Auth\<close> is the moment a SOCKS client reads the user name out of \<open>socks_auth_info\<close>, to which
  \<open>BSocksClient_Init\<close> was given a pointer. It needs data from the server, so it does not occur
  within a \<open>SYNC_COMMIT\<close>.
\<close>

datatype socks_event = SE_Error | SE_Closed | SE_Connected | SE_Up | SE_Send_Done nat | SE_Recv_Done "byte list"

datatype tcp_event =
    TE_Accept nat "tcp_client option" bool bool baddr baddr nat "(lwip_results \<times> nat \<times> socks_event) list"
  | TE_Err lwip_results nat
  | TE_Recv lwip_results nat "byte list option" "(lwip_results \<times> nat \<times> socks_event) list"
  | TE_Sent lwip_results nat nat "(lwip_results \<times> nat \<times> socks_event) list"
  | TE_Socks lwip_results nat socks_event
  | TE_Auth nat
  | TE_Murder nat

definition auth_username :: "tun_options \<Rightarrow> tun_tcp \<Rightarrow> username option" where
  "auth_username opts s = (case tt_auth_username s of
       None \<Rightarrow> map_option User (op_username opts)
     | Some c \<Rightarrow> do { x \<leftarrow> tt_clients s c; tc_socks_username x })"

fun socks_enabled :: "nat \<Rightarrow> socks_event \<Rightarrow> tun_tcp \<Rightarrow> bool" where
  "socks_enabled c ev s = (case tt_socks s c of None \<Rightarrow> False | Some e \<Rightarrow>
     (case ev of SE_Error \<Rightarrow> True | SE_Closed \<Rightarrow> so_up e | SE_Connected \<Rightarrow> True | SE_Up \<Rightarrow> \<not> so_up e
      | SE_Send_Done n \<Rightarrow> so_up e \<and> (case so_send e of None \<Rightarrow> False | Some m \<Rightarrow> 0 < n \<and> n \<le> m)
      | SE_Recv_Done d \<Rightarrow> so_up e \<and> so_recv e \<and> d \<noteq> [] \<and> length d \<le> CLIENT_SOCKS_RECV_BUF_SIZE))"

fun socks_step :: "lwip_results \<Rightarrow> nat \<Rightarrow> socks_event \<Rightarrow> tun_tcp \<Rightarrow> tun_tcp option" where
  "socks_step lw c SE_Error s = client_socks_handler lw c BSOCKSCLIENT_EVENT_ERROR s"
| "socks_step lw c SE_Closed s = client_socks_handler lw c BSOCKSCLIENT_EVENT_ERROR_CLOSED s"
| "socks_step lw c SE_Connected s = client_socks_handler lw c BSOCKSCLIENT_EVENT_CONNECTED s"
| "socks_step lw c SE_Up s = do {
     s \<leftarrow> socks_mod c (so_up_update (\<lambda>_. True)) s;
     client_socks_handler lw c BSOCKSCLIENT_EVENT_UP s }"
| "socks_step lw c (SE_Send_Done n) s = do {
     x \<leftarrow> tt_clients s c;
     s \<leftarrow> socks_mod c (so_send_update (\<lambda>_. None)) s;
     client_socks_send_handler_done lw c n
       (log_mod c (lg_to_socks_update (\<lambda>l. l @ take n (tc_buf x))) s) }"
| "socks_step lw c (SE_Recv_Done d) s = do {
     s \<leftarrow> socks_mod c (so_recv_update (\<lambda>_. False)) s;
     s \<leftarrow> client_mod c (tc_recv_buf_update (\<lambda>_. d)) s;
     client_socks_recv_handler_done lw c (length d) (log_mod c (lg_from_socks_update (\<lambda>l. l @ d)) s) }"

text \<open>The events delivered within \<open>SYNC_COMMIT\<close>; those that cannot occur are skipped.\<close>

fun run_socks :: "(lwip_results \<times> nat \<times> socks_event) list \<Rightarrow> tun_tcp \<Rightarrow> tun_tcp option" where
  "run_socks [] s = Some s"
| "run_socks ((lw, c, ev) # es) s =
     (if socks_enabled c ev s then socks_step lw c ev s \<bind> run_socks es else run_socks es s)"

fun tt_enabled :: "tcp_event \<Rightarrow> tun_tcp \<Rightarrow> bool" where
  "tt_enabled (TE_Accept c junk concat_ok init_ok laddr raddr p es) s \<longleftrightarrow> tt_clients s c = None
     \<and> (\<forall>y \<in> ran (tt_clients s). tc_pcb y \<noteq> p) \<and> p \<notin> tt_aborted_pcbs s"
| "tt_enabled (TE_Err lw p) s \<longleftrightarrow> (case tt_pcbs s p of None \<Rightarrow> False | Some e \<Rightarrow> pe_err e)"
| "tt_enabled (TE_Recv lw p d es) s \<longleftrightarrow> (case tt_pcbs s p of None \<Rightarrow> False | Some e \<Rightarrow> pe_recv e
     \<and> (case d of None \<Rightarrow> True | Some d \<Rightarrow> d \<noteq> [] \<and> length d \<le> pe_wnd e))"
| "tt_enabled (TE_Sent lw p n es) s \<longleftrightarrow> (case tt_pcbs s p of None \<Rightarrow> False | Some e \<Rightarrow> pe_sent e
     \<and> 0 < n \<and> n \<le> pe_unacked e)"
| "tt_enabled (TE_Socks lw c ev) s \<longleftrightarrow> socks_enabled c ev s"
| "tt_enabled (TE_Auth c) s \<longleftrightarrow> (case tt_socks s c of None \<Rightarrow> False | Some e \<Rightarrow> \<not> so_up e)"
| "tt_enabled (TE_Murder c) s \<longleftrightarrow> tt_clients s c \<noteq> None"

text \<open>The callbacks that return an \<open>err_t\<close>; after a failed accept lwIP takes the pcb back.\<close>

fun tt_callback :: "tun_options \<Rightarrow> tcp_event \<Rightarrow> tun_tcp \<Rightarrow> (tun_tcp \<times> err_t) option" where
  "tt_callback opts (TE_Accept c junk concat_ok init_ok laddr raddr p es) s = do {
     (s, r) \<leftarrow> listener_accept_func opts (run_socks es) c junk concat_ok init_ok laddr raddr p
       (s\<lparr>tt_pcbs := (tt_pcbs s)(p \<mapsto> fresh_pcb), tt_log := (tt_log s)(c := fresh_log)\<rparr>);
     Some (if r = ERR_MEM then s\<lparr>tt_pcbs := (tt_pcbs s)(p := None)\<rparr> else s, r) }"
| "tt_callback opts (TE_Recv lw p d es) s = do {
     e \<leftarrow> tt_pcbs s p;
     (case d of None \<Rightarrow> client_recv_func lw (run_socks es) (pe_arg e) None s
      | Some d \<Rightarrow> client_recv_func lw (run_socks es) (pe_arg e) (Some d)
          (log_mod (pe_arg e) (lg_from_client_update (\<lambda>l. l @ d))
            (s\<lparr>tt_pcbs := (tt_pcbs s)(p \<mapsto> e\<lparr>pe_wnd := pe_wnd e - length d\<rparr>)\<rparr>))) }"
| "tt_callback opts (TE_Sent lw p n es) s = do {
     e \<leftarrow> tt_pcbs s p;
     client_sent_func lw (run_socks es) (pe_arg e) n
       (s\<lparr>tt_pcbs := (tt_pcbs s)(p \<mapsto> e\<lparr>pe_unacked := pe_unacked e - n\<rparr>)\<rparr>) }"
| "tt_callback opts _ s = None"

fun tt_step :: "tun_options \<Rightarrow> tcp_event \<Rightarrow> tun_tcp \<Rightarrow> tun_tcp option" where
  "tt_step opts (TE_Err lw p) s = do {
     e \<leftarrow> tt_pcbs s p; client_err_func lw (pe_arg e) (s\<lparr>tt_pcbs := (tt_pcbs s)(p := None)\<rparr>) }"
| "tt_step opts (TE_Socks lw c ev) s = socks_step lw c ev s"
| "tt_step opts (TE_Auth c) s = do { u \<leftarrow> auth_username opts s; Some s }"
| "tt_step opts (TE_Murder c) s = client_murder c s"
| "tt_step opts ev s = map_option fst (tt_callback opts ev s)"

definition tt_initial :: tun_tcp where
  "tt_initial = \<lparr> tt_clients = Map.empty, tt_tcp_clients = [], tt_num_clients = 0, tt_frames = [],
     tt_auth_username = None, tt_pcbs = Map.empty, tt_aborted_pcbs = {}, tt_socks = Map.empty, tt_log = (\<lambda>_. fresh_log) \<rparr>"

text \<open>A SOCKS client authenticates with a user name only when one is configured.\<close>

inductive tt_reachable :: "tun_options \<Rightarrow> tun_tcp option \<Rightarrow> bool" for opts where
  init: "tt_reachable opts (Some tt_initial)"
| step: "tt_reachable opts (Some s) \<Longrightarrow> tt_enabled ev s \<Longrightarrow> (\<forall>c. ev = TE_Auth c \<longrightarrow> op_username opts \<noteq> None) \<Longrightarrow>
     tt_reachable opts (tt_step opts ev s)"

section \<open>Every event keeps the invariant\<close>

lemma put_upd:
  assumes "tt_clients s c = Some x" "tc_pcb x = p"
  shows "tt_socks s c = Some e0 \<Longrightarrow> socks_mod c f s = Some (put s c p x (tt_pcbs s p) (Some (f e0)) (tt_log s c) (tt_frames s) (tt_aborted_pcbs s))"
    "s\<lparr>tt_pcbs := (tt_pcbs s)(p := pe)\<rparr> = put s c p x pe (tt_socks s c) (tt_log s c) (tt_frames s) (tt_aborted_pcbs s)"
  using assms by (cases s; auto simp: socks_mod_def put_def fun_upd_idem)+

lemma log_updates:
  "lg_to_socks_update (\<lambda>l. l @ d) lg = lg\<lparr>lg_to_socks := lg_to_socks lg @ d\<rparr>"
  "lg_from_socks_update (\<lambda>l. l @ d) lg = lg\<lparr>lg_from_socks := lg_from_socks lg @ d\<rparr>"
  "lg_from_client_update (\<lambda>l. l @ d) lg = lg\<lparr>lg_from_client := lg_from_client lg @ d\<rparr>"
  by (cases lg; simp)+

lemma socks_owner:
  assumes "tt_inv own s" "tt_socks s c = Some e"
  obtains x where "tt_clients s c = Some x"
  using inv_exceptD(9) [OF assms(1) [unfolded tt_inv_def], of c] assms(2) by (cases "tt_clients s c") auto

lemma pcb_owner:
  assumes "tt_inv own s" "tt_pcbs s p = Some e"
  obtains x where "tt_clients s (pe_arg e) = Some x" "tc_pcb x = p" "\<not> tc_client_closed x"
  using inv_exceptD(8) [OF assms(1) [unfolded tt_inv_def], of p e] assms(2) by auto

lemma socks_step_ok:
  assumes inv: "tt_inv own s" and en: "socks_enabled c ev s"
  shows "kept own (socks_step lw c ev s)"
proof -
  obtain e where e: "tt_socks s c = Some e" using en by (cases "tt_socks s c") auto
  obtain x where x: "tt_clients s c = Some x" using socks_owner [OF inv e] .
  note k = focusD [OF inv x]
  have so: "\<not> tc_socks_closed x" "so_up e = tc_socks_up x" using k(2) e by (auto split: if_splits)
  show ?thesis
  proof (cases ev)
    case SE_Up
    then show ?thesis using socks_up_ok [OF inv x e] en e by (simp add: put_upd(1) [OF x refl e])
  next
    case (SE_Send_Done n)
    then obtain m where "so_up e" "so_send e = Some m" "0 < n" "n \<le> m" using en e by (auto split: option.splits)
    from send_handler_done_ok [OF inv x e this] show ?thesis
      using SE_Send_Done x by (simp add: put_upd(1) [OF x refl e] log_updates)
  next
    case (SE_Recv_Done d)
    then have "so_up e" "so_recv e" "d \<noteq> []" "length d \<le> CLIENT_SOCKS_RECV_BUF_SIZE" using en e by auto
    from recv_handler_done_ok [OF inv x e this] show ?thesis
      using SE_Recv_Done by (simp add: put_upd(1) [OF x refl e] log_updates)
  qed (use socks_error_ok [OF inv x e] x so inv en e in simp_all)
qed

lemma run_socks_ok: "sync_ok own (run_socks es)"
proof -
  have "tt_inv own s \<Longrightarrow> kept own (run_socks es s)" for s
  proof (induction es arbitrary: s)
    case (Cons ev es)
    obtain lw c e where ev: "ev = (lw, c, e)" by (cases ev)
    show ?case
    proof (cases "socks_enabled c e s")
      case True
      from socks_step_ok [OF Cons.prems True, of lw] Cons.IH show ?thesis
        using ev True by (auto simp: kept_def)
    qed (use Cons ev in simp)
  qed simp
  then show ?thesis by (simp add: sync_ok_def)
qed

lemma callback_ok:
  assumes inv: "tt_inv None s" and en: "tt_enabled ev s"
  shows "ev = TE_Recv lw p d es \<Longrightarrow> returned p (tt_callback opts ev s)"
    "ev = TE_Sent lw p n es \<Longrightarrow> returned p (tt_callback opts ev s)"
proof -
  assume ev: "ev = TE_Recv lw p d es"
  then obtain e where e: "tt_pcbs s p = Some e" using en by (cases "tt_pcbs s p") auto
  obtain x where x: "tt_clients s (pe_arg e) = Some x" "tc_pcb x = p" by (rule pcb_owner [OF inv e])
  have fr: "tt_frames s = []" using inv_exceptD(11) [OF inv [unfolded tt_inv_def]] by (simp add: frames_ok_def)
  show "returned p (tt_callback opts ev s)"
  proof (cases d)
    case None
    then show ?thesis using recv_func_closed_ok [OF inv x(1)] x(2) e ev by simp
  next
    case (Some b)
    then have "pe_recv e" "b \<noteq> []" "length b \<le> pe_wnd e" using en e ev by auto
    from recv_func_data_ok [OF inv x(1) _ this run_socks_ok, of lw es] show ?thesis
      using Some ev e x(2) fr by (simp add: put_upd(2) [OF x] log_updates)
  qed
next
  assume ev: "ev = TE_Sent lw p n es"
  then obtain e where e: "tt_pcbs s p = Some e" using en by (cases "tt_pcbs s p") auto
  obtain x where x: "tt_clients s (pe_arg e) = Some x" "tc_pcb x = p" by (rule pcb_owner [OF inv e])
  have fr: "tt_frames s = []" using inv_exceptD(11) [OF inv [unfolded tt_inv_def]] by (simp add: frames_ok_def)
  have "pe_sent e" "0 < n" "n \<le> pe_unacked e" using en e ev by auto
  from sent_func_ok [OF inv x(1) _ this run_socks_ok, of lw es] show "returned p (tt_callback opts ev s)"
    using ev e x(2) fr by (simp add: put_upd(2) [OF x])
qed

lemma accept_event_ok:
  assumes inv: "tt_inv None s" and en: "tt_enabled ev s" and ev: "ev = TE_Accept c junk co io la ra p es"
  shows "\<exists>s' r. tt_callback opts ev s = Some (s', r) \<and> tt_inv None s'
    \<and> (r = ERR_MEM \<longrightarrow> tt_clients s' = tt_clients s) \<and> (r = ERR_ABRT \<longleftrightarrow> p \<in> tt_aborted_pcbs s')"
proof -
  have en': "tt_clients s c = None" "\<forall>c' y. tt_clients s c' = Some y \<longrightarrow> tc_pcb y \<noteq> p" "p \<notin> tt_aborted_pcbs s"
    using en ev by (auto simp: ran_def)
  have pcb: "tt_pcbs s p = None"
  proof (rule ccontr)
    assume "tt_pcbs s p \<noteq> None"
    then obtain e where "tt_pcbs s p = Some e" by auto
    from pcb_owner [OF inv this] en'(2) show False by metis
  qed
  let ?s0 = "s\<lparr>tt_pcbs := (tt_pcbs s)(p \<mapsto> fresh_pcb), tt_log := (tt_log s)(c := fresh_log)\<rparr>"
  have log: "tt_inv None (s\<lparr>tt_log := (tt_log s)(c := fresh_log)\<rparr>)"
    using inv en'(1) unfolding tt_inv_def inv_except_def client_ok_def frames_ok_def by simp metis
  show ?thesis
    using accept_ok [OF inv en' run_socks_ok, of opts es junk co io la ra]
  proof (elim disjE exE)
    fix a assume "listener_accept_func opts (run_socks es) c junk co io la ra p ?s0 = Some (?s0\<lparr>tt_auth_username := a\<rparr>, ERR_MEM)"
    moreover have "?s0\<lparr>tt_auth_username := a, tt_pcbs := (tt_pcbs s)(p := None)\<rparr>
        = (s\<lparr>tt_log := (tt_log s)(c := fresh_log)\<rparr>)\<lparr>tt_auth_username := a\<rparr>"
      using pcb by (cases s) (simp add: fun_upd_idem)
    ultimately show ?thesis using ev log en'(3) by simp
  next
    assume "returned p (listener_accept_func opts (run_socks es) c junk co io la ra p ?s0)"
    then show ?thesis using ev by (auto simp: returned_def)
  qed
qed

end
