(* ===== verification/TcpClientProps.thy ===== *)
theory TcpClientProps
  imports TcpClientSys
begin

text \<open>
  The properties of the TCP clients of tun2socks: no assertion fails and nothing freed is used in any
  run, the value returned to lwIP, the relayed streams, and the one setting in which the first fails.
\<close>

lemma step_ok:
  assumes inv: "tt_inv None s" and en: "tt_enabled ev s" and na: "\<forall>c. ev \<noteq> TE_Auth c"
  shows "kept None (tt_step opts ev s)"
proof (cases ev)
  case (TE_Accept c junk co io la ra p es)
  from accept_event_ok [OF inv en this, of opts] TE_Accept show ?thesis by (auto simp: kept_def)
next
  case (TE_Err lw p)
  then obtain e where e: "tt_pcbs s p = Some e" using en by (cases "tt_pcbs s p") auto
  obtain x where "tt_clients s (pe_arg e) = Some x" "tc_pcb x = p" "\<not> tc_client_closed x"
    by (rule pcb_owner [OF inv e])
  with err_func_ok [OF inv this(1,3), of lw] show ?thesis using TE_Err e by simp
next
  case (TE_Recv lw p d es)
  from callback_ok(1) [OF inv en this, of opts] TE_Recv show ?thesis by (auto simp: returned_def kept_def)
next
  case (TE_Sent lw p n es)
  from callback_ok(2) [OF inv en this, of opts] TE_Sent show ?thesis by (auto simp: returned_def kept_def)
next
  case (TE_Socks lw c e)
  then show ?thesis using socks_step_ok [OF inv] en by simp
next
  case (TE_Auth c)
  then show ?thesis using na by simp
next
  case (TE_Murder c)
  then obtain x where x: "tt_clients s c = Some x" using en by auto
  from murder_ok [OF inv x] show ?thesis using TE_Murder settled_kept by simp
qed

lemma initial_inv: "tt_inv own0 tt_initial" if "own0 = None"
  using that by (auto simp: tt_inv_def inv_except_def tt_initial_def frames_ok_def)

lemma reachable_inv: "tt_reachable opts r \<Longrightarrow> r = Some s \<Longrightarrow> tt_inv None s"
proof (induction arbitrary: s rule: tt_reachable.induct)
  case init
  then show ?case using initial_inv by simp
next
  case (step s0 ev)
  show ?case
  proof (cases "\<exists>c. ev = TE_Auth c")
    case True
    then show ?thesis using step by (auto simp: bind_Some)
  next
    case False
    with step_ok [OF step.IH [OF refl] step.hyps(2), of opts] step.prems show ?thesis
      by (auto simp: kept_def)
  qed
qed

section \<open>The user name pointer\<close>

text \<open>Only \<open>listener_accept_func\<close> writes the global array, and only when the source address is appended.\<close>

lemma auth_frame_calls:
  "client_mod c f s = Some s' \<Longrightarrow> tt_auth_username s' = tt_auth_username s"
  "socks_mod c h s = Some s' \<Longrightarrow> tt_auth_username s' = tt_auth_username s"
  "tcp_err p b s = Some s' \<Longrightarrow> tt_auth_username s' = tt_auth_username s"
  "tcp_recv p b s = Some s' \<Longrightarrow> tt_auth_username s' = tt_auth_username s"
  "tcp_sent p b s = Some s' \<Longrightarrow> tt_auth_username s' = tt_auth_username s"
  "tcp_arg p n s = Some s' \<Longrightarrow> tt_auth_username s' = tt_auth_username s"
  "tcp_recved p n s = Some s' \<Longrightarrow> tt_auth_username s' = tt_auth_username s"
  "tcp_abort p s = Some s' \<Longrightarrow> tt_auth_username s' = tt_auth_username s"
  "tcp_close p ok s = Some s' \<Longrightarrow> tt_auth_username s' = tt_auth_username s"
  "tcp_write p d s = Some s' \<Longrightarrow> tt_auth_username s' = tt_auth_username s"
  "BSocksClient_Free c s = Some s' \<Longrightarrow> tt_auth_username s' = tt_auth_username s"
  "socks_send c n s = Some s' \<Longrightarrow> tt_auth_username s' = tt_auth_username s"
  "socks_recv c s = Some s' \<Longrightarrow> tt_auth_username s' = tt_auth_username s"
  "DEAD_KILL_WITH ptr v s = Some s' \<Longrightarrow> tt_auth_username s' = tt_auth_username s"
  by (auto simp: client_mod_def socks_mod_def pcb_mod_def tcp_err_def tcp_recv_def tcp_sent_def tcp_arg_def
      tcp_recved_def tcp_abort_def tcp_close_def tcp_write_def BSocksClient_Free_def socks_send_def socks_recv_def
      DEAD_KILL_WITH_def log_mod_def bind_Some split: if_splits option.splits)

lemma auth_log [simp]: "tt_auth_username (log_mod c f s) = tt_auth_username s"
  by (simp add: log_mod_def)

lemma auth_frame_teardown:
  "client_dealloc c s = Some s' \<Longrightarrow> tt_auth_username s' = tt_auth_username s"
  "client_abort_pcb c s = Some s' \<Longrightarrow> tt_auth_username s' = tt_auth_username s"
  "remove_callbacks p s = Some s' \<Longrightarrow> tt_auth_username s' = tt_auth_username s"
  by (auto simp: client_dealloc_def client_abort_pcb_def remove_callbacks_def Let_def bind_Some
      split: if_splits dest!: auth_frame_calls)

lemma auth_frame_close: "tcp_close_or_abort lw c s = Some s' \<Longrightarrow> tt_auth_username s' = tt_auth_username s"
  by (auto simp: tcp_close_or_abort_def bind_Some split: if_splits dest!: auth_frame_calls auth_frame_teardown)

lemma auth_frame_free:
  "client_handle_freed_client lw c s = Some s' \<Longrightarrow> tt_auth_username s' = tt_auth_username s"
  "client_free_client lw c s = Some s' \<Longrightarrow> tt_auth_username s' = tt_auth_username s"
  "client_free_socks lw c s = Some s' \<Longrightarrow> tt_auth_username s' = tt_auth_username s"
proof (induction lw c s and lw c s and lw c s arbitrary: s' and s' and s'
    rule: client_handle_freed_client_client_free_client_client_free_socks.induct)
  case (1 lw c s)
  from "1.prems" obtain x s1 where x: "tt_clients s c = Some x" "\<not> tc_client_closed x"
    and s1: "client_mod c (tc_client_closed_update (\<lambda>_. True)) s = Some s1"
    and r: "(if tc_buf x \<noteq> [] \<and> \<not> tc_socks_closed x then Some s1
       else if \<not> tc_socks_closed x then client_free_socks lw c s1 else client_dealloc c s1) = Some s'"
    by (subst (asm) client_handle_freed_client.simps) (auto simp: bind_Some)
  have "tt_auth_username s' = tt_auth_username s1"
    using r "1.IH" [OF x(1) _ s1] x(2) auth_frame_teardown(1) by (auto split: if_splits)
  then show ?case using auth_frame_calls(1) [OF s1] by simp
next
  case (2 lw c s)
  from "2.prems" obtain x s1 where x: "tt_clients s c = Some x" "\<not> tc_client_closed x"
    and s1: "tcp_close_or_abort lw c s = Some s1" and r: "client_handle_freed_client lw c s1 = Some s'"
    by (subst (asm) client_free_client.simps) (auto simp: bind_Some)
  show ?case using "2.IH" [OF x(1) _ s1 r] x(2) auth_frame_close [OF s1] by simp
next
  case (3 lw c s)
  from "3.prems" obtain x s1 s2 s3 where x: "tt_clients s c = Some x" "\<not> tc_socks_closed x"
    and s1: "(if tc_socks_up x \<and> \<not> tc_client_closed x then tcp_recv (tc_pcb x) False s else Some s) = Some s1"
    and s2: "BSocksClient_Free c s1 = Some s2"
    and s3: "client_mod c (tc_socks_closed_update (\<lambda>_. True)) s2 = Some s3"
    and r: "(if tc_socks_up x \<and> (tc_recv_buf_used x \<ge> 0 \<or> tc_recv_tcp_pending x > 0) \<and> \<not> tc_client_closed x
       then Some s3 else if \<not> tc_client_closed x then client_free_client lw c s3 else client_dealloc c s3) = Some s'"
    by (subst (asm) client_free_socks.simps) (auto simp: bind_Some)
  have "tt_auth_username s' = tt_auth_username s3"
    using r "3.IH" [OF x(1) _ s1 s2 s3] x(2) auth_frame_teardown(1) by (auto split: if_splits)
  also have "\<dots> = tt_auth_username s"
    using auth_frame_calls(1) [OF s3] auth_frame_calls(11) [OF s2] s1 auth_frame_calls(4) by (auto split: if_splits)
  finally show ?case .
qed

lemma auth_frame_kill:
  "client_abort_client lw c s = Some s' \<Longrightarrow> tt_auth_username s' = tt_auth_username s"
  "client_murder c s = Some s' \<Longrightarrow> tt_auth_username s' = tt_auth_username s"
  "client_err_func lw c s = Some s' \<Longrightarrow> tt_auth_username s' = tt_auth_username s"
  by (auto simp: client_abort_client_def client_murder_def client_err_func_def bind_Some split: if_splits
      dest!: auth_frame_calls auth_frame_teardown auth_frame_free)

lemma auth_frame_loop: "write_loop lw i c s = Some (s', b) \<Longrightarrow> tt_auth_username s' = tt_auth_username s"
proof (induction lw i c s arbitrary: s' b rule: write_loop.induct)
  case (1 lw i c s)
  from "1.prems" obtain x e where x: "tt_clients s c = Some x" "tt_pcbs s (tc_pcb x) = Some e"
    by (subst (asm) (1) write_loop.simps) (auto simp: bind_Some)
  let ?w = "min (tc_recv_buf_used x - tc_recv_buf_sent x) (int (lr_sndbuf lw i))"
  show ?case
  proof (cases "?w = 0 \<or> lr_write lw i \<noteq> ERR_OK")
    case True
    then show ?thesis using "1.prems" x by (subst (asm) (1) write_loop.simps) (auto simp: Let_def split: if_splits)
  next
    case False
    with "1.prems" x obtain s1 s2 where w: "?w \<ge> 0"
      and s1: "tcp_write (tc_pcb x) (seg (tc_recv_buf x) (nat (tc_recv_buf_sent x)) (nat ?w)) s = Some s1"
      and s2: "client_mod c (tc_recv_buf_sent_update (\<lambda>n. n + ?w) \<circ> tc_recv_tcp_pending_update (\<lambda>n. n + ?w)) s1 = Some s2"
      and r: "(if tc_recv_buf_sent x + ?w < tc_recv_buf_used x then write_loop lw (Suc i) c s2 else Some (s2, False)) = Some (s', b)"
      by (subst (asm) (1) write_loop.simps) (auto simp: Let_def bind_Some simp del: min_less_iff_conj)
    have "tt_auth_username s' = tt_auth_username s2"
      using r "1.IH" [OF x refl _ _ _ s1 s2, of "()"] w False by (auto split: if_splits)
    then show ?thesis using auth_frame_calls(1) [OF s2] auth_frame_calls(10) [OF s1] by simp
  qed
qed

lemma auth_frame_relay:
  "client_send_to_socks c s = Some s' \<Longrightarrow> tt_auth_username s' = tt_auth_username s"
  "client_socks_recv_initiate c s = Some s' \<Longrightarrow> tt_auth_username s' = tt_auth_username s"
  "client_socks_recv_send_out lw c s = Some (s', n) \<Longrightarrow> tt_auth_username s' = tt_auth_username s"
  "client_socks_send_handler_done lw c k s = Some s' \<Longrightarrow> tt_auth_username s' = tt_auth_username s"
  by (auto simp: client_send_to_socks_def client_socks_recv_initiate_def client_socks_recv_send_out_def
      client_socks_send_handler_done_def bind_Some Let_def split: if_splits
      dest!: auth_frame_calls auth_frame_free auth_frame_kill auth_frame_loop)

lemma auth_frame_handlers:
  "client_socks_recv_handler_done lw c k s = Some s' \<Longrightarrow> tt_auth_username s' = tt_auth_username s"
  "client_socks_handler lw c e s = Some s' \<Longrightarrow> tt_auth_username s' = tt_auth_username s"
  by (auto simp: client_socks_recv_handler_done_def bind_Some split: if_splits
      dest!: auth_frame_calls auth_frame_relay)
    (cases e; auto simp: bind_Some split: if_splits dest!: auth_frame_calls auth_frame_relay auth_frame_free)

lemma auth_frame_socks_step: "socks_step lw c ev s = Some s' \<Longrightarrow> tt_auth_username s' = tt_auth_username s"
  by (cases ev) (auto simp: bind_Some simp del: client_socks_handler.simps
      dest!: auth_frame_calls auth_frame_handlers auth_frame_relay)

lemma auth_frame_run: "run_socks es s = Some s' \<Longrightarrow> tt_auth_username s' = tt_auth_username s"
proof (induction es arbitrary: s)
  case (Cons e es)
  obtain lw c ev where e: "e = (lw, c, ev)" by (cases e)
  show ?case
  proof (cases "socks_enabled c ev s")
    case True
    then obtain s1 where "socks_step lw c ev s = Some s1" "run_socks es s1 = Some s'"
      using Cons.prems e by (auto simp: bind_Some simp del: socks_enabled.simps)
    then show ?thesis using Cons.IH auth_frame_socks_step by metis
  next
    case False
    then show ?thesis using Cons e by (simp del: socks_enabled.simps)
  qed
qed simp

lemma auth_frame_enter: "DEAD_ENTER c s = Some (s', q) \<Longrightarrow> tt_auth_username s' = tt_auth_username s"
  by (auto simp: DEAD_ENTER_def bind_Some dest!: auth_frame_calls)

lemma auth_frame_leave:
  "DEAD_LEAVE2 c q s = Some (s', d) \<Longrightarrow> tt_auth_username s' = tt_auth_username s"
  by (auto simp: DEAD_LEAVE2_def Let_def bind_Some split: if_splits dest!: auth_frame_calls)

lemma auth_frame_return: "callback_leave c q s = Some (s', r) \<Longrightarrow> tt_auth_username s' = tt_auth_username s"
  by (auto simp: callback_leave_def bind_Some dest!: auth_frame_leave)

lemma auth_frame_recv:
  assumes "client_recv_func lw (run_socks es) c d s = Some (s', r)"
  shows "tt_auth_username s' = tt_auth_username s"
proof -
  from assms obtain x s1 prev where x: "tt_clients s c = Some x" and s1: "DEAD_ENTER c s = Some (s1, prev)"
    by (auto simp: client_recv_func_def bind_Some)
  have "tt_auth_username s' = tt_auth_username s1"
  proof (cases d)
    case None
    then show ?thesis using assms x s1
      by (auto simp: client_recv_func_def bind_Some dest!: auth_frame_free auth_frame_return)
  next
    case (Some b)
    show ?thesis
    proof (cases "length b > TCP_WND - length (tc_buf x)")
      case True
      then show ?thesis using assms x s1 Some
        by (auto simp: client_recv_func_def bind_Some dest!: auth_frame_leave)
    next
      case False
      with assms x s1 Some obtain s2 s3 where
        "client_mod c (tc_buf_update (\<lambda>l. l @ b)) s1 = Some s2" "callback_leave c prev s3 = Some (s', r)"
        "(if length (tc_buf x @ b) = length b \<and> tc_socks_up x then do {
            assert_that (\<not> tc_socks_closed x); s \<leftarrow> client_send_to_socks c s2; run_socks es s } else Some s2) = Some s3"
        by (auto simp: client_recv_func_def bind_Some)
      then show ?thesis
        by (auto simp: bind_Some split: if_splits dest!: auth_frame_calls auth_frame_relay auth_frame_run auth_frame_return)
    qed
  qed
  then show ?thesis using auth_frame_enter [OF s1] by simp
qed

lemma auth_frame_sent:
  assumes "client_sent_func lw (run_socks es) c n s = Some (s', r)"
  shows "tt_auth_username s' = tt_auth_username s"
proof -
  from assms obtain x s1 s2 s4 prev where x: "tt_clients s c = Some x" and s1: "DEAD_ENTER c s = Some (s1, prev)"
    and s2: "client_mod c (tc_recv_tcp_pending_update (\<lambda>k. k - int n)) s1 = Some s2"
    and s4: "(if tc_recv_buf_used x > 0 then do {
            assert_that (tc_recv_waiting x \<and> tc_recv_buf_sent x < tc_recv_buf_used x);
            s \<leftarrow> client_mod c (tc_recv_waiting_update (\<lambda>_. False)) s2;
            (s, r) \<leftarrow> client_socks_recv_send_out lw c s;
            if r < 0 then Some s
            else do {
              x \<leftarrow> tt_clients s c;
              assert_that (tc_recv_tcp_pending x > 0);
              if tc_recv_buf_used x = -1 \<and> \<not> tc_socks_closed x
              then do { s \<leftarrow> client_socks_recv_initiate c s; run_socks es s } else Some s }
          } else if tc_socks_closed x \<and> tc_recv_tcp_pending x - int n = 0
          then client_free_client lw c s2 else Some s2) = Some s4"
    and ret: "callback_leave c prev s4 = Some (s', r)"
    by (auto simp: client_sent_func_def bind_Some)
  have "tt_auth_username s4 = tt_auth_username s2"
  proof (cases "tc_recv_buf_used x > 0")
    case True
    with s4 obtain s3 s3' m where "client_mod c (tc_recv_waiting_update (\<lambda>_. False)) s2 = Some s3"
      "client_socks_recv_send_out lw c s3 = Some (s3', m)"
      and last: "(if m < 0 then Some s3' else do {
              x \<leftarrow> tt_clients s3' c;
              assert_that (tc_recv_tcp_pending x > 0);
              if tc_recv_buf_used x = -1 \<and> \<not> tc_socks_closed x
              then do { s \<leftarrow> client_socks_recv_initiate c s3'; run_socks es s } else Some s3' }) = Some s4"
      by (auto simp: bind_Some)
    then have "tt_auth_username s3' = tt_auth_username s2" using auth_frame_calls(1) auth_frame_relay(3) by metis
    moreover have "tt_auth_username s4 = tt_auth_username s3'"
      using last by (auto simp: bind_Some split: if_splits dest!: auth_frame_relay auth_frame_run)
    ultimately show ?thesis by simp
  next
    case False
    then show ?thesis using s4 by (auto split: if_splits dest!: auth_frame_free)
  qed
  then show ?thesis using auth_frame_enter [OF s1] auth_frame_calls(1) [OF s2] auth_frame_return [OF ret] by simp
qed

lemma auth_frame_accept:
  assumes "\<not> (op_username opts \<noteq> None \<and> op_append_source_to_username opts)"
    and "listener_accept_func opts (run_socks es) c junk co io la ra p s = Some (s', r)"
  shows "tt_auth_username s' = tt_auth_username s"
  using assms by (auto simp: listener_accept_func_def bind_Some Let_def split: if_splits option.splits
      dest!: auth_frame_calls auth_frame_enter auth_frame_return auth_frame_run)

lemma auth_frame_step:
  assumes "\<not> (op_username opts \<noteq> None \<and> op_append_source_to_username opts)" "tt_step opts ev s = Some s'"
  shows "tt_auth_username s' = tt_auth_username s"
proof (cases ev)
  case (TE_Accept c junk co io la ra p es)
  then show ?thesis using assms(2) by (auto simp: bind_Some dest!: auth_frame_accept [OF assms(1)] split: if_splits)
next
  case (TE_Recv lw p d es)
  then show ?thesis using assms(2) by (cases d) (auto simp: bind_Some dest!: auth_frame_recv)
next
  case (TE_Sent lw p n es)
  then show ?thesis using assms(2) by (auto simp: bind_Some dest!: auth_frame_sent)
qed (use assms(2) in \<open>auto simp: bind_Some dest!: auth_frame_kill auth_frame_socks_step\<close>)

lemma no_auth_pointer:
  assumes "tt_reachable opts r" "\<not> (op_username opts \<noteq> None \<and> op_append_source_to_username opts)"
  shows "\<exists>s. r = Some s \<and> tt_inv None s \<and> tt_auth_username s = None"
  using assms(1)
proof (induction rule: tt_reachable.induct)
  case init
  then show ?case using initial_inv by (simp add: tt_initial_def)
next
  case (step s ev)
  then have inv: "tt_inv None s" and auth: "tt_auth_username s = None" by auto
  show ?case
  proof (cases "\<exists>c. ev = TE_Auth c")
    case True
    then show ?thesis using step.hyps(3) inv auth by (auto simp: auth_username_def)
  next
    case False
    then obtain s' where "tt_step opts ev s = Some s'" "tt_inv None s'"
      using step_ok [OF inv step.hyps(2), of opts] by (auto simp: kept_def)
    then show ?thesis using auth_frame_step [OF assms(2)] auth by auto
  qed
qed

section \<open>Properties\<close>

text \<open>
  C13. Without appended source addresses, whatever lwIP and the SOCKS clients deliver and in whatever
  order: no assertion of the clients fails, no freed client, pcb or SOCKS client is used, nothing is written
  through a dangling dead marker, the counter is the length of the list, and every client has
  something outstanding that will take it further: its SOCKS client is not up, or busy sending or
  receiving, or data written to it waits for an acknowledgement.
\<close>

theorem TcpClient_no_failure:
  assumes "tt_reachable opts r" "\<not> (op_username opts \<noteq> None \<and> op_append_source_to_username opts)"
  shows "\<exists>s. r = Some s \<and> tt_num_clients s = int (length (tt_tcp_clients s)) \<and> distinct (tt_tcp_clients s)
    \<and> set (tt_tcp_clients s) = dom (tt_clients s) \<and> dom (tt_socks s) \<subseteq> dom (tt_clients s)
    \<and> (\<forall>c x. tt_clients s c = Some x \<longrightarrow> \<not> (tc_client_closed x \<and> tc_socks_closed x)
        \<and> (case tt_socks s c of
             Some e \<Rightarrow> \<not> so_up e \<or> so_send e \<noteq> None \<or> so_recv e
               \<or> (\<exists>pe. tt_pcbs s (tc_pcb x) = Some pe \<and> pe_unacked pe > 0)
           | None \<Rightarrow> \<exists>pe. tt_pcbs s (tc_pcb x) = Some pe \<and> pe_unacked pe > 0))"
proof -
  from no_auth_pointer [OF assms] obtain s where s: "r = Some s" "tt_inv None s" by blast
  note i = inv_exceptD [OF s(2) [unfolded tt_inv_def]]
  have "dom (tt_socks s) \<subseteq> dom (tt_clients s)" using i(9) by (meson domIff empty_iff subsetI)
  moreover have "\<not> (tc_client_closed x \<and> tc_socks_closed x)
        \<and> (case tt_socks s c of
             Some e \<Rightarrow> \<not> so_up e \<or> so_send e \<noteq> None \<or> so_recv e
               \<or> (\<exists>pe. tt_pcbs s (tc_pcb x) = Some pe \<and> pe_unacked pe > 0)
           | None \<Rightarrow> \<exists>pe. tt_pcbs s (tc_pcb x) = Some pe \<and> pe_unacked pe > 0)"
    if x: "tt_clients s c = Some x" for c x
  proof -
    note k = focusD [OF s(2) x]
    show ?thesis
    proof (cases "tc_client_closed x")
      case True
      then show ?thesis using k(2,4) by (cases "tt_socks s c") (auto simp: client_live_def)
    next
      case False
      then obtain pe where pe: "tt_pcbs s (tc_pcb x) = Some pe" using k(1) by (auto simp: sides_closed)
      then have un: "tc_socks_up x \<Longrightarrow> int (pe_unacked pe) = tc_recv_tcp_pending x" using k(1) False by simp
      have "recv_state_ok x" if "tc_socks_up x" using k(4) that False by (simp add: client_live_def)
      then have pend: "pe_unacked pe > 0" if "tc_socks_up x" "tc_recv_buf_used x \<noteq> -1 \<or> tc_recv_tcp_pending x > 0"
        using un that by (auto simp: recv_state_ok_def)
      show ?thesis
      proof (cases "tt_socks s c")
        case None
        then have "tc_socks_up x" "tc_recv_buf_used x > 0 \<or> tc_recv_tcp_pending x > 0"
          using k(2,4) by (simp_all add: client_live_def)
        then show ?thesis using pend pe None False by auto
      next
        case (Some e)
        then have "\<not> so_up e \<or> so_recv e \<or> tc_socks_up x \<and> tc_recv_buf_used x \<noteq> -1"
          using k(2) False by (auto split: if_splits)
        then show ?thesis using pend pe Some False by auto
      qed
    qed
  qed
  ultimately show ?thesis using s(1) i(1-3) by blast
qed

text \<open>
  C14. Both data callbacks return, never with \<open>ERR_MEM\<close> (the buffer always has room for what the window
  lets through), and they return \<open>ERR_ABRT\<close> exactly when \<open>tcp_abort\<close> has been called on their pcb.
\<close>

theorem TcpClient_returns_err_abrt:
  assumes "tt_reachable opts (Some s)" "tt_enabled ev s" "ev = TE_Recv lw p d es \<or> ev = TE_Sent lw p n es"
  shows "\<exists>s' e. tt_callback opts ev s = Some (s', e) \<and> e \<noteq> ERR_MEM \<and> (e = ERR_ABRT \<longleftrightarrow> p \<in> tt_aborted_pcbs s')"
proof -
  have "returned p (tt_callback opts ev s)"
    using callback_ok [OF reachable_inv [OF assms(1) refl] assms(2)] assms(3) by blast
  then show ?thesis by (auto simp: returned_def)
qed

text \<open>
  C15. At any moment the bytes passed to the SOCKS server are a prefix of those received from the client,
  the rest being exactly what the buffer holds, and the bytes written to the client are a prefix of
  those received from the SOCKS server: nothing is lost, repeated or reordered in either direction.
\<close>

theorem TcpClient_relays_streams:
  assumes "tt_reachable opts (Some s)" "tt_clients s c = Some x"
  shows "lg_from_client (tt_log s c) = lg_to_socks (tt_log s c) @ tc_buf x
    \<and> (\<exists>rest. lg_from_socks (tt_log s c) = lg_to_client (tt_log s c) @ rest)"
proof -
  have "stream_ok x (tt_log s c)" using focusD(3) [OF reachable_inv [OF assms(1) refl] assms(2)] .
  then show ?thesis by (auto simp: stream_ok_def split: if_splits) metis+
qed

text \<open>
  C16. Once the client has closed its side, it is removed after a completed send only when every byte it
  ever sent has been passed to the SOCKS server.
\<close>

theorem TcpClient_delivers_before_removal:
  assumes "tt_reachable opts (Some s)" "tt_enabled (TE_Socks lw c (SE_Send_Done n)) s"
    and "tt_step opts (TE_Socks lw c (SE_Send_Done n)) s = Some s'" "tt_clients s' c = None"
  shows "lg_to_socks (tt_log s' c) = lg_from_client (tt_log s' c)"
proof -
  note inv = reachable_inv [OF assms(1) refl]
  obtain e m where e: "tt_socks s c = Some e" "so_up e" "so_send e = Some m" "0 < n" "n \<le> m"
    using assms(2) by (auto split: option.splits)
  obtain x where x: "tt_clients s c = Some x" using socks_owner [OF inv e(1)] .
  from send_handler_done_delivers [OF inv x e, of lw s'] show ?thesis
    using assms(3,4) x by (simp add: put_upd(1) [OF x refl e(1)] log_updates)
qed

section \<open>User names\<close>

definition example_memory :: tcp_client where
  "example_memory = \<lparr> tc_aborted = True, tc_dead_aborted = Some 7, tc_local_addr = BADDR_NONE, tc_remote_addr = BADDR_NONE,
     tc_pcb = 9, tc_client_closed = True, tc_buf = [1, 2], tc_socks_username = None, tc_socks_up = True,
     tc_socks_closed = True, tc_recv_buf = [], tc_recv_buf_used = 5, tc_recv_buf_sent = 6, tc_recv_waiting = True,
     tc_recv_tcp_pending = 8 \<rparr>"

definition example_lw :: lwip_results where
  "example_lw = \<lparr> lr_close_ok = True, lr_sndbuf = (\<lambda>_. 2), lr_write = (\<lambda>_. ERR_OK), lr_output = ERR_OK \<rparr>"

abbreviation example_accept :: "nat \<Rightarrow> baddr \<Rightarrow> nat \<Rightarrow> tcp_event" where
  "example_accept c ra p \<equiv> TE_Accept c (Some example_memory) True True BADDR_NONE ra p []"

lemmas client_defs = listener_accept_func_def tcp_arg_def tcp_err_def tcp_recv_def tcp_sent_def pcb_mod_def client_mod_def
  socks_mod_def log_mod_def DEAD_ENTER_def DEAD_LEAVE2_def callback_leave_def DEAD_KILL_WITH_def Let_def
  fresh_pcb_def fresh_log_def tt_initial_def example_memory_def example_lw_def

lemma tt_reachable_step:
  "tt_reachable opts (Some s) \<Longrightarrow> tt_enabled ev s \<Longrightarrow> \<forall>c. ev = TE_Auth c \<longrightarrow> op_username opts \<noteq> None \<Longrightarrow>
   tt_step opts ev s = Some s' \<Longrightarrow> tt_reachable opts (Some s')"
  using tt_reachable.step by metis

text \<open>The state in which the clients of the list \<open>cs\<close>, each an address with its remote address, are connecting.\<close>

definition example_client :: "tun_options \<Rightarrow> nat \<Rightarrow> baddr \<Rightarrow> tcp_client" where
  "example_client opts p ra = example_memory\<lparr>tc_local_addr := BADDR_NONE, tc_remote_addr := ra,
     tc_socks_username := (if op_username opts \<noteq> None \<and> op_append_source_to_username opts
       then Some (User_at (the (op_username opts)) ra) else None),
     tc_aborted := False, tc_dead_aborted := None, tc_pcb := p,
     tc_client_closed := False, tc_buf := [], tc_socks_up := False, tc_socks_closed := False\<rparr>"

definition example_state :: "tun_options \<Rightarrow> nat option \<Rightarrow> (nat \<times> baddr) list \<Rightarrow> tun_tcp" where
  "example_state opts auth cs = \<lparr> tt_clients = map_of (map (\<lambda>(c, ra). (c, example_client opts c ra)) (rev cs)),
     tt_tcp_clients = map fst cs, tt_num_clients = int (length cs), tt_frames = [], tt_auth_username = auth,
     tt_pcbs = map_of (map (\<lambda>(c, ra). (c, fresh_pcb\<lparr>pe_arg := c, pe_err := True, pe_recv := True\<rparr>)) (rev cs)),
     tt_aborted_pcbs = {},
     tt_socks = map_of (map (\<lambda>(c, ra). (c, \<lparr> so_dest = BADDR_NONE, so_up = False, so_send = None, so_recv = False \<rparr>)) (rev cs)),
     tt_log = (\<lambda>_. fresh_log) \<rparr>"

lemma example_accept_step:
  assumes "c \<notin> fst ` set cs"
  shows "tt_step opts (example_accept c ra c) (example_state opts auth cs)
    = Some (example_state opts (if op_username opts \<noteq> None \<and> op_append_source_to_username opts then Some c else auth) (cs @ [(c, ra)]))"
  by (cases "op_username opts"; cases "op_append_source_to_username opts")
    (simp_all add: example_state_def example_client_def client_defs fun_upd_idem)

lemma example_reachable:
  "distinct (map fst cs) \<Longrightarrow> tt_reachable opts (Some (example_state opts
     (if op_username opts \<noteq> None \<and> op_append_source_to_username opts \<and> cs \<noteq> [] then Some (fst (last cs)) else None) cs))"
proof (induction cs rule: rev_induct)
  case Nil
  have "example_state opts None [] = tt_initial"
    by (simp add: example_state_def tt_initial_def)
  then show ?case using tt_reachable.init by simp
next
  case (snoc e cs)
  obtain c ra where e: "e = (c, ra)" by (cases e)
  define auth where "auth = (if op_username opts \<noteq> None \<and> op_append_source_to_username opts \<and> cs \<noteq> [] then Some (fst (last cs)) else None)"
  have fresh: "c \<notin> fst ` set cs" using snoc.prems e by auto
  have cl: "tt_clients (example_state opts auth cs) = map_of (map (\<lambda>(c, ra). (c, example_client opts c ra)) (rev cs))"
    by (simp add: example_state_def)
  have "tt_clients (example_state opts auth cs) c = None"
    using fresh unfolding cl by (auto simp: map_of_eq_None_iff image_image split_beta)
  moreover have "\<forall>y \<in> ran (tt_clients (example_state opts auth cs)). tc_pcb y \<noteq> c"
    using fresh unfolding cl by (force simp: ran_def example_client_def dest!: map_of_SomeD)
  ultimately have "tt_enabled (example_accept c ra c) (example_state opts auth cs)"
    by (simp add: example_state_def)
  from tt_reachable_step [OF snoc.IH [folded auth_def] this _ example_accept_step [OF fresh]] snoc.prems
  show ?case using e by (auto simp: auth_def split: if_splits)
qed

text \<open>
  C17. With appended source addresses the user names go wrong, because every SOCKS client holds a
  pointer to the one global array that the next accept overwrites: while a first client is still
  connecting, a second accept makes it authenticate with the address of the second client, and when the
  second client has gone, reading the user name uses freed memory.
\<close>

theorem TcpClient_username_mixup:
  assumes "op_username opts = Some u" "op_append_source_to_username opts"
  shows "tt_reachable opts None
    \<and> (\<exists>s x. tt_reachable opts (Some s) \<and> tt_clients s 1 = Some x \<and> tc_remote_addr x = a1
        \<and> tt_enabled (TE_Auth 1) s \<and> auth_username opts s = Some (User_at u a2))"
proof -
  let ?s = "example_state opts (Some 2) [(1, a1), (2, a2)]"
  have r: "tt_reachable opts (Some ?s)"
    using example_reachable [of "[(1, a1), (2, a2)]" opts] assms by simp
  have "tt_step opts (TE_Err example_lw 2) ?s = Some ((example_state opts (Some 2) [(1, a1)]))"
    by (simp add: example_state_def example_client_def client_err_func_def client_handle_freed_client.simps
        client_free_socks.simps client_dealloc_def BSocksClient_Free_def client_defs)
  then have "tt_reachable opts (Some (example_state opts (Some 2) [(1, a1)]))"
    by (rule tt_reachable_step [OF r, rotated 2]) (simp_all add: example_state_def fresh_pcb_def)
  from tt_reachable.step [OF this, of "TE_Auth 1"] have "tt_reachable opts None"
    using assms by (simp add: auth_username_def example_state_def)
  moreover have "tt_enabled (TE_Auth 1) ?s" "auth_username opts ?s = Some (User_at u a2)"
    "tt_clients ?s 1 = Some (example_client opts 1 a1)" "tc_remote_addr (example_client opts 1 a1) = a1"
    using assms by (simp_all add: example_state_def auth_username_def example_client_def)
  ultimately show ?thesis using r by blast
qed

section \<open>Witnesses\<close>

definition plain_options :: tun_options where
  "plain_options = \<lparr> op_username = None, op_append_source_to_username = False \<rparr>"

definition append_options :: tun_options where
  "append_options = \<lparr> op_username = Some ''joe'', op_append_source_to_username = True \<rparr>"

lemma TcpClient_username_mixup_witness:
  "tt_reachable append_options None \<and> (\<exists>s x. tt_reachable append_options (Some s) \<and> tt_clients s 1 = Some x
     \<and> tc_remote_addr x = BADDR_IPV4 1 2 \<and> tt_enabled (TE_Auth 1) s
     \<and> auth_username append_options s = Some (User_at ''joe'' (BADDR_IPV4 3 4)))"
  by (rule TcpClient_username_mixup) (simp_all add: append_options_def)

abbreviation example_one :: tun_tcp where
  "example_one \<equiv> example_state plain_options None [(1, BADDR_NONE)]"

lemma example_one_reachable: "tt_reachable plain_options (Some example_one)"
  using example_reachable [of "[(1, BADDR_NONE)]" plain_options] by (simp add: plain_options_def)

lemma TcpClient_no_failure_witness:
  "tt_num_clients example_one = int (length (tt_tcp_clients example_one)) \<and> dom (tt_socks example_one) \<subseteq> dom (tt_clients example_one)"
proof -
  have "\<exists>s. Some example_one = Some s \<and> tt_num_clients s = int (length (tt_tcp_clients s)) \<and> distinct (tt_tcp_clients s)
    \<and> set (tt_tcp_clients s) = dom (tt_clients s) \<and> dom (tt_socks s) \<subseteq> dom (tt_clients s)
    \<and> (\<forall>c x. tt_clients s c = Some x \<longrightarrow> \<not> (tc_client_closed x \<and> tc_socks_closed x)
        \<and> (case tt_socks s c of
             Some e \<Rightarrow> \<not> so_up e \<or> so_send e \<noteq> None \<or> so_recv e
               \<or> (\<exists>pe. tt_pcbs s (tc_pcb x) = Some pe \<and> pe_unacked pe > 0)
           | None \<Rightarrow> \<exists>pe. tt_pcbs s (tc_pcb x) = Some pe \<and> pe_unacked pe > 0))"
    by (rule TcpClient_no_failure [OF example_one_reachable]) (simp add: plain_options_def)
  then show ?thesis by blast
qed

lemma TcpClient_returns_err_abrt_witness:
  "\<exists>s' e. tt_callback plain_options (TE_Recv example_lw 1 (Some [5]) []) example_one = Some (s', e)
     \<and> e \<noteq> ERR_MEM \<and> (e = ERR_ABRT \<longleftrightarrow> 1 \<in> tt_aborted_pcbs s')"
  by (rule TcpClient_returns_err_abrt [OF example_one_reachable, where lw = example_lw and d = "Some [5]" and es = "[]"
        and n = 0])
    (simp_all add: example_state_def fresh_pcb_def TCP_WND_def)

text \<open>A run: data arrives, the SOCKS client comes up, the client closes, the data is sent.\<close>

definition run_state :: "tcp_client \<Rightarrow> pcb_env option \<Rightarrow> socks_env option \<Rightarrow> stream_log \<Rightarrow> tun_tcp" where
  "run_state x pe so lg = put example_one 1 1 x pe so lg [] {}"

definition run_client :: "byte list \<Rightarrow> bool \<Rightarrow> bool \<Rightarrow> tcp_client" where
  "run_client b up cl = (let x = (example_client plain_options 1 BADDR_NONE)\<lparr>tc_buf := b\<rparr>;
     x = (if up then x\<lparr>tc_recv_tcp_pending := 0, tc_recv_buf_used := -1, tc_socks_up := True\<rparr> else x)
     in if cl then x\<lparr>tc_dead_aborted := None, tc_client_closed := True\<rparr> else x)"

definition run_pcb :: "nat \<Rightarrow> bool \<Rightarrow> pcb_env" where
  "run_pcb w up = \<lparr> pe_arg = 1, pe_err = True, pe_recv = True, pe_sent = up, pe_wnd = w, pe_unacked = 0 \<rparr>"

definition run_socks_env :: "bool \<Rightarrow> socks_env" where
  "run_socks_env up = \<lparr> so_dest = BADDR_NONE, so_up = up, so_send = (if up then Some 1 else None), so_recv = up \<rparr>"

lemmas run_defs = run_state_def run_client_def run_pcb_def run_socks_env_def example_client_def example_memory_def
  plain_options_def callback_leave_def DEAD_LEAVE2_def fresh_log_def Let_def log_updates TCP_WND_def

lemma run_0: "example_one = run_state (run_client [] False False) (Some (run_pcb TCP_WND False)) (Some (run_socks_env False)) fresh_log"
  by (simp add: run_defs example_state_def put_def fresh_pcb_def fun_upd_idem fun_eq_iff)

lemma put_set_pcb [simp]:
  "(put s c p x pe so lg fr ab)\<lparr>tt_pcbs := (tt_pcbs s)(p := q)\<rparr> = put s c p x q so lg fr ab"
  by (simp add: put_def)

lemma run_1:
  "tt_step plain_options (TE_Recv example_lw 1 (Some [5]) [])
     (run_state (run_client [] False False) (Some (run_pcb 5840 False)) (Some (run_socks_env False)) fresh_log)
   = Some (run_state (run_client [5] False False) (Some (run_pcb 5839 False)) (Some (run_socks_env False))
      (fresh_log\<lparr>lg_from_client := [5]\<rparr>))"
  by (simp add: run_defs client_recv_func_def client_updates)

lemma run_2:
  "tt_step plain_options (TE_Socks example_lw 1 SE_Up)
     (run_state (run_client [5] False False) (Some (run_pcb 5839 False)) (Some (run_socks_env False)) lg)
   = Some (run_state (run_client [5] True False) (Some (run_pcb 5839 True)) (Some (run_socks_env True)) lg)"
  by (simp add: run_defs client_send_to_socks_def client_socks_recv_initiate_def)

lemma run_3:
  "tt_step plain_options (TE_Recv example_lw 1 None [])
     (run_state (run_client [5] True False) (Some (run_pcb 5839 True)) (Some (run_socks_env True)) lg)
   = Some (run_state (run_client [5] True True) None (Some (run_socks_env True)) lg)"
  by (simp add: run_defs client_recv_func_def client_free_client.simps tcp_close_or_abort_def example_lw_def
      client_handle_freed_client.simps)

lemma run_reachable:
  "tt_reachable plain_options (Some (run_state (run_client [5] True True) None (Some (run_socks_env True))
     (fresh_log\<lparr>lg_from_client := [5]\<rparr>)))"
proof -
  have "tt_reachable plain_options (Some (run_state (run_client [] False False) (Some (run_pcb 5840 False))
      (Some (run_socks_env False)) fresh_log))"
    using example_one_reachable run_0 by (simp add: TCP_WND_def)
  from tt_reachable_step [OF this _ _ run_1]
  have "tt_reachable plain_options (Some (run_state (run_client [5] False False) (Some (run_pcb 5839 False))
      (Some (run_socks_env False)) (fresh_log\<lparr>lg_from_client := [5]\<rparr>)))"
    by (simp add: run_defs)
  from tt_reachable_step [OF this _ _ run_2]
  have "tt_reachable plain_options (Some (run_state (run_client [5] True False) (Some (run_pcb 5839 True))
      (Some (run_socks_env True)) (fresh_log\<lparr>lg_from_client := [5]\<rparr>)))"
    by (simp add: run_defs)
  from tt_reachable_step [OF this _ _ run_3] show ?thesis by (simp add: run_defs)
qed

lemma TcpClient_relays_streams_witness:
  "let s = run_state (run_client [5] True True) None (Some (run_socks_env True)) (fresh_log\<lparr>lg_from_client := [5]\<rparr>)
   in lg_from_client (tt_log s 1) = lg_to_socks (tt_log s 1) @ tc_buf (run_client [5] True True)
     \<and> (\<exists>rest. lg_from_socks (tt_log s 1) = lg_to_client (tt_log s 1) @ rest)"
  unfolding Let_def by (rule TcpClient_relays_streams [OF run_reachable]) (simp add: run_state_def)

lemma TcpClient_delivers_before_removal_witness:
  "\<exists>s'. tt_step plain_options (TE_Socks example_lw 1 (SE_Send_Done 1))
      (run_state (run_client [5] True True) None (Some (run_socks_env True)) (fresh_log\<lparr>lg_from_client := [5]\<rparr>)) = Some s'
    \<and> tt_clients s' 1 = None \<and> lg_to_socks (tt_log s' 1) = lg_from_client (tt_log s' 1)"
proof -
  have en: "tt_enabled (TE_Socks example_lw 1 (SE_Send_Done 1))
      (run_state (run_client [5] True True) None (Some (run_socks_env True)) (fresh_log\<lparr>lg_from_client := [5]\<rparr>))"
    by (simp add: run_defs)
  have "\<exists>s'. tt_step plain_options (TE_Socks example_lw 1 (SE_Send_Done 1))
      (run_state (run_client [5] True True) None (Some (run_socks_env True)) (fresh_log\<lparr>lg_from_client := [5]\<rparr>)) = Some s'
    \<and> tt_clients s' 1 = None"
    by (simp add: run_defs client_socks_send_handler_done_def client_free_socks.simps client_dealloc_def example_state_def)
      (simp add: DEAD_KILL_WITH_def put_def)
  then show ?thesis using TcpClient_delivers_before_removal [OF run_reachable en] by blast
qed

end
