(* ===== verification/PacketProto.thy ===== *)
theory PacketProto
  imports NetProto
begin

text \<open>
  PacketProto, the framing of packets over a stream: \<open>flow/PacketProtoEncoder.c\<close> and
  \<open>flow/PacketProtoDecoder.c\<close>. The decoder keeps received bytes in a buffer of
  \<open>PACKETPROTO_ENCLEN(output_mtu)\<close> bytes and alternates between receiving into the free tail
  and sending one packet in place. Calls on the neighbouring interfaces are results of the
  handlers; a region of the buffer is a position and a length.
\<close>

definition PACKETPROTO_MAXPAYLOAD :: nat where "PACKETPROTO_MAXPAYLOAD = 65535"

definition PACKETPROTO_ENCLEN :: "nat \<Rightarrow> nat" where "PACKETPROTO_ENCLEN len = 2 + len"

section \<open>Encoder\<close>

text \<open>\<open>enc_output_packet\<close> is the caller's buffer while a receive is in progress.\<close>

record PacketProtoEncoder =
  enc_input_mtu :: nat
  enc_output_mtu :: nat
  enc_output_packet :: "byte list option"

datatype enc_act = Enc_Receiver_Recv nat | Enc_Done nat

definition PacketProtoEncoder_Init :: "nat \<Rightarrow> PacketProtoEncoder option" where
  "PacketProtoEncoder_Init input_mtu = do {
     assert_that (input_mtu \<le> PACKETPROTO_MAXPAYLOAD);
     Some \<lparr> enc_input_mtu = input_mtu, enc_output_mtu = PACKETPROTO_ENCLEN input_mtu,
            enc_output_packet = None \<rparr>
   }"

text \<open>The payload is received into the buffer behind the header (offset 2).\<close>

definition enc_output_handler_recv ::
  "byte list \<Rightarrow> PacketProtoEncoder \<Rightarrow> (PacketProtoEncoder \<times> enc_act) option" where
  "enc_output_handler_recv data enc = do {
     assert_that (enc_output_packet enc = None);
     Some (enc\<lparr>enc_output_packet := Some data\<rparr>, Enc_Receiver_Recv 2)
   }"

text \<open>\<open>in_len\<close> payload bytes have arrived in the buffer; the result has the completed buffer.\<close>

definition enc_input_handler_done ::
  "nat \<Rightarrow> PacketProtoEncoder \<Rightarrow> (PacketProtoEncoder \<times> byte list \<times> enc_act) option" where
  "enc_input_handler_done in_len enc = do {
     packet \<leftarrow> enc_output_packet enc;
     let packet = write_at packet 0 (bytes16 (htol16 (of_nat in_len)));
     Some (enc\<lparr>enc_output_packet := None\<rparr>, packet, Enc_Done (PACKETPROTO_ENCLEN in_len))
   }"

section \<open>Decoder\<close>

record PacketProtoDecoder =
  dec_output_mtu :: nat
  dec_buf_size :: nat
  dec_buf_start :: nat
  dec_buf_used :: nat
  dec_buf :: "byte list"

datatype dec_act = Dec_Send nat nat | Dec_Recv nat nat

definition dec_wrap_around :: "PacketProtoDecoder \<Rightarrow> PacketProtoDecoder" where
  "dec_wrap_around enc =
     (if dec_buf_start enc + dec_buf_used enc = dec_buf_size enc
      then enc\<lparr>dec_buf := write_at (dec_buf enc) 0
                 (seg (dec_buf enc) (dec_buf_start enc) (dec_buf_used enc)),
               dec_buf_start := 0\<rparr>
      else enc)"

definition dec_receive :: "PacketProtoDecoder \<Rightarrow> bool \<Rightarrow> PacketProtoDecoder \<times> dec_act \<times> bool" where
  "dec_receive enc was_error =
     (enc, Dec_Recv (dec_buf_start enc + dec_buf_used enc)
             (dec_buf_size enc - (dec_buf_start enc + dec_buf_used enc)), was_error)"

text \<open>The new state, the call made on a neighbour, and whether \<open>handler_error\<close> is called.\<close>

definition dec_process_data :: "PacketProtoDecoder \<Rightarrow> PacketProtoDecoder \<times> dec_act \<times> bool" where
  "dec_process_data enc =
     (let data = dec_buf_start enc; left = dec_buf_used enc
      in if left < 2 then dec_receive (dec_wrap_around enc) False
         else let data_len = unat (ltoh16 (mk16 (dec_buf enc ! data) (dec_buf enc ! (data + 1))));
                  data = data + 2; left = left - 2
           in if data_len > dec_output_mtu enc
              then dec_receive (enc\<lparr>dec_buf_start := 0, dec_buf_used := 0\<rparr>) True
              else if left < data_len then dec_receive (dec_wrap_around enc) False
              else (enc\<lparr>dec_buf_start := dec_buf_start enc + (2 + data_len),
                        dec_buf_used := dec_buf_used enc - (2 + data_len)\<rparr>,
                    Dec_Send data data_len, False))"

definition dec_input_handler_done ::
  "nat \<Rightarrow> PacketProtoDecoder \<Rightarrow> (PacketProtoDecoder \<times> dec_act \<times> bool) option" where
  "dec_input_handler_done data_len enc = do {
     assert_that (data_len > 0);
     assert_that (data_len \<le> dec_buf_size enc - (dec_buf_start enc + dec_buf_used enc));
     Some (dec_process_data (enc\<lparr>dec_buf_used := dec_buf_used enc + data_len\<rparr>))
   }"

definition dec_output_handler_done ::
  "PacketProtoDecoder \<Rightarrow> PacketProtoDecoder \<times> dec_act \<times> bool" where
  "dec_output_handler_done enc = dec_process_data enc"

text \<open>\<open>buf\<close> is the malloc'ed block, of arbitrary contents.\<close>

definition PacketProtoDecoder_Init :: "nat \<Rightarrow> (nat \<Rightarrow> byte list) \<Rightarrow> PacketProtoDecoder \<times> dec_act" where
  "PacketProtoDecoder_Init mtu malloc =
     (let output_mtu = min mtu PACKETPROTO_MAXPAYLOAD;
          buf_size = PACKETPROTO_ENCLEN output_mtu
      in (\<lparr> dec_output_mtu = output_mtu, dec_buf_size = buf_size, dec_buf_start = 0,
            dec_buf_used = 0, dec_buf = malloc buf_size \<rparr>, Dec_Recv 0 buf_size))"

definition PacketProtoDecoder_Reset :: "PacketProtoDecoder \<Rightarrow> PacketProtoDecoder" where
  "PacketProtoDecoder_Reset enc =
     enc\<lparr>dec_buf_start := dec_buf_start enc + dec_buf_used enc, dec_buf_used := 0\<rparr>"

section \<open>The encoding\<close>

definition packet_encoding :: "byte list \<Rightarrow> byte list" where
  "packet_encoding p = bytes16 (htol16 (of_nat (length p))) @ p"

lemma length_packet_encoding [simp]: "length (packet_encoding p) = 2 + length p"
  by (simp add: packet_encoding_def)

lemma header_decodes:
  "n < 65536 \<Longrightarrow> unat (ltoh16 (mk16 (bytes16 (htol16 (of_nat n)) ! 0) (bytes16 (htol16 (of_nat n)) ! 1))) = n"
  by (simp add: bytes16_def unat_of_nat_u16)

lemma packet_encoding_inject:
  assumes "packet_encoding p @ x = packet_encoding q @ y" "length p < 65536" "length q < 65536"
  shows "p = q \<and> x = y"
proof -
  have h: "bytes16 (htol16 (of_nat (length p))) = bytes16 (htol16 (of_nat (length q)))"
    using arg_cong [OF assms(1), of "take 2"] by (simp add: packet_encoding_def)
  then have "length p = length q"
    using header_decodes [OF assms(2)] header_decodes [OF assms(3)] by metis
  with assms(1) show ?thesis by (simp add: packet_encoding_def)
qed

text \<open>
  The encoder turns a payload of \<open>n\<close> bytes received behind the header into the first
  \<open>n + 2\<close> bytes of the buffer: the length, low byte first, then the payload; the packet it hands on
  fits the MTU of its output.
\<close>

lemma PacketProtoEncoder_encodes:
  assumes "PacketProtoEncoder_Init mtu = Some enc" "length payload \<le> mtu" "length data = 2 + mtu"
  shows "do { (enc, _) \<leftarrow> enc_output_handler_recv data enc;
              enc_input_handler_done (length payload)
                (enc\<lparr>enc_output_packet := Some (write_at data 2 payload)\<rparr>) }
       = Some (enc, write_at data 0 (packet_encoding payload), Enc_Done (length (packet_encoding payload)))
     \<and> length (packet_encoding payload) \<le> enc_output_mtu enc"
proof -
  have "write_at (write_at data 2 payload) 0 (bytes16 h) = write_at data 0 (bytes16 h @ payload)" for h
    using assms(2,3) by (simp add: write_at_def min_absorb1 drop_take)
  with assms show ?thesis
    by (auto simp: PacketProtoEncoder_Init_def enc_output_handler_recv_def
        enc_input_handler_done_def packet_encoding_def PACKETPROTO_ENCLEN_def bind_Some)
qed

section \<open>The decoder on a stream\<close>

text \<open>
  A configuration: the decoder, the operation in progress on a neighbouring interface, the rest
  of the stream, the packets sent so far, and whether an error was reported. The environment
  completes the operation: it delivers any non-empty part of the stream that fits the region, or
  reports the packet as sent.
\<close>

type_synonym dec_config =
  "PacketProtoDecoder \<times> dec_act \<times> byte list \<times> byte list list \<times> bool"

definition note_sent :: "PacketProtoDecoder \<Rightarrow> dec_act \<Rightarrow> byte list list \<Rightarrow> byte list list" where
  "note_sent enc act sent = (case act of Dec_Send p n \<Rightarrow> sent @ [seg (dec_buf enc) p n] | Dec_Recv _ _ \<Rightarrow> sent)"

inductive dec_step :: "dec_config \<Rightarrow> dec_config \<Rightarrow> bool" where
  deliver: "0 < length chunk \<Longrightarrow> length chunk \<le> n \<Longrightarrow>
     dec_input_handler_done (length chunk) (enc\<lparr>dec_buf := write_at (dec_buf enc) p chunk\<rparr>)
       = Some (enc', act, e) \<Longrightarrow>
     dec_step (enc, Dec_Recv p n, chunk @ rest, sent, False)
       (enc', act, rest, note_sent enc' act sent, e)"
| sent: "dec_output_handler_done enc = (enc', act, e) \<Longrightarrow>
     dec_step (enc, Dec_Send p n, rest, sent, False) (enc', act, rest, note_sent enc' act sent, e)"

definition dec_initial :: "nat \<Rightarrow> (nat \<Rightarrow> byte list) \<Rightarrow> byte list \<Rightarrow> dec_config" where
  "dec_initial mtu malloc stream =
     (case PacketProtoDecoder_Init mtu malloc of (enc, act) \<Rightarrow> (enc, act, stream, [], False))"

definition dec_window :: "PacketProtoDecoder \<Rightarrow> byte list" where
  "dec_window enc = seg (dec_buf enc) (dec_buf_start enc) (dec_buf_used enc)"

definition dec_wf :: "PacketProtoDecoder \<Rightarrow> bool" where
  "dec_wf enc \<longleftrightarrow> dec_output_mtu enc \<le> 65535 \<and> dec_buf_size enc = 2 + dec_output_mtu enc
     \<and> length (dec_buf enc) = dec_buf_size enc
     \<and> dec_buf_start enc + dec_buf_used enc \<le> dec_buf_size enc"

definition header_len :: "byte list \<Rightarrow> nat" where
  "header_len w = unat (ltoh16 (mk16 (w ! 0) (w ! 1)))"

text \<open>What one call of \<open>process_data\<close> does, in terms of the unread bytes.\<close>

definition dec_outcome ::
  "PacketProtoDecoder \<Rightarrow> PacketProtoDecoder \<Rightarrow> dec_act \<Rightarrow> bool \<Rightarrow> bool" where
  "dec_outcome enc enc' act e \<longleftrightarrow> dec_wf enc' \<and> dec_output_mtu enc' = dec_output_mtu enc
     \<and> (case act of
          Dec_Recv p n \<Rightarrow> p = dec_buf_start enc' + dec_buf_used enc' \<and> p + n = dec_buf_size enc' \<and> 0 < n
            \<and> (if e then 2 \<le> length (dec_window enc) \<and> dec_output_mtu enc < header_len (dec_window enc)
                       \<and> dec_window enc' = []
               else dec_window enc' = dec_window enc \<and> (length (dec_window enc) < 2
                       \<or> length (dec_window enc) < 2 + header_len (dec_window enc)))
        | Dec_Send p n \<Rightarrow> \<not> e \<and> n \<le> dec_output_mtu enc
            \<and> dec_window enc = packet_encoding (seg (dec_buf enc') p n) @ dec_window enc')"

lemma window_header:
  assumes "dec_wf enc" "2 \<le> dec_buf_used enc"
  shows "dec_window enc ! 0 = dec_buf enc ! dec_buf_start enc"
    "dec_window enc ! 1 = dec_buf enc ! (dec_buf_start enc + 1)"
  using assms by (auto simp: dec_window_def seg_def dec_wf_def)

lemma length_window [simp]: "dec_wf enc \<Longrightarrow> length (dec_window enc) = dec_buf_used enc"
  by (auto simp: dec_window_def dec_wf_def)

lemma packet_encoding_split:
  assumes "2 + n \<le> length w" "n = header_len w"
  shows "w = packet_encoding (take n (drop 2 w)) @ drop (2 + n) w"
proof -
  obtain a b v where w: "w = a # b # v"
    using assms(1) by (cases w; cases "drop 1 w") auto
  then have "ltoh16 (mk16 a b) = of_nat n"
    using assms(2) by (simp add: header_len_def)
  then have "mk16 a b = of_nat n" by (simp add: ltoh16_def htol16_def)
  then have "bytes16 (htol16 (of_nat n)) = [a, b]"
    by (metis htol16_def bytes16_def lo16_mk16 hi16_mk16)
  moreover have "length (take n v) = n" using assms(1) w by simp
  ultimately show ?thesis by (simp add: w packet_encoding_def)
qed

lemma dec_wrap_around_wf:
  assumes "dec_wf enc" "dec_buf_used enc < dec_buf_size enc"
  shows "dec_wf (dec_wrap_around enc)" "dec_output_mtu (dec_wrap_around enc) = dec_output_mtu enc"
    "dec_window (dec_wrap_around enc) = dec_window enc"
    "dec_buf_start (dec_wrap_around enc) + dec_buf_used (dec_wrap_around enc)
       < dec_buf_size (dec_wrap_around enc)"
proof -
  have "length (seg (dec_buf enc) (dec_buf_start enc) (dec_buf_used enc)) = dec_buf_used enc"
    using assms by (auto simp: dec_wf_def)
  then have "seg (write_at (dec_buf enc) 0 (seg (dec_buf enc) (dec_buf_start enc) (dec_buf_used enc))) 0
      (dec_buf_used enc) = seg (dec_buf enc) (dec_buf_start enc) (dec_buf_used enc)"
    using assms seg_write_at_same [of 0 "seg (dec_buf enc) (dec_buf_start enc) (dec_buf_used enc)" "dec_buf enc"]
    by (simp add: dec_wf_def)
  then show "dec_wf (dec_wrap_around enc)" "dec_output_mtu (dec_wrap_around enc) = dec_output_mtu enc"
    "dec_window (dec_wrap_around enc) = dec_window enc"
    "dec_buf_start (dec_wrap_around enc) + dec_buf_used (dec_wrap_around enc)
       < dec_buf_size (dec_wrap_around enc)"
    using assms by (auto simp: dec_wf_def dec_window_def dec_wrap_around_def)
qed

lemma dec_process_data_outcome:
  assumes "dec_wf enc" "dec_process_data enc = (enc', act, e)"
  shows "dec_outcome enc enc' act e"
proof -
  let ?w = "dec_window enc" and ?n = "header_len (dec_window enc)"
  have n: "unat (ltoh16 (mk16 (dec_buf enc ! dec_buf_start enc) (dec_buf enc ! (dec_buf_start enc + 1)))) = ?n"
    if "2 \<le> dec_buf_used enc"
    using window_header [OF assms(1) that] by (simp add: header_len_def)
  have pd: "dec_process_data enc =
      (if dec_buf_used enc < 2 then dec_receive (dec_wrap_around enc) False
       else if ?n > dec_output_mtu enc
         then dec_receive (enc\<lparr>dec_buf_start := 0, dec_buf_used := 0\<rparr>) True
       else if dec_buf_used enc < 2 + ?n then dec_receive (dec_wrap_around enc) False
       else (enc\<lparr>dec_buf_start := dec_buf_start enc + (2 + ?n),
                 dec_buf_used := dec_buf_used enc - (2 + ?n)\<rparr>,
             Dec_Send (dec_buf_start enc + 2) ?n, False))"
    using n by (cases "dec_buf_used enc < 2") (auto simp: dec_process_data_def Let_def)
  consider (short) "dec_buf_used enc < 2 \<or> ?n \<le> dec_output_mtu enc \<and> dec_buf_used enc < 2 + ?n"
    | (large) "2 \<le> dec_buf_used enc" "dec_output_mtu enc < ?n"
    | (packet) "2 + ?n \<le> dec_buf_used enc" "?n \<le> dec_output_mtu enc"
    by linarith
  then show ?thesis
  proof cases
    case short
    then have used: "dec_buf_used enc < dec_buf_size enc"
      using assms(1) by (auto simp: dec_wf_def)
    have "dec_process_data enc = dec_receive (dec_wrap_around enc) False"
      using short by (auto simp: pd)
    with dec_wrap_around_wf [OF assms(1) used] short assms show ?thesis
      by (auto simp: dec_outcome_def dec_receive_def)
  next
    case large
    have "dec_process_data enc = dec_receive (enc\<lparr>dec_buf_start := 0, dec_buf_used := 0\<rparr>) True"
      using large by (simp add: pd)
    then show ?thesis
      using large assms by (auto simp: dec_outcome_def dec_receive_def dec_wf_def dec_window_def)
  next
    case packet
    have w: "?w = packet_encoding (take ?n (drop 2 ?w)) @ drop (2 + ?n) ?w"
      by (rule packet_encoding_split) (use packet assms(1) in simp_all)
    have t: "take ?n (drop 2 ?w) = seg (dec_buf enc) (dec_buf_start enc + 2) ?n"
      using packet(1) by (simp add: dec_window_def seg_def drop_take min_def add.commute)
    have d: "drop (2 + ?n) ?w
        = seg (dec_buf enc) (dec_buf_start enc + (2 + ?n)) (dec_buf_used enc - (2 + ?n))"
      by (simp add: dec_window_def seg_def drop_take add.commute)
    have "dec_process_data enc = (enc\<lparr>dec_buf_start := dec_buf_start enc + (2 + ?n),
        dec_buf_used := dec_buf_used enc - (2 + ?n)\<rparr>, Dec_Send (dec_buf_start enc + 2) ?n, False)"
      using packet by (simp add: pd)
    with assms(2) have eq: "enc' = enc\<lparr>dec_buf_start := dec_buf_start enc + (2 + ?n),
        dec_buf_used := dec_buf_used enc - (2 + ?n)\<rparr>" "act = Dec_Send (dec_buf_start enc + 2) ?n" "\<not> e"
      by simp_all
    moreover have "dec_wf enc'"
      using packet assms(1) by (auto simp: eq(1) dec_wf_def)
    moreover have "dec_window enc' = drop (2 + ?n) ?w"
      unfolding d eq(1) by (simp add: dec_window_def)
    ultimately show ?thesis
      using packet(2) w t by (simp add: dec_outcome_def)
  qed
qed

definition dec_inv :: "nat \<Rightarrow> byte list \<Rightarrow> dec_config \<Rightarrow> bool" where
  "dec_inv mtu stream = (\<lambda>(enc, act, rest, sent, e).
     dec_wf enc \<and> dec_output_mtu enc = mtu \<and> (\<forall>p \<in> set sent. length p \<le> mtu)
     \<and> (if e then \<exists>bad. stream = concat (map packet_encoding sent) @ bad @ rest
                    \<and> 2 \<le> length bad \<and> mtu < header_len bad
        else stream = concat (map packet_encoding sent) @ dec_window enc @ rest
          \<and> (case act of Dec_Recv p n \<Rightarrow> p = dec_buf_start enc + dec_buf_used enc
                \<and> p + n = dec_buf_size enc \<and> 0 < n
                \<and> (length (dec_window enc) < 2 \<or> length (dec_window enc) < 2 + header_len (dec_window enc))
              | Dec_Send p n \<Rightarrow> sent \<noteq> [] \<and> last sent = seg (dec_buf enc) p n)))"

lemma dec_outcome_inv:
  assumes "dec_outcome enc enc' act e" "dec_output_mtu enc = mtu"
    and "stream = concat (map packet_encoding sent) @ dec_window enc @ rest"
    and "\<forall>p \<in> set sent. length p \<le> mtu"
  shows "dec_inv mtu stream (enc', act, rest, note_sent enc' act sent, e)"
  using assms by (cases act) (auto simp: dec_outcome_def dec_inv_def note_sent_def)

lemma dec_deliver_window:
  assumes "dec_wf enc" "length chunk \<le> dec_buf_size enc - (dec_buf_start enc + dec_buf_used enc)"
  defines "enc1 \<equiv> enc\<lparr>dec_buf := write_at (dec_buf enc) (dec_buf_start enc + dec_buf_used enc) chunk,
                    dec_buf_used := dec_buf_used enc + length chunk\<rparr>"
  shows "dec_wf enc1" "dec_window enc1 = dec_window enc @ chunk" "dec_output_mtu enc1 = dec_output_mtu enc"
proof -
  have len: "dec_buf_start enc + dec_buf_used enc + length chunk \<le> length (dec_buf enc)"
    using assms(1,2) by (auto simp: dec_wf_def)
  then show "dec_wf enc1" "dec_output_mtu enc1 = dec_output_mtu enc"
    using assms(1) by (auto simp: dec_wf_def enc1_def)
  have "seg (write_at (dec_buf enc) (dec_buf_start enc + dec_buf_used enc) chunk) (dec_buf_start enc)
      (dec_buf_used enc) = dec_window enc"
    using len by (simp add: seg_write_at_before dec_window_def)
  then show "dec_window enc1 = dec_window enc @ chunk"
    using seg_write_at_same [OF len] seg_append_seg [symmetric, of
        "write_at (dec_buf enc) (dec_buf_start enc + dec_buf_used enc) chunk" "dec_buf_start enc"
        "dec_buf_used enc" "length chunk"]
    by (simp add: dec_window_def enc1_def)
qed

lemma dec_step_inv: "dec_step c c' \<Longrightarrow> dec_inv mtu stream c \<Longrightarrow> dec_inv mtu stream c'"
proof (induction rule: dec_step.induct)
  case (deliver chunk n enc p enc' act e rest sent)
  have wf: "dec_wf enc" and p: "p = dec_buf_start enc + dec_buf_used enc"
    "n = dec_buf_size enc - (dec_buf_start enc + dec_buf_used enc)"
    using deliver.prems by (auto simp: dec_inv_def)
  let ?enc = "enc\<lparr>dec_buf := write_at (dec_buf enc) (dec_buf_start enc + dec_buf_used enc) chunk,
                    dec_buf_used := dec_buf_used enc + length chunk\<rparr>"
  note w = dec_deliver_window [OF wf deliver.hyps(2) [unfolded p(2)]]
  have pd: "dec_process_data ?enc = (enc', act, e)"
    using deliver.hyps(3) by (simp add: dec_input_handler_done_def p(1))
  show ?case
    by (rule dec_outcome_inv [OF dec_process_data_outcome [OF w(1) pd]])
       (use deliver.prems w in \<open>auto simp: dec_inv_def\<close>)
next
  case (sent enc enc' act e p n rest ps)
  have wf: "dec_wf enc" and pd: "dec_process_data enc = (enc', act, e)"
    using sent by (simp_all add: dec_inv_def dec_output_handler_done_def)
  show ?case
    by (rule dec_outcome_inv [OF dec_process_data_outcome [OF wf pd]])
       (use sent.prems in \<open>auto simp: dec_inv_def\<close>)
qed

lemma dec_initial_inv:
  assumes "\<And>n. length (malloc n) = n"
  shows "dec_inv (min mtu 65535) stream (dec_initial mtu malloc stream)"
  using assms by (simp add: dec_initial_def PacketProtoDecoder_Init_def dec_inv_def dec_wf_def
      dec_window_def PACKETPROTO_MAXPAYLOAD_def PACKETPROTO_ENCLEN_def Let_def)

lemma dec_reach_inv:
  assumes "dec_step\<^sup>*\<^sup>* (dec_initial mtu malloc stream) c" "\<And>n. length (malloc n) = n"
  shows "dec_inv (min mtu 65535) stream c"
  using assms by (induction rule: rtranclp_induct) (auto simp: dec_initial_inv dec_step_inv)

text \<open>Unique decodability of the framed stream.\<close>

lemma encoded_prefix:
  assumes "concat (map packet_encoding sent) @ xs = concat (map packet_encoding ps)"
    and "\<forall>p \<in> set sent. length p < 65536" "\<forall>p \<in> set ps. length p < 65536"
  shows "\<exists>later. ps = sent @ later \<and> xs = concat (map packet_encoding later)"
  using assms
proof (induction sent arbitrary: ps)
  case Nil
  then show ?case by simp
next
  case (Cons s sent)
  obtain q qs where ps: "ps = q # qs"
    using Cons.prems(1) by (cases ps) (auto simp: packet_encoding_def bytes16_def)
  have "s = q \<and> concat (map packet_encoding sent) @ xs = concat (map packet_encoding qs)"
    by (rule packet_encoding_inject) (use Cons.prems ps in auto)
  with Cons.IH [of qs] Cons.prems ps show ?case by auto
qed

lemma header_len_encoding:
  "length p < 65536 \<Longrightarrow> header_len (packet_encoding p @ xs) = length p"
  using header_decodes [of "length p"] by (simp add: header_len_def packet_encoding_def nth_append)

lemma header_len_append: "2 \<le> length w \<Longrightarrow> header_len (w @ xs) = header_len w"
  by (auto simp: header_len_def nth_append)

lemma dec_reach_delivers:
  assumes "dec_step\<^sup>*\<^sup>* (dec_initial mtu malloc (concat (map packet_encoding ps)))
      (enc, act, rest, sent, e)"
    and "\<And>n. length (malloc n) = n"
    and fits: "\<forall>p \<in> set ps. length p \<le> min mtu 65535"
  shows "\<not> e \<and> (\<exists>later. ps = sent @ later)
     \<and> (\<forall>p n. act = Dec_Recv p n \<longrightarrow> 0 < n \<and> p + n = length (dec_buf enc) \<and> (rest = [] \<longrightarrow> sent = ps))"
proof -
  note inv = dec_reach_inv [OF assms(1,2)]
  have small: "\<forall>p \<in> set sent. length p < 65536" "\<forall>p \<in> set ps. length p < 65536"
    using inv fits by (auto simp: dec_inv_def)
  have ne: "\<not> e"
  proof
    assume e: e
    then obtain bad where bad: "concat (map packet_encoding ps) = concat (map packet_encoding sent) @ bad @ rest"
      "2 \<le> length bad" "min mtu 65535 < header_len bad"
      using inv by (auto simp: dec_inv_def)
    from encoded_prefix [OF bad(1) [symmetric] small] obtain later where
      "ps = sent @ later" "bad @ rest = concat (map packet_encoding later)"
      by blast
    moreover from this bad(2) obtain q qs where "later = q # qs"
      by (cases later) auto
    ultimately have "header_len bad = length q" "q \<in> set ps"
      using header_len_append [OF bad(2), of rest] header_len_encoding small(2) by auto
    with fits bad(3) show False by auto
  qed
  have stream: "concat (map packet_encoding sent) @ dec_window enc @ rest = concat (map packet_encoding ps)"
    using inv ne by (simp add: dec_inv_def)
  from encoded_prefix [OF stream small] obtain later where
    later: "ps = sent @ later" "dec_window enc @ rest = concat (map packet_encoding later)"
    by blast
  have "sent = ps" if "act = Dec_Recv p n" "rest = []" for p n
  proof (cases later)
    case (Cons q qs)
    then have "header_len (dec_window enc) = length q" "2 + length q \<le> length (dec_window enc)"
      using later that(2) small(2) header_len_encoding by auto
    then show ?thesis using inv ne that(1) by (auto simp: dec_inv_def)
  qed (use later in simp)
  with ne later inv show ?thesis by (auto simp: dec_inv_def dec_wf_def)
qed

text \<open>
  C6. However the stream is cut into pieces, a decoder fed with the encodings of packets that fit
  its output MTU never reports an error, sends a prefix of those packets, in order and unchanged, never
  waits with an empty receive region, and has sent all of them once the stream is used up and it is
  waiting for more.
\<close>

theorem PacketProto_roundtrip:
  assumes "dec_step\<^sup>*\<^sup>* (dec_initial mtu malloc (concat (map packet_encoding ps)))
      (enc, act, rest, sent, e)"
    and "\<And>n. length (malloc n) = n"
    and fits: "\<forall>p \<in> set ps. length p \<le> min mtu 65535"
  shows "\<not> e \<and> (\<exists>later. ps = sent @ later)
     \<and> (\<forall>p n. act = Dec_Recv p n \<longrightarrow> 0 < n \<and> p + n = length (dec_buf enc) \<and> (rest = [] \<longrightarrow> sent = ps))"
  using dec_reach_delivers [OF assms] .

definition example_decoder :: "byte list \<Rightarrow> nat \<Rightarrow> nat \<Rightarrow> PacketProtoDecoder" where
  "example_decoder buf start used = \<lparr> dec_output_mtu = 1, dec_buf_size = 3, dec_buf_start = start,
     dec_buf_used = used, dec_buf = buf \<rparr>"

lemma example_encoding: "packet_encoding [7] = [1, 0, 7]"
  by (simp add: packet_encoding_def bytes16_def lo16_def hi16_def htol16_def)

lemma example_run:
  "dec_step\<^sup>*\<^sup>* (dec_initial 1 (\<lambda>n. replicate n 0) (concat (map packet_encoding [[7]])))
     (example_decoder [1, 0, 7] 0 0, Dec_Recv 0 3, [], [[7]], False)"
proof -
  have h: "ltoh16 (mk16 1 0) = 1" by code_simp
  have 1: "dec_step (example_decoder [0, 0, 0] 0 0, Dec_Recv 0 3, [1, 0, 7], [], False)
      (example_decoder [1, 0, 0] 0 2, Dec_Recv 2 1, [7], [], False)"
    using dec_step.deliver [of "[1, 0]" 3 "example_decoder [0, 0, 0] 0 0" 0
        "example_decoder [1, 0, 0] 0 2" "Dec_Recv 2 1" False "[7]" "[]"]
    by (simp add: dec_input_handler_done_def dec_process_data_def dec_receive_def
        dec_wrap_around_def example_decoder_def note_sent_def write_at_def h)
  have 2: "dec_step (example_decoder [1, 0, 0] 0 2, Dec_Recv 2 1, [7], [], False)
      (example_decoder [1, 0, 7] 3 0, Dec_Send 2 1, [], [[7]], False)"
    using dec_step.deliver [of "[7]" 1 "example_decoder [1, 0, 0] 0 2" 2
        "example_decoder [1, 0, 7] 3 0" "Dec_Send 2 1" False "[]" "[]"]
    by (simp add: dec_input_handler_done_def dec_process_data_def dec_receive_def
        dec_wrap_around_def example_decoder_def note_sent_def write_at_def h seg_def)
  have 3: "dec_step (example_decoder [1, 0, 7] 3 0, Dec_Send 2 1, [], [[7]], False)
      (example_decoder [1, 0, 7] 0 0, Dec_Recv 0 3, [], [[7]], False)"
    using dec_step.sent [of "example_decoder [1, 0, 7] 3 0" "example_decoder [1, 0, 7] 0 0"
        "Dec_Recv 0 3" False 2 1 "[]" "[[7]]"]
    by (simp add: dec_output_handler_done_def dec_process_data_def dec_receive_def
        dec_wrap_around_def example_decoder_def note_sent_def write_at_def)
  have 0: "dec_initial 1 (\<lambda>n. replicate n 0) (concat (map packet_encoding [[7]]))
      = (example_decoder [0, 0, 0] 0 0, Dec_Recv 0 3, [1, 0, 7], [], False)"
    by (simp add: dec_initial_def PacketProtoDecoder_Init_def example_decoder_def example_encoding
        PACKETPROTO_MAXPAYLOAD_def PACKETPROTO_ENCLEN_def Let_def numeral_3_eq_3)
  from 1 2 3 show ?thesis
    unfolding 0 by (meson converse_rtranclp_into_rtranclp rtranclp.rtrancl_refl)
qed

theorem PacketProto_roundtrip_witness:
  "\<exists>enc act rest sent e. dec_step\<^sup>*\<^sup>* (dec_initial 1 (\<lambda>n. replicate n 0)
       (concat (map packet_encoding [[7]]))) (enc, act, rest, sent, e) \<and> sent = [[7]] \<and> \<not> e"
  using PacketProto_roundtrip [OF example_run] example_run by fastforce

fun dec_measure :: "dec_config \<Rightarrow> nat" where
  "dec_measure (enc, act, rest, sent, e) =
     3 * length rest + dec_buf_used enc + (case act of Dec_Send _ _ \<Rightarrow> 1 | Dec_Recv _ _ \<Rightarrow> 0)"

lemma dec_outcome_measure:
  assumes "dec_wf enc" "dec_outcome enc enc' act e"
  shows "dec_measure (enc', act, rest, sent, e) \<le> 3 * length rest + dec_buf_used enc"
proof (cases act)
  case (Dec_Send p n)
  then have "length (dec_window enc) = 2 + length (seg (dec_buf enc') p n) + length (dec_window enc')"
    using assms by (simp add: dec_outcome_def)
  then show ?thesis
    using Dec_Send assms by (simp add: dec_outcome_def)
next
  case (Dec_Recv p n)
  then have "length (dec_window enc') \<le> length (dec_window enc)"
    using assms by (cases e) (auto simp: dec_outcome_def)
  then show ?thesis
    using Dec_Recv assms by (simp add: dec_outcome_def)
qed

lemma dec_step_measure:
  "dec_step c c' \<Longrightarrow> dec_inv mtu stream c \<Longrightarrow> dec_measure c' < dec_measure c"
proof (induction rule: dec_step.induct)
  case (deliver chunk n enc p enc' act e rest sent)
  have wf: "dec_wf enc" and p: "p = dec_buf_start enc + dec_buf_used enc"
    "n = dec_buf_size enc - (dec_buf_start enc + dec_buf_used enc)"
    using deliver.prems by (auto simp: dec_inv_def)
  note w = dec_deliver_window [OF wf deliver.hyps(2) [unfolded p(2)]]
  have "dec_process_data (enc\<lparr>dec_buf := write_at (dec_buf enc) (dec_buf_start enc + dec_buf_used enc) chunk,
                    dec_buf_used := dec_buf_used enc + length chunk\<rparr>) = (enc', act, e)"
    using deliver.hyps(3) by (simp add: dec_input_handler_done_def p(1))
  from dec_outcome_measure [OF w(1) dec_process_data_outcome [OF w(1) this], of rest "note_sent enc' act sent"]
  have "dec_measure (enc', act, rest, note_sent enc' act sent, e)
      \<le> 3 * length rest + dec_buf_used enc + length chunk"
    by simp
  moreover define k where "k = length chunk"
  moreover have "0 < k" using deliver.hyps(1) by (simp add: k_def)
  ultimately show ?case by (simp del: length_greater_0_conv)
next
  case (sent enc enc' act e p n rest ps)
  have wf: "dec_wf enc" and pd: "dec_process_data enc = (enc', act, e)"
    using sent by (simp_all add: dec_inv_def dec_output_handler_done_def)
  from dec_outcome_measure [OF wf dec_process_data_outcome [OF wf pd], of rest "note_sent enc' act ps"]
  show ?case by simp
qed

lemma dec_not_stuck:
  assumes inv: "dec_inv mtu stream (enc, act, rest, sent, False)" and "rest \<noteq> [] \<or> (\<exists>p n. act = Dec_Send p n)"
  shows "\<exists>c'. dec_step (enc, act, rest, sent, False) c'"
proof (cases act)
  case (Dec_Send p n)
  obtain enc' act' e where "dec_output_handler_done enc = (enc', act', e)"
    by (metis surj_pair)
  then show ?thesis using dec_step.sent Dec_Send by blast
next
  case (Dec_Recv p n)
  with assms(2) obtain b bs where rest: "rest = [b] @ bs" by (cases rest) auto
  have "0 < n" "p = dec_buf_start enc + dec_buf_used enc"
    "n = dec_buf_size enc - (dec_buf_start enc + dec_buf_used enc)"
    using inv Dec_Recv by (auto simp: dec_inv_def)
  then obtain enc' act' e where
    "dec_input_handler_done (length [b]) (enc\<lparr>dec_buf := write_at (dec_buf enc) p [b]\<rparr>)
       = Some (enc', act', e)"
    by (auto simp: dec_input_handler_done_def) (metis surj_pair)
  from dec_step.deliver [OF _ _ this, of n bs sent] \<open>0 < n\<close>
  have "dec_step (enc, Dec_Recv p n, [b] @ bs, sent, False)
      (enc', act', bs, note_sent enc' act' sent, e)"
    by simp
  then show ?thesis unfolding Dec_Recv rest by (rule exI)
qed

lemma dec_steps_measure:
  "(dec_step ^^ k) c c' \<Longrightarrow> dec_inv mtu stream c \<Longrightarrow> k + dec_measure c' \<le> dec_measure c \<and> dec_inv mtu stream c'"
proof (induction k arbitrary: c')
  case (Suc k)
  then obtain c1 where "(dec_step ^^ k) c c1" "dec_step c1 c'" by auto
  with Suc.IH [OF this(1) Suc.prems(2)] show ?case
    using dec_step_measure [of c1 c'] dec_step_inv [of c1 c'] by fastforce
qed simp

lemma dec_reach_measure:
  assumes "dec_step\<^sup>*\<^sup>* c c'" "dec_inv mtu stream c"
  shows "dec_measure c' \<le> dec_measure c"
  using assms dec_steps_measure by (metis rtranclp_imp_relpowp add_leD2)

abbreviation decoded :: "byte list list \<Rightarrow> dec_config \<Rightarrow> bool" where
  "decoded ps c \<equiv> (\<exists>enc p n. c = (enc, Dec_Recv p n, [], ps, False))"

lemma dec_reach_end:
  assumes r: "dec_step\<^sup>*\<^sup>* (dec_initial mtu malloc (concat (map packet_encoding ps))) c"
    and m: "\<And>n. length (malloc n) = n" and fits: "\<forall>p \<in> set ps. length p \<le> min mtu 65535"
  shows "decoded ps c \<or> (\<exists>c'. dec_step c c')"
proof -
  obtain enc act rest sent e where c: "c = (enc, act, rest, sent, e)" by (metis prod_cases5)
  note d = dec_reach_delivers [OF r [unfolded c] m fits] and inv = dec_reach_inv [OF r [unfolded c] m]
  show ?thesis
  proof (cases "rest \<noteq> [] \<or> (\<exists>p n. act = Dec_Send p n)")
    case True
    have "dec_inv (min mtu 65535) (concat (map packet_encoding ps)) (enc, act, rest, sent, False)"
      using inv d by simp
    from dec_not_stuck [OF this True] show ?thesis using d unfolding c by simp
  next
    case False
    then obtain p n where "act = Dec_Recv p n" by (cases act) auto
    then show ?thesis using d False unfolding c by auto
  qed
qed

lemma dec_reach_decoded:
  assumes "dec_step\<^sup>*\<^sup>* (dec_initial mtu malloc (concat (map packet_encoding ps))) c"
    and m: "\<And>n. length (malloc n) = n" and fits: "\<forall>p \<in> set ps. length p \<le> min mtu 65535"
  shows "\<exists>c'. dec_step\<^sup>*\<^sup>* c c' \<and> decoded ps c'"
  using assms(1)
proof (induction "dec_measure c" arbitrary: c rule: less_induct)
  case less
  show ?case
  proof (cases "decoded ps c")
    case False
    then obtain c1 where c1: "dec_step c c1" using dec_reach_end [OF less.prems m fits] by blast
    have r1: "dec_step\<^sup>*\<^sup>* (dec_initial mtu malloc (concat (map packet_encoding ps))) c1"
      by (rule rtranclp.rtrancl_into_rtrancl [OF less.prems c1])
    have "dec_measure c1 < dec_measure c" by (rule dec_step_measure [OF c1 dec_reach_inv [OF less.prems m]])
    then obtain c' where "dec_step\<^sup>*\<^sup>* c1 c'" "decoded ps c'" using less.hyps [OF _ r1] by blast
    then show ?thesis using converse_rtranclp_into_rtranclp [of dec_step, OF c1] by blast
  next
    case True
    then show ?thesis by (intro exI [of _ c] conjI rtranclp.rtrancl_refl)
  qed
qed

text \<open>
  C7. The decoder never gets stuck and delivers everything. From every state it reaches while it is fed with the
  encodings of packets that fit its output MTU it can go on to one in which all of them have been
  sent, without an error, and it waits for more; it stops nowhere else; and however the stream is cut, at
  most three completions per byte of the stream are possible, so every run gets there.
\<close>

theorem PacketProto_progress:
  assumes "dec_step\<^sup>*\<^sup>* (dec_initial mtu malloc (concat (map packet_encoding ps))) c"
    and "\<And>n. length (malloc n) = n"
    and "\<forall>p \<in> set ps. length p \<le> min mtu 65535"
  shows "(\<exists>enc p n. dec_step\<^sup>*\<^sup>* c (enc, Dec_Recv p n, [], ps, False))
     \<and> ((\<nexists>c'. dec_step c c') \<longrightarrow> (\<exists>enc p n. c = (enc, Dec_Recv p n, [], ps, False)))
     \<and> (\<forall>k c'. (dec_step ^^ k) c c' \<longrightarrow> k \<le> 3 * length (concat (map packet_encoding ps)))"
proof (intro conjI allI impI)
  let ?i = "dec_initial mtu malloc (concat (map packet_encoding ps))"
  have i: "dec_measure ?i = 3 * length (concat (map packet_encoding ps))"
    by (simp add: dec_initial_def PacketProtoDecoder_Init_def Let_def)
  have c: "dec_measure c \<le> dec_measure ?i"
    by (rule dec_reach_measure [OF assms(1) dec_initial_inv [OF assms(2)]])
  show "\<exists>enc p n. dec_step\<^sup>*\<^sup>* c (enc, Dec_Recv p n, [], ps, False)"
    using dec_reach_decoded [OF assms] by blast
  show "\<exists>enc p n. c = (enc, Dec_Recv p n, [], ps, False)" if "\<nexists>c'. dec_step c c'"
    using dec_reach_end [OF assms] that by blast
  show "k \<le> 3 * length (concat (map packet_encoding ps))" if "(dec_step ^^ k) c c'" for k c'
    using dec_steps_measure [OF that dec_reach_inv [OF assms(1,2)]] c unfolding i by linarith
qed

theorem PacketProto_progress_witness:
  "\<exists>enc p n. dec_step\<^sup>*\<^sup>* (dec_initial 1 (\<lambda>n. replicate n 0) (concat (map packet_encoding [[7], [], [8]])))
     (enc, Dec_Recv p n, [], [[7], [], [8]], False)"
  by (rule PacketProto_progress [OF rtranclp.rtrancl_refl, THEN conjunct1]) simp_all

text \<open>
  An error is reported only for a header that announces more than the output MTU; the
  decoder is then reset to the empty buffer and receives into the whole of it.
\<close>

lemma PacketProto_error:
  assumes "dec_wf enc" "dec_process_data enc = (enc', act, e)"
  shows "e \<longleftrightarrow> 2 \<le> dec_buf_used enc \<and> dec_output_mtu enc < header_len (dec_window enc)
    \<and> enc' = enc\<lparr>dec_buf_start := 0, dec_buf_used := 0\<rparr> \<and> act = Dec_Recv 0 (dec_buf_size enc)"
proof -
  have n: "unat (ltoh16 (mk16 (dec_buf enc ! dec_buf_start enc) (dec_buf enc ! (dec_buf_start enc + 1))))
      = header_len (dec_window enc)" if "2 \<le> dec_buf_used enc"
    using window_header [OF assms(1) that] by (simp add: header_len_def)
  show ?thesis
    using assms(2) n by (auto simp: dec_process_data_def dec_receive_def Let_def split: if_splits)
qed

end
