(* ===== verification/UdpGwClient.thy ===== *)
theory UdpGwClient
  imports BAddr PacketBuffer PacketProto
begin

text \<open>
  The client side of the UDP gateway protocol (\<open>udpgw_client/UdpGwClient.c\<close>) with the protocol's
  structs (\<open>protocol/udpgw_proto.h\<close>) and the overflow-checked sizes of \<open>misc/bsize.h\<close>.

  A connection is a heap object: \<open>ug_cons\<close> maps the address of each allocated
  \<open>UdpGwClient_connection\<close> to its fields. The two trees map a key to the node's object;
  \<open>BAVL_Insert\<close> under \<open>ASSERT_EXECUTE\<close> fails on a key that is present, \<open>BAVL_Remove\<close> on a node that
  is not in the tree under its key. The list is the sequence of its objects, least recently used
  first. Outcomes of \<open>malloc\<close> and of \<open>PacketProtoFlow_Init\<close> are arguments; calls on the
  neighbours are results.
\<close>

section \<open>Overflow-checked sizes\<close>

record bsize_t =
  is_overflow :: bool
  bs_value :: "64 word"

definition SIZE_MAX :: "64 word" where "SIZE_MAX = 0xFFFFFFFFFFFFFFFF"

definition bsize_fromsize :: "64 word \<Rightarrow> bsize_t" where
  "bsize_fromsize v = \<lparr>is_overflow = False, bs_value = v\<rparr>"

definition bsize_fromint :: "int \<Rightarrow> bsize_t" where
  "bsize_fromint v = \<lparr>is_overflow = (v < 0 \<or> v > uint SIZE_MAX), bs_value = of_int v\<rparr>"

definition bsize_toint :: "bsize_t \<Rightarrow> int option" where
  "bsize_toint s = (if is_overflow s \<or> uint (bs_value s) > INT_MAX then None else Some (uint (bs_value s)))"

definition bsize_tosize :: "bsize_t \<Rightarrow> 64 word option" where
  "bsize_tosize s = (if is_overflow s then None else Some (bs_value s))"

definition bsize_add :: "bsize_t \<Rightarrow> bsize_t \<Rightarrow> bsize_t" where
  "bsize_add s1 s2 =
     \<lparr>is_overflow = (is_overflow s1 \<or> is_overflow s2 \<or> bs_value s2 > SIZE_MAX - bs_value s1),
      bs_value = bs_value s1 + bs_value s2\<rparr>"

definition bsize_max :: "bsize_t \<Rightarrow> bsize_t \<Rightarrow> bsize_t" where
  "bsize_max s1 s2 =
     \<lparr>is_overflow = (is_overflow s1 \<or> is_overflow s2),
      bs_value = of_bool (bs_value s1 > bs_value s2) * bs_value s1
        + of_bool (bs_value s1 \<le> bs_value s2) * bs_value s2\<rparr>"

definition bsize_mul :: "bsize_t \<Rightarrow> bsize_t \<Rightarrow> bsize_t" where
  "bsize_mul s1 s2 =
     \<lparr>is_overflow = (is_overflow s1 \<or> is_overflow s2
        \<or> (bs_value s1 \<noteq> 0 \<and> bs_value s2 > SIZE_MAX div bs_value s1)),
      bs_value = bs_value s1 * bs_value s2\<rparr>"

section \<open>The protocol\<close>

definition UDPGW_CLIENT_FLAG_KEEPALIVE :: byte where "UDPGW_CLIENT_FLAG_KEEPALIVE = 1"
definition UDPGW_CLIENT_FLAG_REBIND :: byte where "UDPGW_CLIENT_FLAG_REBIND = 2"
definition UDPGW_CLIENT_FLAG_DNS :: byte where "UDPGW_CLIENT_FLAG_DNS = 4"
definition UDPGW_CLIENT_FLAG_IPV6 :: byte where "UDPGW_CLIENT_FLAG_IPV6 = 8"

text \<open>The memory images of the packed structs.\<close>

definition udpgw_header :: "byte \<Rightarrow> u16 \<Rightarrow> byte list" where
  "udpgw_header flags conid = flags # bytes16 conid"

definition udpgw_addr_ipv4 :: "u32 \<Rightarrow> u16 \<Rightarrow> byte list" where
  "udpgw_addr_ipv4 addr_ip addr_port = bytes32 addr_ip @ bytes16 addr_port"

definition udpgw_addr_ipv6 :: "byte list \<Rightarrow> u16 \<Rightarrow> byte list" where
  "udpgw_addr_ipv6 addr_ip addr_port = take 16 addr_ip @ bytes16 addr_port"

text \<open>
  The header size is that of \<open>struct socks_udp_header\<close> (4) in the Android build, of
  \<open>struct udpgw_header\<close> (3) elsewhere.
\<close>

definition udpgw_compute_mtu :: "bool \<Rightarrow> int \<Rightarrow> int" where
  "udpgw_compute_mtu android dgram_mtu =
     (let bs = bsize_add (if android then bsize_fromsize 4 else bsize_fromsize 3)
                 (bsize_add (bsize_max (bsize_fromsize 6) (bsize_fromsize 18))
                   (bsize_fromint dgram_mtu))
      in case bsize_toint bs of None \<Rightarrow> - 1 | Some s \<Rightarrow> s)"

section \<open>State\<close>

record UdpGwClient_conaddr =
  local_addr :: baddr
  remote_addr :: baddr

record UdpGwClient_connection =
  conaddr :: UdpGwClient_conaddr
  first_flags :: byte
  first_data :: "byte list"
  conid :: u16
  first_job :: bool
  send_if :: BufferWriter

record UdpGwClient =
  ug_udp_mtu :: nat
  ug_max_connections :: nat
  ug_send_buffer_size :: nat
  ug_udpgw_mtu :: nat
  ug_pp_mtu :: nat
  ug_tree_by_conaddr :: "UdpGwClient_conaddr \<rightharpoonup> nat"
  ug_tree_by_conid :: "u16 \<rightharpoonup> nat"
  ug_list :: "nat list"
  ug_num_connections :: nat
  ug_next_conid :: nat
  ug_keepalive_packet :: "byte list"
  ug_keepalive_sending :: bool
  ug_have_server :: bool
  ug_cons :: "nat \<rightharpoonup> UdpGwClient_connection"

datatype ug_act =
    Ug_Recv_Done
  | Ug_Packet nat "byte list"
  | Ug_Received baddr baddr "byte list"
  | Ug_ServerError
  | Ug_Keepalive_Send "byte list"
  | Ug_Connect_Output
  | Ug_Disconnect_Output

definition con_set :: "nat \<Rightarrow> UdpGwClient_connection \<Rightarrow> UdpGwClient \<Rightarrow> UdpGwClient" where
  "con_set p con o' = o'\<lparr>ug_cons := (ug_cons o')(p \<mapsto> con)\<rparr>"

text \<open>The order of the trees.\<close>

definition uint16_comparator :: "u16 \<Rightarrow> u16 \<Rightarrow> int" where
  "uint16_comparator v1 v2 = B_COMPARE (unat v1) (unat v2)"

definition conaddr_comparator :: "UdpGwClient_conaddr \<Rightarrow> UdpGwClient_conaddr \<Rightarrow> int" where
  "conaddr_comparator v1 v2 =
     (let r = BAddr_CompareOrder (remote_addr v1) (remote_addr v2) in
      if r \<noteq> 0 then r else BAddr_CompareOrder (local_addr v1) (local_addr v2))"

definition tree_insert :: "'k \<Rightarrow> nat \<Rightarrow> ('k \<rightharpoonup> nat) \<Rightarrow> ('k \<rightharpoonup> nat) option" where
  "tree_insert k p t = do { assert_that (t k = None); Some (t(k \<mapsto> p)) }"

definition tree_remove :: "'k \<Rightarrow> nat \<Rightarrow> ('k \<rightharpoonup> nat) \<Rightarrow> ('k \<rightharpoonup> nat) option" where
  "tree_remove k p t = do { assert_that (t k = Some p); Some (t(k := None)) }"

definition find_connection_by_conaddr :: "UdpGwClient \<Rightarrow> UdpGwClient_conaddr \<Rightarrow> nat option" where
  "find_connection_by_conaddr o' a = ug_tree_by_conaddr o' a"

definition find_connection_by_conid :: "UdpGwClient \<Rightarrow> u16 \<Rightarrow> nat option" where
  "find_connection_by_conid o' i = ug_tree_by_conid o' i"

section \<open>Connections\<close>

text \<open>The loop of \<open>find_unused_conid\<close>: whether it ends is a theorem.\<close>

partial_function (option) find_unused_conid_loop :: "UdpGwClient \<Rightarrow> (UdpGwClient \<times> u16) option" where
  "find_unused_conid_loop o' =
     (if find_connection_by_conid o' (of_nat (ug_next_conid o')) = None
      then Some (o', of_nat (ug_next_conid o'))
      else if int (ug_next_conid o') = int (ug_max_connections o') - 1
           then find_unused_conid_loop (o'\<lparr>ug_next_conid := 0\<rparr>)
           else find_unused_conid_loop (o'\<lparr>ug_next_conid := ug_next_conid o' + 1\<rparr>))"

declare find_unused_conid_loop.simps [code]

definition find_unused_conid :: "UdpGwClient \<Rightarrow> (UdpGwClient \<times> u16) option" where
  "find_unused_conid o' = do {
     assert_that (ug_num_connections o' < ug_max_connections o');
     find_unused_conid_loop o'
   }"

text \<open>
  \<open>mem\<close> is the result of \<open>malloc\<close>, \<open>ppf_ok\<close> that of \<open>PacketProtoFlow_Init\<close>. On the failure of the
  latter the object is freed again; \<open>next_conid\<close> stays advanced.
\<close>

definition connection_init ::
  "nat option \<Rightarrow> bool \<Rightarrow> UdpGwClient_conaddr \<Rightarrow> byte \<Rightarrow> byte list \<Rightarrow> UdpGwClient
    \<Rightarrow> UdpGwClient option" where
  "connection_init mem ppf_ok a flags data o' = do {
     assert_that (ug_num_connections o' < ug_max_connections o');
     assert_that (find_connection_by_conaddr o' a = None);
     assert_that (length data \<le> ug_udp_mtu o');
     case mem of None \<Rightarrow> Some o'
     | Some p \<Rightarrow> do {
         (o', i) \<leftarrow> find_unused_conid o';
         if \<not> ppf_ok then Some o'
         else do {
           let con = \<lparr>conaddr = a, first_flags = flags, first_data = data, conid = i,
                      first_job = True, send_if = BufferWriter_Init (ug_udpgw_mtu o')\<rparr>;
           ta \<leftarrow> tree_insert a p (ug_tree_by_conaddr o');
           ti \<leftarrow> tree_insert i p (ug_tree_by_conid o');
           Some (con_set p con (o'\<lparr>ug_tree_by_conaddr := ta, ug_tree_by_conid := ti,
                   ug_list := ug_list o' @ [p],
                   ug_num_connections := ug_num_connections o' + 1\<rparr>))
         }
       }
   }"

definition connection_free :: "nat \<Rightarrow> UdpGwClient \<Rightarrow> UdpGwClient option" where
  "connection_free p o' = do {
     con \<leftarrow> ug_cons o' p;
     assert_that (p \<in> set (ug_list o'));
     ti \<leftarrow> tree_remove (conid con) p (ug_tree_by_conid o');
     ta \<leftarrow> tree_remove (conaddr con) p (ug_tree_by_conaddr o');
     Some (o'\<lparr>ug_num_connections := ug_num_connections o' - 1,
              ug_list := remove1 p (ug_list o'),
              ug_tree_by_conid := ti, ug_tree_by_conaddr := ta,
              ug_cons := (ug_cons o')(p := None)\<rparr>)
   }"

text \<open>\<open>memcpy(out + pos, src, len)\<close> into the packet's buffer.\<close>

definition memcpy_out :: "nat \<Rightarrow> byte list \<Rightarrow> byte list \<Rightarrow> byte list option" where
  "memcpy_out pos src out = do {
     assert_that (pos + length src \<le> length out);
     Some (write_at out pos src)
   }"

definition put_header :: "byte \<Rightarrow> u16 \<Rightarrow> byte list \<times> nat \<Rightarrow> (byte list \<times> nat) option" where
  "put_header flags i = (\<lambda>(out, out_pos). do {
     out \<leftarrow> memcpy_out out_pos (udpgw_header flags (htol16 i)) out;
     Some (out, out_pos + 3)
   })"

fun put_addr :: "baddr \<Rightarrow> byte list \<times> nat \<Rightarrow> (byte list \<times> nat) option" where
  "put_addr (BADDR_IPV4 ip port) (out, out_pos) = do {
     out \<leftarrow> memcpy_out out_pos (udpgw_addr_ipv4 ip port) out;
     Some (out, out_pos + 6)
   }"
| "put_addr (BADDR_IPV6 ip port) (out, out_pos) = do {
     out \<leftarrow> memcpy_out out_pos (udpgw_addr_ipv6 ip port) out;
     Some (out, out_pos + 18)
   }"
| "put_addr BADDR_NONE (out, out_pos) = Some (out, out_pos)"

definition connection_send ::
  "nat \<Rightarrow> byte \<Rightarrow> byte list \<Rightarrow> UdpGwClient \<Rightarrow> (UdpGwClient \<times> ug_act list) option" where
  "connection_send p flags data o' = do {
     con \<leftarrow> ug_cons o' p;
     assert_that (length data \<le> ug_udp_mtu o');
     (w, out) \<leftarrow> BufferWriter_StartPacket (send_if con);
     case out of None \<Rightarrow> Some (con_set p (con\<lparr>send_if := w\<rparr>) o', [])
     | Some out \<Rightarrow> do {
         let remote = remote_addr (conaddr con);
         let flags = (if baddr_type remote = 2 then flags OR UDPGW_CLIENT_FLAG_IPV6 else flags);
         (out, out_pos) \<leftarrow> put_header flags (conid con) (out, 0);
         (out, out_pos) \<leftarrow> put_addr remote (out, out_pos);
         out \<leftarrow> memcpy_out out_pos data out;
         (w, len) \<leftarrow> BufferWriter_EndPacket (out_pos + length data) w;
         Some (con_set p (con\<lparr>send_if := w\<rparr>) o', [Ug_Packet p (take len out)])
       }
   }"

definition connection_first_job_handler ::
  "nat \<Rightarrow> UdpGwClient \<Rightarrow> (UdpGwClient \<times> ug_act list) option" where
  "connection_first_job_handler p o' = do {
     con \<leftarrow> ug_cons o' p;
     connection_send p (UDPGW_CLIENT_FLAG_REBIND OR first_flags con) (first_data con) o'
   }"

definition reuse_connection :: "UdpGwClient_conaddr \<Rightarrow> UdpGwClient \<Rightarrow> (UdpGwClient \<times> nat) option" where
  "reuse_connection a o' = do {
     assert_that (find_connection_by_conaddr o' a = None);
     assert_that (ug_num_connections o' > 0);
     assert_that (ug_list o' \<noteq> []);
     let p = hd (ug_list o');
     con \<leftarrow> ug_cons o' p;
     ta \<leftarrow> tree_remove (conaddr con) p (ug_tree_by_conaddr o');
     ta \<leftarrow> tree_insert a p ta;
     Some (con_set p (con\<lparr>conaddr := a\<rparr>) (o'\<lparr>ug_tree_by_conaddr := ta\<rparr>), p)
   }"

text \<open>\<open>LinkedList1_Remove\<close>, then \<open>LinkedList1_Append\<close>.\<close>

definition move_to_end :: "nat \<Rightarrow> UdpGwClient \<Rightarrow> UdpGwClient option" where
  "move_to_end p o' = do {
     assert_that (p \<in> set (ug_list o'));
     Some (o'\<lparr>ug_list := remove1 p (ug_list o') @ [p]\<rparr>)
   }"

section \<open>Interface\<close>

definition UINT16_MAX :: nat where "UINT16_MAX = 65535"

definition UdpGwClient_Init :: "bool \<Rightarrow> nat \<Rightarrow> nat \<Rightarrow> nat \<Rightarrow> UdpGwClient option" where
  "UdpGwClient_Init android udp_mtu max_connections send_buffer_size = do {
     assert_that (udpgw_compute_mtu android (int udp_mtu) \<ge> 0);
     assert_that (udpgw_compute_mtu android (int udp_mtu) \<le> int PACKETPROTO_MAXPAYLOAD);
     assert_that (max_connections > 0);
     assert_that (send_buffer_size > 0);
     let udpgw_mtu = nat (udpgw_compute_mtu android (int udp_mtu));
     Some \<lparr>ug_udp_mtu = udp_mtu,
           ug_max_connections =
             (if max_connections > UINT16_MAX + 1 then UINT16_MAX + 1 else max_connections),
           ug_send_buffer_size = send_buffer_size,
           ug_udpgw_mtu = udpgw_mtu, ug_pp_mtu = udpgw_mtu + 2,
           ug_tree_by_conaddr = Map.empty, ug_tree_by_conid = Map.empty, ug_list = [],
           ug_num_connections = 0, ug_next_conid = 0,
           ug_keepalive_packet = bytes16 (of_nat 3) @ udpgw_header UDPGW_CLIENT_FLAG_KEEPALIVE 0,
           ug_keepalive_sending = False, ug_have_server = False, ug_cons = Map.empty\<rparr>
   }"

definition free_server :: "ug_act list" where
  "free_server = [Ug_Disconnect_Output]"

text \<open>The loop \<open>while (!LinkedList1_IsEmpty(list)) connection_free(first)\<close>, \<open>n\<close> rounds at most.\<close>

fun free_connections :: "nat \<Rightarrow> UdpGwClient \<Rightarrow> UdpGwClient option" where
  "free_connections n o' =
     (case ug_list o' of [] \<Rightarrow> Some o'
      | p # _ \<Rightarrow> (case n of 0 \<Rightarrow> None
                  | Suc m \<Rightarrow> connection_free p o' \<bind> free_connections m))"

definition UdpGwClient_Free :: "UdpGwClient \<Rightarrow> (UdpGwClient \<times> ug_act list) option" where
  "UdpGwClient_Free o' = do {
     o' \<leftarrow> free_connections (length (ug_list o')) o';
     Some (o', if ug_have_server o' then free_server else [])
   }"

definition UdpGwClient_SubmitPacket ::
  "nat option \<Rightarrow> bool \<Rightarrow> baddr \<Rightarrow> baddr \<Rightarrow> bool \<Rightarrow> byte list \<Rightarrow> UdpGwClient
    \<Rightarrow> (UdpGwClient \<times> ug_act list) option" where
  "UdpGwClient_SubmitPacket mem ppf_ok local remote is_dns data o' = do {
     assert_that (is_ip_baddr local);
     assert_that (is_ip_baddr remote);
     assert_that (length data \<le> ug_udp_mtu o');
     let a = \<lparr>local_addr = local, remote_addr = remote\<rparr>;
     let con = find_connection_by_conaddr o' a;
     let flags = (if is_dns then 0 OR UDPGW_CLIENT_FLAG_DNS else 0);
     (o', con, flags) \<leftarrow>
       (if con = None \<and> ug_num_connections o' = ug_max_connections o'
        then do { (o', p) \<leftarrow> reuse_connection a o'; Some (o', Some p, flags OR UDPGW_CLIENT_FLAG_REBIND) }
        else Some (o', con, flags));
     case con of
       None \<Rightarrow> do { o' \<leftarrow> connection_init mem ppf_ok a flags data o'; Some (o', []) }
     | Some p \<Rightarrow> do { o' \<leftarrow> move_to_end p o'; connection_send p flags data o' }
   }"

text \<open>\<open>dec_ok\<close> is the result of \<open>PacketProtoDecoder_Init\<close>.\<close>

definition UdpGwClient_ConnectServer ::
  "bool \<Rightarrow> UdpGwClient \<Rightarrow> (UdpGwClient \<times> ug_act list \<times> bool) option" where
  "UdpGwClient_ConnectServer dec_ok o' = do {
     assert_that (\<not> ug_have_server o');
     if \<not> dec_ok then Some (o', [], False)
     else Some (o'\<lparr>ug_have_server := True\<rparr>, [Ug_Connect_Output], True)
   }"

definition UdpGwClient_DisconnectServer :: "UdpGwClient \<Rightarrow> (UdpGwClient \<times> ug_act list) option" where
  "UdpGwClient_DisconnectServer o' = do {
     assert_that (ug_have_server o');
     Some (o'\<lparr>ug_have_server := False\<rparr>, free_server)
   }"

section \<open>Handlers\<close>

definition decoder_handler_error :: "UdpGwClient \<Rightarrow> ug_act list option" where
  "decoder_handler_error o' = do {
     assert_that (ug_have_server o');
     Some [Ug_ServerError]
   }"

text \<open>The header and the address of a packet from the server; \<open>None\<close> where one is missing.\<close>

definition take_header :: "byte list \<Rightarrow> (byte \<times> u16 \<times> byte list) option" where
  "take_header data =
     (if length data < 3 then None
      else Some (data ! 0, ltoh16 (mk16 (data ! 1) (data ! 2)), drop 3 data))"

definition take_addr :: "bool \<Rightarrow> byte list \<Rightarrow> (baddr \<times> byte list) option" where
  "take_addr ipv6 data =
     (if ipv6 then
        (if length data < 18 then None
         else Some (BADDR_IPV6 (take 16 data) (mk16 (data ! 16) (data ! 17)), drop 18 data))
      else
        (if length data < 6 then None
         else Some (BADDR_IPV4 (mk32 (data ! 0) (data ! 1) (data ! 2) (data ! 3))
                      (mk16 (data ! 4) (data ! 5)), drop 6 data)))"

definition recv_interface_handler_send ::
  "byte list \<Rightarrow> UdpGwClient \<Rightarrow> (UdpGwClient \<times> ug_act list) option" where
  "recv_interface_handler_send data o' = do {
     assert_that (ug_have_server o');
     assert_that (length data \<le> ug_udpgw_mtu o');
     case take_header data of
       None \<Rightarrow> Some (o', [Ug_Recv_Done])
     | Some (flags, i, data) \<Rightarrow>
     (case take_addr (flags AND UDPGW_CLIENT_FLAG_IPV6 \<noteq> 0) data of
       None \<Rightarrow> Some (o', [Ug_Recv_Done])
     | Some (remote, data) \<Rightarrow>
     (if length data > ug_udp_mtu o' then Some (o', [Ug_Recv_Done])
      else case find_connection_by_conid o' i of
       None \<Rightarrow> Some (o', [Ug_Recv_Done])
     | Some p \<Rightarrow> do {
         con \<leftarrow> ug_cons o' p;
         if BAddr_CompareOrder (remote_addr (conaddr con)) remote \<noteq> 0 then Some (o', [Ug_Recv_Done])
         else do {
           o' \<leftarrow> move_to_end p o';
           Some (o', [Ug_Recv_Done,
                      Ug_Received (local_addr (conaddr con)) (remote_addr (conaddr con)) data])
         }
       }))
   }"

definition send_monitor_handler :: "UdpGwClient \<Rightarrow> UdpGwClient \<times> ug_act list" where
  "send_monitor_handler o' =
     (if ug_keepalive_sending o' then (o', [])
      else (o'\<lparr>ug_keepalive_sending := True\<rparr>, [Ug_Keepalive_Send (ug_keepalive_packet o')]))"

definition keepalive_if_handler_done :: "UdpGwClient \<Rightarrow> UdpGwClient option" where
  "keepalive_if_handler_done o' = do {
     assert_that (ug_keepalive_sending o');
     Some (o'\<lparr>ug_keepalive_sending := False\<rparr>)
   }"

end
