(* ===== verification/UdpGwClientInv.thy ===== *)
theory UdpGwClientInv
  imports UdpGwClient
begin

text \<open>
  The invariant of the gateway client: the two trees index exactly the allocated connections, the
  list holds each once, the counter is its length, ids stay below the limit, and every writer has
  room for the largest packet. Each operation keeps it and does not fail from it.
\<close>

section \<open>Sizes\<close>

lemma size_constants:
  "SIZE_MAX - 18 = 18446744073709551597" "SIZE_MAX - 3 = 18446744073709551612"
  "SIZE_MAX - 4 = 18446744073709551611" "uint SIZE_MAX = 18446744073709551615"
  "uint (18446744073709551597 :: 64 word) = 18446744073709551597"
  "uint (18446744073709551612 :: 64 word) = 18446744073709551612"
  "uint (18446744073709551611 :: 64 word) = 18446744073709551611"
  "uint (3 :: 64 word) = 3" "uint (4 :: 64 word) = 4" "uint (18 :: 64 word) = 18"
  by code_simp+

lemma bsize_compute:
  assumes "0 \<le> m" "m \<le> INT_MAX" "uint h = hn" "hn \<le> 4" "h = 3 \<or> h = 4"
  shows "bsize_toint (bsize_add (bsize_fromsize h)
           (bsize_add (bsize_max (bsize_fromsize 6) (bsize_fromsize 18)) (bsize_fromint m)))
         = (if hn + 18 + m > INT_MAX then None else Some (hn + 18 + m))"
proof -
  let ?m = "of_int m :: 64 word"
  have hn: "0 \<le> hn" using assms(3) by auto
  have m: "uint ?m = m"
    using assms by (simp add: INT_MAX_def unsigned_of_int take_bit_int_eq_self_iff)
  have mx: "bsize_max (bsize_fromsize 6) (bsize_fromsize 18) = \<lparr>is_overflow = False, bs_value = 18\<rparr>"
    by (simp add: bsize_max_def bsize_fromsize_def word_less_def)
  have a: "uint (18 + ?m) = 18 + m"
    using assms by (subst uint_add_lem [THEN iffD1]) (auto simp: m size_constants INT_MAX_def)
  have b: "uint (h + (18 + ?m)) = hn + (18 + m)"
    using assms hn by (subst uint_add_lem [THEN iffD1]) (auto simp: a INT_MAX_def)
  have o1: "\<not> SIZE_MAX - 18 < ?m"
    using assms by (simp add: word_less_def size_constants m INT_MAX_def del: unsigned_numeral)
  have o2: "\<not> SIZE_MAX - h < 18 + ?m"
    using assms(1,2,5) by (auto simp add: word_less_def size_constants a INT_MAX_def simp del: unsigned_numeral)
  have fi: "bsize_fromint m = \<lparr>is_overflow = False, bs_value = ?m\<rparr>"
    using assms by (simp add: bsize_fromint_def size_constants INT_MAX_def)
  show ?thesis
    unfolding mx fi using o1 o2 by (simp add: bsize_fromsize_def bsize_add_def bsize_toint_def b)
qed

lemma udpgw_compute_mtu_eq:
  "0 \<le> m \<Longrightarrow> m \<le> INT_MAX \<Longrightarrow>
   udpgw_compute_mtu android m =
     (if m + (if android then 22 else 21) > INT_MAX then - 1 else m + (if android then 22 else 21))"
  using bsize_compute [OF _ _ size_constants(9), of m] bsize_compute [OF _ _ size_constants(8), of m]
  by (cases android) (simp_all add: udpgw_compute_mtu_def add.commute)

section \<open>Trees\<close>

definition tree_ok :: "('c \<Rightarrow> 'k) \<Rightarrow> (nat \<rightharpoonup> 'c) \<Rightarrow> ('k \<rightharpoonup> nat) \<Rightarrow> bool" where
  "tree_ok f cons t = (\<forall>k p. t k = Some p \<longleftrightarrow> (\<exists>con. cons p = Some con \<and> f con = k))"

lemma tree_okD: "tree_ok f cons t \<Longrightarrow> t k = Some p \<longleftrightarrow> (\<exists>con. cons p = Some con \<and> f con = k)"
  by (simp add: tree_ok_def)

lemma tree_ok_lookup: "tree_ok f cons t \<Longrightarrow> cons p = Some con \<Longrightarrow> t (f con) = Some p"
  by (auto simp: tree_ok_def)

lemma tree_ok_insert:
  assumes "tree_ok f cons t" "cons p = None" "t (f con) = None"
  shows "tree_ok f (cons(p \<mapsto> con)) (t(f con \<mapsto> p))"
  unfolding tree_ok_def
proof (intro allI)
  fix k q
  show "(t(f con \<mapsto> p)) k = Some q \<longleftrightarrow> (\<exists>c. (cons(p \<mapsto> con)) q = Some c \<and> f c = k)"
    using assms tree_okD [OF assms(1), of k q] tree_okD [OF assms(1), of k p]
    by (cases "k = f con"; cases "q = p") auto
qed

lemma tree_ok_remove:
  assumes "tree_ok f cons t" "cons p = Some con"
  shows "tree_ok f (cons(p := None)) (t(f con := None))"
  unfolding tree_ok_def
proof (intro allI)
  fix k q
  show "(t(f con := None)) k = Some q \<longleftrightarrow> (\<exists>c. (cons(p := None)) q = Some c \<and> f c = k)"
    using assms tree_okD [OF assms(1), of k q] tree_ok_lookup [OF assms]
    by (cases "k = f con"; cases "q = p") auto
qed

lemma tree_ok_update:
  assumes "tree_ok f cons t" "cons p = Some con" "f con' = f con"
  shows "tree_ok f (cons(p \<mapsto> con')) t"
  unfolding tree_ok_def
proof (intro allI)
  fix k q
  show "t k = Some q \<longleftrightarrow> (\<exists>c. (cons(p \<mapsto> con')) q = Some c \<and> f c = k)"
    using assms tree_okD [OF assms(1), of k q] by (cases "q = p") auto
qed

text \<open>Changing a key: removed under the old one, inserted under the new one.\<close>

lemma tree_ok_rekey:
  assumes "tree_ok f cons t" "cons p = Some con" "t (f con') = None"
  shows "tree_ok f (cons(p \<mapsto> con')) (t(f con := None, f con' \<mapsto> p))"
proof -
  have "tree_ok f ((cons(p := None))(p \<mapsto> con')) (t(f con := None, f con' \<mapsto> p))"
    using assms(3) by (intro tree_ok_insert tree_ok_remove assms) auto
  then show ?thesis by simp
qed

lemma tree_ok_inj: "tree_ok f cons t \<Longrightarrow> cons p = Some c \<Longrightarrow> cons q = Some d \<Longrightarrow> f c = f d \<Longrightarrow> p = q"
  by (metis tree_ok_lookup option.inject)

section \<open>The invariant\<close>

fun baddr_wf :: "baddr \<Rightarrow> bool" where
  "baddr_wf BADDR_NONE = False"
| "baddr_wf (BADDR_IPV4 _ _) = True"
| "baddr_wf (BADDR_IPV6 ip _) = (length ip = 16)"

lemma baddr_wf_ip: "baddr_wf a \<Longrightarrow> is_ip_baddr a"
  by (cases a) (auto simp: is_ip_baddr_def)

definition conaddr_wf :: "UdpGwClient_conaddr \<Rightarrow> bool" where
  "conaddr_wf a = (baddr_wf (local_addr a) \<and> baddr_wf (remote_addr a))"

definition writer_ok :: "nat \<Rightarrow> BufferWriter \<Rightarrow> bool" where
  "writer_ok mtu w = (\<not> bw_d_writing w \<and> bw_d_mtu w = mtu \<and> (bw_out_have w \<longrightarrow> length (bw_out w) = mtu))"

definition con_ok :: "UdpGwClient \<Rightarrow> UdpGwClient_connection \<Rightarrow> bool" where
  "con_ok o' con =
     (conaddr_wf (conaddr con) \<and> first_flags con AND UDPGW_CLIENT_FLAG_IPV6 = 0
      \<and> length (first_data con) \<le> ug_udp_mtu o'
      \<and> unat (conid con) < ug_max_connections o' \<and> writer_ok (ug_udpgw_mtu o') (send_if con))"

definition ug_inv :: "UdpGwClient \<Rightarrow> bool" where
  "ug_inv o' =
     (distinct (ug_list o') \<and> set (ug_list o') = dom (ug_cons o')
      \<and> ug_num_connections o' = length (ug_list o')
      \<and> length (ug_list o') \<le> ug_max_connections o'
      \<and> ug_max_connections o' \<le> 65536 \<and> ug_next_conid o' < ug_max_connections o'
      \<and> tree_ok conaddr (ug_cons o') (ug_tree_by_conaddr o')
      \<and> tree_ok conid (ug_cons o') (ug_tree_by_conid o')
      \<and> (\<forall>p con. ug_cons o' p = Some con \<longrightarrow> con_ok o' con)
      \<and> ug_udp_mtu o' + 21 \<le> ug_udpgw_mtu o' \<and> ug_udpgw_mtu o' \<le> 65535)"

lemma ug_invD:
  assumes "ug_inv o'"
  shows "distinct (ug_list o')" "set (ug_list o') = dom (ug_cons o')"
    "ug_num_connections o' = length (ug_list o')" "length (ug_list o') \<le> ug_max_connections o'"
    "ug_max_connections o' \<le> 65536" "ug_next_conid o' < ug_max_connections o'"
    "tree_ok conaddr (ug_cons o') (ug_tree_by_conaddr o')"
    "tree_ok conid (ug_cons o') (ug_tree_by_conid o')"
    "\<And>p con. ug_cons o' p = Some con \<Longrightarrow> con_ok o' con"
    "ug_udp_mtu o' + 21 \<le> ug_udpgw_mtu o'" "ug_udpgw_mtu o' \<le> 65535"
  using assms unfolding ug_inv_def by blast+

lemma ug_inv_con:
  assumes "ug_inv o'" "p \<in> set (ug_list o')"
  obtains con where "ug_cons o' p = Some con" "con_ok o' con"
  using assms ug_invD(2,9) by blast

section \<open>The unused id\<close>

text \<open>Ids in use are at most as many as connections, so fewer than the limit.\<close>

lemma conid_free_exists:
  assumes "ug_inv o'" "ug_num_connections o' < ug_max_connections o'"
  shows "\<exists>n < ug_max_connections o'. ug_tree_by_conid o' (of_nat n) = None"
proof (rule ccontr)
  assume "\<not> ?thesis"
  then have all: "\<forall>n < ug_max_connections o'. \<exists>p. ug_tree_by_conid o' (of_nat n) = Some p"
    by auto
  define f where "f n = the (ug_tree_by_conid o' (of_nat n))" for n
  note i = ug_invD [OF assms(1)]
  have inj: "inj_on f {..<ug_max_connections o'}"
  proof (rule inj_onI)
    fix a b assume ab: "a \<in> {..<ug_max_connections o'}" "b \<in> {..<ug_max_connections o'}" "f a = f b"
    obtain p where p: "ug_tree_by_conid o' (of_nat a) = Some p" using all ab by auto
    obtain q where q: "ug_tree_by_conid o' (of_nat b) = Some q" using all ab by auto
    have "p = q" using p q ab(3) by (simp add: f_def)
    then have "(of_nat a :: u16) = of_nat b"
      using p q tree_okD [OF i(8)] by (metis option.inject)
    then have "unat (of_nat a :: u16) = unat (of_nat b :: u16)" by (rule arg_cong)
    moreover have "a < 65536" "b < 65536" using ab(1,2) i(5) by auto
    ultimately show "a = b" by (simp only: unat_of_nat_u16)
  qed
  have sub: "f ` {..<ug_max_connections o'} \<subseteq> set (ug_list o')"
  proof
    fix p assume "p \<in> f ` {..<ug_max_connections o'}"
    then obtain n where "n < ug_max_connections o'" "p = f n" by blast
    then have "ug_tree_by_conid o' (of_nat n) = Some p" using all by (auto simp: f_def)
    then show "p \<in> set (ug_list o')" using tree_okD [OF i(8)] i(2) by blast
  qed
  have "ug_max_connections o' = card (f ` {..<ug_max_connections o'})"
    using inj by (simp add: card_image)
  also have "\<dots> \<le> card (set (ug_list o'))"
    using sub by (intro card_mono) auto
  also have "\<dots> \<le> length (ug_list o')" by (rule card_length)
  finally show False using assms(2) i(3) by simp
qed

text \<open>The search from position \<open>n\<close> finds the free id that comes first in cyclic order.\<close>

lemma find_unused_conid_loop_steps:
  assumes "next < ug_max_connections o'" "ug_max_connections o' \<le> 65536"
    and "ug_tree_by_conid o' (of_nat ((next + d) mod ug_max_connections o')) = None"
    and "\<forall>k<d. ug_tree_by_conid o' (of_nat ((next + k) mod ug_max_connections o')) \<noteq> None"
  shows "find_unused_conid_loop (o'\<lparr>ug_next_conid := next\<rparr>)
         = Some (o'\<lparr>ug_next_conid := (next + d) mod ug_max_connections o'\<rparr>,
                 of_nat ((next + d) mod ug_max_connections o'))"
  using assms
proof (induction d arbitrary: "next")
  case 0
  then show ?case
    by (subst find_unused_conid_loop.simps) (simp add: find_connection_by_conid_def)
next
  case (Suc d)
  let ?m = "ug_max_connections o'"
  let ?n = "if next = ?m - 1 then 0 else next + 1"
  have n: "?n < ?m" "(?n + k) mod ?m = (next + Suc k) mod ?m" for k
    using Suc.prems(1) by (auto simp: mod_Suc_eq add.commute) 
  have taken: "ug_tree_by_conid o' (of_nat next) \<noteq> None"
    using Suc.prems(4) [rule_format, of 0] Suc.prems(1) by simp
  have free: "\<forall>k<d. ug_tree_by_conid o' (of_nat ((?n + k) mod ?m)) \<noteq> None"
    unfolding n(2) using Suc.prems(4) by auto
  have found: "ug_tree_by_conid o' (of_nat ((?n + d) mod ?m)) = None"
    unfolding n(2) using Suc.prems(3) by simp
  have "find_unused_conid_loop (o'\<lparr>ug_next_conid := next\<rparr>)
        = find_unused_conid_loop (o'\<lparr>ug_next_conid := ?n\<rparr>)"
  proof -
    have "(int next = int ?m - 1) = (next = ?m - 1)" using Suc.prems(1) by auto
    then show ?thesis using taken
      by (subst find_unused_conid_loop.simps) (auto simp: find_connection_by_conid_def)
  qed
  then show ?case
    using Suc.IH [OF n(1) Suc.prems(2) found free] by (simp only: n(2))
qed

lemma find_unused_conid_finds:
  assumes "ug_inv o'" "ug_num_connections o' < ug_max_connections o'"
  obtains d where
    "find_unused_conid o' = Some (o'\<lparr>ug_next_conid := (ug_next_conid o' + d) mod ug_max_connections o'\<rparr>,
       of_nat ((ug_next_conid o' + d) mod ug_max_connections o'))"
    "ug_tree_by_conid o' (of_nat ((ug_next_conid o' + d) mod ug_max_connections o')) = None"
    "\<forall>k<d. ug_tree_by_conid o' (of_nat ((ug_next_conid o' + k) mod ug_max_connections o')) \<noteq> None"
proof -
  let ?m = "ug_max_connections o'" and ?x = "ug_next_conid o'"
  let ?P = "\<lambda>d. ug_tree_by_conid o' (of_nat ((?x + d) mod ?m)) = None"
  note i = ug_invD [OF assms(1)]
  obtain n where n: "n < ?m" "ug_tree_by_conid o' (of_nat n) = None"
    using conid_free_exists [OF assms] by blast
  have "(?x + (n + ?m - ?x)) mod ?m = n" using n(1) i(6) by simp
  then have ex: "?P (n + ?m - ?x)" using n(2) by simp
  define d where "d = (LEAST d. ?P d)"
  have d: "?P d" unfolding d_def by (rule LeastI, rule ex)
  have l: "\<forall>k<d. \<not> ?P k" unfolding d_def using not_less_Least by blast
  have "find_unused_conid_loop (o'\<lparr>ug_next_conid := ?x\<rparr>)
      = Some (o'\<lparr>ug_next_conid := (?x + d) mod ?m\<rparr>, of_nat ((?x + d) mod ?m))"
    using i(5,6) d l by (intro find_unused_conid_loop_steps) auto
  then have "find_unused_conid o'
      = Some (o'\<lparr>ug_next_conid := (?x + d) mod ?m\<rparr>, of_nat ((?x + d) mod ?m))"
    using assms(2) by (simp add: find_unused_conid_def)
  then show ?thesis using d l that by blast
qed

section \<open>Operations\<close>

lemma con_set_simps [simp]:
  "ug_cons (con_set p con o') = (ug_cons o')(p \<mapsto> con)"
  "ug_list (con_set p con o') = ug_list o'"
  "ug_num_connections (con_set p con o') = ug_num_connections o'"
  "ug_max_connections (con_set p con o') = ug_max_connections o'"
  "ug_next_conid (con_set p con o') = ug_next_conid o'"
  "ug_tree_by_conaddr (con_set p con o') = ug_tree_by_conaddr o'"
  "ug_tree_by_conid (con_set p con o') = ug_tree_by_conid o'"
  "ug_udp_mtu (con_set p con o') = ug_udp_mtu o'"
  "ug_udpgw_mtu (con_set p con o') = ug_udpgw_mtu o'"
  "ug_have_server (con_set p con o') = ug_have_server o'"
  by (simp_all add: con_set_def)

lemma con_ok_cong:
  "ug_udp_mtu a = ug_udp_mtu b \<Longrightarrow> ug_max_connections a = ug_max_connections b \<Longrightarrow>
   ug_udpgw_mtu a = ug_udpgw_mtu b \<Longrightarrow> con_ok a con = con_ok b con"
  by (simp add: con_ok_def)

lemma con_set_inv:
  assumes "ug_inv o'" "ug_cons o' p = Some con" "con_ok o' con'"
    and "conaddr con' = conaddr con" "conid con' = conid con"
  shows "ug_inv (con_set p con' o')"
proof -
  note i = ug_invD [OF assms(1)]
  have "set (ug_list o') = insert p (dom (ug_cons o'))"
    using i(2) assms(2) by blast
  moreover have "\<And>q c. ((ug_cons o')(p \<mapsto> con')) q = Some c \<Longrightarrow> con_ok (con_set p con' o') c"
    using i(9) assms(3) con_ok_cong [of "con_set p con' o'" o'] by (auto split: if_splits)
  ultimately show ?thesis
    using i(1,3-6,10,11) tree_ok_update [OF i(7) assms(2,4)] tree_ok_update [OF i(8) assms(2,5)]
    unfolding ug_inv_def by auto
qed

text \<open>What a packet to the server consists of.\<close>

fun udpgw_addr :: "baddr \<Rightarrow> byte list" where
  "udpgw_addr (BADDR_IPV4 ip port) = udpgw_addr_ipv4 ip port"
| "udpgw_addr (BADDR_IPV6 ip port) = udpgw_addr_ipv6 ip port"
| "udpgw_addr BADDR_NONE = []"

definition udpgw_flags :: "baddr \<Rightarrow> byte \<Rightarrow> byte" where
  "udpgw_flags a flags = (if baddr_type a = 2 then flags OR UDPGW_CLIENT_FLAG_IPV6 else flags)"

definition udpgw_packet :: "byte \<Rightarrow> u16 \<Rightarrow> baddr \<Rightarrow> byte list \<Rightarrow> byte list" where
  "udpgw_packet flags i a data = udpgw_header (udpgw_flags a flags) (htol16 i) @ udpgw_addr a @ data"

lemma length_header [simp]: "length (udpgw_header f i) = 3"
  by (simp add: udpgw_header_def)

lemma length_addr: "baddr_wf a \<Longrightarrow> length (udpgw_addr a) \<le> 18 \<and> 6 \<le> length (udpgw_addr a)"
  by (cases a) (auto simp: udpgw_addr_ipv4_def udpgw_addr_ipv6_def)

lemma put_addr_eq:
  "baddr_wf a \<Longrightarrow> put_addr a (out, pos)
     = do { out \<leftarrow> memcpy_out pos (udpgw_addr a) out; Some (out, pos + length (udpgw_addr a)) }"
  by (cases a) (auto simp: udpgw_addr_ipv4_def udpgw_addr_ipv6_def)

lemma take_write_at:
  "pos + length src \<le> length out \<Longrightarrow> take (pos + length src) (write_at out pos src) = take pos out @ src"
  by (cases src) (simp_all add: write_at_def min_def)

lemma memcpy_out_some: "pos + length src \<le> length out \<Longrightarrow> memcpy_out pos src out = Some (write_at out pos src)"
  by (simp add: memcpy_out_def)

lemma packet_written:
  assumes "3 + length a + length d \<le> length out" "length h = 3"
  shows "take (3 + length a + length d) (write_at (write_at (write_at out 0 h) 3 a) (3 + length a) d)
         = h @ a @ d"
proof -
  let ?o1 = "write_at out 0 h" and ?o2 = "write_at (write_at out 0 h) 3 a"
  have l: "length ?o1 = length out" "length ?o2 = length out"
    using assms by (auto simp: write_at_def)
  have "take 3 ?o1 = h" using take_write_at [of 0 h out] assms by simp
  then have "take (3 + length a) ?o2 = h @ a"
    using take_write_at [of 3 a ?o1] assms l by simp
  then show ?thesis
    using take_write_at [of "3 + length a" d ?o2] assms l by simp
qed

lemma connection_send_ok:
  assumes "ug_inv o'" "ug_cons o' p = Some con" "length data \<le> ug_udp_mtu o'"
  obtains w where "connection_send p flags data o' = Some (con_set p (con\<lparr>send_if := w\<rparr>) o',
        if bw_out_have (send_if con)
        then [Ug_Packet p (udpgw_packet flags (conid con) (remote_addr (conaddr con)) data)] else [])"
    and "writer_ok (ug_udpgw_mtu o') w"
proof -
  note i = ug_invD [OF assms(1)]
  have c: "con_ok o' con" using i(9) assms(2) .
  let ?r = "remote_addr (conaddr con)"
  have wf: "baddr_wf ?r" and wo: "writer_ok (ug_udpgw_mtu o') (send_if con)"
    using c by (auto simp: con_ok_def conaddr_wf_def)
  show thesis
  proof (cases "bw_out_have (send_if con)")
    case False
    then have "connection_send p flags data o' = Some (con_set p (con\<lparr>send_if := send_if con\<rparr>) o', [])"
      using wo assms by (simp add: connection_send_def BufferWriter_StartPacket_def writer_ok_def)
    then show thesis using that [of "send_if con"] False wo by simp
  next
    case True
    define w where "w = (send_if con)\<lparr>bw_out_have := False, bw_d_writing := False\<rparr>"
    let ?h = "udpgw_header (udpgw_flags ?r flags) (htol16 (conid con))" and ?a = "udpgw_addr ?r"
    let ?out = "bw_out (send_if con)"
    have len: "length ?out = ug_udpgw_mtu o'" using wo True by (simp add: writer_ok_def)
    have fit: "3 + length ?a + length data \<le> length ?out"
      using length_addr [OF wf] assms(3) i(10) len by linarith
    have l: "length (write_at ?out 0 ?h) = length ?out"
        "length (write_at (write_at ?out 0 ?h) 3 ?a) = length ?out"
      using fit by (auto simp: write_at_def)
    have m: "memcpy_out 0 ?h ?out = Some (write_at ?out 0 ?h)"
      "memcpy_out 3 ?a (write_at ?out 0 ?h) = Some (write_at (write_at ?out 0 ?h) 3 ?a)"
      "memcpy_out (3 + length ?a) data (write_at (write_at ?out 0 ?h) 3 ?a)
        = Some (write_at (write_at (write_at ?out 0 ?h) 3 ?a) (3 + length ?a) data)"
      using fit l by (auto intro!: memcpy_out_some)
    have "3 + length ?a + length data \<le> bw_d_mtu (send_if con)"
      using fit len wo by (simp add: writer_ok_def)
    then have "connection_send p flags data o' = Some (con_set p (con\<lparr>send_if := w\<rparr>) o',
        [Ug_Packet p (udpgw_packet flags (conid con) ?r data)])"
      using wo assms True m packet_written [OF fit, of ?h]
      by (simp add: connection_send_def BufferWriter_StartPacket_def writer_ok_def put_header_def
          put_addr_eq [OF wf] udpgw_flags_def [symmetric] BufferWriter_EndPacket_def udpgw_packet_def w_def Let_def
          del: put_addr.simps)
    then show thesis using that [of w] True wo by (simp add: w_def writer_ok_def)
  qed
qed

lemma move_to_end_ok:
  assumes "ug_inv o'" "p \<in> set (ug_list o')"
  shows "move_to_end p o' = Some (o'\<lparr>ug_list := remove1 p (ug_list o') @ [p]\<rparr>)"
    and "ug_inv (o'\<lparr>ug_list := remove1 p (ug_list o') @ [p]\<rparr>)"
proof -
  note i = ug_invD [OF assms(1)]
  show "move_to_end p o' = Some (o'\<lparr>ug_list := remove1 p (ug_list o') @ [p]\<rparr>)"
    using assms(2) by (simp add: move_to_end_def)
  have "length (remove1 p (ug_list o') @ [p]) = length (ug_list o')"
    using assms(2) length_pos_if_in_set [OF assms(2)] by (simp add: length_remove1)
  moreover have "set (remove1 p (ug_list o') @ [p]) = set (ug_list o')"
    using assms(2) i(1) by auto
  moreover have "distinct (remove1 p (ug_list o') @ [p])"
    using i(1) by auto
  ultimately show "ug_inv (o'\<lparr>ug_list := remove1 p (ug_list o') @ [p]\<rparr>)"
    using i unfolding ug_inv_def con_ok_def by auto
qed

lemma ug_inv_next_conid: "ug_inv o' \<Longrightarrow> n < ug_max_connections o' \<Longrightarrow> ug_inv (o'\<lparr>ug_next_conid := n\<rparr>)"
  unfolding ug_inv_def con_ok_def by simp

text \<open>The state after a new connection with id \<open>n\<close> was entered.\<close>

definition con_added :: "nat \<Rightarrow> UdpGwClient_conaddr \<Rightarrow> byte \<Rightarrow> byte list \<Rightarrow> nat \<Rightarrow> UdpGwClient \<Rightarrow> UdpGwClient" where
  "con_added p a flags data n o' =
     con_set p \<lparr>conaddr = a, first_flags = flags, first_data = data, conid = of_nat n,
                first_job = True, send_if = BufferWriter_Init (ug_udpgw_mtu o')\<rparr>
       (o'\<lparr>ug_next_conid := n,
           ug_tree_by_conaddr := (ug_tree_by_conaddr o')(a \<mapsto> p),
           ug_tree_by_conid := (ug_tree_by_conid o')(of_nat n \<mapsto> p),
           ug_list := ug_list o' @ [p], ug_num_connections := ug_num_connections o' + 1\<rparr>)"

lemma con_added_inv:
  assumes "ug_inv o'" "ug_num_connections o' < ug_max_connections o'"
    and "ug_tree_by_conaddr o' a = None" "length data \<le> ug_udp_mtu o'" "conaddr_wf a"
    and "flags AND UDPGW_CLIENT_FLAG_IPV6 = 0"
    and "ug_cons o' p = None" "n < ug_max_connections o'" "ug_tree_by_conid o' (of_nat n) = None"
  shows "ug_inv (con_added p a flags data n o')"
proof -
  note i = ug_invD [OF assms(1)]
  let ?c = "\<lparr>conaddr = a, first_flags = flags, first_data = data, conid = of_nat n,
                first_job = True, send_if = BufferWriter_Init (ug_udpgw_mtu o')\<rparr>"
  let ?o = "con_added p a flags data n o'"
  have "unat (of_nat n :: u16) = n" using assms(8) i(5) by (intro unat_of_nat_u16) simp
  then have "con_ok ?o ?c"
    using assms by (simp add: con_ok_def con_added_def writer_ok_def BufferWriter_Init_def)
  moreover have "\<And>q c. ug_cons o' q = Some c \<Longrightarrow> con_ok ?o c"
    using i(9) con_ok_cong [of ?o o'] by (simp add: con_added_def)
  ultimately have cons: "\<And>q c. ug_cons ?o q = Some c \<Longrightarrow> con_ok ?o c"
    by (auto simp: con_added_def split: if_splits)
  have t: "tree_ok conaddr (ug_cons ?o) (ug_tree_by_conaddr ?o)" "tree_ok conid (ug_cons ?o) (ug_tree_by_conid ?o)"
    using tree_ok_insert [OF i(7) assms(7), of ?c] tree_ok_insert [OF i(8) assms(7), of ?c] assms(3,9)
    by (simp_all add: con_added_def)
  have p: "p \<notin> set (ug_list o')" using i(2) assms(7) by auto
  show ?thesis
    using i assms(2,8) p cons t unfolding ug_inv_def by (auto simp: con_added_def)
qed

lemma connection_init_ok:
  assumes "ug_inv o'" "ug_num_connections o' < ug_max_connections o'"
    and "ug_tree_by_conaddr o' a = None" "length data \<le> ug_udp_mtu o'" "conaddr_wf a"
    and "\<And>p. mem = Some p \<Longrightarrow> ug_cons o' p = None"
  obtains n where "n < ug_max_connections o'" "ug_tree_by_conid o' (of_nat n) = None"
    and "connection_init mem ppf_ok a flags data o' =
      Some (case mem of None \<Rightarrow> o'
            | Some p \<Rightarrow> if ppf_ok then con_added p a flags data n o' else o'\<lparr>ug_next_conid := n\<rparr>)"
proof -
  note i = ug_invD [OF assms(1)]
  obtain d where f: "find_unused_conid o' = Some (o'\<lparr>ug_next_conid := (ug_next_conid o' + d) mod ug_max_connections o'\<rparr>,
       of_nat ((ug_next_conid o' + d) mod ug_max_connections o'))"
    "ug_tree_by_conid o' (of_nat ((ug_next_conid o' + d) mod ug_max_connections o')) = None"
    using find_unused_conid_finds [OF assms(1,2)] by metis
  let ?n = "(ug_next_conid o' + d) mod ug_max_connections o'"
  show thesis
  proof (rule that [of ?n])
    show "?n < ug_max_connections o'" using i(6) by simp
    show "ug_tree_by_conid o' (of_nat ?n) = None" by (rule f(2))
    show "connection_init mem ppf_ok a flags data o' =
      Some (case mem of None \<Rightarrow> o'
            | Some p \<Rightarrow> if ppf_ok then con_added p a flags data ?n o' else o'\<lparr>ug_next_conid := ?n\<rparr>)"
      using assms f
      by (cases mem) (simp_all add: connection_init_def find_connection_by_conaddr_def tree_insert_def
          con_added_def con_set_def)
  qed
qed

lemma reuse_connection_ok:
  assumes "ug_inv o'" "ug_tree_by_conaddr o' a = None" "ug_num_connections o' > 0" "conaddr_wf a"
  obtains p ps con where "ug_list o' = p # ps" "ug_cons o' p = Some con"
    and "reuse_connection a o' = Some (con_set p (con\<lparr>conaddr := a\<rparr>)
          (o'\<lparr>ug_tree_by_conaddr := (ug_tree_by_conaddr o')(conaddr con := None, a \<mapsto> p)\<rparr>), p)"
    and "ug_inv (con_set p (con\<lparr>conaddr := a\<rparr>)
          (o'\<lparr>ug_tree_by_conaddr := (ug_tree_by_conaddr o')(conaddr con := None, a \<mapsto> p)\<rparr>))"
proof -
  note i = ug_invD [OF assms(1)]
  obtain p ps where l: "ug_list o' = p # ps"
    using assms(3) i(3) by (cases "ug_list o'") auto
  obtain con where c: "ug_cons o' p = Some con" "con_ok o' con"
    using ug_inv_con [OF assms(1), of p] l by auto
  let ?c = "con\<lparr>conaddr := a\<rparr>"
  let ?o = "con_set p ?c
     (o'\<lparr>ug_tree_by_conaddr := (ug_tree_by_conaddr o')(conaddr con := None, a \<mapsto> p)\<rparr>)"
  have look: "ug_tree_by_conaddr o' (conaddr con) = Some p"
    by (rule tree_ok_lookup [OF i(7) c(1)])
  have r: "reuse_connection a o' = Some (?o, p)"
    using assms(2,3) l c(1) look
    by (simp add: reuse_connection_def find_connection_by_conaddr_def tree_remove_def tree_insert_def)
  have t: "tree_ok conaddr (ug_cons ?o) (ug_tree_by_conaddr ?o)" "tree_ok conid (ug_cons ?o) (ug_tree_by_conid ?o)"
    using tree_ok_rekey [OF i(7) c(1), of ?c] tree_ok_update [OF i(8) c(1), of ?c] assms(2) by simp_all
  have cons: "\<And>q d. ug_cons ?o q = Some d \<Longrightarrow> con_ok ?o d"
    using i(9) c(2) assms(4) con_ok_cong [of ?o o'] by (auto simp: con_ok_def split: if_splits)
  have "set (ug_list o') = insert p (dom (ug_cons o'))" using i(2) c(1) by blast
  then have inv: "ug_inv ?o"
    using i cons t unfolding ug_inv_def by auto
  show thesis by (rule that [OF l c(1) r inv])
qed

lemma connection_free_ok:
  assumes "ug_inv o'" "p \<in> set (ug_list o')"
  obtains o'' where "connection_free p o' = Some o''" "ug_inv o''"
    "ug_list o'' = remove1 p (ug_list o')" "ug_cons o'' = (ug_cons o')(p := None)"
    "ug_have_server o'' = ug_have_server o'"
proof -
  note i = ug_invD [OF assms(1)]
  obtain con where c: "ug_cons o' p = Some con"
    using ug_inv_con [OF assms] by metis
  define o'' where "o'' = o'\<lparr>ug_num_connections := ug_num_connections o' - 1,
              ug_list := remove1 p (ug_list o'),
              ug_tree_by_conid := (ug_tree_by_conid o')(conid con := None),
              ug_tree_by_conaddr := (ug_tree_by_conaddr o')(conaddr con := None),
              ug_cons := (ug_cons o')(p := None)\<rparr>"
  have f: "connection_free p o' = Some o''"
    using assms(2) c tree_ok_lookup [OF i(7) c] tree_ok_lookup [OF i(8) c]
    by (simp add: connection_free_def tree_remove_def o''_def)
  have cons: "\<And>q d. ug_cons o'' q = Some d \<Longrightarrow> con_ok o'' d"
    using i(9) con_ok_cong [of o'' o'] by (auto simp: o''_def split: if_splits)
  have t: "tree_ok conaddr (ug_cons o'') (ug_tree_by_conaddr o'')" "tree_ok conid (ug_cons o'') (ug_tree_by_conid o'')"
    using tree_ok_remove [OF i(7) c] tree_ok_remove [OF i(8) c] by (simp_all add: o''_def)
  have "length (remove1 p (ug_list o')) = length (ug_list o') - 1"
    using assms(2) by (simp add: length_remove1)
  moreover have "set (remove1 p (ug_list o')) = dom (ug_cons o'')"
    using i(1,2) by (auto simp: o''_def)
  ultimately have "ug_inv o''"
    using i cons t unfolding ug_inv_def by (auto simp: o''_def)
  then show thesis using that f by (simp add: o''_def)
qed

end
