(* ===== verification/UdpGwClientProps.thy ===== *)
theory UdpGwClientProps
  imports UdpGwClientInv
begin

text \<open>
  The gateway client as a system: the calls its user, its neighbours in the flow and the event
  loop may make, the states they reach, and what holds in all of them.
\<close>

section \<open>Events\<close>

datatype ug_event =
    Submit "nat option" bool baddr baddr bool "byte list"
  | First_Job nat
  | Writer_Recv nat "byte list"
  | Recv "byte list"
  | Monitor
  | Keepalive_Done
  | Connect bool
  | Disconnect
  | Decoder_Error

text \<open>
  When each may happen: \<open>malloc\<close> returns unused memory, packets respect the MTUs, the first job
  runs once per connection, a writer gets a buffer only when it has none.
\<close>

definition job_pending :: "UdpGwClient \<Rightarrow> nat \<Rightarrow> bool" where
  "job_pending o' p = (case ug_cons o' p of None \<Rightarrow> False | Some con \<Rightarrow> first_job con)"

definition writer_empty :: "UdpGwClient \<Rightarrow> nat \<Rightarrow> bool" where
  "writer_empty o' p = (case ug_cons o' p of None \<Rightarrow> False | Some con \<Rightarrow> \<not> bw_out_have (send_if con))"

fun unused_mem :: "UdpGwClient \<Rightarrow> nat option \<Rightarrow> bool" where
  "unused_mem o' None = True"
| "unused_mem o' (Some p) = (ug_cons o' p = None)"

fun ug_enabled :: "ug_event \<Rightarrow> UdpGwClient \<Rightarrow> bool" where
  "ug_enabled (Submit mem ppf_ok local remote is_dns data) o' =
     (unused_mem o' mem \<and> baddr_wf local \<and> baddr_wf remote \<and> length data \<le> ug_udp_mtu o')"
| "ug_enabled (First_Job p) o' = job_pending o' p"
| "ug_enabled (Writer_Recv p out) o' = (writer_empty o' p \<and> length out = ug_udpgw_mtu o')"
| "ug_enabled (Recv data) o' = (ug_have_server o' \<and> length data \<le> ug_udpgw_mtu o')"
| "ug_enabled Monitor o' = True"
| "ug_enabled Keepalive_Done o' = ug_keepalive_sending o'"
| "ug_enabled (Connect dec_ok) o' = (\<not> ug_have_server o')"
| "ug_enabled Disconnect o' = ug_have_server o'"
| "ug_enabled Decoder_Error o' = ug_have_server o'"

text \<open>A job is unset before its handler runs.\<close>

fun ug_step :: "ug_event \<Rightarrow> UdpGwClient \<Rightarrow> (UdpGwClient \<times> ug_act list) option" where
  "ug_step (Submit mem ppf_ok local remote is_dns data) o' =
     UdpGwClient_SubmitPacket mem ppf_ok local remote is_dns data o'"
| "ug_step (First_Job p) o' = do {
     con \<leftarrow> ug_cons o' p;
     connection_first_job_handler p (con_set p (con\<lparr>first_job := False\<rparr>) o')
   }"
| "ug_step (Writer_Recv p out) o' = do {
     con \<leftarrow> ug_cons o' p;
     w \<leftarrow> bw_output_handler_recv out (send_if con);
     Some (con_set p (con\<lparr>send_if := w\<rparr>) o', [])
   }"
| "ug_step (Recv data) o' = recv_interface_handler_send data o'"
| "ug_step Monitor o' = Some (send_monitor_handler o')"
| "ug_step Keepalive_Done o' = do { o' \<leftarrow> keepalive_if_handler_done o'; Some (o', []) }"
| "ug_step (Connect dec_ok) o' = do {
     (o', acts, _) \<leftarrow> UdpGwClient_ConnectServer dec_ok o'; Some (o', acts) }"
| "ug_step Disconnect o' = UdpGwClient_DisconnectServer o'"
| "ug_step Decoder_Error o' = do { acts \<leftarrow> decoder_handler_error o'; Some (o', acts) }"

inductive ug_reachable :: "UdpGwClient \<Rightarrow> bool" where
  init: "UdpGwClient_Init android udp_mtu max_connections send_buffer_size = Some o' \<Longrightarrow>
         int udp_mtu \<le> INT_MAX \<Longrightarrow> ug_reachable o'"
| step: "ug_reachable o' \<Longrightarrow> ug_enabled ev o' \<Longrightarrow> ug_step ev o' = Some (o'', acts) \<Longrightarrow> ug_reachable o''"

section \<open>The steps keep the invariant\<close>

lemma init_inv:
  assumes "UdpGwClient_Init android udp_mtu mx buf = Some o'" "int udp_mtu \<le> INT_MAX"
  shows "ug_inv o'"
proof -
  let ?m = "udpgw_compute_mtu android (int udp_mtu)"
  have m: "0 \<le> ?m" "?m \<le> 65535" "0 < mx"
    and o': "ug_udp_mtu o' = udp_mtu" "ug_udpgw_mtu o' = nat ?m" "ug_list o' = []" "ug_cons o' = Map.empty"
      "ug_max_connections o' = min mx 65536" "ug_num_connections o' = 0" "ug_next_conid o' = 0"
      "ug_tree_by_conaddr o' = Map.empty" "ug_tree_by_conid o' = Map.empty"
    using assms(1) by (auto simp: UdpGwClient_Init_def PACKETPROTO_MAXPAYLOAD_def UINT16_MAX_def min_def Let_def)
  have "udp_mtu + 21 \<le> nat ?m"
    using m(1) udpgw_compute_mtu_eq [of "int udp_mtu" android] assms(2) by (auto split: if_splits)
  then show ?thesis
    using m o' unfolding ug_inv_def by (auto simp: tree_ok_def)
qed

lemma send_keeps:
  assumes "ug_inv o'" "ug_cons o' p = Some con" "length data \<le> ug_udp_mtu o'"
  shows "\<exists>o'' acts. connection_send p flags data o' = Some (o'', acts) \<and> ug_inv o''"
proof -
  obtain w where "connection_send p flags data o' = Some (con_set p (con\<lparr>send_if := w\<rparr>) o',
        if bw_out_have (send_if con)
        then [Ug_Packet p (udpgw_packet flags (conid con) (remote_addr (conaddr con)) data)] else [])"
    "writer_ok (ug_udpgw_mtu o') w"
    by (rule connection_send_ok [OF assms])
  moreover have "con_ok o' (con\<lparr>send_if := w\<rparr>)"
    using ug_invD(9) [OF assms(1,2)] calculation(2) by (simp add: con_ok_def)
  ultimately show ?thesis using con_set_inv [OF assms(1,2)] by simp
qed

lemma dns_flags_ipv6:
  "(0 :: byte) AND UDPGW_CLIENT_FLAG_IPV6 = 0" "UDPGW_CLIENT_FLAG_DNS AND UDPGW_CLIENT_FLAG_IPV6 = 0"
  "UDPGW_CLIENT_FLAG_REBIND AND UDPGW_CLIENT_FLAG_IPV6 = 0"
  by (simp_all add: UDPGW_CLIENT_FLAG_DNS_def UDPGW_CLIENT_FLAG_IPV6_def UDPGW_CLIENT_FLAG_REBIND_def)

definition dns_flags :: "bool \<Rightarrow> byte" where
  "dns_flags is_dns = (if is_dns then UDPGW_CLIENT_FLAG_DNS else 0)"

text \<open>The three ways of \<open>UdpGwClient_SubmitPacket\<close>.\<close>

lemma submit_known:
  assumes "ug_inv o'" "baddr_wf local" "baddr_wf remote" "length data \<le> ug_udp_mtu o'"
    and "ug_tree_by_conaddr o' \<lparr>local_addr = local, remote_addr = remote\<rparr> = Some p"
  shows "UdpGwClient_SubmitPacket mem ppf_ok local remote is_dns data o'
         = connection_send p (dns_flags is_dns) data (o'\<lparr>ug_list := remove1 p (ug_list o') @ [p]\<rparr>)"
    and "p \<in> set (ug_list o')"
proof -
  note i = ug_invD [OF assms(1)]
  show p: "p \<in> set (ug_list o')"
    using tree_okD [OF i(7)] assms(5) i(2) by blast
  show "UdpGwClient_SubmitPacket mem ppf_ok local remote is_dns data o'
         = connection_send p (dns_flags is_dns) data (o'\<lparr>ug_list := remove1 p (ug_list o') @ [p]\<rparr>)"
    using assms move_to_end_ok(1) [OF assms(1) p]
    by (simp add: UdpGwClient_SubmitPacket_def find_connection_by_conaddr_def baddr_wf_ip dns_flags_def)
qed

lemma submit_new:
  assumes "baddr_wf local" "baddr_wf remote" "length data \<le> ug_udp_mtu o'"
    and "ug_tree_by_conaddr o' \<lparr>local_addr = local, remote_addr = remote\<rparr> = None"
    and "ug_num_connections o' \<noteq> ug_max_connections o'"
  shows "UdpGwClient_SubmitPacket mem ppf_ok local remote is_dns data o'
     = do { o' \<leftarrow> connection_init mem ppf_ok \<lparr>local_addr = local, remote_addr = remote\<rparr>
                   (dns_flags is_dns) data o'; Some (o', []) }"
  using assms
  by (simp add: UdpGwClient_SubmitPacket_def find_connection_by_conaddr_def baddr_wf_ip dns_flags_def)

lemma submit_reuse:
  assumes "baddr_wf local" "baddr_wf remote" "length data \<le> ug_udp_mtu o'"
    and "ug_tree_by_conaddr o' \<lparr>local_addr = local, remote_addr = remote\<rparr> = None"
    and "ug_num_connections o' = ug_max_connections o'"
    and "reuse_connection \<lparr>local_addr = local, remote_addr = remote\<rparr> o' = Some (o1, p)"
    and "move_to_end p o1 = Some o2"
  shows "UdpGwClient_SubmitPacket mem ppf_ok local remote is_dns data o'
     = connection_send p (dns_flags is_dns OR UDPGW_CLIENT_FLAG_REBIND) data o2"
  using assms
  by (simp add: UdpGwClient_SubmitPacket_def find_connection_by_conaddr_def baddr_wf_ip dns_flags_def)

lemma submit_keeps:
  assumes "ug_inv o'" "ug_enabled (Submit mem ppf_ok local remote is_dns data) o'"
  shows "\<exists>o'' acts. UdpGwClient_SubmitPacket mem ppf_ok local remote is_dns data o' = Some (o'', acts)
     \<and> ug_inv o''"
proof -
  note i = ug_invD [OF assms(1)]
  let ?a = "\<lparr>local_addr = local, remote_addr = remote\<rparr>"
  have e: "baddr_wf local" "baddr_wf remote" "length data \<le> ug_udp_mtu o'"
    and wf: "conaddr_wf ?a" and mem: "\<And>p. mem = Some p \<Longrightarrow> ug_cons o' p = None"
    using assms(2) by (auto simp: conaddr_wf_def)
  consider p where "ug_tree_by_conaddr o' ?a = Some p"
    | "ug_tree_by_conaddr o' ?a = None" "ug_num_connections o' = ug_max_connections o'"
    | "ug_tree_by_conaddr o' ?a = None" "ug_num_connections o' < ug_max_connections o'"
    using i(3,4) by fastforce
  then show ?thesis
  proof cases
    case 1
    note k = submit_known [OF assms(1) e 1]
    obtain con where "ug_cons o' p = Some con" using ug_inv_con [OF assms(1) k(2)] by metis
    then show ?thesis
      using send_keeps [OF move_to_end_ok(2) [OF assms(1) k(2)], of p con data] e(3)
      unfolding k(1) by simp
  next
    case 2
    obtain p ps con where r: "ug_list o' = p # ps" "ug_cons o' p = Some con"
      "reuse_connection ?a o' = Some (con_set p (con\<lparr>conaddr := ?a\<rparr>)
          (o'\<lparr>ug_tree_by_conaddr := (ug_tree_by_conaddr o')(conaddr con := None, ?a \<mapsto> p)\<rparr>), p)"
      "ug_inv (con_set p (con\<lparr>conaddr := ?a\<rparr>)
          (o'\<lparr>ug_tree_by_conaddr := (ug_tree_by_conaddr o')(conaddr con := None, ?a \<mapsto> p)\<rparr>))" (is "ug_inv ?o")
      using reuse_connection_ok [OF assms(1) 2(1) _ wf] 2(2) i(6) by (metis not_less_zero gr0I)
    have p: "p \<in> set (ug_list ?o)" using r(1) by simp
    note m = move_to_end_ok [OF r(4) p]
    show ?thesis
      unfolding submit_reuse [OF e 2 r(3) m(1)]
      by (rule send_keeps [OF m(2)]) (use e(3) in simp_all)
  next
    case 3
    obtain n where n: "n < ug_max_connections o'" "ug_tree_by_conid o' (of_nat n) = None"
      "connection_init mem ppf_ok ?a (dns_flags is_dns) data o' =
      Some (case mem of None \<Rightarrow> o'
            | Some p \<Rightarrow> if ppf_ok then con_added p ?a (dns_flags is_dns) data n o' else o'\<lparr>ug_next_conid := n\<rparr>)"
      using connection_init_ok [OF assms(1) 3(2,1) e(3) wf mem] by metis
    have "dns_flags is_dns AND UDPGW_CLIENT_FLAG_IPV6 = 0"
      by (simp add: dns_flags_def dns_flags_ipv6)
    then have "\<And>p. mem = Some p \<Longrightarrow> ug_inv (con_added p ?a (dns_flags is_dns) data n o')"
      using con_added_inv [OF assms(1) 3(2,1) e(3) wf _ mem n(1,2)] by blast
    moreover have "UdpGwClient_SubmitPacket mem ppf_ok local remote is_dns data o'
       = Some (case mem of None \<Rightarrow> o'
            | Some p \<Rightarrow> if ppf_ok then con_added p ?a (dns_flags is_dns) data n o' else o'\<lparr>ug_next_conid := n\<rparr>, [])"
      using submit_new [OF e 3(1)] 3(2) n(3) by simp
    ultimately show ?thesis
      using assms(1) ug_inv_next_conid [OF assms(1) n(1)] by (cases mem) auto
  qed
qed

lemma recv_keeps:
  assumes "ug_inv o'" "ug_have_server o'" "length data \<le> ug_udpgw_mtu o'"
  shows "\<exists>o'' acts. recv_interface_handler_send data o' = Some (o'', acts) \<and> ug_inv o''"
proof -
  note i = ug_invD [OF assms(1)]
  have "\<exists>o'' acts. (case find_connection_by_conid o' n of None \<Rightarrow> Some (o', [Ug_Recv_Done])
     | Some p \<Rightarrow> do {
         con \<leftarrow> ug_cons o' p;
         if BAddr_CompareOrder (remote_addr (conaddr con)) a \<noteq> 0 then Some (o', [Ug_Recv_Done])
         else do {
           o' \<leftarrow> move_to_end p o';
           Some (o', [Ug_Recv_Done,
                      Ug_Received (local_addr (conaddr con)) (remote_addr (conaddr con)) data])
         }
       }) = Some (o'', acts) \<and> ug_inv o''" for n a data
  proof (cases "find_connection_by_conid o' n")
    case (Some p)
    then obtain con where c: "ug_cons o' p = Some con"
      using tree_okD [OF i(8)] by (auto simp: find_connection_by_conid_def)
    then have p: "p \<in> set (ug_list o')" using i(2) by blast
    show ?thesis using Some c move_to_end_ok [OF assms(1) p] assms(1) by simp
  qed (use assms(1) in simp)
  then show ?thesis
    using assms by (auto simp: recv_interface_handler_send_def split: option.split)
qed

lemma step_keeps:
  assumes "ug_inv o'" "ug_enabled ev o'"
  shows "\<exists>o'' acts. ug_step ev o' = Some (o'', acts) \<and> ug_inv o''"
proof (cases ev)
  case (Submit mem ppf_ok local remote is_dns data)
  then show ?thesis using submit_keeps [OF assms(1)] assms(2) by auto
next
  case (First_Job p)
  then obtain con where c: "ug_cons o' p = Some con"
    using assms(2) by (auto simp: job_pending_def split: option.splits)
  let ?c = "con\<lparr>first_job := False\<rparr>"
  have ok: "con_ok o' ?c" and len: "length (first_data con) \<le> ug_udp_mtu o'"
    using ug_invD(9) [OF assms(1) c] by (simp_all add: con_ok_def)
  have "ug_inv (con_set p ?c o')" using con_set_inv [OF assms(1) c ok] by simp
  from send_keeps [OF this, of p ?c] show ?thesis
    using First_Job c len by (simp add: connection_first_job_handler_def)
next
  case (Writer_Recv p out)
  then obtain con where c: "ug_cons o' p = Some con" "\<not> bw_out_have (send_if con)"
    using assms(2) by (auto simp: writer_empty_def split: option.splits)
  let ?c = "con\<lparr>send_if := (send_if con)\<lparr>bw_out_have := True, bw_out := out\<rparr>\<rparr>"
  have "con_ok o' ?c"
    using ug_invD(9) [OF assms(1) c(1)] assms(2) Writer_Recv by (simp add: con_ok_def writer_ok_def)
  then have "ug_inv (con_set p ?c o')" using con_set_inv [OF assms(1) c(1)] by simp
  then show ?thesis using Writer_Recv c by (simp add: bw_output_handler_recv_def)
next
  case (Recv data)
  then show ?thesis using recv_keeps [OF assms(1)] assms(2) by auto
next
  case Monitor
  then show ?thesis using assms(1) by (simp add: send_monitor_handler_def ug_inv_def con_ok_def)
next
  case Keepalive_Done
  then show ?thesis using assms by (simp add: keepalive_if_handler_done_def ug_inv_def con_ok_def)
next
  case (Connect ok)
  then show ?thesis
    using assms by (cases ok) (simp_all add: UdpGwClient_ConnectServer_def ug_inv_def con_ok_def)
next
  case Disconnect
  then show ?thesis using assms by (simp add: UdpGwClient_DisconnectServer_def ug_inv_def con_ok_def)
next
  case Decoder_Error
  then show ?thesis using assms by (simp add: decoder_handler_error_def)
qed

lemma ug_reachable_inv: "ug_reachable o' \<Longrightarrow> ug_inv o'"
proof (induction rule: ug_reachable.induct)
  case (init android udp_mtu mx buf o')
  then show ?case by (rule init_inv)
next
  case (step o' ev o'' acts)
  then show ?case using step_keeps by fastforce
qed

section \<open>Least recently used connections\<close>

text \<open>
  The abstract client: the address pairs in use, least recently used first. Using a pair moves it
  to the end; a new pair replaces the first one when all places are taken.
\<close>

definition lru_use :: "nat \<Rightarrow> 'a \<Rightarrow> 'a list \<Rightarrow> 'a list" where
  "lru_use n a xs =
     (if a \<in> set xs then remove1 a xs @ [a] else if length xs = n then tl xs @ [a] else xs @ [a])"

fun lru_act :: "nat \<Rightarrow> ug_act \<Rightarrow> UdpGwClient_conaddr list \<Rightarrow> UdpGwClient_conaddr list" where
  "lru_act n (Ug_Received local remote _) xs = lru_use n \<lparr>local_addr = local, remote_addr = remote\<rparr> xs"
| "lru_act n _ xs = xs"

fun lru_step :: "nat \<Rightarrow> ug_event \<Rightarrow> ug_act list \<Rightarrow> UdpGwClient_conaddr list \<Rightarrow> UdpGwClient_conaddr list" where
  "lru_step n (Submit mem ppf_ok local remote _ _) acts xs =
     (let a = \<lparr>local_addr = local, remote_addr = remote\<rparr> in
      if a \<notin> set xs \<and> length xs < n \<and> (mem = None \<or> \<not> ppf_ok) then xs else lru_use n a xs)"
| "lru_step n _ acts xs = fold (lru_act n) acts xs"

definition conaddrs :: "UdpGwClient \<Rightarrow> UdpGwClient_conaddr list" where
  "conaddrs o' = map (\<lambda>p. conaddr (the (ug_cons o' p))) (ug_list o')"

lemma map_remove1_inj:
  "inj_on f (insert p (set xs)) \<Longrightarrow> map f (remove1 p xs) = remove1 (f p) (map f xs)"
proof (induction xs)
  case (Cons x xs)
  have "f x = f p \<longleftrightarrow> x = p" using Cons.prems by (auto simp: inj_on_def)
  moreover have "inj_on f (insert p (set xs))" using Cons.prems by (auto simp: inj_on_def)
  ultimately show ?case using Cons.IH by auto
qed simp

lemma conaddrs_inj:
  assumes "ug_inv o'"
  shows "inj_on (\<lambda>p. conaddr (the (ug_cons o' p))) (set (ug_list o'))"
proof (rule inj_onI)
  fix p q assume pq: "p \<in> set (ug_list o')" "q \<in> set (ug_list o')"
    and eq: "conaddr (the (ug_cons o' p)) = conaddr (the (ug_cons o' q))"
  obtain c d where "ug_cons o' p = Some c" "ug_cons o' q = Some d"
    using ug_inv_con [OF assms pq(1)] ug_inv_con [OF assms pq(2)] by metis
  then show "p = q" using tree_ok_inj [OF ug_invD(7) [OF assms]] eq by simp
qed

lemma conaddrs_mem:
  assumes "ug_inv o'"
  shows "a \<in> set (conaddrs o') \<longleftrightarrow> ug_tree_by_conaddr o' a \<noteq> None"
proof
  assume "a \<in> set (conaddrs o')"
  then obtain p where p: "p \<in> set (ug_list o')" "a = conaddr (the (ug_cons o' p))"
    by (auto simp: conaddrs_def)
  obtain c where "ug_cons o' p = Some c" using ug_inv_con [OF assms p(1)] by metis
  then show "ug_tree_by_conaddr o' a \<noteq> None" using tree_ok_lookup [OF ug_invD(7) [OF assms]] p(2) by force
next
  assume "ug_tree_by_conaddr o' a \<noteq> None"
  then obtain p c where "ug_cons o' p = Some c" "conaddr c = a"
    using tree_okD [OF ug_invD(7) [OF assms]] by blast
  moreover have "p \<in> set (ug_list o')" using ug_invD(2) [OF assms] calculation by blast
  ultimately show "a \<in> set (conaddrs o')" by (force simp: conaddrs_def)
qed

lemma conaddrs_length: "ug_inv o' \<Longrightarrow> length (conaddrs o') = ug_num_connections o'"
  using ug_invD(3) by (simp add: conaddrs_def)

lemma conaddrs_con_set:
  assumes "ug_cons o' p = Some con" "conaddr con' = conaddr con"
  shows "conaddrs (con_set p con' o') = conaddrs o'"
  using assms by (simp add: conaddrs_def)

text \<open>A connection that is used moves to the end of the list.\<close>

lemma conaddrs_moved:
  assumes "ug_inv o'" "ug_cons o' p = Some con" "p \<in> set (ug_list o')"
  shows "conaddrs (o'\<lparr>ug_list := remove1 p (ug_list o') @ [p]\<rparr>) = lru_use n (conaddr con) (conaddrs o')"
proof -
  have "conaddr con \<in> set (conaddrs o')" using assms(2,3) by (force simp: conaddrs_def)
  moreover have "insert p (set (ug_list o')) = set (ug_list o')" using assms(3) by auto
  then have "map (\<lambda>p. conaddr (the (ug_cons o' p))) (remove1 p (ug_list o')) = remove1 (conaddr con) (conaddrs o')"
    using map_remove1_inj [of "\<lambda>p. conaddr (the (ug_cons o' p))" p "ug_list o'"] conaddrs_inj [OF assms(1)] assms(2)
    by (simp add: conaddrs_def)
  ultimately show ?thesis using assms(2) by (simp add: conaddrs_def lru_use_def)
qed

lemma conaddrs_send:
  assumes "connection_send p flags data o' = Some (o'', acts)"
  shows "conaddrs o'' = conaddrs o'"
  using assms
  by (auto simp: connection_send_def bind_Some Let_def conaddrs_con_set split: option.splits)

lemma submit_lru:
  assumes "ug_inv o'" "ug_enabled (Submit mem ppf_ok local remote is_dns data) o'"
    and "UdpGwClient_SubmitPacket mem ppf_ok local remote is_dns data o' = Some (o'', acts)"
  shows "conaddrs o'' = lru_step (ug_max_connections o') (Submit mem ppf_ok local remote is_dns data) acts (conaddrs o')"
proof -
  note i = ug_invD [OF assms(1)]
  let ?a = "\<lparr>local_addr = local, remote_addr = remote\<rparr>"
  have e: "baddr_wf local" "baddr_wf remote" "length data \<le> ug_udp_mtu o'"
    and wf: "conaddr_wf ?a" and mem: "\<And>p. mem = Some p \<Longrightarrow> ug_cons o' p = None"
    using assms(2) by (auto simp: conaddr_wf_def)
  consider p where "ug_tree_by_conaddr o' ?a = Some p"
    | "ug_tree_by_conaddr o' ?a = None" "ug_num_connections o' = ug_max_connections o'"
    | "ug_tree_by_conaddr o' ?a = None" "ug_num_connections o' < ug_max_connections o'"
    using i(3,4) by fastforce
  then show ?thesis
  proof cases
    case 1
    note k = submit_known [OF assms(1) e 1]
    obtain con where con: "ug_cons o' p = Some con" using ug_inv_con [OF assms(1) k(2)] by metis
    have a: "conaddr con = ?a" using tree_okD [OF i(7)] 1 con by force
    have "conaddrs o'' = lru_use (ug_max_connections o') ?a (conaddrs o')"
      using conaddrs_send assms(3) conaddrs_moved [OF assms(1) con k(2)] unfolding k(1) a by metis
    then show ?thesis using conaddrs_mem [OF assms(1), of ?a] 1 by (simp add: Let_def)
  next
    case 2
    obtain p ps con where r: "ug_list o' = p # ps" "ug_cons o' p = Some con"
      "reuse_connection ?a o' = Some (con_set p (con\<lparr>conaddr := ?a\<rparr>)
          (o'\<lparr>ug_tree_by_conaddr := (ug_tree_by_conaddr o')(conaddr con := None, ?a \<mapsto> p)\<rparr>), p)"
      "ug_inv (con_set p (con\<lparr>conaddr := ?a\<rparr>)
          (o'\<lparr>ug_tree_by_conaddr := (ug_tree_by_conaddr o')(conaddr con := None, ?a \<mapsto> p)\<rparr>))" (is "ug_inv ?o")
      using reuse_connection_ok [OF assms(1) 2(1) _ wf] 2(2) i(6) by (metis not_less_zero gr0I)
    have p: "p \<in> set (ug_list ?o)" using r(1) by simp
    note m = move_to_end_ok [OF r(4) p]
    have "conaddrs o'' = conaddrs (?o\<lparr>ug_list := remove1 p (ug_list ?o) @ [p]\<rparr>)"
      using conaddrs_send assms(3) unfolding submit_reuse [OF e 2 r(3) m(1)] by blast
    also have "\<dots> = map (\<lambda>p. conaddr (the (ug_cons o' p))) ps @ [?a]"
      using r(1) i(1) by (auto simp: conaddrs_def)
    also have "\<dots> = lru_use (ug_max_connections o') ?a (conaddrs o')"
      using conaddrs_mem [OF assms(1), of ?a] 2 conaddrs_length [OF assms(1)] r(1)
      by (simp add: lru_use_def conaddrs_def)
    finally show ?thesis using 2 conaddrs_length [OF assms(1)] by (simp add: Let_def)
  next
    case 3
    obtain n where n: "n < ug_max_connections o'" "ug_tree_by_conid o' (of_nat n) = None"
      "connection_init mem ppf_ok ?a (dns_flags is_dns) data o' =
      Some (case mem of None \<Rightarrow> o'
            | Some p \<Rightarrow> if ppf_ok then con_added p ?a (dns_flags is_dns) data n o' else o'\<lparr>ug_next_conid := n\<rparr>)"
      using connection_init_ok [OF assms(1) 3(2,1) e(3) wf mem] by metis
    have o'': "o'' = (case mem of None \<Rightarrow> o'
            | Some p \<Rightarrow> if ppf_ok then con_added p ?a (dns_flags is_dns) data n o' else o'\<lparr>ug_next_conid := n\<rparr>)"
      using submit_new [OF e 3(1)] 3(2) n(3) assms(3) by simp
    have new: "?a \<notin> set (conaddrs o')" "length (conaddrs o') < ug_max_connections o'"
      using conaddrs_mem [OF assms(1), of ?a] 3 conaddrs_length [OF assms(1)] by simp_all
    have added: "conaddrs (con_added p ?a (dns_flags is_dns) data n o') = conaddrs o' @ [?a]" if "mem = Some p" for p
    proof -
      have "p \<notin> set (ug_list o')" using i(2) mem [OF that] by auto
      then show ?thesis by (auto simp: conaddrs_def con_added_def)
    qed
    have "conaddrs (o'\<lparr>ug_next_conid := n\<rparr>) = conaddrs o'" by (simp add: conaddrs_def)
    then show ?thesis
      using new added o'' by (cases mem) (auto simp: lru_use_def Let_def)
  qed
qed

lemma conaddr_eta: "\<lparr>local_addr = local_addr a, remote_addr = remote_addr a\<rparr> = a"
  for a :: UdpGwClient_conaddr
  by (cases a) simp

lemma recv_lru:
  assumes "ug_inv o'" "recv_interface_handler_send data o' = Some (o'', acts)"
  shows "conaddrs o'' = fold (lru_act n) acts (conaddrs o')"
proof -
  have "acts = [Ug_Recv_Done] \<and> o'' = o' \<or> (\<exists>p con d. ug_cons o' p = Some con \<and> p \<in> set (ug_list o')
      \<and> acts = [Ug_Recv_Done, Ug_Received (local_addr (conaddr con)) (remote_addr (conaddr con)) d]
      \<and> o'' = o'\<lparr>ug_list := remove1 p (ug_list o') @ [p]\<rparr>)"
    using assms(2)
    by (auto simp: recv_interface_handler_send_def move_to_end_def bind_Some split: option.splits if_splits prod.splits)
  then show ?thesis
  proof
    assume "acts = [Ug_Recv_Done] \<and> o'' = o'"
    then show ?thesis by simp
  next
    assume "\<exists>p con d. ug_cons o' p = Some con \<and> p \<in> set (ug_list o')
      \<and> acts = [Ug_Recv_Done, Ug_Received (local_addr (conaddr con)) (remote_addr (conaddr con)) d]
      \<and> o'' = o'\<lparr>ug_list := remove1 p (ug_list o') @ [p]\<rparr>"
    then show ?thesis using conaddrs_moved [OF assms(1)] by (auto simp add: conaddr_eta)
  qed
qed

lemma step_lru:
  assumes "ug_inv o'" "ug_enabled ev o'" "ug_step ev o' = Some (o'', acts)"
  shows "conaddrs o'' = lru_step (ug_max_connections o') ev acts (conaddrs o')"
proof (cases ev)
  case (Submit mem ppf_ok local remote is_dns data)
  then show ?thesis using submit_lru [OF assms(1)] assms(2,3) by auto
next
  case (First_Job p)
  then obtain con where c: "ug_cons o' p = Some con"
    using assms(3) by (auto simp: bind_Some)
  from First_Job c assms(3) have s: "connection_send p (UDPGW_CLIENT_FLAG_REBIND OR first_flags con) (first_data con)
      (con_set p (con\<lparr>first_job := False\<rparr>) o') = Some (o'', acts)"
    by (simp add: connection_first_job_handler_def)
  then have "\<forall>x\<in>set acts. \<forall>n xs. lru_act n x xs = xs"
    by (auto simp: connection_send_def bind_Some Let_def split: option.splits)
  then have "fold (lru_act n) acts xs = xs" for n xs
    by (induction acts) auto
  then show ?thesis using First_Job conaddrs_send [OF s] conaddrs_con_set [OF c] by simp
next
  case (Writer_Recv p out)
  then show ?thesis using assms(3) by (auto simp: bind_Some bw_output_handler_recv_def conaddrs_con_set)
next
  case (Recv data)
  then show ?thesis using recv_lru [OF assms(1)] assms(3) by simp
next
  case (Connect ok)
  then show ?thesis
    using assms by (cases ok) (auto simp: UdpGwClient_ConnectServer_def conaddrs_def)
qed (use assms in \<open>auto simp: send_monitor_handler_def keepalive_if_handler_done_def conaddrs_def bind_Some
       UdpGwClient_DisconnectServer_def free_server_def decoder_handler_error_def split: if_splits\<close>)

section \<open>Packets to the server and back\<close>

lemma take_header_packet:
  "take_header (udpgw_packet f i a d) = Some (udpgw_flags a f, i, udpgw_addr a @ d)"
proof -
  have "mk16 (lo16 (htol16 i)) (hi16 (htol16 i)) = i" by (simp add: htol16_def)
  then show ?thesis
    by (simp add: take_header_def udpgw_packet_def udpgw_header_def bytes16_def ltoh16_def htol16_def)
qed

lemma take_addr_packet:
  assumes "baddr_wf a"
  shows "take_addr (baddr_type a = 2) (udpgw_addr a @ d) = Some (a, d)"
proof (cases a)
  case (BADDR_IPV4 ip port)
  have "mk32 (ucast ip) (ucast (drop_bit 8 ip)) (ucast (drop_bit 16 ip)) (ucast (drop_bit 24 ip)) = ip"
    by (rule mk32_parts)
  then show ?thesis using BADDR_IPV4 by (simp add: take_addr_def udpgw_addr_ipv4_def bytes32_def bytes16_def)
next
  case (BADDR_IPV6 ip port)
  then show ?thesis using assms by (simp add: take_addr_def udpgw_addr_ipv6_def bytes16_def nth_append)
qed (use assms in simp)

lemma flags_ipv6:
  "f AND UDPGW_CLIENT_FLAG_IPV6 = 0 \<Longrightarrow> (udpgw_flags a f AND UDPGW_CLIENT_FLAG_IPV6 \<noteq> 0) = (baddr_type a = 2)"
  by (simp add: udpgw_flags_def UDPGW_CLIENT_FLAG_IPV6_def word_ao_dist)

lemma flags_or:
  "f AND UDPGW_CLIENT_FLAG_IPV6 = 0 \<Longrightarrow> g AND UDPGW_CLIENT_FLAG_IPV6 = 0
   \<Longrightarrow> (f OR g) AND UDPGW_CLIENT_FLAG_IPV6 = 0"
  by (simp add: word_ao_dist)

lemma length_packet:
  "baddr_wf a \<Longrightarrow> length (udpgw_packet f i a d) \<le> 21 + length d"
  using length_addr [of a] by (simp add: udpgw_packet_def)

text \<open>A packet that comes back with its id and address is given to the user for the connection.\<close>

lemma recv_own_packet:
  assumes "ug_inv o'" "ug_cons o' p = Some con" "ug_have_server o'" "length d \<le> ug_udp_mtu o'"
    and "f AND UDPGW_CLIENT_FLAG_IPV6 = 0"
  shows "recv_interface_handler_send (udpgw_packet f (conid con) (remote_addr (conaddr con)) d) o'
     = Some (o'\<lparr>ug_list := remove1 p (ug_list o') @ [p]\<rparr>,
         [Ug_Recv_Done, Ug_Received (local_addr (conaddr con)) (remote_addr (conaddr con)) d])"
proof -
  note i = ug_invD [OF assms(1)]
  let ?a = "remote_addr (conaddr con)"
  have wf: "baddr_wf ?a" using i(9) [OF assms(2)] by (simp add: con_ok_def conaddr_wf_def)
  have len: "length (udpgw_packet f (conid con) ?a d) \<le> ug_udpgw_mtu o'"
    using length_packet [OF wf, of f "conid con" d] assms(4) i(10) by linarith
  have p: "p \<in> set (ug_list o')" using i(2) assms(2) by blast
  have look: "find_connection_by_conid o' (conid con) = Some p"
    using tree_ok_lookup [OF i(8) assms(2)] by (simp add: find_connection_by_conid_def)
  show ?thesis
    using assms(2-4) len look move_to_end_ok(1) [OF assms(1) p]
    by (simp add: recv_interface_handler_send_def take_header_packet flags_ipv6 [OF assms(5)]
        take_addr_packet [OF wf])
qed

text \<open>What an event hands over for sending: the two addresses and the data.\<close>

fun handed_over :: "ug_event \<Rightarrow> UdpGwClient \<Rightarrow> baddr \<times> baddr \<times> byte list" where
  "handed_over (Submit mem ppf_ok local remote is_dns data) o' = (local, remote, data)"
| "handed_over (First_Job p) o' =
     (let con = the (ug_cons o' p)
      in (local_addr (conaddr con), remote_addr (conaddr con), first_data con))"
| "handed_over _ o' = (BADDR_NONE, BADDR_NONE, [])"

lemma send_echo:
  assumes "ug_inv o'" "ug_cons o' p = Some con" "length d \<le> ug_udp_mtu o'" "f AND UDPGW_CLIENT_FLAG_IPV6 = 0"
    and "connection_send p f d o' = Some (o'', acts)" "Ug_Packet q pkt \<in> set acts" "ug_have_server o''"
  shows "\<exists>o3. recv_interface_handler_send pkt o''
     = Some (o3, [Ug_Recv_Done, Ug_Received (local_addr (conaddr con)) (remote_addr (conaddr con)) d])"
proof -
  obtain w where w: "connection_send p f d o' = Some (con_set p (con\<lparr>send_if := w\<rparr>) o',
        if bw_out_have (send_if con)
        then [Ug_Packet p (udpgw_packet f (conid con) (remote_addr (conaddr con)) d)] else [])"
    "writer_ok (ug_udpgw_mtu o') w"
    by (rule connection_send_ok [OF assms(1-3)])
  let ?c = "con\<lparr>send_if := w\<rparr>"
  have o'': "o'' = con_set p ?c o'"
    and pkt: "pkt = udpgw_packet f (conid ?c) (remote_addr (conaddr ?c)) d"
    using assms(5,6) w(1) by (auto split: if_splits)
  have "con_ok o' ?c" using ug_invD(9) [OF assms(1,2)] w(2) by (simp add: con_ok_def)
  then have inv: "ug_inv o''" using con_set_inv [OF assms(1,2)] o'' by simp
  have c: "ug_cons o'' p = Some ?c" "length d \<le> ug_udp_mtu o''" using o'' assms(3) by simp_all
  show ?thesis
    using recv_own_packet [OF inv c(1) assms(7) c(2) assms(4)] unfolding pkt by simp
qed

lemma submit_echo:
  assumes "ug_inv o'" "ug_enabled (Submit mem ppf_ok local remote is_dns data) o'"
    and "UdpGwClient_SubmitPacket mem ppf_ok local remote is_dns data o' = Some (o'', acts)"
    and "Ug_Packet q pkt \<in> set acts" "ug_have_server o''"
  shows "\<exists>o3. recv_interface_handler_send pkt o''
     = Some (o3, [Ug_Recv_Done, Ug_Received local remote data])"
proof -
  note i = ug_invD [OF assms(1)]
  let ?a = "\<lparr>local_addr = local, remote_addr = remote\<rparr>"
  have e: "baddr_wf local" "baddr_wf remote" "length data \<le> ug_udp_mtu o'"
    and wf: "conaddr_wf ?a"
    using assms(2) by (auto simp: conaddr_wf_def)
  have fl: "dns_flags is_dns AND UDPGW_CLIENT_FLAG_IPV6 = 0"
      "(dns_flags is_dns OR UDPGW_CLIENT_FLAG_REBIND) AND UDPGW_CLIENT_FLAG_IPV6 = 0"
    using flags_or dns_flags_ipv6 by (simp_all add: dns_flags_def)
  consider p where "ug_tree_by_conaddr o' ?a = Some p"
    | "ug_tree_by_conaddr o' ?a = None" "ug_num_connections o' = ug_max_connections o'"
    | "ug_tree_by_conaddr o' ?a = None" "ug_num_connections o' < ug_max_connections o'"
    using i(3,4) by fastforce
  then show ?thesis
  proof cases
    case 1
    note k = submit_known [OF assms(1) e 1]
    obtain con where con: "ug_cons o' p = Some con" using ug_inv_con [OF assms(1) k(2)] by metis
    have a: "conaddr con = ?a" using tree_okD [OF i(7)] 1 con by force
    show ?thesis
      using send_echo [OF move_to_end_ok(2) [OF assms(1) k(2)], of p con data] con e(3) fl(1) assms(3-5) a
      unfolding k(1) by simp
  next
    case 2
    obtain p ps con where r: "ug_list o' = p # ps" "ug_cons o' p = Some con"
      "reuse_connection ?a o' = Some (con_set p (con\<lparr>conaddr := ?a\<rparr>)
          (o'\<lparr>ug_tree_by_conaddr := (ug_tree_by_conaddr o')(conaddr con := None, ?a \<mapsto> p)\<rparr>), p)"
      "ug_inv (con_set p (con\<lparr>conaddr := ?a\<rparr>)
          (o'\<lparr>ug_tree_by_conaddr := (ug_tree_by_conaddr o')(conaddr con := None, ?a \<mapsto> p)\<rparr>))" (is "ug_inv ?o")
      using reuse_connection_ok [OF assms(1) 2(1) _ wf] 2(2) i(6) by (metis not_less_zero gr0I)
    have p: "p \<in> set (ug_list ?o)" using r(1) by simp
    note m = move_to_end_ok [OF r(4) p]
    show ?thesis
      using send_echo [OF m(2), of p "con\<lparr>conaddr := ?a\<rparr>" data] e(3) fl(2) assms(3-5)
      unfolding submit_reuse [OF e 2 r(3) m(1)] by simp
  next
    case 3
    then have "acts = []" using submit_new [OF e 3(1)] assms(3) by (auto simp: bind_Some)
    then show ?thesis using assms(4) by simp
  qed
qed

lemma step_echo:
  assumes "ug_inv o'" "ug_enabled ev o'" "ug_step ev o' = Some (o'', acts)"
    and "Ug_Packet q pkt \<in> set acts" "ug_have_server o''" "handed_over ev o' = (local, remote, data)"
  shows "\<exists>o3. recv_interface_handler_send pkt o''
     = Some (o3, [Ug_Recv_Done, Ug_Received local remote data])"
proof (cases ev)
  case (Submit mem ppf_ok l r is_dns d)
  then show ?thesis using submit_echo [OF assms(1)] assms(2-6) by auto
next
  case (First_Job p)
  then obtain con where c: "ug_cons o' p = Some con"
    using assms(3) by (auto simp: bind_Some)
  let ?c = "con\<lparr>first_job := False\<rparr>"
  from First_Job c assms(3) have s: "connection_send p (UDPGW_CLIENT_FLAG_REBIND OR first_flags con) (first_data con)
      (con_set p ?c o') = Some (o'', acts)"
    by (simp add: connection_first_job_handler_def)
  have ok: "con_ok o' con" using ug_invD(9) [OF assms(1) c] .
  then have "ug_inv (con_set p ?c o')" using con_set_inv [OF assms(1) c, of ?c] by (simp add: con_ok_def)
  moreover have "(UDPGW_CLIENT_FLAG_REBIND OR first_flags con) AND UDPGW_CLIENT_FLAG_IPV6 = 0"
    using ok flags_or dns_flags_ipv6 by (simp add: con_ok_def)
  ultimately show ?thesis
    using send_echo [OF _ _ _ _ s assms(4,5)] ok c First_Job assms(6) by (auto simp: con_ok_def Let_def)
next
  case (Recv data)
  then have "Ug_Packet q pkt \<notin> set acts"
    using assms(3) by (auto simp: recv_interface_handler_send_def bind_Some split: option.splits if_splits prod.splits)
  then show ?thesis using assms(4) by simp
next
  case (Connect ok)
  then show ?thesis using assms by (cases ok) (auto simp: UdpGwClient_ConnectServer_def)
qed (use assms in \<open>auto simp: send_monitor_handler_def keepalive_if_handler_done_def bind_Some
       UdpGwClient_DisconnectServer_def free_server_def decoder_handler_error_def split: if_splits\<close>)

lemma free_connections_ok:
  "ug_inv o' \<Longrightarrow> n = length (ug_list o') \<Longrightarrow>
   \<exists>o''. free_connections n o' = Some o'' \<and> ug_cons o'' = Map.empty \<and> ug_have_server o'' = ug_have_server o'"
proof (induction n arbitrary: o')
  case 0
  then have "dom (ug_cons o') = {}" using ug_invD(2) [OF 0(1)] by simp
  then show ?case using 0 by simp
next
  case (Suc n)
  then obtain p ps where l: "ug_list o' = p # ps" by (cases "ug_list o'") auto
  obtain o'' where f: "connection_free p o' = Some o''" "ug_inv o''" "ug_list o'' = ps"
      "ug_have_server o'' = ug_have_server o'"
    using connection_free_ok [OF Suc.prems(1), of p] l by auto
  show ?case using Suc.IH [OF f(2)] Suc.prems(2) l f by simp
qed

section \<open>Runs with a log of the submissions\<close>

text \<open>What the pending first jobs are going to send.\<close>

definition pending_of :: "UdpGwClient_connection \<Rightarrow> (baddr \<times> baddr \<times> byte list) option" where
  "pending_of con = (if first_job con
     then Some (local_addr (conaddr con), remote_addr (conaddr con), first_data con) else None)"

definition ug_pending :: "UdpGwClient \<Rightarrow> (baddr \<times> baddr \<times> byte list) set" where
  "ug_pending o' = {x. \<exists>p con. ug_cons o' p = Some con \<and> pending_of con = Some x}"

fun ug_submission :: "ug_event \<Rightarrow> (baddr \<times> baddr \<times> byte list) list" where
  "ug_submission (Submit mem ppf_ok local remote is_dns data) = [(local, remote, data)]"
| "ug_submission _ = []"

text \<open>
  A packet is submitted by the handler of the next event, after the reactor has run the pending jobs:
  \<open>ug_logged log o'\<close> holds for the runs in which no first job is pending at a submission.
\<close>

inductive ug_logged :: "(baddr \<times> baddr \<times> byte list) list \<Rightarrow> UdpGwClient \<Rightarrow> bool" where
  init: "UdpGwClient_Init android udp_mtu max_connections send_buffer_size = Some o' \<Longrightarrow>
         int udp_mtu \<le> INT_MAX \<Longrightarrow> ug_logged [] o'"
| step: "ug_logged log o' \<Longrightarrow> ug_enabled ev o' \<Longrightarrow> ug_submission ev = [] \<or> ug_pending o' = {} \<Longrightarrow>
         ug_step ev o' = Some (o'', acts) \<Longrightarrow> ug_logged (log @ ug_submission ev) o''"

lemma ug_pending_empty: "ug_pending o' = {} \<longleftrightarrow> (\<forall>p. \<not> job_pending o' p)"
  by (auto simp: ug_pending_def pending_of_def job_pending_def split: option.splits if_splits)

lemma ug_pending_cons: "ug_cons o'' = ug_cons o' \<Longrightarrow> ug_pending o'' = ug_pending o'"
  by (simp add: ug_pending_def)

lemma ug_pending_set:
  "ug_pending (con_set p c o') \<subseteq> insert (local_addr (conaddr c), remote_addr (conaddr c), first_data c) (ug_pending o')"
  "\<not> first_job c \<Longrightarrow> ug_pending (con_set p c o') \<subseteq> ug_pending o'"
  "ug_cons o' p = Some con \<Longrightarrow> pending_of c = pending_of con \<Longrightarrow> ug_pending (con_set p c o') \<subseteq> ug_pending o'"
  by (auto simp: ug_pending_def pending_of_def split: if_splits)

lemma send_pending:
  assumes "connection_send p f d o' = Some (o'', acts)"
  shows "ug_pending o'' \<subseteq> ug_pending o'"
proof -
  obtain con w where c: "ug_cons o' p = Some con" "o'' = con_set p (con\<lparr>send_if := w\<rparr>) o'"
    using assms by (auto simp: connection_send_def bind_Some Let_def split: option.splits prod.splits)
  then show ?thesis using ug_pending_set(3) [OF c(1), of "con\<lparr>send_if := w\<rparr>"] by (simp add: pending_of_def)
qed

lemma submit_pending:
  assumes "ug_inv o'" "ug_enabled (Submit mem ppf_ok local remote is_dns data) o'" "ug_pending o' = {}"
    and "UdpGwClient_SubmitPacket mem ppf_ok local remote is_dns data o' = Some (o'', acts)"
  shows "ug_pending o'' \<subseteq> {(local, remote, data)}"
proof -
  note i = ug_invD [OF assms(1)]
  let ?a = "\<lparr>local_addr = local, remote_addr = remote\<rparr>"
  have e: "baddr_wf local" "baddr_wf remote" "length data \<le> ug_udp_mtu o'"
    and wf: "conaddr_wf ?a" and mem: "\<And>p. mem = Some p \<Longrightarrow> ug_cons o' p = None"
    using assms(2) by (auto simp: conaddr_wf_def)
  consider p where "ug_tree_by_conaddr o' ?a = Some p"
    | "ug_tree_by_conaddr o' ?a = None" "ug_num_connections o' = ug_max_connections o'"
    | "ug_tree_by_conaddr o' ?a = None" "ug_num_connections o' < ug_max_connections o'"
    using i(3,4) by fastforce
  then show ?thesis
  proof cases
    case 1
    from submit_known(1) [OF assms(1) e 1] assms(4) have
      "connection_send p (dns_flags is_dns) data (o'\<lparr>ug_list := remove1 p (ug_list o') @ [p]\<rparr>) = Some (o'', acts)" by simp
    from send_pending [OF this] show ?thesis
      using assms(3) ug_pending_cons [of "o'\<lparr>ug_list := remove1 p (ug_list o') @ [p]\<rparr>" o'] by simp
  next
    case 2
    obtain p ps con where r: "ug_list o' = p # ps" "ug_cons o' p = Some con"
      "reuse_connection ?a o' = Some (con_set p (con\<lparr>conaddr := ?a\<rparr>)
          (o'\<lparr>ug_tree_by_conaddr := (ug_tree_by_conaddr o')(conaddr con := None, ?a \<mapsto> p)\<rparr>), p)" (is "_ = Some (?o, p)")
      using reuse_connection_ok [OF assms(1) 2(1) _ wf] 2(2) i(6) by (metis not_less_zero gr0I)
    have m: "move_to_end p ?o = Some (?o\<lparr>ug_list := remove1 p (ug_list ?o) @ [p]\<rparr>)"
      using r(1) by (simp add: move_to_end_def con_set_def)
    have nj: "\<not> first_job con" using assms(3) r(2) unfolding ug_pending_empty job_pending_def by (metis option.simps(5))
    have "ug_pending o'' \<subseteq> ug_pending (?o\<lparr>ug_list := remove1 p (ug_list ?o) @ [p]\<rparr>)"
      by (rule send_pending) (use assms(4) submit_reuse [OF e 2 r(3) m] in simp)
    also have "\<dots> = ug_pending ?o" by (rule ug_pending_cons) simp
    also have "\<dots> \<subseteq> ug_pending (o'\<lparr>ug_tree_by_conaddr := (ug_tree_by_conaddr o')(conaddr con := None, ?a \<mapsto> p)\<rparr>)"
      by (rule ug_pending_set(2)) (simp add: nj)
    also have "\<dots> = {}" using assms(3) by (simp add: ug_pending_def)
    finally show ?thesis by blast
  next
    case 3
    obtain n where n: "connection_init mem ppf_ok ?a (dns_flags is_dns) data o' =
      Some (case mem of None \<Rightarrow> o'
            | Some p \<Rightarrow> if ppf_ok then con_added p ?a (dns_flags is_dns) data n o' else o'\<lparr>ug_next_conid := n\<rparr>)"
      using connection_init_ok [OF assms(1) 3(2,1) e(3) wf mem] by metis
    have "ug_pending (con_added p ?a f data n o') \<subseteq> {(local, remote, data)}" for p f
      using assms(3) unfolding con_added_def
      by (intro subset_trans [OF ug_pending_set(1)]) (auto simp: ug_pending_def)
    moreover have "ug_pending (o'\<lparr>ug_next_conid := n\<rparr>) = {}" using assms(3) by (simp add: ug_pending_def)
    moreover have "o'' = (case mem of None \<Rightarrow> o'
            | Some p \<Rightarrow> if ppf_ok then con_added p ?a (dns_flags is_dns) data n o' else o'\<lparr>ug_next_conid := n\<rparr>)"
      using assms(4) submit_new [OF e 3(1), of mem ppf_ok is_dns] 3(2) n by simp
    ultimately show ?thesis using assms(3) by (cases mem) (simp_all split: if_split)
  qed
qed

lemma recv_pending:
  assumes "recv_interface_handler_send data o' = Some (o'', acts)"
  shows "ug_cons o'' = ug_cons o'"
  using assms
  by (auto simp: recv_interface_handler_send_def move_to_end_def bind_Some split: option.splits if_splits prod.splits)

lemma step_pending:
  assumes "ug_inv o'" "ug_enabled ev o'" "ug_step ev o' = Some (o'', acts)"
    and "ug_submission ev = [] \<or> ug_pending o' = {}"
  shows "ug_pending o'' \<subseteq> (if ug_submission ev = [] then ug_pending o' else {last (ug_submission ev)})"
proof (cases ev)
  case (Submit mem ppf_ok local remote is_dns data)
  then show ?thesis using submit_pending [OF assms(1)] assms(2-4) by simp
next
  case (First_Job p)
  then obtain con where c: "ug_cons o' p = Some con"
    "connection_first_job_handler p (con_set p (con\<lparr>first_job := False\<rparr>) o') = Some (o'', acts)"
    using assms(3) by (auto simp: bind_Some)
  then obtain d f where "connection_send p f d (con_set p (con\<lparr>first_job := False\<rparr>) o') = Some (o'', acts)"
    by (auto simp: connection_first_job_handler_def bind_Some)
  from send_pending [OF this] show ?thesis
    using ug_pending_set(2) [of "con\<lparr>first_job := False\<rparr>" p o'] First_Job by auto
next
  case (Writer_Recv p out)
  then obtain con w where c: "ug_cons o' p = Some con" "o'' = con_set p (con\<lparr>send_if := w\<rparr>) o'"
    using assms(3) by (auto simp: bind_Some)
  show ?thesis
    using ug_pending_set(3) [OF c(1), of "con\<lparr>send_if := w\<rparr>"] c(2) Writer_Recv by (simp add: pending_of_def)
next
  case (Recv data)
  then have "ug_cons o'' = ug_cons o'" using assms(3) recv_pending [of data o' o'' acts] by simp
  then show ?thesis using Recv ug_pending_cons [of o'' o'] by simp
next
  case (Connect ok)
  then have "ug_cons o'' = ug_cons o'" using assms(3) by (cases ok) (auto simp: UdpGwClient_ConnectServer_def bind_Some)
  then show ?thesis using Connect ug_pending_cons [of o'' o'] by simp
next
  case Monitor
  then have "ug_cons o'' = ug_cons o'" using assms(3) by (auto simp: send_monitor_handler_def split: if_splits)
  then show ?thesis using Monitor ug_pending_cons [of o'' o'] by simp
next
  case Keepalive_Done
  then have "ug_cons o'' = ug_cons o'" using assms(3) by (auto simp: keepalive_if_handler_done_def bind_Some)
  then show ?thesis using Keepalive_Done ug_pending_cons [of o'' o'] by simp
next
  case Disconnect
  then have "ug_cons o'' = ug_cons o'" using assms(3) by (auto simp: UdpGwClient_DisconnectServer_def bind_Some)
  then show ?thesis using Disconnect ug_pending_cons [of o'' o'] by simp
next
  case Decoder_Error
  then have "ug_cons o'' = ug_cons o'" using assms(3) by (auto simp: bind_Some)
  then show ?thesis using Decoder_Error ug_pending_cons [of o'' o'] by simp
qed

definition last_log :: "'a list \<Rightarrow> 'a set" where
  "last_log log = (if log = [] then {} else {last log})"

lemma ug_logged_ok: "ug_logged log o' \<Longrightarrow> ug_reachable o' \<and> ug_pending o' \<subseteq> last_log log"
proof (induction rule: ug_logged.induct)
  case (init android udp_mtu mx buf o')
  then have "ug_cons o' = Map.empty" by (auto simp: UdpGwClient_Init_def bind_Some Let_def)
  then show ?case using ug_reachable.init [OF init] by (simp add: ug_pending_def)
next
  case (step log o' ev o'' acts)
  then have r: "ug_reachable o'" "ug_pending o' \<subseteq> last_log log" by simp_all
  have "ug_pending o'' \<subseteq> (if ug_submission ev = [] then ug_pending o' else {last (ug_submission ev)})"
    by (rule step_pending [OF ug_reachable_inv [OF r(1)] step.hyps(2,4,3)])
  then have "ug_pending o'' \<subseteq> last_log (log @ ug_submission ev)"
    using r(2) by (auto simp: last_log_def split: if_splits)
  then show ?case using ug_reachable.step [OF r(1) step.hyps(2,4)] by simp
qed

lemma ug_logged_last:
  assumes "ug_logged log o'" "ug_enabled ev o'" "ug_step ev o' = Some (o'', acts)" "Ug_Packet q pkt \<in> set acts"
  shows "log @ ug_submission ev \<noteq> [] \<and> last (log @ ug_submission ev) = handed_over ev o'"
proof (cases ev)
  case (First_Job p)
  then obtain con where c: "ug_cons o' p = Some con" "first_job con"
    using assms(2) by (auto simp: job_pending_def split: option.splits)
  then have "handed_over ev o' \<in> ug_pending o'"
    using First_Job by (auto simp: ug_pending_def pending_of_def Let_def)
  then have "handed_over ev o' \<in> last_log log" using ug_logged_ok [OF assms(1)] by blast
  then show ?thesis using First_Job by (auto simp: last_log_def split: if_splits)
next
  case (Writer_Recv p out)
  then show ?thesis using assms(3,4) by (auto simp: bind_Some)
next
  case (Recv data)
  then show ?thesis
    using assms(3,4) by (auto simp: recv_interface_handler_send_def bind_Some split: option.splits if_splits prod.splits)
next
  case (Connect ok)
  then show ?thesis using assms(3,4) by (cases ok) (auto simp: UdpGwClient_ConnectServer_def)
qed (use assms(3,4) in \<open>auto simp: send_monitor_handler_def keepalive_if_handler_done_def bind_Some
       UdpGwClient_DisconnectServer_def free_server_def decoder_handler_error_def split: if_splits\<close>)

section \<open>Example runs\<close>

fun ug_run :: "ug_event list \<Rightarrow> UdpGwClient \<Rightarrow> UdpGwClient option" where
  "ug_run [] o' = Some o'"
| "ug_run (ev # evs) o' =
     (if ug_enabled ev o' then do { (o', _) \<leftarrow> ug_step ev o'; ug_run evs o' } else None)"

lemma ug_run_reachable: "ug_reachable o' \<Longrightarrow> ug_run evs o' = Some o'' \<Longrightarrow> ug_reachable o''"
proof (induction evs arbitrary: o')
  case (Cons ev evs)
  then show ?case
    by (auto simp: bind_Some split: if_splits intro: ug_reachable.step)
qed simp

lemma ug_run_logged:
  assumes "ug_logged log o'" "ug_run evs o' = Some o''" "\<forall>ev\<in>set evs. ug_submission ev = []"
  shows "ug_logged log o''"
  using assms
proof (induction evs arbitrary: o')
  case (Cons ev evs)
  then obtain o1 acts where "ug_enabled ev o'" "ug_step ev o' = Some (o1, acts)" "ug_run evs o1 = Some o''"
    by (auto simp: bind_Some split: if_splits)
  then show ?case using Cons.IH [of o1] ug_logged.step [OF Cons.prems(1), of ev o1 acts] Cons.prems(3) by simp
qed simp

definition ug_start :: UdpGwClient where
  "ug_start =
     \<lparr>ug_udp_mtu = 2, ug_max_connections = 2, ug_send_buffer_size = 1, ug_udpgw_mtu = 24, ug_pp_mtu = 26,
      ug_tree_by_conaddr = Map.empty, ug_tree_by_conid = Map.empty, ug_list = [],
      ug_num_connections = 0, ug_next_conid = 0, ug_keepalive_packet = [3, 0, 1, 0, 0],
      ug_keepalive_sending = False, ug_have_server = False, ug_cons = Map.empty\<rparr>"

lemma ug_start_init: "UdpGwClient_Init True 2 2 1 = Some ug_start"
proof -
  have m: "udpgw_compute_mtu True (int 2) = 24"
    using udpgw_compute_mtu_eq [of 2 True] by (simp add: INT_MAX_def)
  have "bytes16 (of_nat 3) @ udpgw_header UDPGW_CLIENT_FLAG_KEEPALIVE 0 = [3, 0, 1, 0, 0]" by code_simp
  then show ?thesis
    unfolding UdpGwClient_Init_def m
    by (simp add: PACKETPROTO_MAXPAYLOAD_def UINT16_MAX_def ug_start_def)
qed

definition ug_example :: "ug_event list \<Rightarrow> UdpGwClient" where
  "ug_example evs = the (ug_run evs ug_start)"

lemma ug_example_reachable:
  assumes "ug_run evs ug_start \<noteq> None"
  shows "ug_reachable (ug_example evs)"
proof -
  obtain s where s: "ug_run evs ug_start = Some s" using assms by blast
  have "ug_reachable ug_start"
    by (rule ug_reachable.init [OF ug_start_init]) (simp add: INT_MAX_def)
  then have "ug_reachable s" using ug_run_reachable s by blast
  then show ?thesis using s by (simp add: ug_example_def)
qed

text \<open>Two local ports talk to one server address; the first connection has been opened and sent.\<close>

definition ex_local :: "nat \<Rightarrow> baddr" where "ex_local n = BADDR_IPV4 16777226 (of_nat n)"
definition ex_remote :: baddr where "ex_remote = BADDR_IPV4 134744072 13568"

definition ex_events :: "ug_event list" where
  "ex_events = [Submit (Some 7) True (ex_local 1) ex_remote True [10], Writer_Recv 7 (replicate 24 0),
     Connect True, First_Job 7, Writer_Recv 7 (replicate 24 0),
     Submit (Some 8) True (ex_local 2) ex_remote False [11]]"

lemma ex_events_run: "ug_run ex_events ug_start \<noteq> None"
  by code_simp

section \<open>Properties\<close>

text \<open>
  C18. In every reachable state of the UDP gateway client every event that may occur is handled
  without a failed assertion: no key is inserted twice into a tree, the search for an id ends, no
  packet overruns the buffer it is written to. Freeing the client then releases every connection.
\<close>

theorem UdpGwClient_no_failure:
  assumes "ug_reachable o'"
  shows "(\<forall>ev. ug_enabled ev o' \<longrightarrow> ug_step ev o' \<noteq> None)
    \<and> (\<exists>o'' acts. UdpGwClient_Free o' = Some (o'', acts) \<and> ug_cons o'' = Map.empty)"
proof (intro conjI allI impI)
  fix ev assume "ug_enabled ev o'"
  then show "ug_step ev o' \<noteq> None"
    using step_keeps [OF ug_reachable_inv [OF assms]] by (metis option.distinct(1))
next
  show "\<exists>o'' acts. UdpGwClient_Free o' = Some (o'', acts) \<and> ug_cons o'' = Map.empty"
    using free_connections_ok [OF ug_reachable_inv [OF assms] refl] by (auto simp: UdpGwClient_Free_def)
qed

theorem UdpGwClient_no_failure_witness:
  "ug_step (Submit (Some 9) True (ex_local 3) ex_remote False [1, 2]) (ug_example ex_events) \<noteq> None"
  by (rule UdpGwClient_no_failure [OF ug_example_reachable [OF ex_events_run], THEN conjunct1, rule_format])
     code_simp

text \<open>
  C19. The two search trees of the gateway client agree with its connections in every reachable
  state: an id or an address pair finds exactly the connection that has it, so no two connections
  share either; the list holds each connection once, and there are never more than the limit, which
  is at most 65536.
\<close>

theorem UdpGwClient_tables:
  assumes "ug_reachable o'"
  shows "(\<forall>i p. find_connection_by_conid o' i = Some p
            \<longleftrightarrow> (\<exists>con. ug_cons o' p = Some con \<and> conid con = i))
    \<and> (\<forall>a p. find_connection_by_conaddr o' a = Some p
            \<longleftrightarrow> (\<exists>con. ug_cons o' p = Some con \<and> conaddr con = a))
    \<and> distinct (ug_list o') \<and> set (ug_list o') = dom (ug_cons o')
    \<and> ug_num_connections o' = card (dom (ug_cons o'))
    \<and> ug_num_connections o' \<le> ug_max_connections o' \<and> ug_max_connections o' \<le> 65536"
proof -
  note i = ug_invD [OF ug_reachable_inv [OF assms]]
  have "card (dom (ug_cons o')) = length (ug_list o')"
    using distinct_card [OF i(1)] i(2) by simp
  moreover have "find_connection_by_conid o' c = Some p
      \<longleftrightarrow> (\<exists>con. ug_cons o' p = Some con \<and> conid con = c)" for c p
    unfolding find_connection_by_conid_def by (rule tree_okD [OF i(8)])
  moreover have "find_connection_by_conaddr o' a = Some p
      \<longleftrightarrow> (\<exists>con. ug_cons o' p = Some con \<and> conaddr con = a)" for a p
    unfolding find_connection_by_conaddr_def by (rule tree_okD [OF i(7)])
  ultimately show ?thesis using i(1-5) by simp
qed

theorem UdpGwClient_tables_witness:
  "ug_num_connections (ug_example ex_events) = card (dom (ug_cons (ug_example ex_events)))"
  using UdpGwClient_tables [OF ug_example_reachable [OF ex_events_run]] by blast

text \<open>
  C20. The search for a connection id ends whenever fewer connections than the limit exist, and it
  finds the first unused id at or after \<open>next_conid\<close> in cyclic order, below the limit.
\<close>

theorem UdpGwClient_unused_conid:
  assumes "ug_reachable o'" "ug_num_connections o' < ug_max_connections o'"
  shows "\<exists>d. find_unused_conid o'
       = Some (o'\<lparr>ug_next_conid := (ug_next_conid o' + d) mod ug_max_connections o'\<rparr>,
               of_nat ((ug_next_conid o' + d) mod ug_max_connections o'))
     \<and> find_connection_by_conid o' (of_nat ((ug_next_conid o' + d) mod ug_max_connections o')) = None
     \<and> (\<forall>k<d. find_connection_by_conid o' (of_nat ((ug_next_conid o' + k) mod ug_max_connections o')) \<noteq> None)"
  using find_unused_conid_finds [OF ug_reachable_inv [OF assms(1)] assms(2)]
  unfolding find_connection_by_conid_def by metis

definition ex_start :: "ug_event list" where
  "ex_start = [Submit (Some 7) True (ex_local 1) ex_remote True [10]]"

theorem UdpGwClient_unused_conid_witness:
  "\<exists>r. find_unused_conid (ug_example ex_start) = Some r"
proof -
  have "ug_run ex_start ug_start \<noteq> None" by code_simp
  then have "ug_reachable (ug_example ex_start)" by (rule ug_example_reachable)
  moreover have "ug_num_connections (ug_example ex_start) < ug_max_connections (ug_example ex_start)"
    by code_simp
  ultimately show ?thesis using UdpGwClient_unused_conid by blast
qed

text \<open>
  C21. The gateway client keeps its connections in least-recently-used order: seen as the list of
  its address pairs, submitting a packet and delivering a received one move the pair to the end, a
  new pair takes the place of the first when the limit is reached, and nothing else changes the
  list.
\<close>

theorem UdpGwClient_lru:
  assumes "ug_reachable o'" "ug_enabled ev o'" "ug_step ev o' = Some (o'', acts)"
  shows "conaddrs o'' = lru_step (ug_max_connections o') ev acts (conaddrs o')"
  by (rule step_lru [OF ug_reachable_inv [OF assms(1)] assms(2,3)])

theorem UdpGwClient_lru_witness:
  "conaddrs (fst (the (ug_step (Submit None True (ex_local 3) ex_remote False [1, 2]) (ug_example ex_events))))
   = [\<lparr>local_addr = ex_local 2, remote_addr = ex_remote\<rparr>, \<lparr>local_addr = ex_local 3, remote_addr = ex_remote\<rparr>]"
proof -
  let ?ev = "Submit None True (ex_local 3) ex_remote False [1, 2]" and ?s = "ug_example ex_events"
  have ne: "ug_step ?ev ?s \<noteq> None" by code_simp
  then obtain o'' acts where s: "ug_step ?ev ?s = Some (o'', acts)" by fastforce
  have "conaddrs o'' = lru_step (ug_max_connections ?s) ?ev acts (conaddrs ?s)"
    by (rule UdpGwClient_lru [OF ug_example_reachable [OF ex_events_run] _ s]) code_simp
  also have "\<dots> = lru_use 2 \<lparr>local_addr = ex_local 3, remote_addr = ex_remote\<rparr>
      [\<lparr>local_addr = ex_local 1, remote_addr = ex_remote\<rparr>, \<lparr>local_addr = ex_local 2, remote_addr = ex_remote\<rparr>]"
  proof -
    have "ug_max_connections ?s = 2" "conaddrs ?s = [\<lparr>local_addr = ex_local 1, remote_addr = ex_remote\<rparr>,
        \<lparr>local_addr = ex_local 2, remote_addr = ex_remote\<rparr>]"
      by code_simp+
    then show ?thesis by simp
  qed
  also have "\<dots> = [\<lparr>local_addr = ex_local 2, remote_addr = ex_remote\<rparr>, \<lparr>local_addr = ex_local 3, remote_addr = ex_remote\<rparr>]"
    by code_simp
  finally show ?thesis by (simp add: s del: ug_step.simps)
qed

text \<open>
  C22. Packets survive the way to the server and back. In every run in which the pending first job has run
  when the next packet is submitted, the packet that an event puts on a connection's queue is the one
  submitted last, whether it is sent at once or by the first job of a new connection: when the server
  returns it on the same connection, the user is handed exactly the addresses and the data of
  the last entry of the log.
\<close>

theorem UdpGwClient_echo:
  assumes "ug_logged log o'" "ug_enabled ev o'" "ug_step ev o' = Some (o'', acts)"
    and "Ug_Packet q pkt \<in> set acts" "ug_have_server o''"
  shows "\<exists>local remote data o3. log @ ug_submission ev \<noteq> [] \<and> last (log @ ug_submission ev) = (local, remote, data)
     \<and> recv_interface_handler_send pkt o'' = Some (o3, [Ug_Recv_Done, Ug_Received local remote data])"
proof -
  obtain local remote data where h: "handed_over ev o' = (local, remote, data)" by (metis surj_pair)
  moreover have "ug_inv o'" using ug_logged_ok [OF assms(1)] ug_reachable_inv by blast
  ultimately show ?thesis
    using ug_logged_last [OF assms(1-4)] step_echo [OF _ assms(2-5) h] by metis
qed

definition ex_first :: "ug_event list" where "ex_first = take 3 ex_events"

lemma ex_first_logged: "ug_logged [(ex_local 1, ex_remote, [10])] (ug_example ex_first)"
proof -
  let ?e = "Submit (Some 7) True (ex_local 1) ex_remote True [10]"
  have "ug_logged [] ug_start" by (rule ug_logged.init [OF ug_start_init]) (simp add: INT_MAX_def)
  moreover have en: "ug_enabled ?e ug_start" by code_simp
  moreover have "ug_pending ug_start = {}" by (simp add: ug_pending_def ug_start_def)
  moreover obtain s1 acts where s1: "ug_step ?e ug_start = Some (s1, acts)"
  proof -
    have "ug_step ?e ug_start \<noteq> None" by code_simp
    then show thesis using that by fastforce
  qed
  ultimately have 1: "ug_logged [(ex_local 1, ex_remote, [10])] s1" using ug_logged.step [of "[]" ug_start ?e s1 acts] by simp
  have "ug_run ex_first ug_start \<noteq> None" by code_simp
  then have "ug_run ex_first ug_start = Some (ug_example ex_first)" by (auto simp: ug_example_def)
  then have "ug_run (tl ex_first) s1 = Some (ug_example ex_first)"
    using s1 en by (simp add: ex_first_def ex_events_def del: ug_step.simps ug_enabled.simps split: if_splits)
  then show ?thesis by (rule ug_run_logged [OF 1]) (simp add: ex_first_def ex_events_def)
qed

theorem UdpGwClient_echo_witness:
  "\<exists>o3. recv_interface_handler_send [6, 0, 0, 8, 8, 8, 8, 0, 53, 10]
       (fst (the (ug_step (First_Job 7) (ug_example ex_first))))
     = Some (o3, [Ug_Recv_Done, Ug_Received (ex_local 1) ex_remote [10]])"
proof -
  let ?ev = "First_Job 7" and ?s = "ug_example ex_first"
  have ne: "ug_step ?ev ?s \<noteq> None" by code_simp
  then obtain o'' acts where s: "ug_step ?ev ?s = Some (o'', acts)" by fastforce
  have "ug_enabled ?ev ?s" by code_simp
  moreover have "acts = [Ug_Packet 7 [6, 0, 0, 8, 8, 8, 8, 0, 53, 10]]"
  proof -
    have "snd (the (ug_step ?ev ?s)) = [Ug_Packet 7 [6, 0, 0, 8, 8, 8, 8, 0, 53, 10]]" by code_simp
    then show ?thesis by (simp add: s del: ug_step.simps)
  qed
  moreover have "ug_have_server o''"
  proof -
    have "ug_have_server (fst (the (ug_step ?ev ?s)))" by code_simp
    then show ?thesis by (simp add: s del: ug_step.simps)
  qed
  ultimately have "\<exists>o3. recv_interface_handler_send [6, 0, 0, 8, 8, 8, 8, 0, 53, 10] o''
     = Some (o3, [Ug_Recv_Done, Ug_Received (ex_local 1) ex_remote [10]])"
    using UdpGwClient_echo [OF ex_first_logged _ s] by auto
  then show ?thesis by (simp add: s del: ug_step.simps)
qed

end
