(* ===== verification/SocksUdpHeader.thy ===== *)
theory SocksUdpHeader
  imports UdpGwClientInv
begin

text \<open>
  The header of SOCKS UDP datagrams (\<open>misc/socks_proto.h\<close>), which both SOCKS UDP clients write in
  front of the data, and the lemmas on writing header, address and data one behind the other.
\<close>

definition SOCKS_ATYP_IPV4 :: byte where "SOCKS_ATYP_IPV4 = 1"
definition SOCKS_ATYP_IPV6 :: byte where "SOCKS_ATYP_IPV6 = 4"

text \<open>The memory image of the packed struct.\<close>

definition socks_udp_header :: "u16 \<Rightarrow> byte \<Rightarrow> byte \<Rightarrow> byte list" where
  "socks_udp_header rsv frag atyp = bytes16 rsv @ [frag, atyp]"

lemma length_socks_header [simp]: "length (socks_udp_header r f a) = 4"
  by (simp add: socks_udp_header_def)

lemma memcpy_chain:
  "(memcpy_out 0 h out \<bind> (\<lambda>o1. memcpy_out (length h) a o1 \<bind> (\<lambda>o2. memcpy_out (length h + length a) d o2)))
   = (if length h + length a + length d \<le> length out
      then Some (write_at (write_at (write_at out 0 h) (length h) a) (length h + length a) d) else None)"
proof (cases "length h + length a \<le> length out")
  case True
  then have "length (write_at out 0 h) = length out" "length (write_at (write_at out 0 h) (length h) a) = length out"
    by (auto simp: write_at_def)
  then show ?thesis using True by (simp add: memcpy_out_def assert_that_def)
next
  case False
  then show ?thesis
    by (cases "length h \<le> length out") (simp_all add: memcpy_out_def assert_that_def)
qed

lemma chain_written:
  assumes "length h + length a + length d \<le> length out"
  shows "take (length h + length a + length d)
      (write_at (write_at (write_at out 0 h) (length h) a) (length h + length a) d) = h @ a @ d"
proof -
  let ?o1 = "write_at out 0 h" and ?o2 = "write_at (write_at out 0 h) (length h) a"
  have l: "length ?o1 = length out" "length ?o2 = length out"
    using assms by (auto simp: write_at_def)
  have "take (length h) ?o1 = h" using take_write_at [of 0 h out] assms by simp
  then have "take (length h + length a) ?o2 = h @ a"
    using take_write_at [of "length h" a ?o1] assms l by simp
  then show ?thesis using take_write_at [of "length h + length a" d ?o2] assms l by simp
qed

end
