(* ===== verification/SocksUdpGwClient.thy ===== *)
theory SocksUdpGwClient
  imports SocksUdpHeader
begin

text \<open>
  The UDP relay of the Android build (\<open>tun2socks/SocksUdpGwClient.c\<close> under \<open>__ANDROID__\<close>): each
  local address has a datagram socket of its own, to the SOCKS server with a SOCKS UDP header in
  front of the data, or to the DNS gateway without one.

  A connection is a heap object; the tree maps a local address to it (\<open>conaddr_comparator\<close> looks
  at nothing else). \<open>sg_jobs\<close> are the connections whose \<open>first_job\<close> is pending, the next one first.
  Results of \<open>malloc\<close>, of the socket calls and of the buffers' initialisation are arguments.
\<close>

record SocksUdpGwClient_conaddr =
  sg_local_addr :: baddr
  sg_remote_addr :: baddr

record SocksUdpGwClient_connection =
  sc_conaddr :: SocksUdpGwClient_conaddr
  sc_first_data :: "byte list"
  sc_is_dns :: bool
  sc_send_addr :: baddr
  sc_udp_send_writer :: BufferWriter

record SocksUdpGwClient =
  sg_udp_mtu :: nat
  sg_socks_server_addr :: baddr
  sg_dnsgw :: baddr
  sg_udpgw_mtu :: int
  sg_num_connections :: nat
  sg_max_connections :: nat
  sg_tree :: "baddr \<rightharpoonup> nat"
  sg_list :: "nat list"
  sg_cons :: "nat \<rightharpoonup> SocksUdpGwClient_connection"
  sg_jobs :: "nat list"

record sg_results =
  sr_mem :: "nat option"
  sr_dgram_ok :: bool
  sr_reuse_ok :: bool
  sr_buffer_ok :: bool
  sr_recv_buffer_ok :: bool

datatype sg_act =
    Sg_Recv_Done nat
  | Sg_Datagram nat baddr "byte list"
  | Sg_Received baddr baddr "byte list"

definition sg_con_set :: "nat \<Rightarrow> SocksUdpGwClient_connection \<Rightarrow> SocksUdpGwClient \<Rightarrow> SocksUdpGwClient" where
  "sg_con_set p con o' = o'\<lparr>sg_cons := (sg_cons o')(p \<mapsto> con)\<rparr>"

section \<open>Receiving\<close>

text \<open>The packet behind the header with the address in it; \<open>None\<close> where it is rejected.\<close>

definition take_socks_udp :: "byte list \<Rightarrow> (baddr \<times> byte list) option" where
  "take_socks_udp data =
     (if length data < 4 then None
      else if data ! 2 \<noteq> 0 then None
      else take_addr (data ! 3 = SOCKS_ATYP_IPV6) (drop 4 data))"

definition dgram_handler_received ::
  "nat \<Rightarrow> byte list \<Rightarrow> SocksUdpGwClient \<Rightarrow> (SocksUdpGwClient \<times> sg_act list) option" where
  "dgram_handler_received p data o' = do {
     con \<leftarrow> sg_cons o' p;
     assert_that (int (length data) \<le> sg_udpgw_mtu o');
     case (if sc_is_dns con then Some (sg_remote_addr (sc_conaddr con), data) else take_socks_udp data) of
       None \<Rightarrow> Some (o', [Sg_Recv_Done p])
     | Some (remote, data) \<Rightarrow>
         let con = con\<lparr>sc_conaddr := (sc_conaddr con)\<lparr>sg_remote_addr := remote\<rparr>\<rparr>;
             o' = sg_con_set p con o'
         in if length data > sg_udp_mtu o' then Some (o', [Sg_Recv_Done p])
            else Some (o', [Sg_Recv_Done p,
                   Sg_Received (sg_local_addr (sc_conaddr con)) (sg_remote_addr (sc_conaddr con)) data])
   }"

section \<open>Connections\<close>

definition sg_conaddr_comparator :: "SocksUdpGwClient_conaddr \<Rightarrow> SocksUdpGwClient_conaddr \<Rightarrow> int" where
  "sg_conaddr_comparator v1 v2 = BAddr_CompareOrder (sg_local_addr v1) (sg_local_addr v2)"

definition find_connection ::
  "SocksUdpGwClient \<Rightarrow> SocksUdpGwClient_conaddr \<Rightarrow> bool \<Rightarrow> nat option option" where
  "find_connection o' a is_dns =
     (case sg_tree o' (sg_local_addr a) of None \<Rightarrow> Some None
      | Some p \<Rightarrow> do {
          con \<leftarrow> sg_cons o' p;
          Some (if sc_is_dns con \<noteq> is_dns then None else Some p)
        })"

text \<open>The job of the connection is not freed; running it later would use freed memory.\<close>

definition sg_connection_free :: "nat \<Rightarrow> SocksUdpGwClient \<Rightarrow> SocksUdpGwClient option" where
  "sg_connection_free p o' = do {
     con \<leftarrow> sg_cons o' p;
     assert_that (p \<in> set (sg_list o'));
     t \<leftarrow> tree_remove (sg_local_addr (sc_conaddr con)) p (sg_tree o');
     Some (o'\<lparr>sg_num_connections := sg_num_connections o' - 1,
              sg_list := remove1 p (sg_list o'), sg_tree := t,
              sg_cons := (sg_cons o')(p := None)\<rparr>)
   }"

definition remove_lru_connection ::
  "SocksUdpGwClient_conaddr \<Rightarrow> bool \<Rightarrow> SocksUdpGwClient \<Rightarrow> SocksUdpGwClient option" where
  "remove_lru_connection a is_dns o' = do {
     con \<leftarrow> find_connection o' a is_dns;
     assert_that (con = None);
     assert_that (sg_num_connections o' > 0);
     assert_that (sg_list o' \<noteq> []);
     sg_connection_free (hd (sg_list o')) o'
   }"

definition reset_connection ::
  "nat \<Rightarrow> SocksUdpGwClient_conaddr \<Rightarrow> bool \<Rightarrow> SocksUdpGwClient \<Rightarrow> SocksUdpGwClient option" where
  "reset_connection p a is_dns o' = do {
     con \<leftarrow> sg_cons o' p;
     Some (sg_con_set p (con\<lparr>sc_conaddr := a, sc_is_dns := is_dns\<rparr>) o')
   }"

definition put_socks_header :: "baddr \<Rightarrow> byte list \<times> nat \<Rightarrow> (byte list \<times> nat) option" where
  "put_socks_header remote = (\<lambda>(out, out_pos). do {
     let atyp = (if baddr_type remote = 1 then SOCKS_ATYP_IPV4 else SOCKS_ATYP_IPV6);
     out \<leftarrow> memcpy_out out_pos (socks_udp_header 0 0 atyp) out;
     Some (out, out_pos + 4)
   })"

text \<open>The result has the return value: 1 when the buffer is full.\<close>

definition sg_connection_send ::
  "nat \<Rightarrow> byte list \<Rightarrow> SocksUdpGwClient \<Rightarrow> (SocksUdpGwClient \<times> sg_act list \<times> int) option" where
  "sg_connection_send p data o' = do {
     con \<leftarrow> sg_cons o' p;
     (w, out) \<leftarrow> BufferWriter_StartPacket (sc_udp_send_writer con);
     case out of None \<Rightarrow> Some (sg_con_set p (con\<lparr>sc_udp_send_writer := w\<rparr>) o', [], 1)
     | Some out \<Rightarrow> do {
         let remote = sg_remote_addr (sc_conaddr con);
         (out, out_pos) \<leftarrow> (if \<not> sc_is_dns con
            then put_socks_header remote (out, 0) \<bind> put_addr remote
            else Some (out, 0));
         out \<leftarrow> memcpy_out out_pos data out;
         (w, len) \<leftarrow> BufferWriter_EndPacket (out_pos + length data) w;
         Some (sg_con_set p (con\<lparr>sc_udp_send_writer := w\<rparr>) o',
               [Sg_Datagram p (sc_send_addr con) (take len out)], 0)
       }
   }"

definition sg_connection_first_job_handler ::
  "nat \<Rightarrow> SocksUdpGwClient \<Rightarrow> (SocksUdpGwClient \<times> sg_act list) option" where
  "sg_connection_first_job_handler p o' = do {
     con \<leftarrow> sg_cons o' p;
     (o', acts, _) \<leftarrow> sg_connection_send p (sc_first_data con) o';
     Some (o', acts)
   }"

text \<open>On any failure the job and the object are freed again and \<open>NULL\<close> is returned.\<close>

definition sg_connection_init ::
  "sg_results \<Rightarrow> SocksUdpGwClient_conaddr \<Rightarrow> byte list \<Rightarrow> bool \<Rightarrow> SocksUdpGwClient
    \<Rightarrow> SocksUdpGwClient option" where
  "sg_connection_init r a data is_dns o' =
     (case sr_mem r of None \<Rightarrow> Some o'
      | Some p \<Rightarrow> do {
          let con = \<lparr>sc_conaddr = a, sc_first_data = data, sc_is_dns = is_dns,
                     sc_send_addr = (if is_dns then sg_dnsgw o' else sg_socks_server_addr o'),
                     sc_udp_send_writer = BufferWriter_Init (sg_udp_mtu o')\<rparr>;
          let s = (sg_con_set p con o')\<lparr>sg_jobs := p # sg_jobs o'\<rparr>;
          if \<not> (sr_dgram_ok r \<and> sr_reuse_ok r \<and> sr_buffer_ok r \<and> sr_recv_buffer_ok r)
          then Some (s\<lparr>sg_jobs := remove1 p (sg_jobs s), sg_cons := (sg_cons s)(p := None)\<rparr>)
          else do {
            t \<leftarrow> tree_insert (sg_local_addr a) p (sg_tree s);
            Some (s\<lparr>sg_tree := t, sg_list := sg_list s @ [p],
                    sg_num_connections := sg_num_connections s + 1\<rparr>)
          }
        })"

section \<open>Interface\<close>

text \<open>
  \<open>num_connections\<close> is not set: it has the value the memory has, 0 for the static object of
  \<open>tun2socks.c\<close>.
\<close>

definition SocksUdpGwClient_Init ::
  "nat \<Rightarrow> nat \<Rightarrow> nat \<Rightarrow> baddr \<Rightarrow> baddr \<Rightarrow> SocksUdpGwClient option" where
  "SocksUdpGwClient_Init num_connections udp_mtu max_connections socks_server_addr dnsgw = do {
     assert_that (socks_server_addr \<noteq> BADDR_NONE);
     Some \<lparr>sg_udp_mtu = udp_mtu, sg_socks_server_addr = socks_server_addr, sg_dnsgw = dnsgw,
           sg_udpgw_mtu = udpgw_compute_mtu True (int udp_mtu), sg_num_connections = num_connections,
           sg_max_connections =
             (if max_connections > UINT16_MAX + 1 then UINT16_MAX + 1 else max_connections),
           sg_tree = Map.empty, sg_list = [], sg_cons = Map.empty, sg_jobs = []\<rparr>
   }"

text \<open>The loop over the list, \<open>n\<close> rounds at most.\<close>

fun sg_free_connections :: "nat \<Rightarrow> SocksUdpGwClient \<Rightarrow> SocksUdpGwClient option" where
  "sg_free_connections n o' =
     (case sg_list o' of [] \<Rightarrow> Some o'
      | p # _ \<Rightarrow> (case n of 0 \<Rightarrow> None
                  | Suc m \<Rightarrow> sg_connection_free p o' \<bind> sg_free_connections m))"

definition SocksUdpGwClient_Free :: "SocksUdpGwClient \<Rightarrow> SocksUdpGwClient option" where
  "SocksUdpGwClient_Free o' = sg_free_connections (length (sg_list o')) o'"

definition SocksUdpGwClient_SubmitPacket ::
  "sg_results \<Rightarrow> baddr \<Rightarrow> baddr \<Rightarrow> bool \<Rightarrow> byte list \<Rightarrow> SocksUdpGwClient
    \<Rightarrow> (SocksUdpGwClient \<times> sg_act list) option" where
  "SocksUdpGwClient_SubmitPacket r local remote is_dns data o' = do {
     assert_that (is_ip_baddr local);
     assert_that (is_ip_baddr remote);
     assert_that (length data \<le> sg_udp_mtu o');
     let a = \<lparr>sg_local_addr = local, sg_remote_addr = remote\<rparr>;
     con \<leftarrow> find_connection o' a is_dns;
     o' \<leftarrow> (if con = None \<and> sg_num_connections o' = sg_max_connections o'
          then remove_lru_connection a is_dns o' else Some o');
     case con of
       None \<Rightarrow> do { o' \<leftarrow> sg_connection_init r a data is_dns o'; Some (o', []) }
     | Some p \<Rightarrow> do {
         o' \<leftarrow> reset_connection p a is_dns o';
         (o', acts, res) \<leftarrow> sg_connection_send p data o';
         if res = 1 then Some (o', acts)
         else do {
           assert_that (p \<in> set (sg_list o'));
           Some (o'\<lparr>sg_list := remove1 p (sg_list o') @ [p]\<rparr>, acts)
         }
       }
   }"

end
