(* ===== verification/SocksUdpGwProps.thy ===== *)
theory SocksUdpGwProps
  imports SocksUdpGwClient
begin

text \<open>
  The Android UDP relay as a system of events, its invariant, and what holds in all its runs. The
  runs considered first are those in which the relay is used within what it can handle; the two
  properties at the end show what happens outside.
\<close>

section \<open>Sending\<close>

definition payload_header :: "SocksUdpGwClient_connection \<Rightarrow> byte list" where
  "payload_header con =
     (if sc_is_dns con then []
      else socks_udp_header 0 0 (if baddr_type (sg_remote_addr (sc_conaddr con)) = 1
                                 then SOCKS_ATYP_IPV4 else SOCKS_ATYP_IPV6)
           @ udpgw_addr (sg_remote_addr (sc_conaddr con)))"

definition fits :: "SocksUdpGwClient \<Rightarrow> bool \<Rightarrow> baddr \<Rightarrow> byte list \<Rightarrow> bool" where
  "fits o' is_dns remote data =
     ((if is_dns then 0 else 4 + length (udpgw_addr remote)) + length data \<le> sg_udp_mtu o')"

definition writer_done :: "SocksUdpGwClient_connection \<Rightarrow> SocksUdpGwClient_connection" where
  "writer_done con = con\<lparr>sc_udp_send_writer :=
     (sc_udp_send_writer con)\<lparr>bw_out_have := False, bw_d_writing := False\<rparr>\<rparr>"

text \<open>
  Sending drops the packet when no buffer is free, fails when header and data exceed the MTU the
  writer was made for, and puts exactly header and data on the queue otherwise.
\<close>

lemma sg_send_cases:
  assumes "sg_cons o' p = Some con" "writer_ok (sg_udp_mtu o') (sc_udp_send_writer con)"
    and "baddr_wf (sg_remote_addr (sc_conaddr con))"
  shows "sg_connection_send p data o' =
     (if \<not> bw_out_have (sc_udp_send_writer con) then Some (o', [], 1)
      else if fits o' (sc_is_dns con) (sg_remote_addr (sc_conaddr con)) data
      then Some (sg_con_set p (writer_done con) o',
                 [Sg_Datagram p (sc_send_addr con) (payload_header con @ data)], 0)
      else None)"
proof (cases "bw_out_have (sc_udp_send_writer con)")
  case False
  then have "sg_con_set p con o' = o'"
    using assms(1) by (simp add: sg_con_set_def fun_upd_idem)
  then show ?thesis
    using False assms by (simp add: sg_connection_send_def BufferWriter_StartPacket_def writer_ok_def)
next
  case True
  let ?w = "sc_udp_send_writer con" and ?r = "sg_remote_addr (sc_conaddr con)"
  let ?out = "bw_out ?w"
  have len: "length ?out = sg_udp_mtu o'" "bw_d_mtu ?w = sg_udp_mtu o'" "\<not> bw_d_writing ?w"
    using assms(2) True by (simp_all add: writer_ok_def)
  show ?thesis
  proof (cases "sc_is_dns con")
    case dns: True
    show ?thesis
    proof (cases "length data \<le> sg_udp_mtu o'")
      case f: True
      then have "take (length data) (write_at ?out 0 data) = data"
        using take_write_at [of 0 data ?out] len(1) by simp
      then show ?thesis
        using True assms(1) len dns f
        by (simp add: sg_connection_send_def BufferWriter_StartPacket_def BufferWriter_EndPacket_def
            memcpy_out_def payload_header_def fits_def Let_def writer_done_def)
    next
      case False
      then show ?thesis
        using True assms(1) len dns
        by (simp add: sg_connection_send_def BufferWriter_StartPacket_def memcpy_out_def fits_def Let_def
            assert_that_def)
    qed
  next
    case no_dns: False
    let ?h = "socks_udp_header 0 0 (if baddr_type ?r = 1 then SOCKS_ATYP_IPV4 else SOCKS_ATYP_IPV6)"
    let ?a = "udpgw_addr ?r"
    let ?all = "write_at (write_at (write_at ?out 0 ?h) 4 ?a) (4 + length ?a) data"
    have h4: "length ?h = 4" by simp
    have chain: "(memcpy_out 0 ?h ?out \<bind> (\<lambda>o1. memcpy_out 4 ?a o1 \<bind> (\<lambda>o2. memcpy_out (4 + length ?a) data o2)))
      = (if fits o' False ?r data then Some ?all else None)"
      using memcpy_chain [of ?h ?out ?a data] len(1) unfolding h4 by (simp add: fits_def)
    have "sg_connection_send p data o' =
      (memcpy_out 0 ?h ?out \<bind> (\<lambda>o1. memcpy_out 4 ?a o1 \<bind> (\<lambda>o2. memcpy_out (4 + length ?a) data o2)))
       \<bind> (\<lambda>out. BufferWriter_EndPacket (4 + length ?a + length data) (?w\<lparr>bw_d_writing := True\<rparr>)
       \<bind> (\<lambda>(w, n). Some (sg_con_set p (con\<lparr>sc_udp_send_writer := w\<rparr>) o',
              [Sg_Datagram p (sc_send_addr con) (take n out)], 0)))"
      using True assms(1) len no_dns
      by (simp add: sg_connection_send_def BufferWriter_StartPacket_def Let_def put_socks_header_def
          put_addr_eq [OF assms(3)] del: put_addr.simps)
    moreover have "take (4 + length ?a + length data) ?all = ?h @ ?a @ data" if "fits o' False ?r data"
      using chain_written [of ?h ?a data ?out] that len(1) unfolding h4 by (simp add: fits_def)
    ultimately show ?thesis
      unfolding chain using True len no_dns
      by (simp add: BufferWriter_EndPacket_def payload_header_def fits_def writer_done_def)
  qed
qed

section \<open>The invariant\<close>

abbreviation con_local :: "SocksUdpGwClient_connection \<Rightarrow> baddr" where
  "con_local con \<equiv> sg_local_addr (sc_conaddr con)"

definition sc_ok :: "nat \<Rightarrow> SocksUdpGwClient_connection \<Rightarrow> bool" where
  "sc_ok mtu con =
     (baddr_wf (con_local con) \<and> baddr_wf (sg_remote_addr (sc_conaddr con))
      \<and> writer_ok mtu (sc_udp_send_writer con))"

fun job_ok :: "SocksUdpGwClient \<Rightarrow> SocksUdpGwClient_connection option \<Rightarrow> bool" where
  "job_ok o' None = False"
| "job_ok o' (Some con) = fits o' (sc_is_dns con) (sg_remote_addr (sc_conaddr con)) (sc_first_data con)"

definition sg_inv :: "SocksUdpGwClient \<Rightarrow> bool" where
  "sg_inv o' =
     (distinct (sg_list o') \<and> set (sg_list o') = dom (sg_cons o')
      \<and> sg_num_connections o' = length (sg_list o') \<and> length (sg_list o') \<le> sg_max_connections o'
      \<and> 0 < sg_max_connections o'
      \<and> tree_ok con_local (sg_cons o') (sg_tree o')
      \<and> (\<forall>p con. sg_cons o' p = Some con \<longrightarrow> sc_ok (sg_udp_mtu o') con)
      \<and> (\<forall>p \<in> set (sg_jobs o'). job_ok o' (sg_cons o' p)) \<and> distinct (sg_jobs o')
      \<and> int (sg_udp_mtu o') \<le> sg_udpgw_mtu o')"

lemma sg_invD:
  assumes "sg_inv o'"
  shows "distinct (sg_list o')" "set (sg_list o') = dom (sg_cons o')"
    "sg_num_connections o' = length (sg_list o')" "length (sg_list o') \<le> sg_max_connections o'"
    "0 < sg_max_connections o'" "tree_ok con_local (sg_cons o') (sg_tree o')"
    "\<And>p con. sg_cons o' p = Some con \<Longrightarrow> sc_ok (sg_udp_mtu o') con"
    "\<And>p. p \<in> set (sg_jobs o') \<Longrightarrow> job_ok o' (sg_cons o' p)" "distinct (sg_jobs o')"
    "int (sg_udp_mtu o') \<le> sg_udpgw_mtu o'"
  using assms unfolding sg_inv_def by blast+

lemma sg_con_set_simps [simp]:
  "sg_cons (sg_con_set p con o') = (sg_cons o')(p \<mapsto> con)"
  "sg_list (sg_con_set p con o') = sg_list o'" "sg_jobs (sg_con_set p con o') = sg_jobs o'"
  "sg_tree (sg_con_set p con o') = sg_tree o'" "sg_udp_mtu (sg_con_set p con o') = sg_udp_mtu o'"
  "sg_num_connections (sg_con_set p con o') = sg_num_connections o'"
  "sg_max_connections (sg_con_set p con o') = sg_max_connections o'"
  "sg_udpgw_mtu (sg_con_set p con o') = sg_udpgw_mtu o'"
  "sg_socks_server_addr (sg_con_set p con o') = sg_socks_server_addr o'"
  "sg_dnsgw (sg_con_set p con o') = sg_dnsgw o'"
  by (simp_all add: sg_con_set_def)

lemma job_ok_cong: "sg_udp_mtu a = sg_udp_mtu b \<Longrightarrow> job_ok a x = job_ok b x"
  by (cases x) (simp_all add: fits_def)

lemma sg_con_set_inv:
  assumes "sg_inv o'" "sg_cons o' p = Some con" "sc_ok (sg_udp_mtu o') con'"
    and "con_local con' = con_local con" "p \<in> set (sg_jobs o') \<Longrightarrow> job_ok o' (Some con')"
  shows "sg_inv (sg_con_set p con' o')"
proof -
  note i = sg_invD [OF assms(1)]
  have "set (sg_list o') = insert p (dom (sg_cons o'))" using i(2) assms(2) by blast
  moreover have "\<And>q c. ((sg_cons o')(p \<mapsto> con')) q = Some c \<Longrightarrow> sc_ok (sg_udp_mtu o') c"
    using i(7) assms(3) by (auto split: if_splits)
  moreover have "job_ok (sg_con_set p con' o') (((sg_cons o')(p \<mapsto> con')) q)" if "q \<in> set (sg_jobs o')" for q
    using i(8) [OF that] assms(5) that job_ok_cong [of "sg_con_set p con' o'" o'] by auto
  ultimately show ?thesis
    using i tree_ok_update [OF i(6) assms(2), of con'] assms(4) unfolding sg_inv_def by auto
qed

lemma find_connection_eq:
  assumes "sg_inv o'"
  shows "find_connection o' a is_dns =
    Some (case sg_tree o' (sg_local_addr a) of None \<Rightarrow> None
          | Some p \<Rightarrow> if sc_is_dns (the (sg_cons o' p)) = is_dns then Some p else None)"
proof (cases "sg_tree o' (sg_local_addr a)")
  case (Some p)
  then obtain con where "sg_cons o' p = Some con" using tree_okD [OF sg_invD(6) [OF assms]] by blast
  then show ?thesis using Some by (simp add: find_connection_def)
qed (simp add: find_connection_def)

lemma sg_connection_free_ok:
  assumes "sg_inv o'" "p \<in> set (sg_list o')" "p \<notin> set (sg_jobs o')"
  obtains o'' con where "sg_connection_free p o' = Some o''" "sg_inv o''" "sg_cons o' p = Some con"
    "sg_list o'' = remove1 p (sg_list o')" "sg_cons o'' = (sg_cons o')(p := None)"
    "sg_tree o'' = (sg_tree o')(con_local con := None)"
    "sg_jobs o'' = sg_jobs o'" "sg_udp_mtu o'' = sg_udp_mtu o'" "sg_max_connections o'' = sg_max_connections o'"
proof -
  note i = sg_invD [OF assms(1)]
  obtain con where c: "sg_cons o' p = Some con" using i(2) assms(2) by blast
  define o'' where "o'' = o'\<lparr>sg_num_connections := sg_num_connections o' - 1,
              sg_list := remove1 p (sg_list o'), sg_tree := (sg_tree o')(con_local con := None),
              sg_cons := (sg_cons o')(p := None)\<rparr>"
  have f: "sg_connection_free p o' = Some o''"
    using assms(2) c tree_ok_lookup [OF i(6) c] by (simp add: sg_connection_free_def tree_remove_def o''_def)
  have "length (remove1 p (sg_list o')) = length (sg_list o') - 1"
    using assms(2) by (simp add: length_remove1)
  moreover have "set (remove1 p (sg_list o')) = dom (sg_cons o'')"
    using i(1,2) by (auto simp: o''_def)
  moreover have "job_ok o'' (sg_cons o'' q)" if "q \<in> set (sg_jobs o')" for q
    using i(8) [OF that] assms(3) that job_ok_cong [of o'' o'] by (auto simp: o''_def)
  moreover have "tree_ok con_local (sg_cons o'') (sg_tree o'')"
    using tree_ok_remove [OF i(6) c] by (simp add: o''_def)
  moreover have "\<And>q d. sg_cons o'' q = Some d \<Longrightarrow> sc_ok (sg_udp_mtu o'') d"
    using i(7) by (auto simp: o''_def split: if_splits)
  ultimately have "sg_inv o''" using i unfolding sg_inv_def by (auto simp: o''_def)
  then show thesis using that f c by (simp add: o''_def)
qed

section \<open>Events\<close>

datatype sg_event =
    Sg_Submit sg_results baddr baddr bool "byte list"
  | Sg_First_Job
  | Sg_Writer_Recv nat "byte list"
  | Sg_Recv nat "byte list"

text \<open>
  The jobs of the event loop run before the next packet comes in. Besides the rules of the
  interfaces, the runs satisfy two conditions: a local address whose connection exists is used for
  the same kind of traffic, and the data leaves room for the SOCKS header.
\<close>

fun sg_unused_mem :: "SocksUdpGwClient \<Rightarrow> nat option \<Rightarrow> bool" where
  "sg_unused_mem o' None = True"
| "sg_unused_mem o' (Some p) = (sg_cons o' p = None)"

fun is_kind :: "bool \<Rightarrow> SocksUdpGwClient_connection option \<Rightarrow> bool" where
  "is_kind is_dns None = False"
| "is_kind is_dns (Some con) = (sc_is_dns con = is_dns)"

fun same_kind :: "SocksUdpGwClient \<Rightarrow> nat option \<Rightarrow> bool \<Rightarrow> bool" where
  "same_kind o' None is_dns = True"
| "same_kind o' (Some p) is_dns = is_kind is_dns (sg_cons o' p)"

fun sg_writer_empty :: "SocksUdpGwClient_connection option \<Rightarrow> bool" where
  "sg_writer_empty None = False"
| "sg_writer_empty (Some con) = (\<not> bw_out_have (sc_udp_send_writer con))"

fun sg_enabled :: "sg_event \<Rightarrow> SocksUdpGwClient \<Rightarrow> bool" where
  "sg_enabled (Sg_Submit r local remote is_dns data) o' =
     (sg_jobs o' = [] \<and> sg_unused_mem o' (sr_mem r) \<and> baddr_wf local \<and> baddr_wf remote
      \<and> same_kind o' (sg_tree o' local) is_dns \<and> fits o' is_dns remote data)"
| "sg_enabled Sg_First_Job o' = (sg_jobs o' \<noteq> [])"
| "sg_enabled (Sg_Writer_Recv p out) o' = (sg_writer_empty (sg_cons o' p) \<and> length out = sg_udp_mtu o')"
| "sg_enabled (Sg_Recv p data) o' =
     (sg_jobs o' = [] \<and> sg_cons o' p \<noteq> None \<and> length data \<le> sg_udp_mtu o')"

fun sg_step :: "sg_event \<Rightarrow> SocksUdpGwClient \<Rightarrow> (SocksUdpGwClient \<times> sg_act list) option" where
  "sg_step (Sg_Submit r local remote is_dns data) o' =
     SocksUdpGwClient_SubmitPacket r local remote is_dns data o'"
| "sg_step Sg_First_Job o' =
     (case sg_jobs o' of [] \<Rightarrow> None
      | p # ps \<Rightarrow> sg_connection_first_job_handler p (o'\<lparr>sg_jobs := ps\<rparr>))"
| "sg_step (Sg_Writer_Recv p out) o' = do {
     con \<leftarrow> sg_cons o' p;
     w \<leftarrow> bw_output_handler_recv out (sc_udp_send_writer con);
     Some (sg_con_set p (con\<lparr>sc_udp_send_writer := w\<rparr>) o', [])
   }"
| "sg_step (Sg_Recv p data) o' = dgram_handler_received p data o'"

inductive sg_reachable :: "SocksUdpGwClient \<Rightarrow> bool" where
  init: "SocksUdpGwClient_Init 0 udp_mtu max_connections server dnsgw = Some o' \<Longrightarrow>
         int udp_mtu + 22 \<le> INT_MAX \<Longrightarrow> 0 < max_connections \<Longrightarrow> sg_reachable o'"
| step: "sg_reachable o' \<Longrightarrow> sg_enabled ev o' \<Longrightarrow> sg_step ev o' = Some (o'', acts) \<Longrightarrow> sg_reachable o''"

lemma sg_init_inv:
  assumes "SocksUdpGwClient_Init 0 udp_mtu mx server dnsgw = Some o'" "int udp_mtu + 22 \<le> INT_MAX" "0 < mx"
  shows "sg_inv o'"
  using assms udpgw_compute_mtu_eq [of "int udp_mtu" True]
  by (auto simp: SocksUdpGwClient_Init_def sg_inv_def UINT16_MAX_def tree_ok_def split: if_splits)

lemma sg_send_keeps:
  assumes "sg_inv o'" "sg_cons o' p = Some con" "p \<notin> set (sg_jobs o')"
    and "fits o' (sc_is_dns con) (sg_remote_addr (sc_conaddr con)) data"
  obtains o'' acts res where "sg_connection_send p data o' = Some (o'', acts, res)" "sg_inv o''"
    "sg_list o'' = sg_list o'"
proof -
  have ok: "sc_ok (sg_udp_mtu o') con" by (rule sg_invD(7) [OF assms(1,2)])
  have w: "sc_ok (sg_udp_mtu o') (writer_done con)"
    using ok by (simp add: sc_ok_def writer_ok_def writer_done_def)
  have "sg_inv (sg_con_set p (writer_done con) o')"
    by (rule sg_con_set_inv [OF assms(1,2) w]) (use assms(3) in \<open>simp_all add: writer_done_def\<close>)
  then show thesis
    using that sg_send_cases [OF assms(2), of data] ok assms(1,4)
    by (cases "bw_out_have (sc_udp_send_writer con)") (auto simp: sc_ok_def)
qed

definition sg_added :: "nat \<Rightarrow> SocksUdpGwClient_conaddr \<Rightarrow> byte list \<Rightarrow> bool \<Rightarrow> SocksUdpGwClient \<Rightarrow> SocksUdpGwClient" where
  "sg_added p a data is_dns o' =
     (sg_con_set p \<lparr>sc_conaddr = a, sc_first_data = data, sc_is_dns = is_dns,
                    sc_send_addr = (if is_dns then sg_dnsgw o' else sg_socks_server_addr o'),
                    sc_udp_send_writer = BufferWriter_Init (sg_udp_mtu o')\<rparr> o')
       \<lparr>sg_jobs := p # sg_jobs o', sg_tree := (sg_tree o')(sg_local_addr a \<mapsto> p),
        sg_list := sg_list o' @ [p], sg_num_connections := sg_num_connections o' + 1\<rparr>"

lemma sg_connection_init_eq:
  assumes "sg_unused_mem o' (sr_mem r)"
  shows "sg_connection_init r a data is_dns o' =
    (case sr_mem r of None \<Rightarrow> Some o'
     | Some p \<Rightarrow> if \<not> (sr_dgram_ok r \<and> sr_reuse_ok r \<and> sr_buffer_ok r \<and> sr_recv_buffer_ok r) then Some o'
                 else if sg_tree o' (sg_local_addr a) = None then Some (sg_added p a data is_dns o') else None)"
proof (cases "sr_mem r")
  case (Some p)
  then have "sg_cons o' p = None" using assms by simp
  then have "o'\<lparr>sg_cons := (sg_cons o')(p := None)\<rparr> = o'" by (simp add: fun_upd_idem)
  then show ?thesis
    using Some by (simp add: sg_connection_init_def tree_insert_def sg_added_def sg_con_set_def Let_def
        assert_that_def)
qed (simp add: sg_connection_init_def)

lemma sg_added_inv:
  assumes "sg_inv o'" "sg_num_connections o' < sg_max_connections o'" "sg_tree o' (sg_local_addr a) = None"
    and "baddr_wf (sg_local_addr a)" "baddr_wf (sg_remote_addr a)" "fits o' is_dns (sg_remote_addr a) data"
    and "sg_cons o' p = None"
  shows "sg_inv (sg_added p a data is_dns o')"
proof -
  note i = sg_invD [OF assms(1)]
  let ?c = "\<lparr>sc_conaddr = a, sc_first_data = data, sc_is_dns = is_dns,
                    sc_send_addr = (if is_dns then sg_dnsgw o' else sg_socks_server_addr o'),
                    sc_udp_send_writer = BufferWriter_Init (sg_udp_mtu o')\<rparr>"
  let ?o = "sg_added p a data is_dns o'"
  have new: "sg_cons ?o = (sg_cons o')(p \<mapsto> ?c)" "sg_udp_mtu ?o = sg_udp_mtu o'"
    by (simp_all add: sg_added_def)
  have "sc_ok (sg_udp_mtu o') ?c"
    using assms(4,5) by (simp add: sc_ok_def writer_ok_def BufferWriter_Init_def)
  then have cons: "\<And>q c. sg_cons ?o q = Some c \<Longrightarrow> sc_ok (sg_udp_mtu ?o) c"
    using i(7) unfolding new by (auto split: if_splits)
  have p: "p \<notin> set (sg_list o')" "p \<notin> set (sg_jobs o')"
    using i(2) assms(7) i(8) [of p] by auto
  have "job_ok ?o (Some ?c)" using assms(6) by (simp add: fits_def new)
  then have jobs: "job_ok ?o (sg_cons ?o q)" if "q \<in> set (sg_jobs ?o)" for q
    using that i(8) [of q] job_ok_cong [of ?o o'] p(2) unfolding new by (cases "q = p") (auto simp: sg_added_def)
  have t: "tree_ok con_local (sg_cons ?o) (sg_tree ?o)"
    using tree_ok_insert [OF i(6) assms(7), of ?c] assms(3) by (simp add: sg_added_def)
  show ?thesis
    using i assms(2) p cons jobs t unfolding sg_inv_def by (auto simp: sg_added_def)
qed

lemma sg_init_keeps:
  assumes "sg_inv o'" "sg_num_connections o' < sg_max_connections o'" "sg_tree o' local = None"
    and "baddr_wf local" "baddr_wf remote" "fits o' is_dns remote data" "sg_unused_mem o' (sr_mem r)"
  shows "\<exists>o''. sg_connection_init r \<lparr>sg_local_addr = local, sg_remote_addr = remote\<rparr> data is_dns o' = Some o''
    \<and> sg_inv o''"
  using assms sg_added_inv [OF assms(1,2), of "\<lparr>sg_local_addr = local, sg_remote_addr = remote\<rparr>"]
  by (cases "sr_mem r") (auto simp: sg_connection_init_eq)

text \<open>Submitting to a connection that exists, and to none.\<close>

lemma sg_submit_known:
  assumes "sg_inv o'" "baddr_wf local" "baddr_wf remote" "length data \<le> sg_udp_mtu o'"
    and "sg_tree o' local = Some p" "sg_cons o' p = Some con" "sc_is_dns con = is_dns"
  shows "SocksUdpGwClient_SubmitPacket r local remote is_dns data o' = do {
       (o', acts, res) \<leftarrow> sg_connection_send p data
          (sg_con_set p (con\<lparr>sc_conaddr := \<lparr>sg_local_addr = local, sg_remote_addr = remote\<rparr>,
                             sc_is_dns := is_dns\<rparr>) o');
       if res = 1 then Some (o', acts)
       else do {
         assert_that (p \<in> set (sg_list o'));
         Some (o'\<lparr>sg_list := remove1 p (sg_list o') @ [p]\<rparr>, acts)
       } }"
  using assms find_connection_eq [OF assms(1)]
  by (simp add: SocksUdpGwClient_SubmitPacket_def reset_connection_def baddr_wf_ip)

lemma sg_submit_unknown:
  assumes "sg_inv o'" "baddr_wf local" "baddr_wf remote" "length data \<le> sg_udp_mtu o'"
    and "\<not> (\<exists>p con. sg_tree o' local = Some p \<and> sg_cons o' p = Some con \<and> sc_is_dns con = is_dns)"
  shows "SocksUdpGwClient_SubmitPacket r local remote is_dns data o' = do {
       o' \<leftarrow> (if sg_num_connections o' = sg_max_connections o'
              then sg_connection_free (hd (sg_list o')) o' else Some o');
       o' \<leftarrow> sg_connection_init r \<lparr>sg_local_addr = local, sg_remote_addr = remote\<rparr> data is_dns o';
       Some (o', []) }"
proof -
  note i = sg_invD [OF assms(1)]
  have f: "find_connection o' \<lparr>sg_local_addr = local, sg_remote_addr = remote\<rparr> is_dns = Some None"
  proof (cases "sg_tree o' local")
    case (Some p)
    then obtain con where "sg_cons o' p = Some con" using tree_okD [OF i(6)] by blast
    then show ?thesis using Some assms(5) by (simp add: find_connection_def)
  qed (simp add: find_connection_def)
  have "sg_num_connections o' = sg_max_connections o' \<Longrightarrow> sg_list o' \<noteq> []" using i(3,5) by auto
  then show ?thesis
    using assms f i(3,5)
    by (simp add: SocksUdpGwClient_SubmitPacket_def remove_lru_connection_def baddr_wf_ip)
qed

lemma sg_move_inv:
  assumes "sg_inv o'" "p \<in> set (sg_list o')"
  shows "sg_inv (o'\<lparr>sg_list := remove1 p (sg_list o') @ [p]\<rparr>)"
proof -
  note i = sg_invD [OF assms(1)]
  have "length (remove1 p (sg_list o') @ [p]) = length (sg_list o')"
    using assms(2) length_pos_if_in_set [OF assms(2)] by (simp add: length_remove1)
  moreover have "set (remove1 p (sg_list o') @ [p]) = set (sg_list o')" using assms(2) i(1) by auto
  moreover have "distinct (remove1 p (sg_list o') @ [p])" using i(1) by auto
  moreover have "\<And>q. q \<in> set (sg_jobs o') \<Longrightarrow> job_ok (o'\<lparr>sg_list := remove1 p (sg_list o') @ [p]\<rparr>) (sg_cons o' q)"
    using i(8) job_ok_cong [of "o'\<lparr>sg_list := remove1 p (sg_list o') @ [p]\<rparr>" o'] by simp
  ultimately show ?thesis using i unfolding sg_inv_def by auto
qed

lemma sg_room: "n \<le> m \<Longrightarrow> 0 < n \<Longrightarrow> n - Suc 0 < m" for n m :: nat
  by simp

lemma sg_submit_keeps:
  assumes "sg_inv o'" "sg_enabled (Sg_Submit r local remote is_dns data) o'"
  shows "\<exists>o'' acts. SocksUdpGwClient_SubmitPacket r local remote is_dns data o' = Some (o'', acts) \<and> sg_inv o''"
proof -
  note i = sg_invD [OF assms(1)]
  have e: "sg_jobs o' = []" "sg_unused_mem o' (sr_mem r)" "baddr_wf local" "baddr_wf remote"
      "same_kind o' (sg_tree o' local) is_dns" "fits o' is_dns remote data"
    using assms(2) by auto
  have len: "length data \<le> sg_udp_mtu o'" using e(6) by (auto simp: fits_def split: if_splits)
  show ?thesis
  proof (cases "sg_tree o' local")
    case (Some p)
    then obtain con where c: "sg_cons o' p = Some con" "con_local con = local"
      using tree_okD [OF i(6)] by blast
    have k: "sc_is_dns con = is_dns" using e(5) Some c by simp
    define con' where "con' = con\<lparr>sc_conaddr := \<lparr>sg_local_addr = local, sg_remote_addr = remote\<rparr>, sc_is_dns := is_dns\<rparr>"
    have "sc_ok (sg_udp_mtu o') con'"
      using i(7) [OF c(1)] e(3,4) by (simp add: sc_ok_def con'_def)
    then have inv: "sg_inv (sg_con_set p con' o')"
      using sg_con_set_inv [OF assms(1) c(1)] c(2) e(1) by (simp add: con'_def)
    have f: "fits (sg_con_set p con' o') (sc_is_dns con') (sg_remote_addr (sc_conaddr con')) data"
      using e(6) by (simp add: fits_def con'_def)
    obtain o2 acts res where s: "sg_connection_send p data (sg_con_set p con' o') = Some (o2, acts, res)"
      "sg_inv o2" "sg_list o2 = sg_list o'"
      by (rule sg_send_keeps [OF inv _ _ f]) (use e(1) in auto)
    have p: "p \<in> set (sg_list o2)" using s(3) i(2) c(1) by auto
    show ?thesis
      using s(1,2) p sg_move_inv [OF s(2) p]
      unfolding sg_submit_known [OF assms(1) e(3,4) len Some c(1) k] con'_def [symmetric] by simp
  next
    case None
    note u = sg_submit_unknown [OF assms(1) e(3,4) len, of is_dns r]
    show ?thesis
    proof (cases "sg_num_connections o' = sg_max_connections o'")
      case True
      then have "sg_list o' \<noteq> []" using i(3,5) by auto
      then have h: "hd (sg_list o') \<in> set (sg_list o')" by simp
      obtain o2 con where f: "sg_connection_free (hd (sg_list o')) o' = Some o2" "sg_inv o2"
        "sg_list o2 = remove1 (hd (sg_list o')) (sg_list o')"
        "sg_cons o2 = (sg_cons o')(hd (sg_list o') := None)" "sg_tree o2 = (sg_tree o')(con_local con := None)"
        "sg_udp_mtu o2 = sg_udp_mtu o'" "sg_max_connections o2 = sg_max_connections o'"
        by (rule sg_connection_free_ok [OF assms(1) h]) (use e(1) in auto)
      have "sg_num_connections o2 < sg_max_connections o2"
        using sg_invD(3) [OF f(2)] f(3,7) h sg_room [OF i(4) length_pos_if_in_set [OF h]]
        by (simp add: length_remove1)
      moreover have "sg_tree o2 local = None" using f(5) None by simp
      moreover have "fits o2 is_dns remote data" using e(6) f(6) by (simp add: fits_def)
      moreover have "sg_unused_mem o2 (sr_mem r)" using e(2) f(4) by (cases "sr_mem r") auto
      ultimately obtain o3 where "sg_connection_init r \<lparr>sg_local_addr = local, sg_remote_addr = remote\<rparr> data is_dns o2 = Some o3"
          "sg_inv o3"
        using sg_init_keeps [OF f(2)] e(3,4) by blast
      then show ?thesis using u None True f(1) by simp
    next
      case False
      then have "sg_num_connections o' < sg_max_connections o'" using i(3,4) by simp
      then obtain o3 where "sg_connection_init r \<lparr>sg_local_addr = local, sg_remote_addr = remote\<rparr> data is_dns o' = Some o3"
          "sg_inv o3"
        using sg_init_keeps [OF assms(1) _ None e(3,4,6,2)] by blast
      then show ?thesis using u None False by simp
    qed
  qed
qed

lemma sg_recv_keeps:
  assumes "sg_inv o'" "sg_cons o' p = Some con" "length data \<le> sg_udp_mtu o'" "sg_jobs o' = []"
  shows "\<exists>o'' acts. dgram_handler_received p data o' = Some (o'', acts) \<and> sg_inv o''"
proof -
  note i = sg_invD [OF assms(1)]
  have len: "int (length data) \<le> sg_udpgw_mtu o'" using assms(3) i(10) by linarith
  let ?r = "if sc_is_dns con then Some (sg_remote_addr (sc_conaddr con), data) else take_socks_udp data"
  show ?thesis
  proof (cases ?r)
    case None
    then show ?thesis using assms(1,2) len by (simp add: dgram_handler_received_def)
  next
    case (Some ad)
    obtain a d where ad: "ad = (a, d)" by (cases ad)
    have "baddr_wf a"
      using Some i(7) [OF assms(2)] unfolding ad
      by (auto simp: sc_ok_def take_socks_udp_def take_addr_def split: if_splits)
    then have "sg_inv (sg_con_set p (con\<lparr>sc_conaddr := (sc_conaddr con)\<lparr>sg_remote_addr := a\<rparr>\<rparr>) o')"
      by (intro sg_con_set_inv [OF assms(1,2)]) (use i(7) [OF assms(2)] assms(4) in \<open>simp_all add: sc_ok_def\<close>)
    then show ?thesis
      using assms(2) len Some unfolding ad by (simp add: dgram_handler_received_def Let_def)
  qed
qed

lemma sg_step_keeps:
  assumes "sg_inv o'" "sg_enabled ev o'"
  shows "\<exists>o'' acts. sg_step ev o' = Some (o'', acts) \<and> sg_inv o''"
proof (cases ev)
  case (Sg_Submit r local remote is_dns data)
  then show ?thesis using sg_submit_keeps [OF assms(1)] assms(2) by auto
next
  case Sg_First_Job
  then obtain p ps where j: "sg_jobs o' = p # ps" using assms(2) by (cases "sg_jobs o'") auto
  note i = sg_invD [OF assms(1)]
  obtain con where c: "sg_cons o' p = Some con"
      and f: "fits o' (sc_is_dns con) (sg_remote_addr (sc_conaddr con)) (sc_first_data con)"
    using i(8) [of p] j by (cases "sg_cons o' p") auto
  let ?o = "o'\<lparr>sg_jobs := ps\<rparr>"
  have "job_ok ?o x = job_ok o' x" for x by (rule job_ok_cong) simp
  then have inv: "sg_inv ?o" using i j unfolding sg_inv_def by auto
  obtain o2 acts res where "sg_connection_send p (sc_first_data con) ?o = Some (o2, acts, res)" "sg_inv o2"
    by (rule sg_send_keeps [OF inv, of p con "sc_first_data con"]) (use c f i(9) j in \<open>auto simp: fits_def\<close>)
  then show ?thesis using Sg_First_Job j c by (simp add: sg_connection_first_job_handler_def)
next
  case (Sg_Writer_Recv p out)
  then obtain con where c: "sg_cons o' p = Some con" "\<not> bw_out_have (sc_udp_send_writer con)"
    using assms(2) by (cases "sg_cons o' p") auto
  let ?c = "con\<lparr>sc_udp_send_writer := (sc_udp_send_writer con)\<lparr>bw_out_have := True, bw_out := out\<rparr>\<rparr>"
  have "sc_ok (sg_udp_mtu o') ?c"
    using sg_invD(7) [OF assms(1) c(1)] assms(2) Sg_Writer_Recv by (simp add: sc_ok_def writer_ok_def)
  moreover have "p \<in> set (sg_jobs o') \<Longrightarrow> job_ok o' (Some ?c)"
    using sg_invD(8) [OF assms(1), of p] c(1) by simp
  ultimately have "sg_inv (sg_con_set p ?c o')" using sg_con_set_inv [OF assms(1) c(1)] by simp
  then show ?thesis using Sg_Writer_Recv c by (simp add: bw_output_handler_recv_def)
next
  case (Sg_Recv p data)
  then show ?thesis using sg_recv_keeps [OF assms(1)] assms(2) by auto
qed

lemma sg_reachable_inv: "sg_reachable o' \<Longrightarrow> sg_inv o'"
proof (induction rule: sg_reachable.induct)
  case (init udp_mtu mx server dnsgw o')
  then show ?case by (rule sg_init_inv)
next
  case (step o' ev o'' acts)
  then show ?case using sg_step_keeps by fastforce
qed

section \<open>Datagrams to the server and back\<close>

lemma take_socks_udp_packet:
  assumes "baddr_wf a"
  shows "take_socks_udp (socks_udp_header 0 0 (if baddr_type a = 1 then SOCKS_ATYP_IPV4 else SOCKS_ATYP_IPV6)
           @ udpgw_addr a @ d) = Some (a, d)"
proof -
  let ?t = "if baddr_type a = 1 then SOCKS_ATYP_IPV4 else SOCKS_ATYP_IPV6"
  have "(?t = SOCKS_ATYP_IPV6) = (baddr_type a = 2)"
    using assms by (cases a) (auto simp: SOCKS_ATYP_IPV4_def SOCKS_ATYP_IPV6_def)
  moreover have "take_addr (baddr_type a = 2) (udpgw_addr a @ d) = Some (a, d)"
  proof (cases a)
    case (BADDR_IPV4 ip port)
    then show ?thesis by (simp add: take_addr_def udpgw_addr_ipv4_def bytes32_def bytes16_def)
  next
    case (BADDR_IPV6 ip port)
    then show ?thesis using assms by (simp add: take_addr_def udpgw_addr_ipv6_def bytes16_def nth_append)
  qed (use assms in simp)
  ultimately show ?thesis
    by (simp add: take_socks_udp_def socks_udp_header_def bytes16_def)
qed

lemma sg_recv_own:
  assumes "sg_inv o'" "sg_cons o' p = Some con"
    and "fits o' (sc_is_dns con) (sg_remote_addr (sc_conaddr con)) d"
  shows "\<exists>o3. dgram_handler_received p (payload_header con @ d) o'
     = Some (o3, [Sg_Recv_Done p, Sg_Received (con_local con) (sg_remote_addr (sc_conaddr con)) d])"
proof -
  note i = sg_invD [OF assms(1)]
  have wf: "baddr_wf (sg_remote_addr (sc_conaddr con))" using i(7) [OF assms(2)] by (simp add: sc_ok_def)
  have len: "length (payload_header con @ d) \<le> sg_udp_mtu o'" "length d \<le> sg_udp_mtu o'"
    using assms(3) by (auto simp: payload_header_def fits_def split: if_splits)
  then have "int (length (payload_header con @ d)) \<le> sg_udpgw_mtu o'" using i(10) by linarith
  then show ?thesis
    using assms(2) len(2) take_socks_udp_packet [OF wf, of d]
    by (cases "sc_is_dns con") (simp_all add: dgram_handler_received_def payload_header_def Let_def)
qed

lemma sg_send_echo:
  assumes "sg_inv o'" "sg_cons o' p = Some con" "p \<notin> set (sg_jobs o')"
    and "sg_connection_send p d o' = Some (o'', acts, res)" "Sg_Datagram q dest pkt \<in> set acts"
    and "fits o' (sc_is_dns con) (sg_remote_addr (sc_conaddr con)) d"
  shows "dest = sc_send_addr con \<and> res = 0 \<and> sg_list o'' = sg_list o' \<and> sg_inv o'' \<and> q = p
     \<and> (\<exists>con. sg_cons o'' p = Some con) \<and>
     (\<exists>o3. dgram_handler_received q pkt o''
     = Some (o3, [Sg_Recv_Done q, Sg_Received (con_local con) (sg_remote_addr (sc_conaddr con)) d]))"
proof -
  let ?c = "writer_done con"
  have ok: "sc_ok (sg_udp_mtu o') con" by (rule sg_invD(7) [OF assms(1,2)])
  have same: "sc_conaddr ?c = sc_conaddr con" "sc_is_dns ?c = sc_is_dns con" by (simp_all add: writer_done_def)
  have hdr: "payload_header ?c = payload_header con" by (simp add: payload_header_def same)
  have r: "o'' = sg_con_set p ?c o'" "acts = [Sg_Datagram p (sc_send_addr con) (payload_header con @ d)]" "res = 0"
    using assms(4-6) sg_send_cases [OF assms(2), of d] ok by (auto simp: sc_ok_def split: if_splits)
  have "sc_ok (sg_udp_mtu o') ?c" using ok by (simp add: sc_ok_def writer_ok_def writer_done_def)
  then have inv: "sg_inv o''" using sg_con_set_inv [OF assms(1,2)] assms(3) same r(1) by simp
  have "\<exists>o3. dgram_handler_received p (payload_header ?c @ d) o''
     = Some (o3, [Sg_Recv_Done p, Sg_Received (con_local ?c) (sg_remote_addr (sc_conaddr ?c)) d])"
    by (rule sg_recv_own [OF inv]) (use r(1) same assms(6) in \<open>simp_all add: fits_def\<close>)
  then show ?thesis using r assms(5) hdr same inv by simp
qed

fun sg_handed_over :: "sg_event \<Rightarrow> SocksUdpGwClient \<Rightarrow> baddr \<times> baddr \<times> byte list" where
  "sg_handed_over (Sg_Submit r local remote is_dns data) o' = (local, remote, data)"
| "sg_handed_over Sg_First_Job o' =
     (let con = the (sg_cons o' (hd (sg_jobs o')))
      in (con_local con, sg_remote_addr (sc_conaddr con), sc_first_data con))"
| "sg_handed_over _ o' = (BADDR_NONE, BADDR_NONE, [])"

text \<open>Receiving sends nothing, and does not depend on the order of the list.\<close>

lemma recv_acts:
  assumes "dgram_handler_received p data o' = Some (o'', acts)"
  shows "Sg_Datagram q dest pkt \<notin> set acts"
proof -
  obtain con where c: "sg_cons o' p = Some con" using assms by (auto simp: dgram_handler_received_def bind_Some)
  show ?thesis
  proof (cases "if sc_is_dns con then Some (sg_remote_addr (sc_conaddr con), data) else take_socks_udp data")
    case None
    then show ?thesis using assms c by (auto simp: dgram_handler_received_def)
  next
    case (Some r)
    then show ?thesis using assms c by (cases r) (auto simp: dgram_handler_received_def Let_def split: if_splits)
  qed
qed

lemma recv_jobs:
  assumes "dgram_handler_received p data o' = Some (o'', acts)"
  shows "sg_jobs o'' = sg_jobs o'"
proof -
  obtain con where c: "sg_cons o' p = Some con" using assms by (auto simp: dgram_handler_received_def bind_Some)
  show ?thesis
  proof (cases "if sc_is_dns con then Some (sg_remote_addr (sc_conaddr con), data) else take_socks_udp data")
    case None
    then show ?thesis using assms c by (auto simp: dgram_handler_received_def)
  next
    case (Some r)
    then show ?thesis using assms c by (cases r) (auto simp: dgram_handler_received_def Let_def sg_con_set_def split: if_splits)
  qed
qed

lemma recv_list_irrelevant:
  assumes "dgram_handler_received p data o' = Some (o3, acts)"
  shows "\<exists>o4. dgram_handler_received p data (o'\<lparr>sg_list := l\<rparr>) = Some (o4, acts)"
proof -
  obtain con where c: "sg_cons o' p = Some con" using assms by (auto simp: dgram_handler_received_def bind_Some)
  show ?thesis
  proof (cases "if sc_is_dns con then Some (sg_remote_addr (sc_conaddr con), data) else take_socks_udp data")
    case None
    then show ?thesis using assms c by (auto simp: dgram_handler_received_def)
  next
    case (Some r)
    then show ?thesis using assms c
      by (cases r) (auto simp: dgram_handler_received_def Let_def sg_con_set_def split: if_splits)
  qed
qed

lemma sg_submit_echo:
  assumes "sg_inv o'" "sg_enabled (Sg_Submit r local remote is_dns data) o'"
    and "SocksUdpGwClient_SubmitPacket r local remote is_dns data o' = Some (o'', acts)"
    and "Sg_Datagram q dest pkt \<in> set acts"
  shows "\<exists>o3. dgram_handler_received q pkt o'' = Some (o3, [Sg_Recv_Done q, Sg_Received local remote data])"
proof -
  note i = sg_invD [OF assms(1)]
  have e: "sg_jobs o' = []" "baddr_wf local" "baddr_wf remote"
      "same_kind o' (sg_tree o' local) is_dns" "fits o' is_dns remote data"
    using assms(2) by auto
  have len: "length data \<le> sg_udp_mtu o'" using e(5) by (auto simp: fits_def split: if_splits)
  show ?thesis
  proof (cases "sg_tree o' local")
    case (Some p)
    then obtain con where c: "sg_cons o' p = Some con" "con_local con = local"
      using tree_okD [OF i(6)] by blast
    have k: "sc_is_dns con = is_dns" using e(4) Some c by simp
    define con' where "con' = con\<lparr>sc_conaddr := \<lparr>sg_local_addr = local, sg_remote_addr = remote\<rparr>, sc_is_dns := is_dns\<rparr>"
    have "sc_ok (sg_udp_mtu o') con'"
      using i(7) [OF c(1)] e(2,3) by (simp add: sc_ok_def con'_def)
    then have inv: "sg_inv (sg_con_set p con' o')"
      using sg_con_set_inv [OF assms(1) c(1)] c(2) e(1) by (simp add: con'_def)
    have f: "fits (sg_con_set p con' o') (sc_is_dns con') (sg_remote_addr (sc_conaddr con')) data"
      using e(5) by (simp add: fits_def con'_def)
    obtain o2 res where s: "sg_connection_send p data (sg_con_set p con' o') = Some (o2, acts, res)"
      and o'': "res = 1 \<and> o'' = o2 \<or> o'' = o2\<lparr>sg_list := remove1 p (sg_list o2) @ [p]\<rparr>"
      using assms(3) unfolding sg_submit_known [OF assms(1) e(2,3) len Some c(1) k] con'_def [symmetric]
      by (auto simp: bind_Some split: if_splits)
    have "\<exists>o3. dgram_handler_received q pkt o2 = Some (o3, [Sg_Recv_Done q, Sg_Received local remote data])"
      using sg_send_echo [OF inv _ _ s assms(4) f] e(1) by (auto simp: con'_def)
    then show ?thesis using o'' recv_list_irrelevant by blast
  next
    case None
    then have "acts = []"
      using assms(3) sg_submit_unknown [OF assms(1) e(2,3) len, of is_dns r] by (auto simp: bind_Some)
    then show ?thesis using assms(4) by simp
  qed
qed

lemma sg_step_echo:
  assumes "sg_inv o'" "sg_enabled ev o'" "sg_step ev o' = Some (o'', acts)"
    and "Sg_Datagram q dest pkt \<in> set acts" "sg_handed_over ev o' = (local, remote, data)"
  shows "\<exists>o3. dgram_handler_received q pkt o'' = Some (o3, [Sg_Recv_Done q, Sg_Received local remote data])"
proof (cases ev)
  case (Sg_Submit r l re is_dns d)
  then show ?thesis using sg_submit_echo [OF assms(1)] assms(2-5) by auto
next
  case Sg_First_Job
  then obtain p ps where j: "sg_jobs o' = p # ps" using assms(2) by (cases "sg_jobs o'") auto
  note i = sg_invD [OF assms(1)]
  obtain con where c: "sg_cons o' p = Some con"
      and f: "fits o' (sc_is_dns con) (sg_remote_addr (sc_conaddr con)) (sc_first_data con)"
    using i(8) [of p] j by (cases "sg_cons o' p") auto
  let ?o = "o'\<lparr>sg_jobs := ps\<rparr>"
  have "job_ok ?o x = job_ok o' x" for x by (rule job_ok_cong) simp
  then have inv: "sg_inv ?o" using i j unfolding sg_inv_def by auto
  obtain res where s: "sg_connection_send p (sc_first_data con) ?o = Some (o'', acts, res)"
    using assms(3) Sg_First_Job j c by (auto simp: sg_connection_first_job_handler_def bind_Some)
  show ?thesis
    using sg_send_echo [OF inv _ _ s assms(4), of con] c f i(9) j assms(5) Sg_First_Job
    by (auto simp: fits_def Let_def)
next
  case (Sg_Writer_Recv p out)
  then show ?thesis using assms(3,4) by (auto simp: bind_Some)
next
  case (Sg_Recv p d)
  then show ?thesis
    using recv_acts assms(3,4) by (metis sg_step.simps(4))
qed

section \<open>Runs with a log of the submissions\<close>

fun sg_submission :: "sg_event \<Rightarrow> (baddr \<times> baddr \<times> byte list) list" where
  "sg_submission (Sg_Submit r local remote is_dns data) = [(local, remote, data)]"
| "sg_submission _ = []"

inductive sg_logged :: "(baddr \<times> baddr \<times> byte list) list \<Rightarrow> SocksUdpGwClient \<Rightarrow> bool" where
  init: "SocksUdpGwClient_Init 0 udp_mtu max_connections server dnsgw = Some o' \<Longrightarrow>
         int udp_mtu + 22 \<le> INT_MAX \<Longrightarrow> 0 < max_connections \<Longrightarrow> sg_logged [] o'"
| step: "sg_logged log o' \<Longrightarrow> sg_enabled ev o' \<Longrightarrow> sg_step ev o' = Some (o'', acts) \<Longrightarrow>
         sg_logged (log @ sg_submission ev) o''"

text \<open>The only connection whose first job may be pending is that of the last submission.\<close>

fun sg_first_of :: "(baddr \<times> baddr \<times> byte list) list \<Rightarrow> SocksUdpGwClient_connection option \<Rightarrow> bool" where
  "sg_first_of log None = False"
| "sg_first_of log (Some con) =
     (log \<noteq> [] \<and> last log = (con_local con, sg_remote_addr (sc_conaddr con), sc_first_data con))"

definition sg_log_ok :: "(baddr \<times> baddr \<times> byte list) list \<Rightarrow> SocksUdpGwClient \<Rightarrow> bool" where
  "sg_log_ok log o' = (sg_jobs o' = [] \<or> (\<exists>p. sg_jobs o' = [p] \<and> sg_first_of log (sg_cons o' p)))"

lemma sg_send_jobs:
  assumes "sg_connection_send p d o' = Some (o'', acts, res)"
  shows "sg_jobs o'' = sg_jobs o'"
  using assms by (auto simp: sg_connection_send_def bind_Some Let_def split: option.splits if_splits)

lemma sg_init_log:
  assumes "sg_connection_init r \<lparr>sg_local_addr = local, sg_remote_addr = remote\<rparr> data is_dns o' = Some o''"
    and "sg_jobs o' = []"
  shows "sg_log_ok (log @ [(local, remote, data)]) o''"
  using assms
  by (auto simp: sg_connection_init_def sg_log_ok_def bind_Some Let_def split: option.splits if_splits)

lemma sg_submit_log:
  assumes "SocksUdpGwClient_SubmitPacket r local remote is_dns data o' = Some (o'', acts)" "sg_jobs o' = []"
  shows "sg_log_ok (log @ [(local, remote, data)]) o''"
proof -
  let ?a = "\<lparr>sg_local_addr = local, sg_remote_addr = remote\<rparr>"
  obtain con o1 where con: "find_connection o' ?a is_dns = Some con"
    and o1: "(if con = None \<and> sg_num_connections o' = sg_max_connections o'
          then remove_lru_connection ?a is_dns o' else Some o') = Some o1"
    and rest: "(case con of
       None \<Rightarrow> do { o' \<leftarrow> sg_connection_init r ?a data is_dns o1; Some (o', []) }
     | Some p \<Rightarrow> do {
         o' \<leftarrow> reset_connection p ?a is_dns o1;
         (o', acts, res) \<leftarrow> sg_connection_send p data o';
         if res = 1 then Some (o', acts)
         else do {
           assert_that (p \<in> set (sg_list o'));
           Some (o'\<lparr>sg_list := remove1 p (sg_list o') @ [p]\<rparr>, acts)
         }
       }) = Some (o'', acts)"
    using assms(1) unfolding SocksUdpGwClient_SubmitPacket_def Let_def by (auto simp: bind_Some)
  have j: "sg_jobs o1 = []"
    using o1 assms(2) by (auto simp: remove_lru_connection_def sg_connection_free_def bind_Some split: if_splits)
  show ?thesis
  proof (cases con)
    case None
    then show ?thesis using rest sg_init_log [OF _ j] by (auto simp: bind_Some)
  next
    case (Some p)
    then obtain o2 o3 acts' res where "reset_connection p ?a is_dns o1 = Some o2"
      "sg_connection_send p data o2 = Some (o3, acts', res)" "sg_jobs o'' = sg_jobs o3"
      using rest by (auto simp: bind_Some split: if_splits)
    then have "sg_jobs o'' = []"
      using sg_send_jobs [of p data o2 o3] j by (auto simp: reset_connection_def bind_Some)
    then show ?thesis by (simp add: sg_log_ok_def)
  qed
qed

lemma sg_step_log:
  assumes "sg_log_ok log o'" "sg_enabled ev o'" "sg_step ev o' = Some (o'', acts)"
  shows "sg_log_ok (log @ sg_submission ev) o''"
proof (cases ev)
  case (Sg_Submit r local remote is_dns data)
  then show ?thesis using sg_submit_log [of r local remote is_dns data o' o'' acts] assms by simp
next
  case Sg_First_Job
  then obtain p where j: "sg_jobs o' = [p]" using assms(1,2) by (auto simp: sg_log_ok_def)
  then obtain con :: SocksUdpGwClient_connection and res
    where "sg_connection_send p (sc_first_data con) (o'\<lparr>sg_jobs := []\<rparr>) = Some (o'', acts, res)"
    using assms(3) Sg_First_Job by (auto simp: sg_connection_first_job_handler_def bind_Some)
  from sg_send_jobs [OF this] show ?thesis by (simp add: sg_log_ok_def)
next
  case (Sg_Writer_Recv p out)
  then obtain con w where c: "sg_cons o' p = Some con"
    "o'' = sg_con_set p (con\<lparr>sc_udp_send_writer := w\<rparr>) o'" using assms(3) by (auto simp: bind_Some)
  then show ?thesis using assms(1) Sg_Writer_Recv by (auto simp: sg_log_ok_def sg_con_set_def)
next
  case (Sg_Recv p d)
  then have "sg_jobs o'' = sg_jobs o'" "sg_jobs o' = []"
    using assms(2,3) recv_jobs by auto
  then show ?thesis by (simp add: sg_log_ok_def)
qed

lemma sg_logged_ok: "sg_logged log o' \<Longrightarrow> sg_reachable o' \<and> sg_log_ok log o'"
proof (induction rule: sg_logged.induct)
  case (init udp_mtu max_connections server dnsgw o')
  then have "sg_jobs o' = []" by (auto simp: SocksUdpGwClient_Init_def bind_Some)
  then show ?case using sg_reachable.init [OF init] by (simp add: sg_log_ok_def)
next
  case (step log o' ev o'' acts)
  then show ?case using sg_reachable.step sg_step_log by blast
qed

lemma sg_logged_last:
  assumes "sg_logged log o'" "sg_enabled ev o'" "sg_step ev o' = Some (o'', acts)"
    and "Sg_Datagram q dest pkt \<in> set acts"
  shows "log @ sg_submission ev \<noteq> [] \<and> last (log @ sg_submission ev) = sg_handed_over ev o'"
proof (cases ev)
  case Sg_First_Job
  then obtain p where "sg_jobs o' = [p]" "sg_first_of log (sg_cons o' p)"
    using sg_logged_ok [OF assms(1)] assms(2) by (auto simp: sg_log_ok_def)
  then show ?thesis using Sg_First_Job by (cases "sg_cons o' p") (auto simp: Let_def)
next
  case (Sg_Writer_Recv p out)
  then show ?thesis using assms(3,4) by (auto simp: bind_Some)
next
  case (Sg_Recv p d)
  then show ?thesis using recv_acts assms(3,4) by (metis sg_step.simps(4))
qed simp

section \<open>Example runs\<close>

fun sg_run :: "sg_event list \<Rightarrow> SocksUdpGwClient \<Rightarrow> SocksUdpGwClient option" where
  "sg_run [] o' = Some o'"
| "sg_run (ev # evs) o' =
     (if sg_enabled ev o' then do { (o', _) \<leftarrow> sg_step ev o'; sg_run evs o' } else None)"

lemma sg_run_reachable: "sg_reachable o' \<Longrightarrow> sg_run evs o' = Some o'' \<Longrightarrow> sg_reachable o''"
proof (induction evs arbitrary: o')
  case (Cons ev evs)
  then show ?case by (auto simp: bind_Some split: if_splits intro: sg_reachable.step)
qed simp

lemma sg_run_logged:
  "sg_logged log o' \<Longrightarrow> sg_run evs o' = Some o'' \<Longrightarrow> sg_logged (log @ concat (map sg_submission evs)) o''"
proof (induction evs arbitrary: o' log)
  case (Cons ev evs)
  then obtain o1 acts where "sg_enabled ev o'" "sg_step ev o' = Some (o1, acts)" "sg_run evs o1 = Some o''"
    by (auto simp: bind_Some split: if_splits)
  then show ?case using Cons.IH [OF sg_logged.step [OF Cons.prems(1)]] by simp
qed simp

definition sg_server :: baddr where "sg_server = BADDR_IPV4 16777343 14340"
definition sg_resolver :: baddr where "sg_resolver = BADDR_IPV4 16777343 13568"

definition sg_start :: SocksUdpGwClient where
  "sg_start = \<lparr>sg_udp_mtu = 12, sg_socks_server_addr = sg_server, sg_dnsgw = sg_resolver, sg_udpgw_mtu = 34,
     sg_num_connections = 0, sg_max_connections = 2, sg_tree = Map.empty, sg_list = [],
     sg_cons = Map.empty, sg_jobs = []\<rparr>"

lemma sg_start_init: "SocksUdpGwClient_Init 0 12 2 sg_server sg_resolver = Some sg_start"
  using udpgw_compute_mtu_eq [of 12 True]
  by (simp add: SocksUdpGwClient_Init_def sg_start_def INT_MAX_def UINT16_MAX_def sg_server_def)

definition sg_example :: "sg_event list \<Rightarrow> SocksUdpGwClient" where
  "sg_example evs = the (sg_run evs sg_start)"

lemma sg_example_reachable:
  assumes "sg_run evs sg_start \<noteq> None"
  shows "sg_reachable (sg_example evs)"
proof -
  obtain s where s: "sg_run evs sg_start = Some s" using assms by blast
  have "sg_reachable sg_start"
    by (rule sg_reachable.init [OF sg_start_init]) (simp_all add: INT_MAX_def)
  then show ?thesis using sg_run_reachable s by (simp add: sg_example_def)
qed

definition all_ok :: "nat \<Rightarrow> sg_results" where
  "all_ok p = \<lparr>sr_mem = Some p, sr_dgram_ok = True, sr_reuse_ok = True, sr_buffer_ok = True,
     sr_recv_buffer_ok = True\<rparr>"

definition sg_local :: baddr where "sg_local = BADDR_IPV4 16777226 1"
definition sg_remote :: baddr where "sg_remote = BADDR_IPV4 134744072 47873"

text \<open>A connection for ordinary traffic is opened, and its writer has a buffer again.\<close>

definition sg_events :: "sg_event list" where
  "sg_events = [Sg_Submit (all_ok 7) sg_local sg_remote False [1, 2], Sg_Writer_Recv 7 (replicate 12 0),
     Sg_First_Job, Sg_Writer_Recv 7 (replicate 12 0)]"

lemma sg_events_run: "sg_run sg_events sg_start \<noteq> None"
  by code_simp

section \<open>Properties\<close>

text \<open>
  C23. As long as a local address whose connection exists is not used for both DNS and other
  traffic and every datagram leaves room for the SOCKS header, the Android UDP relay handles every
  event without a failed assertion, a write outside a buffer or a use of freed memory, and its tree
  and list index exactly its connections, no more than the limit.
\<close>

theorem SocksUdpGw_no_failure:
  assumes "sg_reachable o'"
  shows "(\<forall>ev. sg_enabled ev o' \<longrightarrow> sg_step ev o' \<noteq> None)
    \<and> (\<forall>a p. sg_tree o' a = Some p \<longleftrightarrow> (\<exists>con. sg_cons o' p = Some con \<and> sg_local_addr (sc_conaddr con) = a))
    \<and> distinct (sg_list o') \<and> set (sg_list o') = dom (sg_cons o')
    \<and> sg_num_connections o' = card (dom (sg_cons o')) \<and> sg_num_connections o' \<le> sg_max_connections o'"
proof -
  note i = sg_invD [OF sg_reachable_inv [OF assms]]
  have "card (dom (sg_cons o')) = length (sg_list o')" using distinct_card [OF i(1)] i(2) by simp
  moreover have "sg_step ev o' \<noteq> None" if "sg_enabled ev o'" for ev
    using sg_step_keeps [OF sg_reachable_inv [OF assms] that] by auto
  moreover have "sg_tree o' a = Some p \<longleftrightarrow> (\<exists>con. sg_cons o' p = Some con \<and> con_local con = a)" for a p
    by (rule tree_okD [OF i(6)])
  ultimately show ?thesis using i(1-4) by simp
qed

theorem SocksUdpGw_no_failure_witness:
  "sg_step (Sg_Submit (all_ok 8) sg_server sg_remote True [1, 2, 3]) (sg_example sg_events) \<noteq> None"
  by (rule SocksUdpGw_no_failure [OF sg_example_reachable [OF sg_events_run], THEN conjunct1, rule_format])
     code_simp

text \<open>
  C24. What the Android UDP relay sends and what it accepts agree. In every run with a log of the
  submissions, a datagram that an event sends is the one submitted last, whether it is sent at once or by
  the first job of a new connection: when the other side returns it unchanged, the user is handed the
  local address, the remote address and the data of the last entry of the log, with the SOCKS header
  for ordinary traffic and without it for DNS.
\<close>

theorem SocksUdpGw_echo:
  assumes "sg_logged log o'" "sg_enabled ev o'" "sg_step ev o' = Some (o'', acts)"
    and "Sg_Datagram q dest pkt \<in> set acts"
  shows "\<exists>local remote data o3. log @ sg_submission ev \<noteq> [] \<and> last (log @ sg_submission ev) = (local, remote, data)
     \<and> dgram_handler_received q pkt o'' = Some (o3, [Sg_Recv_Done q, Sg_Received local remote data])"
proof -
  obtain local remote data where h: "sg_handed_over ev o' = (local, remote, data)" by (metis surj_pair)
  moreover have "sg_inv o'" using sg_logged_ok [OF assms(1)] sg_reachable_inv by blast
  ultimately show ?thesis
    using sg_logged_last [OF assms] sg_step_echo [OF _ assms(2-4) h] by metis
qed

text \<open>The first job of the first connection, after its writer got a buffer.\<close>

definition sg_opening :: "sg_event list" where "sg_opening = take 2 sg_events"

lemma sg_opening_logged: "sg_logged [(sg_local, sg_remote, [1, 2])] (sg_example sg_opening)"
proof -
  have "sg_logged [] sg_start"
    by (rule sg_logged.init [OF sg_start_init]) (simp_all add: INT_MAX_def)
  moreover have ne: "sg_run sg_opening sg_start \<noteq> None" by code_simp
  then have "sg_run sg_opening sg_start = Some (sg_example sg_opening)" by (auto simp: sg_example_def)
  ultimately have "sg_logged ([] @ concat (map sg_submission sg_opening)) (sg_example sg_opening)"
    by (rule sg_run_logged)
  then show ?thesis by (simp add: sg_opening_def sg_events_def)
qed

theorem SocksUdpGw_echo_witness:
  "\<exists>o3. dgram_handler_received 7 [0, 0, 0, 1, 8, 8, 8, 8, 1, 187, 1, 2]
      (fst (the (sg_step Sg_First_Job (sg_example sg_opening))))
     = Some (o3, [Sg_Recv_Done 7, Sg_Received sg_local sg_remote [1, 2]])"
proof -
  let ?s = "sg_example sg_opening"
  have ne: "sg_step Sg_First_Job ?s \<noteq> None" by code_simp
  then obtain o'' acts where s: "sg_step Sg_First_Job ?s = Some (o'', acts)" by fastforce
  have "snd (the (sg_step Sg_First_Job ?s)) = [Sg_Datagram 7 sg_server [0, 0, 0, 1, 8, 8, 8, 8, 1, 187, 1, 2]]" by code_simp
  then have "Sg_Datagram 7 sg_server [0, 0, 0, 1, 8, 8, 8, 8, 1, 187, 1, 2] \<in> set acts"
    by (simp add: s del: sg_step.simps)
  moreover have "sg_enabled Sg_First_Job ?s" by code_simp
  ultimately have "\<exists>o3. dgram_handler_received 7 [0, 0, 0, 1, 8, 8, 8, 8, 1, 187, 1, 2] o''
     = Some (o3, [Sg_Recv_Done 7, Sg_Received sg_local sg_remote [1, 2]])"
    using SocksUdpGw_echo [OF sg_opening_logged _ s] by simp
  then show ?thesis by (simp add: s del: sg_step.simps)
qed

text \<open>
  C25. The Android UDP relay admits datagrams of up to \<open>udp_mtu\<close> bytes but sizes its buffers for
  \<open>udp_mtu\<close> bytes including the SOCKS header: on an existing connection with a free buffer,
  submitting an admitted datagram writes outside the buffer exactly when it is not DNS and the data
  with the header of 4 bytes and the address exceeds \<open>udp_mtu\<close>.
\<close>

theorem SocksUdpGw_overflow:
  assumes "sg_reachable o'" "baddr_wf local" "baddr_wf remote" "length data \<le> sg_udp_mtu o'"
    and "sg_tree o' local = Some p" "sg_cons o' p = Some con" "bw_out_have (sc_udp_send_writer con)"
  shows "SocksUdpGwClient_SubmitPacket r local remote (sc_is_dns con) data o' = None
     \<longleftrightarrow> \<not> sc_is_dns con \<and> sg_udp_mtu o' < 4 + length (udpgw_addr remote) + length data"
proof -
  note i = sg_invD [OF sg_reachable_inv [OF assms(1)]]
  define con' where "con' = con\<lparr>sc_conaddr := \<lparr>sg_local_addr = local, sg_remote_addr = remote\<rparr>,
      sc_is_dns := sc_is_dns con\<rparr>"
  let ?o = "sg_con_set p con' o'"
  have c: "sg_cons ?o p = Some con'" "writer_ok (sg_udp_mtu ?o) (sc_udp_send_writer con')"
    "baddr_wf (sg_remote_addr (sc_conaddr con'))" "bw_out_have (sc_udp_send_writer con')"
    using i(7) [OF assms(6)] assms(3,7) by (simp_all add: con'_def sc_ok_def)
  have p: "p \<in> set (sg_list o')" using i(2) assms(6) by blast
  have "sg_connection_send p data ?o =
      (if fits ?o (sc_is_dns con) remote data
       then Some (sg_con_set p (writer_done con') ?o,
                 [Sg_Datagram p (sc_send_addr con') (payload_header con' @ data)], 0)
       else None)"
    using sg_send_cases [OF c(1-3), of data] c(4) by (simp add: con'_def)
  then show ?thesis
    using p assms(4) unfolding sg_submit_known [OF sg_reachable_inv [OF assms(1)] assms(2-6) refl] con'_def [symmetric]
    by (auto simp: fits_def)
qed

theorem SocksUdpGw_overflow_witness:
  "SocksUdpGwClient_SubmitPacket (all_ok 8) sg_local sg_remote False [1, 2, 3] (sg_example sg_events) = None"
proof -
  let ?s = "sg_example sg_events"
  obtain con where c: "sg_cons ?s 7 = Some con"
  proof -
    have "sg_cons ?s 7 \<noteq> None" by code_simp
    then show thesis using that by blast
  qed
  have "bw_out_have (sc_udp_send_writer (the (sg_cons ?s 7)))" "\<not> sc_is_dns (the (sg_cons ?s 7))"
    by code_simp+
  then have w: "bw_out_have (sc_udp_send_writer con)" "sc_is_dns con = False" by (simp_all add: c)
  have t: "sg_tree ?s sg_local = Some 7" "length ([1, 2, 3] :: byte list) \<le> sg_udp_mtu ?s"
    "sg_udp_mtu ?s < 4 + length (udpgw_addr sg_remote) + length ([1, 2, 3] :: byte list)"
    "baddr_wf sg_local" "baddr_wf sg_remote"
    by code_simp+
  show ?thesis
    using SocksUdpGw_overflow [OF sg_example_reachable [OF sg_events_run] t(4,5,2,1) c w(1), of "all_ok 8"]
      t(3) unfolding w(2) by simp
qed

text \<open>
  C26. The Android UDP relay looks connections up by local address and kind but files them by local
  address alone: when a local address that has a connection is used for traffic of the other kind
  (DNS after ordinary traffic, or the reverse), setting up the second connection always runs into
  the insertion of a key the tree already has, unless that very connection is evicted to make room.
\<close>

theorem SocksUdpGw_dns_mixup:
  assumes "sg_reachable o'" "sg_jobs o' = []" "baddr_wf local" "baddr_wf remote" "length data \<le> sg_udp_mtu o'"
    and "sg_tree o' local = Some p" "sg_cons o' p = Some con" "sc_is_dns con \<noteq> is_dns"
    and "sg_num_connections o' = sg_max_connections o' \<Longrightarrow> hd (sg_list o') \<noteq> p"
    and "sg_cons o' m = None"
  shows "SocksUdpGwClient_SubmitPacket (all_ok m) local remote is_dns data o' = None"
proof -
  note inv = sg_reachable_inv [OF assms(1)]
  note i = sg_invD [OF inv]
  have local: "con_local con = local" using tree_okD [OF i(6)] assms(6,7) by force
  note u = sg_submit_unknown [OF inv assms(3-5), of is_dns "all_ok m"]
  have m: "sr_mem (all_ok m) = Some m" "sr_dgram_ok (all_ok m)" "sr_reuse_ok (all_ok m)" "sr_buffer_ok (all_ok m)"
    "sr_recv_buffer_ok (all_ok m)" by (simp_all add: all_ok_def)
  have clash: "sg_connection_init (all_ok m) \<lparr>sg_local_addr = local, sg_remote_addr = remote\<rparr> data is_dns s = None"
    if "sg_cons s m = None" "sg_tree s local \<noteq> None" for s
    using that m sg_connection_init_eq [of s "all_ok m"] by simp
  show ?thesis
  proof (cases "sg_num_connections o' = sg_max_connections o'")
    case True
    then have "sg_list o' \<noteq> []" using i(3,5) by auto
    then have h: "hd (sg_list o') \<in> set (sg_list o')" by simp
    obtain o2 c2 where f: "sg_connection_free (hd (sg_list o')) o' = Some o2"
      "sg_cons o' (hd (sg_list o')) = Some c2"
      "sg_cons o2 = (sg_cons o')(hd (sg_list o') := None)" "sg_tree o2 = (sg_tree o')(con_local c2 := None)"
      by (rule sg_connection_free_ok [OF inv h]) (use assms(2) in auto)
    have "con_local c2 \<noteq> local"
      using tree_ok_inj [OF i(6) f(2) assms(7)] local assms(9) [OF True] by auto
    then have "sg_tree o2 local \<noteq> None" using f(4) assms(6) by simp
    moreover have "sg_cons o2 m = None" using f(3) assms(10) by simp
    ultimately show ?thesis using u f(1) True clash assms(6-8) by auto
  next
    case False
    then show ?thesis using u clash [OF assms(10)] assms(6-8) by auto
  qed
qed

theorem SocksUdpGw_dns_mixup_witness:
  "SocksUdpGwClient_SubmitPacket (all_ok 8) sg_local sg_remote True [1] (sg_example sg_events) = None"
proof -
  let ?s = "sg_example sg_events"
  obtain con where c: "sg_cons ?s 7 = Some con"
  proof -
    have "sg_cons ?s 7 \<noteq> None" by code_simp
    then show thesis using that by blast
  qed
  have "\<not> sc_is_dns (the (sg_cons ?s 7))" by code_simp
  then have k: "sc_is_dns con \<noteq> True" by (simp add: c)
  have t: "sg_jobs ?s = []" "baddr_wf sg_local" "baddr_wf sg_remote" "length ([1] :: byte list) \<le> sg_udp_mtu ?s"
    "sg_tree ?s sg_local = Some 7" "sg_num_connections ?s \<noteq> sg_max_connections ?s" "sg_cons ?s 8 = None"
    by code_simp+
  show ?thesis
    by (rule SocksUdpGw_dns_mixup [OF sg_example_reachable [OF sg_events_run] t(1-5) c k _ t(7)])
       (use t(6) in simp)
qed

end
