(* ===== verification/BSocksClient.thy ===== *)
theory BSocksClient
  imports SocksUdpGwClient
begin

text \<open>
  The SOCKS5 client (\<open>socksclient/BSocksClient.c\<close>): it connects, negotiates authentication and
  requests CONNECT or UDP ASSOCIATE. Every message is composed in or received into one
  reallocated buffer.

  \<open>bs_send_busy\<close> and \<open>bs_recv_busy\<close> are the states of the two control interfaces, which accept one
  operation at a time; \<open>bs_io\<close> says which interfaces of the connection are initialised. The
  interface stores received bytes before it calls \<open>recv_handler_done\<close>; that is the first step of
  the definition. The results of memory allocation and of \<open>BConnection_Init\<close> are arguments;
  \<open>br_junk\<close> is what fresh memory holds.
\<close>

section \<open>Protocol constants\<close>

definition SOCKS_VERSION :: byte where "SOCKS_VERSION = 5"
definition SOCKS_METHOD_NO_AUTHENTICATION_REQUIRED :: byte where "SOCKS_METHOD_NO_AUTHENTICATION_REQUIRED = 0"
definition SOCKS_METHOD_USERNAME_PASSWORD :: byte where "SOCKS_METHOD_USERNAME_PASSWORD = 2"
definition SOCKS_CMD_CONNECT :: byte where "SOCKS_CMD_CONNECT = 1"
definition SOCKS_CMD_UDP_ASSOCIATE :: byte where "SOCKS_CMD_UDP_ASSOCIATE = 3"
definition SOCKS_REP_SUCCEEDED :: byte where "SOCKS_REP_SUCCEEDED = 0"

text \<open>The memory images of the packed structs.\<close>

definition socks_client_hello_header :: "byte \<Rightarrow> byte \<Rightarrow> byte list" where
  "socks_client_hello_header ver nmethods = [ver, nmethods]"

definition socks_client_hello_method :: "byte \<Rightarrow> byte list" where
  "socks_client_hello_method m = [m]"

definition socks_request_header :: "byte \<Rightarrow> byte \<Rightarrow> byte \<Rightarrow> byte \<Rightarrow> byte list" where
  "socks_request_header ver cmd rsv atyp = [ver, cmd, rsv, atyp]"

definition socks_addr_ipv4 :: "u32 \<Rightarrow> u16 \<Rightarrow> byte list" where
  "socks_addr_ipv4 addr port = bytes32 addr @ bytes16 port"

definition socks_addr_ipv6 :: "byte list \<Rightarrow> u16 \<Rightarrow> byte list" where
  "socks_addr_ipv6 addr port = take 16 addr @ bytes16 port"

section \<open>State\<close>

datatype socks_state =
    STATE_CONNECTING | STATE_CONNECTED_HANDLER | STATE_SENDING_HELLO | STATE_SENT_HELLO
  | STATE_SENDING_PASSWORD | STATE_SENT_PASSWORD | STATE_SENDING_REQUEST | STATE_SENT_REQUEST
  | STATE_RECEIVED_REPLY_HEADER | STATE_UP

datatype socks_event = EVENT_ERROR | EVENT_UP | EVENT_ERROR_CLOSED | EVENT_CONNECTED

text \<open>The authentication methods with their parameters.\<close>

datatype BSocksClient_auth_info = Auth_none | Auth_password "byte list" "byte list"

fun auth_type :: "BSocksClient_auth_info \<Rightarrow> byte" where
  "auth_type Auth_none = SOCKS_METHOD_NO_AUTHENTICATION_REQUIRED"
| "auth_type (Auth_password _ _) = SOCKS_METHOD_USERNAME_PASSWORD"

definition BSocksClient_auth_none :: BSocksClient_auth_info where
  "BSocksClient_auth_none = Auth_none"

definition BSocksClient_auth_password :: "byte list \<Rightarrow> byte list \<Rightarrow> BSocksClient_auth_info" where
  "BSocksClient_auth_password username password = Auth_password username password"

datatype socks_io = No_io | Control_io | Up_io

record BSocksClient =
  bs_auth_info :: "BSocksClient_auth_info list"
  bs_dest_addr :: baddr
  bs_udp :: bool
  bs_bind_type :: int
  bs_bind_addr :: baddr
  bs_state :: socks_state
  bs_buffer :: "byte list option"
  bs_continue_job :: bool
  bs_io :: socks_io
  bs_send_busy :: bool
  bs_recv_busy :: bool
  bs_recv_dest :: nat
  bs_recv_len :: nat
  bs_recv_total :: nat

record bs_results =
  br_con_ok :: bool
  br_alloc_ok :: bool
  br_junk :: "nat \<Rightarrow> byte"

datatype bs_act = Bs_Event socks_event | Bs_Send "byte list" | Bs_Recv nat nat

type_synonym bs_outcome = "(BSocksClient \<times> bs_act list) option"

section \<open>Helpers\<close>

definition bs_report_error :: "BSocksClient \<Rightarrow> socks_event \<Rightarrow> bs_outcome" where
  "bs_report_error o' err = Some (o', [Bs_Event err])"

definition init_control_io :: "BSocksClient \<Rightarrow> BSocksClient option" where
  "init_control_io o' = do {
     assert_that (bs_io o' = No_io);
     Some (o'\<lparr>bs_io := Control_io, bs_send_busy := False, bs_recv_busy := False\<rparr>)
   }"

definition free_control_io :: "BSocksClient \<Rightarrow> BSocksClient option" where
  "free_control_io o' = do { assert_that (bs_io o' = Control_io); Some (o'\<lparr>bs_io := No_io\<rparr>) }"

definition init_up_io :: "BSocksClient \<Rightarrow> BSocksClient option" where
  "init_up_io o' = do { assert_that (bs_io o' = No_io); Some (o'\<lparr>bs_io := Up_io\<rparr>) }"

definition free_up_io :: "BSocksClient \<Rightarrow> BSocksClient option" where
  "free_up_io o' = do { assert_that (bs_io o' = Up_io); Some (o'\<lparr>bs_io := No_io\<rparr>) }"

text \<open>\<open>BRealloc\<close> keeps the old contents; the result is whether the buffer was reserved.\<close>

definition brealloc :: "(nat \<Rightarrow> byte) \<Rightarrow> byte list \<Rightarrow> nat \<Rightarrow> byte list" where
  "brealloc junk old n = take n old @ map junk [length old..<n]"

definition reserve_buffer :: "bs_results \<Rightarrow> bsize_t \<Rightarrow> BSocksClient \<Rightarrow> BSocksClient \<times> bool" where
  "reserve_buffer r sz o' =
     (if is_overflow sz then (o', False)
      else if \<not> br_alloc_ok r then (o', False)
      else (o'\<lparr>bs_buffer := Some (brealloc (br_junk r) (case bs_buffer o' of None \<Rightarrow> [] | Some b \<Rightarrow> b)
                                 (unat (bs_value sz)))\<rparr>, True))"

definition do_receive :: "BSocksClient \<Rightarrow> bs_outcome" where
  "do_receive o' = do {
     assert_that (bs_recv_len o' < bs_recv_total o');
     assert_that (bs_io o' = Control_io \<and> \<not> bs_recv_busy o');
     Some (o'\<lparr>bs_recv_busy := True\<rparr>,
           [Bs_Recv (bs_recv_dest o' + bs_recv_len o') (bs_recv_total o' - bs_recv_len o')])
   }"

definition start_receive :: "nat \<Rightarrow> nat \<Rightarrow> BSocksClient \<Rightarrow> bs_outcome" where
  "start_receive dest tot o' = do {
     assert_that (tot > 0);
     do_receive (o'\<lparr>bs_recv_dest := dest, bs_recv_len := 0, bs_recv_total := tot\<rparr>)
   }"

text \<open>\<open>PacketPassInterface_Sender_Send(control.send_if, buffer, len)\<close>.\<close>

definition send_buffer :: "nat \<Rightarrow> BSocksClient \<Rightarrow> bs_outcome" where
  "send_buffer len o' = do {
     buf \<leftarrow> bs_buffer o';
     assert_that (len \<le> length buf);
     assert_that (bs_io o' = Control_io \<and> \<not> bs_send_busy o');
     Some (o'\<lparr>bs_send_busy := True\<rparr>, [Bs_Send (take len buf)])
   }"

definition buffer_write :: "nat \<Rightarrow> byte list \<Rightarrow> BSocksClient \<Rightarrow> BSocksClient option" where
  "buffer_write pos src o' = do {
     buf \<leftarrow> bs_buffer o';
     buf \<leftarrow> memcpy_out pos src buf;
     Some (o'\<lparr>bs_buffer := Some buf\<rparr>)
   }"

definition set_state :: "socks_state \<Rightarrow> bs_outcome \<Rightarrow> bs_outcome" where
  "set_state st x = do { (o', acts) \<leftarrow> x; Some (o'\<lparr>bs_state := st\<rparr>, acts) }"

section \<open>Handlers\<close>

definition connector_handler :: "bs_results \<Rightarrow> bool \<Rightarrow> BSocksClient \<Rightarrow> bs_outcome" where
  "connector_handler r is_error o' = do {
     assert_that (bs_state o' = STATE_CONNECTING);
     if is_error \<or> \<not> br_con_ok r then bs_report_error o' EVENT_ERROR
     else do {
       o' \<leftarrow> init_control_io o';
       Some (o'\<lparr>bs_state := STATE_CONNECTED_HANDLER, bs_continue_job := True\<rparr>, [Bs_Event EVENT_CONNECTED])
     }
   }"

definition connection_handler :: "bool \<Rightarrow> BSocksClient \<Rightarrow> bs_outcome" where
  "connection_handler recv_closed o' = do {
     assert_that (bs_state o' \<noteq> STATE_CONNECTING);
     if bs_state o' = STATE_UP \<and> recv_closed then bs_report_error o' EVENT_ERROR_CLOSED
     else bs_report_error o' EVENT_ERROR
   }"

text \<open>The loop that writes the methods behind the header.\<close>

fun write_methods :: "nat \<Rightarrow> BSocksClient_auth_info list \<Rightarrow> BSocksClient \<Rightarrow> BSocksClient option" where
  "write_methods i [] o' = Some o'"
| "write_methods i (a # as) o' =
     buffer_write (2 + i * 1) (socks_client_hello_method (auth_type a)) o' \<bind> write_methods (i + 1) as"

definition continue_job_handler :: "bs_results \<Rightarrow> BSocksClient \<Rightarrow> bs_outcome" where
  "continue_job_handler r o' = do {
     assert_that (bs_state o' = STATE_CONNECTED_HANDLER);
     let num_auth_info = length (bs_auth_info o');
     if num_auth_info = 0 \<or> num_auth_info > 255 then bs_report_error o' EVENT_ERROR
     else do {
       let sz = bsize_add (bsize_fromsize 2) (bsize_mul (bsize_fromsize (of_nat num_auth_info)) (bsize_fromsize 1));
       let (o', ok) = reserve_buffer r sz o';
       if \<not> ok then bs_report_error o' EVENT_ERROR
       else do {
         o' \<leftarrow> buffer_write 0 (socks_client_hello_header SOCKS_VERSION (of_nat num_auth_info)) o';
         o' \<leftarrow> write_methods 0 (bs_auth_info o') o';
         set_state STATE_SENDING_HELLO (send_buffer (unat (bs_value sz)) o')
       }
     }
   }"

definition auth_finished :: "bs_results \<Rightarrow> BSocksClient \<Rightarrow> bs_outcome" where
  "auth_finished r o' =
     (case (case bs_dest_addr o' of
              BADDR_IPV4 _ _ \<Rightarrow> Some (bsize_add (bsize_fromsize 4) (bsize_fromsize 6))
            | BADDR_IPV6 _ _ \<Rightarrow> Some (bsize_add (bsize_fromsize 4) (bsize_fromsize 18))
            | BADDR_NONE \<Rightarrow> None) of
        None \<Rightarrow> bs_report_error o' EVENT_ERROR
      | Some sz \<Rightarrow> do {
          let (o', ok) = reserve_buffer r sz o';
          if \<not> ok then bs_report_error o' EVENT_ERROR
          else do {
            let cmd = (if bs_udp o' then SOCKS_CMD_UDP_ASSOCIATE else SOCKS_CMD_CONNECT);
            (o', atyp) \<leftarrow>
              (case bs_dest_addr o' of
                 BADDR_IPV4 ip port \<Rightarrow> do {
                   o' \<leftarrow> buffer_write 4 (socks_addr_ipv4 ip port) o'; Some (o', SOCKS_ATYP_IPV4) }
               | BADDR_IPV6 ip port \<Rightarrow> do {
                   o' \<leftarrow> buffer_write 4 (socks_addr_ipv6 ip port) o'; Some (o', SOCKS_ATYP_IPV6) }
               | BADDR_NONE \<Rightarrow> None);
            o' \<leftarrow> buffer_write 0 (socks_request_header SOCKS_VERSION cmd 0 atyp) o';
            set_state STATE_SENDING_REQUEST (send_buffer (unat (bs_value sz)) o')
          }
        })"

text \<open>The stages of \<open>recv_handler_done\<close>, by state; \<open>buf\<close> is the buffer's contents.\<close>

definition recv_hello :: "bs_results \<Rightarrow> byte list \<Rightarrow> BSocksClient \<Rightarrow> bs_outcome" where
  "recv_hello r buf o' =
     (if buf ! 0 \<noteq> SOCKS_VERSION then bs_report_error o' EVENT_ERROR
      else case find (\<lambda>ai. auth_type ai = buf ! 1) (bs_auth_info o') of
        None \<Rightarrow> bs_report_error o' EVENT_ERROR
      | Some Auth_none \<Rightarrow> auth_finished r o'
      | Some (Auth_password username password) \<Rightarrow>
          if length username = 0 \<or> length username > 255 \<or> length password = 0 \<or> length password > 255
          then bs_report_error o' EVENT_ERROR
          else do {
            let sz = bsize_fromsize (of_nat (1 + 1 + length username + 1 + length password));
            let (o', ok) = reserve_buffer r sz o';
            if \<not> ok then bs_report_error o' EVENT_ERROR
            else do {
              o' \<leftarrow> buffer_write 0 [1] o';
              o' \<leftarrow> buffer_write 1 [of_nat (length username)] o';
              o' \<leftarrow> buffer_write 2 username o';
              o' \<leftarrow> buffer_write (2 + length username) [of_nat (length password)] o';
              o' \<leftarrow> buffer_write (3 + length username) password o';
              set_state STATE_SENDING_PASSWORD (send_buffer (unat (bs_value sz)) o')
            }
          })"

definition recv_reply_header :: "byte list \<Rightarrow> BSocksClient \<Rightarrow> bs_outcome" where
  "recv_reply_header buf o' =
     (if buf ! 0 \<noteq> SOCKS_VERSION then bs_report_error o' EVENT_ERROR
      else if buf ! 1 \<noteq> SOCKS_REP_SUCCEEDED then bs_report_error o' EVENT_ERROR
      else if buf ! 3 = SOCKS_ATYP_IPV4
      then set_state STATE_RECEIVED_REPLY_HEADER (start_receive 4 6 (o'\<lparr>bs_bind_type := 1\<rparr>))
      else if buf ! 3 = SOCKS_ATYP_IPV6
      then set_state STATE_RECEIVED_REPLY_HEADER (start_receive 4 18 (o'\<lparr>bs_bind_type := 2\<rparr>))
      else bs_report_error o' EVENT_ERROR)"

definition recv_password_reply :: "bs_results \<Rightarrow> byte list \<Rightarrow> BSocksClient \<Rightarrow> bs_outcome" where
  "recv_password_reply r buf o' =
     (if buf ! 0 \<noteq> 1 then bs_report_error o' EVENT_ERROR
      else if buf ! 1 \<noteq> 0 then bs_report_error o' EVENT_ERROR
      else auth_finished r o')"

definition recv_reply_rest :: "byte list \<Rightarrow> BSocksClient \<Rightarrow> bs_outcome" where
  "recv_reply_rest buf o' = do {
     let a = seg buf 4 18;
     addr \<leftarrow>
       (if bs_bind_type o' = 1
        then Some (BADDR_IPV4 (mk32 (a ! 0) (a ! 1) (a ! 2) (a ! 3)) (mk16 (a ! 4) (a ! 5)))
        else if bs_bind_type o' = 2
        then Some (BADDR_IPV6 (take 16 a) (mk16 (a ! 16) (a ! 17)))
        else None);
     let o' = o'\<lparr>bs_bind_addr := addr, bs_buffer := None\<rparr>;
     o' \<leftarrow> free_control_io o';
     o' \<leftarrow> init_up_io o';
     Some (o'\<lparr>bs_state := STATE_UP\<rparr>, [Bs_Event EVENT_UP])
   }"

definition recv_handler_done :: "bs_results \<Rightarrow> byte list \<Rightarrow> BSocksClient \<Rightarrow> bs_outcome" where
  "recv_handler_done r data o' = do {
     o' \<leftarrow> buffer_write (bs_recv_dest o' + bs_recv_len o') data (o'\<lparr>bs_recv_busy := False\<rparr>);
     assert_that (length data \<le> bs_recv_total o' - bs_recv_len o');
     let o' = o'\<lparr>bs_recv_len := bs_recv_len o' + length data\<rparr>;
     if bs_recv_len o' < bs_recv_total o' then do_receive o'
     else do {
       buf \<leftarrow> bs_buffer o';
       case bs_state o' of
         STATE_SENT_HELLO \<Rightarrow> recv_hello r buf o'
       | STATE_SENT_REQUEST \<Rightarrow> recv_reply_header buf o'
       | STATE_SENT_PASSWORD \<Rightarrow> recv_password_reply r buf o'
       | STATE_RECEIVED_REPLY_HEADER \<Rightarrow> recv_reply_rest buf o'
       | _ \<Rightarrow> None
     }
   }"

definition send_handler_done :: "bs_results \<Rightarrow> BSocksClient \<Rightarrow> bs_outcome" where
  "send_handler_done r o' = do {
     assert_that (bs_buffer o' \<noteq> None);
     let o' = o'\<lparr>bs_send_busy := False\<rparr>;
     case bs_state o' of
       STATE_SENDING_HELLO \<Rightarrow> do {
         let (o', ok) = reserve_buffer r (bsize_fromsize 2) o';
         if \<not> ok then bs_report_error o' EVENT_ERROR
         else set_state STATE_SENT_HELLO (start_receive 0 2 o')
       }
     | STATE_SENDING_REQUEST \<Rightarrow> do {
         let (o', ok) = reserve_buffer r
           (bsize_add (bsize_fromsize 4) (bsize_max (bsize_fromsize 6) (bsize_fromsize 18))) o';
         if \<not> ok then bs_report_error o' EVENT_ERROR
         else set_state STATE_SENT_REQUEST (start_receive 0 4 o')
       }
     | STATE_SENDING_PASSWORD \<Rightarrow> do {
         let (o', ok) = reserve_buffer r (bsize_fromsize 2) o';
         if \<not> ok then bs_report_error o' EVENT_ERROR
         else set_state STATE_SENT_PASSWORD (start_receive 0 2 o')
       }
     | _ \<Rightarrow> None
   }"

section \<open>Interface\<close>

text \<open>\<open>None\<close> inside is a failure of \<open>BConnector_Init\<close>.\<close>

definition BSocksClient_Init ::
  "bool \<Rightarrow> baddr \<Rightarrow> BSocksClient_auth_info list \<Rightarrow> baddr \<Rightarrow> bool \<Rightarrow> BSocksClient option option" where
  "BSocksClient_Init connector_ok server_addr auth_info dest_addr udp = do {
     assert_that (server_addr \<noteq> BADDR_NONE);
     Some (if \<not> connector_ok then None
           else Some \<lparr>bs_auth_info = auth_info, bs_dest_addr = dest_addr, bs_udp = udp, bs_bind_type = 0,
                      bs_bind_addr = BADDR_NONE, bs_state = STATE_CONNECTING, bs_buffer = None,
                      bs_continue_job = False, bs_io = No_io, bs_send_busy = False, bs_recv_busy = False,
                      bs_recv_dest = 0, bs_recv_len = 0, bs_recv_total = 0\<rparr>)
   }"

definition BSocksClient_Free :: "BSocksClient \<Rightarrow> BSocksClient option" where
  "BSocksClient_Free o' = do {
     o' \<leftarrow> (if bs_state o' \<noteq> STATE_CONNECTING
          then (if bs_state o' = STATE_UP then free_up_io o' else free_control_io o')
          else Some o');
     Some (o'\<lparr>bs_continue_job := False, bs_buffer := None\<rparr>)
   }"

definition BSocksClient_SetDestAddr :: "baddr \<Rightarrow> BSocksClient \<Rightarrow> BSocksClient option" where
  "BSocksClient_SetDestAddr a o' = do {
     assert_that (bs_state o' = STATE_CONNECTING \<or> bs_state o' = STATE_CONNECTED_HANDLER);
     Some (o'\<lparr>bs_dest_addr := a\<rparr>)
   }"

definition BSocksClient_GetBindAddr :: "BSocksClient \<Rightarrow> baddr option" where
  "BSocksClient_GetBindAddr o' = do { assert_that (bs_state o' = STATE_UP); Some (bs_bind_addr o') }"

end
