(* ===== verification/BSocksClientProps.thy ===== *)
theory BSocksClientProps
  imports BSocksClient
begin

text \<open>
  The SOCKS5 client against a reference definition of the dialogue: what it sends and concludes is
  a function of the bytes received so far, however they are cut into pieces.
\<close>

section \<open>The dialogue\<close>

datatype socks_status = Waiting | Failed | Established baddr

definition hello_bytes :: "BSocksClient_auth_info list \<Rightarrow> byte list" where
  "hello_bytes auth = [5, of_nat (length auth)] @ map auth_type auth"

definition password_bytes :: "byte list \<Rightarrow> byte list \<Rightarrow> byte list" where
  "password_bytes u p = [1, of_nat (length u)] @ u @ [of_nat (length p)] @ p"

fun request_bytes :: "bool \<Rightarrow> baddr \<Rightarrow> byte list" where
  "request_bytes udp (BADDR_IPV4 ip port) = [5, if udp then 3 else 1, 0, 1] @ bytes32 ip @ bytes16 port"
| "request_bytes udp (BADDR_IPV6 ip port) = [5, if udp then 3 else 1, 0, 4] @ take 16 ip @ bytes16 port"
| "request_bytes udp BADDR_NONE = []"

fun reply_status :: "byte list \<Rightarrow> socks_status" where
  "reply_status (ver # rep # rsv # atyp # a) =
     (if ver \<noteq> 5 \<or> rep \<noteq> 0 then Failed
      else if atyp = 1
      then (if length a < 6 then Waiting
            else Established (BADDR_IPV4 (mk32 (a ! 0) (a ! 1) (a ! 2) (a ! 3)) (mk16 (a ! 4) (a ! 5))))
      else if atyp = 4
      then (if length a < 18 then Waiting
            else Established (BADDR_IPV6 (take 16 a) (mk16 (a ! 16) (a ! 17))))
      else Failed)"
| "reply_status _ = Waiting"

definition request_phase :: "baddr \<Rightarrow> bool \<Rightarrow> byte list \<Rightarrow> byte list \<Rightarrow> byte list \<times> socks_status" where
  "request_phase dest udp out inp =
     (if dest = BADDR_NONE then (out, Failed) else (out @ request_bytes udp dest, reply_status inp))"

definition password_fits :: "byte list \<Rightarrow> byte list \<Rightarrow> bool" where
  "password_fits u p = (0 < length u \<and> length u \<le> 255 \<and> 0 < length p \<and> length p \<le> 255)"

fun password_phase ::
  "baddr \<Rightarrow> bool \<Rightarrow> byte list \<Rightarrow> byte list \<Rightarrow> byte list \<times> socks_status" where
  "password_phase dest udp out (ver # status # inp) =
     (if ver \<noteq> 1 \<or> status \<noteq> 0 then (out, Failed) else request_phase dest udp out inp)"
| "password_phase dest udp out _ = (out, Waiting)"

fun method_phase ::
  "BSocksClient_auth_info list \<Rightarrow> baddr \<Rightarrow> bool \<Rightarrow> byte list \<Rightarrow> byte list \<times> socks_status" where
  "method_phase auth dest udp (ver # m # inp) =
     (if ver \<noteq> 5 then (hello_bytes auth, Failed)
      else case find (\<lambda>ai. auth_type ai = m) auth of
        None \<Rightarrow> (hello_bytes auth, Failed)
      | Some Auth_none \<Rightarrow> request_phase dest udp (hello_bytes auth) inp
      | Some (Auth_password u p) \<Rightarrow>
          if password_fits u p then password_phase dest udp (hello_bytes auth @ password_bytes u p) inp
          else (hello_bytes auth, Failed))"
| "method_phase auth dest udp _ = (hello_bytes auth, Waiting)"

text \<open>All bytes sent to the server and the status, after the bytes \<open>inp\<close> from the server.\<close>

definition socks_spec ::
  "BSocksClient_auth_info list \<Rightarrow> baddr \<Rightarrow> bool \<Rightarrow> byte list \<Rightarrow> byte list \<times> socks_status" where
  "socks_spec auth dest udp inp =
     (if length auth = 0 \<or> length auth > 255 then ([], Failed) else method_phase auth dest udp inp)"

section \<open>The system\<close>

text \<open>A destination may still be missing; an IPv6 address has 16 bytes.\<close>

definition dest_wf :: "baddr \<Rightarrow> bool" where
  "dest_wf a = (a = BADDR_NONE \<or> baddr_wf a)"

datatype bs_ev =
    Connector bool
  | Set_Dest baddr
  | Continue_Job
  | Send_Done
  | Recv_Done "byte list"
  | Connection bool

text \<open>
  The client with the bytes received and sent so far, whether an error was reported, and whether
  the connection or memory has failed.
\<close>

record bs_sys =
  sys_client :: BSocksClient
  sys_in :: "byte list"
  sys_out :: "byte list"
  sys_error :: bool
  sys_resource :: bool

fun bs_enabled :: "bs_ev \<Rightarrow> bs_sys \<Rightarrow> bool" where
  "bs_enabled (Connector is_error) s = (\<not> sys_error s \<and> bs_state (sys_client s) = STATE_CONNECTING)"
| "bs_enabled (Set_Dest a) s =
     (dest_wf a \<and> \<not> sys_error s \<and> (bs_state (sys_client s) = STATE_CONNECTING \<or> bs_state (sys_client s) = STATE_CONNECTED_HANDLER))"
| "bs_enabled Continue_Job s = (\<not> sys_error s \<and> bs_continue_job (sys_client s))"
| "bs_enabled Send_Done s = (\<not> sys_error s \<and> bs_io (sys_client s) = Control_io \<and> bs_send_busy (sys_client s))"
| "bs_enabled (Recv_Done data) s =
     (\<not> sys_error s \<and> bs_io (sys_client s) = Control_io \<and> bs_recv_busy (sys_client s) \<and> 0 < length data
      \<and> length data \<le> bs_recv_total (sys_client s) - bs_recv_len (sys_client s))"
| "bs_enabled (Connection closed) s = (\<not> sys_error s \<and> bs_state (sys_client s) \<noteq> STATE_CONNECTING)"

fun bs_call :: "bs_results \<Rightarrow> bs_ev \<Rightarrow> BSocksClient \<Rightarrow> bs_outcome" where
  "bs_call r (Connector is_error) c = connector_handler r is_error c"
| "bs_call r (Set_Dest a) c = do { c \<leftarrow> BSocksClient_SetDestAddr a c; Some (c, []) }"
| "bs_call r Continue_Job c = continue_job_handler r (c\<lparr>bs_continue_job := False\<rparr>)"
| "bs_call r Send_Done c = send_handler_done r c"
| "bs_call r (Recv_Done data) c = recv_handler_done r data c"
| "bs_call r (Connection closed) c = connection_handler closed c"

fun ev_in :: "bs_ev \<Rightarrow> byte list" where
  "ev_in (Recv_Done data) = data"
| "ev_in _ = []"

fun ev_resource :: "bs_results \<Rightarrow> bs_ev \<Rightarrow> bool" where
  "ev_resource r (Connector is_error) = (is_error \<or> \<not> br_con_ok r)"
| "ev_resource r (Connection closed) = True"
| "ev_resource r _ = (\<not> br_alloc_ok r)"

fun act_out :: "bs_act \<Rightarrow> byte list" where
  "act_out (Bs_Send d) = d"
| "act_out _ = []"

fun act_error :: "bs_act \<Rightarrow> bool" where
  "act_error (Bs_Event EVENT_ERROR) = True"
| "act_error (Bs_Event EVENT_ERROR_CLOSED) = True"
| "act_error _ = False"

definition bs_step :: "bs_results \<Rightarrow> bs_ev \<Rightarrow> bs_sys \<Rightarrow> bs_sys option" where
  "bs_step r ev s = do {
     (c, acts) \<leftarrow> bs_call r ev (sys_client s);
     Some \<lparr>sys_client = c, sys_in = sys_in s @ ev_in ev, sys_out = sys_out s @ concat (map act_out acts),
           sys_error = list_ex act_error acts, sys_resource = (sys_resource s \<or> ev_resource r ev)\<rparr>
   }"

inductive bs_reachable :: "BSocksClient_auth_info list \<Rightarrow> bool \<Rightarrow> bs_sys \<Rightarrow> bool"
  for auth :: "BSocksClient_auth_info list" and udp :: bool where
  init: "BSocksClient_Init True server auth dest udp = Some (Some c) \<Longrightarrow> dest_wf dest \<Longrightarrow>
         bs_reachable auth udp \<lparr>sys_client = c, sys_in = [], sys_out = [], sys_error = False, sys_resource = False\<rparr>"
| step: "bs_reachable auth udp s \<Longrightarrow> bs_enabled ev s \<Longrightarrow> bs_step r ev s = Some s'
         \<Longrightarrow> bs_reachable auth udp s'"

section \<open>The invariant\<close>

text \<open>Authentication is over after receiving \<open>inp\<close> and sending \<open>out\<close>.\<close>

definition auth_done :: "BSocksClient_auth_info list \<Rightarrow> byte list \<Rightarrow> byte list \<Rightarrow> bool" where
  "auth_done auth inp out =
     (\<exists>m. (find (\<lambda>ai. auth_type ai = m) auth = Some Auth_none \<and> inp = [5, m] \<and> out = hello_bytes auth)
       \<or> (\<exists>u p. find (\<lambda>ai. auth_type ai = m) auth = Some (Auth_password u p) \<and> password_fits u p
            \<and> inp = [5, m, 1, 0] \<and> out = hello_bytes auth @ password_bytes u p))"

definition password_sent :: "BSocksClient_auth_info list \<Rightarrow> byte list \<Rightarrow> byte list \<Rightarrow> bool" where
  "password_sent auth inp out =
     (\<exists>m u p. find (\<lambda>ai. auth_type ai = m) auth = Some (Auth_password u p) \<and> password_fits u p
            \<and> inp = [5, m] \<and> out = hello_bytes auth @ password_bytes u p)"

lemma method_phase_auth_done:
  "auth_done auth i0 out \<Longrightarrow> method_phase auth dest udp (i0 @ inp) = request_phase dest udp out inp"
  by (auto simp: auth_done_def)

lemma method_phase_password_sent:
  "password_sent auth i0 out \<Longrightarrow> method_phase auth dest udp (i0 @ inp) = password_phase dest udp out inp"
  by (auto simp: password_sent_def)

text \<open>Receiving \<open>n\<close> bytes at the buffer's position \<open>d\<close>; \<open>got\<close> are those that arrived.\<close>

definition receiving :: "BSocksClient \<Rightarrow> nat \<Rightarrow> nat \<Rightarrow> nat \<Rightarrow> byte list \<Rightarrow> bool" where
  "receiving c n d bufsize got =
     (bs_recv_busy c \<and> \<not> bs_send_busy c \<and> bs_recv_dest c = d \<and> bs_recv_total c = n \<and> bs_recv_len c < n
      \<and> (case bs_buffer c of None \<Rightarrow> False | Some b \<Rightarrow> length b = bufsize \<and> got = take (d + bs_recv_len c) b))"

definition sending :: "BSocksClient \<Rightarrow> bool" where
  "sending c = (bs_send_busy c \<and> \<not> bs_recv_busy c \<and> bs_buffer c \<noteq> None)"

definition methods_ok :: "BSocksClient \<Rightarrow> bool" where
  "methods_ok c = (0 < length (bs_auth_info c) \<and> length (bs_auth_info c) \<le> 255)"

definition reply_started :: "BSocksClient \<Rightarrow> byte list \<Rightarrow> bool" where
  "reply_started c got =
     (got ! 0 = 5 \<and> got ! 1 = 0 \<and> bs_recv_total c = (if bs_bind_type c = 1 then 6 else 18)
      \<and> (bs_bind_type c = 1 \<and> got ! 3 = 1 \<or> bs_bind_type c = 2 \<and> got ! 3 = 4))"

fun in_state :: "socks_state \<Rightarrow> BSocksClient \<Rightarrow> byte list \<Rightarrow> byte list \<Rightarrow> bool" where
  "in_state STATE_CONNECTING c inp out = (bs_buffer c = None \<and> inp = [] \<and> out = [] \<and> \<not> bs_continue_job c)"
| "in_state STATE_CONNECTED_HANDLER c inp out =
     (bs_buffer c = None \<and> inp = [] \<and> out = [] \<and> bs_continue_job c \<and> \<not> bs_send_busy c \<and> \<not> bs_recv_busy c)"
| "in_state STATE_SENDING_HELLO c inp out =
     (sending c \<and> methods_ok c \<and> inp = [] \<and> out = hello_bytes (bs_auth_info c))"
| "in_state STATE_SENT_HELLO c inp out =
     (receiving c 2 0 2 inp \<and> methods_ok c \<and> out = hello_bytes (bs_auth_info c))"
| "in_state STATE_SENDING_PASSWORD c inp out =
     (sending c \<and> methods_ok c \<and> password_sent (bs_auth_info c) inp out)"
| "in_state STATE_SENT_PASSWORD c inp out =
     (methods_ok c \<and> (\<exists>i0 got. inp = i0 @ got \<and> receiving c 2 0 2 got \<and> password_sent (bs_auth_info c) i0 out))"
| "in_state STATE_SENDING_REQUEST c inp out =
     (sending c \<and> methods_ok c \<and> bs_dest_addr c \<noteq> BADDR_NONE
      \<and> (\<exists>o0. out = o0 @ request_bytes (bs_udp c) (bs_dest_addr c) \<and> auth_done (bs_auth_info c) inp o0))"
| "in_state STATE_SENT_REQUEST c inp out =
     (methods_ok c \<and> bs_dest_addr c \<noteq> BADDR_NONE
      \<and> (\<exists>i0 got o0. inp = i0 @ got \<and> out = o0 @ request_bytes (bs_udp c) (bs_dest_addr c)
           \<and> receiving c 4 0 22 got \<and> auth_done (bs_auth_info c) i0 o0))"
| "in_state STATE_RECEIVED_REPLY_HEADER c inp out =
     (methods_ok c \<and> bs_dest_addr c \<noteq> BADDR_NONE
      \<and> (\<exists>i0 got o0. inp = i0 @ got \<and> out = o0 @ request_bytes (bs_udp c) (bs_dest_addr c)
           \<and> receiving c (bs_recv_total c) 4 22 got \<and> reply_started c got \<and> auth_done (bs_auth_info c) i0 o0))"
| "in_state STATE_UP c inp out =
     (methods_ok c \<and> bs_dest_addr c \<noteq> BADDR_NONE
      \<and> (\<exists>i0 got o0. inp = i0 @ got \<and> out = o0 @ request_bytes (bs_udp c) (bs_dest_addr c)
           \<and> reply_status got = Established (bs_bind_addr c) \<and> auth_done (bs_auth_info c) i0 o0))"

fun io_of :: "socks_state \<Rightarrow> socks_io" where
  "io_of STATE_CONNECTING = No_io"
| "io_of STATE_UP = Up_io"
| "io_of _ = Control_io"

definition bs_inv :: "BSocksClient \<Rightarrow> byte list \<Rightarrow> byte list \<Rightarrow> bool" where
  "bs_inv c inp out =
     (bs_io c = io_of (bs_state c) \<and> dest_wf (bs_dest_addr c) \<and> in_state (bs_state c) c inp out
      \<and> (bs_continue_job c \<longrightarrow> bs_state c = STATE_CONNECTED_HANDLER))"

fun status_of :: "BSocksClient \<Rightarrow> socks_status" where
  "status_of c = (if bs_state c = STATE_UP then Established (bs_bind_addr c) else Waiting)"

definition started :: "BSocksClient \<Rightarrow> bool" where
  "started c = (bs_state c \<noteq> STATE_CONNECTING \<and> bs_state c \<noteq> STATE_CONNECTED_HANDLER)"

lemma short_method: "length inp < 2 \<Longrightarrow> method_phase auth dest udp inp = (hello_bytes auth, Waiting)"
  by (induct auth dest udp inp rule: method_phase.induct) simp_all

lemma short_password: "length inp < 2 \<Longrightarrow> password_phase dest udp out inp = (out, Waiting)"
  by (induct dest udp out inp rule: password_phase.induct) simp_all

lemma short_reply: "length inp < 4 \<Longrightarrow> reply_status inp = Waiting"
  by (induct inp rule: reply_status.induct) simp_all

lemmas short_waiting = short_method short_password short_reply

lemma reply_started_waiting:
  assumes "4 \<le> length got" "got ! 0 = 5" "got ! 1 = 0" "length got < 4 + n"
    and "n = 6 \<and> got ! 3 = 1 \<or> n = 18 \<and> got ! 3 = 4"
  shows "reply_status got = Waiting"
  using assms by (induct got rule: reply_status.induct) auto

text \<open>In every state the dialogue so far is that of the reference.\<close>

lemma inv_spec:
  assumes "bs_inv c inp out" "started c"
  shows "socks_spec (bs_auth_info c) (bs_dest_addr c) (bs_udp c) inp = (out, status_of c)"
proof -
  have i: "in_state (bs_state c) c inp out" using assms(1) by (simp add: bs_inv_def)
  have sp: "socks_spec (bs_auth_info c) (bs_dest_addr c) (bs_udp c) inp
      = method_phase (bs_auth_info c) (bs_dest_addr c) (bs_udp c) inp" if "methods_ok c"
    using that by (auto simp: socks_spec_def methods_ok_def)
  have got: "length got < d + n" if "receiving c n d m got" for n d m got
    using that by (auto simp: receiving_def split: option.splits)
  show ?thesis
  proof (cases "bs_state c")
    case STATE_SENDING_HELLO
    then show ?thesis using i sp by simp
  next
    case STATE_SENT_HELLO
    then show ?thesis using i sp got [of 2 0 2 inp] short_waiting(1) by simp
  next
    case STATE_SENDING_PASSWORD
    then show ?thesis using i sp method_phase_password_sent [of _ inp out _ _ "[]"] by simp
  next
    case STATE_SENT_PASSWORD
    then obtain i0 g where g: "inp = i0 @ g" "receiving c 2 0 2 g" "password_sent (bs_auth_info c) i0 out"
      using i by auto
    then show ?thesis
      using STATE_SENT_PASSWORD i sp method_phase_password_sent [OF g(3)] got [OF g(2)] short_waiting(2) by simp
  next
    case STATE_SENDING_REQUEST
    then obtain o0 where "out = o0 @ request_bytes (bs_udp c) (bs_dest_addr c)" "auth_done (bs_auth_info c) inp o0"
      using i by auto
    then show ?thesis
      using STATE_SENDING_REQUEST i sp method_phase_auth_done [of _ inp o0 _ _ "[]"]
      by (simp add: request_phase_def)
  next
    case STATE_SENT_REQUEST
    then obtain i0 g o0 where g: "inp = i0 @ g" "out = o0 @ request_bytes (bs_udp c) (bs_dest_addr c)"
        "receiving c 4 0 22 g" "auth_done (bs_auth_info c) i0 o0"
      using i by auto
    then show ?thesis
      using STATE_SENT_REQUEST i sp method_phase_auth_done [OF g(4)] got [OF g(3)] short_waiting(3)
      by (simp add: request_phase_def)
  next
    case STATE_RECEIVED_REPLY_HEADER
    then obtain i0 g o0 where g: "inp = i0 @ g" "out = o0 @ request_bytes (bs_udp c) (bs_dest_addr c)"
        "receiving c (bs_recv_total c) 4 22 g" "reply_started c g" "auth_done (bs_auth_info c) i0 o0"
      using i by auto
    have "4 \<le> length g" using g(3,4) by (auto simp: receiving_def reply_started_def split: option.splits if_splits)
    then have "reply_status g = Waiting"
      using g(4) got [OF g(3)] by (intro reply_started_waiting [of _ "bs_recv_total c"]) (auto simp: reply_started_def)
    then show ?thesis
      using STATE_RECEIVED_REPLY_HEADER i sp method_phase_auth_done [OF g(5)] g(1,2)
      by (simp add: request_phase_def)
  next
    case STATE_UP
    then obtain i0 g o0 where g: "inp = i0 @ g" "out = o0 @ request_bytes (bs_udp c) (bs_dest_addr c)"
        "reply_status g = Established (bs_bind_addr c)" "auth_done (bs_auth_info c) i0 o0"
      using i by auto
    then show ?thesis
      using STATE_UP i sp method_phase_auth_done [OF g(4)] by (simp add: request_phase_def)
  qed (use assms(2) in \<open>auto simp: started_def\<close>)
qed

section \<open>Composing messages\<close>

lemma length_brealloc [simp]: "length (brealloc junk old n) = n"
  by (simp add: brealloc_def)

lemma brealloc_same: "n = length old \<Longrightarrow> brealloc junk old n = old"
  by (simp add: brealloc_def)

lemma reserve_cases:
  assumes "\<not> is_overflow sz" "unat (bs_value sz) = n"
  obtains b where "length b = n"
    "reserve_buffer r sz c = (if br_alloc_ok r then (c\<lparr>bs_buffer := Some b\<rparr>, True) else (c, False))"
  using assms by (simp add: reserve_buffer_def) (metis length_brealloc)

lemma write_at_write_at:
  assumes "p + length xs + length ys \<le> length b"
  shows "write_at (write_at b p xs) (p + length xs) ys = write_at b p (xs @ ys)"
proof -
  have e: "length b \<le> p \<Longrightarrow> xs = []" using assms by (cases xs) auto
  have "take (p + length xs) (write_at b p xs) = take p b @ xs"
    using assms by (intro take_write_at) simp
  moreover have "drop (p + length xs + length ys) (write_at b p xs) = drop (p + length xs + length ys) b"
    using assms e by (auto simp: write_at_def min_def add.commute add.left_commute)
  ultimately show ?thesis
    unfolding write_at_def [of "write_at b p xs"] by (simp add: write_at_def add.assoc)
qed

lemma write_at_full: "length xs = length b \<Longrightarrow> write_at b 0 xs = xs"
  by (simp add: write_at_def)

lemma buffer_write_eq:
  "bs_buffer c = Some b \<Longrightarrow> p + length xs \<le> length b
   \<Longrightarrow> buffer_write p xs c = Some (c\<lparr>bs_buffer := Some (write_at b p xs)\<rparr>)"
  by (simp add: buffer_write_def memcpy_out_some)

lemma write_methods_eq:
  "bs_buffer c = Some b \<Longrightarrow> 2 + i + length as \<le> length b
   \<Longrightarrow> write_methods i as c = Some (c\<lparr>bs_buffer := Some (write_at b (2 + i) (map auth_type as))\<rparr>)"
proof (induction as arbitrary: i c b)
  case Nil
  then show ?case by (cases c) (simp add: write_at_def)
next
  case (Cons a as)
  let ?c = "c\<lparr>bs_buffer := Some (write_at b (2 + i) [auth_type a])\<rparr>"
  have w: "buffer_write (2 + i * 1) (socks_client_hello_method (auth_type a)) c = Some ?c"
    using Cons.prems by (simp add: buffer_write_eq socks_client_hello_method_def)
  have l: "length (write_at b (2 + i) [auth_type a]) = length b"
    using Cons.prems by (intro length_write_at) simp
  have "write_methods (i + 1) as ?c
      = Some (?c\<lparr>bs_buffer := Some (write_at (write_at b (2 + i) [auth_type a]) (2 + (i + 1)) (map auth_type as))\<rparr>)"
    by (rule Cons.IH) (use Cons.prems l in auto)
  moreover have "write_at (write_at b (2 + i) [auth_type a]) (2 + (i + 1)) (map auth_type as)
      = write_at b (2 + i) (map auth_type (a # as))"
    using write_at_write_at [of "2 + i" "[auth_type a]" "map auth_type as" b] Cons.prems by simp
  ultimately show ?case using w by simp
qed

lemma send_buffer_eq:
  "bs_buffer c = Some b \<Longrightarrow> n = length b \<Longrightarrow> bs_io c = Control_io \<Longrightarrow> \<not> bs_send_busy c
   \<Longrightarrow> send_buffer n c = Some (c\<lparr>bs_send_busy := True\<rparr>, [Bs_Send b])"
  by (simp add: send_buffer_def)

text \<open>Sizes.\<close>

lemma hello_size:
  assumes "0 < n" "n \<le> 255"
  shows "\<not> is_overflow (bsize_add (bsize_fromsize 2) (bsize_mul (bsize_fromsize (of_nat n)) (bsize_fromsize 1)))"
    and "unat (bs_value (bsize_add (bsize_fromsize 2) (bsize_mul (bsize_fromsize (of_nat n)) (bsize_fromsize 1)))) = n + 2"
proof -
  let ?w = "of_nat n :: 64 word"
  have w: "unat ?w = n" using assms by (subst unat_of_nat) simp
  define big :: nat where "big = 18446744073709551615"
  have big: "257 \<le> big" by (simp add: big_def)
  have two: "2 \<le> big" using big by simp
  have ib: "int big = 18446744073709551615" by (simp add: big_def)
  have "uint (SIZE_MAX - 2) = 18446744073709551613" by code_simp
  then have u: "uint SIZE_MAX = int big" "uint (SIZE_MAX - 2) = int (big - 2)"
    unfolding size_constants(4) of_nat_diff [OF two] ib by simp_all
  have mx: "unat SIZE_MAX = big" "unat (SIZE_MAX - 2) = big - 2"
    by (simp_all only: unat_eq_nat_uint u nat_int)
  have "unat (SIZE_MAX div ?w) = big div n" by (simp add: unat_div w mx)
  moreover have "0 < big div n" using assms big by (simp add: div_greater_zero_iff)
  ultimately have o1: "\<not> SIZE_MAX div ?w < 1" by (simp add: word_less_nat_alt)
  have o2: "\<not> SIZE_MAX - 2 < ?w" using assms big by (simp add: word_less_nat_alt w mx)
  have "unat (2 + ?w) = unat (of_nat (2 + n) :: 64 word)" by simp
  also have "\<dots> = n + 2" using assms by (subst unat_of_nat) simp
  finally show "unat (bs_value (bsize_add (bsize_fromsize 2) (bsize_mul (bsize_fromsize (of_nat n)) (bsize_fromsize 1)))) = n + 2"
    by (simp add: bsize_add_def bsize_mul_def bsize_fromsize_def)
  show "\<not> is_overflow (bsize_add (bsize_fromsize 2) (bsize_mul (bsize_fromsize (of_nat n)) (bsize_fromsize 1)))"
    using o1 o2 by (simp add: bsize_add_def bsize_mul_def bsize_fromsize_def)
qed

lemma small_sizes:
  "\<not> is_overflow (bsize_fromsize 2)" "unat (bs_value (bsize_fromsize 2)) = 2"
  "\<not> is_overflow (bsize_add (bsize_fromsize 4) (bsize_max (bsize_fromsize 6) (bsize_fromsize 18)))"
  "unat (bs_value (bsize_add (bsize_fromsize 4) (bsize_max (bsize_fromsize 6) (bsize_fromsize 18)))) = 22"
  "\<not> is_overflow (bsize_add (bsize_fromsize 4) (bsize_fromsize 6))"
  "unat (bs_value (bsize_add (bsize_fromsize 4) (bsize_fromsize 6))) = 10"
  "\<not> is_overflow (bsize_add (bsize_fromsize 4) (bsize_fromsize 18))"
  "unat (bs_value (bsize_add (bsize_fromsize 4) (bsize_fromsize 18))) = 22"
  by code_simp+

lemma password_size:
  assumes "password_fits u p"
  shows "\<not> is_overflow (bsize_fromsize (of_nat (1 + 1 + length u + 1 + length p)))"
    and "unat (bs_value (bsize_fromsize (of_nat (1 + 1 + length u + 1 + length p)))) = 3 + length u + length p"
proof -
  show "\<not> is_overflow (bsize_fromsize (of_nat (1 + 1 + length u + 1 + length p)))"
    by (simp add: bsize_fromsize_def)
  have "1 + 1 + length u + 1 + length p < 18446744073709551616"
    using assms by (simp add: password_fits_def)
  then have "unat (of_nat (1 + 1 + length u + 1 + length p) :: 64 word) = 1 + 1 + length u + 1 + length p"
    by (subst unat_of_nat) simp
  then show "unat (bs_value (bsize_fromsize (of_nat (1 + 1 + length u + 1 + length p)))) = 3 + length u + length p"
    by (simp only: bsize_fromsize_def bsize_t.select_convs)
qed

section \<open>The steps\<close>

text \<open>A request for the wanted destination is sent, or an error is reported.\<close>

lemma auth_finished_eq:
  assumes "bs_io c = Control_io" "\<not> bs_send_busy c" "dest_wf (bs_dest_addr c)"
  shows "auth_finished r c =
    (if bs_dest_addr c = BADDR_NONE \<or> \<not> br_alloc_ok r then Some (c, [Bs_Event EVENT_ERROR])
     else Some (c\<lparr>bs_buffer := Some (request_bytes (bs_udp c) (bs_dest_addr c)), bs_send_busy := True,
                  bs_state := STATE_SENDING_REQUEST\<rparr>,
                [Bs_Send (request_bytes (bs_udp c) (bs_dest_addr c))]))"
proof -
  have two: "write_at (write_at b 4 a) 0 h = h @ a" if "length h = 4" "length b = 4 + length a" for a h b :: "byte list"
    using that by (simp add: write_at_def)
  have cmd: "socks_request_header SOCKS_VERSION (if bs_udp c then SOCKS_CMD_UDP_ASSOCIATE else SOCKS_CMD_CONNECT) 0 t
      = [5, if bs_udp c then 3 else 1, 0, t]" for t
    by (simp add: socks_request_header_def SOCKS_VERSION_def SOCKS_CMD_UDP_ASSOCIATE_def SOCKS_CMD_CONNECT_def)
  show ?thesis
  proof (cases "bs_dest_addr c")
    case BADDR_NONE
    then show ?thesis by (simp add: auth_finished_def bs_report_error_def)
  next
    case (BADDR_IPV4 ip port)
    let ?sz = "bsize_add (bsize_fromsize 4) (bsize_fromsize 6)"
    obtain b where b: "length b = 10"
      "reserve_buffer r ?sz c = (if br_alloc_ok r then (c\<lparr>bs_buffer := Some b\<rparr>, True) else (c, False))"
      by (rule reserve_cases [OF small_sizes(5,6)])
    let ?a = "socks_addr_ipv4 ip port"
    have la: "length ?a = 6" by (simp add: socks_addr_ipv4_def)
    show ?thesis
      using BADDR_IPV4 b la two [of _ b ?a] assms small_sizes(6)
      by (simp add: auth_finished_def bs_report_error_def buffer_write_eq send_buffer_eq set_state_def cmd
          socks_addr_ipv4_def SOCKS_ATYP_IPV4_def)
  next
    case (BADDR_IPV6 ip port)
    let ?sz = "bsize_add (bsize_fromsize 4) (bsize_fromsize 18)"
    obtain b where b: "length b = 22"
      "reserve_buffer r ?sz c = (if br_alloc_ok r then (c\<lparr>bs_buffer := Some b\<rparr>, True) else (c, False))"
      by (rule reserve_cases [OF small_sizes(7,8)])
    let ?a = "socks_addr_ipv6 ip port"
    have "length ip = 16" using assms(3) BADDR_IPV6 by (simp add: dest_wf_def)
    then have la: "length ?a = 18" by (simp add: socks_addr_ipv6_def)
    show ?thesis
      using BADDR_IPV6 b la two [of _ b ?a] assms small_sizes(8)
      by (simp add: auth_finished_def bs_report_error_def buffer_write_eq send_buffer_eq set_state_def cmd
          socks_addr_ipv6_def SOCKS_ATYP_IPV6_def)
  qed
qed

text \<open>
  What a handler must leave behind: the authentication data and the kind of request unchanged;
  after an error the connection's interfaces match the state and, unless a resource failed, the
  reference dialogue has failed too; otherwise the invariant.
\<close>

fun outcome_ok ::
  "BSocksClient_auth_info list \<Rightarrow> bool \<Rightarrow> bool \<Rightarrow> byte list \<Rightarrow> byte list \<Rightarrow> bs_outcome \<Rightarrow> bool" where
  "outcome_ok auth udp res inp out None = False"
| "outcome_ok auth udp res inp out (Some (c, acts)) =
     (bs_auth_info c = auth \<and> bs_udp c = udp \<and>
      (if list_ex act_error acts
       then bs_io c = io_of (bs_state c)
         \<and> (res \<or> socks_spec (bs_auth_info c) (bs_dest_addr c) (bs_udp c) inp
                  = (out @ concat (map act_out acts), Failed))
       else bs_inv c inp (out @ concat (map act_out acts))))"

abbreviation outcome_of :: "BSocksClient \<Rightarrow> bool \<Rightarrow> byte list \<Rightarrow> byte list \<Rightarrow> bs_outcome \<Rightarrow> bool" where
  "outcome_of c \<equiv> outcome_ok (bs_auth_info c) (bs_udp c)"

lemma connector_ok:
  assumes "bs_inv c inp out" "bs_state c = STATE_CONNECTING"
  shows "outcome_of c (is_error \<or> \<not> br_con_ok r) inp out (connector_handler r is_error c)"
  using assms
  by (simp add: connector_handler_def bs_report_error_def init_control_io_def bs_inv_def)

lemma set_dest_ok:
  assumes "bs_inv c inp out" "bs_state c = STATE_CONNECTING \<or> bs_state c = STATE_CONNECTED_HANDLER" "dest_wf a"
  shows "outcome_of c res inp out (bs_call r (Set_Dest a) c)"
  using assms by (auto simp: BSocksClient_SetDestAddr_def bs_inv_def)

lemma connection_ok:
  assumes "bs_inv c inp out" "bs_state c \<noteq> STATE_CONNECTING"
  shows "outcome_of c True inp out (connection_handler closed c)"
  using assms by (simp add: connection_handler_def bs_report_error_def bs_inv_def)

lemma continue_ok:
  assumes "bs_inv c inp out" "bs_continue_job c"
  shows "outcome_of c (\<not> br_alloc_ok r) inp out (continue_job_handler r (c\<lparr>bs_continue_job := False\<rparr>))"
proof -
  let ?auth = "bs_auth_info c" and ?c = "c\<lparr>bs_continue_job := False\<rparr>"
  have st: "bs_state c = STATE_CONNECTED_HANDLER" using assms by (simp add: bs_inv_def)
  have c: "bs_io c = Control_io" "dest_wf (bs_dest_addr c)" "\<not> bs_send_busy c" "\<not> bs_recv_busy c"
      "inp = []" "out = []"
    using assms(1) st by (simp_all add: bs_inv_def)
  show ?thesis
  proof (cases "methods_ok c")
    case False
    then show ?thesis
      using st c by (auto simp: continue_job_handler_def bs_report_error_def methods_ok_def socks_spec_def)
  next
    case True
    then have n: "0 < length ?auth" "length ?auth \<le> 255" by (simp_all add: methods_ok_def)
    let ?sz = "bsize_add (bsize_fromsize 2) (bsize_mul (bsize_fromsize (of_nat (length ?auth))) (bsize_fromsize 1))"
    obtain b where b: "length b = length ?auth + 2"
      "reserve_buffer r ?sz ?c = (if br_alloc_ok r then (?c\<lparr>bs_buffer := Some b\<rparr>, True) else (?c, False))"
      by (rule reserve_cases [OF hello_size [OF n]])
    let ?h = "socks_client_hello_header SOCKS_VERSION (of_nat (length ?auth))"
    have hl: "length ?h = 2" by (simp add: socks_client_hello_header_def)
    have "write_at (write_at b 0 ?h) (0 + length ?h) (map auth_type ?auth) = write_at b 0 (?h @ map auth_type ?auth)"
      using b(1) by (intro write_at_write_at) (simp add: hl)
    also have "\<dots> = hello_bytes ?auth"
      using b(1) by (subst write_at_full) (simp_all add: hl hello_bytes_def socks_client_hello_header_def SOCKS_VERSION_def)
    finally have all: "write_at (write_at b 0 ?h) 2 (map auth_type ?auth) = hello_bytes ?auth" by (simp only: hl add_0)
    have wl: "length (write_at b 0 ?h) = length b" using b(1) hl by (intro length_write_at) simp
    have hb: "length (hello_bytes ?auth) = length ?auth + 2" by (simp add: hello_bytes_def)
    let ?c2 = "?c\<lparr>bs_buffer := Some (write_at b 0 ?h)\<rparr>"
    have "write_methods 0 ?auth ?c2 = Some (?c2\<lparr>bs_buffer := Some (hello_bytes ?auth)\<rparr>)"
      using write_methods_eq [of ?c2 "write_at b 0 ?h" 0 ?auth] b(1) wl all by simp
    then have "continue_job_handler r ?c =
      (if br_alloc_ok r
       then Some (?c\<lparr>bs_buffer := Some (hello_bytes ?auth), bs_send_busy := True, bs_state := STATE_SENDING_HELLO\<rparr>,
                  [Bs_Send (hello_bytes ?auth)])
       else Some (?c, [Bs_Event EVENT_ERROR]))"
      using st n b hl hello_size(2) [OF n] c hb
      by (auto simp add: continue_job_handler_def bs_report_error_def buffer_write_eq send_buffer_eq set_state_def Let_def)
    then show ?thesis
      using c n st by (simp add: bs_inv_def sending_def methods_ok_def)
  qed
qed

text \<open>After a message was sent its answer is awaited, in a fresh buffer.\<close>

lemma start_receive_eq:
  "0 < n \<Longrightarrow> bs_io c = Control_io \<Longrightarrow> \<not> bs_recv_busy c \<Longrightarrow>
   start_receive d n c = Some (c\<lparr>bs_recv_dest := d, bs_recv_len := 0, bs_recv_total := n, bs_recv_busy := True\<rparr>,
     [Bs_Recv d n])"
  by (simp add: start_receive_def do_receive_def)

lemma await_ok:
  assumes "bs_io c = Control_io" "\<not> bs_recv_busy c" "\<not> bs_send_busy c" "0 < n"
    and "\<not> is_overflow sz" "unat (bs_value sz) = m"
  obtains b where "length b = m"
    "(let (c, ok) = reserve_buffer r sz c
      in if \<not> ok then bs_report_error c EVENT_ERROR else set_state st (start_receive 0 n c))
     = (if br_alloc_ok r
        then Some (c\<lparr>bs_buffer := Some b, bs_recv_dest := 0, bs_recv_len := 0, bs_recv_total := n,
                     bs_recv_busy := True, bs_state := st\<rparr>, [Bs_Recv 0 n])
        else Some (c, [Bs_Event EVENT_ERROR]))"
proof -
  obtain b where b: "length b = m"
      "reserve_buffer r sz c = (if br_alloc_ok r then (c\<lparr>bs_buffer := Some b\<rparr>, True) else (c, False))"
    by (rule reserve_cases [OF assms(5,6)])
  show thesis
    by (rule that [OF b(1)]) (use b(2) assms(1-4) in \<open>simp add: start_receive_eq bs_report_error_def set_state_def\<close>)
qed

lemma send_done_ok:
  assumes "bs_inv c inp out" "bs_io c = Control_io" "bs_send_busy c"
  shows "outcome_of c (\<not> br_alloc_ok r) inp out (send_handler_done r c)"
proof -
  let ?c = "c\<lparr>bs_send_busy := False\<rparr>"
  have i: "in_state (bs_state c) c inp out" "dest_wf (bs_dest_addr c)" "\<not> bs_continue_job c"
    using assms by (auto simp: bs_inv_def)
  have notrecv: "\<not> receiving c n d m g" for n d m g using assms(3) by (simp add: receiving_def)
  consider "bs_state c = STATE_SENDING_HELLO" | "bs_state c = STATE_SENDING_PASSWORD" | "bs_state c = STATE_SENDING_REQUEST"
    using i(1) assms notrecv by (cases "bs_state c") (auto simp: bs_inv_def)
  then show ?thesis
  proof cases
    case 1
    then have s: "sending c" "methods_ok c" "inp = []" "out = hello_bytes (bs_auth_info c)" using i(1) by simp_all
    obtain b where b: "length b = 2"
      "(let (c, ok) = reserve_buffer r (bsize_fromsize 2) ?c
        in if \<not> ok then bs_report_error c EVENT_ERROR else set_state STATE_SENT_HELLO (start_receive 0 2 c))
       = (if br_alloc_ok r
        then Some (?c\<lparr>bs_buffer := Some b, bs_recv_dest := 0, bs_recv_len := 0, bs_recv_total := 2,
                     bs_recv_busy := True, bs_state := STATE_SENT_HELLO\<rparr>, [Bs_Recv 0 2])
        else Some (?c, [Bs_Event EVENT_ERROR]))"
      by (rule await_ok [OF _ _ _ _ small_sizes(1,2), of ?c 2 r STATE_SENT_HELLO])
         (use assms(2) s(1) in \<open>simp_all add: sending_def\<close>)
    then show ?thesis
      using 1 s assms(2) i(2,3)
      by (auto simp add: send_handler_done_def sending_def bs_inv_def receiving_def methods_ok_def Let_def)
  next
    case 2
    then have s: "sending c" "methods_ok c" "password_sent (bs_auth_info c) inp out" using i(1) by simp_all
    obtain b where b: "length b = 2"
      "(let (c, ok) = reserve_buffer r (bsize_fromsize 2) ?c
        in if \<not> ok then bs_report_error c EVENT_ERROR else set_state STATE_SENT_PASSWORD (start_receive 0 2 c))
       = (if br_alloc_ok r
        then Some (?c\<lparr>bs_buffer := Some b, bs_recv_dest := 0, bs_recv_len := 0, bs_recv_total := 2,
                     bs_recv_busy := True, bs_state := STATE_SENT_PASSWORD\<rparr>, [Bs_Recv 0 2])
        else Some (?c, [Bs_Event EVENT_ERROR]))"
      by (rule await_ok [OF _ _ _ _ small_sizes(1,2), of ?c 2 r STATE_SENT_PASSWORD])
         (use assms(2) s(1) in \<open>simp_all add: sending_def\<close>)
    then show ?thesis
      using 2 s assms(2) i(2,3)
      by (auto simp add: send_handler_done_def sending_def bs_inv_def receiving_def methods_ok_def Let_def)
  next
    case 3
    then obtain o0 where s: "sending c" "methods_ok c" "bs_dest_addr c \<noteq> BADDR_NONE"
        "out = o0 @ request_bytes (bs_udp c) (bs_dest_addr c)" "auth_done (bs_auth_info c) inp o0"
      using i(1) by auto
    let ?sz = "bsize_add (bsize_fromsize 4) (bsize_max (bsize_fromsize 6) (bsize_fromsize 18))"
    obtain b where b: "length b = 22"
      "(let (c, ok) = reserve_buffer r ?sz ?c
        in if \<not> ok then bs_report_error c EVENT_ERROR else set_state STATE_SENT_REQUEST (start_receive 0 4 c))
       = (if br_alloc_ok r
        then Some (?c\<lparr>bs_buffer := Some b, bs_recv_dest := 0, bs_recv_len := 0, bs_recv_total := 4,
                     bs_recv_busy := True, bs_state := STATE_SENT_REQUEST\<rparr>, [Bs_Recv 0 4])
        else Some (?c, [Bs_Event EVENT_ERROR]))"
      by (rule await_ok [OF _ _ _ _ small_sizes(3,4), of ?c 4 r STATE_SENT_REQUEST])
         (use assms(2) s(1) in \<open>simp_all add: sending_def\<close>)
    then show ?thesis
      using 3 s assms(2) i(2,3)
      by (auto simp add: send_handler_done_def sending_def bs_inv_def receiving_def methods_ok_def Let_def)
  qed
qed

text \<open>Bytes that arrive extend those received so far.\<close>

lemma recv_cases:
  assumes "receiving c n d m got" "d + n \<le> m" "0 < length data" "length data \<le> n - bs_recv_len c"
  obtains (more) b where "length got + length data < d + n" "bs_io c = Control_io \<Longrightarrow> recv_handler_done r data c =
      Some (c\<lparr>bs_buffer := Some b, bs_recv_len := bs_recv_len c + length data, bs_recv_busy := True\<rparr>,
            [Bs_Recv (d + (bs_recv_len c + length data)) (n - (bs_recv_len c + length data))])"
      "receiving (c\<lparr>bs_buffer := Some b, bs_recv_len := bs_recv_len c + length data, bs_recv_busy := True\<rparr>) n d m (got @ data)"
  | (complete) b where "length (got @ data) = d + n" "length b = m" "take (d + n) b = got @ data"
      "recv_handler_done r data c =
        (let c = c\<lparr>bs_recv_busy := False, bs_buffer := Some b, bs_recv_len := n\<rparr> in
         case bs_state c of
           STATE_SENT_HELLO \<Rightarrow> recv_hello r b c
         | STATE_SENT_REQUEST \<Rightarrow> recv_reply_header b c
         | STATE_SENT_PASSWORD \<Rightarrow> recv_password_reply r b c
         | STATE_RECEIVED_REPLY_HEADER \<Rightarrow> recv_reply_rest b c
         | _ \<Rightarrow> None)"
proof -
  let ?l = "bs_recv_len c"
  obtain b0 where b0: "bs_buffer c = Some b0" "length b0 = m" "got = take (d + ?l) b0"
    and rc: "bs_recv_dest c = d" "bs_recv_total c = n" "?l < n" "\<not> bs_send_busy c" "bs_recv_busy c"
    using assms(1) by (auto simp: receiving_def split: option.splits)
  define b where "b = write_at b0 (d + ?l) data"
  have fit: "d + ?l + length data \<le> length b0" using assms(2,4) rc(3) b0(2) by linarith
  have lb: "length b = m" using fit b0(2) by (simp add: b_def)
  have tb: "take (d + (?l + length data)) b = got @ data"
    using take_write_at [OF fit] b0(3) by (simp add: b_def add.assoc)
  have lg: "length got = d + ?l" using b0 fit by simp
  have w: "buffer_write (d + ?l) data (c\<lparr>bs_recv_busy := False\<rparr>)
      = Some (c\<lparr>bs_recv_busy := False, bs_buffer := Some b\<rparr>)"
    using fit b0(1) by (simp add: buffer_write_eq b_def)
  show thesis
  proof (cases "?l + length data < n")
    case True
    show thesis
    proof (rule more [of b])
      show "length got + length data < d + n" using True lg by simp
      show "recv_handler_done r data c =
        Some (c\<lparr>bs_buffer := Some b, bs_recv_len := ?l + length data, bs_recv_busy := True\<rparr>,
            [Bs_Recv (d + (?l + length data)) (n - (?l + length data))])" if "bs_io c = Control_io"
        using w rc assms(4) True that by (simp add: recv_handler_done_def do_receive_def)
      show "receiving (c\<lparr>bs_buffer := Some b, bs_recv_len := ?l + length data, bs_recv_busy := True\<rparr>) n d m (got @ data)"
        using True rc lb tb by (simp add: receiving_def)
    qed
  next
    case False
    then have n: "?l + length data = n" using assms(4) rc(3) by simp
    show thesis
    proof (rule complete [of b])
      show "length (got @ data) = d + n" using lg n by simp
      show "length b = m" by (rule lb)
      show "take (d + n) b = got @ data" using tb n by simp
      show "recv_handler_done r data c =
        (let c = c\<lparr>bs_recv_busy := False, bs_buffer := Some b, bs_recv_len := n\<rparr> in
         case bs_state c of
           STATE_SENT_HELLO \<Rightarrow> recv_hello r b c
         | STATE_SENT_REQUEST \<Rightarrow> recv_reply_header b c
         | STATE_SENT_PASSWORD \<Rightarrow> recv_password_reply r b c
         | STATE_RECEIVED_REPLY_HEADER \<Rightarrow> recv_reply_rest b c
         | _ \<Rightarrow> None)"
        using w rc n by (cases "bs_state c") (simp_all add: recv_handler_done_def Let_def)
    qed
  qed
qed

text \<open>The messages, once complete.\<close>

lemma auth_finished_ok:
  assumes "bs_io c = Control_io" "\<not> bs_send_busy c" "\<not> bs_recv_busy c" "dest_wf (bs_dest_addr c)"
    and "\<not> bs_continue_job c" "methods_ok c" "auth_done (bs_auth_info c) inp out" "io_of (bs_state c) = Control_io"
  shows "outcome_of c (\<not> br_alloc_ok r) inp out (auth_finished r c)"
proof -
  have m: "socks_spec (bs_auth_info c) (bs_dest_addr c) (bs_udp c) inp
      = request_phase (bs_dest_addr c) (bs_udp c) out []"
    using method_phase_auth_done [OF assms(7), of _ _ "[]"] assms(6)
    by (auto simp: socks_spec_def methods_ok_def)
  show ?thesis
    using assms m
    by (auto simp: auth_finished_eq request_phase_def bs_inv_def sending_def methods_ok_def)
qed

lemma two_bytes: "length b = 2 \<Longrightarrow> b = [b ! 0, b ! 1]"
  by (cases b; cases "tl b") auto

lemma recv_hello_ok:
  assumes "bs_io c = Control_io" "\<not> bs_send_busy c" "\<not> bs_recv_busy c" "dest_wf (bs_dest_addr c)"
    and "\<not> bs_continue_job c" "methods_ok c" "io_of (bs_state c) = Control_io" "length b = 2"
    and "out = hello_bytes (bs_auth_info c)"
  shows "outcome_of c (\<not> br_alloc_ok r) b out (recv_hello r b c)"
proof -
  let ?auth = "bs_auth_info c"
  have b: "b = [b ! 0, b ! 1]" by (rule two_bytes [OF assms(8)])
  have sp: "socks_spec ?auth dest udp [b ! 0, b ! 1] = method_phase ?auth dest udp [b ! 0, b ! 1]" for dest udp
    using assms(6) by (auto simp: socks_spec_def methods_ok_def)
  have inp: "outcome_of c res b out x = outcome_of c res [b ! 0, b ! 1] out x" for res x
    using b by metis
  show ?thesis
  proof (cases "b ! 0 = 5")
    case False
    then show ?thesis unfolding inp using assms sp by (simp add: recv_hello_def SOCKS_VERSION_def bs_report_error_def)
  next
    case v: True
    show ?thesis
    proof (cases "find (\<lambda>ai. auth_type ai = b ! 1) ?auth")
      case None
      then show ?thesis unfolding inp
        using v assms sp by (simp add: recv_hello_def SOCKS_VERSION_def bs_report_error_def)
    next
      case (Some ai)
      show ?thesis
      proof (cases ai)
        case Auth_none
        have "auth_done ?auth [b ! 0, b ! 1] out"
          using Some v Auth_none assms(9) by (auto simp: auth_done_def)
        then show ?thesis unfolding inp
          using auth_finished_ok [OF assms(1-6) _ assms(7)] Some v Auth_none
          by (simp add: recv_hello_def SOCKS_VERSION_def)
      next
        case (Auth_password u p)
        show ?thesis
        proof (cases "password_fits u p")
          case False
          then have "length u = 0 \<or> length u > 255 \<or> length p = 0 \<or> length p > 255"
            by (auto simp: password_fits_def)
          then show ?thesis unfolding inp
            using False Some Auth_password v assms sp by (auto simp: recv_hello_def SOCKS_VERSION_def bs_report_error_def)
        next
          case True
          let ?sz = "bsize_fromsize (of_nat (1 + 1 + length u + 1 + length p))"
          obtain b1 where b1: "length b1 = 3 + length u + length p"
            "reserve_buffer r ?sz c = (if br_alloc_ok r then (c\<lparr>bs_buffer := Some b1\<rparr>, True) else (c, False))"
            by (rule reserve_cases [OF password_size [OF True]])
          let ?u = "of_nat (length u) :: byte" and ?p = "of_nat (length p) :: byte"
          have w1: "write_at (write_at b1 0 [1]) 1 [?u] = write_at b1 0 [1, ?u]"
            using write_at_write_at [of 0 "[1]" "[?u]" b1] b1(1) by simp
          have w2: "write_at (write_at b1 0 [1, ?u]) 2 u = write_at b1 0 ([1, ?u] @ u)"
            using write_at_write_at [of 0 "[1, ?u]" u b1] b1(1) by (simp add: numeral_2_eq_2)
          have w3: "write_at (write_at b1 0 ([1, ?u] @ u)) (2 + length u) [?p] = write_at b1 0 ([1, ?u] @ u @ [?p])"
            using write_at_write_at [of 0 "[1, ?u] @ u" "[?p]" b1] b1(1) by simp
          have w4: "write_at (write_at b1 0 ([1, ?u] @ u @ [?p])) (3 + length u) p = password_bytes u p"
            using write_at_write_at [of 0 "[1, ?u] @ u @ [?p]" p b1] b1(1)
              write_at_full [of "password_bytes u p" b1] by (simp add: password_bytes_def numeral_3_eq_3)
          have l: "length (write_at b1 0 xs) = length b1" if "length xs \<le> length b1" for xs
            using that by (intro length_write_at) simp
          have pb: "length (password_bytes u p) = 3 + length u + length p" by (simp add: password_bytes_def)
          have nofail: "\<not> (length u = 0 \<or> length u > 255 \<or> length p = 0 \<or> length p > 255)"
            using True by (auto simp: password_fits_def)
          have "recv_hello r b c =
            (if br_alloc_ok r
             then Some (c\<lparr>bs_buffer := Some (password_bytes u p), bs_send_busy := True, bs_state := STATE_SENDING_PASSWORD\<rparr>,
                        [Bs_Send (password_bytes u p)])
             else Some (c, [Bs_Event EVENT_ERROR]))"
          proof -
            have "buffer_write 0 [1] (c\<lparr>bs_buffer := Some b1\<rparr>) = Some (c\<lparr>bs_buffer := Some (write_at b1 0 [1])\<rparr>)"
              "buffer_write 1 [?u] (c\<lparr>bs_buffer := Some (write_at b1 0 [1])\<rparr>) = Some (c\<lparr>bs_buffer := Some (write_at b1 0 [1, ?u])\<rparr>)"
              "buffer_write 2 u (c\<lparr>bs_buffer := Some (write_at b1 0 [1, ?u])\<rparr>)
                = Some (c\<lparr>bs_buffer := Some (write_at b1 0 ([1, ?u] @ u))\<rparr>)"
              "buffer_write (2 + length u) [?p] (c\<lparr>bs_buffer := Some (write_at b1 0 ([1, ?u] @ u))\<rparr>)
                = Some (c\<lparr>bs_buffer := Some (write_at b1 0 ([1, ?u] @ u @ [?p]))\<rparr>)"
              "buffer_write (3 + length u) p (c\<lparr>bs_buffer := Some (write_at b1 0 ([1, ?u] @ u @ [?p]))\<rparr>)
                = Some (c\<lparr>bs_buffer := Some (password_bytes u p)\<rparr>)"
              using b1(1) l w1 w2 w3 w4 by (simp_all add: buffer_write_eq)
            then show ?thesis
              using v Some Auth_password b1 nofail assms(1,2) password_size(2) [OF True] pb
              by (simp add: recv_hello_def SOCKS_VERSION_def bs_report_error_def Let_def set_state_def
                  send_buffer_eq del: One_nat_def)
          qed
          moreover have "password_sent ?auth [b ! 0, b ! 1] (out @ password_bytes u p)"
            using Some v Auth_password True assms(9) by (auto simp: password_sent_def)
          ultimately show ?thesis unfolding inp
            using assms by (auto simp add: bs_inv_def sending_def methods_ok_def)
        qed
      qed
    qed
  qed
qed

lemma recv_password_ok:
  assumes "bs_io c = Control_io" "\<not> bs_send_busy c" "\<not> bs_recv_busy c" "dest_wf (bs_dest_addr c)"
    and "\<not> bs_continue_job c" "methods_ok c" "io_of (bs_state c) = Control_io" "length b = 2"
    and "password_sent (bs_auth_info c) i0 out"
  shows "outcome_of c (\<not> br_alloc_ok r) (i0 @ b) out (recv_password_reply r b c)"
proof -
  let ?auth = "bs_auth_info c"
  have b: "b = [b ! 0, b ! 1]" by (rule two_bytes [OF assms(8)])
  have inp: "outcome_of c res (i0 @ b) out x = outcome_of c res (i0 @ [b ! 0, b ! 1]) out x" for res x
    using b by metis
  have sp: "socks_spec ?auth dest udp (i0 @ [b ! 0, b ! 1]) = password_phase dest udp out [b ! 0, b ! 1]" for dest udp
    using assms(6) method_phase_password_sent [OF assms(9)] by (auto simp: socks_spec_def methods_ok_def)
  show ?thesis
  proof (cases "b ! 0 = 1 \<and> b ! 1 = 0")
    case False
    then show ?thesis unfolding inp using assms sp by (auto simp: recv_password_reply_def bs_report_error_def)
  next
    case True
    then have "auth_done ?auth (i0 @ [b ! 0, b ! 1]) out"
      using assms(9) by (auto simp: auth_done_def password_sent_def)
    then show ?thesis unfolding inp
      using auth_finished_ok [OF assms(1-6) _ assms(7)] True by (simp add: recv_password_reply_def)
  qed
qed

lemma four_bytes: "length g = 4 \<Longrightarrow> g = [g ! 0, g ! 1, g ! 2, g ! 3]"
  by (cases g; cases "tl g"; cases "tl (tl g)"; cases "tl (tl (tl g))") auto

lemma recv_header_ok:
  assumes "bs_io c = Control_io" "\<not> bs_send_busy c" "\<not> bs_recv_busy c" "dest_wf (bs_dest_addr c)"
    and "\<not> bs_continue_job c" "methods_ok c" "io_of (bs_state c) = Control_io" "length b = 22"
    and "bs_buffer c = Some b" "bs_dest_addr c \<noteq> BADDR_NONE"
    and "out = o0 @ request_bytes (bs_udp c) (bs_dest_addr c)" "auth_done (bs_auth_info c) i0 o0"
  shows "outcome_of c res (i0 @ take 4 b) out (recv_reply_header b c)"
proof -
  have g: "take 4 b = [b ! 0, b ! 1, b ! 2, b ! 3]"
    using four_bytes [of "take 4 b"] assms(8) by simp
  have sp: "socks_spec (bs_auth_info c) (bs_dest_addr c) (bs_udp c) (i0 @ take 4 b)
      = (out, reply_status [b ! 0, b ! 1, b ! 2, b ! 3])"
    using assms(6,10,11) method_phase_auth_done [OF assms(12)] unfolding g
    by (auto simp: socks_spec_def methods_ok_def request_phase_def)
  have start: "set_state STATE_RECEIVED_REPLY_HEADER (start_receive 4 n (c\<lparr>bs_bind_type := t\<rparr>))
      = Some (c\<lparr>bs_bind_type := t, bs_recv_dest := 4, bs_recv_len := 0, bs_recv_total := n, bs_recv_busy := True,
               bs_state := STATE_RECEIVED_REPLY_HEADER\<rparr>, [Bs_Recv 4 n])" if "0 < n" for n t
    using that assms(1,3) by (simp add: start_receive_eq set_state_def)
  show ?thesis
  proof (cases "b ! 0 = 5 \<and> b ! 1 = 0 \<and> (b ! 3 = 1 \<or> b ! 3 = 4)")
    case False
    then have "recv_reply_header b c = Some (c, [Bs_Event EVENT_ERROR])"
      "reply_status [b ! 0, b ! 1, b ! 2, b ! 3] = Failed"
      by (auto simp: recv_reply_header_def SOCKS_VERSION_def SOCKS_REP_SUCCEEDED_def SOCKS_ATYP_IPV4_def
          SOCKS_ATYP_IPV6_def bs_report_error_def)
    then show ?thesis using sp assms(1,7) by simp
  next
    case True
    let ?t = "if b ! 3 = 1 then 1 else 2" and ?n = "if b ! 3 = 1 then 6 else 18"
    let ?c = "c\<lparr>bs_bind_type := ?t, bs_recv_dest := 4, bs_recv_len := 0, bs_recv_total := ?n, bs_recv_busy := True,
               bs_state := STATE_RECEIVED_REPLY_HEADER\<rparr>"
    have "recv_reply_header b c = Some (?c, [Bs_Recv 4 ?n])"
      using True by (auto simp: recv_reply_header_def SOCKS_VERSION_def SOCKS_REP_SUCCEEDED_def
          SOCKS_ATYP_IPV4_def SOCKS_ATYP_IPV6_def start)
    moreover have "receiving ?c (bs_recv_total ?c) 4 22 (take 4 b)"
      using assms(2,8,9) by (simp add: receiving_def)
    moreover have "reply_started ?c (take 4 b)"
      using True by (auto simp: reply_started_def)
    moreover have "in_state STATE_RECEIVED_REPLY_HEADER ?c (i0 @ take 4 b) out"
    proof -
      have "methods_ok ?c" using assms(6) by (simp add: methods_ok_def)
      then show ?thesis
        by (simp only: in_state.simps, intro conjI exI [of _ i0] exI [of _ "take 4 b"] exI [of _ o0])
           (use calculation assms(10-12) in simp_all)
    qed
    ultimately show ?thesis using assms(1,4,5) by (simp add: bs_inv_def)
  qed
qed

lemma recv_rest_ok:
  assumes "bs_io c = Control_io" "dest_wf (bs_dest_addr c)" "\<not> bs_continue_job c" "methods_ok c"
    and "length b = 22" "bs_dest_addr c \<noteq> BADDR_NONE" "reply_started c (take (4 + bs_recv_total c) b)"
    and "out = o0 @ request_bytes (bs_udp c) (bs_dest_addr c)" "auth_done (bs_auth_info c) i0 o0"
  shows "outcome_of c res (i0 @ take (4 + bs_recv_total c) b) out (recv_reply_rest b c)"
proof -
  let ?n = "bs_recv_total c" and ?a = "seg b 4 18"
  have n: "?n = (if bs_bind_type c = 1 then 6 else 18)" using assms(7) by (simp add: reply_started_def)
  have h: "b ! 0 = 5" "b ! 1 = 0" "bs_bind_type c = 1 \<and> b ! 3 = 1 \<or> bs_bind_type c = 2 \<and> b ! 3 = 4"
    using assms(7) by (auto simp: reply_started_def split: if_splits)
  have tk: "take (4 + ?n) b = [b ! 0, b ! 1, b ! 2, b ! 3] @ take ?n (drop 4 b)"
    using four_bytes [of "take 4 b"] assms(5) by (simp add: take_add)
  have dr: "take ?n (drop 4 b) ! k = ?a ! k" if "k < ?n" for k
    using that n by (auto simp: seg_def split: if_splits)
  have ln: "length (take ?n (drop 4 b)) = ?n" using assms(5) n by simp
  let ?addr = "if bs_bind_type c = 1
        then BADDR_IPV4 (mk32 (?a ! 0) (?a ! 1) (?a ! 2) (?a ! 3)) (mk16 (?a ! 4) (?a ! 5))
        else BADDR_IPV6 (take 16 ?a) (mk16 (?a ! 16) (?a ! 17))"
  have st: "reply_status (take (4 + ?n) b) = Established ?addr"
  proof (cases "bs_bind_type c = 1")
    case True
    then have "b ! 3 = 1" "?n = 6" using h(3) n by auto
    then show ?thesis unfolding tk using h(1,2) True ln assms(5) by (simp add: seg_def)
  next
    case False
    then have "b ! 3 = 4" "?n = 18" "bs_bind_type c = 2" using h(3) n by auto
    moreover have "take 18 (drop 4 b) = ?a" by (simp add: seg_def)
    ultimately show ?thesis unfolding tk using h(1,2) False assms(5) by simp
  qed
  let ?c = "c\<lparr>bs_bind_addr := ?addr, bs_buffer := None, bs_io := Up_io, bs_state := STATE_UP\<rparr>"
  have "recv_reply_rest b c = Some (?c, [Bs_Event EVENT_UP])"
    using h(3) assms(1) by (auto simp: recv_reply_rest_def free_control_io_def init_up_io_def Let_def)
  moreover have "in_state STATE_UP ?c (i0 @ take (4 + ?n) b) out"
  proof -
    have "methods_ok ?c" using assms(4) by (simp add: methods_ok_def)
    then show ?thesis
      by (simp only: in_state.simps, intro conjI exI [of _ i0] exI [of _ "take (4 + ?n) b"] exI [of _ o0])
         (use st assms(6,8,9) in simp_all)
  qed
  ultimately show ?thesis using assms(2,3) by (simp add: bs_inv_def)
qed

lemma reply_started_more:
  "4 \<le> length got \<Longrightarrow> reply_started c got \<Longrightarrow> reply_started c (got @ data)"
  by (auto simp: reply_started_def nth_append)

lemma recv_done_ok:
  assumes "bs_inv c inp out" "bs_io c = Control_io" "bs_recv_busy c" "0 < length data"
    and "length data \<le> bs_recv_total c - bs_recv_len c"
  shows "outcome_of c (\<not> br_alloc_ok r) (inp @ data) out (recv_handler_done r data c)"
proof -
  have i: "in_state (bs_state c) c inp out" "dest_wf (bs_dest_addr c)" "\<not> bs_continue_job c"
      "io_of (bs_state c) = Control_io"
    using assms by (auto simp: bs_inv_def)
  have notsend: "\<not> sending c" using assms(3) by (simp add: sending_def)
  have rcv: "bs_recv_total c = n \<and> \<not> bs_send_busy c" if "receiving c n d m g" for n d m g
    using that by (simp add: receiving_def)
  consider "bs_state c = STATE_SENT_HELLO" | "bs_state c = STATE_SENT_PASSWORD" | "bs_state c = STATE_SENT_REQUEST"
    | "bs_state c = STATE_RECEIVED_REPLY_HEADER"
    using i assms notsend by (cases "bs_state c") (auto simp: bs_inv_def)
  then show ?thesis
  proof cases
    case 1
    then have s: "receiving c 2 0 2 inp" "methods_ok c" "out = hello_bytes (bs_auth_info c)" using i(1) by simp_all
    have l: "length data \<le> 2 - bs_recv_len c" using assms(5) rcv [OF s(1)] by simp
    show ?thesis
    proof (cases rule: recv_cases [OF s(1) _ assms(4) l, where r = r, case_names small more complete])
      case small
      then show ?case by simp
    next
      case (more b)
      then show ?thesis
        using 1 s assms(2) i(2,3) by (simp add: bs_inv_def methods_ok_def)
    next
      case (complete b)
      let ?c = "c\<lparr>bs_recv_busy := False, bs_buffer := Some b, bs_recv_len := 2\<rparr>"
      have "outcome_of ?c (\<not> br_alloc_ok r) b out (recv_hello r b ?c)"
        by (rule recv_hello_ok) (use assms(2) i(2-4) s rcv [OF s(1)] complete in \<open>simp_all add: methods_ok_def\<close>)
      moreover have "b = inp @ data" using complete(2,3) by simp
      ultimately show ?thesis using complete(4) 1 by (simp add: Let_def)
    qed
  next
    case 2
    then obtain i0 g where s: "inp = i0 @ g" "receiving c 2 0 2 g" "password_sent (bs_auth_info c) i0 out" "methods_ok c"
      using i(1) by auto
    have l: "length data \<le> 2 - bs_recv_len c" using assms(5) rcv [OF s(2)] by simp
    show ?thesis
    proof (cases rule: recv_cases [OF s(2) _ assms(4) l, where r = r, case_names small more complete])
      case small
      then show ?case by simp
    next
      case (more b)
      let ?c = "c\<lparr>bs_buffer := Some b, bs_recv_len := bs_recv_len c + length data, bs_recv_busy := True\<rparr>"
      have "in_state STATE_SENT_PASSWORD ?c (inp @ data) out"
        by (simp only: in_state.simps, intro conjI exI [of _ i0] exI [of _ "g @ data"])
           (use more s in \<open>simp_all add: methods_ok_def\<close>)
      then show ?thesis using 2 more(2) assms(2) i(2,3) by (simp add: bs_inv_def del: in_state.simps)
    next
      case (complete b)
      let ?c = "c\<lparr>bs_recv_busy := False, bs_buffer := Some b, bs_recv_len := 2\<rparr>"
      have "outcome_of ?c (\<not> br_alloc_ok r) (i0 @ b) out (recv_password_reply r b ?c)"
        by (rule recv_password_ok) (use assms(2) i(2-4) s rcv [OF s(2)] complete in \<open>simp_all add: methods_ok_def\<close>)
      moreover have "b = g @ data" using complete(2,3) by simp
      ultimately show ?thesis using complete(4) 2 s(1) by (simp add: Let_def)
    qed
  next
    case 3
    then obtain i0 g o0 where s: "inp = i0 @ g" "out = o0 @ request_bytes (bs_udp c) (bs_dest_addr c)"
        "receiving c 4 0 22 g" "auth_done (bs_auth_info c) i0 o0" "methods_ok c" "bs_dest_addr c \<noteq> BADDR_NONE"
      using i(1) by auto
    have l: "length data \<le> 4 - bs_recv_len c" using assms(5) rcv [OF s(3)] by simp
    show ?thesis
    proof (cases rule: recv_cases [OF s(3) _ assms(4) l, where r = r, case_names small more complete])
      case small
      then show ?case by simp
    next
      case (more b)
      let ?c = "c\<lparr>bs_buffer := Some b, bs_recv_len := bs_recv_len c + length data, bs_recv_busy := True\<rparr>"
      have "in_state STATE_SENT_REQUEST ?c (inp @ data) out"
        by (simp only: in_state.simps, intro conjI exI [of _ i0] exI [of _ "g @ data"] exI [of _ o0])
           (use more s in \<open>simp_all add: methods_ok_def\<close>)
      then show ?thesis using 3 more(2) assms(2) i(2,3) by (simp add: bs_inv_def del: in_state.simps)
    next
      case (complete b)
      let ?c = "c\<lparr>bs_recv_busy := False, bs_buffer := Some b, bs_recv_len := 4\<rparr>"
      have "outcome_of ?c (\<not> br_alloc_ok r) (i0 @ take 4 b) out (recv_reply_header b ?c)"
        by (rule recv_header_ok [of _ _ _ o0]) (use assms(2) i(2-4) s rcv [OF s(3)] complete in \<open>simp_all add: methods_ok_def\<close>)
      moreover have "take 4 b = g @ data" using complete(3) by simp
      ultimately show ?thesis using complete(4) 3 s(1) by (simp add: Let_def)
    qed
  next
    case 4
    then obtain i0 g o0 where s: "inp = i0 @ g" "out = o0 @ request_bytes (bs_udp c) (bs_dest_addr c)"
        "receiving c (bs_recv_total c) 4 22 g" "reply_started c g" "auth_done (bs_auth_info c) i0 o0"
        "methods_ok c" "bs_dest_addr c \<noteq> BADDR_NONE"
      using i(1) by auto
    have fit: "4 + bs_recv_total c \<le> 22" using s(4) by (simp add: reply_started_def)
    have lg: "4 \<le> length g" using s(3) fit by (auto simp: receiving_def split: option.splits)
    show ?thesis
    proof (cases rule: recv_cases [OF s(3) fit assms(4,5), where r = r, case_names more complete])
      case (more b)
      let ?c = "c\<lparr>bs_buffer := Some b, bs_recv_len := bs_recv_len c + length data, bs_recv_busy := True\<rparr>"
      have "reply_started ?c (g @ data)"
        using reply_started_more [OF lg s(4)] by (simp add: reply_started_def)
      then have "in_state STATE_RECEIVED_REPLY_HEADER ?c (inp @ data) out"
        by (simp only: in_state.simps, intro conjI exI [of _ i0] exI [of _ "g @ data"] exI [of _ o0])
           (use more s in \<open>simp_all add: methods_ok_def\<close>)
      then show ?thesis using 4 more(2) assms(2) i(2,3) by (simp add: bs_inv_def del: in_state.simps)
    next
      case (complete b)
      let ?c = "c\<lparr>bs_recv_busy := False, bs_buffer := Some b, bs_recv_len := bs_recv_total c\<rparr>"
      have g: "take (4 + bs_recv_total c) b = g @ data" using complete(3) by simp
      have "reply_started ?c (g @ data)"
        using reply_started_more [OF lg s(4)] by (simp add: reply_started_def)
      then have "outcome_of ?c (\<not> br_alloc_ok r) (i0 @ take (4 + bs_recv_total ?c) b) out (recv_reply_rest b ?c)"
        by (intro recv_rest_ok [of _ _ _ o0]) (use assms(2) i(2-4) s complete g in \<open>simp_all add: methods_ok_def\<close>)
      then show ?thesis using complete(4) 4 s(1) g by (simp add: Let_def)
    qed
  qed
qed

lemma call_ok:
  assumes "bs_inv (sys_client s) (sys_in s) (sys_out s)" "bs_enabled ev s"
  shows "outcome_of (sys_client s) (ev_resource r ev) (sys_in s @ ev_in ev) (sys_out s) (bs_call r ev (sys_client s))"
proof (cases ev)
  case (Connector is_error)
  then show ?thesis using connector_ok [OF assms(1)] assms(2) by simp
next
  case (Set_Dest a)
  then show ?thesis using set_dest_ok [OF assms(1)] assms(2) by simp
next
  case Continue_Job
  then show ?thesis using continue_ok [OF assms(1)] assms(2) by simp
next
  case Send_Done
  then show ?thesis using send_done_ok [OF assms(1)] assms(2) by simp
next
  case (Recv_Done data)
  then show ?thesis using recv_done_ok [OF assms(1)] assms(2) by simp
next
  case (Connection closed)
  then show ?thesis using connection_ok [OF assms(1)] assms(2) by simp
qed

definition sys_ok :: "bs_sys \<Rightarrow> bool" where
  "sys_ok s =
     (let c = sys_client s in
      if sys_error s
      then bs_io c = io_of (bs_state c)
        \<and> (sys_resource s \<or> socks_spec (bs_auth_info c) (bs_dest_addr c) (bs_udp c) (sys_in s) = (sys_out s, Failed))
      else bs_inv c (sys_in s) (sys_out s))"

lemma enabled_no_error: "bs_enabled ev s \<Longrightarrow> \<not> sys_error s"
  by (cases ev) auto

lemma bs_step_ok:
  assumes "sys_ok s" "bs_enabled ev s"
  shows "\<exists>s'. bs_step r ev s = Some s' \<and> sys_ok s' \<and> bs_auth_info (sys_client s') = bs_auth_info (sys_client s)
    \<and> bs_udp (sys_client s') = bs_udp (sys_client s)"
proof -
  have inv: "bs_inv (sys_client s) (sys_in s) (sys_out s)"
    using assms enabled_no_error by (simp add: sys_ok_def Let_def)
  obtain c acts where c: "bs_call r ev (sys_client s) = Some (c, acts)"
    using call_ok [OF inv assms(2), of r] by (cases "bs_call r ev (sys_client s)") auto
  then show ?thesis
    using call_ok [OF inv assms(2), of r]
    by (auto simp: bs_step_def sys_ok_def Let_def split: if_splits)
qed

lemma bs_reachable_ok:
  "bs_reachable auth udp s \<Longrightarrow> sys_ok s \<and> bs_auth_info (sys_client s) = auth \<and> bs_udp (sys_client s) = udp"
proof (induction rule: bs_reachable.induct)
  case (init server dest c)
  then show ?case by (auto simp: BSocksClient_Init_def sys_ok_def bs_inv_def)
next
  case (step s ev r s')
  then show ?case using bs_step_ok [of s ev r] by auto
qed

section \<open>Properties\<close>

lemma free_ok: "sys_ok s \<Longrightarrow> BSocksClient_Free (sys_client s) \<noteq> None"
  by (cases "bs_state (sys_client s)")
     (auto simp: sys_ok_def Let_def bs_inv_def BSocksClient_Free_def free_up_io_def free_control_io_def
        split: if_splits)

text \<open>Something the client waits for can always happen.\<close>

fun progress_event :: "bs_ev \<Rightarrow> bool" where
  "progress_event (Set_Dest a) = False"
| "progress_event (Connection closed) = False"
| "progress_event _ = True"

lemma never_stuck:
  assumes "sys_ok s" "\<not> sys_error s" "bs_state (sys_client s) \<noteq> STATE_UP"
  shows "\<exists>ev. progress_event ev \<and> bs_enabled ev s"
proof -
  let ?c = "sys_client s"
  have i: "in_state (bs_state ?c) ?c (sys_in s) (sys_out s)" "bs_io ?c = io_of (bs_state ?c)"
    using assms by (auto simp: sys_ok_def Let_def bs_inv_def)
  have "bs_state ?c = STATE_CONNECTING \<or> bs_continue_job ?c \<or> bs_io ?c = Control_io \<and> bs_send_busy ?c
      \<or> bs_io ?c = Control_io \<and> bs_recv_busy ?c \<and> bs_recv_len ?c < bs_recv_total ?c"
    using i assms(3) by (cases "bs_state ?c") (auto simp: sending_def receiving_def)
  then have "bs_enabled (Connector False) s \<or> bs_enabled Continue_Job s \<or> bs_enabled Send_Done s
      \<or> bs_enabled (Recv_Done [0]) s"
    using assms(2) by (auto simp: Suc_le_eq)
  then show ?thesis by (metis progress_event.simps(3-6))
qed

text \<open>
  C27. The SOCKS5 client never fails an assertion, never writes outside its buffer and uses each
  interface of the connection only when it is initialised and idle; it can be freed in every state,
  also after an error; and until it is up or has reported an error something it waits for is
  outstanding.
\<close>

theorem BSocksClient_no_failure:
  assumes "bs_reachable auth udp s"
  shows "(\<forall>r ev. bs_enabled ev s \<longrightarrow> bs_step r ev s \<noteq> None)
    \<and> BSocksClient_Free (sys_client s) \<noteq> None
    \<and> (\<not> sys_error s \<and> bs_state (sys_client s) \<noteq> STATE_UP \<longrightarrow> (\<exists>ev. progress_event ev \<and> bs_enabled ev s))"
proof -
  have ok: "sys_ok s" using bs_reachable_ok [OF assms] by simp
  have "bs_step r ev s \<noteq> None" if "bs_enabled ev s" for r ev
    using bs_step_ok [OF ok that, of r] by auto
  then show ?thesis using free_ok [OF ok] never_stuck [OF ok] by blast
qed

text \<open>
  C28. The SOCKS5 client conducts the dialogue of RFC 1928 and RFC 1929 as the reference definition
  has it, however the server's bytes are cut into pieces: once started, the bytes it has sent are
  those the reference prescribes for the bytes received; it is up exactly when the reference says
  so, with the bound address of the reply; and it reports an error without a failure of the
  connection or of memory only where the reference dialogue has failed.
\<close>

theorem BSocksClient_dialogue:
  assumes "bs_reachable auth udp s"
  shows "(\<not> sys_error s \<and> started (sys_client s) \<longrightarrow>
        socks_spec auth (bs_dest_addr (sys_client s)) udp (sys_in s) = (sys_out s, status_of (sys_client s)))
    \<and> (sys_error s \<and> \<not> sys_resource s \<longrightarrow>
        socks_spec auth (bs_dest_addr (sys_client s)) udp (sys_in s) = (sys_out s, Failed))"
proof -
  have r: "sys_ok s" "bs_auth_info (sys_client s) = auth" "bs_udp (sys_client s) = udp"
    using bs_reachable_ok [OF assms] by simp_all
  then show ?thesis
    using inv_spec [of "sys_client s" "sys_in s" "sys_out s"] by (auto simp: sys_ok_def Let_def)
qed

section \<open>An example run\<close>

fun bs_run :: "(bs_results \<times> bs_ev) list \<Rightarrow> bs_sys \<Rightarrow> bs_sys option" where
  "bs_run [] s = Some s"
| "bs_run ((r, ev) # evs) s = (if bs_enabled ev s then bs_step r ev s \<bind> bs_run evs else None)"

lemma bs_run_reachable: "bs_reachable auth udp s \<Longrightarrow> bs_run evs s = Some s' \<Longrightarrow> bs_reachable auth udp s'"
proof (induction evs arbitrary: s)
  case (Cons rev evs)
  then show ?case
    by (cases rev) (auto simp: bind_Some split: if_splits intro: bs_reachable.step)
qed simp

definition bs_auth :: "BSocksClient_auth_info list" where
  "bs_auth = [Auth_none, Auth_password [97, 98] [99]]"

definition bs_dest :: baddr where "bs_dest = BADDR_IPV4 134744072 47873"

definition bs_start :: bs_sys where
  "bs_start = \<lparr>sys_client = \<lparr>bs_auth_info = bs_auth, bs_dest_addr = bs_dest, bs_udp = False, bs_bind_type = 0,
      bs_bind_addr = BADDR_NONE, bs_state = STATE_CONNECTING, bs_buffer = None, bs_continue_job = False,
      bs_io = No_io, bs_send_busy = False, bs_recv_busy = False, bs_recv_dest = 0, bs_recv_len = 0,
      bs_recv_total = 0\<rparr>, sys_in = [], sys_out = [], sys_error = False, sys_resource = False\<rparr>"

lemma bs_start_reachable: "bs_reachable bs_auth False bs_start"
  unfolding bs_start_def
  by (rule bs_reachable.init [where server = "BADDR_IPV4 16777343 14340" and dest = bs_dest])
     (simp_all add: BSocksClient_Init_def dest_wf_def bs_dest_def)

definition bs_ok :: bs_results where
  "bs_ok = \<lparr>br_con_ok = True, br_alloc_ok = True, br_junk = (\<lambda>_. 0)\<rparr>"

definition bs_events :: "(bs_results \<times> bs_ev) list" where
  "bs_events = map (Pair bs_ok) [Connector False, Continue_Job, Send_Done, Recv_Done [5], Recv_Done [2],
     Send_Done, Recv_Done [1, 0], Send_Done, Recv_Done [5, 0], Recv_Done [0, 1], Recv_Done [10, 0, 0, 1, 4, 210]]"

definition bs_example :: "nat \<Rightarrow> bs_sys" where
  "bs_example n = the (bs_run (take n bs_events) bs_start)"

lemma bs_example_reachable:
  "bs_run (take n bs_events) bs_start \<noteq> None \<Longrightarrow> bs_reachable bs_auth False (bs_example n)"
  using bs_run_reachable [OF bs_start_reachable] by (auto simp: bs_example_def)

lemma bs_run_7: "bs_run (take 7 bs_events) bs_start \<noteq> None"
  by code_simp

lemma bs_run_11: "bs_run (take 11 bs_events) bs_start \<noteq> None"
  by code_simp

theorem BSocksClient_no_failure_witness:
  "bs_step bs_ok Send_Done (bs_example 7) \<noteq> None"
  by (rule BSocksClient_no_failure [OF bs_example_reachable [OF bs_run_7], THEN conjunct1, rule_format])
     code_simp

theorem BSocksClient_dialogue_witness:
  "socks_spec bs_auth bs_dest False [5, 2, 1, 0, 5, 0, 0, 1, 10, 0, 0, 1, 4, 210]
   = ([5, 2, 0, 2, 1, 2, 97, 98, 1, 99, 5, 1, 0, 1, 8, 8, 8, 8, 1, 187],
      Established (BADDR_IPV4 16777226 53764))"
proof -
  let ?s = "bs_example 11"
  have f: "\<not> sys_error ?s" "started (sys_client ?s)" "bs_dest_addr (sys_client ?s) = bs_dest"
    "sys_in ?s = [5, 2, 1, 0, 5, 0, 0, 1, 10, 0, 0, 1, 4, 210]"
    "sys_out ?s = [5, 2, 0, 2, 1, 2, 97, 98, 1, 99, 5, 1, 0, 1, 8, 8, 8, 8, 1, 187]"
    "status_of (sys_client ?s) = Established (BADDR_IPV4 16777226 53764)"
    by code_simp+
  show ?thesis
    using BSocksClient_dialogue [OF bs_example_reachable [OF bs_run_11]] f by simp
qed

end
