(* ===== verification/SocksUdpClient.thy ===== *)
theory SocksUdpClient
  imports BSocksClient
begin

text \<open>
  The SOCKS5 UDP client (\<open>socks_udp_client/SocksUdpClient.c\<close>), used when UDP is relayed over SOCKS:
  each local address has a SOCKS client of its own, which asks the server for a UDP association, and
  a datagram socket to send to the address the server assigns.

  A connection is a heap object with its SOCKS client, its buffer writer, and the address its socket
  sends to once that is known. The tree of connections is the list of its nodes in the order of the
  keys. \<open>sk_jobs\<close> are the connections whose \<open>first_job\<close> is pending, the next one first. Results of
  \<open>malloc\<close>, of the socket calls and of the initialisation of buffers are arguments. A datagram put
  into the send pipeline is the action \<open>Sk_Datagram\<close>.
\<close>

definition DnsPort :: nat where "DnsPort = 53"

record SocksUdpClient_connection =
  sk_local_addr :: baddr
  sk_socks :: BSocksClient
  sk_send_writer :: BufferWriter
  sk_send_addr :: "baddr option"
  sk_first_data :: "byte list option"
  sk_first_remote_addr :: baddr
  sk_dns_id :: int

record SocksUdpClient =
  sk_server_addr :: baddr
  sk_auth_info :: "BSocksClient_auth_info list"
  sk_num_connections :: nat
  sk_max_connections :: nat
  sk_udp_mtu :: nat
  sk_socks_mtu :: int
  sk_tree :: "(baddr \<times> nat) list"
  sk_cons :: "nat \<rightharpoonup> SocksUdpClient_connection"
  sk_jobs :: "nat list"

record sk_results =
  kr_mem :: "nat option"
  kr_data_ok :: bool
  kr_dgram_ok :: bool
  kr_connector_ok :: bool
  kr_buffer_ok :: bool
  kr_recv_buffer_ok :: bool

record sk_sockets =
  ks_tcp_local :: "baddr option"
  ks_bind_ok :: bool
  ks_bound :: "baddr option"

datatype sk_act =
    Sk_Recv_Done nat
  | Sk_Datagram nat "byte list"
  | Sk_Received baddr baddr "byte list"
  | Sk_Bind nat baddr

definition sk_con_set :: "nat \<Rightarrow> SocksUdpClient_connection \<Rightarrow> SocksUdpClient \<Rightarrow> SocksUdpClient" where
  "sk_con_set p con o' = o'\<lparr>sk_cons := (sk_cons o')(p \<mapsto> con)\<rparr>"

section \<open>The tree\<close>

text \<open>Insertion fails when the key exists; removal needs the node to be in the tree.\<close>

definition sk_addr_comparator :: "baddr \<Rightarrow> baddr \<Rightarrow> int" where
  "sk_addr_comparator v1 v2 = BAddr_CompareOrder v1 v2"

fun sk_tree_lookup :: "baddr \<Rightarrow> (baddr \<times> nat) list \<Rightarrow> nat option" where
  "sk_tree_lookup a [] = None"
| "sk_tree_lookup a ((b, p) # t) = (if sk_addr_comparator a b = 0 then Some p else sk_tree_lookup a t)"

fun sk_tree_insert :: "baddr \<Rightarrow> nat \<Rightarrow> (baddr \<times> nat) list \<Rightarrow> (baddr \<times> nat) list option" where
  "sk_tree_insert a p [] = Some [(a, p)]"
| "sk_tree_insert a p ((b, q) # t) =
     (if sk_addr_comparator a b = 0 then None
      else if sk_addr_comparator a b < 0 then Some ((a, p) # (b, q) # t)
      else map_option ((#) (b, q)) (sk_tree_insert a p t))"

definition sk_tree_remove :: "baddr \<Rightarrow> nat \<Rightarrow> (baddr \<times> nat) list \<Rightarrow> (baddr \<times> nat) list option" where
  "sk_tree_remove a p t = do { assert_that ((a, p) \<in> set t); Some (remove1 (a, p) t) }"

definition sk_find_connection :: "SocksUdpClient \<Rightarrow> baddr \<Rightarrow> nat option" where
  "sk_find_connection o' a = sk_tree_lookup a (sk_tree o')"

section \<open>DNS\<close>

definition get_dns_id :: "baddr \<Rightarrow> byte list \<Rightarrow> int option" where
  "get_dns_id remote data = do {
     port \<leftarrow> BAddr_GetPort remote;
     Some (if unat (ntoh16 port) = DnsPort \<and> length data \<ge> 2
           then int (unat (data ! 0)) * 256 + int (unat (data ! 1)) else - 1)
   }"

section \<open>Connections\<close>

definition sk_connection_free :: "nat \<Rightarrow> SocksUdpClient \<Rightarrow> SocksUdpClient option" where
  "sk_connection_free p o' = do {
     con \<leftarrow> sk_cons o' p;
     assert_that (sk_num_connections o' > 0);
     t \<leftarrow> sk_tree_remove (sk_local_addr con) p (sk_tree o');
     _ \<leftarrow> BSocksClient_Free (sk_socks con);
     Some (o'\<lparr>sk_num_connections := sk_num_connections o' - 1, sk_tree := t,
              sk_jobs := filter (\<lambda>q. q \<noteq> p) (sk_jobs o'), sk_cons := (sk_cons o')(p := None)\<rparr>)
   }"

text \<open>
  On an event of the SOCKS client of connection \<open>p\<close>. When the client is connected, the socket is
  bound to the local IP address of its TCP connection, and the address bound becomes DST.ADDR.
\<close>

definition sk_connected :: "sk_sockets \<Rightarrow> nat \<Rightarrow> SocksUdpClient \<Rightarrow> (SocksUdpClient \<times> sk_act list) option" where
  "sk_connected os p o' = do {
     con \<leftarrow> sk_cons o' p;
     case ks_tcp_local os of
       None \<Rightarrow> do { o' \<leftarrow> sk_connection_free p o'; Some (o', []) }
     | Some tcp_local \<Rightarrow>
         if \<not> is_ip_baddr tcp_local then do { o' \<leftarrow> sk_connection_free p o'; Some (o', []) }
         else do {
           udp_bound \<leftarrow> BAddr_SetPort 0 tcp_local;
           if \<not> ks_bind_ok os then do { o' \<leftarrow> sk_connection_free p o'; Some (o', [Sk_Bind p udp_bound]) }
           else case ks_bound os of
             None \<Rightarrow> do { o' \<leftarrow> sk_connection_free p o'; Some (o', [Sk_Bind p udp_bound]) }
           | Some bound \<Rightarrow> do {
               socks \<leftarrow> BSocksClient_SetDestAddr bound (sk_socks con);
               Some (sk_con_set p (con\<lparr>sk_socks := socks\<rparr>) o', [Sk_Bind p udp_bound])
             }
         }
   }"

definition sk_socks_state_handler ::
  "sk_sockets \<Rightarrow> nat \<Rightarrow> socks_event \<Rightarrow> SocksUdpClient \<Rightarrow> (SocksUdpClient \<times> sk_act list) option" where
  "sk_socks_state_handler os p ev o' =
     (case ev of
        EVENT_CONNECTED \<Rightarrow> sk_connected os p o'
      | EVENT_UP \<Rightarrow> do {
          con \<leftarrow> sk_cons o' p;
          remote \<leftarrow> BSocksClient_GetBindAddr (sk_socks con);
          Some (sk_con_set p (con\<lparr>sk_send_addr := Some remote\<rparr>) o', [])
        }
      | EVENT_ERROR \<Rightarrow> do { o' \<leftarrow> sk_connection_free p o'; Some (o', []) }
      | EVENT_ERROR_CLOSED \<Rightarrow> do { o' \<leftarrow> sk_connection_free p o'; Some (o', []) })"

text \<open>Both free the connection: an error of the socket, and no sending for the keepalive time.\<close>

definition datagram_state_handler :: "nat \<Rightarrow> bool \<Rightarrow> SocksUdpClient \<Rightarrow> SocksUdpClient option" where
  "datagram_state_handler p is_error o' = (if is_error then sk_connection_free p o' else Some o')"

definition send_monitor_handler :: "nat \<Rightarrow> SocksUdpClient \<Rightarrow> SocksUdpClient option" where
  "send_monitor_handler p o' = sk_connection_free p o'"

section \<open>Receiving\<close>

text \<open>The packet behind the header with the address in it; \<open>None\<close> where it is rejected.\<close>

definition sk_parse :: "byte list \<Rightarrow> (baddr \<times> byte list) option" where
  "sk_parse data =
     (if length data < 4 then None
      else if data ! 3 = SOCKS_ATYP_IPV4 then take_addr False (drop 4 data)
      else if data ! 3 = SOCKS_ATYP_IPV6 then take_addr True (drop 4 data)
      else None)"

definition sk_recv_if_handler_send ::
  "nat \<Rightarrow> byte list \<Rightarrow> SocksUdpClient \<Rightarrow> (SocksUdpClient \<times> sk_act list) option" where
  "sk_recv_if_handler_send p data o' = do {
     con \<leftarrow> sk_cons o' p;
     assert_that (int (length data) \<le> sk_socks_mtu o');
     case sk_parse data of
       None \<Rightarrow> Some (o', [Sk_Recv_Done p])
     | Some (remote, data) \<Rightarrow>
         if length data > sk_udp_mtu o' then Some (o', [Sk_Recv_Done p])
         else do {
           let acts = [Sk_Recv_Done p, Sk_Received (sk_local_addr con) remote data];
           if sk_dns_id con \<ge> 0 then do {
             recv_dns_id \<leftarrow> get_dns_id remote data;
             if recv_dns_id = sk_dns_id con then do { o' \<leftarrow> sk_connection_free p o'; Some (o', acts) }
             else Some (sk_con_set p (con\<lparr>sk_dns_id := - 1\<rparr>) o', acts)
           }
           else Some (o', acts)
         }
   }"

section \<open>Sending\<close>

definition sk_connection_send ::
  "nat \<Rightarrow> baddr \<Rightarrow> byte list \<Rightarrow> SocksUdpClient \<Rightarrow> (SocksUdpClient \<times> sk_act list) option" where
  "sk_connection_send p remote data o' = do {
     con \<leftarrow> sk_cons o' p;
     assert_that (length data \<le> sk_udp_mtu o');
     con \<leftarrow> (if sk_dns_id con \<ge> 0 then do {
               new_dns_id \<leftarrow> get_dns_id remote data;
               Some (if new_dns_id \<noteq> sk_dns_id con then con\<lparr>sk_dns_id := - 1\<rparr> else con)
             } else Some con);
     case (case remote of BADDR_IPV4 _ _ \<Rightarrow> Some (SOCKS_ATYP_IPV4, 6)
           | BADDR_IPV6 _ _ \<Rightarrow> Some (SOCKS_ATYP_IPV6, 18)
           | BADDR_NONE \<Rightarrow> None) of
       None \<Rightarrow> Some (sk_con_set p con o', [])
     | Some (atyp, address_size) \<Rightarrow> do {
         let total_len = 4 + address_size + length data;
         assert_that (int total_len \<le> sk_socks_mtu o');
         (w, out) \<leftarrow> BufferWriter_StartPacket (sk_send_writer con);
         case out of None \<Rightarrow> Some (sk_con_set p (con\<lparr>sk_send_writer := w\<rparr>) o', [])
         | Some out \<Rightarrow> do {
             out \<leftarrow> memcpy_out 0 (socks_udp_header 0 0 atyp) out;
             (out, out_pos) \<leftarrow> put_addr remote (out, 4);
             out \<leftarrow> memcpy_out out_pos data out;
             assert_that (out_pos + length data = total_len);
             (w, len) \<leftarrow> BufferWriter_EndPacket total_len w;
             Some (sk_con_set p (con\<lparr>sk_send_writer := w\<rparr>) o', [Sk_Datagram p (take len out)])
           }
       }
   }"

definition sk_first_job_handler :: "nat \<Rightarrow> SocksUdpClient \<Rightarrow> (SocksUdpClient \<times> sk_act list) option" where
  "sk_first_job_handler p o' = do {
     con \<leftarrow> sk_cons o' p;
     data \<leftarrow> sk_first_data con;
     (o', acts) \<leftarrow> sk_connection_send p (sk_first_remote_addr con) data o';
     con \<leftarrow> sk_cons o' p;
     Some (sk_con_set p (con\<lparr>sk_first_data := None\<rparr>) o', acts)
   }"

section \<open>Creating a connection\<close>

text \<open>On any failure everything is freed again and \<open>NULL\<close> is returned, which nobody looks at.\<close>

definition sk_connection_init ::
  "sk_results \<Rightarrow> baddr \<Rightarrow> baddr \<Rightarrow> byte list \<Rightarrow> SocksUdpClient \<Rightarrow> SocksUdpClient option" where
  "sk_connection_init r local remote data o' = do {
     assert_that (sk_num_connections o' \<le> sk_max_connections o');
     assert_that (sk_find_connection o' local = None);
     case kr_mem r of None \<Rightarrow> Some o'
     | Some p \<Rightarrow>
         if \<not> kr_data_ok r then Some (o'\<lparr>sk_cons := (sk_cons o')(p := None)\<rparr>)
         else do {
           dns_id \<leftarrow> get_dns_id remote data;
           let o' = o'\<lparr>sk_jobs := p # sk_jobs o'\<rparr>;
           let failed = o'\<lparr>sk_jobs := filter (\<lambda>q. q \<noteq> p) (sk_jobs o'), sk_cons := (sk_cons o')(p := None)\<rparr>;
           if \<not> kr_dgram_ok r then Some failed
           else do {
             socks \<leftarrow> BSocksClient_Init (kr_connector_ok r) (sk_server_addr o') (sk_auth_info o') BADDR_NONE True;
             case socks of None \<Rightarrow> Some failed
             | Some socks \<Rightarrow>
                 if \<not> (kr_buffer_ok r \<and> kr_recv_buffer_ok r)
                 then do { _ \<leftarrow> BSocksClient_Free socks; Some failed }
                 else do {
                   let con = \<lparr>sk_local_addr = local, sk_socks = socks,
                     sk_send_writer = BufferWriter_Init (nat (sk_socks_mtu o')), sk_send_addr = None,
                     sk_first_data = Some data, sk_first_remote_addr = remote, sk_dns_id = dns_id\<rparr>;
                   t \<leftarrow> sk_tree_insert local p (sk_tree o');
                   Some ((sk_con_set p con o')\<lparr>sk_tree := t, sk_num_connections := sk_num_connections o' + 1\<rparr>)
                 }
           }
         }
   }"

section \<open>Interface\<close>

definition compute_socks_mtu :: "int \<Rightarrow> int" where
  "compute_socks_mtu udp_mtu =
     (let bs = bsize_add (bsize_fromint udp_mtu) (bsize_add (bsize_fromsize 4) (bsize_fromsize 18))
      in case bsize_toint bs of None \<Rightarrow> - 1 | Some s \<Rightarrow> s)"

text \<open>\<open>None\<close> inside is the failure for an MTU that is too large.\<close>

definition SocksUdpClient_Init ::
  "nat \<Rightarrow> nat \<Rightarrow> nat \<Rightarrow> baddr \<Rightarrow> BSocksClient_auth_info list \<Rightarrow> SocksUdpClient option option" where
  "SocksUdpClient_Init udp_mtu max_connections send_buf_size server_addr auth_info = do {
     assert_that (max_connections > 0);
     assert_that (send_buf_size > 0);
     let socks_mtu = compute_socks_mtu (int udp_mtu);
     Some (if socks_mtu < 0 then None
           else Some \<lparr>sk_server_addr = server_addr, sk_auth_info = auth_info, sk_num_connections = 0,
             sk_max_connections = max_connections, sk_udp_mtu = udp_mtu, sk_socks_mtu = socks_mtu,
             sk_tree = [], sk_cons = Map.empty, sk_jobs = []\<rparr>)
   }"

text \<open>The loop frees the first connection of the tree until the tree is empty, \<open>n\<close> rounds at most.\<close>

fun sk_free_connections :: "nat \<Rightarrow> SocksUdpClient \<Rightarrow> SocksUdpClient option" where
  "sk_free_connections n o' =
     (case sk_tree o' of [] \<Rightarrow> Some o'
      | (_, p) # _ \<Rightarrow> (case n of 0 \<Rightarrow> None
                       | Suc m \<Rightarrow> sk_connection_free p o' \<bind> sk_free_connections m))"

definition SocksUdpClient_Free :: "SocksUdpClient \<Rightarrow> SocksUdpClient option" where
  "SocksUdpClient_Free o' = sk_free_connections (length (sk_tree o')) o'"

definition SocksUdpClient_SubmitPacket ::
  "sk_results \<Rightarrow> baddr \<Rightarrow> baddr \<Rightarrow> byte list \<Rightarrow> SocksUdpClient \<Rightarrow> (SocksUdpClient \<times> sk_act list) option" where
  "SocksUdpClient_SubmitPacket r local remote data o' = do {
     assert_that (is_ip_baddr local);
     assert_that (is_ip_baddr remote);
     assert_that (length data \<le> sk_udp_mtu o');
     case sk_find_connection o' local of
       None \<Rightarrow>
         if sk_num_connections o' \<ge> sk_max_connections o' then Some (o', [])
         else do { o' \<leftarrow> sk_connection_init r local remote data o'; Some (o', []) }
     | Some p \<Rightarrow> sk_connection_send p remote data o'
   }"

end
