(* ===== verification/SocksUdpClientInv.thy ===== *)
theory SocksUdpClientInv
  imports SocksUdpClient BSocksClientProps
begin

text \<open>
  The SOCKS5 UDP client as a system with the SOCKS clients of its connections inside it, and its
  invariant: tree, counter and heap agree, the SOCKS client of each connection is in a state of the
  reference dialogue, and the socket has an address to send to exactly when that client is up.
\<close>

section \<open>Events of the SOCKS client\<close>

fun act_event :: "bs_act \<Rightarrow> socks_event list" where
  "act_event (Bs_Event e) = [e]"
| "act_event _ = []"

abbreviation events_of :: "bs_act list \<Rightarrow> socks_event list" where
  "events_of acts \<equiv> concat (map act_event acts)"

text \<open>
  What a call may report: nothing, and then the client neither enters nor leaves the state in which
  it is up, that it is up, or an error. No call but \<open>SetDestAddr\<close> changes the destination.
\<close>

fun bs_shape :: "BSocksClient \<Rightarrow> bs_outcome \<Rightarrow> bool" where
  "bs_shape c None = True"
| "bs_shape c (Some (c', acts)) =
     (bs_dest_addr c' = bs_dest_addr c
      \<and> (events_of acts = [] \<and> bs_state c' \<noteq> STATE_UP \<and> bs_state c' \<noteq> STATE_CONNECTED_HANDLER
         \<or> events_of acts = [EVENT_UP] \<and> bs_state c' = STATE_UP
         \<or> events_of acts = [EVENT_ERROR] \<or> events_of acts = [EVENT_ERROR_CLOSED]))"

lemma shape_report [simp]: "bs_shape c (bs_report_error c' EVENT_ERROR) = (bs_dest_addr c' = bs_dest_addr c)"
  by (simp add: bs_report_error_def)

lemma shape_bind:
  "(\<And>x. m = Some x \<Longrightarrow> bs_shape c (f x)) \<Longrightarrow> bs_shape c (m \<bind> f)"
  by (cases m) auto

lemma buffer_write_dest: "buffer_write pos src o' = Some c \<Longrightarrow> bs_dest_addr c = bs_dest_addr o' \<and> bs_state c = bs_state o'"
  by (auto simp: buffer_write_def bind_Some)

lemma reserve_dest: "reserve_buffer r sz o' = (c, ok) \<Longrightarrow> bs_dest_addr c = bs_dest_addr o' \<and> bs_state c = bs_state o'"
  by (auto simp: reserve_buffer_def split: if_splits)

lemma write_methods_dest:
  "write_methods i as o' = Some c \<Longrightarrow> bs_dest_addr c = bs_dest_addr o' \<and> bs_state c = bs_state o'"
proof (induction i as o' rule: write_methods.induct)
  case (2 i a as o')
  then show ?case using buffer_write_dest by (fastforce simp: bind_Some)
qed simp

lemmas keeps_dest = buffer_write_dest reserve_dest write_methods_dest

lemma shape_send:
  "st \<noteq> STATE_UP \<Longrightarrow> st \<noteq> STATE_CONNECTED_HANDLER \<Longrightarrow> bs_dest_addr o' = bs_dest_addr c
   \<Longrightarrow> bs_shape c (set_state st (send_buffer n o'))"
  by (cases "bs_buffer o'") (simp_all add: set_state_def send_buffer_def assert_that_def)

lemma shape_receive:
  "st \<noteq> STATE_UP \<Longrightarrow> st \<noteq> STATE_CONNECTED_HANDLER \<Longrightarrow> bs_dest_addr o' = bs_dest_addr c
   \<Longrightarrow> bs_shape c (set_state st (start_receive d n o'))"
  by (simp add: set_state_def start_receive_def do_receive_def assert_that_def)

lemma shape_do_receive:
  "bs_state o' \<noteq> STATE_UP \<Longrightarrow> bs_state o' \<noteq> STATE_CONNECTED_HANDLER \<Longrightarrow> bs_dest_addr o' = bs_dest_addr c
   \<Longrightarrow> bs_shape c (do_receive o')"
  by (simp add: do_receive_def assert_that_def)

lemma shape_continue: "bs_shape c (continue_job_handler r (c\<lparr>bs_continue_job := False\<rparr>))"
  unfolding continue_job_handler_def Let_def
  by (auto intro!: shape_bind shape_send dest!: keeps_dest split: prod.splits)

lemma shape_auth: "bs_dest_addr o' = bs_dest_addr c \<Longrightarrow> bs_shape c (auth_finished r o')"
  unfolding auth_finished_def Let_def
  by (auto intro!: shape_bind shape_send dest!: keeps_dest simp: bind_Some
      split: prod.splits baddr.splits option.splits)

lemma shape_send_done: "bs_shape c (send_handler_done r c)"
  unfolding send_handler_done_def Let_def
  by (auto intro!: shape_bind shape_receive dest!: keeps_dest split: prod.splits socks_state.splits)

lemma shape_hello: "bs_dest_addr o' = bs_dest_addr c \<Longrightarrow> bs_shape c (recv_hello r buf o')"
  unfolding recv_hello_def Let_def
  by (auto intro!: shape_bind shape_send shape_auth dest!: keeps_dest
      split: prod.splits option.splits BSocksClient_auth_info.splits)

lemma shape_reply_header: "bs_dest_addr o' = bs_dest_addr c \<Longrightarrow> bs_shape c (recv_reply_header buf o')"
  unfolding recv_reply_header_def by (auto intro!: shape_receive)

lemma shape_password_reply: "bs_dest_addr o' = bs_dest_addr c \<Longrightarrow> bs_shape c (recv_password_reply r buf o')"
  unfolding recv_password_reply_def by (auto intro!: shape_auth)

lemma shape_reply_rest: "bs_dest_addr o' = bs_dest_addr c \<Longrightarrow> bs_shape c (recv_reply_rest buf o')"
  unfolding recv_reply_rest_def Let_def
  by (intro shape_bind) (auto simp: free_control_io_def init_up_io_def bind_Some)

lemma shape_recv:
  assumes "bs_state c \<noteq> STATE_UP" "bs_state c \<noteq> STATE_CONNECTED_HANDLER"
  shows "bs_shape c (recv_handler_done r data c)"
  unfolding recv_handler_done_def Let_def
  using assms
  by (auto intro!: shape_bind shape_do_receive shape_hello shape_reply_header shape_password_reply
      shape_reply_rest dest!: keeps_dest split: socks_state.splits)

fun is_connector :: "bs_ev \<Rightarrow> bool" where
  "is_connector (Connector e) = True"
| "is_connector _ = False"

lemma call_shape:
  assumes "bs_enabled ev s" "\<not> is_connector ev" "\<forall>a. ev \<noteq> Set_Dest a" "bs_inv (sys_client s) inp out"
  shows "bs_shape (sys_client s) (bs_call r ev (sys_client s))"
proof (cases ev)
  case (Connection closed)
  then show ?thesis by (auto simp: connection_handler_def bs_report_error_def assert_that_def)
next
  case (Recv_Done data)
  then have "bs_state (sys_client s) \<noteq> STATE_UP" "bs_state (sys_client s) \<noteq> STATE_CONNECTED_HANDLER"
    using assms(1,4) by (auto simp: bs_inv_def)
  then show ?thesis using Recv_Done shape_recv by simp
qed (use assms shape_continue shape_send_done in auto)

lemma connector_shape:
  assumes "bs_state c = STATE_CONNECTING" "connector_handler r e c = Some (c', acts)"
  shows "bs_dest_addr c' = bs_dest_addr c
    \<and> (acts = [Bs_Event EVENT_ERROR] \<or> acts = [Bs_Event EVENT_CONNECTED] \<and> bs_state c' = STATE_CONNECTED_HANDLER)"
  using assms
  by (auto simp: connector_handler_def bs_report_error_def init_control_io_def bind_Some assert_that_def split: if_splits)

section \<open>The tree\<close>

lemma sk_comparator [simp]: "sk_addr_comparator a b = 0 \<longleftrightarrow> a = b" "sk_addr_comparator a b < 0 \<longleftrightarrow> a < b"
  by (auto simp: sk_addr_comparator_def BAddr_CompareOrder_eq)

lemma sk_tree_lookup_eq: "sk_tree_lookup a t = map_of t a"
  by (induction t) auto

definition key_sorted :: "(baddr \<times> nat) list \<Rightarrow> bool" where
  "key_sorted t = sorted_wrt (<) (map fst t)"

lemma sk_tree_insert_ok:
  assumes "key_sorted t" "map_of t a = None"
  obtains t' where "sk_tree_insert a p t = Some t'" "key_sorted t'" "map_of t' = (map_of t)(a \<mapsto> p)"
    "length t' = Suc (length t)" "set t' = insert (a, p) (set t)"
proof -
  have "\<exists>t'. sk_tree_insert a p t = Some t' \<and> key_sorted t' \<and> map_of t' = (map_of t)(a \<mapsto> p)
      \<and> length t' = Suc (length t) \<and> set t' = insert (a, p) (set t)"
    using assms
  proof (induction t)
    case Nil
    then show ?case by (simp add: key_sorted_def fun_eq_iff)
  next
    case (Cons x t)
    obtain b q where x: "x = (b, q)" by (cases x)
    show ?case
    proof (cases "a < b")
      case True
      then show ?thesis using Cons.prems x by (auto simp: key_sorted_def)
    next
      case False
      then have ba: "b < a" "a \<noteq> b" using Cons.prems(2) x by (auto split: if_splits)
      have "key_sorted t" "map_of t a = None" using Cons.prems x ba by (auto simp: key_sorted_def)
      then obtain t' where t: "sk_tree_insert a p t = Some t'" "key_sorted t'" "map_of t' = (map_of t)(a \<mapsto> p)"
          "length t' = Suc (length t)" "set t' = insert (a, p) (set t)"
        using Cons.IH by blast
      have "key_sorted ((b, q) # t')"
        using t(2,5) Cons.prems(1) x ba(1) by (auto simp: key_sorted_def)
      then show ?thesis using t x ba False by auto
    qed
  qed
  then show thesis using that by blast
qed

lemma key_sorted_distinct: "key_sorted t \<Longrightarrow> distinct (map fst t)"
  by (simp add: key_sorted_def strict_sorted_iff)

lemma sk_tree_remove_ok:
  assumes "key_sorted t" "map_of t a = Some p"
  obtains t' where "sk_tree_remove a p t = Some t'" "key_sorted t'" "map_of t' = (map_of t)(a := None)"
    "length t = Suc (length t')"
proof
  have m: "(a, p) \<in> set t" using assms(2) by (rule map_of_SomeD)
  then show "sk_tree_remove a p t = Some (remove1 (a, p) t)" by (simp add: sk_tree_remove_def)
  show "length t = Suc (length (remove1 (a, p) t))"
    using m length_pos_if_in_set [OF m] by (simp add: length_remove1)
  have f: "remove1 (a, p) t = filter (\<lambda>x. fst x \<noteq> a) t"
    using assms m
  proof (induction t)
    case (Cons x t)
    then have d: "key_sorted t" "fst x \<notin> fst ` set t"
      using key_sorted_distinct [of "x # t"] by (auto simp: key_sorted_def)
    show ?case
    proof (cases "fst x = a")
      case True
      then have "x = (a, p)" using Cons.prems(2) by (cases x) auto
      moreover have "filter (\<lambda>x. fst x \<noteq> a) t = t"
        using d(2) True by (metis (mono_tags, lifting) filter_True image_eqI)
      ultimately show ?thesis by simp
    next
      case False
      then have "map_of t a = Some p" "(a, p) \<in> set t" using Cons.prems(2,3) by (cases x; auto)+
      then show ?thesis using Cons.IH [OF d(1)] False by (cases x) auto
    qed
  qed simp
  show "key_sorted (remove1 (a, p) t)"
    using assms(1) unfolding f key_sorted_def
    by (induction t) auto
  show "map_of (remove1 (a, p) t) = (map_of t)(a := None)"
    unfolding f by (rule ext) (induction t; auto)
qed

section \<open>Sending\<close>

definition dns_of :: "baddr \<Rightarrow> byte list \<Rightarrow> int" where
  "dns_of remote data = the (get_dns_id remote data)"

lemma get_dns_id_wf: "baddr_wf a \<Longrightarrow> get_dns_id a data = Some (dns_of a data)"
  by (cases a) (auto simp: get_dns_id_def dns_of_def)

lemma dns_of_range: "baddr_wf a \<Longrightarrow> - 1 \<le> dns_of a data"
proof -
  have "0 \<le> int (unat (data ! 0)) * 256 + int (unat (data ! 1))"
    by (intro add_nonneg_nonneg mult_nonneg_nonneg) simp_all
  then have "- 1 \<le> (if c then int (unat (data ! 0)) * 256 + int (unat (data ! 1)) else - 1)" for c
    by (cases c; simp only: if_True if_False; linarith)
  moreover assume "baddr_wf a"
  ultimately show ?thesis
    by (cases a) (simp_all only: get_dns_id_def dns_of_def BAddr_GetPort.simps bind.bind_lunit option.sel baddr_wf.simps)
qed

definition dns_checked :: "baddr \<Rightarrow> byte list \<Rightarrow> SocksUdpClient_connection \<Rightarrow> SocksUdpClient_connection" where
  "dns_checked remote data con =
     (if sk_dns_id con \<ge> 0 \<and> dns_of remote data \<noteq> sk_dns_id con then con\<lparr>sk_dns_id := - 1\<rparr> else con)"

definition sk_prefix :: "baddr \<Rightarrow> byte list" where
  "sk_prefix a = socks_udp_header 0 0 (if baddr_type a = 1 then SOCKS_ATYP_IPV4 else SOCKS_ATYP_IPV6) @ udpgw_addr a"

definition sk_sent :: "SocksUdpClient_connection \<Rightarrow> SocksUdpClient_connection" where
  "sk_sent con = con\<lparr>sk_send_writer := (sk_send_writer con)\<lparr>bw_out_have := False, bw_d_writing := False\<rparr>\<rparr>"

lemma udpgw_addr_le: "length (udpgw_addr a) \<le> 18"
  by (cases a) (auto simp: udpgw_addr_ipv4_def udpgw_addr_ipv6_def bytes32_def bytes16_def)

lemma udpgw_addr_size:
  "baddr_wf a \<Longrightarrow> length (udpgw_addr a) = (case a of BADDR_IPV4 _ _ \<Rightarrow> 6 | _ \<Rightarrow> 18)"
  by (cases a) (auto simp: udpgw_addr_ipv4_def udpgw_addr_ipv6_def bytes32_def bytes16_def)

text \<open>Every admitted datagram fits; it is dropped exactly when no buffer is free.\<close>

lemma sk_send_eq:
  assumes "sk_cons o' p = Some con" "writer_ok (nat (sk_socks_mtu o')) (sk_send_writer con)"
    and "baddr_wf remote" "length data \<le> sk_udp_mtu o'" "sk_socks_mtu o' = int (sk_udp_mtu o') + 22"
  shows "sk_connection_send p remote data o' =
    (if bw_out_have (sk_send_writer con)
     then Some (sk_con_set p (sk_sent (dns_checked remote data con)) o',
                [Sk_Datagram p (sk_prefix remote @ data)])
     else Some (sk_con_set p (dns_checked remote data con) o', []))"
proof -
  define con' where "con' = dns_checked remote data con"
  have con': "(if sk_dns_id con \<ge> 0 then do {
               new_dns_id \<leftarrow> get_dns_id remote data;
               Some (if new_dns_id \<noteq> sk_dns_id con then con\<lparr>sk_dns_id := - 1\<rparr> else con)
             } else Some con) = Some con'"
    using get_dns_id_wf [OF assms(3), of data] by (simp add: con'_def dns_checked_def)
  have w: "sk_send_writer con' = sk_send_writer con" by (simp add: con'_def dns_checked_def)
  define atyp where "atyp = (if baddr_type remote = 1 then SOCKS_ATYP_IPV4 else SOCKS_ATYP_IPV6)"
  let ?a = "udpgw_addr remote"
  have sz: "(case remote of BADDR_IPV4 _ _ \<Rightarrow> Some (SOCKS_ATYP_IPV4, 6)
           | BADDR_IPV6 _ _ \<Rightarrow> Some (SOCKS_ATYP_IPV6, 18)
           | BADDR_NONE \<Rightarrow> None) = Some (atyp, length ?a)"
    using assms(3) udpgw_addr_size [OF assms(3)] by (cases remote) (auto simp: atyp_def)
  have fit: "int (4 + length ?a + length data) \<le> sk_socks_mtu o'"
    using udpgw_addr_le [of remote] assms(4,5) by linarith
  show ?thesis
  proof (cases "bw_out_have (sk_send_writer con)")
    case False
    have "con'\<lparr>sk_send_writer := sk_send_writer con\<rparr> = con'" using w by (cases con') simp
    then have "sk_con_set p (con'\<lparr>sk_send_writer := sk_send_writer con\<rparr>) o' = sk_con_set p con' o'" by (rule arg_cong)
    then show ?thesis
      using False assms(1,2,4) fit unfolding con'_def [symmetric]
      by (simp add: sk_connection_send_def con' sz w BufferWriter_StartPacket_def writer_ok_def)
  next
    case True
    let ?w = "sk_send_writer con" and ?out = "bw_out (sk_send_writer con)" and ?h = "socks_udp_header 0 0 atyp"
    let ?all = "write_at (write_at (write_at ?out 0 ?h) 4 ?a) (4 + length ?a) data"
    have len: "length ?out = nat (sk_socks_mtu o')" "bw_d_mtu ?w = nat (sk_socks_mtu o')" "\<not> bw_d_writing ?w"
      using assms(2) True by (simp_all add: writer_ok_def)
    have f: "length ?h + length ?a + length data \<le> length ?out" using fit len(1) by simp
    have chain: "(memcpy_out 0 ?h ?out \<bind> (\<lambda>o1. memcpy_out 4 ?a o1 \<bind> (\<lambda>o2. memcpy_out (4 + length ?a) data o2)))
      = Some ?all"
      using memcpy_chain [of ?h ?out ?a data] f by simp
    have "sk_connection_send p remote data o' =
      (memcpy_out 0 ?h ?out \<bind> (\<lambda>o1. memcpy_out 4 ?a o1 \<bind> (\<lambda>o2. memcpy_out (4 + length ?a) data o2)))
       \<bind> (\<lambda>out. BufferWriter_EndPacket (4 + length ?a + length data) (?w\<lparr>bw_d_writing := True\<rparr>)
       \<bind> (\<lambda>(w, n). Some (sk_con_set p (con'\<lparr>sk_send_writer := w\<rparr>) o', [Sk_Datagram p (take n out)])))"
      using True assms(1,4) fit len
      by (simp add: sk_connection_send_def con' sz w BufferWriter_StartPacket_def
          put_addr_eq [OF assms(3)] del: put_addr.simps)
    moreover have "take (4 + length ?a + length data) ?all = sk_prefix remote @ data"
      using chain_written [OF f] by (simp add: sk_prefix_def atyp_def)
    ultimately show ?thesis
      unfolding chain using True len fit
      by (simp add: BufferWriter_EndPacket_def sk_sent_def con'_def [symmetric] w nat_le_iff)
  qed
qed

section \<open>The system\<close>

datatype sk_event =
    Sk_Submit sk_results baddr baddr "byte list"
  | Sk_First_Job
  | Sk_Writer_Recv nat "byte list"
  | Sk_Recv nat "byte list"
  | Sk_Socks nat bs_results bs_ev sk_sockets
  | Sk_Dgram_Error nat
  | Sk_Idle nat

text \<open>
  The client with what is known of its connections from outside: the datagrams the user has
  submitted to each, the bytes its SOCKS server has sent, and the address its socket was bound to.
\<close>

record sk_sys =
  sks_client :: SocksUdpClient
  sks_log :: "nat \<Rightarrow> (baddr \<times> byte list) list"
  sks_in :: "nat \<Rightarrow> byte list"
  sks_bound :: "nat \<Rightarrow> baddr option"

fun sk_unused_mem :: "SocksUdpClient \<Rightarrow> nat option \<Rightarrow> bool" where
  "sk_unused_mem o' None = True"
| "sk_unused_mem o' (Some p) = (sk_cons o' p = None)"

fun sk_writer_empty :: "SocksUdpClient_connection option \<Rightarrow> bool" where
  "sk_writer_empty None = False"
| "sk_writer_empty (Some con) = (\<not> bw_out_have (sk_send_writer con))"

definition bs_view :: "BSocksClient \<Rightarrow> bs_sys" where
  "bs_view c = \<lparr>sys_client = c, sys_in = [], sys_out = [], sys_error = False, sys_resource = False\<rparr>"

fun is_set_dest :: "bs_ev \<Rightarrow> bool" where
  "is_set_dest (Set_Dest a) = True"
| "is_set_dest _ = False"

fun socks_can :: "bs_ev \<Rightarrow> SocksUdpClient_connection option \<Rightarrow> bool" where
  "socks_can ev None = False"
| "socks_can ev (Some con) = (\<not> is_set_dest ev \<and> bs_enabled ev (bs_view (sk_socks con)))"

fun bound_wf :: "baddr option \<Rightarrow> bool" where
  "bound_wf None = True"
| "bound_wf (Some a) = dest_wf a"

fun sk_enabled :: "sk_event \<Rightarrow> SocksUdpClient \<Rightarrow> bool" where
  "sk_enabled (Sk_Submit r local remote data) o' =
     (sk_unused_mem o' (kr_mem r) \<and> baddr_wf local \<and> baddr_wf remote \<and> length data \<le> sk_udp_mtu o')"
| "sk_enabled Sk_First_Job o' = (sk_jobs o' \<noteq> [])"
| "sk_enabled (Sk_Writer_Recv p out) o' =
     (sk_writer_empty (sk_cons o' p) \<and> length out = nat (sk_socks_mtu o'))"
| "sk_enabled (Sk_Recv p data) o' = (sk_cons o' p \<noteq> None \<and> int (length data) \<le> sk_socks_mtu o')"
| "sk_enabled (Sk_Socks p r ev os) o' = (socks_can ev (sk_cons o' p) \<and> bound_wf (ks_bound os))"
| "sk_enabled (Sk_Dgram_Error p) o' = (sk_cons o' p \<noteq> None)"
| "sk_enabled (Sk_Idle p) o' = (sk_cons o' p \<noteq> None)"

text \<open>The handler is called for each event a call of the SOCKS client reports.\<close>

fun sk_handle :: "sk_sockets \<Rightarrow> nat \<Rightarrow> socks_event list \<Rightarrow> SocksUdpClient \<Rightarrow> (SocksUdpClient \<times> sk_act list) option" where
  "sk_handle os p [] o' = Some (o', [])"
| "sk_handle os p (e # es) o' = do {
     (o', acts) \<leftarrow> sk_socks_state_handler os p e o';
     (o', acts') \<leftarrow> sk_handle os p es o';
     Some (o', acts @ acts') }"

fun sk_step :: "sk_event \<Rightarrow> SocksUdpClient \<Rightarrow> (SocksUdpClient \<times> sk_act list) option" where
  "sk_step (Sk_Submit r local remote data) o' = SocksUdpClient_SubmitPacket r local remote data o'"
| "sk_step Sk_First_Job o' =
     (case sk_jobs o' of [] \<Rightarrow> None
      | p # ps \<Rightarrow> sk_first_job_handler p (o'\<lparr>sk_jobs := ps\<rparr>))"
| "sk_step (Sk_Writer_Recv p out) o' = do {
     con \<leftarrow> sk_cons o' p;
     w \<leftarrow> bw_output_handler_recv out (sk_send_writer con);
     Some (sk_con_set p (con\<lparr>sk_send_writer := w\<rparr>) o', [])
   }"
| "sk_step (Sk_Recv p data) o' = sk_recv_if_handler_send p data o'"
| "sk_step (Sk_Socks p r ev os) o' = do {
     con \<leftarrow> sk_cons o' p;
     (c, acts) \<leftarrow> bs_call r ev (sk_socks con);
     sk_handle os p (events_of acts) (sk_con_set p (con\<lparr>sk_socks := c\<rparr>) o')
   }"
| "sk_step (Sk_Dgram_Error p) o' = do { o' \<leftarrow> datagram_state_handler p True o'; Some (o', []) }"
| "sk_step (Sk_Idle p) o' = do { o' \<leftarrow> send_monitor_handler p o'; Some (o', []) }"

fun new_con :: "sk_event \<Rightarrow> SocksUdpClient \<Rightarrow> nat option" where
  "new_con (Sk_Submit r local remote data) o' =
     (if sk_find_connection o' local = None then kr_mem r else None)"
| "new_con _ o' = None"

fun sk_log_after :: "sk_event \<Rightarrow> SocksUdpClient \<Rightarrow> (nat \<Rightarrow> (baddr \<times> byte list) list) \<Rightarrow> nat \<Rightarrow> (baddr \<times> byte list) list" where
  "sk_log_after (Sk_Submit r local remote data) o' lg =
     (case sk_find_connection o' local of
        Some p \<Rightarrow> lg(p := lg p @ [(remote, data)])
      | None \<Rightarrow> (case kr_mem r of None \<Rightarrow> lg | Some p \<Rightarrow> lg(p := [(remote, data)])))"
| "sk_log_after _ o' lg = lg"

fun sk_in_after :: "sk_event \<Rightarrow> SocksUdpClient \<Rightarrow> (nat \<Rightarrow> byte list) \<Rightarrow> nat \<Rightarrow> byte list" where
  "sk_in_after (Sk_Socks p r ev os) o' inp = inp(p := inp p @ ev_in ev)"
| "sk_in_after ev o' inp = (case new_con ev o' of None \<Rightarrow> inp | Some p \<Rightarrow> inp(p := []))"

fun sk_bound_after :: "sk_event \<Rightarrow> (nat \<Rightarrow> baddr option) \<Rightarrow> nat \<Rightarrow> baddr option" where
  "sk_bound_after (Sk_Socks p r (Connector e) os) bd = bd(p := ks_bound os)"
| "sk_bound_after _ bd = bd"

definition sks_step :: "sk_event \<Rightarrow> sk_sys \<Rightarrow> (sk_sys \<times> sk_act list) option" where
  "sks_step ev s = do {
     (o', acts) \<leftarrow> sk_step ev (sks_client s);
     Some (\<lparr>sks_client = o', sks_log = sk_log_after ev (sks_client s) (sks_log s),
            sks_in = sk_in_after ev (sks_client s) (sks_in s), sks_bound = sk_bound_after ev (sks_bound s)\<rparr>, acts)
   }"

inductive sk_reachable :: "sk_sys \<Rightarrow> bool" where
  init: "SocksUdpClient_Init udp_mtu max_connections send_buf_size server auth = Some (Some o') \<Longrightarrow>
         server \<noteq> BADDR_NONE \<Longrightarrow> int udp_mtu \<le> INT_MAX \<Longrightarrow>
         sk_reachable \<lparr>sks_client = o', sks_log = lg, sks_in = inp, sks_bound = bd\<rparr>"
| step: "sk_reachable s \<Longrightarrow> sk_enabled ev (sks_client s) \<Longrightarrow> sks_step ev s = Some (s', acts) \<Longrightarrow> sk_reachable s'"

section \<open>The invariant\<close>

fun first_ok :: "nat \<Rightarrow> (baddr \<times> byte list) list \<Rightarrow> baddr \<Rightarrow> byte list option \<Rightarrow> bool" where
  "first_ok mtu lg remote None = True"
| "first_ok mtu lg remote (Some d) = (length d \<le> mtu \<and> (remote, d) \<in> set lg)"

definition socks_ok ::
  "BSocksClient_auth_info list \<Rightarrow> byte list \<Rightarrow> baddr option \<Rightarrow> baddr option \<Rightarrow> BSocksClient \<Rightarrow> bool" where
  "socks_ok auth inp bound send_addr c =
     ((\<exists>out. bs_inv c inp out) \<and> bs_auth_info c = auth \<and> bs_udp c
      \<and> send_addr = (if bs_state c = STATE_UP then Some (bs_bind_addr c) else None)
      \<and> (bs_state c \<noteq> STATE_CONNECTING \<longrightarrow> bound = Some (bs_dest_addr c)))"

definition dns_ok :: "(baddr \<times> byte list) list \<Rightarrow> int \<Rightarrow> bool" where
  "dns_ok lg i = (i \<ge> 0 \<longrightarrow> (\<forall>(remote, data) \<in> set lg. baddr_wf remote \<and> dns_of remote data = i))"

definition sk_con_ok ::
  "nat \<Rightarrow> BSocksClient_auth_info list \<Rightarrow> (baddr \<times> byte list) list \<Rightarrow> byte list \<Rightarrow> baddr option
    \<Rightarrow> SocksUdpClient_connection \<Rightarrow> bool" where
  "sk_con_ok mtu auth lg inp bound con =
     (baddr_wf (sk_local_addr con) \<and> baddr_wf (sk_first_remote_addr con)
      \<and> writer_ok (mtu + 22) (sk_send_writer con)
      \<and> first_ok mtu lg (sk_first_remote_addr con) (sk_first_data con)
      \<and> socks_ok auth inp bound (sk_send_addr con) (sk_socks con) \<and> dns_ok lg (sk_dns_id con) \<and> lg \<noteq> [])"

fun has_first :: "SocksUdpClient_connection option \<Rightarrow> bool" where
  "has_first None = False"
| "has_first (Some con) = (sk_first_data con \<noteq> None)"

definition sk_inv ::
  "SocksUdpClient \<Rightarrow> (nat \<Rightarrow> (baddr \<times> byte list) list) \<Rightarrow> (nat \<Rightarrow> byte list) \<Rightarrow> (nat \<Rightarrow> baddr option) \<Rightarrow> bool" where
  "sk_inv o' lg inp bd =
     (key_sorted (sk_tree o') \<and> tree_ok sk_local_addr (sk_cons o') (map_of (sk_tree o'))
      \<and> sk_num_connections o' = length (sk_tree o') \<and> length (sk_tree o') \<le> sk_max_connections o'
      \<and> sk_socks_mtu o' = int (sk_udp_mtu o') + 22 \<and> sk_server_addr o' \<noteq> BADDR_NONE
      \<and> (\<forall>p con. sk_cons o' p = Some con \<longrightarrow> sk_con_ok (sk_udp_mtu o') (sk_auth_info o') (lg p) (inp p) (bd p) con)
      \<and> distinct (sk_jobs o') \<and> (\<forall>p \<in> set (sk_jobs o'). has_first (sk_cons o' p)))"

lemma sk_invD:
  assumes "sk_inv o' lg inp bd"
  shows "key_sorted (sk_tree o')" "tree_ok sk_local_addr (sk_cons o') (map_of (sk_tree o'))"
    "sk_num_connections o' = length (sk_tree o')" "length (sk_tree o') \<le> sk_max_connections o'"
    "sk_socks_mtu o' = int (sk_udp_mtu o') + 22" "sk_server_addr o' \<noteq> BADDR_NONE"
    "\<And>p con. sk_cons o' p = Some con \<Longrightarrow> sk_con_ok (sk_udp_mtu o') (sk_auth_info o') (lg p) (inp p) (bd p) con"
    "distinct (sk_jobs o')" "\<And>p. p \<in> set (sk_jobs o') \<Longrightarrow> has_first (sk_cons o' p)"
  using assms unfolding sk_inv_def by blast+

lemma sk_con_set_simps [simp]:
  "sk_cons (sk_con_set p con o') = (sk_cons o')(p \<mapsto> con)"
  "sk_jobs (sk_con_set p con o') = sk_jobs o'" "sk_tree (sk_con_set p con o') = sk_tree o'"
  "sk_udp_mtu (sk_con_set p con o') = sk_udp_mtu o'" "sk_socks_mtu (sk_con_set p con o') = sk_socks_mtu o'"
  "sk_num_connections (sk_con_set p con o') = sk_num_connections o'"
  "sk_max_connections (sk_con_set p con o') = sk_max_connections o'"
  "sk_server_addr (sk_con_set p con o') = sk_server_addr o'" "sk_auth_info (sk_con_set p con o') = sk_auth_info o'"
  by (simp_all add: sk_con_set_def)

lemma sk_con_set_inv:
  assumes "sk_inv o' lg inp bd" "sk_cons o' p = Some con" "sk_local_addr con' = sk_local_addr con"
    and "sk_con_ok (sk_udp_mtu o') (sk_auth_info o') l i b con'"
    and "p \<in> set (sk_jobs o') \<Longrightarrow> sk_first_data con' \<noteq> None"
  shows "sk_inv (sk_con_set p con' o') (lg(p := l)) (inp(p := i)) (bd(p := b))"
proof -
  note i = sk_invD [OF assms(1)]
  have "tree_ok sk_local_addr ((sk_cons o')(p \<mapsto> con')) (map_of (sk_tree o'))"
    using tree_ok_update [OF i(2) assms(2,3)] .
  moreover have "has_first (((sk_cons o')(p \<mapsto> con')) q)" if "q \<in> set (sk_jobs o')" for q
    using i(9) [OF that] assms(5) that by auto
  ultimately show ?thesis using i assms(4) unfolding sk_inv_def by auto
qed

lemma sk_free_ok:
  assumes "sk_inv o' lg inp bd" "sk_cons o' p = Some con" "sk_local_addr con' = sk_local_addr con"
    and "bs_io (sk_socks con') = io_of (bs_state (sk_socks con'))"
  obtains o'' where "sk_connection_free p (sk_con_set p con' o') = Some o''" "sk_cons o'' = (sk_cons o')(p := None)"
    "\<And>l i b. sk_inv o'' (lg(p := l)) (inp(p := i)) (bd(p := b))"
proof -
  note i = sk_invD [OF assms(1)]
  have m: "map_of (sk_tree o') (sk_local_addr con) = Some p" using tree_ok_lookup [OF i(2) assms(2)] .
  obtain t where t: "sk_tree_remove (sk_local_addr con) p (sk_tree o') = Some t" "key_sorted t"
      "map_of t = (map_of (sk_tree o'))(sk_local_addr con := None)" "length (sk_tree o') = Suc (length t)"
    by (rule sk_tree_remove_ok [OF i(1) m])
  have f: "BSocksClient_Free (sk_socks con') \<noteq> None"
    using assms(4)
    by (cases "bs_state (sk_socks con')")
       (simp_all add: BSocksClient_Free_def free_up_io_def free_control_io_def)
  define o'' where "o'' = o'\<lparr>sk_num_connections := sk_num_connections o' - 1, sk_tree := t,
              sk_jobs := filter (\<lambda>q. q \<noteq> p) (sk_jobs o'), sk_cons := (sk_cons o')(p := None)\<rparr>"
  have e: "sk_connection_free p (sk_con_set p con' o') = Some o''"
    using f t(1,4) i(3) assms(3) by (auto simp: sk_connection_free_def o''_def sk_con_set_def)
  have "tree_ok sk_local_addr (sk_cons o'') (map_of (sk_tree o''))"
    using tree_ok_remove [OF i(2) assms(2)] t(3) by (simp add: o''_def)
  then have "sk_inv o'' (lg(p := l)) (inp(p := i)) (bd(p := b))" for l i b
    using i t unfolding sk_inv_def by (auto simp: o''_def)
  then show thesis using that e by (simp add: o''_def)
qed

lemma sk_init_mtu:
  assumes "0 \<le> m" "m \<le> INT_MAX"
  shows "compute_socks_mtu m = (if m + 22 > INT_MAX then - 1 else m + 22)"
proof -
  let ?w = "of_int m :: 64 word"
  have m: "uint ?w = m"
    using assms by (simp add: INT_MAX_def unsigned_of_int take_bit_int_eq_self_iff)
  have fi: "bsize_fromint m = \<lparr>is_overflow = False, bs_value = ?w\<rparr>"
    using assms by (simp add: bsize_fromint_def size_constants INT_MAX_def)
  have c: "bsize_add (bsize_fromsize 4) (bsize_fromsize 18) = \<lparr>is_overflow = False, bs_value = 22\<rparr>"
    by code_simp
  have s: "uint (SIZE_MAX - ?w) = uint SIZE_MAX - uint ?w"
    using assms by (subst uint_sub_lem [THEN iffD1]) (auto simp: m size_constants INT_MAX_def)
  have o1: "\<not> SIZE_MAX - ?w < 22"
    using assms by (simp add: word_less_def s m size_constants INT_MAX_def)
  have b: "uint (?w + 22) = m + 22"
    using assms by (subst uint_add_lem [THEN iffD1]) (auto simp: m INT_MAX_def)
  show ?thesis
    unfolding compute_socks_mtu_def Let_def c fi using o1
    by (simp add: bsize_add_def bsize_toint_def b)
qed

lemma sk_init_inv:
  assumes "SocksUdpClient_Init mtu mx sz server auth = Some (Some o')" "server \<noteq> BADDR_NONE" "int mtu \<le> INT_MAX"
  shows "sk_inv o' lg inp bd"
  using assms sk_init_mtu [OF _ assms(3)]
  by (auto simp: SocksUdpClient_Init_def sk_inv_def tree_ok_def key_sorted_def Let_def split: if_splits)

section \<open>Every event keeps the invariant\<close>

lemma sk_inv_jobs:
  assumes "sk_inv o' lg inp bd" "sk_jobs o' = p # ps"
  shows "sk_inv (o'\<lparr>sk_jobs := ps\<rparr>) lg inp bd" "has_first (sk_cons o' p)" "p \<notin> set ps"
  using assms unfolding sk_inv_def by auto

lemma sk_inv_unused:
  "sk_inv o' lg inp bd \<Longrightarrow> sk_cons o' p = None \<Longrightarrow> sk_inv o' (lg(p := l)) (inp(p := i)) bd"
  unfolding sk_inv_def by auto

lemma dns_checked_ok:
  assumes "dns_ok lg (sk_dns_id con)" "baddr_wf remote" "set l = insert (remote, data) (set lg)"
  shows "dns_ok l (sk_dns_id (dns_checked remote data con))"
  using assms by (auto simp: dns_ok_def dns_checked_def)

lemma sk_send_keeps:
  assumes "sk_inv o' lg inp bd" "sk_cons o' p = Some con" "baddr_wf remote" "length data \<le> sk_udp_mtu o'"
    and "set l = insert (remote, data) (set (lg p))"
  obtains con' acts where "sk_connection_send p remote data o' = Some (sk_con_set p con' o', acts)"
    "sk_inv (sk_con_set p con' o') (lg(p := l)) inp bd"
proof -
  note i = sk_invD [OF assms(1)]
  have ok: "sk_con_ok (sk_udp_mtu o') (sk_auth_info o') (lg p) (inp p) (bd p) con" using i(7) [OF assms(2)] .
  have w: "writer_ok (nat (sk_socks_mtu o')) (sk_send_writer con)"
    using ok i(5) by (simp add: sk_con_ok_def nat_add_distrib)
  define con' where "con' = (if bw_out_have (sk_send_writer con) then sk_sent (dns_checked remote data con)
      else dns_checked remote data con)"
  have same: "sk_local_addr con' = sk_local_addr con" "sk_first_data con' = sk_first_data con"
    "sk_first_remote_addr con' = sk_first_remote_addr con" "sk_socks con' = sk_socks con"
    "sk_send_addr con' = sk_send_addr con" "sk_dns_id con' = sk_dns_id (dns_checked remote data con)"
    by (simp_all add: con'_def sk_sent_def dns_checked_def)
  have w': "writer_ok (sk_udp_mtu o' + 22) (sk_send_writer con')"
    using ok by (auto simp: con'_def sk_sent_def dns_checked_def sk_con_ok_def writer_ok_def)
  have "first_ok (sk_udp_mtu o') l (sk_first_remote_addr con') (sk_first_data con')"
    using ok assms(5) same by (cases "sk_first_data con") (auto simp: sk_con_ok_def)
  moreover have "dns_ok l (sk_dns_id con')"
    using dns_checked_ok [OF _ assms(3,5)] ok same by (simp add: sk_con_ok_def)
  ultimately have "sk_con_ok (sk_udp_mtu o') (sk_auth_info o') l (inp p) (bd p) con'"
    using ok w' same assms(5) by (auto simp: sk_con_ok_def)
  then have "sk_inv (sk_con_set p con' o') (lg(p := l)) (inp(p := inp p)) (bd(p := bd p))"
    by (rule sk_con_set_inv [OF assms(1,2) same(1)]) (use i(9) [of p] assms(2) same in simp)
  then show thesis
    using that sk_send_eq [OF assms(2) w assms(3,4) i(5)] unfolding con'_def by (auto split: if_splits)
qed

lemma sk_first_job_keeps:
  assumes "sk_inv o' lg inp bd" "sk_jobs o' = p # ps"
  shows "\<exists>o'' acts. sk_first_job_handler p (o'\<lparr>sk_jobs := ps\<rparr>) = Some (o'', acts) \<and> sk_inv o'' lg inp bd"
proof -
  let ?o = "o'\<lparr>sk_jobs := ps\<rparr>"
  note j = sk_inv_jobs [OF assms]
  obtain con d where c: "sk_cons ?o p = Some con" "sk_first_data con = Some d"
    using j(2) by (cases "sk_cons o' p") auto
  have ok: "sk_con_ok (sk_udp_mtu ?o) (sk_auth_info ?o) (lg p) (inp p) (bd p) con" using sk_invD(7) [OF j(1) c(1)] .
  have d: "length d \<le> sk_udp_mtu ?o" "baddr_wf (sk_first_remote_addr con)"
    "set (lg p) = insert (sk_first_remote_addr con, d) (set (lg p))"
    using ok c(2) by (auto simp: sk_con_ok_def)
  obtain con' acts where s: "sk_connection_send p (sk_first_remote_addr con) d ?o = Some (sk_con_set p con' ?o, acts)"
      "sk_inv (sk_con_set p con' ?o) (lg(p := lg p)) inp bd"
    by (rule sk_send_keeps [OF j(1) c(1) d(2,1,3)])
  let ?c = "con'\<lparr>sk_first_data := None\<rparr>" and ?o1 = "sk_con_set p con' ?o"
  have c1: "sk_cons ?o1 p = Some con'" by simp
  have "sk_con_ok (sk_udp_mtu ?o1) (sk_auth_info ?o1) (lg p) (inp p) (bd p) con'"
    using sk_invD(7) [OF s(2) c1] by simp
  then have "sk_con_ok (sk_udp_mtu ?o1) (sk_auth_info ?o1) (lg p) (inp p) (bd p) ?c" by (simp add: sk_con_ok_def)
  then have "sk_inv (sk_con_set p ?c ?o1) ((lg(p := lg p))(p := lg p)) (inp(p := inp p)) (bd(p := bd p))"
    by (rule sk_con_set_inv [OF s(2) c1, rotated]) (use j(3) in simp_all)
  then show ?thesis using c s(1) by (simp add: sk_first_job_handler_def)
qed

lemma sk_init_keeps:
  assumes "sk_inv o' lg inp bd" "sk_unused_mem o' (kr_mem r)" "baddr_wf local" "baddr_wf remote"
    and "length data \<le> sk_udp_mtu o'" "sk_find_connection o' local = None"
    and "sk_num_connections o' < sk_max_connections o'"
  shows "\<exists>o''. sk_connection_init r local remote data o' = Some o''
    \<and> sk_inv o'' (case kr_mem r of None \<Rightarrow> lg | Some p \<Rightarrow> lg(p := [(remote, data)]))
         (case kr_mem r of None \<Rightarrow> inp | Some p \<Rightarrow> inp(p := [])) bd"
proof (cases "kr_mem r")
  case None
  then show ?thesis using assms by (simp add: sk_connection_init_def)
next
  case (Some p)
  note i = sk_invD [OF assms(1)]
  have p: "sk_cons o' p = None" "(sk_cons o')(p := None) = sk_cons o'" using assms(2) Some by (auto simp: fun_upd_idem)
  have pj: "p \<notin> set (sk_jobs o')" using i(9) [of p] p(1) by auto
  have fj: "filter (\<lambda>q. q \<noteq> p) (sk_jobs o') = sk_jobs o'" using pj by (auto simp: filter_id_conv)
  have noop: "o'\<lparr>sk_jobs := sk_jobs o', sk_cons := sk_cons o'\<rparr> = o'" "o'\<lparr>sk_cons := sk_cons o'\<rparr> = o'" by simp_all
  have inv: "sk_inv o' (lg(p := [(remote, data)])) (inp(p := [])) bd" using sk_inv_unused [OF assms(1) p(1)] .
  have nl: "map_of (sk_tree o') local = None" using assms(6) by (simp add: sk_find_connection_def sk_tree_lookup_eq)
  obtain t where t: "sk_tree_insert local p (sk_tree o') = Some t" "key_sorted t"
      "map_of t = (map_of (sk_tree o'))(local \<mapsto> p)" "length t = Suc (length (sk_tree o'))"
    by (rule sk_tree_insert_ok [OF i(1) nl])
  define socks where "socks = \<lparr>bs_auth_info = sk_auth_info o', bs_dest_addr = BADDR_NONE, bs_udp = True,
      bs_bind_type = 0, bs_bind_addr = BADDR_NONE, bs_state = STATE_CONNECTING, bs_buffer = None,
      bs_continue_job = False, bs_io = No_io, bs_send_busy = False, bs_recv_busy = False,
      bs_recv_dest = 0, bs_recv_len = 0, bs_recv_total = 0\<rparr>"
  have so: "BSocksClient_Init c (sk_server_addr o') (sk_auth_info o') BADDR_NONE True = Some (if c then Some socks else None)" for c
    using i(6) by (simp add: BSocksClient_Init_def socks_def)
  have fr: "BSocksClient_Free socks \<noteq> None" by (simp add: BSocksClient_Free_def socks_def)
  define con where "con = \<lparr>sk_local_addr = local, sk_socks = socks,
      sk_send_writer = BufferWriter_Init (nat (sk_socks_mtu o')), sk_send_addr = None,
      sk_first_data = Some data, sk_first_remote_addr = remote, sk_dns_id = dns_of remote data\<rparr>"
  define o2 where "o2 = (sk_con_set p con (o'\<lparr>sk_jobs := p # sk_jobs o'\<rparr>))
      \<lparr>sk_tree := t, sk_num_connections := sk_num_connections o' + 1\<rparr>"
  have e: "sk_connection_init r local remote data o' =
      Some (if kr_data_ok r \<and> kr_dgram_ok r \<and> kr_connector_ok r \<and> kr_buffer_ok r \<and> kr_recv_buffer_ok r then o2 else o')"
    using Some assms(4,6,7) p(2) fj fr t(1) noop
    by (auto simp: sk_connection_init_def get_dns_id_wf so Let_def con_def o2_def)
  have "\<exists>out. bs_inv socks [] out" by (auto simp: bs_inv_def socks_def dest_wf_def)
  then have "socks_ok (sk_auth_info o') [] (bd p) None socks" by (simp add: socks_ok_def socks_def)
  moreover have "writer_ok (sk_udp_mtu o' + 22) (BufferWriter_Init (nat (sk_socks_mtu o')))"
    using i(5) by (simp add: writer_ok_def BufferWriter_Init_def nat_add_distrib)
  ultimately have "sk_con_ok (sk_udp_mtu o') (sk_auth_info o') [(remote, data)] [] (bd p) con"
    using assms(3-5) by (simp add: sk_con_ok_def con_def dns_ok_def)
  moreover have "tree_ok sk_local_addr ((sk_cons o')(p \<mapsto> con)) (map_of t)"
    using tree_ok_insert [OF i(2) p(1), of con] assms(6) t(3)
    by (simp add: con_def sk_find_connection_def sk_tree_lookup_eq)
  moreover have "has_first (((sk_cons o')(p \<mapsto> con)) q)" if "q \<in> set (p # sk_jobs o')" for q
    using i(9) [of q] that by (auto simp: con_def)
  ultimately have "sk_inv o2 (lg(p := [(remote, data)])) (inp(p := [])) bd"
    using i t(2,4) pj assms(7) unfolding sk_inv_def o2_def by auto
  then show ?thesis using e inv Some by auto
qed

lemma sk_submit_keeps:
  assumes "sk_inv o' lg inp bd" "sk_enabled (Sk_Submit r local remote data) o'"
  shows "\<exists>o'' acts. SocksUdpClient_SubmitPacket r local remote data o' = Some (o'', acts)
    \<and> sk_inv o'' (sk_log_after (Sk_Submit r local remote data) o' lg)
         (sk_in_after (Sk_Submit r local remote data) o' inp) bd"
proof (cases "sk_find_connection o' local")
  case (Some p)
  note i = sk_invD [OF assms(1)]
  obtain con where c: "sk_cons o' p = Some con"
    using Some tree_okD [OF i(2)] by (auto simp: sk_find_connection_def sk_tree_lookup_eq)
  have e: "baddr_wf remote" "length data \<le> sk_udp_mtu o'" "baddr_wf local" using assms(2) by auto
  obtain con' acts where "sk_connection_send p remote data o' = Some (sk_con_set p con' o', acts)"
    "sk_inv (sk_con_set p con' o') (lg(p := lg p @ [(remote, data)])) inp bd"
    by (rule sk_send_keeps [OF assms(1) c e(1,2), of "lg p @ [(remote, data)]"]) auto
  then show ?thesis
    using Some e by (auto simp: SocksUdpClient_SubmitPacket_def baddr_wf_ip)
next
  case None
  have e: "baddr_wf remote" "length data \<le> sk_udp_mtu o'" "baddr_wf local" "sk_unused_mem o' (kr_mem r)"
    using assms(2) by auto
  show ?thesis
  proof (cases "sk_num_connections o' < sk_max_connections o'")
    case True
    then show ?thesis
      using sk_init_keeps [OF assms(1) e(4,3,1,2) None True] None e
      by (auto simp: SocksUdpClient_SubmitPacket_def baddr_wf_ip)
  next
    case False
    then show ?thesis
      using None e assms(1) sk_inv_unused [OF assms(1)]
      by (cases "kr_mem r") (auto simp: SocksUdpClient_SubmitPacket_def baddr_wf_ip)
  qed
qed

end
