(* ===== verification/SocksUdpClientProps.thy ===== *)
theory SocksUdpClientProps
  imports SocksUdpClientInv
begin

text \<open>
  The properties of the SOCKS5 UDP client: every event keeps the invariant, also when the SOCKS
  client of a connection reports to it, and what follows for all runs.
\<close>

section \<open>The events of a SOCKS client\<close>

lemma act_error_events:
  "list_ex act_error acts \<longleftrightarrow> EVENT_ERROR \<in> set (events_of acts) \<or> EVENT_ERROR_CLOSED \<in> set (events_of acts)"
proof (induction acts)
  case (Cons a acts)
  then show ?case
  proof (cases a)
    case (Bs_Event e)
    then show ?thesis using Cons by (cases e) auto
  qed auto
qed simp

lemma bs_enabled_view:
  "\<not> sys_error s \<Longrightarrow> bs_enabled ev s = bs_enabled ev (bs_view (sys_client s))"
  by (cases ev) (simp_all add: bs_view_def)

lemma sk_handle_error:
  assumes "e = EVENT_ERROR \<or> e = EVENT_ERROR_CLOSED" "sk_connection_free p o' = Some o''"
  shows "sk_handle os p [e] o' = Some (o'', [])"
  using assms by (auto simp: sk_socks_state_handler_def)

text \<open>Before an event that is not an error the client was not up, and it was connected.\<close>

lemma before_event:
  assumes "bs_inv c inp out" "bs_enabled ev (bs_view c)" "\<not> is_set_dest ev" "bs_call r ev c = Some (c', acts)"
    and "\<not> list_ex act_error acts"
  shows "bs_state c \<noteq> STATE_UP" "\<not> is_connector ev \<Longrightarrow> bs_state c \<noteq> STATE_CONNECTING"
  using assms
  by (cases ev; auto simp: bs_view_def bs_inv_def connection_handler_def bs_report_error_def assert_that_def
      split: if_splits)+

lemma bs_inv_set_dest:
  "bs_inv c inp out \<Longrightarrow> bs_state c = STATE_CONNECTED_HANDLER \<Longrightarrow> dest_wf a \<Longrightarrow> bs_inv (c\<lparr>bs_dest_addr := a\<rparr>) inp out"
  by (simp add: bs_inv_def)

lemma sk_con_set_twice: "sk_con_set p c1 (sk_con_set p c2 o') = sk_con_set p c1 o'"
  by (simp add: sk_con_set_def)

text \<open>The two outcomes for a connection whose SOCKS client has become \<open>c'\<close>: freed, or changed.\<close>

lemma sk_free_keeps:
  assumes "sk_inv o' lg inp bd" "sk_cons o' p = Some con" "bs_io c' = io_of (bs_state c')"
  shows "\<exists>o''. sk_connection_free p (sk_con_set p (con\<lparr>sk_socks := c'\<rparr>) o') = Some o''
    \<and> sk_inv o'' lg (inp(p := i)) (bd(p := b))"
proof -
  have io: "bs_io (sk_socks (con\<lparr>sk_socks := c'\<rparr>)) = io_of (bs_state (sk_socks (con\<lparr>sk_socks := c'\<rparr>)))"
    using assms(3) by simp
  obtain o'' where f: "sk_connection_free p (sk_con_set p (con\<lparr>sk_socks := c'\<rparr>) o') = Some o''"
      "\<And>l i b. sk_inv o'' (lg(p := l)) (inp(p := i)) (bd(p := b))"
    by (rule sk_free_ok [OF assms(1,2) _ io]) auto
  have "sk_inv o'' (lg(p := lg p)) (inp(p := i)) (bd(p := b))" by (rule f(2))
  then show ?thesis using f(1) by simp
qed

lemma sk_change_keeps:
  assumes "sk_inv o' lg inp bd" "sk_cons o' p = Some con"
    and "socks_ok (sk_auth_info o') i b a c'"
  shows "sk_inv (sk_con_set p (con\<lparr>sk_socks := c', sk_send_addr := a\<rparr>) o') lg (inp(p := i)) (bd(p := b))"
proof -
  have "sk_con_ok (sk_udp_mtu o') (sk_auth_info o') (lg p) i b (con\<lparr>sk_socks := c', sk_send_addr := a\<rparr>)"
    using sk_invD(7) [OF assms(1,2)] assms(3) by (simp add: sk_con_ok_def)
  then have "sk_inv (sk_con_set p (con\<lparr>sk_socks := c', sk_send_addr := a\<rparr>) o')
      (lg(p := lg p)) (inp(p := i)) (bd(p := b))"
    by (rule sk_con_set_inv [OF assms(1,2), rotated])
       (use sk_invD(9) [OF assms(1), of p] assms(2) in simp_all)
  then show ?thesis by simp
qed

lemma sk_connected_keeps:
  assumes "sk_inv o' lg inp bd" "sk_cons o' p = Some con" "bs_inv c' i out" "bs_state c' = STATE_CONNECTED_HANDLER"
    and "bs_auth_info c' = sk_auth_info o'" "bs_udp c'" "sk_send_addr con = None" "bound_wf (ks_bound os)"
  shows "\<exists>o'' acts. sk_connected os p (sk_con_set p (con\<lparr>sk_socks := c'\<rparr>) o') = Some (o'', acts)
    \<and> sk_inv o'' lg (inp(p := i)) (bd(p := ks_bound os))"
proof (cases "\<exists>a b. ks_tcp_local os = Some a \<and> is_ip_baddr a \<and> ks_bind_ok os \<and> ks_bound os = Some b")
  case False
  have "bs_io c' = io_of (bs_state c')" using assms(3) by (simp add: bs_inv_def)
  then obtain o'' where f: "sk_connection_free p (sk_con_set p (con\<lparr>sk_socks := c'\<rparr>) o') = Some o''"
      "sk_inv o'' lg (inp(p := i)) (bd(p := ks_bound os))"
    using sk_free_keeps [OF assms(1,2)] by blast
  then show ?thesis
  proof (cases "ks_tcp_local os")
    case (Some a)
    then show ?thesis using f False by (cases a; cases "ks_bound os") (auto simp: sk_connected_def is_ip_baddr_def)
  qed (use f in \<open>simp add: sk_connected_def\<close>)
next
  case True
  then obtain a b where k: "ks_tcp_local os = Some a" "is_ip_baddr a" "ks_bind_ok os" "ks_bound os = Some b"
    by blast
  let ?c = "c'\<lparr>bs_dest_addr := b\<rparr>" and ?o1 = "sk_con_set p (con\<lparr>sk_socks := c'\<rparr>) o'"
  have "bs_inv ?c i out" using bs_inv_set_dest [OF assms(3,4)] assms(8) k(4) by simp
  then have "socks_ok (sk_auth_info o') i (ks_bound os) None ?c"
    using assms(4-6) k(4) by (auto simp: socks_ok_def)
  then have inv: "sk_inv (sk_con_set p (con\<lparr>sk_socks := ?c, sk_send_addr := None\<rparr>) o') lg (inp(p := i)) (bd(p := ks_bound os))"
    by (rule sk_change_keeps [OF assms(1,2)])
  have eq: "sk_con_set p (con\<lparr>sk_socks := ?c\<rparr>) ?o1 = sk_con_set p (con\<lparr>sk_socks := ?c, sk_send_addr := None\<rparr>) o'"
    using assms(7) by (cases con) (simp add: sk_con_set_twice)
  obtain a' where "BAddr_SetPort 0 a = Some a'" using k(2) by (cases a) (auto simp: is_ip_baddr_def)
  then show ?thesis
    using k assms(4) inv eq by (simp add: sk_connected_def BSocksClient_SetDestAddr_def)
qed

lemma sk_socks_keeps:
  assumes "sk_inv o' lg inp bd" "sk_enabled (Sk_Socks p r ev os) o'"
  shows "\<exists>o'' acts. sk_step (Sk_Socks p r ev os) o' = Some (o'', acts)
    \<and> sk_inv o'' lg (inp(p := inp p @ ev_in ev)) (sk_bound_after (Sk_Socks p r ev os) bd)"
proof -
  obtain con where c: "sk_cons o' p = Some con" and e: "\<not> is_set_dest ev" "bs_enabled ev (bs_view (sk_socks con))"
      "bound_wf (ks_bound os)"
    using assms(2) by (cases "sk_cons o' p") auto
  have so: "socks_ok (sk_auth_info o') (inp p) (bd p) (sk_send_addr con) (sk_socks con)"
    using sk_invD(7) [OF assms(1) c] by (simp add: sk_con_ok_def)
  then obtain out where inv: "bs_inv (sk_socks con) (inp p) out" by (auto simp: socks_ok_def)
  define s where "s = \<lparr>sys_client = sk_socks con, sys_in = inp p, sys_out = out, sys_error = False, sys_resource = False\<rparr>"
  have en: "bs_enabled ev s" using e(2) bs_enabled_view [of s ev] by (simp add: s_def)
  have out_ok: "outcome_of (sk_socks con) (ev_resource r ev) (inp p @ ev_in ev) out (bs_call r ev (sk_socks con))"
    using call_ok [of s ev r] inv en by (simp add: s_def)
  obtain c' acts where call: "bs_call r ev (sk_socks con) = Some (c', acts)"
    using out_ok by (cases "bs_call r ev (sk_socks con)") auto
  have same: "bs_auth_info c' = sk_auth_info o'" "bs_udp c'"
    using out_ok so unfolding call by (simp_all add: socks_ok_def)
  let ?o1 = "sk_con_set p (con\<lparr>sk_socks := c'\<rparr>) o'" and ?bd = "sk_bound_after (Sk_Socks p r ev os) bd"
  have step: "sk_step (Sk_Socks p r ev os) o' = sk_handle os p (events_of acts) ?o1" using c call by simp
  have bd: "?bd = bd(p := ?bd p)" by (cases ev) auto
  have sh: "if is_connector ev then acts = [Bs_Event EVENT_ERROR]
        \<or> acts = [Bs_Event EVENT_CONNECTED] \<and> bs_state c' = STATE_CONNECTED_HANDLER
      else bs_shape (sk_socks con) (Some (c', acts))"
    using connector_shape [of "sk_socks con" r _ c' acts] call_shape [of ev s "inp p" out r] call en inv e(1,2)
    by (cases ev) (auto simp: s_def bs_view_def)
  show ?thesis
  proof (cases "list_ex act_error acts")
    case err: True
    have "bs_io c' = io_of (bs_state c')" using out_ok err unfolding call by simp
    then obtain o'' where f: "sk_connection_free p ?o1 = Some o''" "sk_inv o'' lg (inp(p := inp p @ ev_in ev)) ?bd"
      using sk_free_keeps [OF assms(1) c, of c' "inp p @ ev_in ev" "?bd p"] bd by auto
    obtain e where "events_of acts = [e]" "e = EVENT_ERROR \<or> e = EVENT_ERROR_CLOSED"
      using sh err act_error_events [of acts] by (auto simp del: set_concat concat_eq_Nil_conv split: if_splits)
    then show ?thesis using f step sk_handle_error by fastforce
  next
    case no_err: False
    have inv': "bs_inv c' (inp p @ ev_in ev) (out @ concat (map act_out acts))"
      using out_ok no_err unfolding call by simp
    note before = before_event [OF inv e(2,1) call no_err]
    have none: "sk_send_addr con = None" using so before(1) by (simp add: socks_ok_def)
    consider (connected) "is_connector ev" "acts = [Bs_Event EVENT_CONNECTED]" "bs_state c' = STATE_CONNECTED_HANDLER"
      | (quiet) "\<not> is_connector ev" "events_of acts = []" "bs_state c' \<noteq> STATE_UP"
      | (up) "\<not> is_connector ev" "events_of acts = [EVENT_UP]" "bs_state c' = STATE_UP"
      using sh no_err act_error_events [of acts] by (auto simp del: set_concat concat_eq_Nil_conv split: if_splits)
    then show ?thesis
    proof cases
      case connected
      then have "?bd = bd(p := ks_bound os)" by (cases ev) auto
      then show ?thesis
        using sk_connected_keeps [OF assms(1) c inv' connected(3) same none e(3)] step connected(2)
        by (auto simp: sk_socks_state_handler_def)
    next
      case quiet
      then have "?bd p = Some (bs_dest_addr c')" using so before(2) sh by (cases ev) (auto simp: socks_ok_def)
      then have "socks_ok (sk_auth_info o') (inp p @ ev_in ev) (?bd p) None c'"
        using inv' same quiet(3) by (auto simp: socks_ok_def)
      moreover have "con\<lparr>sk_socks := c', sk_send_addr := None\<rparr> = con\<lparr>sk_socks := c'\<rparr>" using none by (cases con) simp
      ultimately have "sk_inv ?o1 lg (inp(p := inp p @ ev_in ev)) ?bd"
        using sk_change_keeps [OF assms(1) c] bd by metis
      then show ?thesis using step quiet(2) by simp
    next
      case up
      then have "?bd p = Some (bs_dest_addr c')" using so before(2) sh by (cases ev) (auto simp: socks_ok_def)
      then have "socks_ok (sk_auth_info o') (inp p @ ev_in ev) (?bd p) (Some (bs_bind_addr c')) c'"
        using inv' same up(3) by (auto simp: socks_ok_def)
      then have "sk_inv (sk_con_set p (con\<lparr>sk_socks := c', sk_send_addr := Some (bs_bind_addr c')\<rparr>) o') lg
          (inp(p := inp p @ ev_in ev)) ?bd"
        using sk_change_keeps [OF assms(1) c] bd by metis
      then show ?thesis
        using step up(2,3) by (simp add: sk_socks_state_handler_def BSocksClient_GetBindAddr_def sk_con_set_twice)
    qed
  qed
qed

section \<open>Every event keeps the invariant\<close>

lemma sk_parse_wf: "sk_parse data = Some (a, d) \<Longrightarrow> baddr_wf a"
  by (auto simp: sk_parse_def take_addr_def split: if_splits)

lemma sk_plain_free:
  assumes "sk_inv o' lg inp bd" "sk_cons o' p = Some con"
  obtains o'' where "sk_connection_free p o' = Some o''" "sk_inv o'' lg inp bd" "sk_cons o'' = (sk_cons o')(p := None)"
proof -
  have io: "bs_io (sk_socks con) = io_of (bs_state (sk_socks con))"
    using sk_invD(7) [OF assms] by (auto simp: sk_con_ok_def socks_ok_def bs_inv_def)
  have same: "sk_con_set p con o' = o'" using assms(2) by (simp add: sk_con_set_def fun_upd_idem)
  obtain o'' where f: "sk_connection_free p (sk_con_set p con o') = Some o''" "sk_cons o'' = (sk_cons o')(p := None)"
      "\<And>l i b. sk_inv o'' (lg(p := l)) (inp(p := i)) (bd(p := b))"
    by (rule sk_free_ok [OF assms refl io]) blast
  have "sk_inv o'' (lg(p := lg p)) (inp(p := inp p)) (bd(p := bd p))" by (rule f(3))
  then show thesis using that f(1,2) same by simp
qed

lemma sk_plain_change:
  assumes "sk_inv o' lg inp bd" "sk_cons o' p = Some con" "sk_local_addr con' = sk_local_addr con"
    and "sk_con_ok (sk_udp_mtu o') (sk_auth_info o') (lg p) (inp p) (bd p) con'" "sk_first_data con' = sk_first_data con"
  shows "sk_inv (sk_con_set p con' o') lg inp bd"
proof -
  have "sk_inv (sk_con_set p con' o') (lg(p := lg p)) (inp(p := inp p)) (bd(p := bd p))"
    by (rule sk_con_set_inv [OF assms(1-4)]) (use sk_invD(9) [OF assms(1), of p] assms(2,5) in simp)
  then show ?thesis by simp
qed

text \<open>Receiving: what the user is given, and when the connection goes away.\<close>

lemma sk_recv_cases:
  assumes "sk_inv o' lg inp bd" "sk_cons o' p = Some con" "int (length data) \<le> sk_socks_mtu o'"
  obtains (rejected) "sk_recv_if_handler_send p data o' = Some (o', [Sk_Recv_Done p])"
    "case sk_parse data of None \<Rightarrow> True | Some (a, d) \<Rightarrow> length d > sk_udp_mtu o'"
  | (passed) a d con' where "sk_parse data = Some (a, d)"
      "sk_recv_if_handler_send p data o' = Some (sk_con_set p con' o', [Sk_Recv_Done p, Sk_Received (sk_local_addr con) a d])"
      "sk_inv (sk_con_set p con' o') lg inp bd"
  | (answered) a d o'' where "sk_parse data = Some (a, d)" "0 \<le> sk_dns_id con" "dns_of a d = sk_dns_id con"
      "sk_recv_if_handler_send p data o' = Some (o'', [Sk_Recv_Done p, Sk_Received (sk_local_addr con) a d])"
      "sk_inv o'' lg inp bd" "sk_cons o'' = (sk_cons o')(p := None)"
proof (cases "case sk_parse data of None \<Rightarrow> True | Some (a, d) \<Rightarrow> length d > sk_udp_mtu o'")
  case True
  then show thesis
    using rejected assms by (auto simp: sk_recv_if_handler_send_def split: option.splits)
next
  case False
  then obtain a d where ad: "sk_parse data = Some (a, d)" "\<not> length d > sk_udp_mtu o'"
    by (auto split: option.splits prod.splits)
  have wf: "get_dns_id a d = Some (dns_of a d)" using get_dns_id_wf sk_parse_wf [OF ad(1)] by blast
  have ok: "sk_con_ok (sk_udp_mtu o') (sk_auth_info o') (lg p) (inp p) (bd p) con" using sk_invD(7) [OF assms(1,2)] .
  consider (same_id) "0 \<le> sk_dns_id con" "dns_of a d = sk_dns_id con"
    | (other) "0 \<le> sk_dns_id con" "dns_of a d \<noteq> sk_dns_id con" | (no_dns) "sk_dns_id con < 0" by linarith
  then show thesis
  proof cases
    case same_id
    obtain o'' where "sk_connection_free p o' = Some o''" "sk_inv o'' lg inp bd" "sk_cons o'' = (sk_cons o')(p := None)"
      by (rule sk_plain_free [OF assms(1,2)])
    then show thesis using answered [OF ad(1) same_id] assms(2,3) ad same_id wf by (simp add: sk_recv_if_handler_send_def)
  next
    case other
    have "sk_inv (sk_con_set p (con\<lparr>sk_dns_id := - 1\<rparr>) o') lg inp bd"
      by (rule sk_plain_change [OF assms(1,2)]) (use ok in \<open>simp_all add: sk_con_ok_def dns_ok_def\<close>)
    then show thesis using passed [OF ad(1)] assms(2,3) ad other wf by (simp add: sk_recv_if_handler_send_def)
  next
    case no_dns
    have "sk_con_set p con o' = o'" using assms(2) by (simp add: sk_con_set_def fun_upd_idem)
    then show thesis
      using passed [OF ad(1), of con] assms ad no_dns by (simp add: sk_recv_if_handler_send_def)
  qed
qed

lemma sk_step_keeps:
  assumes "sk_inv o' lg inp bd" "sk_enabled ev o'"
  shows "\<exists>o'' acts. sk_step ev o' = Some (o'', acts)
    \<and> sk_inv o'' (sk_log_after ev o' lg) (sk_in_after ev o' inp) (sk_bound_after ev bd)"
proof (cases ev)
  case (Sk_Submit r local remote data)
  then show ?thesis using sk_submit_keeps [OF assms(1)] assms(2) by simp
next
  case Sk_First_Job
  then obtain p ps where j: "sk_jobs o' = p # ps" using assms(2) by (cases "sk_jobs o'") auto
  then show ?thesis using sk_first_job_keeps [OF assms(1) j] Sk_First_Job by simp
next
  case (Sk_Writer_Recv p out)
  then obtain con where c: "sk_cons o' p = Some con" "\<not> bw_out_have (sk_send_writer con)"
    using assms(2) by (cases "sk_cons o' p") auto
  let ?c = "con\<lparr>sk_send_writer := (sk_send_writer con)\<lparr>bw_out_have := True, bw_out := out\<rparr>\<rparr>"
  have "length out = sk_udp_mtu o' + 22"
    using assms(2) Sk_Writer_Recv sk_invD(5) [OF assms(1)] by (simp add: nat_add_distrib)
  then have "sk_con_ok (sk_udp_mtu o') (sk_auth_info o') (lg p) (inp p) (bd p) ?c"
    using sk_invD(7) [OF assms(1) c(1)] by (simp add: sk_con_ok_def writer_ok_def)
  then have "sk_inv (sk_con_set p ?c o') lg inp bd" by (rule sk_plain_change [OF assms(1) c(1), rotated]) simp_all
  then show ?thesis using Sk_Writer_Recv c by (simp add: bw_output_handler_recv_def)
next
  case (Sk_Recv p data)
  then obtain con where c: "sk_cons o' p = Some con" and l: "int (length data) \<le> sk_socks_mtu o'"
    using assms(2) by auto
  show ?thesis using Sk_Recv assms(1) by (cases rule: sk_recv_cases [OF assms(1) c l]) simp_all
next
  case (Sk_Socks p r sev os)
  then show ?thesis using sk_socks_keeps [OF assms(1)] assms(2) by simp
next
  case (Sk_Dgram_Error p)
  then obtain con where c: "sk_cons o' p = Some con" using assms(2) by auto
  obtain o'' where "sk_connection_free p o' = Some o''" "sk_inv o'' lg inp bd" by (rule sk_plain_free [OF assms(1) c])
  then show ?thesis using Sk_Dgram_Error by (simp add: datagram_state_handler_def)
next
  case (Sk_Idle p)
  then obtain con where c: "sk_cons o' p = Some con" using assms(2) by auto
  obtain o'' where "sk_connection_free p o' = Some o''" "sk_inv o'' lg inp bd" by (rule sk_plain_free [OF assms(1) c])
  then show ?thesis using Sk_Idle by (simp add: send_monitor_handler_def)
qed

abbreviation sks_inv :: "sk_sys \<Rightarrow> bool" where
  "sks_inv s \<equiv> sk_inv (sks_client s) (sks_log s) (sks_in s) (sks_bound s)"

lemma sk_reachable_inv: "sk_reachable s \<Longrightarrow> sks_inv s"
proof (induction rule: sk_reachable.induct)
  case (init udp_mtu mx sz server auth o' lg inp bd)
  then show ?case using sk_init_inv by simp
next
  case (step s ev s' acts)
  then show ?case using sk_step_keeps [OF step.IH step.hyps(2)] by (auto simp: sks_step_def)
qed

lemma sk_free_all:
  assumes "sk_inv o' lg inp bd" "length (sk_tree o') \<le> n"
  shows "\<exists>o''. sk_free_connections n o' = Some o'' \<and> sk_cons o'' = Map.empty \<and> sk_jobs o'' = []"
  using assms
proof (induction n arbitrary: o')
  case 0
  have "sk_cons o' p = None" for p
    using 0 tree_ok_lookup [OF sk_invD(2) [OF 0(1)], of p] by (cases "sk_cons o' p") auto
  moreover have "sk_jobs o' = []"
    using sk_invD(9) [OF 0(1)] calculation by (cases "sk_jobs o'") auto
  ultimately show ?case using 0 by auto
next
  case (Suc n)
  note i = sk_invD [OF Suc.prems(1)]
  show ?case
  proof (cases "sk_tree o'")
    case Nil
    have "sk_cons o' p = None" for p
      using Nil tree_ok_lookup [OF i(2), of p] by (cases "sk_cons o' p") auto
    moreover have "sk_jobs o' = []" using i(9) calculation by (cases "sk_jobs o'") auto
    ultimately show ?thesis using Nil by auto
  next
    case (Cons ap t)
    obtain a p where ap: "ap = (a, p)" by (cases ap)
    have "map_of (sk_tree o') a = Some p" using Cons ap by simp
    then obtain con where c: "sk_cons o' p = Some con" using tree_okD [OF i(2)] by blast
    obtain o'' where f: "sk_connection_free p o' = Some o''" "sk_inv o'' lg inp bd" by (rule sk_plain_free [OF Suc.prems(1) c])
    have "sk_num_connections o'' = sk_num_connections o' - 1"
      using f(1) by (auto simp: sk_connection_free_def bind_Some)
    then have "length (sk_tree o'') \<le> n" using sk_invD(3) [OF f(2)] i(3) Suc.prems(2) by simp
    then show ?thesis using Suc.IH [OF f(2)] f(1) Cons ap by simp
  qed
qed

section \<open>Example runs\<close>

fun sk_run :: "sk_event list \<Rightarrow> sk_sys \<Rightarrow> sk_sys option" where
  "sk_run [] s = Some s"
| "sk_run (ev # evs) s =
     (if sk_enabled ev (sks_client s) then do { (s, _) \<leftarrow> sks_step ev s; sk_run evs s } else None)"

lemma sk_run_reachable: "sk_reachable s \<Longrightarrow> sk_run evs s = Some s' \<Longrightarrow> sk_reachable s'"
proof (induction evs arbitrary: s)
  case (Cons ev evs)
  then show ?case by (auto simp: bind_Some split: if_splits intro: sk_reachable.step)
qed simp

definition sk_server :: baddr where "sk_server = BADDR_IPV4 16777343 14340"
definition sk_local :: baddr where "sk_local = BADDR_IPV4 16777216 256"
definition sk_resolver :: "u32 \<Rightarrow> baddr" where "sk_resolver ip = BADDR_IPV4 ip 13568"

definition sk_start :: sk_sys where
  "sk_start = \<lparr>sks_client = \<lparr>sk_server_addr = sk_server, sk_auth_info = [Auth_none], sk_num_connections = 0,
       sk_max_connections = 2, sk_udp_mtu = 20, sk_socks_mtu = 42, sk_tree = [], sk_cons = Map.empty, sk_jobs = []\<rparr>,
     sks_log = (\<lambda>_. []), sks_in = (\<lambda>_. []), sks_bound = (\<lambda>_. None)\<rparr>"

lemma sk_start_reachable: "sk_reachable sk_start"
  unfolding sk_start_def
  by (rule sk_reachable.init [where udp_mtu = 20 and max_connections = 2 and send_buf_size = 1
        and server = sk_server and auth = "[Auth_none]"])
     (use sk_init_mtu [of 20] in \<open>simp_all add: SocksUdpClient_Init_def INT_MAX_def sk_server_def\<close>)

definition sk_all_ok :: "nat \<Rightarrow> sk_results" where
  "sk_all_ok p = \<lparr>kr_mem = Some p, kr_data_ok = True, kr_dgram_ok = True, kr_connector_ok = True,
     kr_buffer_ok = True, kr_recv_buffer_ok = True\<rparr>"

definition sk_os :: sk_sockets where
  "sk_os = \<lparr>ks_tcp_local = Some (BADDR_IPV4 16777343 5), ks_bind_ok = True, ks_bound = Some (BADDR_IPV4 16777343 6)\<rparr>"

text \<open>A DNS query is submitted and the association is set up.\<close>

definition sk_events :: "sk_event list" where
  "sk_events = Sk_Submit (sk_all_ok 7) sk_local (sk_resolver 1) [171, 205, 1]
     # Sk_Writer_Recv 7 (replicate 42 0) # Sk_First_Job # Sk_Writer_Recv 7 (replicate 42 0)
     # map (\<lambda>ev. Sk_Socks 7 bs_ok ev sk_os) [Connector False, Continue_Job, Send_Done, Recv_Done [5, 0],
         Send_Done, Recv_Done [5, 0, 0, 1], Recv_Done [10, 0, 0, 1, 4, 210]]"

definition sk_example :: "sk_event list \<Rightarrow> sk_sys" where
  "sk_example evs = the (sk_run evs sk_start)"

lemma sk_example_reachable: "sk_run evs sk_start \<noteq> None \<Longrightarrow> sk_reachable (sk_example evs)"
  using sk_run_reachable [OF sk_start_reachable] by (auto simp: sk_example_def)

lemma sk_events_run: "sk_run sk_events sk_start \<noteq> None"
  by code_simp

definition sk_answer :: "u32 \<Rightarrow> byte list" where
  "sk_answer ip = [0, 0, 0, 1] @ udpgw_addr (sk_resolver ip) @ [171, 205, 9]"

text \<open>
  The code compares port and DNS id of further datagrams, not the address: after the same query to
  two resolvers the first answer still takes the connection down, and the second is lost.
\<close>

definition sk_two_queries :: "sk_sys" where
  "sk_two_queries = sk_example (sk_events @ [Sk_Submit (sk_all_ok 8) sk_local (sk_resolver 2) [171, 205, 1]])"

lemma SocksUdpClient_two_resolvers:
  "sks_log sk_two_queries 7 = [(sk_resolver 1, [171, 205, 1]), (sk_resolver 2, [171, 205, 1])]"
  "sk_cons (sks_client (fst (the (sks_step (Sk_Recv 7 (sk_answer 1)) sk_two_queries)))) 7 = None"
  by code_simp+

section \<open>Properties\<close>

text \<open>
  C29. The SOCKS5 UDP client never fails an assertion, never writes outside a buffer and never uses
  freed memory, whatever the user, the sockets, the SOCKS servers and \<open>malloc\<close> do; the tree holds
  exactly the live connections, each under its local address and no more than the limit; and
  freeing the client always ends with every connection freed and no job left pending.
\<close>

theorem SocksUdpClient_no_failure:
  assumes "sk_reachable s"
  shows "(\<forall>ev. sk_enabled ev (sks_client s) \<longrightarrow> sks_step ev s \<noteq> None)
    \<and> (\<forall>a p. sk_find_connection (sks_client s) a = Some p
         \<longleftrightarrow> (\<exists>con. sk_cons (sks_client s) p = Some con \<and> sk_local_addr con = a))
    \<and> sk_num_connections (sks_client s) = length (sk_tree (sks_client s))
    \<and> sk_num_connections (sks_client s) \<le> sk_max_connections (sks_client s)
    \<and> (\<exists>o'. SocksUdpClient_Free (sks_client s) = Some o' \<and> sk_cons o' = Map.empty \<and> sk_jobs o' = [])"
proof -
  note inv = sk_reachable_inv [OF assms]
  have "sks_step ev s \<noteq> None" if "sk_enabled ev (sks_client s)" for ev
    using sk_step_keeps [OF inv that] by (auto simp: sks_step_def)
  moreover have "sk_find_connection (sks_client s) a = Some p
         \<longleftrightarrow> (\<exists>con. sk_cons (sks_client s) p = Some con \<and> sk_local_addr con = a)" for a p
    using tree_okD [OF sk_invD(2) [OF inv]] by (simp add: sk_find_connection_def sk_tree_lookup_eq)
  moreover have "\<exists>o'. SocksUdpClient_Free (sks_client s) = Some o' \<and> sk_cons o' = Map.empty \<and> sk_jobs o' = []"
    using sk_free_all [OF inv order_refl] by (simp add: SocksUdpClient_Free_def)
  ultimately show ?thesis using sk_invD(3,4) [OF inv] by simp
qed

theorem SocksUdpClient_no_failure_witness:
  "sks_step (Sk_Submit (sk_all_ok 8) sk_server (sk_resolver 2) [1, 2, 3]) (sk_example sk_events) \<noteq> None"
  by (rule SocksUdpClient_no_failure [OF sk_example_reachable [OF sk_events_run], THEN conjunct1, rule_format])
     code_simp

text \<open>
  C30. The socket of a connection has an address to send to exactly when the SOCKS5 dialogue with
  its server, as the reference has it for the bytes received, has established an association, and
  then it is the bound address of the server's reply; and the dialogue is conducted for the address
  that very socket was bound to.
\<close>

theorem SocksUdpClient_association:
  assumes "sk_reachable s" "sk_cons (sks_client s) p = Some con"
  shows "if started (sk_socks con)
    then sk_send_addr con =
        (case snd (socks_spec (sk_auth_info (sks_client s)) (bs_dest_addr (sk_socks con)) True (sks_in s p)) of
           Established a \<Rightarrow> Some a | _ \<Rightarrow> None)
      \<and> sks_bound s p = Some (bs_dest_addr (sk_socks con))
    else sk_send_addr con = None"
proof -
  note so = sk_invD(7) [OF sk_reachable_inv [OF assms(1)] assms(2)]
  obtain out where inv: "bs_inv (sk_socks con) (sks_in s p) out"
    using so by (auto simp: sk_con_ok_def socks_ok_def)
  show ?thesis
  proof (cases "started (sk_socks con)")
    case True
    then show ?thesis using inv_spec [OF inv True] so by (auto simp: sk_con_ok_def socks_ok_def started_def)
  next
    case False
    then show ?thesis using so by (auto simp: sk_con_ok_def socks_ok_def started_def)
  qed
qed

theorem SocksUdpClient_association_witness:
  "sk_send_addr (the (sk_cons (sks_client (sk_example sk_events)) 7)) = Some (BADDR_IPV4 16777226 53764)"
proof -
  let ?s = "sk_example sk_events"
  obtain con where c: "sk_cons (sks_client ?s) 7 = Some con"
  proof -
    have "sk_cons (sks_client ?s) 7 \<noteq> None" by code_simp
    then show thesis using that by blast
  qed
  have "started (sk_socks (the (sk_cons (sks_client ?s) 7)))"
    "snd (socks_spec (sk_auth_info (sks_client ?s)) (bs_dest_addr (sk_socks (the (sk_cons (sks_client ?s) 7)))) True
        (sks_in ?s 7)) = Established (BADDR_IPV4 16777226 53764)"
    by code_simp+
  then show ?thesis
    using SocksUdpClient_association [OF sk_example_reachable [OF sk_events_run] c] by (simp add: c)
qed

text \<open>
  C31. A received datagram takes a connection down only when the connection's work is done: the
  datagram has been given to the user, it is the answer to a DNS query, and all datagrams the user
  has ever submitted on the connection were DNS queries with the id of that answer.
\<close>

theorem SocksUdpClient_dns:
  assumes "sk_reachable s" "sk_cons (sks_client s) p = Some con"
    and "sks_step (Sk_Recv p data) s = Some (s', acts)" "int (length data) \<le> sk_socks_mtu (sks_client s)"
    and "sk_cons (sks_client s') p = None"
  shows "\<exists>a d. acts = [Sk_Recv_Done p, Sk_Received (sk_local_addr con) a d] \<and> 0 \<le> dns_of a d
    \<and> sks_log s p \<noteq> [] \<and> (\<forall>(remote, q) \<in> set (sks_log s p). dns_of remote q = dns_of a d)"
proof -
  note inv = sk_reachable_inv [OF assms(1)]
  note ok = sk_invD(7) [OF inv assms(2)]
  have st: "sk_recv_if_handler_send p data (sks_client s) = Some (sks_client s', acts)"
    using assms(3) by (auto simp: sks_step_def bind_Some)
  show ?thesis
  proof (cases rule: sk_recv_cases [OF inv assms(2,4), case_names rejected passed answered])
    case (answered a d o'')
    then show ?thesis using st ok by (auto simp: sk_con_ok_def dns_ok_def)
  qed (use st assms(2,5) in auto)
qed

theorem SocksUdpClient_dns_witness:
  "\<exists>a d. snd (the (sks_step (Sk_Recv 7 (sk_answer 1)) (sk_example sk_events)))
       = [Sk_Recv_Done 7, Sk_Received sk_local a d] \<and> 0 \<le> dns_of a d
    \<and> (\<forall>(remote, q) \<in> set (sks_log (sk_example sk_events) 7). dns_of remote q = dns_of a d)"
proof -
  let ?s = "sk_example sk_events" and ?ev = "Sk_Recv 7 (sk_answer 1)"
  obtain con where c: "sk_cons (sks_client ?s) 7 = Some con"
  proof -
    have "sk_cons (sks_client ?s) 7 \<noteq> None" by code_simp
    then show thesis using that by blast
  qed
  have "sks_step ?ev ?s \<noteq> None" by code_simp
  then obtain s' acts where s: "sks_step ?ev ?s = Some (s', acts)" by fastforce
  have "sk_local_addr (the (sk_cons (sks_client ?s) 7)) = sk_local" by code_simp
  then have l: "sk_local_addr con = sk_local" by (simp add: c)
  have "int (length (sk_answer 1)) \<le> sk_socks_mtu (sks_client ?s)" by code_simp
  moreover have "sk_cons (sks_client (fst (the (sks_step ?ev ?s)))) 7 = None" by code_simp
  ultimately show ?thesis
    using SocksUdpClient_dns [OF sk_example_reachable [OF sk_events_run] c s] by (auto simp: s l)
qed

end
