(* ===== verification/BAVL.thy ===== *)
theory BAVL
  imports BAddr
begin

text \<open>
  The AVL trees of \<open>structure/BAVL.h\<close>, in which every component keeps its tables: nodes embedded in
  the user's objects, with parent pointers, rebalanced by a walk towards the root.

  Nodes are heap records at addresses; the two links are a function of the side, \<open>False\<close> for
  \<open>link[0]\<close> and \<open>True\<close> for \<open>link[1]\<close>. The comparator and the value of a node (at its offset from the
  node) are arguments. Access through a null or dangling pointer is \<open>None\<close>, and so is a loop that
  does not end. The members for \<open>BAVL_COUNT\<close> are not part of the build.
\<close>

record BAVLNode =
  bn_parent :: "nat option"
  bn_link :: "bool \<Rightarrow> nat option"
  bn_balance :: int

record BAVL =
  av_root :: "nat option"
  av_heap :: "nat \<rightharpoonup> BAVLNode"

type_synonym 'k comparator = "'k \<Rightarrow> 'k \<Rightarrow> int"

section \<open>Memory\<close>

definition parent_of :: "nat \<Rightarrow> BAVL \<Rightarrow> nat option option" where
  "parent_of a t = map_option bn_parent (av_heap t a)"

definition link_of :: "nat \<Rightarrow> bool \<Rightarrow> BAVL \<Rightarrow> nat option option" where
  "link_of a s t = map_option (\<lambda>n. bn_link n s) (av_heap t a)"

definition balance_of :: "nat \<Rightarrow> BAVL \<Rightarrow> int option" where
  "balance_of a t = map_option bn_balance (av_heap t a)"

definition set_parent :: "nat \<Rightarrow> nat option \<Rightarrow> BAVL \<Rightarrow> BAVL option" where
  "set_parent a p t =
     do { n \<leftarrow> av_heap t a; Some (t\<lparr>av_heap := (av_heap t)(a \<mapsto> n\<lparr>bn_parent := p\<rparr>)\<rparr>) }"

definition set_link :: "nat \<Rightarrow> bool \<Rightarrow> nat option \<Rightarrow> BAVL \<Rightarrow> BAVL option" where
  "set_link a s p t =
     do { n \<leftarrow> av_heap t a; Some (t\<lparr>av_heap := (av_heap t)(a \<mapsto> n\<lparr>bn_link := (bn_link n)(s := p)\<rparr>)\<rparr>) }"

definition set_balance :: "nat \<Rightarrow> int \<Rightarrow> BAVL \<Rightarrow> BAVL option" where
  "set_balance a b t =
     do { n \<leftarrow> av_heap t a; Some (t\<lparr>av_heap := (av_heap t)(a \<mapsto> n\<lparr>bn_balance := b\<rparr>)\<rparr>) }"

definition set_root :: "nat option \<Rightarrow> BAVL \<Rightarrow> BAVL" where
  "set_root p t = t\<lparr>av_root := p\<rparr>"

text \<open>\<open>if (p) p->parent = q\<close>.\<close>

definition set_parent_if :: "nat option \<Rightarrow> nat option \<Rightarrow> BAVL \<Rightarrow> BAVL option" where
  "set_parent_if p q t = (case p of None \<Rightarrow> Some t | Some a \<Rightarrow> set_parent a q t)"

text \<open>
  \<open>if (p) p->link[old == p->link[1]] = new; else tree->root = new\<close>, how the place where a node hangs
  is given another pointer.
\<close>

definition set_place :: "nat option \<Rightarrow> nat \<Rightarrow> nat option \<Rightarrow> BAVL \<Rightarrow> BAVL option" where
  "set_place p old new t =
     (case p of None \<Rightarrow> Some (set_root new t)
      | Some a \<Rightarrow> do { l \<leftarrow> link_of a True t; set_link a (Some old = l) new t })"

definition BAVL_OPTNEG :: "int \<Rightarrow> bool \<Rightarrow> int" where
  "BAVL_OPTNEG a neg = (if neg then - a else a)"

definition compare_values :: "'k comparator \<Rightarrow> 'k \<Rightarrow> 'k \<Rightarrow> int option" where
  "compare_values cmp v1 v2 = do {
     let res = cmp v1 v2;
     assert_that (res = - 1 \<or> res = 0 \<or> res = 1);
     Some res }"

section \<open>Rotation and rebalancing\<close>

definition BAVL_rotate :: "nat \<Rightarrow> bool \<Rightarrow> BAVL \<Rightarrow> BAVL option" where
  "BAVL_rotate r dir t = do {
     l \<leftarrow> link_of r (\<not> dir) t;
     nr \<leftarrow> l;
     x \<leftarrow> link_of nr dir t;
     t \<leftarrow> set_link r (\<not> dir) x t;
     t \<leftarrow> set_parent_if x (Some r) t;
     t \<leftarrow> set_link nr dir (Some r) t;
     p \<leftarrow> parent_of r t;
     t \<leftarrow> set_parent nr p t;
     t \<leftarrow> set_place p r (Some nr) t;
     set_parent r (Some nr) t
   }"

text \<open>The transformations of \<open>_BAVL_rebalance\<close> when the balance factor is 2 or -2.\<close>

definition BAVL_transform :: "nat \<Rightarrow> int \<Rightarrow> BAVL \<Rightarrow> (nat \<times> int \<times> BAVL) option" where
  "BAVL_transform node delta t = do {
     b \<leftarrow> balance_of node t;
     if b = 2 \<or> b = - 2 then do {
       let bside = (b = 2);
       let bsidef = (if b = 2 then 1 else - 1);
       l \<leftarrow> link_of node bside t;
       child \<leftarrow> l;
       cb \<leftarrow> balance_of child t;
       if cb * bsidef = 1 then do {
         t \<leftarrow> BAVL_rotate node (\<not> bside) t;
         t \<leftarrow> set_balance node 0 t;
         t \<leftarrow> set_balance child 0 t;
         Some (child, delta - 1, t)
       }
       else if cb * bsidef = 0 then do {
         t \<leftarrow> BAVL_rotate node (\<not> bside) t;
         t \<leftarrow> set_balance node (1 * bsidef) t;
         t \<leftarrow> set_balance child (- 1 * bsidef) t;
         Some (child, delta, t)
       }
       else if cb * bsidef = - 1 then do {
         l \<leftarrow> link_of child (\<not> bside) t;
         gchild \<leftarrow> l;
         t \<leftarrow> BAVL_rotate child bside t;
         t \<leftarrow> BAVL_rotate node (\<not> bside) t;
         gb \<leftarrow> balance_of gchild t;
         t \<leftarrow> set_balance node (- max 0 (gb * bsidef) * bsidef) t;
         gb \<leftarrow> balance_of gchild t;
         t \<leftarrow> set_balance child (max 0 (- gb * bsidef) * bsidef) t;
         t \<leftarrow> set_balance gchild 0 t;
         Some (gchild, delta - 1, t)
       }
       else None
     }
     else Some (node, delta, t)
   }"

partial_function (option) BAVL_rebalance :: "nat \<Rightarrow> bool \<Rightarrow> int \<Rightarrow> BAVL \<Rightarrow> BAVL option" where
  "BAVL_rebalance node side deltac t = do {
     assert_that (- 1 \<le> deltac \<and> deltac \<le> 1);
     b \<leftarrow> balance_of node t;
     assert_that (- 1 \<le> b \<and> b \<le> 1);
     if deltac = 0 then Some t
     else do {
       let delta = max deltac (BAVL_OPTNEG b side) - max 0 (BAVL_OPTNEG b side);
       assert_that (- 1 \<le> delta \<and> delta \<le> 1);
       t \<leftarrow> set_balance node (b - BAVL_OPTNEG deltac side) t;
       (node, delta, t) \<leftarrow> BAVL_transform node delta t;
       assert_that (- 1 \<le> delta \<and> delta \<le> 1);
       p \<leftarrow> parent_of node t;
       case p of None \<Rightarrow> Some t
       | Some p \<Rightarrow> do { l \<leftarrow> link_of p True t; BAVL_rebalance p (Some node = l) delta t }
     }
   }"

section \<open>Swapping and replacing\<close>

partial_function (option) BAVL_descend :: "bool \<Rightarrow> nat \<Rightarrow> BAVL \<Rightarrow> nat option" where
  "BAVL_descend s n t = do {
     l \<leftarrow> link_of n s t;
     case l of None \<Rightarrow> Some n | Some c \<Rightarrow> BAVL_descend s c t }"

definition BAVL_subtree_max :: "nat \<Rightarrow> BAVL \<Rightarrow> nat option" where
  "BAVL_subtree_max n t = BAVL_descend True n t"

definition BAVL_replace_subtree :: "nat \<Rightarrow> nat option \<Rightarrow> BAVL \<Rightarrow> BAVL option" where
  "BAVL_replace_subtree dest n t = do {
     p \<leftarrow> parent_of dest t;
     t \<leftarrow> set_place p dest n t;
     p \<leftarrow> parent_of dest t;
     set_parent_if n p t
   }"

text \<open>The nodes are directly connected, \<open>n1\<close> above \<open>n2\<close>.\<close>

definition swap_connected :: "nat \<Rightarrow> nat \<Rightarrow> BAVL \<Rightarrow> BAVL option" where
  "swap_connected n1 n2 t = do {
     l \<leftarrow> link_of n1 True t;
     let side = (Some n2 = l);
     c \<leftarrow> link_of n1 (\<not> side) t;
     x \<leftarrow> link_of n2 False t;
     t \<leftarrow> set_link n1 False x t;
     t \<leftarrow> set_parent_if x (Some n1) t;
     x \<leftarrow> link_of n2 True t;
     t \<leftarrow> set_link n1 True x t;
     t \<leftarrow> set_parent_if x (Some n1) t;
     p \<leftarrow> parent_of n1 t;
     t \<leftarrow> set_parent n2 p t;
     t \<leftarrow> set_place p n1 (Some n2) t;
     t \<leftarrow> set_link n2 side (Some n1) t;
     t \<leftarrow> set_parent n1 (Some n2) t;
     t \<leftarrow> set_link n2 (\<not> side) c t;
     set_parent_if c (Some n2) t
   }"

text \<open>
  \<open>n2->parent->link[n1 == temp->link[1]]\<close> looks at the links of the old parent of \<open>n1\<close>, which is the
  new parent of \<open>n2\<close>.
\<close>

definition swap_apart :: "nat \<Rightarrow> nat \<Rightarrow> BAVL \<Rightarrow> BAVL option" where
  "swap_apart n1 n2 t = do {
     temp \<leftarrow> parent_of n1 t;
     p \<leftarrow> parent_of n2 t;
     t \<leftarrow> set_parent n1 p t;
     t \<leftarrow> set_place p n2 (Some n1) t;
     t \<leftarrow> set_parent n2 temp t;
     t \<leftarrow> set_place temp n1 (Some n2) t;
     temp \<leftarrow> link_of n1 False t;
     x \<leftarrow> link_of n2 False t;
     t \<leftarrow> set_link n1 False x t;
     t \<leftarrow> set_parent_if x (Some n1) t;
     t \<leftarrow> set_link n2 False temp t;
     t \<leftarrow> set_parent_if temp (Some n2) t;
     temp \<leftarrow> link_of n1 True t;
     x \<leftarrow> link_of n2 True t;
     t \<leftarrow> set_link n1 True x t;
     t \<leftarrow> set_parent_if x (Some n1) t;
     t \<leftarrow> set_link n2 True temp t;
     set_parent_if temp (Some n2) t
   }"

definition BAVL_swap_nodes :: "nat \<Rightarrow> nat \<Rightarrow> BAVL \<Rightarrow> BAVL option" where
  "BAVL_swap_nodes n1 n2 t = do {
     p1 \<leftarrow> parent_of n1 t;
     p2 \<leftarrow> parent_of n2 t;
     (n1, n2, t) \<leftarrow>
       (if p2 = Some n1 \<or> p1 = Some n2 then do {
          let (n1, n2) = (if p1 = Some n2 then (n2, n1) else (n1, n2));
          t \<leftarrow> swap_connected n1 n2 t;
          Some (n1, n2, t)
        }
        else do { t \<leftarrow> swap_apart n1 n2 t; Some (n1, n2, t) });
     b \<leftarrow> balance_of n1 t;
     b2 \<leftarrow> balance_of n2 t;
     t \<leftarrow> set_balance n1 b2 t;
     set_balance n2 b t
   }"

section \<open>Interface\<close>

definition BAVL_Init :: "BAVL" where
  "BAVL_Init = \<lparr>av_root = None, av_heap = Map.empty\<rparr>"

text \<open>
  The loop of \<open>BAVL_Insert\<close>, \<open>BAVL_Lookup\<close> and \<open>BAVL_LookupExact\<close>: it ends at a node with an equal
  value, or at a node without a child on the side of the value.
\<close>

partial_function (option) BAVL_find ::
  "'k comparator \<Rightarrow> (nat \<Rightarrow> 'k) \<Rightarrow> 'k \<Rightarrow> nat \<Rightarrow> BAVL \<Rightarrow> (nat \<times> bool option) option" where
  "BAVL_find cmp key v c t = do {
     comp \<leftarrow> compare_values cmp v (key c);
     if comp = 0 then Some (c, None)
     else do {
       let side = (comp = 1);
       l \<leftarrow> link_of c side t;
       case l of None \<Rightarrow> Some (c, Some side) | Some c' \<Rightarrow> BAVL_find cmp key v c' t
     }
   }"

text \<open>The result has the return value and \<open>*ref\<close>.\<close>

definition BAVL_Insert ::
  "'k comparator \<Rightarrow> (nat \<Rightarrow> 'k) \<Rightarrow> nat \<Rightarrow> BAVL \<Rightarrow> (BAVL \<times> bool \<times> nat option) option" where
  "BAVL_Insert cmp key node t =
     (case av_root t of
        None \<Rightarrow> Some (t\<lparr>av_root := Some node,
                       av_heap := (av_heap t)(node \<mapsto> \<lparr>bn_parent = None, bn_link = (\<lambda>_. None), bn_balance = 0\<rparr>)\<rparr>,
                     True, None)
      | Some r \<Rightarrow> do {
          (c, found) \<leftarrow> BAVL_find cmp key (key node) r t;
          case found of
            None \<Rightarrow> Some (t, False, Some c)
          | Some side \<Rightarrow> do {
              t \<leftarrow> set_link c side (Some node) t;
              let t = t\<lparr>av_heap := (av_heap t)
                (node \<mapsto> \<lparr>bn_parent = Some c, bn_link = (\<lambda>_. None), bn_balance = 0\<rparr>)\<rparr>;
              t \<leftarrow> BAVL_rebalance c side 1 t;
              Some (t, True, Some c)
            }
        })"

text \<open>The end of \<open>BAVL_Remove\<close>, when the node has at most one child.\<close>

definition BAVL_unlink :: "nat \<Rightarrow> BAVL \<Rightarrow> BAVL option" where
  "BAVL_unlink node t = do {
     l0 \<leftarrow> link_of node False t;
     l1 \<leftarrow> link_of node True t;
     assert_that (\<not> (l0 \<noteq> None \<and> l1 \<noteq> None));
     p \<leftarrow> parent_of node t;
     let child = (if l0 \<noteq> None then l0 else l1);
     case p of
       Some parent \<Rightarrow> do {
         l \<leftarrow> link_of parent True t;
         let side = (Some node = l);
         t \<leftarrow> BAVL_replace_subtree node child t;
         BAVL_rebalance parent side (- 1) t
       }
     | None \<Rightarrow> BAVL_replace_subtree node child t
   }"

definition BAVL_Remove :: "nat \<Rightarrow> BAVL \<Rightarrow> BAVL option" where
  "BAVL_Remove node t = do {
     l0 \<leftarrow> link_of node False t;
     l1 \<leftarrow> link_of node True t;
     t \<leftarrow> (case l0 of
             Some l \<Rightarrow> (if l1 \<noteq> None then do {
                           m \<leftarrow> BAVL_subtree_max l t;
                           BAVL_swap_nodes node m t
                         } else Some t)
           | None \<Rightarrow> Some t);
     BAVL_unlink node t
   }"

definition BAVL_IsEmpty :: "BAVL \<Rightarrow> bool" where
  "BAVL_IsEmpty t = (av_root t = None)"

definition BAVL_Lookup :: "'k comparator \<Rightarrow> (nat \<Rightarrow> 'k) \<Rightarrow> 'k \<Rightarrow> BAVL \<Rightarrow> nat option option" where
  "BAVL_Lookup cmp key v t =
     (case av_root t of None \<Rightarrow> Some None
      | Some r \<Rightarrow> do { (c, found) \<leftarrow> BAVL_find cmp key v r t; Some (Some c) })"

definition BAVL_LookupExact :: "'k comparator \<Rightarrow> (nat \<Rightarrow> 'k) \<Rightarrow> 'k \<Rightarrow> BAVL \<Rightarrow> nat option option" where
  "BAVL_LookupExact cmp key v t =
     (case av_root t of None \<Rightarrow> Some None
      | Some r \<Rightarrow> do { (c, found) \<leftarrow> BAVL_find cmp key v r t; Some (if found = None then Some c else None) })"

definition BAVL_GetFirst :: "BAVL \<Rightarrow> nat option option" where
  "BAVL_GetFirst t =
     (case av_root t of None \<Rightarrow> Some None | Some r \<Rightarrow> do { n \<leftarrow> BAVL_descend False r t; Some (Some n) })"

definition BAVL_GetLast :: "BAVL \<Rightarrow> nat option option" where
  "BAVL_GetLast t =
     (case av_root t of None \<Rightarrow> Some None | Some r \<Rightarrow> do { n \<leftarrow> BAVL_descend True r t; Some (Some n) })"

text \<open>\<open>while (n->parent && n == n->parent->link[s]) n = n->parent; n = n->parent\<close>.\<close>

partial_function (option) BAVL_ascend :: "bool \<Rightarrow> nat \<Rightarrow> BAVL \<Rightarrow> nat option option" where
  "BAVL_ascend s n t = do {
     p \<leftarrow> parent_of n t;
     case p of None \<Rightarrow> Some None
     | Some q \<Rightarrow> do {
         l \<leftarrow> link_of q s t;
         if Some n = l then BAVL_ascend s q t else Some (Some q)
       }
   }"

definition BAVL_GetNext :: "nat \<Rightarrow> BAVL \<Rightarrow> nat option option" where
  "BAVL_GetNext n t = do {
     l \<leftarrow> link_of n True t;
     case l of Some c \<Rightarrow> do { m \<leftarrow> BAVL_descend False c t; Some (Some m) }
     | None \<Rightarrow> BAVL_ascend True n t
   }"

definition BAVL_GetPrev :: "nat \<Rightarrow> BAVL \<Rightarrow> nat option option" where
  "BAVL_GetPrev n t = do {
     l \<leftarrow> link_of n False t;
     case l of Some c \<Rightarrow> do { m \<leftarrow> BAVL_descend True c t; Some (Some m) }
     | None \<Rightarrow> BAVL_ascend False n t
   }"

section \<open>Verification at run time\<close>

text \<open>The height of the subtree, if all its checks pass.\<close>

partial_function (option) BAVL_assert_recurser ::
  "'k comparator \<Rightarrow> (nat \<Rightarrow> 'k) \<Rightarrow> nat \<Rightarrow> BAVL \<Rightarrow> int option" where
  "BAVL_assert_recurser cmp key n t = do {
     b \<leftarrow> balance_of n t;
     assert_that (b \<ge> - 1);
     assert_that (b \<le> 1);
     l0 \<leftarrow> link_of n False t;
     height_left \<leftarrow> (case l0 of None \<Rightarrow> Some 0
       | Some c \<Rightarrow> do {
           p \<leftarrow> parent_of c t;
           assert_that (p = Some n);
           comp \<leftarrow> compare_values cmp (key c) (key n);
           assert_that (comp = - 1);
           BAVL_assert_recurser cmp key c t
         });
     l1 \<leftarrow> link_of n True t;
     height_right \<leftarrow> (case l1 of None \<Rightarrow> Some 0
       | Some c \<Rightarrow> do {
           p \<leftarrow> parent_of c t;
           assert_that (p = Some n);
           comp \<leftarrow> compare_values cmp (key c) (key n);
           assert_that (comp = 1);
           BAVL_assert_recurser cmp key c t
         });
     assert_that (b = height_right - height_left);
     Some (max height_left height_right + 1)
   }"

definition BAVL_Verify :: "'k comparator \<Rightarrow> (nat \<Rightarrow> 'k) \<Rightarrow> BAVL \<Rightarrow> unit option" where
  "BAVL_Verify cmp key t =
     (case av_root t of None \<Rightarrow> Some ()
      | Some r \<Rightarrow> do {
          p \<leftarrow> parent_of r t;
          assert_that (p = None);
          _ \<leftarrow> BAVL_assert_recurser cmp key r t;
          Some ()
        })"

end
