(* ===== verification/BAVLTree.thy ===== *)
theory BAVLTree
  imports BAVL "HOL-Library.Tree"
begin

text \<open>
  The heap of a \<open>BAVL\<close> as a binary tree: \<open>trep\<close> relates the nodes reachable from a pointer to a tree
  of addresses and balance factors, and \<open>srep\<close> the whole structure. A tree around a subtree is
  written \<open>plug T ctx\<close>, the subtree in its context, a list of the nodes above it with the side it hangs
  on and the other subtree. Each operation on nodes becomes an equation on such trees.
\<close>

type_synonym atree = "(nat \<times> int) tree"

type_synonym actx = "(bool \<times> (nat \<times> int) \<times> atree) list"

section \<open>Trees and contexts\<close>

text \<open>A node with the subtree on side \<open>s\<close> first and the other one second.\<close>

definition mk :: "bool \<Rightarrow> atree \<Rightarrow> nat \<times> int \<Rightarrow> atree \<Rightarrow> atree" where
  "mk s c x d = (if s then Node d x c else Node c x d)"

lemma mk_not: "mk (\<not> s) c x d = mk s d x c"
  by (simp add: mk_def)

lemma mk_eq_iff [simp]: "mk s c x d = mk s c' x' d' \<longleftrightarrow> c = c' \<and> x = x' \<and> d = d'" "mk s c x d \<noteq> Leaf"
  by (auto simp: mk_def)

lemma tree_mk_cases:
  obtains "t = Leaf" | c a b d where "t = mk s c (a, b) d"
proof (cases t)
  case (Node l x r)
  obtain a b where "x = (a, b)" by (cases x)
  then have "t = mk s (if s then r else l) (a, b) (if s then l else r)" using Node by (simp add: mk_def)
  then show thesis using that by blast
qed (use that in simp)

fun root_addr :: "atree \<Rightarrow> nat option" where
  "root_addr Leaf = None"
| "root_addr (Node l (a, b) r) = Some a"

definition addrs :: "atree \<Rightarrow> nat list" where
  "addrs t = map fst (inorder t)"

lemma root_addr_mk [simp]: "root_addr (mk s c (a, b) d) = Some a"
  by (simp add: mk_def)

lemma root_addr_None [simp]: "root_addr t = None \<longleftrightarrow> t = Leaf"
  by (cases t) auto

lemma addrs_simps [simp]: "addrs Leaf = []" "addrs (Node l (a, b) r) = addrs l @ a # addrs r"
  by (simp_all add: addrs_def)

lemma addrs_mk: "addrs (mk s c (a, b) d) = (if s then addrs d @ a # addrs c else addrs c @ a # addrs d)"
  by (simp add: mk_def)

lemma set_addrs_mk [simp]: "set (addrs (mk s c (a, b) d)) = insert a (set (addrs c) \<union> set (addrs d))"
  by (auto simp: addrs_mk)

lemma distinct_mk [simp]:
  "distinct (addrs (mk s c (a, b) d)) \<longleftrightarrow>
     a \<notin> set (addrs c) \<and> a \<notin> set (addrs d) \<and> distinct (addrs c) \<and> distinct (addrs d)
     \<and> set (addrs c) \<inter> set (addrs d) = {}"
  by (auto simp: addrs_mk)

lemma root_addr_in: "root_addr t = Some a \<Longrightarrow> a \<in> set (addrs t)"
  by (cases t rule: root_addr.cases) auto

fun plug :: "atree \<Rightarrow> actx \<Rightarrow> atree" where
  "plug t [] = t"
| "plug t ((s, x, d) # ctx) = plug (mk s t x d) ctx"

fun ctx_parent :: "actx \<Rightarrow> nat option" where
  "ctx_parent [] = None"
| "ctx_parent ((s, (a, b), d) # ctx) = Some a"

fun ctx_addrs :: "actx \<Rightarrow> nat list" where
  "ctx_addrs [] = []"
| "ctx_addrs ((s, (a, b), d) # ctx) = a # addrs d @ ctx_addrs ctx"

lemma plug_append: "plug t (c1 @ c2) = plug (plug t c1) c2"
  by (induction t c1 rule: plug.induct) auto

lemma set_plug [simp]: "set (addrs (plug t ctx)) = set (addrs t) \<union> set (ctx_addrs ctx)"
proof (induction t ctx rule: plug.induct)
  case (2 t s x d ctx)
  then show ?case by (cases x) auto
qed simp

lemma distinct_plug [simp]:
  "distinct (addrs (plug t ctx)) \<longleftrightarrow>
     distinct (addrs t) \<and> distinct (ctx_addrs ctx) \<and> set (addrs t) \<inter> set (ctx_addrs ctx) = {}"
proof (induction t ctx rule: plug.induct)
  case (2 t s x d ctx)
  then show ?case by (cases x) auto
qed simp

text \<open>What stands before and after the subtree in the order.\<close>

fun ctx_before :: "actx \<Rightarrow> nat list" where
  "ctx_before [] = []"
| "ctx_before ((s, (a, b), d) # ctx) = ctx_before ctx @ (if s then addrs d @ [a] else [])"

fun ctx_after :: "actx \<Rightarrow> nat list" where
  "ctx_after [] = []"
| "ctx_after ((s, (a, b), d) # ctx) = (if s then [] else a # addrs d) @ ctx_after ctx"

lemma addrs_plug: "addrs (plug t ctx) = ctx_before ctx @ addrs t @ ctx_after ctx"
proof (induction t ctx rule: plug.induct)
  case (2 t s x d ctx)
  obtain a b where "x = (a, b)" by (cases x)
  then show ?case using 2 by (simp add: addrs_mk)
qed simp

section \<open>Representation\<close>

fun trep :: "(nat \<rightharpoonup> BAVLNode) \<Rightarrow> nat option \<Rightarrow> atree \<Rightarrow> nat option \<Rightarrow> bool" where
  "trep h par Leaf p = (p = None)"
| "trep h par (Node l (a, b) r) p =
     (p = Some a \<and> (\<exists>n. h a = Some n \<and> bn_parent n = par \<and> bn_balance n = b
        \<and> trep h (Some a) l (bn_link n False) \<and> trep h (Some a) r (bn_link n True)))"

lemma trep_mk [simp]:
  "trep h par (mk s c (a, b) d) p =
     (p = Some a \<and> (\<exists>n. h a = Some n \<and> bn_parent n = par \<and> bn_balance n = b
        \<and> trep h (Some a) c (bn_link n s) \<and> trep h (Some a) d (bn_link n (\<not> s))))"
  by (auto simp: mk_def)

lemma trep_root: "trep h par t p \<Longrightarrow> p = root_addr t"
  by (cases t rule: root_addr.cases) auto

lemma trep_cong: "(\<And>a. a \<in> set (addrs t) \<Longrightarrow> h' a = h a) \<Longrightarrow> trep h' par t p = trep h par t p"
  by (induction h par t p rule: trep.induct) auto

lemma trep_upd [simp]: "a \<notin> set (addrs t) \<Longrightarrow> trep (h(a \<mapsto> n)) par t p = trep h par t p"
  by (rule trep_cong) auto

fun crep :: "BAVL \<Rightarrow> actx \<Rightarrow> nat option \<Rightarrow> bool" where
  "crep t [] p = (av_root t = p)"
| "crep t ((s, (a, b), d) # ctx) p =
     (crep t ctx (Some a) \<and> (\<exists>n. av_heap t a = Some n \<and> bn_parent n = ctx_parent ctx \<and> bn_balance n = b
        \<and> bn_link n s = p \<and> trep (av_heap t) (Some a) d (bn_link n (\<not> s))))"

lemma crep_cong:
  "av_root t' = av_root t \<Longrightarrow> (\<And>a. a \<in> set (ctx_addrs ctx) \<Longrightarrow> av_heap t' a = av_heap t a)
   \<Longrightarrow> crep t' ctx p = crep t ctx p"
proof (induction ctx arbitrary: p rule: ctx_addrs.induct)
  case (2 s a b d ctx)
  have "trep (av_heap t') par d q = trep (av_heap t) par d q" for par q
    using 2(3) by (intro trep_cong) auto
  then show ?case using 2 by simp
qed simp

lemma crep_upd [simp]:
  "a \<notin> set (ctx_addrs ctx) \<Longrightarrow> crep (t\<lparr>av_heap := (av_heap t)(a \<mapsto> n)\<rparr>) ctx p = crep t ctx p"
  by (rule crep_cong) auto

definition srep :: "BAVL \<Rightarrow> atree \<Rightarrow> bool" where
  "srep t T \<longleftrightarrow> distinct (addrs T) \<and> trep (av_heap t) None T (av_root t)"

lemma srep_plug:
  "srep t (plug T ctx) \<longleftrightarrow> distinct (addrs (plug T ctx)) \<and> crep t ctx (root_addr T)
     \<and> trep (av_heap t) (ctx_parent ctx) T (root_addr T)"
proof (induction T ctx rule: plug.induct)
  case (1 T)
  then show ?case using trep_root [of "av_heap t" None T "av_root t"] by (auto simp: srep_def)
next
  case (2 T s x d ctx)
  obtain a b where x: "x = (a, b)" by (cases x)
  have k: "trep (av_heap t) (Some a) T (bn_link n s)
      \<longleftrightarrow> bn_link n s = root_addr T \<and> trep (av_heap t) (Some a) T (root_addr T)" for n :: BAVLNode
    using trep_root by metis
  show ?case
    unfolding x plug.simps 2 [unfolded x] root_addr_mk trep_mk k crep.simps ctx_parent.simps by blast
qed

section \<open>Reading\<close>

lemma srep_mk:
  assumes "srep t (plug (mk s c (a, b) d) ctx)"
  obtains n where "av_heap t a = Some n" "bn_parent n = ctx_parent ctx" "bn_balance n = b"
    "bn_link n s = root_addr c" "bn_link n (\<not> s) = root_addr d"
    "trep (av_heap t) (Some a) c (root_addr c)" "trep (av_heap t) (Some a) d (root_addr d)"
    "crep t ctx (Some a)" "distinct (addrs (plug (mk s c (a, b) d) ctx))"
proof -
  have s: "distinct (addrs (plug (mk s c (a, b) d) ctx))" "crep t ctx (Some a)"
      "trep (av_heap t) (ctx_parent ctx) (mk s c (a, b) d) (Some a)"
    using assms unfolding srep_plug root_addr_mk by blast+
  then obtain n where n: "av_heap t a = Some n" "bn_parent n = ctx_parent ctx" "bn_balance n = b"
      "trep (av_heap t) (Some a) c (bn_link n s)" "trep (av_heap t) (Some a) d (bn_link n (\<not> s))"
    unfolding trep_mk by blast
  have l: "bn_link n s = root_addr c" "bn_link n (\<not> s) = root_addr d"
    using trep_root [OF n(4)] trep_root [OF n(5)] by simp_all
  show thesis by (rule that [OF n(1-3) l n(4,5) [unfolded l] s(2,1)])
qed

lemma read_mk [simp]:
  assumes "srep t (plug (mk s c (a, b) d) ctx)"
  shows "link_of a s t = Some (root_addr c)" "link_of a (\<not> s) t = Some (root_addr d)"
    "balance_of a t = Some b" "parent_of a t = Some (ctx_parent ctx)"
  by (rule srep_mk [OF assms]; simp add: link_of_def balance_of_def parent_of_def)+

text \<open>The side a subtree hangs on is found by comparing the right link of its parent.\<close>

lemma read_side:
  assumes "srep t (plug T ((s, (a, b), d) # ctx))" "root_addr T = Some r"
  shows "link_of a True t = Some (if s then Some r else root_addr d)" "(Some r = (if s then Some r else root_addr d)) = s"
proof -
  have m: "srep t (plug (mk s T (a, b) d) ctx)" using assms(1) by simp
  show "link_of a True t = Some (if s then Some r else root_addr d)"
    using read_mk(1,2) [OF m] assms(2) by (cases s) auto
  have "r \<in> set (addrs T)" using assms(2) by (rule root_addr_in)
  then have "root_addr d \<noteq> Some r" using m root_addr_in [of d r] by (auto simp: srep_plug)
  then show "(Some r = (if s then Some r else root_addr d)) = s" by auto
qed

section \<open>Writing\<close>

lemma set_balance_mk:
  assumes "srep t (plug (mk s c (a, b) d) ctx)"
  obtains t' where "set_balance a b' t = Some t'" "srep t' (plug (mk s c (a, b') d) ctx)"
proof (rule srep_mk [OF assms])
  fix n assume n: "av_heap t a = Some n" "bn_parent n = ctx_parent ctx" "bn_balance n = b"
    "bn_link n s = root_addr c" "bn_link n (\<not> s) = root_addr d"
    "trep (av_heap t) (Some a) c (root_addr c)" "trep (av_heap t) (Some a) d (root_addr d)"
    "crep t ctx (Some a)" "distinct (addrs (plug (mk s c (a, b) d) ctx))"
  let ?t = "t\<lparr>av_heap := (av_heap t)(a \<mapsto> n\<lparr>bn_balance := b'\<rparr>)\<rparr>"
  have "set_balance a b' t = Some ?t" using n(1) by (simp add: set_balance_def)
  moreover have "srep ?t (plug (mk s c (a, b') d) ctx)" using n unfolding srep_plug by auto
  ultimately show thesis by (rule that)
qed

text \<open>Hanging another subtree into a context, at the place of a node \<open>r\<close>.\<close>

lemma crep_place:
  assumes "crep t ctx (Some r)" "distinct (ctx_addrs ctx)" "r \<notin> set (ctx_addrs ctx)"
  obtains t' where "set_place (ctx_parent ctx) r p t = Some t'" "crep t' ctx p"
    "\<And>a. a \<notin> set (ctx_addrs ctx) \<Longrightarrow> av_heap t' a = av_heap t a"
proof (cases ctx)
  case Nil
  then show thesis using that assms by (simp add: set_place_def set_root_def)
next
  case (Cons e ctx')
  obtain s a b d where e: "e = (s, (a, b), d)" by (cases e) auto
  obtain n where n: "av_heap t a = Some n" "bn_parent n = ctx_parent ctx'" "bn_balance n = b" "bn_link n s = Some r"
      "trep (av_heap t) (Some a) d (bn_link n (\<not> s))" "crep t ctx' (Some a)"
    using assms(1) unfolding Cons e by auto
  have "bn_link n (\<not> s) \<noteq> Some r"
    using trep_root [OF n(5)] root_addr_in [of d r] assms(3) unfolding Cons e by auto
  then have side: "(Some r = bn_link n True) = s" using n(4) by (cases s) auto
  let ?t = "t\<lparr>av_heap := (av_heap t)(a \<mapsto> n\<lparr>bn_link := (bn_link n)(s := p)\<rparr>)\<rparr>"
  have "set_place (ctx_parent ctx) r p t = Some ?t"
    using n(1) side unfolding Cons e by (simp add: set_place_def link_of_def set_link_def)
  moreover have "crep ?t ctx p" using n assms(2) unfolding Cons e by auto
  ultimately show thesis by (rule that) (auto simp: Cons e)
qed

text \<open>Giving a subtree another parent.\<close>

lemma trep_parent:
  assumes "trep (av_heap t) par T p" "distinct (addrs T)"
  obtains t' where "set_parent_if p q t = Some t'" "trep (av_heap t') q T p" "av_root t' = av_root t"
    "\<And>a. a \<notin> set (addrs T) \<Longrightarrow> av_heap t' a = av_heap t a"
proof (cases T rule: root_addr.cases)
  case 1
  then show thesis using that assms by (simp add: set_parent_if_def)
next
  case (2 l a b r)
  then obtain n where n: "p = Some a" "av_heap t a = Some n" using assms by auto
  let ?t = "t\<lparr>av_heap := (av_heap t)(a \<mapsto> n\<lparr>bn_parent := q\<rparr>)\<rparr>"
  have "set_parent_if p q t = Some ?t" using n by (simp add: set_parent_if_def set_parent_def)
  moreover have "trep (av_heap ?t) q T p" using assms n 2 by auto
  ultimately show thesis by (rule that) (auto simp: 2)
qed

lemma rotate_mk:
  assumes "srep t (plug (mk (\<not> dir) (mk dir x (nr, b2) y) (r, b1) z) ctx)"
  obtains t' where "BAVL_rotate r dir t = Some t'" "srep t' (plug (mk dir (mk (\<not> dir) x (r, b1) z) (nr, b2) y) ctx)"
proof -
  obtain rn where rn: "av_heap t r = Some rn" "bn_parent rn = ctx_parent ctx" "bn_balance rn = b1"
    "bn_link rn (\<not> dir) = Some nr" "bn_link rn dir = root_addr z"
    "trep (av_heap t) (Some r) (mk dir x (nr, b2) y) (Some nr)" "trep (av_heap t) (Some r) z (root_addr z)"
    "crep t ctx (Some r)" "distinct (addrs (plug (mk (\<not> dir) (mk dir x (nr, b2) y) (r, b1) z) ctx))"
    by (rule srep_mk [OF assms]) simp
  obtain nn where nn: "av_heap t nr = Some nn" "bn_parent nn = Some r" "bn_balance nn = b2"
      "bn_link nn dir = root_addr x" "bn_link nn (\<not> dir) = root_addr y"
      "trep (av_heap t) (Some nr) x (root_addr x)" "trep (av_heap t) (Some nr) y (root_addr y)"
  proof -
    obtain nn where n: "av_heap t nr = Some nn" "bn_parent nn = Some r" "bn_balance nn = b2"
        "trep (av_heap t) (Some nr) x (bn_link nn dir)" "trep (av_heap t) (Some nr) y (bn_link nn (\<not> dir))"
      using rn(6) unfolding trep_mk by blast
    have l: "bn_link nn dir = root_addr x" "bn_link nn (\<not> dir) = root_addr y"
      using trep_root [OF n(4)] trep_root [OF n(5)] by simp_all
    show thesis by (rule that [OF n(1-3) l n(4,5) [unfolded l]])
  qed
  have dist: "distinct (addrs x)" "distinct (addrs y)" "distinct (addrs z)" "distinct (ctx_addrs ctx)" "r \<noteq> nr"
    "r \<notin> set (addrs x)" "r \<notin> set (addrs y)" "r \<notin> set (addrs z)" "r \<notin> set (ctx_addrs ctx)"
    "nr \<notin> set (addrs x)" "nr \<notin> set (addrs y)" "nr \<notin> set (addrs z)" "nr \<notin> set (ctx_addrs ctx)"
    "set (addrs x) \<inter> set (addrs y) = {}" "set (addrs x) \<inter> set (addrs z) = {}" "set (addrs y) \<inter> set (addrs z) = {}"
    "set (addrs x) \<inter> set (ctx_addrs ctx) = {}" "set (addrs y) \<inter> set (ctx_addrs ctx) = {}"
    "set (addrs z) \<inter> set (ctx_addrs ctx) = {}"
    using rn(9) by auto
  let ?rn = "rn\<lparr>bn_link := (bn_link rn)(\<not> dir := root_addr x)\<rparr>" and ?nn = "nn\<lparr>bn_link := (bn_link nn)(dir := Some r)\<rparr>"
  let ?t1 = "t\<lparr>av_heap := (av_heap t)(r \<mapsto> ?rn)\<rparr>"
  have t1: "trep (av_heap ?t1) (Some nr) x (root_addr x)" using nn(6) dist(6) by simp
  obtain t2 where t2: "set_parent_if (root_addr x) (Some r) ?t1 = Some t2" "trep (av_heap t2) (Some r) x (root_addr x)"
      "av_root t2 = av_root ?t1" "\<And>a. a \<notin> set (addrs x) \<Longrightarrow> av_heap t2 a = av_heap ?t1 a"
    by (rule trep_parent [OF t1 dist(1)]) blast
  let ?t3 = "t2\<lparr>av_heap := (av_heap t2)(nr \<mapsto> ?nn)\<rparr>"
  let ?t4 = "t2\<lparr>av_heap := (av_heap t2)(nr \<mapsto> ?nn\<lparr>bn_parent := ctx_parent ctx\<rparr>)\<rparr>"
  have "a \<notin> set (addrs x) \<and> a \<noteq> r \<and> a \<noteq> nr" if "a \<in> set (ctx_addrs ctx)" for a :: nat
    using that dist by blast
  then have "crep ?t4 ctx (Some r) = crep t ctx (Some r)" by (intro crep_cong) (simp_all add: t2(3,4))
  then have c4: "crep ?t4 ctx (Some r)" using rn(8) by simp
  obtain t5 where t5: "set_place (ctx_parent ctx) r (Some nr) ?t4 = Some t5" "crep t5 ctx (Some nr)"
      "\<And>a. a \<notin> set (ctx_addrs ctx) \<Longrightarrow> av_heap t5 a = av_heap ?t4 a"
    by (rule crep_place [OF c4 dist(4,9)]) blast
  let ?t6 = "t5\<lparr>av_heap := (av_heap t5)(r \<mapsto> ?rn\<lparr>bn_parent := Some nr\<rparr>)\<rparr>"
  have rot: "BAVL_rotate r dir t = Some ?t6"
    using rn(1,2,4) nn(1,4) dist t2(1,4) t5(1,3)
    by (simp add: BAVL_rotate_def link_of_def set_link_def parent_of_def set_parent_def)
  have px: "a \<notin> set (ctx_addrs ctx) \<and> a \<noteq> r \<and> a \<noteq> nr" if "a \<in> set (addrs x)" for a
    using that dist by blast
  have py: "a \<notin> set (ctx_addrs ctx) \<and> a \<notin> set (addrs x) \<and> a \<noteq> r \<and> a \<noteq> nr"
    if "a \<in> set (addrs y) \<or> a \<in> set (addrs z)" for a
    using that dist by blast
  have "trep (av_heap ?t6) (Some r) x (root_addr x) = trep (av_heap t2) (Some r) x (root_addr x)"
    by (rule trep_cong) (use px t5(3) in simp)
  then have tx: "trep (av_heap ?t6) (Some r) x (root_addr x)" using t2(2) by simp
  have "trep (av_heap ?t6) (Some nr) y (root_addr y) = trep (av_heap t) (Some nr) y (root_addr y)"
    by (rule trep_cong) (use py t5(3) t2(4) in simp)
  then have ty: "trep (av_heap ?t6) (Some nr) y (root_addr y)" using nn(7) by simp
  have "trep (av_heap ?t6) (Some r) z (root_addr z) = trep (av_heap t) (Some r) z (root_addr z)"
    by (rule trep_cong) (use py t5(3) t2(4) in simp)
  then have tz: "trep (av_heap ?t6) (Some r) z (root_addr z)" using rn(7) by simp
  have "crep ?t6 ctx (Some nr)" using t5(2) dist by simp
  then have "srep ?t6 (plug (mk dir (mk (\<not> dir) x (r, b1) z) (nr, b2) y) ctx)"
    using tx ty tz rn(1,3,4,5) nn dist t5(3) t2(4) unfolding srep_plug by auto
  then show thesis using that rot by blast
qed

end
