(* ===== verification/BAVLBalance.thy ===== *)
theory BAVLBalance
  imports BAVLTree
begin

text \<open>
  Rebalancing keeps the order of the nodes and makes every balance factor right: if below one node
  of a balanced tree a subtree has changed its height by one, the walk of \<open>_BAVL_rebalance\<close> towards the
  root ends in a balanced tree again.
\<close>

section \<open>Balanced trees\<close>

abbreviation ht :: "atree \<Rightarrow> int" where "ht T \<equiv> int (height T)"

definition sg :: "bool \<Rightarrow> int" where "sg s = (if s then 1 else - 1)"

lemma sg_cases: "sg s = 1 \<and> s \<or> sg s = - 1 \<and> \<not> s"
  by (simp add: sg_def)

lemma sg_not [simp]: "sg (\<not> s) = - sg s"
  by (simp add: sg_def)

fun wbal :: "atree \<Rightarrow> bool" where
  "wbal Leaf = True"
| "wbal (Node l (a, b) r) = (b = ht r - ht l \<and> \<bar>b\<bar> \<le> 1 \<and> wbal l \<and> wbal r)"

fun cbal :: "int \<Rightarrow> actx \<Rightarrow> bool" where
  "cbal k [] = True"
| "cbal k ((s, (a, b), d) # ctx) =
     (b = sg s * (k - ht d) \<and> \<bar>b\<bar> \<le> 1 \<and> wbal d \<and> cbal (1 + max k (ht d)) ctx)"

lemma height_mk [simp]: "height (mk s c x d) = Suc (max (height c) (height d))"
  by (simp add: mk_def max.commute)

lemma wbal_mk [simp]:
  "wbal (mk s c (a, b) d) \<longleftrightarrow> b = sg s * (ht c - ht d) \<and> \<bar>b\<bar> \<le> 1 \<and> wbal c \<and> wbal d"
  by (auto simp: mk_def sg_def)

lemma wbal_plug: "wbal (plug T ctx) \<longleftrightarrow> wbal T \<and> cbal (ht T) ctx"
proof (induction T ctx rule: plug.induct)
  case (2 T s x d ctx)
  obtain a b where "x = (a, b)" by (cases x)
  then show ?case using 2 by (auto simp: max_def add.commute)
qed simp

section \<open>The transformations\<close>

lemma transform_none:
  assumes "srep t (plug (mk s c (a, b) d) ctx)" "- 1 \<le> b" "b \<le> 1"
  shows "BAVL_transform a delta t = Some (a, delta, t)"
  using read_mk(3) [OF assms(1)] assms(2,3) by (simp add: BAVL_transform_def)

lemma transform_single:
  assumes s: "srep t (plug (mk bs (mk bs x (ch, cb) y) (a, 2 * sg bs) lt) ctx)"
    and "cb * sg bs = 1 \<or> cb = 0"
  obtains t' where "BAVL_transform a delta t =
      Some (ch, if cb = 0 then delta else delta - 1, t')"
    "srep t' (plug (mk (\<not> bs) (mk bs y (a, if cb = 0 then sg bs else 0) lt) (ch, if cb = 0 then - sg bs else 0) x) ctx)"
proof -
  let ?na = "if cb = 0 then sg bs else 0" and ?nc = "if cb = 0 then - sg bs else 0"
  have m: "mk bs x (ch, cb) y = mk (\<not> bs) y (ch, cb) x" using mk_not [of "\<not> bs"] by simp
  have s': "srep t (plug (mk (\<not> (\<not> bs)) (mk (\<not> bs) y (ch, cb) x) (a, 2 * sg bs) lt) ctx)"
    using s unfolding m by simp
  obtain t1 where t1: "BAVL_rotate a (\<not> bs) t = Some t1"
      "srep t1 (plug (mk (\<not> bs) (mk bs y (a, 2 * sg bs) lt) (ch, cb) x) ctx)"
    using rotate_mk [OF s'] by auto
  have f1: "srep t1 (plug (mk bs y (a, 2 * sg bs) lt) ((\<not> bs, (ch, cb), x) # ctx))" using t1(2) by simp
  obtain t2 where t2: "set_balance a ?na t1 = Some t2"
      "srep t2 (plug (mk bs y (a, ?na) lt) ((\<not> bs, (ch, cb), x) # ctx))"
    by (rule set_balance_mk [OF f1])
  have f2: "srep t2 (plug (mk (\<not> bs) (mk bs y (a, ?na) lt) (ch, cb) x) ctx)" using t2(2) by simp
  obtain t3 where t3: "set_balance ch ?nc t2 = Some t3"
      "srep t3 (plug (mk (\<not> bs) (mk bs y (a, ?na) lt) (ch, ?nc) x) ctx)"
    by (rule set_balance_mk [OF f2])
  have sc: "srep t (plug (mk bs x (ch, cb) y) ((bs, (a, 2 * sg bs), lt) # ctx))" using s by simp
  have "BAVL_transform a delta t = Some (ch, if cb = 0 then delta else delta - 1, t3)"
    using read_mk(1,3) [OF s] read_mk(3) [OF sc] t1(1) t2(1) t3(1) assms(2)
    by (cases bs) (auto simp: BAVL_transform_def sg_def Let_def)
  then show thesis using that t3(2) by blast
qed

lemma transform_double:
  assumes s: "srep t (plug (mk bs (mk bs x (ch, cb) (mk bs p (g, gb) q)) (a, 2 * sg bs) lt) ctx)"
    and "cb * sg bs = - 1"
  obtains t' where "BAVL_transform a delta t = Some (g, delta - 1, t')"
    "srep t' (plug (mk (\<not> bs) (mk bs q (a, - max 0 (gb * sg bs) * sg bs) lt) (g, 0)
                      (mk (\<not> bs) p (ch, max 0 (- gb * sg bs) * sg bs) x)) ctx)"
proof -
  let ?na = "- max 0 (gb * sg bs) * sg bs" and ?nc = "max 0 (- gb * sg bs) * sg bs"
  have m: "mk bs x (ch, cb) (mk bs p (g, gb) q) = mk (\<not> bs) (mk bs p (g, gb) q) (ch, cb) x"
    using mk_not [of "\<not> bs"] by simp
  have s1: "srep t (plug (mk (\<not> bs) (mk bs p (g, gb) q) (ch, cb) x) ((bs, (a, 2 * sg bs), lt) # ctx))"
    using s unfolding m by simp
  obtain t1 where t1: "BAVL_rotate ch bs t = Some t1"
      "srep t1 (plug (mk bs (mk (\<not> bs) p (ch, cb) x) (g, gb) q) ((bs, (a, 2 * sg bs), lt) # ctx))"
    by (rule rotate_mk [OF s1])
  have s2: "srep t1 (plug (mk (\<not> (\<not> bs)) (mk (\<not> bs) q (g, gb) (mk (\<not> bs) p (ch, cb) x)) (a, 2 * sg bs) lt) ctx)"
    using t1(2) mk_not [of bs q] by simp
  obtain t2 where t2: "BAVL_rotate a (\<not> bs) t1 = Some t2"
      "srep t2 (plug (mk (\<not> bs) (mk bs q (a, 2 * sg bs) lt) (g, gb) (mk (\<not> bs) p (ch, cb) x)) ctx)"
    using rotate_mk [OF s2] by auto
  have f2: "srep t2 (plug (mk bs q (a, 2 * sg bs) lt) ((\<not> bs, (g, gb), mk (\<not> bs) p (ch, cb) x) # ctx))"
    using t2(2) by simp
  obtain t3 where t3: "set_balance a ?na t2 = Some t3"
      "srep t3 (plug (mk bs q (a, ?na) lt) ((\<not> bs, (g, gb), mk (\<not> bs) p (ch, cb) x) # ctx))"
    by (rule set_balance_mk [OF f2])
  have g3: "srep t3 (plug (mk (\<not> bs) (mk bs q (a, ?na) lt) (g, gb) (mk (\<not> bs) p (ch, cb) x)) ctx)"
    using t3(2) by simp
  have f3: "srep t3 (plug (mk (\<not> bs) p (ch, cb) x) ((bs, (g, gb), mk bs q (a, ?na) lt) # ctx))"
    using g3 mk_not [of bs] by simp
  obtain t4 where t4: "set_balance ch ?nc t3 = Some t4"
      "srep t4 (plug (mk (\<not> bs) p (ch, ?nc) x) ((bs, (g, gb), mk bs q (a, ?na) lt) # ctx))"
    by (rule set_balance_mk [OF f3])
  have f4: "srep t4 (plug (mk (\<not> bs) (mk bs q (a, ?na) lt) (g, gb) (mk (\<not> bs) p (ch, ?nc) x)) ctx)"
    using t4(2) mk_not [of bs] by simp
  obtain t5 where t5: "set_balance g 0 t4 = Some t5"
      "srep t5 (plug (mk (\<not> bs) (mk bs q (a, ?na) lt) (g, 0) (mk (\<not> bs) p (ch, ?nc) x)) ctx)"
    by (rule set_balance_mk [OF f4])
  have "BAVL_transform a delta t = Some (g, delta - 1, t5)"
    using read_mk(1,3) [OF s] read_mk(1,3) [OF s1] t1(1) t2(1) t3(1) t4(1) t5(1) assms(2)
      read_mk(3) [OF t2(2)] read_mk(3) [OF g3]
    by (cases bs) (auto simp: BAVL_transform_def sg_def Let_def)
  then show thesis using that t5(2) by blast
qed

lemma transform_heavy:
  assumes s: "srep t (plug (mk bs hv (a, 2 * sg bs) lt) ctx)"
    and "wbal hv" "wbal lt" "ht hv = ht lt + 2"
  obtains t' n' delta' T1 where "BAVL_transform a delta t = Some (n', delta', t')" "srep t' (plug T1 ctx)"
    "wbal T1" "root_addr T1 = Some n'" "addrs T1 = addrs (mk bs hv (a, 2 * sg bs) lt)"
    "delta' = delta \<or> delta' = delta - 1" "ht T1 - delta' = ht lt + 3 - delta"
proof (cases hv rule: tree_mk_cases [where s = bs])
  case 1
  then show thesis using assms(4) by simp
next
  case (2 x ch cb y)
  have w: "cb = sg bs * (ht x - ht y)" "\<bar>cb\<bar> \<le> 1" "wbal x" "wbal y" using assms(2) 2 by auto
  have h: "max (ht x) (ht y) = ht lt + 1" using assms(4) 2 by (simp add: of_nat_max)
  consider (single) "cb * sg bs = 1 \<or> cb = 0" | (double) "cb * sg bs = - 1"
    using w(2) sg_cases [of bs] by fastforce
  then show thesis
  proof cases
    case single
    obtain t' where t': "BAVL_transform a delta t = Some (ch, if cb = 0 then delta else delta - 1, t')"
      "srep t' (plug (mk (\<not> bs) (mk bs y (a, if cb = 0 then sg bs else 0) lt) (ch, if cb = 0 then - sg bs else 0) x) ctx)"
      by (rule transform_single [OF s [unfolded 2] single])
    show thesis
      by (rule that [OF t'(1,2)])
         (use w h single assms(3) sg_cases [of bs] in \<open>auto simp: 2 addrs_mk of_nat_max\<close>)
  next
    case double
    have "ht y = ht x + 1" using w(1) double sg_cases [of bs] by auto
    then obtain p g gb q where y: "y = mk bs p (g, gb) q" by (cases y rule: tree_mk_cases [where s = bs]) auto
    have v: "gb = sg bs * (ht p - ht q)" "\<bar>gb\<bar> \<le> 1" "wbal p" "wbal q" "max (ht p) (ht q) = ht x" "ht x = ht lt"
      using w(4) \<open>ht y = ht x + 1\<close> h y by (auto simp: of_nat_max)
    obtain t' where t': "BAVL_transform a delta t = Some (g, delta - 1, t')"
      "srep t' (plug (mk (\<not> bs) (mk bs q (a, - max 0 (gb * sg bs) * sg bs) lt) (g, 0)
                      (mk (\<not> bs) p (ch, max 0 (- gb * sg bs) * sg bs) x)) ctx)"
      by (rule transform_double [OF s [unfolded 2 y] double])
    show thesis
      by (rule that [OF t'(1,2)])
         (use w v assms(3) sg_cases [of bs] in \<open>auto simp: 2 y addrs_mk of_nat_max\<close>)
  qed
qed

section \<open>The walk to the root\<close>

lemma rebalance_step:
  assumes s: "srep t (plug c ((s, (a, b), d) # ctx))" and "wbal c"
    and cb: "cbal (ht c - deltac) ((s, (a, b), d) # ctx)" and dc: "deltac = 1 \<or> deltac = - 1"
  obtains t' n' delta' T1 where "BAVL_rebalance a s deltac t = do {
       p \<leftarrow> parent_of n' t';
       case p of None \<Rightarrow> Some t'
       | Some p \<Rightarrow> do { l \<leftarrow> link_of p True t'; BAVL_rebalance p (Some n' = l) delta' t' } }"
    "srep t' (plug T1 ctx)" "wbal T1" "root_addr T1 = Some n'" "addrs T1 = addrs (mk s c (a, b) d)"
    "- 1 \<le> delta'" "delta' \<le> 1" "cbal (ht T1 - delta') ctx"
proof -
  have s0: "srep t (plug (mk s c (a, b) d) ctx)" using s by simp
  define k where "k = ht c - deltac"
  have w: "b = sg s * (k - ht d)" "\<bar>b\<bar> \<le> 1" "wbal d" "cbal (1 + max k (ht d)) ctx"
    using cb unfolding cbal.simps k_def [symmetric] by blast+
  have neg: "BAVL_OPTNEG b s = ht d - k" using w(1) by (simp add: BAVL_OPTNEG_def sg_def)
  define delta where "delta = max deltac (ht d - k) - max 0 (ht d - k)"
  have delta: "- 1 \<le> delta" "delta \<le> 1" using w(1,2) dc sg_cases [of s] by (auto simp: delta_def)
  define b1 where "b1 = b - BAVL_OPTNEG deltac s"
  have b1: "b1 = sg s * (ht c - ht d)" using w(1) by (auto simp: b1_def BAVL_OPTNEG_def sg_def k_def)
  obtain t1 where t1: "set_balance a b1 t = Some t1" "srep t1 (plug (mk s c (a, b1) d) ctx)"
    by (rule set_balance_mk [OF s0])
  have run: "BAVL_rebalance a s deltac t = do {
       (node, delta, t) \<leftarrow> BAVL_transform a delta t1;
       assert_that (- 1 \<le> delta \<and> delta \<le> 1);
       p \<leftarrow> parent_of node t;
       case p of None \<Rightarrow> Some t
       | Some p \<Rightarrow> do { l \<leftarrow> link_of p True t; BAVL_rebalance p (Some node = l) delta t } }"
    using read_mk(3) [OF s0] w(2) dc t1(1) neg delta
    by (subst BAVL_rebalance.simps) (auto simp: Let_def delta_def [symmetric] b1_def [symmetric] abs_le_iff)
  have "\<bar>ht c - ht d\<bar> \<le> 2" using w(1,2) dc sg_cases [of s] by (auto simp: k_def)
  then consider (balanced) "\<bar>ht c - ht d\<bar> \<le> 1" | (left) "ht c = ht d + 2" | (right) "ht d = ht c + 2" by linarith
  then show thesis
  proof cases
    case balanced
    then have ab: "\<bar>b1\<bar> \<le> 1" using b1 sg_cases [of s] by auto
    have "BAVL_transform a delta t1 = Some (a, delta, t1)" by (rule transform_none [OF t1(2)]) (use ab in auto)
    moreover have "cbal (ht (mk s c (a, b1) d) - delta) ctx"
    proof -
      have "ht (mk s c (a, b1) d) - delta = 1 + max k (ht d)" by (auto simp: delta_def k_def of_nat_max)
      then show ?thesis using w(4) by metis
    qed
    ultimately show thesis
      using that [OF _ t1(2)] run delta ab b1 assms(2) w(3) by (simp add: addrs_mk)
  next
    case left
    then have k: "b1 = 2 * sg s" "1 + max k (ht d) = ht d + 3 - delta" "delta = 1"
      using b1 w(1,2) dc sg_cases [of s] by (auto simp: k_def delta_def)
    obtain t' n' delta' T1 where t': "BAVL_transform a delta t1 = Some (n', delta', t')" "srep t' (plug T1 ctx)"
        "wbal T1" "root_addr T1 = Some n'" "addrs T1 = addrs (mk s c (a, 2 * sg s) d)"
        "delta' = delta \<or> delta' = delta - 1" "ht T1 - delta' = ht d + 3 - delta"
      by (rule transform_heavy [OF t1(2) [unfolded k(1)] assms(2) w(3) left])
    have "ht T1 - delta' = 1 + max k (ht d)" using k(2) t'(7) by simp
    then have c: "cbal (ht T1 - delta') ctx" using w(4) by metis
    show thesis
      by (rule that [where delta' = delta', OF _ t'(2-4) _ _ _ c]) (use run t' k in \<open>auto simp: addrs_mk\<close>)
  next
    case right
    then have k: "b1 = 2 * sg (\<not> s)" "1 + max k (ht d) = ht c + 3 - delta" "delta = 0"
      using b1 w(1,2) dc sg_cases [of s] by (auto simp: k_def delta_def)
    have t1': "srep t1 (plug (mk (\<not> s) d (a, 2 * sg (\<not> s)) c) ctx)"
      using t1(2) unfolding k(1) by (simp add: mk_not)
    obtain t' n' delta' T1 where t': "BAVL_transform a delta t1 = Some (n', delta', t')" "srep t' (plug T1 ctx)"
        "wbal T1" "root_addr T1 = Some n'" "addrs T1 = addrs (mk (\<not> s) d (a, 2 * sg (\<not> s)) c)"
        "delta' = delta \<or> delta' = delta - 1" "ht T1 - delta' = ht c + 3 - delta"
      by (rule transform_heavy [OF t1' w(3) assms(2) right])
    have "ht T1 - delta' = 1 + max k (ht d)" using k(2) t'(7) by simp
    then have c: "cbal (ht T1 - delta') ctx" using w(4) by metis
    show thesis
      by (rule that [where delta' = delta', OF _ t'(2-4) _ _ _ c]) (use run t' k in \<open>auto simp: addrs_mk\<close>)
  qed
qed

lemma rebalance_ok:
  assumes "srep t (plug c ((s, (a, b), d) # ctx))" "wbal c" "cbal (ht c - deltac) ((s, (a, b), d) # ctx)"
    and "- 1 \<le> deltac" "deltac \<le> 1"
  shows "\<exists>t' T'. BAVL_rebalance a s deltac t = Some t' \<and> srep t' T' \<and> wbal T'
    \<and> addrs T' = addrs (plug c ((s, (a, b), d) # ctx))"
  using assms
proof (induction ctx arbitrary: t c s a b d deltac)
  case Nil
  show ?case
  proof (cases "deltac = 0")
    case True
    have "\<bar>b\<bar> \<le> 1" using Nil(3) unfolding cbal.simps by blast
    moreover have "srep t (plug (mk s c (a, b) d) [])" using Nil by simp
    ultimately show ?thesis
      using Nil True read_mk(3) [of t s c a b d "[]"] wbal_plug [of c "[(s, (a, b), d)]"]
      by (subst BAVL_rebalance.simps) (auto simp: abs_le_iff)
  next
    case False
    then have dc: "deltac = 1 \<or> deltac = - 1" using Nil by linarith
    obtain t' n' delta' T1 where r: "BAVL_rebalance a s deltac t = do {
         p \<leftarrow> parent_of n' t';
         case p of None \<Rightarrow> Some t'
         | Some p \<Rightarrow> do { l \<leftarrow> link_of p True t'; BAVL_rebalance p (Some n' = l) delta' t' } }"
      "srep t' (plug T1 [])" "wbal T1" "root_addr T1 = Some n'" "addrs T1 = addrs (mk s c (a, b) d)"
      by (rule rebalance_step [OF Nil(1-3) dc]) blast
    obtain x d' e where "T1 = mk True x (n', e) d'" using r(4) by (cases T1 rule: tree_mk_cases [where s = True]) auto
    then have "parent_of n' t' = Some None" using read_mk(4) [of t' True x n' e d' "[]"] r(2) by simp
    then show ?thesis using r by auto
  qed
next
  case (Cons e ctx)
  show ?case
  proof (cases "deltac = 0")
    case True
    have "\<bar>b\<bar> \<le> 1" using Cons.prems(3) unfolding cbal.simps by blast
    moreover have "srep t (plug (mk s c (a, b) d) (e # ctx))" using Cons.prems by simp
    ultimately show ?thesis
      using Cons.prems True read_mk(3) [of t s c a b d "e # ctx"] wbal_plug [of c "(s, (a, b), d) # e # ctx"]
      by (subst BAVL_rebalance.simps) (auto simp: abs_le_iff)
  next
    case False
    then have dc: "deltac = 1 \<or> deltac = - 1" using Cons.prems by linarith
    obtain t' n' delta' T1 where r: "BAVL_rebalance a s deltac t = do {
         p \<leftarrow> parent_of n' t';
         case p of None \<Rightarrow> Some t'
         | Some p \<Rightarrow> do { l \<leftarrow> link_of p True t'; BAVL_rebalance p (Some n' = l) delta' t' } }"
      "srep t' (plug T1 (e # ctx))" "wbal T1" "root_addr T1 = Some n'" "addrs T1 = addrs (mk s c (a, b) d)"
      "- 1 \<le> delta'" "delta' \<le> 1" "cbal (ht T1 - delta') (e # ctx)"
      by (rule rebalance_step [OF Cons.prems(1-3) dc])
    obtain s2 a2 b2 d2 where e: "e = (s2, (a2, b2), d2)" by (cases e) auto
    obtain x d' f where T1: "T1 = mk True x (n', f) d'" using r(4) by (cases T1 rule: tree_mk_cases [where s = True]) auto
    then have "parent_of n' t' = Some (Some a2)"
      using read_mk(4) [of t' True x n' f d' "e # ctx"] r(2) by (simp add: e)
    moreover have "link_of a2 True t' \<bind> (\<lambda>l. BAVL_rebalance a2 (Some n' = l) delta' t') = BAVL_rebalance a2 s2 delta' t'"
      using read_side [OF r(2) [unfolded e] r(4)] by simp
    ultimately have "BAVL_rebalance a s deltac t = BAVL_rebalance a2 s2 delta' t'" using r(1) by simp
    moreover have same: "addrs (plug T1 ((s2, (a2, b2), d2) # ctx))
        = addrs (plug c ((s, (a, b), d) # (s2, (a2, b2), d2) # ctx))"
      using r(5) by (simp add: addrs_plug addrs_mk)
    ultimately show ?thesis
      using Cons.IH [OF r(2) [unfolded e] r(3) r(8) [unfolded e] r(6,7)] same unfolding e by metis
  qed
qed

end
