(* ===== verification/BAVLSwap.thy ===== *)
theory BAVLSwap
  imports BAVLBalance
begin

text \<open>
  Swapping a node with the largest node of its left subtree, and replacing a node by its only
  subtree: the two steps of \<open>BAVL_Remove\<close> before it rebalances.
\<close>

section \<open>A piece of a tree\<close>

text \<open>
  The nodes of a context that ends below another node: \<open>p\<close> is the pointer at the place inside, \<open>p0\<close>
  the pointer to the top, whose parent is \<open>par\<close>.
\<close>

fun lrep :: "(nat \<rightharpoonup> BAVLNode) \<Rightarrow> nat option \<Rightarrow> actx \<Rightarrow> nat option \<Rightarrow> nat option \<Rightarrow> bool" where
  "lrep h par [] p0 p = (p0 = p)"
| "lrep h par ((s, (a, b), d) # ctx) p0 p =
     (lrep h par ctx p0 (Some a)
      \<and> (\<exists>n. h a = Some n \<and> bn_parent n = (if ctx = [] then par else ctx_parent ctx) \<and> bn_balance n = b
           \<and> bn_link n s = p \<and> trep h (Some a) d (bn_link n (\<not> s))))"

lemma ctx_parent_append: "ctx_parent (c1 @ c2) = (if c1 = [] then ctx_parent c2 else ctx_parent c1)"
  by (cases c1 rule: ctx_parent.cases) auto

lemma ctx_addrs_append: "ctx_addrs (c1 @ c2) = ctx_addrs c1 @ ctx_addrs c2"
  by (induction c1 rule: ctx_addrs.induct) auto

lemma crep_append: "crep t (c1 @ c2) p \<longleftrightarrow> (\<exists>p0. lrep (av_heap t) (ctx_parent c2) c1 p0 p \<and> crep t c2 p0)"
proof (induction c1 arbitrary: p rule: ctx_addrs.induct)
  case (2 s a b d c1)
  have "ctx_parent (c1 @ c2) = (if c1 = [] then ctx_parent c2 else ctx_parent c1)" by (rule ctx_parent_append)
  then show ?case using 2 by auto
qed simp

lemma lrep_cong:
  "(\<And>a. a \<in> set (ctx_addrs ctx) \<Longrightarrow> h' a = h a) \<Longrightarrow> lrep h' par ctx p0 p = lrep h par ctx p0 p"
proof (induction ctx arbitrary: p rule: ctx_addrs.induct)
  case (2 s a b d ctx)
  have "trep h' q d p = trep h q d p" for q p
    using 2(2) by (intro trep_cong) auto
  then show ?case using 2 by simp
qed simp

fun top_addr :: "actx \<Rightarrow> nat" where
  "top_addr [(s, (a, b), d)] = a"
| "top_addr (_ # ctx) = top_addr ctx"
| "top_addr [] = 0"

lemma top_addr_in: "ctx \<noteq> [] \<Longrightarrow> top_addr ctx \<in> set (ctx_addrs ctx)"
  by (induction ctx rule: top_addr.induct) auto

lemma lrep_top: "lrep h par ctx p0 p \<Longrightarrow> ctx \<noteq> [] \<Longrightarrow> p0 = Some (top_addr ctx)"
  by (induction ctx arbitrary: p rule: top_addr.induct) auto

lemma lrep_top_node: "lrep h par ctx p0 p \<Longrightarrow> ctx \<noteq> [] \<Longrightarrow> h (top_addr ctx) \<noteq> None"
  by (induction ctx arbitrary: p rule: top_addr.induct) auto

text \<open>A new pointer inside, and a new parent for the top.\<close>

lemma lrep_inside:
  assumes "lrep h par ((s, (a, b), d) # ctx) p0 p" "distinct (ctx_addrs ((s, (a, b), d) # ctx))" "h a = Some n"
  shows "lrep (h(a \<mapsto> n\<lparr>bn_link := (bn_link n)(s := q)\<rparr>)) par ((s, (a, b), d) # ctx) p0 q"
proof -
  let ?h = "h(a \<mapsto> n\<lparr>bn_link := (bn_link n)(s := q)\<rparr>)"
  have "lrep ?h par ctx p0 (Some a) = lrep h par ctx p0 (Some a)"
    using assms(2) by (intro lrep_cong) auto
  then show ?thesis using assms by auto
qed

lemma lrep_parent:
  assumes "lrep h par ctx p0 p" "distinct (ctx_addrs ctx)" "ctx \<noteq> []" "h (top_addr ctx) = Some n"
  shows "lrep (h(top_addr ctx \<mapsto> n\<lparr>bn_parent := q\<rparr>)) q ctx p0 p"
  using assms
proof (induction ctx arbitrary: p rule: ctx_addrs.induct)
  case (2 s a b d ctx)
  show ?case
  proof (cases "ctx = []")
    case True
    have "trep (h(a \<mapsto> n\<lparr>bn_parent := q\<rparr>)) (Some a) d r = trep h (Some a) d r" for r
      using 2(3) by (intro trep_upd) auto
    then show ?thesis using 2(2,5) unfolding True top_addr.simps lrep.simps by simp
  next
    case False
    then have top: "top_addr ((s, (a, b), d) # ctx) = top_addr ctx" by (cases ctx) auto
    then have ne: "a \<noteq> top_addr ctx" "top_addr ctx \<notin> set (addrs d)" using top_addr_in [OF False] 2(3) by auto
    have d: "trep (h(top_addr ctx \<mapsto> n\<lparr>bn_parent := q\<rparr>)) (Some a) d r = trep h (Some a) d r" for r
      using ne(2) by (rule trep_upd)
    have h: "(h(top_addr ctx \<mapsto> n\<lparr>bn_parent := q\<rparr>)) a = h a" using ne(1) by simp
    have "lrep (h(top_addr ctx \<mapsto> n\<lparr>bn_parent := q\<rparr>)) q ctx p0 (Some a)"
      by (rule 2(1)) (use 2(2-5) False top in simp_all)
    then show ?thesis using 2(2) False unfolding top lrep.simps d h by simp
  qed
qed simp

section \<open>Replacing a node by its subtree\<close>

lemma replace_ok:
  assumes "srep t (plug (mk s c (a, b) Leaf) ctx)"
  obtains t' where "BAVL_replace_subtree a (root_addr c) t = Some t'" "srep t' (plug c ctx)"
proof -
  obtain n where n: "av_heap t a = Some n" "bn_parent n = ctx_parent ctx"
    "trep (av_heap t) (Some a) c (root_addr c)" "crep t ctx (Some a)"
    "distinct (addrs (plug (mk s c (a, b) Leaf) ctx))"
    by (rule srep_mk [OF assms])
  then have d: "distinct (ctx_addrs ctx)" "a \<notin> set (ctx_addrs ctx)" "distinct (addrs c)" "a \<notin> set (addrs c)"
    "set (addrs c) \<inter> set (ctx_addrs ctx) = {}" by auto
  obtain t1 where t1: "set_place (ctx_parent ctx) a (root_addr c) t = Some t1" "crep t1 ctx (root_addr c)"
      "\<And>x. x \<notin> set (ctx_addrs ctx) \<Longrightarrow> av_heap t1 x = av_heap t x"
    by (rule crep_place [OF n(4) d(1,2)]) blast
  have "trep (av_heap t1) (Some a) c (root_addr c) = trep (av_heap t) (Some a) c (root_addr c)"
    by (rule trep_cong) (use t1(3) d(5) in blast)
  then have c1: "trep (av_heap t1) (Some a) c (root_addr c)" using n(3) by simp
  obtain t2 where t2: "set_parent_if (root_addr c) (ctx_parent ctx) t1 = Some t2"
      "trep (av_heap t2) (ctx_parent ctx) c (root_addr c)" "av_root t2 = av_root t1"
      "\<And>x. x \<notin> set (addrs c) \<Longrightarrow> av_heap t2 x = av_heap t1 x"
    by (rule trep_parent [OF c1 d(3)]) blast
  have "crep t2 ctx (root_addr c) = crep t1 ctx (root_addr c)"
    by (rule crep_cong) (use t2(3,4) d(5) in blast)+
  then have "srep t2 (plug c ctx)" using t1(2) t2(2) n(5) unfolding srep_plug by auto
  moreover have "BAVL_replace_subtree a (root_addr c) t = Some t2"
    using n(1,2) t1(1,3) t2(1) d(2) by (simp add: BAVL_replace_subtree_def parent_of_def)
  ultimately show thesis using that by blast
qed

section \<open>Swapping\<close>

lemma node_split:
  assumes "trep h par (Node l (a, b) r) (Some a)"
  obtains n where "h a = Some n" "bn_parent n = par" "bn_balance n = b" "bn_link n False = root_addr l"
    "bn_link n True = root_addr r" "trep h (Some a) l (root_addr l)" "trep h (Some a) r (root_addr r)"
proof -
  obtain n where n: "h a = Some n" "bn_parent n = par" "bn_balance n = b" "trep h (Some a) l (bn_link n False)"
      "trep h (Some a) r (bn_link n True)"
    using assms by auto
  have l: "bn_link n False = root_addr l" "bn_link n True = root_addr r"
    using trep_root [OF n(4)] trep_root [OF n(5)] by simp_all
  show thesis by (rule that [OF n(1-3) l n(4,5) [unfolded l]])
qed

lemma swap_connected_ok:
  assumes s: "srep t (plug (Node (Node ml (m, mb) Leaf) (a, b) r) ctx)"
  obtains t' where "BAVL_swap_nodes a m t = Some t'" "srep t' (plug (Node (Node ml (a, mb) Leaf) (m, b) r) ctx)"
proof -
  have s0: "distinct (addrs (plug (Node (Node ml (m, mb) Leaf) (a, b) r) ctx))" "crep t ctx (Some a)"
      "trep (av_heap t) (ctx_parent ctx) (Node (Node ml (m, mb) Leaf) (a, b) r) (Some a)"
    using s unfolding srep_plug by simp_all
  obtain an where an: "av_heap t a = Some an" "bn_parent an = ctx_parent ctx" "bn_balance an = b"
      "bn_link an False = Some m" "bn_link an True = root_addr r"
      "trep (av_heap t) (Some a) (Node ml (m, mb) Leaf) (Some m)" "trep (av_heap t) (Some a) r (root_addr r)"
    using node_split [OF s0(3)] by (metis root_addr.simps(2))
  obtain mn where mn: "av_heap t m = Some mn" "bn_parent mn = Some a" "bn_balance mn = mb"
      "bn_link mn False = root_addr ml" "bn_link mn True = None" "trep (av_heap t) (Some m) ml (root_addr ml)"
    using node_split [OF an(6)] by (metis root_addr.simps(1))
  have d: "a \<noteq> m" "distinct (addrs ml)" "distinct (addrs r)" "distinct (ctx_addrs ctx)"
    "a \<notin> set (addrs ml)" "m \<notin> set (addrs ml)" "a \<notin> set (addrs r)" "m \<notin> set (addrs r)"
    "a \<notin> set (ctx_addrs ctx)" "m \<notin> set (ctx_addrs ctx)"
    using s0(1) by auto
  have dj: "x \<in> set (addrs ml) \<Longrightarrow> x \<notin> set (addrs r) \<and> x \<notin> set (ctx_addrs ctx) \<and> x \<noteq> a \<and> x \<noteq> m"
    "x \<in> set (addrs r) \<Longrightarrow> x \<notin> set (addrs ml) \<and> x \<notin> set (ctx_addrs ctx) \<and> x \<noteq> a \<and> x \<noteq> m"
    "x \<in> set (ctx_addrs ctx) \<Longrightarrow> x \<notin> set (addrs ml) \<and> x \<notin> set (addrs r) \<and> x \<noteq> a \<and> x \<noteq> m" for x
    using s0(1) by auto
  have up: "ctx_parent ctx \<noteq> Some m" using d(10) by (cases ctx rule: ctx_parent.cases) auto
  have side: "root_addr r \<noteq> Some m" using root_addr_in [of r m] d(8) by auto
  let ?a1 = "an\<lparr>bn_link := (bn_link an)(False := root_addr ml)\<rparr>"
  let ?a2 = "?a1\<lparr>bn_link := (bn_link ?a1)(True := None)\<rparr>" and ?m1 = "mn\<lparr>bn_parent := ctx_parent ctx\<rparr>"
  let ?m2 = "?m1\<lparr>bn_link := (bn_link ?m1)(False := Some a)\<rparr>"
  let ?m3 = "?m2\<lparr>bn_link := (bn_link ?m2)(True := root_addr r)\<rparr>" and ?a3 = "?a2\<lparr>bn_parent := Some m\<rparr>"
  let ?t1 = "t\<lparr>av_heap := (av_heap t)(a \<mapsto> ?a1)\<rparr>"
  have "trep (av_heap ?t1) (Some m) ml (root_addr ml)" using mn(6) d(5) by simp
  then obtain t2 where t2: "set_parent_if (root_addr ml) (Some a) ?t1 = Some t2"
      "trep (av_heap t2) (Some a) ml (root_addr ml)" "av_root t2 = av_root ?t1"
      "\<And>x. x \<notin> set (addrs ml) \<Longrightarrow> av_heap t2 x = av_heap ?t1 x"
    by (rule trep_parent [OF _ d(2)]) blast
  let ?t4 = "t2\<lparr>av_heap := (av_heap t2)(a \<mapsto> ?a2, m \<mapsto> ?m1)\<rparr>"
  have "crep ?t4 ctx (Some a) = crep t ctx (Some a)"
    by (rule crep_cong) (use t2(3,4) dj(3) in simp_all)
  then have c4: "crep ?t4 ctx (Some a)" using s0(2) by simp
  obtain t5 where t5: "set_place (ctx_parent ctx) a (Some m) ?t4 = Some t5" "crep t5 ctx (Some m)"
      "\<And>x. x \<notin> set (ctx_addrs ctx) \<Longrightarrow> av_heap t5 x = av_heap ?t4 x"
    by (rule crep_place [OF c4 d(4,9)]) blast
  let ?t8 = "t5\<lparr>av_heap := (av_heap t5)(m \<mapsto> ?m2, a \<mapsto> ?a3, m \<mapsto> ?m3)\<rparr>"
  have "trep (av_heap ?t8) (Some a) r (root_addr r) = trep (av_heap t) (Some a) r (root_addr r)"
    by (rule trep_cong) (use t5(3) t2(4) dj(2) in simp)
  then have "trep (av_heap ?t8) (Some a) r (root_addr r)" using an(7) by simp
  then obtain t9 where t9: "set_parent_if (root_addr r) (Some m) ?t8 = Some t9"
      "trep (av_heap t9) (Some m) r (root_addr r)" "av_root t9 = av_root ?t8"
      "\<And>x. x \<notin> set (addrs r) \<Longrightarrow> av_heap t9 x = av_heap ?t8 x"
    by (rule trep_parent [OF _ d(3)]) blast
  let ?t' = "t9\<lparr>av_heap := (av_heap t9)(a \<mapsto> ?a3\<lparr>bn_balance := mb\<rparr>, m \<mapsto> ?m3\<lparr>bn_balance := b\<rparr>)\<rparr>"
  have conn: "swap_connected a m t = Some t9"
    using an(1,2,4,5) mn(1,4,5) d side t2(1,4) t5(1,3) t9(1)
    by (simp add: swap_connected_def link_of_def set_link_def parent_of_def set_parent_def set_parent_if_def [of None])
  have "BAVL_swap_nodes a m t = Some ?t'"
    using an(1,2,3) mn(1,2,3) up conn d t9(4)
    by (simp add: BAVL_swap_nodes_def parent_of_def balance_of_def set_balance_def)
  moreover have "trep (av_heap ?t') (Some a) ml (root_addr ml) = trep (av_heap t2) (Some a) ml (root_addr ml)"
    by (rule trep_cong) (use t9(4) t5(3) dj(1) in simp)
  moreover have "trep (av_heap ?t') (Some m) r (root_addr r) = trep (av_heap t9) (Some m) r (root_addr r)"
    by (rule trep_cong) (use dj(2) in simp)
  moreover have "crep ?t' ctx (Some m) = crep t5 ctx (Some m)"
    by (rule crep_cong) (use t9(3,4) dj(3) in simp_all)
  ultimately show thesis
    using that [of ?t'] t2(2) t9(2) t5(2) s0(1) d an mn unfolding srep_plug by auto
qed

lemma swap_apart_ok:
  assumes lctx_def: "lctx = (True, (q, qb), qd) # lc" and s: "srep t (plug (Node ml (m, mb) Leaf) (lctx @ (False, (a, b), r) # ctx))"
  obtains t' where "BAVL_swap_nodes a m t = Some t'"
    "srep t' (plug (Node ml (a, mb) Leaf) (lctx @ (False, (m, b), r) # ctx))"
proof -
  have s0: "distinct (addrs (plug (Node ml (m, mb) Leaf) (lctx @ (False, (a, b), r) # ctx)))"
      "crep t (lctx @ (False, (a, b), r) # ctx) (Some m)"
      "trep (av_heap t) (Some q) (Node ml (m, mb) Leaf) (Some m)"
    using s unfolding srep_plug by (simp_all add: lctx_def)
  obtain mn where mn: "av_heap t m = Some mn" "bn_parent mn = Some q" "bn_balance mn = mb"
      "bn_link mn False = root_addr ml" "bn_link mn True = None" "trep (av_heap t) (Some m) ml (root_addr ml)"
    using node_split [OF s0(3)] by (metis root_addr.simps(1))
  let ?p = "top_addr lctx"
  obtain p0 where l: "lrep (av_heap t) (Some a) lctx p0 (Some m)" "crep t ((False, (a, b), r) # ctx) p0"
    using s0(2) unfolding crep_append by auto
  have ne: "lctx \<noteq> []" by (simp add: lctx_def)
  have p0: "p0 = Some ?p" by (rule lrep_top [OF l(1) ne])
  obtain an where an: "av_heap t a = Some an" "bn_parent an = ctx_parent ctx" "bn_balance an = b"
      "bn_link an False = Some ?p" "trep (av_heap t) (Some a) r (bn_link an True)" "crep t ctx (Some a)"
    using l(2) p0 by auto
  have ar: "bn_link an True = root_addr r" using trep_root [OF an(5)] .
  obtain qn where qn: "av_heap t q = Some qn" "bn_link qn True = Some m" using l(1) by (auto simp: lctx_def)
  have d0: "distinct (addrs ml @ m # ctx_addrs lctx @ a # addrs r @ ctx_addrs ctx)"
    using s0(1) by (auto simp: ctx_addrs_append)
  have d: "a \<noteq> m" "distinct (addrs ml)" "distinct (addrs r)" "distinct (ctx_addrs ctx)" "distinct (ctx_addrs lctx)"
    "a \<notin> set (addrs ml)" "m \<notin> set (addrs ml)" "a \<notin> set (addrs r)" "m \<notin> set (addrs r)"
    "a \<notin> set (ctx_addrs ctx)" "m \<notin> set (ctx_addrs ctx)" "a \<notin> set (ctx_addrs lctx)" "m \<notin> set (ctx_addrs lctx)"
    using d0 by auto
  have dj: "x \<in> set (addrs ml) \<Longrightarrow> x \<notin> set (addrs r) \<and> x \<notin> set (ctx_addrs ctx) \<and> x \<notin> set (ctx_addrs lctx) \<and> x \<noteq> a \<and> x \<noteq> m"
    "x \<in> set (addrs r) \<Longrightarrow> x \<notin> set (addrs ml) \<and> x \<notin> set (ctx_addrs ctx) \<and> x \<notin> set (ctx_addrs lctx) \<and> x \<noteq> a \<and> x \<noteq> m"
    "x \<in> set (ctx_addrs ctx) \<Longrightarrow> x \<notin> set (addrs ml) \<and> x \<notin> set (addrs r) \<and> x \<notin> set (ctx_addrs lctx) \<and> x \<noteq> a \<and> x \<noteq> m"
    "x \<in> set (ctx_addrs lctx) \<Longrightarrow> x \<notin> set (addrs ml) \<and> x \<notin> set (addrs r) \<and> x \<notin> set (ctx_addrs ctx) \<and> x \<noteq> a \<and> x \<noteq> m"
    for x using d0 by auto
  have q: "q \<in> set (ctx_addrs lctx)" and pin: "?p \<in> set (ctx_addrs lctx)"
    using top_addr_in [of lctx] by (simp_all add: lctx_def)
  have up: "ctx_parent ctx \<noteq> Some m" using d(11) by (cases ctx rule: ctx_parent.cases) auto
  let ?a1 = "an\<lparr>bn_parent := Some q\<rparr>" and ?q1 = "qn\<lparr>bn_link := (bn_link qn)(True := Some a)\<rparr>"
  let ?m1 = "mn\<lparr>bn_parent := ctx_parent ctx\<rparr>"
  let ?t3 = "t\<lparr>av_heap := (av_heap t)(a \<mapsto> ?a1, q \<mapsto> ?q1, m \<mapsto> ?m1)\<rparr>"
  have "crep ?t3 ctx (Some a) = crep t ctx (Some a)"
    by (rule crep_cong) (use dj(3) q in force)+
  then have c3: "crep ?t3 ctx (Some a)" using an(6) by simp
  obtain t4 where t4: "set_place (ctx_parent ctx) a (Some m) ?t3 = Some t4" "crep t4 ctx (Some m)"
      "\<And>x. x \<notin> set (ctx_addrs ctx) \<Longrightarrow> av_heap t4 x = av_heap ?t3 x"
    by (rule crep_place [OF c3 d(4,10)]) blast
  let ?a2 = "?a1\<lparr>bn_link := (bn_link ?a1)(False := root_addr ml)\<rparr>"
  let ?t5 = "t4\<lparr>av_heap := (av_heap t4)(a \<mapsto> ?a2)\<rparr>"
  have "trep (av_heap ?t5) (Some m) ml (root_addr ml) = trep (av_heap t) (Some m) ml (root_addr ml)"
    by (rule trep_cong) (use t4(3) dj(1) q in force)
  then have "trep (av_heap ?t5) (Some m) ml (root_addr ml)" using mn(6) by simp
  then obtain t6 where t6: "set_parent_if (root_addr ml) (Some a) ?t5 = Some t6"
      "trep (av_heap t6) (Some a) ml (root_addr ml)" "av_root t6 = av_root ?t5"
      "\<And>x. x \<notin> set (addrs ml) \<Longrightarrow> av_heap t6 x = av_heap ?t5 x"
    by (rule trep_parent [OF _ d(2)]) blast
  let ?m2 = "?m1\<lparr>bn_link := (bn_link ?m1)(False := Some ?p)\<rparr>"
  let ?t7 = "t6\<lparr>av_heap := (av_heap t6)(m \<mapsto> ?m2)\<rparr>"
  have same: "av_heap ?t7 x = ((av_heap t)(q \<mapsto> ?q1)) x" if "x \<in> set (ctx_addrs lctx)" for x
    using dj(4) [OF that] t6(4) [of x] t4(3) [of x] by simp
  have "lrep ((av_heap t)(q \<mapsto> ?q1)) (Some a) lctx (Some ?p) (Some a)"
    using lrep_inside [OF l(1) [unfolded lctx_def p0]] d(5) qn(1) by (simp add: lctx_def)
  then have l7: "lrep (av_heap ?t7) (Some a) lctx (Some ?p) (Some a)"
    using lrep_cong [of lctx "av_heap ?t7" "(av_heap t)(q \<mapsto> ?q1)"] same by blast
  obtain pn where pn: "av_heap ?t7 ?p = Some pn"
    using same [OF pin] l(1) lrep_top_node [OF l(1)] by (cases "?p = q") (auto simp: lctx_def)
  let ?t8 = "t6\<lparr>av_heap := (av_heap t6)(m \<mapsto> ?m2, ?p \<mapsto> pn\<lparr>bn_parent := Some m\<rparr>)\<rparr>"
  have h7: "av_heap ?t7 = (av_heap t6)(m \<mapsto> ?m2)"
    and h8: "av_heap ?t8 = (av_heap t6)(m \<mapsto> ?m2, ?p \<mapsto> pn\<lparr>bn_parent := Some m\<rparr>)" by simp_all
  have l8: "lrep (av_heap ?t8) (Some m) lctx (Some ?p) (Some a)"
    using lrep_parent [OF l7 d(5) ne pn] unfolding h7 h8 .
  let ?a3 = "?a2\<lparr>bn_link := (bn_link ?a2)(True := None)\<rparr>" and ?m3 = "?m2\<lparr>bn_link := (bn_link ?m2)(True := root_addr r)\<rparr>"
  let ?t10 = "t6\<lparr>av_heap := (av_heap t6)(m \<mapsto> ?m2, ?p \<mapsto> pn\<lparr>bn_parent := Some m\<rparr>, a \<mapsto> ?a3, m \<mapsto> ?m3)\<rparr>"
  have "trep (av_heap ?t10) (Some a) r (root_addr r) = trep (av_heap t) (Some a) r (root_addr r)"
    by (rule trep_cong) (use t6(4) t4(3) dj(2) q pin in force)
  then have "trep (av_heap ?t10) (Some a) r (root_addr r)" using an(5) ar by simp
  then obtain t11 where t11: "set_parent_if (root_addr r) (Some m) ?t10 = Some t11"
      "trep (av_heap t11) (Some m) r (root_addr r)" "av_root t11 = av_root ?t10"
      "\<And>x. x \<notin> set (addrs r) \<Longrightarrow> av_heap t11 x = av_heap ?t10 x"
    by (rule trep_parent [OF _ d(3)]) blast
  let ?t' = "t11\<lparr>av_heap := (av_heap t11)(a \<mapsto> ?a3\<lparr>bn_balance := mb\<rparr>, m \<mapsto> ?m3\<lparr>bn_balance := b\<rparr>)\<rparr>"
  have pn6: "av_heap t6 ?p = Some pn" using pn dj(4) [OF pin] by simp
  have apart: "swap_apart a m t = Some t11"
    using an(1,2,4) ar mn(1,2,4,5) qn d(1,6-11) dj(4) [OF q] dj(4) [OF pin] t6(1,4) t4(1,3) t11(1) pn6
    by (simp add: swap_apart_def link_of_def set_link_def parent_of_def set_parent_def set_place_def [of "Some q"]
        set_parent_if_def [of None] set_parent_if_def [of "Some _"])
  have "BAVL_swap_nodes a m t = Some ?t'"
    using an(1,2,3) mn(1,2,3) up apart d(1,6-11) dj(4) [OF q] t11(4) t6(4) t4(3)
    by (auto simp: BAVL_swap_nodes_def parent_of_def balance_of_def set_balance_def)
  moreover have "srep ?t' (plug (Node ml (a, mb) Leaf) (lctx @ (False, (m, b), r) # ctx))"
  proof -
    have "lrep (av_heap ?t') (Some m) lctx (Some ?p) (Some a) = lrep (av_heap ?t8) (Some m) lctx (Some ?p) (Some a)"
      by (rule lrep_cong) (use t11(4) dj(4) in force)
    then have lr: "lrep (av_heap ?t') (Some m) lctx (Some ?p) (Some a)" using l8 by simp
    have "crep ?t' ctx (Some m) = crep t4 ctx (Some m)"
      by (rule crep_cong) (use t11(3,4) t6(3,4) dj(3) pin in force)+
    then have cr: "crep ?t' ctx (Some m)" using t4(2) by simp
    have "trep (av_heap ?t') (Some m) r (root_addr r) = trep (av_heap t11) (Some m) r (root_addr r)"
      by (rule trep_cong) (use dj(2) in simp)
    then have rr: "trep (av_heap ?t') (Some m) r (root_addr r)" using t11(2) by simp
    have "trep (av_heap ?t') (Some a) ml (root_addr ml) = trep (av_heap t6) (Some a) ml (root_addr ml)"
      by (rule trep_cong) (use t11(4) dj(1) pin in force)
    then have mr: "trep (av_heap ?t') (Some a) ml (root_addr ml)" using t6(2) by simp
    have na: "av_heap ?t' a = Some (?a3\<lparr>bn_balance := mb\<rparr>)" and nm: "av_heap ?t' m = Some (?m3\<lparr>bn_balance := b\<rparr>)"
      using d(1) by simp_all
    have cp: "ctx_parent (lctx @ (False, (m, b), r) # ctx) = Some q" by (simp add: lctx_def)
    have "crep ?t' ((False, (m, b), r) # ctx) (Some ?p)" using cr rr nm by auto
    then have "crep ?t' (lctx @ (False, (m, b), r) # ctx) (Some a)"
      using lr unfolding crep_append ctx_parent.simps by blast
    moreover have "trep (av_heap ?t') (Some q) (Node ml (a, mb) Leaf) (Some a)" using mr na by simp
    moreover have "distinct (addrs (plug (Node ml (a, mb) Leaf) (lctx @ (False, (m, b), r) # ctx)))"
      using d0 by (auto simp: ctx_addrs_append)
    ultimately show ?thesis unfolding srep_plug root_addr.simps cp by blast
  qed
  ultimately show thesis by (rule that)
qed

end
