(* ===== verification/BAVLOps.thy ===== *)
theory BAVLOps
  imports BAVLSwap
begin

text \<open>
  The operations of \<open>BAVL\<close> on a heap that holds a balanced tree whose nodes are in the order of the
  comparator: finding the place of a value, walking to a neighbour, inserting and removing.
\<close>

section \<open>Comparators\<close>

text \<open>The order a comparator stands for; \<open>- 1\<close> is less, \<open>1\<close> is greater.\<close>

locale comparator =
  fixes cmp :: "'k comparator"
  assumes range: "cmp a b = - 1 \<or> cmp a b = 0 \<or> cmp a b = 1"
    and antisym: "cmp b a = - cmp a b"
    and trans: "cmp a b \<noteq> 1 \<Longrightarrow> cmp b c \<noteq> 1 \<Longrightarrow> cmp a c \<noteq> 1"
begin

lemma compare_values_ok [simp]: "compare_values cmp a b = Some (cmp a b)"
  using range [of a b] by (auto simp: compare_values_def)

lemma refl: "cmp a a = 0"
  using antisym [of a a] by simp

lemma equal_left: "cmp a b = 0 \<Longrightarrow> cmp a c = cmp b c"
  using trans [of a b c] trans [of b a c] trans [of c b a] trans [of c a b] range [of a c] range [of b c]
    antisym [of a b] antisym [of c b] antisym [of c a] by force

lemma less_trans: "cmp a b = - 1 \<Longrightarrow> cmp b c = - 1 \<Longrightarrow> cmp a c = - 1"
  using trans [of a b c] trans [of b c a] antisym [of a b] antisym [of b c] antisym [of a c] range [of a c]
    equal_left [of a c b] by force

end

text \<open>The nodes are in strictly increasing order of their values.\<close>

definition in_order :: "'k comparator \<Rightarrow> (nat \<Rightarrow> 'k) \<Rightarrow> nat list \<Rightarrow> bool" where
  "in_order cmp key xs = sorted_wrt (\<lambda>a b. cmp (key a) (key b) = - 1) xs"

lemma in_order_append:
  "in_order cmp key (xs @ ys) \<longleftrightarrow>
     in_order cmp key xs \<and> in_order cmp key ys \<and> (\<forall>x\<in>set xs. \<forall>y\<in>set ys. cmp (key x) (key y) = - 1)"
  by (simp add: in_order_def sorted_wrt_append)

lemma in_order_Cons:
  "in_order cmp key (x # xs) \<longleftrightarrow> (\<forall>y\<in>set xs. cmp (key x) (key y) = - 1) \<and> in_order cmp key xs"
  by (simp add: in_order_def)

section \<open>Finding the place of a value\<close>

context comparator
begin

text \<open>A place in the tree: all values before it are below \<open>v\<close>, all values after it above.\<close>

definition fits :: "(nat \<Rightarrow> 'k) \<Rightarrow> 'k \<Rightarrow> nat list \<Rightarrow> nat list \<Rightarrow> bool" where
  "fits key v xs ys \<longleftrightarrow> (\<forall>x\<in>set xs. cmp (key x) v = - 1) \<and> (\<forall>y\<in>set ys. cmp v (key y) = - 1)"

lemma find_ok:
  assumes "srep t (plug T ctx)" "root_addr T = Some c" "in_order cmp key (addrs T)"
    and "fits key v (ctx_before ctx) (ctx_after ctx)"
  obtains (found) n where "BAVL_find cmp key v c t = Some (n, None)" "n \<in> set (addrs T)" "cmp v (key n) = 0"
  | (place) s n b d ctx' where "BAVL_find cmp key v c t = Some (n, Some s)" "n \<in> set (addrs T)"
      "plug T ctx = plug Leaf ((s, (n, b), d) # ctx')"
      "fits key v (ctx_before ((s, (n, b), d) # ctx')) (ctx_after ((s, (n, b), d) # ctx'))"
  using assms
proof (induction T arbitrary: ctx c thesis rule: measure_induct_rule [where f = "size"])
  case (less T)
  define s where "s = (cmp v (key c) = 1)"
  obtain x b y where T: "T = mk s x (c, b) y"
    using less.prems(4) by (cases T rule: tree_mk_cases [where s = s]) auto
  have run: "BAVL_find cmp key v c t = (if cmp v (key c) = 0 then Some (c, None)
      else (case root_addr x of None \<Rightarrow> Some (c, Some s) | Some c' \<Rightarrow> BAVL_find cmp key v c' t))"
    using read_mk(1) [OF less.prems(3) [unfolded T]] by (subst BAVL_find.simps) (simp add: s_def [symmetric] Let_def)
  show ?case
  proof (cases "cmp v (key c) = 0")
    case True
    show ?thesis by (rule less.prems(1) [of c]) (use run True T in auto)
  next
    case False
    then have less_or: "(if s then cmp (key c) v = - 1 else cmp v (key c) = - 1)"
      using range [of v "key c"] antisym [of v "key c"] by (auto simp: s_def)
    let ?ctx = "(s, (c, b), y) # ctx"
    have o: "in_order cmp key (addrs x)"
      using less.prems(5) unfolding T addrs_mk by (auto simp: in_order_append in_order_Cons split: if_splits)
    have "cmp (key z) v = - 1" if "s" "z \<in> set (addrs y)" for z
      using less.prems(5) that less_or less_trans [of "key z" "key c" v] unfolding T addrs_mk
      by (auto simp: in_order_append)
    moreover have "cmp v (key z) = - 1" if "\<not> s" "z \<in> set (addrs y)" for z
      using less.prems(5) that less_or less_trans [of v "key c" "key z"] unfolding T addrs_mk
      by (auto simp: in_order_append in_order_Cons)
    ultimately have f: "fits key v (ctx_before ?ctx) (ctx_after ?ctx)"
      using less.prems(6) less_or by (auto simp: fits_def split: if_splits)
    show ?thesis
    proof (cases "root_addr x")
      case None
      then have x: "x = Leaf" by simp
      show ?thesis by (rule less.prems(2) [of c s b y ctx]) (use run False None f in \<open>auto simp: T x\<close>)
    next
      case (Some c')
      have sz: "size x < size T" by (auto simp: T mk_def)
      have r: "srep t (plug x ?ctx)" "plug T ctx = plug x ?ctx" using less.prems(3) by (simp_all add: T)
      have run': "BAVL_find cmp key v c t = BAVL_find cmp key v c' t" using run False Some by simp
      show ?thesis
        by (rule less.IH [OF sz _ _ r(1) Some o f])
           (use less.prems(1,2) run' r(2) T in auto)
    qed
  qed
qed

end

section \<open>Walking\<close>

lemma descend_ok:
  assumes "srep t (plug T ctx)" "root_addr T = Some c"
  shows "BAVL_descend s c t = Some (if s then last (addrs T) else hd (addrs T))"
  using assms
proof (induction T arbitrary: ctx c rule: measure_induct_rule [where f = "size"])
  case (less T)
  obtain x b y where T: "T = mk s x (c, b) y"
    using less.prems(2) by (cases T rule: tree_mk_cases [where s = s]) auto
  have l: "link_of c s t = Some (root_addr x)" using read_mk(1) [OF less.prems(1) [unfolded T]] .
  show ?case
  proof (cases "root_addr x")
    case None
    then show ?thesis using l by (subst BAVL_descend.simps) (auto simp: T addrs_mk)
  next
    case (Some c')
    have "BAVL_descend s c' t = Some (if s then last (addrs x) else hd (addrs x))"
      by (rule less.IH [where ctx = "(s, (c, b), y) # ctx"]) (use less.prems Some in \<open>auto simp: T mk_def\<close>)
    moreover have "addrs x \<noteq> []" using root_addr_in [OF Some] by auto
    ultimately show ?thesis using l Some by (subst BAVL_descend.simps) (auto simp: T addrs_mk)
  qed
qed

definition hd_opt :: "'a list \<Rightarrow> 'a option" where
  "hd_opt xs = (case xs of [] \<Rightarrow> None | x # _ \<Rightarrow> Some x)"

definition last_opt :: "'a list \<Rightarrow> 'a option" where
  "last_opt xs = (if xs = [] then None else Some (last xs))"

lemma opt_simps [simp]: "hd_opt [] = None" "hd_opt (x # xs) = Some x" "last_opt [] = None" "last_opt (xs @ [x]) = Some x"
  by (simp_all add: hd_opt_def last_opt_def)

lemma hd_opt_append: "hd_opt (xs @ ys) = (if xs = [] then hd_opt ys else hd_opt xs)"
  by (cases xs) auto

lemma last_opt_append: "last_opt (xs @ ys) = (if ys = [] then last_opt xs else last_opt ys)"
  by (simp add: last_opt_def)

lemma ascend_ok:
  assumes "srep t (plug T ctx)" "root_addr T = Some n"
  shows "BAVL_ascend s n t = Some (if s then hd_opt (ctx_after ctx) else last_opt (ctx_before ctx))"
  using assms
proof (induction ctx arbitrary: T n)
  case Nil
  obtain x b y where T: "T = mk s x (n, b) y" using Nil by (cases T rule: tree_mk_cases [where s = s]) auto
  show ?case using read_mk(4) [OF Nil(1) [unfolded T]] by (subst BAVL_ascend.simps) simp
next
  case (Cons e ctx)
  obtain s' a b d where e: "e = (s', (a, b), d)" by (cases e) auto
  obtain x b' y where T: "T = mk s x (n, b') y" using Cons.prems by (cases T rule: tree_mk_cases [where s = s]) auto
  have p: "parent_of n t = Some (Some a)" using read_mk(4) [OF Cons.prems(1) [unfolded T]] by (simp add: e)
  have up: "srep t (plug (mk s' T (a, b) d) ctx)" using Cons.prems by (simp add: e)
  have other: "root_addr d \<noteq> Some n"
    using up root_addr_in [of d n] root_addr_in [OF Cons.prems(2)] by (auto simp: srep_plug)
  show ?case
  proof (cases "s = s'")
    case True
    then have "BAVL_ascend s n t = BAVL_ascend s a t"
      using p read_mk(1) [OF up] Cons.prems(2) by (subst BAVL_ascend.simps) simp
    then show ?thesis using Cons.IH [OF up] True by (auto simp: e)
  next
    case False
    then have "s = (\<not> s')" by blast
    then have "BAVL_ascend s n t = Some (Some a)"
      using p read_mk(2) [OF up] other by (subst BAVL_ascend.simps) simp
    then show ?thesis using False by (auto simp: e last_opt_def)
  qed
qed

lemma plug_at:
  assumes "a \<in> set (addrs T)"
  obtains l b r ctx where "T = plug (Node l (a, b) r) ctx"
  using assms
proof (induction T arbitrary: thesis rule: wbal.induct)
  case (2 l x b r)
  consider "a = x" | "a \<in> set (addrs l)" | "a \<in> set (addrs r)" using "2.prems"(2) by auto
  then show ?case
  proof cases
    case 1
    then show ?thesis using "2.prems"(1) [of l b r "[]"] by simp
  next
    case 2
    then obtain l' b' r' ctx where "l = plug (Node l' (a, b') r') ctx" using "2.IH"(1) by blast
    then have "Node l (x, b) r = plug (Node l' (a, b') r') (ctx @ [(False, (x, b), r)])"
      by (simp add: plug_append mk_def)
    then show ?thesis by (rule "2.prems"(1))
  next
    case 3
    then obtain l' b' r' ctx where "r = plug (Node l' (a, b') r') ctx" using "2.IH"(2) by blast
    then have "Node l (x, b) r = plug (Node l' (a, b') r') (ctx @ [(True, (x, b), l)])"
      by (simp add: plug_append mk_def)
    then show ?thesis by (rule "2.prems"(1))
  qed
qed simp

lemma split_at: "xs @ a # ys = xs' @ a # ys' \<Longrightarrow> distinct (xs @ a # ys) \<Longrightarrow> xs = xs' \<and> ys = ys'"
proof (induction xs arbitrary: xs')
  case Nil
  then show ?case by (cases xs') auto
next
  case (Cons x xs)
  then show ?case by (cases xs') auto
qed

lemma addrs_at:
  assumes "distinct (addrs (plug (Node l (a, b) r) ctx))" "addrs (plug (Node l (a, b) r) ctx) = xs @ a # ys"
  shows "xs = ctx_before ctx @ addrs l" "ys = addrs r @ ctx_after ctx"
proof -
  have "xs @ a # ys = (ctx_before ctx @ addrs l) @ a # (addrs r @ ctx_after ctx)"
    using assms(2) by (simp add: addrs_plug)
  from split_at [OF this assms(1) [unfolded assms(2)]]
  show "xs = ctx_before ctx @ addrs l" "ys = addrs r @ ctx_after ctx" by blast+
qed

lemma neighbours_ok:
  assumes "srep t T" "addrs T = xs @ a # ys"
  shows "BAVL_GetNext a t = Some (hd_opt ys)" "BAVL_GetPrev a t = Some (last_opt xs)"
proof -
  have "a \<in> set (addrs T)" using assms(2) by simp
  then obtain l b r ctx where T: "T = plug (Node l (a, b) r) ctx" by (rule plug_at)
  have s: "srep t (plug (mk True r (a, b) l) ctx)" using assms(1) by (simp add: T mk_def)
  have "distinct (addrs T)" using assms(1) by (simp add: srep_def)
  note split = addrs_at [OF this [unfolded T] assms(2) [unfolded T]]
  have links: "link_of a True t = Some (root_addr r)" "link_of a False t = Some (root_addr l)"
    using read_mk(1,2) [OF s] by simp_all
  have asc: "BAVL_ascend True a t = Some (hd_opt (ctx_after ctx))" "BAVL_ascend False a t = Some (last_opt (ctx_before ctx))"
    using ascend_ok [OF s] by simp_all
  have sr: "srep t (plug r ((True, (a, b), l) # ctx))" "srep t (plug l ((False, (a, b), r) # ctx))"
    using s by (simp_all add: mk_def)
  show "BAVL_GetNext a t = Some (hd_opt ys)"
  proof (cases "root_addr r")
    case None
    then show ?thesis using links asc by (simp add: BAVL_GetNext_def split)
  next
    case (Some c)
    have "addrs r \<noteq> []" using root_addr_in [OF Some] by auto
    then show ?thesis using links Some descend_ok [OF sr(1) Some, of False]
      by (cases "addrs r") (auto simp: BAVL_GetNext_def split)
  qed
  show "BAVL_GetPrev a t = Some (last_opt xs)"
  proof (cases "root_addr l")
    case None
    then show ?thesis using links asc by (simp add: BAVL_GetPrev_def split)
  next
    case (Some c)
    have "addrs l \<noteq> []" using root_addr_in [OF Some] by auto
    then show ?thesis using links Some descend_ok [OF sr(2) Some, of True]
      by (auto simp: BAVL_GetPrev_def split last_opt_def)
  qed
qed

lemma ends_ok:
  assumes "srep t T"
  shows "BAVL_GetFirst t = Some (hd_opt (addrs T))" "BAVL_GetLast t = Some (last_opt (addrs T))"
proof -
  have root: "av_root t = root_addr T" using assms trep_root by (auto simp: srep_def)
  have "BAVL_GetFirst t = Some (hd_opt (addrs T)) \<and> BAVL_GetLast t = Some (last_opt (addrs T))"
  proof (cases "root_addr T")
    case (Some c)
    have "addrs T \<noteq> []" using root_addr_in [OF Some] by auto
    moreover have "BAVL_descend s c t = Some (if s then last (addrs T) else hd (addrs T))" for s
      using descend_ok [of t T "[]" c s] assms Some by simp
    ultimately show ?thesis
      using root Some by (auto simp: BAVL_GetFirst_def BAVL_GetLast_def hd_opt_def last_opt_def split: list.split)
  qed (simp add: root BAVL_GetFirst_def BAVL_GetLast_def)
  then show "BAVL_GetFirst t = Some (hd_opt (addrs T))" "BAVL_GetLast t = Some (last_opt (addrs T))" by simp_all
qed

section \<open>Inserting\<close>

lemma attach_ok:
  assumes s: "srep t (plug Leaf ((s, (c, b), d) # ctx))" and fresh: "a \<notin> set (addrs (plug Leaf ((s, (c, b), d) # ctx)))"
  obtains t1 where "set_link c s (Some a) t = Some t1"
    "srep (t1\<lparr>av_heap := (av_heap t1)(a \<mapsto> \<lparr>bn_parent = Some c, bn_link = (\<lambda>_. None), bn_balance = 0\<rparr>)\<rparr>)
       (plug (Node Leaf (a, 0) Leaf) ((s, (c, b), d) # ctx))"
proof -
  have dist: "distinct (addrs (plug Leaf ((s, (c, b), d) # ctx)))" "crep t ((s, (c, b), d) # ctx) None"
    using s unfolding srep_plug by auto
  then obtain n where n: "av_heap t c = Some n" "bn_parent n = ctx_parent ctx" "bn_balance n = b" "bn_link n s = None"
      "trep (av_heap t) (Some c) d (bn_link n (\<not> s))" "crep t ctx (Some c)" by auto
  let ?t1 = "t\<lparr>av_heap := (av_heap t)(c \<mapsto> n\<lparr>bn_link := (bn_link n)(s := Some a)\<rparr>)\<rparr>"
  let ?t2 = "?t1\<lparr>av_heap := (av_heap ?t1)(a \<mapsto> \<lparr>bn_parent = Some c, bn_link = (\<lambda>_. None), bn_balance = 0\<rparr>)\<rparr>"
  have "crep ?t2 ctx (Some c) = crep t ctx (Some c)"
    by (rule crep_cong) (use dist(1) fresh in auto)
  then have "srep ?t2 (plug (Node Leaf (a, 0) Leaf) ((s, (c, b), d) # ctx))"
    using n dist fresh unfolding srep_plug by auto
  moreover have "set_link c s (Some a) t = Some ?t1" using n(1) by (simp add: set_link_def)
  ultimately show thesis by (rule that [rotated])
qed

section \<open>Removing\<close>

lemma unlink_ok:
  assumes s: "srep t (plug (mk s c (a, b) Leaf) ctx)" and w: "wbal c" "cbal (ht c + 1) ctx"
  obtains t' T' where "BAVL_unlink a t = Some t'" "srep t' T'" "wbal T'" "addrs T' = addrs (plug c ctx)"
proof -
  obtain t1 where t1: "BAVL_replace_subtree a (root_addr c) t = Some t1" "srep t1 (plug c ctx)"
    by (rule replace_ok [OF s])
  have l: "link_of a False t = Some (if s then None else root_addr c)" "link_of a True t = Some (if s then root_addr c else None)"
    using read_mk(1,2) [OF s] by (cases s; simp)+
  have run: "BAVL_unlink a t = do {
      p \<leftarrow> parent_of a t;
      case p of Some parent \<Rightarrow> do {
         l \<leftarrow> link_of parent True t;
         t \<leftarrow> BAVL_replace_subtree a (root_addr c) t;
         BAVL_rebalance parent (Some a = l) (- 1) t }
      | None \<Rightarrow> BAVL_replace_subtree a (root_addr c) t }"
    using l by (cases s) (auto simp: BAVL_unlink_def Let_def)
  show thesis
  proof (cases ctx)
    case Nil
    then show thesis using that [of t1 c] run t1 read_mk(4) [OF s] w by simp
  next
    case (Cons e ctx')
    obtain s' p pb pd where e: "e = (s', (p, pb), pd)" by (cases e) auto
    have s1: "srep t (plug (mk s c (a, b) Leaf) ((s', (p, pb), pd) # ctx'))" using s by (simp add: Cons e)
    have c1: "cbal (ht c - (- 1)) ((s', (p, pb), pd) # ctx')" using w(2) unfolding Cons e by (metis diff_minus_eq_add)
    obtain t' T' where r: "BAVL_rebalance p s' (- 1) t1 = Some t'" "srep t' T'" "wbal T'"
        "addrs T' = addrs (plug c ((s', (p, pb), pd) # ctx'))"
      using rebalance_ok [OF t1(2) [unfolded Cons e] w(1) c1] by auto
    show thesis
      by (rule that [of t' T'])
         (use run r t1(1) read_mk(4) [OF s] read_side [OF s1 root_addr_mk] in \<open>auto simp: Cons e\<close>)
  qed
qed

text \<open>The last node of a subtree has no right child, and only right turns lead to it.\<close>

lemma max_split:
  assumes "T \<noteq> Leaf"
  obtains ml m mb lc where "T = plug (Node ml (m, mb) Leaf) lc" "\<forall>f\<in>set lc. fst f" "m = last (addrs T)"
  using assms
proof (induction T arbitrary: thesis rule: wbal.induct)
  case (2 l a b r)
  show ?case
  proof (cases "r = Leaf")
    case True
    then show ?thesis using "2.prems"(1) [of l a b "[]"] by simp
  next
    case False
    obtain ml m mb lc where r: "r = plug (Node ml (m, mb) Leaf) lc" "\<forall>f\<in>set lc. fst f" "m = last (addrs r)"
      by (rule "2.IH"(2) [OF _ False])
    have "last (addrs r) = last (addrs (Node l (a, b) r))" using False by (cases r rule: wbal.cases) auto
    then have last: "m = last (addrs (Node l (a, b) r))" using r(3) by metis
    have "Node l (a, b) r = plug (Node ml (m, mb) Leaf) (lc @ [(True, (a, b), l)])"
      unfolding plug_append r(1) [symmetric] by (simp add: mk_def)
    then show ?thesis by (rule "2.prems"(1)) (use r(2) last in simp_all)
  qed
qed simp

lemma right_turns: "\<forall>f\<in>set lc. fst f \<Longrightarrow> ctx_after lc = []"
  by (induction lc rule: ctx_after.induct) auto

lemma ctx_before_append: "ctx_before (c1 @ c2) = ctx_before c2 @ ctx_before c1"
  by (induction c1 rule: ctx_before.induct) auto

lemma ctx_after_append: "ctx_after (c1 @ c2) = ctx_after c1 @ ctx_after c2"
  by (induction c1 rule: ctx_after.induct) auto

lemma cbal_rename: "cbal k (c1 @ (s, (a, b), d) # c2) = cbal k (c1 @ (s, (a', b), d) # c2)"
  by (induction k c1 rule: cbal.induct) auto

lemma swap_max_ok:
  assumes s: "srep t (plug (Node l (a, b) r) ctx)" and l: "l = plug (Node ml (m, mb) Leaf) lc" "\<forall>f\<in>set lc. fst f"
  obtains t' where "BAVL_swap_nodes a m t = Some t'" "srep t' (plug (Node ml (a, mb) Leaf) (lc @ (False, (m, b), r) # ctx))"
proof (cases lc)
  case Nil
  then show thesis using swap_connected_ok [of t ml m mb a b r ctx] that s l by (auto simp: mk_def)
next
  case (Cons e lc')
  obtain q qb qd where e: "e = (True, (q, qb), qd)" using l(2) Cons by (cases e) auto
  have "srep t (plug (Node ml (m, mb) Leaf) (lc @ (False, (a, b), r) # ctx))"
    using s by (simp add: l plug_append mk_def)
  then show thesis by (rule swap_apart_ok [OF Cons [unfolded e]]) (rule that)
qed

lemma remove_ok:
  assumes s: "srep t T" and w: "wbal T" and a: "addrs T = xs @ a # ys"
  obtains t' T' where "BAVL_Remove a t = Some t'" "srep t' T'" "wbal T'" "addrs T' = xs @ ys"
proof -
  have "a \<in> set (addrs T)" using a by simp
  then obtain l b r ctx where T: "T = plug (Node l (a, b) r) ctx" by (rule plug_at)
  have st: "srep t (plug (Node l (a, b) r) ctx)" using s T by simp
  have "distinct (addrs T)" using s by (simp add: srep_def)
  note split = addrs_at [OF this [unfolded T] a [unfolded T]]
  have links: "link_of a False t = Some (root_addr l)" "link_of a True t = Some (root_addr r)"
    using read_mk(1,2) [of t False l a b r ctx] st by (simp_all add: mk_def)
  have bal: "wbal l" "wbal r" "cbal (ht (Node l (a, b) r)) ctx"
    using w unfolding T wbal_plug wbal.simps by blast+
  consider (none) "r = Leaf" | (right) "l = Leaf" "r \<noteq> Leaf" | (both) "l \<noteq> Leaf" "r \<noteq> Leaf" by blast
  then show thesis
  proof cases
    case none
    have u: "srep t (plug (mk False l (a, b) Leaf) ctx)" "cbal (ht l + 1) ctx"
      using st bal(3) by (simp_all add: none mk_def algebra_simps)
    show thesis
      by (rule unlink_ok [OF u(1) bal(1) u(2)])
         (rule that, use links none in \<open>auto simp: BAVL_Remove_def split addrs_plug split: option.split\<close>)
  next
    case right
    have u: "srep t (plug (mk True r (a, b) Leaf) ctx)" "cbal (ht r + 1) ctx"
      using st bal(3) by (simp_all add: right mk_def algebra_simps)
    show thesis
      by (rule unlink_ok [OF u(1) bal(2) u(2)])
         (rule that, use links right in \<open>auto simp: BAVL_Remove_def split addrs_plug\<close>)
  next
    case both
    obtain ml m mb lc where m: "l = plug (Node ml (m, mb) Leaf) lc" "\<forall>f\<in>set lc. fst f" "m = last (addrs l)"
      by (rule max_split [OF both(1)])
    obtain c where c: "root_addr l = Some c" using both by (cases "root_addr l") auto
    have desc: "BAVL_subtree_max c t = Some m"
      using descend_ok [of t l "(False, (a, b), r) # ctx" c True] st c m(3) by (simp add: BAVL_subtree_max_def mk_def)
    obtain t1 where t1: "BAVL_swap_nodes a m t = Some t1"
        "srep t1 (plug (Node ml (a, mb) Leaf) (lc @ (False, (m, b), r) # ctx))"
      by (rule swap_max_ok [OF st m(1,2)])
    have u: "srep t1 (plug (mk False ml (a, mb) Leaf) (lc @ (False, (m, b), r) # ctx))" using t1(2) by (simp add: mk_def)
    have "wbal (plug (Node ml (m, mb) Leaf) (lc @ (False, (a, b), r) # ctx))"
      using w by (simp add: T m(1) plug_append mk_def)
    then have v: "wbal ml" "cbal (ht ml + 1) (lc @ (False, (m, b), r) # ctx)"
      unfolding wbal_plug cbal_rename [of _ lc False a b r ctx m] by (simp_all add: algebra_simps)
    obtain t' T' where r: "BAVL_unlink a t1 = Some t'" "srep t' T'" "wbal T'"
        "addrs T' = addrs (plug ml (lc @ (False, (m, b), r) # ctx))"
      by (rule unlink_ok [OF u v])
    have "BAVL_Remove a t = Some t'" using links c both(2) desc t1(1) r(1) by (simp add: BAVL_Remove_def)
    moreover have "addrs T' = xs @ ys"
      using r(4) right_turns [OF m(2)] by (simp add: split m(1) addrs_plug ctx_before_append ctx_after_append)
    ultimately show thesis using that r(2,3) by blast
  qed
qed

end
