(* ===== verification/BAVLTable.thy ===== *)
theory BAVLTable
  imports BAVLOps
begin

text \<open>
  The contract of a table sorted by a comparator, and \<open>BAVL\<close> as its provider. A table holds a list of
  nodes in strictly increasing order of their values.
\<close>

section \<open>The list a table stands for\<close>

definition lower :: "'k comparator \<Rightarrow> (nat \<Rightarrow> 'k) \<Rightarrow> 'k \<Rightarrow> nat list \<Rightarrow> nat list" where
  "lower cmp key v xs = takeWhile (\<lambda>x. cmp (key x) v = - 1) xs"

definition upper :: "'k comparator \<Rightarrow> (nat \<Rightarrow> 'k) \<Rightarrow> 'k \<Rightarrow> nat list \<Rightarrow> nat list" where
  "upper cmp key v xs = dropWhile (\<lambda>x. cmp (key x) v = - 1) xs"

definition insert_sorted :: "'k comparator \<Rightarrow> (nat \<Rightarrow> 'k) \<Rightarrow> nat \<Rightarrow> nat list \<Rightarrow> nat list" where
  "insert_sorted cmp key a xs = lower cmp key (key a) xs @ a # upper cmp key (key a) xs"

definition find_equal :: "'k comparator \<Rightarrow> (nat \<Rightarrow> 'k) \<Rightarrow> 'k \<Rightarrow> nat list \<Rightarrow> nat option" where
  "find_equal cmp key v xs = List.find (\<lambda>x. cmp v (key x) = 0) xs"

text \<open>A node next to the place of a value that no node has.\<close>

definition adjacent :: "'k comparator \<Rightarrow> (nat \<Rightarrow> 'k) \<Rightarrow> 'k \<Rightarrow> nat list \<Rightarrow> nat \<Rightarrow> bool" where
  "adjacent cmp key v xs x \<longleftrightarrow> last_opt (lower cmp key v xs) = Some x \<or> hd_opt (upper cmp key v xs) = Some x"

lemma set_insert_sorted [simp]: "set (insert_sorted cmp key a xs) = insert a (set xs)"
proof -
  have "set xs = set (lower cmp key (key a) xs) \<union> set (upper cmp key (key a) xs)"
    unfolding lower_def upper_def by (metis set_append takeWhile_dropWhile_id)
  then show ?thesis by (auto simp: insert_sorted_def)
qed

lemma find_equal_None: "find_equal cmp key v xs = None \<longleftrightarrow> (\<forall>x\<in>set xs. cmp v (key x) \<noteq> 0)"
  by (auto simp: find_equal_def find_None_iff)

context comparator
begin

lemma fits_parts:
  assumes "fits key v xs ys"
  shows "lower cmp key v (xs @ ys) = xs" "upper cmp key v (xs @ ys) = ys"
proof -
  have h: "hd_opt ys = Some y \<Longrightarrow> cmp (key y) v \<noteq> - 1" for y
    using assms antisym [of v "key y"] by (cases ys) (auto simp: fits_def)
  show "lower cmp key v (xs @ ys) = xs" "upper cmp key v (xs @ ys) = ys"
    using assms h by (cases ys; auto simp: fits_def lower_def upper_def)+
qed

lemma in_order_equal:
  assumes "in_order cmp key xs" "x \<in> set xs" "y \<in> set xs" "cmp v (key x) = 0" "cmp v (key y) = 0"
  shows "x = y"
proof -
  have e: "cmp (key x) (key y) = 0" using assms equal_left [of v "key x" "key y"] by simp
  then have e': "cmp (key y) (key x) = 0" using antisym [of "key x" "key y"] by simp
  obtain ys zs where xs: "xs = ys @ x # zs" using split_list [OF assms(2)] by blast
  show ?thesis using assms(1,3) e e' unfolding xs by (auto simp: in_order_append in_order_Cons)
qed

lemma find_equal_Some:
  assumes "in_order cmp key xs" "x \<in> set xs" "cmp v (key x) = 0"
  shows "find_equal cmp key v xs = Some x"
proof (cases "find_equal cmp key v xs")
  case (Some y)
  then show ?thesis using in_order_equal [OF assms(1) _ assms(2) _ assms(3), of y]
    by (auto simp: find_equal_def find_Some_iff)
qed (use assms in \<open>auto simp: find_equal_None\<close>)

lemma insert_sorted_order:
  assumes "in_order cmp key (xs @ ys)" "fits key (key a) xs ys"
  shows "in_order cmp key (xs @ a # ys)"
  using assms by (auto simp: in_order_append in_order_Cons fits_def)

end

section \<open>The contract\<close>

locale sorted_table = comparator cmp for cmp :: "'k comparator" +
  fixes holds :: "(nat \<Rightarrow> 'k) \<Rightarrow> nat list \<Rightarrow> 't \<Rightarrow> bool"
    and ins :: "(nat \<Rightarrow> 'k) \<Rightarrow> nat \<Rightarrow> 't \<Rightarrow> ('t \<times> bool \<times> nat option) option"
    and rem :: "nat \<Rightarrow> 't \<Rightarrow> 't option"
    and look :: "(nat \<Rightarrow> 'k) \<Rightarrow> 'k \<Rightarrow> 't \<Rightarrow> nat option option"
    and first :: "'t \<Rightarrow> nat option option"
  assumes sorted: "holds key xs t \<Longrightarrow> in_order cmp key xs"
    and ins_new: "holds key xs t \<Longrightarrow> a \<notin> set xs \<Longrightarrow> find_equal cmp key (key a) xs = None
      \<Longrightarrow> \<exists>t' ref. ins key a t = Some (t', True, ref) \<and> holds key (insert_sorted cmp key a xs) t'"
    and ins_old: "holds key xs t \<Longrightarrow> find_equal cmp key (key a) xs = Some x
      \<Longrightarrow> ins key a t = Some (t, False, Some x)"
    and rem: "holds key (xs @ a # ys) t \<Longrightarrow> \<exists>t'. rem a t = Some t' \<and> holds key (xs @ ys) t'"
    and look: "holds key xs t \<Longrightarrow> look key v t = Some (find_equal cmp key v xs)"
    and first: "holds key xs t \<Longrightarrow> first t = Some (hd_opt xs)"
begin

lemma insert_lookup:
  assumes "holds key xs t" "a \<notin> set xs" "find_equal cmp key (key a) xs = None"
  obtains t' ref where "ins key a t = Some (t', True, ref)" "look key (key a) t' = Some (Some a)"
proof -
  obtain t' ref where t': "ins key a t = Some (t', True, ref)" "holds key (insert_sorted cmp key a xs) t'"
    using ins_new [OF assms] by blast
  have "find_equal cmp key (key a) (insert_sorted cmp key a xs) = Some a"
    by (rule find_equal_Some [OF sorted [OF t'(2)]]) (simp_all add: refl)
  then show thesis using that t'(1) look [OF t'(2)] by simp
qed

lemma remove_lookup:
  assumes "holds key (xs @ a # ys) t"
  obtains t' where "rem a t = Some t'" "look key (key a) t' = Some None"
proof -
  obtain t' where t': "rem a t = Some t'" "holds key (xs @ ys) t'" using rem [OF assms] by blast
  have "cmp (key a) (key x) \<noteq> 0" if "x \<in> set (xs @ ys)" for x
    using sorted [OF assms] that antisym [of "key x" "key a"] by (auto simp: in_order_append in_order_Cons)
  then have "find_equal cmp key (key a) (xs @ ys) = None" by (simp add: find_equal_None)
  then show thesis using that t'(1) look [OF t'(2)] by simp
qed

text \<open>Removing the first node until there is none, the way the owners of tables free them.\<close>

lemma drain:
  assumes "holds key xs t"
  shows "\<exists>ts. length ts = Suc (length xs) \<and> ts ! 0 = t \<and> holds key [] (last ts)
    \<and> (\<forall>i < length xs. first (ts ! i) = Some (Some (xs ! i)) \<and> rem (xs ! i) (ts ! i) = Some (ts ! Suc i))"
  using assms
proof (induction xs arbitrary: t)
  case Nil
  then show ?case by (intro exI [of _ "[t]"]) simp
next
  case (Cons x xs)
  obtain t' where t': "rem x t = Some t'" "holds key xs t'" using rem [of key "[]" x xs t] Cons.prems by auto
  obtain ts where ts: "length ts = Suc (length xs)" "ts ! 0 = t'" "holds key [] (last ts)"
      "\<forall>i < length xs. first (ts ! i) = Some (Some (xs ! i)) \<and> rem (xs ! i) (ts ! i) = Some (ts ! Suc i)"
    using Cons.IH [OF t'(2)] by blast
  have "\<forall>i < length (x # xs). first ((t # ts) ! i) = Some (Some ((x # xs) ! i))
      \<and> rem ((x # xs) ! i) ((t # ts) ! i) = Some ((t # ts) ! Suc i)"
    using ts t' first [OF Cons.prems] by (auto simp: nth_Cons split: nat.split)
  then show ?case using ts by (intro exI [of _ "t # ts"]) auto
qed

end

section \<open>The provider\<close>

definition bavl_ok :: "'k comparator \<Rightarrow> (nat \<Rightarrow> 'k) \<Rightarrow> nat list \<Rightarrow> BAVL \<Rightarrow> bool" where
  "bavl_ok cmp key xs t \<longleftrightarrow> (\<exists>T. srep t T \<and> wbal T \<and> addrs T = xs \<and> in_order cmp key xs)"

lemma bavl_ok_Init: "bavl_ok cmp key [] BAVL_Init"
  unfolding bavl_ok_def by (intro exI [of _ Leaf]) (simp add: srep_def BAVL_Init_def in_order_def)

lemma bavl_ok_distinct: "bavl_ok cmp key xs t \<Longrightarrow> distinct xs"
  by (auto simp: bavl_ok_def srep_def)

lemma srep_root: "srep t T \<Longrightarrow> av_root t = root_addr T"
  using trep_root by (auto simp: srep_def)

context comparator
begin

lemma bavl_look:
  assumes "bavl_ok cmp key xs t"
  shows "BAVL_LookupExact cmp key v t = Some (find_equal cmp key v xs)"
    and "BAVL_Lookup cmp key v t = Some (find_equal cmp key v xs)
      \<or> (\<exists>x. BAVL_Lookup cmp key v t = Some (Some x) \<and> find_equal cmp key v xs = None \<and> adjacent cmp key v xs x)"
proof -
  obtain T where T: "srep t T" "addrs T = xs" "in_order cmp key xs" using assms by (auto simp: bavl_ok_def)
  have "BAVL_LookupExact cmp key v t = Some (find_equal cmp key v xs)
      \<and> (BAVL_Lookup cmp key v t = Some (find_equal cmp key v xs)
        \<or> (\<exists>x. BAVL_Lookup cmp key v t = Some (Some x) \<and> find_equal cmp key v xs = None \<and> adjacent cmp key v xs x))"
  proof (cases "root_addr T")
    case None
    then have "av_root t = None" "xs = []" using srep_root [OF T(1)] T(2) by simp_all
    then show ?thesis by (simp add: BAVL_LookupExact_def BAVL_Lookup_def find_equal_def)
  next
    case (Some c)
    have r: "av_root t = Some c" using srep_root [OF T(1)] Some by simp
    have s: "srep t (plug T [])" "in_order cmp key (addrs T)" "fits key v (ctx_before []) (ctx_after [])"
      using T by (simp_all add: fits_def)
    show ?thesis
    proof (rule find_ok [OF s(1) Some s(2,3)])
      fix n assume f: "BAVL_find cmp key v c t = Some (n, None)" "n \<in> set (addrs T)" "cmp v (key n) = 0"
      have "find_equal cmp key v xs = Some n" by (rule find_equal_Some) (use T f in auto)
      then show ?thesis using r f(1) by (simp add: BAVL_LookupExact_def BAVL_Lookup_def)
    next
      fix s n b d ctx'
      assume f: "BAVL_find cmp key v c t = Some (n, Some s)" "plug T [] = plug Leaf ((s, (n, b), d) # ctx')"
        "fits key v (ctx_before ((s, (n, b), d) # ctx')) (ctx_after ((s, (n, b), d) # ctx'))"
      let ?l = "ctx_before ((s, (n, b), d) # ctx')" and ?u = "ctx_after ((s, (n, b), d) # ctx')"
      have xs: "xs = ?l @ ?u" using arg_cong [OF f(2), of addrs] T(2) by (simp add: addrs_plug addrs_mk)
      have "cmp v (key x) \<noteq> 0" if "x \<in> set xs" for x
        using that f(3) antisym [of "key x" v] unfolding xs fits_def by auto
      then have "find_equal cmp key v xs = None" by (simp add: find_equal_None)
      moreover have "adjacent cmp key v xs n"
        using fits_parts [OF f(3)] unfolding xs adjacent_def by (simp add: last_opt_def split: if_splits)
      ultimately show ?thesis using r f(1) by (simp add: BAVL_LookupExact_def BAVL_Lookup_def)
    qed
  qed
  then show "BAVL_LookupExact cmp key v t = Some (find_equal cmp key v xs)"
    and "BAVL_Lookup cmp key v t = Some (find_equal cmp key v xs)
      \<or> (\<exists>x. BAVL_Lookup cmp key v t = Some (Some x) \<and> find_equal cmp key v xs = None \<and> adjacent cmp key v xs x)"
    by blast+
qed

lemma bavl_insert_old:
  assumes "bavl_ok cmp key xs t" "find_equal cmp key (key a) xs = Some x"
  shows "BAVL_Insert cmp key a t = Some (t, False, Some x)"
proof -
  obtain r n where r: "av_root t = Some r" "BAVL_find cmp key (key a) r t = Some (n, None)" "n = x"
    using bavl_look(1) [OF assms(1), of "key a"] assms(2)
    by (auto simp: BAVL_LookupExact_def bind_Some split: option.splits if_splits)
  then show ?thesis by (simp add: BAVL_Insert_def)
qed

lemma bavl_insert_new:
  assumes ok: "bavl_ok cmp key xs t" and fresh: "a \<notin> set xs" and new: "find_equal cmp key (key a) xs = None"
  shows "\<exists>t' ref. BAVL_Insert cmp key a t = Some (t', True, ref) \<and> bavl_ok cmp key (insert_sorted cmp key a xs) t'
    \<and> (case ref of None \<Rightarrow> xs = [] | Some x \<Rightarrow> adjacent cmp key (key a) xs x)"
proof -
  obtain T where T: "srep t T" "wbal T" "addrs T = xs" "in_order cmp key xs" using ok by (auto simp: bavl_ok_def)
  show ?thesis
  proof (cases "root_addr T")
    case None
    let ?t = "t\<lparr>av_root := Some a,
        av_heap := (av_heap t)(a \<mapsto> \<lparr>bn_parent = None, bn_link = (\<lambda>_. None), bn_balance = 0\<rparr>)\<rparr>"
    have xs: "xs = []" using None T(3) by simp
    have "bavl_ok cmp key (insert_sorted cmp key a xs) ?t"
      unfolding bavl_ok_def xs
      by (intro exI [of _ "Node Leaf (a, 0) Leaf"]) (simp add: srep_def insert_sorted_def lower_def upper_def in_order_def)
    then show ?thesis using srep_root [OF T(1)] None xs by (auto simp: BAVL_Insert_def)
  next
    case (Some c)
    have r: "av_root t = Some c" using srep_root [OF T(1)] Some by simp
    have s: "srep t (plug T [])" "in_order cmp key (addrs T)" "fits key (key a) (ctx_before []) (ctx_after [])"
      using T by (simp_all add: fits_def)
    show ?thesis
    proof (rule find_ok [OF s(1) Some s(2,3)])
      fix n assume "n \<in> set (addrs T)" "cmp (key a) (key n) = 0"
      then show ?thesis using new T(3) by (simp add: find_equal_None)
    next
      fix s n b d ctx
      assume f: "BAVL_find cmp key (key a) c t = Some (n, Some s)" "plug T [] = plug Leaf ((s, (n, b), d) # ctx)"
        "fits key (key a) (ctx_before ((s, (n, b), d) # ctx)) (ctx_after ((s, (n, b), d) # ctx))"
      let ?c = "(s, (n, b), d) # ctx" and ?l = "ctx_before ((s, (n, b), d) # ctx)" and ?u = "ctx_after ((s, (n, b), d) # ctx)"
      have pl: "plug Leaf ?c = T" using f(2) by simp
      have st: "srep t (plug Leaf ?c)" "a \<notin> set (addrs (plug Leaf ?c))"
        unfolding pl using T fresh by blast+
      have xs: "xs = ?l @ ?u" using T(3) unfolding pl [symmetric] addrs_plug by simp
      obtain t1 where t1: "set_link n s (Some a) t = Some t1"
        "srep (t1\<lparr>av_heap := (av_heap t1)(a \<mapsto> \<lparr>bn_parent = Some n, bn_link = (\<lambda>_. None), bn_balance = 0\<rparr>)\<rparr>)
          (plug (Node Leaf (a, 0) Leaf) ?c)"
        by (rule attach_ok [OF st])
      have "cbal (ht Leaf) ?c" using T(2) unfolding pl [symmetric] wbal_plug by blast
      moreover have "ht (Node Leaf (a, 0) Leaf) - 1 = ht Leaf" by simp
      ultimately have w: "cbal (ht (Node Leaf (a, 0) Leaf) - 1) ?c" by metis
      obtain t' T' where t': "BAVL_rebalance n s 1
          (t1\<lparr>av_heap := (av_heap t1)(a \<mapsto> \<lparr>bn_parent = Some n, bn_link = (\<lambda>_. None), bn_balance = 0\<rparr>)\<rparr>) = Some t'"
          "srep t' T'" "wbal T'" "addrs T' = addrs (plug (Node Leaf (a, 0) Leaf) ?c)"
        using rebalance_ok [OF t1(2) _ w] by auto
      have p: "lower cmp key (key a) xs = ?l" "upper cmp key (key a) xs = ?u"
        using fits_parts [OF f(3)] unfolding xs by blast+
      have l: "insert_sorted cmp key a xs = ?l @ a # ?u" unfolding insert_sorted_def p by simp
      have "in_order cmp key (insert_sorted cmp key a xs)"
        unfolding l by (rule insert_sorted_order [OF T(4) [unfolded xs] f(3)])
      moreover have "addrs T' = insert_sorted cmp key a xs" unfolding t'(4) addrs_plug l by simp
      moreover have "adjacent cmp key (key a) xs n"
        unfolding adjacent_def p by (simp add: last_opt_def split: if_splits)
      moreover have "BAVL_Insert cmp key a t = Some (t', True, Some n)"
        using r f(1) t1(1) t'(1) by (simp add: BAVL_Insert_def Let_def)
      ultimately show ?thesis using t'(2,3) by (auto simp: bavl_ok_def)
    qed
  qed
qed

lemma bavl_remove:
  assumes "bavl_ok cmp key (xs @ a # ys) t"
  shows "\<exists>t'. BAVL_Remove a t = Some t' \<and> bavl_ok cmp key (xs @ ys) t'"
proof -
  obtain T where T: "srep t T" "wbal T" "addrs T = xs @ a # ys" "in_order cmp key (xs @ a # ys)"
    using assms by (auto simp: bavl_ok_def)
  obtain t' T' where t': "BAVL_Remove a t = Some t'" "srep t' T'" "wbal T'" "addrs T' = xs @ ys"
    by (rule remove_ok [OF T(1-3)])
  have "in_order cmp key (xs @ ys)" using T(4) by (simp add: in_order_append in_order_Cons)
  then show ?thesis using t' by (auto simp: bavl_ok_def)
qed

end

sublocale comparator \<subseteq> bavl: sorted_table cmp "bavl_ok cmp" "BAVL_Insert cmp" BAVL_Remove "BAVL_LookupExact cmp" BAVL_GetFirst
proof
  fix key xs t assume ok: "bavl_ok cmp key xs t"
  then show "in_order cmp key xs" by (auto simp: bavl_ok_def)
  show "BAVL_GetFirst t = Some (hd_opt xs)" using ok ends_ok by (auto simp: bavl_ok_def)
  show "BAVL_LookupExact cmp key v t = Some (find_equal cmp key v xs)" for v using bavl_look(1) [OF ok] .
  show "BAVL_Insert cmp key a t = Some (t, False, Some x)" if "find_equal cmp key (key a) xs = Some x" for a x
    using bavl_insert_old [OF ok that] .
  show "\<exists>t' ref. BAVL_Insert cmp key a t = Some (t', True, ref) \<and> bavl_ok cmp key (insert_sorted cmp key a xs) t'"
    if "a \<notin> set xs" "find_equal cmp key (key a) xs = None" for a
    using bavl_insert_new [OF ok that] by blast
next
  fix key xs a ys t assume "bavl_ok cmp key (xs @ a # ys) t"
  then show "\<exists>t'. BAVL_Remove a t = Some t' \<and> bavl_ok cmp key (xs @ ys) t'" by (rule bavl_remove)
qed

end
