(* ===== verification/BAVLProps.thy ===== *)
theory BAVLProps
  imports BAVLTable UdpGwClient SocksUdpGwClient SocksUdpClientInv
begin

text \<open>
  The properties of the AVL trees, the comparators of the program, and the tables of the program on
  top of them.
\<close>

section \<open>The comparators of the program\<close>

lemma linorder_comparator:
  fixes key :: "'a \<Rightarrow> 'b :: linorder"
  assumes "\<And>a b. cmp a b = (if key a < key b then - 1 else if key a = key b then 0 else 1)"
  shows "comparator cmp"
  by unfold_locales (auto simp: assms split: if_splits)

interpretation baddr_order: comparator BAddr_CompareOrder
  by (rule linorder_comparator [where key = id]) (simp add: BAddr_CompareOrder_eq)

interpretation conid_order: comparator uint16_comparator
  by (rule linorder_comparator [where key = unat]) (simp add: uint16_comparator_def B_COMPARE_def)

interpretation conaddr_order: comparator conaddr_comparator
  by (rule linorder_comparator [where key = "\<lambda>a. (remote_addr a, local_addr a)"])
     (auto simp: conaddr_comparator_def BAddr_CompareOrder_eq Let_def)

interpretation sg_conaddr_order: comparator sg_conaddr_comparator
  by (rule linorder_comparator [where key = sg_local_addr])
     (simp add: sg_conaddr_comparator_def BAddr_CompareOrder_eq)

interpretation sk_addr_order: comparator sk_addr_comparator
  by (rule linorder_comparator [where key = id]) (simp add: sk_addr_comparator_def BAddr_CompareOrder_eq)

section \<open>Heights\<close>

lemma length_addrs: "length (addrs T) = size T"
  by (simp add: addrs_def)

lemma height_bound: "wbal T \<Longrightarrow> 2 ^ (height T div 2) \<le> size T + 1"
proof (induction T rule: wbal.induct)
  case (2 l a b r)
  define h where "h = max (height l) (height r)"
  have i: "2 ^ (height l div 2) \<le> size l + 1" "2 ^ (height r div 2) \<le> size r + 1" using 2 by simp_all
  have low: "height l \<ge> h - 1" "height r \<ge> h - 1" using 2(3) by (auto simp: h_def)
  show ?case
  proof (cases "h = 0")
    case True
    then show ?thesis by (simp add: h_def)
  next
    case False
    have "(2::nat) ^ (Suc h div 2) = 2 * 2 ^ ((h - 1) div 2)" using False by (cases h) auto
    moreover have "(2::nat) ^ ((h - 1) div 2) \<le> 2 ^ (height l div 2)" "(2::nat) ^ ((h - 1) div 2) \<le> 2 ^ (height r div 2)"
      using low by (simp_all add: div_le_mono)
    ultimately have "2 ^ (Suc h div 2) \<le> (size l + 1) + (size r + 1)" using i by linarith
    then show ?thesis by (simp add: h_def)
  qed
qed simp

context comparator
begin

lemma recurser_ok:
  assumes "srep t (plug T ctx)" "wbal T" "in_order cmp key (addrs T)" "root_addr T = Some c"
  shows "BAVL_assert_recurser cmp key c t = Some (ht T)"
  using assms
proof (induction T arbitrary: c ctx rule: wbal.induct)
  case (2 l a b r)
  have c: "c = a" using "2.prems"(4) by simp
  have s: "srep t (plug (mk True r (a, b) l) ctx)" using "2.prems"(1) by (simp add: mk_def)
  have sl: "srep t (plug l ((False, (a, b), r) # ctx))" and sr: "srep t (plug r ((True, (a, b), l) # ctx))"
    using s by (simp_all add: mk_def)
  have w: "wbal l" "wbal r" "b = ht r - ht l" "b \<ge> - 1" "b \<le> 1" using "2.prems"(2) by (auto simp: abs_le_iff)
  have o: "in_order cmp key (addrs l)" "in_order cmp key (addrs r)"
      "\<forall>x\<in>set (addrs l). cmp (key x) (key a) = - 1" "\<forall>x\<in>set (addrs r). cmp (key x) (key a) = 1"
    using "2.prems"(3) antisym [of "key a"] by (auto simp: in_order_append in_order_Cons)
  have link: "link_of a False t = Some (root_addr l)" "link_of a True t = Some (root_addr r)" "balance_of a t = Some b"
    using read_mk(1-3) [OF s] by simp_all
  have kid: "parent_of x t = Some (Some a)" if "srep t (plug T' ((s, (a, b), d) # ctx))" "root_addr T' = Some x" for T' s d x
  proof -
    note h = that
    obtain y e z where "T' = mk True y (x, e) z" using h(2) by (cases T' rule: tree_mk_cases [where s = True]) auto
    then show ?thesis using read_mk(4) [of t True y x e z "(s, (a, b), d) # ctx"] h(1) by simp
  qed
  have left: "(case root_addr l of None \<Rightarrow> Some 0
       | Some c \<Rightarrow> do { p \<leftarrow> parent_of c t; assert_that (p = Some a); comp \<leftarrow> compare_values cmp (key c) (key a);
           assert_that (comp = - 1); BAVL_assert_recurser cmp key c t }) = Some (ht l)"
  proof (cases "root_addr l")
    case (Some x)
    then show ?thesis using "2.IH"(1) [OF sl w(1) o(1) Some] o(3) root_addr_in [OF Some] kid [OF sl Some] by simp
  qed simp
  have right: "(case root_addr r of None \<Rightarrow> Some 0
       | Some c \<Rightarrow> do { p \<leftarrow> parent_of c t; assert_that (p = Some a); comp \<leftarrow> compare_values cmp (key c) (key a);
           assert_that (comp = 1); BAVL_assert_recurser cmp key c t }) = Some (ht r)"
  proof (cases "root_addr r")
    case (Some x)
    then show ?thesis using "2.IH"(2) [OF sr w(2) o(2) Some] o(4) root_addr_in [OF Some] kid [OF sr Some] by simp
  qed simp
  have "BAVL_assert_recurser cmp key a t = do {
      assert_that (b \<ge> - 1); assert_that (b \<le> 1); assert_that (b = ht r - ht l);
      Some (max (ht l) (ht r) + 1) }"
    by (subst BAVL_assert_recurser.simps) (simp only: link left right Option.bind_lunit)
  then show ?case using w(3-5) by (simp add: c of_nat_max)
qed simp

end

section \<open>Inserting, removing and looking up\<close>

text \<open>
  C32. On a heap that holds a balanced tree in the order of the comparator, \<open>BAVL_Insert\<close> of a new
  node never fails and always ends; if a node with an equal value exists it returns that node and
  changes nothing, otherwise the result is again a balanced tree, with the node inserted at its place
  in the order, and \<open>*ref\<close> is a neighbour of that place.
\<close>

theorem BAVL_Insert_refines:
  assumes "comparator cmp" "bavl_ok cmp key xs t" "a \<notin> set xs"
  shows "case find_equal cmp key (key a) xs of
      Some x \<Rightarrow> BAVL_Insert cmp key a t = Some (t, False, Some x)
    | None \<Rightarrow> (\<exists>t' ref. BAVL_Insert cmp key a t = Some (t', True, ref)
        \<and> bavl_ok cmp key (insert_sorted cmp key a xs) t'
        \<and> (case ref of None \<Rightarrow> xs = [] | Some x \<Rightarrow> adjacent cmp key (key a) xs x))"
  using comparator.bavl_insert_old [OF assms(1,2)] comparator.bavl_insert_new [OF assms]
  by (auto split: option.split)

text \<open>Two nodes, the second one on the right of the first: inserting a third one rotates.\<close>

definition two_nodes :: BAVL where
  "two_nodes = \<lparr>av_root = Some 1, av_heap =
     [1 \<mapsto> \<lparr>bn_parent = None, bn_link = (\<lambda>s. if s then Some 2 else None), bn_balance = 1\<rparr>,
      2 \<mapsto> \<lparr>bn_parent = Some 1, bn_link = (\<lambda>_. None), bn_balance = 0\<rparr>]\<rparr>"

definition own_address :: "nat \<Rightarrow> u16" where
  "own_address a = of_nat a"

lemma two_nodes_ok: "bavl_ok uint16_comparator own_address [1, 2] two_nodes"
proof -
  have "uint16_comparator (own_address 1) (own_address 2) = - 1" by code_simp
  then show ?thesis
    unfolding bavl_ok_def
    by (intro exI [of _ "Node Leaf (1, 1) (Node Leaf (2, 0) Leaf)"]) (simp add: srep_def two_nodes_def in_order_def)
qed

lemma three_nodes: "find_equal uint16_comparator own_address (own_address 3) [1, 2] = None"
    "insert_sorted uint16_comparator own_address 3 [1, 2] = [1, 2, 3]"
  by code_simp+

lemma BAVL_Insert_refines_witness:
  "\<exists>t' ref. BAVL_Insert uint16_comparator own_address 3 two_nodes = Some (t', True, ref)
     \<and> bavl_ok uint16_comparator own_address [1, 2, 3] t'"
proof -
  have "3 \<notin> set [1, 2 :: nat]" by simp
  from BAVL_Insert_refines [OF conid_order.comparator_axioms two_nodes_ok this]
  show ?thesis unfolding three_nodes option.case by blast
qed

text \<open>
  C33. \<open>BAVL_Remove\<close> of a node of a balanced tree never fails and always ends, in a balanced tree of
  the other nodes in their order.
\<close>

theorem BAVL_Remove_refines:
  assumes "comparator cmp" "bavl_ok cmp key (xs @ a # ys) t"
  shows "\<exists>t'. BAVL_Remove a t = Some t' \<and> bavl_ok cmp key (xs @ ys) t'"
  using assms by (rule comparator.bavl_remove)

lemma BAVL_Remove_refines_witness:
  "\<exists>t'. BAVL_Remove 1 two_nodes = Some t' \<and> bavl_ok uint16_comparator own_address [2] t'"
  using BAVL_Remove_refines [OF conid_order.comparator_axioms, of own_address "[]" 1 "[2]" two_nodes] two_nodes_ok by simp

text \<open>
  C34. The queries see the list of nodes: an exact look-up finds the node with an equal value, the
  other look-up also a neighbour of the place where such a node would be, and the walks visit the list
  from either end, one node after the other.
\<close>

theorem BAVL_queries:
  assumes "comparator cmp" "bavl_ok cmp key xs t"
  shows "BAVL_LookupExact cmp key v t = Some (find_equal cmp key v xs)
    \<and> (case BAVL_Lookup cmp key v t of
          Some None \<Rightarrow> xs = []
        | Some (Some x) \<Rightarrow> find_equal cmp key v xs = Some x
            \<or> find_equal cmp key v xs = None \<and> adjacent cmp key v xs x
        | None \<Rightarrow> False)
    \<and> BAVL_GetFirst t = Some (hd_opt xs) \<and> BAVL_GetLast t = Some (last_opt xs)
    \<and> (\<forall>ys a zs. xs = ys @ a # zs \<longrightarrow>
          BAVL_GetNext a t = Some (hd_opt zs) \<and> BAVL_GetPrev a t = Some (last_opt ys))"
proof -
  obtain T where T: "srep t T" "addrs T = xs" using assms(2) by (auto simp: bavl_ok_def)
  have "xs = []" if "BAVL_Lookup cmp key v t = Some None"
    using that srep_root [OF T(1)] T(2) by (auto simp: BAVL_Lookup_def bind_Some split: option.splits)
  moreover have "BAVL_Lookup cmp key v t = Some (find_equal cmp key v xs) \<or> (\<exists>x. BAVL_Lookup cmp key v t = Some (Some x)
      \<and> find_equal cmp key v xs = None \<and> adjacent cmp key v xs x)"
    using assms by (rule comparator.bavl_look)
  ultimately have "case BAVL_Lookup cmp key v t of
          Some None \<Rightarrow> xs = []
        | Some (Some x) \<Rightarrow> find_equal cmp key v xs = Some x
            \<or> find_equal cmp key v xs = None \<and> adjacent cmp key v xs x
        | None \<Rightarrow> False"
    by (cases "find_equal cmp key v xs") auto
  moreover have "BAVL_LookupExact cmp key v t = Some (find_equal cmp key v xs)"
    using assms by (rule comparator.bavl_look)
  ultimately show ?thesis using ends_ok [OF T(1)] neighbours_ok [OF T(1)] T(2) by simp
qed

lemma BAVL_queries_witness:
  "BAVL_LookupExact uint16_comparator own_address (own_address 2) two_nodes = Some (Some 2)
   \<and> BAVL_GetFirst two_nodes = Some (Some 1)"
proof -
  have "find_equal uint16_comparator own_address (own_address 2) [1, 2] = Some 2" by code_simp
  then show ?thesis
    using BAVL_queries [OF conid_order.comparator_axioms two_nodes_ok, of "own_address 2"] by simp
qed

text \<open>
  C35. The run-time check \<open>BAVL_Verify\<close> passes on every such tree: parent pointers, order and balance
  factors are right, and with \<open>n\<close> nodes the height it computes is at most \<open>2 log (n + 1) + 1\<close>, so that
  every walk is short.
\<close>

theorem BAVL_Verify_passes:
  assumes "comparator cmp" "bavl_ok cmp key xs t"
  shows "BAVL_Verify cmp key t = Some ()
    \<and> (case av_root t of None \<Rightarrow> xs = []
        | Some r \<Rightarrow> (\<exists>h. BAVL_assert_recurser cmp key r t = Some (int h) \<and> 2 ^ (h div 2) \<le> length xs + 1))"
proof -
  obtain T where T: "srep t T" "wbal T" "addrs T = xs" "in_order cmp key (addrs T)"
    using assms(2) by (auto simp: bavl_ok_def)
  have root: "av_root t = root_addr T" by (rule srep_root [OF T(1)])
  show ?thesis
  proof (cases "root_addr T")
    case None
    then show ?thesis using root T(3) by (simp add: BAVL_Verify_def)
  next
    case (Some r)
    obtain y e z where y: "T = mk True y (r, e) z" using Some by (cases T rule: tree_mk_cases [where s = True]) auto
    have "parent_of r t = Some None" using read_mk(4) [of t True y r e z "[]"] T(1) by (simp add: y)
    moreover have "BAVL_assert_recurser cmp key r t = Some (ht T)"
      using comparator.recurser_ok [OF assms(1), where ctx = "[]"] T Some by simp
    moreover have "2 ^ (height T div 2) \<le> length xs + 1" using height_bound [OF T(2)] T(3) length_addrs by metis
    ultimately show ?thesis using root Some by (auto simp: BAVL_Verify_def)
  qed
qed

lemma BAVL_Verify_passes_witness: "BAVL_Verify uint16_comparator own_address two_nodes = Some ()"
  using BAVL_Verify_passes [OF conid_order.comparator_axioms two_nodes_ok] by blast

section \<open>The tables of the program\<close>

text \<open>
  The components above keep their tables as lists or maps from keys to connections. The list of
  \<open>SocksUdpClient\<close> is held by an AVL tree whose nodes are the connections, with the local address of a
  connection as the value of its node.
\<close>

definition sk_tree_rep :: "(baddr \<times> nat) list \<Rightarrow> (nat \<Rightarrow> baddr) \<Rightarrow> BAVL \<Rightarrow> bool" where
  "sk_tree_rep tbl key t \<longleftrightarrow> bavl_ok sk_addr_comparator key (map snd tbl) t \<and> (\<forall>x\<in>set tbl. key (snd x) = fst x)"

lemma sk_tree_lookup_find:
  "\<forall>x\<in>set tbl. key (snd x) = fst x \<Longrightarrow> sk_tree_lookup a tbl = find_equal sk_addr_comparator key a (map snd tbl)"
  by (induction tbl) (auto simp: find_equal_def)

lemma sk_less_iff [simp]: "sk_addr_comparator a b = - 1 \<longleftrightarrow> a < b"
  by (auto simp: sk_addr_comparator_def BAddr_CompareOrder_eq)

lemma sk_tree_insert_find:
  assumes "in_order sk_addr_comparator key (map snd tbl)" "\<forall>x\<in>set tbl. key (snd x) = fst x"
  shows "case sk_tree_insert (key p) p tbl of
      None \<Rightarrow> find_equal sk_addr_comparator key (key p) (map snd tbl) \<noteq> None
    | Some tbl' \<Rightarrow> find_equal sk_addr_comparator key (key p) (map snd tbl) = None
        \<and> map snd tbl' = insert_sorted sk_addr_comparator key p (map snd tbl) \<and> set tbl' = insert (key p, p) (set tbl)"
  using assms
proof (induction tbl)
  case Nil
  then show ?case by (simp add: find_equal_def insert_sorted_def lower_def upper_def)
next
  case (Cons x tbl)
  obtain b q where x: "x = (b, q)" by (cases x)
  have b: "key q = b" using Cons.prems(2) x by simp
  have later: "b < key y" if "y \<in> snd ` set tbl" for y
    using Cons.prems(1) that x b by (auto simp: in_order_Cons)
  consider "key p = b" | "key p < b" | "b < key p" "key p \<noteq> b" by fastforce
  then show ?case
  proof cases
    case 1
    then show ?thesis using x b by (simp add: find_equal_def)
  next
    case 2
    have "key p \<noteq> key y" if "y \<in> snd ` set tbl" for y using later [OF that] 2 by auto
    then show ?thesis
      using 2 x b by (auto simp: find_equal_def find_None_iff insert_sorted_def lower_def upper_def)
  next
    case 3
    have "in_order sk_addr_comparator key (map snd tbl)" "\<forall>x\<in>set tbl. key (snd x) = fst x"
      using Cons.prems by (simp_all add: in_order_Cons)
    note IH = Cons.IH [OF this]
    have "\<not> key p < b" using 3 by auto
    then show ?thesis
      using IH 3 x b
      by (auto simp: find_equal_def insert_sorted_def lower_def upper_def split: option.splits)
  qed
qed

text \<open>
  C36. The table of \<open>SocksUdpClient\<close> is implemented by \<open>BAVL\<close>: the tree that \<open>BAVL_Init\<close> makes holds the
  empty list of the model; while a tree holds the list, be it empty or not, looking up an address, asking for the
  first connection, inserting a node that is not in it (also when its address is there) and removing
  one that is give the same results as in the model, and the new tree holds the new list.
\<close>

theorem SocksUdpClient_table_implemented:
  assumes "sk_tree_rep tbl key t" "p \<notin> snd ` set tbl"
  shows "sk_tree_rep [] key BAVL_Init
    \<and> BAVL_LookupExact sk_addr_comparator key a t = Some (sk_tree_lookup a tbl)
    \<and> BAVL_GetFirst t = Some (map_option snd (hd_opt tbl))
    \<and> (case sk_tree_insert (key p) p tbl of
          None \<Rightarrow> (\<exists>x. BAVL_Insert sk_addr_comparator key p t = Some (t, False, Some x))
        | Some tbl' \<Rightarrow> (\<exists>t' ref. BAVL_Insert sk_addr_comparator key p t = Some (t', True, ref) \<and> sk_tree_rep tbl' key t'))
    \<and> ((key q, q) \<in> set tbl \<longrightarrow> (\<exists>tbl' t'. sk_tree_remove (key q) q tbl = Some tbl'
          \<and> BAVL_Remove q t = Some t' \<and> sk_tree_rep tbl' key t'))"
proof (intro conjI impI)
  show "sk_tree_rep [] key BAVL_Init" using bavl_ok_Init by (simp add: sk_tree_rep_def)
  have ok: "bavl_ok sk_addr_comparator key (map snd tbl) t" and key: "\<forall>x\<in>set tbl. key (snd x) = fst x"
    using assms(1) by (simp_all add: sk_tree_rep_def)
  show "BAVL_LookupExact sk_addr_comparator key a t = Some (sk_tree_lookup a tbl)"
    using sk_addr_order.bavl.look [OF ok] sk_tree_lookup_find [OF key] by simp
  show "BAVL_GetFirst t = Some (map_option snd (hd_opt tbl))"
    using sk_addr_order.bavl.first [OF ok] by (cases tbl) simp_all
  have new: "p \<notin> set (map snd tbl)" using assms(2) by simp
  show "case sk_tree_insert (key p) p tbl of
          None \<Rightarrow> (\<exists>x. BAVL_Insert sk_addr_comparator key p t = Some (t, False, Some x))
        | Some tbl' \<Rightarrow> (\<exists>t' ref. BAVL_Insert sk_addr_comparator key p t = Some (t', True, ref) \<and> sk_tree_rep tbl' key t')"
    using sk_tree_insert_find [OF sk_addr_order.bavl.sorted [OF ok] key, of p]
      sk_addr_order.bavl.ins_old [OF ok, of p] sk_addr_order.bavl.ins_new [OF ok new] key
    by (cases "sk_tree_insert (key p) p tbl") (auto simp: sk_tree_rep_def)
  assume q: "(key q, q) \<in> set tbl"
  obtain xs ys where tbl: "tbl = xs @ (key q, q) # ys" "(key q, q) \<notin> set xs"
    using split_list_first [OF q] by blast
  obtain t' where "BAVL_Remove q t = Some t'" "bavl_ok sk_addr_comparator key (map snd xs @ map snd ys) t'"
    using sk_addr_order.bavl.rem [of key "map snd xs" q "map snd ys" t] ok tbl(1) by auto
  moreover have "sk_tree_remove (key q) q tbl = Some (xs @ ys)"
    using tbl q by (simp add: sk_tree_remove_def remove1_append)
  ultimately show "\<exists>tbl' t'. sk_tree_remove (key q) q tbl = Some tbl' \<and> BAVL_Remove q t = Some t' \<and> sk_tree_rep tbl' key t'"
    using key tbl(1) by (auto simp: sk_tree_rep_def)
qed

text \<open>A table of two connections.\<close>

definition con_addr :: "nat \<Rightarrow> baddr" where
  "con_addr p = BADDR_IPV4 0 (hton16 (of_nat p))"

lemma two_connections: "sk_tree_rep [(con_addr 1, 1), (con_addr 2, 2)] con_addr two_nodes"
proof -
  have "sk_addr_comparator (con_addr 1) (con_addr 2) = - 1" by code_simp
  then show ?thesis
    unfolding sk_tree_rep_def bavl_ok_def
    by (auto intro!: exI [of _ "Node Leaf (1, 1) (Node Leaf (2, 0) Leaf)"] simp: srep_def two_nodes_def in_order_def)
qed

lemma no_connections: "sk_tree_rep [] con_addr BAVL_Init"
  using bavl_ok_Init by (simp add: sk_tree_rep_def)

lemma SocksUdpClient_table_implemented_witness:
  "(\<exists>t' ref. BAVL_Insert sk_addr_comparator con_addr 3 BAVL_Init = Some (t', True, ref)
        \<and> sk_tree_rep [(con_addr 3, 3)] con_addr t')
   \<and> (\<exists>t'. BAVL_Remove 1 two_nodes = Some t' \<and> sk_tree_rep [(con_addr 2, 2)] con_addr t')"
proof -
  have e: "sk_tree_insert (con_addr 3) 3 [] = Some [(con_addr 3, 3)]"
    "sk_tree_remove (con_addr 1) 1 [(con_addr 1, 1), (con_addr 2, 2)] = Some [(con_addr 2, 2)]"
    by code_simp+
  have n: "(3::nat) \<notin> snd ` set []" "(3::nat) \<notin> snd ` set [(con_addr 1, 1), (con_addr 2, 2)]"
    "(con_addr 1, 1) \<in> set [(con_addr 1, 1), (con_addr 2, 2)]" by simp_all
  have "\<exists>t' ref. BAVL_Insert sk_addr_comparator con_addr 3 BAVL_Init = Some (t', True, ref)
        \<and> sk_tree_rep [(con_addr 3, 3)] con_addr t'"
    using SocksUdpClient_table_implemented [OF no_connections n(1)] unfolding e option.case by blast
  moreover have "\<exists>t'. BAVL_Remove 1 two_nodes = Some t' \<and> sk_tree_rep [(con_addr 2, 2)] con_addr t'"
    using SocksUdpClient_table_implemented [OF two_connections n(2), of _ 1] n(3) unfolding e by blast
  ultimately show ?thesis by blast
qed

end
