(* ===== verification/FragmentProto.thy ===== *)
theory FragmentProto
  imports NetProto ChunkBuffer2
begin

text \<open>
  FragmentProto of the P2P VPN (\<open>protocol/fragmentproto.h\<close>): frames of any size are carried over a link
  with a fixed MTU as chunks. \<open>client/FragmentProtoDisassembler.c\<close> writes chunks into the packets its
  output asks for, \<open>client/FragmentProtoAssembler.c\<close> puts them together.

  A call of another object or of the reactor is an action in the result. The memory of the frames is
  one list of entries, addressed by index, with the free and used lists of indices and the tree as a
  map from frame ids; what the buffers hold before they are written is an argument of the
  initialisation.
\<close>

section \<open>The protocol\<close>

definition sizeof_chunk_header :: nat where
  "sizeof_chunk_header = 7"

record fragmentproto_chunk_header =
  ch_frame_id :: u16
  ch_chunk_start :: u16
  ch_chunk_len :: u16
  ch_is_last :: byte

definition chunk_header_bytes :: "fragmentproto_chunk_header \<Rightarrow> byte list" where
  "chunk_header_bytes h = bytes16 (ch_frame_id h) @ bytes16 (ch_chunk_start h) @ bytes16 (ch_chunk_len h) @ [ch_is_last h]"

definition chunk_header_of :: "byte list \<Rightarrow> fragmentproto_chunk_header" where
  "chunk_header_of d = \<lparr>ch_frame_id = mk16 (d ! 0) (d ! 1), ch_chunk_start = mk16 (d ! 2) (d ! 3),
     ch_chunk_len = mk16 (d ! 4) (d ! 5), ch_is_last = d ! 6\<rparr>"

definition fragmentproto_max_chunks_for_frame :: "nat \<Rightarrow> nat \<Rightarrow> nat option" where
  "fragmentproto_max_chunks_for_frame carrier_mtu frame_mtu = do {
     assert_that (carrier_mtu > sizeof_chunk_header);
     Some (bdivide_up frame_mtu (carrier_mtu - sizeof_chunk_header) + 1) }"

text \<open>\<open>memcpy\<close> to a position of a buffer; \<open>None\<close> when it would write outside.\<close>

definition memcpy_to :: "nat \<Rightarrow> byte list \<Rightarrow> byte list \<Rightarrow> byte list option" where
  "memcpy_to pos src buf = do { assert_that (pos + length src \<le> length buf); Some (write_at buf pos src) }"

section \<open>The disassembler\<close>

text \<open>
  \<open>fd_in\<close> is the input packet (\<open>in_len = -1\<close> is \<open>None\<close>), \<open>fd_out\<close> the memory of the output packet (\<open>NULL\<close>
  is \<open>None\<close>) and \<open>fd_timer\<close> whether the timer runs. Negative limits are \<open>None\<close>.
\<close>

record FragmentProtoDisassembler =
  fd_output_mtu :: nat
  fd_chunk_mtu :: "nat option"
  fd_latency :: "nat option"
  fd_in :: "byte list option"
  fd_in_used :: nat
  fd_out :: "byte list option"
  fd_out_used :: nat
  fd_frame_id :: u16
  fd_timer :: bool

datatype fd_act =
    Fd_Input_Done
  | Fd_Output_Done "byte list"
  | Fd_SetTimer
  | Fd_RemoveTimer

text \<open>The loop, one chunk a round; \<open>OUT_AVAIL > 0\<close> is \<open>out_used + 7 < output_mtu\<close>.\<close>

definition fd_chunk_len :: "nat option \<Rightarrow> nat \<Rightarrow> nat \<Rightarrow> nat" where
  "fd_chunk_len chunk_mtu in_avail out_avail =
     (let chunk_len = min in_avail out_avail in
      case chunk_mtu of None \<Rightarrow> chunk_len | Some m \<Rightarrow> min chunk_len m)"

function write_chunks_loop ::
  "nat \<Rightarrow> nat option \<Rightarrow> u16 \<Rightarrow> byte list \<Rightarrow> nat \<Rightarrow> byte list \<Rightarrow> nat \<Rightarrow> (nat \<times> byte list \<times> nat) option" where
  "write_chunks_loop output_mtu chunk_mtu frame_id data in_used out out_used = do {
     let in_avail = length data - in_used;
     let chunk_len = fd_chunk_len chunk_mtu in_avail (output_mtu - out_used - sizeof_chunk_header);
     let header = \<lparr>ch_frame_id = htol16 frame_id, ch_chunk_start = htol16 (of_nat in_used),
           ch_chunk_len = htol16 (of_nat chunk_len), ch_is_last = (if chunk_len = in_avail then 1 else 0)\<rparr>;
     out \<leftarrow> memcpy_to out_used (chunk_header_bytes header) out;
     out \<leftarrow> memcpy_to (out_used + sizeof_chunk_header) (seg data in_used chunk_len) out;
     let in_used = in_used + chunk_len;
     let out_used = out_used + sizeof_chunk_header + chunk_len;
     if in_used < length data \<and> out_used + sizeof_chunk_header < output_mtu
     then write_chunks_loop output_mtu chunk_mtu frame_id data in_used out out_used
     else Some (in_used, out, out_used)
   }"
  by pat_completeness auto

termination
  by (relation "measure (\<lambda>(output_mtu, _, _, _, _, _, out_used). output_mtu - out_used)")
     (auto simp: sizeof_chunk_header_def)

declare write_chunks_loop.simps [simp del]

definition write_chunks :: "FragmentProtoDisassembler \<Rightarrow> (FragmentProtoDisassembler \<times> fd_act list) option" where
  "write_chunks o' = do {
     data \<leftarrow> fd_in o';
     out \<leftarrow> fd_out o';
     assert_that (fd_out_used o' + sizeof_chunk_header < fd_output_mtu o');
     (in_used, out, out_used) \<leftarrow> write_chunks_loop (fd_output_mtu o') (fd_chunk_mtu o') (fd_frame_id o')
       data (fd_in_used o') out (fd_out_used o');
     let o' = o'\<lparr>fd_in_used := in_used, fd_out := Some out, fd_out_used := out_used\<rparr>;
     let (o', acts) =
       (if in_used = length data
        then (o'\<lparr>fd_in := None, fd_frame_id := fd_frame_id o' + 1\<rparr>, [Fd_Input_Done]) else (o', []));
     if out_used + sizeof_chunk_header \<ge> fd_output_mtu o' \<or> fd_latency o' = None
     then Some (o'\<lparr>fd_out := None, fd_timer := False\<rparr>,
                acts @ (if fd_latency o' \<noteq> None then [Fd_RemoveTimer] else []) @ [Fd_Output_Done (take out_used out)])
     else if \<not> fd_timer o' then Some (o'\<lparr>fd_timer := True\<rparr>, acts @ [Fd_SetTimer])
     else Some (o', acts)
   }"

definition fd_input_handler_send ::
  "byte list \<Rightarrow> FragmentProtoDisassembler \<Rightarrow> (FragmentProtoDisassembler \<times> fd_act list) option" where
  "fd_input_handler_send data o' = do {
     assert_that (fd_in o' = None);
     let o' = o'\<lparr>fd_in := Some data, fd_in_used := 0\<rparr>;
     if fd_out o' = None then Some (o', []) else write_chunks o'
   }"

definition fd_input_handler_requestcancel ::
  "FragmentProtoDisassembler \<Rightarrow> (FragmentProtoDisassembler \<times> fd_act list) option" where
  "fd_input_handler_requestcancel o' = do {
     assert_that (fd_in o' \<noteq> None);
     assert_that (fd_out o' = None);
     Some (o'\<lparr>fd_in := None\<rparr>, [Fd_Input_Done])
   }"

definition fd_output_handler_recv ::
  "byte list \<Rightarrow> FragmentProtoDisassembler \<Rightarrow> (FragmentProtoDisassembler \<times> fd_act list) option" where
  "fd_output_handler_recv mem o' = do {
     assert_that (fd_out o' = None);
     let o' = o'\<lparr>fd_out := Some mem, fd_out_used := 0\<rparr>;
     if fd_in o' = None then Some (o', []) else write_chunks o'
   }"

definition fd_timer_handler :: "FragmentProtoDisassembler \<Rightarrow> (FragmentProtoDisassembler \<times> fd_act list) option" where
  "fd_timer_handler o' = do {
     let o' = o'\<lparr>fd_timer := False\<rparr>;
     assert_that (fd_latency o' \<noteq> None);
     out \<leftarrow> fd_out o';
     assert_that (fd_in o' = None);
     Some (o'\<lparr>fd_out := None\<rparr>, [Fd_Output_Done (take (fd_out_used o') out)])
   }"

definition FragmentProtoDisassembler_Init ::
  "nat \<Rightarrow> nat \<Rightarrow> nat option \<Rightarrow> nat option \<Rightarrow> FragmentProtoDisassembler option" where
  "FragmentProtoDisassembler_Init input_mtu output_mtu chunk_mtu latency = do {
     assert_that (input_mtu \<le> 65535);
     assert_that (output_mtu > sizeof_chunk_header);
     assert_that (chunk_mtu \<noteq> Some 0);
     Some \<lparr>fd_output_mtu = output_mtu, fd_chunk_mtu = chunk_mtu, fd_latency = latency, fd_in = None, fd_in_used = 0,
           fd_out = None, fd_out_used = 0, fd_frame_id = 0, fd_timer = False\<rparr>
   }"

end
