(* ===== verification/FragmentAssembler.thy ===== *)
theory FragmentAssembler
  imports FragmentProto
begin

text \<open>
  \<open>client/FragmentProtoAssembler.c\<close>: incomplete frames are entries of a fixed array, in a list of free
  or of used entries; used ones are also in a tree by frame id. Time is counted in input packets; a
  frame without a chunk for \<open>time_tolerance\<close> packets is timed out. \<open>int\<close> members whose values are never
  negative are natural numbers; times are the 32-bit words of the code.
\<close>

definition FPA_MAX_TIME :: u32 where
  "FPA_MAX_TIME = - 1"

record FPA_frame =
  fr_chunks :: "(nat \<times> nat) list"
  fr_buffer :: "byte list"
  fr_id :: u16
  fr_time :: u32
  fr_num_chunks :: nat
  fr_sum :: nat
  fr_length :: int
  fr_length_so_far :: nat

record FragmentProtoAssembler =
  fa_output_mtu :: nat
  fa_num_chunks :: nat
  fa_time :: u32
  fa_time_tolerance :: nat
  fa_frames :: "FPA_frame list"
  fa_frames_free :: "nat list"
  fa_frames_used :: "nat list"
  fa_frames_used_tree :: "u16 \<rightharpoonup> nat"
  fa_in :: "byte list option"
  fa_in_pos :: nat

datatype fa_act =
    Fa_Input_Done
  | Fa_Send nat nat

text \<open>An entry of the array, and the list operations on its node.\<close>

definition fa_frame :: "FragmentProtoAssembler \<Rightarrow> nat \<Rightarrow> FPA_frame option" where
  "fa_frame o' i = (if i < length (fa_frames o') then Some (fa_frames o' ! i) else None)"

definition fa_put :: "nat \<Rightarrow> FPA_frame \<Rightarrow> FragmentProtoAssembler \<Rightarrow> FragmentProtoAssembler" where
  "fa_put i fr o' = o'\<lparr>fa_frames := (fa_frames o')[i := fr]\<rparr>"

definition free_frame :: "nat \<Rightarrow> FragmentProtoAssembler \<Rightarrow> FragmentProtoAssembler option" where
  "free_frame i o' = do {
     fr \<leftarrow> fa_frame o' i;
     assert_that (i \<in> set (fa_frames_used o'));
     assert_that (fa_frames_used_tree o' (fr_id fr) = Some i);
     Some (o'\<lparr>fa_frames_used := remove1 i (fa_frames_used o'),
              fa_frames_used_tree := (fa_frames_used_tree o')(fr_id fr := None),
              fa_frames_free := fa_frames_free o' @ [i]\<rparr>)
   }"

definition free_oldest_frame :: "FragmentProtoAssembler \<Rightarrow> FragmentProtoAssembler option" where
  "free_oldest_frame o' = (case fa_frames_used o' of [] \<Rightarrow> None | i # _ \<Rightarrow> free_frame i o')"

definition allocate_new_frame ::
  "u16 \<Rightarrow> FragmentProtoAssembler \<Rightarrow> (nat \<times> FragmentProtoAssembler) option" where
  "allocate_new_frame frame_id o' = do {
     assert_that (fa_frames_used_tree o' frame_id = None);
     o' \<leftarrow> (if fa_frames_free o' = [] then free_oldest_frame o' else Some o');
     case fa_frames_free o' of
       [] \<Rightarrow> None
     | i # free \<Rightarrow> do {
         fr \<leftarrow> fa_frame o' i;
         let o' = o'\<lparr>fa_frames_free := free\<rparr>;
         let fr = fr\<lparr>fr_id := frame_id, fr_time := fa_time o', fr_num_chunks := 0, fr_sum := 0,
                     fr_length := - 1, fr_length_so_far := 0\<rparr>;
         Some (i, (fa_put i fr o')\<lparr>fa_frames_used := fa_frames_used o' @ [i],
                                   fa_frames_used_tree := (fa_frames_used_tree o')(frame_id \<mapsto> i)\<rparr>)
       }
   }"

definition chunks_overlap :: "nat \<Rightarrow> nat \<Rightarrow> nat \<Rightarrow> nat \<Rightarrow> bool" where
  "chunks_overlap c1_start c1_len c2_start c2_len \<longleftrightarrow> c1_start + c1_len > c2_start \<and> c2_start + c2_len > c1_start"

definition frame_is_timed_out :: "FragmentProtoAssembler \<Rightarrow> FPA_frame \<Rightarrow> bool option" where
  "frame_is_timed_out o' fr = do {
     assert_that (fr_time fr \<le> fa_time o');
     Some (unat (fa_time o' - fr_time fr) > fa_time_tolerance o') }"

text \<open>The first loop of \<open>reduce_times\<close>, over the used list as it was; the result has \<open>minframe\<close>.\<close>

fun fpa_reduce_scan ::
  "nat list \<Rightarrow> nat option \<Rightarrow> FragmentProtoAssembler \<Rightarrow> (nat option \<times> FragmentProtoAssembler) option" where
  "fpa_reduce_scan [] minframe o' = Some (minframe, o')"
| "fpa_reduce_scan (i # is) minframe o' = do {
     fr \<leftarrow> fa_frame o' i;
     timed_out \<leftarrow> frame_is_timed_out o' fr;
     if timed_out then do { o' \<leftarrow> free_frame i o'; fpa_reduce_scan is minframe o' }
     else do {
       smaller \<leftarrow> (case minframe of None \<Rightarrow> Some True
                   | Some m \<Rightarrow> map_option (\<lambda>mf. fr_time fr < fr_time mf) (fa_frame o' m));
       fpa_reduce_scan is (if smaller then Some i else minframe) o'
     }
   }"

text \<open>The second loop.\<close>

fun fpa_subtract_times :: "nat list \<Rightarrow> u32 \<Rightarrow> FragmentProtoAssembler \<Rightarrow> FragmentProtoAssembler option" where
  "fpa_subtract_times [] min_time o' = Some o'"
| "fpa_subtract_times (i # is) min_time o' = do {
     fr \<leftarrow> fa_frame o' i;
     fpa_subtract_times is min_time (fa_put i (fr\<lparr>fr_time := fr_time fr - min_time\<rparr>) o') }"

definition reduce_times :: "FragmentProtoAssembler \<Rightarrow> FragmentProtoAssembler option" where
  "reduce_times o' = do {
     (minframe, o') \<leftarrow> fpa_reduce_scan (fa_frames_used o') None o';
     case minframe of
       None \<Rightarrow> Some (o'\<lparr>fa_time := 0\<rparr>)
     | Some m \<Rightarrow> do {
         mf \<leftarrow> fa_frame o' m;
         let min_time = fr_time mf;
         o' \<leftarrow> fpa_subtract_times (fa_frames_used o') min_time o';
         Some (o'\<lparr>fa_time := fa_time o' - min_time\<rparr>)
       }
   }"

text \<open>The checks of a chunk against the chunks of its frame, all the ways to \<open>fail_frame\<close> but the last.\<close>

definition chunk_fits :: "FPA_frame \<Rightarrow> nat \<Rightarrow> nat \<Rightarrow> bool \<Rightarrow> bool" where
  "chunk_fits fr chunk_start chunk_len is_last \<longleftrightarrow>
     (\<forall>(s, l) \<in> set (take (fr_num_chunks fr) (fr_chunks fr)). \<not> chunks_overlap s l chunk_start chunk_len)
     \<and> (if is_last then fr_length fr < 0 \<and> fr_length_so_far fr \<le> chunk_start + chunk_len
        else fr_length fr < 0 \<or> int (chunk_start + chunk_len) \<le> fr_length fr)"

text \<open>Adding the chunk to the frame.\<close>

definition add_chunk :: "u32 \<Rightarrow> nat \<Rightarrow> byte list \<Rightarrow> bool \<Rightarrow> FPA_frame \<Rightarrow> FPA_frame option" where
  "add_chunk time chunk_start payload is_last fr = do {
     let chunk_end = chunk_start + length payload;
     assert_that (fr_num_chunks fr < length (fr_chunks fr));
     let fr = fr\<lparr>fr_time := time,
                 fr_chunks := (fr_chunks fr)[fr_num_chunks fr := (chunk_start, length payload)],
                 fr_num_chunks := fr_num_chunks fr + 1, fr_sum := fr_sum fr + length payload\<rparr>;
     let fr = (if is_last then fr\<lparr>fr_length := int chunk_end\<rparr>
               else if fr_length fr < 0 \<and> fr_length_so_far fr < chunk_end then fr\<lparr>fr_length_so_far := chunk_end\<rparr>
               else fr);
     buf \<leftarrow> memcpy_to chunk_start payload (fr_buffer fr);
     Some (fr\<lparr>fr_buffer := buf\<rparr>)
   }"

text \<open>The result has the frame to be sent, if any.\<close>

definition process_chunk ::
  "u16 \<Rightarrow> nat \<Rightarrow> bool \<Rightarrow> byte list \<Rightarrow> FragmentProtoAssembler \<Rightarrow> ((nat \<times> nat) option \<times> FragmentProtoAssembler) option" where
  "process_chunk frame_id chunk_start is_last payload o' =
     (if chunk_start > fa_output_mtu o' then Some (None, o')
      else if length payload > fa_output_mtu o' - chunk_start then Some (None, o')
      else do {
        (i, o') \<leftarrow>
          (case fa_frames_used_tree o' frame_id of
             None \<Rightarrow> allocate_new_frame frame_id o'
           | Some i \<Rightarrow> do {
               fr \<leftarrow> fa_frame o' i;
               timed_out \<leftarrow> frame_is_timed_out o' fr;
               if timed_out then do { o' \<leftarrow> free_frame i o'; allocate_new_frame frame_id o' }
               else Some (i, o')
             });
        fr \<leftarrow> fa_frame o' i;
        assert_that (fr_num_chunks fr < fa_num_chunks o');
        if \<not> chunk_fits fr chunk_start (length payload) is_last
        then do { o' \<leftarrow> free_frame i o'; Some (None, o') }
        else do {
          fr \<leftarrow> add_chunk (fa_time o') chunk_start payload is_last fr;
          let o' = fa_put i fr o';
          if fr_length fr < 0 \<or> int (fr_sum fr) < fr_length fr
          then (if fr_num_chunks fr = fa_num_chunks o' then do { o' \<leftarrow> free_frame i o'; Some (None, o') }
                else Some (None, o'))
          else do {
            assert_that (int (fr_sum fr) = fr_length fr);
            o' \<leftarrow> free_frame i o';
            Some (Some (i, nat (fr_length fr)), o')
          }
        }
      })"

text \<open>
  The loop of \<open>process_input\<close>. It ends with a frame to be sent, or at the end of the packet or a
  malformed chunk.
\<close>

function process_input_loop ::
  "byte list \<Rightarrow> nat \<Rightarrow> FragmentProtoAssembler \<Rightarrow> (nat \<times> (nat \<times> nat) option \<times> FragmentProtoAssembler) option" where
  "process_input_loop data pos o' =
     (if \<not> pos < length data then Some (pos, None, o')
      else if length data - pos < sizeof_chunk_header then Some (pos, None, o')
      else do {
        let header = chunk_header_of (seg data pos sizeof_chunk_header);
        let pos = pos + sizeof_chunk_header;
        let chunk_len = unat (ltoh16 (ch_chunk_len header));
        if ch_is_last header \<noteq> 0 \<and> ch_is_last header \<noteq> 1 then Some (pos, None, o')
        else if length data - pos < chunk_len then Some (pos, None, o')
        else do {
          (res, o') \<leftarrow> process_chunk (ltoh16 (ch_frame_id header)) (unat (ltoh16 (ch_chunk_start header)))
            (ch_is_last header = 1) (seg data pos chunk_len) o';
          let pos = pos + chunk_len;
          if res \<noteq> None then Some (pos, res, o') else process_input_loop data pos o'
        }
      })"
  by pat_completeness auto

termination
  by (relation "measure (\<lambda>(data, pos, _). length data - pos)") (auto simp: sizeof_chunk_header_def)

declare process_input_loop.simps [simp del]

definition packet_time_passes :: "FragmentProtoAssembler \<Rightarrow> FragmentProtoAssembler option" where
  "packet_time_passes o' =
     (if fa_time o' = FPA_MAX_TIME then do {
        o' \<leftarrow> reduce_times o';
        if fa_frames_used o' \<noteq> [] then do {
          assert_that (fa_time o' < FPA_MAX_TIME);
          Some (o'\<lparr>fa_time := fa_time o' + 1\<rparr>)
        }
        else do { assert_that (fa_time o' = 0); Some o' }
      }
      else Some (o'\<lparr>fa_time := fa_time o' + 1\<rparr>))"

definition process_input :: "FragmentProtoAssembler \<Rightarrow> (FragmentProtoAssembler \<times> fa_act list) option" where
  "process_input o' = do {
     data \<leftarrow> fa_in o';
     (pos, res, o') \<leftarrow> process_input_loop data (fa_in_pos o') o';
     let o' = o'\<lparr>fa_in_pos := pos\<rparr>;
     case res of
       Some (i, len) \<Rightarrow> Some (o', [Fa_Send i len])
     | None \<Rightarrow> do {
         o' \<leftarrow> packet_time_passes o';
         Some (o'\<lparr>fa_in := None\<rparr>, [Fa_Input_Done])
       }
   }"

definition fa_input_handler_send ::
  "byte list \<Rightarrow> FragmentProtoAssembler \<Rightarrow> (FragmentProtoAssembler \<times> fa_act list) option" where
  "fa_input_handler_send data o' = do {
     assert_that (fa_in o' = None);
     process_input (o'\<lparr>fa_in := Some data, fa_in_pos := 0\<rparr>)
   }"

definition fa_output_handler_done :: "FragmentProtoAssembler \<Rightarrow> (FragmentProtoAssembler \<times> fa_act list) option" where
  "fa_output_handler_done o' = do { assert_that (fa_in o' \<noteq> None); process_input o' }"

text \<open>
  The initialisation, with the memory the three allocations return: the chunk entries and the buffer
  of each frame. A failed allocation is \<open>Some None\<close>.
\<close>

definition FragmentProtoAssembler_Init ::
  "((nat \<times> nat) list \<times> byte list) list option \<Rightarrow> nat \<Rightarrow> nat \<Rightarrow> nat \<Rightarrow> FragmentProtoAssembler option option" where
  "FragmentProtoAssembler_Init mem output_mtu num_frames num_chunks = do {
     assert_that (num_frames > 0);
     assert_that (num_frames < unat FPA_MAX_TIME);
     assert_that (num_chunks > 0);
     case mem of
       None \<Rightarrow> Some None
     | Some ms \<Rightarrow> Some (Some \<lparr>fa_output_mtu = output_mtu, fa_num_chunks = num_chunks, fa_time = 0,
         fa_time_tolerance = num_frames,
         fa_frames = map (\<lambda>(cs, buf). \<lparr>fr_chunks = cs, fr_buffer = buf, fr_id = 0, fr_time = 0, fr_num_chunks = 0,
           fr_sum = 0, fr_length = 0, fr_length_so_far = 0\<rparr>) ms,
         fa_frames_free = [0..<num_frames], fa_frames_used = [], fa_frames_used_tree = Map.empty,
         fa_in = None, fa_in_pos = 0\<rparr>)
   }"

end
