(* ===== verification/FragmentAssemblerInv.thy ===== *)
theory FragmentAssemblerInv
  imports FragmentAssembler
begin

text \<open>
  The invariant of the assembler: the entries are free or used and the tree finds the used ones; the
  chunks of a frame are chunks that were received for its id, do not overlap, and stand in its buffer.
\<close>

section \<open>Chunks\<close>

type_synonym piece = "nat \<times> byte list \<times> bool"

definition piece_end :: "piece \<Rightarrow> nat" where
  "piece_end c = fst c + length (fst (snd c))"

definition piece_range :: "piece \<Rightarrow> nat set" where
  "piece_range c = {fst c ..< piece_end c}"

definition apart :: "piece list \<Rightarrow> bool" where
  "apart gs = sorted_wrt (\<lambda>c d. \<not> chunks_overlap (fst c) (length (fst (snd c))) (fst d) (length (fst (snd d)))) gs"

lemma not_overlap_disjoint:
  "\<not> chunks_overlap (fst c) (length (fst (snd c))) (fst d) (length (fst (snd d))) \<Longrightarrow> piece_range c \<inter> piece_range d = {}"
  by (auto simp: chunks_overlap_def piece_range_def piece_end_def)

definition piece_sum :: "piece list \<Rightarrow> nat" where
  "piece_sum gs = sum_list (map (\<lambda>c. length (fst (snd c))) gs)"

lemma card_pieces: "apart gs \<Longrightarrow> card (\<Union> (piece_range ` set gs)) = piece_sum gs"
proof (induction gs)
  case (Cons c gs)
  have d: "piece_range c \<inter> \<Union> (piece_range ` set gs) = {}"
    using Cons.prems not_overlap_disjoint [of c] unfolding apart_def by fastforce
  have "card (\<Union> (piece_range ` set (c # gs))) = card (piece_range c) + card (\<Union> (piece_range ` set gs))"
    using d by (simp add: card_Un_disjoint piece_range_def)
  then show ?case using Cons by (simp add: apart_def piece_sum_def piece_range_def piece_end_def)
qed (simp add: piece_sum_def)

lemma pieces_bound:
  assumes "apart gs" "\<forall>c\<in>set gs. piece_end c \<le> n"
  shows "piece_sum gs \<le> n" "piece_sum gs = n \<Longrightarrow> \<Union> (piece_range ` set gs) = {..<n}"
proof -
  have sub: "\<Union> (piece_range ` set gs) \<subseteq> {..<n}" using assms(2) by (auto simp: piece_range_def)
  then show "piece_sum gs \<le> n" using card_mono [OF _ sub] card_pieces [OF assms(1)] by simp
  show "\<Union> (piece_range ` set gs) = {..<n}" if "piece_sum gs = n"
    using card_subset_eq [OF _ sub] card_pieces [OF assms(1)] that by simp
qed

text \<open>A packet that is put together from chunks received for one id, with no byte from elsewhere.\<close>

definition assembled :: "(u16 \<times> piece) set \<Rightarrow> byte list \<Rightarrow> bool" where
  "assembled log p \<longleftrightarrow> (\<exists>i gs. (\<forall>c\<in>set gs. (i, c) \<in> log \<and> piece_end c \<le> length p
        \<and> seg p (fst c) (length (fst (snd c))) = fst (snd c))
      \<and> \<Union> (piece_range ` set gs) = {..<length p} \<and> (\<exists>c\<in>set gs. snd (snd c) \<and> piece_end c = length p))"

section \<open>Frames\<close>

definition frame_pieces :: "(u16 \<times> piece) set \<Rightarrow> FPA_frame \<Rightarrow> piece list \<Rightarrow> bool" where
  "frame_pieces log fr gs \<longleftrightarrow>
     map (\<lambda>c. (fst c, length (fst (snd c)))) gs = take (fr_num_chunks fr) (fr_chunks fr)
     \<and> length gs = fr_num_chunks fr \<and> fr_sum fr = piece_sum gs \<and> apart gs
     \<and> (\<forall>c\<in>set gs. (fr_id fr, c) \<in> log \<and> piece_end c \<le> length (fr_buffer fr)
          \<and> seg (fr_buffer fr) (fst c) (length (fst (snd c))) = fst (snd c))
     \<and> (if fr_length fr < 0 then (\<forall>c\<in>set gs. piece_end c \<le> fr_length_so_far fr)
        else (\<forall>c\<in>set gs. int (piece_end c) \<le> fr_length fr)
             \<and> (\<exists>c\<in>set gs. snd (snd c) \<and> int (piece_end c) = fr_length fr))"

definition fa_base :: "FragmentProtoAssembler \<Rightarrow> bool" where
  "fa_base o' \<longleftrightarrow> distinct (fa_frames_free o' @ fa_frames_used o')
     \<and> set (fa_frames_free o' @ fa_frames_used o') = {..<length (fa_frames o')}
     \<and> fa_frames o' \<noteq> [] \<and> fa_time_tolerance o' = length (fa_frames o') \<and> length (fa_frames o') < unat FPA_MAX_TIME
     \<and> fa_num_chunks o' > 0
     \<and> (\<forall>i j. fa_frames_used_tree o' i = Some j \<longleftrightarrow> j \<in> set (fa_frames_used o') \<and> fr_id (fa_frames o' ! j) = i)
     \<and> (\<forall>fr\<in>set (fa_frames o'). length (fr_chunks fr) = fa_num_chunks o' \<and> length (fr_buffer fr) = fa_output_mtu o')"

definition fa_inv :: "(u16 \<times> piece) set \<Rightarrow> FragmentProtoAssembler \<Rightarrow> bool" where
  "fa_inv log o' \<longleftrightarrow> fa_base o'
     \<and> (\<forall>j\<in>set (fa_frames_used o'). fr_time (fa_frames o' ! j) \<le> fa_time o'
          \<and> fr_num_chunks (fa_frames o' ! j) < fa_num_chunks o' \<and> (\<exists>gs. frame_pieces log (fa_frames o' ! j) gs))"

lemma fa_invD:
  assumes "fa_inv log o'" "j \<in> set (fa_frames_used o')"
  obtains gs where "fa_frame o' j = Some (fa_frames o' ! j)" "fr_time (fa_frames o' ! j) \<le> fa_time o'"
    "fr_num_chunks (fa_frames o' ! j) < fa_num_chunks o'" "frame_pieces log (fa_frames o' ! j) gs"
    "fa_frames_used_tree o' (fr_id (fa_frames o' ! j)) = Some j"
    "length (fr_chunks (fa_frames o' ! j)) = fa_num_chunks o'" "length (fr_buffer (fa_frames o' ! j)) = fa_output_mtu o'"
proof -
  have "j < length (fa_frames o')" using assms by (auto simp: fa_inv_def fa_base_def)
  moreover from this have "fa_frames o' ! j \<in> set (fa_frames o')" by simp
  ultimately show thesis using assms that by (auto simp: fa_inv_def fa_base_def fa_frame_def)
qed

lemma fa_base_nth: "fa_base o' \<Longrightarrow> j \<in> set (fa_frames_free o') \<or> j \<in> set (fa_frames_used o') \<longleftrightarrow> j < length (fa_frames o')"
  by (auto simp: fa_base_def)

text \<open>What the operations on frames leave alone.\<close>

definition same_rest :: "FragmentProtoAssembler \<Rightarrow> FragmentProtoAssembler \<Rightarrow> bool" where
  "same_rest o' o'' \<longleftrightarrow> fa_output_mtu o'' = fa_output_mtu o' \<and> fa_num_chunks o'' = fa_num_chunks o'
     \<and> fa_time_tolerance o'' = fa_time_tolerance o' \<and> length (fa_frames o'') = length (fa_frames o')
     \<and> fa_in o'' = fa_in o' \<and> fa_in_pos o'' = fa_in_pos o'"

lemma same_rest_trans: "same_rest a b \<Longrightarrow> same_rest b c \<Longrightarrow> same_rest a c"
  by (simp add: same_rest_def)

lemma free_frame_ok:
  assumes inv: "fa_inv log o'" and j: "j \<in> set (fa_frames_used o')"
  obtains o'' where "free_frame j o' = Some o''" "fa_inv log o''" "same_rest o' o''" "fa_time o'' = fa_time o'"
    "fa_frames o'' = fa_frames o'" "fa_frames_used o'' = remove1 j (fa_frames_used o')"
    "fa_frames_free o'' = fa_frames_free o' @ [j]"
    "fa_frames_used_tree o'' = (fa_frames_used_tree o')(fr_id (fa_frames o' ! j) := None)"
proof -
  obtain f: "fa_frame o' j = Some (fa_frames o' ! j)" "fa_frames_used_tree o' (fr_id (fa_frames o' ! j)) = Some j"
    by (rule fa_invD [OF inv j])
  have b: "fa_base o'" using inv by (simp add: fa_inv_def)
  define o'' where "o'' = o'\<lparr>fa_frames_used := remove1 j (fa_frames_used o'),
              fa_frames_used_tree := (fa_frames_used_tree o')(fr_id (fa_frames o' ! j) := None),
              fa_frames_free := fa_frames_free o' @ [j]\<rparr>"
  have d: "distinct (fa_frames_used o')" using b by (simp add: fa_base_def)
  have t: "\<forall>i k. fa_frames_used_tree o' i = Some k \<longleftrightarrow> k \<in> set (fa_frames_used o') \<and> fr_id (fa_frames o' ! k) = i"
    using b by (simp add: fa_base_def)
  have t': "\<forall>i k. fa_frames_used_tree o'' i = Some k \<longleftrightarrow> k \<in> set (fa_frames_used o'') \<and> fr_id (fa_frames o'' ! k) = i"
    using t f(2) d by (auto simp: o''_def) (metis option.inject)
  have "fa_base o''" using b j d t' unfolding fa_base_def by (auto simp: o''_def)
  then have "fa_inv log o''" using inv d by (auto simp: fa_inv_def o''_def)
  moreover have "free_frame j o' = Some o''" using f j by (simp add: free_frame_def o''_def)
  ultimately show thesis using that [of o''] by (auto simp: o''_def same_rest_def)
qed

lemma frame_pieces_empty:
  "fr_num_chunks fr = 0 \<Longrightarrow> fr_sum fr = 0 \<Longrightarrow> fr_length fr = - 1 \<Longrightarrow> frame_pieces log fr []"
  by (simp add: frame_pieces_def piece_sum_def apart_def)

lemma allocate_free_ok:
  assumes inv: "fa_inv log o'" and new: "fa_frames_used_tree o' i = None" and free: "fa_frames_free o' = j # free"
  defines "fr \<equiv> (fa_frames o' ! j)\<lparr>fr_id := i, fr_time := fa_time o', fr_num_chunks := 0, fr_sum := 0,
                     fr_length := - 1, fr_length_so_far := 0\<rparr>"
  defines "o'' \<equiv> (fa_put j fr (o'\<lparr>fa_frames_free := free\<rparr>))\<lparr>fa_frames_used := fa_frames_used o' @ [j],
                                   fa_frames_used_tree := (fa_frames_used_tree o')(i \<mapsto> j)\<rparr>"
  shows "allocate_new_frame i o' = Some (j, o'')" "fa_inv log o''"
proof -
  have b: "fa_base o'" using inv by (simp add: fa_inv_def)
  have j: "j < length (fa_frames o')" "j \<notin> set (fa_frames_used o')" "j \<notin> set free" using b free by (auto simp: fa_base_def)
  show "allocate_new_frame i o' = Some (j, o'')"
    using new free j(1) by (simp add: allocate_new_frame_def fa_frame_def o''_def fr_def fa_put_def Let_def)
  have t: "\<forall>i k. fa_frames_used_tree o' i = Some k \<longleftrightarrow> k \<in> set (fa_frames_used o') \<and> fr_id (fa_frames o' ! k) = i"
    using b by (simp add: fa_base_def)
  have nth: "fa_frames o'' ! k = (if k = j then fr else fa_frames o' ! k)" for k
    using j(1) by (simp add: o''_def fa_put_def)
  have t': "\<forall>i k. fa_frames_used_tree o'' i = Some k \<longleftrightarrow> k \<in> set (fa_frames_used o'') \<and> fr_id (fa_frames o'' ! k) = i"
    using t new j(2) unfolding nth by (auto simp: o''_def fr_def) (metis option.distinct(1))
  have "\<forall>x\<in>set (fa_frames o''). length (fr_chunks x) = fa_num_chunks o'' \<and> length (fr_buffer x) = fa_output_mtu o''"
    using b j(1) set_update_subset_insert [of "fa_frames o'" j fr]
    by (auto simp: o''_def fa_put_def fa_base_def fr_def)
  then have "fa_base o''" using b j free t' unfolding fa_base_def by (auto simp: o''_def fa_put_def)
  moreover have "\<exists>gs. frame_pieces log fr gs" by (rule exI, rule frame_pieces_empty) (simp_all add: fr_def)
  ultimately show "fa_inv log o''"
    using inv b j(2) unfolding fa_inv_def nth by (auto simp: o''_def fa_put_def fr_def fa_base_def)
qed

lemma allocate_ok:
  assumes inv: "fa_inv log o'" and new: "fa_frames_used_tree o' i = None"
  obtains j o'' where "allocate_new_frame i o' = Some (j, o'')" "fa_inv log o''" "same_rest o' o''" "fa_time o'' = fa_time o'"
    "fa_frames_used_tree o'' i = Some j"
proof (cases "fa_frames_free o'")
  case (Cons j free)
  show thesis by (rule that [OF allocate_free_ok [OF inv new Cons]]) (simp_all add: same_rest_def fa_put_def)
next
  case Nil
  have b: "fa_base o'" using inv by (simp add: fa_inv_def)
  then obtain k used where used: "fa_frames_used o' = k # used" using Nil by (cases "fa_frames_used o'") (auto simp: fa_base_def)
  obtain o1 where o1: "free_frame k o' = Some o1" "fa_inv log o1" "same_rest o' o1" "fa_time o1 = fa_time o'"
    "fa_frames_free o1 = [k]" "fa_frames_used_tree o1 = (fa_frames_used_tree o')(fr_id (fa_frames o' ! k) := None)"
    by (rule free_frame_ok [OF inv, of k]) (use used Nil in auto)
  have new1: "fa_frames_used_tree o1 i = None" using new o1(6) by simp
  have "allocate_new_frame i o' = allocate_new_frame i o1"
    using new new1 Nil used o1(1,5) by (simp add: allocate_new_frame_def free_oldest_frame_def)
  then show thesis
    using that [OF _ allocate_free_ok(2) [OF o1(2) new1 o1(5)]] allocate_free_ok(1) [OF o1(2) new1 o1(5)] o1(3,4)
    by (simp add: same_rest_def fa_put_def)
qed

section \<open>Processing a chunk\<close>

lemma take_update_nth: "n < length xs \<Longrightarrow> take (Suc n) (xs[n := x]) = take n xs @ [x]"
  by (simp add: take_Suc_conv_app_nth)

lemma add_chunk_ok:
  assumes fp: "frame_pieces log fr gs" and c: "(fr_id fr, (s, p, l)) \<in> log" and fits: "chunk_fits fr s (length p) l"
    and len: "s + length p \<le> length (fr_buffer fr)" "fr_num_chunks fr < length (fr_chunks fr)"
  obtains fr' where "add_chunk time s p l fr = Some fr'" "frame_pieces log fr' (gs @ [(s, p, l)])"
    "fr_id fr' = fr_id fr" "fr_time fr' = time" "fr_num_chunks fr' = Suc (fr_num_chunks fr)"
    "length (fr_chunks fr') = length (fr_chunks fr)" "length (fr_buffer fr') = length (fr_buffer fr)"
    "fr_sum fr' = fr_sum fr + length p" "fr_buffer fr' = write_at (fr_buffer fr) s p"
    "fr_length fr' = (if l then int (s + length p) else fr_length fr)"
    "fr_chunks fr' = (fr_chunks fr)[fr_num_chunks fr := (s, length p)]"
    "fr_length_so_far fr' =
       (if \<not> l \<and> fr_length fr < 0 \<and> fr_length_so_far fr < s + length p then s + length p else fr_length_so_far fr)"
proof -
  define so_far where
    "so_far = (if \<not> l \<and> fr_length fr < 0 \<and> fr_length_so_far fr < s + length p then s + length p else fr_length_so_far fr)"
  define fr' where "fr' = fr\<lparr>fr_time := time, fr_chunks := (fr_chunks fr)[fr_num_chunks fr := (s, length p)],
      fr_num_chunks := fr_num_chunks fr + 1, fr_sum := fr_sum fr + length p,
      fr_length := (if l then int (s + length p) else fr_length fr), fr_length_so_far := so_far,
      fr_buffer := write_at (fr_buffer fr) s p\<rparr>"
  have run: "add_chunk time s p l fr = Some fr'"
    using len by (auto simp: add_chunk_def memcpy_to_def fr'_def so_far_def Let_def)
  have apart_new: "\<not> chunks_overlap (fst x) (length (fst (snd x))) s (length p)" if "x \<in> set gs" for x
  proof -
    have "(fst x, length (fst (snd x))) \<in> set (take (fr_num_chunks fr) (fr_chunks fr))"
      using fp that unfolding frame_pieces_def by (metis (mono_tags, lifting) imageI list.set_map)
    then show ?thesis using fits by (auto simp: chunk_fits_def)
  qed
  have keep: "seg (write_at (fr_buffer fr) s p) (fst x) (length (fst (snd x))) = fst (snd x)" if "x \<in> set gs" for x
  proof -
    have "seg (fr_buffer fr) (fst x) (length (fst (snd x))) = fst (snd x)" using fp that by (simp add: frame_pieces_def)
    moreover have "fst x + length (fst (snd x)) \<le> s \<or> s + length p \<le> fst x"
      using apart_new [OF that] by (auto simp: chunks_overlap_def)
    ultimately show ?thesis
      using len(1) seg_write_at_before [of "fst x" _ s "fr_buffer fr" p] seg_write_at_after [of s p "fst x" "fr_buffer fr"]
      by auto
  qed
  have ends: "if fr_length fr' < 0 then (\<forall>c\<in>set (gs @ [(s, p, l)]). piece_end c \<le> fr_length_so_far fr')
        else (\<forall>c\<in>set (gs @ [(s, p, l)]). int (piece_end c) \<le> fr_length fr')
             \<and> (\<exists>c\<in>set (gs @ [(s, p, l)]). snd (snd c) \<and> int (piece_end c) = fr_length fr')"
  proof (cases l)
    case True
    then have "fr_length fr < 0" "fr_length_so_far fr \<le> s + length p" using fits by (auto simp: chunk_fits_def)
    then have "\<forall>c\<in>set gs. piece_end c \<le> s + length p" using fp by (auto simp: frame_pieces_def)
    then show ?thesis using True by (auto simp: fr'_def piece_end_def)
  next
    case False
    then have "fr_length fr < 0 \<or> int (s + length p) \<le> fr_length fr" using fits by (auto simp: chunk_fits_def)
    then show ?thesis
      using fp False by (cases "fr_length fr < 0") (fastforce simp: frame_pieces_def fr'_def so_far_def piece_end_def)+
  qed
  have "frame_pieces log fr' (gs @ [(s, p, l)])"
    unfolding frame_pieces_def
  proof (intro conjI)
    show "map (\<lambda>c. (fst c, length (fst (snd c)))) (gs @ [(s, p, l)]) = take (fr_num_chunks fr') (fr_chunks fr')"
      using fp len(2) by (simp add: frame_pieces_def fr'_def take_update_nth)
    show "\<forall>c\<in>set (gs @ [(s, p, l)]). (fr_id fr', c) \<in> log \<and> piece_end c \<le> length (fr_buffer fr')
        \<and> seg (fr_buffer fr') (fst c) (length (fst (snd c))) = fst (snd c)"
      using fp c keep len(1) seg_write_at_same [of s p "fr_buffer fr"] by (auto simp: frame_pieces_def fr'_def piece_end_def)
    show "apart (gs @ [(s, p, l)])" using fp apart_new by (auto simp: frame_pieces_def apart_def sorted_wrt_append)
  qed (use ends fp in \<open>auto simp: frame_pieces_def fr'_def piece_sum_def\<close>)
  then show thesis by (rule that [OF run]) (use len in \<open>simp_all add: fr'_def so_far_def\<close>)
qed

text \<open>Changing the entry of a used frame.\<close>

lemma fa_put_ok:
  assumes inv: "fa_inv log o'" and j: "j \<in> set (fa_frames_used o')" and fr: "fr_id fr = fr_id (fa_frames o' ! j)"
    "length (fr_chunks fr) = fa_num_chunks o'" "length (fr_buffer fr) = fa_output_mtu o'"
  shows "fa_base (fa_put j fr o')"
    and "fr_time fr \<le> fa_time o' \<Longrightarrow> fr_num_chunks fr < fa_num_chunks o' \<Longrightarrow> frame_pieces log fr gs \<Longrightarrow> fa_inv log (fa_put j fr o')"
proof -
  have b: "fa_base o'" using inv by (simp add: fa_inv_def)
  then have jl: "j < length (fa_frames o')" using j by (auto simp: fa_base_def)
  have nth: "fa_frames (fa_put j fr o') ! k = (if k = j then fr else fa_frames o' ! k)" for k
    using jl by (simp add: fa_put_def)
  have id: "fr_id (fa_frames (fa_put j fr o') ! k) = fr_id (fa_frames o' ! k)" for k using fr(1) by (simp add: nth)
  have "\<forall>x\<in>set (fa_frames (fa_put j fr o')). length (fr_chunks x) = fa_num_chunks o' \<and> length (fr_buffer x) = fa_output_mtu o'"
    using b fr set_update_subset_insert [of "fa_frames o'" j fr] by (auto simp: fa_put_def fa_base_def)
  then show base: "fa_base (fa_put j fr o')" using b unfolding fa_base_def id by (simp add: fa_put_def)
  show "fa_inv log (fa_put j fr o')"
    if "fr_time fr \<le> fa_time o'" "fr_num_chunks fr < fa_num_chunks o'" "frame_pieces log fr gs"
    using base inv that unfolding fa_inv_def nth by (auto simp: fa_put_def)
qed

lemma free_put_ok:
  assumes inv: "fa_inv log o'" and j: "j \<in> set (fa_frames_used o')" and fr: "fr_id fr = fr_id (fa_frames o' ! j)"
    "length (fr_chunks fr) = fa_num_chunks o'" "length (fr_buffer fr) = fa_output_mtu o'"
  obtains o'' where "free_frame j (fa_put j fr o') = Some o''" "fa_inv log o''" "same_rest o' o''" "fa_time o'' = fa_time o'"
    "fa_frames o'' ! j = fr" "fa_frames_used o'' = remove1 j (fa_frames_used o')"
    "fa_frames_free o'' = fa_frames_free o' @ [j]"
proof -
  have b: "fa_base o'" using inv by (simp add: fa_inv_def)
  then have jl: "j < length (fa_frames o')" using j by (auto simp: fa_base_def)
  define e where "e = fr\<lparr>fr_time := fa_time o', fr_num_chunks := 0, fr_sum := 0, fr_length := - 1\<rparr>"
  have "frame_pieces log e []" by (rule frame_pieces_empty) (simp_all add: e_def)
  then have inv1: "fa_inv log (fa_put j e o')"
    by (rule fa_put_ok(2) [OF inv j, rotated -1]) (use fr b in \<open>auto simp: e_def fa_base_def\<close>)
  have j1: "j \<in> set (fa_frames_used (fa_put j e o'))" using j by (simp add: fa_put_def)
  obtain o1 where o1: "free_frame j (fa_put j e o') = Some o1" "fa_inv log o1" "same_rest (fa_put j e o') o1"
    "fa_time o1 = fa_time (fa_put j e o')" "fa_frames o1 = fa_frames (fa_put j e o')"
    "fa_frames_used o1 = remove1 j (fa_frames_used (fa_put j e o'))"
    "fa_frames_free o1 = fa_frames_free (fa_put j e o') @ [j]"
    by (rule free_frame_ok [OF inv1 j1])
  have nu: "j \<notin> set (fa_frames_used o1)" using o1(6) b by (simp add: fa_put_def fa_base_def)
  define o2 where "o2 = fa_put j fr o1"
  have f2: "free_frame j (fa_put j fr o') = Some o2"
    using o1(1) jl by (auto simp: free_frame_def fa_frame_def fa_put_def o2_def e_def)
  have b1: "fa_base o1" using o1(2) by (simp add: fa_inv_def)
  have len1: "length (fa_frames o1) = length (fa_frames o')" using o1(5) by (simp add: fa_put_def)
  have nth: "fa_frames o2 ! k = (if k = j then fr else fa_frames o1 ! k)" for k
    using jl len1 by (simp add: fa_put_def o2_def)
  have other: "k \<in> set (fa_frames_used o1) \<Longrightarrow> fa_frames o2 ! k = fa_frames o1 ! k" for k using nu nth by metis
  have same: "fa_output_mtu o1 = fa_output_mtu o'" "fa_num_chunks o1 = fa_num_chunks o'" using o1(3) by (simp_all add: same_rest_def fa_put_def)
  have "\<forall>x\<in>set (fa_frames o2). length (fr_chunks x) = fa_num_chunks o2 \<and> length (fr_buffer x) = fa_output_mtu o2"
    using b1 fr same set_update_subset_insert [of "fa_frames o1" j fr] by (auto simp: fa_put_def fa_base_def o2_def)
  moreover have "fa_frames_used_tree o2 i = Some k \<longleftrightarrow> k \<in> set (fa_frames_used o2) \<and> fr_id (fa_frames o2 ! k) = i" for i k
  proof -
    have "fa_frames_used_tree o1 i = Some k \<longleftrightarrow> k \<in> set (fa_frames_used o1) \<and> fr_id (fa_frames o1 ! k) = i"
      using b1 by (simp add: fa_base_def)
    then show ?thesis using other by (auto simp: o2_def fa_put_def)
  qed
  ultimately have "fa_base o2" using b1 unfolding fa_base_def by (simp add: o2_def fa_put_def)
  moreover have "fa_frames_used o2 = fa_frames_used o1" "fa_time o2 = fa_time o1" "fa_num_chunks o2 = fa_num_chunks o1"
    by (simp_all add: o2_def fa_put_def)
  ultimately have "fa_inv log o2" using o1(2) other unfolding fa_inv_def by metis
  then show thesis
    by (rule that [OF f2]) (use o1 nth in \<open>auto simp: same_rest_def fa_put_def o2_def\<close>)
qed

text \<open>Finding or allocating the entry of a frame.\<close>

lemma locate_ok:
  assumes inv: "fa_inv log o'"
  obtains j o'' where "(case fa_frames_used_tree o' i of
             None \<Rightarrow> allocate_new_frame i o'
           | Some j \<Rightarrow> do {
               fr \<leftarrow> fa_frame o' j;
               timed_out \<leftarrow> frame_is_timed_out o' fr;
               if timed_out then do { o' \<leftarrow> free_frame j o'; allocate_new_frame i o' }
               else Some (j, o') }) = Some (j, o'')"
    "fa_inv log o''" "same_rest o' o''" "fa_time o'' = fa_time o'" "fa_frames_used_tree o'' i = Some j"
proof (cases "fa_frames_used_tree o' i")
  case None
  show thesis by (rule allocate_ok [OF inv None]) (rule that, use None in auto)
next
  case (Some j)
  have j: "j \<in> set (fa_frames_used o')" "fr_id (fa_frames o' ! j) = i" using inv Some by (auto simp: fa_inv_def fa_base_def)
  obtain f: "fa_frame o' j = Some (fa_frames o' ! j)" "fr_time (fa_frames o' ! j) \<le> fa_time o'"
    by (rule fa_invD [OF inv j(1)])
  obtain b where b: "frame_is_timed_out o' (fa_frames o' ! j) = Some b" using f(2) by (auto simp: frame_is_timed_out_def)
  show thesis
  proof (cases b)
    case False
    then show thesis using that [of j o'] inv Some f b by (simp add: same_rest_def)
  next
    case True
    obtain o1 where o1: "free_frame j o' = Some o1" "fa_inv log o1" "same_rest o' o1" "fa_time o1 = fa_time o'"
      "fa_frames_used_tree o1 = (fa_frames_used_tree o')(fr_id (fa_frames o' ! j) := None)"
      by (rule free_frame_ok [OF inv j(1)])
    have n: "fa_frames_used_tree o1 i = None" using o1(5) j(2) by simp
    show thesis
      by (rule allocate_ok [OF o1(2) n]) (rule that, use Some f b True o1 same_rest_trans in auto)
  qed
qed

lemma assembled_complete:
  assumes fp: "frame_pieces log fr gs" and len: "fr_length fr \<ge> 0" "int (fr_sum fr) = fr_length fr"
    and mtu: "fr_length fr \<le> int (length (fr_buffer fr))"
  shows "assembled log (take (nat (fr_length fr)) (fr_buffer fr))"
proof -
  let ?n = "nat (fr_length fr)" and ?p = "take (nat (fr_length fr)) (fr_buffer fr)"
  have n: "length ?p = ?n" using mtu by simp
  have ends: "\<forall>c\<in>set gs. piece_end c \<le> ?n" using fp len by (auto simp: frame_pieces_def nat_le_eq_zle le_nat_iff)
  have "piece_sum gs = ?n" "apart gs" using fp len by (auto simp: frame_pieces_def)
  then have cover: "\<Union> (piece_range ` set gs) = {..<?n}" using pieces_bound(2) ends by blast
  have "seg ?p (fst c) (length (fst (snd c))) = fst (snd c)" if "c \<in> set gs" for c
  proof -
    have "seg (fr_buffer fr) (fst c) (length (fst (snd c))) = fst (snd c)" "piece_end c \<le> ?n"
      using fp ends that by (auto simp: frame_pieces_def)
    moreover from this(2) have "seg ?p (fst c) (length (fst (snd c))) = seg (fr_buffer fr) (fst c) (length (fst (snd c)))"
      by (simp add: seg_def drop_take piece_end_def min_def)
    ultimately show ?thesis by simp
  qed
  moreover have "\<exists>c\<in>set gs. snd (snd c) \<and> piece_end c = ?n"
    using fp len by (auto simp: frame_pieces_def)
  ultimately show ?thesis
    unfolding assembled_def n using fp ends cover
    by (intro exI [of _ "fr_id fr"] exI [of _ gs]) (auto simp: frame_pieces_def)
qed

lemma process_chunk_ok:
  assumes inv: "fa_inv log o'" and c: "(i, (s, p, l)) \<in> log"
  obtains res o'' where "process_chunk i s l p o' = Some (res, o'')" "fa_inv log o''" "same_rest o' o''"
    "fa_time o'' = fa_time o'"
    "\<And>j n. res = Some (j, n) \<Longrightarrow> j < length (fa_frames o'') \<and> n \<le> fa_output_mtu o''
        \<and> assembled log (take n (fr_buffer (fa_frames o'' ! j)))"
proof (cases "s > fa_output_mtu o' \<or> length p > fa_output_mtu o' - s")
  case True
  then show thesis using that [of None o'] inv by (auto simp: process_chunk_def same_rest_def)
next
  case False
  obtain j o1 where o1: "(case fa_frames_used_tree o' i of
             None \<Rightarrow> allocate_new_frame i o'
           | Some j \<Rightarrow> do {
               fr \<leftarrow> fa_frame o' j;
               timed_out \<leftarrow> frame_is_timed_out o' fr;
               if timed_out then do { o' \<leftarrow> free_frame j o'; allocate_new_frame i o' }
               else Some (j, o') }) = Some (j, o1)"
    "fa_inv log o1" "same_rest o' o1" "fa_time o1 = fa_time o'" "fa_frames_used_tree o1 i = Some j"
    by (rule locate_ok [OF inv])
  define fr where "fr = fa_frames o1 ! j"
  have j: "j \<in> set (fa_frames_used o1)" "fr_id fr = i" using o1(2,5) by (auto simp: fa_inv_def fa_base_def fr_def)
  obtain gs where f: "fa_frame o1 j = Some fr" "fr_num_chunks fr < fa_num_chunks o1" "frame_pieces log fr gs"
    "length (fr_chunks fr) = fa_num_chunks o1" "length (fr_buffer fr) = fa_output_mtu o1"
    unfolding fr_def by (rule fa_invD [OF o1(2) j(1)])
  have run: "process_chunk i s l p o' = (if \<not> chunk_fits fr s (length p) l
        then do { o' \<leftarrow> free_frame j o1; Some (None, o') }
        else do {
          fr \<leftarrow> add_chunk (fa_time o1) s p l fr;
          let o' = fa_put j fr o1;
          if fr_length fr < 0 \<or> int (fr_sum fr) < fr_length fr
          then (if fr_num_chunks fr = fa_num_chunks o' then do { o' \<leftarrow> free_frame j o'; Some (None, o') }
                else Some (None, o'))
          else do {
            assert_that (int (fr_sum fr) = fr_length fr);
            o' \<leftarrow> free_frame j o';
            Some (Some (j, nat (fr_length fr)), o') } })"
    using False o1(1) f(1,2) unfolding process_chunk_def by simp
  show thesis
  proof (cases "chunk_fits fr s (length p) l")
    case bad: False
    obtain o2 where "free_frame j o1 = Some o2" "fa_inv log o2" "same_rest o1 o2" "fa_time o2 = fa_time o1"
      by (rule free_frame_ok [OF o1(2) j(1)])
    then show thesis using that [of None o2] run bad o1(3,4) same_rest_trans by auto
  next
    case fits: True
    have room: "s + length p \<le> length (fr_buffer fr)" "fr_num_chunks fr < length (fr_chunks fr)"
      using False f(2,4,5) o1(3) by (auto simp: same_rest_def)
    obtain fr' where fr': "add_chunk (fa_time o1) s p l fr = Some fr'" "frame_pieces log fr' (gs @ [(s, p, l)])"
      "fr_id fr' = fr_id fr" "fr_time fr' = fa_time o1" "fr_num_chunks fr' = Suc (fr_num_chunks fr)"
      "length (fr_chunks fr') = length (fr_chunks fr)" "length (fr_buffer fr') = length (fr_buffer fr)"
      by (rule add_chunk_ok [OF f(3) c [folded j(2)] fits room])
    have put: "fr_id fr' = fr_id (fa_frames o1 ! j)" "length (fr_chunks fr') = fa_num_chunks o1"
        "length (fr_buffer fr') = fa_output_mtu o1"
      using fr' f by (simp_all add: fr_def)
    obtain o2 where o2: "free_frame j (fa_put j fr' o1) = Some o2" "fa_inv log o2" "same_rest o1 o2"
        "fa_time o2 = fa_time o1" "fa_frames o2 ! j = fr'"
      by (rule free_put_ok [OF o1(2) j(1) put])
    have sum: "fr_length fr' \<ge> 0 \<Longrightarrow> int (fr_sum fr') \<le> fr_length fr'"
      using pieces_bound(1) [of "gs @ [(s, p, l)]" "nat (fr_length fr')"] fr'(2)
      by (auto simp: frame_pieces_def le_nat_iff)
    have len: "fr_length fr' \<le> int (length (fr_buffer fr'))" if "fr_length fr' \<ge> 0"
      using fr'(2) that by (fastforce simp: frame_pieces_def)
    consider (full) "fr_length fr' < 0 \<or> int (fr_sum fr') < fr_length fr'" "fr_num_chunks fr' = fa_num_chunks o1"
      | (wait) "fr_length fr' < 0 \<or> int (fr_sum fr') < fr_length fr'" "fr_num_chunks fr' \<noteq> fa_num_chunks o1"
      | (complete) "fr_length fr' \<ge> 0" "int (fr_sum fr') = fr_length fr'"
      using sum by linarith
    then show thesis
    proof cases
      case full
      then show thesis using that [of None o2] run fits fr'(1) o2 o1(3,4) same_rest_trans
        by (auto simp: fa_put_def)
    next
      case wait
      have "fa_inv log (fa_put j fr' o1)"
        by (rule fa_put_ok(2) [OF o1(2) j(1) put _ _ fr'(2)]) (use fr' f wait in auto)
      then show thesis using that [of None "fa_put j fr' o1"] run fits fr'(1) wait o1(3,4)
        by (auto simp: fa_put_def same_rest_def Let_def)
    next
      case complete
      have m: "fa_output_mtu o2 = fa_output_mtu o1" "length (fa_frames o2) = length (fa_frames o1)"
        using o2(3) by (auto simp: same_rest_def)
      have "process_chunk i s l p o' = Some (Some (j, nat (fr_length fr')), o2)"
        using run fits fr'(1) complete o2(1) by (simp add: Let_def)
      moreover have "assembled log (take (nat (fr_length fr')) (fr_buffer fr'))"
        by (rule assembled_complete [OF fr'(2) complete len [OF complete(1)]])
      moreover have "j < length (fa_frames o2)" using f(1) m(2) by (simp add: fa_frame_def split: if_splits)
      moreover have "nat (fr_length fr') \<le> fa_output_mtu o2" using len [OF complete(1)] put(3) m(1) by simp
      moreover have "same_rest o' o2" "fa_time o2 = fa_time o'" using same_rest_trans [OF o1(3) o2(3)] o2(4) o1(4) by simp_all
      ultimately show thesis using o2(2,5) that [of "Some (j, nat (fr_length fr'))" o2] by auto
    qed
  qed
qed

end
