(* ===== verification/FragmentSystem.thy ===== *)
theory FragmentSystem
  imports FragmentAssemblerInv
begin

text \<open>
  The assembler under any input: the chunks of a packet are a list, \<open>process_input\<close> processes them in
  order, and the time of the packets never breaks an assertion.
\<close>

section \<open>The chunks of a packet\<close>

lemma ltoh16_id [simp]: "ltoh16 x = x" "htol16 x = x"
  by (simp_all add: ltoh16_def htol16_def)

function parse_chunks :: "byte list \<Rightarrow> (u16 \<times> piece) list" where
  "parse_chunks d =
     (if length d < sizeof_chunk_header then []
      else let h = chunk_header_of (seg d 0 sizeof_chunk_header); n = unat (ch_chunk_len h) in
        if ch_is_last h \<noteq> 0 \<and> ch_is_last h \<noteq> 1 then []
        else if length d - sizeof_chunk_header < n then []
        else (ch_frame_id h, (unat (ch_chunk_start h), seg d sizeof_chunk_header n, ch_is_last h = 1))
             # parse_chunks (drop (sizeof_chunk_header + n) d))"
  by pat_completeness auto

termination
  by (relation "measure length") (auto simp: sizeof_chunk_header_def)

declare parse_chunks.simps [simp del]

fun run_chunks ::
  "(u16 \<times> piece) list \<Rightarrow> FragmentProtoAssembler \<Rightarrow> ((u16 \<times> piece) list \<times> (nat \<times> nat) option \<times> FragmentProtoAssembler) option" where
  "run_chunks [] o' = Some ([], None, o')"
| "run_chunks ((i, (s, p, l)) # cs) o' = do {
     (res, o') \<leftarrow> process_chunk i s l p o';
     if res \<noteq> None then Some (cs, res, o') else run_chunks cs o' }"

lemma seg_drop: "seg (drop p d) q n = seg d (p + q) n"
  by (simp add: seg_def add.commute)

lemma process_input_loop_run:
  assumes "pos \<le> length data"
  shows "case run_chunks (parse_chunks (drop pos data)) o' of
      None \<Rightarrow> process_input_loop data pos o' = None
    | Some (rest, res, o'') \<Rightarrow> \<exists>pos'. process_input_loop data pos o' = Some (pos', res, o'') \<and> pos' \<le> length data
        \<and> (res \<noteq> None \<longrightarrow> rest = parse_chunks (drop pos' data))"
  using assms
proof (induction data pos o' rule: process_input_loop.induct)
  case (1 data pos o')
  let ?h = "chunk_header_of (seg data pos sizeof_chunk_header)"
  let ?n = "unat (ch_chunk_len ?h)" and ?pos = "pos + sizeof_chunk_header"
  let ?c = "(ch_frame_id ?h, (unat (ch_chunk_start ?h), seg data ?pos ?n, ch_is_last ?h = 1))"
  consider (short) "length data - pos < sizeof_chunk_header"
    | (bad) "\<not> length data - pos < sizeof_chunk_header"
        "ch_is_last ?h \<noteq> 0 \<and> ch_is_last ?h \<noteq> 1 \<or> length data - ?pos < ?n"
    | (ok) "\<not> length data - pos < sizeof_chunk_header" "\<not> (ch_is_last ?h \<noteq> 0 \<and> ch_is_last ?h \<noteq> 1)"
        "\<not> length data - ?pos < ?n" by blast
  then show ?case
  proof cases
    case short
    then show ?thesis using 1(2)
      by (subst process_input_loop.simps, subst parse_chunks.simps) auto
  next
    case bad
    then show ?thesis using 1(2)
      by (subst process_input_loop.simps, subst parse_chunks.simps) (auto simp: seg_drop Let_def)
  next
    case ok
    have pos: "pos < length data" using ok(1) by (auto simp: sizeof_chunk_header_def)
    have p: "parse_chunks (drop pos data) = ?c # parse_chunks (drop (?pos + ?n) data)"
      using ok by (subst parse_chunks.simps) (simp add: seg_drop Let_def ac_simps)
    have l: "process_input_loop data pos o' = do {
        (res, o') \<leftarrow> process_chunk (ch_frame_id ?h) (unat (ch_chunk_start ?h)) (ch_is_last ?h = 1) (seg data ?pos ?n) o';
        if res \<noteq> None then Some (?pos + ?n, res, o') else process_input_loop data (?pos + ?n) o' }"
      using ok pos by (subst process_input_loop.simps) (auto simp: Let_def)
    show ?thesis
    proof (cases "process_chunk (ch_frame_id ?h) (unat (ch_chunk_start ?h)) (ch_is_last ?h = 1) (seg data ?pos ?n) o'")
      case None
      then show ?thesis by (simp add: p l)
    next
      case (Some x)
      obtain res o1 where x: "x = (res, o1)" by (cases x)
      have le: "?pos + ?n \<le> length data" using ok(1,3) pos by arith
      show ?thesis
      proof (cases "res = None")
        case False
        then show ?thesis using Some x le by (simp add: p l)
      next
        case True
        have "case run_chunks (parse_chunks (drop (?pos + ?n) data)) o1 of
            None \<Rightarrow> process_input_loop data (?pos + ?n) o1 = None
          | Some (rest, res, o'') \<Rightarrow> \<exists>pos'. process_input_loop data (?pos + ?n) o1 = Some (pos', res, o'') \<and> pos' \<le> length data
              \<and> (res \<noteq> None \<longrightarrow> rest = parse_chunks (drop pos' data))"
          by (rule "1.IH") (use ok pos le Some x True in auto)
        note h = this
        have e: "process_input_loop data pos o' = process_input_loop data (?pos + ?n) o1"
          unfolding l using Some x True by simp
        have f: "run_chunks (parse_chunks (drop pos data)) o' = run_chunks (parse_chunks (drop (?pos + ?n) data)) o1"
          unfolding p using Some x True by simp
        show ?thesis using h unfolding e f .
      qed
    qed
  qed
qed

lemma run_chunks_ok:
  assumes "fa_inv log o'" "set cs \<subseteq> log"
  obtains rest res o'' where "run_chunks cs o' = Some (rest, res, o'')" "fa_inv log o''" "same_rest o' o''"
    "fa_time o'' = fa_time o'" "set rest \<subseteq> set cs"
    "\<forall>j n. res = Some (j, n) \<longrightarrow> j < length (fa_frames o'') \<and> n \<le> fa_output_mtu o''
        \<and> assembled log (take n (fr_buffer (fa_frames o'' ! j)))"
  using assms
proof (induction cs arbitrary: o' thesis)
  case Nil
  then show ?case by (simp add: same_rest_def)
next
  case (Cons c cs)
  obtain i s p l where c: "c = (i, (s, p, l))" by (cases c) auto
  obtain res o1 where o1: "process_chunk i s l p o' = Some (res, o1)" "fa_inv log o1" "same_rest o' o1"
    "fa_time o1 = fa_time o'"
    "\<And>j n. res = Some (j, n) \<Longrightarrow> j < length (fa_frames o1) \<and> n \<le> fa_output_mtu o1
        \<and> assembled log (take n (fr_buffer (fa_frames o1 ! j)))"
    by (rule process_chunk_ok [OF Cons.prems(2), of i s p l]) (use Cons.prems(3) c in auto)
  show ?case
  proof (cases "res = None")
    case False
    then show ?thesis using Cons.prems(1) [of cs res o1] o1 by (auto simp: c)
  next
    case True
    obtain rest res' o2 where o2: "run_chunks cs o1 = Some (rest, res', o2)" "fa_inv log o2" "same_rest o1 o2"
      "fa_time o2 = fa_time o1" "set rest \<subseteq> set cs"
      "\<forall>j n. res' = Some (j, n) \<longrightarrow> j < length (fa_frames o2) \<and> n \<le> fa_output_mtu o2
          \<and> assembled log (take n (fr_buffer (fa_frames o2 ! j)))"
      by (rule Cons.IH [OF _ o1(2)]) (use Cons.prems(3) in auto)
    show ?thesis
      by (rule Cons.prems(1) [of rest res' o2])
         (use o1(1) True o2 o1(4) same_rest_trans [OF o1(3) o2(3)] in \<open>auto simp: c\<close>)
  qed
qed

section \<open>Time\<close>

definition kept :: "FragmentProtoAssembler \<Rightarrow> nat \<Rightarrow> bool" where
  "kept o' k \<longleftrightarrow> unat (fa_time o' - fr_time (fa_frames o' ! k)) \<le> fa_time_tolerance o'"

lemma fpa_reduce_scan_ok:
  assumes "fa_inv log o'" "distinct is" "set is \<subseteq> set (fa_frames_used o')"
    and "\<forall>k \<in> set (fa_frames_used o') - set is. kept o' k"
    and "case m of None \<Rightarrow> set (fa_frames_used o') - set is = {}
         | Some m \<Rightarrow> m \<in> set (fa_frames_used o') - set is
             \<and> (\<forall>k \<in> set (fa_frames_used o') - set is. fr_time (fa_frames o' ! m) \<le> fr_time (fa_frames o' ! k))"
  obtains m' o'' where "fpa_reduce_scan is m o' = Some (m', o'')" "fa_inv log o''" "same_rest o' o''" "fa_time o'' = fa_time o'"
    "\<forall>k \<in> set (fa_frames_used o''). kept o'' k"
    "case m' of None \<Rightarrow> fa_frames_used o'' = []
     | Some m \<Rightarrow> m \<in> set (fa_frames_used o'')
         \<and> (\<forall>k \<in> set (fa_frames_used o''). fr_time (fa_frames o'' ! m) \<le> fr_time (fa_frames o'' ! k))"
  using assms
proof (induction "is" arbitrary: m o' thesis)
  case Nil
  show ?case by (rule Nil(1) [of m o']) (use Nil(2-) in \<open>auto simp: same_rest_def split: option.splits\<close>)
next
  case (Cons i "is")
  let ?u = "set (fa_frames_used o')"
  have i: "i \<in> ?u" "i \<notin> set is" using Cons.prems by auto
  obtain f: "fa_frame o' i = Some (fa_frames o' ! i)" "fr_time (fa_frames o' ! i) \<le> fa_time o'"
    by (rule fa_invD [OF Cons.prems(2) i(1)])
  have to: "frame_is_timed_out o' (fa_frames o' ! i) = Some (\<not> kept o' i)"
    using f(2) by (auto simp: frame_is_timed_out_def kept_def)
  show ?case
  proof (cases "kept o' i")
    case False
    obtain o1 where o1: "free_frame i o' = Some o1" "fa_inv log o1" "same_rest o' o1" "fa_time o1 = fa_time o'"
      "fa_frames o1 = fa_frames o'" "fa_frames_used o1 = remove1 i (fa_frames_used o')"
      by (rule free_frame_ok [OF Cons.prems(2) i(1)])
    have d: "distinct (fa_frames_used o')" using Cons.prems(2) by (simp add: fa_inv_def fa_base_def)
    then have u: "set (fa_frames_used o1) - set is = ?u - set (i # is)" using o1(6) by auto
    have k: "kept o1 = kept o'" using o1(3-5) by (simp add: kept_def fun_eq_iff same_rest_def)
    show ?thesis
    proof (rule Cons.IH [OF _ o1(2)])
      show "set is \<subseteq> set (fa_frames_used o1)" using Cons.prems(3,4) o1(6) d i by auto
      show "\<forall>k\<in>set (fa_frames_used o1) - set is. kept o1 k" using Cons.prems(5) unfolding u k .
      show "case m of None \<Rightarrow> set (fa_frames_used o1) - set is = {}
         | Some m \<Rightarrow> m \<in> set (fa_frames_used o1) - set is
             \<and> (\<forall>k \<in> set (fa_frames_used o1) - set is. fr_time (fa_frames o1 ! m) \<le> fr_time (fa_frames o1 ! k))"
        using Cons.prems(6) unfolding u o1(5) .
    qed (use Cons.prems(1,3) f(1) to False o1(1,3,4) same_rest_trans in auto)
  next
    case True
    define m1 where "m1 = (case m of None \<Rightarrow> Some i
      | Some m \<Rightarrow> if fr_time (fa_frames o' ! i) < fr_time (fa_frames o' ! m) then Some i else Some m)"
    have "\<exists>sm. (case m of None \<Rightarrow> Some True
        | Some m \<Rightarrow> map_option (\<lambda>mf. fr_time (fa_frames o' ! i) < fr_time mf) (fa_frame o' m)) = Some sm
        \<and> (if sm then Some i else m) = m1"
    proof (cases m)
      case (Some a)
      then have "a \<in> ?u" using Cons.prems(6) by simp
      then have "fa_frame o' a = Some (fa_frames o' ! a)" using fa_invD [OF Cons.prems(2)] by blast
      then show ?thesis using Some by (simp add: m1_def)
    qed (auto simp: m1_def)
    then have run: "fpa_reduce_scan (i # is) m o' = fpa_reduce_scan is m1 o'" using f(1) to True by auto
    have u: "?u - set is = insert i (?u - set (i # is))" using i by auto
    show ?thesis
    proof (rule Cons.IH [OF _ Cons.prems(2)])
      show "\<forall>k\<in>?u - set is. kept o' k" using Cons.prems(5) True unfolding u by simp
      show "case m1 of None \<Rightarrow> ?u - set is = {}
         | Some m \<Rightarrow> m \<in> ?u - set is \<and> (\<forall>k \<in> ?u - set is. fr_time (fa_frames o' ! m) \<le> fr_time (fa_frames o' ! k))"
        using Cons.prems(6) i unfolding u m1_def
        by (cases m) (auto simp: not_less intro: order.strict_implies_order [OF order.strict_trans2])
    qed (use Cons.prems run in auto)
  qed
qed

lemma fpa_subtract_times_ok:
  assumes "fa_inv log o'" "distinct is" "set is \<subseteq> set (fa_frames_used o')"
    and "\<forall>k\<in>set is. min_time \<le> fr_time (fa_frames o' ! k)"
  obtains o'' where "fpa_subtract_times is min_time o' = Some o''" "fa_inv log o''" "same_rest o' o''"
    "fa_time o'' = fa_time o'" "fa_frames_used o'' = fa_frames_used o'"
    "\<And>k. fr_time (fa_frames o'' ! k) = (if k \<in> set is then fr_time (fa_frames o' ! k) - min_time else fr_time (fa_frames o' ! k))"
  using assms
proof (induction "is" arbitrary: o' thesis)
  case Nil
  then show ?case by (simp add: same_rest_def)
next
  case (Cons i "is")
  have i: "i \<in> set (fa_frames_used o')" "i \<notin> set is" using Cons.prems by auto
  obtain gs where f: "fa_frame o' i = Some (fa_frames o' ! i)" "fr_time (fa_frames o' ! i) \<le> fa_time o'"
    "fr_num_chunks (fa_frames o' ! i) < fa_num_chunks o'" "frame_pieces log (fa_frames o' ! i) gs"
    "length (fr_chunks (fa_frames o' ! i)) = fa_num_chunks o'" "length (fr_buffer (fa_frames o' ! i)) = fa_output_mtu o'"
    by (rule fa_invD [OF Cons.prems(2) i(1)])
  define fr where "fr = (fa_frames o' ! i)\<lparr>fr_time := fr_time (fa_frames o' ! i) - min_time\<rparr>"
  have "fr_time (fa_frames o' ! i) - min_time \<le> fr_time (fa_frames o' ! i)"
    using Cons.prems(5) by (simp add: word_sub_le)
  then have le: "fr_time fr \<le> fa_time o'" using f(2) by (simp add: fr_def)
  have inv: "fa_inv log (fa_put i fr o')"
    by (rule fa_put_ok(2) [OF Cons.prems(2) i(1) _ _ _ le]) (use f in \<open>auto simp: fr_def frame_pieces_def\<close>)
  have il: "i < length (fa_frames o')" using f(1) by (simp add: fa_frame_def split: if_splits)
  have nth: "fa_frames (fa_put i fr o') ! k = (if k = i then fr else fa_frames o' ! k)" for k
    using il by (simp add: fa_put_def)
  obtain o2 where o2: "fpa_subtract_times is min_time (fa_put i fr o') = Some o2" "fa_inv log o2"
    "same_rest (fa_put i fr o') o2" "fa_time o2 = fa_time (fa_put i fr o')" "fa_frames_used o2 = fa_frames_used (fa_put i fr o')"
    "\<And>k. fr_time (fa_frames o2 ! k) = (if k \<in> set is then fr_time (fa_frames (fa_put i fr o') ! k) - min_time
        else fr_time (fa_frames (fa_put i fr o') ! k))"
  proof (rule Cons.IH [OF _ inv])
    show "\<forall>k\<in>set is. min_time \<le> fr_time (fa_frames (fa_put i fr o') ! k)" using Cons.prems(5) i(2) by (auto simp: nth)
  qed (use Cons.prems in \<open>auto simp: fa_put_def\<close>)
  have t: "fr_time (fa_frames o2 ! k) = (if k \<in> set (i # is) then fr_time (fa_frames o' ! k) - min_time
      else fr_time (fa_frames o' ! k))" for k
    unfolding o2(6) nth using i(2) by (auto simp: fr_def)
  have "fpa_subtract_times (i # is) min_time o' = Some o2" using f(1) o2(1) by (simp add: fr_def)
  moreover have "same_rest o' o2" using o2(3) by (simp add: same_rest_def fa_put_def)
  moreover have "fa_time o2 = fa_time o'" "fa_frames_used o2 = fa_frames_used o'" using o2(4,5) by (simp_all add: fa_put_def)
  ultimately show ?case using Cons.prems(1) o2(2) t by blast
qed

lemma reduce_times_ok:
  assumes inv: "fa_inv log o'" and max: "fa_time o' = FPA_MAX_TIME"
  obtains o'' where "reduce_times o' = Some o''" "fa_inv log o''" "same_rest o' o''"
    "fa_frames_used o'' = [] \<Longrightarrow> fa_time o'' = 0" "fa_frames_used o'' \<noteq> [] \<Longrightarrow> fa_time o'' < FPA_MAX_TIME"
proof -
  have base: "distinct (fa_frames_used o')" "fa_time_tolerance o' < unat FPA_MAX_TIME"
    using inv by (auto simp: fa_inv_def fa_base_def)
  obtain m o1 where o1: "fpa_reduce_scan (fa_frames_used o') None o' = Some (m, o1)" "fa_inv log o1" "same_rest o' o1"
    "fa_time o1 = fa_time o'" "\<forall>k \<in> set (fa_frames_used o1). kept o1 k"
    "case m of None \<Rightarrow> fa_frames_used o1 = []
     | Some m \<Rightarrow> m \<in> set (fa_frames_used o1)
         \<and> (\<forall>k \<in> set (fa_frames_used o1). fr_time (fa_frames o1 ! m) \<le> fr_time (fa_frames o1 ! k))"
    by (rule fpa_reduce_scan_ok [OF inv base(1), of None]) auto
  show thesis
  proof (cases m)
    case None
    have "fa_inv log (o1\<lparr>fa_time := 0\<rparr>)" using o1(2,6) None by (auto simp: fa_inv_def fa_base_def)
    then show thesis using that [of "o1\<lparr>fa_time := 0\<rparr>"] o1(1,3,6) None by (auto simp: reduce_times_def same_rest_def)
  next
    case (Some a)
    define min_time where "min_time = fr_time (fa_frames o1 ! a)"
    have a: "a \<in> set (fa_frames_used o1)" "\<forall>k \<in> set (fa_frames_used o1). min_time \<le> fr_time (fa_frames o1 ! k)"
      using o1(6) Some by (auto simp: min_time_def)
    obtain f: "fa_frame o1 a = Some (fa_frames o1 ! a)" "min_time \<le> fa_time o1"
      unfolding min_time_def by (rule fa_invD [OF o1(2) a(1)])
    have d1: "distinct (fa_frames_used o1)" using o1(2) by (auto simp: fa_inv_def fa_base_def)
    obtain o2 where o2: "fpa_subtract_times (fa_frames_used o1) min_time o1 = Some o2" "fa_inv log o2" "same_rest o1 o2"
      "fa_time o2 = fa_time o1" "fa_frames_used o2 = fa_frames_used o1"
      "\<And>k. fr_time (fa_frames o2 ! k) = (if k \<in> set (fa_frames_used o1) then fr_time (fa_frames o1 ! k) - min_time
          else fr_time (fa_frames o1 ! k))"
      by (rule fpa_subtract_times_ok [OF o1(2) d1 _ a(2)]) auto
    have "fr_time (fa_frames o2 ! k) \<le> fa_time o2 - min_time" if k: "k \<in> set (fa_frames_used o2)" for k
    proof -
      have k1: "k \<in> set (fa_frames_used o1)" using k o2(5) by simp
      have le: "min_time \<le> fr_time (fa_frames o1 ! k)" using a(2) k1 by blast
      have "fr_time (fa_frames o1 ! k) \<le> fa_time o1" using fa_invD [OF o1(2) k1] by blast
      then have "fr_time (fa_frames o1 ! k) - min_time \<le> fa_time o1 - min_time"
        using le by (simp add: word_le_nat_alt unat_sub_if')
      then show ?thesis using k1 o2(4,6) by simp
    qed
    then have inv3: "fa_inv log (o2\<lparr>fa_time := fa_time o2 - min_time\<rparr>)"
      using o2(2) by (auto simp: fa_inv_def fa_base_def)
    have "kept o1 a" using o1(5) a(1) by blast
    then have "unat (fa_time o1 - min_time) < unat FPA_MAX_TIME"
      using base(2) o1(3) by (simp add: kept_def min_time_def same_rest_def)
    then have lt: "fa_time o2 - min_time < FPA_MAX_TIME" using o2(4) by (simp add: word_less_nat_alt)
    show thesis
      by (rule that [of "o2\<lparr>fa_time := fa_time o2 - min_time\<rparr>", OF _ inv3])
         (use o1(1,3) o2(1,3,5) f(1) Some lt a(1) in \<open>auto simp: reduce_times_def min_time_def same_rest_def\<close>)
  qed
qed

lemma packet_time_passes_ok:
  assumes inv: "fa_inv log o'"
  obtains o'' where "packet_time_passes o' = Some o''" "fa_inv log o''" "same_rest o' o''"
proof -
  have inc: "fa_inv log (x\<lparr>fa_time := fa_time x + 1\<rparr>)" if "fa_inv log x" "fa_time x < FPA_MAX_TIME" for x
  proof -
    have "unat FPA_MAX_TIME = 4294967295" by (simp add: FPA_MAX_TIME_def unsigned_minus_1_eq_mask mask_eq_exp_minus_1)
    then have "unat (fa_time x + 1) = unat (fa_time x) + 1"
      using that(2) by (simp add: word_less_nat_alt unat_word_ariths(1))
    then have "y \<le> fa_time x + 1" if "y \<le> fa_time x" for y using that by (simp add: word_le_nat_alt)
    then show ?thesis using that(1) by (auto simp: fa_inv_def fa_base_def)
  qed
  show thesis
  proof (cases "fa_time o' = FPA_MAX_TIME")
    case True
    obtain o1 where o1: "reduce_times o' = Some o1" "fa_inv log o1" "same_rest o' o1"
      "fa_frames_used o1 = [] \<Longrightarrow> fa_time o1 = 0" "fa_frames_used o1 \<noteq> [] \<Longrightarrow> fa_time o1 < FPA_MAX_TIME"
      by (rule reduce_times_ok [OF inv True]) blast
    show thesis
    proof (cases "fa_frames_used o1 = []")
      case e: True
      then show thesis using that [of o1] True o1 by (simp add: packet_time_passes_def)
    next
      case e: False
      then show thesis
        using that [OF _ inc [OF o1(2)]] True o1 by (simp add: packet_time_passes_def same_rest_def)
    qed
  next
    case False
    then have "fa_time o' < FPA_MAX_TIME" by (simp add: FPA_MAX_TIME_def word_order.not_eq_extremum)
    then show thesis
      using that [OF _ inc [OF inv]] False by (simp add: packet_time_passes_def same_rest_def)
  qed
qed

end
