(* ===== verification/FragmentProps.thy ===== *)
theory FragmentProps
  imports FragmentSystem
begin

text \<open>
  The assembler as a system: packets arrive from the network, completed frames are sent, and the
  receiver reads the frame's memory until it is done.
\<close>

record fas =
  fas_fa :: FragmentProtoAssembler
  fas_log :: "(u16 \<times> piece) list"
  fas_sending :: "(nat \<times> nat) option"
  fas_out :: "byte list list"

datatype fas_event = Fas_Packet "byte list" | Fas_Done

definition fas_enabled :: "fas \<Rightarrow> fas_event \<Rightarrow> bool" where
  "fas_enabled s e = (case e of Fas_Packet d \<Rightarrow> fa_in (fas_fa s) = None | Fas_Done \<Rightarrow> fas_sending s \<noteq> None)"

fun fas_acts :: "fa_act list \<Rightarrow> fas \<Rightarrow> fas" where
  "fas_acts [] s = s"
| "fas_acts (Fa_Input_Done # as) s = fas_acts as s"
| "fas_acts (Fa_Send i n # as) s = fas_acts as (s\<lparr>fas_sending := Some (i, n)\<rparr>)"

text \<open>The frame is read from its memory when the receiver is done with it.\<close>

definition fas_step :: "fas_event \<Rightarrow> fas \<Rightarrow> fas option" where
  "fas_step e s =
     (case e of
        Fas_Packet d \<Rightarrow> do {
          (fa, acts) \<leftarrow> fa_input_handler_send d (fas_fa s);
          Some (fas_acts acts (s\<lparr>fas_fa := fa, fas_log := fas_log s @ parse_chunks d\<rparr>))
        }
      | Fas_Done \<Rightarrow> do {
          (i, n) \<leftarrow> fas_sending s;
          fr \<leftarrow> fa_frame (fas_fa s) i;
          (fa, acts) \<leftarrow> fa_output_handler_done (fas_fa s);
          Some (fas_acts acts (s\<lparr>fas_fa := fa, fas_sending := None, fas_out := fas_out s @ [take n (fr_buffer fr)]\<rparr>))
        })"

definition mem_ok :: "nat \<Rightarrow> nat \<Rightarrow> nat \<Rightarrow> ((nat \<times> nat) list \<times> byte list) list \<Rightarrow> bool" where
  "mem_ok output_mtu num_frames num_chunks ms \<longleftrightarrow> length ms = num_frames
     \<and> (\<forall>(cs, buf) \<in> set ms. length cs = num_chunks \<and> length buf = output_mtu)"

definition fas_init :: "((nat \<times> nat) list \<times> byte list) list \<Rightarrow> nat \<Rightarrow> nat \<Rightarrow> nat \<Rightarrow> fas option" where
  "fas_init ms output_mtu num_frames num_chunks = do {
     r \<leftarrow> FragmentProtoAssembler_Init (Some ms) output_mtu num_frames num_chunks;
     fa \<leftarrow> r;
     Some \<lparr>fas_fa = fa, fas_log = [], fas_sending = None, fas_out = []\<rparr> }"

inductive fas_reachable :: "nat \<Rightarrow> nat \<Rightarrow> nat \<Rightarrow> fas option \<Rightarrow> bool" for output_mtu num_frames num_chunks where
  init: "mem_ok output_mtu num_frames num_chunks ms
    \<Longrightarrow> fas_reachable output_mtu num_frames num_chunks (fas_init ms output_mtu num_frames num_chunks)"
| step: "fas_reachable output_mtu num_frames num_chunks (Some s) \<Longrightarrow> fas_enabled s e
    \<Longrightarrow> fas_reachable output_mtu num_frames num_chunks (fas_step e s)"

section \<open>The invariant of the system\<close>

lemma frame_pieces_mono: "frame_pieces log fr gs \<Longrightarrow> log \<subseteq> log' \<Longrightarrow> frame_pieces log' fr gs"
  by (auto simp: frame_pieces_def)

lemma fa_inv_mono: "fa_inv log o' \<Longrightarrow> log \<subseteq> log' \<Longrightarrow> fa_inv log' o'"
  unfolding fa_inv_def by (blast intro: frame_pieces_mono)

lemma assembled_mono: "assembled log p \<Longrightarrow> log \<subseteq> log' \<Longrightarrow> assembled log' p"
  unfolding assembled_def by (meson subsetD)

definition fas_inv :: "fas \<Rightarrow> bool" where
  "fas_inv s \<longleftrightarrow> fa_inv (set (fas_log s)) (fas_fa s)
     \<and> (case fa_in (fas_fa s) of None \<Rightarrow> fas_sending s = None
        | Some d \<Rightarrow> fas_sending s \<noteq> None \<and> fa_in_pos (fas_fa s) \<le> length d
            \<and> set (parse_chunks (drop (fa_in_pos (fas_fa s)) d)) \<subseteq> set (fas_log s))
     \<and> (\<forall>i n. fas_sending s = Some (i, n) \<longrightarrow> i < length (fa_frames (fas_fa s))
          \<and> assembled (set (fas_log s)) (take n (fr_buffer (fa_frames (fas_fa s) ! i))))
     \<and> (\<forall>p\<in>set (fas_out s). assembled (set (fas_log s)) p)"

lemma fa_inv_in: "fa_inv log (o'\<lparr>fa_in := d, fa_in_pos := p\<rparr>) = fa_inv log o'"
    "fa_inv log (o'\<lparr>fa_in := d\<rparr>) = fa_inv log o'" "fa_inv log (o'\<lparr>fa_in_pos := p\<rparr>) = fa_inv log o'"
  by (simp_all add: fa_inv_def fa_base_def)

lemma process_input_ok:
  assumes inv: "fa_inv log o'" and d: "fa_in o' = Some d" "fa_in_pos o' \<le> length d"
    "set (parse_chunks (drop (fa_in_pos o') d)) \<subseteq> log"
  obtains (sent) o'' j n where "process_input o' = Some (o'', [Fa_Send j n])" "fa_inv log o''" "fa_in o'' = Some d"
      "fa_in_pos o'' \<le> length d" "set (parse_chunks (drop (fa_in_pos o'') d)) \<subseteq> log" "j < length (fa_frames o'')"
      "assembled log (take n (fr_buffer (fa_frames o'' ! j)))"
  | (finished) o'' where "process_input o' = Some (o'', [Fa_Input_Done])" "fa_inv log o''" "fa_in o'' = None"
proof -
  obtain rest res o1 where o1: "run_chunks (parse_chunks (drop (fa_in_pos o') d)) o' = Some (rest, res, o1)"
    "fa_inv log o1" "same_rest o' o1" "fa_time o1 = fa_time o'" "set rest \<subseteq> set (parse_chunks (drop (fa_in_pos o') d))"
    "\<forall>j n. res = Some (j, n) \<longrightarrow> j < length (fa_frames o1) \<and> n \<le> fa_output_mtu o1
        \<and> assembled log (take n (fr_buffer (fa_frames o1 ! j)))"
    by (rule run_chunks_ok [OF inv d(3)])
  obtain pos where pos: "process_input_loop d (fa_in_pos o') o' = Some (pos, res, o1)" "pos \<le> length d"
      "res \<noteq> None \<longrightarrow> rest = parse_chunks (drop pos d)"
    using process_input_loop_run [OF d(2), of o'] unfolding o1(1) by auto
  show thesis
  proof (cases res)
    case (Some jn)
    obtain j n where jn: "jn = (j, n)" by (cases jn)
    have "process_input o' = Some (o1\<lparr>fa_in_pos := pos\<rparr>, [Fa_Send j n])"
      using d(1) pos(1) Some jn by (simp add: process_input_def)
    moreover have "fa_inv log (o1\<lparr>fa_in_pos := pos\<rparr>)" using o1(2) by (simp add: fa_inv_in)
    moreover have "fa_in (o1\<lparr>fa_in_pos := pos\<rparr>) = Some d" using o1(3) d(1) by (simp add: same_rest_def)
    moreover have "set (parse_chunks (drop pos d)) \<subseteq> log" using o1(5) pos(3) d(3) Some by simp
    moreover have "j < length (fa_frames o1)" "assembled log (take n (fr_buffer (fa_frames o1 ! j)))"
      using o1(6) Some jn by blast+
    ultimately show thesis by (intro sent [of "o1\<lparr>fa_in_pos := pos\<rparr>" j n]) (simp_all add: pos(2))
  next
    case None
    have "fa_inv log (o1\<lparr>fa_in_pos := pos\<rparr>)" using o1(2) by (simp add: fa_inv_in)
    then obtain o2 where o2: "packet_time_passes (o1\<lparr>fa_in_pos := pos\<rparr>) = Some o2" "fa_inv log o2"
      by (rule packet_time_passes_ok)
    have "process_input o' = Some (o2\<lparr>fa_in := None\<rparr>, [Fa_Input_Done])"
      using d(1) pos(1) None o2(1) by (simp add: process_input_def)
    moreover have "fa_inv log (o2\<lparr>fa_in := None\<rparr>)" using o2(2) by (simp add: fa_inv_in)
    ultimately show thesis by (rule finished) simp
  qed
qed

lemma fas_inv_init:
  assumes "mem_ok output_mtu num_frames num_chunks ms" "num_frames > 0" "num_frames < unat FPA_MAX_TIME" "num_chunks > 0"
  shows "\<exists>s. fas_init ms output_mtu num_frames num_chunks = Some s \<and> fas_inv s"
proof -
  define fa where "fa = \<lparr>fa_output_mtu = output_mtu, fa_num_chunks = num_chunks, fa_time = 0,
         fa_time_tolerance = num_frames,
         fa_frames = map (\<lambda>(cs, buf). \<lparr>fr_chunks = cs, fr_buffer = buf, fr_id = 0, fr_time = 0, fr_num_chunks = 0,
           fr_sum = 0, fr_length = 0, fr_length_so_far = 0\<rparr>) ms,
         fa_frames_free = [0..<num_frames], fa_frames_used = [], fa_frames_used_tree = Map.empty,
         fa_in = None, fa_in_pos = 0\<rparr>"
  have len: "length (fa_frames fa) = num_frames" using assms(1) by (simp add: fa_def mem_ok_def)
  have "\<forall>fr\<in>set (fa_frames fa). length (fr_chunks fr) = num_chunks \<and> length (fr_buffer fr) = output_mtu"
    using assms(1) by (fastforce simp: fa_def mem_ok_def)
  moreover have "fa_frames fa \<noteq> []" using len assms(2) by auto
  ultimately have "fa_inv {} fa"
    using len assms(2-4) unfolding fa_inv_def fa_base_def by (simp add: fa_def atLeast0LessThan)
  moreover have "fas_init ms output_mtu num_frames num_chunks
      = Some \<lparr>fas_fa = fa, fas_log = [], fas_sending = None, fas_out = []\<rparr>"
    unfolding fas_init_def FragmentProtoAssembler_Init_def fa_def using assms(2-4) by simp
  moreover have "fa_in fa = None" by (simp add: fa_def)
  ultimately show ?thesis by (simp add: fas_inv_def)
qed

lemma fas_inv_step:
  assumes inv: "fas_inv s" and en: "fas_enabled s e"
  shows "\<exists>s'. fas_step e s = Some s' \<and> fas_inv s'"
proof (cases e)
  case (Fas_Packet d)
  let ?log = "set (fas_log s @ parse_chunks d)"
  let ?o = "(fas_fa s)\<lparr>fa_in := Some d, fa_in_pos := 0\<rparr>"
  have e: "fa_in (fas_fa s) = None" using en Fas_Packet by (simp add: fas_enabled_def)
  have i: "fa_inv ?log ?o" using inv fa_inv_mono [of "set (fas_log s)"] by (auto simp: fas_inv_def fa_inv_in)
  have out: "\<forall>p\<in>set (fas_out s). assembled ?log p" using inv assembled_mono by (fastforce simp: fas_inv_def)
  have run: "fa_input_handler_send d (fas_fa s) = process_input ?o" using e by (simp add: fa_input_handler_send_def)
  show ?thesis
    by (rule process_input_ok [OF i])
       (use e inv out run in \<open>auto simp: Fas_Packet fas_step_def fas_inv_def\<close>)
next
  case Fas_Done
  then obtain j n where jn: "fas_sending s = Some (j, n)" using en by (auto simp: fas_enabled_def)
  obtain d where d: "fa_in (fas_fa s) = Some d" using inv jn by (auto simp: fas_inv_def split: option.splits)
  have i: "fa_inv (set (fas_log s)) (fas_fa s)" "fa_in_pos (fas_fa s) \<le> length d"
      "set (parse_chunks (drop (fa_in_pos (fas_fa s)) d)) \<subseteq> set (fas_log s)" "j < length (fa_frames (fas_fa s))"
      "assembled (set (fas_log s)) (take n (fr_buffer (fa_frames (fas_fa s) ! j)))"
      "\<forall>p\<in>set (fas_out s). assembled (set (fas_log s)) p"
    using inv d jn by (auto simp: fas_inv_def)
  have run: "fa_output_handler_done (fas_fa s) = process_input (fas_fa s)" using d by (simp add: fa_output_handler_done_def)
  show ?thesis
    by (rule process_input_ok [OF i(1) d i(2,3)])
       (use jn i run in \<open>auto simp: Fas_Done fas_step_def fas_inv_def fa_frame_def\<close>)
qed

text \<open>
  C37. Whatever packets arrive, with any chunks in any order, no assertion of the assembler fails, and
  each frame it delivers is put together from chunks that were received for one frame id: every byte
  comes from one of them, none is left over from another frame that used the memory, one of them is a
  last chunk that ends where the frame ends, and the memory does not change while the frame is read.
\<close>

theorem FragmentAssembler_safe:
  assumes "fas_reachable output_mtu num_frames num_chunks r"
    and "num_frames > 0" "num_frames < unat FPA_MAX_TIME" "num_chunks > 0"
  shows "\<exists>s. r = Some s \<and> (\<forall>p\<in>set (fas_out s). assembled (set (fas_log s)) p)"
proof -
  have "\<exists>s. r = Some s \<and> fas_inv s"
    using assms(1)
  proof induction
    case (init ms)
    then show ?case using fas_inv_init assms(2-4) by blast
  next
    case (step s e)
    then show ?case using fas_inv_step by auto
  qed
  then show ?thesis by (auto simp: fas_inv_def)
qed

end
