(* ===== verification/FragmentRoundtrip.thy ===== *)
theory FragmentRoundtrip
  imports FragmentProps
begin

text \<open>
  What the disassembler writes the assembler puts together again. The stream of chunks is checked by
  \<open>reasm\<close>, which collects the data of one frame after the other; the disassembler only writes streams
  it accepts, and the assembler agrees with it.
\<close>

section \<open>Streams of chunks\<close>

text \<open>
  The state has the id of the current frame, its data so far and the number of its chunks, for frames of
  at most \<open>mtu\<close> bytes in at most \<open>k\<close> chunks.
\<close>

type_synonym reasm_state = "u16 \<times> byte list \<times> nat"

fun reasm_chunk :: "nat \<Rightarrow> nat \<Rightarrow> u16 \<times> piece \<Rightarrow> reasm_state \<Rightarrow> (reasm_state \<times> byte list option) option" where
  "reasm_chunk mtu k (j, (s, d, l)) (i, b, n) =
     (if j = i \<and> s = length b \<and> length (b @ d) \<le> mtu \<and> n < k
      then if l then Some ((i + 1, [], 0), Some (b @ d))
           else if d \<noteq> [] \<and> Suc n < k then Some ((i, b @ d, Suc n), None) else None
      else None)"

fun reasm :: "nat \<Rightarrow> nat \<Rightarrow> (u16 \<times> piece) list \<Rightarrow> reasm_state \<Rightarrow> (reasm_state \<times> byte list list) option" where
  "reasm mtu k [] st = Some (st, [])"
| "reasm mtu k (c # cs) st = do {
     (st, p) \<leftarrow> reasm_chunk mtu k c st;
     (st, ps) \<leftarrow> reasm mtu k cs st;
     Some (st, (case p of None \<Rightarrow> [] | Some p \<Rightarrow> [p]) @ ps) }"

lemma reasm_append:
  "reasm mtu k (xs @ ys) st = do { (st, ps) \<leftarrow> reasm mtu k xs st; (st, qs) \<leftarrow> reasm mtu k ys st; Some (st, ps @ qs) }"
proof (induction xs arbitrary: st)
  case (Cons x xs)
  show ?case by (cases "reasm_chunk mtu k x st") (auto simp: Cons split_def)
qed (simp add: split_def)

section \<open>The assembler on a stream\<close>

definition frame_holds :: "FPA_frame \<Rightarrow> reasm_state \<Rightarrow> bool" where
  "frame_holds fr st = (case st of (i, b, n) \<Rightarrow>
     fr_id fr = i \<and> fr_num_chunks fr = n \<and> fr_sum fr = length b \<and> fr_length fr = - 1
     \<and> fr_length_so_far fr = length b \<and> (\<forall>x\<in>set (take n (fr_chunks fr)). fst x + snd x \<le> length b)
     \<and> take (length b) (fr_buffer fr) = b)"

definition asm_rel :: "reasm_state \<Rightarrow> nat \<Rightarrow> FragmentProtoAssembler \<Rightarrow> bool" where
  "asm_rel st dt o' \<longleftrightarrow> fa_inv UNIV o' \<and> length (fst (snd st)) \<le> fa_output_mtu o'
     \<and> (if snd (snd st) = 0 then fst (snd st) = [] \<and> fa_frames_used o' = []
        else (\<exists>j. fa_frames_used o' = [j] \<and> frame_holds (fa_frames o' ! j) st
               \<and> unat (fa_time o' - fr_time (fa_frames o' ! j)) \<le> dt))"

lemma asm_locate:
  assumes rel: "asm_rel (i, b, n) dt o'" and dt: "dt \<le> 1"
  obtains j o1 where "(case fa_frames_used_tree o' i of
             None \<Rightarrow> allocate_new_frame i o'
           | Some j \<Rightarrow> do {
               fr \<leftarrow> fa_frame o' j;
               timed_out \<leftarrow> frame_is_timed_out o' fr;
               if timed_out then do { o' \<leftarrow> free_frame j o'; allocate_new_frame i o' }
               else Some (j, o') }) = Some (j, o1)"
    "fa_inv UNIV o1" "same_rest o' o1" "fa_time o1 = fa_time o'" "fa_frames_used o1 = [j]" "frame_holds (fa_frames o1 ! j) (i, b, n)"
proof -
  have inv: "fa_inv UNIV o'" using rel by (simp add: asm_rel_def)
  then have base: "fa_base o'" by (simp add: fa_inv_def)
  show thesis
  proof (cases "n = 0")
    case True
    then have u: "fa_frames_used o' = []" "b = []" using rel by (simp_all add: asm_rel_def)
    then have t: "fa_frames_used_tree o' i = None" using base by (cases "fa_frames_used_tree o' i") (auto simp: fa_base_def)
    obtain j free where free: "fa_frames_free o' = j # free" using base u(1) by (cases "fa_frames_free o'") (auto simp: fa_base_def)
    have j: "j < length (fa_frames o')" using base free by (auto simp: fa_base_def)
    show thesis
      by (rule that [OF _ allocate_free_ok(2) [OF inv t free]])
         (use allocate_free_ok(1) [OF inv t free] t u True j in \<open>auto simp: same_rest_def fa_put_def frame_holds_def\<close>)
  next
    case False
    then obtain j where j: "fa_frames_used o' = [j]" "frame_holds (fa_frames o' ! j) (i, b, n)"
        "unat (fa_time o' - fr_time (fa_frames o' ! j)) \<le> dt"
      using rel by (auto simp: asm_rel_def)
    have ju: "j \<in> set (fa_frames_used o')" using j(1) by simp
    obtain f: "fa_frame o' j = Some (fa_frames o' ! j)" "fr_time (fa_frames o' ! j) \<le> fa_time o'"
        "fa_frames_used_tree o' (fr_id (fa_frames o' ! j)) = Some j"
      by (rule fa_invD [OF inv ju])
    have "1 \<le> fa_time_tolerance o'" using base by (cases "fa_frames o'") (auto simp: fa_base_def)
    then have "frame_is_timed_out o' (fa_frames o' ! j) = Some False"
      using f(2) j(3) dt by (simp add: frame_is_timed_out_def)
    moreover have "fa_frames_used_tree o' i = Some j" using f(3) j(2) by (simp add: frame_holds_def)
    ultimately show thesis using that [of j o'] f(1) inv j by (simp add: same_rest_def)
  qed
qed

lemma asm_chunk:
  assumes rel: "asm_rel st dt o'" and dt: "dt \<le> 1"
    and c: "reasm_chunk (fa_output_mtu o') (fa_num_chunks o') (i, (s, d, l)) st = Some (st', p)"
  obtains res o'' where "process_chunk i s l d o' = Some (res, o'')" "asm_rel st' 0 o''" "same_rest o' o''"
    "case p of None \<Rightarrow> res = None
     | Some p \<Rightarrow> \<exists>j. res = Some (j, length p) \<and> j < length (fa_frames o'') \<and> take (length p) (fr_buffer (fa_frames o'' ! j)) = p"
proof -
  obtain i' b n where st: "st = (i', b, n)" by (cases st)
  have h: "i' = i" "s = length b" "length (b @ d) \<le> fa_output_mtu o'" "n < fa_num_chunks o'"
      "if l then st' = (i + 1, [], 0) \<and> p = Some (b @ d)
       else d \<noteq> [] \<and> Suc n < fa_num_chunks o' \<and> st' = (i, b @ d, Suc n) \<and> p = None"
    using c by (auto simp: st split: if_splits)
  obtain j o1 where o1: "(case fa_frames_used_tree o' i of
             None \<Rightarrow> allocate_new_frame i o'
           | Some j \<Rightarrow> do {
               fr \<leftarrow> fa_frame o' j;
               timed_out \<leftarrow> frame_is_timed_out o' fr;
               if timed_out then do { o' \<leftarrow> free_frame j o'; allocate_new_frame i o' }
               else Some (j, o') }) = Some (j, o1)"
    "fa_inv UNIV o1" "same_rest o' o1" "fa_time o1 = fa_time o'" "fa_frames_used o1 = [j]" "frame_holds (fa_frames o1 ! j) (i, b, n)"
    by (rule asm_locate [OF rel [unfolded st h(1)] dt])
  define fr where "fr = fa_frames o1 ! j"
  have ju: "j \<in> set (fa_frames_used o1)" using o1(5) by simp
  obtain gs where f: "fa_frame o1 j = Some fr" "fr_num_chunks fr < fa_num_chunks o1" "frame_pieces UNIV fr gs"
    "length (fr_chunks fr) = fa_num_chunks o1" "length (fr_buffer fr) = fa_output_mtu o1"
    unfolding fr_def by (rule fa_invD [OF o1(2) ju])
  have m: "fa_output_mtu o1 = fa_output_mtu o'" "fa_num_chunks o1 = fa_num_chunks o'" using o1(3) by (simp_all add: same_rest_def)
  have hold: "fr_id fr = i" "fr_num_chunks fr = n" "fr_sum fr = length b" "fr_length fr = - 1"
      "fr_length_so_far fr = length b" "\<forall>x\<in>set (take n (fr_chunks fr)). fst x + snd x \<le> length b"
      "take (length b) (fr_buffer fr) = b"
    using o1(6) by (simp_all add: frame_holds_def fr_def)
  have fits: "chunk_fits fr s (length d) l"
    using hold h(2) by (auto simp: chunk_fits_def chunks_overlap_def)
  have room: "s + length d \<le> length (fr_buffer fr)" "fr_num_chunks fr < length (fr_chunks fr)"
    using h(2,3) f(2,4,5) m by simp_all
  obtain fr' where fr': "add_chunk (fa_time o1) s d l fr = Some fr'" "frame_pieces UNIV fr' (gs @ [(s, d, l)])"
    "fr_id fr' = fr_id fr" "fr_time fr' = fa_time o1" "fr_num_chunks fr' = Suc (fr_num_chunks fr)"
    "length (fr_chunks fr') = length (fr_chunks fr)" "length (fr_buffer fr') = length (fr_buffer fr)"
    "fr_sum fr' = fr_sum fr + length d" "fr_buffer fr' = write_at (fr_buffer fr) s d"
    "fr_length fr' = (if l then int (s + length d) else fr_length fr)"
    "fr_chunks fr' = (fr_chunks fr)[fr_num_chunks fr := (s, length d)]"
    "fr_length_so_far fr' =
       (if \<not> l \<and> fr_length fr < 0 \<and> fr_length_so_far fr < s + length d then s + length d else fr_length_so_far fr)"
    by (rule add_chunk_ok [OF f(3) UNIV_I fits room])
  have put: "fr_id fr' = fr_id (fa_frames o1 ! j)" "length (fr_chunks fr') = fa_num_chunks o1"
      "length (fr_buffer fr') = fa_output_mtu o1"
    using fr' f by (simp_all add: fr_def)
  have buf: "take (length (b @ d)) (fr_buffer fr') = b @ d"
    using hold(7) room(1) h(2) unfolding fr'(9) write_at_def by (simp add: min_def)
  have run: "process_chunk i s l d o' = do {
          fr \<leftarrow> add_chunk (fa_time o1) s d l fr;
          let o' = fa_put j fr o1;
          if fr_length fr < 0 \<or> int (fr_sum fr) < fr_length fr
          then (if fr_num_chunks fr = fa_num_chunks o' then do { o' \<leftarrow> free_frame j o'; Some (None, o') }
                else Some (None, o'))
          else do {
            assert_that (int (fr_sum fr) = fr_length fr);
            o' \<leftarrow> free_frame j o';
            Some (Some (j, nat (fr_length fr)), o') } }"
  proof -
    have "\<not> s > fa_output_mtu o'" "\<not> length d > fa_output_mtu o' - s" using h(2,3) by simp_all
    then show ?thesis using o1(1) f(1,2) fits unfolding process_chunk_def by simp
  qed
  have jl: "j < length (fa_frames o1)" using f(1) by (simp add: fa_frame_def split: if_splits)
  show thesis
  proof (cases l)
    case True
    obtain o2 where o2: "free_frame j (fa_put j fr' o1) = Some o2" "fa_inv UNIV o2" "same_rest o1 o2"
        "fa_time o2 = fa_time o1" "fa_frames o2 ! j = fr'" "fa_frames_used o2 = remove1 j (fa_frames_used o1)"
      by (rule free_put_ok [OF o1(2) ju put])
    have "process_chunk i s l d o' = Some (Some (j, length (b @ d)), o2)"
      using run fr'(1,8,10) True o2(1) hold(3) h(2) by (simp add: Let_def nat_add_distrib)
    moreover have "asm_rel st' 0 o2" using o2(2,6) o1(5) h(5) True by (simp add: asm_rel_def)
    moreover have "same_rest o' o2" by (rule same_rest_trans [OF o1(3) o2(3)])
    moreover have "j < length (fa_frames o2)" using jl o2(3) by (simp add: same_rest_def)
    ultimately show thesis using that h(5) True o2(5) buf by fastforce
  next
    case False
    let ?o = "fa_put j fr' o1"
    have inv: "fa_inv UNIV ?o"
      by (rule fa_put_ok(2) [OF o1(2) ju put _ _ fr'(2)]) (use fr' f h(5) False hold(2) m in auto)
    have "process_chunk i s l d o' = Some (None, ?o)"
      using run fr'(1,5,10) False h(5) hold(2,4) m by (simp add: Let_def fa_put_def)
    moreover have "frame_holds fr' (i, b @ d, Suc n)"
      using fr' hold h(2,5) False room(2) buf unfolding frame_holds_def by (auto simp: take_update_nth)
    then have "asm_rel st' 0 ?o"
      using inv h(3,5) False o1(5) jl fr'(4) m unfolding asm_rel_def by (simp add: fa_put_def)
    moreover have "same_rest o' ?o" using o1(3) by (simp add: same_rest_def fa_put_def)
    ultimately show thesis using that h(5) False by fastforce
  qed
qed

section \<open>The assembler on packets\<close>

lemma asm_rel_fields:
  "asm_rel st dt (o'\<lparr>fa_in := d\<rparr>) = asm_rel st dt o'" "asm_rel st dt (o'\<lparr>fa_in_pos := p\<rparr>) = asm_rel st dt o'"
  by (simp_all add: asm_rel_def fa_inv_in)

lemma asm_rel_mono: "asm_rel st dt o' \<Longrightarrow> dt \<le> dt' \<Longrightarrow> asm_rel st dt' o'"
  by (fastforce simp: asm_rel_def split: if_splits)

lemma asm_run:
  assumes "reasm (fa_output_mtu o') (fa_num_chunks o') cs st = Some (st', ps)" "asm_rel st dt o'" "dt \<le> 1"
  obtains (finished) o1 where "run_chunks cs o' = Some ([], None, o1)" "same_rest o' o1" "ps = []"
      "asm_rel st' (if cs = [] then dt else 0) o1"
  | (sent) rest j p ps' st1 o1 where "run_chunks cs o' = Some (rest, Some (j, length p), o1)" "same_rest o' o1" "ps = p # ps'"
      "j < length (fa_frames o1)" "take (length p) (fr_buffer (fa_frames o1 ! j)) = p" "asm_rel st1 0 o1"
      "reasm (fa_output_mtu o') (fa_num_chunks o') rest st1 = Some (st', ps')" "length rest < length cs"
  using assms
proof (induction cs arbitrary: o' st ps dt thesis)
  case Nil
  show ?case by (rule Nil.prems(1) [of o']) (use Nil.prems in \<open>auto simp: same_rest_def\<close>)
next
  case (Cons c cs)
  obtain i s d l where c: "c = (i, (s, d, l))" by (cases c) auto
  obtain st1 p qs where r: "reasm_chunk (fa_output_mtu o') (fa_num_chunks o') c st = Some (st1, p)"
      "reasm (fa_output_mtu o') (fa_num_chunks o') cs st1 = Some (st', qs)" "ps = (case p of None \<Rightarrow> [] | Some p \<Rightarrow> [p]) @ qs"
    using Cons.prems(3) by (auto simp: bind_Some)
  obtain res o1 where o1: "process_chunk i s l d o' = Some (res, o1)" "asm_rel st1 0 o1" "same_rest o' o1"
    "case p of None \<Rightarrow> res = None
     | Some p \<Rightarrow> \<exists>j. res = Some (j, length p) \<and> j < length (fa_frames o1) \<and> take (length p) (fr_buffer (fa_frames o1 ! j)) = p"
    by (rule asm_chunk [OF Cons.prems(4,5) r(1) [unfolded c]])
  have m: "fa_output_mtu o1 = fa_output_mtu o'" "fa_num_chunks o1 = fa_num_chunks o'" using o1(3) by (simp_all add: same_rest_def)
  show ?case
  proof (cases p)
    case (Some q)
    then obtain j where "res = Some (j, length q)" "j < length (fa_frames o1)" "take (length q) (fr_buffer (fa_frames o1 ! j)) = q"
      using o1(4) by auto
    then show ?thesis using Cons.prems(2) [of cs j q o1 qs st1] o1(1-3) r Some by (auto simp: c)
  next
    case None
    then have run: "run_chunks (c # cs) o' = run_chunks cs o1" "ps = qs" using o1(1,4) r(3) by (simp_all add: c)
    show ?thesis
    proof (rule Cons.IH [OF _ _ _ o1(2)])
      show "reasm (fa_output_mtu o1) (fa_num_chunks o1) cs st1 = Some (st', qs)" using r(2) m by simp
      show thesis if "run_chunks cs o1 = Some ([], None, o2)" "same_rest o1 o2" "qs = []"
          "asm_rel st' (if cs = [] then 0 else 0) o2" for o2
        by (rule Cons.prems(1) [of o2]) (use that run same_rest_trans [OF o1(3) that(2)] in auto)
      show thesis if "run_chunks cs o1 = Some (rest, Some (j, length q), o2)" "same_rest o1 o2" "qs = q # ps'"
          "j < length (fa_frames o2)" "take (length q) (fr_buffer (fa_frames o2 ! j)) = q" "asm_rel st2 0 o2"
          "reasm (fa_output_mtu o1) (fa_num_chunks o1) rest st2 = Some (st', ps')" "length rest < length cs"
        for rest j q ps' st2 o2
        by (rule Cons.prems(2) [of rest j q o2 ps' st2]) (use that run m same_rest_trans [OF o1(3) that(2)] in auto)
    qed simp
  qed
qed

lemma asm_tick:
  assumes rel: "asm_rel st 0 o'"
  obtains o'' where "packet_time_passes o' = Some o''" "asm_rel st 1 o''" "same_rest o' o''"
proof -
  obtain i b n where st: "st = (i, b, n)" by (cases st)
  have inv: "fa_inv UNIV o'" using rel by (simp add: asm_rel_def)
  obtain o'' where o'': "packet_time_passes o' = Some o''" "fa_inv UNIV o''" "same_rest o' o''"
    by (rule packet_time_passes_ok [OF inv])
  have mtu: "fa_output_mtu o'' = fa_output_mtu o'" "length b \<le> fa_output_mtu o'"
    using o''(3) rel by (simp_all add: same_rest_def asm_rel_def st)
  have "asm_rel st 1 o''"
  proof (cases "n = 0")
    case True
    then have u: "fa_frames_used o' = []" "b = []" using rel by (simp_all add: asm_rel_def st)
    have "fa_frames_used o'' = []"
      using o''(1) u(1) by (auto simp: packet_time_passes_def reduce_times_def bind_Some split: if_splits)
    then show ?thesis using o''(2) u True by (simp add: asm_rel_def st)
  next
    case False
    then obtain j where j: "fa_frames_used o' = [j]" "frame_holds (fa_frames o' ! j) st" "fa_time o' = fr_time (fa_frames o' ! j)"
      using rel by (auto simp: asm_rel_def st unat_eq_zero)
    have jl: "j < length (fa_frames o')" "fa_time_tolerance o' > 0"
      using inv j(1) by (auto simp: fa_inv_def fa_base_def)
    then have f: "fa_frame o' j = Some (fa_frames o' ! j)" by (simp add: fa_frame_def)
    have "fa_frames_used o'' = [j] \<and> frame_holds (fa_frames o'' ! j) st
        \<and> fa_time o'' - fr_time (fa_frames o'' ! j) = 1"
    proof (cases "fa_time o' = FPA_MAX_TIME")
      case True
      then show ?thesis
        using o''(1) j f jl
        by (auto simp: packet_time_passes_def reduce_times_def frame_is_timed_out_def bind_Some fa_put_def fa_frame_def
            frame_holds_def st)
    next
      case False
      then show ?thesis using o''(1) j by (auto simp: packet_time_passes_def)
    qed
    then show ?thesis using o''(2) mtu False by (simp add: asm_rel_def st)
  qed
  then show thesis using that o''(1,3) by blast
qed

text \<open>
  One packet from the input, with the receiver of the output done each time: the frames delivered
  until the input is done. The number of rounds is bounded by the fuel.
\<close>

fun fa_pump :: "nat \<Rightarrow> FragmentProtoAssembler \<times> fa_act list \<Rightarrow> (FragmentProtoAssembler \<times> byte list list) option" where
  "fa_pump n (o', [Fa_Input_Done]) = Some (o', [])"
| "fa_pump (Suc n) (o', [Fa_Send i len]) = do {
     fr \<leftarrow> fa_frame o' i;
     r \<leftarrow> fa_output_handler_done o';
     (o', ps) \<leftarrow> fa_pump n r;
     Some (o', take len (fr_buffer fr) # ps) }"
| "fa_pump n (o', acts) = None"

definition fa_feed :: "byte list \<Rightarrow> FragmentProtoAssembler \<Rightarrow> (FragmentProtoAssembler \<times> byte list list) option" where
  "fa_feed d o' = fa_input_handler_send d o' \<bind> fa_pump (length d)"

fun fa_feed_all :: "byte list list \<Rightarrow> FragmentProtoAssembler \<Rightarrow> (FragmentProtoAssembler \<times> byte list list) option" where
  "fa_feed_all [] o' = Some (o', [])"
| "fa_feed_all (d # ds) o' = do {
     (o', ps) \<leftarrow> fa_feed d o';
     (o', qs) \<leftarrow> fa_feed_all ds o';
     Some (o', ps @ qs) }"

lemma asm_pump:
  assumes "fa_in o' = Some d" "fa_in_pos o' \<le> length d"
    and "reasm (fa_output_mtu o') (fa_num_chunks o') (parse_chunks (drop (fa_in_pos o') d)) st = Some (st', ps)"
    and "asm_rel st dt o'" "dt = 0 \<or> dt = 1 \<and> parse_chunks (drop (fa_in_pos o') d) \<noteq> []" "length ps \<le> fuel"
  shows "\<exists>o''. process_input o' \<bind> fa_pump fuel = Some (o'', ps) \<and> asm_rel st' 1 o'' \<and> fa_in o'' = None
    \<and> fa_output_mtu o'' = fa_output_mtu o' \<and> fa_num_chunks o'' = fa_num_chunks o'"
  using assms
proof (induction ps arbitrary: o' st dt fuel)
  case Nil
  have dt: "dt \<le> 1" using Nil.prems(5) by auto
  show ?case
  proof (rule asm_run [OF Nil.prems(3,4) dt])
    fix o1 assume o1: "run_chunks (parse_chunks (drop (fa_in_pos o') d)) o' = Some ([], None, o1)" "same_rest o' o1"
      "asm_rel st' (if parse_chunks (drop (fa_in_pos o') d) = [] then dt else 0) o1"
    obtain pos where pos: "process_input_loop d (fa_in_pos o') o' = Some (pos, None, o1)"
      using process_input_loop_run [OF Nil.prems(2), of o'] unfolding o1(1) by auto
    have "asm_rel st' 0 o1" using o1(3) Nil.prems(5) by (auto split: if_splits)
    then have "asm_rel st' 0 (o1\<lparr>fa_in_pos := pos\<rparr>)" by (simp add: asm_rel_fields)
    then obtain o2 where o2: "packet_time_passes (o1\<lparr>fa_in_pos := pos\<rparr>) = Some o2" "asm_rel st' 1 o2"
        "same_rest (o1\<lparr>fa_in_pos := pos\<rparr>) o2"
      by (rule asm_tick)
    have "process_input o' = Some (o2\<lparr>fa_in := None\<rparr>, [Fa_Input_Done])"
      using Nil.prems(1) pos o2(1) by (simp add: process_input_def)
    then show ?thesis using o2(2,3) o1(2) by (simp add: asm_rel_fields same_rest_def)
  qed simp
next
  case (Cons p ps)
  have dt: "dt \<le> 1" using Cons.prems(5) by auto
  show ?case
  proof (rule asm_run [OF Cons.prems(3,4) dt])
    fix rest j q ps' st1 o1
    assume o1: "run_chunks (parse_chunks (drop (fa_in_pos o') d)) o' = Some (rest, Some (j, length q), o1)"
      "same_rest o' o1" "p # ps = q # ps'" "j < length (fa_frames o1)"
      "take (length q) (fr_buffer (fa_frames o1 ! j)) = q" "asm_rel st1 0 o1"
      "reasm (fa_output_mtu o') (fa_num_chunks o') rest st1 = Some (st', ps')"
    obtain pos where pos: "process_input_loop d (fa_in_pos o') o' = Some (pos, Some (j, length q), o1)" "pos \<le> length d"
        "rest = parse_chunks (drop pos d)"
      using process_input_loop_run [OF Cons.prems(2), of o'] unfolding o1(1) by auto
    define o2 where "o2 = o1\<lparr>fa_in_pos := pos\<rparr>"
    obtain fuel' where fuel: "fuel = Suc fuel'" using Cons.prems(6) by (cases fuel) auto
    have s: "fa_in o2 = Some d" "fa_in_pos o2 = pos" "fa_output_mtu o2 = fa_output_mtu o'" "fa_num_chunks o2 = fa_num_chunks o'"
        "fa_frames o2 = fa_frames o1"
      using o1(2) Cons.prems(1) by (simp_all add: o2_def same_rest_def)
    have "\<exists>o''. process_input o2 \<bind> fa_pump fuel' = Some (o'', ps) \<and> asm_rel st' 1 o'' \<and> fa_in o'' = None
        \<and> fa_output_mtu o'' = fa_output_mtu o2 \<and> fa_num_chunks o'' = fa_num_chunks o2"
    proof (rule Cons.IH [OF s(1), of st1 0])
      show "asm_rel st1 0 o2" using o1(6) by (simp add: o2_def asm_rel_fields)
    qed (use s pos o1(3,7) Cons.prems(6) fuel in auto)
    then obtain o3 where o3: "process_input o2 \<bind> fa_pump fuel' = Some (o3, ps)" "asm_rel st' 1 o3" "fa_in o3 = None"
        "fa_output_mtu o3 = fa_output_mtu o2" "fa_num_chunks o3 = fa_num_chunks o2" by blast
    have "process_input o' = Some (o2, [Fa_Send j (length q)])"
      using Cons.prems(1) pos(1) by (simp add: process_input_def o2_def)
    moreover have "fa_pump fuel (o2, [Fa_Send j (length q)]) = Some (o3, p # ps)"
      using o3(1) o1(3-5) s by (auto simp: fuel fa_output_handler_done_def fa_frame_def bind_Some)
    ultimately show ?thesis using o3 s by auto
  qed simp
qed

lemma length_parse_chunks: "length (parse_chunks d) \<le> length d"
proof (induction d rule: length_induct)
  case (1 d)
  let ?n = "unat (ch_chunk_len (chunk_header_of (seg d 0 sizeof_chunk_header)))"
  have "length (parse_chunks (drop (sizeof_chunk_header + ?n) d)) < length d" if "sizeof_chunk_header \<le> length d"
  proof -
    have "length (drop (sizeof_chunk_header + ?n) d) < length d" using that by (simp add: sizeof_chunk_header_def)
    with 1 [rule_format, OF this] show ?thesis by (rule order.strict_trans1)
  qed
  then show ?case unfolding parse_chunks.simps [of d] Let_def by (simp add: Suc_le_eq)
qed

lemma length_reasm: "reasm mtu k cs st = Some (st', ps) \<Longrightarrow> length ps \<le> length cs"
proof (induction cs arbitrary: st ps)
  case (Cons c cs)
  then show ?case by (fastforce simp: bind_Some split: option.splits)
qed simp

lemma asm_feed_all:
  assumes "fa_in o' = None" "asm_rel st 1 o'" "\<forall>d\<in>set ds. parse_chunks d \<noteq> []"
    and "reasm (fa_output_mtu o') (fa_num_chunks o') (concat (map parse_chunks ds)) st = Some (st', ps)"
  shows "\<exists>o''. fa_feed_all ds o' = Some (o'', ps)"
  using assms
proof (induction ds arbitrary: o' st ps)
  case (Cons d ds)
  obtain st1 ps1 qs where r: "reasm (fa_output_mtu o') (fa_num_chunks o') (parse_chunks d) st = Some (st1, ps1)"
      "reasm (fa_output_mtu o') (fa_num_chunks o') (concat (map parse_chunks ds)) st1 = Some (st', qs)" "ps = ps1 @ qs"
    using Cons.prems(4) by (auto simp: reasm_append bind_Some)
  define o1 where "o1 = o'\<lparr>fa_in := Some d, fa_in_pos := 0\<rparr>"
  have "\<exists>o''. process_input o1 \<bind> fa_pump (length d) = Some (o'', ps1) \<and> asm_rel st1 1 o'' \<and> fa_in o'' = None
      \<and> fa_output_mtu o'' = fa_output_mtu o1 \<and> fa_num_chunks o'' = fa_num_chunks o1"
  proof (rule asm_pump)
    show "asm_rel st 1 o1" using Cons.prems(2) unfolding o1_def asm_rel_fields .
    show "length ps1 \<le> length d" using length_reasm [OF r(1)] length_parse_chunks [of d] by simp
  qed (use r(1) Cons.prems(3) in \<open>auto simp: o1_def\<close>)
  then obtain o2 where o2: "process_input o1 \<bind> fa_pump (length d) = Some (o2, ps1)" "asm_rel st1 1 o2" "fa_in o2 = None"
      "fa_output_mtu o2 = fa_output_mtu o'" "fa_num_chunks o2 = fa_num_chunks o'" by (auto simp: o1_def)
  have "fa_feed d o' = Some (o2, ps1)"
    using o2(1) Cons.prems(1) by (simp add: fa_feed_def fa_input_handler_send_def o1_def)
  then show ?case using Cons.IH [OF o2(3,2)] Cons.prems(3) r(2,3) o2(4,5) by auto
qed simp

end
