(* ===== verification/FragmentLink.thy ===== *)
theory FragmentLink
  imports FragmentRoundtrip
begin

text \<open>
  The disassembler under any input, and the link of a disassembler and an assembler. The chunk limit is
  the one of \<open>client/DatagramPeerIO.c\<close>: none for the disassembler, and
  \<open>fragmentproto_max_chunks_for_frame\<close> for the assembler.
\<close>

section \<open>Encoding\<close>

fun enc :: "u16 \<times> piece \<Rightarrow> byte list" where
  "enc (i, (s, d, l)) = chunk_header_bytes \<lparr>ch_frame_id = i, ch_chunk_start = of_nat s,
     ch_chunk_len = of_nat (length d), ch_is_last = (if l then 1 else 0)\<rparr> @ d"

fun chunk_ok :: "u16 \<times> piece \<Rightarrow> bool" where
  "chunk_ok (i, (s, d, l)) \<longleftrightarrow> s < 65536 \<and> length d < 65536"

definition encs :: "(u16 \<times> piece) list \<Rightarrow> byte list" where
  "encs cs = concat (map enc cs)"

lemma length_chunk_header [simp]: "length (chunk_header_bytes h) = 7"
  by (simp add: chunk_header_bytes_def bytes16_def)

lemma chunk_header_bytes_of [simp]: "chunk_header_of (chunk_header_bytes h) = h"
  by (simp add: chunk_header_bytes_def chunk_header_of_def bytes16_def numeral_eq_Suc)

lemma unat_of_nat16: "n < 65536 \<Longrightarrow> unat (of_nat n :: u16) = n"
  by (simp add: unat_of_nat)

lemma parse_enc: "chunk_ok c \<Longrightarrow> parse_chunks (enc c @ rest) = c # parse_chunks rest"
proof (cases c)
  case (fields i s d l)
  assume "chunk_ok c"
  then have n: "unat (of_nat s :: u16) = s" "unat (of_nat (length d) :: u16) = length d"
    by (simp_all add: fields unat_of_nat16)
  define h where "h = \<lparr>ch_frame_id = i, ch_chunk_start = of_nat s, ch_chunk_len = of_nat (length d),
      ch_is_last = (if l then 1 else 0)\<rparr>"
  define x where "x = enc c @ rest"
  have e: "x = chunk_header_bytes h @ d @ rest" by (simp add: fields h_def x_def)
  have x: "seg x 0 sizeof_chunk_header = chunk_header_bytes h" "seg x sizeof_chunk_header (length d) = d"
    "drop (sizeof_chunk_header + length d) x = rest" "length x = sizeof_chunk_header + length d + length rest"
    unfolding e by (simp_all add: seg_def sizeof_chunk_header_def)
  have "parse_chunks x = c # parse_chunks rest"
    by (subst parse_chunks.simps) (simp add: x Let_def, simp add: h_def n fields x)
  then show ?thesis by (simp add: x_def)
qed

lemma parse_encs: "\<forall>c\<in>set cs. chunk_ok c \<Longrightarrow> parse_chunks (encs cs) = cs"
proof (induction cs)
  case Nil
  then show ?case by (subst parse_chunks.simps) (simp add: encs_def sizeof_chunk_header_def)
next
  case (Cons c cs)
  then show ?case using parse_enc [of c "encs cs"] by (simp add: encs_def)
qed

section \<open>Writing one chunk\<close>

lemma write_at_append:
  "pos \<le> length buf \<Longrightarrow> pos + length xs + length ys \<le> length buf
   \<Longrightarrow> write_at (write_at buf pos xs) (pos + length xs) ys = write_at buf pos (xs @ ys)"
  by (simp add: write_at_def ac_simps)

text \<open>Without a chunk limit the loop has one round: the frame ends or the packet is full.\<close>

lemma write_chunks_loop_once:
  assumes out: "length out = output_mtu" "out_used + 7 < output_mtu" and data: "in_used \<le> length data"
  defines "n \<equiv> min (length data - in_used) (output_mtu - out_used - 7)"
  shows "write_chunks_loop output_mtu None fid data in_used out out_used
      = Some (in_used + n, write_at out out_used (enc (fid, (in_used, seg data in_used n, n = length data - in_used))),
              out_used + 7 + n)"
    and "in_used + n = length data \<or> out_used + 7 + n = output_mtu"
proof -
  let ?h = "\<lparr>ch_frame_id = htol16 fid, ch_chunk_start = htol16 (of_nat in_used),
      ch_chunk_len = htol16 (of_nat n), ch_is_last = (if n = length data - in_used then 1 else 0)\<rparr>"
  let ?hb = "chunk_header_bytes ?h"
  have n: "fd_chunk_len None (length data - in_used) (output_mtu - out_used - sizeof_chunk_header) = n"
    by (simp add: fd_chunk_len_def n_def sizeof_chunk_header_def)
  have len: "length (seg data in_used n) = n" by (simp add: n_def)
  show "in_used + n = length data \<or> out_used + 7 + n = output_mtu" using out data by (auto simp: n_def min_def)
  then have stop: "(in_used + n < length data \<and> out_used + sizeof_chunk_header + n + sizeof_chunk_header < output_mtu) = False"
    by (auto simp: sizeof_chunk_header_def)
  have w1: "memcpy_to out_used ?hb out = Some (write_at out out_used ?hb)"
    using out by (simp add: memcpy_to_def)
  have w2: "memcpy_to (out_used + sizeof_chunk_header) (seg data in_used n) (write_at out out_used ?hb)
      = Some (write_at out out_used (?hb @ seg data in_used n))"
    using out len write_at_append [of out_used out ?hb "seg data in_used n"]
    by (simp add: memcpy_to_def sizeof_chunk_header_def n_def)
  show "write_chunks_loop output_mtu None fid data in_used out out_used
      = Some (in_used + n, write_at out out_used (enc (fid, (in_used, seg data in_used n, n = length data - in_used))),
              out_used + 7 + n)"
    by (subst write_chunks_loop.simps)
       (simp only: Let_def n w1 w2 Option.bind_lunit stop if_False,
        use len in \<open>simp add: sizeof_chunk_header_def\<close>)
qed

section \<open>The disassembler as a system\<close>

text \<open>
  Packets come in, memory for an output packet comes from the receiver, and the timer ends a packet.
  The flow is not cancelled here.
\<close>

record fds =
  fds_fd :: FragmentProtoDisassembler
  fds_ins :: "byte list list"
  fds_outs :: "byte list list"

datatype fds_event = Fds_Input "byte list" | Fds_Recv "byte list" | Fds_Timer

definition fds_enabled :: "nat \<Rightarrow> fds \<Rightarrow> fds_event \<Rightarrow> bool" where
  "fds_enabled input_mtu s e =
     (case e of
        Fds_Input p \<Rightarrow> fd_in (fds_fd s) = None \<and> length p \<le> input_mtu
      | Fds_Recv mem \<Rightarrow> fd_out (fds_fd s) = None \<and> length mem = fd_output_mtu (fds_fd s)
      | Fds_Timer \<Rightarrow> fd_timer (fds_fd s))"

fun fds_acts :: "fd_act list \<Rightarrow> fds \<Rightarrow> fds" where
  "fds_acts [] s = s"
| "fds_acts (Fd_Output_Done d # as) s = fds_acts as (s\<lparr>fds_outs := fds_outs s @ [d]\<rparr>)"
| "fds_acts (_ # as) s = fds_acts as s"

definition fds_step :: "fds_event \<Rightarrow> fds \<Rightarrow> fds option" where
  "fds_step e s =
     (case e of
        Fds_Input p \<Rightarrow> do { (fd, acts) \<leftarrow> fd_input_handler_send p (fds_fd s);
          Some (fds_acts acts (s\<lparr>fds_fd := fd, fds_ins := fds_ins s @ [p]\<rparr>)) }
      | Fds_Recv mem \<Rightarrow> do { (fd, acts) \<leftarrow> fd_output_handler_recv mem (fds_fd s);
          Some (fds_acts acts (s\<lparr>fds_fd := fd\<rparr>)) }
      | Fds_Timer \<Rightarrow> do { (fd, acts) \<leftarrow> fd_timer_handler (fds_fd s);
          Some (fds_acts acts (s\<lparr>fds_fd := fd\<rparr>)) })"

definition fds_init :: "nat \<Rightarrow> nat \<Rightarrow> nat option \<Rightarrow> fds option" where
  "fds_init input_mtu output_mtu latency = do {
     fd \<leftarrow> FragmentProtoDisassembler_Init input_mtu output_mtu None latency;
     Some \<lparr>fds_fd = fd, fds_ins = [], fds_outs = []\<rparr> }"

inductive fds_reachable :: "nat \<Rightarrow> nat \<Rightarrow> nat option \<Rightarrow> fds option \<Rightarrow> bool" for input_mtu output_mtu latency where
  init: "fds_reachable input_mtu output_mtu latency (fds_init input_mtu output_mtu latency)"
| step: "fds_reachable input_mtu output_mtu latency (Some s) \<Longrightarrow> fds_enabled input_mtu s e
    \<Longrightarrow> fds_reachable input_mtu output_mtu latency (fds_step e s)"

section \<open>Its invariant\<close>

text \<open>The chunks of the packet that is being split: after \<open>n\<close> of them, \<open>u\<close> bytes are written.\<close>

definition split_at_ok :: "nat \<Rightarrow> nat \<Rightarrow> nat \<Rightarrow> bool" where
  "split_at_ok c n u \<longleftrightarrow> (if n = 0 then u = 0 else (n - 1) * c < u)"

definition fd_stream ::
  "nat \<Rightarrow> (u16 \<times> piece) list \<Rightarrow> byte list list \<Rightarrow> FragmentProtoDisassembler \<Rightarrow> bool" where
  "fd_stream input_mtu cs ins fd \<longleftrightarrow> (\<forall>c\<in>set cs. chunk_ok c) \<and> (\<exists>b n ps.
     reasm input_mtu (bdivide_up input_mtu (fd_output_mtu fd - 7) + 1) cs (0, [], 0) = Some ((fd_frame_id fd, b, n), ps)
     \<and> (case fd_in fd of
          None \<Rightarrow> b = [] \<and> n = 0 \<and> ins = ps
        | Some p \<Rightarrow> b = take (fd_in_used fd) p \<and> ins = ps @ [p] \<and> length p \<le> input_mtu
            \<and> split_at_ok (fd_output_mtu fd - 7) n (fd_in_used fd)
            \<and> (if n = 0 then True else fd_in_used fd < length p \<and> (fd_out fd \<noteq> None \<longrightarrow> fd_out_used fd = 0))))"

definition fd_cur :: "FragmentProtoDisassembler \<Rightarrow> (u16 \<times> piece) list \<Rightarrow> bool" where
  "fd_cur fd cur \<longleftrightarrow>
     (case fd_out fd of
        None \<Rightarrow> cur = []
      | Some mem \<Rightarrow> length mem = fd_output_mtu fd \<and> take (fd_out_used fd) mem = encs cur
          \<and> fd_out_used fd + 7 < fd_output_mtu fd \<and> (cur = [] \<longleftrightarrow> fd_out_used fd = 0))"

lemma mult_less_bdivide:
  assumes c: "c > 0" and n: "n * c < a"
  shows "n < bdivide_up a c"
proof (cases "a mod c > 0")
  case True
  have "n \<le> a div c" using n c by (simp add: less_eq_div_iff_mult_less_eq)
  then show ?thesis using True by (simp add: bdivide_up_def Let_def)
next
  case False
  then have "n * c < a div c * c" using n by (simp add: mod_eq_0_iff_dvd)
  then show ?thesis using False by (simp add: bdivide_up_def Let_def)
qed

text \<open>Writing a chunk continues the stream.\<close>

lemma stream_chunk:
  assumes c: "c > 0" and split: "split_at_ok c n u" and u: "u \<le> length p" "n > 0 \<Longrightarrow> u < length p"
    and p: "length p \<le> input_mtu" and m: "m = min (length p - u) av" "av > 0" "n > 0 \<Longrightarrow> av = c"
  shows "reasm_chunk input_mtu (bdivide_up input_mtu c + 1) (i, (u, seg p u m, m = length p - u)) (i, take u p, n)
    = (if u + m = length p then Some ((i + 1, [], 0), Some p) else Some ((i, take (u + m) p, Suc n), None))"
    and "u + m < length p \<Longrightarrow> split_at_ok c (Suc n) (u + m)"
proof -
  have data: "take u p @ seg p u m = take (u + m) p" by (simp add: seg_def take_add)
  have full: "m = length p - u \<longleftrightarrow> u + m = length p" using u by auto
  have n: "n < bdivide_up input_mtu c + 1"
  proof (cases "n = 0")
    case False
    then have "(n - 1) * c < input_mtu" using split u p by (simp add: split_at_ok_def)
    then show ?thesis using mult_less_bdivide [OF c, of "n - 1" input_mtu] False by simp
  qed simp
  show s: "split_at_ok c (Suc n) (u + m)" if "u + m < length p"
  proof (cases "n = 0")
    case True
    then show ?thesis using that m(1,2) u by (auto simp: split_at_ok_def min_def split: if_splits)
  next
    case False
    then have "m = c" using m that by (auto simp: min_def split: if_splits)
    then show ?thesis using split False by (cases n) (auto simp: split_at_ok_def)
  qed
  have more: "seg p u m \<noteq> [] \<and> Suc n < bdivide_up input_mtu c + 1" if "u + m < length p"
  proof -
    have "n * c < u + m" using s [OF that] by (simp add: split_at_ok_def)
    then have "n < bdivide_up input_mtu c" using that p mult_less_bdivide [OF c, of n input_mtu] by simp
    moreover have "m > 0" using m that by (auto simp: min_def split: if_splits)
    ultimately show ?thesis using that by (auto simp: seg_def)
  qed
  have "u + m \<le> length p" using u(1) m(1) by simp
  then show "reasm_chunk input_mtu (bdivide_up input_mtu c + 1) (i, (u, seg p u m, m = length p - u)) (i, take u p, n)
    = (if u + m = length p then Some ((i + 1, [], 0), Some p) else Some ((i, take (u + m) p, Suc n), None))"
    using n more u(1) p data unfolding full by (auto simp: min_def)
qed

lemma length_enc [simp]: "length (enc (i, (s, d, l))) = 7 + length d"
  by simp

lemma encs_snoc: "encs (cs @ [c]) = encs cs @ enc c"
  by (simp add: encs_def)

lemma reasm_snoc:
  "reasm mtu k cs st = Some (st1, ps) \<Longrightarrow> reasm_chunk mtu k c st1 = Some (st2, p)
   \<Longrightarrow> reasm mtu k (cs @ [c]) st = Some (st2, ps @ (case p of None \<Rightarrow> [] | Some p \<Rightarrow> [p]))"
  by (simp add: reasm_append)

lemma write_chunks_ok:
  assumes fd: "fd_in fd = Some p" "fd_out fd = Some mem" "fd_chunk_mtu fd = None" "fd_output_mtu fd > 7" "input_mtu \<le> 65535"
    and cur: "fd_cur fd cur" and stream: "fd_stream input_mtu cs ins fd"
  obtains fd' acts c where "write_chunks fd = Some (fd', acts)" "fd_stream input_mtu (cs @ [c]) ins fd'"
    "fd_output_mtu fd' = fd_output_mtu fd" "fd_chunk_mtu fd' = None" "fd_latency fd' = fd_latency fd"
    "if fd_out fd' = None then \<not> fd_timer fd' \<and> (\<forall>s. fds_acts acts s = s\<lparr>fds_outs := fds_outs s @ [encs (cur @ [c])]\<rparr>)
     else fd_in fd' = None \<and> fd_cur fd' (cur @ [c]) \<and> (\<forall>s. fds_acts acts s = s) \<and> fd_latency fd \<noteq> None"
proof -
  define u ou m where "u = fd_in_used fd" and "ou = fd_out_used fd" and "m = fd_output_mtu fd"
  have c: "length mem = m" "take ou mem = encs cur" "ou + 7 < m" "cur = [] \<longleftrightarrow> ou = 0"
    using cur fd(2) by (simp_all add: fd_cur_def ou_def m_def)
  obtain b n ps where st: "reasm input_mtu (bdivide_up input_mtu (m - 7) + 1) cs (0, [], 0) = Some ((fd_frame_id fd, b, n), ps)"
      "b = take u p" "ins = ps @ [p]" "length p \<le> input_mtu" "split_at_ok (m - 7) n u"
      "if n = 0 then True else u < length p \<and> ou = 0" "\<forall>c\<in>set cs. chunk_ok c"
    using stream fd(1,2) unfolding fd_stream_def u_def m_def ou_def by auto
  have u: "u \<le> length p" "n > 0 \<Longrightarrow> u < length p" "n > 0 \<Longrightarrow> m - ou - 7 = m - 7"
    using st(5,6) by (auto simp: split_at_ok_def split: if_splits)
  define k where "k = min (length p - u) (m - ou - 7)"
  define ch where "ch = (fd_frame_id fd, (u, seg p u k, k = length p - u))"
  have loop: "write_chunks_loop m None (fd_frame_id fd) p u mem ou = Some (u + k, write_at mem ou (enc ch), ou + 7 + k)"
      "u + k = length p \<or> ou + 7 + k = m"
    using write_chunks_loop_once(1) [of mem m ou u p "fd_frame_id fd"] write_chunks_loop_once(2) [of mem m ou u p] c(1,3) u(1) by (simp_all add: k_def ch_def)
  have lk: "u + k \<le> length p" "ou + 7 + k \<le> m" using u(1) c(3) by (auto simp: k_def)
  have len: "length (enc ch) = 7 + k" using u(1) by (simp add: ch_def k_def)
  have cok: "chunk_ok ch" using st(4) fd(5) u(1) by (simp add: ch_def k_def)
  have out': "take (ou + 7 + k) (write_at mem ou (enc ch)) = encs (cur @ [ch])"
  proof -
    have "length (encs cur) = ou" using arg_cong [OF c(2), of length] c(1,3) by simp
    then show ?thesis using c(1,2) lk(2) len by (simp add: write_at_def encs_snoc)
  qed
  have len': "length (write_at mem ou (enc ch)) = m" using c(1) lk(2) len by simp
  have pos: "m - 7 > 0" "m - ou - 7 > 0" using c(3) fd(4) by (simp_all add: m_def)
  note chunk = stream_chunk(1) [OF pos(1) st(5) u(1,2) st(4) k_def pos(2) u(3), of "fd_frame_id fd"]
    stream_chunk(2) [OF pos(1) st(5) u(1,2) st(4) k_def pos(2) u(3)]
  have chunk1: "reasm_chunk input_mtu (bdivide_up input_mtu (m - 7) + 1) ch (fd_frame_id fd, b, n)
      = (if u + k = length p then Some ((fd_frame_id fd + 1, [], 0), Some p)
         else Some ((fd_frame_id fd, take (u + k) p, Suc n), None))"
    and chunk2: "u + k < length p \<Longrightarrow> split_at_ok (m - 7) (Suc n) (u + k)"
    using chunk st(2) by (simp_all add: ch_def)
  define fd1 where "fd1 = fd\<lparr>fd_in_used := u + k, fd_out := Some (write_at mem ou (enc ch)), fd_out_used := ou + 7 + k\<rparr>"
  define fd2 where "fd2 = (if u + k = length p then fd1\<lparr>fd_in := None, fd_frame_id := fd_frame_id fd + 1\<rparr> else fd1)"
  define acts where "acts = (if u + k = length p then [Fd_Input_Done] else [])"
  have run: "write_chunks fd =
     (if ou + 7 + k + 7 \<ge> m \<or> fd_latency fd = None
      then Some (fd2\<lparr>fd_out := None, fd_timer := False\<rparr>,
                acts @ (if fd_latency fd \<noteq> None then [Fd_RemoveTimer] else []) @ [Fd_Output_Done (encs (cur @ [ch]))])
      else if \<not> fd_timer fd then Some (fd2\<lparr>fd_timer := True\<rparr>, acts @ [Fd_SetTimer])
      else Some (fd2, acts))"
    using fd(1-3) loop(1) c(3) out'
    by (simp add: write_chunks_def sizeof_chunk_header_def u_def [symmetric] ou_def [symmetric] m_def [symmetric]
        fd1_def fd2_def acts_def Let_def)
  have str: "fd_stream input_mtu (cs @ [ch]) ins fd'"
    if f: "fd_in fd' = fd_in fd2" "fd_frame_id fd' = fd_frame_id fd2" "fd_in_used fd' = u + k"
        "fd_output_mtu fd' = m" "fd_in fd2 \<noteq> None \<Longrightarrow> fd_out fd' = None" for fd'
  proof (cases "u + k = length p")
    case True
    then have "reasm input_mtu (bdivide_up input_mtu (m - 7) + 1) (cs @ [ch]) (0, [], 0)
        = Some ((fd_frame_id fd + 1, [], 0), ps @ [p])"
      using reasm_snoc [OF st(1)] chunk1 by simp
    then show ?thesis using True f(1,2,4) st(3,7) cok by (auto simp: fd_stream_def fd2_def)
  next
    case False
    then have "reasm input_mtu (bdivide_up input_mtu (m - 7) + 1) (cs @ [ch]) (0, [], 0)
        = Some ((fd_frame_id fd, take (u + k) p, Suc n), ps)"
      using reasm_snoc [OF st(1)] chunk1 by simp
    then show ?thesis
      using False f fd(1) st(3,4,7) cok chunk2 lk(1) by (auto simp: fd_stream_def fd2_def fd1_def)
  qed
  have acts: "fds_acts (acts @ as) s = fds_acts as s" for as s by (simp add: acts_def)
  have f2: "fd_in_used fd2 = u + k" "fd_output_mtu fd2 = m" "fd_chunk_mtu fd2 = None" "fd_latency fd2 = fd_latency fd"
      "fd_out fd2 = Some (write_at mem ou (enc ch))" "fd_out_used fd2 = ou + 7 + k" "fd_timer fd2 = fd_timer fd"
    using fd(3) by (simp_all add: fd2_def fd1_def m_def)
  show thesis
  proof (cases "ou + 7 + k + 7 \<ge> m \<or> fd_latency fd = None")
    case True
    show thesis
      by (rule that [of "fd2\<lparr>fd_out := None, fd_timer := False\<rparr>"
            "acts @ (if fd_latency fd \<noteq> None then [Fd_RemoveTimer] else []) @ [Fd_Output_Done (encs (cur @ [ch]))]" ch])
         (use run True f2 str acts in \<open>simp_all add: m_def\<close>)
  next
    case False
    then have "u + k = length p" using loop(2) by auto
    then have idle: "fd_in fd2 = None" by (simp add: fd2_def)
    define fd' where "fd' = fd2\<lparr>fd_timer := True\<rparr>"
    define acts' where "acts' = (if fd_timer fd then acts else acts @ [Fd_SetTimer])"
    have "write_chunks fd = Some (fd', acts')"
      using run False f2(7) by (cases "fd_timer fd") (simp_all add: fd'_def acts'_def)
    moreover have "fd_stream input_mtu (cs @ [ch]) ins fd'" by (rule str) (use f2 idle in \<open>simp_all add: fd'_def\<close>)
    moreover have "fd_cur fd' (cur @ [ch])" using f2 out' len' False by (simp add: fd_cur_def fd'_def)
    moreover have "fds_acts acts' s = s" for s
      using acts [of "[]" s] acts [of "[Fd_SetTimer]" s] by (simp add: acts'_def)
    ultimately show thesis using that [of fd' acts' ch] f2 idle False by (simp add: fd'_def m_def)
  qed
qed

definition fds_inv :: "nat \<Rightarrow> nat \<Rightarrow> fds \<Rightarrow> bool" where
  "fds_inv input_mtu output_mtu s \<longleftrightarrow>
     fd_output_mtu (fds_fd s) = output_mtu \<and> fd_chunk_mtu (fds_fd s) = None
     \<and> (\<exists>prev cur. fds_outs s = map encs prev \<and> (\<forall>cs\<in>set prev. cs \<noteq> []) \<and> fd_cur (fds_fd s) cur
          \<and> fd_stream input_mtu (concat prev @ cur) (fds_ins s) (fds_fd s)
          \<and> (fd_out (fds_fd s) \<noteq> None \<longrightarrow> fd_in (fds_fd s) = None)
          \<and> (fd_timer (fds_fd s) \<longrightarrow> cur \<noteq> [] \<and> fd_latency (fds_fd s) \<noteq> None))"

lemma fds_invI:
  "fd_output_mtu (fds_fd s) = output_mtu \<Longrightarrow> fd_chunk_mtu (fds_fd s) = None \<Longrightarrow> fds_outs s = map encs prev
   \<Longrightarrow> \<forall>cs\<in>set prev. cs \<noteq> [] \<Longrightarrow> fd_cur (fds_fd s) cur \<Longrightarrow> fd_stream input_mtu (concat prev @ cur) (fds_ins s) (fds_fd s)
   \<Longrightarrow> fd_out (fds_fd s) \<noteq> None \<longrightarrow> fd_in (fds_fd s) = None
   \<Longrightarrow> fd_timer (fds_fd s) \<longrightarrow> cur \<noteq> [] \<and> fd_latency (fds_fd s) \<noteq> None \<Longrightarrow> fds_inv input_mtu output_mtu s"
  unfolding fds_inv_def by blast

text \<open>After \<open>write_chunks\<close> the system is in its invariant again.\<close>

lemma fds_write:
  assumes fd: "fd_in fd = Some p" "fd_out fd = Some mem" "fd_chunk_mtu fd = None" "fd_output_mtu fd = output_mtu"
      "7 < output_mtu" "input_mtu \<le> 65535" "fd_timer fd \<longrightarrow> fd_latency fd \<noteq> None"
    and cur: "fd_cur fd cur" and stream: "fd_stream input_mtu (concat prev @ cur) ins fd"
    and s: "fds_outs s = map encs prev" "\<forall>cs\<in>set prev. cs \<noteq> []" "fds_ins s = ins"
  shows "\<exists>fd' acts. write_chunks fd = Some (fd', acts) \<and> fds_inv input_mtu output_mtu (fds_acts acts (s\<lparr>fds_fd := fd'\<rparr>))"
proof -
  have mtu: "7 < fd_output_mtu fd" using fd(4,5) by simp
  obtain fd' acts c where w: "write_chunks fd = Some (fd', acts)" "fd_stream input_mtu ((concat prev @ cur) @ [c]) ins fd'"
    "fd_output_mtu fd' = fd_output_mtu fd" "fd_chunk_mtu fd' = None" "fd_latency fd' = fd_latency fd"
    "if fd_out fd' = None then \<not> fd_timer fd' \<and> (\<forall>s. fds_acts acts s = s\<lparr>fds_outs := fds_outs s @ [encs (cur @ [c])]\<rparr>)
     else fd_in fd' = None \<and> fd_cur fd' (cur @ [c]) \<and> (\<forall>s. fds_acts acts s = s) \<and> fd_latency fd \<noteq> None"
    by (rule write_chunks_ok [OF fd(1-3) mtu fd(6) cur stream])
  show ?thesis
  proof (cases "fd_out fd' = None")
    case True
    have "fds_inv input_mtu output_mtu (s\<lparr>fds_fd := fd', fds_outs := fds_outs s @ [encs (cur @ [c])]\<rparr>)"
      by (rule fds_invI [of _ _ "prev @ [cur @ [c]]" "[]"]) (use True w s fd(4) in \<open>auto simp: fd_cur_def\<close>)
    then show ?thesis using w(1,6) True by simp
  next
    case False
    have "fds_inv input_mtu output_mtu (s\<lparr>fds_fd := fd'\<rparr>)"
      by (rule fds_invI [of _ _ prev "cur @ [c]"]) (use False w s fd(4) in auto)
    then show ?thesis using w(1,6) False by simp
  qed
qed

lemma fds_swap: "s\<lparr>fds_ins := ps, fds_fd := fd\<rparr> = s\<lparr>fds_fd := fd, fds_ins := ps\<rparr>" for s :: fds
  by (cases s) simp

lemma fds_inv_step:
  assumes inv: "fds_inv input_mtu output_mtu s" and en: "fds_enabled input_mtu s e"
    and mtu: "7 < output_mtu" "input_mtu \<le> 65535"
  shows "\<exists>s'. fds_step e s = Some s' \<and> fds_inv input_mtu output_mtu s'"
proof -
  define fd where "fd = fds_fd s"
  obtain prev cur where i: "fd_output_mtu fd = output_mtu" "fd_chunk_mtu fd = None" "fds_outs s = map encs prev"
      "\<forall>cs\<in>set prev. cs \<noteq> []" "fd_cur fd cur" "fd_stream input_mtu (concat prev @ cur) (fds_ins s) fd"
      "fd_out fd \<noteq> None \<longrightarrow> fd_in fd = None" "fd_timer fd \<longrightarrow> cur \<noteq> [] \<and> fd_latency fd \<noteq> None"
    using inv unfolding fds_inv_def fd_def by blast
  show ?thesis
  proof (cases e)
    case (Fds_Input p)
    then have e: "fd_in fd = None" "length p \<le> input_mtu" using en by (simp_all add: fds_enabled_def fd_def)
    define fd1 where "fd1 = fd\<lparr>fd_in := Some p, fd_in_used := 0\<rparr>"
    have st: "fd_stream input_mtu (concat prev @ cur) (fds_ins s @ [p]) fd1"
      using i(6) e by (auto simp: fd_stream_def fd1_def split_at_ok_def)
    have cur1: "fd_cur fd1 cur" using i(5) by (cases "fd_out fd") (simp_all add: fd_cur_def fd1_def)
    show ?thesis
    proof (cases "fd_out fd")
      case None
      have "fds_step e s = Some (s\<lparr>fds_fd := fd1, fds_ins := fds_ins s @ [p]\<rparr>)"
        using e None by (simp add: Fds_Input fds_step_def fd_input_handler_send_def fd1_def fd_def)
      moreover have "fds_inv input_mtu output_mtu (s\<lparr>fds_fd := fd1, fds_ins := fds_ins s @ [p]\<rparr>)"
        by (rule fds_invI [of _ _ prev cur]) (use i st cur1 None in \<open>auto simp: fd1_def\<close>)
      ultimately show ?thesis by blast
    next
      case (Some mem)
      have "\<exists>fd' acts. write_chunks fd1 = Some (fd', acts)
          \<and> fds_inv input_mtu output_mtu (fds_acts acts ((s\<lparr>fds_ins := fds_ins s @ [p]\<rparr>)\<lparr>fds_fd := fd'\<rparr>))"
        by (rule fds_write [OF _ _ _ _ mtu _ cur1 st]) (use i Some in \<open>auto simp: fd1_def\<close>)
      then show ?thesis using e Some
        by (auto simp: Fds_Input fds_step_def fd_input_handler_send_def fd1_def fd_def fds_swap)
    qed
  next
    case (Fds_Recv mem)
    then have e: "fd_out fd = None" "length mem = output_mtu" using en i(1) by (simp_all add: fds_enabled_def fd_def)
    then have c: "cur = []" using i(5) by (simp add: fd_cur_def)
    define fd1 where "fd1 = fd\<lparr>fd_out := Some mem, fd_out_used := 0\<rparr>"
    have st: "fd_stream input_mtu (concat prev @ cur) (fds_ins s) fd1"
      using i(6) by (auto simp: fd_stream_def fd1_def split: option.splits if_splits)
    have cur1: "fd_cur fd1 cur" using e i(1) mtu by (simp add: fd_cur_def fd1_def c encs_def)
    show ?thesis
    proof (cases "fd_in fd")
      case None
      have "fds_step e s = Some (s\<lparr>fds_fd := fd1\<rparr>)"
        using e None by (simp add: Fds_Recv fds_step_def fd_output_handler_recv_def fd1_def fd_def)
      moreover have "fds_inv input_mtu output_mtu (s\<lparr>fds_fd := fd1\<rparr>)"
        by (rule fds_invI [of _ _ prev cur]) (use i st cur1 None in \<open>auto simp: fd1_def\<close>)
      ultimately show ?thesis by blast
    next
      case (Some p)
      have "\<exists>fd' acts. write_chunks fd1 = Some (fd', acts) \<and> fds_inv input_mtu output_mtu (fds_acts acts (s\<lparr>fds_fd := fd'\<rparr>))"
        by (rule fds_write [OF _ _ _ _ mtu _ cur1 st]) (use i Some c in \<open>auto simp: fd1_def\<close>)
      then show ?thesis using e Some
        by (auto simp: Fds_Recv fds_step_def fd_output_handler_recv_def fd1_def fd_def)
    qed
  next
    case Fds_Timer
    then have e: "fd_timer fd" using en by (simp add: fds_enabled_def fd_def)
    then have c: "cur \<noteq> []" "fd_latency fd \<noteq> None" using i(8) by simp_all
    then obtain mem where mem: "fd_out fd = Some mem" "take (fd_out_used fd) mem = encs cur"
      using i(5) by (auto simp: fd_cur_def split: option.splits)
    define fd1 where "fd1 = fd\<lparr>fd_timer := False, fd_out := None\<rparr>"
    have st: "fd_stream input_mtu (concat prev @ cur) (fds_ins s) fd1"
      using i(6) by (auto simp: fd_stream_def fd1_def split: option.splits if_splits)
    have "fds_step e s = Some (s\<lparr>fds_fd := fd1, fds_outs := fds_outs s @ [encs cur]\<rparr>)"
      using e c mem i(7) by (simp add: Fds_Timer fds_step_def fd_timer_handler_def fd1_def fd_def)
    moreover have "fds_inv input_mtu output_mtu (s\<lparr>fds_fd := fd1, fds_outs := fds_outs s @ [encs cur]\<rparr>)"
      by (rule fds_invI [of _ _ "prev @ [cur]" "[]"]) (use i st c in \<open>auto simp: fd1_def fd_cur_def\<close>)
    ultimately show ?thesis by blast
  qed
qed

lemma fds_inv_init:
  assumes "7 < output_mtu" "input_mtu \<le> 65535"
  shows "\<exists>s. fds_init input_mtu output_mtu latency = Some s \<and> fds_inv input_mtu output_mtu s"
proof -
  define s where "s = \<lparr>fds_fd = \<lparr>fd_output_mtu = output_mtu, fd_chunk_mtu = None, fd_latency = latency, fd_in = None,
    fd_in_used = 0, fd_out = None, fd_out_used = 0, fd_frame_id = 0, fd_timer = False\<rparr>, fds_ins = [], fds_outs = []\<rparr>"
  have "fds_inv input_mtu output_mtu s"
    by (rule fds_invI [of _ _ "[]" "[]"]) (auto simp: s_def fd_cur_def fd_stream_def)
  moreover have "fds_init input_mtu output_mtu latency = Some s"
    using assms by (simp add: fds_init_def FragmentProtoDisassembler_Init_def sizeof_chunk_header_def s_def)
  ultimately show ?thesis by blast
qed

lemma fds_reachable_inv:
  assumes "fds_reachable input_mtu output_mtu latency r" "7 < output_mtu" "input_mtu \<le> 65535"
  obtains s prev cur where "r = Some s" "fd_output_mtu (fds_fd s) = output_mtu" "fds_outs s = map encs prev"
      "\<forall>cs\<in>set prev. cs \<noteq> []" "fd_cur (fds_fd s) cur" "fd_stream input_mtu (concat prev @ cur) (fds_ins s) (fds_fd s)"
proof -
  have "\<exists>s. r = Some s \<and> fds_inv input_mtu output_mtu s"
    using assms(1)
  proof induction
    case init
    then show ?case using fds_inv_init assms(2,3) by blast
  next
    case (step s e)
    then show ?case using fds_inv_step [OF _ step(2) assms(2,3)] by auto
  qed
  then show thesis using that unfolding fds_inv_def by blast
qed

section \<open>The link\<close>

lemma assembler_starts:
  assumes "FragmentProtoAssembler_Init (Some ms) mtu num_frames k = Some (Some fa)" "mem_ok mtu num_frames k ms"
  shows "fa_in fa = None" "fa_output_mtu fa = mtu" "fa_num_chunks fa = k" "asm_rel (0, [], 0) 1 fa"
proof -
  have num: "num_frames > 0" "num_frames < unat FPA_MAX_TIME" "k > 0"
    using assms(1) unfolding FragmentProtoAssembler_Init_def by simp_all
  obtain s0 where s0: "fas_init ms mtu num_frames k = Some s0" "fas_inv s0"
    using fas_inv_init [OF assms(2) num] by blast
  then have fa: "fas_fa s0 = fa" using assms(1) by (auto simp: fas_init_def)
  have f: "fa_frames_used fa = []"
    using assms(1) num unfolding FragmentProtoAssembler_Init_def by auto
  show "fa_in fa = None" "fa_output_mtu fa = mtu" "fa_num_chunks fa = k"
    using assms(1) num unfolding FragmentProtoAssembler_Init_def by auto
  have "fa_inv UNIV fa" using s0(2) fa_inv_mono [of _ fa UNIV] fa by (auto simp: fas_inv_def)
  then show "asm_rel (0, [], 0) 1 fa" using f by (simp add: asm_rel_def)
qed

text \<open>
  C38. For a disassembler without a chunk MTU, in runs without cancelled packets: however packets, output memory and
  timer events come, no assertion of the disassembler fails, and an assembler that gets all its output
  packets, in order, and has the chunk limit that \<open>fragmentproto_max_chunks_for_frame\<close> computes
  delivers the packets that went in, unchanged and in order; whenever nothing waits in the disassembler,
  neither a packet nor a started output packet, it has delivered all of them.
\<close>

theorem FragmentProto_roundtrip:
  assumes "fds_reachable input_mtu output_mtu latency r" "7 < output_mtu" "input_mtu \<le> 65535"
    and "fragmentproto_max_chunks_for_frame output_mtu input_mtu = Some k"
    and "FragmentProtoAssembler_Init (Some ms) input_mtu num_frames k = Some (Some fa)"
    and "mem_ok input_mtu num_frames k ms"
  shows "\<exists>s fa' ps qs. r = Some s \<and> fa_feed_all (fds_outs s) fa = Some (fa', ps) \<and> fds_ins s = ps @ qs
    \<and> (fd_in (fds_fd s) = None \<and> (fd_out (fds_fd s) = None \<or> fd_out_used (fds_fd s) = 0) \<longrightarrow> qs = [])"
proof -
  obtain s prev cur where s: "r = Some s" "fd_output_mtu (fds_fd s) = output_mtu" "fds_outs s = map encs prev"
      "\<forall>cs\<in>set prev. cs \<noteq> []" "fd_cur (fds_fd s) cur" "fd_stream input_mtu (concat prev @ cur) (fds_ins s) (fds_fd s)"
    by (rule fds_reachable_inv [OF assms(1-3)])
  have k: "k = bdivide_up input_mtu (output_mtu - 7) + 1"
    using assms(2,4) by (simp add: fragmentproto_max_chunks_for_frame_def sizeof_chunk_header_def)
  obtain b n ps0 where st: "reasm input_mtu k (concat prev @ cur) (0, [], 0) = Some ((fd_frame_id (fds_fd s), b, n), ps0)"
      "\<forall>c\<in>set (concat prev @ cur). chunk_ok c"
      "case fd_in (fds_fd s) of None \<Rightarrow> fds_ins s = ps0 | Some p \<Rightarrow> fds_ins s = ps0 @ [p]"
    using s(2,6) unfolding fd_stream_def k by (auto split: option.splits)
  obtain st1 ps qs where r: "reasm input_mtu k (concat prev) (0, [], 0) = Some (st1, ps)"
      "reasm input_mtu k cur st1 = Some ((fd_frame_id (fds_fd s), b, n), qs)" "ps0 = ps @ qs"
    using st(1) by (auto simp: reasm_append bind_Some)
  note fa = assembler_starts [OF assms(5,6)]
  have parse: "parse_chunks (encs cs) = cs" if "cs \<in> set prev" for cs
    using st(2) that by (intro parse_encs) auto
  then have m: "map parse_chunks (fds_outs s) = prev" unfolding s(3) by (simp add: map_idI)
  have ne: "\<forall>d\<in>set (fds_outs s). parse_chunks d \<noteq> []" using s(4) parse unfolding s(3) by auto
  have "reasm (fa_output_mtu fa) (fa_num_chunks fa) (concat (map parse_chunks (fds_outs s))) (0, [], 0) = Some (st1, ps)"
    using r(1) unfolding m fa(2,3) .
  then obtain fa' where fed: "fa_feed_all (fds_outs s) fa = Some (fa', ps)"
    using asm_feed_all [OF fa(1,4) ne] by blast
  have "qs = []" if "fd_out (fds_fd s) = None \<or> fd_out_used (fds_fd s) = 0"
  proof -
    have "cur = []" using s(5) that by (auto simp: fd_cur_def split: option.splits)
    then show ?thesis using r(2) by simp
  qed
  then show ?thesis using s(1) fed st(3) r(3)
    by (cases "fd_in (fds_fd s)") (auto intro!: exI [of _ s])
qed

text \<open>Runs of given events.\<close>

fun fds_run :: "nat \<Rightarrow> fds_event list \<Rightarrow> fds \<Rightarrow> fds option" where
  "fds_run input_mtu [] s = Some s"
| "fds_run input_mtu (e # es) s = (if fds_enabled input_mtu s e then fds_step e s \<bind> fds_run input_mtu es else None)"

lemma fds_run_reachable:
  "fds_reachable input_mtu output_mtu latency (Some s) \<Longrightarrow> fds_run input_mtu es s = Some s'
   \<Longrightarrow> fds_reachable input_mtu output_mtu latency (Some s')"
proof (induction es arbitrary: s)
  case (Cons e es)
  then obtain s1 where "fds_enabled input_mtu s e" "fds_step e s = Some s1" "fds_run input_mtu es s1 = Some s'"
    by (auto simp: bind_Some split: if_splits)
  then show ?case using Cons.IH [of s1] Cons.prems(1) fds_reachable.step [of input_mtu output_mtu latency s e] by simp
qed simp

definition example_mem :: "((nat \<times> nat) list \<times> byte list) list" where
  "example_mem = [([(0, 0), (0, 0), (0, 0)], [9, 9, 9, 9])]"

definition example_fa :: FragmentProtoAssembler where
  "example_fa = \<lparr>fa_output_mtu = 4, fa_num_chunks = 3, fa_time = 0, fa_time_tolerance = 1,
     fa_frames = [\<lparr>fr_chunks = [(0, 0), (0, 0), (0, 0)], fr_buffer = [9, 9, 9, 9], fr_id = 0, fr_time = 0,
       fr_num_chunks = 0, fr_sum = 0, fr_length = 0, fr_length_so_far = 0\<rparr>],
     fa_frames_free = [0], fa_frames_used = [], fa_frames_used_tree = Map.empty, fa_in = None, fa_in_pos = 0\<rparr>"

lemma example_assembler: "FragmentProtoAssembler_Init (Some example_mem) 4 1 3 = Some (Some example_fa)"
proof -
  have "unat FPA_MAX_TIME = 4294967295"
    by (simp add: FPA_MAX_TIME_def unsigned_minus_1_eq_mask mask_eq_exp_minus_1)
  then show ?thesis by (simp add: FragmentProtoAssembler_Init_def example_fa_def example_mem_def)
qed

definition example_fd :: FragmentProtoDisassembler where
  "example_fd = \<lparr>fd_output_mtu = 9, fd_chunk_mtu = None, fd_latency = None, fd_in = None, fd_in_used = 0,
     fd_out = None, fd_out_used = 0, fd_frame_id = 0, fd_timer = False\<rparr>"

lemma example_disassembler: "FragmentProtoDisassembler_Init 4 9 None None = Some example_fd"
  by (simp add: FragmentProtoDisassembler_Init_def example_fd_def sizeof_chunk_header_def)

text \<open>A packet of four bytes over a link with room for two bytes a packet.\<close>

lemma FragmentProto_roundtrip_witness:
  "\<exists>s fa'. fds_reachable 4 9 None (Some s) \<and> fds_ins s = [[1, 2, 3, 4]] \<and> length (fds_outs s) = 2
     \<and> fa_feed_all (fds_outs s) example_fa = Some (fa', [[1, 2, 3, 4]])"
proof -
  let ?es = "[Fds_Input [1, 2, 3, 4], Fds_Recv (replicate 9 0), Fds_Recv (replicate 9 0)]"
  let ?s0 = "\<lparr>fds_fd = example_fd, fds_ins = [], fds_outs = []\<rparr>"
  have "map_option (\<lambda>s. (fds_ins s, length (fds_outs s), fd_in (fds_fd s), fd_out (fds_fd s))) (fds_run 4 ?es ?s0)
      = Some ([[1, 2, 3, 4]], 2, None, None)"
    by code_simp
  then obtain s where s: "fds_run 4 ?es ?s0 = Some s" "fds_ins s = [[1, 2, 3, 4]]"
      "length (fds_outs s) = 2" "fd_in (fds_fd s) = None" "fd_out (fds_fd s) = None"
    by (auto simp del: fds_run.simps)
  have "fds_init 4 9 None = Some ?s0" by (simp add: fds_init_def example_disassembler)
  then have r: "fds_reachable 4 9 None (Some s)"
    using fds_run_reachable [OF _ s(1)] fds_reachable.init [of 4 9 None] by (simp del: fds_run.simps)
  have k: "fragmentproto_max_chunks_for_frame 9 4 = Some 3" by code_simp
  have m: "mem_ok 4 1 3 example_mem" by (simp add: mem_ok_def example_mem_def)
  obtain fa' where "fa_feed_all (fds_outs s) example_fa = Some (fa', [[1, 2, 3, 4]])"
    using FragmentProto_roundtrip [OF r _ _ k example_assembler m] s(2-5) by auto
  then show ?thesis using r s(2,3) by blast
qed

section \<open>Cancellation\<close>

text \<open>
  A packet of which one chunk is written is cancelled, and another packet is sent. The output packets
  are collected.
\<close>

definition cancelled_run :: "byte list \<Rightarrow> byte list \<Rightarrow> FragmentProtoDisassembler \<Rightarrow> byte list list option" where
  "cancelled_run p q fd = do {
     (fd, _) \<leftarrow> fd_input_handler_send p fd;
     (fd, a1) \<leftarrow> fd_output_handler_recv (replicate 9 0) fd;
     (fd, _) \<leftarrow> fd_input_handler_requestcancel fd;
     (fd, _) \<leftarrow> fd_input_handler_send q fd;
     (fd, a2) \<leftarrow> fd_output_handler_recv (replicate 9 0) fd;
     (fd, a3) \<leftarrow> fd_output_handler_recv (replicate 9 0) fd;
     Some (concat (map (\<lambda>a. case a of Fd_Output_Done d \<Rightarrow> [d] | _ \<Rightarrow> []) (a1 @ a2 @ a3)))
   }"

text \<open>
  A run in which a cancelled packet leaves its frame id to the next packet: a chunk of it has been sent
  and overlaps with those of the next packet, which is lost although every packet arrives; and if the first
  chunk of the next packet is lost, a packet made of both is delivered.
\<close>

lemma FragmentProto_cancel_mixes:
  "\<exists>fd fa d1 d2 d3. FragmentProtoDisassembler_Init 4 9 None None = Some fd
     \<and> FragmentProtoAssembler_Init (Some example_mem) 4 1 3 = Some (Some fa)
     \<and> cancelled_run [1, 2, 3, 4] [5, 6, 7, 8] fd = Some [d1, d2, d3]
     \<and> map_option snd (fa_feed_all [d1, d2, d3] fa) = Some []
     \<and> map_option snd (fa_feed_all [d1, d3] fa) = Some [[1, 2, 7, 8]]"
proof -
  let ?d1 = "[0, 0, 0, 0, 2, 0, 0, 1, 2] :: byte list" and ?d2 = "[0, 0, 0, 0, 2, 0, 0, 5, 6] :: byte list"
  let ?d3 = "[0, 0, 2, 0, 2, 0, 1, 7, 8] :: byte list"
  have "cancelled_run [1, 2, 3, 4] [5, 6, 7, 8] example_fd = Some [?d1, ?d2, ?d3]"
    by code_simp
  moreover have "map_option snd (fa_feed_all [?d1, ?d2, ?d3] example_fa) = Some []"
    by code_simp
  moreover have "map_option snd (fa_feed_all [?d1, ?d3] example_fa) = Some [[1, 2, 7, 8]]"
    by code_simp
  ultimately show ?thesis using example_disassembler example_assembler by blast
qed

text \<open>A frame received in two packets, for the theorem on the assembler.\<close>

fun fas_run :: "fas_event list \<Rightarrow> fas \<Rightarrow> fas option" where
  "fas_run [] s = Some s"
| "fas_run (e # es) s = (if fas_enabled s e then fas_step e s \<bind> fas_run es else None)"

lemma fas_run_reachable:
  "fas_reachable m f k (Some s) \<Longrightarrow> fas_run es s = Some s' \<Longrightarrow> fas_reachable m f k (Some s')"
proof (induction es arbitrary: s)
  case (Cons e es)
  then obtain s1 where "fas_enabled s e" "fas_step e s = Some s1" "fas_run es s1 = Some s'"
    by (auto simp: bind_Some split: if_splits)
  then show ?case using Cons.IH [of s1] Cons.prems(1) fas_reachable.step [of m f k s e] by simp
qed simp

lemma FragmentAssembler_safe_witness:
  "\<exists>s. fas_reachable 4 1 3 (Some s) \<and> fas_out s = [[1, 2, 7, 8]] \<and> assembled (set (fas_log s)) [1, 2, 7, 8]"
proof -
  let ?es = "[Fas_Packet [0, 0, 0, 0, 2, 0, 0, 1, 2], Fas_Packet [0, 0, 2, 0, 2, 0, 1, 7, 8], Fas_Done]"
  let ?s0 = "\<lparr>fas_fa = example_fa, fas_log = [], fas_sending = None, fas_out = []\<rparr>"
  have "map_option fas_out (fas_run ?es ?s0) = Some [[1, 2, 7, 8]]" by code_simp
  then obtain s where s: "fas_run ?es ?s0 = Some s" "fas_out s = [[1, 2, 7, 8]]" by (auto simp del: fas_run.simps)
  have m: "mem_ok 4 1 3 example_mem" by (simp add: mem_ok_def example_mem_def)
  have "fas_init example_mem 4 1 3 = Some ?s0" unfolding fas_init_def example_assembler by simp
  then have r: "fas_reachable 4 1 3 (Some s)"
    using fas_run_reachable [OF _ s(1)] fas_reachable.init [OF m] by (simp del: fas_run.simps)
  have "unat FPA_MAX_TIME = 4294967295"
    by (simp add: FPA_MAX_TIME_def unsigned_minus_1_eq_mask mask_eq_exp_minus_1)
  then show ?thesis using FragmentAssembler_safe [OF r] s(2) r by auto
qed

end
