(* ===== verification/LinkedList3.thy ===== *)
theory LinkedList3
  imports Prelude
begin

text \<open>
  The linked list with iterators of \<open>structure/LinkedList3.h\<close>: nodes on a heap without an object
  for the list itself, and iterators that are linked into the node they stand on, so that a node
  can be freed during an iteration and its iterators jump on. Nodes and iterators live at addresses;
  freeing one leaves its memory as it is, as in the code, so a later use of a stale object is a
  value of the model.

  The second half states what the pointers represent: for a family \<open>L\<close> of pairwise disjoint lists
  and a function \<open>C\<close> giving the iterators that stand on a node, \<open>ll3_wf\<close> says the heap holds exactly
  them, and each operation on the heap is the list operation it is meant to be.
\<close>

section \<open>The heap and the operations\<close>

record LinkedList3Node =
  l3_p :: "nat option"
  l3_n :: "nat option"
  l3_it :: "nat option"

record LinkedList3Iterator =
  it_dir :: int
  it_e :: "nat option"
  it_pi :: "nat option"
  it_ni :: "nat option"

record ll3_heap =
  l3_nodes :: "nat \<rightharpoonup> LinkedList3Node"
  l3_iters :: "nat \<rightharpoonup> LinkedList3Iterator"

definition upd_l3node :: "ll3_heap \<Rightarrow> nat \<Rightarrow> (LinkedList3Node \<Rightarrow> LinkedList3Node) \<Rightarrow> ll3_heap option" where
  "upd_l3node h a f = do { nd \<leftarrow> l3_nodes h a; Some (h\<lparr>l3_nodes := (l3_nodes h)(a \<mapsto> f nd)\<rparr>) }"

definition upd_l3iter ::
  "ll3_heap \<Rightarrow> nat \<Rightarrow> (LinkedList3Iterator \<Rightarrow> LinkedList3Iterator) \<Rightarrow> ll3_heap option" where
  "upd_l3iter h a f = do { r \<leftarrow> l3_iters h a; Some (h\<lparr>l3_iters := (l3_iters h)(a \<mapsto> f r)\<rparr>) }"

definition LinkedList3Node_InitLonely :: "ll3_heap \<Rightarrow> nat \<Rightarrow> ll3_heap" where
  "LinkedList3Node_InitLonely h node =
     h\<lparr>l3_nodes := (l3_nodes h)(node \<mapsto> \<lparr>l3_p = None, l3_n = None, l3_it = None\<rparr>)\<rparr>"

definition LinkedList3Node_InitAfter :: "ll3_heap \<Rightarrow> nat \<Rightarrow> nat \<Rightarrow> ll3_heap option" where
  "LinkedList3Node_InitAfter h node ref = do {
     r \<leftarrow> l3_nodes h ref;
     h \<leftarrow> Some (h\<lparr>l3_nodes :=
            (l3_nodes h)(node \<mapsto> \<lparr>l3_p = Some ref, l3_n = l3_n r, l3_it = None\<rparr>)\<rparr>);
     h \<leftarrow> upd_l3node h ref (\<lambda>x. x\<lparr>l3_n := Some node\<rparr>);
     (case l3_n r of
        None \<Rightarrow> Some h
      | Some m \<Rightarrow> upd_l3node h m (\<lambda>x. x\<lparr>l3_p := Some node\<rparr>)) }"

definition LinkedList3Node_InitBefore :: "ll3_heap \<Rightarrow> nat \<Rightarrow> nat \<Rightarrow> ll3_heap option" where
  "LinkedList3Node_InitBefore h node ref = do {
     r \<leftarrow> l3_nodes h ref;
     h \<leftarrow> Some (h\<lparr>l3_nodes :=
            (l3_nodes h)(node \<mapsto> \<lparr>l3_p = l3_p r, l3_n = Some ref, l3_it = None\<rparr>)\<rparr>);
     h \<leftarrow> upd_l3node h ref (\<lambda>x. x\<lparr>l3_p := Some node\<rparr>);
     (case l3_p r of
        None \<Rightarrow> Some h
      | Some m \<Rightarrow> upd_l3node h m (\<lambda>x. x\<lparr>l3_n := Some node\<rparr>)) }"

definition LinkedList3Node_IsLonely :: "ll3_heap \<Rightarrow> nat \<Rightarrow> bool option" where
  "LinkedList3Node_IsLonely h node = do {
     nd \<leftarrow> l3_nodes h node; Some (l3_p nd = None \<and> l3_n nd = None) }"

definition LinkedList3Node_NextOrPrev :: "ll3_heap \<Rightarrow> nat \<Rightarrow> nat option option" where
  "LinkedList3Node_NextOrPrev h node = do {
     nd \<leftarrow> l3_nodes h node;
     Some (case l3_n nd of Some m \<Rightarrow> Some m | None \<Rightarrow> l3_p nd) }"

partial_function (option) LinkedList3Node_First :: "ll3_heap \<Rightarrow> nat \<Rightarrow> nat option" where
  "LinkedList3Node_First h node =
     Option.bind (l3_nodes h node) (\<lambda>nd.
       case l3_p nd of None \<Rightarrow> Some node | Some m \<Rightarrow> LinkedList3Node_First h m)"

definition LinkedList3Iterator_Init ::
  "ll3_heap \<Rightarrow> nat \<Rightarrow> nat option \<Rightarrow> int \<Rightarrow> ll3_heap option" where
  "LinkedList3Iterator_Init h it e dir = do {
     assert_that (dir = -1 \<or> dir = 1);
     let r = (case l3_iters h it of Some r \<Rightarrow> r
              | None \<Rightarrow> \<lparr>it_dir = 0, it_e = None, it_pi = None, it_ni = None\<rparr>);
         r = r\<lparr>it_dir := dir, it_e := e\<rparr> in
     (case e of
        None \<Rightarrow> Some (h\<lparr>l3_iters := (l3_iters h)(it \<mapsto> r)\<rparr>)
      | Some x \<Rightarrow> do {
          nd \<leftarrow> l3_nodes h x;
          h \<leftarrow> Some (h\<lparr>l3_iters := (l3_iters h)(it \<mapsto> r\<lparr>it_pi := None, it_ni := l3_it nd\<rparr>)\<rparr>);
          h \<leftarrow> (case l3_it nd of None \<Rightarrow> Some h
                | Some w \<Rightarrow> upd_l3iter h w (\<lambda>r. r\<lparr>it_pi := Some it\<rparr>));
          upd_l3node h x (\<lambda>nd. nd\<lparr>l3_it := Some it\<rparr>) }) }"

definition LinkedList3Iterator_Free :: "ll3_heap \<Rightarrow> nat \<Rightarrow> ll3_heap option" where
  "LinkedList3Iterator_Free h it = do {
     r \<leftarrow> l3_iters h it;
     (case it_e r of
        None \<Rightarrow> Some h
      | Some e \<Rightarrow> do {
          h \<leftarrow> (case it_ni r of None \<Rightarrow> Some h
                | Some w \<Rightarrow> upd_l3iter h w (\<lambda>x. x\<lparr>it_pi := it_pi r\<rparr>));
          (case it_pi r of
             Some w \<Rightarrow> upd_l3iter h w (\<lambda>x. x\<lparr>it_ni := it_ni r\<rparr>)
           | None \<Rightarrow> upd_l3node h e (\<lambda>x. x\<lparr>l3_it := it_ni r\<rparr>)) }) }"

definition LinkedList3Iterator_Next :: "ll3_heap \<Rightarrow> nat \<Rightarrow> (nat option \<times> ll3_heap) option" where
  "LinkedList3Iterator_Next h it = do {
     r \<leftarrow> l3_iters h it;
     (case it_e r of
        None \<Rightarrow> Some (None, h)
      | Some e \<Rightarrow> do {
          nd \<leftarrow> l3_nodes h e;
          assert_that (it_dir r = 1 \<or> it_dir r = -1);
          let nextp = (if it_dir r = 1 then l3_n nd else l3_p nd) in do {
            h \<leftarrow> LinkedList3Iterator_Free h it;
            h \<leftarrow> LinkedList3Iterator_Init h it nextp (it_dir r);
            Some (Some e, h) } }) }"

text \<open>The loop \<open>while (node->it) LinkedList3Iterator_Next(node->it)\<close> of \<open>LinkedList3Node_Free\<close>.\<close>

partial_function (option) jump_iterators :: "ll3_heap \<Rightarrow> nat \<Rightarrow> ll3_heap option" where
  "jump_iterators h node =
     Option.bind (l3_nodes h node) (\<lambda>nd.
       case l3_it nd of
         None \<Rightarrow> Some h
       | Some it \<Rightarrow> Option.bind (LinkedList3Iterator_Next h it) (\<lambda>p. jump_iterators (snd p) node))"

definition LinkedList3Node_Free :: "ll3_heap \<Rightarrow> nat \<Rightarrow> ll3_heap option" where
  "LinkedList3Node_Free h node = do {
     h \<leftarrow> jump_iterators h node;
     nd \<leftarrow> l3_nodes h node;
     h \<leftarrow> (case l3_p nd of None \<Rightarrow> Some h
           | Some m \<Rightarrow> upd_l3node h m (\<lambda>x. x\<lparr>l3_n := l3_n nd\<rparr>));
     (case l3_n nd of None \<Rightarrow> Some h
      | Some m \<Rightarrow> upd_l3node h m (\<lambda>x. x\<lparr>l3_p := l3_p nd\<rparr>)) }"

section \<open>What the pointers represent\<close>

fun first_opt :: "'a list \<Rightarrow> 'a option" where
  "first_opt [] = None"
| "first_opt (x # xs) = Some x"

fun or_opt :: "'a option \<Rightarrow> 'a option \<Rightarrow> 'a option" where
  "or_opt (Some x) y = Some x"
| "or_opt None y = y"

text \<open>\<open>dlist lk p xs n\<close>: the links \<open>lk\<close> (previous, next) connect \<open>xs\<close>, with \<open>p\<close> before and \<open>n\<close> after.\<close>

fun dlist :: "(nat \<rightharpoonup> nat option \<times> nat option) \<Rightarrow> nat option \<Rightarrow> nat list \<Rightarrow> nat option \<Rightarrow> bool" where
  "dlist lk p [] n = True"
| "dlist lk p (x # xs) n = (lk x = Some (p, or_opt (first_opt xs) n) \<and> dlist lk (Some x) xs n)"

definition nlinks :: "ll3_heap \<Rightarrow> nat \<rightharpoonup> nat option \<times> nat option" where
  "nlinks h x = map_option (\<lambda>nd. (l3_p nd, l3_n nd)) (l3_nodes h x)"

definition nits :: "ll3_heap \<Rightarrow> nat \<rightharpoonup> nat option" where
  "nits h x = map_option l3_it (l3_nodes h x)"

definition ilinks :: "ll3_heap \<Rightarrow> nat \<rightharpoonup> nat option \<times> nat option" where
  "ilinks h w = map_option (\<lambda>r. (it_pi r, it_ni r)) (l3_iters h w)"

definition l3_live :: "('k \<Rightarrow> nat list) \<Rightarrow> nat set" where
  "l3_live L = (\<Union>k. set (L k))"

definition l3_sits :: "ll3_heap \<Rightarrow> nat \<Rightarrow> nat \<Rightarrow> bool" where
  "l3_sits h x w \<longleftrightarrow>
     (\<exists>r. l3_iters h w = Some r \<and> it_e r = Some x \<and> (it_dir r = 1 \<or> it_dir r = -1))"

definition l3_lists_ok :: "ll3_heap \<Rightarrow> ('k \<Rightarrow> nat list) \<Rightarrow> bool" where
  "l3_lists_ok h L \<longleftrightarrow>
     (\<forall>k. distinct (L k) \<and> dlist (nlinks h) None (L k) None) \<and>
     (\<forall>k k'. k \<noteq> k' \<longrightarrow> set (L k) \<inter> set (L k') = {})"

definition l3_iters_ok :: "ll3_heap \<Rightarrow> nat set \<Rightarrow> (nat \<Rightarrow> nat list) \<Rightarrow> bool" where
  "l3_iters_ok h V C \<longleftrightarrow>
     (\<forall>x\<in>V. nits h x = Some (first_opt (C x)) \<and> distinct (C x) \<and>
             dlist (ilinks h) None (C x) None) \<and>
     (\<forall>x w. w \<in> set (C x) \<longrightarrow> x \<in> V \<and> l3_sits h x w)"

definition ll3_wf :: "ll3_heap \<Rightarrow> ('k \<Rightarrow> nat list) \<Rightarrow> (nat \<Rightarrow> nat list) \<Rightarrow> bool" where
  "ll3_wf h L C \<longleftrightarrow> l3_lists_ok h L \<and> l3_iters_ok h (l3_live L) C"

lemma or_opt_None [simp]: "or_opt x None = x"
  by (cases x) simp_all

lemma dlist_append:
  "dlist lk p (xs @ ys) n \<longleftrightarrow>
     dlist lk p xs (or_opt (first_opt ys) n) \<and> dlist lk (or_opt (first_opt (rev xs)) p) ys n"
proof (induction xs arbitrary: p)
  case (Cons x xs)
  have "or_opt (first_opt (xs @ ys)) n = or_opt (first_opt xs) (or_opt (first_opt ys) n)"
    by (cases xs; cases ys) simp_all
  moreover have "or_opt (first_opt (rev xs @ [x])) p = or_opt (first_opt (rev xs)) (Some x)"
    by (cases "rev xs") simp_all
  ultimately show ?case using Cons.IH [of "Some x"] by simp
qed simp

lemma dlist_cong:
  "(\<And>x. x \<in> set xs \<Longrightarrow> lk x = lk' x) \<Longrightarrow> dlist lk p xs n \<longleftrightarrow> dlist lk' p xs n"
  by (induction xs arbitrary: p) simp_all

lemma dlist_upd_other [simp]:
  "a \<notin> set xs \<Longrightarrow> dlist (lk(a := v)) p xs n \<longleftrightarrow> dlist lk p xs n"
  by (rule dlist_cong) auto

lemma dlist_member:
  "dlist lk p xs n \<Longrightarrow> x \<in> set xs \<Longrightarrow> \<exists>q m. lk x = Some (q, m)"
  by (induction xs arbitrary: p) auto

lemma dlist_middle:
  "dlist lk None (xs @ x # ys) None \<longleftrightarrow>
     dlist lk None xs (Some x) \<and> lk x = Some (first_opt (rev xs), first_opt ys) \<and> dlist lk (Some x) ys None"
  by (simp add: dlist_append)

lemma dlist_set_next:
  "dlist lk p xs n \<Longrightarrow> distinct xs \<Longrightarrow> xs \<noteq> [] \<Longrightarrow>
   \<exists>q. lk (last xs) = Some (q, n) \<and> dlist (lk(last xs \<mapsto> (q, n'))) p xs n'"
proof (induction xs arbitrary: p)
  case (Cons x xs)
  show ?case
  proof (cases "xs = []")
    case False
    then obtain q where q: "lk (last xs) = Some (q, n)" "dlist (lk(last xs \<mapsto> (q, n'))) (Some x) xs n'"
      using Cons.IH [of "Some x"] Cons.prems by (auto simp del: fun_upd_apply)
    have "last xs \<noteq> x" using Cons.prems(2) False by auto
    moreover have "or_opt (first_opt xs) n = or_opt (first_opt xs) n'" using False by (cases xs) simp_all
    ultimately show ?thesis
      using q False Cons.prems(1) by (auto simp del: fun_upd_apply simp: fun_upd_other)
  qed (use Cons in auto)
qed simp

lemma dlist_set_prev:
  "dlist lk p (x # xs) n \<Longrightarrow> distinct (x # xs) \<Longrightarrow>
   dlist (lk(x \<mapsto> (p', or_opt (first_opt xs) n))) p' (x # xs) n"
  by simp

lemma first_opt_rev: "xs \<noteq> [] \<Longrightarrow> first_opt (rev xs) = Some (last xs)"
  by (cases xs rule: rev_cases) simp_all

lemma first_opt_Some: "first_opt xs = Some x \<Longrightarrow> x \<in> set xs"
  by (cases xs) auto

lemma first_opt_eq_None [simp]: "first_opt xs = None \<longleftrightarrow> xs = []"
  by (cases xs) auto

text \<open>Inserting and removing in the middle of a linked list, on the links alone.\<close>

definition set_next :: "('a \<rightharpoonup> 'a option \<times> 'a option) \<Rightarrow> 'a option \<Rightarrow> 'a option \<Rightarrow> 'a \<rightharpoonup> 'a option \<times> 'a option" where
  "set_next lk a v = (case a of None \<Rightarrow> lk | Some x \<Rightarrow> lk(x := map_option (\<lambda>q. (fst q, v)) (lk x)))"

definition set_prev :: "('a \<rightharpoonup> 'a option \<times> 'a option) \<Rightarrow> 'a option \<Rightarrow> 'a option \<Rightarrow> 'a \<rightharpoonup> 'a option \<times> 'a option" where
  "set_prev lk a v = (case a of None \<Rightarrow> lk | Some x \<Rightarrow> lk(x := map_option (\<lambda>q. (v, snd q)) (lk x)))"

lemma dlist_set_next_last:
  assumes "dlist lk p xs n" "distinct xs"
  shows "dlist (set_next lk (first_opt (rev xs)) n') p xs n'"
proof (cases "xs = []")
  case False
  then show ?thesis
    using dlist_set_next [OF assms False, of n'] by (auto simp: set_next_def first_opt_rev)
qed simp

lemma dlist_set_prev_hd:
  "dlist lk p ys n \<Longrightarrow> distinct ys \<Longrightarrow> dlist (set_prev lk (first_opt ys) p') p' ys n"
  by (cases ys) (simp_all add: set_prev_def)

lemma dlist_set_next_other:
  "(\<And>a. b = Some a \<Longrightarrow> a \<notin> set xs) \<Longrightarrow> dlist (set_next lk b v) p xs n \<longleftrightarrow> dlist lk p xs n"
  by (cases b) (simp_all add: set_next_def)

lemma dlist_set_prev_other:
  "(\<And>a. b = Some a \<Longrightarrow> a \<notin> set xs) \<Longrightarrow> dlist (set_prev lk b v) p xs n \<longleftrightarrow> dlist lk p xs n"
  by (cases b) (simp_all add: set_prev_def)

lemma dlist_unlink:
  assumes "dlist lk None (xs @ x # ys) None" "distinct (xs @ x # ys)"
  shows "dlist (set_prev (set_next lk (first_opt (rev xs)) (first_opt ys)) (first_opt ys) (first_opt (rev xs)))
           None (xs @ ys) None"
proof -
  let ?lk = "set_next lk (first_opt (rev xs)) (first_opt ys)"
  have d: "dlist lk None xs (Some x)" "dlist lk (Some x) ys None" "distinct xs" "distinct ys"
    "set xs \<inter> set ys = {}"
    using assms by (auto simp: dlist_middle)
  have l: "a \<notin> set ys" if "first_opt (rev xs) = Some a" for a
    using first_opt_Some [OF that] d(5) by auto
  have h: "a \<notin> set xs" if "first_opt ys = Some a" for a
    using first_opt_Some [OF that] d(5) by auto
  have "dlist ?lk None xs (first_opt ys)" by (rule dlist_set_next_last [OF d(1,3)])
  moreover have "dlist ?lk (Some x) ys None" using d(2) dlist_set_next_other [OF l] by blast
  ultimately have "dlist (set_prev ?lk (first_opt ys) (first_opt (rev xs))) None xs (first_opt ys)"
    "dlist (set_prev ?lk (first_opt ys) (first_opt (rev xs))) (first_opt (rev xs)) ys None"
    using dlist_set_prev_other [OF h] dlist_set_prev_hd [OF _ d(4)] by blast+
  then show ?thesis by (simp add: dlist_append)
qed

lemma dlist_link_after:
  assumes "dlist lk None (xs @ x # ys) None" "distinct (xs @ x # ys)" "a \<notin> set (xs @ x # ys)"
  shows "dlist (set_prev (set_next (lk(a \<mapsto> (Some x, first_opt ys))) (Some x) (Some a)) (first_opt ys) (Some a))
           None (xs @ x # a # ys) None"
proof -
  let ?l1 = "lk(a \<mapsto> (Some x, first_opt ys))"
  let ?l2 = "set_next ?l1 (Some x) (Some a)"
  have d: "dlist lk None (xs @ [x]) (first_opt ys)" "dlist lk (Some x) ys None" "distinct (xs @ [x])"
    "distinct ys" "set (xs @ [x]) \<inter> set ys = {}"
    using assms by (auto simp: dlist_middle dlist_append)
  have h: "b \<notin> set (xs @ [x, a])" if "first_opt ys = Some b" for b
    using first_opt_Some [OF that] d(5) assms(3) by auto
  have 1: "dlist ?l1 None (xs @ [x]) (first_opt ys)" using d(1) assms(3) by simp
  have 2: "dlist ?l2 None (xs @ [x]) (Some a)"
    using dlist_set_next_last [OF 1 d(3), of "Some a"] by simp
  have 3: "?l2 a = Some (Some x, first_opt ys)" using assms(3) by (auto simp: set_next_def)
  have 4: "dlist ?l2 (Some x) ys None"
    using d(2,5) assms(3) dlist_set_next_other [of "Some x" ys] by simp
  have "dlist ?l2 None (xs @ [x, a]) (first_opt ys)"
    using 2 3 dlist_append [of ?l2 None "xs @ [x]" "[a]" "first_opt ys"] by simp
  then have "dlist (set_prev ?l2 (first_opt ys) (Some a)) None (xs @ [x, a]) (first_opt ys)"
    using dlist_set_prev_other [OF h] by blast
  moreover have "dlist (set_prev ?l2 (first_opt ys) (Some a)) (Some a) ys None"
    by (rule dlist_set_prev_hd [OF 4 d(4)])
  ultimately show ?thesis
    using dlist_append [of _ None "xs @ [x, a]" ys None] by simp
qed


section \<open>The heap operations are the list operations\<close>

lemma nlinks_upd [simp]:
  "l3_nodes h a = Some nd \<Longrightarrow>
     nlinks (h\<lparr>l3_nodes := (l3_nodes h)(a \<mapsto> nd\<lparr>l3_n := v\<rparr>)\<rparr>) = set_next (nlinks h) (Some a) v"
  "l3_nodes h a = Some nd \<Longrightarrow>
     nlinks (h\<lparr>l3_nodes := (l3_nodes h)(a \<mapsto> nd\<lparr>l3_p := v\<rparr>)\<rparr>) = set_prev (nlinks h) (Some a) v"
  "l3_nodes h a = Some nd \<Longrightarrow>
     nlinks (h\<lparr>l3_nodes := (l3_nodes h)(a \<mapsto> nd\<lparr>l3_it := u\<rparr>)\<rparr>) = nlinks h"
  "nlinks (h\<lparr>l3_nodes := (l3_nodes h)(a \<mapsto> nd)\<rparr>) = (nlinks h)(a \<mapsto> (l3_p nd, l3_n nd))"
  "nlinks (h\<lparr>l3_iters := J\<rparr>) = nlinks h"
  by (auto simp: nlinks_def set_next_def set_prev_def fun_eq_iff)

lemma nits_upd [simp]:
  "l3_nodes h a = Some nd \<Longrightarrow> nits (h\<lparr>l3_nodes := (l3_nodes h)(a \<mapsto> nd\<lparr>l3_n := v\<rparr>)\<rparr>) = nits h"
  "l3_nodes h a = Some nd \<Longrightarrow> nits (h\<lparr>l3_nodes := (l3_nodes h)(a \<mapsto> nd\<lparr>l3_p := v\<rparr>)\<rparr>) = nits h"
  "nits (h\<lparr>l3_nodes := (l3_nodes h)(a \<mapsto> nd)\<rparr>) = (nits h)(a \<mapsto> l3_it nd)"
  "nits (h\<lparr>l3_iters := J\<rparr>) = nits h"
  by (auto simp: nits_def fun_eq_iff)

lemma ilinks_nodes [simp]: "ilinks (h\<lparr>l3_nodes := N\<rparr>) = ilinks h"
  by (simp add: ilinks_def fun_eq_iff)

lemma l3_sits_nodes [simp]: "l3_sits (h\<lparr>l3_nodes := N\<rparr>) x w = l3_sits h x w"
  by (simp add: l3_sits_def)

lemma upd_next_opt:
  "(\<And>x. a = Some x \<Longrightarrow> x \<in> dom (nlinks h)) \<Longrightarrow>
   \<exists>h'. (case a of None \<Rightarrow> Some h | Some m \<Rightarrow> upd_l3node h m (\<lambda>x. x\<lparr>l3_n := v\<rparr>)) = Some h' \<and>
     nlinks h' = set_next (nlinks h) a v \<and> nits h' = nits h \<and> l3_iters h' = l3_iters h"
  by (cases a) (auto simp: upd_l3node_def set_next_def nlinks_def nits_def fun_eq_iff)

lemma upd_prev_opt:
  "(\<And>x. a = Some x \<Longrightarrow> x \<in> dom (nlinks h)) \<Longrightarrow>
   \<exists>h'. (case a of None \<Rightarrow> Some h | Some m \<Rightarrow> upd_l3node h m (\<lambda>x. x\<lparr>l3_p := v\<rparr>)) = Some h' \<and>
     nlinks h' = set_prev (nlinks h) a v \<and> nits h' = nits h \<and> l3_iters h' = l3_iters h"
  by (cases a) (auto simp: upd_l3node_def set_prev_def nlinks_def nits_def fun_eq_iff)

lemma ilinks_eq: "l3_iters h' = l3_iters h \<Longrightarrow> ilinks h' = ilinks h"
  by (simp add: ilinks_def fun_eq_iff)

lemma l3_sits_eq: "l3_iters h' = l3_iters h \<Longrightarrow> l3_sits h' x w = l3_sits h x w"
  by (simp add: l3_sits_def)

lemma dom_set_links [simp]: "dom (set_next lk a v) = dom lk" "dom (set_prev lk a v) = dom lk"
  by (auto simp: set_next_def set_prev_def dom_def split: option.splits)

lemma ll3_wf_list:
  assumes "ll3_wf h L C"
  shows "distinct (L k)" "dlist (nlinks h) None (L k) None"
    "k \<noteq> k' \<Longrightarrow> set (L k) \<inter> set (L k') = {}"
  using assms by (auto simp: ll3_wf_def l3_lists_ok_def)

lemma ll3_wf_live: "ll3_wf h L C \<Longrightarrow> x \<in> l3_live L \<Longrightarrow> x \<in> dom (nlinks h)"
  using dlist_member by (fastforce simp: ll3_wf_def l3_lists_ok_def l3_live_def)

lemma ll3_wf_sits: "ll3_wf h L C \<Longrightarrow> w \<in> set (C x) \<Longrightarrow> x \<in> l3_live L \<and> l3_sits h x w"
  by (auto simp: ll3_wf_def l3_iters_ok_def)

lemma l3_sits_unique: "l3_sits h x w \<Longrightarrow> l3_sits h y w \<Longrightarrow> x = y"
  by (auto simp: l3_sits_def)

lemma ll3_wf_links:
  assumes "ll3_wf h L C" "L k = xs @ x # ys"
  shows "nlinks h x = Some (first_opt (rev xs), first_opt ys)"
  using ll3_wf_list(2) [OF assms(1), of k] assms(2) by (simp add: dlist_middle)

lemma l3_node_of_links:
  "nlinks h x = Some (p, n) \<Longrightarrow> nits h x = Some i \<Longrightarrow> l3_nodes h x = Some \<lparr>l3_p = p, l3_n = n, l3_it = i\<rparr>"
  by (auto simp: nlinks_def nits_def)

lemma ll3_wf_nits: "ll3_wf h L C \<Longrightarrow> x \<in> l3_live L \<Longrightarrow> nits h x = Some (first_opt (C x))"
  by (auto simp: ll3_wf_def l3_iters_ok_def)

lemma l3_live_iff: "x \<in> l3_live L \<longleftrightarrow> (\<exists>k. x \<in> set (L k))"
  by (simp add: l3_live_def)

lemma l3_live_member: "x \<in> set (L k) \<Longrightarrow> x \<in> l3_live L"
  by (auto simp: l3_live_def)

lemma l3_live_upd: "l3_live (L(k := zs)) = set zs \<union> (\<Union>k'\<in>-{k}. set (L k'))"
  by (rule set_eqI) (auto simp: l3_live_iff)

lemma l3_live_split: "l3_live L = set (L k) \<union> (\<Union>k'\<in>-{k}. set (L k'))"
  using l3_live_upd [of L k "L k"] by simp

lemma l3_live_insert:
  "L k = xs @ ys \<Longrightarrow> l3_live (L(k := xs @ a # ys)) = insert a (l3_live L)"
  unfolding l3_live_upd l3_live_split [of L k] by auto

lemma l3_live_delete:
  assumes "ll3_wf h L C" "L k = xs @ x # ys"
  shows "l3_live (L(k := xs @ ys)) = l3_live L - {x}"
proof -
  have "x \<notin> set (xs @ ys)" using ll3_wf_list(1) [OF assms(1), of k] assms(2) by auto
  moreover have "x \<notin> set (L k')" if "k' \<noteq> k" for k'
    using ll3_wf_list(3) [OF assms(1) that] assms(2) by auto
  ultimately show ?thesis unfolding l3_live_upd l3_live_split [of L k] using assms(2) by auto
qed

text \<open>Rebuilding the invariant after an operation that changed one list.\<close>

lemma l3_lists_ok_upd:
  assumes ok: "l3_lists_ok h L"
    and zs: "distinct zs" "dlist (nlinks h') None zs None"
    and fresh: "set zs \<subseteq> set (L k) \<union> A" "A \<inter> l3_live L = {}"
    and other: "\<And>k' x. k' \<noteq> k \<Longrightarrow> x \<in> set (L k') \<Longrightarrow> nlinks h' x = nlinks h x"
  shows "l3_lists_ok h' (L(k := zs))"
proof -
  have d: "dlist (nlinks h') None (L k') None" if "k' \<noteq> k" for k'
    using ok dlist_cong [of "L k'" "nlinks h'" "nlinks h", OF other [OF that]]
    by (auto simp: l3_lists_ok_def)
  have "set zs \<inter> set (L k') = {}" if "k' \<noteq> k" for k'
    using ok fresh that unfolding l3_lists_ok_def l3_live_def by blast
  then show ?thesis using ok zs d by (auto simp: l3_lists_ok_def)
qed

lemma l3_iters_ok_add:
  assumes "l3_iters_ok h V C" "l3_iters h' = l3_iters h" "node \<notin> V"
    "nits h' = (nits h)(node \<mapsto> None)"
  shows "l3_iters_ok h' (insert node V) C"
proof -
  have "\<forall>w. w \<notin> set (C node)" using assms(1,3) unfolding l3_iters_ok_def by blast
  then have "C node = []" by simp
  moreover have "nits h' x = nits h x" if "x \<in> V" for x using assms(3,4) that by auto
  ultimately show ?thesis
    using assms(1) unfolding l3_iters_ok_def ilinks_eq [OF assms(2)] l3_sits_eq [OF assms(2)]
    by (simp add: assms(4))
qed

lemma InitLonely_list:
  assumes wf: "ll3_wf h L C" and new: "node \<notin> l3_live L" and k: "L k = []"
  shows "ll3_wf (LinkedList3Node_InitLonely h node) (L(k := [node])) C"
proof -
  let ?h = "LinkedList3Node_InitLonely h node"
  have links: "nlinks ?h = (nlinks h)(node \<mapsto> (None, None))"
    "nits ?h = (nits h)(node \<mapsto> None)" "l3_iters ?h = l3_iters h"
    by (simp_all add: LinkedList3Node_InitLonely_def)
  have "l3_lists_ok ?h (L(k := [node]))"
    by (rule l3_lists_ok_upd [where A = "{node}" and h = h])
       (use wf new k links in \<open>auto simp: ll3_wf_def l3_live_iff\<close>)
  moreover have "l3_live (L(k := [node])) = insert node (l3_live L)"
    using l3_live_insert [of L k "[]" "[]" node] k by simp
  moreover have "l3_iters_ok ?h (insert node (l3_live L)) C"
    by (rule l3_iters_ok_add [OF _ links(3) new links(2)]) (use wf in \<open>simp add: ll3_wf_def\<close>)
  ultimately show ?thesis by (simp add: ll3_wf_def)
qed

lemma InitAfter_list:
  assumes wf: "ll3_wf h L C" and new: "node \<notin> l3_live L" and k: "L k = xs @ ref # ys"
  shows "\<exists>h'. LinkedList3Node_InitAfter h node ref = Some h' \<and>
    ll3_wf h' (L(k := xs @ ref # node # ys)) C \<and> l3_iters h' = l3_iters h"
proof -
  have lk: "dlist (nlinks h) None (xs @ ref # ys) None" "distinct (xs @ ref # ys)"
    using ll3_wf_list [OF wf, of k] k by auto
  have nd: "node \<notin> set (xs @ ref # ys)" using new k by (metis l3_live_member)
  have live: "ref \<in> l3_live L" "set ys \<subseteq> l3_live L"
    using k l3_live_member [of _ L k] by auto
  obtain r where r: "l3_nodes h ref = Some r" "l3_n r = first_opt ys"
    using ll3_wf_links [OF wf k] by (auto simp: nlinks_def)
  define h1 where "h1 = h\<lparr>l3_nodes := (l3_nodes h)(node \<mapsto> \<lparr>l3_p = Some ref, l3_n = first_opt ys, l3_it = None\<rparr>)\<rparr>"
  have h1: "nlinks h1 = (nlinks h)(node \<mapsto> (Some ref, first_opt ys))" "nits h1 = (nits h)(node \<mapsto> None)"
    "l3_iters h1 = l3_iters h"
    by (simp_all add: h1_def)
  obtain h2 where h2: "upd_l3node h1 ref (\<lambda>x. x\<lparr>l3_n := Some node\<rparr>) = Some h2"
    "nlinks h2 = set_next (nlinks h1) (Some ref) (Some node)" "nits h2 = nits h1"
    "l3_iters h2 = l3_iters h1"
    using upd_next_opt [of "Some ref" h1 "Some node"] ll3_wf_live [OF wf live(1)] h1(1) by auto
  have "x \<in> dom (nlinks h2)" if "first_opt ys = Some x" for x
    using ll3_wf_live [OF wf] first_opt_Some [OF that] live(2) h2(2) h1(1) by auto
  then obtain h3 where h3: "(case first_opt ys of None \<Rightarrow> Some h2
        | Some m \<Rightarrow> upd_l3node h2 m (\<lambda>x. x\<lparr>l3_p := Some node\<rparr>)) = Some h3"
    "nlinks h3 = set_prev (nlinks h2) (first_opt ys) (Some node)" "nits h3 = nits h2"
    "l3_iters h3 = l3_iters h2"
    using upd_prev_opt [of "first_opt ys" h2 "Some node"] by blast
  have run: "LinkedList3Node_InitAfter h node ref = Some h3"
    unfolding LinkedList3Node_InitAfter_def using r h2(1) h3(1) by (simp flip: h1_def)
  have links: "nlinks h3 = set_prev (set_next ((nlinks h)(node \<mapsto> (Some ref, first_opt ys))) (Some ref)
      (Some node)) (first_opt ys) (Some node)" "nits h3 = (nits h)(node \<mapsto> None)" "l3_iters h3 = l3_iters h"
    using h1 h2 h3 by simp_all
  have "dlist (nlinks h3) None (xs @ ref # node # ys) None"
    unfolding links by (rule dlist_link_after [OF lk nd])
  moreover have "nlinks h3 x = nlinks h x" if "k' \<noteq> k" "x \<in> set (L k')" for k' x
  proof -
    have "x \<notin> set (xs @ ref # ys)" "x \<noteq> node"
      using ll3_wf_list(3) [OF wf that(1)] that(2) k new by (auto simp: l3_live_iff)
    moreover have "first_opt ys \<noteq> Some x" using first_opt_Some calculation by fastforce
    ultimately show ?thesis
      unfolding links by (auto simp: set_prev_def set_next_def split: option.splits)
  qed
  ultimately have "l3_lists_ok h3 (L(k := xs @ ref # node # ys))"
    using wf k new lk(2) nd
    by (intro l3_lists_ok_upd [where A = "{node}" and h = h]) (auto simp: ll3_wf_def)
  moreover have "l3_live (L(k := xs @ ref # node # ys)) = insert node (l3_live L)"
    using l3_live_insert [of L k "xs @ [ref]" ys node] k by simp
  moreover have "l3_iters_ok h3 (insert node (l3_live L)) C"
    by (rule l3_iters_ok_add [OF _ links(3) new links(2)]) (use wf in \<open>simp add: ll3_wf_def\<close>)
  ultimately show ?thesis using run links(3) by (simp add: ll3_wf_def)
qed

section \<open>Iterators\<close>

definition idir :: "ll3_heap \<Rightarrow> nat \<rightharpoonup> nat option \<times> int" where
  "idir h w = map_option (\<lambda>r. (it_e r, it_dir r)) (l3_iters h w)"

lemma l3_sits_idir: "l3_sits h x w \<longleftrightarrow> (\<exists>d. idir h w = Some (Some x, d) \<and> (d = 1 \<or> d = -1))"
  by (auto simp: l3_sits_def idir_def)

lemma iter_upd [simp]:
  "l3_iters h a = Some r \<Longrightarrow>
     ilinks (h\<lparr>l3_iters := (l3_iters h)(a \<mapsto> r\<lparr>it_ni := v\<rparr>)\<rparr>) = set_next (ilinks h) (Some a) v"
  "l3_iters h a = Some r \<Longrightarrow>
     ilinks (h\<lparr>l3_iters := (l3_iters h)(a \<mapsto> r\<lparr>it_pi := v\<rparr>)\<rparr>) = set_prev (ilinks h) (Some a) v"
  "l3_iters h a = Some r \<Longrightarrow> idir (h\<lparr>l3_iters := (l3_iters h)(a \<mapsto> r\<lparr>it_ni := v\<rparr>)\<rparr>) = idir h"
  "l3_iters h a = Some r \<Longrightarrow> idir (h\<lparr>l3_iters := (l3_iters h)(a \<mapsto> r\<lparr>it_pi := v\<rparr>)\<rparr>) = idir h"
  "ilinks (h\<lparr>l3_iters := (l3_iters h)(a \<mapsto> r)\<rparr>) = (ilinks h)(a \<mapsto> (it_pi r, it_ni r))"
  "idir (h\<lparr>l3_iters := (l3_iters h)(a \<mapsto> r)\<rparr>) = (idir h)(a \<mapsto> (it_e r, it_dir r))"
  by (auto simp: ilinks_def idir_def set_next_def set_prev_def fun_eq_iff)

lemma idir_nodes [simp]: "idir (h\<lparr>l3_nodes := N\<rparr>) = idir h"
  by (simp add: idir_def fun_eq_iff)

lemma dom_ilinks: "dom (ilinks h) = dom (idir h)"
  by (auto simp: ilinks_def idir_def)

lemma upd_ni_opt:
  "(\<And>x. a = Some x \<Longrightarrow> x \<in> dom (ilinks h)) \<Longrightarrow>
   \<exists>h'. (case a of None \<Rightarrow> Some h | Some w \<Rightarrow> upd_l3iter h w (\<lambda>r. r\<lparr>it_pi := v\<rparr>)) = Some h' \<and>
     ilinks h' = set_prev (ilinks h) a v \<and> idir h' = idir h \<and> l3_nodes h' = l3_nodes h"
  by (cases a) (auto simp: upd_l3iter_def set_prev_def ilinks_def idir_def fun_eq_iff)

lemma upd_it_live:
  "x \<in> dom (nlinks h) \<Longrightarrow>
   \<exists>h'. upd_l3node h x (\<lambda>nd. nd\<lparr>l3_it := v\<rparr>) = Some h' \<and>
     nlinks h' = nlinks h \<and> nits h' = (nits h)(x \<mapsto> v) \<and> l3_iters h' = l3_iters h"
  by (auto simp: upd_l3node_def nlinks_def nits_def fun_eq_iff)

lemma nodes_eq: "l3_nodes h' = l3_nodes h \<Longrightarrow> nlinks h' = nlinks h \<and> nits h' = nits h"
  by (simp add: nlinks_def nits_def fun_eq_iff)

lemma idir_eq: "l3_iters h' = l3_iters h \<Longrightarrow> idir h' = idir h"
  by (simp add: idir_def fun_eq_iff)

lemma l3_lists_ok_same: "nlinks h' = nlinks h \<Longrightarrow> l3_lists_ok h' L = l3_lists_ok h L"
  by (simp add: l3_lists_ok_def)

lemma ll3_wf_chain:
  assumes "ll3_wf h L C"
  shows "distinct (C x)" "dlist (ilinks h) None (C x) None" "x \<noteq> y \<Longrightarrow> set (C x) \<inter> set (C y) = {}"
proof -
  have "distinct (C x) \<and> dlist (ilinks h) None (C x) None"
  proof (cases "C x = []")
    case False
    then have "x \<in> l3_live L" using ll3_wf_sits [OF assms, of "hd (C x)" x] by simp
    then show ?thesis using assms unfolding ll3_wf_def l3_iters_ok_def by blast
  qed simp
  then show "distinct (C x)" "dlist (ilinks h) None (C x) None" by blast+
  have "x = y" if "w \<in> set (C x)" "w \<in> set (C y)" for w
    using ll3_wf_sits [OF assms that(1)] ll3_wf_sits [OF assms that(2)] l3_sits_unique by blast
  then show "x \<noteq> y \<Longrightarrow> set (C x) \<inter> set (C y) = {}" by blast
qed

text \<open>Changing the chain of one node.\<close>

lemma l3_iters_ok_upd:
  assumes ok: "l3_iters_ok h V C" and x: "x \<in> V"
    and new: "nits h' x = Some (first_opt ws)" "distinct ws" "dlist (ilinks h') None ws None"
    and sits: "\<And>w. w \<in> set ws \<Longrightarrow> l3_sits h' x w"
    and its: "\<And>y. y \<in> V \<Longrightarrow> y \<noteq> x \<Longrightarrow> nits h' y = nits h y"
    and links: "\<And>y w. y \<noteq> x \<Longrightarrow> w \<in> set (C y) \<Longrightarrow> ilinks h' w = ilinks h w \<and> idir h' w = idir h w"
  shows "l3_iters_ok h' V (C(x := ws))"
proof -
  have "dlist (ilinks h') None (C y) None" if "y \<noteq> x" "y \<in> V" for y
    using ok dlist_cong [of "C y" "ilinks h'" "ilinks h"] links [OF that(1)] that(2)
    unfolding l3_iters_ok_def by blast
  moreover have "l3_sits h' y w" if "y \<noteq> x" "w \<in> set (C y)" for y w
    using ok links [OF that] that(2) unfolding l3_iters_ok_def l3_sits_idir by auto
  moreover have "\<forall>y w. w \<in> set (C y) \<longrightarrow> y \<in> V" using ok by (auto simp: l3_iters_ok_def)
  ultimately show ?thesis
    using ok x new sits its by (auto simp: l3_iters_ok_def)
qed

lemma Iterator_Init_at:
  assumes wf: "ll3_wf h L C" and x: "x \<in> l3_live L" and new: "\<And>y. it \<notin> set (C y)"
    and dir: "dir = 1 \<or> dir = -1"
  shows "\<exists>h'. LinkedList3Iterator_Init h it (Some x) dir = Some h' \<and>
    ll3_wf h' L (C(x := it # C x)) \<and> nlinks h' = nlinks h \<and> idir h' = (idir h)(it \<mapsto> (Some x, dir))"
proof -
  have live: "x \<in> dom (nlinks h)" "nits h x = Some (first_opt (C x))"
    using ll3_wf_live [OF wf x] ll3_wf_nits [OF wf x] by auto
  then obtain nd where nd: "l3_nodes h x = Some nd" "l3_it nd = first_opt (C x)"
    by (auto simp: nits_def)
  define r where "r = (case l3_iters h it of Some r \<Rightarrow> r
    | None \<Rightarrow> \<lparr>it_dir = 0, it_e = None, it_pi = None, it_ni = None\<rparr>)\<lparr>it_dir := dir, it_e := Some x\<rparr>"
  define h1 where "h1 = h\<lparr>l3_iters := (l3_iters h)(it \<mapsto> r\<lparr>it_pi := None, it_ni := l3_it nd\<rparr>)\<rparr>"
  have h1: "ilinks h1 = (ilinks h)(it \<mapsto> (None, first_opt (C x)))"
    "idir h1 = (idir h)(it \<mapsto> (Some x, dir))" "l3_nodes h1 = l3_nodes h"
    by (simp_all add: h1_def r_def nd)
  have "w \<in> dom (ilinks h1)" if "first_opt (C x) = Some w" for w
    using ll3_wf_sits [OF wf first_opt_Some [OF that]] h1(1)
    by (auto simp: l3_sits_def ilinks_def)
  then obtain h2 where h2: "(case l3_it nd of None \<Rightarrow> Some h1
      | Some w \<Rightarrow> upd_l3iter h1 w (\<lambda>r. r\<lparr>it_pi := Some it\<rparr>)) = Some h2"
    "ilinks h2 = set_prev (ilinks h1) (first_opt (C x)) (Some it)" "idir h2 = idir h1"
    "l3_nodes h2 = l3_nodes h1"
    using upd_ni_opt [of "first_opt (C x)" h1 "Some it"] unfolding nd(2) by blast
  have n2: "nlinks h2 = nlinks h" "nits h2 = nits h"
    using nodes_eq [of h2 h] h1(3) h2(4) by auto
  then obtain h3 where h3: "upd_l3node h2 x (\<lambda>nd. nd\<lparr>l3_it := Some it\<rparr>) = Some h3"
    "nlinks h3 = nlinks h" "nits h3 = (nits h)(x \<mapsto> Some it)" "l3_iters h3 = l3_iters h2"
    using upd_it_live [of x h2 "Some it"] live(1) by auto
  have run: "LinkedList3Iterator_Init h it (Some x) dir = Some h3"
    using h2(1) h3(1) dir unfolding LinkedList3Iterator_Init_def h1_def r_def Let_def
    by (simp add: nd(1) disj_commute)
  have il: "ilinks h3 = set_prev ((ilinks h)(it \<mapsto> (None, first_opt (C x)))) (first_opt (C x)) (Some it)"
    "idir h3 = (idir h)(it \<mapsto> (Some x, dir))"
    using h1 h2 ilinks_eq [OF h3(4)] idir_eq [OF h3(4)] by simp_all
  have chain: "dlist (ilinks h3) (Some it) (C x) None"
    unfolding il using ll3_wf_chain(1,2) [OF wf, of x] new [of x]
    by (intro dlist_set_prev_hd [of _ None]) auto
  have "l3_iters_ok h3 (l3_live L) (C(x := it # C x))"
  proof (rule l3_iters_ok_upd [where h = h])
    have "first_opt (C x) \<noteq> Some it" using first_opt_Some new by fastforce
    then have "ilinks h3 it = Some (None, first_opt (C x))"
      unfolding il by (auto simp: set_prev_def split: option.splits)
    then show "dlist (ilinks h3) None (it # C x) None" using chain by simp
    show "l3_sits h3 x w" if "w \<in> set (it # C x)" for w
      using that ll3_wf_sits [OF wf, of w x] dir by (auto simp: l3_sits_idir il)
    show "ilinks h3 w = ilinks h w \<and> idir h3 w = idir h w" if "y \<noteq> x" "w \<in> set (C y)" for y w
    proof -
      have "w \<noteq> it" "w \<notin> set (C x)" using that new ll3_wf_chain(3) [OF wf that(1)] by auto
      moreover have "first_opt (C x) \<noteq> Some w" using first_opt_Some calculation(2) by fastforce
      ultimately show ?thesis unfolding il by (auto simp: set_prev_def split: option.splits)
    qed
  qed (use wf x h3 new ll3_wf_chain(1) [OF wf] in \<open>auto simp: ll3_wf_def\<close>)
  then show ?thesis
    using run il(2) h3(2) wf l3_lists_ok_same [OF h3(2), of L] by (simp add: ll3_wf_def)
qed

lemma Iterator_Init_end:
  assumes wf: "ll3_wf h L C" and new: "\<And>y. it \<notin> set (C y)" and dir: "dir = 1 \<or> dir = -1"
  shows "\<exists>h'. LinkedList3Iterator_Init h it None dir = Some h' \<and>
    ll3_wf h' L C \<and> l3_nodes h' = l3_nodes h \<and> idir h' = (idir h)(it \<mapsto> (None, dir))"
proof -
  obtain h' where h': "LinkedList3Iterator_Init h it None dir = Some h'" "l3_nodes h' = l3_nodes h"
    "idir h' = (idir h)(it \<mapsto> (None, dir))" "\<And>w. w \<noteq> it \<Longrightarrow> l3_iters h' w = l3_iters h w"
    unfolding LinkedList3Iterator_Init_def using dir by (auto simp: Let_def)
  have eq: "ilinks h' w = ilinks h w" "l3_sits h' x w = l3_sits h x w" if "w \<in> set (C y)" for w x y
    using h'(4) [of w] that new by (metis ilinks_def, metis l3_sits_def)
  have "dlist (ilinks h') None (C x) None = dlist (ilinks h) None (C x) None" for x
    by (rule dlist_cong) (use eq in blast)
  then have "l3_iters_ok h' (l3_live L) C"
    using wf eq nodes_eq [OF h'(2)] by (auto simp: ll3_wf_def l3_iters_ok_def)
  then show ?thesis
    using h' wf l3_lists_ok_same [of h' h L] nodes_eq [OF h'(2)] by (auto simp: ll3_wf_def)
qed

text \<open>Freeing an iterator takes it out of its node's chain; the structure keeps its content.\<close>

lemma set_next_prev: "set_next (set_prev lk a p) b n = set_prev (set_next lk b n) a p"
  by (cases a; cases b) (auto simp: set_next_def set_prev_def fun_eq_iff option.map_comp comp_def)

lemma Iterator_Free_at:
  assumes wf: "ll3_wf h L C" and it: "it \<in> set (C x)"
  shows "\<exists>h'. LinkedList3Iterator_Free h it = Some h' \<and>
    ll3_wf h' L (C(x := remove1 it (C x))) \<and> nlinks h' = nlinks h \<and> idir h' = idir h"
proof -
  obtain us vs where C: "C x = us @ it # vs" using split_list [OF it] by blast
  have x: "x \<in> l3_live L" and s: "l3_sits h x it" using ll3_wf_sits [OF wf it] by auto
  have dc: "distinct (us @ it # vs)" "dlist (ilinks h) None (us @ it # vs) None"
    using ll3_wf_chain(1,2) [OF wf, of x] C by auto
  have rm: "remove1 it (C x) = us @ vs" using C dc(1) by (simp add: remove1_append)
  obtain r where r: "l3_iters h it = Some r" "it_e r = Some x" using s by (auto simp: l3_sits_def)
  have rl: "it_pi r = first_opt (rev us)" "it_ni r = first_opt vs"
    using dc(2) r(1) by (auto simp: dlist_middle ilinks_def)
  have "w \<in> dom (ilinks h)" if "w \<in> set (C x)" for w
    using ll3_wf_sits [OF wf that] by (auto simp: l3_sits_def ilinks_def)
  then have dom: "w \<in> dom (ilinks h)" if "w \<in> set us \<union> set vs" for w using that C by auto
  have "w \<in> dom (ilinks h)" if "it_ni r = Some w" for w
    using dom [of w] first_opt_Some [of vs w] that rl by auto
  then obtain h1 where h1: "(case it_ni r of None \<Rightarrow> Some h
      | Some w \<Rightarrow> upd_l3iter h w (\<lambda>x. x\<lparr>it_pi := it_pi r\<rparr>)) = Some h1"
    "ilinks h1 = set_prev (ilinks h) (it_ni r) (it_pi r)" "idir h1 = idir h"
    "l3_nodes h1 = l3_nodes h"
    using upd_ni_opt [of "it_ni r" h "it_pi r"] by blast
  have n1: "nlinks h1 = nlinks h" "nits h1 = nits h" using nodes_eq [OF h1(4)] by auto
  have "\<exists>h2. (case it_pi r of Some w \<Rightarrow> upd_l3iter h1 w (\<lambda>x. x\<lparr>it_ni := it_ni r\<rparr>)
      | None \<Rightarrow> upd_l3node h1 x (\<lambda>x. x\<lparr>l3_it := it_ni r\<rparr>)) = Some h2 \<and>
    ilinks h2 = set_next (ilinks h1) (it_pi r) (it_ni r) \<and> idir h2 = idir h1 \<and>
    nlinks h2 = nlinks h1 \<and> nits h2 = (if us = [] then (nits h1)(x \<mapsto> first_opt vs) else nits h1)"
  proof (cases "it_pi r")
    case None
    then have us: "us = []" using rl(1) by simp
    have "x \<in> dom (nlinks h1)" using ll3_wf_live [OF wf x] n1(1) by simp
    then obtain h2 where h2: "upd_l3node h1 x (\<lambda>nd. nd\<lparr>l3_it := it_ni r\<rparr>) = Some h2"
      "nlinks h2 = nlinks h1" "nits h2 = (nits h1)(x \<mapsto> it_ni r)" "l3_iters h2 = l3_iters h1"
      using upd_it_live by blast
    have "ilinks h2 = ilinks h1" "idir h2 = idir h1" using ilinks_eq idir_eq h2(4) by blast+
    then show ?thesis using None us h2(1-3) rl(2) by (simp add: set_next_def)
  next
    case (Some w)
    then have "w \<in> dom (ilinks h1)" "us \<noteq> []"
      using dom [of w] first_opt_Some [of "rev us" w] rl h1(2) by auto
    then obtain r' where "l3_iters h1 w = Some r'" by (auto simp: ilinks_def)
    then show ?thesis
      using Some \<open>us \<noteq> []\<close> iter_upd(1,3) by (simp add: upd_l3iter_def del: iter_upd(5,6))
  qed
  then obtain h2 where h2: "(case it_pi r of Some w \<Rightarrow> upd_l3iter h1 w (\<lambda>x. x\<lparr>it_ni := it_ni r\<rparr>)
      | None \<Rightarrow> upd_l3node h1 x (\<lambda>x. x\<lparr>l3_it := it_ni r\<rparr>)) = Some h2"
    "ilinks h2 = set_next (ilinks h1) (it_pi r) (it_ni r)" "idir h2 = idir h"
    "nlinks h2 = nlinks h" "nits h2 = (if us = [] then (nits h)(x \<mapsto> first_opt vs) else nits h)"
    using h1(3) n1 by auto
  have run: "LinkedList3Iterator_Free h it = Some h2"
    using h1(1) h2(1) unfolding LinkedList3Iterator_Free_def by (simp add: r)
  have il: "ilinks h2 = set_prev (set_next (ilinks h) (first_opt (rev us)) (first_opt vs)) (first_opt vs)
      (first_opt (rev us))"
    unfolding h2(2) h1(2) rl by (rule set_next_prev)
  have "l3_iters_ok h2 (l3_live L) (C(x := us @ vs))"
  proof (rule l3_iters_ok_upd [where h = h])
    show "dlist (ilinks h2) None (us @ vs) None"
      unfolding il by (rule dlist_unlink [OF dc(2,1)])
    have "nits h x = Some (first_opt (us @ it # vs))" using ll3_wf_nits [OF wf x] C by simp
    then show "nits h2 x = Some (first_opt (us @ vs))" using h2(5) by (cases us) simp_all
    show "l3_sits h2 x w" if "w \<in> set (us @ vs)" for w
      using that ll3_wf_sits [OF wf, of w x] C h2(3) by (auto simp: l3_sits_idir)
    show "ilinks h2 w = ilinks h w \<and> idir h2 w = idir h w" if "y \<noteq> x" "w \<in> set (C y)" for y w
    proof -
      have "w \<notin> set (C x)" using that ll3_wf_chain(3) [OF wf that(1)] by auto
      then have "first_opt vs \<noteq> Some w" "first_opt (rev us) \<noteq> Some w"
        using first_opt_Some [of vs w] first_opt_Some [of "rev us" w] C by auto
      then show ?thesis unfolding il h2(3)
        by (auto simp: set_prev_def set_next_def split: option.splits)
    qed
  qed (use wf x h2 dc(1) in \<open>auto simp: ll3_wf_def\<close>)
  then show ?thesis
    using run h2(3,4) wf l3_lists_ok_same [OF h2(4), of L] rm by (simp add: ll3_wf_def)
qed

lemma Iterator_Free_end:
  "idir h it = Some (None, d) \<Longrightarrow> LinkedList3Iterator_Free h it = Some h"
  by (auto simp: LinkedList3Iterator_Free_def idir_def)

text \<open>Where an iterator moves to from the node between \<open>xs\<close> and \<open>ys\<close>.\<close>

definition it_next :: "nat list \<Rightarrow> nat list \<Rightarrow> int \<Rightarrow> nat option" where
  "it_next xs ys d = (if d = 1 then first_opt ys else first_opt (rev xs))"

definition put_it :: "(nat \<Rightarrow> nat list) \<Rightarrow> nat \<Rightarrow> nat option \<Rightarrow> nat \<Rightarrow> nat list" where
  "put_it C it p = (case p of None \<Rightarrow> C | Some y \<Rightarrow> C(y := it # C y))"

lemma Iterator_Next_at:
  assumes wf: "ll3_wf h L C" and it: "it \<in> set (C x)" and L: "L k = xs @ x # ys"
    and d: "idir h it = Some (Some x, d)"
  shows "\<exists>h'. LinkedList3Iterator_Next h it = Some (Some x, h') \<and>
    ll3_wf h' L (put_it (C(x := remove1 it (C x))) it (it_next xs ys d)) \<and>
    nlinks h' = nlinks h \<and> idir h' = (idir h)(it \<mapsto> (it_next xs ys d, d))"
proof -
  have dir: "d = 1 \<or> d = -1" using ll3_wf_sits [OF wf it] d by (auto simp: l3_sits_idir)
  obtain r where r: "l3_iters h it = Some r" "it_e r = Some x" "it_dir r = d"
    using d by (auto simp: idir_def)
  obtain nd where nd: "l3_nodes h x = Some nd" "l3_p nd = first_opt (rev xs)" "l3_n nd = first_opt ys"
    using ll3_wf_links [OF wf L] by (auto simp: nlinks_def)
  have nx: "(if d = 1 then l3_n nd else l3_p nd) = it_next xs ys d" by (simp add: it_next_def nd)
  let ?C = "C(x := remove1 it (C x))"
  obtain h1 where h1: "LinkedList3Iterator_Free h it = Some h1" "ll3_wf h1 L ?C"
    "nlinks h1 = nlinks h" "idir h1 = idir h"
    using Iterator_Free_at [OF wf it] by blast
  have new: "it \<notin> set (?C y)" for y
  proof (cases "y = x")
    case False
    then show ?thesis using ll3_wf_chain(3) [OF wf, of y x] it by auto
  qed (use ll3_wf_chain(1) [OF wf, of x] in simp)
  obtain h' where h': "LinkedList3Iterator_Init h1 it (it_next xs ys d) d = Some h' \<and>
    ll3_wf h' L (put_it ?C it (it_next xs ys d)) \<and> nlinks h' = nlinks h1 \<and>
    idir h' = (idir h1)(it \<mapsto> (it_next xs ys d, d))"
  proof (cases "it_next xs ys d")
    case None
    obtain h' where "LinkedList3Iterator_Init h1 it None d = Some h'" "ll3_wf h' L ?C"
      "l3_nodes h' = l3_nodes h1" "idir h' = (idir h1)(it \<mapsto> (None, d))"
      using Iterator_Init_end [OF h1(2) new dir] by blast
    then show ?thesis using that None nodes_eq [of h' h1] by (simp add: put_it_def)
  next
    case (Some y)
    then have "y \<in> set (L k)"
      using first_opt_Some [of ys y] first_opt_Some [of "rev xs" y] L
      by (auto simp: it_next_def split: if_splits)
    then have "y \<in> l3_live L" by (rule l3_live_member)
    then obtain h' where "LinkedList3Iterator_Init h1 it (Some y) d = Some h'"
      "ll3_wf h' L (?C(y := it # ?C y))" "nlinks h' = nlinks h1" "idir h' = (idir h1)(it \<mapsto> (Some y, d))"
      using Iterator_Init_at [OF h1(2) _ new dir] by blast
    then show ?thesis using that Some by (simp add: put_it_def)
  qed
  have "LinkedList3Iterator_Next h it = Some (Some x, h')"
    using h1(1) h' dir unfolding LinkedList3Iterator_Next_def by (simp add: r nd(1) nx)
  then show ?thesis using h' h1(3,4) by simp
qed

lemma Iterator_Next_end:
  "idir h it = Some (None, d) \<Longrightarrow> LinkedList3Iterator_Next h it = Some (None, h)"
  by (auto simp: LinkedList3Iterator_Next_def idir_def)

section \<open>Freeing a node, and walking the list\<close>

definition jumped :: "ll3_heap \<Rightarrow> (nat \<Rightarrow> nat list) \<Rightarrow> nat list \<Rightarrow> nat \<Rightarrow> nat list \<Rightarrow> nat \<Rightarrow> (nat option \<times> int) option" where
  "jumped h C xs x ys w = (if w \<in> set (C x)
     then map_option (\<lambda>p. (it_next xs ys (snd p), snd p)) (idir h w) else idir h w)"

lemma it_next_other:
  "distinct (xs @ x # ys) \<Longrightarrow> it_next xs ys d \<noteq> Some x"
  using first_opt_Some [of ys x] first_opt_Some [of "rev xs" x] by (auto simp: it_next_def)

lemma jump_iterators_moves:
  assumes "ll3_wf h L C" "L k = xs @ x # ys"
  shows "\<exists>h' C'. jump_iterators h x = Some h' \<and> ll3_wf h' L C' \<and> C' x = [] \<and>
    nlinks h' = nlinks h \<and> idir h' = jumped h C xs x ys \<and>
    (\<forall>y w. y \<noteq> x \<longrightarrow> (w \<in> set (C' y) \<longleftrightarrow> w \<in> set (C y) \<or>
       (w \<in> set (C x) \<and> (\<exists>e d. idir h w = Some (e, d) \<and> it_next xs ys d = Some y))))"
  using assms(1)
proof (induction "C x" arbitrary: h C)
  case Nil
  have "x \<in> l3_live L" using assms(2) by (auto intro: l3_live_member [of _ L k])
  then have "nits h x = Some None" using ll3_wf_nits [OF Nil.prems, of x] Nil.hyps by simp
  then have "jump_iterators h x = Some h"
    by (subst jump_iterators.simps) (auto simp: nits_def)
  then show ?case
    using Nil.prems Nil.hyps by (intro exI [of _ h] exI [of _ C]) (auto simp: jumped_def fun_eq_iff)
next
  case (Cons it ws)
  have live: "x \<in> l3_live L" using assms(2) by (auto intro: l3_live_member [of _ L k])
  have dist: "distinct (xs @ x # ys)" using ll3_wf_list(1) [OF Cons.prems, of k] assms(2) by simp
  have dw: "distinct (it # ws)" using ll3_wf_chain(1) [OF Cons.prems, of x] Cons.hyps(2) by simp
  have it: "it \<in> set (C x)" by (simp flip: Cons.hyps(2))
  obtain d where d: "idir h it = Some (Some x, d)"
    using ll3_wf_sits [OF Cons.prems it] by (auto simp: l3_sits_idir)
  let ?n = "it_next xs ys d"
  define C1 where "C1 = put_it (C(x := remove1 it (C x))) it ?n"
  obtain h1 where h1: "LinkedList3Iterator_Next h it = Some (Some x, h1)" "ll3_wf h1 L C1"
    "nlinks h1 = nlinks h" "idir h1 = (idir h)(it \<mapsto> (?n, d))"
    using Iterator_Next_at [OF Cons.prems it assms(2) d] unfolding C1_def by blast
  have nx: "?n \<noteq> Some x" by (rule it_next_other [OF dist])
  have C1: "C1 x = ws" using nx by (auto simp: C1_def put_it_def Cons.hyps(2)[symmetric] split: option.split)
  have C1': "w \<in> set (C1 y) \<longleftrightarrow> w \<in> set (C y) \<or> (w = it \<and> ?n = Some y)" if "y \<noteq> x" for w y
    using that by (auto simp: C1_def put_it_def split: option.split)
  obtain h' C' where h': "jump_iterators h1 x = Some h'" "ll3_wf h' L C'" "C' x = []"
    "nlinks h' = nlinks h1" "idir h' = jumped h1 C1 xs x ys"
    "\<forall>y w. y \<noteq> x \<longrightarrow> (w \<in> set (C' y) \<longleftrightarrow> w \<in> set (C1 y) \<or>
       (w \<in> set (C1 x) \<and> (\<exists>e d. idir h1 w = Some (e, d) \<and> it_next xs ys d = Some y)))"
    using Cons.hyps(1) [OF C1[symmetric] h1(2)] by blast
  have "nits h x = Some (Some it)"
    using ll3_wf_nits [OF Cons.prems live] by (simp flip: Cons.hyps(2))
  then have run: "jump_iterators h x = Some h'"
    using h1(1) h'(1) by (subst jump_iterators.simps) (auto simp: nits_def)
  have ii: "idir h1 w = idir h w" if "w \<noteq> it" for w using h1(4) that by simp
  have "jumped h1 C1 xs x ys w = jumped h C xs x ys w" for w
    using d dw h1(4) by (cases "w = it") (auto simp: jumped_def C1 Cons.hyps(2)[symmetric])
  then have "idir h' = jumped h C xs x ys" using h'(5) by (simp add: fun_eq_iff)
  moreover have "w \<in> set (C' y) \<longleftrightarrow> w \<in> set (C y) \<or>
      (w \<in> set (C x) \<and> (\<exists>e d. idir h w = Some (e, d) \<and> it_next xs ys d = Some y))"
    if "y \<noteq> x" for y w
  proof (cases "w = it")
    case True
    then have "w \<notin> set (C1 x)" using C1 dw by simp
    then have "w \<in> set (C' y) \<longleftrightarrow> w \<in> set (C y) \<or> ?n = Some y"
      using h'(6) C1' [OF that] True that by simp
    then show ?thesis using d it True by simp
  next
    case False
    have "w \<in> set (C1 x) \<longleftrightarrow> w \<in> set (C x)"
      unfolding C1 using False by (simp flip: Cons.hyps(2))
    then show ?thesis using h'(6) C1' [OF that] False that ii [OF False] by simp
  qed
  ultimately show ?case using run h' h1(3) by (intro exI [of _ h'] exI [of _ C']) simp
qed

lemma Node_Free_list:
  assumes wf: "ll3_wf h L C" and L: "L k = xs @ x # ys"
  shows "\<exists>h' C'. LinkedList3Node_Free h x = Some h' \<and> ll3_wf h' (L(k := xs @ ys)) C' \<and>
    idir h' = jumped h C xs x ys \<and>
    (\<forall>y w. w \<in> set (C' y) \<longleftrightarrow> (y \<noteq> x \<and> w \<in> set (C y)) \<or>
       (w \<in> set (C x) \<and> (\<exists>e d. idir h w = Some (e, d) \<and> it_next xs ys d = Some y)))"
proof -
  obtain h1 C' where h1: "jump_iterators h x = Some h1" "ll3_wf h1 L C'" "C' x = []"
    "nlinks h1 = nlinks h" "idir h1 = jumped h C xs x ys"
    "\<forall>y w. y \<noteq> x \<longrightarrow> (w \<in> set (C' y) \<longleftrightarrow> w \<in> set (C y) \<or>
       (w \<in> set (C x) \<and> (\<exists>e d. idir h w = Some (e, d) \<and> it_next xs ys d = Some y)))"
    using jump_iterators_moves [OF assms] by blast
  have dl: "dlist (nlinks h1) None (xs @ x # ys) None" "distinct (xs @ x # ys)"
    using ll3_wf_list(1,2) [OF h1(2), of k] L by auto
  have dom: "y \<in> dom (nlinks h1)" if "y \<in> set (xs @ x # ys)" for y
    using dlist_member [OF dl(1) that] by auto
  obtain nd where nd: "l3_nodes h1 x = Some nd" "l3_p nd = first_opt (rev xs)" "l3_n nd = first_opt ys"
    using ll3_wf_links [OF h1(2) L] by (auto simp: nlinks_def)
  have "\<And>y. l3_p nd = Some y \<Longrightarrow> y \<in> dom (nlinks h1)" using dom first_opt_Some nd(2) by fastforce
  from upd_next_opt [OF this, of "l3_p nd" "l3_n nd"] obtain h2 where
    h2: "(case l3_p nd of None \<Rightarrow> Some h1
      | Some m \<Rightarrow> upd_l3node h1 m (\<lambda>x. x\<lparr>l3_n := l3_n nd\<rparr>)) = Some h2"
    "nlinks h2 = set_next (nlinks h1) (l3_p nd) (l3_n nd)" "nits h2 = nits h1"
    "l3_iters h2 = l3_iters h1" by blast
  have "\<And>y. l3_n nd = Some y \<Longrightarrow> y \<in> dom (nlinks h2)"
    unfolding nd(3) h2(2) dom_set_links using dom first_opt_Some [of ys] by simp
  from upd_prev_opt [OF this, of "l3_n nd" "l3_p nd"] obtain h3 where
    h3: "(case l3_n nd of None \<Rightarrow> Some h2
      | Some m \<Rightarrow> upd_l3node h2 m (\<lambda>x. x\<lparr>l3_p := l3_p nd\<rparr>)) = Some h3"
    "nlinks h3 = set_prev (nlinks h2) (l3_n nd) (l3_p nd)" "nits h3 = nits h2"
    "l3_iters h3 = l3_iters h2" by blast
  have run: "LinkedList3Node_Free h x = Some h3"
    using h1(1) h2(1) h3(1) unfolding LinkedList3Node_Free_def by (simp add: nd(1))
  have links: "nlinks h3 = set_prev (set_next (nlinks h1) (first_opt (rev xs)) (first_opt ys)) (first_opt ys)
      (first_opt (rev xs))" "nits h3 = nits h1" "l3_iters h3 = l3_iters h1"
    using h2 h3 nd by simp_all
  have "dlist (nlinks h3) None (xs @ ys) None" unfolding links by (rule dlist_unlink [OF dl])
  moreover have "nlinks h3 y = nlinks h1 y" if "k' \<noteq> k" "y \<in> set (L k')" for k' y
  proof -
    have "y \<notin> set (xs @ x # ys)" using ll3_wf_list(3) [OF h1(2) that(1)] that(2) L by auto
    then have "first_opt ys \<noteq> Some y" "first_opt (rev xs) \<noteq> Some y"
      using first_opt_Some [of ys y] first_opt_Some [of "rev xs" y] by auto
    then show ?thesis unfolding links by (auto simp: set_prev_def set_next_def split: option.splits)
  qed
  ultimately have "l3_lists_ok h3 (L(k := xs @ ys))"
    using h1(2) L dl(2) by (intro l3_lists_ok_upd [where A = "{}" and h = h1]) (auto simp: ll3_wf_def)
  moreover have "l3_iters_ok h3 (l3_live L - {x}) C'"
    using h1(2,3) unfolding ll3_wf_def l3_iters_ok_def links(2) ilinks_eq [OF links(3)] l3_sits_eq [OF links(3)]
    by (metis DiffD1 DiffI empty_iff list.set(1) singletonD)
  ultimately have "ll3_wf h3 (L(k := xs @ ys)) C'"
    unfolding ll3_wf_def l3_live_delete [OF h1(2) L] by blast
  moreover have "w \<notin> set (C x) \<or> it_next xs ys d \<noteq> Some x" for w d using it_next_other [OF dl(2)] by blast
  ultimately show ?thesis
    using run h1(3,5,6) idir_eq [OF links(3)]
    by (intro exI [of _ h3] exI [of _ C']) (metis empty_iff it_next_other [OF dl(2)] list.set(1))
qed

lemma IsLonely_list:
  assumes "ll3_wf h L C" "L k = xs @ x # ys"
  shows "LinkedList3Node_IsLonely h x = Some (xs = [] \<and> ys = [])"
  using ll3_wf_links [OF assms] by (auto simp: LinkedList3Node_IsLonely_def nlinks_def)

lemma NextOrPrev_list:
  assumes "ll3_wf h L C" "L k = xs @ x # ys"
  shows "LinkedList3Node_NextOrPrev h x = Some (or_opt (first_opt ys) (first_opt (rev xs)))"
  using ll3_wf_links [OF assms]
  by (cases ys) (auto simp: LinkedList3Node_NextOrPrev_def nlinks_def)

lemma First_list:
  assumes "ll3_wf h L C" "L k = xs @ x # ys"
  shows "LinkedList3Node_First h x = Some (hd (L k))"
  using assms(2)
proof (induction xs arbitrary: x ys rule: rev_induct)
  case Nil
  then show ?case using ll3_wf_links [OF assms(1) Nil.prems]
    by (subst LinkedList3Node_First.simps) (auto simp: nlinks_def)
next
  case (snoc z xs)
  have "LinkedList3Node_First h z = Some (hd (L k))" using snoc.IH [of z "x # ys"] snoc.prems by simp
  then show ?case using ll3_wf_links [OF assms(1) snoc.prems]
    by (subst LinkedList3Node_First.simps) (auto simp: nlinks_def)
qed

end
