(* ===== verification/FrameDecider.thy ===== *)
theory FrameDecider
  imports LinkedList3 NetProto
begin

text \<open>
  The frame decider of the P2P VPN client, \<open>client/FrameDecider.c\<close>: it learns from the frames a
  peer sends which MAC addresses and which multicast groups are behind the peer, and decides from
  these tables to which peers a frame read from the TAP device goes.

  Heap objects are maps from addresses: peers, MAC entries, group entries; entry \<open>i\<close> of the array
  at \<open>base\<close> has the address \<open>base + i\<close>. A \<open>LinkedList1\<close> is the list of its nodes, a search tree
  (\<open>structure/SAvl.h\<close>) the map from its keys to the entries in it. The lists of group entries with
  the same signature are the heap lists of \<open>LinkedList3\<close>, whose nodes have their entries'
  addresses. \<open>None\<close> is a failed assertion or an access to memory that is not there. What
  \<open>BAllocArray\<close> and \<open>btime_gettime\<close> return are arguments.
\<close>

section \<open>State\<close>

record mac_entry =
  me_peer :: nat
  me_mac :: "byte list"

record group_entry =
  ge_peer :: nat
  ge_timer :: "int option"
  ge_group :: u32
  ge_timer_endtime :: int
  ge_is_master :: bool
  ge_master_sig :: u32

record FrameDeciderPeer =
  fp_mac_entries :: nat
  fp_group_entries :: nat
  fp_mac_entries_free :: "nat list"
  fp_mac_entries_used :: "nat list"
  fp_group_entries_free :: "nat list"
  fp_group_entries_used :: "nat list"
  fp_groups_tree :: "u32 \<rightharpoonup> nat"

datatype decide_state =
  DECIDE_STATE_NONE | DECIDE_STATE_UNICAST | DECIDE_STATE_FLOOD | DECIDE_STATE_MULTICAST

record FrameDecider =
  fd_max_peer_macs :: nat
  fd_max_peer_groups :: nat
  fd_igmp_group_membership_interval :: int
  fd_igmp_last_member_query_time :: int
  fd_peers_list :: "nat list"
  fd_macs_tree :: "byte list \<rightharpoonup> nat"
  fd_multicast_tree :: "u32 \<rightharpoonup> nat"
  fd_decide_state :: decide_state
  fd_decide_flood_current :: "nat option"
  fd_decide_unicast_peer :: "nat option"
  fd_peers :: "nat \<rightharpoonup> FrameDeciderPeer"
  fd_macs :: "nat \<rightharpoonup> mac_entry"
  fd_groups :: "nat \<rightharpoonup> group_entry"
  fd_ll3 :: ll3_heap

text \<open>The iterators: \<open>decide_multicast_it\<close> of the decider, and the local one of the timer loop.\<close>

definition decide_multicast_it :: nat where "decide_multicast_it = 0"
definition lower_it :: nat where "lower_it = 1"

definition upd_fdpeer :: "FrameDecider \<Rightarrow> nat \<Rightarrow> (FrameDeciderPeer \<Rightarrow> FrameDeciderPeer) \<Rightarrow> FrameDecider option" where
  "upd_fdpeer d a f = do { x \<leftarrow> fd_peers d a; Some (d\<lparr>fd_peers := (fd_peers d)(a \<mapsto> f x)\<rparr>) }"

definition upd_fdmac :: "FrameDecider \<Rightarrow> nat \<Rightarrow> (mac_entry \<Rightarrow> mac_entry) \<Rightarrow> FrameDecider option" where
  "upd_fdmac d a f = do { x \<leftarrow> fd_macs d a; Some (d\<lparr>fd_macs := (fd_macs d)(a \<mapsto> f x)\<rparr>) }"

definition upd_fdgroup :: "FrameDecider \<Rightarrow> nat \<Rightarrow> (group_entry \<Rightarrow> group_entry) \<Rightarrow> FrameDecider option" where
  "upd_fdgroup d a f = do { x \<leftarrow> fd_groups d a; Some (d\<lparr>fd_groups := (fd_groups d)(a \<mapsto> f x)\<rparr>) }"

text \<open>\<open>LinkedList1_Remove\<close>: the node must be in the list.\<close>

definition ll1_remove :: "nat list \<Rightarrow> nat \<Rightarrow> nat list option" where
  "ll1_remove xs x = do { assert_that (x \<in> set xs); Some (remove1 x xs) }"

text \<open>\<open>LinkedList1Node_Next\<close>.\<close>

fun ll1_next :: "nat list \<Rightarrow> nat \<Rightarrow> nat option option" where
  "ll1_next [] x = None"
| "ll1_next (y # ys) x = (if x = y then Some (first_opt ys) else ll1_next ys x)"

text \<open>\<open>FDMacsTree_Remove\<close>, \<open>FDMacsTree_Insert\<close> with its \<open>ASSERT_EXECUTE(res)\<close>, and the other two trees.\<close>

definition FDMacsTree_Remove :: "FrameDecider \<Rightarrow> nat \<Rightarrow> FrameDecider option" where
  "FDMacsTree_Remove d e = do {
     x \<leftarrow> fd_macs d e;
     assert_that (fd_macs_tree d (me_mac x) = Some e);
     Some (d\<lparr>fd_macs_tree := (fd_macs_tree d)(me_mac x := None)\<rparr>) }"

definition FDMacsTree_Insert :: "FrameDecider \<Rightarrow> nat \<Rightarrow> FrameDecider option" where
  "FDMacsTree_Insert d e = do {
     x \<leftarrow> fd_macs d e;
     assert_that (fd_macs_tree d (me_mac x) = None);
     Some (d\<lparr>fd_macs_tree := (fd_macs_tree d)(me_mac x \<mapsto> e)\<rparr>) }"

definition FDMulticastTree_Remove :: "FrameDecider \<Rightarrow> nat \<Rightarrow> FrameDecider option" where
  "FDMulticastTree_Remove d e = do {
     x \<leftarrow> fd_groups d e;
     assert_that (fd_multicast_tree d (ge_master_sig x) = Some e);
     Some (d\<lparr>fd_multicast_tree := (fd_multicast_tree d)(ge_master_sig x := None)\<rparr>) }"

definition FDMulticastTree_Insert :: "FrameDecider \<Rightarrow> nat \<Rightarrow> FrameDecider option" where
  "FDMulticastTree_Insert d e = do {
     x \<leftarrow> fd_groups d e;
     assert_that (fd_multicast_tree d (ge_master_sig x) = None);
     Some (d\<lparr>fd_multicast_tree := (fd_multicast_tree d)(ge_master_sig x \<mapsto> e)\<rparr>) }"

definition FDGroupsTree_Remove :: "FrameDecider \<Rightarrow> nat \<Rightarrow> nat \<Rightarrow> FrameDecider option" where
  "FDGroupsTree_Remove d p e = do {
     x \<leftarrow> fd_groups d e;
     q \<leftarrow> fd_peers d p;
     assert_that (fp_groups_tree q (ge_group x) = Some e);
     upd_fdpeer d p (\<lambda>q. q\<lparr>fp_groups_tree := (fp_groups_tree q)(ge_group x := None)\<rparr>) }"

definition FDGroupsTree_Insert :: "FrameDecider \<Rightarrow> nat \<Rightarrow> nat \<Rightarrow> FrameDecider option" where
  "FDGroupsTree_Insert d p e = do {
     x \<leftarrow> fd_groups d e;
     q \<leftarrow> fd_peers d p;
     assert_that (fp_groups_tree q (ge_group x) = None);
     upd_fdpeer d p (\<lambda>q. q\<lparr>fp_groups_tree := (fp_groups_tree q)(ge_group x \<mapsto> e)\<rparr>) }"

section \<open>MAC addresses\<close>

text \<open>The entry for a new MAC address: a free one, or else the oldest one in use.\<close>

definition acquire_mac_entry :: "FrameDecider \<Rightarrow> nat \<Rightarrow> (nat \<times> FrameDecider) option" where
  "acquire_mac_entry d p = do {
     q \<leftarrow> fd_peers d p;
     (case first_opt (fp_mac_entries_free q) of
        Some e \<Rightarrow> do {
          x \<leftarrow> fd_macs d e;
          assert_that (me_peer x = p);
          d \<leftarrow> upd_fdpeer d p (\<lambda>q. q\<lparr>fp_mac_entries_free := remove1 e (fp_mac_entries_free q)\<rparr>);
          Some (e, d) }
      | None \<Rightarrow> (case first_opt (fp_mac_entries_used q) of
          None \<Rightarrow> None
        | Some e \<Rightarrow> do {
            x \<leftarrow> fd_macs d e;
            assert_that (me_peer x = p);
            d \<leftarrow> FDMacsTree_Remove d e;
            d \<leftarrow> upd_fdpeer d p (\<lambda>q. q\<lparr>fp_mac_entries_used := remove1 e (fp_mac_entries_used q)\<rparr>);
            Some (e, d) })) }"

definition disassociate_mac :: "FrameDecider \<Rightarrow> nat \<Rightarrow> FrameDecider option" where
  "disassociate_mac d e = do {
     x \<leftarrow> fd_macs d e;
     d \<leftarrow> FDMacsTree_Remove d e;
     q \<leftarrow> fd_peers d (me_peer x);
     used \<leftarrow> ll1_remove (fp_mac_entries_used q) e;
     upd_fdpeer d (me_peer x) (\<lambda>q. q\<lparr>fp_mac_entries_used := used,
       fp_mac_entries_free := fp_mac_entries_free q @ [e]\<rparr>) }"

text \<open>From \<open>// aquire MAC address entry\<close> to the end of \<open>add_mac_to_peer\<close>.\<close>

definition add_new_mac :: "FrameDecider \<Rightarrow> nat \<Rightarrow> byte list \<Rightarrow> FrameDecider option" where
  "add_new_mac d p mac = do {
     (entry, d) \<leftarrow> acquire_mac_entry d p;
     d \<leftarrow> upd_fdmac d entry (\<lambda>x. x\<lparr>me_mac := mac\<rparr>);
     d \<leftarrow> upd_fdpeer d p (\<lambda>q. q\<lparr>fp_mac_entries_used := fp_mac_entries_used q @ [entry]\<rparr>);
     FDMacsTree_Insert d entry }"

definition add_mac_to_peer :: "FrameDecider \<Rightarrow> nat \<Rightarrow> byte list \<Rightarrow> FrameDecider option" where
  "add_mac_to_peer d p mac =
     (case fd_macs_tree d mac of
        None \<Rightarrow> add_new_mac d p mac
      | Some e_entry \<Rightarrow> do {
          x \<leftarrow> fd_macs d e_entry;
          (if me_peer x = p then do {
             q \<leftarrow> fd_peers d p;
             used \<leftarrow> ll1_remove (fp_mac_entries_used q) e_entry;
             upd_fdpeer d p (\<lambda>q. q\<lparr>fp_mac_entries_used := used @ [e_entry]\<rparr>) }
           else do {
             d \<leftarrow> disassociate_mac d e_entry;
             add_new_mac d p mac }) })"

section \<open>Multicast groups\<close>

definition compute_sig_for_group :: "u32 \<Rightarrow> u32" where
  "compute_sig_for_group grp = hton32 (ntoh32 grp AND 0x7FFFFF)"

definition compute_sig_for_mac :: "byte list \<Rightarrow> u32" where
  "compute_sig_for_mac mac =
     (let sig = mk32 (mac ! 2) (mac ! 3) (mac ! 4) (mac ! 5) in hton32 (ntoh32 sig AND 0x7FFFFF))"

definition add_to_multicast :: "FrameDecider \<Rightarrow> nat \<Rightarrow> FrameDecider option" where
  "add_to_multicast d e = do {
     x \<leftarrow> fd_groups d e;
     let sig = compute_sig_for_group (ge_group x) in
     (case fd_multicast_tree d sig of
        Some master \<Rightarrow> do {
          m \<leftarrow> fd_groups d master;
          assert_that (ge_is_master m);
          d \<leftarrow> upd_fdgroup d e (\<lambda>x. x\<lparr>ge_is_master := False\<rparr>);
          h \<leftarrow> LinkedList3Node_InitAfter (fd_ll3 d) e master;
          Some (d\<lparr>fd_ll3 := h\<rparr>) }
      | None \<Rightarrow> do {
          d \<leftarrow> upd_fdgroup d e (\<lambda>x. x\<lparr>ge_is_master := True, ge_master_sig := sig\<rparr>);
          d \<leftarrow> FDMulticastTree_Insert d e;
          Some (d\<lparr>fd_ll3 := LinkedList3Node_InitLonely (fd_ll3 d) e\<rparr>) }) }"

definition promote_new_master :: "FrameDecider \<Rightarrow> nat \<Rightarrow> u32 \<Rightarrow> FrameDecider option" where
  "promote_new_master d e sig = do {
     n \<leftarrow> LinkedList3Node_NextOrPrev (fd_ll3 d) e;
     newmaster \<leftarrow> n;
     m \<leftarrow> fd_groups d newmaster;
     assert_that (\<not> ge_is_master m);
     d \<leftarrow> upd_fdgroup d newmaster (\<lambda>x. x\<lparr>ge_is_master := True, ge_master_sig := sig\<rparr>);
     FDMulticastTree_Insert d newmaster }"

definition remove_from_multicast :: "FrameDecider \<Rightarrow> nat \<Rightarrow> FrameDecider option" where
  "remove_from_multicast d e = do {
     x \<leftarrow> fd_groups d e;
     let sig = compute_sig_for_group (ge_group x) in do {
     d \<leftarrow> (if ge_is_master x then do {
             d \<leftarrow> FDMulticastTree_Remove d e;
             lonely \<leftarrow> LinkedList3Node_IsLonely (fd_ll3 d) e;
             (if lonely then Some d else promote_new_master d e sig) }
           else Some d);
     h \<leftarrow> LinkedList3Node_Free (fd_ll3 d) e;
     Some (d\<lparr>fd_ll3 := h\<rparr>) } }"

definition acquire_group_entry :: "FrameDecider \<Rightarrow> nat \<Rightarrow> (nat \<times> FrameDecider) option" where
  "acquire_group_entry d p = do {
     q \<leftarrow> fd_peers d p;
     (case first_opt (fp_group_entries_free q) of
        Some e \<Rightarrow> do {
          d \<leftarrow> upd_fdpeer d p (\<lambda>q. q\<lparr>fp_group_entries_free := remove1 e (fp_group_entries_free q)\<rparr>);
          Some (e, d) }
      | None \<Rightarrow> (case first_opt (fp_group_entries_used q) of
          None \<Rightarrow> None
        | Some e \<Rightarrow> do {
            d \<leftarrow> remove_from_multicast d e;
            d \<leftarrow> FDGroupsTree_Remove d p e;
            d \<leftarrow> upd_fdpeer d p (\<lambda>q. q\<lparr>fp_group_entries_used := remove1 e (fp_group_entries_used q)\<rparr>);
            Some (e, d) })) }"

definition set_group_timer :: "FrameDecider \<Rightarrow> nat \<Rightarrow> int \<Rightarrow> FrameDecider option" where
  "set_group_timer d e endtime =
     upd_fdgroup d e (\<lambda>x. x\<lparr>ge_timer_endtime := endtime, ge_timer := Some endtime\<rparr>)"

definition add_group_to_peer :: "FrameDecider \<Rightarrow> nat \<Rightarrow> u32 \<Rightarrow> int \<Rightarrow> FrameDecider option" where
  "add_group_to_peer d p grp now = do {
     q \<leftarrow> fd_peers d p;
     (e, d) \<leftarrow> (case fp_groups_tree q grp of
        Some e \<Rightarrow> do {
          used \<leftarrow> ll1_remove (fp_group_entries_used q) e;
          d \<leftarrow> upd_fdpeer d p (\<lambda>q. q\<lparr>fp_group_entries_used := used @ [e]\<rparr>);
          Some (e, d) }
      | None \<Rightarrow> do {
          (e, d) \<leftarrow> acquire_group_entry d p;
          d \<leftarrow> upd_fdpeer d p (\<lambda>q. q\<lparr>fp_group_entries_used := fp_group_entries_used q @ [e]\<rparr>);
          d \<leftarrow> upd_fdgroup d e (\<lambda>x. x\<lparr>ge_group := grp\<rparr>);
          d \<leftarrow> FDGroupsTree_Insert d p e;
          d \<leftarrow> add_to_multicast d e;
          Some (e, d) });
     set_group_timer d e (now + fd_igmp_group_membership_interval d) }"

definition remove_group_entry :: "FrameDecider \<Rightarrow> nat \<Rightarrow> FrameDecider option" where
  "remove_group_entry d e = do {
     x \<leftarrow> fd_groups d e;
     d \<leftarrow> remove_from_multicast d e;
     d \<leftarrow> FDGroupsTree_Remove d (ge_peer x) e;
     q \<leftarrow> fd_peers d (ge_peer x);
     used \<leftarrow> ll1_remove (fp_group_entries_used q) e;
     d \<leftarrow> upd_fdpeer d (ge_peer x) (\<lambda>q. q\<lparr>fp_group_entries_used := used,
            fp_group_entries_free := fp_group_entries_free q @ [e]\<rparr>);
     upd_fdgroup d e (\<lambda>x. x\<lparr>ge_timer := None\<rparr>) }"

text \<open>The expiry of a timer: the reactor stops it, then calls the handler.\<close>

definition group_entry_timer_handler :: "FrameDecider \<Rightarrow> nat \<Rightarrow> FrameDecider option" where
  "group_entry_timer_handler d e = do {
     d \<leftarrow> upd_fdgroup d e (\<lambda>x. x\<lparr>ge_timer := None\<rparr>);
     remove_group_entry d e }"

text \<open>
  The loop over the entries with the signature of the queried group; \<open>clock i\<close> is what
  \<open>btime_gettime\<close> returns in iteration \<open>i\<close>.
\<close>

definition lower_one_timer :: "FrameDecider \<Rightarrow> u32 \<Rightarrow> int \<Rightarrow> nat \<Rightarrow> FrameDecider option" where
  "lower_one_timer d grp now e = do {
     x \<leftarrow> fd_groups d e;
     (if ge_group x \<noteq> grp then Some d
      else if ge_timer_endtime x > now + fd_igmp_last_member_query_time d
      then set_group_timer d e (now + fd_igmp_last_member_query_time d)
      else Some d) }"

partial_function (option) lower_loop ::
  "FrameDecider \<Rightarrow> u32 \<Rightarrow> (nat \<Rightarrow> int) \<Rightarrow> nat \<Rightarrow> FrameDecider option" where
  "lower_loop d grp clock i =
     Option.bind (LinkedList3Iterator_Next (fd_ll3 d) lower_it) (\<lambda>p.
       let d' = d\<lparr>fd_ll3 := snd p\<rparr> in
       case fst p of
         None \<Rightarrow> Some d'
       | Some e \<Rightarrow> Option.bind (lower_one_timer d' grp (clock i) e)
                    (\<lambda>d''. lower_loop d'' grp clock (Suc i)))"

definition lower_group_timers_to_lmqt :: "FrameDecider \<Rightarrow> u32 \<Rightarrow> (nat \<Rightarrow> int) \<Rightarrow> FrameDecider option" where
  "lower_group_timers_to_lmqt d grp clock =
     (case fd_multicast_tree d (compute_sig_for_group grp) of
        None \<Rightarrow> Some d
      | Some master \<Rightarrow> do {
          m \<leftarrow> fd_groups d master;
          assert_that (ge_is_master m);
          first \<leftarrow> LinkedList3Node_First (fd_ll3 d) master;
          h \<leftarrow> LinkedList3Iterator_Init (fd_ll3 d) lower_it (Some first) 1;
          lower_loop (d\<lparr>fd_ll3 := h\<rparr>) grp clock 0 })"

section \<open>The decider\<close>

definition FrameDecider_Init :: "nat \<Rightarrow> nat \<Rightarrow> int \<Rightarrow> int \<Rightarrow> FrameDecider option" where
  "FrameDecider_Init max_macs max_groups membership_interval lmqt = do {
     assert_that (max_macs > 0);
     assert_that (max_groups > 0);
     Some \<lparr>fd_max_peer_macs = max_macs, fd_max_peer_groups = max_groups,
       fd_igmp_group_membership_interval = membership_interval,
       fd_igmp_last_member_query_time = lmqt,
       fd_peers_list = [], fd_macs_tree = Map.empty, fd_multicast_tree = Map.empty,
       fd_decide_state = DECIDE_STATE_NONE, fd_decide_flood_current = None,
       fd_decide_unicast_peer = None,
       fd_peers = Map.empty, fd_macs = Map.empty, fd_groups = Map.empty,
       fd_ll3 = \<lparr>l3_nodes = Map.empty, l3_iters = Map.empty\<rparr>\<rparr> }"

record ethernet_header =
  eth_dest :: "byte list"
  eth_source :: "byte list"
  eth_type :: u16

definition ethernet_header_of :: "byte list \<Rightarrow> ethernet_header" where
  "ethernet_header_of b =
     \<lparr>eth_dest = seg b 0 6, eth_source = seg b 6 6, eth_type = mk16 (b ! 12) (b ! 13)\<rparr>"

definition rd32 :: "byte list \<Rightarrow> nat \<Rightarrow> u32" where
  "rd32 b i = mk32 (b ! i) (b ! (i + 1)) (b ! (i + 2)) (b ! (i + 3))"

definition rd16 :: "byte list \<Rightarrow> nat \<Rightarrow> u16" where
  "rd16 b i = mk16 (b ! i) (b ! (i + 1))"

text \<open>Skipping \<open>n\<close> records \<open>struct igmp_source\<close>; \<open>None\<close> is the jump to \<open>out\<close> on a short one.\<close>

fun skip_igmp_sources :: "nat \<Rightarrow> byte list \<Rightarrow> byte list option" where
  "skip_igmp_sources 0 b = Some b"
| "skip_igmp_sources (Suc n) b = (if length b < 4 then None else skip_igmp_sources n (drop 4 b))"

text \<open>A membership query, after the \<open>igmp_base\<close> header: the group to lower the timers of, if any.\<close>

definition igmp_query_group :: "byte \<Rightarrow> byte list \<Rightarrow> u32 option" where
  "igmp_query_group max_resp_code b =
     (if length b = 4 \<and> max_resp_code \<noteq> 0 then
        (if ntoh32 (rd32 b 0) \<noteq> 0 then Some (rd32 b 0) else None)
      else if length b \<ge> 8 then
        (let num_sources = ntoh16 (rd16 b 6) in
         case skip_igmp_sources (unat num_sources) (drop 8 b) of
           None \<Rightarrow> None
         | Some _ \<Rightarrow> if ntoh32 (rd32 b 0) \<noteq> 0 \<and> num_sources = 0 then Some (rd32 b 0) else None)
      else None)"

text \<open>The switch on the ether type: whether it is IGMP, and the group of a group-specific query.\<close>

definition decide_analyze :: "byte list \<Rightarrow> bool \<times> u32 option" where
  "decide_analyze frame =
     (if ntoh16 (eth_type (ethernet_header_of frame)) \<noteq> 0x0800 then (False, None)
      else case ipv4_check (drop 14 frame) of
        None \<Rightarrow> (False, None)
      | Some (hdr, b) \<Rightarrow>
          if ip4_protocol hdr \<noteq> 2 then (False, None)
          else if length b < 4 then (True, None)
          else if b ! 0 = 0x11 then (True, igmp_query_group (b ! 1) (drop 4 b))
          else (True, None))"

definition broadcast_mac :: "byte list" where
  "broadcast_mac = [0xff, 0xff, 0xff, 0xff, 0xff, 0xff]"

definition decide_destination :: "FrameDecider \<Rightarrow> bool \<Rightarrow> byte list \<Rightarrow> FrameDecider option" where
  "decide_destination d is_igmp dest =
     (let flood = d\<lparr>fd_decide_state := DECIDE_STATE_FLOOD,
                    fd_decide_flood_current := first_opt (fd_peers_list d)\<rparr> in
      if is_igmp \<or> dest = broadcast_mac then Some flood
      else if take 3 dest = [0x01, 0x00, 0x5e] then
        (case fd_multicast_tree d (compute_sig_for_mac dest) of
           None \<Rightarrow> Some d
         | Some master \<Rightarrow> do {
             m \<leftarrow> fd_groups d master;
             assert_that (ge_is_master m);
             first \<leftarrow> LinkedList3Node_First (fd_ll3 d) master;
             h \<leftarrow> LinkedList3Iterator_Init (fd_ll3 d) decide_multicast_it (Some first) 1;
             Some (d\<lparr>fd_decide_state := DECIDE_STATE_MULTICAST, fd_ll3 := h\<rparr>) })
      else (case fd_macs_tree d dest of
          Some e \<Rightarrow> do {
            x \<leftarrow> fd_macs d e;
            Some (d\<lparr>fd_decide_state := DECIDE_STATE_UNICAST,
                    fd_decide_unicast_peer := Some (me_peer x)\<rparr>) }
        | None \<Rightarrow> Some flood))"

definition FrameDecider_AnalyzeAndDecide ::
  "FrameDecider \<Rightarrow> byte list \<Rightarrow> (nat \<Rightarrow> int) \<Rightarrow> FrameDecider option" where
  "FrameDecider_AnalyzeAndDecide d frame clock =
     (if fd_decide_state d = DECIDE_STATE_MULTICAST then do {
        h \<leftarrow> LinkedList3Iterator_Free (fd_ll3 d) decide_multicast_it;
        Some (d\<lparr>fd_ll3 := h\<rparr>) }
      else
        let d = d\<lparr>fd_decide_state := DECIDE_STATE_NONE, fd_decide_flood_current := None\<rparr> in
        if length frame < 14 then Some d
        else
          let (is_igmp, query) = decide_analyze frame in do {
            d \<leftarrow> (case query of None \<Rightarrow> Some d
                  | Some grp \<Rightarrow> lower_group_timers_to_lmqt d grp clock);
            decide_destination d is_igmp (eth_dest (ethernet_header_of frame)) })"

definition FrameDecider_NextDestination :: "FrameDecider \<Rightarrow> (nat option \<times> FrameDecider) option" where
  "FrameDecider_NextDestination d =
     (case fd_decide_state d of
        DECIDE_STATE_NONE \<Rightarrow> Some (None, d)
      | DECIDE_STATE_UNICAST \<Rightarrow>
          Some (fd_decide_unicast_peer d, d\<lparr>fd_decide_state := DECIDE_STATE_NONE\<rparr>)
      | DECIDE_STATE_FLOOD \<Rightarrow>
          (case fd_decide_flood_current d of
             None \<Rightarrow> Some (None, d\<lparr>fd_decide_state := DECIDE_STATE_NONE\<rparr>)
           | Some p \<Rightarrow> do {
               n \<leftarrow> ll1_next (fd_peers_list d) p;
               Some (Some p, d\<lparr>fd_decide_flood_current := n\<rparr>) })
      | DECIDE_STATE_MULTICAST \<Rightarrow> do {
          (e, h) \<leftarrow> LinkedList3Iterator_Next (fd_ll3 d) decide_multicast_it;
          let d = d\<lparr>fd_ll3 := h\<rparr> in
          (case e of
             None \<Rightarrow> Some (None, d\<lparr>fd_decide_state := DECIDE_STATE_NONE\<rparr>)
           | Some e \<Rightarrow> do { x \<leftarrow> fd_groups d e; Some (Some (ge_peer x), d) }) })"

text \<open>\<open>device_dpsource_handler\<close> of \<open>client/client.c\<close>: the peers a frame is routed to, each with the
  flag \<open>more\<close> that \<open>DataProtoFlow_Route\<close> gets.\<close>

partial_function (option) route_loop ::
  "FrameDecider \<Rightarrow> nat option \<Rightarrow> (nat \<times> bool) list \<Rightarrow> ((nat \<times> bool) list \<times> FrameDecider) option" where
  "route_loop d decider_peer acc =
     (case decider_peer of
        None \<Rightarrow> Some (acc, d)
      | Some p \<Rightarrow> Option.bind (FrameDecider_NextDestination d)
          (\<lambda>r. route_loop (snd r) (fst r) (acc @ [(p, fst r \<noteq> None)])))"

definition device_dpsource_handler ::
  "FrameDecider \<Rightarrow> byte list \<Rightarrow> (nat \<Rightarrow> int) \<Rightarrow> ((nat \<times> bool) list \<times> FrameDecider) option" where
  "device_dpsource_handler d frame clock = do {
     d \<leftarrow> FrameDecider_AnalyzeAndDecide d frame clock;
     (p, d) \<leftarrow> FrameDecider_NextDestination d;
     route_loop d p [] }"

section \<open>Peers\<close>

definition init_macs :: "(nat \<rightharpoonup> mac_entry) \<Rightarrow> nat \<Rightarrow> nat \<Rightarrow> nat \<Rightarrow> nat \<rightharpoonup> mac_entry" where
  "init_macs M base n p = (\<lambda>a. if base \<le> a \<and> a < base + n
     then Some \<lparr>me_peer = p, me_mac = []\<rparr> else M a)"

definition init_groups :: "(nat \<rightharpoonup> group_entry) \<Rightarrow> nat \<Rightarrow> nat \<Rightarrow> nat \<Rightarrow> nat \<rightharpoonup> group_entry" where
  "init_groups G base n p = (\<lambda>a. if base \<le> a \<and> a < base + n
     then Some \<lparr>ge_peer = p, ge_timer = None, ge_group = 0, ge_timer_endtime = 0,
                ge_is_master = False, ge_master_sig = 0\<rparr> else G a)"

text \<open>The result is the return value and the new state; the arguments \<open>macs\<close> and \<open>groups\<close> are what
  the two \<open>BAllocArray\<close> calls return.\<close>

definition FrameDeciderPeer_Init ::
  "FrameDecider \<Rightarrow> nat \<Rightarrow> nat option \<Rightarrow> nat option \<Rightarrow> (bool \<times> FrameDecider)" where
  "FrameDeciderPeer_Init d p macs groups =
     (case macs of
        None \<Rightarrow> (False, d)
      | Some mb \<Rightarrow> (case groups of
          None \<Rightarrow> (False, d)
        | Some gb \<Rightarrow>
            (True, d\<lparr>fd_peers_list := fd_peers_list d @ [p],
               fd_macs := init_macs (fd_macs d) mb (fd_max_peer_macs d) p,
               fd_groups := init_groups (fd_groups d) gb (fd_max_peer_groups d) p,
               fd_peers := (fd_peers d)(p \<mapsto>
                 \<lparr>fp_mac_entries = mb, fp_group_entries = gb,
                  fp_mac_entries_free = [mb..<mb + fd_max_peer_macs d],
                  fp_mac_entries_used = [],
                  fp_group_entries_free = [gb..<gb + fd_max_peer_groups d],
                  fp_group_entries_used = [],
                  fp_groups_tree = Map.empty\<rparr>)\<rparr>)))"

fun free_used_groups :: "FrameDecider \<Rightarrow> nat list \<Rightarrow> FrameDecider option" where
  "free_used_groups d [] = Some d"
| "free_used_groups d (e # es) = do {
     d \<leftarrow> remove_from_multicast d e;
     d \<leftarrow> upd_fdgroup d e (\<lambda>x. x\<lparr>ge_timer := None\<rparr>);
     free_used_groups d es }"

fun free_used_macs :: "FrameDecider \<Rightarrow> nat list \<Rightarrow> FrameDecider option" where
  "free_used_macs d [] = Some d"
| "free_used_macs d (e # es) = do { d \<leftarrow> FDMacsTree_Remove d e; free_used_macs d es }"

definition free_block :: "(nat \<rightharpoonup> 'a) \<Rightarrow> nat \<Rightarrow> nat \<Rightarrow> nat \<rightharpoonup> 'a" where
  "free_block M base n = (\<lambda>a. if base \<le> a \<and> a < base + n then None else M a)"

definition FrameDeciderPeer_Free :: "FrameDecider \<Rightarrow> nat \<Rightarrow> FrameDecider option" where
  "FrameDeciderPeer_Free d p = do {
     q \<leftarrow> fd_peers d p;
     d \<leftarrow> Some (if fd_decide_state d = DECIDE_STATE_UNICAST \<and> fd_decide_unicast_peer d = Some p
                then d\<lparr>fd_decide_state := DECIDE_STATE_NONE\<rparr> else d);
     d \<leftarrow> free_used_groups d (fp_group_entries_used q);
     d \<leftarrow> free_used_macs d (fp_mac_entries_used q);
     d \<leftarrow> (if fd_decide_flood_current d = Some p then do {
             n \<leftarrow> ll1_next (fd_peers_list d) p;
             Some (d\<lparr>fd_decide_flood_current := n\<rparr>) }
           else Some d);
     ps \<leftarrow> ll1_remove (fd_peers_list d) p;
     Some (d\<lparr>fd_peers_list := ps,
       fd_groups := free_block (fd_groups d) (fp_group_entries q) (fd_max_peer_groups d),
       fd_ll3 := (fd_ll3 d)\<lparr>l3_nodes :=
          free_block (l3_nodes (fd_ll3 d)) (fp_group_entries q) (fd_max_peer_groups d)\<rparr>,
       fd_macs := free_block (fd_macs d) (fp_mac_entries q) (fd_max_peer_macs d),
       fd_peers := (fd_peers d)(p := None)\<rparr>) }"

text \<open>One \<open>struct igmp_v3_report_record\<close> with its sources and auxiliary data; \<open>ntoh16\<close> is applied to
  the one-byte field \<open>aux_data_len\<close>, as in the code. \<open>None\<close> is the jump to \<open>out\<close>; otherwise the
  group to join, if any, and what follows the record.\<close>

definition igmp_v3_record :: "byte list \<Rightarrow> (u32 option \<times> byte list) option" where
  "igmp_v3_record b =
     (if length b < 8 then None
      else
        let num_sources = ntoh16 (rd16 b 2); aux_len = ntoh16 (ucast (b ! 1) :: u16); grp = rd32 b 4 in do {
          r \<leftarrow> skip_igmp_sources (unat num_sources) (drop 8 b);
          (if length r < unat aux_len then None
           else Some
             (if b ! 0 = 1 \<or> b ! 0 = 3 then (if num_sources \<noteq> 0 then Some grp else None)
              else if b ! 0 = 2 \<or> b ! 0 = 4 then Some grp
              else None, drop (unat aux_len) r)) })"

fun add_v3_records ::
  "FrameDecider \<Rightarrow> nat \<Rightarrow> nat \<Rightarrow> byte list \<Rightarrow> (nat \<Rightarrow> int) \<Rightarrow> nat \<Rightarrow> FrameDecider option" where
  "add_v3_records d p 0 b clock i = Some d"
| "add_v3_records d p (Suc n) b clock i =
     (case igmp_v3_record b of
        None \<Rightarrow> Some d
      | Some (None, r) \<Rightarrow> add_v3_records d p n r clock (Suc i)
      | Some (Some grp, r) \<Rightarrow> do {
          d \<leftarrow> add_group_to_peer d p grp (clock i);
          add_v3_records d p n r clock (Suc i) })"

definition analyze_igmp :: "FrameDecider \<Rightarrow> nat \<Rightarrow> byte list \<Rightarrow> (nat \<Rightarrow> int) \<Rightarrow> FrameDecider option" where
  "analyze_igmp d p b clock =
     (if length b < 4 then Some d
      else if b ! 0 = 0x16 then
        (if length b < 8 then Some d else add_group_to_peer d p (rd32 b 4) (clock 0))
      else if b ! 0 = 0x22 then
        (if length b < 8 then Some d
         else add_v3_records d p (unat (ntoh16 (rd16 b 6))) (drop 8 b) clock 0)
      else Some d)"

definition FrameDeciderPeer_Analyze ::
  "FrameDecider \<Rightarrow> nat \<Rightarrow> byte list \<Rightarrow> (nat \<Rightarrow> int) \<Rightarrow> FrameDecider option" where
  "FrameDeciderPeer_Analyze d p frame clock =
     (if length frame < 14 then Some d
      else do {
        d \<leftarrow> add_mac_to_peer d p (eth_source (ethernet_header_of frame));
        (if ntoh16 (eth_type (ethernet_header_of frame)) \<noteq> 0x0800 then Some d
         else case ipv4_check (drop 14 frame) of
           None \<Rightarrow> Some d
         | Some (hdr, b) \<Rightarrow> if ip4_protocol hdr \<noteq> 2 then Some d else analyze_igmp d p b clock) })"

definition FrameDecider_Free :: "FrameDecider \<Rightarrow> unit option" where
  "FrameDecider_Free d = do {
     assert_that (fd_multicast_tree d = Map.empty);
     assert_that (fd_macs_tree d = Map.empty);
     assert_that (fd_peers_list d = []) }"

end
