(* ===== verification/FrameDeciderInv.thy ===== *)
theory FrameDeciderInv
  imports FrameDecider
begin

text \<open>
  The invariant of the frame decider and its preservation by the internal operations. The MAC part
  says that a peer's entries are split into free and used ones and that the MAC tree holds exactly
  the used entries of all peers. The multicast part says that the heap lists hold, for every
  signature, exactly the entries joined to a group with it, and that the multicast tree finds the
  one master of each list.
\<close>

lemmas fd_upd_defs = upd_fdpeer_def upd_fdmac_def upd_fdgroup_def

section \<open>The multicast lists\<close>

text \<open>What the multicast functions do not change in an entry.\<close>

definition gcore :: "FrameDecider \<Rightarrow> nat \<Rightarrow> (nat \<times> int option \<times> u32 \<times> int) option" where
  "gcore d e = map_option (\<lambda>x. (ge_peer x, ge_timer x, ge_group x, ge_timer_endtime x)) (fd_groups d e)"

definition gsig :: "FrameDecider \<Rightarrow> nat \<Rightarrow> u32 option" where
  "gsig d e = map_option (\<lambda>x. compute_sig_for_group (ge_group x)) (fd_groups d e)"

lemma gsig_gcore: "gsig d e = map_option (\<lambda>(p, t, g, n). compute_sig_for_group g) (gcore d e)"
  by (simp add: gsig_def gcore_def option.map_comp comp_def)

definition is_master :: "FrameDecider \<Rightarrow> nat \<Rightarrow> bool" where
  "is_master d e = (case fd_groups d e of None \<Rightarrow> False | Some x \<Rightarrow> ge_is_master x)"

definition mc_ok :: "FrameDecider \<Rightarrow> (u32 \<Rightarrow> nat list) \<Rightarrow> (nat \<Rightarrow> nat list) \<Rightarrow> nat set \<Rightarrow> bool" where
  "mc_ok d L C U \<longleftrightarrow>
     ll3_wf (fd_ll3 d) L C \<and>
     (\<forall>s e. e \<in> set (L s) \<longleftrightarrow> e \<in> U \<and> gsig d e = Some s) \<and>
     U \<subseteq> dom (fd_groups d) \<and>
     (\<forall>s. fd_multicast_tree d s = None \<longrightarrow> L s = []) \<and>
     (\<forall>s m. fd_multicast_tree d s = Some m \<longrightarrow>
        m \<in> set (L s) \<and> (\<exists>x. fd_groups d m = Some x \<and> ge_is_master x \<and> ge_master_sig x = s)) \<and>
     (\<forall>s e. e \<in> set (L s) \<and> is_master d e \<longrightarrow> fd_multicast_tree d s = Some e)"

text \<open>The parts of the state that only the multicast functions change.\<close>

definition mc_frame :: "FrameDecider \<Rightarrow> FrameDecider \<Rightarrow> bool" where
  "mc_frame d d' \<longleftrightarrow> gcore d' = gcore d \<and>
     (\<exists>G T h. d' = d\<lparr>fd_groups := G, fd_multicast_tree := T, fd_ll3 := h\<rparr>)"

lemma mc_frame_simps:
  assumes "mc_frame d d'"
  shows "fd_peers d' = fd_peers d" "fd_macs d' = fd_macs d" "fd_macs_tree d' = fd_macs_tree d"
    "fd_peers_list d' = fd_peers_list d" "fd_decide_state d' = fd_decide_state d"
    "fd_decide_flood_current d' = fd_decide_flood_current d"
    "fd_decide_unicast_peer d' = fd_decide_unicast_peer d"
    "fd_max_peer_macs d' = fd_max_peer_macs d" "fd_max_peer_groups d' = fd_max_peer_groups d"
    "fd_igmp_group_membership_interval d' = fd_igmp_group_membership_interval d"
    "fd_igmp_last_member_query_time d' = fd_igmp_last_member_query_time d"
    "gcore d' = gcore d"
  using assms by (auto simp: mc_frame_def)

lemma mc_frame_refl: "mc_frame d d"
  unfolding mc_frame_def by (intro conjI refl exI [of _ "fd_groups d"]
    exI [of _ "fd_multicast_tree d"] exI [of _ "fd_ll3 d"]) simp

lemma mc_frame_trans:
  assumes "mc_frame d d'" "mc_frame d' d''"
  shows "mc_frame d d''"
proof -
  obtain G T h G' T' h' where "d' = d\<lparr>fd_groups := G, fd_multicast_tree := T, fd_ll3 := h\<rparr>"
    "d'' = d'\<lparr>fd_groups := G', fd_multicast_tree := T', fd_ll3 := h'\<rparr>"
    using assms unfolding mc_frame_def by blast
  then have "d'' = d\<lparr>fd_groups := G', fd_multicast_tree := T', fd_ll3 := h'\<rparr>" by simp
  then show ?thesis using assms unfolding mc_frame_def by metis
qed

lemma mc_frameI:
  "d' = d\<lparr>fd_groups := G, fd_multicast_tree := T, fd_ll3 := h\<rparr> \<Longrightarrow> gcore d' = gcore d \<Longrightarrow> mc_frame d d'"
  unfolding mc_frame_def by blast

lemma mc_ok_D:
  assumes "mc_ok d L C U"
  shows "ll3_wf (fd_ll3 d) L C" "e \<in> set (L s) \<longleftrightarrow> e \<in> U \<and> gsig d e = Some s"
    "e \<in> U \<Longrightarrow> e \<in> dom (fd_groups d)"
    "fd_multicast_tree d s = None \<Longrightarrow> L s = []"
    "fd_multicast_tree d s = Some m \<Longrightarrow>
       m \<in> set (L s) \<and> (\<exists>x. fd_groups d m = Some x \<and> ge_is_master x \<and> ge_master_sig x = s)"
    "e \<in> set (L s) \<Longrightarrow> is_master d e \<Longrightarrow> fd_multicast_tree d s = Some e"
  using assms unfolding mc_ok_def by blast+

lemma mc_okI:
  assumes "ll3_wf (fd_ll3 d) L C" "\<And>s e. e \<in> set (L s) \<longleftrightarrow> e \<in> U \<and> gsig d e = Some s"
    "\<And>e. e \<in> U \<Longrightarrow> e \<in> dom (fd_groups d)"
    "\<And>s. fd_multicast_tree d s = None \<Longrightarrow> L s = []"
    "\<And>s m. fd_multicast_tree d s = Some m \<Longrightarrow> m \<in> set (L s)"
    "\<And>s m. fd_multicast_tree d s = Some m \<Longrightarrow>
       \<exists>x. fd_groups d m = Some x \<and> ge_is_master x \<and> ge_master_sig x = s"
    "\<And>s e. e \<in> set (L s) \<Longrightarrow> is_master d e \<Longrightarrow> fd_multicast_tree d s = Some e"
  shows "mc_ok d L C U"
  unfolding mc_ok_def using assms by blast

lemma mc_ok_live: "mc_ok d L C U \<Longrightarrow> l3_live L = U"
  using mc_ok_D(2,3) by (fastforce simp: l3_live_iff gsig_def)

lemma gcore_upd_master:
  assumes "fd_groups d e = Some x" "fd_groups d' = (fd_groups d)(e \<mapsto> y)"
    "ge_peer y = ge_peer x" "ge_timer y = ge_timer x" "ge_group y = ge_group x"
    "ge_timer_endtime y = ge_timer_endtime x"
  shows "gcore d' = gcore d"
  using assms by (simp add: gcore_def fun_eq_iff)

lemma gsig_eq: "gcore d' = gcore d \<Longrightarrow> gsig d' = gsig d"
  by (simp add: gsig_gcore fun_eq_iff)

lemma dom_gcore: "dom (gcore d) = dom (fd_groups d)"
  by (auto simp: gcore_def)

lemma add_to_multicast_ok:
  assumes ok: "mc_ok d L C U" and new: "e \<notin> U" and x: "fd_groups d e = Some x"
  shows "\<exists>d' L'. add_to_multicast d e = Some d' \<and> mc_ok d' L' C (insert e U) \<and> mc_frame d d' \<and>
    l3_iters (fd_ll3 d') = l3_iters (fd_ll3 d)"
proof -
  let ?s = "compute_sig_for_group (ge_group x)"
  have dead: "e \<notin> l3_live L" using mc_ok_live [OF ok] new by simp
  have gs: "gsig d e = Some ?s" using x by (simp add: gsig_def)
  show ?thesis
  proof (cases "fd_multicast_tree d ?s")
    case None
    then have L: "L ?s = []" by (rule mc_ok_D(4) [OF ok])
    let ?y = "x\<lparr>ge_is_master := True, ge_master_sig := ?s\<rparr>"
    let ?h = "LinkedList3Node_InitLonely (fd_ll3 d) e"
    let ?d = "d\<lparr>fd_groups := (fd_groups d)(e \<mapsto> ?y), fd_multicast_tree := (fd_multicast_tree d)(?s \<mapsto> e), fd_ll3 := ?h\<rparr>"
    let ?L = "L(?s := [e])"
    have run: "add_to_multicast d e = Some ?d"
      unfolding add_to_multicast_def
      by (simp add: x None fd_upd_defs FDMulticastTree_Insert_def Let_def)
    have core: "gcore ?d = gcore d" by (rule gcore_upd_master [OF x, where y = ?y]) simp_all
    have mem: "b \<in> set (?L s) \<longleftrightarrow> b \<in> insert e U \<and> gsig d b = Some s" for s b
      using mc_ok_D(2) [OF ok, of b s] L gs mc_ok_D(2) [OF ok, of b ?s] new by auto
    have im: "is_master ?d b \<longleftrightarrow> b = e \<or> is_master d b" for b
      by (simp add: is_master_def)
    have old: "m \<noteq> e \<and> m \<in> set (L s) \<and> s \<noteq> ?s" if "fd_multicast_tree d s = Some m" for m s
      using mc_ok_D(5) [OF ok that] mc_ok_D(2) [OF ok, of m s] new that None by auto
    have "mc_ok ?d ?L C (insert e U)"
    proof (rule mc_okI)
      show "ll3_wf (fd_ll3 ?d) ?L C" using InitLonely_list [OF mc_ok_D(1) [OF ok] dead L] by simp
      show "b \<in> set (?L s) \<longleftrightarrow> b \<in> insert e U \<and> gsig ?d b = Some s" for s b
        unfolding gsig_eq [OF core] by (rule mem)
      show "b \<in> dom (fd_groups ?d)" if "b \<in> insert e U" for b
        using that mc_ok_D(3) [OF ok, of b] by auto
      show "?L s = []" if "fd_multicast_tree ?d s = None" for s
        using that mc_ok_D(4) [OF ok, of s] by (simp split: if_splits)
      show "m \<in> set (?L s)" if "fd_multicast_tree ?d s = Some m" for s m
        using that old [of s m] by (simp split: if_splits)
      show "\<exists>x. fd_groups ?d m = Some x \<and> ge_is_master x \<and> ge_master_sig x = s"
        if "fd_multicast_tree ?d s = Some m" for s m
        using that old [of s m] mc_ok_D(5) [OF ok, of s m] by (simp split: if_splits)
      show "fd_multicast_tree ?d s = Some b" if "b \<in> set (?L s)" "is_master ?d b" for s b
      proof (cases "s = ?s")
        case False
        then have b: "b \<in> set (L s)" "b \<noteq> e" using that(1) mc_ok_D(2) [OF ok, of b s] new by auto
        then show ?thesis using mc_ok_D(6) [OF ok b(1)] that(2) im False by simp
      qed (use that in simp)
    qed
    moreover have "mc_frame d ?d" by (rule mc_frameI [OF refl core])
    ultimately show ?thesis using run by (intro exI [of _ ?d] exI [of _ ?L]) (simp add: LinkedList3Node_InitLonely_def)
  next
    case (Some m)
    obtain mx where m: "m \<in> set (L ?s)" "fd_groups d m = Some mx" "ge_is_master mx"
      using mc_ok_D(5) [OF ok Some] by blast
    then obtain us vs where L: "L ?s = us @ m # vs" using split_list by meson
    obtain h where h: "LinkedList3Node_InitAfter (fd_ll3 d) e m = Some h"
      "ll3_wf h (L(?s := us @ m # e # vs)) C" "l3_iters h = l3_iters (fd_ll3 d)"
      using InitAfter_list [OF mc_ok_D(1) [OF ok] dead L] by blast
    let ?y = "x\<lparr>ge_is_master := False\<rparr>"
    let ?d = "d\<lparr>fd_groups := (fd_groups d)(e \<mapsto> ?y), fd_multicast_tree := fd_multicast_tree d, fd_ll3 := h\<rparr>"
    let ?L = "L(?s := us @ m # e # vs)"
    have run: "add_to_multicast d e = Some ?d"
      unfolding add_to_multicast_def by (simp add: x Some m fd_upd_defs h(1))
    have core: "gcore ?d = gcore d" by (rule gcore_upd_master [OF x, where y = ?y]) simp_all
    have mem: "b \<in> set (?L s) \<longleftrightarrow> b \<in> insert e U \<and> gsig d b = Some s" for s b
      using mc_ok_D(2) [OF ok, of b s] L gs by auto
    have old: "b \<noteq> e \<and> b \<in> set (L s)" if "fd_multicast_tree d s = Some b" for b s
      using mc_ok_D(5) [OF ok that] mc_ok_D(2) [OF ok, of b s] new by auto
    have "mc_ok ?d ?L C (insert e U)"
    proof (rule mc_okI)
      show "ll3_wf (fd_ll3 ?d) ?L C" using h(2) by simp
      show "b \<in> set (?L s) \<longleftrightarrow> b \<in> insert e U \<and> gsig ?d b = Some s" for s b
        unfolding gsig_eq [OF core] by (rule mem)
      show "b \<in> dom (fd_groups ?d)" if "b \<in> insert e U" for b
        using that mc_ok_D(3) [OF ok, of b] by auto
      show "?L s = []" if "fd_multicast_tree ?d s = None" for s
        using that mc_ok_D(4) [OF ok, of s] Some by auto
      show "b \<in> set (?L s)" if "fd_multicast_tree ?d s = Some b" for s b
        using that old [of s b] L by auto
      show "\<exists>x. fd_groups ?d b = Some x \<and> ge_is_master x \<and> ge_master_sig x = s"
        if "fd_multicast_tree ?d s = Some b" for s b
        using that old [of s b] mc_ok_D(5) [OF ok, of s b] by simp
      show "fd_multicast_tree ?d s = Some b" if "b \<in> set (?L s)" "is_master ?d b" for s b
      proof -
        have "b \<noteq> e" "is_master d b" using that(2) by (auto simp: is_master_def split: if_splits)
        moreover have "b \<in> set (L s)" using that(1) \<open>b \<noteq> e\<close> L by (auto split: if_splits)
        ultimately show ?thesis using mc_ok_D(6) [OF ok] by simp
      qed
    qed
    moreover have "mc_frame d ?d" by (rule mc_frameI [OF refl core])
    ultimately show ?thesis using run h(3) by (intro exI [of _ ?d] exI [of _ ?L]) simp
  qed
qed

text \<open>How the iterators move when the node of \<open>e\<close> is freed.\<close>

definition iters_jump :: "FrameDecider \<Rightarrow> (u32 \<Rightarrow> nat list) \<Rightarrow> (nat \<Rightarrow> nat list) \<Rightarrow> nat \<Rightarrow>
    FrameDecider \<Rightarrow> (u32 \<Rightarrow> nat list) \<Rightarrow> (nat \<Rightarrow> nat list) \<Rightarrow> bool" where
  "iters_jump d L C e d' L' C' \<longleftrightarrow> (\<exists>s xs ys. L s = xs @ e # ys \<and> L' = L(s := xs @ ys) \<and>
     idir (fd_ll3 d') = jumped (fd_ll3 d) C xs e ys \<and>
     (\<forall>y w. w \<in> set (C' y) \<longleftrightarrow> (y \<noteq> e \<and> w \<in> set (C y)) \<or>
       (w \<in> set (C e) \<and> (\<exists>q n. idir (fd_ll3 d) w = Some (q, n) \<and> it_next xs ys n = Some y))))"

lemma mc_ok_unique_master:
  assumes "mc_ok d L C U" "a \<in> set (L s)" "b \<in> set (L s)" "is_master d a" "is_master d b"
  shows "a = b"
  using mc_ok_D(6) [OF assms(1,2,4)] mc_ok_D(6) [OF assms(1,3,5)] by simp

text \<open>The step that hands the mastership of \<open>e\<close> on: afterwards every list but for \<open>e\<close> has its master.\<close>

definition demoted :: "FrameDecider \<Rightarrow> (u32 \<Rightarrow> nat list) \<Rightarrow> nat \<Rightarrow> bool" where
  "demoted d L e \<longleftrightarrow>
     (\<forall>s. fd_multicast_tree d s = None \<longrightarrow> set (L s) \<subseteq> {e}) \<and>
     (\<forall>s m. fd_multicast_tree d s = Some m \<longrightarrow> m \<noteq> e \<and>
        m \<in> set (L s) \<and> (\<exists>x. fd_groups d m = Some x \<and> ge_is_master x \<and> ge_master_sig x = s)) \<and>
     (\<forall>s b. b \<in> set (L s) \<and> b \<noteq> e \<and> is_master d b \<longrightarrow> fd_multicast_tree d s = Some b)"

lemma demoted_D:
  assumes "demoted d L e"
  shows "fd_multicast_tree d s = None \<Longrightarrow> set (L s) \<subseteq> {e}"
    "fd_multicast_tree d s = Some m \<Longrightarrow> m \<noteq> e \<and> m \<in> set (L s)"
    "fd_multicast_tree d s = Some m \<Longrightarrow> \<exists>x. fd_groups d m = Some x \<and> ge_is_master x \<and> ge_master_sig x = s"
    "b \<in> set (L s) \<Longrightarrow> b \<noteq> e \<Longrightarrow> is_master d b \<Longrightarrow> fd_multicast_tree d s = Some b"
  using assms unfolding demoted_def by blast+

lemma demote_master:
  assumes ok: "mc_ok d L C U" and e: "L s = xs @ e # ys" and x: "fd_groups d e = Some x"
  shows "\<exists>d'. (if ge_is_master x then do {
             d \<leftarrow> FDMulticastTree_Remove d e;
             lonely \<leftarrow> LinkedList3Node_IsLonely (fd_ll3 d) e;
             (if lonely then Some d else promote_new_master d e s) }
           else Some d) = Some d' \<and> mc_frame d d' \<and> fd_ll3 d' = fd_ll3 d \<and> demoted d' L e"
proof -
  have es: "e \<in> set (L s)" using e by simp
  have dist: "distinct (xs @ e # ys)" using ll3_wf_list(1) [OF mc_ok_D(1) [OF ok], of s] e by simp
  have only: "b \<in> set (L s') \<Longrightarrow> b \<in> set (L s) \<Longrightarrow> s' = s" for b s'
    using mc_ok_D(2) [OF ok, of b s'] mc_ok_D(2) [OF ok, of b s] by simp
  show ?thesis
  proof (cases "ge_is_master x")
    case False
    then have "fd_multicast_tree d t \<noteq> Some e" for t using mc_ok_D(5) [OF ok, of t e] x by auto
    then have "demoted d L e"
      unfolding demoted_def
    proof (intro conjI allI impI)
      show "set (L t) \<subseteq> {e}" if "fd_multicast_tree d t = None" for t
        using mc_ok_D(4) [OF ok that] by simp
      show "fd_multicast_tree d t = Some b" if "b \<in> set (L t) \<and> b \<noteq> e \<and> is_master d b" for t b
        using mc_ok_D(6) [OF ok, of b t] that by simp
      fix t b assume t: "fd_multicast_tree d t = Some b"
      show "b \<noteq> e" "b \<in> set (L t)" "\<exists>x. fd_groups d b = Some x \<and> ge_is_master x \<and> ge_master_sig x = t"
        using mc_ok_D(5) [OF ok t] mc_ok_D(5) [OF ok, of t e] t x False by auto
    qed
    then show ?thesis using False mc_frame_refl by simp
  next
    case True
    then have m: "is_master d e" using x by (simp add: is_master_def)
    have tree: "fd_multicast_tree d s = Some e" by (rule mc_ok_D(6) [OF ok es m])
    then have sig: "ge_master_sig x = s" using mc_ok_D(5) [OF ok tree] x by auto
    let ?T = "(fd_multicast_tree d)(s := None)"
    let ?d1 = "d\<lparr>fd_multicast_tree := ?T\<rparr>"
    have rm: "FDMulticastTree_Remove d e = Some ?d1" using tree sig x by (simp add: FDMulticastTree_Remove_def)
    have lonely: "LinkedList3Node_IsLonely (fd_ll3 d) e = Some (xs = [] \<and> ys = [])"
      by (rule IsLonely_list [OF mc_ok_D(1) [OF ok] e])
    have oth: "fd_multicast_tree d t = Some b \<Longrightarrow> t \<noteq> s \<Longrightarrow> b \<noteq> e" for t b
      using mc_ok_D(5) [OF ok, of t b] only [of b t] es by blast
    show ?thesis
    proof (cases "xs = [] \<and> ys = []")
      case True
      have core: "gcore ?d1 = gcore d" by (simp add: gcore_def fun_eq_iff)
      have "demoted ?d1 L e"
        unfolding demoted_def
      proof (intro conjI allI impI)
        show "set (L t) \<subseteq> {e}" if "fd_multicast_tree ?d1 t = None" for t
          using that mc_ok_D(4) [OF ok, of t] e True by (cases "t = s") auto
        fix t b assume tb: "fd_multicast_tree ?d1 t = Some b"
        then have t: "fd_multicast_tree d t = Some b" "t \<noteq> s" by (auto split: if_splits)
        show "b \<noteq> e" "b \<in> set (L t)" "\<exists>x. fd_groups ?d1 b = Some x \<and> ge_is_master x \<and> ge_master_sig x = t"
          using oth [OF t] mc_ok_D(5) [OF ok t(1)] by simp_all
      next
        fix t b assume tb: "b \<in> set (L t) \<and> b \<noteq> e \<and> is_master ?d1 b"
        then have "t \<noteq> s" using e True by auto
        then show "fd_multicast_tree ?d1 t = Some b"
          using tb mc_ok_D(6) [OF ok, of b t] by (simp add: is_master_def)
      qed
      then show ?thesis using \<open>ge_is_master x\<close> rm lonely True
          mc_frameI [where G = "fd_groups d" and T = ?T and h = "fd_ll3 d", OF _ core] by (simp del: fun_upd_apply)
    next
      case False
      then obtain n where n: "or_opt (first_opt ys) (first_opt (rev xs)) = Some n" "n \<in> set (xs @ ys)"
        using first_opt_Some [of ys] first_opt_Some [of "rev xs"]
        by (cases "first_opt ys"; cases "first_opt (rev xs)") auto
      have ns: "n \<in> set (L s)" "n \<noteq> e" using n(2) e dist by auto
      then obtain nx where nx: "fd_groups d n = Some nx"
        using mc_ok_D(2,3) [OF ok] by blast
      have nm: "\<not> ge_is_master nx"
        using mc_ok_unique_master [OF ok ns(1) es _ m] ns(2) nx by (auto simp: is_master_def)
      let ?y = "nx\<lparr>ge_is_master := True, ge_master_sig := s\<rparr>"
      let ?d2 = "d\<lparr>fd_groups := (fd_groups d)(n \<mapsto> ?y), fd_multicast_tree := ?T(s \<mapsto> n), fd_ll3 := fd_ll3 d\<rparr>"
      have nop: "LinkedList3Node_NextOrPrev (fd_ll3 d) e = Some (Some n)"
        using NextOrPrev_list [OF mc_ok_D(1) [OF ok] e] n(1) by simp
      have run: "promote_new_master ?d1 e s = Some ?d2"
        by (simp add: promote_new_master_def nop nx nm fd_upd_defs FDMulticastTree_Insert_def)
      have core: "gcore ?d2 = gcore d" by (rule gcore_upd_master [OF nx, where y = ?y]) simp_all
      have "demoted ?d2 L e"
        unfolding demoted_def
      proof (intro conjI allI impI)
        show "set (L t) \<subseteq> {e}" if "fd_multicast_tree ?d2 t = None" for t
          using that mc_ok_D(4) [OF ok, of t] by (simp split: if_splits)
        fix t b assume tb: "fd_multicast_tree ?d2 t = Some b"
        have "t \<noteq> s \<Longrightarrow> b \<noteq> n"
          using tb mc_ok_D(5) [OF ok, of t b] only [of n t] ns(1) by (auto split: if_splits)
        then show "b \<noteq> e" "b \<in> set (L t)"
          "\<exists>x. fd_groups ?d2 b = Some x \<and> ge_is_master x \<and> ge_master_sig x = t"
          using tb oth [of t b] mc_ok_D(5) [OF ok, of t b] ns by (auto split: if_splits)
      next
        fix t b assume tb: "b \<in> set (L t) \<and> b \<noteq> e \<and> is_master ?d2 b"
        show "fd_multicast_tree ?d2 t = Some b"
        proof (cases "b = n")
          case True
          then show ?thesis using tb only [of n t] ns(1) by simp
        next
          case False
          then have b: "is_master d b" using tb by (simp add: is_master_def)
          then have "t \<noteq> s" using mc_ok_unique_master [OF ok _ es b m] tb by blast
          then show ?thesis using mc_ok_D(6) [OF ok _ b] tb by simp
        qed
      qed
      then show ?thesis using \<open>ge_is_master x\<close> rm lonely False run mc_frameI [OF refl core] by (simp del: fun_upd_apply)
    qed
  qed
qed

lemma remove_from_multicast_ok:
  assumes ok: "mc_ok d L C U" and e: "e \<in> U"
  shows "\<exists>d' L' C'. remove_from_multicast d e = Some d' \<and> mc_ok d' L' C' (U - {e}) \<and>
    mc_frame d d' \<and> iters_jump d L C e d' L' C'"
proof -
  obtain x where x: "fd_groups d e = Some x" using mc_ok_D(3) [OF ok e] by blast
  let ?s = "compute_sig_for_group (ge_group x)"
  have es: "e \<in> set (L ?s)" using mc_ok_D(2) [OF ok, of e ?s] e x by (simp add: gsig_def)
  then obtain xs ys where L: "L ?s = xs @ e # ys" using split_list by meson
  obtain d1 where d1: "(if ge_is_master x then do {
             d \<leftarrow> FDMulticastTree_Remove d e;
             lonely \<leftarrow> LinkedList3Node_IsLonely (fd_ll3 d) e;
             (if lonely then Some d else promote_new_master d e ?s) }
           else Some d) = Some d1" "mc_frame d d1" "fd_ll3 d1 = fd_ll3 d" "demoted d1 L e"
    using demote_master [OF ok L x] by blast
  obtain h C' where h: "LinkedList3Node_Free (fd_ll3 d) e = Some h"
    "ll3_wf h (L(?s := xs @ ys)) C'" "idir h = jumped (fd_ll3 d) C xs e ys"
    "\<forall>y w. w \<in> set (C' y) \<longleftrightarrow> (y \<noteq> e \<and> w \<in> set (C y)) \<or>
       (w \<in> set (C e) \<and> (\<exists>q n. idir (fd_ll3 d) w = Some (q, n) \<and> it_next xs ys n = Some y))"
    using Node_Free_list [OF mc_ok_D(1) [OF ok] L] by blast
  let ?d = "d1\<lparr>fd_ll3 := h\<rparr>"
  let ?L = "L(?s := xs @ ys)"
  have run: "remove_from_multicast d e = Some ?d"
    unfolding remove_from_multicast_def using d1(1,3) h(1) by (simp add: x Let_def)
  have core: "gcore ?d = gcore d1" by (simp add: gcore_def fun_eq_iff)
  have frame: "mc_frame d ?d"
    by (rule mc_frame_trans [OF d1(2)], rule mc_frameI [OF _ core, where G = "fd_groups d1"
          and T = "fd_multicast_tree d1" and h = h]) simp
  have g: "gsig ?d = gsig d" "dom (fd_groups ?d) = dom (fd_groups d)"
    using gsig_eq [OF mc_frame_simps(12) [OF frame]] mc_frame_simps(12) [OF frame]
    unfolding dom_gcore [symmetric] by simp_all
  have dist: "distinct (xs @ e # ys)" using ll3_wf_list(1) [OF mc_ok_D(1) [OF ok], of ?s] L by simp
  have only: "e \<in> set (L s) \<longleftrightarrow> s = ?s" for s
    using mc_ok_D(2) [OF ok, of e s] mc_ok_D(2) [OF ok, of e ?s] es by auto
  have mem: "b \<in> set (?L s) \<longleftrightarrow> b \<in> set (L s) \<and> b \<noteq> e" for s b
    using only [of s] L dist by auto
  have im: "is_master ?d b = is_master d1 b" for b by (simp add: is_master_def)
  have "mc_ok ?d ?L C' (U - {e})"
  proof (rule mc_okI)
    show "ll3_wf (fd_ll3 ?d) ?L C'" using h(2) by simp
    show "b \<in> set (?L s) \<longleftrightarrow> b \<in> U - {e} \<and> gsig ?d b = Some s" for s b
      using mem mc_ok_D(2) [OF ok, of b s] unfolding g by blast
    show "b \<in> dom (fd_groups ?d)" if "b \<in> U - {e}" for b
      using that mc_ok_D(3) [OF ok, of b] unfolding g by blast
    have t: "fd_multicast_tree ?d = fd_multicast_tree d1" "fd_groups ?d = fd_groups d1" by simp_all
    show "?L s = []" if "fd_multicast_tree ?d s = None" for s
    proof -
      have "set (L s) \<subseteq> {e}" using demoted_D(1) [OF d1(4)] that unfolding t by blast
      then have "set (?L s) \<subseteq> {}" using mem by blast
      then show ?thesis by (simp del: fun_upd_apply)
    qed
    show "m \<in> set (?L s)" if "fd_multicast_tree ?d s = Some m" for s m
      using that demoted_D(2) [OF d1(4)] mem unfolding t by blast
    show "\<exists>x. fd_groups ?d m = Some x \<and> ge_is_master x \<and> ge_master_sig x = s"
      if "fd_multicast_tree ?d s = Some m" for s m
      using that demoted_D(3) [OF d1(4)] unfolding t by blast
    show "fd_multicast_tree ?d s = Some b" if "b \<in> set (?L s)" "is_master ?d b" for s b
      using that demoted_D(4) [OF d1(4)] mem im unfolding t by blast
  qed
  moreover have "iters_jump d L C e ?d ?L C'"
    unfolding iters_jump_def using L h(3,4) by (intro exI [of _ ?s] exI [of _ xs] exI [of _ ys]) simp
  ultimately show ?thesis using run frame by blast
qed

section \<open>The MAC entries\<close>

definition mused :: "FrameDecider \<Rightarrow> nat \<Rightarrow> nat list" where
  "mused d p = (case fd_peers d p of None \<Rightarrow> [] | Some q \<Rightarrow> fp_mac_entries_used q)"

definition mac_of :: "FrameDecider \<Rightarrow> nat \<Rightarrow> byte list" where
  "mac_of d e = (case fd_macs d e of None \<Rightarrow> [] | Some x \<Rightarrow> me_mac x)"

definition mowner :: "FrameDecider \<Rightarrow> nat \<Rightarrow> nat option" where
  "mowner d e = map_option me_peer (fd_macs d e)"

definition mpeer_ok :: "FrameDecider \<Rightarrow> nat \<Rightarrow> FrameDeciderPeer \<Rightarrow> bool" where
  "mpeer_ok d p q \<longleftrightarrow>
     distinct (fp_mac_entries_free q @ fp_mac_entries_used q) \<and>
     set (fp_mac_entries_free q @ fp_mac_entries_used q) =
       {fp_mac_entries q..<fp_mac_entries q + fd_max_peer_macs d} \<and>
     (\<forall>e\<in>set (fp_mac_entries_free q @ fp_mac_entries_used q). mowner d e = Some p) \<and>
     (\<forall>e\<in>set (fp_mac_entries_used q). fd_macs_tree d (mac_of d e) = Some e)"

definition mac_ok :: "FrameDecider \<Rightarrow> bool" where
  "mac_ok d \<longleftrightarrow> (\<forall>p q. fd_peers d p = Some q \<longrightarrow> mpeer_ok d p q) \<and>
     (\<forall>m e. fd_macs_tree d m = Some e \<longrightarrow>
        mac_of d e = m \<and> (\<exists>p q. fd_peers d p = Some q \<and> e \<in> set (fp_mac_entries_used q)))"

text \<open>The abstract table: for each peer, its MAC addresses, the least recently seen first.\<close>

definition macs_table :: "FrameDecider \<Rightarrow> nat \<Rightarrow> byte list list" where
  "macs_table d p = map (mac_of d) (mused d p)"

definition lru_add :: "nat \<Rightarrow> 'a list \<Rightarrow> 'a \<Rightarrow> 'a list" where
  "lru_add limit xs m =
     (let rest = removeAll m xs in if length rest < limit then rest @ [m] else tl rest @ [m])"

definition learn_mac :: "nat \<Rightarrow> (nat \<Rightarrow> byte list list) \<Rightarrow> nat \<Rightarrow> byte list \<Rightarrow> nat \<Rightarrow> byte list list" where
  "learn_mac limit A p m q = (if q = p then lru_add limit (A q) m else removeAll m (A q))"

text \<open>What \<open>add_mac_to_peer\<close> leaves alone.\<close>

definition gpart :: "FrameDeciderPeer \<Rightarrow> nat \<times> nat list \<times> nat list \<times> (u32 \<rightharpoonup> nat)" where
  "gpart q = (fp_group_entries q, fp_group_entries_free q, fp_group_entries_used q, fp_groups_tree q)"

definition mpart :: "FrameDeciderPeer \<Rightarrow> nat \<times> nat list \<times> nat list" where
  "mpart q = (fp_mac_entries q, fp_mac_entries_free q, fp_mac_entries_used q)"

definition mac_frame :: "FrameDecider \<Rightarrow> FrameDecider \<Rightarrow> bool" where
  "mac_frame d d' \<longleftrightarrow>
     (\<exists>M T P. d' = d\<lparr>fd_macs := M, fd_macs_tree := T, fd_peers := P\<rparr>) \<and>
     (\<forall>p. map_option gpart (fd_peers d' p) = map_option gpart (fd_peers d p))"

lemma mac_okD:
  assumes "mac_ok d"
  shows "fd_peers d p = Some q \<Longrightarrow> mpeer_ok d p q"
    "fd_macs_tree d m = Some e \<Longrightarrow>
       mac_of d e = m \<and> (\<exists>p q. fd_peers d p = Some q \<and> e \<in> set (fp_mac_entries_used q))"
  using assms unfolding mac_ok_def by blast+

lemma mpeer_okD:
  assumes "mpeer_ok d p q"
  shows "distinct (fp_mac_entries_free q)" "distinct (fp_mac_entries_used q)"
    "e \<in> set (fp_mac_entries_free q) \<Longrightarrow> e \<notin> set (fp_mac_entries_used q)"
    "e \<in> set (fp_mac_entries_free q) \<Longrightarrow> mowner d e = Some p"
    "e \<in> set (fp_mac_entries_used q) \<Longrightarrow> mowner d e = Some p"
    "e \<in> set (fp_mac_entries_used q) \<Longrightarrow> fd_macs_tree d (mac_of d e) = Some e"
    "length (fp_mac_entries_free q) + length (fp_mac_entries_used q) = fd_max_peer_macs d"
proof -
  have "card (set (fp_mac_entries_free q @ fp_mac_entries_used q)) = fd_max_peer_macs d"
    using assms unfolding mpeer_ok_def by simp
  then show "length (fp_mac_entries_free q) + length (fp_mac_entries_used q) = fd_max_peer_macs d"
    using assms distinct_card unfolding mpeer_ok_def by (metis length_append)
qed (use assms in \<open>auto simp: mpeer_ok_def\<close>)

lemma mac_ok_tree_iff:
  assumes "mac_ok d" "fd_peers d p = Some q" "e \<in> set (fp_mac_entries_used q)"
  shows "fd_macs_tree d m = Some e \<longleftrightarrow> mac_of d e = m"
  using mac_okD(2) [OF assms(1), of m e] mpeer_okD(6) [OF mac_okD(1) [OF assms(1,2)] assms(3)] by auto

lemma mac_ok_owner:
  assumes "mac_ok d" "fd_macs_tree d m = Some e" "mowner d e = Some p"
  shows "\<exists>q. fd_peers d p = Some q \<and> e \<in> set (fp_mac_entries_used q) \<and> mac_of d e = m"
proof -
  obtain p' q where "mac_of d e = m" "fd_peers d p' = Some q" "e \<in> set (fp_mac_entries_used q)"
    using mac_okD(2) [OF assms(1,2)] by blast
  moreover from this have "mowner d e = Some p'"
    using mpeer_okD(5) [OF mac_okD(1) [OF assms(1)]] by blast
  ultimately show ?thesis using assms(3) by auto
qed

lemma mac_ok_inj:
  assumes "mac_ok d" "fd_peers d p = Some q"
  shows "inj_on (mac_of d) (set (fp_mac_entries_used q))"
  using mpeer_okD(6) [OF mac_okD(1) [OF assms]] by (metis inj_onI option.inject)

lemma map_remove1_removeAll:
  assumes "inj_on f (set xs)" "distinct xs" "e \<in> set xs"
  shows "map f (remove1 e xs) = removeAll (f e) (map f xs)"
proof -
  obtain us vs where xs: "xs = us @ e # vs" using split_list [OF assms(3)] by blast
  then have "f e \<notin> f ` set us" "f e \<notin> f ` set vs" "e \<notin> set us"
    using assms(1,2) by (auto simp: inj_on_def)
  then show ?thesis using xs by (simp add: remove1_append)
qed

lemma not_in_table:
  assumes "mac_ok d" "fd_macs_tree d m = None \<or> (\<exists>e. fd_macs_tree d m = Some e \<and> mowner d e \<noteq> Some p)"
  shows "m \<notin> set (macs_table d p)"
proof
  assume "m \<in> set (macs_table d p)"
  then obtain q e where q: "fd_peers d p = Some q" "e \<in> set (fp_mac_entries_used q)" "mac_of d e = m"
    by (cases "fd_peers d p") (auto simp: macs_table_def mused_def)
  then have "fd_macs_tree d m = Some e" using mac_ok_tree_iff [OF assms(1) q(1,2)] by blast
  moreover have "mowner d e = Some p" by (rule mpeer_okD(5) [OF mac_okD(1) [OF assms(1) q(1)] q(2)])
  ultimately show False using assms(2) by auto
qed

text \<open>Updating the lists of one peer, the rest unchanged.\<close>

lemma mac_frameI:
  assumes "d' = d\<lparr>fd_macs := M, fd_macs_tree := T, fd_peers := (fd_peers d)(p \<mapsto> q')\<rparr>"
    "fd_peers d p = Some q" "gpart q' = gpart q"
  shows "mac_frame d d'"
proof -
  have "map_option gpart (fd_peers d' a) = map_option gpart (fd_peers d a)" for a
    using assms by simp
  then show ?thesis using assms(1) unfolding mac_frame_def by blast
qed

lemma mac_frame_trans:
  assumes "mac_frame d d'" "mac_frame d' d''"
  shows "mac_frame d d''"
proof -
  obtain M T P M' T' P' where "d' = d\<lparr>fd_macs := M, fd_macs_tree := T, fd_peers := P\<rparr>"
    "d'' = d'\<lparr>fd_macs := M', fd_macs_tree := T', fd_peers := P'\<rparr>"
    using assms unfolding mac_frame_def by blast
  then have "d'' = d\<lparr>fd_macs := M', fd_macs_tree := T', fd_peers := P'\<rparr>" by simp
  then show ?thesis using assms unfolding mac_frame_def by metis
qed

text \<open>Another peer's address is taken away from it.\<close>

lemma disassociate_mac_ok:
  assumes ok: "mac_ok d" and e: "fd_macs_tree d m = Some e"
  shows "\<exists>d'. disassociate_mac d e = Some d' \<and> mac_ok d' \<and> mac_frame d d' \<and>
    fd_macs_tree d' m = None \<and>
    (\<forall>a. macs_table d' a = (if mowner d e = Some a then removeAll m (macs_table d a) else macs_table d a))"
proof -
  obtain p q where q: "mac_of d e = m" "fd_peers d p = Some q" "e \<in> set (fp_mac_entries_used q)"
    using mac_okD(2) [OF ok e] by blast
  have mp: "mpeer_ok d p q" by (rule mac_okD(1) [OF ok q(2)])
  have own: "mowner d e = Some p" by (rule mpeer_okD(5) [OF mp q(3)])
  obtain x where x: "fd_macs d e = Some x" "me_peer x = p" "me_mac x = m"
    using own q(1) by (auto simp: mowner_def mac_of_def)
  let ?q = "q\<lparr>fp_mac_entries_used := remove1 e (fp_mac_entries_used q),
       fp_mac_entries_free := fp_mac_entries_free q @ [e]\<rparr>"
  let ?d = "d\<lparr>fd_macs := fd_macs d, fd_macs_tree := (fd_macs_tree d)(m := None),
       fd_peers := (fd_peers d)(p \<mapsto> ?q)\<rparr>"
  have run: "disassociate_mac d e = Some ?d"
    unfolding disassociate_mac_def using x q e
    by (simp add: FDMacsTree_Remove_def ll1_remove_def fd_upd_defs)
  have same: "mac_of ?d = mac_of d" "mowner ?d = mowner d" by (simp_all add: mac_of_def mowner_def fun_eq_iff)
  have uniq: "c = e" if "c \<in> set (fp_mac_entries_used q)" "mac_of d c = m" for c
    using mac_ok_tree_iff [OF ok q(2) that(1), of m] that(2) e by simp
  have tree: "fd_macs_tree ?d = (fd_macs_tree d)(m := None)" "fd_max_peer_macs ?d = fd_max_peer_macs d"
    by simp_all
  have peers: "fd_peers ?d = (fd_peers d)(p \<mapsto> ?q)" by simp
  have p_ok: "mpeer_ok ?d p ?q"
    unfolding mpeer_ok_def same tree
  proof (intro conjI ballI)
    show "distinct (fp_mac_entries_free ?q @ fp_mac_entries_used ?q)"
      using mpeer_okD(1-3) [OF mp] q(3) by auto
    have set: "set (fp_mac_entries_free ?q @ fp_mac_entries_used ?q) =
        set (fp_mac_entries_free q @ fp_mac_entries_used q)"
      using mpeer_okD(2) [OF mp] q(3) by auto
    show "set (fp_mac_entries_free ?q @ fp_mac_entries_used ?q) =
        {fp_mac_entries ?q..<fp_mac_entries ?q + fd_max_peer_macs d}"
      using mp unfolding set mpeer_ok_def by simp
    show "mowner d c = Some p" if "c \<in> set (fp_mac_entries_free ?q @ fp_mac_entries_used ?q)" for c
      using mp that unfolding set mpeer_ok_def by blast
    show "((fd_macs_tree d)(m := None)) (mac_of d c) = Some c" if "c \<in> set (fp_mac_entries_used ?q)" for c
    proof -
      have c: "c \<in> set (fp_mac_entries_used q)" "c \<noteq> e" using that mpeer_okD(2) [OF mp] by auto
      then show ?thesis using uniq [OF c(1)] mpeer_okD(6) [OF mp c(1)] by auto
    qed
  qed
  have o_ok: "mpeer_ok ?d a b" if "a \<noteq> p" "fd_peers d a = Some b" for a b
  proof -
    have mb: "mpeer_ok d a b" by (rule mac_okD(1) [OF ok that(2)])
    have "c \<noteq> e" if "c \<in> set (fp_mac_entries_used b)" for c
      using mpeer_okD(5) [OF mb that] own \<open>a \<noteq> p\<close> by auto
    then have "((fd_macs_tree d)(m := None)) (mac_of d c) = Some c" if "c \<in> set (fp_mac_entries_used b)" for c
      using mpeer_okD(6) [OF mb that] that e by (cases "mac_of d c = m") auto
    then show ?thesis using mb unfolding mpeer_ok_def same tree by blast
  qed
  have 1: "\<forall>a b. fd_peers ?d a = Some b \<longrightarrow> mpeer_ok ?d a b" using p_ok o_ok unfolding peers by simp
  have 2: "mac_of ?d c = n \<and> (\<exists>a b. fd_peers ?d a = Some b \<and> c \<in> set (fp_mac_entries_used b))"
    if "fd_macs_tree ?d n = Some c" for n c
  proof -
    have n: "n \<noteq> m" "fd_macs_tree d n = Some c" using that unfolding tree by (auto split: if_splits)
    obtain a b where ab: "mac_of d c = n" "fd_peers d a = Some b" "c \<in> set (fp_mac_entries_used b)"
      using mac_okD(2) [OF ok n(2)] by blast
    have "c \<noteq> e" using ab(1) n(1) q(1) by auto
    then have "\<exists>b. fd_peers ?d a = Some b \<and> c \<in> set (fp_mac_entries_used b)"
      using ab(2,3) q(2) unfolding peers by (cases "a = p") auto
    then show ?thesis using ab(1) unfolding same by blast
  qed
  have "mac_ok ?d" unfolding mac_ok_def using 1 2 by blast
  moreover have "mac_frame d ?d" by (rule mac_frameI [OF refl q(2)]) (simp add: gpart_def)
  moreover have "macs_table ?d p = removeAll m (macs_table d p)"
    using map_remove1_removeAll [OF mac_ok_inj [OF ok q(2)] mpeer_okD(2) [OF mp] q(3)]
    unfolding macs_table_def mused_def same peers q(1) by (simp add: q(2))
  moreover have "macs_table ?d a = macs_table d a" if "a \<noteq> p" for a
    using that unfolding macs_table_def mused_def same peers by simp
  ultimately have "mac_ok ?d \<and> mac_frame d ?d \<and> fd_macs_tree ?d m = None \<and>
    (\<forall>a. macs_table ?d a = (if mowner d e = Some a then removeAll m (macs_table d a) else macs_table d a))"
    unfolding tree own by simp
  then show ?thesis using run by blast
qed

text \<open>Putting the entry \<open>e\<close> of \<open>p\<close>, not in use, at the end of its used list with the address \<open>m\<close>.\<close>

definition use_mac :: "FrameDecider \<Rightarrow> nat \<Rightarrow> FrameDeciderPeer \<Rightarrow> nat \<Rightarrow> mac_entry \<Rightarrow> byte list \<Rightarrow>
    nat list \<Rightarrow> nat list \<Rightarrow> (byte list \<rightharpoonup> nat) \<Rightarrow> FrameDecider" where
  "use_mac d p q e x m free used T =
     d\<lparr>fd_macs := (fd_macs d)(e \<mapsto> x\<lparr>me_mac := m\<rparr>), fd_macs_tree := T(m \<mapsto> e),
       fd_peers := (fd_peers d)(p \<mapsto> q\<lparr>fp_mac_entries_free := free, fp_mac_entries_used := used @ [e]\<rparr>)\<rparr>"

lemma use_mac_ok:
  assumes ok: "mac_ok d" and q: "fd_peers d p = Some q" and x: "fd_macs d e = Some x" "me_peer x = p"
    and split: "distinct (e # free @ used)"
      "set (e # free @ used) = set (fp_mac_entries_free q @ fp_mac_entries_used q)"
      "set used \<subseteq> set (fp_mac_entries_used q)"
    and T: "\<And>n c. T n = Some c \<longleftrightarrow> fd_macs_tree d n = Some c \<and> c \<noteq> e"
      "fd_macs_tree d m = None" and lost: "set (fp_mac_entries_used q) \<subseteq> insert e (set used)"
  shows "mac_ok (use_mac d p q e x m free used T)"
    "mac_frame d (use_mac d p q e x m free used T)"
    "a \<noteq> p \<Longrightarrow> macs_table (use_mac d p q e x m free used T) a = macs_table d a"
    "macs_table (use_mac d p q e x m free used T) p = map (mac_of d) used @ [m]"
proof -
  let ?q = "q\<lparr>fp_mac_entries_free := free, fp_mac_entries_used := used @ [e]\<rparr>"
  let ?d = "use_mac d p q e x m free used T"
  have mp: "mpeer_ok d p q" by (rule mac_okD(1) [OF ok q])
  have s: "fd_macs_tree ?d = T(m \<mapsto> e)" "fd_peers ?d = (fd_peers d)(p \<mapsto> ?q)"
    "fd_max_peer_macs ?d = fd_max_peer_macs d" "mowner ?d = mowner d"
    "mac_of ?d = (mac_of d)(e := m)"
    using x by (simp_all add: use_mac_def mowner_def mac_of_def fun_eq_iff)
  have eo: "mowner d e = Some p" using x by (simp add: mowner_def)
  have T2: "T (mac_of d c) = Some c" if "fd_macs_tree d (mac_of d c) = Some c" "c \<noteq> e" for c
    using T(1) that by blast
  have nm: "mac_of d c \<noteq> m" if "fd_macs_tree d (mac_of d c) = Some c" for c using that T(2) by auto
  have p_ok: "mpeer_ok ?d p ?q"
    unfolding mpeer_ok_def
  proof (intro conjI ballI)
    show "distinct (fp_mac_entries_free ?q @ fp_mac_entries_used ?q)" using split(1) by auto
    show "set (fp_mac_entries_free ?q @ fp_mac_entries_used ?q) =
        {fp_mac_entries ?q..<fp_mac_entries ?q + fd_max_peer_macs ?d}"
      using split(2) mp unfolding mpeer_ok_def s by auto
    show "mowner ?d c = Some p" if "c \<in> set (fp_mac_entries_free ?q @ fp_mac_entries_used ?q)" for c
    proof -
      have "c \<in> set (fp_mac_entries_free q @ fp_mac_entries_used q)" using that split(2) by auto
      then show ?thesis using mp unfolding mpeer_ok_def s by blast
    qed
    show "fd_macs_tree ?d (mac_of ?d c) = Some c" if "c \<in> set (fp_mac_entries_used ?q)" for c
    proof (cases "c = e")
      case False
      then have "fd_macs_tree d (mac_of d c) = Some c"
        using that split(3) mpeer_okD(6) [OF mp] by auto
      then show ?thesis using False T2 nm unfolding s by simp
    qed (simp add: s)
  qed
  have o_ok: "mpeer_ok ?d a b" if "a \<noteq> p" "fd_peers d a = Some b" for a b
  proof -
    have mb: "mpeer_ok d a b" by (rule mac_okD(1) [OF ok that(2)])
    have ne: "c \<noteq> e" if "c \<in> set (fp_mac_entries_used b)" for c
      using mpeer_okD(5) [OF mb that] eo \<open>a \<noteq> p\<close> by auto
    have "fd_macs_tree ?d (mac_of ?d c) = Some c" if "c \<in> set (fp_mac_entries_used b)" for c
      using mpeer_okD(6) [OF mb that] ne [OF that] T2 nm unfolding s by simp
    then show ?thesis using mb unfolding mpeer_ok_def s(3,4) by blast
  qed
  have 1: "\<forall>a b. fd_peers ?d a = Some b \<longrightarrow> mpeer_ok ?d a b" using p_ok o_ok unfolding s(2) by simp
  have 2: "mac_of ?d c = n \<and> (\<exists>a b. fd_peers ?d a = Some b \<and> c \<in> set (fp_mac_entries_used b))"
    if "fd_macs_tree ?d n = Some c" for n c
  proof (cases "n = m")
    case True
    then show ?thesis using that unfolding s by auto
  next
    case False
    then have c: "fd_macs_tree d n = Some c" "c \<noteq> e" using that T(1) unfolding s by auto
    obtain a b where ab: "mac_of d c = n" "fd_peers d a = Some b" "c \<in> set (fp_mac_entries_used b)"
      using mac_okD(2) [OF ok c(1)] by blast
    have "\<exists>b. fd_peers ?d a = Some b \<and> c \<in> set (fp_mac_entries_used b)"
      using ab q c(2) lost unfolding s by (cases "a = p") auto
    then show ?thesis using ab(1) c(2) unfolding s(5) by auto
  qed
  show "mac_ok ?d" unfolding mac_ok_def using 1 2 by blast
  show "mac_frame d ?d" unfolding use_mac_def by (rule mac_frameI [OF refl q]) (simp add: gpart_def)
  have "map (mac_of ?d) used = map (mac_of d) used" using split(1) unfolding s by auto
  then show "macs_table ?d p = map (mac_of d) used @ [m]" by (simp add: macs_table_def mused_def s)
  show "macs_table ?d a = macs_table d a" if "a \<noteq> p"
  proof (cases "fd_peers d a")
    case (Some b)
    have mb: "mpeer_ok d a b" by (rule mac_okD(1) [OF ok Some])
    have "c \<noteq> e" if "c \<in> set (fp_mac_entries_used b)" for c
      using mpeer_okD(5) [OF mb that] eo \<open>a \<noteq> p\<close> by auto
    then show ?thesis using Some that by (auto simp: macs_table_def mused_def s)
  qed (use that in \<open>simp add: macs_table_def mused_def s\<close>)
qed

lemma add_new_mac_ok:
  assumes ok: "mac_ok d" and q: "fd_peers d p = Some q" and pos: "fd_max_peer_macs d > 0"
    and m: "fd_macs_tree d m = None"
  shows "\<exists>d'. add_new_mac d p m = Some d' \<and> mac_ok d' \<and> mac_frame d d' \<and>
    (\<forall>a. a \<noteq> p \<longrightarrow> macs_table d' a = macs_table d a) \<and>
    macs_table d' p = (if length (macs_table d p) < fd_max_peer_macs d
      then macs_table d p @ [m] else tl (macs_table d p) @ [m])"
proof -
  have mp: "mpeer_ok d p q" by (rule mac_okD(1) [OF ok q])
  have tab: "macs_table d p = map (mac_of d) (fp_mac_entries_used q)"
    by (simp add: macs_table_def mused_def q)
  show ?thesis
  proof (cases "fp_mac_entries_free q")
    case (Cons e free)
    then have own: "mowner d e = Some p" "e \<notin> set (fp_mac_entries_used q)"
      using mpeer_okD(3,4) [OF mp, of e] by auto
    then obtain x where x: "fd_macs d e = Some x" "me_peer x = p" by (auto simp: mowner_def)
    let ?d = "use_mac d p q e x m free (fp_mac_entries_used q) (fd_macs_tree d)"
    have run: "add_new_mac d p m = Some ?d"
      using x m by (simp add: add_new_mac_def acquire_mac_entry_def q Cons fd_upd_defs
          FDMacsTree_Insert_def use_mac_def)
    have ne: "c \<noteq> e" if "fd_macs_tree d n = Some c" for n c
      using mac_ok_owner [OF ok that] own q by (metis option.inject)
    have dist: "distinct (e # free @ fp_mac_entries_used q)"
      using mpeer_okD(1-3) [OF mp] Cons by auto
    have T: "fd_macs_tree d n = Some c \<longleftrightarrow> fd_macs_tree d n = Some c \<and> c \<noteq> e" for n c using ne by blast
    have set: "set (e # free @ fp_mac_entries_used q) = set (fp_mac_entries_free q @ fp_mac_entries_used q)"
      using Cons by simp
    note u = use_mac_ok [OF ok q x dist set subset_refl T m subset_insertI]
    have "length (macs_table d p) < fd_max_peer_macs d" using mpeer_okD(7) [OF mp] Cons tab by simp
    then show ?thesis using run u tab by (intro exI [of _ ?d]) simp
  next
    case Nil
    then have len: "length (macs_table d p) = fd_max_peer_macs d" using mpeer_okD(7) [OF mp] tab by simp
    then obtain e used where used: "fp_mac_entries_used q = e # used"
      using pos tab by (cases "fp_mac_entries_used q") auto
    then have e: "mowner d e = Some p" "fd_macs_tree d (mac_of d e) = Some e"
      using mpeer_okD(5,6) [OF mp, of e] by auto
    then obtain x where x: "fd_macs d e = Some x" "me_peer x = p" "mac_of d e = me_mac x"
      by (auto simp: mowner_def mac_of_def)
    define T where "T = (fd_macs_tree d)(me_mac x := None)"
    let ?d = "use_mac d p q e x m (fp_mac_entries_free q) used T"
    have mx: "me_mac x \<noteq> m" using e(2) x(3) m by auto
    have qn: "q\<lparr>fp_mac_entries_free := [], fp_mac_entries_used := us\<rparr> = q\<lparr>fp_mac_entries_used := us\<rparr>" for us
      using Nil by (cases q) simp
    have run: "add_new_mac d p m = Some ?d"
      using x m mx e by (simp add: add_new_mac_def acquire_mac_entry_def q Nil used fd_upd_defs
          FDMacsTree_Insert_def FDMacsTree_Remove_def use_mac_def qn T_def)
    have T: "T n = Some c \<longleftrightarrow> fd_macs_tree d n = Some c \<and> c \<noteq> e" for n c
    proof (cases "n = me_mac x")
      case False
      then have "fd_macs_tree d n \<noteq> Some e" using mac_okD(2) [OF ok, of n e] x(3) by auto
      then show ?thesis using False by (auto simp: T_def)
    qed (use e(2) x(3) in \<open>auto simp: T_def\<close>)
    have dist: "distinct (e # fp_mac_entries_free q @ used)" using mpeer_okD(2) [OF mp] Nil used by simp
    have set: "set (e # fp_mac_entries_free q @ used) = set (fp_mac_entries_free q @ fp_mac_entries_used q)"
      "set used \<subseteq> set (fp_mac_entries_used q)" "set (fp_mac_entries_used q) \<subseteq> insert e (set used)"
      using Nil used by auto
    note u = use_mac_ok [OF ok q x(1,2) dist set(1,2) T m set(3)]
    show ?thesis using run u tab len used by (intro exI [of _ ?d]) simp
  qed
qed

lemma mac_frame_simps:
  assumes "mac_frame d d'"
  shows "fd_groups d' = fd_groups d" "fd_multicast_tree d' = fd_multicast_tree d"
    "fd_ll3 d' = fd_ll3 d" "fd_peers_list d' = fd_peers_list d" "fd_decide_state d' = fd_decide_state d"
    "fd_decide_flood_current d' = fd_decide_flood_current d"
    "fd_decide_unicast_peer d' = fd_decide_unicast_peer d"
    "fd_max_peer_macs d' = fd_max_peer_macs d" "fd_max_peer_groups d' = fd_max_peer_groups d"
    "fd_igmp_group_membership_interval d' = fd_igmp_group_membership_interval d"
    "fd_igmp_last_member_query_time d' = fd_igmp_last_member_query_time d"
    "map_option gpart (fd_peers d' p) = map_option gpart (fd_peers d p)"
  using assms by (auto simp: mac_frame_def)

lemma mac_frame_dom: "mac_frame d d' \<Longrightarrow> dom (fd_peers d') = dom (fd_peers d)"
  unfolding mac_frame_def by (metis (no_types, lifting) domIff map_option_is_None set_eqI)

text \<open>Refreshing an address the peer already has.\<close>

lemma refresh_mac_ok:
  assumes ok: "mac_ok d" and q: "fd_peers d p = Some q" and e: "e \<in> set (fp_mac_entries_used q)"
    and d': "d' = d\<lparr>fd_peers := (fd_peers d)(p \<mapsto> q\<lparr>fp_mac_entries_used :=
       remove1 e (fp_mac_entries_used q) @ [e]\<rparr>)\<rparr>"
  shows "mac_ok d'" "mac_frame d d'" "a \<noteq> p \<Longrightarrow> macs_table d' a = macs_table d a"
    "macs_table d' p = removeAll (mac_of d e) (macs_table d p) @ [mac_of d e]"
proof -
  let ?q = "q\<lparr>fp_mac_entries_used := remove1 e (fp_mac_entries_used q) @ [e]\<rparr>"
  have mp: "mpeer_ok d p q" by (rule mac_okD(1) [OF ok q])
  have same: "mac_of d' = mac_of d" "mowner d' = mowner d" "fd_macs_tree d' = fd_macs_tree d"
    "fd_max_peer_macs d' = fd_max_peer_macs d" "fd_peers d' = (fd_peers d)(p \<mapsto> ?q)"
    by (simp_all add: d' mac_of_def mowner_def fun_eq_iff)
  have set: "set (fp_mac_entries_used ?q) = set (fp_mac_entries_used q)"
    using mpeer_okD(2) [OF mp] e by auto
  have "mpeer_ok d' p ?q"
    using mp set mpeer_okD(1-3) [OF mp] e unfolding mpeer_ok_def same by simp
  moreover have "mpeer_ok d' a b" if "a \<noteq> p" "fd_peers d a = Some b" for a b
    using mac_okD(1) [OF ok that(2)] unfolding mpeer_ok_def same by simp
  ultimately have 1: "\<forall>a b. fd_peers d' a = Some b \<longrightarrow> mpeer_ok d' a b" unfolding same by simp
  have 2: "mac_of d' c = n \<and> (\<exists>a b. fd_peers d' a = Some b \<and> c \<in> set (fp_mac_entries_used b))"
    if "fd_macs_tree d' n = Some c" for n c
  proof -
    have "fd_macs_tree d n = Some c" using that unfolding same .
    then obtain a b where ab: "mac_of d c = n" "fd_peers d a = Some b" "c \<in> set (fp_mac_entries_used b)"
      using mac_okD(2) [OF ok] by blast
    have "\<exists>b. fd_peers d' a = Some b \<and> c \<in> set (fp_mac_entries_used b)"
      using ab(2,3) q set unfolding same by (cases "a = p") auto
    then show ?thesis using ab(1) unfolding same by blast
  qed
  show "mac_ok d'" unfolding mac_ok_def using 1 2 by blast
  show "mac_frame d d'"
    by (rule mac_frameI [where M = "fd_macs d" and T = "fd_macs_tree d" and q' = ?q, OF _ q])
      (simp_all add: d' gpart_def)
  show "macs_table d' a = macs_table d a" if "a \<noteq> p"
    using that unfolding macs_table_def mused_def same by simp
  show "macs_table d' p = removeAll (mac_of d e) (macs_table d p) @ [mac_of d e]"
    using map_remove1_removeAll [OF mac_ok_inj [OF ok q] mpeer_okD(2) [OF mp] e]
    unfolding macs_table_def mused_def same by (simp add: q)
qed

lemma add_mac_to_peer_ok:
  assumes ok: "mac_ok d" and p: "p \<in> dom (fd_peers d)" and pos: "fd_max_peer_macs d > 0"
  shows "\<exists>d'. add_mac_to_peer d p m = Some d' \<and> mac_ok d' \<and> mac_frame d d' \<and>
    macs_table d' = learn_mac (fd_max_peer_macs d) (macs_table d) p m"
proof -
  obtain q where q: "fd_peers d p = Some q" using p by blast
  have gone: "removeAll m (macs_table d a) = macs_table d a"
    if "fd_macs_tree d m = None \<or> (\<exists>e. fd_macs_tree d m = Some e \<and> mowner d e \<noteq> Some a)" for a
    using not_in_table [OF ok that] by simp
  have tabp: "macs_table d p = map (mac_of d) (fp_mac_entries_used q)"
    by (simp add: macs_table_def mused_def q)
  have len: "length (macs_table d p) \<le> fd_max_peer_macs d"
    using mpeer_okD(7) [OF mac_okD(1) [OF ok q]] by (simp add: tabp)
  show ?thesis
  proof (cases "fd_macs_tree d m")
    case None
    have run: "add_mac_to_peer d p m = add_new_mac d p m" by (simp add: add_mac_to_peer_def None)
    obtain d' where d': "add_new_mac d p m = Some d'" "mac_ok d'" "mac_frame d d'"
      "\<And>a. a \<noteq> p \<Longrightarrow> macs_table d' a = macs_table d a"
      "macs_table d' p = (if length (macs_table d p) < fd_max_peer_macs d
        then macs_table d p @ [m] else tl (macs_table d p) @ [m])"
      using add_new_mac_ok [OF ok q pos None] by blast
    have g: "removeAll m (macs_table d a) = macs_table d a" for a using gone [of a] None by blast
    have "macs_table d' a = learn_mac (fd_max_peer_macs d) (macs_table d) p m a" for a
      using d'(4) [of a] d'(5) by (simp add: learn_mac_def lru_add_def g Let_def)
    then show ?thesis using d'(1-3) run by auto
  next
    case (Some e)
    obtain b qb where qb: "mac_of d e = m" "fd_peers d b = Some qb" "e \<in> set (fp_mac_entries_used qb)"
      using mac_okD(2) [OF ok Some] by blast
    have own: "mowner d e = Some b" by (rule mpeer_okD(5) [OF mac_okD(1) [OF ok qb(2)] qb(3)])
    then obtain x where x: "fd_macs d e = Some x" "me_peer x = b" by (auto simp: mowner_def)
    show ?thesis
    proof (cases "b = p")
      case True
      then have eq: "e \<in> set (fp_mac_entries_used q)" using qb q by simp
      let ?d = "d\<lparr>fd_peers := (fd_peers d)(p \<mapsto> q\<lparr>fp_mac_entries_used :=
         remove1 e (fp_mac_entries_used q) @ [e]\<rparr>)\<rparr>"
      have run: "add_mac_to_peer d p m = Some ?d"
        using x True eq by (simp add: add_mac_to_peer_def Some q ll1_remove_def fd_upd_defs)
      note r = refresh_mac_ok [OF ok q eq refl]
      have "m \<in> set (macs_table d p)" using eq qb(1) tabp by auto
      then have "length (removeAll m (macs_table d p)) < length (macs_table d p)"
        by (rule length_removeAll_less)
      then have l: "length (removeAll m (macs_table d p)) < fd_max_peer_macs d" using len by simp
      have "macs_table ?d a = learn_mac (fd_max_peer_macs d) (macs_table d) p m a" for a
      proof (cases "a = p")
        case False
        then have "removeAll m (macs_table d a) = macs_table d a" using gone [of a] Some own True by simp
        then show ?thesis using r(3) [OF False] False by (simp add: learn_mac_def)
      next
        case True
        then show ?thesis using r(4) qb(1) l by (simp add: learn_mac_def lru_add_def)
      qed
      then show ?thesis using run r(1,2) by blast
    next
      case False
      obtain d1 where d1: "disassociate_mac d e = Some d1" "mac_ok d1" "mac_frame d d1"
        "fd_macs_tree d1 m = None"
        "\<And>a. macs_table d1 a = (if mowner d e = Some a then removeAll m (macs_table d a) else macs_table d a)"
        using disassociate_mac_ok [OF ok Some] by blast
      have p1: "p \<in> dom (fd_peers d1)" using p mac_frame_dom [OF d1(3)] by blast
      then obtain q1 where q1: "fd_peers d1 p = Some q1" by blast
      have max: "fd_max_peer_macs d1 = fd_max_peer_macs d" by (rule mac_frame_simps(8) [OF d1(3)])
      have pos1: "fd_max_peer_macs d1 > 0" using pos max by simp
      obtain d' where d': "add_new_mac d1 p m = Some d'" "mac_ok d'" "mac_frame d1 d'"
        "\<And>a. a \<noteq> p \<Longrightarrow> macs_table d' a = macs_table d1 a"
        "macs_table d' p = (if length (macs_table d1 p) < fd_max_peer_macs d1
          then macs_table d1 p @ [m] else tl (macs_table d1 p) @ [m])"
        using add_new_mac_ok [OF d1(2) q1 pos1 d1(4)] by blast
      have run: "add_mac_to_peer d p m = Some d'"
        using x False d1(1) d'(1) by (simp add: add_mac_to_peer_def Some)
      have t1: "macs_table d1 a = removeAll m (macs_table d a)" for a
        using d1(5) [of a] gone [of a] Some by auto
      have "macs_table d' a = learn_mac (fd_max_peer_macs d) (macs_table d) p m a" for a
        using d'(4) [of a] d'(5) by (simp add: learn_mac_def lru_add_def t1 max Let_def)
      then show ?thesis using run d'(2) mac_frame_trans [OF d1(3) d'(3)] by blast
    qed
  qed
qed

section \<open>The group entries\<close>

type_synonym gcores = "nat \<rightharpoonup> nat \<times> int option \<times> u32 \<times> int"

definition gpeer_ok :: "nat \<Rightarrow> gcores \<Rightarrow> nat \<Rightarrow> FrameDeciderPeer \<Rightarrow> bool" where
  "gpeer_ok n K p q \<longleftrightarrow>
     distinct (fp_group_entries_free q @ fp_group_entries_used q) \<and>
     set (fp_group_entries_free q @ fp_group_entries_used q) =
       {fp_group_entries q..<fp_group_entries q + n} \<and>
     (\<forall>e\<in>set (fp_group_entries_free q). \<exists>g t. K e = Some (p, None, g, t)) \<and>
     (\<forall>e\<in>set (fp_group_entries_used q). \<exists>g t. K e = Some (p, Some t, g, t) \<and>
        fp_groups_tree q g = Some e) \<and>
     (\<forall>g e. fp_groups_tree q g = Some e \<longrightarrow>
        e \<in> set (fp_group_entries_used q) \<and> (\<exists>t n. K e = Some (p, t, g, n)))"

definition grp_ok :: "FrameDecider \<Rightarrow> bool" where
  "grp_ok d \<longleftrightarrow>
     (\<forall>p q. fd_peers d p = Some q \<longrightarrow> gpeer_ok (fd_max_peer_groups d) (gcore d) p q)"

definition group_of :: "FrameDecider \<Rightarrow> nat \<Rightarrow> u32" where
  "group_of d e = (case fd_groups d e of None \<Rightarrow> 0 | Some x \<Rightarrow> ge_group x)"

definition gused :: "FrameDecider \<Rightarrow> nat \<Rightarrow> nat list" where
  "gused d p = (case fd_peers d p of None \<Rightarrow> [] | Some q \<Rightarrow> fp_group_entries_used q)"

definition used_groups :: "FrameDecider \<Rightarrow> nat set" where
  "used_groups d = {e. \<exists>p. e \<in> set (gused d p)}"

text \<open>The abstract table: for each peer, the groups it has joined, the earliest refreshed first.\<close>

definition groups_table :: "FrameDecider \<Rightarrow> nat \<Rightarrow> u32 list" where
  "groups_table d p = map (group_of d) (gused d p)"

definition grp_frame :: "FrameDecider \<Rightarrow> FrameDecider \<Rightarrow> bool" where
  "grp_frame d d' \<longleftrightarrow>
     (\<exists>G T h P. d' = d\<lparr>fd_groups := G, fd_multicast_tree := T, fd_ll3 := h, fd_peers := P\<rparr>) \<and>
     (\<forall>p. map_option mpart (fd_peers d' p) = map_option mpart (fd_peers d p))"

lemma grp_frame_simps:
  assumes "grp_frame d d'"
  shows "fd_macs d' = fd_macs d" "fd_macs_tree d' = fd_macs_tree d"
    "fd_peers_list d' = fd_peers_list d" "fd_decide_state d' = fd_decide_state d"
    "fd_decide_flood_current d' = fd_decide_flood_current d"
    "fd_decide_unicast_peer d' = fd_decide_unicast_peer d"
    "fd_max_peer_macs d' = fd_max_peer_macs d" "fd_max_peer_groups d' = fd_max_peer_groups d"
    "fd_igmp_group_membership_interval d' = fd_igmp_group_membership_interval d"
    "fd_igmp_last_member_query_time d' = fd_igmp_last_member_query_time d"
    "map_option mpart (fd_peers d' p) = map_option mpart (fd_peers d p)"
  using assms by (auto simp: grp_frame_def)

lemma grp_frameI:
  assumes "d' = d\<lparr>fd_groups := G, fd_multicast_tree := T, fd_ll3 := h, fd_peers := P\<rparr>"
    "\<And>p. map_option mpart (P p) = map_option mpart (fd_peers d p)"
  shows "grp_frame d d'"
proof -
  have "map_option mpart (fd_peers d' p) = map_option mpart (fd_peers d p)" for p
    using assms by simp
  then show ?thesis using assms(1) unfolding grp_frame_def by blast
qed

lemma grp_frame_refl: "grp_frame d d"
  by (rule grp_frameI [where G = "fd_groups d" and T = "fd_multicast_tree d" and h = "fd_ll3 d"
        and P = "fd_peers d"]) simp_all

lemma grp_frame_trans:
  assumes "grp_frame d d'" "grp_frame d' d''"
  shows "grp_frame d d''"
proof -
  obtain G T h P G' T' h' P' where
    "d' = d\<lparr>fd_groups := G, fd_multicast_tree := T, fd_ll3 := h, fd_peers := P\<rparr>"
    "d'' = d'\<lparr>fd_groups := G', fd_multicast_tree := T', fd_ll3 := h', fd_peers := P'\<rparr>"
    using assms unfolding grp_frame_def by blast
  then have "d'' = d\<lparr>fd_groups := G', fd_multicast_tree := T', fd_ll3 := h', fd_peers := P'\<rparr>" by simp
  then show ?thesis using assms unfolding grp_frame_def by metis
qed

lemma grp_frame_mc: "mc_frame d d' \<Longrightarrow> grp_frame d d'"
  unfolding mc_frame_def by (elim conjE exE, rule grp_frameI [where P = "fd_peers d"]) auto

lemma grp_frame_dom: "grp_frame d d' \<Longrightarrow> dom (fd_peers d') = dom (fd_peers d)"
  unfolding grp_frame_def by (metis (no_types, lifting) domIff map_option_is_None set_eqI)

lemma map_option_eqD: "map_option f x = map_option f y \<Longrightarrow> x = Some a \<Longrightarrow> \<exists>b. y = Some b \<and> f a = f b"
  by (cases y) auto

text \<open>The MAC part does not notice the operations on groups, and conversely.\<close>

lemma mpeer_ok_mpart:
  assumes "mpeer_ok d p q" "mpart q' = mpart q" "fd_macs d' = fd_macs d"
    "fd_macs_tree d' = fd_macs_tree d" "fd_max_peer_macs d' = fd_max_peer_macs d"
  shows "mpeer_ok d' p q'"
  using assms unfolding mpeer_ok_def mpart_def mowner_def mac_of_def by simp

lemma mac_ok_grp_frame:
  assumes ok: "mac_ok d" and fr: "grp_frame d d'"
  shows "mac_ok d'" "macs_table d' = macs_table d"
proof -
  note s = grp_frame_simps [OF fr]
  have get: "\<exists>q. fd_peers d p = Some q \<and> mpart q' = mpart q" if "fd_peers d' p = Some q'" for p q'
    using map_option_eqD [OF s(11) that] .
  have put: "\<exists>q'. fd_peers d' p = Some q' \<and> mpart q = mpart q'" if "fd_peers d p = Some q" for p q
    using map_option_eqD [OF s(11) [symmetric] that] .
  have 1: "mpeer_ok d' p q'" if p: "fd_peers d' p = Some q'" for p q'
  proof -
    obtain q where q: "fd_peers d p = Some q" "mpart q' = mpart q" using get [OF p] by blast
    show ?thesis by (rule mpeer_ok_mpart [OF mac_okD(1) [OF ok q(1)] q(2) s(1,2,7)])
  qed
  have mo: "mac_of d' = mac_of d" by (simp add: mac_of_def s fun_eq_iff)
  have 2: "mac_of d' e = m \<and> (\<exists>p q. fd_peers d' p = Some q \<and> e \<in> set (fp_mac_entries_used q))"
    if e: "fd_macs_tree d' m = Some e" for m e
  proof -
    obtain p q where pq: "mac_of d e = m" "fd_peers d p = Some q" "e \<in> set (fp_mac_entries_used q)"
      using mac_okD(2) [OF ok] e unfolding s(2) by blast
    then obtain q' where "fd_peers d' p = Some q'" "mpart q = mpart q'" using put by blast
    then have "fd_peers d' p = Some q' \<and> e \<in> set (fp_mac_entries_used q')" using pq(3) by (simp add: mpart_def)
    then show ?thesis using pq(1) mo by auto
  qed
  show "mac_ok d'" unfolding mac_ok_def using 1 2 by blast
  have "mused d' p = mused d p" for p
    using s(11) [of p] by (cases "fd_peers d p"; cases "fd_peers d' p") (auto simp: mused_def mpart_def)
  then show "macs_table d' = macs_table d" by (simp add: macs_table_def fun_eq_iff mo)
qed

lemma gpeer_ok_gpart: "gpeer_ok n K p q \<Longrightarrow> gpart q' = gpart q \<Longrightarrow> gpeer_ok n K p q'"
  unfolding gpeer_ok_def gpart_def by simp

lemma grp_ok_mac_frame:
  assumes ok: "grp_ok d" and fr: "mac_frame d d'"
  shows "grp_ok d'" "groups_table d' = groups_table d" "used_groups d' = used_groups d"
    "mc_ok d' L C U \<longleftrightarrow> mc_ok d L C U"
proof -
  note s = mac_frame_simps [OF fr]
  have core: "gcore d' = gcore d" "gsig d' = gsig d" "is_master d' = is_master d" "group_of d' = group_of d"
    using s(1) by (simp_all add: gcore_def gsig_def is_master_def group_of_def fun_eq_iff)
  have "gpeer_ok (fd_max_peer_groups d') (gcore d') p q'" if p: "fd_peers d' p = Some q'" for p q'
  proof -
    obtain q where q: "fd_peers d p = Some q" "gpart q' = gpart q"
      using map_option_eqD [OF s(12) p] by blast
    have "gpeer_ok (fd_max_peer_groups d) (gcore d) p q" using ok q(1) unfolding grp_ok_def by blast
    then show ?thesis unfolding core s(9) by (rule gpeer_ok_gpart [OF _ q(2)])
  qed
  then show "grp_ok d'" by (simp add: grp_ok_def)
  have gu: "gused d' p = gused d p" for p
    using s(12) [of p] by (cases "fd_peers d p"; cases "fd_peers d' p") (auto simp: gused_def gpart_def)
  then show "groups_table d' = groups_table d" by (simp add: groups_table_def core fun_eq_iff)
  show "used_groups d' = used_groups d" by (simp add: used_groups_def gu)
  show "mc_ok d' L C U \<longleftrightarrow> mc_ok d L C U" unfolding mc_ok_def core s by (rule refl)
qed

end
