(* ===== verification/FrameDeciderGroups.thy ===== *)
theory FrameDeciderGroups
  imports FrameDeciderInv
begin

text \<open>
  The operations of the frame decider on the group entries: joining a group, the expiry of a
  membership, and the lowering of the timers of a queried group. Each keeps the invariant, and
  changes the abstract table of joined groups as intended.
\<close>

section \<open>Local changes to the entries\<close>

definition mcpart :: "FrameDecider \<Rightarrow> nat \<Rightarrow> (u32 \<times> bool \<times> u32) option" where
  "mcpart d e = map_option (\<lambda>x. (ge_group x, ge_is_master x, ge_master_sig x)) (fd_groups d e)"

lemma mcpart_eqD:
  assumes "mcpart d' e = mcpart d e"
  shows "gsig d' e = gsig d e" "is_master d' e = is_master d e"
    "e \<in> dom (fd_groups d) \<Longrightarrow> e \<in> dom (fd_groups d')"
    "(\<exists>x. fd_groups d e = Some x \<and> ge_is_master x \<and> ge_master_sig x = s) \<Longrightarrow>
       (\<exists>x. fd_groups d' e = Some x \<and> ge_is_master x \<and> ge_master_sig x = s)"
  using assms
  by (cases "fd_groups d e"; cases "fd_groups d' e"; simp add: mcpart_def gsig_def is_master_def dom_def)+

lemma mc_ok_local:
  assumes ok: "mc_ok d L C U" and same: "fd_ll3 d' = fd_ll3 d" "fd_multicast_tree d' = fd_multicast_tree d"
    and loc: "\<And>e. e \<in> U \<Longrightarrow> mcpart d' e = mcpart d e"
  shows "mc_ok d' L C U"
proof (rule mc_okI)
  show "ll3_wf (fd_ll3 d') L C" using mc_ok_D(1) [OF ok] same by simp
  show "e \<in> set (L s) \<longleftrightarrow> e \<in> U \<and> gsig d' e = Some s" for s e
    using mc_ok_D(2) [OF ok] mcpart_eqD(1) [OF loc] by auto
  show "e \<in> dom (fd_groups d')" if "e \<in> U" for e
    by (rule mcpart_eqD(3) [OF loc [OF that] mc_ok_D(3) [OF ok that]])
  show "L s = []" if "fd_multicast_tree d' s = None" for s
    using mc_ok_D(4) [OF ok] that same by simp
  show "m \<in> set (L s)" if "fd_multicast_tree d' s = Some m" for s m
    using mc_ok_D(5) [OF ok] that same by simp
  show "\<exists>x. fd_groups d' m = Some x \<and> ge_is_master x \<and> ge_master_sig x = s"
    if "fd_multicast_tree d' s = Some m" for s m
  proof -
    have m: "m \<in> set (L s) \<and> (\<exists>x. fd_groups d m = Some x \<and> ge_is_master x \<and> ge_master_sig x = s)"
      by (rule mc_ok_D(5) [OF ok]) (use that same in simp)
    then have "m \<in> U" using mc_ok_D(2) [OF ok] by blast
    then show ?thesis using mcpart_eqD(4) [OF loc] m by blast
  qed
  show "fd_multicast_tree d' s = Some e" if "e \<in> set (L s)" "is_master d' e" for s e
  proof -
    have "e \<in> U" using mc_ok_D(2) [OF ok] that(1) by blast
    then have "is_master d e" using mcpart_eqD(2) [OF loc] that(2) by blast
    then show ?thesis using mc_ok_D(6) [OF ok that(1)] same by simp
  qed
qed

lemma set_group_timer_ok:
  assumes ok: "mc_ok d L C U" and x: "gcore d e = Some (p, t0, g, n)"
  shows "\<exists>d'. set_group_timer d e t = Some d' \<and> mc_ok d' L C U \<and>
    gcore d' = (gcore d)(e \<mapsto> (p, Some t, g, t)) \<and> fd_peers d' = fd_peers d \<and>
    grp_frame d d' \<and> fd_ll3 d' = fd_ll3 d"
proof -
  obtain x where x: "fd_groups d e = Some x" "ge_peer x = p" "ge_group x = g"
    using x by (auto simp: gcore_def)
  let ?G = "(fd_groups d)(e \<mapsto> x\<lparr>ge_timer_endtime := t, ge_timer := Some t\<rparr>)"
  let ?d = "d\<lparr>fd_groups := ?G\<rparr>"
  have "mc_ok ?d L C U"
    by (rule mc_ok_local [OF ok]) (simp_all add: mcpart_def x)
  moreover have "gcore ?d = (gcore d)(e \<mapsto> (p, Some t, g, t))"
    by (simp add: gcore_def x fun_eq_iff)
  moreover have "grp_frame d ?d"
    by (rule grp_frameI [where G = ?G and T = "fd_multicast_tree d" and h = "fd_ll3 d"
          and P = "fd_peers d"]) simp_all
  moreover have "set_group_timer d e t = Some ?d" by (simp add: set_group_timer_def fd_upd_defs x)
  ultimately show ?thesis by (intro exI [of _ ?d]) simp
qed

section \<open>The entries of a peer\<close>

lemma gpeer_okD:
  assumes "gpeer_ok n K p q"
  shows "distinct (fp_group_entries_free q)" "distinct (fp_group_entries_used q)"
    "e \<in> set (fp_group_entries_free q) \<Longrightarrow> e \<notin> set (fp_group_entries_used q)"
    "e \<in> set (fp_group_entries_free q) \<Longrightarrow> \<exists>g t. K e = Some (p, None, g, t)"
    "e \<in> set (fp_group_entries_used q) \<Longrightarrow> \<exists>g t. K e = Some (p, Some t, g, t) \<and> fp_groups_tree q g = Some e"
    "fp_groups_tree q g = Some e \<Longrightarrow>
       e \<in> set (fp_group_entries_used q) \<and> (\<exists>t. K e = Some (p, Some t, g, t))"
    "length (fp_group_entries_free q) + length (fp_group_entries_used q) = n"
proof -
  have "card (set (fp_group_entries_free q @ fp_group_entries_used q)) = n"
    using assms unfolding gpeer_ok_def by simp
  then show "length (fp_group_entries_free q) + length (fp_group_entries_used q) = n"
    using assms distinct_card unfolding gpeer_ok_def by (metis length_append)
  show "e \<in> set (fp_group_entries_used q) \<Longrightarrow> \<exists>g t. K e = Some (p, Some t, g, t) \<and> fp_groups_tree q g = Some e"
    using assms unfolding gpeer_ok_def by blast
  show "fp_groups_tree q g = Some e \<Longrightarrow>
       e \<in> set (fp_group_entries_used q) \<and> (\<exists>t. K e = Some (p, Some t, g, t))"
    using assms unfolding gpeer_ok_def by fastforce
  show "e \<in> set (fp_group_entries_free q) \<Longrightarrow> \<exists>g t. K e = Some (p, None, g, t)"
    using assms unfolding gpeer_ok_def by blast
qed (use assms in \<open>auto simp: gpeer_ok_def\<close>)

lemma gpeer_ok_set:
  "gpeer_ok n K p q \<Longrightarrow> set (fp_group_entries_free q @ fp_group_entries_used q) =
     {fp_group_entries q..<fp_group_entries q + n}"
  by (simp add: gpeer_ok_def)

lemma gpeer_ok_owner:
  "gpeer_ok n K p q \<Longrightarrow> e \<in> set (fp_group_entries_free q @ fp_group_entries_used q) \<Longrightarrow>
     \<exists>t g m. K e = Some (p, t, g, m)"
  using gpeer_okD(4,5) by fastforce

lemma gpeer_okI:
  assumes "distinct (fp_group_entries_free q @ fp_group_entries_used q)"
    "set (fp_group_entries_free q @ fp_group_entries_used q) =
       {fp_group_entries q..<fp_group_entries q + n}"
    "\<And>e. e \<in> set (fp_group_entries_free q) \<Longrightarrow> \<exists>g t. K e = Some (p, None, g, t)"
    "\<And>e. e \<in> set (fp_group_entries_used q) \<Longrightarrow>
       \<exists>g t. K e = Some (p, Some t, g, t) \<and> fp_groups_tree q g = Some e"
    "\<And>g e. fp_groups_tree q g = Some e \<Longrightarrow> e \<in> set (fp_group_entries_used q)"
    "\<And>g e. fp_groups_tree q g = Some e \<Longrightarrow> \<exists>t m. K e = Some (p, t, g, m)"
  shows "gpeer_ok n K p q"
  unfolding gpeer_ok_def using assms by blast

lemma gpeer_other:
  assumes ok: "gpeer_ok n K a b" and ap: "a \<noteq> p" and e: "K e = Some (p, v)"
  shows "gpeer_ok n (K(e := w)) a b"
proof -
  have ne: "c \<noteq> e" if "c \<in> set (fp_group_entries_free b @ fp_group_entries_used b)" for c
    using gpeer_ok_owner [OF ok that] e ap by auto
  have tr: "c \<noteq> e" if "fp_groups_tree b g = Some c" for g c
    using gpeer_okD(6) [OF ok that] e ap by auto
  show ?thesis
  proof (rule gpeer_okI)
    show "\<exists>g t. (K(e := w)) c = Some (a, None, g, t)" if "c \<in> set (fp_group_entries_free b)" for c
      using gpeer_okD(4) [OF ok that] ne [of c] that by simp
    show "\<exists>g t. (K(e := w)) c = Some (a, Some t, g, t) \<and> fp_groups_tree b g = Some c"
      if "c \<in> set (fp_group_entries_used b)" for c
      using gpeer_okD(5) [OF ok that] ne [of c] that by simp
    show "\<exists>t m. (K(e := w)) c = Some (a, t, g, m)" if "fp_groups_tree b g = Some c" for g c
      using gpeer_okD(6) [OF ok that] tr [OF that] by auto
  qed (use ok gpeer_okD(6) [OF ok] in \<open>auto simp: gpeer_ok_def\<close>)
qed

text \<open>Entry \<open>e\<close> of the peer becomes the newest used one, with group \<open>g\<close> and timer \<open>t\<close>.\<close>

lemma gpeer_join:
  assumes ok: "gpeer_ok n K p q"
    and split: "distinct (e # free @ used)"
      "set (e # free @ used) = set (fp_group_entries_free q @ fp_group_entries_used q)"
      "set used \<subseteq> set (fp_group_entries_used q)" "set free \<subseteq> set (fp_group_entries_free q)"
    and T: "\<And>h c. T h = Some c \<longleftrightarrow> fp_groups_tree q h = Some c \<and> c \<noteq> e" "T g = None"
  shows "gpeer_ok n (K(e \<mapsto> (p, Some t, g, t))) p
    (q\<lparr>fp_group_entries_free := free, fp_group_entries_used := used @ [e], fp_groups_tree := T(g \<mapsto> e)\<rparr>)"
    (is "gpeer_ok n ?K p ?q")
proof (rule gpeer_okI)
  show "distinct (fp_group_entries_free ?q @ fp_group_entries_used ?q)" using split(1) by auto
  have "set (fp_group_entries_free ?q @ fp_group_entries_used ?q) = set (e # free @ used)" by auto
  also have "\<dots> = {fp_group_entries q..<fp_group_entries q + n}"
    unfolding split(2) by (rule gpeer_ok_set [OF ok])
  finally show "set (fp_group_entries_free ?q @ fp_group_entries_used ?q) =
    {fp_group_entries ?q..<fp_group_entries ?q + n}" by simp
  show "\<exists>g t. ?K c = Some (p, None, g, t)" if "c \<in> set (fp_group_entries_free ?q)" for c
  proof -
    have "c \<in> set (fp_group_entries_free q)" "c \<noteq> e" using that split(1,4) by auto
    then show ?thesis using gpeer_okD(4) [OF ok] by simp
  qed
  show "\<exists>h m. ?K c = Some (p, Some m, h, m) \<and> fp_groups_tree ?q h = Some c"
    if c: "c \<in> set (fp_group_entries_used ?q)" for c
  proof (cases "c = e")
    case False
    then have "c \<in> set (fp_group_entries_used q)" using c split(3) by auto
    then obtain h m where h: "K c = Some (p, Some m, h, m)" "fp_groups_tree q h = Some c"
      using gpeer_okD(5) [OF ok] by blast
    then have Th: "T h = Some c" using T(1) False by blast
    then have "h \<noteq> g" using T(2) by auto
    then show ?thesis using Th h(1) False by simp
  qed simp
  show "c \<in> set (fp_group_entries_used ?q)" if "fp_groups_tree ?q h = Some c" for h c
  proof (cases "h = g")
    case False
    then have h: "fp_groups_tree q h = Some c" "c \<noteq> e" using that T(1) by auto
    then have "c \<in> set (fp_group_entries_used q)" using gpeer_okD(6) [OF ok] by blast
    then have "c \<in> set (e # free @ used)" "c \<notin> set free"
      using split(2,4) gpeer_okD(3) [OF ok, of c] by auto
    then show ?thesis using h(2) by simp
  qed (use that in simp)
  show "\<exists>m n. ?K c = Some (p, m, h, n)" if "fp_groups_tree ?q h = Some c" for h c
  proof (cases "h = g")
    case False
    then have h: "fp_groups_tree q h = Some c" "c \<noteq> e" using that T(1) by auto
    then show ?thesis using gpeer_okD(6) [OF ok h(1)] by auto
  qed (use that in simp)
qed

text \<open>Entry \<open>e\<close> is given back.\<close>

lemma gpeer_leave:
  assumes ok: "gpeer_ok n K p q" and e: "e \<in> set (fp_group_entries_used q)" and g: "K e = Some (p, t, g, m)"
  shows "gpeer_ok n (K(e \<mapsto> (p, None, g, m))) p
    (q\<lparr>fp_group_entries_free := fp_group_entries_free q @ [e],
       fp_group_entries_used := remove1 e (fp_group_entries_used q),
       fp_groups_tree := (fp_groups_tree q)(g := None)\<rparr>)" (is "gpeer_ok n ?K p ?q")
proof -
  have te: "fp_groups_tree q g = Some e" using gpeer_okD(5) [OF ok e] g by auto
  have su: "set (remove1 e (fp_group_entries_used q)) = set (fp_group_entries_used q) - {e}"
    using gpeer_okD(2) [OF ok] by simp
  have tn: "c \<noteq> e" if "fp_groups_tree q h = Some c" "h \<noteq> g" for h c
    using gpeer_okD(6) [OF ok that(1)] g that(2) by auto
  have ef: "e \<notin> set (fp_group_entries_free q)" using gpeer_okD(3) [OF ok] e by blast
  show ?thesis
  proof (rule gpeer_okI)
    show "distinct (fp_group_entries_free ?q @ fp_group_entries_used ?q)"
      using gpeer_okD(1-3) [OF ok] ef by auto
    have "set (fp_group_entries_free ?q @ fp_group_entries_used ?q) =
        set (fp_group_entries_free q @ fp_group_entries_used q)" using su e by auto
    then show "set (fp_group_entries_free ?q @ fp_group_entries_used ?q) =
        {fp_group_entries ?q..<fp_group_entries ?q + n}" using gpeer_ok_set [OF ok] by simp
    show "\<exists>g t. ?K c = Some (p, None, g, t)" if "c \<in> set (fp_group_entries_free ?q)" for c
      using gpeer_okD(4) [OF ok, of c] that by auto
    show "\<exists>h m. ?K c = Some (p, Some m, h, m) \<and> fp_groups_tree ?q h = Some c"
      if c: "c \<in> set (fp_group_entries_used ?q)" for c
    proof -
      have c': "c \<in> set (fp_group_entries_used q)" "c \<noteq> e" using c su by auto
      then obtain h m where h: "K c = Some (p, Some m, h, m)" "fp_groups_tree q h = Some c"
        using gpeer_okD(5) [OF ok] by blast
      then have "h \<noteq> g" using te c'(2) by auto
      then show ?thesis using h c'(2) by simp
    qed
    show "c \<in> set (fp_group_entries_used ?q)" if "fp_groups_tree ?q h = Some c" for h c
    proof -
      have h: "fp_groups_tree q h = Some c" "h \<noteq> g" using that by (auto split: if_splits)
      then show ?thesis using gpeer_okD(6) [OF ok h(1)] tn [OF h] su by simp
    qed
    show "\<exists>m n. ?K c = Some (p, m, h, n)" if "fp_groups_tree ?q h = Some c" for h c
    proof -
      have h: "fp_groups_tree q h = Some c" "h \<noteq> g" using that by (auto split: if_splits)
      then show ?thesis using gpeer_okD(6) [OF ok h(1)] tn [OF h] by auto
    qed
  qed
qed

section \<open>The whole invariant\<close>

text \<open>The decider's iterator is in use exactly during a multicast decision.\<close>

definition iter_ok :: "decide_state \<Rightarrow> ll3_heap \<Rightarrow> (nat \<Rightarrow> nat list) \<Rightarrow> bool" where
  "iter_ok st h C \<longleftrightarrow>
     (\<forall>x w. w \<in> set (C x) \<longrightarrow> w = decide_multicast_it \<and> st = DECIDE_STATE_MULTICAST) \<and>
     (st = DECIDE_STATE_MULTICAST \<longrightarrow> (\<exists>e. idir h decide_multicast_it = Some (e, 1) \<and>
        (\<forall>x. e = Some x \<longrightarrow> decide_multicast_it \<in> set (C x))))"

lemma iter_ok_same:
  "iter_ok st h C \<Longrightarrow> l3_iters h' = l3_iters h \<Longrightarrow> iter_ok st h' C"
  unfolding iter_ok_def using idir_eq by metis

lemma iter_ok_jump:
  assumes ok: "iter_ok st (fd_ll3 d) C" and j: "iters_jump d L C e d' L' C'"
  shows "iter_ok st (fd_ll3 d') C'"
proof -
  let ?w = decide_multicast_it
  obtain s xs ys where j: "L s = xs @ e # ys" "idir (fd_ll3 d') = jumped (fd_ll3 d) C xs e ys"
    "\<And>y w. w \<in> set (C' y) \<longleftrightarrow> (y \<noteq> e \<and> w \<in> set (C y)) \<or>
       (w \<in> set (C e) \<and> (\<exists>q n. idir (fd_ll3 d) w = Some (q, n) \<and> it_next xs ys n = Some y))"
    using j unfolding iters_jump_def by blast
  have "w = ?w \<and> st = DECIDE_STATE_MULTICAST" if "w \<in> set (C' x)" for x w
    using j(3) [of w x] that ok unfolding iter_ok_def by blast
  moreover have "\<exists>e. idir (fd_ll3 d') ?w = Some (e, 1) \<and> (\<forall>x. e = Some x \<longrightarrow> ?w \<in> set (C' x))"
    if "st = DECIDE_STATE_MULTICAST"
  proof -
    obtain p where p: "idir (fd_ll3 d) ?w = Some (p, 1)" "\<And>x. p = Some x \<Longrightarrow> ?w \<in> set (C x)"
      using ok \<open>st = _\<close> unfolding iter_ok_def by blast
    show ?thesis
    proof (cases "?w \<in> set (C e)")
      case True
      then have "idir (fd_ll3 d') ?w = Some (it_next xs ys 1, 1)" by (simp add: j(2) jumped_def p(1))
      moreover have "?w \<in> set (C' y)" if "it_next xs ys 1 = Some y" for y
        unfolding j(3) using True p(1) that by blast
      ultimately show ?thesis by blast
    next
      case False
      then have "idir (fd_ll3 d') ?w = Some (p, 1)" by (simp add: j(2) jumped_def p(1))
      moreover have "?w \<in> set (C' x)" if "p = Some x" for x
        unfolding j(3) using p(2) [OF that] False by blast
      ultimately show ?thesis by blast
    qed
  qed
  ultimately show ?thesis unfolding iter_ok_def by blast
qed

text \<open>The invariant of the group part: entries, multicast lists, iterators.\<close>

definition groups_inv :: "FrameDecider \<Rightarrow> (u32 \<Rightarrow> nat list) \<Rightarrow> (nat \<Rightarrow> nat list) \<Rightarrow> bool" where
  "groups_inv d L C \<longleftrightarrow> grp_ok d \<and> mc_ok d L C (used_groups d) \<and> iter_ok (fd_decide_state d) (fd_ll3 d) C"

lemma grp_okD: "grp_ok d \<Longrightarrow> fd_peers d p = Some q \<Longrightarrow> gpeer_ok (fd_max_peer_groups d) (gcore d) p q"
  by (simp add: grp_ok_def)

lemma group_of_core: "gcore d e = Some (p, t, g, n) \<Longrightarrow> group_of d e = g"
  by (auto simp: gcore_def group_of_def)

lemma used_groupsI: "fd_peers d p = Some q \<Longrightarrow> e \<in> set (fp_group_entries_used q) \<Longrightarrow> e \<in> used_groups d"
  unfolding used_groups_def gused_def by (auto intro: exI [of _ p])

lemma used_groupsE:
  assumes "e \<in> used_groups d"
  obtains p q where "fd_peers d p = Some q" "e \<in> set (fp_group_entries_used q)"
proof -
  obtain p where "e \<in> set (gused d p)" using assms unfolding used_groups_def by blast
  then show ?thesis using that by (cases "fd_peers d p") (auto simp: gused_def)
qed

lemma group_of_eq: "gcore d' c = gcore d c \<Longrightarrow> group_of d' c = group_of d c"
  by (cases "fd_groups d c"; cases "fd_groups d' c") (simp_all add: gcore_def group_of_def)

text \<open>From the peers and entries after a join to the invariant and the abstract table.\<close>

lemma joined:
  assumes ok: "grp_ok d" and q: "fd_peers d p = Some q"
    and d': "fd_peers d' = (fd_peers d)(p \<mapsto> q')" "gcore d' = (gcore d)(e \<mapsto> (p, Some t, g, t))"
      "fd_max_peer_groups d' = fd_max_peer_groups d"
    and q': "q' = q\<lparr>fp_group_entries_free := free, fp_group_entries_used := used @ [e],
       fp_groups_tree := T(g \<mapsto> e)\<rparr>"
    and split: "distinct (e # free @ used)"
      "set (e # free @ used) = set (fp_group_entries_free q @ fp_group_entries_used q)"
      "set used \<subseteq> set (fp_group_entries_used q)" "set free \<subseteq> set (fp_group_entries_free q)"
      "set (fp_group_entries_used q) \<subseteq> insert e (set used)"
    and T: "\<And>h c. T h = Some c \<longleftrightarrow> fp_groups_tree q h = Some c \<and> c \<noteq> e" "T g = None"
  shows "grp_ok d'" "used_groups d' = insert e (used_groups d)"
    "groups_table d' = (groups_table d)(p := map (group_of d) used @ [g])"
proof -
  have gp: "gpeer_ok (fd_max_peer_groups d) (gcore d) p q" by (rule grp_okD [OF ok q])
  have ein: "e \<in> set (fp_group_entries_free q @ fp_group_entries_used q)"
    using split(2) by (metis list.set_intros(1))
  obtain v where ev: "gcore d e = Some (p, v)" using gpeer_ok_owner [OF gp ein] by auto
  have "gpeer_ok (fd_max_peer_groups d) (gcore d') p q'"
    unfolding d'(2) q' by (rule gpeer_join [OF gp split(1-4) T])
  moreover have "gpeer_ok (fd_max_peer_groups d) (gcore d') a b" if "a \<noteq> p" "fd_peers d a = Some b" for a b
    unfolding d'(2) by (rule gpeer_other [OF grp_okD [OF ok that(2)] that(1) ev])
  ultimately show "grp_ok d'" unfolding grp_ok_def d'(1,3) by simp
  have gu: "gused d' a = (if a = p then used @ [e] else gused d a)" for a
    unfolding gused_def d'(1) q' by simp
  have gs: "set (gused d' a) = (if a = p then insert e (set (gused d a)) else set (gused d a))" for a
  proof -
    have "gused d p = fp_group_entries_used q" by (simp add: gused_def q)
    then show ?thesis using split(3,5) unfolding gu by auto
  qed
  have "c \<in> used_groups d' \<longleftrightarrow> c \<in> insert e (used_groups d)" for c
  proof
    assume "c \<in> used_groups d'"
    then obtain a where "c \<in> set (gused d' a)" unfolding used_groups_def by blast
    then have "c = e \<or> c \<in> set (gused d a)" using gs [of a] by (cases "a = p") simp_all
    then show "c \<in> insert e (used_groups d)" unfolding used_groups_def by blast
  next
    assume "c \<in> insert e (used_groups d)"
    then consider "c = e" | a where "c \<in> set (gused d a)" unfolding used_groups_def by auto
    then show "c \<in> used_groups d'"
    proof cases
      case 1
      then have "c \<in> set (gused d' p)" by (simp add: gs)
      then show ?thesis unfolding used_groups_def by blast
    next
      case (2 a)
      then have "c \<in> set (gused d' a)" using gs [of a] by (cases "a = p") simp_all
      then show ?thesis unfolding used_groups_def by blast
    qed
  qed
  then show "used_groups d' = insert e (used_groups d)" by blast
  have go: "group_of d' c = group_of d c" if "c \<noteq> e" for c
    by (rule group_of_eq) (simp add: d'(2) that)
  have ge: "group_of d' e = g" by (rule group_of_core [of _ _ p "Some t" _ t]) (simp add: d'(2))
  have "map (group_of d') (gused d' a) = ((groups_table d)(p := map (group_of d) used @ [g])) a" for a
  proof (cases "a = p")
    case True
    have "map (group_of d') used = map (group_of d) used"
    proof (rule map_cong [OF refl])
      fix c assume "c \<in> set used"
      then have "c \<noteq> e" using split(1) by auto
      then show "group_of d' c = group_of d c" by (rule go)
    qed
    then show ?thesis using True by (simp add: gu ge)
  next
    case False
    have "c \<noteq> e" if "c \<in> set (gused d a)" for c
    proof -
      obtain b where b: "fd_peers d a = Some b" "c \<in> set (fp_group_entries_used b)"
        using \<open>c \<in> set (gused d a)\<close> by (cases "fd_peers d a") (auto simp: gused_def)
      then show ?thesis using gpeer_okD(5) [OF grp_okD [OF ok b(1)] b(2)] ev False by auto
    qed
    then show ?thesis using False go by (simp add: gu groups_table_def)
  qed
  then show "groups_table d' = (groups_table d)(p := map (group_of d) used @ [g])"
    unfolding groups_table_def by blast
qed

lemma fp_update_order:
  "fp_groups_tree_update T (fp_group_entries_used_update u q) = fp_group_entries_used_update u (fp_groups_tree_update T q)"
  "fp_group_entries_used_update u (fp_group_entries_free_update f q) = fp_group_entries_free_update f (fp_group_entries_used_update u q)"
  "fp_groups_tree_update T (fp_group_entries_free_update f q) = fp_group_entries_free_update f (fp_groups_tree_update T q)"
  by (cases q; simp)+

section \<open>Joining a group\<close>

text \<open>From \<open>// add entry to used list\<close> to \<open>// add to multicast\<close> in \<open>add_group_to_peer\<close>, for an entry
  that is in no list.\<close>

lemma join_new_ok:
  assumes ok: "mc_ok d L C U" and new: "e \<notin> U" and x: "gcore d e = Some (p', t, g0, n)"
    and q: "fd_peers d p = Some q" and tree: "fp_groups_tree q g = None"
  shows "\<exists>d' L'. (do {
          d \<leftarrow> upd_fdpeer d p (\<lambda>q. q\<lparr>fp_group_entries_used := fp_group_entries_used q @ [e]\<rparr>);
          d \<leftarrow> upd_fdgroup d e (\<lambda>x. x\<lparr>ge_group := g\<rparr>);
          d \<leftarrow> FDGroupsTree_Insert d p e;
          d \<leftarrow> add_to_multicast d e;
          Some (e, d) }) = Some (e, d') \<and> mc_ok d' L' C (insert e U) \<and>
     fd_peers d' = (fd_peers d)(p \<mapsto> q\<lparr>fp_group_entries_used := fp_group_entries_used q @ [e],
        fp_groups_tree := (fp_groups_tree q)(g \<mapsto> e)\<rparr>) \<and>
     gcore d' = (gcore d)(e \<mapsto> (p', t, g, n)) \<and> grp_frame d d' \<and>
     l3_iters (fd_ll3 d') = l3_iters (fd_ll3 d)"
proof -
  obtain x where x: "fd_groups d e = Some x" "ge_peer x = p'" "ge_timer x = t" "ge_timer_endtime x = n"
    using x by (auto simp: gcore_def)
  let ?q = "q\<lparr>fp_group_entries_used := fp_group_entries_used q @ [e],
        fp_groups_tree := (fp_groups_tree q)(g \<mapsto> e)\<rparr>"
  let ?G = "(fd_groups d)(e \<mapsto> x\<lparr>ge_group := g\<rparr>)"
  let ?d = "d\<lparr>fd_groups := ?G, fd_multicast_tree := fd_multicast_tree d, fd_ll3 := fd_ll3 d,
    fd_peers := (fd_peers d)(p \<mapsto> ?q)\<rparr>"
  have ok1: "mc_ok ?d L C U"
    by (rule mc_ok_local [OF ok]) (use new in \<open>auto simp: mcpart_def\<close>)
  have core: "gcore ?d = (gcore d)(e \<mapsto> (p', t, g, n))" by (simp add: gcore_def x fun_eq_iff)
  have "fd_groups ?d e = Some (x\<lparr>ge_group := g\<rparr>)" by simp
  then obtain d' L' where d': "add_to_multicast ?d e = Some d'" "mc_ok d' L' C (insert e U)"
    "mc_frame ?d d'" "l3_iters (fd_ll3 d') = l3_iters (fd_ll3 ?d)"
    using add_to_multicast_ok [OF ok1 new] by blast
  have "grp_frame d ?d" by (rule grp_frameI [OF refl]) (simp add: q mpart_def)
  then have fr: "grp_frame d d'" by (rule grp_frame_trans [OF _ grp_frame_mc [OF d'(3)]])
  note m = mc_frame_simps(1,12) [OF d'(3)]
  have "fd_peers d' = (fd_peers d)(p \<mapsto> ?q)" "gcore d' = (gcore d)(e \<mapsto> (p', t, g, n))"
    using m core by simp_all
  moreover have "(do {
          d \<leftarrow> upd_fdpeer d p (\<lambda>q. q\<lparr>fp_group_entries_used := fp_group_entries_used q @ [e]\<rparr>);
          d \<leftarrow> upd_fdgroup d e (\<lambda>x. x\<lparr>ge_group := g\<rparr>);
          d \<leftarrow> FDGroupsTree_Insert d p e;
          d \<leftarrow> add_to_multicast d e;
          Some (e, d) }) = Some (e, d')"
    using d'(1) by (simp add: fd_upd_defs q x(1) FDGroupsTree_Insert_def tree)
  ultimately show ?thesis using d'(2,4) fr by auto
qed

definition join_result :: "FrameDecider \<Rightarrow> nat \<Rightarrow> u32 \<Rightarrow> int \<Rightarrow> nat \<Rightarrow> FrameDecider \<Rightarrow>
    (u32 \<Rightarrow> nat list) \<Rightarrow> (nat \<Rightarrow> nat list) \<Rightarrow> bool" where
  "join_result d p g t e d' L' C' \<longleftrightarrow> groups_inv d' L' C' \<and> grp_frame d d' \<and>
     groups_table d' = (groups_table d)(p := lru_add (fd_max_peer_groups d) (groups_table d p) g) \<and>
     gcore d' = (gcore d)(e \<mapsto> (p, Some t, g, t)) \<and> e \<in> set (gused d' p)"

lemma set_timer_joined:
  assumes d1: "mc_ok d1 L1 C1 (insert e (used_groups d))" "gcore d1 = (gcore d)(e \<mapsto> (p, t0, g, n0))"
      "fd_peers d1 = (fd_peers d)(p \<mapsto> q')" "grp_frame d d1" "iter_ok (fd_decide_state d) (fd_ll3 d1) C1"
    and ok: "grp_ok d" and q: "fd_peers d p = Some q"
    and q': "q' = q\<lparr>fp_group_entries_free := free, fp_group_entries_used := used @ [e],
       fp_groups_tree := T(g \<mapsto> e)\<rparr>"
    and split: "distinct (e # free @ used)"
      "set (e # free @ used) = set (fp_group_entries_free q @ fp_group_entries_used q)"
      "set used \<subseteq> set (fp_group_entries_used q)" "set free \<subseteq> set (fp_group_entries_free q)"
      "set (fp_group_entries_used q) \<subseteq> insert e (set used)"
    and T: "\<And>h c. T h = Some c \<longleftrightarrow> fp_groups_tree q h = Some c \<and> c \<noteq> e" "T g = None"
    and tab: "map (group_of d) used @ [g] = lru_add (fd_max_peer_groups d) (groups_table d p) g"
  shows "\<exists>d' L' C'. set_group_timer d1 e t = Some d' \<and> join_result d p g t e d' L' C'"
proof -
  have "gcore d1 e = Some (p, t0, g, n0)" by (simp add: d1(2))
  then obtain d' where d': "set_group_timer d1 e t = Some d'" "mc_ok d' L1 C1 (insert e (used_groups d))"
    "gcore d' = (gcore d1)(e \<mapsto> (p, Some t, g, t))" "fd_peers d' = fd_peers d1" "grp_frame d1 d'"
    "fd_ll3 d' = fd_ll3 d1"
    using set_group_timer_ok [OF d1(1)] by blast
  have fr: "grp_frame d d'" by (rule grp_frame_trans [OF d1(4) d'(5)])
  have p: "fd_peers d' = (fd_peers d)(p \<mapsto> q')" "gcore d' = (gcore d)(e \<mapsto> (p, Some t, g, t))"
    using d' d1 by simp_all
  note j = joined [OF ok q p grp_frame_simps(8) [OF fr] q' split T]
  have "groups_inv d' L1 C1"
    unfolding groups_inv_def using j(1,2) d'(2,6) d1(5) grp_frame_simps(4) [OF fr] by simp
  moreover have "e \<in> set (gused d' p)" by (simp add: gused_def p(1) q')
  ultimately have "join_result d p g t e d' L1 C1"
    unfolding join_result_def using fr p(2) j(3) tab by simp
  then show ?thesis using d'(1) by blast
qed

lemma groups_table_gused: "fd_peers d p = Some q \<Longrightarrow> groups_table d p = map (group_of d) (fp_group_entries_used q)"
  by (simp add: groups_table_def gused_def)

lemma gused_tree_iff:
  assumes "gpeer_ok n (gcore d) p q" "e \<in> set (fp_group_entries_used q)"
  shows "fp_groups_tree q g = Some e \<longleftrightarrow> group_of d e = g"
proof -
  obtain g' t where g: "gcore d e = Some (p, Some t, g', t)" "fp_groups_tree q g' = Some e"
    using gpeer_okD(5) [OF assms] by blast
  have "group_of d e = g'" by (rule group_of_core [OF g(1)])
  moreover have "g = g'" if "fp_groups_tree q g = Some e"
    using gpeer_okD(6) [OF assms(1) that] g(1) by auto
  ultimately show ?thesis using g(2) by blast
qed

lemma group_inj:
  assumes "gpeer_ok n (gcore d) p q"
  shows "inj_on (group_of d) (set (fp_group_entries_used q))"
  by (rule inj_onI) (metis assms gused_tree_iff option.inject)

text \<open>A group the peer is already in.\<close>

lemma add_group_refresh:
  assumes inv: "groups_inv d L C" and q: "fd_peers d p = Some q" and e: "fp_groups_tree q g = Some e"
  shows "\<exists>d' L' C'. add_group_to_peer d p g now = Some d' \<and>
    join_result d p g (now + fd_igmp_group_membership_interval d) e d' L' C'"
proof -
  have ok: "grp_ok d" "mc_ok d L C (used_groups d)" "iter_ok (fd_decide_state d) (fd_ll3 d) C"
    using inv by (simp_all add: groups_inv_def)
  have gp: "gpeer_ok (fd_max_peer_groups d) (gcore d) p q" by (rule grp_okD [OF ok(1) q])
  obtain t0 where eu: "e \<in> set (fp_group_entries_used q)" "gcore d e = Some (p, Some t0, g, t0)"
    using gpeer_okD(6) [OF gp e] by blast
  let ?used = "remove1 e (fp_group_entries_used q)"
  let ?q1 = "q\<lparr>fp_group_entries_used := ?used @ [e]\<rparr>"
  define d1 where "d1 = d\<lparr>fd_peers := (fd_peers d)(p \<mapsto> ?q1)\<rparr>"
  have ein: "insert e (used_groups d) = used_groups d"
    using used_groupsI [OF q eu(1)] by blast
  have core: "gcore d1 = gcore d" by (simp add: d1_def gcore_def fun_eq_iff)
  have 1: "mc_ok d1 L C (insert e (used_groups d))"
    unfolding ein by (rule mc_ok_local [OF ok(2)]) (simp_all add: d1_def mcpart_def)
  have 2: "gcore d1 = (gcore d)(e \<mapsto> (p, Some t0, g, t0))" using eu(2) core by (simp add: fun_upd_idem)
  have fr: "grp_frame d d1"
    by (rule grp_frameI [where G = "fd_groups d" and T = "fd_multicast_tree d" and h = "fd_ll3 d"
          and P = "(fd_peers d)(p \<mapsto> ?q1)"]) (auto simp: d1_def q mpart_def)
  define T where "T = (fp_groups_tree q)(g := None)"
  have Tg: "T(g \<mapsto> e) = fp_groups_tree q" by (simp add: T_def e fun_upd_idem)
  have 3: "?q1 = q\<lparr>fp_group_entries_free := fp_group_entries_free q,
     fp_group_entries_used := ?used @ [e], fp_groups_tree := T(g \<mapsto> e)\<rparr>"
    unfolding Tg by simp
  have T: "T h = Some c \<longleftrightarrow> fp_groups_tree q h = Some c \<and> c \<noteq> e" for h c
    using gpeer_okD(6) [OF gp, of h c] eu(2) e by (auto simp: T_def)
  have "T g = None" by (simp add: T_def)
  have su: "set ?used = set (fp_group_entries_used q) - {e}" using gpeer_okD(2) [OF gp] by simp
  have ef: "e \<notin> set (fp_group_entries_free q)" using gpeer_okD(3) [OF gp, of e] eu(1) by blast
  have split: "distinct (e # fp_group_entries_free q @ ?used)"
    "set (e # fp_group_entries_free q @ ?used) = set (fp_group_entries_free q @ fp_group_entries_used q)"
    "set ?used \<subseteq> set (fp_group_entries_used q)"
    "set (fp_group_entries_used q) \<subseteq> insert e (set ?used)"
    using gpeer_okD(1-3) [OF gp] su ef eu(1) by auto
  have ge: "group_of d e = g" by (rule group_of_core [OF eu(2)])
  have tab: "map (group_of d) ?used @ [g] = lru_add (fd_max_peer_groups d) (groups_table d p) g"
  proof -
    have m: "map (group_of d) ?used = removeAll g (groups_table d p)"
      using map_remove1_removeAll [OF group_inj [OF gp] gpeer_okD(2) [OF gp] eu(1)] q ge
      by (simp add: groups_table_gused)
    have "length ?used < length (fp_group_entries_used q)" using eu(1)
      length_pos_if_in_set [OF eu(1)] by (simp add: length_remove1)
    then have "length (removeAll g (groups_table d p)) < fd_max_peer_groups d"
      using gpeer_okD(7) [OF gp] m [symmetric] by simp
    then show ?thesis using m by (simp add: lru_add_def)
  qed
  have it: "iter_ok (fd_decide_state d) (fd_ll3 d1) C" using ok(3) by (simp add: d1_def)
  have peers: "fd_peers d1 = (fd_peers d)(p \<mapsto> ?q1)" by (simp add: d1_def)
  obtain d' L' C' where d': "set_group_timer d1 e (now + fd_igmp_group_membership_interval d) = Some d'"
    "join_result d p g (now + fd_igmp_group_membership_interval d) e d' L' C'"
    using set_timer_joined [OF 1 2 peers fr it ok(1) q 3 split(1-3) subset_refl split(4) T
        \<open>T g = None\<close> tab, of "now + fd_igmp_group_membership_interval d"] by blast
  have "add_group_to_peer d p g now = set_group_timer d1 e (now + fd_igmp_group_membership_interval d)"
    by (simp add: add_group_to_peer_def q e eu(1) ll1_remove_def fd_upd_defs d1_def)
  then show ?thesis using d' by auto
qed

text \<open>A new group, with a free entry.\<close>

lemma tree_None_not_in:
  assumes gp: "gpeer_ok n (gcore d) p q" and none: "fp_groups_tree q g = None"
  shows "g \<notin> group_of d ` set (fp_group_entries_used q)"
  using gused_tree_iff [OF gp] none by (metis image_iff option.distinct(1))

lemma add_group_fresh:
  assumes inv: "groups_inv d L C" and q: "fd_peers d p = Some q" and none: "fp_groups_tree q g = None"
    and free: "fp_group_entries_free q = e # free"
  shows "\<exists>d' L' C'. add_group_to_peer d p g now = Some d' \<and>
    join_result d p g (now + fd_igmp_group_membership_interval d) e d' L' C'"
proof -
  let ?t = "now + fd_igmp_group_membership_interval d"
  have ok: "grp_ok d" "mc_ok d L C (used_groups d)" "iter_ok (fd_decide_state d) (fd_ll3 d) C"
    using inv by (simp_all add: groups_inv_def)
  have gp: "gpeer_ok (fd_max_peer_groups d) (gcore d) p q" by (rule grp_okD [OF ok(1) q])
  have eu: "e \<notin> set (fp_group_entries_used q)" "e \<in> set (fp_group_entries_free q)"
    using gpeer_okD(3) [OF gp, of e] free by auto
  obtain g0 t0 where ec: "gcore d e = Some (p, None, g0, t0)" using gpeer_okD(4) [OF gp eu(2)] by blast
  have new: "e \<notin> used_groups d"
  proof
    assume "e \<in> used_groups d"
    then obtain a b where "fd_peers d a = Some b" "e \<in> set (fp_group_entries_used b)"
      by (rule used_groupsE)
    then show False using gpeer_okD(5) [OF grp_okD [OF ok(1)]] ec by fastforce
  qed
  let ?q0 = "q\<lparr>fp_group_entries_free := free\<rparr>"
  define d0 where "d0 = d\<lparr>fd_peers := (fd_peers d)(p \<mapsto> ?q0)\<rparr>"
  have q0: "fd_peers d0 p = Some ?q0" "fp_groups_tree ?q0 g = None" by (simp_all add: d0_def none)
  have core0: "gcore d0 = gcore d" by (simp add: d0_def gcore_def fun_eq_iff)
  have ok0: "mc_ok d0 L C (used_groups d)"
    by (rule mc_ok_local [OF ok(2)]) (simp_all add: d0_def mcpart_def)
  have fr0: "grp_frame d d0"
    by (rule grp_frameI [where G = "fd_groups d" and T = "fd_multicast_tree d" and h = "fd_ll3 d"
          and P = "(fd_peers d)(p \<mapsto> ?q0)"]) (auto simp: d0_def q mpart_def)
  have ec0: "gcore d0 e = Some (p, None, g0, t0)" using ec core0 by simp
  obtain d1 L1 where run: "(do {
          d \<leftarrow> upd_fdpeer d0 p (\<lambda>q. q\<lparr>fp_group_entries_used := fp_group_entries_used q @ [e]\<rparr>);
          d \<leftarrow> upd_fdgroup d e (\<lambda>x. x\<lparr>ge_group := g\<rparr>);
          d \<leftarrow> FDGroupsTree_Insert d p e;
          d \<leftarrow> add_to_multicast d e;
          Some (e, d) }) = Some (e, d1)" and d1: "mc_ok d1 L1 C (insert e (used_groups d))"
     "fd_peers d1 = (fd_peers d0)(p \<mapsto> ?q0\<lparr>fp_group_entries_used := fp_group_entries_used ?q0 @ [e],
        fp_groups_tree := (fp_groups_tree ?q0)(g \<mapsto> e)\<rparr>)"
     "gcore d1 = (gcore d0)(e \<mapsto> (p, None, g, t0))" "grp_frame d0 d1"
     "l3_iters (fd_ll3 d1) = l3_iters (fd_ll3 d0)"
    using join_new_ok [OF ok0 new ec0 q0] by blast
  let ?q1 = "q\<lparr>fp_group_entries_free := free, fp_group_entries_used := fp_group_entries_used q @ [e],
     fp_groups_tree := (fp_groups_tree q)(g \<mapsto> e)\<rparr>"
  have peers: "fd_peers d1 = (fd_peers d)(p \<mapsto> ?q1)" unfolding d1(2) by (simp add: d0_def)
  have core: "gcore d1 = (gcore d)(e \<mapsto> (p, None, g, t0))" unfolding d1(3) core0 ..
  have fr: "grp_frame d d1" by (rule grp_frame_trans [OF fr0 d1(4)])
  have it: "iter_ok (fd_decide_state d) (fd_ll3 d1) C"
    by (rule iter_ok_same [OF ok(3)]) (simp add: d1(5) d0_def)
  have split: "distinct (e # free @ fp_group_entries_used q)"
    "set (e # free @ fp_group_entries_used q) = set (fp_group_entries_free q @ fp_group_entries_used q)"
    "set free \<subseteq> set (fp_group_entries_free q)"
    using gpeer_okD(1-3) [OF gp] free by auto
  have T: "fp_groups_tree q h = Some c \<longleftrightarrow> fp_groups_tree q h = Some c \<and> c \<noteq> e" for h c
    using gpeer_okD(6) [OF gp, of h c] eu(1) by auto
  have tab: "map (group_of d) (fp_group_entries_used q) @ [g] =
      lru_add (fd_max_peer_groups d) (groups_table d p) g"
    using tree_None_not_in [OF gp none] gpeer_okD(7) [OF gp] free
    by (simp add: lru_add_def groups_table_gused [OF q])
  obtain d' L' C' where d': "set_group_timer d1 e ?t = Some d'" "join_result d p g ?t e d' L' C'"
    using set_timer_joined [OF d1(1) core peers fr it ok(1) q refl split(1,2) subset_refl split(3)
        subset_insertI T none tab, of ?t] by blast
  have "add_group_to_peer d p g now = (do {
          (e, d) \<leftarrow> (do {
          d \<leftarrow> upd_fdpeer d0 p (\<lambda>q. q\<lparr>fp_group_entries_used := fp_group_entries_used q @ [e]\<rparr>);
          d \<leftarrow> upd_fdgroup d e (\<lambda>x. x\<lparr>ge_group := g\<rparr>);
          d \<leftarrow> FDGroupsTree_Insert d p e;
          d \<leftarrow> add_to_multicast d e;
          Some (e, d) });
          set_group_timer d e (now + fd_igmp_group_membership_interval d) })"
    by (simp add: add_group_to_peer_def q none acquire_group_entry_def free upd_fdpeer_def d0_def)
  also have "\<dots> = Some d'"
    unfolding run using d'(1) grp_frame_simps(9) [OF fr] by simp
  finally show ?thesis using d'(2) by blast
qed

text \<open>A new group, with the entry of the earliest refreshed one.\<close>

lemma add_group_reuse:
  assumes inv: "groups_inv d L C" and q: "fd_peers d p = Some q" and none: "fp_groups_tree q g = None"
    and free: "fp_group_entries_free q = []" and used: "fp_group_entries_used q = e # used"
  shows "\<exists>d' L' C'. add_group_to_peer d p g now = Some d' \<and>
    join_result d p g (now + fd_igmp_group_membership_interval d) e d' L' C'"
proof -
  let ?t = "now + fd_igmp_group_membership_interval d"
  have ok: "grp_ok d" "mc_ok d L C (used_groups d)" "iter_ok (fd_decide_state d) (fd_ll3 d) C"
    using inv by (simp_all add: groups_inv_def)
  have gp: "gpeer_ok (fd_max_peer_groups d) (gcore d) p q" by (rule grp_okD [OF ok(1) q])
  have eu: "e \<in> set (fp_group_entries_used q)" by (simp add: used)
  then have eU: "e \<in> used_groups d" by (rule used_groupsI [OF q])
  obtain g0 t0 where ec: "gcore d e = Some (p, Some t0, g0, t0)" "fp_groups_tree q g0 = Some e"
    using gpeer_okD(5) [OF gp eu] by blast
  obtain d0 L0 C0 where rm: "remove_from_multicast d e = Some d0" "mc_ok d0 L0 C0 (used_groups d - {e})"
    "mc_frame d d0" "iters_jump d L C e d0 L0 C0"
    using remove_from_multicast_ok [OF ok(2) eU] by blast
  note m0 = mc_frame_simps [OF rm(3)]
  define T where "T = (fp_groups_tree q)(g0 := None)"
  let ?q0 = "q\<lparr>fp_group_entries_used := used, fp_groups_tree := T\<rparr>"
  define d1 where "d1 = d0\<lparr>fd_peers := (fd_peers d0)(p \<mapsto> ?q0)\<rparr>"
  have gg: "g0 \<noteq> g" using none ec(2) by auto
  have q0: "fd_peers d1 p = Some ?q0" "fp_groups_tree ?q0 g = None"
    using none by (simp_all add: d1_def T_def)
  have core1: "gcore d1 = gcore d"
    using m0(12) by (simp add: d1_def gcore_def fun_eq_iff)
  have ok1: "mc_ok d1 L0 C0 (used_groups d - {e})"
    by (rule mc_ok_local [OF rm(2)]) (simp_all add: d1_def mcpart_def)
  have fr1: "grp_frame d0 d1"
    by (rule grp_frameI [where G = "fd_groups d0" and T = "fd_multicast_tree d0" and h = "fd_ll3 d0"
          and P = "(fd_peers d0)(p \<mapsto> ?q0)"]) (auto simp: d1_def q mpart_def m0(1))
  have ec1: "gcore d1 e = Some (p, Some t0, g0, t0)" using ec core1 by simp
  obtain d2 L2 where run: "(do {
          d \<leftarrow> upd_fdpeer d1 p (\<lambda>q. q\<lparr>fp_group_entries_used := fp_group_entries_used q @ [e]\<rparr>);
          d \<leftarrow> upd_fdgroup d e (\<lambda>x. x\<lparr>ge_group := g\<rparr>);
          d \<leftarrow> FDGroupsTree_Insert d p e;
          d \<leftarrow> add_to_multicast d e;
          Some (e, d) }) = Some (e, d2)" and d2: "mc_ok d2 L2 C0 (insert e (used_groups d - {e}))"
     "fd_peers d2 = (fd_peers d1)(p \<mapsto> ?q0\<lparr>fp_group_entries_used := fp_group_entries_used ?q0 @ [e],
        fp_groups_tree := (fp_groups_tree ?q0)(g \<mapsto> e)\<rparr>)"
     "gcore d2 = (gcore d1)(e \<mapsto> (p, Some t0, g, t0))" "grp_frame d1 d2"
     "l3_iters (fd_ll3 d2) = l3_iters (fd_ll3 d1)"
    using join_new_ok [OF ok1 _ ec1 q0] by blast
  let ?q1 = "q\<lparr>fp_group_entries_free := fp_group_entries_free q, fp_group_entries_used := used @ [e],
     fp_groups_tree := T(g \<mapsto> e)\<rparr>"
  have peers: "fd_peers d2 = (fd_peers d)(p \<mapsto> ?q1)" unfolding d2(2) by (simp add: d1_def m0(1))
  have core: "gcore d2 = (gcore d)(e \<mapsto> (p, Some t0, g, t0))" unfolding d2(3) core1 ..
  have fr: "grp_frame d d2"
    by (rule grp_frame_trans [OF grp_frame_mc [OF rm(3)] grp_frame_trans [OF fr1 d2(4)]])
  have it: "iter_ok (fd_decide_state d) (fd_ll3 d2) C0"
    by (rule iter_ok_same [OF iter_ok_jump [OF ok(3) rm(4)]]) (simp add: d2(5) d1_def)
  have split: "distinct (e # fp_group_entries_free q @ used)"
    "set (e # fp_group_entries_free q @ used) = set (fp_group_entries_free q @ fp_group_entries_used q)"
    "set used \<subseteq> set (fp_group_entries_used q)" "set (fp_group_entries_used q) \<subseteq> insert e (set used)"
    using gpeer_okD(2) [OF gp] free used by auto
  have T: "T h = Some c \<longleftrightarrow> fp_groups_tree q h = Some c \<and> c \<noteq> e" for h c
    using gpeer_okD(6) [OF gp, of h c] ec by (auto simp: T_def)
  have Tg: "T g = None" using none by (simp add: T_def)
  have tab: "map (group_of d) used @ [g] = lru_add (fd_max_peer_groups d) (groups_table d p) g"
    using tree_None_not_in [OF gp none] gpeer_okD(7) [OF gp] free used
    by (simp add: lru_add_def groups_table_gused [OF q])
  have ins: "insert e (used_groups d - {e}) = insert e (used_groups d)" by blast
  obtain d' L' C' where d': "set_group_timer d2 e ?t = Some d'" "join_result d p g ?t e d' L' C'"
    using set_timer_joined [OF d2(1)[unfolded ins] core peers fr it ok(1) q refl split(1-3) subset_refl
        split(4) T Tg tab, of ?t] by blast
  have "gcore d0 e = Some (p, Some t0, g0, t0)" using ec(1) m0(12) by simp
  then obtain x where x: "fd_groups d0 e = Some x" "ge_group x = g0" by (auto simp: gcore_def)
  have tree: "do { d \<leftarrow> FDGroupsTree_Remove d0 p e;
      upd_fdpeer d p (\<lambda>q. q\<lparr>fp_group_entries_used := remove1 e (fp_group_entries_used q)\<rparr>) } = Some d1"
    by (simp add: FDGroupsTree_Remove_def x m0(1) q ec(2) upd_fdpeer_def used d1_def T_def fp_update_order)
  have acq: "acquire_group_entry d p = Some (e, d1)"
    using tree unfolding acquire_group_entry_def by (simp add: q free used rm(1) bind_Some)
  have "add_group_to_peer d p g now = (do {
          (e, d) \<leftarrow> (do {
          d \<leftarrow> upd_fdpeer d1 p (\<lambda>q. q\<lparr>fp_group_entries_used := fp_group_entries_used q @ [e]\<rparr>);
          d \<leftarrow> upd_fdgroup d e (\<lambda>x. x\<lparr>ge_group := g\<rparr>);
          d \<leftarrow> FDGroupsTree_Insert d p e;
          d \<leftarrow> add_to_multicast d e;
          Some (e, d) });
          set_group_timer d e (now + fd_igmp_group_membership_interval d) })"
    by (simp add: add_group_to_peer_def q none acq)
  also have "\<dots> = Some d'"
    unfolding run using d'(1) grp_frame_simps(9) [OF fr] by simp
  finally show ?thesis using d'(2) by blast
qed

lemma add_group_to_peer_ok:
  assumes inv: "groups_inv d L C" and p: "p \<in> dom (fd_peers d)" and pos: "fd_max_peer_groups d > 0"
  shows "\<exists>d' e L' C'. add_group_to_peer d p g now = Some d' \<and>
    join_result d p g (now + fd_igmp_group_membership_interval d) e d' L' C'"
proof -
  obtain q where q: "fd_peers d p = Some q" using p by blast
  have gp: "gpeer_ok (fd_max_peer_groups d) (gcore d) p q"
    using inv q by (simp add: groups_inv_def grp_ok_def)
  show ?thesis
  proof (cases "fp_groups_tree q g")
    case (Some e)
    then show ?thesis using add_group_refresh [OF inv q] by blast
  next
    case None
    show ?thesis
    proof (cases "fp_group_entries_free q")
      case (Cons e free)
      then show ?thesis using add_group_fresh [OF inv q None] by blast
    next
      case Nil
      then obtain e used where "fp_group_entries_used q = e # used"
        using gpeer_okD(7) [OF gp] pos by (cases "fp_group_entries_used q") auto
      then show ?thesis using add_group_reuse [OF inv q None Nil] by blast
    qed
  qed
qed

section \<open>Leaving a group\<close>

definition leave_result :: "FrameDecider \<Rightarrow> nat \<Rightarrow> u32 \<Rightarrow> FrameDecider \<Rightarrow> (u32 \<Rightarrow> nat list) \<Rightarrow>
    (nat \<Rightarrow> nat list) \<Rightarrow> bool" where
  "leave_result d p g d' L' C' \<longleftrightarrow> groups_inv d' L' C' \<and> grp_frame d d' \<and>
     groups_table d' = (groups_table d)(p := removeAll g (groups_table d p))"

lemma left:
  assumes ok: "grp_ok d" and q: "fd_peers d p = Some q" and e: "e \<in> set (fp_group_entries_used q)"
    and ec: "gcore d e = Some (p, t, g, m)"
    and d': "fd_peers d' = (fd_peers d)(p \<mapsto> q\<lparr>fp_group_entries_free := fp_group_entries_free q @ [e],
       fp_group_entries_used := remove1 e (fp_group_entries_used q),
       fp_groups_tree := (fp_groups_tree q)(g := None)\<rparr>)" (is "_ = (fd_peers d)(p \<mapsto> ?q)")
      "gcore d' = (gcore d)(e \<mapsto> (p, None, g, m))" "fd_max_peer_groups d' = fd_max_peer_groups d"
  shows "grp_ok d'" "used_groups d' = used_groups d - {e}"
    "groups_table d' = (groups_table d)(p := removeAll g (groups_table d p))"
proof -
  have gp: "gpeer_ok (fd_max_peer_groups d) (gcore d) p q" by (rule grp_okD [OF ok q])
  have "gpeer_ok (fd_max_peer_groups d) (gcore d') p ?q"
    unfolding d'(2) by (rule gpeer_leave [OF gp e ec])
  moreover have "gpeer_ok (fd_max_peer_groups d) (gcore d') a b" if "a \<noteq> p" "fd_peers d a = Some b" for a b
    unfolding d'(2) by (rule gpeer_other [OF grp_okD [OF ok that(2)] that(1) ec])
  ultimately show "grp_ok d'" unfolding grp_ok_def d'(1,3) by simp
  have gu: "gused d' a = (if a = p then remove1 e (fp_group_entries_used q) else gused d a)" for a
    unfolding gused_def d'(1) by simp
  have gq: "gused d p = fp_group_entries_used q" by (simp add: gused_def q)
  have other: "c \<noteq> e" if "a \<noteq> p" and c: "c \<in> set (gused d a)" for a c
  proof -
    obtain b where b: "fd_peers d a = Some b" "c \<in> set (fp_group_entries_used b)"
      using c by (cases "fd_peers d a") (auto simp: gused_def)
    then show ?thesis using gpeer_okD(5) [OF grp_okD [OF ok b(1)] b(2)] ec \<open>a \<noteq> p\<close> by auto
  qed
  have gs: "set (gused d' a) = set (gused d a) - {e}" for a
    using gpeer_okD(2) [OF gp] other [of a] unfolding gu by (auto simp: gq)
  show "used_groups d' = used_groups d - {e}" unfolding used_groups_def gs by blast
  have go: "group_of d' c = group_of d c" for c
  proof (cases "c = e")
    case True
    have "group_of d' e = g" by (rule group_of_core [of _ _ p None _ m]) (simp add: d'(2))
    then show ?thesis using group_of_core [OF ec] True by simp
  next
    case False
    then show ?thesis by (intro group_of_eq) (simp add: d'(2))
  qed
  have ge: "group_of d e = g" by (rule group_of_core [OF ec])
  have "map (group_of d) (remove1 e (fp_group_entries_used q)) = removeAll g (groups_table d p)"
    using map_remove1_removeAll [OF group_inj [OF gp] gpeer_okD(2) [OF gp] e] ge
    by (simp add: groups_table_gused [OF q])
  moreover have "group_of d' = group_of d" using go by (simp add: fun_eq_iff)
  ultimately have "map (group_of d') (gused d' a) =
      ((groups_table d)(p := removeAll g (groups_table d p))) a" for a
    by (cases "a = p") (simp_all add: gu groups_table_def)
  then show "groups_table d' = (groups_table d)(p := removeAll g (groups_table d p))"
    unfolding groups_table_def by blast
qed

lemma group_entry_timer_handler_ok:
  assumes inv: "groups_inv d L C" and q: "fd_peers d p = Some q" and e: "e \<in> set (fp_group_entries_used q)"
  shows "\<exists>d' L' C'. group_entry_timer_handler d e = Some d' \<and> leave_result d p (group_of d e) d' L' C'"
proof -
  have ok: "grp_ok d" "mc_ok d L C (used_groups d)" "iter_ok (fd_decide_state d) (fd_ll3 d) C"
    using inv by (simp_all add: groups_inv_def)
  have gp: "gpeer_ok (fd_max_peer_groups d) (gcore d) p q" by (rule grp_okD [OF ok(1) q])
  obtain g t0 where ec: "gcore d e = Some (p, Some t0, g, t0)" "fp_groups_tree q g = Some e"
    using gpeer_okD(5) [OF gp e] by blast
  have ge: "group_of d e = g" by (rule group_of_core [OF ec(1)])
  obtain x where x: "fd_groups d e = Some x" "ge_peer x = p" "ge_group x = g" "ge_timer_endtime x = t0"
    using ec(1) by (auto simp: gcore_def)
  define d0 where "d0 = d\<lparr>fd_groups := (fd_groups d)(e \<mapsto> x\<lparr>ge_timer := None\<rparr>)\<rparr>"
  have core0: "gcore d0 = (gcore d)(e \<mapsto> (p, None, g, t0))" by (simp add: d0_def gcore_def x fun_eq_iff)
  have ok0: "mc_ok d0 L C (used_groups d)"
    by (rule mc_ok_local [OF ok(2)]) (simp_all add: d0_def mcpart_def x)
  have fr0: "grp_frame d d0"
    by (rule grp_frameI [where G = "(fd_groups d)(e \<mapsto> x\<lparr>ge_timer := None\<rparr>)" and
          T = "fd_multicast_tree d" and h = "fd_ll3 d" and P = "fd_peers d"]) (simp_all add: d0_def)
  obtain d1 L1 C1 where rm: "remove_from_multicast d0 e = Some d1" "mc_ok d1 L1 C1 (used_groups d - {e})"
    "mc_frame d0 d1" "iters_jump d0 L C e d1 L1 C1"
    using remove_from_multicast_ok [OF ok0 used_groupsI [OF q e]] by blast
  note m1 = mc_frame_simps [OF rm(3)]
  have core1: "gcore d1 = (gcore d)(e \<mapsto> (p, None, g, t0))" using m1(12) core0 by simp
  have "gcore d1 e = Some (p, None, g, t0)" by (simp add: core1)
  then obtain y where y: "fd_groups d1 e = Some y" "ge_peer y = p" "ge_group y = g" "ge_timer y = None"
    by (auto simp: gcore_def)
  have q1: "fd_peers d1 p = Some q" using m1(1) q by (simp add: d0_def)
  let ?q = "q\<lparr>fp_group_entries_free := fp_group_entries_free q @ [e],
       fp_group_entries_used := remove1 e (fp_group_entries_used q),
       fp_groups_tree := (fp_groups_tree q)(g := None)\<rparr>"
  define d2 where "d2 = d1\<lparr>fd_peers := (fd_peers d1)(p \<mapsto> ?q)\<rparr>"
  have ynone: "y\<lparr>ge_timer := None\<rparr> = y" using y(4) by (cases y) simp
  have gid: "(fd_groups d1)(e \<mapsto> y) = fd_groups d1" using y(1) by (simp add: fun_upd_idem)
  have run: "group_entry_timer_handler d e = Some d2"
    using rm(1) y(1-3) q1 ec(2) e
    by (simp add: group_entry_timer_handler_def remove_group_entry_def x(1,2) fd_upd_defs
        FDGroupsTree_Remove_def ll1_remove_def ynone gid flip: d0_def) (simp add: d0_def d2_def x(2) fp_update_order)
  have core2: "gcore d2 = (gcore d)(e \<mapsto> (p, None, g, t0))"
    using core1 by (simp add: d2_def gcore_def fun_eq_iff)
  have peers2: "fd_peers d2 = (fd_peers d)(p \<mapsto> ?q)" using m1(1) by (simp add: d2_def d0_def)
  have fr2: "grp_frame d1 d2"
    by (rule grp_frameI [where G = "fd_groups d1" and T = "fd_multicast_tree d1" and h = "fd_ll3 d1"
          and P = "(fd_peers d1)(p \<mapsto> ?q)"]) (auto simp: d2_def q1 mpart_def)
  have fr: "grp_frame d d2"
    by (rule grp_frame_trans [OF fr0 grp_frame_trans [OF grp_frame_mc [OF rm(3)] fr2]])
  note l = left [OF ok(1) q e ec(1) peers2 core2 grp_frame_simps(8) [OF fr]]
  have "mc_ok d2 L1 C1 (used_groups d2)"
    unfolding l(2) by (rule mc_ok_local [OF rm(2)]) (simp_all add: d2_def mcpart_def)
  moreover have "iter_ok (fd_decide_state d2) (fd_ll3 d2) C1"
    using iter_ok_jump [OF _ rm(4), of "fd_decide_state d"] ok(3) grp_frame_simps(4) [OF fr]
    by (simp add: d2_def d0_def)
  ultimately have "leave_result d p g d2 L1 C1"
    unfolding leave_result_def groups_inv_def using l fr by blast
  then show ?thesis using run ge by blast
qed

section \<open>Lowering the timers of a group\<close>

definition lowered :: "int \<Rightarrow> u32 \<Rightarrow> int \<Rightarrow> nat \<times> int option \<times> u32 \<times> int \<Rightarrow> nat \<times> int option \<times> u32 \<times> int" where
  "lowered lmqt grp now = (\<lambda>(p, t, g, n).
     if g = grp \<and> n > now + lmqt then (p, Some (now + lmqt), g, now + lmqt) else (p, t, g, n))"

fun lower_cores :: "int \<Rightarrow> u32 \<Rightarrow> (nat \<Rightarrow> int) \<Rightarrow> nat \<Rightarrow> nat list \<Rightarrow> gcores \<Rightarrow> gcores" where
  "lower_cores lmqt grp clock i [] K = K"
| "lower_cores lmqt grp clock i (y # ys) K =
     lower_cores lmqt grp clock (Suc i) ys (K(y := map_option (lowered lmqt grp (clock i)) (K y)))"

lemma lower_cores_other: "b \<notin> set ys \<Longrightarrow> lower_cores n g clock i ys K b = K b"
  by (induction ys arbitrary: i K) simp_all

lemma lower_cores_nth:
  "distinct ys \<Longrightarrow> j < length ys \<Longrightarrow>
   lower_cores n g clock i ys K (ys ! j) = map_option (lowered n g (clock (i + j))) (K (ys ! j))"
proof (induction ys arbitrary: i j K)
  case (Cons y ys)
  show ?case
  proof (cases j)
    case (Suc k)
    then have "ys ! k \<noteq> y" using Cons.prems by auto
    then show ?thesis using Cons Suc by simp
  qed (use Cons.prems in \<open>simp add: lower_cores_other\<close>)
qed simp

lemma lower_one_timer_ok:
  assumes ok: "mc_ok d L C U" and e: "e \<in> U"
  shows "\<exists>d'. lower_one_timer d grp now e = Some d' \<and> mc_ok d' L C U \<and>
    gcore d' = (gcore d)(e := map_option (lowered (fd_igmp_last_member_query_time d) grp now) (gcore d e)) \<and>
    fd_peers d' = fd_peers d \<and> grp_frame d d' \<and> fd_ll3 d' = fd_ll3 d"
proof -
  let ?n = "fd_igmp_last_member_query_time d"
  obtain x where x: "fd_groups d e = Some x" using mc_ok_D(3) [OF ok e] by blast
  then have core: "gcore d e = Some (ge_peer x, ge_timer x, ge_group x, ge_timer_endtime x)"
    by (simp add: gcore_def)
  show ?thesis
  proof (cases "ge_group x = grp \<and> ge_timer_endtime x > now + ?n")
    case True
    obtain d' where d': "set_group_timer d e (now + ?n) = Some d'" "mc_ok d' L C U"
      "gcore d' = (gcore d)(e \<mapsto> (ge_peer x, Some (now + ?n), ge_group x, now + ?n))"
      "fd_peers d' = fd_peers d" "grp_frame d d'" "fd_ll3 d' = fd_ll3 d"
      using set_group_timer_ok [OF ok core] by blast
    have "lower_one_timer d grp now e = Some d'" using x True d'(1) by (simp add: lower_one_timer_def)
    then show ?thesis using d' True core by (simp add: lowered_def)
  next
    case False
    then have "lower_one_timer d grp now e = Some d" using x by (simp add: lower_one_timer_def)
    moreover have "map_option (lowered ?n grp now) (gcore d e) = gcore d e"
      using False by (simp add: core lowered_def)
    ultimately show ?thesis using ok grp_frame_refl by (simp add: fun_upd_idem)
  qed
qed

text \<open>The iterators' places with the loop's iterator on the first node of \<open>ys\<close>.\<close>

definition place :: "(nat \<Rightarrow> nat list) \<Rightarrow> nat \<Rightarrow> nat list \<Rightarrow> nat \<Rightarrow> nat list" where
  "place C w ys = put_it C w (first_opt ys)"

lemma mc_ok_ll3:
  assumes "mc_ok d L C U" "ll3_wf h L C'"
  shows "mc_ok (d\<lparr>fd_ll3 := h\<rparr>) L C' U"
proof -
  let ?d = "d\<lparr>fd_ll3 := h\<rparr>"
  have e: "gsig ?d = gsig d" "is_master ?d = is_master d" "fd_groups ?d = fd_groups d"
    "fd_ll3 ?d = h" "fd_multicast_tree ?d = fd_multicast_tree d"
    by (simp_all add: gsig_def is_master_def fun_eq_iff)
  show ?thesis using assms unfolding mc_ok_def e by blast
qed

lemma grp_frame_ll3: "grp_frame d (d\<lparr>fd_ll3 := h\<rparr>)"
  by (rule grp_frameI [where G = "fd_groups d" and T = "fd_multicast_tree d" and h = h
        and P = "fd_peers d"]) simp_all

lemma gcore_ll3 [simp]: "gcore (d\<lparr>fd_ll3 := h\<rparr>) = gcore d"
  by (simp add: gcore_def fun_eq_iff)

lemma lower_loop_ok:
  assumes "mc_ok d L (place C lower_it ys) U" "L s = xs @ ys"
    "idir (fd_ll3 d) lower_it = Some (first_opt ys, 1)"
  shows "\<exists>d'. lower_loop d grp clock i = Some d' \<and> mc_ok d' L C U \<and>
    gcore d' = lower_cores (fd_igmp_last_member_query_time d) grp clock i ys (gcore d) \<and>
    fd_peers d' = fd_peers d \<and> grp_frame d d' \<and>
    (\<forall>w. w \<noteq> lower_it \<longrightarrow> idir (fd_ll3 d') w = idir (fd_ll3 d) w)"
  using assms
proof (induction ys arbitrary: d xs i)
  case Nil
  have "LinkedList3Iterator_Next (fd_ll3 d) lower_it = Some (None, fd_ll3 d)"
    by (rule Iterator_Next_end) (use Nil.prems in simp)
  then have "lower_loop d grp clock i = Some d" by (subst lower_loop.simps) simp
  then show ?case using Nil.prems grp_frame_refl by (simp add: place_def put_it_def)
next
  case (Cons y ys)
  note ok = Cons.prems(1)
  have C: "place C lower_it (y # ys) y = lower_it # C y" by (simp add: place_def put_it_def)
  have wf: "ll3_wf (fd_ll3 d) L (place C lower_it (y # ys))" by (rule mc_ok_D(1) [OF ok])
  have it: "lower_it \<in> set (place C lower_it (y # ys) y)" by (simp add: C)
  have "(place C lower_it (y # ys))(y := remove1 lower_it (place C lower_it (y # ys) y)) = C"
    unfolding C by (simp add: place_def put_it_def fun_eq_iff)
  then obtain h where h: "LinkedList3Iterator_Next (fd_ll3 d) lower_it = Some (Some y, h)"
    "ll3_wf h L (place C lower_it ys)" "idir h = (idir (fd_ll3 d))(lower_it \<mapsto> (first_opt ys, 1))"
    using Iterator_Next_at [OF wf it Cons.prems(2) Cons.prems(3)[simplified]]
    by (auto simp: it_next_def place_def)
  let ?d = "d\<lparr>fd_ll3 := h\<rparr>"
  have ok1: "mc_ok ?d L (place C lower_it ys) U" by (rule mc_ok_ll3 [OF ok h(2)])
  have "y \<in> set (L s)" using Cons.prems(2) by simp
  then have "y \<in> U" using mc_ok_D(2) [OF ok] by blast
  then obtain d1 where d1: "lower_one_timer ?d grp (clock i) y = Some d1" "mc_ok d1 L (place C lower_it ys) U"
    "gcore d1 = (gcore ?d)(y := map_option (lowered (fd_igmp_last_member_query_time ?d) grp (clock i)) (gcore ?d y))"
    "fd_peers d1 = fd_peers ?d" "grp_frame ?d d1" "fd_ll3 d1 = fd_ll3 ?d"
    using lower_one_timer_ok [OF ok1] by blast
  have n: "fd_igmp_last_member_query_time d1 = fd_igmp_last_member_query_time d"
    using grp_frame_simps(10) [OF d1(5)] by simp
  have i1: "idir (fd_ll3 d1) lower_it = Some (first_opt ys, 1)" using d1(6) h(3) by simp
  obtain d' where d': "lower_loop d1 grp clock (Suc i) = Some d'" "mc_ok d' L C U"
    "gcore d' = lower_cores (fd_igmp_last_member_query_time d1) grp clock (Suc i) ys (gcore d1)"
    "fd_peers d' = fd_peers d1" "grp_frame d1 d'"
    "\<forall>w. w \<noteq> lower_it \<longrightarrow> idir (fd_ll3 d') w = idir (fd_ll3 d1) w"
    using Cons.IH [OF d1(2) _ i1, of "xs @ [y]" "Suc i"] Cons.prems(2) by auto
  have run: "lower_loop d grp clock i = Some d'"
    by (subst lower_loop.simps) (simp add: h(1) d1(1) d'(1))
  have "grp_frame d d'" by (rule grp_frame_trans [OF grp_frame_ll3 grp_frame_trans [OF d1(5) d'(5)]])
  moreover have "gcore d' = lower_cores (fd_igmp_last_member_query_time d) grp clock i (y # ys) (gcore d)"
    using d'(3) d1(3) n by simp
  ultimately show ?case using run d'(2,4,6) d1(4,6) h(3) by simp
qed

end
