(* ===== verification/FrameDeciderSys.thy ===== *)
theory FrameDeciderSys
  imports FrameDeciderGroups "HOL-Library.Multiset"
begin

text \<open>
  The frame decider as a whole: the invariant of its state, and that analyzing a frame, a timer, a
  new peer and freeing a peer keep it and change the two tables as intended.
\<close>

section \<open>The invariant\<close>

definition fd_inv :: "FrameDecider \<Rightarrow> (u32 \<Rightarrow> nat list) \<Rightarrow> (nat \<Rightarrow> nat list) \<Rightarrow> bool" where
  "fd_inv d L C \<longleftrightarrow> fd_max_peer_macs d > 0 \<and> fd_max_peer_groups d > 0 \<and>
     distinct (fd_peers_list d) \<and> set (fd_peers_list d) = dom (fd_peers d) \<and>
     mac_ok d \<and> groups_inv d L C \<and>
     (fd_decide_state d = DECIDE_STATE_UNICAST \<longrightarrow>
        (\<exists>p. fd_decide_unicast_peer d = Some p \<and> p \<in> dom (fd_peers d))) \<and>
     (\<forall>p. fd_decide_flood_current d = Some p \<longrightarrow> p \<in> dom (fd_peers d))"

lemma fd_invD:
  assumes "fd_inv d L C"
  shows "fd_max_peer_macs d > 0" "fd_max_peer_groups d > 0" "distinct (fd_peers_list d)"
    "set (fd_peers_list d) = dom (fd_peers d)" "mac_ok d" "groups_inv d L C"
    "grp_ok d" "mc_ok d L C (used_groups d)" "iter_ok (fd_decide_state d) (fd_ll3 d) C"
    "fd_decide_state d = DECIDE_STATE_UNICAST \<Longrightarrow>
       \<exists>p. fd_decide_unicast_peer d = Some p \<and> p \<in> dom (fd_peers d)"
    "fd_decide_flood_current d = Some p \<Longrightarrow> p \<in> dom (fd_peers d)"
  using assms unfolding fd_inv_def groups_inv_def by blast+

lemma fd_inv_mac_frame:
  assumes inv: "fd_inv d L C" and fr: "mac_frame d d'" and ok: "mac_ok d'"
  shows "fd_inv d' L C"
proof -
  note s = mac_frame_simps [OF fr]
  have "groups_inv d' L C"
    using grp_ok_mac_frame [OF fd_invD(7) [OF inv] fr] fd_invD(8,9) [OF inv]
    unfolding groups_inv_def s by simp
  then show ?thesis
    using inv ok unfolding fd_inv_def s(4-9) mac_frame_dom [OF fr] by blast
qed

lemma fd_inv_grp_frame:
  assumes inv: "fd_inv d L C" and fr: "grp_frame d d'" and ok: "groups_inv d' L' C'"
  shows "fd_inv d' L' C'"
proof -
  note s = grp_frame_simps [OF fr]
  have "mac_ok d'" by (rule mac_ok_grp_frame(1) [OF fd_invD(5) [OF inv] fr])
  then show ?thesis
    using inv ok unfolding fd_inv_def s(3-8) grp_frame_dom [OF fr] by blast
qed

section \<open>Analyzing a peer's frame\<close>

text \<open>The groups a frame asks to join, in order.\<close>

fun v3_groups :: "nat \<Rightarrow> byte list \<Rightarrow> u32 list" where
  "v3_groups 0 b = []"
| "v3_groups (Suc n) b =
     (case igmp_v3_record b of
        None \<Rightarrow> []
      | Some (None, r) \<Rightarrow> v3_groups n r
      | Some (Some g, r) \<Rightarrow> g # v3_groups n r)"

definition igmp_groups :: "byte list \<Rightarrow> u32 list" where
  "igmp_groups b =
     (if length b < 8 then []
      else if b ! 0 = 0x16 then [rd32 b 4]
      else if b ! 0 = 0x22 then v3_groups (unat (ntoh16 (rd16 b 6))) (drop 8 b)
      else [])"

definition reported_groups :: "byte list \<Rightarrow> u32 list" where
  "reported_groups frame =
     (if length frame < 14 \<or> ntoh16 (eth_type (ethernet_header_of frame)) \<noteq> 0x0800 then []
      else case ipv4_check (drop 14 frame) of
        None \<Rightarrow> []
      | Some (hdr, b) \<Rightarrow> if ip4_protocol hdr \<noteq> 2 then [] else igmp_groups b)"

text \<open>The result of joining groups one after the other.\<close>

definition joined_all :: "FrameDecider \<Rightarrow> nat \<Rightarrow> u32 list \<Rightarrow> FrameDecider option \<Rightarrow> bool" where
  "joined_all d p gs r \<longleftrightarrow> (\<exists>d' L' C'. r = Some d' \<and> fd_inv d' L' C' \<and> grp_frame d d' \<and>
     groups_table d' = (groups_table d)(p := foldl (lru_add (fd_max_peer_groups d)) (groups_table d p) gs))"

lemma joined_none: "fd_inv d L C \<Longrightarrow> joined_all d p [] (Some d)"
  unfolding joined_all_def using grp_frame_refl by auto

lemma add_group_fd:
  assumes inv: "fd_inv d L C" and p: "p \<in> dom (fd_peers d)"
  shows "\<exists>d' L' C'. add_group_to_peer d p g now = Some d' \<and> fd_inv d' L' C' \<and> grp_frame d d' \<and>
    groups_table d' = (groups_table d)(p := lru_add (fd_max_peer_groups d) (groups_table d p) g)"
proof -
  obtain d' e L' C' where d': "add_group_to_peer d p g now = Some d'"
    "join_result d p g (now + fd_igmp_group_membership_interval d) e d' L' C'"
    using add_group_to_peer_ok [OF fd_invD(6) [OF inv] p fd_invD(2) [OF inv]] by blast
  then have j: "groups_inv d' L' C'" "grp_frame d d'"
    "groups_table d' = (groups_table d)(p := lru_add (fd_max_peer_groups d) (groups_table d p) g)"
    unfolding join_result_def by blast+
  then show ?thesis using d'(1) fd_inv_grp_frame [OF inv j(2,1)] by blast
qed

lemma joined_cons:
  assumes inv: "fd_inv d L C" and p: "p \<in> dom (fd_peers d)"
    and rest: "\<And>d1 L1 C1. fd_inv d1 L1 C1 \<Longrightarrow> p \<in> dom (fd_peers d1) \<Longrightarrow> joined_all d1 p gs (k d1)"
  shows "joined_all d p (g # gs) (add_group_to_peer d p g now \<bind> k)"
proof -
  obtain d1 L1 C1 where d1: "add_group_to_peer d p g now = Some d1" "fd_inv d1 L1 C1" "grp_frame d d1"
    "groups_table d1 = (groups_table d)(p := lru_add (fd_max_peer_groups d) (groups_table d p) g)"
    using add_group_fd [OF inv p] by blast
  have "p \<in> dom (fd_peers d1)" using p grp_frame_dom [OF d1(3)] by simp
  then have "joined_all d1 p gs (k d1)" using rest d1(2) by blast
  then obtain d' L' C' where d': "k d1 = Some d'" "fd_inv d' L' C'" "grp_frame d1 d'"
    "groups_table d' = (groups_table d1)(p := foldl (lru_add (fd_max_peer_groups d1)) (groups_table d1 p) gs)"
    unfolding joined_all_def by blast
  have "fd_max_peer_groups d1 = fd_max_peer_groups d" using grp_frame_simps(8) [OF d1(3)] .
  then have "groups_table d' = (groups_table d)(p :=
      foldl (lru_add (fd_max_peer_groups d)) (groups_table d p) (g # gs))"
    using d'(4) d1(4) by simp
  then show ?thesis
    unfolding joined_all_def using d1(1) d'(1,2) grp_frame_trans [OF d1(3) d'(3)] by auto
qed

lemma add_v3_records_fd:
  "fd_inv d L C \<Longrightarrow> p \<in> dom (fd_peers d) \<Longrightarrow> joined_all d p (v3_groups n b) (add_v3_records d p n b clock i)"
proof (induction n arbitrary: d L C b i)
  case 0
  then show ?case using joined_none by simp
next
  case (Suc n)
  show ?case
  proof (cases "igmp_v3_record b")
    case None
    then show ?thesis using joined_none [OF Suc.prems(1)] by simp
  next
    case (Some gr)
    obtain g r where gr: "gr = (g, r)" by (cases gr)
    show ?thesis
    proof (cases g)
      case None
      then show ?thesis using Suc.IH [OF Suc.prems] Some gr by simp
    next
      case (Some h)
      have "joined_all d p (h # v3_groups n r)
          (add_group_to_peer d p h (clock i) \<bind> (\<lambda>d. add_v3_records d p n r clock (Suc i)))"
        by (rule joined_cons [OF Suc.prems Suc.IH])
      then show ?thesis using \<open>igmp_v3_record b = Some gr\<close> Some gr by simp
    qed
  qed
qed

lemma analyze_igmp_fd:
  assumes inv: "fd_inv d L C" and p: "p \<in> dom (fd_peers d)"
  shows "joined_all d p (igmp_groups b) (analyze_igmp d p b clock)"
proof -
  have one: "joined_all d p [g] (add_group_to_peer d p g now)" for g now
    using joined_cons [OF inv p, of "[]" Some g now] joined_none by simp
  show ?thesis
    using one joined_none [OF inv] add_v3_records_fd [OF inv p]
    by (auto simp: analyze_igmp_def igmp_groups_def)
qed

lemma FrameDeciderPeer_Analyze_fd:
  assumes inv: "fd_inv d L C" and p: "p \<in> dom (fd_peers d)"
  shows "\<exists>d' L' C'. FrameDeciderPeer_Analyze d p frame clock = Some d' \<and> fd_inv d' L' C' \<and>
    fd_decide_state d' = fd_decide_state d \<and> fd_peers_list d' = fd_peers_list d \<and> fd_max_peer_macs d' = fd_max_peer_macs d \<and>
    fd_max_peer_groups d' = fd_max_peer_groups d \<and>
    macs_table d' = (if length frame < 14 then macs_table d
      else learn_mac (fd_max_peer_macs d) (macs_table d) p (seg frame 6 6)) \<and>
    groups_table d' = (groups_table d)(p :=
      foldl (lru_add (fd_max_peer_groups d)) (groups_table d p) (reported_groups frame))"
proof (cases "length frame < 14")
  case True
  then show ?thesis using inv by (auto simp: FrameDeciderPeer_Analyze_def reported_groups_def)
next
  case False
  let ?src = "eth_source (ethernet_header_of frame)"
  have src: "?src = seg frame 6 6" by (simp add: ethernet_header_of_def)
  obtain d1 where d1: "add_mac_to_peer d p ?src = Some d1" "mac_ok d1" "mac_frame d d1"
    "macs_table d1 = learn_mac (fd_max_peer_macs d) (macs_table d) p ?src"
    using add_mac_to_peer_ok [OF fd_invD(5) [OF inv] p fd_invD(1) [OF inv]] by blast
  have inv1: "fd_inv d1 L C" by (rule fd_inv_mac_frame [OF inv d1(3,2)])
  have gt1: "groups_table d1 = groups_table d" by (rule grp_ok_mac_frame(2) [OF fd_invD(7) [OF inv] d1(3)])
  note s1 = mac_frame_simps(4,5,8,9) [OF d1(3)]
  have p1: "p \<in> dom (fd_peers d1)" using p mac_frame_dom [OF d1(3)] by simp
  have "joined_all d1 p (reported_groups frame) (FrameDeciderPeer_Analyze d p frame clock)"
  proof (cases "\<exists>hdr b. ntoh16 (eth_type (ethernet_header_of frame)) = 0x0800 \<and>
      ipv4_check (drop 14 frame) = Some (hdr, b) \<and> ip4_protocol hdr = 2")
    case True
    then obtain hdr b where "ntoh16 (eth_type (ethernet_header_of frame)) = 0x0800"
      "ipv4_check (drop 14 frame) = Some (hdr, b)" "ip4_protocol hdr = 2" by blast
    then have "reported_groups frame = igmp_groups b"
      "FrameDeciderPeer_Analyze d p frame clock = analyze_igmp d1 p b clock"
      using False d1(1) by (simp_all add: reported_groups_def FrameDeciderPeer_Analyze_def)
    then show ?thesis using analyze_igmp_fd [OF inv1 p1] by simp
  next
    case no: False
    then have "reported_groups frame = []" "FrameDeciderPeer_Analyze d p frame clock = Some d1"
      using False d1(1)
      by (auto simp: reported_groups_def FrameDeciderPeer_Analyze_def split: option.split prod.split)
    then show ?thesis using joined_none [OF inv1] by simp
  qed
  then obtain d' L' C' where d': "FrameDeciderPeer_Analyze d p frame clock = Some d'" "fd_inv d' L' C'"
    "grp_frame d1 d'" "groups_table d' = (groups_table d1)(p :=
      foldl (lru_add (fd_max_peer_groups d1)) (groups_table d1 p) (reported_groups frame))"
    unfolding joined_all_def by blast
  have "macs_table d' = macs_table d1" by (rule mac_ok_grp_frame(2) [OF fd_invD(5) [OF inv1] d'(3)])
  then show ?thesis
    using d'(1,2,4) s1 grp_frame_simps(3,4,7,8) [OF d'(3)] d1(4) False src gt1 by auto
qed

section \<open>Timers\<close>

lemma timer_handler_fd:
  assumes inv: "fd_inv d L C" and e: "e \<in> set (gused d p)"
  shows "\<exists>d' L' C'. group_entry_timer_handler d e = Some d' \<and> fd_inv d' L' C' \<and>
    groups_table d' = (groups_table d)(p := removeAll (group_of d e) (groups_table d p)) \<and>
    fd_peers_list d' = fd_peers_list d \<and> macs_table d' = macs_table d \<and>
    fd_max_peer_macs d' = fd_max_peer_macs d \<and> fd_max_peer_groups d' = fd_max_peer_groups d"
proof -
  obtain q where q: "fd_peers d p = Some q" "e \<in> set (fp_group_entries_used q)"
    using e by (cases "fd_peers d p") (auto simp: gused_def)
  obtain d' L' C' where d': "group_entry_timer_handler d e = Some d'"
    "leave_result d p (group_of d e) d' L' C'"
    using group_entry_timer_handler_ok [OF fd_invD(6) [OF inv] q] by blast
  then have l: "groups_inv d' L' C'" "grp_frame d d'"
    "groups_table d' = (groups_table d)(p := removeAll (group_of d e) (groups_table d p))"
    unfolding leave_result_def by blast+
  show ?thesis
    using d'(1) l(3) fd_inv_grp_frame [OF inv l(2,1)] grp_frame_simps(3,7,8) [OF l(2)]
      mac_ok_grp_frame(2) [OF fd_invD(5) [OF inv] l(2)] by auto
qed

section \<open>Lists\<close>

lemma ll1_next_split: "x \<notin> set us \<Longrightarrow> ll1_next (us @ x # vs) x = Some (first_opt vs)"
  by (induction us) auto

lemma ll1_next_distinct:
  assumes "distinct xs" "x \<in> set xs"
  shows "\<exists>n. ll1_next xs x = Some n \<and> (\<forall>y. n = Some y \<longrightarrow> y \<in> set xs \<and> y \<noteq> x)"
proof -
  obtain us vs where xs: "xs = us @ x # vs" using assms(2) by (meson split_list)
  then have "ll1_next xs x = Some (first_opt vs)" using assms(1) ll1_next_split by simp
  then show ?thesis using assms(1) xs by (auto dest: first_opt_Some)
qed

section \<open>A new peer\<close>

text \<open>Memory that the allocator may hand out: nothing of the decider lives there.\<close>

definition fresh_block :: "(nat \<rightharpoonup> 'a) \<Rightarrow> nat \<Rightarrow> nat \<Rightarrow> bool" where
  "fresh_block M base n \<longleftrightarrow> (\<forall>a. base \<le> a \<and> a < base + n \<longrightarrow> M a = None)"

lemma init_macs_simps:
  "base \<le> a \<Longrightarrow> a < base + n \<Longrightarrow> init_macs M base n p a = Some \<lparr>me_peer = p, me_mac = []\<rparr>"
  "fresh_block M base n \<Longrightarrow> M a = Some x \<Longrightarrow> init_macs M base n p a = Some x"
  by (auto simp: init_macs_def fresh_block_def)

lemma init_groups_simps:
  "base \<le> a \<Longrightarrow> a < base + n \<Longrightarrow> init_groups G base n p a = Some \<lparr>ge_peer = p, ge_timer = None,
     ge_group = 0, ge_timer_endtime = 0, ge_is_master = False, ge_master_sig = 0\<rparr>"
  "fresh_block G base n \<Longrightarrow> G a = Some x \<Longrightarrow> init_groups G base n p a = Some x"
  by (auto simp: init_groups_def fresh_block_def)

lemma gpeer_ok_cong:
  assumes ok: "gpeer_ok n K p q" and same: "\<And>e v. K e = Some (p, v) \<Longrightarrow> K' e = Some (p, v)"
  shows "gpeer_ok n K' p q"
proof (rule gpeer_okI)
  show "distinct (fp_group_entries_free q @ fp_group_entries_used q)" using gpeer_okD(1-3) [OF ok] by auto
  show "set (fp_group_entries_free q @ fp_group_entries_used q) = {fp_group_entries q..<fp_group_entries q + n}"
    by (rule gpeer_ok_set [OF ok])
  show "\<exists>g t. K' e = Some (p, None, g, t)" if "e \<in> set (fp_group_entries_free q)" for e
    using gpeer_okD(4) [OF ok that] same by blast
  show "\<exists>g t. K' e = Some (p, Some t, g, t) \<and> fp_groups_tree q g = Some e"
    if "e \<in> set (fp_group_entries_used q)" for e
    using gpeer_okD(5) [OF ok that] same by blast
  show "e \<in> set (fp_group_entries_used q)" if "fp_groups_tree q g = Some e" for g e
    using gpeer_okD(6) [OF ok that] by blast
  show "\<exists>t m. K' e = Some (p, t, g, m)" if "fp_groups_tree q g = Some e" for g e
    using gpeer_okD(6) [OF ok that] same by blast
qed

lemma mpeer_ok_cong:
  assumes ok: "mpeer_ok d p q" and n: "fd_max_peer_macs d' = fd_max_peer_macs d"
    and same: "\<And>e x. fd_macs d e = Some x \<Longrightarrow> me_peer x = p \<Longrightarrow> fd_macs d' e = Some x"
    and tree: "\<And>e. e \<in> set (fp_mac_entries_used q) \<Longrightarrow> fd_macs_tree d' (mac_of d e) = fd_macs_tree d (mac_of d e)"
  shows "mpeer_ok d' p q"
proof -
  have o: "mowner d' e = Some p \<and> mac_of d' e = mac_of d e" if "mowner d e = Some p" for e
    using that same [of e] by (auto simp: mowner_def mac_of_def)
  have u: "mowner d e = Some p" if "e \<in> set (fp_mac_entries_used q)" for e by (rule mpeer_okD(5) [OF ok that])
  show ?thesis
    using ok o u tree unfolding mpeer_ok_def n by simp
qed

lemma mac_table_entry:
  assumes ok: "mac_ok d" and e: "e \<in> set (mused d a)"
  shows "\<exists>x. fd_macs d e = Some x \<and> me_peer x = a"
proof -
  obtain q where "fd_peers d a = Some q" "e \<in> set (fp_mac_entries_used q)"
    using e by (cases "fd_peers d a") (auto simp: mused_def)
  then have "mowner d e = Some a" using mpeer_okD(5) [OF mac_okD(1) [OF ok]] by blast
  then show ?thesis by (auto simp: mowner_def)
qed

lemma group_table_entry:
  assumes ok: "grp_ok d" and e: "e \<in> set (gused d a)"
  shows "\<exists>x. fd_groups d e = Some x \<and> ge_peer x = a"
proof -
  obtain q where "fd_peers d a = Some q" "e \<in> set (fp_group_entries_used q)"
    using e by (cases "fd_peers d a") (auto simp: gused_def)
  then obtain g t where "gcore d e = Some (a, Some t, g, t)" using gpeer_okD(5) [OF grp_okD [OF ok]] by blast
  then show ?thesis by (auto simp: gcore_def)
qed

definition new_peer :: "FrameDecider \<Rightarrow> nat \<Rightarrow> nat \<Rightarrow> nat \<Rightarrow> FrameDecider" where
  "new_peer d p mb gb = d\<lparr>fd_peers_list := fd_peers_list d @ [p],
     fd_macs := init_macs (fd_macs d) mb (fd_max_peer_macs d) p,
     fd_groups := init_groups (fd_groups d) gb (fd_max_peer_groups d) p,
     fd_peers := (fd_peers d)(p \<mapsto>
       \<lparr>fp_mac_entries = mb, fp_group_entries = gb,
        fp_mac_entries_free = [mb..<mb + fd_max_peer_macs d], fp_mac_entries_used = [],
        fp_group_entries_free = [gb..<gb + fd_max_peer_groups d], fp_group_entries_used = [],
        fp_groups_tree = Map.empty\<rparr>)\<rparr>"

lemma new_peer_mac_ok:
  assumes ok: "mac_ok d" and p: "p \<notin> dom (fd_peers d)" and fr: "fresh_block (fd_macs d) mb (fd_max_peer_macs d)"
  shows "mac_ok (new_peer d p mb gb)" "macs_table (new_peer d p mb gb) = macs_table d"
proof -
  let ?d = "new_peer d p mb gb"
  have keep: "fd_macs ?d e = Some x" if "fd_macs d e = Some x" for e x
    using init_macs_simps(2) [OF fr that] by (simp add: new_peer_def)
  have tr: "fd_macs_tree ?d = fd_macs_tree d" "fd_max_peer_macs ?d = fd_max_peer_macs d" by (simp_all add: new_peer_def)
  have old: "fd_peers ?d a = fd_peers d a" if "a \<noteq> p" for a using that by (simp add: new_peer_def)
  have ap: "a \<noteq> p" if "fd_peers d a = Some q" for a q using p that by auto
  show "mac_ok ?d"
    unfolding mac_ok_def
  proof (intro conjI allI impI)
    fix a q assume q: "fd_peers ?d a = Some q"
    show "mpeer_ok ?d a q"
    proof (cases "a = p")
      case True
      have "mowner ?d e = Some p" if "mb \<le> e" "e < mb + fd_max_peer_macs d" for e
        using init_macs_simps(1) [OF that] by (simp add: mowner_def new_peer_def)
      then show ?thesis using q True by (auto simp: mpeer_ok_def new_peer_def)
    next
      case False
      show ?thesis
        by (rule mpeer_ok_cong [OF mac_okD(1) [OF ok]]) (use q False keep tr old in auto)
    qed
  next
    fix m e assume "fd_macs_tree ?d m = Some e"
    then have t: "fd_macs_tree d m = Some e" by (simp add: tr)
    then obtain a q where q: "fd_peers d a = Some q" "e \<in> set (fp_mac_entries_used q)"
      using mac_okD(2) [OF ok] by blast
    then obtain x where x: "fd_macs d e = Some x" using mac_table_entry [OF ok, of e a] by (auto simp: mused_def)
    show "mac_of ?d e = m" using mac_okD(2) [OF ok t] keep [OF x] x by (simp add: mac_of_def)
    show "\<exists>p q. fd_peers ?d p = Some q \<and> e \<in> set (fp_mac_entries_used q)"
      using q old [OF ap [OF q(1)]] by metis
  qed
  have "mused ?d a = mused d a" for a
    using p old [of a] by (cases "a = p") (auto simp: mused_def new_peer_def split: option.split)
  moreover have "mac_of ?d e = mac_of d e" if "e \<in> set (mused d a)" for e a
    using mac_table_entry [OF ok that] keep by (auto simp: mac_of_def)
  ultimately show "macs_table ?d = macs_table d" by (simp add: macs_table_def fun_eq_iff)
qed

lemma new_peer_groups_inv:
  assumes inv: "groups_inv d L C" and p: "p \<notin> dom (fd_peers d)"
    and fr: "fresh_block (fd_groups d) gb (fd_max_peer_groups d)"
  shows "groups_inv (new_peer d p mb gb) L C" "groups_table (new_peer d p mb gb) = groups_table d"
proof -
  let ?d = "new_peer d p mb gb"
  have ok: "grp_ok d" "mc_ok d L C (used_groups d)" "iter_ok (fd_decide_state d) (fd_ll3 d) C"
    using inv unfolding groups_inv_def by blast+
  have keep: "fd_groups ?d e = Some x" if "fd_groups d e = Some x" for e x
    using init_groups_simps(2) [OF fr that] by (simp add: new_peer_def)
  have n: "fd_max_peer_groups ?d = fd_max_peer_groups d" by (simp add: new_peer_def)
  have old: "fd_peers ?d a = fd_peers d a" if "a \<noteq> p" for a using that by (simp add: new_peer_def)
  have "gpeer_ok (fd_max_peer_groups ?d) (gcore ?d) a q" if q: "fd_peers ?d a = Some q" for a q
  proof (cases "a = p")
    case True
    have "gcore ?d e = Some (p, None, 0, 0)" if "gb \<le> e" "e < gb + fd_max_peer_groups d" for e
      using init_groups_simps(1) [OF that] by (simp add: gcore_def new_peer_def)
    then show ?thesis using q True by (intro gpeer_okI) (auto simp: new_peer_def)
  next
    case False
    have same: "gcore ?d e = Some v" if "gcore d e = Some v" for e v
      using that keep by (auto simp: gcore_def)
    have qd: "fd_peers d a = Some q" using q old [OF False] by simp
    show ?thesis
      unfolding n by (rule gpeer_ok_cong [OF grp_okD [OF ok(1) qd]]) (rule same)
  qed
  then have g: "grp_ok ?d" unfolding grp_ok_def by blast
  have gu: "gused ?d a = gused d a" for a
    using p old [of a] by (cases "a = p") (auto simp: gused_def new_peer_def split: option.split)
  then have U: "used_groups ?d = used_groups d" by (simp add: used_groups_def)
  have "mc_ok ?d L C (used_groups ?d)"
    unfolding U
  proof (rule mc_ok_local [OF ok(2)])
    show "mcpart ?d e = mcpart d e" if "e \<in> used_groups d" for e
      using mc_ok_D(3) [OF ok(2) that] keep by (auto simp: mcpart_def)
  qed (simp_all add: new_peer_def)
  moreover have "iter_ok (fd_decide_state ?d) (fd_ll3 ?d) C" using ok(3) by (simp add: new_peer_def)
  ultimately show "groups_inv ?d L C" using g unfolding groups_inv_def by blast
  have "group_of ?d e = group_of d e" if "e \<in> set (gused d a)" for e a
    using group_table_entry [OF ok(1) that] keep by (auto simp: group_of_def)
  then show "groups_table ?d = groups_table d" by (simp add: groups_table_def fun_eq_iff gu)
qed

lemma FrameDeciderPeer_Init_fd:
  assumes inv: "fd_inv d L C" and p: "p \<notin> dom (fd_peers d)"
    and fresh: "\<And>mb. macs = Some mb \<Longrightarrow> fresh_block (fd_macs d) mb (fd_max_peer_macs d)"
      "\<And>gb. groups = Some gb \<Longrightarrow> fresh_block (fd_groups d) gb (fd_max_peer_groups d)"
  shows "\<exists>d'. FrameDeciderPeer_Init d p macs groups = (macs \<noteq> None \<and> groups \<noteq> None, d') \<and> fd_inv d' L C \<and>
    fd_peers_list d' = (if macs \<noteq> None \<and> groups \<noteq> None then fd_peers_list d @ [p] else fd_peers_list d) \<and>
    macs_table d' = macs_table d \<and> groups_table d' = groups_table d \<and>
    fd_max_peer_macs d' = fd_max_peer_macs d \<and> fd_max_peer_groups d' = fd_max_peer_groups d"
proof (cases "\<exists>mb gb. macs = Some mb \<and> groups = Some gb")
  case False
  then have "FrameDeciderPeer_Init d p macs groups = (macs \<noteq> None \<and> groups \<noteq> None, d)"
    "\<not> (macs \<noteq> None \<and> groups \<noteq> None)"
    by (auto simp: FrameDeciderPeer_Init_def split: option.splits)
  then show ?thesis using inv by auto
next
  case True
  then obtain mb gb where b: "macs = Some mb" "groups = Some gb" by blast
  let ?d = "new_peer d p mb gb"
  have run: "FrameDeciderPeer_Init d p macs groups = (True, ?d)"
    using b by (simp add: FrameDeciderPeer_Init_def new_peer_def)
  note m = new_peer_mac_ok [OF fd_invD(5) [OF inv] p fresh(1) [OF b(1)], of gb]
    and g = new_peer_groups_inv [OF fd_invD(6) [OF inv] p fresh(2) [OF b(2)], of mb]
  have "fd_inv ?d L C"
    using fd_invD(1-4,10,11) [OF inv] m(1) g(1) p unfolding fd_inv_def by (auto simp: new_peer_def)
  then show ?thesis using run m(2) g(2) b by (simp add: new_peer_def)
qed

section \<open>Freeing a peer\<close>

lemma ll3_wf_nodes:
  assumes wf: "ll3_wf h L C" and n: "\<And>x. x \<in> l3_live L \<Longrightarrow> l3_nodes h' x = l3_nodes h x"
    and it: "l3_iters h' = l3_iters h"
  shows "ll3_wf h' L C"
proof -
  have l: "nlinks h' x = nlinks h x" "nits h' x = nits h x" if "x \<in> l3_live L" for x
    using n [OF that] by (simp_all add: nlinks_def nits_def)
  have i: "ilinks h' = ilinks h" "l3_sits h' = l3_sits h"
    by (simp_all add: ilinks_def l3_sits_def it fun_eq_iff)
  have "dlist (nlinks h') None (L k) None \<longleftrightarrow> dlist (nlinks h) None (L k) None" for k
    by (rule dlist_cong) (use l(1) l3_live_member in fast)
  then have "l3_lists_ok h' L" using wf by (simp add: ll3_wf_def l3_lists_ok_def)
  moreover have "l3_iters_ok h' (l3_live L) C"
    using wf l(2) unfolding ll3_wf_def l3_iters_ok_def i by simp
  ultimately show ?thesis by (simp add: ll3_wf_def)
qed

lemma iter_ok_state:
  "iter_ok st h C \<Longrightarrow> (st' = DECIDE_STATE_MULTICAST) = (st = DECIDE_STATE_MULTICAST) \<Longrightarrow> iter_ok st' h C"
  by (simp add: iter_ok_def)

lemma free_used_groups_ok:
  assumes "mc_ok d L C U" "iter_ok st (fd_ll3 d) C" "distinct es" "set es \<subseteq> U"
  shows "\<exists>G T h L' C'. free_used_groups d es = Some (d\<lparr>fd_groups := G, fd_multicast_tree := T, fd_ll3 := h\<rparr>) \<and>
    mc_ok (d\<lparr>fd_groups := G, fd_multicast_tree := T, fd_ll3 := h\<rparr>) L' C' (U - set es) \<and> iter_ok st h C' \<and>
    (\<forall>e. e \<notin> set es \<longrightarrow> gcore (d\<lparr>fd_groups := G, fd_multicast_tree := T, fd_ll3 := h\<rparr>) e = gcore d e)"
  using assms
proof (induction es arbitrary: d L C U)
  case Nil
  have "d\<lparr>fd_groups := fd_groups d, fd_multicast_tree := fd_multicast_tree d, fd_ll3 := fd_ll3 d\<rparr> = d" by simp
  then show ?case using Nil by (intro exI [of _ "fd_groups d"] exI [of _ "fd_multicast_tree d"] exI [of _ "fd_ll3 d"]) auto
next
  case (Cons e es)
  obtain d1 L1 C1 where d1: "remove_from_multicast d e = Some d1" "mc_ok d1 L1 C1 (U - {e})"
    "mc_frame d d1" "iters_jump d L C e d1 L1 C1"
    using remove_from_multicast_ok [OF Cons.prems(1), of e] Cons.prems(4) by auto
  obtain G1 T1 h1 where f1: "d1 = d\<lparr>fd_groups := G1, fd_multicast_tree := T1, fd_ll3 := h1\<rparr>" "gcore d1 = gcore d"
    using d1(3) unfolding mc_frame_def by blast
  have "e \<in> dom (gcore d1)" using mc_ok_D(3) [OF Cons.prems(1), of e] Cons.prems(4) f1(2) dom_gcore [of d] by auto
  then obtain x where x: "fd_groups d1 e = Some x" by (auto simp: gcore_def)
  let ?d = "d1\<lparr>fd_groups := (fd_groups d1)(e \<mapsto> x\<lparr>ge_timer := None\<rparr>)\<rparr>"
  have up: "upd_fdgroup d1 e (\<lambda>x. x\<lparr>ge_timer := None\<rparr>) = Some ?d" using x by (simp add: upd_fdgroup_def)
  have mc: "mc_ok ?d L1 C1 (U - {e})"
    by (rule mc_ok_local [OF d1(2)]) (auto simp: mcpart_def x)
  have it: "iter_ok st (fd_ll3 ?d) C1" using iter_ok_jump [OF Cons.prems(2) d1(4)] by simp
  have sub: "distinct es" "set es \<subseteq> U - {e}" using Cons.prems(3,4) by auto
  from Cons.IH [OF mc it sub] obtain G T h L' C' where
    r: "free_used_groups ?d es = Some (?d\<lparr>fd_groups := G, fd_multicast_tree := T, fd_ll3 := h\<rparr>)"
      "mc_ok (?d\<lparr>fd_groups := G, fd_multicast_tree := T, fd_ll3 := h\<rparr>) L' C' (U - {e} - set es)" "iter_ok st h C'"
      "\<forall>c. c \<notin> set es \<longrightarrow> gcore (?d\<lparr>fd_groups := G, fd_multicast_tree := T, fd_ll3 := h\<rparr>) c = gcore ?d c"
    by (elim exE conjE)
  have eq: "?d\<lparr>fd_groups := G, fd_multicast_tree := T, fd_ll3 := h\<rparr> = d\<lparr>fd_groups := G, fd_multicast_tree := T, fd_ll3 := h\<rparr>"
    by (simp add: f1(1))
  have "gcore ?d c = gcore d c" if "c \<noteq> e" for c
    using that f1(2) by (simp add: gcore_def fun_eq_iff)
  then have "\<forall>c. c \<notin> set (e # es) \<longrightarrow> gcore (d\<lparr>fd_groups := G, fd_multicast_tree := T, fd_ll3 := h\<rparr>) c = gcore d c"
    using r(4) unfolding eq by simp
  moreover have "U - {e} - set es = U - set (e # es)" by auto
  moreover have "free_used_groups d (e # es) = Some (d\<lparr>fd_groups := G, fd_multicast_tree := T, fd_ll3 := h\<rparr>)"
    using d1(1) up r(1) unfolding eq by simp
  ultimately show ?case using r(2,3) unfolding eq by metis
qed

lemma free_used_macs_ok:
  assumes "\<And>e. e \<in> set es \<Longrightarrow> fd_macs d e \<noteq> None \<and> fd_macs_tree d (mac_of d e) = Some e"
    and "\<And>m e. fd_macs_tree d m = Some e \<Longrightarrow> mac_of d e = m" "distinct es"
  shows "free_used_macs d es = Some (d\<lparr>fd_macs_tree :=
    (\<lambda>m. case fd_macs_tree d m of None \<Rightarrow> None | Some e \<Rightarrow> if e \<in> set es then None else Some e)\<rparr>)"
  using assms
proof (induction es arbitrary: d)
  case Nil
  have e: "(\<lambda>m. case fd_macs_tree d m of None \<Rightarrow> None | Some e \<Rightarrow> if e \<in> set [] then None else Some e) = fd_macs_tree d"
    by (simp add: fun_eq_iff split: option.split)
  show ?case unfolding e by simp
next
  case (Cons e es)
  obtain x where x: "fd_macs d e = Some x" using Cons.prems(1) [of e] by auto
  then have m: "mac_of d e = me_mac x" "fd_macs_tree d (me_mac x) = Some e"
    using Cons.prems(1) [of e] by (simp_all add: mac_of_def)
  let ?d = "d\<lparr>fd_macs_tree := (fd_macs_tree d)(me_mac x := None)\<rparr>"
  have rm: "FDMacsTree_Remove d e = Some ?d" using x m by (simp add: FDMacsTree_Remove_def)
  have mo: "mac_of ?d = mac_of d" by (simp add: mac_of_def fun_eq_iff)
  have 1: "fd_macs ?d c \<noteq> None \<and> fd_macs_tree ?d (mac_of ?d c) = Some c" if "c \<in> set es" for c
  proof -
    have c: "fd_macs d c \<noteq> None" "fd_macs_tree d (mac_of d c) = Some c" using Cons.prems(1) that by simp_all
    have "c \<noteq> e" using Cons.prems(3) that by auto
    then have "mac_of d c \<noteq> me_mac x" using c(2) m(2) by auto
    then show ?thesis using c mo by simp
  qed
  have 2: "mac_of ?d c = k" if "fd_macs_tree ?d k = Some c" for k c
    using that Cons.prems(2) mo by (simp split: if_splits)
  have "free_used_macs ?d es = Some (?d\<lparr>fd_macs_tree :=
    (\<lambda>m. case fd_macs_tree ?d m of None \<Rightarrow> None | Some e \<Rightarrow> if e \<in> set es then None else Some e)\<rparr>)"
    by (rule Cons.IH [OF 1 2]) (use Cons.prems(3) in auto)
  moreover have "(\<lambda>k. case fd_macs_tree ?d k of None \<Rightarrow> None | Some c \<Rightarrow> if c \<in> set es then None else Some c) =
      (\<lambda>k. case fd_macs_tree d k of None \<Rightarrow> None | Some c \<Rightarrow> if c \<in> set (e # es) then None else Some c)"
    using m Cons.prems(2) [of _ e] by (fastforce simp: fun_eq_iff split: option.split)
  ultimately show ?case using rm by simp
qed

text \<open>The state after a peer was freed, with what is left of the memory and the search trees.\<close>

definition peer_freed :: "FrameDecider \<Rightarrow> nat \<Rightarrow> FrameDeciderPeer \<Rightarrow> decide_state \<Rightarrow> nat option \<Rightarrow>
    (nat \<rightharpoonup> group_entry) \<Rightarrow> (u32 \<rightharpoonup> nat) \<Rightarrow> ll3_heap \<Rightarrow> (byte list \<rightharpoonup> nat) \<Rightarrow> FrameDecider" where
  "peer_freed d p q st fl G T h M = d\<lparr>fd_peers_list := remove1 p (fd_peers_list d),
     fd_macs_tree := M, fd_multicast_tree := T, fd_decide_state := st, fd_decide_flood_current := fl,
     fd_peers := (fd_peers d)(p := None),
     fd_macs := free_block (fd_macs d) (fp_mac_entries q) (fd_max_peer_macs d),
     fd_groups := free_block G (fp_group_entries q) (fd_max_peer_groups d),
     fd_ll3 := h\<lparr>l3_nodes := free_block (l3_nodes h) (fp_group_entries q) (fd_max_peer_groups d)\<rparr>\<rparr>"

lemma free_block_keep: "\<not> (base \<le> a \<and> a < base + n) \<Longrightarrow> free_block M base n a = M a"
  by (auto simp: free_block_def)

lemma peer_freed_mac_ok:
  assumes ok: "mac_ok d" and q: "fd_peers d p = Some q"
    and M: "M = (\<lambda>m. case fd_macs_tree d m of None \<Rightarrow> None
      | Some e \<Rightarrow> if e \<in> set (fp_mac_entries_used q) then None else Some e)"
  shows "mac_ok (peer_freed d p q st fl G T h M)"
    "macs_table (peer_freed d p q st fl G T h M) = (macs_table d)(p := [])"
proof -
  let ?d = "peer_freed d p q st fl G T h M"
  note qo = mac_okD(1) [OF ok q]
  have blk: "mowner d e = Some p" if "fp_mac_entries q \<le> e" "e < fp_mac_entries q + fd_max_peer_macs d" for e
  proof -
    have "e \<in> set (fp_mac_entries_free q @ fp_mac_entries_used q)"
      using qo that unfolding mpeer_ok_def by simp
    then show ?thesis using mpeer_okD(4,5) [OF qo] by auto
  qed
  have keep: "fd_macs ?d e = Some x" if "fd_macs d e = Some x" "me_peer x \<noteq> p" for e x
  proof -
    have "\<not> (fp_mac_entries q \<le> e \<and> e < fp_mac_entries q + fd_max_peer_macs d)"
      using blk [of e] that by (auto simp: mowner_def)
    then show ?thesis using that(1) by (simp add: peer_freed_def free_block_keep)
  qed
  have mx: "fd_max_peer_macs ?d = fd_max_peer_macs d" by (simp add: peer_freed_def)
  have peers: "fd_peers ?d a = Some b \<longleftrightarrow> a \<noteq> p \<and> fd_peers d a = Some b" for a b by (simp add: peer_freed_def)
  have used: "e \<notin> set (fp_mac_entries_used q)" if "fd_peers d a = Some b" "e \<in> set (fp_mac_entries_used b)" "a \<noteq> p" for a b e
    using mpeer_okD(5) [OF mac_okD(1) [OF ok that(1)] that(2)] mpeer_okD(5) [OF qo, of e] that(3) by auto
  have tree: "fd_macs_tree ?d m = Some e \<longleftrightarrow> fd_macs_tree d m = Some e \<and> e \<notin> set (fp_mac_entries_used q)" for m e
    by (auto simp: peer_freed_def M split: option.splits if_splits)
  show "mac_ok ?d"
    unfolding mac_ok_def
  proof (intro conjI allI impI)
    fix a b assume "fd_peers ?d a = Some b"
    then have b: "a \<noteq> p" "fd_peers d a = Some b" using peers by blast+
    note bo = mac_okD(1) [OF ok b(2)]
    show "mpeer_ok ?d a b"
    proof (rule mpeer_ok_cong [OF bo mx])
      show "fd_macs ?d e = Some x" if "fd_macs d e = Some x" "me_peer x = a" for e x using keep that b(1) by simp
      show "fd_macs_tree ?d (mac_of d e) = fd_macs_tree d (mac_of d e)" if e: "e \<in> set (fp_mac_entries_used b)" for e
        using mpeer_okD(6) [OF bo e] tree used [OF b(2) e b(1)] by metis
    qed
  next
    fix m e assume "fd_macs_tree ?d m = Some e"
    then have t: "fd_macs_tree d m = Some e" "e \<notin> set (fp_mac_entries_used q)" using tree by blast+
    then obtain a b where b: "mac_of d e = m" "fd_peers d a = Some b" "e \<in> set (fp_mac_entries_used b)"
      using mac_okD(2) [OF ok] by blast
    then have ap: "a \<noteq> p" using t(2) q by auto
    obtain x where x: "fd_macs d e = Some x" "me_peer x = a"
      using mac_table_entry [OF ok, of e a] b by (auto simp: mused_def)
    show "mac_of ?d e = m" using keep [OF x(1)] x ap b(1) by (simp add: mac_of_def)
    show "\<exists>p q. fd_peers ?d p = Some q \<and> e \<in> set (fp_mac_entries_used q)" using b ap peers by blast
  qed
  have "macs_table ?d a = (if a = p then [] else macs_table d a)" for a
  proof (cases "a = p")
    case False
    then have "mused ?d a = mused d a" by (simp add: mused_def peer_freed_def)
    moreover have "mac_of ?d e = mac_of d e" if "e \<in> set (mused d a)" for e
      using mac_table_entry [OF ok that] keep False by (auto simp: mac_of_def)
    ultimately show ?thesis using False by (simp add: macs_table_def)
  qed (simp add: macs_table_def mused_def peer_freed_def)
  then show "macs_table ?d = (macs_table d)(p := [])" by (simp add: fun_eq_iff)
qed

lemma peer_freed_groups_inv:
  assumes ok: "grp_ok d" and q: "fd_peers d p = Some q" and d1: "d1 = d\<lparr>fd_groups := G, fd_multicast_tree := T, fd_ll3 := h\<rparr>"
    and mc: "mc_ok d1 L C (used_groups d - set (fp_group_entries_used q))" and it: "iter_ok st h C"
    and core: "\<And>e. e \<notin> set (fp_group_entries_used q) \<Longrightarrow> gcore d1 e = gcore d e"
  shows "groups_inv (peer_freed d p q st fl G T h M) L C"
    "groups_table (peer_freed d p q st fl G T h M) = (groups_table d)(p := [])"
proof -
  let ?d = "peer_freed d p q st fl G T h M"
  let ?B = "\<lambda>e. fp_group_entries q \<le> e \<and> e < fp_group_entries q + fd_max_peer_groups d"
  note qo = grp_okD [OF ok q]
  have blk: "\<exists>v. gcore d e = Some (p, v)" if "?B e" for e
    using gpeer_ok_owner [OF qo, of e] that unfolding gpeer_ok_set [OF qo] by auto
  have usedB: "?B e" if "e \<in> set (fp_group_entries_used q)" for e
    using gpeer_ok_set [OF qo] that by auto
  have G: "fd_groups ?d e = fd_groups d1 e" if "\<not> ?B e" for e
    using that by (simp add: peer_freed_def free_block_keep d1)
  have keep: "gcore ?d e = gcore d e" if "\<not> ?B e" for e
    using G [OF that] core [of e] usedB that by (auto simp: gcore_def)
  have peers: "fd_peers ?d a = Some b \<longleftrightarrow> a \<noteq> p \<and> fd_peers d a = Some b" for a b by (simp add: peer_freed_def)
  have other: "\<not> ?B e" if "gcore d e = Some (a, v)" "a \<noteq> p" for e a v using blk [of e] that by auto
  have "gpeer_ok (fd_max_peer_groups ?d) (gcore ?d) a b" if "fd_peers ?d a = Some b" for a b
  proof -
    have b: "a \<noteq> p" "fd_peers d a = Some b" using that peers by blast+
    have n: "fd_max_peer_groups ?d = fd_max_peer_groups d" by (simp add: peer_freed_def)
    show ?thesis
      unfolding n by (rule gpeer_ok_cong [OF grp_okD [OF ok b(2)]]) (use keep other b(1) in simp)
  qed
  then have g: "grp_ok ?d" unfolding grp_ok_def by blast
  have gu: "gused ?d a = (if a = p then [] else gused d a)" for a by (simp add: gused_def peer_freed_def)
  have owned: "\<exists>x. gcore d e = Some (a, x)" if "e \<in> set (gused d a)" for e a
    using group_table_entry [OF ok that] by (auto simp: gcore_def)
  have u: "e \<in> used_groups ?d \<longleftrightarrow> (\<exists>a. a \<noteq> p \<and> e \<in> set (gused d a))" for e
    unfolding used_groups_def gu by (auto split: if_splits)
  have U: "used_groups ?d = used_groups d - set (fp_group_entries_used q)"
  proof -
    have 1: "e \<notin> set (fp_group_entries_used q)" if "e \<in> set (gused d a)" "a \<noteq> p" for e a
      using owned [OF that(1)] other [OF _ that(2)] usedB by blast
    have 2: "gused d p = fp_group_entries_used q" using q by (simp add: gused_def)
    have 4: "e \<in> used_groups d \<longleftrightarrow> (\<exists>a. e \<in> set (gused d a))" for e
      unfolding used_groups_def by blast
    show ?thesis
    proof (rule set_eqI)
      fix e
      show "e \<in> used_groups ?d \<longleftrightarrow> e \<in> used_groups d - set (fp_group_entries_used q)"
        unfolding u Diff_iff 4 using 1 [of e] 2 by metis
    qed
  qed
  have outB: "\<not> ?B e" if e: "e \<in> used_groups ?d" for e
  proof -
    obtain a where "a \<noteq> p" "e \<in> set (gused d a)" using e unfolding u by blast
    then show ?thesis using owned other by blast
  qed
  note live = mc_ok_live [OF mc, folded U]
  let ?h = "h\<lparr>l3_nodes := free_block (l3_nodes h) (fp_group_entries q) (fd_max_peer_groups d)\<rparr>"
  have wf: "ll3_wf ?h L C"
  proof (rule ll3_wf_nodes)
    show "ll3_wf h L C" using mc_ok_D(1) [OF mc] by (simp add: d1)
    show "l3_nodes ?h x = l3_nodes h x" if "x \<in> l3_live L" for x
      using outB [of x] that live by (simp add: free_block_keep)
  qed simp
  have "mc_ok ?d L C (used_groups d - set (fp_group_entries_used q))"
    by (rule mc_ok_local [OF mc_ok_ll3 [OF mc wf]])
      (use G outB U in \<open>auto simp: mcpart_def peer_freed_def d1\<close>)
  moreover have "iter_ok (fd_decide_state ?d) (fd_ll3 ?d) C"
    using iter_ok_same [OF it, of ?h] by (simp add: peer_freed_def)
  ultimately show "groups_inv ?d L C" using g U unfolding groups_inv_def by simp
  have "groups_table ?d a = (if a = p then [] else groups_table d a)" for a
  proof (cases "a = p")
    case False
    have "group_of ?d e = group_of d e" if "e \<in> set (gused d a)" for e
      using owned [OF that] other [OF _ False] keep group_of_eq by blast
    then show ?thesis using False gu by (simp add: groups_table_def)
  qed (simp add: groups_table_def gu)
  then show "groups_table ?d = (groups_table d)(p := [])" by (simp add: fun_eq_iff)
qed

lemma FrameDeciderPeer_Free_run:
  assumes q: "fd_peers d p = Some q"
    and st: "st = (if fd_decide_state d = DECIDE_STATE_UNICAST \<and> fd_decide_unicast_peer d = Some p
      then DECIDE_STATE_NONE else fd_decide_state d)"
    and g: "free_used_groups (d\<lparr>fd_decide_state := st\<rparr>) (fp_group_entries_used q) =
      Some (d\<lparr>fd_decide_state := st, fd_groups := G, fd_multicast_tree := T, fd_ll3 := h\<rparr>)"
    and m: "free_used_macs (d\<lparr>fd_decide_state := st, fd_groups := G, fd_multicast_tree := T, fd_ll3 := h\<rparr>)
        (fp_mac_entries_used q) =
      Some (d\<lparr>fd_decide_state := st, fd_groups := G, fd_multicast_tree := T, fd_ll3 := h, fd_macs_tree := M\<rparr>)"
    and n: "ll1_next (fd_peers_list d) p = Some nx"
    and fl: "fl = (if fd_decide_flood_current d = Some p then nx else fd_decide_flood_current d)"
    and p: "p \<in> set (fd_peers_list d)"
  shows "FrameDeciderPeer_Free d p = Some (peer_freed d p q st fl G T h M)"
proof -
  have d0: "(if fd_decide_state d = DECIDE_STATE_UNICAST \<and> fd_decide_unicast_peer d = Some p
      then d\<lparr>fd_decide_state := DECIDE_STATE_NONE\<rparr> else d) = d\<lparr>fd_decide_state := st\<rparr>"
    by (simp add: st)
  show ?thesis
    unfolding FrameDeciderPeer_Free_def d0
    using q g m n fl p by (cases d) (simp add: peer_freed_def ll1_remove_def)
qed

lemma FrameDeciderPeer_Free_fd:
  assumes inv: "fd_inv d L C" and p: "p \<in> dom (fd_peers d)"
  shows "\<exists>d' L' C'. FrameDeciderPeer_Free d p = Some d' \<and> fd_inv d' L' C' \<and>
    fd_peers_list d' = remove1 p (fd_peers_list d) \<and> macs_table d' = (macs_table d)(p := []) \<and>
    groups_table d' = (groups_table d)(p := []) \<and>
    fd_max_peer_macs d' = fd_max_peer_macs d \<and> fd_max_peer_groups d' = fd_max_peer_groups d"
proof -
  obtain q where q: "fd_peers d p = Some q" using p by blast
  define st where "st = (if fd_decide_state d = DECIDE_STATE_UNICAST \<and> fd_decide_unicast_peer d = Some p
    then DECIDE_STATE_NONE else fd_decide_state d)"
  have pl: "p \<in> set (fd_peers_list d)" using p fd_invD(4) [OF inv] by simp
  obtain nx where nx: "ll1_next (fd_peers_list d) p = Some nx" "\<forall>y. nx = Some y \<longrightarrow> y \<in> set (fd_peers_list d) \<and> y \<noteq> p"
    using ll1_next_distinct [OF fd_invD(3) [OF inv] pl] by blast
  define fl where "fl = (if fd_decide_flood_current d = Some p then nx else fd_decide_flood_current d)"
  let ?d0 = "d\<lparr>fd_decide_state := st\<rparr>"
  have mc0: "mc_ok ?d0 L C (used_groups d)"
    by (rule mc_ok_local [OF fd_invD(8) [OF inv]]) (simp_all add: mcpart_def)
  have it0: "iter_ok st (fd_ll3 ?d0) C"
    using iter_ok_state [OF fd_invD(9) [OF inv], of st] by (simp add: st_def)
  note qo = grp_okD [OF fd_invD(7) [OF inv] q] and mo = mac_okD(1) [OF fd_invD(5) [OF inv] q]
  have gp: "gused d p = fp_group_entries_used q" using q by (simp add: gused_def)
  have us: "set (fp_group_entries_used q) \<subseteq> used_groups d" unfolding used_groups_def gp [symmetric] by blast
  from free_used_groups_ok [OF mc0 it0 gpeer_okD(2) [OF qo] us]
  obtain G T h L' C' where g:
    "free_used_groups ?d0 (fp_group_entries_used q) = Some (?d0\<lparr>fd_groups := G, fd_multicast_tree := T, fd_ll3 := h\<rparr>)"
    "mc_ok (?d0\<lparr>fd_groups := G, fd_multicast_tree := T, fd_ll3 := h\<rparr>) L' C' (used_groups d - set (fp_group_entries_used q))"
    "iter_ok st h C'" "\<forall>e. e \<notin> set (fp_group_entries_used q) \<longrightarrow>
      gcore (?d0\<lparr>fd_groups := G, fd_multicast_tree := T, fd_ll3 := h\<rparr>) e = gcore ?d0 e"
    by (elim exE conjE)
  let ?d1 = "?d0\<lparr>fd_groups := G, fd_multicast_tree := T, fd_ll3 := h\<rparr>"
  have s1: "fd_macs ?d1 = fd_macs d" "fd_macs_tree ?d1 = fd_macs_tree d" "mac_of ?d1 = mac_of d"
    by (simp_all add: mac_of_def fun_eq_iff)
  define M where "M = (\<lambda>m. case fd_macs_tree d m of None \<Rightarrow> None
    | Some e \<Rightarrow> if e \<in> set (fp_mac_entries_used q) then None else Some e)"
  have m: "free_used_macs ?d1 (fp_mac_entries_used q) = Some (?d1\<lparr>fd_macs_tree := M\<rparr>)"
    unfolding M_def s1(2) [symmetric]
  proof (rule free_used_macs_ok)
    show "fd_macs ?d1 e \<noteq> None \<and> fd_macs_tree ?d1 (mac_of ?d1 e) = Some e" if e: "e \<in> set (fp_mac_entries_used q)" for e
      using mpeer_okD(5,6) [OF mo e] unfolding s1 by (auto simp: mowner_def)
    show "mac_of ?d1 e = k" if "fd_macs_tree ?d1 k = Some e" for k e
      using mac_okD(2) [OF fd_invD(5) [OF inv], of k e] that unfolding s1 by blast
    show "distinct (fp_mac_entries_used q)" using mpeer_okD(2) [OF mo] by simp
  qed
  let ?d' = "peer_freed d p q st fl G T h M"
  have run: "FrameDeciderPeer_Free d p = Some ?d'"
    by (rule FrameDeciderPeer_Free_run [OF q st_def g(1) m nx(1) fl_def pl])
  note mt = peer_freed_mac_ok [OF fd_invD(5) [OF inv] q M_def, of st fl G T h]
  let ?e1 = "d\<lparr>fd_groups := G, fd_multicast_tree := T, fd_ll3 := h\<rparr>"
  have "mc_ok ?e1 L' C' (used_groups d - set (fp_group_entries_used q))"
    by (rule mc_ok_local [OF g(2)]) (simp_all add: mcpart_def)
  moreover have "gcore ?e1 e = gcore d e" if "e \<notin> set (fp_group_entries_used q)" for e
    using g(4) that by (simp add: gcore_def)
  ultimately have gt: "groups_inv ?d' L' C'" "groups_table ?d' = (groups_table d)(p := [])"
    using peer_freed_groups_inv [OF fd_invD(7) [OF inv] q refl _ g(3)] by blast+
  have s: "fd_peers_list ?d' = remove1 p (fd_peers_list d)" "dom (fd_peers ?d') = dom (fd_peers d) - {p}"
    "fd_decide_state ?d' = st" "fd_decide_unicast_peer ?d' = fd_decide_unicast_peer d"
    "fd_decide_flood_current ?d' = fl" "fd_max_peer_macs ?d' = fd_max_peer_macs d"
    "fd_max_peer_groups ?d' = fd_max_peer_groups d"
    by (simp_all add: peer_freed_def)
  have uni: "st = DECIDE_STATE_UNICAST \<longrightarrow> (\<exists>a. fd_decide_unicast_peer d = Some a \<and> a \<in> dom (fd_peers d) - {p})"
    using fd_invD(10) [OF inv] by (auto simp: st_def split: if_splits)
  have flood: "\<forall>a. fl = Some a \<longrightarrow> a \<in> dom (fd_peers d) - {p}"
    using nx(2) fd_invD(4,11) [OF inv] by (auto simp: fl_def split: if_splits)
  have "fd_inv ?d' L' C'"
    using fd_invD(1-4) [OF inv] mt(1) gt(1) uni flood unfolding fd_inv_def s
    by simp
  then show ?thesis using run mt(2) gt(2) s by blast
qed

end
