(* ===== verification/FrameDeciderRoute.thy ===== *)
theory FrameDeciderRoute
  imports FrameDeciderSys
begin

text \<open>
  Deciding where a frame goes: the timers a query lowers, the decision, and asking for the next
  destination until there is none.
\<close>

section \<open>Lowering the timers\<close>

text \<open>Changes of the timers of running entries only.\<close>

definition retimed :: "gcores \<Rightarrow> gcores \<Rightarrow> bool" where
  "retimed K K' \<longleftrightarrow> (\<forall>e. K' e = K e \<or>
     (\<exists>p g t t'. K e = Some (p, Some t, g, t) \<and> K' e = Some (p, Some t', g, t')))"

lemma retimedD:
  assumes "retimed K K'"
  shows "K e = Some (p, None, g, t) \<Longrightarrow> K' e = Some (p, None, g, t)"
    "K e = Some (p, Some t, g, t) \<Longrightarrow> \<exists>t'. K' e = Some (p, Some t', g, t')"
proof -
  have c: "K' e = K e \<or> (\<exists>p g t t'. K e = Some (p, Some t, g, t) \<and> K' e = Some (p, Some t', g, t'))"
    using assms unfolding retimed_def by blast
  show "K e = Some (p, None, g, t) \<Longrightarrow> K' e = Some (p, None, g, t)" using c by auto
  show "K e = Some (p, Some t, g, t) \<Longrightarrow> \<exists>t'. K' e = Some (p, Some t', g, t')" using c by auto
qed

lemma gpeer_ok_retimed:
  assumes ok: "gpeer_ok n K p q" and rt: "retimed K K'"
  shows "gpeer_ok n K' p q"
proof (rule gpeer_okI)
  show "distinct (fp_group_entries_free q @ fp_group_entries_used q)"
    using gpeer_okD(1-3) [OF ok] by auto
  show "set (fp_group_entries_free q @ fp_group_entries_used q) = {fp_group_entries q..<fp_group_entries q + n}"
    by (rule gpeer_ok_set [OF ok])
  show "\<exists>g t. K' e = Some (p, None, g, t)" if "e \<in> set (fp_group_entries_free q)" for e
    using gpeer_okD(4) [OF ok that] retimedD(1) [OF rt] by blast
  show "\<exists>g t. K' e = Some (p, Some t, g, t) \<and> fp_groups_tree q g = Some e"
    if "e \<in> set (fp_group_entries_used q)" for e
    using gpeer_okD(5) [OF ok that] retimedD(2) [OF rt] by blast
  show "e \<in> set (fp_group_entries_used q)" if "fp_groups_tree q g = Some e" for g e
    using gpeer_okD(6) [OF ok that] by blast
  show "\<exists>t m. K' e = Some (p, t, g, m)" if "fp_groups_tree q g = Some e" for g e
    using gpeer_okD(6) [OF ok that] retimedD(2) [OF rt] by blast
qed

lemma lower_cores_retimed:
  assumes "\<And>e. e \<in> set ys \<Longrightarrow> \<exists>p g t. K e = Some (p, Some t, g, t)" "distinct ys"
  shows "retimed K (lower_cores lmqt g clock i ys K)"
  unfolding retimed_def
proof
  fix e
  show "lower_cores lmqt g clock i ys K e = K e \<or> (\<exists>p h t t'. K e = Some (p, Some t, h, t) \<and>
      lower_cores lmqt g clock i ys K e = Some (p, Some t', h, t'))"
  proof (cases "e \<in> set ys")
    case True
    then obtain j where j: "j < length ys" "e = ys ! j" by (metis in_set_conv_nth)
    obtain p h t where K: "K e = Some (p, Some t, h, t)" using assms(1) [OF True] by blast
    have "lower_cores lmqt g clock i ys K e = map_option (lowered lmqt g (clock (i + j))) (K e)"
      using lower_cores_nth [OF assms(2) j(1)] j(2) by simp
    then show ?thesis using K by (auto simp: lowered_def)
  qed (simp add: lower_cores_other)
qed

lemma used_core:
  assumes "grp_ok d" "e \<in> used_groups d"
  shows "\<exists>p g t. gcore d e = Some (p, Some t, g, t)"
  by (rule used_groupsE [OF assms(2)]) (metis gpeer_okD(5) [OF grp_okD [OF assms(1)]])

lemma fd_no_iterators:
  assumes "fd_inv d L C" "fd_decide_state d \<noteq> DECIDE_STATE_MULTICAST"
  shows "C x = []"
  using fd_invD(9) [OF assms(1)] assms(2) unfolding iter_ok_def by (metis list.set_intros(1) neq_Nil_conv)

lemma lower_group_timers_fd:
  assumes inv: "fd_inv d L C" and st: "fd_decide_state d \<noteq> DECIDE_STATE_MULTICAST"
  shows "\<exists>d'. lower_group_timers_to_lmqt d g clock = Some d' \<and> fd_inv d' L C \<and> grp_frame d d' \<and>
    fd_peers d' = fd_peers d \<and> groups_table d' = groups_table d \<and>
    gcore d' = lower_cores (fd_igmp_last_member_query_time d) g clock 0 (L (compute_sig_for_group g)) (gcore d)"
proof (cases "fd_multicast_tree d (compute_sig_for_group g)")
  case None
  then have "L (compute_sig_for_group g) = []" by (rule mc_ok_D(4) [OF fd_invD(8) [OF inv]])
  then show ?thesis using None inv grp_frame_refl by (simp add: lower_group_timers_to_lmqt_def)
next
  case (Some m)
  let ?s = "compute_sig_for_group g"
  note mc = fd_invD(8) [OF inv]
  have wf: "ll3_wf (fd_ll3 d) L C" by (rule mc_ok_D(1) [OF mc])
  obtain mx where m: "m \<in> set (L ?s)" "fd_groups d m = Some mx" "ge_is_master mx"
    using mc_ok_D(5) [OF mc Some] by blast
  then obtain us vs where L: "L ?s = us @ m # vs" using split_list by meson
  then obtain f fs where Lf: "L ?s = f # fs" by (cases us) auto
  have first: "LinkedList3Node_First (fd_ll3 d) m = Some f" using First_list [OF wf L] Lf by simp
  have noit: "\<And>y. lower_it \<notin> set (C y)" using fd_no_iterators [OF inv st] by simp
  have fl: "f \<in> l3_live L" by (rule l3_live_member [of _ L ?s]) (simp add: Lf)
  obtain h where h: "LinkedList3Iterator_Init (fd_ll3 d) lower_it (Some f) 1 = Some h"
    "ll3_wf h L (C(f := lower_it # C f))" "nlinks h = nlinks (fd_ll3 d)"
    "idir h = (idir (fd_ll3 d))(lower_it \<mapsto> (Some f, 1))"
    using Iterator_Init_at [OF wf fl noit disjI1 [OF refl]] by blast
  let ?d = "d\<lparr>fd_ll3 := h\<rparr>"
  have pl: "place C lower_it (L ?s) = C(f := lower_it # C f)" by (simp add: place_def put_it_def Lf)
  have ok1: "mc_ok ?d L (place C lower_it (L ?s)) (used_groups d)"
    unfolding pl by (rule mc_ok_ll3 [OF mc h(2)])
  have i1: "idir (fd_ll3 ?d) lower_it = Some (first_opt (L ?s), 1)" using h(4) Lf by simp
  obtain d' where d': "lower_loop ?d g clock 0 = Some d'" "mc_ok d' L C (used_groups d)"
    "gcore d' = lower_cores (fd_igmp_last_member_query_time ?d) g clock 0 (L ?s) (gcore ?d)"
    "fd_peers d' = fd_peers ?d" "grp_frame ?d d'"
    using lower_loop_ok [OF ok1 append_Nil [symmetric] i1] by blast
  have run: "lower_group_timers_to_lmqt d g clock = Some d'"
    using Some m(2,3) first h(1) d'(1) by (simp add: lower_group_timers_to_lmqt_def)
  have fr: "grp_frame d d'" by (rule grp_frame_trans [OF grp_frame_ll3 d'(5)])
  have core: "gcore d' = lower_cores (fd_igmp_last_member_query_time d) g clock 0 (L ?s) (gcore d)"
    using d'(3) by simp
  have peers: "fd_peers d' = fd_peers d" using d'(4) by simp
  have rt: "retimed (gcore d) (gcore d')"
    unfolding core
  proof (rule lower_cores_retimed)
    show "\<exists>p g t. gcore d e = Some (p, Some t, g, t)" if "e \<in> set (L ?s)" for e
    proof -
      have "e \<in> used_groups d" using mc_ok_D(2) [OF mc] that by blast
      then show ?thesis by (rule used_core [OF fd_invD(7) [OF inv]])
    qed
    show "distinct (L ?s)" by (rule ll3_wf_list(1) [OF wf])
  qed
  have "grp_ok d'"
    unfolding grp_ok_def peers grp_frame_simps(8) [OF fr]
    using gpeer_ok_retimed [OF grp_okD [OF fd_invD(7) [OF inv]] rt] by blast
  moreover have gu: "gused d' = gused d" by (simp add: gused_def peers fun_eq_iff)
  then have U: "used_groups d' = used_groups d" by (simp add: used_groups_def)
  moreover have "iter_ok (fd_decide_state d') (fd_ll3 d') C"
  proof -
    have "C = (\<lambda>x. [])" using fd_no_iterators [OF inv st] by blast
    then show ?thesis using st grp_frame_simps(4) [OF fr] by (simp add: iter_ok_def)
  qed
  ultimately have "groups_inv d' L C" unfolding groups_inv_def using d'(2) by metis
  then have inv': "fd_inv d' L C" by (rule fd_inv_grp_frame [OF inv fr])
  have "group_of d' e = group_of d e" if "e \<in> set (gused d a)" for a e
  proof -
    have "e \<in> used_groups d" using that unfolding used_groups_def by blast
    then obtain p g' t where K: "gcore d e = Some (p, Some t, g', t)"
      using used_core [OF fd_invD(7) [OF inv]] by blast
    then obtain t' where "gcore d' e = Some (p, Some t', g', t')" using retimedD(2) [OF rt] by blast
    then show ?thesis using group_of_core [OF K] group_of_core by simp
  qed
  then have gt: "groups_table d' = groups_table d" by (simp add: groups_table_def gu fun_eq_iff)
  show ?thesis by (intro exI [of _ d'] conjI run inv' fr peers gt core)
qed

section \<open>Deciding and draining\<close>

lemma fd_inv_decide:
  assumes inv: "fd_inv d L C" and h: "ll3_wf h L C'" "iter_ok st h C'"
    and u: "st = DECIDE_STATE_UNICAST \<Longrightarrow> \<exists>p. u = Some p \<and> p \<in> dom (fd_peers d)"
    and fl: "\<And>p. fl = Some p \<Longrightarrow> p \<in> dom (fd_peers d)"
  shows "fd_inv (d\<lparr>fd_ll3 := h, fd_decide_state := st, fd_decide_flood_current := fl,
    fd_decide_unicast_peer := u\<rparr>) L C'" (is "fd_inv ?d L C'")
proof -
  have s: "fd_peers ?d = fd_peers d" "fd_peers_list ?d = fd_peers_list d" "fd_decide_state ?d = st"
    "fd_ll3 ?d = h" "fd_decide_unicast_peer ?d = u" "fd_decide_flood_current ?d = fl"
    "fd_max_peer_macs ?d = fd_max_peer_macs d" "fd_max_peer_groups ?d = fd_max_peer_groups d"
    "gcore ?d = gcore d" "gused ?d = gused d" "mac_of ?d = mac_of d" "mowner ?d = mowner d"
    "fd_macs_tree ?d = fd_macs_tree d"
    by (simp_all add: gcore_def gused_def mac_of_def mowner_def fun_eq_iff)
  have "mac_ok ?d" using fd_invD(5) [OF inv] unfolding mac_ok_def mpeer_ok_def s .
  moreover have "grp_ok ?d" using fd_invD(7) [OF inv] unfolding grp_ok_def s .
  moreover have U: "used_groups ?d = used_groups d" by (simp add: used_groups_def s)
  moreover have "mc_ok ?d L C' (used_groups ?d)"
    unfolding U
    by (rule mc_ok_local [OF mc_ok_ll3 [OF fd_invD(8) [OF inv] h(1)]]) (simp_all add: mcpart_def)
  moreover have "(st = DECIDE_STATE_UNICAST \<longrightarrow> (\<exists>p. u = Some p \<and> p \<in> dom (fd_peers d)))"
    "\<forall>p. fl = Some p \<longrightarrow> p \<in> dom (fd_peers d)" using u fl by blast+
  ultimately show ?thesis
    using fd_invD(1-4) [OF inv] h(2) unfolding fd_inv_def groups_inv_def s by blast
qed

lemma fd_update_id:
  "d\<lparr>fd_ll3 := fd_ll3 d, fd_decide_state := st, fd_decide_flood_current := fd_decide_flood_current d,
     fd_decide_unicast_peer := fd_decide_unicast_peer d\<rparr> = d\<lparr>fd_decide_state := st\<rparr>"
  "d\<lparr>fd_ll3 := fd_ll3 d, fd_decide_state := st, fd_decide_flood_current := fl,
     fd_decide_unicast_peer := fd_decide_unicast_peer d\<rparr> = d\<lparr>fd_decide_state := st, fd_decide_flood_current := fl\<rparr>"
  "d\<lparr>fd_ll3 := h, fd_decide_state := st, fd_decide_flood_current := fd_decide_flood_current d,
     fd_decide_unicast_peer := fd_decide_unicast_peer d\<rparr> = d\<lparr>fd_ll3 := h, fd_decide_state := st\<rparr>"
  by (cases d; simp)+

lemma iter_ok_none: "st \<noteq> DECIDE_STATE_MULTICAST \<Longrightarrow> iter_ok st h (\<lambda>x. [])"
  by (simp add: iter_ok_def)

lemma group_owner:
  assumes inv: "fd_inv d L C" and e: "e \<in> set (L s)"
  shows "\<exists>x. fd_groups d e = Some x \<and> ge_peer x \<in> dom (fd_peers d) \<and> e \<in> set (gused d (ge_peer x)) \<and>
    compute_sig_for_group (ge_group x) = s"
proof -
  have u: "e \<in> used_groups d" "gsig d e = Some s" using mc_ok_D(2) [OF fd_invD(8) [OF inv]] e by blast+
  obtain p q where q: "fd_peers d p = Some q" "e \<in> set (fp_group_entries_used q)"
    using u(1) by (rule used_groupsE)
  obtain g t where "gcore d e = Some (p, Some t, g, t)"
    using gpeer_okD(5) [OF grp_okD [OF fd_invD(7) [OF inv] q(1)] q(2)] by blast
  then obtain x where x: "fd_groups d e = Some x" "ge_peer x = p" by (auto simp: gcore_def)
  then show ?thesis using q u(2) by (auto simp: gused_def gsig_def)
qed

definition ge_owner :: "FrameDecider \<Rightarrow> nat \<Rightarrow> nat" where
  "ge_owner d e = (case fd_groups d e of None \<Rightarrow> 0 | Some x \<Rightarrow> ge_peer x)"

text \<open>The iterator of an open multicast decision stands on a node of some list, or at the end.\<close>

lemma multicast_position:
  assumes inv: "fd_inv d L C" and st: "fd_decide_state d = DECIDE_STATE_MULTICAST"
  shows "\<exists>p. idir (fd_ll3 d) decide_multicast_it = Some (p, 1) \<and>
    (\<forall>x. p = Some x \<longrightarrow> (\<exists>s us vs. L s = us @ x # vs) \<and> C x = [decide_multicast_it]) \<and>
    (\<forall>y. p \<noteq> Some y \<longrightarrow> C y = [])"
proof -
  let ?w = decide_multicast_it
  note wf = mc_ok_D(1) [OF fd_invD(8) [OF inv]]
  obtain p where p: "idir (fd_ll3 d) ?w = Some (p, 1)" "\<And>x. p = Some x \<Longrightarrow> ?w \<in> set (C x)"
    using fd_invD(9) [OF inv] st unfolding iter_ok_def by blast
  have w: "w = ?w" if "w \<in> set (C x)" for x w
    using fd_invD(9) [OF inv] that unfolding iter_ok_def by blast
  have at: "p = Some x" if "w \<in> set (C x)" for x w
  proof -
    have "l3_sits (fd_ll3 d) x ?w" using ll3_wf_sits [OF wf that] w [OF that] by simp
    then show ?thesis using p(1) by (auto simp: l3_sits_idir)
  qed
  have "C y = []" if "p \<noteq> Some y" for y using at [of _ y] that by (cases "C y") auto
  moreover have "C x = [?w]" if "p = Some x" for x
  proof -
    have "set (C x) = {?w}" using w [of _ x] p(2) [OF that] by auto
    then show ?thesis using ll3_wf_chain(1) [OF wf, of x]
      by (cases "C x"; cases "tl (C x)") auto
  qed
  moreover have "\<exists>s us vs. L s = us @ x # vs" if "p = Some x" for x
  proof -
    have "x \<in> l3_live L" using ll3_wf_sits [OF wf p(2) [OF that]] by blast
    then show ?thesis unfolding l3_live_iff using split_list by metis
  qed
  ultimately show ?thesis using p(1) by blast
qed

lemma multicast_step:
  assumes inv: "fd_inv d L C" and st: "fd_decide_state d = DECIDE_STATE_MULTICAST"
    and x: "idir (fd_ll3 d) decide_multicast_it = Some (Some x, 1)" and L: "L s = us @ x # vs"
  shows "\<exists>h C'. FrameDecider_NextDestination d = Some (Some (ge_owner d x), d\<lparr>fd_ll3 := h\<rparr>) \<and>
    fd_inv (d\<lparr>fd_ll3 := h\<rparr>) L C' \<and> idir h decide_multicast_it = Some (first_opt vs, 1) \<and>
    ge_owner d x \<in> dom (fd_peers d)"
proof -
  let ?w = decide_multicast_it
  note wf = mc_ok_D(1) [OF fd_invD(8) [OF inv]]
  from multicast_position [OF inv st] obtain p where p: "idir (fd_ll3 d) ?w = Some (p, 1)"
    "\<forall>x. p = Some x \<longrightarrow> (\<exists>s us vs. L s = us @ x # vs) \<and> C x = [?w]" "\<forall>y. p \<noteq> Some y \<longrightarrow> C y = []"
    by (elim exE conjE)
  have px: "p = Some x" using p(1) x by simp
  have Cx: "C x = [?w]" using p(2) px by blast
  have C0: "C(x := remove1 ?w (C x)) = (\<lambda>y. [])"
  proof
    show "(C(x := remove1 ?w (C x))) y = []" for y
      using p(3) px Cx by (cases "y = x") simp_all
  qed
  have itin: "?w \<in> set (C x)" by (simp add: Cx)
  have nx: "it_next us vs 1 = first_opt vs" by (simp add: it_next_def)
  obtain h where h: "LinkedList3Iterator_Next (fd_ll3 d) ?w = Some (Some x, h)"
    "ll3_wf h L (put_it (\<lambda>y. []) ?w (first_opt vs))" "idir h = (idir (fd_ll3 d))(?w \<mapsto> (first_opt vs, 1))"
    using Iterator_Next_at [OF wf itin L x] unfolding C0 nx by blast
  let ?C = "put_it (\<lambda>y. []) ?w (first_opt vs)"
  have ih: "idir h ?w = Some (first_opt vs, 1)" by (simp add: h(3))
  have "iter_ok DECIDE_STATE_MULTICAST h ?C"
    unfolding iter_ok_def ih by (auto simp: put_it_def split: option.splits)
  then have "fd_inv (d\<lparr>fd_ll3 := h, fd_decide_state := DECIDE_STATE_MULTICAST,
      fd_decide_flood_current := fd_decide_flood_current d,
      fd_decide_unicast_peer := fd_decide_unicast_peer d\<rparr>) L ?C"
    by (rule fd_inv_decide [OF inv h(2)]) (simp, rule fd_invD(11) [OF inv])
  moreover have "d\<lparr>fd_ll3 := h, fd_decide_state := DECIDE_STATE_MULTICAST\<rparr> = d\<lparr>fd_ll3 := h\<rparr>"
    using st by (cases d) simp
  ultimately have i: "fd_inv (d\<lparr>fd_ll3 := h\<rparr>) L ?C" unfolding fd_update_id by metis
  have "x \<in> set (L s)" using L by simp
  then obtain e where e: "fd_groups d x = Some e" "ge_peer e \<in> dom (fd_peers d)"
    using group_owner [OF inv] by blast
  have "FrameDecider_NextDestination d = Some (Some (ge_owner d x), d\<lparr>fd_ll3 := h\<rparr>)"
    by (simp add: FrameDecider_NextDestination_def st h(1) e(1) ge_owner_def Let_def)
  moreover have "ge_owner d x \<in> dom (fd_peers d)" using e by (simp add: ge_owner_def)
  ultimately show ?thesis using i ih by blast
qed

lemma multicast_end:
  assumes inv: "fd_inv d L C" and st: "fd_decide_state d = DECIDE_STATE_MULTICAST"
    and x: "idir (fd_ll3 d) decide_multicast_it = Some (None, 1)"
  shows "FrameDecider_NextDestination d = Some (None, d\<lparr>fd_decide_state := DECIDE_STATE_NONE\<rparr>)"
    "fd_inv (d\<lparr>fd_decide_state := DECIDE_STATE_NONE\<rparr>) L (\<lambda>x. [])"
proof -
  note wf = mc_ok_D(1) [OF fd_invD(8) [OF inv]]
  have "C y = []" for y using multicast_position [OF inv st] x by auto
  then have C: "C = (\<lambda>y. [])" by blast
  have "d\<lparr>fd_ll3 := fd_ll3 d\<rparr> = d" by simp
  then show "FrameDecider_NextDestination d = Some (None, d\<lparr>fd_decide_state := DECIDE_STATE_NONE\<rparr>)"
    using Iterator_Next_end [OF x] by (simp add: FrameDecider_NextDestination_def st)
  have "fd_inv (d\<lparr>fd_ll3 := fd_ll3 d, fd_decide_state := DECIDE_STATE_NONE,
      fd_decide_flood_current := fd_decide_flood_current d,
      fd_decide_unicast_peer := fd_decide_unicast_peer d\<rparr>) L (\<lambda>y. [])"
    by (intro fd_inv_decide [OF inv wf[unfolded C]] iter_ok_none) (use fd_invD(11) [OF inv] in auto)
  then show "fd_inv (d\<lparr>fd_decide_state := DECIDE_STATE_NONE\<rparr>) L (\<lambda>x. [])" unfolding fd_update_id .
qed

lemma fd_inv_state:
  assumes inv: "fd_inv d L C" and st: "fd_decide_state d \<noteq> DECIDE_STATE_MULTICAST"
    and fl: "\<And>p. fl = Some p \<Longrightarrow> p \<in> dom (fd_peers d)" and st': "st' = DECIDE_STATE_NONE \<or> st' = DECIDE_STATE_FLOOD"
  shows "fd_inv (d\<lparr>fd_decide_state := st', fd_decide_flood_current := fl\<rparr>) L C"
proof -
  have C: "C = (\<lambda>x. [])" using fd_no_iterators [OF inv st] by blast
  have "fd_inv (d\<lparr>fd_ll3 := fd_ll3 d, fd_decide_state := st', fd_decide_flood_current := fl,
      fd_decide_unicast_peer := fd_decide_unicast_peer d\<rparr>) L C"
  proof (rule fd_inv_decide [OF inv mc_ok_D(1) [OF fd_invD(8) [OF inv]]])
    show "iter_ok st' (fd_ll3 d) C" unfolding C by (rule iter_ok_none) (use st' in auto)
    show "\<exists>p. fd_decide_unicast_peer d = Some p \<and> p \<in> dom (fd_peers d)" if "st' = DECIDE_STATE_UNICAST"
      using that st' by simp
  qed (rule fl)
  then show ?thesis unfolding fd_update_id .
qed

lemma fd_flood_id: "d\<lparr>fd_decide_state := st, fd_decide_flood_current := fd_decide_flood_current d\<rparr> = d\<lparr>fd_decide_state := st\<rparr>"
  by (cases d) simp

lemma fd_state_id: "fd_decide_state d = st \<Longrightarrow> d\<lparr>fd_decide_state := st, fd_decide_flood_current := fl\<rparr> = d\<lparr>fd_decide_flood_current := fl\<rparr>"
  by (cases d) simp

text \<open>What deciding and asking do not change.\<close>

definition same_tables :: "FrameDecider \<Rightarrow> FrameDecider \<Rightarrow> bool" where
  "same_tables d d' \<longleftrightarrow> macs_table d' = macs_table d \<and> groups_table d' = groups_table d \<and>
     fd_peers_list d' = fd_peers_list d \<and> fd_peers d' = fd_peers d \<and>
     fd_max_peer_macs d' = fd_max_peer_macs d \<and> fd_max_peer_groups d' = fd_max_peer_groups d"

lemma same_tables_decide:
  "same_tables d (d\<lparr>fd_decide_state := st, fd_decide_flood_current := fl\<rparr>)"
  "same_tables d (d\<lparr>fd_decide_state := st\<rparr>)" "same_tables d (d\<lparr>fd_ll3 := h, fd_decide_state := st\<rparr>)"
  "same_tables d (d\<lparr>fd_decide_state := st, fd_decide_unicast_peer := u\<rparr>)"
  "same_tables d (d\<lparr>fd_decide_state := st, fd_ll3 := h\<rparr>)" "same_tables d (d\<lparr>fd_ll3 := h\<rparr>)"
  "same_tables d (d\<lparr>fd_decide_flood_current := fl\<rparr>)" "same_tables d d"
  by (simp_all add: same_tables_def macs_table_def groups_table_def mused_def gused_def mac_of_def
      group_of_def fun_eq_iff cong: map_cong)

lemma same_tables_trans: "same_tables d d' \<Longrightarrow> same_tables d' d'' \<Longrightarrow> same_tables d d''"
  by (simp add: same_tables_def)

lemma FrameDecider_NextDestination_fd:
  assumes inv: "fd_inv d L C"
  shows "\<exists>r d' C'. FrameDecider_NextDestination d = Some (r, d') \<and> fd_inv d' L C' \<and>
    same_tables d d' \<and> (\<forall>p. r = Some p \<longrightarrow> p \<in> dom (fd_peers d))"
proof (cases "fd_decide_state d")
  case DECIDE_STATE_NONE
  then show ?thesis using inv same_tables_decide(8) by (auto simp: FrameDecider_NextDestination_def)
next
  case DECIDE_STATE_UNICAST
  have "fd_inv (d\<lparr>fd_decide_state := DECIDE_STATE_NONE\<rparr>) L C"
    using fd_inv_state [OF inv, of "fd_decide_flood_current d" DECIDE_STATE_NONE] fd_invD(11) [OF inv]
      DECIDE_STATE_UNICAST unfolding fd_flood_id by simp
  then show ?thesis using fd_invD(10) [OF inv DECIDE_STATE_UNICAST] DECIDE_STATE_UNICAST same_tables_decide(2)
    by (auto simp: FrameDecider_NextDestination_def)
next
  case fl: DECIDE_STATE_FLOOD
  show ?thesis
  proof (cases "fd_decide_flood_current d")
    case None
    have "fd_inv (d\<lparr>fd_decide_state := DECIDE_STATE_NONE\<rparr>) L C"
      using fd_inv_state [OF inv, of "fd_decide_flood_current d" DECIDE_STATE_NONE] None fl
      unfolding fd_flood_id by simp
    then show ?thesis using fl None same_tables_decide(2) by (auto simp: FrameDecider_NextDestination_def)
  next
    case (Some p)
    have p: "p \<in> dom (fd_peers d)" by (rule fd_invD(11) [OF inv Some])
    then have pl: "p \<in> set (fd_peers_list d)" using fd_invD(4) [OF inv] by simp
    obtain n where n: "ll1_next (fd_peers_list d) p = Some n" "\<forall>y. n = Some y \<longrightarrow> y \<in> set (fd_peers_list d) \<and> y \<noteq> p"
      using ll1_next_distinct [OF fd_invD(3) [OF inv] pl] by blast
    have "fd_inv (d\<lparr>fd_decide_state := DECIDE_STATE_FLOOD, fd_decide_flood_current := n\<rparr>) L C"
      by (rule fd_inv_state [OF inv]) (use fl n(2) fd_invD(4) [OF inv] in auto)
    then have "fd_inv (d\<lparr>fd_decide_flood_current := n\<rparr>) L C" unfolding fd_state_id [OF fl] .
    then show ?thesis using fl Some n(1) p same_tables_decide(7) by (auto simp: FrameDecider_NextDestination_def)
  qed
next
  case mc: DECIDE_STATE_MULTICAST
  from multicast_position [OF inv mc] obtain p where p: "idir (fd_ll3 d) decide_multicast_it = Some (p, 1)"
    "\<forall>x. p = Some x \<longrightarrow> (\<exists>s us vs. L s = us @ x # vs) \<and> C x = [decide_multicast_it]"
    by (elim exE conjE)
  show ?thesis
  proof (cases p)
    case None
    then show ?thesis using multicast_end [OF inv mc] p(1) same_tables_decide(2) by auto
  next
    case (Some x)
    then obtain s us vs where L: "L s = us @ x # vs" using p(2) by blast
    show ?thesis using multicast_step [OF inv mc _ L] p(1) Some same_tables_decide(6) by auto
  qed
qed

text \<open>\<open>fd_yields d ps d'\<close>: asking again and again yields \<open>ps\<close>, then \<open>NULL\<close>, and leaves \<open>d'\<close>.\<close>

fun fd_yields :: "FrameDecider \<Rightarrow> nat list \<Rightarrow> FrameDecider \<Rightarrow> bool" where
  "fd_yields d [] d' = (FrameDecider_NextDestination d = Some (None, d'))"
| "fd_yields d (p # ps) d' =
     (\<exists>d1. FrameDecider_NextDestination d = Some (Some p, d1) \<and> fd_yields d1 ps d')"

lemma flood_yields:
  assumes "fd_decide_state d = DECIDE_STATE_FLOOD" "fd_peers_list d = us @ vs" "distinct (us @ vs)"
    "fd_decide_flood_current d = first_opt vs"
  shows "fd_yields d vs (d\<lparr>fd_decide_state := DECIDE_STATE_NONE, fd_decide_flood_current := None\<rparr>)"
  using assms
proof (induction vs arbitrary: d us)
  case Nil
  then have "d\<lparr>fd_decide_flood_current := None\<rparr> = d" by (cases d) simp
  then have "d\<lparr>fd_decide_state := DECIDE_STATE_NONE, fd_decide_flood_current := None\<rparr> =
      d\<lparr>fd_decide_state := DECIDE_STATE_NONE\<rparr>" by (cases d) simp
  then show ?case using Nil by (simp add: FrameDecider_NextDestination_def)
next
  case (Cons p vs)
  let ?d = "d\<lparr>fd_decide_flood_current := first_opt vs\<rparr>"
  have "ll1_next (fd_peers_list d) p = Some (first_opt vs)"
    unfolding Cons.prems(2) by (rule ll1_next_split) (use Cons.prems(3) in auto)
  then have n: "FrameDecider_NextDestination d = Some (Some p, ?d)"
    using Cons.prems(1,4) by (simp add: FrameDecider_NextDestination_def)
  have "fd_yields ?d vs (?d\<lparr>fd_decide_state := DECIDE_STATE_NONE, fd_decide_flood_current := None\<rparr>)"
    by (rule Cons.IH [of ?d "us @ [p]"]) (use Cons.prems in auto)
  moreover have "?d\<lparr>fd_decide_state := DECIDE_STATE_NONE, fd_decide_flood_current := None\<rparr> =
      d\<lparr>fd_decide_state := DECIDE_STATE_NONE, fd_decide_flood_current := None\<rparr>" by simp
  ultimately show ?case using n by simp
qed

lemma multicast_yields:
  assumes "fd_inv d L C" "fd_decide_state d = DECIDE_STATE_MULTICAST"
    "idir (fd_ll3 d) decide_multicast_it = Some (first_opt vs, 1)" "L s = us @ vs"
  shows "\<exists>h. fd_yields d (map (ge_owner d) vs) (d\<lparr>fd_ll3 := h, fd_decide_state := DECIDE_STATE_NONE\<rparr>) \<and>
    fd_inv (d\<lparr>fd_ll3 := h, fd_decide_state := DECIDE_STATE_NONE\<rparr>) L (\<lambda>x. [])"
  using assms
proof (induction vs arbitrary: d C us)
  case Nil
  have "d\<lparr>fd_ll3 := fd_ll3 d, fd_decide_state := DECIDE_STATE_NONE\<rparr> = d\<lparr>fd_decide_state := DECIDE_STATE_NONE\<rparr>"
    by (cases d) simp
  then show ?case
    using multicast_end [OF Nil.prems(1,2)] Nil.prems(3) by (intro exI [of _ "fd_ll3 d"]) simp
next
  case (Cons e vs)
  obtain h C1 where h: "FrameDecider_NextDestination d = Some (Some (ge_owner d e), d\<lparr>fd_ll3 := h\<rparr>)"
    "fd_inv (d\<lparr>fd_ll3 := h\<rparr>) L C1" "idir h decide_multicast_it = Some (first_opt vs, 1)"
    using multicast_step [OF Cons.prems(1,2) _ Cons.prems(4)] Cons.prems(3) by auto
  let ?d = "d\<lparr>fd_ll3 := h\<rparr>"
  have o: "ge_owner ?d = ge_owner d" by (simp add: ge_owner_def fun_eq_iff)
  obtain h' where h': "fd_yields ?d (map (ge_owner ?d) vs) (?d\<lparr>fd_ll3 := h', fd_decide_state := DECIDE_STATE_NONE\<rparr>)"
    "fd_inv (?d\<lparr>fd_ll3 := h', fd_decide_state := DECIDE_STATE_NONE\<rparr>) L (\<lambda>x. [])"
    using Cons.IH [OF h(2), of "us @ [e]"] Cons.prems(2,4) h(3) by auto
  have "?d\<lparr>fd_ll3 := h', fd_decide_state := DECIDE_STATE_NONE\<rparr> = d\<lparr>fd_ll3 := h', fd_decide_state := DECIDE_STATE_NONE\<rparr>"
    by simp
  then show ?case using h(1) h' o by (intro exI [of _ h']) auto
qed

section \<open>Where a frame goes\<close>

definition multicast_copies :: "FrameDecider \<Rightarrow> u32 \<Rightarrow> nat list" where
  "multicast_copies d s = concat (map (\<lambda>p. map (\<lambda>_. p)
     (filter (\<lambda>g. compute_sig_for_group g = s) (groups_table d p))) (fd_peers_list d))"

text \<open>The destinations the tables give: \<open>ps\<close> is right for a frame to \<open>dest\<close>.\<close>

definition destinations_ok :: "FrameDecider \<Rightarrow> bool \<Rightarrow> byte list \<Rightarrow> nat list \<Rightarrow> bool" where
  "destinations_ok d is_igmp dest ps \<longleftrightarrow>
     (if is_igmp \<or> dest = broadcast_mac then ps = fd_peers_list d
      else if take 3 dest = [0x01, 0x00, 0x5e]
      then mset ps = mset (multicast_copies d (compute_sig_for_mac dest))
      else (\<forall>p. dest \<in> set (macs_table d p) \<longrightarrow> ps = [p]) \<and>
           ((\<forall>p. dest \<notin> set (macs_table d p)) \<longrightarrow> ps = fd_peers_list d))"

lemma destinations_same: "same_tables d d' \<Longrightarrow> destinations_ok d' i m ps = destinations_ok d i m ps"
  by (simp add: same_tables_def destinations_ok_def multicast_copies_def)

lemma distinct_concat_map:
  "distinct ps \<Longrightarrow> (\<And>p. p \<in> set ps \<Longrightarrow> distinct (f p)) \<Longrightarrow>
   (\<And>p q. p \<noteq> q \<Longrightarrow> set (f p) \<inter> set (f q) = {}) \<Longrightarrow> distinct (concat (map f ps))"
proof (induction ps)
  case (Cons p ps)
  have "set (f p) \<inter> set (f q) = {}" if "q \<in> set ps" for q
    using Cons.prems(1) that by (intro Cons.prems(3)) auto
  then have "set (f p) \<inter> set (concat (map f ps)) = {}" by auto
  then show ?case using Cons by simp
qed simp

lemma multicast_list_mset:
  assumes inv: "fd_inv d L C"
  shows "mset (map (ge_owner d) (L s)) = mset (multicast_copies d s)"
proof -
  let ?f = "\<lambda>p. filter (\<lambda>e. compute_sig_for_group (group_of d e) = s) (gused d p)"
  have own: "ge_owner d e = p \<and> e \<in> dom (fd_groups d)" if e: "e \<in> set (gused d p)" for e p
  proof -
    obtain q where q: "fd_peers d p = Some q" "e \<in> set (fp_group_entries_used q)"
      using e by (cases "fd_peers d p") (auto simp: gused_def)
    then show ?thesis using gpeer_okD(5) [OF grp_okD [OF fd_invD(7) [OF inv] q(1)] q(2)]
      by (auto simp: gcore_def ge_owner_def)
  qed
  have dg: "distinct (gused d p)" for p
  proof (cases "fd_peers d p")
    case (Some q)
    then show ?thesis using gpeer_okD(2) [OF grp_okD [OF fd_invD(7) [OF inv] Some]] by (simp add: gused_def)
  qed (simp add: gused_def)
  have "distinct (concat (map ?f (fd_peers_list d)))"
  proof (rule distinct_concat_map [OF fd_invD(3) [OF inv]])
    show "distinct (?f p)" for p using dg by simp
    show "set (?f p) \<inter> set (?f q) = {}" if pq: "p \<noteq> q" for p q
    proof (rule equals0I)
      fix e assume "e \<in> set (?f p) \<inter> set (?f q)"
      then have "e \<in> set (gused d p)" "e \<in> set (gused d q)" by auto
      then show False using own [of e p] own [of e q] pq by simp
    qed
  qed
  moreover have "distinct (L s)" by (rule ll3_wf_list(1) [OF mc_ok_D(1) [OF fd_invD(8) [OF inv]]])
  moreover have "set (L s) = set (concat (map ?f (fd_peers_list d)))"
  proof (rule set_eqI)
    fix e
    have pl: "p \<in> set (fd_peers_list d)" if "e \<in> set (gused d p)" for p
      using that fd_invD(4) [OF inv] by (cases "fd_peers d p") (auto simp: gused_def)
    have "gsig d e = Some s \<longleftrightarrow> compute_sig_for_group (group_of d e) = s" if "e \<in> dom (fd_groups d)"
      using that by (auto simp: gsig_def group_of_def)
    then have "e \<in> set (L s) \<longleftrightarrow> (\<exists>p. e \<in> set (gused d p) \<and> compute_sig_for_group (group_of d e) = s)"
      unfolding mc_ok_D(2) [OF fd_invD(8) [OF inv]] used_groups_def using own by blast
    then show "e \<in> set (L s) \<longleftrightarrow> e \<in> set (concat (map ?f (fd_peers_list d)))" using pl by auto
  qed
  ultimately have "mset (L s) = mset (concat (map ?f (fd_peers_list d)))"
    using set_eq_iff_mset_eq_distinct by blast
  then have "mset (map (ge_owner d) (L s)) = mset (map (ge_owner d) (concat (map ?f (fd_peers_list d))))"
    by simp
  also have "map (ge_owner d) (concat (map ?f (fd_peers_list d))) = multicast_copies d s"
  proof -
    have "map (ge_owner d) (?f p) = map (\<lambda>_. p) (filter (\<lambda>g. compute_sig_for_group g = s) (groups_table d p))" for p
    proof -
      have "map (ge_owner d) (?f p) = map (\<lambda>_. p) (?f p)" using own by (intro map_cong) auto
      also have "\<dots> = map (\<lambda>_. p) (filter (\<lambda>g. compute_sig_for_group g = s) (groups_table d p))"
        by (simp add: groups_table_def filter_map comp_def)
      finally show ?thesis .
    qed
    then show ?thesis unfolding multicast_copies_def map_concat map_map comp_def by simp
  qed
  finally show ?thesis .
qed

lemma in_macs_table:
  assumes ok: "mac_ok d"
  shows "m \<in> set (macs_table d p) \<longleftrightarrow> (\<exists>e. fd_macs_tree d m = Some e \<and> mowner d e = Some p)"
proof
  assume "m \<in> set (macs_table d p)"
  then obtain q e where q: "fd_peers d p = Some q" "e \<in> set (fp_mac_entries_used q)" "mac_of d e = m"
    by (cases "fd_peers d p") (auto simp: macs_table_def mused_def)
  then show "\<exists>e. fd_macs_tree d m = Some e \<and> mowner d e = Some p"
    using mac_ok_tree_iff [OF ok q(1,2)] mpeer_okD(5) [OF mac_okD(1) [OF ok q(1)] q(2)] by blast
next
  assume "\<exists>e. fd_macs_tree d m = Some e \<and> mowner d e = Some p"
  then obtain e q where "fd_peers d p = Some q" "e \<in> set (fp_mac_entries_used q)" "mac_of d e = m"
    using mac_ok_owner [OF ok] by blast
  then show "m \<in> set (macs_table d p)" by (auto simp: macs_table_def mused_def)
qed

definition decided :: "FrameDecider \<Rightarrow> bool \<Rightarrow> byte list \<Rightarrow> FrameDecider \<Rightarrow> (u32 \<Rightarrow> nat list) \<Rightarrow> bool" where
  "decided d is_igmp dest d1 L \<longleftrightarrow> (\<exists>C ps d'. fd_inv d1 L C \<and> same_tables d d1 \<and>
     fd_yields d1 ps d' \<and> destinations_ok d is_igmp dest ps \<and>
     fd_inv d' L (\<lambda>x. []) \<and> fd_decide_state d' = DECIDE_STATE_NONE \<and> same_tables d d')"

lemma decide_flood:
  assumes inv: "fd_inv d L C" and st: "fd_decide_state d = DECIDE_STATE_NONE"
  shows "\<exists>C d'. fd_inv (d\<lparr>fd_decide_state := DECIDE_STATE_FLOOD,
      fd_decide_flood_current := first_opt (fd_peers_list d)\<rparr>) L C \<and>
    fd_yields (d\<lparr>fd_decide_state := DECIDE_STATE_FLOOD,
      fd_decide_flood_current := first_opt (fd_peers_list d)\<rparr>) (fd_peers_list d) d' \<and>
    fd_inv d' L (\<lambda>x. []) \<and> fd_decide_state d' = DECIDE_STATE_NONE \<and> same_tables d d'"
proof -
  let ?d = "d\<lparr>fd_decide_state := DECIDE_STATE_FLOOD, fd_decide_flood_current := first_opt (fd_peers_list d)\<rparr>"
  let ?e = "d\<lparr>fd_decide_state := DECIDE_STATE_NONE, fd_decide_flood_current := None\<rparr>"
  have C: "C = (\<lambda>x. [])" using fd_no_iterators [OF inv] st by (simp add: fun_eq_iff)
  have "fd_inv ?d L C"
  proof (rule fd_inv_state [OF inv])
    show "p \<in> dom (fd_peers d)" if "first_opt (fd_peers_list d) = Some p" for p
      using first_opt_Some [OF that] fd_invD(4) [OF inv] by simp
  qed (simp_all add: st)
  moreover have "fd_inv ?e L C" by (rule fd_inv_state [OF inv]) (simp_all add: st)
  moreover have "fd_yields ?d (fd_peers_list d) (?d\<lparr>fd_decide_state := DECIDE_STATE_NONE, fd_decide_flood_current := None\<rparr>)"
    by (rule flood_yields [where us = "[]"]) (simp_all add: fd_invD(3) [OF inv])
  moreover have "?d\<lparr>fd_decide_state := DECIDE_STATE_NONE, fd_decide_flood_current := None\<rparr> = ?e" by simp
  moreover have "same_tables d ?e" by (rule same_tables_decide)
  ultimately show ?thesis unfolding C by (intro exI [of _ "\<lambda>x. []"] exI [of _ ?e]) simp
qed

lemma decided_flood:
  assumes inv: "fd_inv d L C" and st: "fd_decide_state d = DECIDE_STATE_NONE"
    and ok: "destinations_ok d is_igmp dest (fd_peers_list d)"
  shows "decided d is_igmp dest (d\<lparr>fd_decide_state := DECIDE_STATE_FLOOD,
    fd_decide_flood_current := first_opt (fd_peers_list d)\<rparr>) L"
  using decide_flood [OF inv st] ok same_tables_decide(1) unfolding decided_def by blast

lemma decided_unicast:
  assumes inv: "fd_inv d L C" and st: "fd_decide_state d = DECIDE_STATE_NONE"
    and e: "fd_macs_tree d dest = Some e" "fd_macs d e = Some x"
    and dest: "\<not> is_igmp" "dest \<noteq> broadcast_mac" "take 3 dest \<noteq> [0x01, 0x00, 0x5e]"
  shows "decided d is_igmp dest (d\<lparr>fd_decide_state := DECIDE_STATE_UNICAST,
    fd_decide_unicast_peer := Some (me_peer x)\<rparr>) L"
proof -
  let ?p = "me_peer x"
  let ?d = "d\<lparr>fd_decide_state := DECIDE_STATE_UNICAST, fd_decide_unicast_peer := Some ?p\<rparr>"
  let ?e = "d\<lparr>fd_decide_state := DECIDE_STATE_NONE, fd_decide_unicast_peer := Some ?p\<rparr>"
  have C: "C = (\<lambda>x. [])" using fd_no_iterators [OF inv] st by (simp add: fun_eq_iff)
  note wf = mc_ok_D(1) [OF fd_invD(8) [OF inv]]
  have o: "mowner d e = Some ?p" using e(2) by (simp add: mowner_def)
  then have pd: "?p \<in> dom (fd_peers d)" using mac_ok_owner [OF fd_invD(5) [OF inv] e(1)] by blast
  have "fd_inv (d\<lparr>fd_ll3 := fd_ll3 d, fd_decide_state := st', fd_decide_flood_current := fd_decide_flood_current d,
      fd_decide_unicast_peer := Some ?p\<rparr>) L C" if "st' \<noteq> DECIDE_STATE_MULTICAST" for st'
    by (intro fd_inv_decide [OF inv wf]) (use pd fd_invD(11) [OF inv] iter_ok_none [OF that] C in auto)
  moreover have "d\<lparr>fd_ll3 := fd_ll3 d, fd_decide_state := st', fd_decide_flood_current := fd_decide_flood_current d,
      fd_decide_unicast_peer := Some ?p\<rparr> = d\<lparr>fd_decide_state := st', fd_decide_unicast_peer := Some ?p\<rparr>" for st'
    by (cases d) simp
  ultimately have i: "fd_inv ?d L C" "fd_inv ?e L (\<lambda>x. [])" using C by auto
  have y: "fd_yields ?d [?p] ?e" by (simp add: FrameDecider_NextDestination_def)
  have "dest \<in> set (macs_table d p) \<longleftrightarrow> p = ?p" for p
    using in_macs_table [OF fd_invD(5) [OF inv]] e(1) o by auto
  then have "destinations_ok d is_igmp dest [?p]" using dest by (simp add: destinations_ok_def)
  then show ?thesis
    unfolding decided_def using i y same_tables_decide(4)
    by (intro exI [of _ C] exI [of _ "[?p]"] exI [of _ ?e]) simp
qed

lemma decided_multicast:
  assumes inv: "fd_inv d L C" and st: "fd_decide_state d = DECIDE_STATE_NONE"
    and f: "L (compute_sig_for_mac dest) = f # fs"
    and dest: "\<not> is_igmp" "dest \<noteq> broadcast_mac" "take 3 dest = [0x01, 0x00, 0x5e]"
  shows "\<exists>h. LinkedList3Iterator_Init (fd_ll3 d) decide_multicast_it (Some f) 1 = Some h \<and>
    decided d is_igmp dest (d\<lparr>fd_decide_state := DECIDE_STATE_MULTICAST, fd_ll3 := h\<rparr>) L"
proof -
  let ?w = decide_multicast_it and ?s = "compute_sig_for_mac dest"
  have C: "C = (\<lambda>x. [])" using fd_no_iterators [OF inv] st by (simp add: fun_eq_iff)
  note wf = mc_ok_D(1) [OF fd_invD(8) [OF inv]]
  have fl: "f \<in> l3_live L" by (rule l3_live_member [of _ L ?s]) (simp add: f)
  have no: "\<And>y. ?w \<notin> set (C y)" by (simp add: C)
  obtain h where h: "LinkedList3Iterator_Init (fd_ll3 d) ?w (Some f) 1 = Some h"
    "ll3_wf h L (C(f := ?w # C f))" "idir h = (idir (fd_ll3 d))(?w \<mapsto> (Some f, 1))"
    using Iterator_Init_at [OF wf fl no disjI1 [OF refl]] by blast
  let ?d = "d\<lparr>fd_decide_state := DECIDE_STATE_MULTICAST, fd_ll3 := h\<rparr>"
  have "iter_ok DECIDE_STATE_MULTICAST h (C(f := ?w # C f))"
    using h(3) by (auto simp: iter_ok_def C)
  then have "fd_inv (d\<lparr>fd_ll3 := h, fd_decide_state := DECIDE_STATE_MULTICAST,
      fd_decide_flood_current := fd_decide_flood_current d,
      fd_decide_unicast_peer := fd_decide_unicast_peer d\<rparr>) L (C(f := ?w # C f))"
    by (intro fd_inv_decide [OF inv h(2)]) (use fd_invD(11) [OF inv] in auto)
  moreover have "d\<lparr>fd_ll3 := h, fd_decide_state := DECIDE_STATE_MULTICAST\<rparr> = ?d" by (cases d) simp
  ultimately have i: "fd_inv ?d L (C(f := ?w # C f))" unfolding fd_update_id by metis
  have pos: "idir (fd_ll3 ?d) ?w = Some (first_opt (f # fs), 1)" using h(3) by simp
  have mst: "fd_decide_state ?d = DECIDE_STATE_MULTICAST" by simp
  have Lf: "L ?s = [] @ f # fs" using f by simp
  obtain h' where y: "fd_yields ?d (map (ge_owner ?d) (f # fs)) (?d\<lparr>fd_ll3 := h', fd_decide_state := DECIDE_STATE_NONE\<rparr>)"
    "fd_inv (?d\<lparr>fd_ll3 := h', fd_decide_state := DECIDE_STATE_NONE\<rparr>) L (\<lambda>x. [])"
    using multicast_yields [OF i mst pos Lf] by blast
  have o: "ge_owner ?d = ge_owner d" by (simp add: ge_owner_def fun_eq_iff)
  have e: "?d\<lparr>fd_ll3 := h', fd_decide_state := DECIDE_STATE_NONE\<rparr> = d\<lparr>fd_decide_state := DECIDE_STATE_NONE, fd_ll3 := h'\<rparr>"
    by (cases d) simp
  have "destinations_ok d is_igmp dest (map (ge_owner d) (f # fs))"
    using multicast_list_mset [OF inv, of ?s] dest f by (simp add: destinations_ok_def)
  then have "decided d is_igmp dest ?d L"
    unfolding decided_def using i y [unfolded e o] same_tables_decide(5)
    by (intro exI [of _ "C(f := ?w # C f)"] exI [of _ "map (ge_owner d) (f # fs)"]
        exI [of _ "d\<lparr>fd_decide_state := DECIDE_STATE_NONE, fd_ll3 := h'\<rparr>"] conjI) simp_all
  then show ?thesis using h(1) by blast
qed

lemma decide_destination_fd:
  assumes inv: "fd_inv d L C" and st: "fd_decide_state d = DECIDE_STATE_NONE"
  shows "\<exists>d1. decide_destination d is_igmp dest = Some d1 \<and> decided d is_igmp dest d1 L"
proof (cases "is_igmp \<or> dest = broadcast_mac")
  case True
  then show ?thesis using decided_flood [OF inv st, of is_igmp dest]
    by (simp add: decide_destination_def destinations_ok_def Let_def)
next
  case no: False
  show ?thesis
  proof (cases "take 3 dest = [0x01, 0x00, 0x5e]")
    case mc: True
    let ?s = "compute_sig_for_mac dest"
    show ?thesis
    proof (cases "fd_multicast_tree d ?s")
      case None
      have "L ?s = []" by (rule mc_ok_D(4) [OF fd_invD(8) [OF inv] None])
      then have "destinations_ok d is_igmp dest []"
        using multicast_list_mset [OF inv, of ?s] no mc by (simp add: destinations_ok_def)
      moreover have "fd_yields d [] d" using st by (simp add: FrameDecider_NextDestination_def)
      moreover have "fd_inv d L (\<lambda>x. [])"
      proof -
        have "C = (\<lambda>x. [])" using fd_no_iterators [OF inv] st by (simp add: fun_eq_iff)
        then show ?thesis using inv by simp
      qed
      ultimately have "decided d is_igmp dest d L" unfolding decided_def using st same_tables_decide(8) by blast
      then show ?thesis using None no mc by (simp add: decide_destination_def Let_def)
    next
      case (Some m)
      obtain mx where m: "m \<in> set (L ?s)" "fd_groups d m = Some mx" "ge_is_master mx"
        using mc_ok_D(5) [OF fd_invD(8) [OF inv] Some] by blast
      then obtain us vs where L: "L ?s = us @ m # vs" using split_list by meson
      then obtain f fs where Lf: "L ?s = f # fs" by (cases us) auto
      have "LinkedList3Node_First (fd_ll3 d) m = Some f"
        using First_list [OF mc_ok_D(1) [OF fd_invD(8) [OF inv]] L] Lf by simp
      moreover obtain h where "LinkedList3Iterator_Init (fd_ll3 d) decide_multicast_it (Some f) 1 = Some h"
        "decided d is_igmp dest (d\<lparr>fd_decide_state := DECIDE_STATE_MULTICAST, fd_ll3 := h\<rparr>) L"
        using decided_multicast [where is_igmp = is_igmp, OF inv st Lf] no mc by blast
      ultimately show ?thesis
        using no mc Some m(2,3) by (simp add: decide_destination_def Let_def)
    qed
  next
    case uc: False
    show ?thesis
    proof (cases "fd_macs_tree d dest")
      case None
      then have "\<forall>p. dest \<notin> set (macs_table d p)" using in_macs_table [OF fd_invD(5) [OF inv]] by simp
      then have "destinations_ok d is_igmp dest (fd_peers_list d)" using no uc by (simp add: destinations_ok_def)
      from decided_flood [OF inv st this] show ?thesis
        using None no uc by (simp add: decide_destination_def Let_def)
    next
      case (Some e)
      obtain p q where "fd_peers d p = Some q" "e \<in> set (fp_mac_entries_used q)"
        using mac_okD(2) [OF fd_invD(5) [OF inv] Some] by blast
      then have "mowner d e = Some p" using mpeer_okD(5) [OF mac_okD(1) [OF fd_invD(5) [OF inv]]] by blast
      then obtain x where x: "fd_macs d e = Some x" by (auto simp: mowner_def)
      show ?thesis
        using decided_unicast [OF inv st Some x, of is_igmp] no uc Some x by (simp add: decide_destination_def Let_def)
    qed
  qed
qed

text \<open>The destinations of a whole frame: a short one goes nowhere.\<close>

definition frame_destinations :: "FrameDecider \<Rightarrow> byte list \<Rightarrow> nat list \<Rightarrow> bool" where
  "frame_destinations d frame ps \<longleftrightarrow>
     (if length frame < 14 then ps = []
      else destinations_ok d (fst (decide_analyze frame)) (take 6 frame) ps)"

lemma eth_dest_take: "eth_dest (ethernet_header_of frame) = take 6 frame"
  by (simp add: ethernet_header_of_def seg_def)

lemma AnalyzeAndDecide_fd:
  assumes inv: "fd_inv d L C" and st: "fd_decide_state d \<noteq> DECIDE_STATE_MULTICAST"
  shows "\<exists>d1 C1 ps d'. FrameDecider_AnalyzeAndDecide d frame clock = Some d1 \<and> fd_inv d1 L C1 \<and>
    same_tables d d1 \<and> fd_yields d1 ps d' \<and> frame_destinations d frame ps \<and>
    fd_inv d' L (\<lambda>x. []) \<and> fd_decide_state d' = DECIDE_STATE_NONE \<and> same_tables d d'"
proof -
  let ?d = "d\<lparr>fd_decide_state := DECIDE_STATE_NONE, fd_decide_flood_current := None\<rparr>"
  have i0: "fd_inv ?d L C" by (rule fd_inv_state [OF inv st]) simp_all
  have s0: "same_tables d ?d" by (rule same_tables_decide)
  show ?thesis
  proof (cases "length frame < 14")
    case True
    then have run: "FrameDecider_AnalyzeAndDecide d frame clock = Some ?d"
      using st by (simp add: FrameDecider_AnalyzeAndDecide_def)
    have "C = (\<lambda>x. [])" using fd_no_iterators [OF inv st] by (simp add: fun_eq_iff)
    then have "fd_inv ?d L (\<lambda>x. [])" using i0 by simp
    moreover have "fd_yields ?d [] ?d" by (simp add: FrameDecider_NextDestination_def)
    moreover have "frame_destinations d frame []" using True by (simp add: frame_destinations_def)
    moreover have "fd_decide_state ?d = DECIDE_STATE_NONE" by simp
    ultimately show ?thesis using run i0 s0 by blast
  next
    case False
    obtain ig query where a: "decide_analyze frame = (ig, query)" by (cases "decide_analyze frame")
    obtain d0 where d0: "(case query of None \<Rightarrow> Some ?d | Some grp \<Rightarrow> lower_group_timers_to_lmqt ?d grp clock) = Some d0"
      "fd_inv d0 L C" "same_tables ?d d0" "fd_decide_state d0 = DECIDE_STATE_NONE"
    proof (cases query)
      case None
      then show thesis using that i0 same_tables_decide(8) by simp
    next
      case (Some g)
      have "fd_decide_state ?d \<noteq> DECIDE_STATE_MULTICAST" by simp
      from lower_group_timers_fd [OF i0 this, of g clock] obtain d0 where
        d0: "lower_group_timers_to_lmqt ?d g clock = Some d0" "fd_inv d0 L C" "grp_frame ?d d0"
          "fd_peers d0 = fd_peers ?d" "groups_table d0 = groups_table ?d" by blast
      have "macs_table d0 = macs_table ?d" by (rule mac_ok_grp_frame(2) [OF fd_invD(5) [OF i0] d0(3)])
      then have "same_tables ?d d0"
        using d0(4,5) grp_frame_simps(3,7,8) [OF d0(3)] by (simp add: same_tables_def)
      then show thesis using that d0(1,2) grp_frame_simps(4) [OF d0(3)] Some by simp
    qed
    have run: "FrameDecider_AnalyzeAndDecide d frame clock = decide_destination d0 ig (take 6 frame)"
      using st False a d0(1) by (simp add: FrameDecider_AnalyzeAndDecide_def Let_def eth_dest_take)
    obtain d1 where d1: "decide_destination d0 ig (take 6 frame) = Some d1" "decided d0 ig (take 6 frame) d1 L"
      using decide_destination_fd [OF d0(2,4)] by blast
    obtain C1 ps d' where y: "fd_inv d1 L C1" "same_tables d0 d1" "fd_yields d1 ps d'"
      "destinations_ok d0 ig (take 6 frame) ps" "fd_inv d' L (\<lambda>x. [])"
      "fd_decide_state d' = DECIDE_STATE_NONE" "same_tables d0 d'"
      using d1(2) unfolding decided_def by blast
    have s: "same_tables d d0" by (rule same_tables_trans [OF s0 d0(3)])
    have "frame_destinations d frame ps"
      using y(4) destinations_same [OF s] False a by (simp add: frame_destinations_def)
    then show ?thesis
      using run d1(1) y(1,3,5,6) same_tables_trans [OF s y(2)] same_tables_trans [OF s y(7)] by auto
  qed
qed

section \<open>Routing a frame\<close>

text \<open>Each destination with the flag that more of them follow.\<close>

fun with_more :: "nat list \<Rightarrow> (nat \<times> bool) list" where
  "with_more [] = []"
| "with_more (p # ps) = (p, ps \<noteq> []) # with_more ps"

lemma route_loop_yields:
  "fd_yields d ps d' \<Longrightarrow> route_loop d (Some p) acc = Some (acc @ with_more (p # ps), d')"
proof (induction ps arbitrary: d p acc)
  case Nil
  then show ?case by (simp add: route_loop.simps [of d "Some p"] route_loop.simps [of d' None])
next
  case (Cons q ps)
  then obtain d1 where d1: "FrameDecider_NextDestination d = Some (Some q, d1)" "fd_yields d1 ps d'" by auto
  then show ?case using Cons.IH [OF d1(2), of q "acc @ [(p, True)]"]
    by (simp add: route_loop.simps [of d "Some p"])
qed

lemma device_dpsource_handler_yields:
  assumes "FrameDecider_AnalyzeAndDecide d frame clock = Some d1" "fd_yields d1 ps d'"
  shows "device_dpsource_handler d frame clock = Some (with_more ps, d')"
proof (cases ps)
  case Nil
  then show ?thesis using assms by (simp add: device_dpsource_handler_def route_loop.simps [of d' None])
next
  case (Cons p rest)
  then obtain d2 where "FrameDecider_NextDestination d1 = Some (Some p, d2)" "fd_yields d2 rest d'"
    using assms(2) by auto
  then show ?thesis using assms(1) route_loop_yields [of d2 rest d' p "[]"] Cons
    by (simp add: device_dpsource_handler_def)
qed

end
