(* ===== verification/FrameDeciderProps.thy ===== *)
theory FrameDeciderProps
  imports FrameDeciderRoute
begin

text \<open>
  The frame decider of the P2P VPN client as a running system: the calls the client makes in any
  order, the abstract router that their arguments determine, and where a frame is routed to.
\<close>

section \<open>The abstract router\<close>

text \<open>
  The peers in the order they came, and for each of them its MAC addresses and its multicast
  groups, the one that was heard of longest ago first.
\<close>

record router =
  r_peers :: "nat list"
  r_macs :: "nat \<Rightarrow> byte list list"
  r_groups :: "nat \<Rightarrow> u32 list"

definition router_of :: "FrameDecider \<Rightarrow> router" where
  "router_of d = \<lparr>r_peers = fd_peers_list d, r_macs = macs_table d, r_groups = groups_table d\<rparr>"

text \<open>The calls. \<open>FD_Timer p g\<close> is the expiry of the timer of peer \<open>p\<close>'s group \<open>g\<close>.\<close>

datatype fd_event =
    FD_PeerInit nat "nat option" "nat option"
  | FD_PeerFree nat
  | FD_Analyze nat "byte list" "nat \<Rightarrow> int"
  | FD_Decide "byte list" "nat \<Rightarrow> int"
  | FD_Next
  | FD_Timer nat u32

fun fd_enabled :: "FrameDecider \<Rightarrow> fd_event \<Rightarrow> bool" where
  "fd_enabled d (FD_PeerInit p macs groups) =
     (p \<notin> dom (fd_peers d) \<and>
      (case macs of None \<Rightarrow> True | Some mb \<Rightarrow> fresh_block (fd_macs d) mb (fd_max_peer_macs d)) \<and>
      (case groups of None \<Rightarrow> True | Some gb \<Rightarrow> fresh_block (fd_groups d) gb (fd_max_peer_groups d)))"
| "fd_enabled d (FD_PeerFree p) = (p \<in> set (fd_peers_list d))"
| "fd_enabled d (FD_Analyze p frame clock) = (p \<in> set (fd_peers_list d))"
| "fd_enabled d (FD_Decide frame clock) = (fd_decide_state d \<noteq> DECIDE_STATE_MULTICAST)"
| "fd_enabled d FD_Next = True"
| "fd_enabled d (FD_Timer p g) = (g \<in> set (groups_table d p))"

fun fd_step :: "FrameDecider \<Rightarrow> fd_event \<Rightarrow> FrameDecider option" where
  "fd_step d (FD_PeerInit p macs groups) = Some (snd (FrameDeciderPeer_Init d p macs groups))"
| "fd_step d (FD_PeerFree p) = FrameDeciderPeer_Free d p"
| "fd_step d (FD_Analyze p frame clock) = FrameDeciderPeer_Analyze d p frame clock"
| "fd_step d (FD_Decide frame clock) = FrameDecider_AnalyzeAndDecide d frame clock"
| "fd_step d FD_Next = map_option snd (FrameDecider_NextDestination d)"
| "fd_step d (FD_Timer p g) = do {
     q \<leftarrow> fd_peers d p;
     e \<leftarrow> fp_groups_tree q g;
     group_entry_timer_handler d e }"

text \<open>What the calls mean for the router, with at most \<open>n\<close> addresses and \<open>k\<close> groups for a peer.\<close>

fun router_step :: "nat \<Rightarrow> nat \<Rightarrow> router \<Rightarrow> fd_event \<Rightarrow> router" where
  "router_step n k R (FD_PeerInit p macs groups) =
     (if macs \<noteq> None \<and> groups \<noteq> None then R\<lparr>r_peers := r_peers R @ [p]\<rparr> else R)"
| "router_step n k R (FD_PeerFree p) =
     R\<lparr>r_peers := remove1 p (r_peers R), r_macs := (r_macs R)(p := []), r_groups := (r_groups R)(p := [])\<rparr>"
| "router_step n k R (FD_Analyze p frame clock) =
     R\<lparr>r_macs := (if length frame < 14 then r_macs R else learn_mac n (r_macs R) p (seg frame 6 6)),
       r_groups := (r_groups R)(p := foldl (lru_add k) (r_groups R p) (reported_groups frame))\<rparr>"
| "router_step n k R (FD_Decide frame clock) = R"
| "router_step n k R FD_Next = R"
| "router_step n k R (FD_Timer p g) = R\<lparr>r_groups := (r_groups R)(p := removeAll g (r_groups R p))\<rparr>"

inductive fd_reach :: "nat \<Rightarrow> nat \<Rightarrow> int \<Rightarrow> int \<Rightarrow> FrameDecider \<Rightarrow> router \<Rightarrow> bool"
  for n k interval lmqt where
  fd_reach_init: "FrameDecider_Init n k interval lmqt = Some d \<Longrightarrow>
    fd_reach n k interval lmqt d \<lparr>r_peers = [], r_macs = (\<lambda>p. []), r_groups = (\<lambda>p. [])\<rparr>"
| fd_reach_step: "fd_reach n k interval lmqt d R \<Longrightarrow> fd_enabled d ev \<Longrightarrow> fd_step d ev = Some d' \<Longrightarrow>
    fd_reach n k interval lmqt d' (router_step n k R ev)"

section \<open>The invariant in every reachable state\<close>

definition fd_ok :: "nat \<Rightarrow> nat \<Rightarrow> FrameDecider \<Rightarrow> router \<Rightarrow> bool" where
  "fd_ok n k d R \<longleftrightarrow> (\<exists>L C. fd_inv d L C) \<and> fd_max_peer_macs d = n \<and> fd_max_peer_groups d = k \<and> router_of d = R"

lemma fd_okI:
  "fd_inv d L C \<Longrightarrow> fd_max_peer_macs d = n \<Longrightarrow> fd_max_peer_groups d = k \<Longrightarrow> router_of d = R \<Longrightarrow> fd_ok n k d R"
  unfolding fd_ok_def by blast

lemma fd_ok_init:
  assumes "FrameDecider_Init n k interval lmqt = Some d"
  shows "fd_ok n k d \<lparr>r_peers = [], r_macs = (\<lambda>p. []), r_groups = (\<lambda>p. [])\<rparr>"
proof (rule fd_okI)
  have d: "n > 0" "k > 0" "fd_peers d = Map.empty" "fd_peers_list d = []" "fd_macs_tree d = Map.empty"
    "fd_multicast_tree d = Map.empty" "fd_decide_state d = DECIDE_STATE_NONE"
    "fd_decide_flood_current d = None" "fd_ll3 d = \<lparr>l3_nodes = Map.empty, l3_iters = Map.empty\<rparr>"
    "fd_max_peer_macs d = n" "fd_max_peer_groups d = k"
    using assms by (auto simp: FrameDecider_Init_def assert_that_def split: if_splits)
  have gu: "gused d = (\<lambda>p. [])" "mused d = (\<lambda>p. [])" by (simp_all add: gused_def mused_def d(3) fun_eq_iff)
  have U: "used_groups d = {}" by (simp add: used_groups_def gu)
  have "ll3_wf (fd_ll3 d) (\<lambda>s. []) (\<lambda>x. [])"
    by (simp add: ll3_wf_def l3_lists_ok_def l3_iters_ok_def l3_live_def l3_sits_def d(9))
  then have "mc_ok d (\<lambda>s. []) (\<lambda>x. []) {}" by (simp add: mc_ok_def d(6) gsig_def)
  moreover have "grp_ok d" by (simp add: grp_ok_def d(3))
  moreover have "mac_ok d" by (simp add: mac_ok_def d(3,5))
  ultimately show "fd_inv d (\<lambda>s. []) (\<lambda>x. [])"
    using d U by (simp add: fd_inv_def groups_inv_def iter_ok_def)
  show "router_of d = \<lparr>r_peers = [], r_macs = (\<lambda>p. []), r_groups = (\<lambda>p. [])\<rparr>"
    by (simp add: router_of_def d(4) macs_table_def groups_table_def gu fun_eq_iff)
qed (use assms in \<open>auto simp: FrameDecider_Init_def assert_that_def split: if_splits\<close>)

lemma group_entry_of:
  assumes inv: "fd_inv d L C" and g: "g \<in> set (groups_table d p)"
  shows "\<exists>q e. fd_peers d p = Some q \<and> fp_groups_tree q g = Some e \<and> e \<in> set (gused d p) \<and> group_of d e = g"
proof -
  obtain e where e: "e \<in> set (gused d p)" "group_of d e = g" using g by (auto simp: groups_table_def)
  then obtain q where q: "fd_peers d p = Some q" "e \<in> set (fp_group_entries_used q)"
    by (cases "fd_peers d p") (auto simp: gused_def)
  obtain h t where h: "gcore d e = Some (p, Some t, h, t)" "fp_groups_tree q h = Some e"
    using gpeer_okD(5) [OF grp_okD [OF fd_invD(7) [OF inv] q(1)] q(2)] by blast
  have "h = g" using group_of_core [OF h(1)] e(2) by simp
  then show ?thesis using q e h(2) by blast
qed

lemma fd_ok_step:
  assumes ok: "fd_ok n k d R" and en: "fd_enabled d ev"
  shows "\<exists>d'. fd_step d ev = Some d' \<and> fd_ok n k d' (router_step n k R ev)"
proof -
  obtain L C where inv: "fd_inv d L C" using ok unfolding fd_ok_def by blast
  have m: "fd_max_peer_macs d = n" "fd_max_peer_groups d = k" and R: "R = router_of d"
    using ok unfolding fd_ok_def by blast+
  have dom: "p \<in> dom (fd_peers d)" if "p \<in> set (fd_peers_list d)" for p using that fd_invD(4) [OF inv] by simp
  show ?thesis
  proof (cases ev)
    case (FD_PeerInit p macs groups)
    have "\<exists>d'. FrameDeciderPeer_Init d p macs groups = (macs \<noteq> None \<and> groups \<noteq> None, d') \<and> fd_inv d' L C \<and>
      fd_peers_list d' = (if macs \<noteq> None \<and> groups \<noteq> None then fd_peers_list d @ [p] else fd_peers_list d) \<and>
      macs_table d' = macs_table d \<and> groups_table d' = groups_table d \<and>
      fd_max_peer_macs d' = fd_max_peer_macs d \<and> fd_max_peer_groups d' = fd_max_peer_groups d"
      by (rule FrameDeciderPeer_Init_fd [OF inv]) (use en FD_PeerInit in auto)
    then show ?thesis using FD_PeerInit m by (auto simp: R router_of_def intro!: fd_okI)
  next
    case (FD_PeerFree p)
    then have "p \<in> dom (fd_peers d)" using en dom by simp
    from FrameDeciderPeer_Free_fd [OF inv this] show ?thesis
      using FD_PeerFree m by (auto simp: R router_of_def intro!: fd_okI)
  next
    case (FD_Analyze p frame clock)
    then have "p \<in> dom (fd_peers d)" using en dom by simp
    from FrameDeciderPeer_Analyze_fd [OF inv this, of frame clock] show ?thesis
      using FD_Analyze m by (auto simp: R router_of_def intro!: fd_okI)
  next
    case (FD_Decide frame clock)
    then have "fd_decide_state d \<noteq> DECIDE_STATE_MULTICAST" using en by simp
    from AnalyzeAndDecide_fd [OF inv this, of frame clock] obtain d1 C1 where
      "FrameDecider_AnalyzeAndDecide d frame clock = Some d1" "fd_inv d1 L C1" "same_tables d d1" by blast
    then show ?thesis
      using FD_Decide m by (auto simp: R router_of_def same_tables_def intro!: fd_okI)
  next
    case FD_Next
    from FrameDecider_NextDestination_fd [OF inv] obtain r d1 C1 where
      "FrameDecider_NextDestination d = Some (r, d1)" "fd_inv d1 L C1" "same_tables d d1" by blast
    then show ?thesis
      using FD_Next m by (auto simp: R router_of_def same_tables_def intro!: fd_okI)
  next
    case (FD_Timer p g)
    obtain q e where q: "fd_peers d p = Some q" "fp_groups_tree q g = Some e" "e \<in> set (gused d p)" "group_of d e = g"
      using group_entry_of [OF inv] en FD_Timer by (metis fd_enabled.simps(6))
    from timer_handler_fd [OF inv q(3)] show ?thesis
      using FD_Timer q(1,2,4) m by (auto simp: R router_of_def intro!: fd_okI)
  qed
qed

lemma fd_reach_ok: "fd_reach n k interval lmqt d R \<Longrightarrow> fd_ok n k d R"
proof (induction rule: fd_reach.induct)
  case (fd_reach_init d)
  then show ?case by (rule fd_ok_init)
next
  case (fd_reach_step d R ev d')
  then show ?case using fd_ok_step [OF fd_reach_step.IH fd_reach_step.hyps(2)] by simp
qed

lemma fd_inv_bounds:
  assumes inv: "fd_inv d L C"
  shows "length (macs_table d p) \<le> fd_max_peer_macs d" "length (groups_table d p) \<le> fd_max_peer_groups d"
    "m \<in> set (macs_table d p) \<Longrightarrow> m \<in> set (macs_table d q) \<Longrightarrow> p = q"
    "p \<notin> set (fd_peers_list d) \<Longrightarrow> macs_table d p = [] \<and> groups_table d p = []"
proof -
  show "length (macs_table d p) \<le> fd_max_peer_macs d"
  proof (cases "fd_peers d p")
    case (Some q)
    then show ?thesis using mpeer_okD(7) [OF mac_okD(1) [OF fd_invD(5) [OF inv] Some]]
      by (simp add: macs_table_def mused_def)
  qed (simp add: macs_table_def mused_def)
  show "length (groups_table d p) \<le> fd_max_peer_groups d"
  proof (cases "fd_peers d p")
    case (Some q)
    then show ?thesis using gpeer_okD(7) [OF grp_okD [OF fd_invD(7) [OF inv] Some]]
      by (simp add: groups_table_def gused_def)
  qed (simp add: groups_table_def gused_def)
  show "p = q" if "m \<in> set (macs_table d p)" "m \<in> set (macs_table d q)"
    using that in_macs_table [OF fd_invD(5) [OF inv]] by auto
  show "macs_table d p = [] \<and> groups_table d p = []" if "p \<notin> set (fd_peers_list d)"
  proof -
    have "fd_peers d p = None" using that fd_invD(4) [OF inv] by auto
    then show ?thesis by (simp add: macs_table_def groups_table_def mused_def gused_def)
  qed
qed

lemma FrameDecider_Free_fd:
  assumes inv: "fd_inv d L C" and e: "fd_peers_list d = []"
  shows "FrameDecider_Free d = Some ()"
proof -
  have none: "fd_peers d p = None" for p using fd_invD(4) [OF inv] e by auto
  have "fd_macs_tree d m = None" for m
    using mac_okD(2) [OF fd_invD(5) [OF inv], of m] none by (cases "fd_macs_tree d m") auto
  moreover have "fd_multicast_tree d s = None" for s
  proof (cases "fd_multicast_tree d s")
    case (Some x)
    then have "x \<in> used_groups d"
      using mc_ok_D(2) [OF fd_invD(8) [OF inv]] mc_ok_D(5) [OF fd_invD(8) [OF inv] Some] by blast
    then show ?thesis by (rule used_groupsE) (simp add: none)
  qed
  ultimately show ?thesis using e by (simp add: FrameDecider_Free_def assert_that_def fun_eq_iff)
qed

section \<open>Where the router sends a frame\<close>

definition is_igmp_frame :: "byte list \<Rightarrow> bool" where
  "is_igmp_frame frame \<longleftrightarrow> ntoh16 (eth_type (ethernet_header_of frame)) = 0x0800 \<and>
     (case ipv4_check (drop 14 frame) of None \<Rightarrow> False | Some (hdr, b) \<Rightarrow> ip4_protocol hdr = 2)"

text \<open>The peers of the groups whose low 23 bits are those of the multicast address, one for each group.\<close>

definition subscribers :: "router \<Rightarrow> byte list \<Rightarrow> nat list" where
  "subscribers R dest = concat (map (\<lambda>p. map (\<lambda>g. p)
     (filter (\<lambda>g. compute_sig_for_group g = compute_sig_for_mac dest) (r_groups R p))) (r_peers R))"

definition routed :: "router \<Rightarrow> byte list \<Rightarrow> nat list \<Rightarrow> bool" where
  "routed R frame ps \<longleftrightarrow>
     (let dest = take 6 frame in
      if length frame < 14 then ps = []
      else if is_igmp_frame frame \<or> dest = broadcast_mac then ps = r_peers R
      else if take 3 dest = [0x01, 0x00, 0x5e] then mset ps = mset (subscribers R dest)
      else if \<exists>p. dest \<in> set (r_macs R p) then (\<forall>p. dest \<in> set (r_macs R p) \<longrightarrow> ps = [p])
      else ps = r_peers R)"

lemma decide_analyze_igmp: "fst (decide_analyze frame) = is_igmp_frame frame"
  by (auto simp: decide_analyze_def is_igmp_frame_def split: option.split)

lemma routed_iff: "router_of d = R \<Longrightarrow> frame_destinations d frame ps \<longleftrightarrow> routed R frame ps"
  by (auto simp: router_of_def frame_destinations_def destinations_ok_def routed_def subscribers_def
      multicast_copies_def decide_analyze_igmp Let_def)

lemma fd_reach_yields:
  "fd_yields d ps d' \<Longrightarrow> fd_reach n k interval lmqt d R \<Longrightarrow> fd_reach n k interval lmqt d' R"
proof (induction ps arbitrary: d)
  case Nil
  then show ?case using fd_reach_step [of n k interval lmqt d R FD_Next d'] by simp
next
  case (Cons p ps)
  then obtain d1 where d1: "FrameDecider_NextDestination d = Some (Some p, d1)" "fd_yields d1 ps d'" by auto
  then have "fd_reach n k interval lmqt d1 R"
    using fd_reach_step [OF Cons.prems(2), of FD_Next d1] by simp
  then show ?case using Cons.IH [OF d1(2)] by blast
qed

section \<open>A concrete run\<close>

text \<open>Two peers; the second one sends an IGMP report for the group 224.0.0.251.\<close>

definition report_frame :: "byte list" where
  "report_frame = [0x01, 0x00, 0x5e, 0, 0, 0xfb, 2, 0, 0, 0, 0, 2, 0x08, 0x00,
     0x45, 0, 0, 0x1c, 0, 0, 0, 0, 1, 2, 0xce, 0xe3, 10, 0, 0, 2, 0xe0, 0, 0, 0xfb,
     0x16, 0, 0, 0, 0xe0, 0, 0, 0xfb]"

definition mdns_group :: u32 where "mdns_group = mk32 0xe0 0 0 0xfb"

definition two_peers :: router where
  "two_peers = \<lparr>r_peers = [1, 2], r_macs = (\<lambda>p. []), r_groups = (\<lambda>p. [])\<rparr>"

definition joined_peers :: router where
  "joined_peers = \<lparr>r_peers = [1, 2], r_macs = (\<lambda>p. [])(2 := [[2, 0, 0, 0, 0, 2]]),
     r_groups = (\<lambda>p. [])(2 := [mdns_group])\<rparr>"

lemma report_frame_simps:
  "reported_groups report_frame = [mdns_group]" "seg report_frame 6 6 = [2, 0, 0, 0, 0, 2]"
  "length report_frame = 42" "take 6 report_frame = [0x01, 0x00, 0x5e, 0, 0, 0xfb]"
  by code_simp+

lemma joined_peers_step:
  "router_step 2 2 two_peers (FD_Analyze 2 report_frame (\<lambda>i. 0)) = joined_peers"
  by (simp add: two_peers_def joined_peers_def report_frame_simps learn_mac_def lru_add_def fun_eq_iff)

lemma two_peers_reached:
  "\<exists>d. fd_reach 2 2 260000 2000 d two_peers \<and> fd_decide_state d = DECIDE_STATE_NONE"
proof -
  obtain d0 where d0: "FrameDecider_Init 2 2 260000 2000 = Some d0" "fd_peers d0 = Map.empty"
    "fd_macs d0 = Map.empty" "fd_groups d0 = Map.empty" "fd_max_peer_macs d0 = 2" "fd_max_peer_groups d0 = 2"
    "fd_decide_state d0 = DECIDE_STATE_NONE"
    by (simp add: FrameDecider_Init_def assert_that_def)
  let ?a = "FD_PeerInit 1 (Some 10) (Some 20)" and ?b = "FD_PeerInit 2 (Some 30) (Some 40)"
  let ?d1 = "snd (FrameDeciderPeer_Init d0 1 (Some 10) (Some 20))"
  let ?d2 = "snd (FrameDeciderPeer_Init ?d1 2 (Some 30) (Some 40))"
  have "fd_reach 2 2 260000 2000 ?d1
      (router_step 2 2 \<lparr>r_peers = [], r_macs = (\<lambda>p. []), r_groups = (\<lambda>p. [])\<rparr> ?a)"
    by (rule fd_reach_step [OF fd_reach_init [OF d0(1)]]) (simp_all add: d0 fresh_block_def)
  then have "fd_reach 2 2 260000 2000 ?d2 (router_step 2 2
      (router_step 2 2 \<lparr>r_peers = [], r_macs = (\<lambda>p. []), r_groups = (\<lambda>p. [])\<rparr> ?a) ?b)"
    by (rule fd_reach_step)
      (auto simp: FrameDeciderPeer_Init_def d0 fresh_block_def init_macs_def init_groups_def)
  moreover have "fd_decide_state ?d2 = DECIDE_STATE_NONE" by (simp add: FrameDeciderPeer_Init_def d0)
  ultimately show ?thesis by (auto simp: two_peers_def)
qed

lemma joined_peers_reached:
  "\<exists>d. fd_reach 2 2 260000 2000 d joined_peers \<and> fd_decide_state d = DECIDE_STATE_NONE"
proof -
  obtain d where d: "fd_reach 2 2 260000 2000 d two_peers" "fd_decide_state d = DECIDE_STATE_NONE"
    using two_peers_reached by blast
  let ?ev = "FD_Analyze 2 report_frame (\<lambda>i. 0)"
  obtain L C where inv: "fd_inv d L C" and R: "router_of d = two_peers"
    using fd_reach_ok [OF d(1)] unfolding fd_ok_def by blast
  have l: "2 \<in> set (fd_peers_list d)" using R by (simp add: router_of_def two_peers_def)
  then have "2 \<in> dom (fd_peers d)" using fd_invD(4) [OF inv] by simp
  from FrameDeciderPeer_Analyze_fd [OF inv this, of report_frame "\<lambda>i. 0"] obtain d' where
    d': "FrameDeciderPeer_Analyze d 2 report_frame (\<lambda>i. 0) = Some d'" "fd_decide_state d' = fd_decide_state d" by blast
  have "fd_reach 2 2 260000 2000 d' (router_step 2 2 two_peers ?ev)"
    by (rule fd_reach_step [OF d(1)]) (simp_all add: l d'(1))
  then show ?thesis using d'(2) d(2) unfolding joined_peers_step by auto
qed

section \<open>The properties\<close>

text \<open>C39. In every state the calls of the client lead to, every call it may make returns: no
  assertion fails and no freed or foreign memory is read. The peers, their MAC addresses and their
  multicast groups are those of the abstract router that was given the same calls: an address
  belongs to the peer that used it last, a peer keeps the most recent ones, a group goes when its
  timer expires. A destination handed out is a peer that is there, and with no peers the decider
  can be freed.\<close>

theorem FrameDecider_refines:
  assumes "fd_reach n k interval lmqt d R"
  shows "router_of d = R \<and>
    (\<forall>ev. fd_enabled d ev \<longrightarrow> (\<exists>d'. fd_step d ev = Some d' \<and> router_of d' = router_step n k R ev)) \<and>
    (\<forall>p. length (r_macs R p) \<le> n \<and> length (r_groups R p) \<le> k) \<and>
    (\<forall>m p q. m \<in> set (r_macs R p) \<and> m \<in> set (r_macs R q) \<longrightarrow> p = q \<and> p \<in> set (r_peers R)) \<and>
    (\<exists>r d'. FrameDecider_NextDestination d = Some (r, d') \<and> (\<forall>p. r = Some p \<longrightarrow> p \<in> set (r_peers R))) \<and>
    (r_peers R = [] \<longrightarrow> FrameDecider_Free d = Some ())"
proof -
  have ok: "fd_ok n k d R" by (rule fd_reach_ok [OF assms])
  then obtain L C where inv: "fd_inv d L C" and R: "router_of d = R"
    and m: "fd_max_peer_macs d = n" "fd_max_peer_groups d = k" unfolding fd_ok_def by blast
  have r: "r_peers R = fd_peers_list d" "r_macs R = macs_table d" "r_groups R = groups_table d"
    using R by (auto simp: router_of_def)
  have step: "\<exists>d'. fd_step d ev = Some d' \<and> router_of d' = router_step n k R ev" if "fd_enabled d ev" for ev
    using fd_ok_step [OF ok that] unfolding fd_ok_def by blast
  have one: "p = q \<and> p \<in> set (fd_peers_list d)" if "x \<in> set (macs_table d p)" "x \<in> set (macs_table d q)" for x p q
    using fd_inv_bounds(3) [OF inv that] fd_inv_bounds(4) [OF inv, of p] that(1) by (metis empty_iff list.set(1))
  have dest: "\<exists>r d'. FrameDecider_NextDestination d = Some (r, d') \<and> (\<forall>p. r = Some p \<longrightarrow> p \<in> set (fd_peers_list d))"
    using FrameDecider_NextDestination_fd [OF inv] fd_invD(4) [OF inv] by blast
  show ?thesis
    unfolding r using R step fd_inv_bounds(1,2) [OF inv] one dest FrameDecider_Free_fd [OF inv]
    by (simp only: m) blast
qed

text \<open>When the timer of the group expires the peer has left it, and its address is still known.\<close>

theorem FrameDecider_refines_witness:
  "\<exists>d d'. fd_reach 2 2 260000 2000 d joined_peers \<and> fd_step d (FD_Timer 2 mdns_group) = Some d' \<and>
     r_groups (router_of d') 2 = [] \<and> r_macs (router_of d') 2 = [[2, 0, 0, 0, 0, 2]]"
proof -
  obtain d where d: "fd_reach 2 2 260000 2000 d joined_peers" using joined_peers_reached by blast
  note r = FrameDecider_refines [OF d]
  then have "groups_table d 2 = [mdns_group]" by (auto simp: router_of_def joined_peers_def)
  then have "fd_enabled d (FD_Timer 2 mdns_group)" by simp
  then obtain d' where "fd_step d (FD_Timer 2 mdns_group) = Some d'"
    "router_of d' = router_step 2 2 joined_peers (FD_Timer 2 mdns_group)" using r by blast
  then show ?thesis using d by (intro exI [of _ d] exI [of _ d']) (simp add: joined_peers_def)
qed

text \<open>C40. In every such state with no multicast decision open, reading a frame from the device ends
  and sends it to exactly these peers, marking all but the last one with \<open>more\<close>: a frame shorter
  than an Ethernet header to none; IGMP and broadcast to all peers in order; a multicast address to
  the peers with a group of the same low 23 bits, once for each such group; a known address to its
  peer alone; and any other address to all peers. Afterwards no decision is open and the router is
  as before.\<close>

theorem FrameDecider_forwards:
  assumes "fd_reach n k interval lmqt d R" "fd_decide_state d \<noteq> DECIDE_STATE_MULTICAST"
  shows "\<exists>ps d'. device_dpsource_handler d frame clock = Some (with_more ps, d') \<and> routed R frame ps \<and>
    fd_reach n k interval lmqt d' R \<and> fd_decide_state d' = DECIDE_STATE_NONE"
proof -
  obtain L C where inv: "fd_inv d L C" and R: "router_of d = R"
    using fd_reach_ok [OF assms(1)] unfolding fd_ok_def by blast
  from AnalyzeAndDecide_fd [OF inv assms(2), of frame clock] obtain d1 ps d' where
    d1: "FrameDecider_AnalyzeAndDecide d frame clock = Some d1" "fd_yields d1 ps d'"
      "frame_destinations d frame ps" "fd_decide_state d' = DECIDE_STATE_NONE" by blast
  have "fd_reach n k interval lmqt d1 R"
    using fd_reach_step [OF assms(1), of "FD_Decide frame clock" d1] assms(2) d1(1) by simp
  then have "fd_reach n k interval lmqt d' R" by (rule fd_reach_yields [OF d1(2)])
  then show ?thesis
    using device_dpsource_handler_yields [OF d1(1,2)] d1(3,4) routed_iff [OF R] by blast
qed

text \<open>A frame for the group's multicast address goes to the second peer alone.\<close>

definition mdns_frame :: "byte list" where
  "mdns_frame = [0x01, 0x00, 0x5e, 0, 0, 0xfb, 2, 0, 0, 0, 0, 7, 0x08, 0x00, 0x45, 0]"

theorem FrameDecider_forwards_witness:
  "\<exists>d d'. fd_reach 2 2 260000 2000 d joined_peers \<and>
     device_dpsource_handler d mdns_frame (\<lambda>i. 0) = Some ([(2, False)], d')"
proof -
  obtain d where d: "fd_reach 2 2 260000 2000 d joined_peers" "fd_decide_state d = DECIDE_STATE_NONE"
    using joined_peers_reached by blast
  then have st: "fd_decide_state d \<noteq> DECIDE_STATE_MULTICAST" by simp
  obtain ps d' where r: "device_dpsource_handler d mdns_frame (\<lambda>i. 0) = Some (with_more ps, d')"
    "routed joined_peers mdns_frame ps"
    using FrameDecider_forwards [OF d(1) st] by blast
  have f: "\<not> length mdns_frame < 14" "\<not> is_igmp_frame mdns_frame"
    "take 6 mdns_frame \<noteq> broadcast_mac" "take 3 (take 6 mdns_frame) = [0x01, 0x00, 0x5e]"
    "compute_sig_for_group mdns_group = compute_sig_for_mac (take 6 mdns_frame)"
    by code_simp+
  have "subscribers joined_peers (take 6 mdns_frame) = [2]"
    using f(5) by (simp add: subscribers_def joined_peers_def)
  then have "mset ps = {#2#}" using r(2) f(1-4) by (simp add: routed_def Let_def)
  then have "ps = [2]" by simp
  then show ?thesis using d(1) r(1) by auto
qed

end
