(* ===== verification/Spec2Isabelle.thy ===== *)
theory Spec2Isabelle
  imports TunUdpProps FlowProps PacketBufferProps FairQueueProps TcpClientProps UdpGwClientProps
    SocksUdpGwProps BSocksClientProps SocksUdpClientProps BAVLProps FragmentLink FrameDeciderProps
begin

text \<open>
  This library verifies the C core of the \<open>tun2socks\<close> program of the Android client, under
  \<open>src/v2ray/v2rayNG/badvpn\<close>, and two parts of the P2P VPN client of the same tree, its
  fragmentation protocol and its switch. \<open>tun2socks\<close> reads IP packets from a TUN device. TCP packets go to
  lwIP, a TCP/IP stack linked into it; each connection lwIP accepts is relayed to a SOCKS5 server.
  UDP packets are parsed by the program itself and relayed by one of two clients, over a UDP gateway
  or over SOCKS UDP; the replies are written to the device as new packets. All of it runs in one
  thread on an event loop, out of objects that call each other through jobs and callbacks.

  The build that is modelled is the one of \<open>v2rayNG/tun2socks.mk\<close>: Linux, little-endian, with
  \<open>__ANDROID__\<close>. There \<open>NDEBUG\<close> turns assertions off; the model keeps them, since what they state
  is what the code relies on, and proves that they hold.

  \<^bold>\<open>How the code is modelled.\<close> A C function is a definition of the same name. A struct is a record
  and a tagged union a datatype, objects on the heap are maps from addresses to records, bytes and
  the integers of packets are words, and other \<open>int\<close>s are \<open>int\<close> or \<open>nat\<close> where the bounds proved
  here keep them in range. A function that may fail an assertion, or touch memory that is not
  there, returns an option, and \<open>None\<close> is that failure (\<open>assert_that\<close> in \<open>Prelude\<close>). The calls a
  function makes on other objects are either performed on their model in the same state or listed
  as actions in its result; what the operating system, lwIP and \<open>malloc\<close> answer are arguments, so
  that a theorem holds for every answer. The environment of a component is an inductive relation
  or a run over lists of events, with a predicate for the events the other side may cause
  (\<open>tt_enabled\<close>, \<open>ug_enabled\<close>, ...); it says what the interfaces document and no more.

  \<^bold>\<open>Theories.\<close>
  \<^item> \<open>Prelude\<close>: integer types, memory images of packed structs, assertions, list lemmas.
  \<^item> \<open>NetProto\<close>: byte order, IPv4, IPv6 and UDP headers with their checksums
    (\<open>misc/byteorder.h\<close>, \<open>misc/ipv4_proto.h\<close>, \<open>misc/ipv6_proto.h\<close>, \<open>misc/udp_proto.h\<close>).
  \<^item> \<open>BAddr\<close>: socket addresses (\<open>system/BAddr.h\<close>) and that their comparison is a linear order.
  \<^item> \<open>TunUdp\<close>, \<open>TunUdpProps\<close>: the UDP path of \<open>tun2socks/tun2socks.c\<close>, from \<open>device_read_handler_send\<close>
    and \<open>process_device_udp_packet\<close> to \<open>udp_send_packet_to_device\<close>. Packets parse back to what they
    were built from, accepted packets have valid checksums, and the places where the checksum code
    is wrong are located exactly.
  \<^item> \<open>BPending\<close>: the job list (\<open>base/BPending.c\<close>) with the locale \<open>job_queue\<close>, its contract.
  \<^item> \<open>FlowInterfaces\<close>, \<open>FlowProps\<close>: the four flow interfaces (\<open>flow/*Interface.c\<close>) on the job list;
    under the documented protocol nothing fails and data arrives once and in order.
  \<^item> \<open>PacketProto\<close>: framing over a stream (\<open>flow/PacketProtoEncoder.c\<close>, \<open>flow/PacketProtoDecoder.c\<close>),
    against a reference parser, with any fragmentation.
  \<^item> \<open>ChunkBuffer2\<close>, \<open>ChunkBufferFifo\<close>, \<open>PacketBuffer\<close>, \<open>PacketBufferProps\<close>: the circular packet buffer
    (\<open>structure/ChunkBuffer2.h\<close>), its refinement of a queue as the locale \<open>packet_queue\<close>, and the
    buffers built on it (\<open>flow/PacketBuffer.c\<close>, \<open>flow/SinglePacketBuffer.c\<close>, \<open>flow/BufferWriter.c\<close>).
  \<^item> \<open>FairQueue\<close>, \<open>FairQueueProps\<close>: weighted fair queuing (\<open>flow/PacketPassFairQueue.c\<close>) with its 64-bit
    virtual times.
  \<^item> \<open>TcpClient\<close>, \<open>TcpClientInv\<close>, \<open>TcpClientTeardown\<close>, \<open>TcpClientRelay\<close>, \<open>TcpClientCallbacks\<close>,
    \<open>TcpClientSys\<close>, \<open>TcpClientProps\<close>: the TCP clients of \<open>tun2socks/tun2socks.c\<close> (\<open>listener_accept_func\<close>
    to \<open>client_sent_func\<close>) with their heap, dead markers and reference cases; the invariant, taking
    a client down, passing data on, the callbacks of lwIP, and the system of all clients.
  \<^item> \<open>UdpGwClient\<close>, \<open>UdpGwClientInv\<close>, \<open>UdpGwClientProps\<close>: the UDP gateway client
    (\<open>udpgw_client/UdpGwClient.c\<close>, \<open>protocol/udpgw_proto.h\<close>): tables, connection ids, reuse of the
    least recently used connection, packet formats. What was submitted is a log beside the state
    (\<open>ug_logged\<close>), so that what goes out is compared with it and not with what was stored.
  \<^item> \<open>SocksUdpHeader\<close>, \<open>SocksUdpGwClient\<close>, \<open>SocksUdpGwProps\<close>: the UDP relay of the Android build
    (\<open>tun2socks/SocksUdpGwClient.c\<close>), with such a log too (\<open>sg_logged\<close>).
  \<^item> \<open>BSocksClient\<close>, \<open>BSocksClientProps\<close>: the SOCKS5 client (\<open>socksclient/BSocksClient.c\<close>,
    \<open>misc/socks_proto.h\<close>) against a reference definition of the dialogue.
  \<^item> \<open>SocksUdpClient\<close>, \<open>SocksUdpClientInv\<close>, \<open>SocksUdpClientProps\<close>: the SOCKS5 UDP client
    (\<open>socks_udp_client/SocksUdpClient.c\<close>), with the SOCKS client of each of its connections: its
    connections, the association of each, and when a DNS query's port is given up early.
  \<^item> \<open>BAVL\<close>, \<open>BAVLTree\<close>, \<open>BAVLBalance\<close>, \<open>BAVLSwap\<close>, \<open>BAVLOps\<close>, \<open>BAVLTable\<close>, \<open>BAVLProps\<close>: the AVL trees
    (\<open>structure/BAVL.h\<close>) as nodes in a heap with parent pointers; the heap as a binary tree,
    rebalancing, the node swap of a removal, each operation against the sorted list of nodes, the
    locales \<open>comparator\<close> and \<open>sorted_table\<close> with the program's comparators as interpretations, and
    that the tables of \<open>SocksUdpClient\<close> are what such a tree computes.
  \<^item> \<open>FragmentProto\<close>, \<open>FragmentAssembler\<close>, \<open>FragmentAssemblerInv\<close>, \<open>FragmentSystem\<close>, \<open>FragmentProps\<close>,
    \<open>FragmentRoundtrip\<close>, \<open>FragmentLink\<close>: splitting of packets into chunks and their reassembly
    (\<open>client/FragmentProtoDisassembler.c\<close>, \<open>client/FragmentProtoAssembler.c\<close>): safety against any
    input, and the round trip over a link that loses nothing.
  \<^item> \<open>LinkedList3\<close>: the lists with iterators of \<open>structure/LinkedList3.h\<close> on a heap.
  \<^item> \<open>FrameDecider\<close>, \<open>FrameDeciderInv\<close>, \<open>FrameDeciderGroups\<close>, \<open>FrameDeciderSys\<close>, \<open>FrameDeciderRoute\<close>,
    \<open>FrameDeciderProps\<close>: the switch of the P2P VPN (\<open>client/FrameDecider.c\<close>, and
    \<open>device_dpsource_handler\<close> of \<open>client/client.c\<close>): MAC addresses, multicast groups and timers with
    the invariant of both tables; peers that come and go; the refinement of an abstract router and
    where it sends a frame.

  \<^bold>\<open>Bounds.\<close> Most loops are structural recursions, or \<open>function\<close>s with a measure (\<open>fold_carry\<close>,
  \<open>write_loop\<close>, \<open>client_handle_freed_client\<close>, \<open>write_chunks_loop\<close>, \<open>process_input_loop\<close>). Loops with
  no bound of their own are \<open>partial_function (option)\<close>, where not returning is \<open>None\<close> like a failed
  assertion: \<open>find_unused_conid_loop\<close>, the walks of \<open>BAVL\<close>, \<open>LinkedList3Node_First\<close>,
  \<open>jump_iterators\<close>, \<open>lower_loop\<close> and \<open>route_loop\<close>. That they return is part of what is proved. The
  loop of \<open>SocksUdpClient_Free\<close> counts down from the number of connections; running out is a failure,
  and it is proved not to occur. The environment that reads an assembler's output (\<open>fa_pump\<close>) has as
  many rounds as the packet has bytes, which is more than it has chunks.

  \<^bold>\<open>Not modelled.\<close> lwIP is vendored code and enters as the caller and callee of the TCP clients. The
  reactor, timers, sockets and the TUN device are system calls. Logging, printing of addresses and
  \<open>DebugObject\<close> have no effect on behaviour. Of the P2P VPN
  \<open>client\<close> only the parts above are modelled; its peers, links and transports, the \<open>server\<close>,
  \<open>udpgw\<close>, \<open>ncd\<close> (an interpreter for network configuration) and \<open>dhcpclient\<close> are separate programs
  that this one does not link; the desktop client and the administration site are in other
  languages.
\<close>

end
